(* ===== verification/Prelude.thy ===== *)
theory Prelude
  imports "HOL-Library.Word"
begin

text \<open>
  Shared vocabulary of the development: C characters and byte strings, the C library's
  decimal printing, prefixes and slices of a buffer, and the lemma collections the
  component theories use.

  A byte string of the code (\<open>char *\<close> with a length, or an sds) is a list of \<open>char\<close>, an
  Isabelle \<open>char\<close> being exactly eight bits. Positions inside a buffer are \<open>nat\<close> offsets;
  integers whose width matters are words.
\<close>

unbundle bit_operations_syntax

section \<open>Types and lemma collections\<close>

type_synonym bytes = "char list"
type_synonym u8 = "8 word"
type_synonym u16 = "16 word"
type_synonym u32 = "32 word"
type_synonym u64 = "64 word"

named_theorems char_simps \<open>evaluation of the character classes of ctype.h\<close>
named_theorems dec_simps \<open>facts about decimal printing\<close>
named_theorems buf_simps \<open>reading a buffer split into a prefix and a suffix\<close>

abbreviation CR :: char where "CR \<equiv> CHR 0x0D"
abbreviation LF :: char where "LF \<equiv> CHR 0x0A"
abbreviation NUL :: char where "NUL \<equiv> CHR 0x00"
abbreviation CRLF :: bytes where "CRLF \<equiv> [CR, LF]"

section \<open>Characters\<close>

text \<open>\<open>isdigit\<close> of ctype.h in the C locale, and \<open>c - '0'\<close>.\<close>

definition isdigit :: "char \<Rightarrow> bool" where
  "isdigit c \<longleftrightarrow> 48 \<le> (of_char c :: nat) \<and> (of_char c :: nat) \<le> 57"

definition digit_val :: "char \<Rightarrow> nat" where
  "digit_val c = (of_char c :: nat) - 48"

definition digit_char :: "nat \<Rightarrow> char" where
  "digit_char d = char_of (48 + d)"

lemma of_digit_char [char_simps]: "d < 10 \<Longrightarrow> (of_char (digit_char d) :: nat) = 48 + d"
  by (simp add: digit_char_def)

lemma isdigit_digit_char [char_simps]: "d < 10 \<Longrightarrow> isdigit (digit_char d)"
  by (simp add: isdigit_def char_simps)

lemma digit_val_digit_char [char_simps]: "d < 10 \<Longrightarrow> digit_val (digit_char d) = d"
  by (simp add: digit_val_def char_simps)

lemma digit_char_digit_val: "isdigit c \<Longrightarrow> digit_char (digit_val c) = c"
  by (simp add: isdigit_def digit_val_def digit_char_def)

lemma digit_val_less: "isdigit c \<Longrightarrow> digit_val c < 10"
  by (auto simp: isdigit_def digit_val_def)

lemma isdigit_not_special [char_simps]:
  "\<not> isdigit CR" "\<not> isdigit LF" "\<not> isdigit NUL"
  "\<not> isdigit CHR ''$''" "\<not> isdigit CHR ''*''" "\<not> isdigit CHR ''-''"
  by (simp_all add: isdigit_def)

lemma isdigit_neq [char_simps]:
  "isdigit c \<Longrightarrow> c \<noteq> CR" "isdigit c \<Longrightarrow> c \<noteq> LF" "isdigit c \<Longrightarrow> c \<noteq> NUL"
  "isdigit c \<Longrightarrow> c \<noteq> CHR ''$''" "isdigit c \<Longrightarrow> c \<noteq> CHR ''*''" "isdigit c \<Longrightarrow> c \<noteq> CHR ''-''"
  using isdigit_not_special by auto

section \<open>Decimal printing\<close>

text \<open>What \<open>printf\<close> writes for \<open>%u\<close>, \<open>%zu\<close> or a non-negative \<open>%d\<close>.\<close>

fun dec :: "nat \<Rightarrow> bytes" where
  "dec n = (if n < 10 then [digit_char n] else dec (n div 10) @ [digit_char (n mod 10)])"

declare dec.simps [simp del]

definition dec_int :: "int \<Rightarrow> bytes" where
  "dec_int i = (if i < 0 then ''-'' @ dec (nat (- i)) else dec (nat i))"

definition digits_value :: "nat \<Rightarrow> bytes \<Rightarrow> nat" where
  "digits_value a ds = foldl (\<lambda>v c. v * 10 + digit_val c) a ds"

lemma digits_value_simps [simp]:
  "digits_value a [] = a"
  "digits_value a (c # ds) = digits_value (a * 10 + digit_val c) ds"
  "digits_value a (ds @ [c]) = digits_value a ds * 10 + digit_val c"
  by (simp_all add: digits_value_def)

lemma dec_not_Nil [simp, dec_simps]: "dec n \<noteq> []"
  by (subst dec.simps) simp

lemma dec_digits [dec_simps]: "c \<in> set (dec n) \<Longrightarrow> isdigit c"
proof (induction n rule: dec.induct)
  case (1 n)
  then show ?case
    by (subst (asm) (2) dec.simps) (auto simp: char_simps split: if_splits)
qed

lemma digits_value_dec [dec_simps]: "digits_value 0 (dec n) = n"
proof (induction n rule: dec.induct)
  case (1 n)
  then show ?case
    by (subst dec.simps) (auto simp: char_simps)
qed

lemma length_dec_pos [dec_simps]: "0 < length (dec n)"
  by simp

lemma dec_inj: "dec m = dec n \<Longrightarrow> m = n"
  by (metis digits_value_dec)

lemma dec_small: "n < 10 \<Longrightarrow> dec n = [digit_char n]"
  by (simp add: dec.simps)

lemma dec_large: "10 \<le> n \<Longrightarrow> dec n = dec (n div 10) @ [digit_char (n mod 10)]"
  by (subst dec.simps) simp

text \<open>The same digits accumulated in an unsigned machine integer, which wraps.\<close>

definition digits_word :: "'a::len word \<Rightarrow> bytes \<Rightarrow> 'a word" where
  "digits_word a ds = foldl (\<lambda>v c. v * 10 + of_nat (digit_val c)) a ds"

lemma digits_word_simps [simp]:
  "digits_word a [] = a"
  "digits_word a (c # ds) = digits_word (a * 10 + of_nat (digit_val c)) ds"
  by (simp_all add: digits_word_def)

lemma digits_word_of_nat: "digits_word (of_nat a) ds = of_nat (digits_value a ds)"
proof (induction ds arbitrary: a)
  case Nil
  show ?case by simp
next
  case (Cons c ds)
  have "(of_nat a :: 'a word) * 10 + of_nat (digit_val c) = of_nat (a * 10 + digit_val c)"
    by simp
  then show ?case
    by (simp only: digits_word_simps digits_value_simps Cons.IH)
qed

lemma digits_word_dec [dec_simps]: "digits_word 0 (dec n) = of_nat n"
  using digits_word_of_nat [of 0 "dec n"] by (simp add: dec_simps)

section \<open>Buffers\<close>

text \<open>The bytes at offsets \<open>i\<close> to \<open>j - 1\<close>.\<close>

definition seg :: "nat \<Rightarrow> nat \<Rightarrow> 'a list \<Rightarrow> 'a list" where
  "seg i j xs = take (j - i) (drop i xs)"

lemma seg_mid [buf_simps]: "seg (length a) (length a + length b) (a @ b @ c) = b"
  by (simp add: seg_def)

lemma length_seg: "j \<le> length xs \<Longrightarrow> length (seg i j xs) = j - i"
  by (simp add: seg_def)

lemma seg_append_left: "j \<le> length xs \<Longrightarrow> seg i j (xs @ ys) = seg i j xs"
  by (cases "i \<le> j") (simp_all add: seg_def)

lemma seg_shift: "seg (length a + i) (length a + j) (a @ xs) = seg i j xs"
  by (simp add: seg_def)

lemma nth_append_here [buf_simps]: "p = length a \<Longrightarrow> (a @ x # b) ! p = x"
  by simp

text \<open>The C string held by an array: everything before the first NUL.\<close>

definition cstr :: "bytes \<Rightarrow> bytes" where
  "cstr buf = takeWhile (\<lambda>c. c \<noteq> NUL) buf"

lemma cstr_append: "NUL \<notin> set s \<Longrightarrow> cstr (s @ NUL # r) = s"
proof -
  assume "NUL \<notin> set s"
  then have "takeWhile (\<lambda>c. c \<noteq> NUL) (s @ NUL # r) = s @ takeWhile (\<lambda>c. c \<noteq> NUL) (NUL # r)"
    by (intro takeWhile_append2) auto
  then show ?thesis by (simp add: cstr_def)
qed

end
