(* ===== verification/Hiutil.thy ===== *)
theory Hiutil
  imports Prelude
begin

text \<open>
  The number helpers of \<open>hiutil.c\<close>: \<open>_hi_atoi\<close>, \<open>_hi_itoa\<close> (with the in-place reversal of
  its digit buffer), \<open>hi_valid_port\<close>, \<open>_uint_len\<close>, and the truncation rule of
  \<open>_vscnprintf\<close>. A \<open>char[]\<close> buffer is the list of its cells.
\<close>

section \<open>Return codes\<close>

definition HI_OK :: int where "HI_OK = 0"
definition HI_ERROR :: int where "HI_ERROR = -1"
definition HI_EAGAIN :: int where "HI_EAGAIN = -2"
definition HI_ENOMEM :: int where "HI_ENOMEM = -3"

lemmas hi_codes = HI_OK_def HI_ERROR_def HI_EAGAIN_def HI_ENOMEM_def

section \<open>\<open>_hi_atoi\<close>\<close>

text \<open>
  \<open>value\<close> is a 32-bit \<open>int\<close>; its overflow is written as wrap-around, and the sign test
  after the loop reads the wrapped value.
\<close>

fun hi_atoi_loop :: "bytes \<Rightarrow> u32 \<Rightarrow> u32 option" where
  "hi_atoi_loop [] v = Some v"
| "hi_atoi_loop (c # cs) v =
     (if (of_char c :: nat) < 48 \<or> 57 < (of_char c :: nat) then None
      else hi_atoi_loop cs (v * 10 + of_nat (digit_val c)))"

definition hi_atoi :: "bytes \<Rightarrow> nat \<Rightarrow> int" where
  "hi_atoi line n =
     (if n = 0 then -1
      else case hi_atoi_loop (take n line) 0 of
             None \<Rightarrow> -1
           | Some v \<Rightarrow> if sint v < 0 then -1 else sint v)"

lemma hi_atoi_loop_digits:
  "(\<forall>c\<in>set cs. isdigit c) \<Longrightarrow> hi_atoi_loop cs v = Some (digits_word v cs)"
  by (induction cs arbitrary: v) (auto simp: isdigit_def)

lemma hi_atoi_loop_nondigit: "c \<in> set cs \<Longrightarrow> \<not> isdigit c \<Longrightarrow> hi_atoi_loop cs v = None"
  by (induction cs arbitrary: v) (auto simp: isdigit_def)

lemma sint_of_nat_small: "n < 2 ^ 31 \<Longrightarrow> sint (of_nat n :: u32) = int n"
  by (simp add: signed_of_nat signed_take_bit_int_eq_self)

lemma hi_atoi_dec: "n < 2 ^ 31 \<Longrightarrow> hi_atoi (dec n) (length (dec n)) = int n"
  by (simp add: hi_atoi_def hi_atoi_loop_digits dec_simps sint_of_nat_small)

lemma hi_atoi_rejects:
  "c \<in> set (take n line) \<Longrightarrow> \<not> isdigit c \<Longrightarrow> hi_atoi line n = -1"
  by (auto simp: hi_atoi_def hi_atoi_loop_nondigit)

lemma hi_atoi_range: "-1 \<le> hi_atoi line n" "hi_atoi line n < 2 ^ 31"
proof -
  have "sint v < 2 ^ 31" for v :: u32
    using sint_lt [of v] by simp
  then show "-1 \<le> hi_atoi line n" "hi_atoi line n < 2 ^ 31"
    by (auto simp: hi_atoi_def split: option.split)
qed

section \<open>\<open>_hi_itoa\<close>\<close>

text \<open>
  The digit loop writes the least significant digit first, shifting the cell it overwrites
  one to the right; \<open>num % 10 || num / 10\<close> is false exactly at zero.
\<close>

function itoa_loop :: "bytes \<Rightarrow> nat \<Rightarrow> nat \<Rightarrow> bytes \<times> nat" where
  "itoa_loop s len num =
     (if num mod 10 \<noteq> 0 \<or> num div 10 \<noteq> 0
      then itoa_loop ((s[len + 1 := s ! len])[len := digit_char (num mod 10)]) (len + 1) (num div 10)
      else (s, len))"
  by pat_completeness auto
termination
  by (relation "measure (\<lambda>(s, len, num). num)") auto

declare itoa_loop.simps [simp del]

text \<open>\<open>for(i = 0; i < len/2; i ++)\<close>: the two cells at distance \<open>i\<close> from the ends are swapped.\<close>

function reverse_loop :: "bytes \<Rightarrow> nat \<Rightarrow> nat \<Rightarrow> bytes" where
  "reverse_loop s len i =
     (if i < len div 2
      then reverse_loop ((s[i := s ! (len - i - 1)])[len - i - 1 := s ! i]) len (i + 1)
      else s)"
  by pat_completeness auto
termination
  by (relation "measure (\<lambda>(s, len, i). len div 2 - i)") auto

declare reverse_loop.simps [simp del]

text \<open>
  \<open>hi_itoa s num\<close> is the buffer after the call. For zero the code writes the digit and
  returns at once: it does not terminate the string. (\<open>abs(INT_MIN)\<close> is undefined in C;
  the facts below are about the other values.)
\<close>

definition hi_itoa :: "bytes \<Rightarrow> int \<Rightarrow> bytes" where
  "hi_itoa s num =
     (if num = 0 then s[0 := CHR ''0'']
      else let (s1, len1) = itoa_loop s 0 (nat \<bar>num\<bar>);
               (s2, len2) = (if num < 0 then (s1[len1 := CHR ''-''], len1 + 1) else (s1, len1));
               s3 = s2[len2 := NUL]
           in reverse_loop s3 len2 0)"

lemma itoa_loop_result:
  assumes "0 < num" "len + length (dec num) < length s"
  shows "itoa_loop s len num =
     (fst (itoa_loop s len num), len + length (dec num))
     \<and> length (fst (itoa_loop s len num)) = length s
     \<and> take (len + length (dec num)) (fst (itoa_loop s len num)) = take len s @ rev (dec num)"
  using assms
proof (induction s len num rule: itoa_loop.induct)
  case (1 s len num)
  let ?s = "(s[len + 1 := s ! len])[len := digit_char (num mod 10)]"
  have go: "num mod 10 \<noteq> 0 \<or> num div 10 \<noteq> 0" using "1.prems" by presburger
  have step: "itoa_loop s len num = itoa_loop ?s (len + 1) (num div 10)"
    using go by (subst itoa_loop.simps) simp
  have tk: "take (Suc len) (s[Suc len := s ! len, len := digit_char (num mod 10)])
      = take len s @ [digit_char (num mod 10)]"
    using "1.prems" by (simp add: take_Suc_conv_app_nth)
  show ?case
  proof (cases "num < 10")
    case True
    then have "itoa_loop ?s (len + 1) (num div 10) = (?s, len + 1)"
      by (subst itoa_loop.simps) simp
    then show ?thesis using True tk by (simp add: step dec_small)
  next
    case False
    then have d: "dec num = dec (num div 10) @ [digit_char (num mod 10)]" by (simp add: dec_large)
    have "len + 1 + length (dec (num div 10)) < length ?s" using "1.prems" d by simp
    from "1.IH" [OF go _ this] False show ?thesis by (simp add: step d tk)
  qed
qed

lemma length_reverse_loop [simp]: "length (reverse_loop s len i) = length s"
proof (induction s len i rule: reverse_loop.induct)
  case (1 s len i)
  then show ?case by (subst reverse_loop.simps) simp
qed

lemma reverse_loop_nth:
  "len \<le> length s \<Longrightarrow> k < length s \<Longrightarrow>
   reverse_loop s len i ! k = (if i \<le> k \<and> k < len - i then s ! (len - 1 - k) else s ! k)"
proof (induction s len i rule: reverse_loop.induct)
  case (1 s len i)
  show ?case
  proof (cases "i < len div 2")
    case True
    define j where "j = len - i - 1"
    have j: "i < j" "j < len" "len - (i + 1) = j" "len - i = Suc j" "len - 1 - i = j" "len - 1 - j = i"
      using True by (auto simp: j_def)
    let ?s = "(s[i := s ! j])[j := s ! i]"
    have "reverse_loop s len i ! k = reverse_loop ?s len (i + 1) ! k"
      using True by (subst reverse_loop.simps) (simp add: j_def)
    also have "\<dots> = (if i + 1 \<le> k \<and> k < j then ?s ! (len - 1 - k) else ?s ! k)"
      using "1.IH" [OF True] "1.prems" by (simp add: j_def)
    also have "\<dots> = (if i \<le> k \<and> k < Suc j then s ! (len - 1 - k) else s ! k)"
    proof (cases "k = i \<or> k = j")
      case True
      with "1.prems" j show ?thesis by auto
    next
      case False
      moreover have "len - 1 - k \<noteq> i" "len - 1 - k \<noteq> j" if "i < k" "k < j"
        using that j by linarith+
      ultimately show ?thesis using "1.prems" by auto
    qed
    also have "\<dots> = (if i \<le> k \<and> k < len - i then s ! (len - 1 - k) else s ! k)"
      by (simp only: j)
    finally show ?thesis .
  next
    case False
    have "s ! k = s ! (len - 1 - k)" if "i \<le> k" "k < len - i"
      using that False by (intro arg_cong [where f = "(!) s"]) linarith
    with False show ?thesis by (subst reverse_loop.simps) auto
  qed
qed

lemma reverse_loop_is_rev: "reverse_loop (a @ r) (length a) 0 = rev a @ r"
proof (rule nth_equalityI)
  fix k assume "k < length (reverse_loop (a @ r) (length a) 0)"
  then have k: "k < length (a @ r)" by simp
  show "reverse_loop (a @ r) (length a) 0 ! k = (rev a @ r) ! k"
  proof (cases "k < length a")
    case True
    then have "length a - 1 - k < length a" by simp
    moreover have "length a - 1 - k = length a - Suc k" by simp
    ultimately show ?thesis using True k by (simp add: reverse_loop_nth nth_append rev_nth)
  next
    case False
    with k show ?thesis by (simp add: reverse_loop_nth nth_append)
  qed
qed simp

lemma hi_itoa_pos:
  assumes "0 < num" "length (dec (nat num)) < length s"
  shows "\<exists>r. hi_itoa s num = dec (nat num) @ NUL # r"
proof -
  let ?n = "nat num" let ?k = "length (dec (nat num))"
  obtain s1 where l: "itoa_loop s 0 ?n = (s1, ?k)" and len: "length s1 = length s"
    and tk: "take ?k s1 = rev (dec ?n)"
    using itoa_loop_result [of ?n 0 s] assms by (cases "itoa_loop s 0 ?n") simp
  have "?k < length s1" using len assms(2) by simp
  then obtain c r where s1: "s1 = rev (dec ?n) @ c # r"
    using id_take_nth_drop [of ?k s1] tk by metis
  have "s1[?k := NUL] = rev (dec ?n) @ NUL # r"
    by (simp add: s1 list_update_append)
  then have "hi_itoa s num = reverse_loop (rev (dec ?n) @ NUL # r) ?k 0"
    using assms(1) by (simp add: hi_itoa_def l)
  then show ?thesis using reverse_loop_is_rev [of "rev (dec ?n)"] by auto
qed

lemma cstr_hi_itoa_pos:
  assumes "0 < num" "length (dec (nat num)) < length s"
  shows "cstr (hi_itoa s num) = dec (nat num)"
proof -
  have "NUL \<notin> set (dec (nat num))" using dec_digits char_simps by blast
  then show ?thesis using hi_itoa_pos [OF assms] by (auto simp: cstr_append)
qed

lemma hi_itoa_zero: "hi_itoa (c # cs) 0 = CHR ''0'' # cs"
  by (simp add: hi_itoa_def)

section \<open>\<open>_uint_len\<close> and \<open>hi_valid_port\<close>\<close>

function uint_len_loop :: "nat \<Rightarrow> nat \<Rightarrow> nat" where
  "uint_len_loop n num = (if num \<noteq> 0 then uint_len_loop (n + 1) (num div 10) else n)"
  by pat_completeness auto
termination
  by (relation "measure snd") auto

declare uint_len_loop.simps [simp del]

definition uint_len :: "u32 \<Rightarrow> nat" where
  "uint_len num = (if num = 0 then 1 else uint_len_loop 0 (unat num))"

lemma uint_len_loop_dec: "0 < num \<Longrightarrow> uint_len_loop n num = n + length (dec num)"
proof (induction n num rule: uint_len_loop.induct)
  case (1 n num)
  show ?case
  proof (cases "num < 10")
    case True
    then have "uint_len_loop (n + 1) (num div 10) = n + 1" by (subst uint_len_loop.simps) simp
    with True "1.prems" show ?thesis by (subst uint_len_loop.simps) (simp add: dec_small)
  next
    case False
    with "1" show ?thesis by (subst uint_len_loop.simps) (simp add: dec_large)
  qed
qed

lemma uint_len_dec: "uint_len num = length (dec (unat num))"
  by (auto simp: uint_len_def uint_len_loop_dec dec_small unat_gt_0)

definition hi_valid_port :: "int \<Rightarrow> bool" where
  "hi_valid_port n \<longleftrightarrow> \<not> (n < 1 \<or> n > 65535)"

section \<open>\<open>_vscnprintf\<close>\<close>

text \<open>
  \<open>vsnprintf(buf, size, \<dots>)\<close> stores the formatted text cut to \<open>size - 1\<close> characters and
  returns the full length; \<open>_vscnprintf\<close> returns the number of characters stored.
\<close>

definition scnprintf :: "nat \<Rightarrow> bytes \<Rightarrow> bytes \<times> int" where
  "scnprintf cap text =
     (let n = int (length text)
      in (take (cap - 1) text,
          if n \<le> 0 then 0 else if n < int cap then n else int (cap - 1)))"

lemma scnprintf_length:
  "0 < cap \<Longrightarrow> snd (scnprintf cap text) = int (length (fst (scnprintf cap text)))"
  by (auto simp: scnprintf_def Let_def min_def)

end
