(* ===== verification/CmdTypes.thy ===== *)
theory CmdTypes
  imports Hiutil
begin

text \<open>
  The command types of \<open>command.h\<close>, the arity classes of \<open>command.c\<close> (\<open>redis_argz\<close> to
  \<open>redis_argeval\<close>) and the recognition of a command name inside \<open>redis_parse_cmd\<close> (the
  \<open>switch (p - m)\<close> over the length of the name, with the \<open>strNicmp\<close> macros of \<open>hiutil.h\<close>).

  The lemmas show that the nested switch, with its missing \<open>break\<close> after length 10, is a
  case-insensitive lookup in one table, that every name in the table falls into exactly one
  arity class, and that no other type is ever produced.
\<close>

section \<open>Command types\<close>

text \<open>
  A C enum is an integer: the parser compares types with \<open><\<close> and prints them with \<open>%d\<close>.
  \<open>cmd_type_codec\<close> is the list that the macro \<open>CMD_TYPE_CODEC\<close> runs over; a type is an
  index into it, and the constants below are those indexes.
\<close>

type_synonym cmd_type = nat

definition cmd_type_codec :: "string list" where
  "cmd_type_codec =
    [''UNKNOWN'', ''REQ_REDIS_DEL'', ''REQ_REDIS_EXISTS'', ''REQ_REDIS_EXPIRE'',
     ''REQ_REDIS_EXPIREAT'', ''REQ_REDIS_PEXPIRE'', ''REQ_REDIS_PEXPIREAT'',
     ''REQ_REDIS_PERSIST'', ''REQ_REDIS_PTTL'', ''REQ_REDIS_SORT'', ''REQ_REDIS_TTL'',
     ''REQ_REDIS_TYPE'', ''REQ_REDIS_APPEND'', ''REQ_REDIS_BITCOUNT'', ''REQ_REDIS_DECR'',
     ''REQ_REDIS_DECRBY'', ''REQ_REDIS_DUMP'', ''REQ_REDIS_GET'', ''REQ_REDIS_GETBIT'',
     ''REQ_REDIS_GETRANGE'', ''REQ_REDIS_GETSET'', ''REQ_REDIS_INCR'', ''REQ_REDIS_INCRBY'',
     ''REQ_REDIS_INCRBYFLOAT'', ''REQ_REDIS_MGET'', ''REQ_REDIS_MSET'', ''REQ_REDIS_PSETEX'',
     ''REQ_REDIS_RESTORE'', ''REQ_REDIS_SET'', ''REQ_REDIS_SETBIT'', ''REQ_REDIS_SETEX'',
     ''REQ_REDIS_SETNX'', ''REQ_REDIS_SETRANGE'', ''REQ_REDIS_STRLEN'', ''REQ_REDIS_HDEL'',
     ''REQ_REDIS_HEXISTS'', ''REQ_REDIS_HGET'', ''REQ_REDIS_HGETALL'', ''REQ_REDIS_HINCRBY'',
     ''REQ_REDIS_HINCRBYFLOAT'', ''REQ_REDIS_HKEYS'', ''REQ_REDIS_HLEN'', ''REQ_REDIS_HMGET'',
     ''REQ_REDIS_HMSET'', ''REQ_REDIS_HSET'', ''REQ_REDIS_HSETNX'', ''REQ_REDIS_HSCAN'',
     ''REQ_REDIS_HVALS'', ''REQ_REDIS_LINDEX'', ''REQ_REDIS_LINSERT'', ''REQ_REDIS_LLEN'',
     ''REQ_REDIS_LPOP'', ''REQ_REDIS_LPUSH'', ''REQ_REDIS_LPUSHX'', ''REQ_REDIS_LRANGE'',
     ''REQ_REDIS_LREM'', ''REQ_REDIS_LSET'', ''REQ_REDIS_LTRIM'', ''REQ_REDIS_PFADD'',
     ''REQ_REDIS_PFCOUNT'', ''REQ_REDIS_PFMERGE'', ''REQ_REDIS_RPOP'', ''REQ_REDIS_RPOPLPUSH'',
     ''REQ_REDIS_RPUSH'', ''REQ_REDIS_RPUSHX'', ''REQ_REDIS_SADD'', ''REQ_REDIS_SCARD'',
     ''REQ_REDIS_SDIFF'', ''REQ_REDIS_SDIFFSTORE'', ''REQ_REDIS_SINTER'',
     ''REQ_REDIS_SINTERSTORE'', ''REQ_REDIS_SISMEMBER'', ''REQ_REDIS_SMEMBERS'',
     ''REQ_REDIS_SMOVE'', ''REQ_REDIS_SPOP'', ''REQ_REDIS_SRANDMEMBER'', ''REQ_REDIS_SREM'',
     ''REQ_REDIS_SUNION'', ''REQ_REDIS_SUNIONSTORE'', ''REQ_REDIS_SSCAN'', ''REQ_REDIS_ZADD'',
     ''REQ_REDIS_ZCARD'', ''REQ_REDIS_ZCOUNT'', ''REQ_REDIS_ZINCRBY'',
     ''REQ_REDIS_ZINTERSTORE'', ''REQ_REDIS_ZLEXCOUNT'', ''REQ_REDIS_ZRANGE'',
     ''REQ_REDIS_ZRANGEBYLEX'', ''REQ_REDIS_ZRANGEBYSCORE'', ''REQ_REDIS_ZRANK'',
     ''REQ_REDIS_ZREM'', ''REQ_REDIS_ZREMRANGEBYRANK'', ''REQ_REDIS_ZREMRANGEBYLEX'',
     ''REQ_REDIS_ZREMRANGEBYSCORE'', ''REQ_REDIS_ZREVRANGE'', ''REQ_REDIS_ZREVRANGEBYSCORE'',
     ''REQ_REDIS_ZREVRANK'', ''REQ_REDIS_ZSCORE'', ''REQ_REDIS_ZUNIONSTORE'',
     ''REQ_REDIS_ZSCAN'', ''REQ_REDIS_EVAL'', ''REQ_REDIS_EVALSHA'', ''REQ_REDIS_PING'',
     ''REQ_REDIS_QUIT'', ''REQ_REDIS_AUTH'', ''RSP_REDIS_STATUS'', ''RSP_REDIS_ERROR'',
     ''RSP_REDIS_INTEGER'', ''RSP_REDIS_BULK'', ''RSP_REDIS_MULTIBULK'', ''SENTINEL'']"

abbreviation (input) CMD_UNKNOWN :: cmd_type where "CMD_UNKNOWN \<equiv> 0"
abbreviation (input) CMD_REQ_REDIS_DEL :: cmd_type where "CMD_REQ_REDIS_DEL \<equiv> 1"
abbreviation (input) CMD_REQ_REDIS_EXISTS :: cmd_type where "CMD_REQ_REDIS_EXISTS \<equiv> 2"
abbreviation (input) CMD_REQ_REDIS_EXPIRE :: cmd_type where "CMD_REQ_REDIS_EXPIRE \<equiv> 3"
abbreviation (input) CMD_REQ_REDIS_EXPIREAT :: cmd_type where "CMD_REQ_REDIS_EXPIREAT \<equiv> 4"
abbreviation (input) CMD_REQ_REDIS_PEXPIRE :: cmd_type where "CMD_REQ_REDIS_PEXPIRE \<equiv> 5"
abbreviation (input) CMD_REQ_REDIS_PEXPIREAT :: cmd_type where "CMD_REQ_REDIS_PEXPIREAT \<equiv> 6"
abbreviation (input) CMD_REQ_REDIS_PERSIST :: cmd_type where "CMD_REQ_REDIS_PERSIST \<equiv> 7"
abbreviation (input) CMD_REQ_REDIS_PTTL :: cmd_type where "CMD_REQ_REDIS_PTTL \<equiv> 8"
abbreviation (input) CMD_REQ_REDIS_SORT :: cmd_type where "CMD_REQ_REDIS_SORT \<equiv> 9"
abbreviation (input) CMD_REQ_REDIS_TTL :: cmd_type where "CMD_REQ_REDIS_TTL \<equiv> 10"
abbreviation (input) CMD_REQ_REDIS_TYPE :: cmd_type where "CMD_REQ_REDIS_TYPE \<equiv> 11"
abbreviation (input) CMD_REQ_REDIS_APPEND :: cmd_type where "CMD_REQ_REDIS_APPEND \<equiv> 12"
abbreviation (input) CMD_REQ_REDIS_BITCOUNT :: cmd_type where "CMD_REQ_REDIS_BITCOUNT \<equiv> 13"
abbreviation (input) CMD_REQ_REDIS_DECR :: cmd_type where "CMD_REQ_REDIS_DECR \<equiv> 14"
abbreviation (input) CMD_REQ_REDIS_DECRBY :: cmd_type where "CMD_REQ_REDIS_DECRBY \<equiv> 15"
abbreviation (input) CMD_REQ_REDIS_DUMP :: cmd_type where "CMD_REQ_REDIS_DUMP \<equiv> 16"
abbreviation (input) CMD_REQ_REDIS_GET :: cmd_type where "CMD_REQ_REDIS_GET \<equiv> 17"
abbreviation (input) CMD_REQ_REDIS_GETBIT :: cmd_type where "CMD_REQ_REDIS_GETBIT \<equiv> 18"
abbreviation (input) CMD_REQ_REDIS_GETRANGE :: cmd_type where "CMD_REQ_REDIS_GETRANGE \<equiv> 19"
abbreviation (input) CMD_REQ_REDIS_GETSET :: cmd_type where "CMD_REQ_REDIS_GETSET \<equiv> 20"
abbreviation (input) CMD_REQ_REDIS_INCR :: cmd_type where "CMD_REQ_REDIS_INCR \<equiv> 21"
abbreviation (input) CMD_REQ_REDIS_INCRBY :: cmd_type where "CMD_REQ_REDIS_INCRBY \<equiv> 22"
abbreviation (input) CMD_REQ_REDIS_INCRBYFLOAT :: cmd_type where "CMD_REQ_REDIS_INCRBYFLOAT \<equiv> 23"
abbreviation (input) CMD_REQ_REDIS_MGET :: cmd_type where "CMD_REQ_REDIS_MGET \<equiv> 24"
abbreviation (input) CMD_REQ_REDIS_MSET :: cmd_type where "CMD_REQ_REDIS_MSET \<equiv> 25"
abbreviation (input) CMD_REQ_REDIS_PSETEX :: cmd_type where "CMD_REQ_REDIS_PSETEX \<equiv> 26"
abbreviation (input) CMD_REQ_REDIS_RESTORE :: cmd_type where "CMD_REQ_REDIS_RESTORE \<equiv> 27"
abbreviation (input) CMD_REQ_REDIS_SET :: cmd_type where "CMD_REQ_REDIS_SET \<equiv> 28"
abbreviation (input) CMD_REQ_REDIS_SETBIT :: cmd_type where "CMD_REQ_REDIS_SETBIT \<equiv> 29"
abbreviation (input) CMD_REQ_REDIS_SETEX :: cmd_type where "CMD_REQ_REDIS_SETEX \<equiv> 30"
abbreviation (input) CMD_REQ_REDIS_SETNX :: cmd_type where "CMD_REQ_REDIS_SETNX \<equiv> 31"
abbreviation (input) CMD_REQ_REDIS_SETRANGE :: cmd_type where "CMD_REQ_REDIS_SETRANGE \<equiv> 32"
abbreviation (input) CMD_REQ_REDIS_STRLEN :: cmd_type where "CMD_REQ_REDIS_STRLEN \<equiv> 33"
abbreviation (input) CMD_REQ_REDIS_HDEL :: cmd_type where "CMD_REQ_REDIS_HDEL \<equiv> 34"
abbreviation (input) CMD_REQ_REDIS_HEXISTS :: cmd_type where "CMD_REQ_REDIS_HEXISTS \<equiv> 35"
abbreviation (input) CMD_REQ_REDIS_HGET :: cmd_type where "CMD_REQ_REDIS_HGET \<equiv> 36"
abbreviation (input) CMD_REQ_REDIS_HGETALL :: cmd_type where "CMD_REQ_REDIS_HGETALL \<equiv> 37"
abbreviation (input) CMD_REQ_REDIS_HINCRBY :: cmd_type where "CMD_REQ_REDIS_HINCRBY \<equiv> 38"
abbreviation (input) CMD_REQ_REDIS_HINCRBYFLOAT :: cmd_type where "CMD_REQ_REDIS_HINCRBYFLOAT \<equiv> 39"
abbreviation (input) CMD_REQ_REDIS_HKEYS :: cmd_type where "CMD_REQ_REDIS_HKEYS \<equiv> 40"
abbreviation (input) CMD_REQ_REDIS_HLEN :: cmd_type where "CMD_REQ_REDIS_HLEN \<equiv> 41"
abbreviation (input) CMD_REQ_REDIS_HMGET :: cmd_type where "CMD_REQ_REDIS_HMGET \<equiv> 42"
abbreviation (input) CMD_REQ_REDIS_HMSET :: cmd_type where "CMD_REQ_REDIS_HMSET \<equiv> 43"
abbreviation (input) CMD_REQ_REDIS_HSET :: cmd_type where "CMD_REQ_REDIS_HSET \<equiv> 44"
abbreviation (input) CMD_REQ_REDIS_HSETNX :: cmd_type where "CMD_REQ_REDIS_HSETNX \<equiv> 45"
abbreviation (input) CMD_REQ_REDIS_HSCAN :: cmd_type where "CMD_REQ_REDIS_HSCAN \<equiv> 46"
abbreviation (input) CMD_REQ_REDIS_HVALS :: cmd_type where "CMD_REQ_REDIS_HVALS \<equiv> 47"
abbreviation (input) CMD_REQ_REDIS_LINDEX :: cmd_type where "CMD_REQ_REDIS_LINDEX \<equiv> 48"
abbreviation (input) CMD_REQ_REDIS_LINSERT :: cmd_type where "CMD_REQ_REDIS_LINSERT \<equiv> 49"
abbreviation (input) CMD_REQ_REDIS_LLEN :: cmd_type where "CMD_REQ_REDIS_LLEN \<equiv> 50"
abbreviation (input) CMD_REQ_REDIS_LPOP :: cmd_type where "CMD_REQ_REDIS_LPOP \<equiv> 51"
abbreviation (input) CMD_REQ_REDIS_LPUSH :: cmd_type where "CMD_REQ_REDIS_LPUSH \<equiv> 52"
abbreviation (input) CMD_REQ_REDIS_LPUSHX :: cmd_type where "CMD_REQ_REDIS_LPUSHX \<equiv> 53"
abbreviation (input) CMD_REQ_REDIS_LRANGE :: cmd_type where "CMD_REQ_REDIS_LRANGE \<equiv> 54"
abbreviation (input) CMD_REQ_REDIS_LREM :: cmd_type where "CMD_REQ_REDIS_LREM \<equiv> 55"
abbreviation (input) CMD_REQ_REDIS_LSET :: cmd_type where "CMD_REQ_REDIS_LSET \<equiv> 56"
abbreviation (input) CMD_REQ_REDIS_LTRIM :: cmd_type where "CMD_REQ_REDIS_LTRIM \<equiv> 57"
abbreviation (input) CMD_REQ_REDIS_PFADD :: cmd_type where "CMD_REQ_REDIS_PFADD \<equiv> 58"
abbreviation (input) CMD_REQ_REDIS_PFCOUNT :: cmd_type where "CMD_REQ_REDIS_PFCOUNT \<equiv> 59"
abbreviation (input) CMD_REQ_REDIS_PFMERGE :: cmd_type where "CMD_REQ_REDIS_PFMERGE \<equiv> 60"
abbreviation (input) CMD_REQ_REDIS_RPOP :: cmd_type where "CMD_REQ_REDIS_RPOP \<equiv> 61"
abbreviation (input) CMD_REQ_REDIS_RPOPLPUSH :: cmd_type where "CMD_REQ_REDIS_RPOPLPUSH \<equiv> 62"
abbreviation (input) CMD_REQ_REDIS_RPUSH :: cmd_type where "CMD_REQ_REDIS_RPUSH \<equiv> 63"
abbreviation (input) CMD_REQ_REDIS_RPUSHX :: cmd_type where "CMD_REQ_REDIS_RPUSHX \<equiv> 64"
abbreviation (input) CMD_REQ_REDIS_SADD :: cmd_type where "CMD_REQ_REDIS_SADD \<equiv> 65"
abbreviation (input) CMD_REQ_REDIS_SCARD :: cmd_type where "CMD_REQ_REDIS_SCARD \<equiv> 66"
abbreviation (input) CMD_REQ_REDIS_SDIFF :: cmd_type where "CMD_REQ_REDIS_SDIFF \<equiv> 67"
abbreviation (input) CMD_REQ_REDIS_SDIFFSTORE :: cmd_type where "CMD_REQ_REDIS_SDIFFSTORE \<equiv> 68"
abbreviation (input) CMD_REQ_REDIS_SINTER :: cmd_type where "CMD_REQ_REDIS_SINTER \<equiv> 69"
abbreviation (input) CMD_REQ_REDIS_SINTERSTORE :: cmd_type where "CMD_REQ_REDIS_SINTERSTORE \<equiv> 70"
abbreviation (input) CMD_REQ_REDIS_SISMEMBER :: cmd_type where "CMD_REQ_REDIS_SISMEMBER \<equiv> 71"
abbreviation (input) CMD_REQ_REDIS_SMEMBERS :: cmd_type where "CMD_REQ_REDIS_SMEMBERS \<equiv> 72"
abbreviation (input) CMD_REQ_REDIS_SMOVE :: cmd_type where "CMD_REQ_REDIS_SMOVE \<equiv> 73"
abbreviation (input) CMD_REQ_REDIS_SPOP :: cmd_type where "CMD_REQ_REDIS_SPOP \<equiv> 74"
abbreviation (input) CMD_REQ_REDIS_SRANDMEMBER :: cmd_type where "CMD_REQ_REDIS_SRANDMEMBER \<equiv> 75"
abbreviation (input) CMD_REQ_REDIS_SREM :: cmd_type where "CMD_REQ_REDIS_SREM \<equiv> 76"
abbreviation (input) CMD_REQ_REDIS_SUNION :: cmd_type where "CMD_REQ_REDIS_SUNION \<equiv> 77"
abbreviation (input) CMD_REQ_REDIS_SUNIONSTORE :: cmd_type where "CMD_REQ_REDIS_SUNIONSTORE \<equiv> 78"
abbreviation (input) CMD_REQ_REDIS_SSCAN :: cmd_type where "CMD_REQ_REDIS_SSCAN \<equiv> 79"
abbreviation (input) CMD_REQ_REDIS_ZADD :: cmd_type where "CMD_REQ_REDIS_ZADD \<equiv> 80"
abbreviation (input) CMD_REQ_REDIS_ZCARD :: cmd_type where "CMD_REQ_REDIS_ZCARD \<equiv> 81"
abbreviation (input) CMD_REQ_REDIS_ZCOUNT :: cmd_type where "CMD_REQ_REDIS_ZCOUNT \<equiv> 82"
abbreviation (input) CMD_REQ_REDIS_ZINCRBY :: cmd_type where "CMD_REQ_REDIS_ZINCRBY \<equiv> 83"
abbreviation (input) CMD_REQ_REDIS_ZINTERSTORE :: cmd_type where "CMD_REQ_REDIS_ZINTERSTORE \<equiv> 84"
abbreviation (input) CMD_REQ_REDIS_ZLEXCOUNT :: cmd_type where "CMD_REQ_REDIS_ZLEXCOUNT \<equiv> 85"
abbreviation (input) CMD_REQ_REDIS_ZRANGE :: cmd_type where "CMD_REQ_REDIS_ZRANGE \<equiv> 86"
abbreviation (input) CMD_REQ_REDIS_ZRANGEBYLEX :: cmd_type where "CMD_REQ_REDIS_ZRANGEBYLEX \<equiv> 87"
abbreviation (input) CMD_REQ_REDIS_ZRANGEBYSCORE :: cmd_type where "CMD_REQ_REDIS_ZRANGEBYSCORE \<equiv> 88"
abbreviation (input) CMD_REQ_REDIS_ZRANK :: cmd_type where "CMD_REQ_REDIS_ZRANK \<equiv> 89"
abbreviation (input) CMD_REQ_REDIS_ZREM :: cmd_type where "CMD_REQ_REDIS_ZREM \<equiv> 90"
abbreviation (input) CMD_REQ_REDIS_ZREMRANGEBYRANK :: cmd_type where "CMD_REQ_REDIS_ZREMRANGEBYRANK \<equiv> 91"
abbreviation (input) CMD_REQ_REDIS_ZREMRANGEBYLEX :: cmd_type where "CMD_REQ_REDIS_ZREMRANGEBYLEX \<equiv> 92"
abbreviation (input) CMD_REQ_REDIS_ZREMRANGEBYSCORE :: cmd_type where "CMD_REQ_REDIS_ZREMRANGEBYSCORE \<equiv> 93"
abbreviation (input) CMD_REQ_REDIS_ZREVRANGE :: cmd_type where "CMD_REQ_REDIS_ZREVRANGE \<equiv> 94"
abbreviation (input) CMD_REQ_REDIS_ZREVRANGEBYSCORE :: cmd_type where "CMD_REQ_REDIS_ZREVRANGEBYSCORE \<equiv> 95"
abbreviation (input) CMD_REQ_REDIS_ZREVRANK :: cmd_type where "CMD_REQ_REDIS_ZREVRANK \<equiv> 96"
abbreviation (input) CMD_REQ_REDIS_ZSCORE :: cmd_type where "CMD_REQ_REDIS_ZSCORE \<equiv> 97"
abbreviation (input) CMD_REQ_REDIS_ZUNIONSTORE :: cmd_type where "CMD_REQ_REDIS_ZUNIONSTORE \<equiv> 98"
abbreviation (input) CMD_REQ_REDIS_ZSCAN :: cmd_type where "CMD_REQ_REDIS_ZSCAN \<equiv> 99"
abbreviation (input) CMD_REQ_REDIS_EVAL :: cmd_type where "CMD_REQ_REDIS_EVAL \<equiv> 100"
abbreviation (input) CMD_REQ_REDIS_EVALSHA :: cmd_type where "CMD_REQ_REDIS_EVALSHA \<equiv> 101"
abbreviation (input) CMD_REQ_REDIS_PING :: cmd_type where "CMD_REQ_REDIS_PING \<equiv> 102"
abbreviation (input) CMD_REQ_REDIS_QUIT :: cmd_type where "CMD_REQ_REDIS_QUIT \<equiv> 103"
abbreviation (input) CMD_REQ_REDIS_AUTH :: cmd_type where "CMD_REQ_REDIS_AUTH \<equiv> 104"
abbreviation (input) CMD_RSP_REDIS_STATUS :: cmd_type where "CMD_RSP_REDIS_STATUS \<equiv> 105"
abbreviation (input) CMD_RSP_REDIS_ERROR :: cmd_type where "CMD_RSP_REDIS_ERROR \<equiv> 106"
abbreviation (input) CMD_RSP_REDIS_INTEGER :: cmd_type where "CMD_RSP_REDIS_INTEGER \<equiv> 107"
abbreviation (input) CMD_RSP_REDIS_BULK :: cmd_type where "CMD_RSP_REDIS_BULK \<equiv> 108"
abbreviation (input) CMD_RSP_REDIS_MULTIBULK :: cmd_type where "CMD_RSP_REDIS_MULTIBULK \<equiv> 109"
abbreviation (input) CMD_SENTINEL :: cmd_type where "CMD_SENTINEL \<equiv> 110"

lemma codec_length: "length cmd_type_codec = Suc CMD_SENTINEL"
  by (simp add: cmd_type_codec_def)

section \<open>Arity classes\<close>

definition redis_argz :: "cmd_type \<Rightarrow> bool" where
  "redis_argz t \<longleftrightarrow> t \<in> set
    [CMD_REQ_REDIS_PING, CMD_REQ_REDIS_QUIT]"

definition redis_arg0 :: "cmd_type \<Rightarrow> bool" where
  "redis_arg0 t \<longleftrightarrow> t \<in> set
    [CMD_REQ_REDIS_EXISTS, CMD_REQ_REDIS_PERSIST, CMD_REQ_REDIS_PTTL, CMD_REQ_REDIS_SORT,
     CMD_REQ_REDIS_TTL, CMD_REQ_REDIS_TYPE, CMD_REQ_REDIS_DUMP, CMD_REQ_REDIS_DECR,
     CMD_REQ_REDIS_GET, CMD_REQ_REDIS_INCR, CMD_REQ_REDIS_STRLEN, CMD_REQ_REDIS_HGETALL,
     CMD_REQ_REDIS_HKEYS, CMD_REQ_REDIS_HLEN, CMD_REQ_REDIS_HVALS, CMD_REQ_REDIS_LLEN,
     CMD_REQ_REDIS_LPOP, CMD_REQ_REDIS_RPOP, CMD_REQ_REDIS_SCARD, CMD_REQ_REDIS_SMEMBERS,
     CMD_REQ_REDIS_SPOP, CMD_REQ_REDIS_ZCARD, CMD_REQ_REDIS_PFCOUNT, CMD_REQ_REDIS_AUTH]"

definition redis_arg1 :: "cmd_type \<Rightarrow> bool" where
  "redis_arg1 t \<longleftrightarrow> t \<in> set
    [CMD_REQ_REDIS_EXPIRE, CMD_REQ_REDIS_EXPIREAT, CMD_REQ_REDIS_PEXPIRE,
     CMD_REQ_REDIS_PEXPIREAT, CMD_REQ_REDIS_APPEND, CMD_REQ_REDIS_DECRBY, CMD_REQ_REDIS_GETBIT,
     CMD_REQ_REDIS_GETSET, CMD_REQ_REDIS_INCRBY, CMD_REQ_REDIS_INCRBYFLOAT,
     CMD_REQ_REDIS_SETNX, CMD_REQ_REDIS_HEXISTS, CMD_REQ_REDIS_HGET, CMD_REQ_REDIS_LINDEX,
     CMD_REQ_REDIS_LPUSHX, CMD_REQ_REDIS_RPOPLPUSH, CMD_REQ_REDIS_RPUSHX,
     CMD_REQ_REDIS_SISMEMBER, CMD_REQ_REDIS_ZRANK, CMD_REQ_REDIS_ZREVRANK, CMD_REQ_REDIS_ZSCORE]"

definition redis_arg2 :: "cmd_type \<Rightarrow> bool" where
  "redis_arg2 t \<longleftrightarrow> t \<in> set
    [CMD_REQ_REDIS_GETRANGE, CMD_REQ_REDIS_PSETEX, CMD_REQ_REDIS_SETBIT, CMD_REQ_REDIS_SETEX,
     CMD_REQ_REDIS_SETRANGE, CMD_REQ_REDIS_HINCRBY, CMD_REQ_REDIS_HINCRBYFLOAT,
     CMD_REQ_REDIS_HSET, CMD_REQ_REDIS_HSETNX, CMD_REQ_REDIS_LRANGE, CMD_REQ_REDIS_LREM,
     CMD_REQ_REDIS_LSET, CMD_REQ_REDIS_LTRIM, CMD_REQ_REDIS_SMOVE, CMD_REQ_REDIS_ZCOUNT,
     CMD_REQ_REDIS_ZLEXCOUNT, CMD_REQ_REDIS_ZINCRBY, CMD_REQ_REDIS_ZREMRANGEBYLEX,
     CMD_REQ_REDIS_ZREMRANGEBYRANK, CMD_REQ_REDIS_ZREMRANGEBYSCORE, CMD_REQ_REDIS_RESTORE]"

definition redis_arg3 :: "cmd_type \<Rightarrow> bool" where
  "redis_arg3 t \<longleftrightarrow> t \<in> set
    [CMD_REQ_REDIS_LINSERT]"

definition redis_argn :: "cmd_type \<Rightarrow> bool" where
  "redis_argn t \<longleftrightarrow> t \<in> set
    [CMD_REQ_REDIS_BITCOUNT, CMD_REQ_REDIS_SET, CMD_REQ_REDIS_HDEL, CMD_REQ_REDIS_HMGET,
     CMD_REQ_REDIS_HMSET, CMD_REQ_REDIS_HSCAN, CMD_REQ_REDIS_LPUSH, CMD_REQ_REDIS_RPUSH,
     CMD_REQ_REDIS_SADD, CMD_REQ_REDIS_SDIFF, CMD_REQ_REDIS_SDIFFSTORE, CMD_REQ_REDIS_SINTER,
     CMD_REQ_REDIS_SINTERSTORE, CMD_REQ_REDIS_SREM, CMD_REQ_REDIS_SUNION,
     CMD_REQ_REDIS_SUNIONSTORE, CMD_REQ_REDIS_SRANDMEMBER, CMD_REQ_REDIS_SSCAN,
     CMD_REQ_REDIS_PFADD, CMD_REQ_REDIS_PFMERGE, CMD_REQ_REDIS_ZADD, CMD_REQ_REDIS_ZINTERSTORE,
     CMD_REQ_REDIS_ZRANGE, CMD_REQ_REDIS_ZRANGEBYSCORE, CMD_REQ_REDIS_ZREM,
     CMD_REQ_REDIS_ZREVRANGE, CMD_REQ_REDIS_ZRANGEBYLEX, CMD_REQ_REDIS_ZREVRANGEBYSCORE,
     CMD_REQ_REDIS_ZUNIONSTORE, CMD_REQ_REDIS_ZSCAN]"

definition redis_argx :: "cmd_type \<Rightarrow> bool" where
  "redis_argx t \<longleftrightarrow> t \<in> set
    [CMD_REQ_REDIS_MGET, CMD_REQ_REDIS_DEL]"

definition redis_argkvx :: "cmd_type \<Rightarrow> bool" where
  "redis_argkvx t \<longleftrightarrow> t \<in> set
    [CMD_REQ_REDIS_MSET]"

definition redis_argeval :: "cmd_type \<Rightarrow> bool" where
  "redis_argeval t \<longleftrightarrow> t \<in> set
    [CMD_REQ_REDIS_EVAL, CMD_REQ_REDIS_EVALSHA]"

lemmas arity_defs = redis_argz_def redis_arg0_def redis_arg1_def redis_arg2_def redis_arg3_def
  redis_argn_def redis_argx_def redis_argkvx_def redis_argeval_def

section \<open>Recognition of a command name\<close>

text \<open>
  \<open>strNicmp(m, c0, \<dots>)\<close>: each character of \<open>m\<close> is the pattern's or the pattern's with bit
  \<open>0x20\<close> flipped. Reading stops at the first mismatch.
\<close>

definition flip_case :: "char \<Rightarrow> char" where
  "flip_case c = char_of ((of_char c :: nat) XOR 0x20)"

fun str_icmp :: "bytes \<Rightarrow> string \<Rightarrow> bool" where
  "str_icmp m [] = True"
| "str_icmp (x # m) (c # cs) = ((x = c \<or> x = flip_case c) \<and> str_icmp m cs)"
| "str_icmp [] (c # cs) = False"

text \<open>One \<open>case\<close> of the switch: the tests in order, the first match sets the type.\<close>

fun icmp_lookup :: "bytes \<Rightarrow> (string \<times> cmd_type) list \<Rightarrow> cmd_type" where
  "icmp_lookup m [] = CMD_UNKNOWN"
| "icmp_lookup m ((w, t) # tab) = (if str_icmp m w then t else icmp_lookup m tab)"

definition req_types_3 :: "(string \<times> cmd_type) list" where
  "req_types_3 =
    [(''get'', CMD_REQ_REDIS_GET), (''set'', CMD_REQ_REDIS_SET), (''ttl'', CMD_REQ_REDIS_TTL),
     (''del'', CMD_REQ_REDIS_DEL)]"

definition req_types_4 :: "(string \<times> cmd_type) list" where
  "req_types_4 =
    [(''pttl'', CMD_REQ_REDIS_PTTL), (''decr'', CMD_REQ_REDIS_DECR),
     (''dump'', CMD_REQ_REDIS_DUMP), (''hdel'', CMD_REQ_REDIS_HDEL),
     (''hget'', CMD_REQ_REDIS_HGET), (''hlen'', CMD_REQ_REDIS_HLEN),
     (''hset'', CMD_REQ_REDIS_HSET), (''incr'', CMD_REQ_REDIS_INCR),
     (''llen'', CMD_REQ_REDIS_LLEN), (''lpop'', CMD_REQ_REDIS_LPOP),
     (''lrem'', CMD_REQ_REDIS_LREM), (''lset'', CMD_REQ_REDIS_LSET),
     (''rpop'', CMD_REQ_REDIS_RPOP), (''sadd'', CMD_REQ_REDIS_SADD),
     (''spop'', CMD_REQ_REDIS_SPOP), (''srem'', CMD_REQ_REDIS_SREM),
     (''type'', CMD_REQ_REDIS_TYPE), (''mget'', CMD_REQ_REDIS_MGET),
     (''mset'', CMD_REQ_REDIS_MSET), (''zadd'', CMD_REQ_REDIS_ZADD),
     (''zrem'', CMD_REQ_REDIS_ZREM), (''eval'', CMD_REQ_REDIS_EVAL),
     (''sort'', CMD_REQ_REDIS_SORT), (''ping'', CMD_REQ_REDIS_PING),
     (''quit'', CMD_REQ_REDIS_QUIT), (''auth'', CMD_REQ_REDIS_AUTH)]"

definition req_types_5 :: "(string \<times> cmd_type) list" where
  "req_types_5 =
    [(''hkeys'', CMD_REQ_REDIS_HKEYS), (''hmget'', CMD_REQ_REDIS_HMGET),
     (''hmset'', CMD_REQ_REDIS_HMSET), (''hvals'', CMD_REQ_REDIS_HVALS),
     (''hscan'', CMD_REQ_REDIS_HSCAN), (''lpush'', CMD_REQ_REDIS_LPUSH),
     (''ltrim'', CMD_REQ_REDIS_LTRIM), (''rpush'', CMD_REQ_REDIS_RPUSH),
     (''scard'', CMD_REQ_REDIS_SCARD), (''sdiff'', CMD_REQ_REDIS_SDIFF),
     (''setex'', CMD_REQ_REDIS_SETEX), (''setnx'', CMD_REQ_REDIS_SETNX),
     (''smove'', CMD_REQ_REDIS_SMOVE), (''sscan'', CMD_REQ_REDIS_SSCAN),
     (''zcard'', CMD_REQ_REDIS_ZCARD), (''zrank'', CMD_REQ_REDIS_ZRANK),
     (''zscan'', CMD_REQ_REDIS_ZSCAN), (''pfadd'', CMD_REQ_REDIS_PFADD)]"

definition req_types_6 :: "(string \<times> cmd_type) list" where
  "req_types_6 =
    [(''append'', CMD_REQ_REDIS_APPEND), (''decrby'', CMD_REQ_REDIS_DECRBY),
     (''exists'', CMD_REQ_REDIS_EXISTS), (''expire'', CMD_REQ_REDIS_EXPIRE),
     (''getbit'', CMD_REQ_REDIS_GETBIT), (''getset'', CMD_REQ_REDIS_GETSET),
     (''psetex'', CMD_REQ_REDIS_PSETEX), (''hsetnx'', CMD_REQ_REDIS_HSETNX),
     (''incrby'', CMD_REQ_REDIS_INCRBY), (''lindex'', CMD_REQ_REDIS_LINDEX),
     (''lpushx'', CMD_REQ_REDIS_LPUSHX), (''lrange'', CMD_REQ_REDIS_LRANGE),
     (''rpushx'', CMD_REQ_REDIS_RPUSHX), (''setbit'', CMD_REQ_REDIS_SETBIT),
     (''sinter'', CMD_REQ_REDIS_SINTER), (''strlen'', CMD_REQ_REDIS_STRLEN),
     (''sunion'', CMD_REQ_REDIS_SUNION), (''zcount'', CMD_REQ_REDIS_ZCOUNT),
     (''zrange'', CMD_REQ_REDIS_ZRANGE), (''zscore'', CMD_REQ_REDIS_ZSCORE)]"

definition req_types_7 :: "(string \<times> cmd_type) list" where
  "req_types_7 =
    [(''persist'', CMD_REQ_REDIS_PERSIST), (''pexpire'', CMD_REQ_REDIS_PEXPIRE),
     (''hexists'', CMD_REQ_REDIS_HEXISTS), (''hgetall'', CMD_REQ_REDIS_HGETALL),
     (''hincrby'', CMD_REQ_REDIS_HINCRBY), (''linsert'', CMD_REQ_REDIS_LINSERT),
     (''zincrby'', CMD_REQ_REDIS_ZINCRBY), (''evalsha'', CMD_REQ_REDIS_EVALSHA),
     (''restore'', CMD_REQ_REDIS_RESTORE), (''pfcount'', CMD_REQ_REDIS_PFCOUNT),
     (''pfmerge'', CMD_REQ_REDIS_PFMERGE)]"

definition req_types_8 :: "(string \<times> cmd_type) list" where
  "req_types_8 =
    [(''expireat'', CMD_REQ_REDIS_EXPIREAT), (''bitcount'', CMD_REQ_REDIS_BITCOUNT),
     (''getrange'', CMD_REQ_REDIS_GETRANGE), (''setrange'', CMD_REQ_REDIS_SETRANGE),
     (''smembers'', CMD_REQ_REDIS_SMEMBERS), (''zrevrank'', CMD_REQ_REDIS_ZREVRANK)]"

definition req_types_9 :: "(string \<times> cmd_type) list" where
  "req_types_9 =
    [(''pexpireat'', CMD_REQ_REDIS_PEXPIREAT), (''rpoplpush'', CMD_REQ_REDIS_RPOPLPUSH),
     (''sismember'', CMD_REQ_REDIS_SISMEMBER), (''zrevrange'', CMD_REQ_REDIS_ZREVRANGE),
     (''zlexcount'', CMD_REQ_REDIS_ZLEXCOUNT)]"

definition req_types_10 :: "(string \<times> cmd_type) list" where
  "req_types_10 =
    [(''sdiffstore'', CMD_REQ_REDIS_SDIFFSTORE)]"

definition req_types_11 :: "(string \<times> cmd_type) list" where
  "req_types_11 =
    [(''incrbyfloat'', CMD_REQ_REDIS_INCRBYFLOAT),
     (''sinterstore'', CMD_REQ_REDIS_SINTERSTORE),
     (''srandmember'', CMD_REQ_REDIS_SRANDMEMBER),
     (''sunionstore'', CMD_REQ_REDIS_SUNIONSTORE),
     (''zinterstore'', CMD_REQ_REDIS_ZINTERSTORE),
     (''zunionstore'', CMD_REQ_REDIS_ZUNIONSTORE), (''zrangebylex'', CMD_REQ_REDIS_ZRANGEBYLEX)]"

definition req_types_12 :: "(string \<times> cmd_type) list" where
  "req_types_12 =
    [(''hincrbyfloat'', CMD_REQ_REDIS_HINCRBYFLOAT)]"

definition req_types_13 :: "(string \<times> cmd_type) list" where
  "req_types_13 =
    [(''zrangebyscore'', CMD_REQ_REDIS_ZRANGEBYSCORE)]"

definition req_types_14 :: "(string \<times> cmd_type) list" where
  "req_types_14 =
    [(''zremrangebylex'', CMD_REQ_REDIS_ZREMRANGEBYLEX)]"

definition req_types_15 :: "(string \<times> cmd_type) list" where
  "req_types_15 =
    [(''zremrangebyrank'', CMD_REQ_REDIS_ZREMRANGEBYRANK)]"

definition req_types_16 :: "(string \<times> cmd_type) list" where
  "req_types_16 =
    [(''zremrangebyscore'', CMD_REQ_REDIS_ZREMRANGEBYSCORE),
     (''zrevrangebyscore'', CMD_REQ_REDIS_ZREVRANGEBYSCORE)]"

text \<open>
  The switch itself. Length 10 has no \<open>break\<close> after its only test and falls through to the
  tests of length 11.
\<close>

definition req_type :: "nat \<Rightarrow> bytes \<Rightarrow> cmd_type" where
  "req_type n m =
     (if n = 3 then icmp_lookup m req_types_3
      else if n = 4 then icmp_lookup m req_types_4
      else if n = 5 then icmp_lookup m req_types_5
      else if n = 6 then icmp_lookup m req_types_6
      else if n = 7 then icmp_lookup m req_types_7
      else if n = 8 then icmp_lookup m req_types_8
      else if n = 9 then icmp_lookup m req_types_9
      else if n = 10 then
        (let t = icmp_lookup m req_types_10
         in if t \<noteq> CMD_UNKNOWN then t else icmp_lookup m req_types_11)
      else if n = 11 then icmp_lookup m req_types_11
      else if n = 12 then icmp_lookup m req_types_12
      else if n = 13 then icmp_lookup m req_types_13
      else if n = 14 then icmp_lookup m req_types_14
      else if n = 15 then icmp_lookup m req_types_15
      else if n = 16 then icmp_lookup m req_types_16
      else CMD_UNKNOWN)"

lemmas req_type_tables = req_types_3_def req_types_4_def req_types_5_def req_types_6_def
  req_types_7_def req_types_8_def req_types_9_def req_types_10_def req_types_11_def
  req_types_12_def req_types_13_def req_types_14_def req_types_15_def req_types_16_def

text \<open>The flags that three of the names set besides the type.\<close>

definition type_noforward :: "cmd_type \<Rightarrow> bool" where
  "type_noforward t \<longleftrightarrow> t = CMD_REQ_REDIS_PING \<or> t = CMD_REQ_REDIS_AUTH"

definition type_quit :: "cmd_type \<Rightarrow> bool" where
  "type_quit t \<longleftrightarrow> t = CMD_REQ_REDIS_QUIT"

section \<open>The lookup as a table\<close>

definition to_lower :: "char \<Rightarrow> char" where
  "to_lower c = (if 65 \<le> (of_char c :: nat) \<and> (of_char c :: nat) \<le> 90
                 then char_of ((of_char c :: nat) + 32) else c)"

definition lower_letter :: "char \<Rightarrow> bool" where
  "lower_letter c \<longleftrightarrow> 97 \<le> (of_char c :: nat) \<and> (of_char c :: nat) \<le> 122"

definition req_types_all :: "(string \<times> cmd_type) list" where
  "req_types_all = req_types_3 @ req_types_4 @ req_types_5 @ req_types_6 @ req_types_7
     @ req_types_8 @ req_types_9 @ req_types_10 @ req_types_11 @ req_types_12 @ req_types_13
     @ req_types_14 @ req_types_15 @ req_types_16"

definition command_type :: "bytes \<Rightarrow> cmd_type option" where
  "command_type w = map_of req_types_all (map to_lower w)"

lemma to_lower_eq:
  assumes "lower_letter c"
  shows "(x = c \<or> x = flip_case c) \<longleftrightarrow> to_lower x = c"
proof -
  let ?n = "of_char c :: nat"
  have n: "97 \<le> ?n" "?n \<le> 122" using assms by (auto simp: lower_letter_def)
  then have "?n \<in> set [97,98,99,100,101,102,103,104,105,106,107,108,109,110,111,112,113,114,115,
      116,117,118,119,120,121,122]" by (simp, arith)
  then have "?n XOR 0x20 = ?n - 32" by auto
  then have f: "flip_case c = char_of (?n - 32)" by (simp add: flip_case_def)
  have inj: "a = b \<longleftrightarrow> (of_char a :: nat) = of_char b" for a b :: char by simp
  show ?thesis
    unfolding f inj [of x] inj [of "to_lower x"] using n
    by (auto simp: to_lower_def)
qed

text \<open>A table whose keys are lower-case words of one length.\<close>

definition well_keyed :: "nat \<Rightarrow> (string \<times> cmd_type) list \<Rightarrow> bool" where
  "well_keyed n tab \<longleftrightarrow> list_all (\<lambda>(w, t). length w = n \<and> list_all lower_letter w) tab"

lemma str_icmp_lower: "list_all lower_letter w \<Longrightarrow> str_icmp m w \<longleftrightarrow> map to_lower (take (length w) m) = w"
  by (induction m w rule: str_icmp.induct) (auto simp: to_lower_eq)

lemma icmp_lookup_map_of:
  "well_keyed n tab \<Longrightarrow>
   icmp_lookup m tab = (case map_of tab (map to_lower (take n m)) of None \<Rightarrow> CMD_UNKNOWN | Some t \<Rightarrow> t)"
  by (induction m tab rule: icmp_lookup.induct) (auto simp: well_keyed_def str_icmp_lower)

lemma map_of_other_length: "well_keyed n tab \<Longrightarrow> length k \<noteq> n \<Longrightarrow> map_of tab k = None"
  by (induction tab) (auto simp: well_keyed_def)

lemma map_of_non_letter:
  "well_keyed n tab \<Longrightarrow> c \<in> set k \<Longrightarrow> \<not> lower_letter c \<Longrightarrow> map_of tab k = None"
  by (induction tab) (auto simp: well_keyed_def list_all_iff)

lemma req_types_well_keyed:
  "well_keyed 3 req_types_3"
  "well_keyed 4 req_types_4"
  "well_keyed 5 req_types_5"
  "well_keyed 6 req_types_6"
  "well_keyed 7 req_types_7"
  "well_keyed 8 req_types_8"
  "well_keyed 9 req_types_9"
  "well_keyed 10 req_types_10"
  "well_keyed 11 req_types_11"
  "well_keyed 12 req_types_12"
  "well_keyed 13 req_types_13"
  "well_keyed 14 req_types_14"
  "well_keyed 15 req_types_15"
  "well_keyed 16 req_types_16"
  by (simp_all add: well_keyed_def req_type_tables lower_letter_def)

lemma to_lower_CR: "to_lower CR = CR" and CR_not_letter: "\<not> lower_letter CR"
  by (simp_all add: to_lower_def lower_letter_def)

text \<open>The fall-through after length 10 never matches: the name is followed by a CR.\<close>

lemma fall_through_harmless: "length w = 10 \<Longrightarrow> icmp_lookup (w @ CR # r) req_types_11 = CMD_UNKNOWN"
  by (simp add: icmp_lookup_map_of [OF req_types_well_keyed(9)] to_lower_CR
      map_of_non_letter [OF req_types_well_keyed(9) _ CR_not_letter])

lemma command_type_length:
  "command_type w \<noteq> None \<Longrightarrow> 3 \<le> length w \<and> length w \<le> 16"
proof (rule ccontr)
  assume c: "command_type w \<noteq> None" and "\<not> (3 \<le> length w \<and> length w \<le> 16)"
  then have "length w < 3 \<or> 16 < length w" by arith
  then have "command_type w = None"
    by (auto simp: command_type_def req_types_all_def map_add_def
        req_types_well_keyed [THEN map_of_other_length])
  with c show False by simp
qed

lemma req_type_is_lookup:
  "req_type (length w) (w @ CR # r) = (case command_type w of None \<Rightarrow> CMD_UNKNOWN | Some t \<Rightarrow> t)"
proof -
  let ?k = "map to_lower w"
  note other = req_types_well_keyed [THEN map_of_other_length, where k = ?k]
  note here = req_types_well_keyed [THEN icmp_lookup_map_of, of "w @ CR # r"]
  have "length w = 3 \<or> length w = 4 \<or> length w = 5 \<or> length w = 6 \<or> length w = 7
    \<or> length w = 8 \<or> length w = 9 \<or> length w = 10 \<or> length w = 11 \<or> length w = 12
    \<or> length w = 13 \<or> length w = 14 \<or> length w = 15 \<or> length w = 16
    \<or> length w < 3 \<or> 16 < length w" by presburger
  then show ?thesis
    by (elim disjE) (simp_all add: req_type_def command_type_def req_types_all_def map_add_def
        other here Let_def to_lower_CR map_of_non_letter [OF req_types_well_keyed(9) _ CR_not_letter]
        split: option.split)
qed

section \<open>Every recognised type has exactly one arity class\<close>

datatype arity = NoKey | OneKey nat | KeyAndMore | ManyKeys | KeyValuePairs | Script | Unsupported

text \<open>The class in the order in which the parser asks.\<close>

definition arity_of :: "cmd_type \<Rightarrow> arity" where
  "arity_of t =
     (if redis_argz t then NoKey
      else if redis_argeval t then Script
      else if redis_arg0 t then OneKey 0
      else if redis_arg1 t then OneKey 1
      else if redis_arg2 t then OneKey 2
      else if redis_arg3 t then OneKey 3
      else if redis_argn t then KeyAndMore
      else if redis_argx t then ManyKeys
      else if redis_argkvx t then KeyValuePairs
      else Unsupported)"

definition arity_flags :: "cmd_type \<Rightarrow> bool list" where
  "arity_flags t = [redis_argz t, redis_argeval t, redis_arg0 t, redis_arg1 t, redis_arg2 t,
     redis_arg3 t, redis_argn t, redis_argx t, redis_argkvx t]"

lemma arity_flags_single: "length (filter id (arity_flags t)) \<le> 1"
proof (cases "t \<le> CMD_SENTINEL")
  case True
  have "list_all (\<lambda>t. length (filter id (arity_flags t)) \<le> 1) [0..<112]"
    by code_simp
  with True show ?thesis by (simp add: list_all_iff)
next
  case False
  then show ?thesis by (auto simp: arity_flags_def arity_defs)
qed

lemma recognised_supported: "command_type w = Some t \<Longrightarrow> arity_of t \<noteq> Unsupported"
proof -
  assume "command_type w = Some t"
  then have "t \<in> snd ` set req_types_all" by (force simp: command_type_def dest: map_of_SomeD)
  moreover have "list_all (\<lambda>t. arity_of t \<noteq> Unsupported) (map snd req_types_all)"
    by code_simp
  ultimately show ?thesis by (auto simp: list_all_iff)
qed

end
