(* ===== verification/Hiarray.thy ===== *)
theory Hiarray
  imports Hiutil
begin

text \<open>
  The growable array of \<open>hiarray.c\<close>. The storage is the list of its element slots, \<open>None\<close>
  for a slot that was allocated and never written; a pointer to an element is its index.
  The allocator is the parameter \<open>mem\<close>: \<open>mem n\<close> says whether a request for \<open>n\<close> bytes
  succeeds. The locale \<open>append_store\<close> is what the command parser relies on: pushing an
  element appends it to the contents, or fails and changes nothing.
\<close>

section \<open>State\<close>

type_synonym allocator = "nat \<Rightarrow> bool"

record 'a hiarray =
  h_nelem :: u32
  h_elem :: "'a option list"
  h_size :: nat
  h_nalloc :: u32

definition hiarray_n :: "'a hiarray \<Rightarrow> u32" where
  "hiarray_n a = h_nelem a"

definition hiarray_null :: "'a hiarray" where
  "hiarray_null = \<lparr>h_nelem = 0, h_elem = [], h_size = 0, h_nalloc = 0\<rparr>"

definition hiarray_set :: "'a option list \<Rightarrow> nat \<Rightarrow> u32 \<Rightarrow> 'a hiarray" where
  "hiarray_set storage esize nalloc =
     \<lparr>h_nelem = 0, h_elem = storage, h_size = esize, h_nalloc = nalloc\<rparr>"

section \<open>Operations\<close>

text \<open>
  \<open>hiarray_create\<close> allocates the header (24 bytes with the padding of a 64-bit build is the
  caller's \<open>hdr\<close>) and then the storage, and gives up when either fails.
\<close>

definition hiarray_init :: "allocator \<Rightarrow> u32 \<Rightarrow> nat \<Rightarrow> 'a hiarray option" where
  "hiarray_init mem n esize =
     (if mem (unat n * esize)
      then Some \<lparr>h_nelem = 0, h_elem = replicate (unat n) None, h_size = esize, h_nalloc = n\<rparr>
      else None)"

definition hiarray_create :: "allocator \<Rightarrow> nat \<Rightarrow> u32 \<Rightarrow> nat \<Rightarrow> 'a hiarray option" where
  "hiarray_create mem hdr n esize = (if mem hdr then hiarray_init mem n esize else None)"

definition hiarray_idx :: "'a hiarray \<Rightarrow> nat \<Rightarrow> u32" where
  "hiarray_idx a byte_off = (of_nat byte_off :: u32) div of_nat (h_size a)"

definition hiarray_push :: "allocator \<Rightarrow> 'a hiarray \<Rightarrow> (nat \<times> 'a hiarray) option" where
  "hiarray_push mem a =
     (let grown =
        (if h_nelem a = h_nalloc a
         then let sz = h_size a * unat (h_nalloc a)
              in if mem (2 * sz)
                 then Some (a\<lparr>h_elem := h_elem a @ replicate (unat (h_nalloc a)) None,
                              h_nalloc := h_nalloc a * 2\<rparr>)
                 else None
         else Some a)
      in case grown of
           None \<Rightarrow> None
         | Some b \<Rightarrow> Some (unat (h_nelem b), b\<lparr>h_nelem := h_nelem b + 1\<rparr>))"

definition hiarray_pop :: "'a hiarray \<Rightarrow> nat \<times> 'a hiarray" where
  "hiarray_pop a = (unat (h_nelem a - 1), a\<lparr>h_nelem := h_nelem a - 1\<rparr>)"

definition hiarray_get :: "'a hiarray \<Rightarrow> u32 \<Rightarrow> 'a option" where
  "hiarray_get a idx = (if unat idx < length (h_elem a) then h_elem a ! unat idx else None)"

definition hiarray_top :: "'a hiarray \<Rightarrow> 'a option" where
  "hiarray_top a = hiarray_get a (h_nelem a - 1)"

definition hiarray_swap :: "'a hiarray \<Rightarrow> 'a hiarray \<Rightarrow> 'a hiarray \<times> 'a hiarray" where
  "hiarray_swap a b = (b, a)"

text \<open>Writing through an element pointer, and \<open>push\<close> followed by that write.\<close>

definition hiarray_store :: "'a hiarray \<Rightarrow> nat \<Rightarrow> 'a \<Rightarrow> 'a hiarray" where
  "hiarray_store a i v = a\<lparr>h_elem := (h_elem a)[i := Some v]\<rparr>"

definition hiarray_push_value :: "allocator \<Rightarrow> 'a hiarray \<Rightarrow> 'a \<Rightarrow> 'a hiarray option" where
  "hiarray_push_value mem a v =
     (case hiarray_push mem a of None \<Rightarrow> None | Some (i, b) \<Rightarrow> Some (hiarray_store b i v))"

text \<open>\<open>hiarray_each\<close>: the callback threads \<open>data\<close>, and the first failing status is returned.\<close>

fun each_loop :: "('a option \<Rightarrow> 'd \<Rightarrow> int \<times> 'd) \<Rightarrow> 'a hiarray \<Rightarrow> nat list \<Rightarrow> 'd \<Rightarrow> int \<times> 'd" where
  "each_loop f a [] d = (HI_OK, d)"
| "each_loop f a (i # is) d =
     (case f (hiarray_get a (of_nat i)) d of
        (status, d') \<Rightarrow> if status \<noteq> HI_OK then (status, d') else each_loop f a is d')"

definition hiarray_each :: "('a option \<Rightarrow> 'd \<Rightarrow> int \<times> 'd) \<Rightarrow> 'a hiarray \<Rightarrow> 'd \<Rightarrow> int \<times> 'd" where
  "hiarray_each f a d = each_loop f a [0..<unat (hiarray_n a)] d"

section \<open>Contents and invariant\<close>

definition hiarray_list :: "'a hiarray \<Rightarrow> 'a list" where
  "hiarray_list a = map the (take (unat (h_nelem a)) (h_elem a))"

definition hiarray_inv :: "'a hiarray \<Rightarrow> bool" where
  "hiarray_inv a \<longleftrightarrow>
     0 < h_size a \<and> 0 < unat (h_nalloc a) \<and> length (h_elem a) = unat (h_nalloc a)
     \<and> unat (h_nelem a) \<le> unat (h_nalloc a)
     \<and> (\<forall>i < unat (h_nelem a). h_elem a ! i \<noteq> None)"

lemma hiarray_init_inv:
  "hiarray_init mem n esize = Some a \<Longrightarrow> 0 < unat n \<Longrightarrow> 0 < esize \<Longrightarrow>
   hiarray_inv a \<and> hiarray_list a = []"
  by (auto simp: hiarray_init_def hiarray_inv_def hiarray_list_def split: if_splits)

lemma length_hiarray_list: "hiarray_inv a \<Longrightarrow> length (hiarray_list a) = unat (hiarray_n a)"
  by (simp add: hiarray_inv_def hiarray_list_def hiarray_n_def)

text \<open>Below \<open>2 ^ 31\<close> elements neither counter wraps.\<close>

abbreviation hiarray_cap :: nat where "hiarray_cap \<equiv> 2 ^ 31"

lemma unat_incr: "unat (w :: u32) < 2 ^ 31 \<Longrightarrow> unat (w + 1) = unat w + 1"
  by (simp add: unat_word_ariths)

lemma unat_double: "unat (w :: u32) < 2 ^ 31 \<Longrightarrow> unat (w * 2) = unat w * 2"
  by (simp add: unat_word_ariths)

lemma hiarray_push_step:
  assumes "hiarray_inv a" "unat (h_nelem a) < hiarray_cap" "hiarray_push mem a = Some (i, b)"
  shows "i = unat (h_nelem a)" "h_nelem b = h_nelem a + 1" "h_size b = h_size a"
    "i < length (h_elem b)" "length (h_elem b) = unat (h_nalloc b)"
    "unat (h_nelem b) \<le> unat (h_nalloc b)" "0 < unat (h_nalloc b)"
    "take i (h_elem b) = take i (h_elem a)"
  using assms
  by (auto simp: hiarray_push_def hiarray_inv_def Let_def unat_incr unat_double
      word_unat_eq_iff [of "h_nelem a"] split: if_splits)

lemma hiarray_push_value_contents:
  assumes inv: "hiarray_inv a" and len: "length (hiarray_list a) < hiarray_cap"
    and push: "hiarray_push_value mem a v = Some b"
  shows "hiarray_list b = hiarray_list a @ [v]" "hiarray_inv b"
proof -
  from push obtain i c where p: "hiarray_push mem a = Some (i, c)" and b: "b = hiarray_store c i v"
    by (auto simp: hiarray_push_value_def split: option.splits)
  have n: "unat (h_nelem a) < hiarray_cap"
    using inv len by (simp add: length_hiarray_list hiarray_n_def)
  note s = hiarray_push_step [OF inv n p]
  have u: "unat (h_nelem b) = Suc i" using n by (simp add: b hiarray_store_def s unat_incr)
  have "take (Suc i) (h_elem b) = take i (h_elem a) @ [Some v]"
    using s(4,8) by (simp add: b hiarray_store_def take_Suc_conv_app_nth)
  then show "hiarray_list b = hiarray_list a @ [v]"
    by (simp add: hiarray_list_def u s(1))
  have "h_elem b ! j \<noteq> None" if "j < Suc i" for j
  proof -
    have "h_elem b ! j = take (Suc i) (h_elem b) ! j" using that by simp
    also have "\<dots> = (take i (h_elem a) @ [Some v]) ! j"
      using \<open>take (Suc i) (h_elem b) = take i (h_elem a) @ [Some v]\<close> by simp
    finally show ?thesis
      using that inv s(1) by (auto simp: nth_append hiarray_inv_def less_Suc_eq)
  qed
  then show "hiarray_inv b"
    using inv s u n by (auto simp: hiarray_inv_def b hiarray_store_def)
qed

lemma hiarray_push_value_total: "(\<And>n. mem n) \<Longrightarrow> \<exists>b. hiarray_push_value mem a v = Some b"
  by (auto simp: hiarray_push_value_def hiarray_push_def Let_def)

lemma hiarray_get_nth:
  "hiarray_inv a \<Longrightarrow> unat i < length (hiarray_list a) \<Longrightarrow>
   hiarray_get a i = Some (hiarray_list a ! unat i)"
  by (auto simp: hiarray_inv_def hiarray_list_def hiarray_get_def)

lemma hiarray_pop_contents:
  assumes "hiarray_inv a" "hiarray_list a \<noteq> []"
  shows "hiarray_list (snd (hiarray_pop a)) = butlast (hiarray_list a)"
    and "hiarray_get a (of_nat (fst (hiarray_pop a))) = Some (last (hiarray_list a))"
    and "hiarray_inv (snd (hiarray_pop a))"
proof -
  have n: "0 < unat (h_nelem a)" using assms by (auto simp: hiarray_list_def)
  then have "1 \<le> h_nelem a" by (simp add: word_le_nat_alt)
  then have u: "unat (h_nelem a - 1) = unat (h_nelem a) - 1" by (simp add: unat_sub)
  show "hiarray_list (snd (hiarray_pop a)) = butlast (hiarray_list a)"
    using assms n
    by (simp add: hiarray_pop_def hiarray_list_def u map_butlast [symmetric] butlast_take hiarray_inv_def)
  show "hiarray_inv (snd (hiarray_pop a))"
    using assms n by (auto simp: hiarray_pop_def hiarray_inv_def u)
  show "hiarray_get a (of_nat (fst (hiarray_pop a))) = Some (last (hiarray_list a))"
    using assms n
    by (simp add: hiarray_pop_def hiarray_get_nth length_hiarray_list hiarray_n_def u last_conv_nth)
qed

section \<open>The interface the parser uses\<close>

locale append_store =
  fixes push :: "allocator \<Rightarrow> 's \<Rightarrow> 'a \<Rightarrow> 's option"
    and contents :: "'s \<Rightarrow> 'a list"
    and inv :: "'s \<Rightarrow> bool"
    and cap :: nat
  assumes push_contents:
      "inv s \<Longrightarrow> length (contents s) < cap \<Longrightarrow> push mem s v = Some t \<Longrightarrow> contents t = contents s @ [v]"
    and push_inv: "inv s \<Longrightarrow> length (contents s) < cap \<Longrightarrow> push mem s v = Some t \<Longrightarrow> inv t"
    and push_total: "(\<And>n. mem n) \<Longrightarrow> \<exists>t. push mem s v = Some t"
begin

text \<open>With memory available a push succeeds and appends.\<close>

lemma push_ok:
  assumes "inv s" "length (contents s) < cap" "\<And>n. mem n"
  obtains t where "push mem s v = Some t" "contents t = contents s @ [v]" "inv t"
proof -
  obtain t where "push mem s v = Some t" using push_total [of mem s v] assms(3) by blast
  then show ?thesis using push_contents push_inv assms(1,2) that by blast
qed

text \<open>A push never drops what is stored.\<close>

lemma push_keeps:
  "inv s \<Longrightarrow> length (contents s) < cap \<Longrightarrow> push mem s v = Some t \<Longrightarrow> set (contents s) \<subseteq> set (contents t)"
  by (auto dest: push_contents)

end

interpretation keys: append_store hiarray_push_value hiarray_list hiarray_inv hiarray_cap
proof unfold_locales
  fix a b :: "'a hiarray" and mem v
  assume "hiarray_inv a" "length (hiarray_list a) < hiarray_cap" "hiarray_push_value mem a v = Some b"
  then show "hiarray_list b = hiarray_list a @ [v]" "hiarray_inv b"
    by (fact hiarray_push_value_contents)+
next
  fix a :: "'a hiarray" and mem :: allocator and v
  assume "\<And>n. mem n"
  then show "\<exists>b. hiarray_push_value mem a v = Some b" by (rule hiarray_push_value_total)
qed

lemma hiarray_idx_elem:
  "0 < h_size a \<Longrightarrow> h_size a * i < 2 ^ 32 \<Longrightarrow> hiarray_idx a (h_size a * i) = of_nat i"
proof -
  assume sz: "0 < h_size a" and le: "h_size a * i < 2 ^ 32"
  have i: "i < 2 ^ 32" using sz le
    by (metis le_less_trans mult_le_mono1 mult_1 Suc_leI One_nat_def)
  show ?thesis
  proof (cases "i = 0")
    case True then show ?thesis by (simp add: hiarray_idx_def)
  next
    case False
    then have s: "h_size a < 2 ^ 32" using le
      by (metis le_less_trans mult_le_mono2 mult.right_neutral Suc_leI One_nat_def neq0_conv)
    have "unat (hiarray_idx a (h_size a * i)) = unat (of_nat i :: u32)"
      using sz le i s by (simp add: hiarray_idx_def unat_div_distrib unat_of_nat del: of_nat_mult)
    then show ?thesis by (simp only: word_unat_eq_iff)
  qed
qed

end
