(* ===== verification/CmdParser.thy ===== *)
theory CmdParser
  imports CmdTypes Hiarray
begin

text \<open>
  The request parser \<open>redis_parse_cmd\<close> of \<open>command.c\<close>: a state machine that walks over a
  formatted command, recognises its type, checks the number of arguments against the arity
  class and records where the keys lie in the buffer.

  The buffer is the list of its bytes and a pointer into it an offset. One turn of the
  \<open>for\<close> loop is \<open>parse_step\<close>; \<open>goto done\<close>, \<open>goto enomem\<close> and \<open>goto error\<close> are the other
  constructors of \<open>outcome\<close>. \<open>rlen\<close> and \<open>rnarg\<close> are 32-bit counters that wrap.
\<close>

section \<open>State\<close>

datatype cmd_parse_result =
  CMD_PARSE_OK | CMD_PARSE_ENOMEM | CMD_PARSE_ERROR | CMD_PARSE_REPAIR | CMD_PARSE_AGAIN

text \<open>The position of a key; \<open>remain_len\<close> is not written by the parser.\<close>

record keypos =
  kp_start :: nat
  kp_end :: nat
  kp_remain_len :: "u32 option"

record cmd =
  c_id :: u64
  c_result :: cmd_parse_result
  c_errstr :: "string option"
  c_type :: cmd_type
  c_cmd :: bytes
  c_clen :: u32
  c_keys :: "keypos hiarray"
  c_narg_start :: "nat option"
  c_narg_end :: "nat option"
  c_narg :: u32
  c_quit :: bool
  c_noforward :: bool
  c_slot_num :: int

datatype sw =
  SW_START | SW_NARG | SW_NARG_LF | SW_REQ_TYPE_LEN | SW_REQ_TYPE_LEN_LF | SW_REQ_TYPE
| SW_REQ_TYPE_LF | SW_KEY_LEN | SW_KEY_LEN_LF | SW_KEY | SW_KEY_LF
| SW_ARG1_LEN | SW_ARG1_LEN_LF | SW_ARG1 | SW_ARG1_LF
| SW_ARG2_LEN | SW_ARG2_LEN_LF | SW_ARG2 | SW_ARG2_LF
| SW_ARG3_LEN | SW_ARG3_LEN_LF | SW_ARG3 | SW_ARG3_LF
| SW_ARGN_LEN | SW_ARGN_LEN_LF | SW_ARGN | SW_ARGN_LF | SW_SENTINEL

fun sw_code :: "sw \<Rightarrow> nat" where
  "sw_code SW_START = 0" | "sw_code SW_NARG = 1" | "sw_code SW_NARG_LF = 2"
| "sw_code SW_REQ_TYPE_LEN = 3" | "sw_code SW_REQ_TYPE_LEN_LF = 4" | "sw_code SW_REQ_TYPE = 5"
| "sw_code SW_REQ_TYPE_LF = 6" | "sw_code SW_KEY_LEN = 7" | "sw_code SW_KEY_LEN_LF = 8"
| "sw_code SW_KEY = 9" | "sw_code SW_KEY_LF = 10" | "sw_code SW_ARG1_LEN = 11"
| "sw_code SW_ARG1_LEN_LF = 12" | "sw_code SW_ARG1 = 13" | "sw_code SW_ARG1_LF = 14"
| "sw_code SW_ARG2_LEN = 15" | "sw_code SW_ARG2_LEN_LF = 16" | "sw_code SW_ARG2 = 17"
| "sw_code SW_ARG2_LF = 18" | "sw_code SW_ARG3_LEN = 19" | "sw_code SW_ARG3_LEN_LF = 20"
| "sw_code SW_ARG3 = 21" | "sw_code SW_ARG3_LF = 22" | "sw_code SW_ARGN_LEN = 23"
| "sw_code SW_ARGN_LEN_LF = 24" | "sw_code SW_ARGN = 25" | "sw_code SW_ARGN_LF = 26"
| "sw_code SW_SENTINEL = 27"

record pstate =
  p_r :: cmd
  p_state :: sw
  p_p :: nat
  p_token :: "nat option"
  p_rlen :: u32
  p_rnarg :: u32

datatype outcome = Continue pstate | Done pstate | Enomem pstate | Err pstate

definition cmd_end :: "pstate \<Rightarrow> nat" where
  "cmd_end s = unat (c_clen (p_r s))"

definition at :: "pstate \<Rightarrow> nat \<Rightarrow> char" where
  "at s i = c_cmd (p_r s) ! i"

abbreviation goto :: "sw \<Rightarrow> pstate \<Rightarrow> outcome" where
  "goto q s \<equiv> Continue (s\<lparr>p_state := q\<rparr>)"

section \<open>The states, one definition per group of cases\<close>

definition expect_lf :: "sw \<Rightarrow> pstate \<Rightarrow> char \<Rightarrow> outcome" where
  "expect_lf q s ch = (if ch = LF then goto q s else Err s)"

text \<open>The argument count and the length of the command name.\<close>

definition step_narg :: "pstate \<Rightarrow> char \<Rightarrow> outcome" where
  "step_narg s ch =
     (if p_token s = None then
        if ch \<noteq> CHR ''*'' then Err s
        else Continue (s\<lparr>p_token := Some (p_p s), p_r := (p_r s)\<lparr>c_narg_start := Some (p_p s)\<rparr>,
                         p_rnarg := 0, p_state := SW_NARG\<rparr>)
      else if isdigit ch then
        Continue (s\<lparr>p_rnarg := p_rnarg s * 10 + of_nat (digit_val ch)\<rparr>)
      else if ch = CR then
        if p_rnarg s = 0 then Err s
        else Continue (s\<lparr>p_r := (p_r s)\<lparr>c_narg := p_rnarg s, c_narg_end := Some (p_p s)\<rparr>,
                         p_token := None, p_state := SW_NARG_LF\<rparr>)
      else Err s)"

definition step_req_type_len :: "pstate \<Rightarrow> char \<Rightarrow> outcome" where
  "step_req_type_len s ch =
     (if p_token s = None then
        if ch \<noteq> CHR ''$'' then Err s else Continue (s\<lparr>p_token := Some (p_p s), p_rlen := 0\<rparr>)
      else if isdigit ch then
        Continue (s\<lparr>p_rlen := p_rlen s * 10 + of_nat (digit_val ch)\<rparr>)
      else if ch = CR then
        if p_rlen s = 0 \<or> p_rnarg s = 0 then Err s
        else Continue (s\<lparr>p_rnarg := p_rnarg s - 1, p_token := None, p_state := SW_REQ_TYPE_LEN_LF\<rparr>)
      else Err s)"

text \<open>The command name: \<open>m = token + rlen\<close> must be the CR that ends it.\<close>

definition step_req_type :: "pstate \<Rightarrow> outcome" where
  "step_req_type s =
     (let tok = (case p_token s of None \<Rightarrow> p_p s | Some t \<Rightarrow> t);
          m = tok + unat (p_rlen s);
          s1 = s\<lparr>p_token := Some tok\<rparr>
      in if cmd_end s \<le> m then Err s1
         else if at s m \<noteq> CR then Err s1
         else let t = req_type (m - tok) (drop tok (c_cmd (p_r s)));
                  r1 = (p_r s)\<lparr>c_type := t,
                         c_noforward := c_noforward (p_r s) \<or> type_noforward t,
                         c_quit := c_quit (p_r s) \<or> type_quit t\<rparr>;
                  s2 = s\<lparr>p_p := m, p_rlen := 0, p_token := None, p_r := r1\<rparr>
              in if t = CMD_UNKNOWN then Err s2 else goto SW_REQ_TYPE_LF s2)"

definition step_req_type_lf :: "pstate \<Rightarrow> char \<Rightarrow> outcome" where
  "step_req_type_lf s ch =
     (let t = c_type (p_r s)
      in if ch = LF then
           if redis_argz t then Done s
           else if redis_argeval t then goto SW_ARG1_LEN s
           else goto SW_KEY_LEN s
         else Err s)"

text \<open>A key: its length (an empty length field is read as 0 here), its bytes, and what follows.\<close>

definition step_key_len :: "pstate \<Rightarrow> char \<Rightarrow> outcome" where
  "step_key_len s ch =
     (if p_token s = None then
        if ch \<noteq> CHR ''$'' then Err s else Continue (s\<lparr>p_token := Some (p_p s), p_rlen := 0\<rparr>)
      else if isdigit ch then
        Continue (s\<lparr>p_rlen := p_rlen s * 10 + of_nat (digit_val ch)\<rparr>)
      else if ch = CR then
        if p_rnarg s = 0 then Err s
        else Continue (s\<lparr>p_rnarg := p_rnarg s - 1, p_token := None, p_state := SW_KEY_LEN_LF\<rparr>)
      else Err s)"

definition step_key :: "allocator \<Rightarrow> pstate \<Rightarrow> outcome" where
  "step_key mem s =
     (let tok = (case p_token s of None \<Rightarrow> p_p s | Some t \<Rightarrow> t);
          m = tok + unat (p_rlen s);
          s1 = s\<lparr>p_token := Some tok\<rparr>
      in if cmd_end s \<le> m then Err s1
         else if at s m \<noteq> CR then Err s1
         else let s2 = s\<lparr>p_p := m, p_rlen := 0, p_token := None\<rparr>
              in case hiarray_push_value mem (c_keys (p_r s))
                        \<lparr>kp_start = tok, kp_end = m, kp_remain_len = None\<rparr> of
                   None \<Rightarrow> Enomem s2
                 | Some ks \<Rightarrow> goto SW_KEY_LF (s2\<lparr>p_r := (p_r s)\<lparr>c_keys := ks\<rparr>\<rparr>))"

definition step_key_lf :: "pstate \<Rightarrow> char \<Rightarrow> outcome" where
  "step_key_lf s ch =
     (let t = c_type (p_r s); n = p_rnarg s
      in if ch \<noteq> LF then Err s
         else if redis_arg0 t then if n \<noteq> 0 then Err s else Done s
         else if redis_arg1 t then if n \<noteq> 1 then Err s else goto SW_ARG1_LEN s
         else if redis_arg2 t then if n \<noteq> 2 then Err s else goto SW_ARG1_LEN s
         else if redis_arg3 t then if n \<noteq> 3 then Err s else goto SW_ARG1_LEN s
         else if redis_argn t then if n = 0 then Done s else goto SW_ARG1_LEN s
         else if redis_argx t then if n = 0 then Done s else goto SW_KEY_LEN s
         else if redis_argkvx t then
           if n = 0 then Done s
           else if c_narg (p_r s) mod 2 = 0 then Err s
           else goto SW_ARG1_LEN s
         else if redis_argeval t then if n = 0 then Done s else goto SW_ARGN_LEN s
         else Err s)"

text \<open>
  An argument length (\<open>SW_ARG1_LEN\<close>, and the same text for \<open>ARG2\<close>, \<open>ARG3\<close> and \<open>ARGN\<close>):
  at least one character must lie between the \<open>$\<close> and the CR.
\<close>

definition step_arg_len :: "sw \<Rightarrow> pstate \<Rightarrow> char \<Rightarrow> outcome" where
  "step_arg_len q s ch =
     (case p_token s of
        None \<Rightarrow> if ch \<noteq> CHR ''$'' then Err s else Continue (s\<lparr>p_rlen := 0, p_token := Some (p_p s)\<rparr>)
      | Some tok \<Rightarrow>
          if isdigit ch then
            Continue (s\<lparr>p_rlen := p_rlen s * 10 + of_nat (digit_val ch)\<rparr>)
          else if ch = CR then
            if int (p_p s) - int tok \<le> 1 \<or> p_rnarg s = 0 then Err s
            else Continue (s\<lparr>p_rnarg := p_rnarg s - 1, p_token := None, p_state := q\<rparr>)
          else Err s)"

text \<open>The bytes of an argument: \<open>m = p + rlen\<close> must be the CR that ends it.\<close>

definition step_arg_data :: "sw \<Rightarrow> pstate \<Rightarrow> outcome" where
  "step_arg_data q s =
     (let m = p_p s + unat (p_rlen s)
      in if cmd_end s \<le> m then Err s
         else if at s m \<noteq> CR then Err s
         else goto q (s\<lparr>p_p := m, p_rlen := 0\<rparr>))"

definition step_arg1_lf :: "pstate \<Rightarrow> char \<Rightarrow> outcome" where
  "step_arg1_lf s ch =
     (let t = c_type (p_r s); n = p_rnarg s
      in if ch \<noteq> LF then Err s
         else if redis_arg1 t then if n \<noteq> 0 then Err s else Done s
         else if redis_arg2 t then if n \<noteq> 1 then Err s else goto SW_ARG2_LEN s
         else if redis_arg3 t then if n \<noteq> 2 then Err s else goto SW_ARG2_LEN s
         else if redis_argn t then if n = 0 then Done s else goto SW_ARGN_LEN s
         else if redis_argeval t then if n < 2 then Err s else goto SW_ARG2_LEN s
         else if redis_argkvx t then if n = 0 then Done s else goto SW_KEY_LEN s
         else Err s)"

text \<open>
  For \<open>EVAL\<close> and \<open>EVALSHA\<close> the second argument is the number of keys: digits only, and its
  32-bit value must not be 0.
\<close>

fun nkey_loop :: "bytes \<Rightarrow> u32 \<Rightarrow> u32 option" where
  "nkey_loop [] nkey = Some nkey"
| "nkey_loop (c # cs) nkey =
     (if isdigit c then nkey_loop cs (nkey * 10 + of_nat (digit_val c)) else None)"

definition step_arg2 :: "pstate \<Rightarrow> outcome" where
  "step_arg2 s =
     (let ev = redis_argeval (c_type (p_r s));
          tok = (if p_token s = None \<and> ev then Some (p_p s) else p_token s);
          s1 = s\<lparr>p_token := tok\<rparr>;
          m = p_p s + unat (p_rlen s)
      in if cmd_end s \<le> m then Err s1
         else if at s m \<noteq> CR then Err s1
         else let s2 = s1\<lparr>p_p := m, p_rlen := 0\<rparr>
              in if ev then
                   (case tok of
                      None \<Rightarrow> Err s2
                    | Some tk \<Rightarrow>
                        if int m - int tk < 1 then Err s2
                        else case nkey_loop (seg tk m (c_cmd (p_r s))) 0 of
                               None \<Rightarrow> Err s2
                             | Some nkey \<Rightarrow> if nkey = 0 then Err s2
                                            else goto SW_ARG2_LF (s2\<lparr>p_token := None\<rparr>))
                 else goto SW_ARG2_LF s2)"

definition step_arg2_lf :: "pstate \<Rightarrow> char \<Rightarrow> outcome" where
  "step_arg2_lf s ch =
     (let t = c_type (p_r s); n = p_rnarg s
      in if ch \<noteq> LF then Err s
         else if redis_arg2 t then if n \<noteq> 0 then Err s else Done s
         else if redis_arg3 t then if n \<noteq> 1 then Err s else goto SW_ARG3_LEN s
         else if redis_argn t then if n = 0 then Done s else goto SW_ARGN_LEN s
         else if redis_argeval t then if n < 1 then Err s else goto SW_KEY_LEN s
         else Err s)"

definition step_arg3_lf :: "pstate \<Rightarrow> char \<Rightarrow> outcome" where
  "step_arg3_lf s ch =
     (let t = c_type (p_r s); n = p_rnarg s
      in if ch \<noteq> LF then Err s
         else if redis_arg3 t then if n \<noteq> 0 then Err s else Done s
         else if redis_argn t then if n = 0 then Done s else goto SW_ARGN_LEN s
         else Err s)"

definition step_argn_lf :: "pstate \<Rightarrow> char \<Rightarrow> outcome" where
  "step_argn_lf s ch =
     (let t = c_type (p_r s); n = p_rnarg s
      in if ch \<noteq> LF then Err s
         else if redis_argn t \<or> redis_argeval t then if n = 0 then Done s else goto SW_ARGN_LEN s
         else Err s)"

section \<open>One turn of the loop, the loop and the function\<close>

definition parse_step :: "allocator \<Rightarrow> pstate \<Rightarrow> outcome" where
  "parse_step mem s =
     (let ch = at s (p_p s)
      in case p_state s of
        SW_START \<Rightarrow> step_narg s ch
      | SW_NARG \<Rightarrow> step_narg s ch
      | SW_NARG_LF \<Rightarrow> expect_lf SW_REQ_TYPE_LEN s ch
      | SW_REQ_TYPE_LEN \<Rightarrow> step_req_type_len s ch
      | SW_REQ_TYPE_LEN_LF \<Rightarrow> expect_lf SW_REQ_TYPE s ch
      | SW_REQ_TYPE \<Rightarrow> step_req_type s
      | SW_REQ_TYPE_LF \<Rightarrow> step_req_type_lf s ch
      | SW_KEY_LEN \<Rightarrow> step_key_len s ch
      | SW_KEY_LEN_LF \<Rightarrow> expect_lf SW_KEY s ch
      | SW_KEY \<Rightarrow> step_key mem s
      | SW_KEY_LF \<Rightarrow> step_key_lf s ch
      | SW_ARG1_LEN \<Rightarrow> step_arg_len SW_ARG1_LEN_LF s ch
      | SW_ARG1_LEN_LF \<Rightarrow> expect_lf SW_ARG1 s ch
      | SW_ARG1 \<Rightarrow> step_arg_data SW_ARG1_LF s
      | SW_ARG1_LF \<Rightarrow> step_arg1_lf s ch
      | SW_ARG2_LEN \<Rightarrow> step_arg_len SW_ARG2_LEN_LF s ch
      | SW_ARG2_LEN_LF \<Rightarrow> expect_lf SW_ARG2 s ch
      | SW_ARG2 \<Rightarrow> step_arg2 s
      | SW_ARG2_LF \<Rightarrow> step_arg2_lf s ch
      | SW_ARG3_LEN \<Rightarrow> step_arg_len SW_ARG3_LEN_LF s ch
      | SW_ARG3_LEN_LF \<Rightarrow> expect_lf SW_ARG3 s ch
      | SW_ARG3 \<Rightarrow> step_arg_data SW_ARG3_LF s
      | SW_ARG3_LF \<Rightarrow> step_arg3_lf s ch
      | SW_ARGN_LEN \<Rightarrow> step_arg_len SW_ARGN_LEN_LF s ch
      | SW_ARGN_LEN_LF \<Rightarrow> expect_lf SW_ARGN s ch
      | SW_ARGN \<Rightarrow> step_arg_data SW_ARGN_LF s
      | SW_ARGN_LF \<Rightarrow> step_argn_lf s ch
      | SW_SENTINEL \<Rightarrow> Continue s)"

lemmas step_defs = expect_lf_def step_narg_def step_req_type_len_def step_req_type_def
  step_req_type_lf_def step_key_len_def step_key_def step_key_lf_def step_arg_len_def
  step_arg_data_def step_arg1_lf_def step_arg2_def step_arg2_lf_def step_arg3_lf_def step_argn_lf_def

text \<open>
  The loop ends when \<open>p\<close> reaches the end of the buffer: then nothing is assigned. That it
  always ends is a theorem below, so the loop is a partial function (\<open>None\<close>: it runs forever).
\<close>

partial_function (option) parse_loop :: "allocator \<Rightarrow> pstate \<Rightarrow> outcome option" where
  "parse_loop mem s =
     (if p_p s < cmd_end s
      then case parse_step mem s of
             Continue t \<Rightarrow> parse_loop mem (t\<lparr>p_p := Suc (p_p t)\<rparr>)
           | Done t \<Rightarrow> Some (Done t)
           | Enomem t \<Rightarrow> Some (Enomem t)
           | Err t \<Rightarrow> Some (Err t)
      else Some (Continue s))"

definition parse_init :: "cmd \<Rightarrow> pstate" where
  "parse_init r = \<lparr>p_r = r, p_state = SW_START, p_p = 0, p_token = None, p_rlen = 0, p_rnarg = 0\<rparr>"

definition error_message :: "pstate \<Rightarrow> string" where
  "error_message s = fst (scnprintf 100
     (''Parse command error. Cmd type: '' @ dec (c_type (p_r s)) @ '', state: ''
      @ dec (sw_code (p_state s)) @ '', break position: '' @ dec (p_p s) @ ''.''))"

text \<open>
  The error text is written into a buffer of 100 bytes that is allocated when there is none;
  the code does not test that allocation, the model leaves \<open>errstr\<close> as it was when it fails.
\<close>

definition finish :: "allocator \<Rightarrow> outcome \<Rightarrow> cmd" where
  "finish mem out =
     (case out of
        Continue s \<Rightarrow> p_r s
      | Done s \<Rightarrow> (p_r s)\<lparr>c_result := CMD_PARSE_OK\<rparr>
      | Enomem s \<Rightarrow> (p_r s)\<lparr>c_result := CMD_PARSE_ENOMEM\<rparr>
      | Err s \<Rightarrow> (p_r s)\<lparr>c_result := CMD_PARSE_ERROR,
                         c_errstr := (if c_errstr (p_r s) = None \<and> \<not> mem 100 then None
                                      else Some (error_message s))\<rparr>)"

definition redis_parse_cmd :: "allocator \<Rightarrow> cmd \<Rightarrow> cmd option" where
  "redis_parse_cmd mem r = map_option (finish mem) (parse_loop mem (parse_init r))"

text \<open>\<open>command_get\<close>: a fresh command; \<open>hdr\<close> and \<open>cmdsz\<close> are the sizes of the two structs.\<close>

definition command_get :: "allocator \<Rightarrow> nat \<Rightarrow> nat \<Rightarrow> nat \<Rightarrow> u64 \<Rightarrow> (cmd \<times> u64) option" where
  "command_get mem cmdsz hdr kpsz cmd_id =
     (if \<not> mem cmdsz then None
      else case hiarray_create mem hdr 1 kpsz of
             None \<Rightarrow> None
           | Some ks \<Rightarrow> Some (\<lparr>c_id = cmd_id + 1, c_result = CMD_PARSE_OK, c_errstr = None,
               c_type = CMD_UNKNOWN, c_cmd = [], c_clen = 0, c_keys = ks, c_narg_start = None,
               c_narg_end = None, c_narg = 0, c_quit = False, c_noforward = False,
               c_slot_num = -1\<rparr>, cmd_id + 1))"

section \<open>Termination\<close>

text \<open>
  Outside the states that read a length, \<open>token\<close> is NULL; so the two states that start at
  \<open>token\<close> start at \<open>p\<close>, and every turn moves \<open>p\<close> forward.
\<close>

definition in_length :: "sw \<Rightarrow> bool" where
  "in_length q \<longleftrightarrow> q \<in> {SW_START, SW_NARG, SW_REQ_TYPE_LEN, SW_KEY_LEN, SW_ARG1_LEN, SW_ARG2_LEN,
     SW_ARG3_LEN, SW_ARGN_LEN}"

definition token_inv :: "pstate \<Rightarrow> bool" where
  "token_inv s \<longleftrightarrow> in_length (p_state s) \<or> p_token s = None"

lemma parse_step_progress:
  assumes "parse_step mem s = Continue t" "token_inv s"
  shows "p_p s \<le> p_p t" "cmd_end t = cmd_end s" "c_cmd (p_r t) = c_cmd (p_r s)" "token_inv t"
  using assms
  by (cases "p_state s";
      auto simp: parse_step_def step_defs Let_def cmd_end_def token_inv_def in_length_def
           split: if_splits option.splits)+

lemma parse_loop_terminates: "token_inv s \<Longrightarrow> \<exists>out. parse_loop mem s = Some out"
proof (induction "cmd_end s - p_p s" arbitrary: s rule: less_induct)
  case less
  show ?case
  proof (cases "p_p s < cmd_end s")
    case False
    then show ?thesis by (subst parse_loop.simps) simp
  next
    case True
    show ?thesis
    proof (cases "parse_step mem s")
      case (Continue t)
      note t = parse_step_progress [OF Continue less.prems]
      let ?t = "t\<lparr>p_p := Suc (p_p t)\<rparr>"
      have "cmd_end ?t = cmd_end s" "token_inv ?t" using t by (simp_all add: cmd_end_def token_inv_def)
      then have "\<exists>out. parse_loop mem ?t = Some out"
        using True t(1) by (intro less.hyps) auto
      with True Continue show ?thesis by (subst parse_loop.simps) simp
    qed (use True in \<open>subst parse_loop.simps, simp\<close>)+
  qed
qed

lemma redis_parse_cmd_total: "\<exists>r'. redis_parse_cmd mem r = Some r'"
proof -
  have "token_inv (parse_init r)" by (simp add: token_inv_def parse_init_def)
  then show ?thesis
    using parse_loop_terminates by (fastforce simp: redis_parse_cmd_def)
qed

end
