(* ===== verification/CmdInvariant.thy ===== *)
theory CmdInvariant
  imports CmdParser
begin

text \<open>
  What \<open>redis_parse_cmd\<close> guarantees for an arbitrary buffer, well formed or not: every
  recorded key lies inside the buffer and ends at a CR, and more than one key is recorded
  only for the types that \<open>command_pre_fragment\<close> can split.
\<close>

section \<open>The loop invariant\<close>

definition key_in :: "cmd \<Rightarrow> keypos \<Rightarrow> bool" where
  "key_in r k \<longleftrightarrow> kp_start k \<le> kp_end k \<and> kp_end k < unat (c_clen r) \<and> c_cmd r ! kp_end k = CR"

definition header_state :: "sw \<Rightarrow> bool" where
  "header_state q \<longleftrightarrow> q \<in> {SW_START, SW_NARG, SW_NARG_LF, SW_REQ_TYPE_LEN, SW_REQ_TYPE_LEN_LF,
     SW_REQ_TYPE, SW_REQ_TYPE_LF}"

definition key_state :: "sw \<Rightarrow> bool" where
  "key_state q \<longleftrightarrow> q \<in> {SW_KEY_LEN, SW_KEY_LEN_LF, SW_KEY}"

definition arg12_state :: "sw \<Rightarrow> bool" where
  "arg12_state q \<longleftrightarrow> q \<in> {SW_ARG1_LEN, SW_ARG1_LEN_LF, SW_ARG1, SW_ARG1_LF,
     SW_ARG2_LEN, SW_ARG2_LEN_LF, SW_ARG2, SW_ARG2_LF}"

definition vector_type :: "cmd_type \<Rightarrow> bool" where
  "vector_type t \<longleftrightarrow> redis_argx t \<or> redis_argkvx t"

definition keys_of :: "pstate \<Rightarrow> keypos list" where
  "keys_of s = hiarray_list (c_keys (p_r s))"

definition key_slack :: "sw \<Rightarrow> nat" where
  "key_slack q = (if q = SW_KEY then 2 else if q = SW_KEY_LEN_LF then 1 else 0)"

definition cmd_inv :: "pstate \<Rightarrow> bool" where
  "cmd_inv s \<longleftrightarrow>
     hiarray_inv (c_keys (p_r s))
     \<and> (\<forall>k \<in> set (keys_of s). key_in (p_r s) k)
     \<and> (length (keys_of s) \<le> 1 \<or> vector_type (c_type (p_r s)))
     \<and> (header_state (p_state s) \<longrightarrow> keys_of s = [])
     \<and> (key_state (p_state s) \<longrightarrow> keys_of s = [] \<or> vector_type (c_type (p_r s)))
     \<and> (arg12_state (p_state s) \<and> redis_argeval (c_type (p_r s)) \<longrightarrow> keys_of s = [])
     \<and> 2 * length (keys_of s) + key_slack (p_state s) \<le> p_p s"

lemmas state_groups = header_state_def key_state_def arg12_state_def key_slack_def

text \<open>The classes that matter here exclude each other.\<close>

lemma arity_disjoint:
  "redis_argeval t \<Longrightarrow> \<not> redis_arg0 t \<and> \<not> redis_arg1 t \<and> \<not> redis_arg2 t \<and> \<not> redis_arg3 t
     \<and> \<not> redis_argn t \<and> \<not> redis_argx t \<and> \<not> redis_argkvx t \<and> \<not> redis_argz t"
  by (auto simp: arity_defs)

definition next_p :: "pstate \<Rightarrow> pstate" where
  "next_p t = t\<lparr>p_p := Suc (p_p t)\<rparr>"

lemma next_p_simps [simp]:
  "p_r (next_p t) = p_r t" "p_state (next_p t) = p_state t" "p_token (next_p t) = p_token t"
  "p_rlen (next_p t) = p_rlen t" "p_rnarg (next_p t) = p_rnarg t" "p_p (next_p t) = Suc (p_p t)"
  "keys_of (next_p t) = keys_of t" "cmd_end (next_p t) = cmd_end t"
  by (simp_all add: next_p_def keys_of_def cmd_end_def)

text \<open>All states but \<open>SW_KEY\<close> leave the keys and the buffer alone.\<close>

lemma parse_step_keys:
  assumes "parse_step mem s = Continue t" "p_state s \<noteq> SW_KEY"
  shows "c_keys (p_r t) = c_keys (p_r s)" "c_clen (p_r t) = c_clen (p_r s)"
    "c_cmd (p_r t) = c_cmd (p_r s)"
    "p_state s \<noteq> SW_REQ_TYPE \<Longrightarrow> c_type (p_r t) = c_type (p_r s)"
  using assms
  by (cases "p_state s"; auto simp: parse_step_def step_defs Let_def split: if_splits option.splits)+

lemma parse_step_flow:
  assumes "parse_step mem s = Continue t" "p_state s \<noteq> SW_KEY"
  shows "header_state (p_state t) \<Longrightarrow> header_state (p_state s)"
    and "key_state (p_state t) \<Longrightarrow> key_state (p_state s) \<or> header_state (p_state s)
          \<or> vector_type (c_type (p_r s)) \<or> arg12_state (p_state s) \<and> redis_argeval (c_type (p_r s))"
    and "arg12_state (p_state t) \<Longrightarrow> redis_argeval (c_type (p_r t)) \<Longrightarrow>
          arg12_state (p_state s) \<or> header_state (p_state s)"
  using assms
  by (cases "p_state s";
      auto simp: parse_step_def step_defs Let_def state_groups vector_type_def
           dest: arity_disjoint split: if_splits option.splits)+

lemma parse_step_slack:
  assumes "parse_step mem s = Continue t" "p_state s \<noteq> SW_KEY"
  shows "key_slack (p_state t) \<le> Suc (key_slack (p_state s))"
  using assms
  by (cases "p_state s";
      auto simp: parse_step_def step_defs Let_def key_slack_def split: if_splits option.splits)

lemma cmd_inv_other:
  assumes step: "parse_step mem s = Continue t" and inv: "cmd_inv s" and tok: "token_inv s"
    and q: "p_state s \<noteq> SW_KEY"
  shows "cmd_inv (next_p t)"
proof -
  note k = parse_step_keys [OF step q] and f = parse_step_flow [OF step q]
  have keys: "keys_of t = keys_of s" by (simp add: keys_of_def k)
  have "key_in (p_r t) = key_in (p_r s)" by (rule ext) (simp add: key_in_def k)
  moreover have "length (keys_of s) \<le> 1 \<or> vector_type (c_type (p_r t))"
    using inv k(4) by (cases "p_state s = SW_REQ_TYPE") (auto simp: cmd_inv_def header_state_def)
  moreover have "key_state (p_state t) \<Longrightarrow> keys_of s = [] \<or> vector_type (c_type (p_r t))"
    using inv f(2) k(4)
    by (cases "p_state s = SW_REQ_TYPE") (auto simp: cmd_inv_def header_state_def)
  moreover have "arg12_state (p_state t) \<Longrightarrow> redis_argeval (c_type (p_r t)) \<Longrightarrow> keys_of s = []"
    using inv f(3) k(4)
    by (cases "p_state s = SW_REQ_TYPE") (auto simp: cmd_inv_def header_state_def)
  moreover have "2 * length (keys_of s) + key_slack (p_state t) \<le> Suc (p_p t)"
    using inv parse_step_slack [OF step q] parse_step_progress(1) [OF step tok]
    by (auto simp: cmd_inv_def)
  ultimately show ?thesis
    using inv f(1) by (auto simp: cmd_inv_def keys k)
qed

lemma cmd_inv_key:
  assumes step: "parse_step mem s = Continue t" and inv: "cmd_inv s" and tok: "token_inv s"
    and q: "p_state s = SW_KEY" and p: "p_p s < cmd_end s"
  shows "cmd_inv (next_p t)"
proof -
  let ?m = "p_p s + unat (p_rlen s)"
  let ?k = "\<lparr>kp_start = p_p s, kp_end = ?m, kp_remain_len = None\<rparr>"
  have none: "p_token s = None" using tok q by (simp add: token_inv_def in_length_def)
  have "cmd_end s < 2 ^ 32" unfolding cmd_end_def by (rule order_less_le_trans [OF unsigned_less]) simp
  then have cap: "length (hiarray_list (c_keys (p_r s))) < hiarray_cap"
    using inv p q by (auto simp: cmd_inv_def keys_of_def key_slack_def)
  obtain ks where ks: "hiarray_push_value mem (c_keys (p_r s)) ?k = Some ks"
    and m: "?m < cmd_end s" "at s ?m = CR"
    and t: "t = s\<lparr>p_p := ?m, p_rlen := 0, p_token := None, p_r := (p_r s)\<lparr>c_keys := ks\<rparr>,
                 p_state := SW_KEY_LF\<rparr>"
    using step q none by (auto simp: parse_step_def step_key_def Let_def split: if_splits option.splits)
  have i: "hiarray_inv (c_keys (p_r s))" using inv by (simp add: cmd_inv_def)
  have keys: "keys_of t = keys_of s @ [?k]" "hiarray_inv (c_keys (p_r t))"
    using hiarray_push_value_contents [OF i cap ks] by (simp_all add: t keys_of_def)
  have "key_in (p_r t) ?k" using m by (simp add: key_in_def t at_def cmd_end_def)
  moreover have "key_in (p_r t) = key_in (p_r s)" by (rule ext) (simp add: key_in_def t)
  ultimately show ?thesis
    using inv q keys by (auto simp: cmd_inv_def t state_groups)
qed

lemma cmd_inv_step:
  "parse_step mem s = Continue t \<Longrightarrow> cmd_inv s \<Longrightarrow> token_inv s \<Longrightarrow> p_p s < cmd_end s \<Longrightarrow>
   cmd_inv (next_p t)"
  using cmd_inv_other cmd_inv_key by blast

section \<open>The invariant at the end of the loop\<close>

fun outcome_state :: "outcome \<Rightarrow> pstate" where
  "outcome_state (Continue s) = s"
| "outcome_state (Done s) = s"
| "outcome_state (Enomem s) = s"
| "outcome_state (Err s) = s"

lemma parse_step_done:
  "parse_step mem s = Done t \<Longrightarrow> p_r t = p_r s"
  by (cases "p_state s"; auto simp: parse_step_def step_defs Let_def split: if_splits option.splits)

definition keys_ok :: "cmd \<Rightarrow> bool" where
  "keys_ok r \<longleftrightarrow> hiarray_inv (c_keys r) \<and> (\<forall>k \<in> set (hiarray_list (c_keys r)). key_in r k)
     \<and> (length (hiarray_list (c_keys r)) \<le> 1 \<or> vector_type (c_type r))"

lemma cmd_inv_keys_ok: "cmd_inv s \<Longrightarrow> keys_ok (p_r s)"
  by (simp add: cmd_inv_def keys_ok_def keys_of_def)

lemma parse_loop_keys_ok:
  assumes "parse_loop mem s = Some out" "cmd_inv s" "token_inv s"
    "out = Done t \<or> out = Continue t"
  shows "keys_ok (p_r t)"
  using assms
proof (induction "cmd_end s - p_p s" arbitrary: s rule: less_induct)
  case less
  show ?case
  proof (cases "p_p s < cmd_end s")
    case False
    with less.prems have "t = s" by (subst (asm) parse_loop.simps) auto
    with less.prems show ?thesis by (simp add: cmd_inv_keys_ok)
  next
    case True
    show ?thesis
    proof (cases "parse_step mem s")
      case (Continue u)
      note u = parse_step_progress [OF Continue less.prems(3)]
      have "parse_loop mem (next_p u) = Some out"
        using True Continue less.prems(1) by (subst (asm) parse_loop.simps) (simp add: next_p_def)
      moreover have "cmd_inv (next_p u)" by (rule cmd_inv_step [OF Continue less.prems(2,3) True])
      moreover have "token_inv (next_p u)" using u(4) by (simp add: token_inv_def)
      moreover have "cmd_end (next_p u) - p_p (next_p u) < cmd_end s - p_p s"
        using True u(1,2) by simp
      ultimately show ?thesis using less.hyps less.prems(4) by blast
    next
      case (Done u)
      with True less.prems have "t = u" by (subst (asm) parse_loop.simps) auto
      with Done less.prems(2) show ?thesis by (auto dest!: parse_step_done cmd_inv_keys_ok)
    qed (use True less.prems in \<open>subst (asm) parse_loop.simps, auto\<close>)+
  qed
qed

text \<open>A command as \<open>command_get\<close> leaves it: no keys yet.\<close>

definition fresh_keys :: "cmd \<Rightarrow> bool" where
  "fresh_keys r \<longleftrightarrow> hiarray_inv (c_keys r) \<and> hiarray_list (c_keys r) = []"

lemma parse_init_inv: "fresh_keys r \<Longrightarrow> cmd_inv (parse_init r) \<and> token_inv (parse_init r)"
  by (auto simp: fresh_keys_def cmd_inv_def parse_init_def keys_of_def key_slack_def token_inv_def
      in_length_def)

lemma parsed_keys_ok:
  assumes "fresh_keys r" "redis_parse_cmd mem r = Some r'" "c_result r' = CMD_PARSE_OK"
  shows "keys_ok r'"
proof -
  obtain out where out: "parse_loop mem (parse_init r) = Some out" "r' = finish mem out"
    using assms(2) by (auto simp: redis_parse_cmd_def)
  with assms(3) obtain t where t: "out = Done t \<or> out = Continue t"
    by (cases out) (auto simp: finish_def)
  then have "keys_ok (p_r t)"
    using parse_loop_keys_ok [OF out(1)] parse_init_inv [OF assms(1)] by blast
  then show ?thesis using t out(2) by (auto simp: finish_def keys_ok_def key_in_def)
qed

lemma vector_types: "vector_type t \<longleftrightarrow> t \<in> {CMD_REQ_REDIS_MGET, CMD_REQ_REDIS_DEL, CMD_REQ_REDIS_MSET}"
  by (auto simp: vector_type_def arity_defs)

end
