(* ===== verification/CmdRequest.thy ===== *)
theory CmdRequest
  imports CmdInvariant
begin

text \<open>
  \<open>redis_parse_cmd\<close> on a well-formed request: a multi-bulk header followed by the arguments
  as bulk strings. \<open>key_args\<close> says which arguments are keys, or that the number of arguments
  is wrong for the type; the main result is that the parser computes exactly that, and that
  the recorded positions cut the keys out of the buffer.
\<close>

section \<open>Requests\<close>

definition bulk :: "bytes \<Rightarrow> bytes" where
  "bulk a = CHR ''$'' # dec (length a) @ CR # LF # a @ [CR, LF]"

definition request :: "bytes list \<Rightarrow> bytes" where
  "request args = CHR ''*'' # dec (length args) @ CR # LF # concat (map bulk args)"

section \<open>Which arguments are keys\<close>

fun alternate :: "'a list \<Rightarrow> 'a list" where
  "alternate (x # y # zs) = x # alternate zs"
| "alternate xs = xs"

definition numkeys_ok :: "bytes \<Rightarrow> bool" where
  "numkeys_ok a \<longleftrightarrow> a \<noteq> [] \<and> (\<forall>c\<in>set a. isdigit c) \<and> (digits_word 0 a :: u32) \<noteq> 0"

text \<open>
  \<open>pick t as xs\<close>: the members of \<open>xs\<close> that stand where the arguments \<open>as\<close> after the name have
  a key, for a command of type \<open>t\<close>; \<open>None\<close> when their number does not suit the type.
\<close>

definition pick :: "cmd_type \<Rightarrow> bytes list \<Rightarrow> 'a list \<Rightarrow> 'a list option" where
  "pick t as xs =
     (let n = length as in
      if n = 0 then Some []
      else case arity_of t of
        NoKey \<Rightarrow> Some []
      | OneKey k \<Rightarrow> if n = k + 1 then Some [hd xs] else None
      | KeyAndMore \<Rightarrow> Some [hd xs]
      | ManyKeys \<Rightarrow> Some xs
      | KeyValuePairs \<Rightarrow> if n = 1 \<or> even n then Some (alternate xs) else None
      | Script \<Rightarrow> if 3 \<le> n \<and> numkeys_ok (as ! 1) then Some [xs ! 2] else None
      | Unsupported \<Rightarrow> None)"

definition key_args :: "cmd_type \<Rightarrow> bytes list \<Rightarrow> bytes list option" where
  "key_args t args = pick t (tl args) (tl args)"

section \<open>Running the machine over known input\<close>

abbreviation st :: "cmd \<Rightarrow> sw \<Rightarrow> nat \<Rightarrow> nat option \<Rightarrow> u32 \<Rightarrow> u32 \<Rightarrow> pstate" where
  "st r q p tk l n \<equiv> \<lparr>p_r = r, p_state = q, p_p = p, p_token = tk, p_rlen = l, p_rnarg = n\<rparr>"

definition view :: "cmd \<Rightarrow> nat \<Rightarrow> bytes \<Rightarrow> bool" where
  "view r p inp \<longleftrightarrow> drop p (c_cmd r) = inp \<and> unat (c_clen r) = length (c_cmd r)"

lemma view_drop: "view r p (a @ b) \<Longrightarrow> view r (p + length a) b"
  by (auto simp: view_def simp flip: drop_drop) (metis add.commute append_eq_conv_conj drop_drop)

lemma view_at:
  assumes "view r p (a @ ch # b)"
  shows "c_cmd r ! (p + length a) = ch" "p + length a < unat (c_clen r)"
proof -
  have d: "drop (p + length a) (c_cmd r) = ch # b" and l: "unat (c_clen r) = length (c_cmd r)"
    using view_drop [OF assms] by (auto simp: view_def)
  then have lt: "p + length a < length (c_cmd r)" by (metis drop_all leI list.distinct(1))
  then show "p + length a < unat (c_clen r)" by (simp add: l)
  show "c_cmd r ! (p + length a) = ch" using d lt by (metis Cons_nth_drop_Suc list.inject)
qed

lemma view_hd: "view r p (ch # b) \<Longrightarrow> c_cmd r ! p = ch \<and> p < unat (c_clen r) \<and> view r (Suc p) b"
  using view_at [of r p "[]"] view_drop [of r p "[ch]"] by simp

lemma view_seg: "view r p (a @ b @ c) \<Longrightarrow> seg (p + length a) (p + length a + length b) (c_cmd r) = b"
  using view_drop [of r p a "b @ c"] by (simp add: seg_def view_def)

lemma view_keys [simp]: "view (r\<lparr>c_keys := ks\<rparr>) p b = view r p b"
  by (simp add: view_def)

lemma run:
  assumes "view r p (ch # inp)" "parse_step mem (st r q p tk l n) = Continue t"
  shows "parse_loop mem (st r q p tk l n) = parse_loop mem (next_p t)"
  using view_hd [OF assms(1)] assms(2)
  by (subst parse_loop.simps) (simp add: cmd_end_def next_p_def)

lemma run_stop:
  assumes "view r p (ch # inp)"
  shows "parse_step mem (st r q p tk l n) = Done t \<Longrightarrow> parse_loop mem (st r q p tk l n) = Some (Done t)"
    and "parse_step mem (st r q p tk l n) = Err t \<Longrightarrow> parse_loop mem (st r q p tk l n) = Some (Err t)"
  using view_hd [OF assms] by (subst parse_loop.simps, simp add: cmd_end_def)+

lemma run_end: "view r p [] \<Longrightarrow> parse_loop mem (st r q p tk l n) = Some (Continue (st r q p tk l n))"
  by (subst parse_loop.simps) (auto simp: view_def cmd_end_def)

definition len_state :: "sw \<Rightarrow> bool" where
  "len_state q \<longleftrightarrow> q \<in> {SW_REQ_TYPE_LEN, SW_KEY_LEN, SW_ARG1_LEN, SW_ARG2_LEN, SW_ARG3_LEN, SW_ARGN_LEN}"

lemma run_len_digits:
  assumes "len_state q" "\<forall>c\<in>set ds. isdigit c" "view r p (ds @ inp)"
  shows "parse_loop mem (st r q p (Some tk) l n)
       = parse_loop mem (st r q (p + length ds) (Some tk) (digits_word l ds) n)"
  using assms
proof (induction ds arbitrary: p l)
  case Nil
  then show ?case by simp
next
  case (Cons c ds)
  have v: "view r p (c # ds @ inp)" using Cons.prems by simp
  have c: "isdigit c" using Cons.prems by simp
  have "parse_step mem (st r q p (Some tk) l n)
      = Continue (st r q p (Some tk) (l * 10 + of_nat (digit_val c)) n)"
    using Cons.prems(1) view_hd [OF v] c
    by (auto simp: len_state_def parse_step_def at_def step_req_type_len_def step_key_len_def step_arg_len_def)
  from run [OF v this] have "parse_loop mem (st r q p (Some tk) l n)
      = parse_loop mem (st r q (Suc p) (Some tk) (l * 10 + of_nat (digit_val c)) n)"
    by (simp add: next_p_def)
  with Cons.IH [of "Suc p"] Cons.prems view_hd [OF v] show ?case by simp
qed

text \<open>From the \<open>$\<close> to the CR of a length field.\<close>

lemma run_len:
  assumes q: "len_state q" and v: "view r p (CHR ''$'' # dec k @ CR # inp)"
  shows "parse_loop mem (st r q p None l n)
       = parse_loop mem (st r q (p + 1 + length (dec k)) (Some p) (of_nat k) n)"
    and "view r (p + 1 + length (dec k)) (CR # inp)"
proof -
  have "parse_step mem (st r q p None l n) = Continue (st r q p (Some p) 0 n)"
    using q view_hd [OF v]
    by (auto simp: len_state_def parse_step_def at_def step_req_type_len_def step_key_len_def step_arg_len_def)
  from run [OF v this] have "parse_loop mem (st r q p None l n) = parse_loop mem (st r q (Suc p) (Some p) 0 n)"
    by (simp add: next_p_def)
  also have "\<dots> = parse_loop mem (st r q (Suc p + length (dec k)) (Some p) (digits_word 0 (dec k)) n)"
    using view_hd [OF v] by (intro run_len_digits [OF q]) (auto simp: dec_digits)
  finally show "parse_loop mem (st r q p None l n)
       = parse_loop mem (st r q (p + 1 + length (dec k)) (Some p) (of_nat k) n)"
    by (simp add: digits_word_dec)
  show "view r (p + 1 + length (dec k)) (CR # inp)"
    using view_drop [of r "Suc p" "dec k" "CR # inp"] view_hd [OF v] by simp
qed

lemma run_lf:
  assumes "view r p (LF # inp)" "(q, q') \<in> {(SW_NARG_LF, SW_REQ_TYPE_LEN), (SW_REQ_TYPE_LEN_LF, SW_REQ_TYPE),
    (SW_KEY_LEN_LF, SW_KEY), (SW_ARG1_LEN_LF, SW_ARG1), (SW_ARG2_LEN_LF, SW_ARG2),
    (SW_ARG3_LEN_LF, SW_ARG3), (SW_ARGN_LEN_LF, SW_ARGN)}"
  shows "parse_loop mem (st r q p tk l n) = parse_loop mem (st r q' (Suc p) tk l n)"
proof -
  have "parse_step mem (st r q p tk l n) = Continue (st r q' p tk l n)"
    using assms view_hd [OF assms(1)] by (auto simp: parse_step_def at_def expect_lf_def)
  from run [OF assms(1) this] show ?thesis by (simp add: next_p_def)
qed

definition data_at :: "nat \<Rightarrow> bytes \<Rightarrow> nat" where
  "data_at p a = p + 3 + length (dec (length a))"

definition bulk_lf :: "nat \<Rightarrow> bytes \<Rightarrow> nat" where
  "bulk_lf p a = data_at p a + length a + 1"

lemma bulk_lf_Suc: "Suc (bulk_lf p a) = p + length (bulk a)"
  by (simp add: bulk_lf_def data_at_def bulk_def)

lemma view_bulk:
  assumes "view r p (bulk a @ rest)"
  shows "view r (data_at p a) (a @ CR # LF # rest)" "view r (bulk_lf p a) (LF # rest)"
    "view r (p + length (bulk a)) rest" "seg (data_at p a) (data_at p a + length a) (c_cmd r) = a"
proof -
  let ?pre = "CHR ''$'' # dec (length a) @ [CR, LF]"
  have e: "bulk a @ rest = ?pre @ a @ CR # LF # rest" by (simp add: bulk_def)
  show d: "view r (data_at p a) (a @ CR # LF # rest)"
  proof -
    have "data_at p a = p + length ?pre" by (simp add: data_at_def)
    then show ?thesis using view_drop [of r p ?pre "a @ CR # LF # rest"] assms unfolding e by metis
  qed
  show "view r (bulk_lf p a) (LF # rest)"
    using view_drop [of r "data_at p a" "a @ [CR]" "LF # rest"] d by (simp add: bulk_lf_def)
  show "view r (p + length (bulk a)) rest" using assms by (rule view_drop)
  show "seg (data_at p a) (data_at p a + length a) (c_cmd r) = a"
    using view_seg [of r "data_at p a" "[]" a "CR # LF # rest"] d by simp
qed


text \<open>A whole length field, up to the first byte of the data.\<close>

definition data_state :: "sw \<Rightarrow> sw" where
  "data_state q = (case q of SW_REQ_TYPE_LEN \<Rightarrow> SW_REQ_TYPE | SW_KEY_LEN \<Rightarrow> SW_KEY | SW_ARG1_LEN \<Rightarrow> SW_ARG1
     | SW_ARG2_LEN \<Rightarrow> SW_ARG2 | SW_ARG3_LEN \<Rightarrow> SW_ARG3 | SW_ARGN_LEN \<Rightarrow> SW_ARGN | _ \<Rightarrow> q)"

lemma unat_of_nat_small: "k < 2 ^ 32 \<Longrightarrow> unat (of_nat k :: u32) = k"
  by (simp add: unat_of_nat take_bit_nat_eq_self)

lemma run_field:
  assumes q: "len_state q" and v: "view r p (bulk a @ rest)" and n: "n \<noteq> 0"
    and k: "q = SW_REQ_TYPE_LEN \<longrightarrow> a \<noteq> []" and a: "length a < 2 ^ 32"
  shows "parse_loop mem (st r q p None l n)
       = parse_loop mem (st r (data_state q) (data_at p a) None (of_nat (length a)) (n - 1))"
proof -
  let ?p = "p + 1 + length (dec (length a))" and ?w = "of_nat (length a) :: u32"
  have v0: "view r p (CHR ''$'' # dec (length a) @ CR # LF # a @ CR # LF # rest)"
    using v by (simp add: bulk_def)
  note r1 = run_len [OF q v0]
  have w0: "?w = 0 \<longleftrightarrow> a = []"
    using unat_of_nat_small [OF a] by (metis length_0_conv unat_eq_zero)
  have pos: "\<not> length (dec (length a)) = 0" by simp
  obtain ql where ql: "parse_step mem (st r q ?p (Some p) ?w n) = Continue (st r ql ?p None ?w (n - 1))"
    and f: "(ql, data_state q) \<in> {(SW_NARG_LF, SW_REQ_TYPE_LEN), (SW_REQ_TYPE_LEN_LF, SW_REQ_TYPE),
    (SW_KEY_LEN_LF, SW_KEY), (SW_ARG1_LEN_LF, SW_ARG1), (SW_ARG2_LEN_LF, SW_ARG2),
    (SW_ARG3_LEN_LF, SW_ARG3), (SW_ARGN_LEN_LF, SW_ARGN)}"
    using q view_hd [OF r1(2)] n k w0 pos
    by (auto simp: len_state_def data_state_def parse_step_def at_def step_req_type_len_def
        step_key_len_def step_arg_len_def char_simps)
  have "parse_loop mem (st r q ?p (Some p) ?w n) = parse_loop mem (st r ql (Suc ?p) None ?w (n - 1))"
    using run [OF r1(2) ql] by (simp add: next_p_def)
  also have "\<dots> = parse_loop mem (st r (data_state q) (Suc (Suc ?p)) None ?w (n - 1))"
    using view_hd [OF r1(2)] by (intro run_lf [OF _ f]) blast
  finally show ?thesis using r1(1) by (simp add: data_at_def numeral_3_eq_3)
qed

definition lf_state :: "sw \<Rightarrow> sw" where
  "lf_state q = (case q of SW_ARG1_LEN \<Rightarrow> SW_ARG1_LF | SW_ARG2_LEN \<Rightarrow> SW_ARG2_LF
     | SW_ARG3_LEN \<Rightarrow> SW_ARG3_LF | SW_ARGN_LEN \<Rightarrow> SW_ARGN_LF | _ \<Rightarrow> q)"

lemma data_head:
  assumes v: "view r p (bulk a @ rest)" and a: "length a < 2 ^ 32"
  shows "data_at p a < unat (c_clen r)" "data_at p a + unat (of_nat (length a) :: u32) < unat (c_clen r)"
    "c_cmd r ! (data_at p a + unat (of_nat (length a) :: u32)) = CR"
    "\<exists>ch inp. view r (data_at p a) (ch # inp)"
proof -
  have d: "view r (data_at p a) (a @ CR # LF # rest)" using view_bulk [OF v] by blast
  from view_at [OF d] show "data_at p a + unat (of_nat (length a) :: u32) < unat (c_clen r)"
    "c_cmd r ! (data_at p a + unat (of_nat (length a) :: u32)) = CR" "data_at p a < unat (c_clen r)"
    by (simp_all add: unat_of_nat_small [OF a])
  show "\<exists>ch inp. view r (data_at p a) (ch # inp)"
    using d by (cases a) auto
qed

lemma run_data:
  assumes v: "view r p (bulk a @ rest)" and a: "length a < 2 ^ 32"
    and step: "parse_step mem (st r q (data_at p a) None (of_nat (length a)) n)
             = Continue (st r' q' (data_at p a + length a) None 0 n')"
  shows "parse_loop mem (st r q (data_at p a) None (of_nat (length a)) n)
       = parse_loop mem (st r' q' (bulk_lf p a) None 0 n')"
proof -
  obtain ch inp where "view r (data_at p a) (ch # inp)" using data_head(4) [OF v a] by blast
  from run [OF this step] show ?thesis by (simp add: next_p_def bulk_lf_def)
qed

lemma run_arg:
  assumes q: "q \<in> {SW_ARG1_LEN, SW_ARG3_LEN, SW_ARGN_LEN} \<or> q = SW_ARG2_LEN \<and> \<not> redis_argeval (c_type r)"
    and v: "view r p (bulk a @ rest)" and n: "n \<noteq> 0" and a: "length a < 2 ^ 32"
  shows "parse_loop mem (st r q p None l n) = parse_loop mem (st r (lf_state q) (bulk_lf p a) None 0 (n - 1))"
proof -
  have "parse_loop mem (st r q p None l n)
      = parse_loop mem (st r (data_state q) (data_at p a) None (of_nat (length a)) (n - 1))"
    using q by (intro run_field [OF _ v n _ a]) (auto simp: len_state_def)
  also have "\<dots> = parse_loop mem (st r (lf_state q) (bulk_lf p a) None 0 (n - 1))"
    using q data_head [OF v a]
    by (intro run_data [OF v a])
      (auto simp: data_state_def lf_state_def parse_step_def step_arg_data_def step_arg2_def at_def
        cmd_end_def Let_def unat_of_nat_small [OF a])
  finally show ?thesis .
qed

lemma nkey_loop_digits:
  "nkey_loop cs k = (if \<forall>c\<in>set cs. isdigit c then Some (digits_word k cs) else None)"
  by (induction cs arbitrary: k) auto

lemma run_numkeys:
  assumes ev: "redis_argeval (c_type r)"
    and v: "view r p (bulk a @ rest)" and n: "n \<noteq> 0" and a: "length a < 2 ^ 32"
  shows "numkeys_ok a \<Longrightarrow> parse_loop mem (st r SW_ARG2_LEN p None l n)
       = parse_loop mem (st r SW_ARG2_LF (bulk_lf p a) None 0 (n - 1))"
    and "\<not> numkeys_ok a \<Longrightarrow> \<exists>s. parse_loop mem (st r SW_ARG2_LEN p None l n) = Some (Err s)"
proof -
  let ?s = "st r SW_ARG2 (data_at p a) None (of_nat (length a)) (n - 1)"
  have f: "parse_loop mem (st r SW_ARG2_LEN p None l n) = parse_loop mem ?s"
    using run_field [OF _ v n _ a, of SW_ARG2_LEN] by (simp add: len_state_def data_state_def)
  note h = data_head [OF v a]
  have seg: "seg (data_at p a) (data_at p a + length a) (c_cmd r) = a" using view_bulk [OF v] by blast
  show "parse_loop mem (st r SW_ARG2_LEN p None l n)
       = parse_loop mem (st r SW_ARG2_LF (bulk_lf p a) None 0 (n - 1))" if ok: "numkeys_ok a"
    unfolding f using ok ev h seg
    by (intro run_data [OF v a])
      (auto simp: parse_step_def step_arg2_def at_def cmd_end_def Let_def unat_of_nat_small [OF a]
        numkeys_ok_def nkey_loop_digits Suc_le_eq)
  show "\<exists>s. parse_loop mem (st r SW_ARG2_LEN p None l n) = Some (Err s)" if bad: "\<not> numkeys_ok a"
  proof -
    have "\<exists>t. parse_step mem ?s = Err t"
      using bad ev h seg
      by (auto simp: parse_step_def step_arg2_def at_def cmd_end_def Let_def unat_of_nat_small [OF a]
        numkeys_ok_def nkey_loop_digits Suc_le_eq)
    with h(4) show ?thesis unfolding f using run_stop(2) by metis
  qed
qed


section \<open>Keys\<close>

definition key_of :: "nat \<Rightarrow> bytes \<Rightarrow> keypos" where
  "key_of p a = \<lparr>kp_start = data_at p a, kp_end = data_at p a + length a, kp_remain_len = None\<rparr>"

fun places :: "nat \<Rightarrow> bytes list \<Rightarrow> keypos list" where
  "places p [] = []"
| "places p (a # as) = key_of p a # places (p + length (bulk a)) as"

definition key_text :: "bytes \<Rightarrow> keypos \<Rightarrow> bytes" where
  "key_text buf k = seg (kp_start k) (kp_end k) buf"

lemma places_text:
  "view r p (concat (map bulk args)) \<Longrightarrow> map (key_text (c_cmd r)) (places p args) = args"
proof (induction args arbitrary: p)
  case Nil
  then show ?case by simp
next
  case (Cons a as)
  then have v: "view r p (bulk a @ concat (map bulk as))" by simp
  show ?case using view_bulk(3,4) [OF v] Cons.IH by (simp add: key_text_def key_of_def)
qed

lemma map_alternate: "map f (alternate xs) = alternate (map f xs)"
  by (induction xs rule: alternate.induct) auto

lemma run_key:
  assumes v: "view r p (bulk a @ rest)" and n: "n \<noteq> 0" and a: "length a < 2 ^ 32"
    and mem: "\<forall>k. mem k" and inv: "hiarray_inv (c_keys r)" and small: "length (hiarray_list (c_keys r)) < 2 ^ 31"
  shows "\<exists>K. parse_loop mem (st r SW_KEY_LEN p None l n)
           = parse_loop mem (st (r\<lparr>c_keys := K\<rparr>) SW_KEY_LF (bulk_lf p a) None 0 (n - 1))
         \<and> hiarray_inv K \<and> hiarray_list K = hiarray_list (c_keys r) @ [key_of p a]"
proof -
  obtain K where K: "hiarray_push_value mem (c_keys r) (key_of p a) = Some K"
    using hiarray_push_value_total mem by metis
  have "parse_loop mem (st r SW_KEY_LEN p None l n)
      = parse_loop mem (st r SW_KEY (data_at p a) None (of_nat (length a)) (n - 1))"
    using run_field [OF _ v n _ a, of SW_KEY_LEN] by (simp add: len_state_def data_state_def)
  also have "\<dots> = parse_loop mem (st (r\<lparr>c_keys := K\<rparr>) SW_KEY_LF (bulk_lf p a) None 0 (n - 1))"
    using data_head [OF v a] K
    by (intro run_data [OF v a])
      (auto simp: parse_step_def step_key_def at_def cmd_end_def Let_def unat_of_nat_small [OF a]
        key_of_def)
  finally show ?thesis using hiarray_push_value_contents [OF inv small K] by blast
qed

section \<open>The ways a request can go on after its name\<close>

definition accepts :: "allocator \<Rightarrow> pstate \<Rightarrow> cmd \<Rightarrow> keypos list \<Rightarrow> bool" where
  "accepts mem s r ks \<longleftrightarrow>
     (\<exists>out u K. parse_loop mem s = Some out \<and> (out = Done u \<or> out = Continue u)
        \<and> p_r u = r\<lparr>c_keys := K\<rparr> \<and> hiarray_inv K \<and> hiarray_list K = ks)"

definition rejects :: "allocator \<Rightarrow> pstate \<Rightarrow> bool" where
  "rejects mem s \<longleftrightarrow> (\<exists>u. parse_loop mem s = Some (Err u))"

lemma accepts_done:
  assumes "view r p (LF # inp)" "parse_step mem (st r q p tk l n) = Done (st r q p tk l n)"
    "hiarray_inv (c_keys r)"
  shows "accepts mem (st r q p tk l n) r (hiarray_list (c_keys r))"
  unfolding accepts_def
  by (rule exI [of _ "Done (st r q p tk l n)"], rule exI [of _ "st r q p tk l n"],
      rule exI [of _ "c_keys r"]) (simp add: run_stop(1) [OF assms(1,2)] assms(3))

lemma rejects_err: "view r p (LF # inp) \<Longrightarrow> parse_step mem (st r q p tk l n) = Err t \<Longrightarrow>
  rejects mem (st r q p tk l n)"
  by (auto simp: rejects_def run_stop(2))

lemma accepts_update [simp]: "accepts mem s (r\<lparr>c_keys := K\<rparr>) ks = accepts mem s r ks"
  by (simp add: accepts_def)

lemma word_count_eq:
  "k < 2 ^ 32 \<Longrightarrow> (of_nat k :: u32) = 0 \<longleftrightarrow> k = 0"
  "k < 2 ^ 32 \<Longrightarrow> (of_nat k :: u32) = 1 \<longleftrightarrow> k = 1"
  "k < 2 ^ 32 \<Longrightarrow> (of_nat k :: u32) = 2 \<longleftrightarrow> k = 2"
  "k < 2 ^ 32 \<Longrightarrow> (of_nat k :: u32) = 3 \<longleftrightarrow> k = 3"
  "k < 2 ^ 32 \<Longrightarrow> (of_nat k :: u32) < 1 \<longleftrightarrow> k < 1"
  "k < 2 ^ 32 \<Longrightarrow> (of_nat k :: u32) < 2 \<longleftrightarrow> k < 2"
  by (simp_all add: word_unat_eq_iff word_less_nat_alt unat_of_nat_small)

definition fits :: "bytes list \<Rightarrow> bool" where
  "fits args \<longleftrightarrow> length args < 2 ^ 31 \<and> (\<forall>a\<in>set args. length a < 2 ^ 32)"

lemma fits_Cons: "fits (a # as) \<Longrightarrow> fits as \<and> length a < 2 ^ 32"
  by (auto simp: fits_def)

lemma goto_next:
  assumes "view r p (LF # inp)" "parse_step mem (st r q p None l n) = Continue (st r q' p None l n)"
  shows "parse_loop mem (st r q p None l n) = parse_loop mem (st r q' (Suc p) None l n)"
  using run [OF assms] by (simp add: next_p_def)

lemma count_Cons:
  "(of_nat (length (a # as)) :: u32) - 1 = of_nat (length as)"
  "fits (a # as) \<Longrightarrow> (of_nat (length (a # as)) :: u32) \<noteq> 0"
  using word_count_eq(1) [of "length (a # as)"] by (simp_all add: fits_def)

lemma argn_tail:
  assumes "redis_argn (c_type r) \<or> redis_argeval (c_type r)" "hiarray_inv (c_keys r)"
    "view r p (concat (map bulk args))" "fits args" "args \<noteq> []"
  shows "accepts mem (st r SW_ARGN_LEN p None l (of_nat (length args))) r (hiarray_list (c_keys r))"
  using assms
proof (induction args arbitrary: p l)
  case Nil
  then show ?case by simp
next
  case (Cons a as)
  have v: "view r p (bulk a @ concat (map bulk as))" using Cons.prems by simp
  note f = fits_Cons [OF Cons.prems(4)]
  have e: "parse_loop mem (st r SW_ARGN_LEN p None l (of_nat (length (a # as))))
      = parse_loop mem (st r SW_ARGN_LF (bulk_lf p a) None 0 (of_nat (length as)))"
    using run_arg [OF _ v count_Cons(2) [OF Cons.prems(4)], of SW_ARGN_LEN] f
    by (simp add: lf_state_def)
  note v2 = view_bulk(2) [OF v]
  have z: "(of_nat (length as) :: u32) = 0 \<longleftrightarrow> as = []"
    using f word_count_eq(1) [of "length as"] by (simp add: fits_def)
  show ?case
  proof (cases "as = []")
    case True
    then have "accepts mem (st r SW_ARGN_LF (bulk_lf p a) None 0 (of_nat (length as))) r
        (hiarray_list (c_keys r))"
      using Cons.prems(1,2) view_hd [OF v2]
      by (intro accepts_done [OF v2]) (auto simp: parse_step_def step_argn_lf_def at_def)
    with e show ?thesis by (simp add: accepts_def)
  next
    case False
    have "parse_loop mem (st r SW_ARGN_LF (bulk_lf p a) None 0 (of_nat (length as)))
        = parse_loop mem (st r SW_ARGN_LEN (p + length (bulk a)) None 0 (of_nat (length as)))"
      using goto_next [OF v2, of _ SW_ARGN_LF _ _ SW_ARGN_LEN] Cons.prems(1) view_hd [OF v2] False z
      by (simp add: parse_step_def step_argn_lf_def at_def bulk_lf_Suc)
    with e Cons.IH [OF Cons.prems(1,2) view_bulk(3) [OF v]] f False show ?thesis
      by (simp add: accepts_def)
  qed
qed


lemma arg_goto:
  assumes q: "q \<in> {SW_ARG1_LEN, SW_ARG3_LEN, SW_ARGN_LEN} \<or> q = SW_ARG2_LEN \<and> \<not> redis_argeval (c_type r)"
    and v: "view r p (bulk a @ rest)" and n: "n \<noteq> 0" and a: "length a < 2 ^ 32"
    and step: "\<And>i. c_cmd r ! i = LF \<Longrightarrow> parse_step mem (st r (lf_state q) i None 0 (n - 1))
                 = Continue (st r q' i None 0 (n - 1))"
  shows "parse_loop mem (st r q p None l n) = parse_loop mem (st r q' (p + length (bulk a)) None 0 (n - 1))"
proof -
  note v2 = view_bulk(2) [OF v]
  have "c_cmd r ! bulk_lf p a = LF" using view_hd [OF v2] by blast
  from goto_next [OF v2 step [OF this]] run_arg [OF q v n a] show ?thesis by (simp add: bulk_lf_Suc)
qed

lemma arg_done:
  assumes q: "q \<in> {SW_ARG1_LEN, SW_ARG3_LEN, SW_ARGN_LEN} \<or> q = SW_ARG2_LEN \<and> \<not> redis_argeval (c_type r)"
    and v: "view r p (bulk a @ rest)" and n: "n \<noteq> 0" and a: "length a < 2 ^ 32"
    and step: "\<And>i. c_cmd r ! i = LF \<Longrightarrow> parse_step mem (st r (lf_state q) i None 0 (n - 1))
                 = Done (st r (lf_state q) i None 0 (n - 1))"
    and inv: "hiarray_inv (c_keys r)"
  shows "accepts mem (st r q p None l n) r (hiarray_list (c_keys r))"
proof -
  note v2 = view_bulk(2) [OF v]
  have "c_cmd r ! bulk_lf p a = LF" using view_hd [OF v2] by blast
  from accepts_done [OF v2 step [OF this] inv] run_arg [OF q v n a] show ?thesis by (simp add: accepts_def)
qed

lemma key_cases:
  assumes v: "view r p (bulk a @ rest)" and n: "n \<noteq> 0" and a: "length a < 2 ^ 32"
    and mem: "\<forall>k. mem k" and inv: "hiarray_inv (c_keys r)" and small: "length (hiarray_list (c_keys r)) < 2 ^ 31"
  shows "\<exists>K. hiarray_inv K \<and> hiarray_list K = hiarray_list (c_keys r) @ [key_of p a]
    \<and> parse_loop mem (st r SW_KEY_LEN p None l n)
      = (case step_key_lf (st (r\<lparr>c_keys := K\<rparr>) SW_KEY_LF (bulk_lf p a) None 0 (n - 1)) LF of
           Continue u \<Rightarrow> parse_loop mem (st (r\<lparr>c_keys := K\<rparr>) (p_state u) (p + length (bulk a)) None 0 (n - 1))
         | other \<Rightarrow> Some other)"
proof -
  obtain K where e: "parse_loop mem (st r SW_KEY_LEN p None l n)
           = parse_loop mem (st (r\<lparr>c_keys := K\<rparr>) SW_KEY_LF (bulk_lf p a) None 0 (n - 1))"
    and K: "hiarray_inv K" "hiarray_list K = hiarray_list (c_keys r) @ [key_of p a]"
    using run_key [OF v n a mem inv small] by blast
  let ?s = "st (r\<lparr>c_keys := K\<rparr>) SW_KEY_LF (bulk_lf p a) None 0 (n - 1)"
  have v2: "view (r\<lparr>c_keys := K\<rparr>) (bulk_lf p a) (LF # rest)" using view_bulk(2) [OF v] by simp
  have "parse_step mem ?s = step_key_lf ?s LF"
    using view_hd [OF v2] by (simp add: parse_step_def at_def)
  note p = this
  have "parse_loop mem ?s
      = (case step_key_lf ?s LF of
           Continue u \<Rightarrow> parse_loop mem (st (r\<lparr>c_keys := K\<rparr>) (p_state u) (p + length (bulk a)) None 0 (n - 1))
         | other \<Rightarrow> Some other)"
  proof (cases "step_key_lf ?s LF")
    case (Continue u)
    then have u: "u = ?s\<lparr>p_state := p_state u\<rparr>"
      by (auto simp: step_key_lf_def Let_def split: if_splits)
    have "next_p u = st (r\<lparr>c_keys := K\<rparr>) (p_state u) (p + length (bulk a)) None 0 (n - 1)"
      by (subst u) (simp add: next_p_def bulk_lf_Suc)
    moreover have "parse_loop mem ?s = parse_loop mem (next_p u)"
      using run [OF v2] p Continue by simp
    ultimately show ?thesis using Continue by simp
  next
    case (Enomem u)
    then show ?thesis by (auto simp: step_key_lf_def Let_def split: if_splits)
  qed (use run_stop [OF v2] p in \<open>simp_all\<close>)
  with e K show ?thesis by auto
qed


lemma arity_of_elims:
  "arity_of t = NoKey \<Longrightarrow> redis_argz t"
  "arity_of t = OneKey k \<Longrightarrow> \<not> redis_argz t \<and> \<not> redis_argeval t \<and>
     (k = 0 \<and> redis_arg0 t \<or> \<not> redis_arg0 t \<and>
      (k = 1 \<and> redis_arg1 t \<or> \<not> redis_arg1 t \<and>
       (k = 2 \<and> redis_arg2 t \<or> \<not> redis_arg2 t \<and> k = 3 \<and> redis_arg3 t)))"
  "arity_of t = KeyAndMore \<Longrightarrow> \<not> redis_argz t \<and> \<not> redis_argeval t \<and> \<not> redis_arg0 t
     \<and> \<not> redis_arg1 t \<and> \<not> redis_arg2 t \<and> \<not> redis_arg3 t \<and> redis_argn t"
  "arity_of t = ManyKeys \<Longrightarrow> \<not> redis_argz t \<and> \<not> redis_argeval t \<and> \<not> redis_arg0 t
     \<and> \<not> redis_arg1 t \<and> \<not> redis_arg2 t \<and> \<not> redis_arg3 t \<and> \<not> redis_argn t \<and> redis_argx t"
  "arity_of t = KeyValuePairs \<Longrightarrow> \<not> redis_argz t \<and> \<not> redis_argeval t \<and> \<not> redis_arg0 t
     \<and> \<not> redis_arg1 t \<and> \<not> redis_arg2 t \<and> \<not> redis_arg3 t \<and> \<not> redis_argn t \<and> \<not> redis_argx t
     \<and> redis_argkvx t"
  "arity_of t = Script \<Longrightarrow> \<not> redis_argz t \<and> redis_argeval t \<and> \<not> redis_arg0 t
     \<and> \<not> redis_arg1 t \<and> \<not> redis_arg2 t \<and> \<not> redis_arg3 t \<and> \<not> redis_argn t \<and> \<not> redis_argx t
     \<and> \<not> redis_argkvx t"
  using arity_disjoint [of t] by (simp_all add: arity_of_def split: if_splits)

definition room :: "cmd \<Rightarrow> bytes list \<Rightarrow> bool" where
  "room r args \<longleftrightarrow> hiarray_inv (c_keys r) \<and> length (hiarray_list (c_keys r)) + length args \<le> 2 ^ 31 \<and> fits args"

lemma room_Cons:
  assumes "room r (a # as)"
  shows "room r as" "hiarray_inv (c_keys r)" "length (hiarray_list (c_keys r)) < 2 ^ 31" "length a < 2 ^ 32"
    "fits as" "fits (a # as)"
    "hiarray_inv K \<Longrightarrow> hiarray_list K = hiarray_list (c_keys r) @ [k] \<Longrightarrow> room (r\<lparr>c_keys := K\<rparr>) as"
  using assms fits_Cons [of a as] by (auto simp: room_def)

lemma acceptsI:
  "parse_loop mem s = Some (Done u) \<Longrightarrow> p_r u = r\<lparr>c_keys := K\<rparr> \<Longrightarrow> hiarray_inv K \<Longrightarrow>
   hiarray_list K = ks \<Longrightarrow> accepts mem s r ks"
  by (auto simp: accepts_def)

lemma key_first:
  assumes "\<forall>k. mem k" and rm: "room r (a # as)" and v: "view r p (concat (map bulk (a # as)))"
  obtains K where "hiarray_inv K" "hiarray_list K = hiarray_list (c_keys r) @ [key_of p a]"
    "parse_loop mem (st r SW_KEY_LEN p None l (of_nat (length (a # as))))
      = (case step_key_lf (st (r\<lparr>c_keys := K\<rparr>) SW_KEY_LF (bulk_lf p a) None 0 (of_nat (length as))) LF of
           Continue u \<Rightarrow> parse_loop mem (st (r\<lparr>c_keys := K\<rparr>) (p_state u) (p + length (bulk a)) None 0
                           (of_nat (length as)))
         | other \<Rightarrow> Some other)"
proof -
  have v': "view r p (bulk a @ concat (map bulk as))" using v by simp
  note rm = room_Cons [OF rm]
  show thesis
    using key_cases [OF v' count_Cons(2) [OF rm(6)] rm(4) assms(1) rm(2,3)] that
    unfolding count_Cons(1) by blast
qed

lemma many_keys:
  assumes "arity_of (c_type r) = ManyKeys" "\<forall>k. mem k" "room r args"
    "view r p (concat (map bulk args))" "args \<noteq> []"
  shows "accepts mem (st r SW_KEY_LEN p None l (of_nat (length args))) r
    (hiarray_list (c_keys r) @ places p args)"
  using assms
proof (induction args arbitrary: r p l)
  case Nil
  then show ?case by simp
next
  case (Cons a as)
  have v: "view r p (bulk a @ concat (map bulk as))" using Cons.prems by simp
  note rm = room_Cons [OF Cons.prems(3)]
  obtain K where K: "hiarray_inv K" "hiarray_list K = hiarray_list (c_keys r) @ [key_of p a]"
    and e: "parse_loop mem (st r SW_KEY_LEN p None l (of_nat (length (a # as))))
      = (case step_key_lf (st (r\<lparr>c_keys := K\<rparr>) SW_KEY_LF (bulk_lf p a) None 0 (of_nat (length as))) LF of
           Continue u \<Rightarrow> parse_loop mem (st (r\<lparr>c_keys := K\<rparr>) (p_state u) (p + length (bulk a)) None 0
                           (of_nat (length as)))
         | other \<Rightarrow> Some other)"
    by (rule key_first [OF Cons.prems(2-4)])
  note ar = arity_of_elims(4) [OF Cons.prems(1)]
  have z: "(of_nat (length as) :: u32) = 0 \<longleftrightarrow> as = []"
    using rm(5) word_count_eq(1) [of "length as"] by (simp add: fits_def)
  show ?case
  proof (cases "as = []")
    case True
    with e ar show ?thesis using K by (auto simp: step_key_lf_def intro: acceptsI [of _ _ _ K r])
  next
    case False
    with e ar z have "parse_loop mem (st r SW_KEY_LEN p None l (of_nat (length (a # as))))
      = parse_loop mem (st (r\<lparr>c_keys := K\<rparr>) SW_KEY_LEN (p + length (bulk a)) None 0 (of_nat (length as)))"
      by (simp add: step_key_lf_def)
    moreover have "accepts mem (st (r\<lparr>c_keys := K\<rparr>) SW_KEY_LEN (p + length (bulk a)) None 0
        (of_nat (length as))) (r\<lparr>c_keys := K\<rparr>)
        (hiarray_list K @ places (p + length (bulk a)) as)"
      using Cons.IH [of "r\<lparr>c_keys := K\<rparr>" "p + length (bulk a)" 0, OF _ Cons.prems(2)] Cons.prems(1)
        False rm(7) [OF K] view_bulk(3) [OF v] by simp
    ultimately show ?thesis using K(2) by (simp add: accepts_def)
  qed
qed

lemma key_values:
  assumes "arity_of (c_type r) = KeyValuePairs" "\<forall>k. mem k" "room r args"
    "view r p (concat (map bulk args))" "args \<noteq> []" "even (length args)" "c_narg r mod 2 \<noteq> 0"
  shows "accepts mem (st r SW_KEY_LEN p None l (of_nat (length args))) r
    (hiarray_list (c_keys r) @ alternate (places p args))"
  using assms
proof (induction args arbitrary: r p l rule: alternate.induct)
  case (1 a b as)
  have v: "view r p (bulk a @ bulk b @ concat (map bulk as))" using 1 by simp
  note rm = room_Cons [OF "1.prems"(3)] note rm2 = room_Cons [OF rm(1)]
  obtain K where K: "hiarray_inv K" "hiarray_list K = hiarray_list (c_keys r) @ [key_of p a]"
    and e: "parse_loop mem (st r SW_KEY_LEN p None l (of_nat (length (a # b # as))))
      = (case step_key_lf (st (r\<lparr>c_keys := K\<rparr>) SW_KEY_LF (bulk_lf p a) None 0 (of_nat (length (b # as)))) LF of
           Continue u \<Rightarrow> parse_loop mem (st (r\<lparr>c_keys := K\<rparr>) (p_state u) (p + length (bulk a)) None 0
                           (of_nat (length (b # as))))
         | other \<Rightarrow> Some other)"
    by (rule key_first [OF "1.prems"(2-4)])
  note ar = arity_of_elims(5) [OF "1.prems"(1)]
  let ?r = "r\<lparr>c_keys := K\<rparr>" and ?p = "p + length (bulk a)"
  have z: "(of_nat (length (b # as)) :: u32) \<noteq> 0" by (rule count_Cons(2) [OF rm(5)])
  have z2: "(of_nat (length as) :: u32) = 0 \<longleftrightarrow> as = []"
    using rm2(5) word_count_eq(1) [of "length as"] by (simp add: fits_def)
  have e2: "parse_loop mem (st r SW_KEY_LEN p None l (of_nat (length (a # b # as))))
      = parse_loop mem (st ?r SW_ARG1_LEN ?p None 0 (of_nat (length (b # as))))"
    using e ar z "1.prems"(7) by (simp add: step_key_lf_def del: length_Cons)
  have v2: "view ?r ?p (bulk b @ concat (map bulk as))" using view_bulk(3) [OF v] by simp
  show ?case
  proof (cases "as = []")
    case True
    have "accepts mem (st ?r SW_ARG1_LEN ?p None 0 (of_nat (length (b # as)))) ?r (hiarray_list (c_keys ?r))"
      using True ar K(1) unfolding count_Cons(1)
      by (intro arg_done [OF _ v2 z rm2(4)])
        (auto simp: lf_state_def parse_step_def step_arg1_lf_def at_def)
    then show ?thesis using e2 K True by (simp add: accepts_def)
  next
    case False
    have "parse_loop mem (st ?r SW_ARG1_LEN ?p None 0 (of_nat (length (b # as))))
        = parse_loop mem (st ?r SW_KEY_LEN (?p + length (bulk b)) None 0 (of_nat (length (b # as)) - 1))"
      using ar False z2
      by (intro arg_goto [OF _ v2 z rm2(4)])
        (auto simp: lf_state_def parse_step_def step_arg1_lf_def at_def)
    note this [unfolded count_Cons(1)]
    moreover have "accepts mem (st ?r SW_KEY_LEN (?p + length (bulk b)) None 0 (of_nat (length as))) ?r
        (hiarray_list (c_keys ?r) @ alternate (places (?p + length (bulk b)) as))"
      using "1.prems" False room_Cons(1) [OF rm(7) [OF K]] view_bulk(3) [OF v2]
      by (intro "1.IH") auto
    ultimately show ?thesis using e2 K(2) by (simp add: accepts_def)
  qed
qed auto


lemma arg_next:
  assumes q: "q \<in> {SW_ARG1_LEN, SW_ARG3_LEN, SW_ARGN_LEN} \<or> q = SW_ARG2_LEN \<and> \<not> redis_argeval (c_type r)"
    and v: "view r p (concat (map bulk (a # as)))" and f: "fits (a # as)"
    and step: "\<And>i. c_cmd r ! i = LF \<Longrightarrow> parse_step mem (st r (lf_state q) i None 0 (of_nat (length as)))
                 = Continue (st r q' i None 0 (of_nat (length as)))"
  shows "parse_loop mem (st r q p None l (of_nat (length (a # as))))
       = parse_loop mem (st r q' (p + length (bulk a)) None 0 (of_nat (length as)))"
proof -
  have v': "view r p (bulk a @ concat (map bulk as))" using v by simp
  show ?thesis
    using arg_goto [OF q v' count_Cons(2) [OF f], unfolded count_Cons(1)] step fits_Cons [OF f] by blast
qed

lemma view_next: "view r p (concat (map bulk (a # as))) \<Longrightarrow> view r (p + length (bulk a)) (concat (map bulk as))"
  using view_bulk(3) by simp

lemma arg_last:
  assumes q: "q \<in> {SW_ARG1_LEN, SW_ARG3_LEN, SW_ARGN_LEN} \<or> q = SW_ARG2_LEN \<and> \<not> redis_argeval (c_type r)"
    and v: "view r p (concat (map bulk (a # as)))" and f: "fits (a # as)"
    and step: "\<And>i. c_cmd r ! i = LF \<Longrightarrow> parse_step mem (st r (lf_state q) i None 0 (of_nat (length as)))
                 = Done (st r (lf_state q) i None 0 (of_nat (length as)))"
    and inv: "hiarray_inv (c_keys r)"
  shows "accepts mem (st r q p None l (of_nat (length (a # as)))) r (hiarray_list (c_keys r))"
  using arg_done [OF q _ count_Cons(2) [OF f], unfolded count_Cons(1)] v step inv fits_Cons [OF f] by simp

lemmas lf_steps = lf_state_def parse_step_def step_arg1_lf_def step_arg2_lf_def step_arg3_lf_def
  step_argn_lf_def at_def

lemma fixed_tail:
  assumes ar: "arity_of (c_type r) = OneKey (length as)" and inv: "hiarray_inv (c_keys r)"
    and v: "view r p (concat (map bulk as))" and f: "fits as" and ne: "as \<noteq> []"
  shows "accepts mem (st r SW_ARG1_LEN p None l (of_nat (length as))) r (hiarray_list (c_keys r))"
proof -
  note e = arity_of_elims(2) [OF ar]
  then consider x where "as = [x]" | x y where "as = [x, y]" | x y z where "as = [x, y, z]"
    using ne by (auto simp: length_Suc_conv numeral_2_eq_2 numeral_3_eq_3)
  then show ?thesis
  proof cases
    case 1
    then show ?thesis using e arg_last [OF _ _ _ _ inv, of SW_ARG1_LEN p x "[]" mem l] v f
      by (simp add: lf_steps)
  next
    case 2
    have s: "parse_loop mem (st r SW_ARG1_LEN p None l (of_nat (length [x, y])))
           = parse_loop mem (st r SW_ARG2_LEN (p + length (bulk x)) None 0 (of_nat (length [y])))"
      using e v f 2 by (intro arg_next) (auto simp: lf_steps)
    have v2: "view r (p + length (bulk x)) (concat (map bulk [y]))" using view_next [of r p x "[y]"] v 2 by simp
    have "accepts mem (st r SW_ARG2_LEN (p + length (bulk x)) None 0 (of_nat (length [y]))) r
        (hiarray_list (c_keys r))"
      using e f 2 by (intro arg_last [OF _ v2 _ _ inv]) (auto simp: lf_steps dest: fits_Cons)
    with s 2 show ?thesis by (simp only: accepts_def)
  next
    case 3
    have s: "parse_loop mem (st r SW_ARG1_LEN p None l (of_nat (length [x, y, z])))
           = parse_loop mem (st r SW_ARG2_LEN (p + length (bulk x)) None 0 (of_nat (length [y, z])))"
      using e v f 3 by (intro arg_next) (auto simp: lf_steps)
    have v2: "view r (p + length (bulk x)) (concat (map bulk [y, z]))" using view_next [of r p x "[y, z]"] v 3 by simp
    have f2: "fits [y, z]" "fits [z]" using f 3 by (auto dest!: fits_Cons)
    have s2: "parse_loop mem (st r SW_ARG2_LEN (p + length (bulk x)) None 0 (of_nat (length [y, z])))
        = parse_loop mem (st r SW_ARG3_LEN (p + length (bulk x) + length (bulk y)) None 0 (of_nat (length [z])))"
      using e 3 by (intro arg_next [OF _ v2 f2(1)]) (auto simp: lf_steps)
    note v3 = view_next [OF v2]
    have "accepts mem (st r SW_ARG3_LEN (p + length (bulk x) + length (bulk y)) None 0 (of_nat (length [z]))) r
        (hiarray_list (c_keys r))"
      using e 3 by (intro arg_last [OF _ v3 f2(2) _ inv]) (auto simp: lf_steps)
    with s s2 3 show ?thesis by (simp only: accepts_def)
  qed
qed


definition verdict :: "allocator \<Rightarrow> pstate \<Rightarrow> cmd \<Rightarrow> keypos list option \<Rightarrow> bool" where
  "verdict mem s r ks = (case ks of None \<Rightarrow> rejects mem s | Some l \<Rightarrow> accepts mem s r l)"

lemma verdict_step: "parse_loop mem s = parse_loop mem t \<Longrightarrow> verdict mem t r ks \<Longrightarrow> verdict mem s r ks"
  by (simp add: verdict_def accepts_def rejects_def split: option.splits)

lemma verdict_update [simp]: "verdict mem s (r\<lparr>c_keys := K\<rparr>) ks = verdict mem s r ks"
  by (simp add: verdict_def split: option.split)

lemma verdict_done:
  "parse_loop mem s = Some (Done u) \<Longrightarrow> p_r u = r\<lparr>c_keys := K\<rparr> \<Longrightarrow> hiarray_inv K \<Longrightarrow>
   hiarray_list K = ks \<Longrightarrow> verdict mem s r (Some ks)"
  by (simp add: verdict_def acceptsI)

text \<open>The decision after a key, for the classes with a fixed number of arguments and for the others.\<close>

lemma step_key_lf_one:
  assumes "arity_of (c_type r) = OneKey k" "m < 2 ^ 32"
  shows "m \<noteq> k \<Longrightarrow> step_key_lf (st r q p None 0 (of_nat m)) LF = Err (st r q p None 0 (of_nat m))"
    and "m = k \<Longrightarrow> k = 0 \<Longrightarrow> step_key_lf (st r q p None 0 (of_nat m)) LF = Done (st r q p None 0 (of_nat m))"
    and "m = k \<Longrightarrow> k \<noteq> 0 \<Longrightarrow> step_key_lf (st r q p None 0 (of_nat m)) LF
           = Continue (st r SW_ARG1_LEN p None 0 (of_nat m))"
  using arity_of_elims(2) [OF assms(1)]
  by (auto simp: step_key_lf_def word_count_eq [OF assms(2)])

lemma one_key:
  assumes ar: "arity_of (c_type r) = OneKey k" and mem: "\<forall>k. mem k" and rm: "room r (a # as)"
    and v: "view r p (concat (map bulk (a # as)))"
  shows "verdict mem (st r SW_KEY_LEN p None l (of_nat (length (a # as)))) r
     (if length as = k then Some (hiarray_list (c_keys r) @ [key_of p a]) else None)"
proof -
  obtain K where K: "hiarray_inv K" "hiarray_list K = hiarray_list (c_keys r) @ [key_of p a]"
    and e: "parse_loop mem (st r SW_KEY_LEN p None l (of_nat (length (a # as))))
      = (case step_key_lf (st (r\<lparr>c_keys := K\<rparr>) SW_KEY_LF (bulk_lf p a) None 0 (of_nat (length as))) LF of
           Continue u \<Rightarrow> parse_loop mem (st (r\<lparr>c_keys := K\<rparr>) (p_state u) (p + length (bulk a)) None 0
                           (of_nat (length as)))
         | other \<Rightarrow> Some other)"
    by (rule key_first [OF mem rm v])
  let ?r = "r\<lparr>c_keys := K\<rparr>"
  have n: "length as < 2 ^ 32" using room_Cons(5) [OF rm] by (simp add: fits_def)
  have ar': "arity_of (c_type ?r) = OneKey k" using ar by simp
  note s = step_key_lf_one [OF ar' n]
  consider "length as \<noteq> k" | "length as = k" "k = 0" | "length as = k" "k \<noteq> 0" by blast
  then show ?thesis
  proof cases
    case 1
    with e show ?thesis by (simp add: s(1) verdict_def rejects_def)
  next
    case 2
    from e have "parse_loop mem (st r SW_KEY_LEN p None l (of_nat (length (a # as))))
        = Some (Done (st ?r SW_KEY_LF (bulk_lf p a) None 0 (of_nat (length as))))"
      by (simp only: s(2) [OF 2] outcome.case)
    from verdict_done [OF this _ K] 2 show ?thesis by simp
  next
    case 3
    then have "as \<noteq> []" by auto
    then have "accepts mem (st ?r SW_ARG1_LEN (p + length (bulk a)) None 0 (of_nat (length as)))
        ?r (hiarray_list (c_keys ?r))"
      using ar' 3(1) K(1) view_next [OF v] room_Cons(5) [OF rm] by (intro fixed_tail) auto
    then have "verdict mem (st ?r SW_ARG1_LEN (p + length (bulk a)) None 0 (of_nat (length as)))
        r (Some (hiarray_list K))" by (simp add: verdict_def)
    moreover from e have "parse_loop mem (st r SW_KEY_LEN p None l (of_nat (length (a # as))))
          = parse_loop mem (st ?r SW_ARG1_LEN (p + length (bulk a)) None 0 (of_nat (length as)))"
      by (simp only: s(3) [OF 3] outcome.case pstate.select_convs)
    ultimately show ?thesis using verdict_step 3(1) K(2) by auto
  qed
qed

lemma argn_tail1:
  assumes ar: "redis_argn (c_type r)" "\<not> redis_arg1 (c_type r)" "\<not> redis_arg2 (c_type r)" "\<not> redis_arg3 (c_type r)"
    and inv: "hiarray_inv (c_keys r)" and v: "view r p (concat (map bulk (b # bs)))" and f: "fits (b # bs)"
  shows "accepts mem (st r SW_ARG1_LEN p None l (of_nat (length (b # bs)))) r (hiarray_list (c_keys r))"
proof -
  have fb: "fits bs" using fits_Cons [OF f] by blast
  have nb: "(of_nat (length bs) :: u32) = 0 \<longleftrightarrow> bs = []"
    using word_count_eq(1) [of "length bs"] fb by (simp add: fits_def)
  show ?thesis
  proof (cases "bs = []")
    case True
    with ar nb show ?thesis by (intro arg_last [OF _ v f _ inv]) (auto simp: lf_steps)
  next
    case False
    have "parse_loop mem (st r SW_ARG1_LEN p None l (of_nat (length (b # bs))))
        = parse_loop mem (st r SW_ARGN_LEN (p + length (bulk b)) None 0 (of_nat (length bs)))"
      using False nb ar by (intro arg_next [OF _ v f]) (auto simp: lf_steps)
    moreover have "accepts mem (st r SW_ARGN_LEN (p + length (bulk b)) None 0 (of_nat (length bs))) r
        (hiarray_list (c_keys r))"
      using ar inv view_next [OF v] fb False by (intro argn_tail) auto
    ultimately show ?thesis by (simp add: accepts_def)
  qed
qed

lemma step_key_lf_more:
  assumes "arity_of (c_type r) \<in> {KeyAndMore, Script}"
  shows "step_key_lf (st r q p None 0 n) LF
     = (if n = 0 then Done (st r q p None 0 n)
        else Continue (st r (if redis_argn (c_type r) then SW_ARG1_LEN else SW_ARGN_LEN) p None 0 n))"
  using assms arity_of_elims(3,6) [of "c_type r"] by (auto simp: step_key_lf_def)

lemma key_and_more:
  assumes ar: "arity_of (c_type r) \<in> {KeyAndMore, Script}"
    and mem: "\<forall>k. mem k" and rm: "room r (a # as)"
    and v: "view r p (concat (map bulk (a # as)))"
  shows "accepts mem (st r SW_KEY_LEN p None l (of_nat (length (a # as)))) r
     (hiarray_list (c_keys r) @ [key_of p a])"
proof -
  obtain K where K: "hiarray_inv K" "hiarray_list K = hiarray_list (c_keys r) @ [key_of p a]"
    and e: "parse_loop mem (st r SW_KEY_LEN p None l (of_nat (length (a # as))))
      = (case step_key_lf (st (r\<lparr>c_keys := K\<rparr>) SW_KEY_LF (bulk_lf p a) None 0 (of_nat (length as))) LF of
           Continue u \<Rightarrow> parse_loop mem (st (r\<lparr>c_keys := K\<rparr>) (p_state u) (p + length (bulk a)) None 0
                           (of_nat (length as)))
         | other \<Rightarrow> Some other)"
    by (rule key_first [OF mem rm v])
  let ?r = "r\<lparr>c_keys := K\<rparr>" and ?p = "p + length (bulk a)"
  have ar': "arity_of (c_type ?r) \<in> {KeyAndMore, Script}" using ar by simp
  note s = step_key_lf_more [OF ar'] note f = room_Cons(5) [OF rm]
  have z: "(of_nat (length as) :: u32) = 0 \<longleftrightarrow> as = []"
    using word_count_eq(1) [of "length as"] f by (simp add: fits_def)
  show ?thesis
  proof (cases "as = []")
    case True
    from e have "parse_loop mem (st r SW_KEY_LEN p None l (of_nat (length (a # as))))
        = Some (Done (st ?r SW_KEY_LF (bulk_lf p a) None 0 (of_nat (length as))))"
      using z True by (simp add: s)
    from acceptsI [OF this _ K] show ?thesis by simp
  next
    case False
    let ?q = "if redis_argn (c_type r) then SW_ARG1_LEN else SW_ARGN_LEN"
    have "accepts mem (st ?r ?q ?p None 0 (of_nat (length as))) ?r (hiarray_list (c_keys ?r))"
    proof (cases "redis_argn (c_type r)")
      case True
      then have "arity_of (c_type r) = KeyAndMore" using ar arity_of_elims(6) by auto
      note n = arity_of_elims(3) [OF this]
      obtain b bs where "as = b # bs" using False by (cases as) auto
      then show ?thesis using True n f K(1) view_next [OF v] argn_tail1 [of ?r ?p b bs mem 0] by simp
    next
      case False
      then have "redis_argeval (c_type r)" using ar arity_of_elims(3,6) by auto
      then have "accepts mem (st ?r SW_ARGN_LEN ?p None 0 (of_nat (length as))) ?r (hiarray_list (c_keys ?r))"
        using \<open>as \<noteq> []\<close> f K(1) view_next [OF v] by (intro argn_tail) auto
      with False show ?thesis by simp
    qed
    moreover from e have "parse_loop mem (st r SW_KEY_LEN p None l (of_nat (length (a # as))))
        = parse_loop mem (st ?r ?q ?p None 0 (of_nat (length as)))"
      using z False by (simp add: s)
    ultimately show ?thesis using K(2) by (simp add: accepts_def)
  qed
qed


lemma script_tail:
  assumes ar: "arity_of (c_type r) = Script" and mem: "\<forall>k. mem k" and rm: "room r as"
    and v: "view r p (concat (map bulk as))" and ne: "as \<noteq> []"
  shows "verdict mem (st r SW_ARG1_LEN p None l (of_nat (length as))) r
     (if 3 \<le> length as \<and> numkeys_ok (as ! 1) then Some (hiarray_list (c_keys r) @ [places p as ! 2]) else None)"
proof -
  note c = arity_of_elims(6) [OF ar]
  have ev: "redis_argeval (c_type r)" using c by blast
  obtain x xs where as: "as = x # xs" using ne by (cases as) auto
  note rx = room_Cons [OF rm [unfolded as]]
  have n: "length xs < 2 ^ 32" using rx(5) by (simp add: fits_def)
  have vx: "view r p (bulk x @ concat (map bulk xs))" using v as by simp
  note vlf = view_bulk(2) [OF vx]
  show ?thesis
  proof (cases "length xs < 2")
    case True
    have "\<exists>u. parse_step mem (st r SW_ARG1_LF (bulk_lf p x) None 0 (of_nat (length xs))) = Err u"
      using True c view_hd [OF vlf] word_count_eq(6) [OF n] by (auto simp: parse_step_def step_arg1_lf_def at_def)
    then have "rejects mem (st r SW_ARG1_LF (bulk_lf p x) None 0 (of_nat (length xs)))"
      using rejects_err [OF vlf] by blast
    moreover have "parse_loop mem (st r SW_ARG1_LEN p None l (of_nat (length as)))
        = parse_loop mem (st r SW_ARG1_LF (bulk_lf p x) None 0 (of_nat (length xs)))"
      using run_arg [OF _ vx count_Cons(2) [OF rx(6)] rx(4), unfolded count_Cons(1), of SW_ARG1_LEN mem l] as
      by (simp add: lf_state_def)
    ultimately show ?thesis using True as by (auto simp: verdict_def rejects_def)
  next
    case False
    then obtain y z zs where xs: "xs = y # z # zs"
      by (metis (no_types, lifting) One_nat_def Suc_1 length_Cons less_2_cases_iff list.exhaust list.size(3))
    let ?p = "p + length (bulk x)"
    note ry = room_Cons [OF rx(1) [unfolded xs]] note rz = room_Cons [OF ry(1)]
    have e1: "parse_loop mem (st r SW_ARG1_LEN p None l (of_nat (length as)))
        = parse_loop mem (st r SW_ARG2_LEN ?p None 0 (of_nat (length (y # z # zs))))"
      unfolding as xs using c v as xs False word_count_eq(6) [OF n] rx(6)
      by (intro arg_next) (auto simp: lf_steps)
    have vy: "view r ?p (bulk y @ concat (map bulk (z # zs)))" using view_next [of r p x xs] v as xs by simp
    note e2 = run_numkeys [OF ev vy count_Cons(2) [OF ry(6)] ry(4), unfolded count_Cons(1), of mem 0]
    show ?thesis
    proof (cases "numkeys_ok y")
      case False
      then show ?thesis using e1 e2(2) as xs by (auto simp: verdict_def rejects_def)
    next
      case True
      note vlf2 = view_bulk(2) [OF vy]
      have "(of_nat (length (z # zs)) :: u32) \<noteq> 0" by (rule count_Cons(2) [OF rz(6)])
      moreover have "length (z # zs) < 2 ^ 32" using rz(6) by (simp add: fits_def)
      ultimately have "\<not> (of_nat (length (z # zs)) :: u32) < 1" using word_count_eq(5) by auto
      then have "parse_loop mem (st r SW_ARG2_LF (bulk_lf ?p y) None 0 (of_nat (length (z # zs))))
          = parse_loop mem (st r SW_KEY_LEN (?p + length (bulk y)) None 0 (of_nat (length (z # zs))))"
        using goto_next [OF vlf2, of _ SW_ARG2_LF _ _ SW_KEY_LEN] c view_hd [OF vlf2]
        by (simp add: parse_step_def step_arg2_lf_def at_def bulk_lf_Suc del: length_Cons)
      moreover have "accepts mem (st r SW_KEY_LEN (?p + length (bulk y)) None 0 (of_nat (length (z # zs)))) r
          (hiarray_list (c_keys r) @ [key_of (?p + length (bulk y)) z])"
        using ar view_bulk(3) [OF vy] by (intro key_and_more [OF _ mem ry(1)]) auto
      ultimately show ?thesis using e1 e2(1) True as xs by (simp add: verdict_def accepts_def)
    qed
  qed
qed


lemma even_of_nat_u32: "k < 2 ^ 32 \<Longrightarrow> (of_nat k :: u32) mod 2 = 0 \<longleftrightarrow> even k"
  by (simp add: word_unat_eq_iff unat_mod unat_of_nat_small even_iff_mod_2_eq_zero)

lemma pairs_tail:
  assumes ar: "arity_of (c_type r) = KeyValuePairs" and mem: "\<forall>k. mem k" and rm: "room r as"
    and v: "view r p (concat (map bulk as))" and ne: "as \<noteq> []"
    and narg: "c_narg r = of_nat (Suc (length as))"
  shows "verdict mem (st r SW_KEY_LEN p None l (of_nat (length as))) r
     (if length as = 1 \<or> even (length as) then Some (hiarray_list (c_keys r) @ alternate (places p as)) else None)"
proof -
  have small: "Suc (length as) < 2 ^ 32" using rm by (simp add: room_def fits_def)
  note par = even_of_nat_u32 [OF small, folded narg]
  show ?thesis
  proof (cases "even (length as)")
    case True
    with par show ?thesis using key_values [OF ar mem rm v ne] by (simp add: verdict_def)
  next
    case False
    obtain x xs where as: "as = x # xs" using ne by (cases as) auto
    obtain K where K: "hiarray_inv K" "hiarray_list K = hiarray_list (c_keys r) @ [key_of p x]"
      and e: "parse_loop mem (st r SW_KEY_LEN p None l (of_nat (length as)))
      = (case step_key_lf (st (r\<lparr>c_keys := K\<rparr>) SW_KEY_LF (bulk_lf p x) None 0 (of_nat (length xs))) LF of
           Continue u \<Rightarrow> parse_loop mem (st (r\<lparr>c_keys := K\<rparr>) (p_state u) (p + length (bulk x)) None 0
                           (of_nat (length xs)))
         | other \<Rightarrow> Some other)"
      using key_first [OF mem rm [unfolded as] v [unfolded as]] unfolding as by blast
    note c = arity_of_elims(5) [OF ar]
    have z: "(of_nat (length xs) :: u32) = 0 \<longleftrightarrow> xs = []"
      using word_count_eq(1) [of "length xs"] small as by simp
    show ?thesis
    proof (cases "xs = []")
      case True
      have "parse_loop mem (st r SW_KEY_LEN p None l (of_nat (length as)))
          = Some (Done (st (r\<lparr>c_keys := K\<rparr>) SW_KEY_LF (bulk_lf p x) None 0 (of_nat (length xs))))"
        using e c True by (simp add: step_key_lf_def)
      from verdict_done [OF this _ K] True as show ?thesis by simp
    next
      case ne2: False
      have "step_key_lf (st (r\<lparr>c_keys := K\<rparr>) SW_KEY_LF (bulk_lf p x) None 0 (of_nat (length xs))) LF
          = Err (st (r\<lparr>c_keys := K\<rparr>) SW_KEY_LF (bulk_lf p x) None 0 (of_nat (length xs)))"
        using c par False ne2 z by (simp add: step_key_lf_def)
      with e False ne2 as show ?thesis by (simp add: verdict_def rejects_def)
    qed
  qed
qed

lemma pick_Cons:
  "pick t (a # as) (x # xs) =
     (case arity_of t of
        NoKey \<Rightarrow> Some []
      | OneKey k \<Rightarrow> if length as = k then Some [x] else None
      | KeyAndMore \<Rightarrow> Some [x]
      | ManyKeys \<Rightarrow> Some (x # xs)
      | KeyValuePairs \<Rightarrow> if length (a # as) = 1 \<or> even (length (a # as)) then Some (alternate (x # xs)) else None
      | Script \<Rightarrow> if 3 \<le> length (a # as) \<and> numkeys_ok ((a # as) ! 1) then Some [(x # xs) ! 2] else None
      | Unsupported \<Rightarrow> None)"
  by (simp add: pick_def Let_def split: arity.split)

lemma after_name:
  assumes ar: "arity_of (c_type r) \<noteq> Unsupported" and mem: "\<forall>k. mem k" and rm: "room r as"
    and keys: "hiarray_list (c_keys r) = []" and narg: "c_narg r = of_nat (Suc (length as))"
    and v: "view r i (LF # concat (map bulk as))"
  shows "verdict mem (st r SW_REQ_TYPE_LF i None 0 (of_nat (length as))) r
    (pick (c_type r) as (places (Suc i) as))"
proof -
  have inv: "hiarray_inv (c_keys r)" using rm by (simp add: room_def)
  note lf = view_hd [OF v]
  then have v2: "view r (Suc i) (concat (map bulk as))" by blast
  show ?thesis
  proof (cases "arity_of (c_type r) = NoKey")
    case True
    then have "parse_step mem (st r SW_REQ_TYPE_LF i None 0 (of_nat (length as)))
        = Done (st r SW_REQ_TYPE_LF i None 0 (of_nat (length as)))"
      using arity_of_elims(1) lf by (simp add: parse_step_def step_req_type_lf_def at_def)
    with accepts_done [OF v this inv] True keys show ?thesis
      by (cases as) (simp_all add: verdict_def pick_def)
  next
    case False
    let ?q = "if arity_of (c_type r) = Script then SW_ARG1_LEN else SW_KEY_LEN"
    have ev: "redis_argeval (c_type r) \<longleftrightarrow> arity_of (c_type r) = Script" "\<not> redis_argz (c_type r)"
      using ar False arity_disjoint [of "c_type r"] by (auto simp: arity_of_def split: if_splits)
    have go: "parse_loop mem (st r SW_REQ_TYPE_LF i None 0 (of_nat (length as)))
        = parse_loop mem (st r ?q (Suc i) None 0 (of_nat (length as)))"
      using ev lf by (intro goto_next [OF v]) (auto simp: parse_step_def step_req_type_lf_def at_def)
    show ?thesis
    proof (cases as)
      case Nil
      then have "parse_loop mem (st r ?q (Suc i) None 0 (of_nat (length as)))
          = Some (Continue (st r ?q (Suc i) None 0 (of_nat (length as))))"
        using run_end v2 by simp
      then have "accepts mem (st r ?q (Suc i) None 0 (of_nat (length as))) r []"
        unfolding accepts_def
        by (intro exI [of _ "Continue (st r ?q (Suc i) None 0 (of_nat (length as)))"] exI
            [of _ "st r ?q (Suc i) None 0 (of_nat (length as))"] exI [of _ "c_keys r"]) (simp add: inv keys)
      then show ?thesis using go Nil by (simp add: verdict_def accepts_def pick_def)
    next
      case (Cons x xs)
      have ne: "as \<noteq> []" using Cons by simp
      show ?thesis
        using script_tail [OF _ mem rm v2 ne, of 0] pairs_tail [OF _ mem rm v2 ne narg, of 0]
          many_keys [OF _ mem rm v2 ne, of 0] keys False ar
          key_and_more [OF _ mem rm [unfolded Cons] v2 [unfolded Cons], of 0, folded Cons]
          one_key [OF _ mem rm [unfolded Cons] v2 [unfolded Cons], of _ 0, folded Cons]
        by (intro verdict_step [OF go])
          (cases "arity_of (c_type r)"; cases xs; auto simp: Cons keys pick_Cons verdict_def split: if_splits)
    qed
  qed
qed


section \<open>The header\<close>

lemma run_narg_digits:
  assumes "\<forall>c\<in>set ds. isdigit c" "view r p (ds @ inp)"
  shows "parse_loop mem (st r SW_NARG p (Some tk) l n)
       = parse_loop mem (st r SW_NARG (p + length ds) (Some tk) l (digits_word n ds))"
  using assms
proof (induction ds arbitrary: p n)
  case Nil
  then show ?case by simp
next
  case (Cons c ds)
  have v: "view r p (c # ds @ inp)" using Cons.prems by simp
  have c: "isdigit c" using Cons.prems by simp
  have "parse_step mem (st r SW_NARG p (Some tk) l n)
      = Continue (st r SW_NARG p (Some tk) l (n * 10 + of_nat (digit_val c)))"
    using view_hd [OF v] c by (simp add: parse_step_def at_def step_narg_def)
  from run [OF v this] Cons.IH [of "Suc p"] Cons.prems view_hd [OF v] show ?case
    by (simp add: next_p_def)
qed

definition counted :: "cmd \<Rightarrow> nat \<Rightarrow> cmd" where
  "counted r n = r\<lparr>c_narg_start := Some 0, c_narg_end := Some (1 + length (dec n)), c_narg := of_nat n\<rparr>"

lemma run_count:
  assumes v: "view r 0 (CHR ''*'' # dec n @ CR # LF # inp)" and n: "0 < n" "n < 2 ^ 32"
  shows "parse_loop mem (parse_init r)
       = parse_loop mem (st (counted r n) SW_REQ_TYPE_LEN (3 + length (dec n)) None 0 (of_nat n))"
    and "view (counted r n) (3 + length (dec n)) inp"
proof -
  let ?r1 = "r\<lparr>c_narg_start := Some 0\<rparr>" and ?p = "1 + length (dec n)"
  have "parse_step mem (st r SW_START 0 None 0 0) = Continue (st ?r1 SW_NARG 0 (Some 0) 0 0)"
    using view_hd [OF v] by (simp add: parse_step_def at_def step_narg_def)
  from run [OF v this] have "parse_loop mem (parse_init r) = parse_loop mem (st ?r1 SW_NARG 1 (Some 0) 0 0)"
    by (simp add: next_p_def parse_init_def)
  also have v1: "view ?r1 1 (dec n @ CR # LF # inp)" using view_hd [OF v] by (simp add: view_def)
  then have "parse_loop mem (st ?r1 SW_NARG 1 (Some 0) 0 0)
      = parse_loop mem (st ?r1 SW_NARG ?p (Some 0) 0 (of_nat n))"
    using run_narg_digits [of "dec n" ?r1 1 "CR # LF # inp" mem 0 0 0] by (simp add: dec_digits digits_word_dec)
  also have v2: "view ?r1 ?p (CR # LF # inp)" using view_drop [OF v1] by simp
  have "parse_step mem (st ?r1 SW_NARG ?p (Some 0) 0 (of_nat n))
      = Continue (st (counted r n) SW_NARG_LF ?p None 0 (of_nat n))"
    using view_hd [OF v2] n word_count_eq(1) [of n]
    by (simp add: parse_step_def at_def step_narg_def counted_def char_simps)
  from run [OF v2 this] have "parse_loop mem (st ?r1 SW_NARG ?p (Some 0) 0 (of_nat n))
      = parse_loop mem (st (counted r n) SW_NARG_LF (Suc ?p) None 0 (of_nat n))" by (simp add: next_p_def)
  also have v3: "view (counted r n) (Suc ?p) (LF # inp)"
    using view_hd [OF v2] by (simp add: view_def counted_def)
  then have "parse_loop mem (st (counted r n) SW_NARG_LF (Suc ?p) None 0 (of_nat n))
      = parse_loop mem (st (counted r n) SW_REQ_TYPE_LEN (3 + length (dec n)) None 0 (of_nat n))"
    by (subst run_lf [of _ _ inp _ SW_REQ_TYPE_LEN]) (simp_all add: numeral_3_eq_3)
  finally show "parse_loop mem (parse_init r)
       = parse_loop mem (st (counted r n) SW_REQ_TYPE_LEN (3 + length (dec n)) None 0 (of_nat n))" .
  show "view (counted r n) (3 + length (dec n)) inp" using view_hd [OF v3] by (simp add: numeral_3_eq_3)
qed

definition named :: "cmd \<Rightarrow> cmd_type \<Rightarrow> cmd" where
  "named r t = r\<lparr>c_type := t, c_noforward := c_noforward r \<or> type_noforward t, c_quit := c_quit r \<or> type_quit t\<rparr>"

lemma run_name:
  assumes v: "view r p (bulk w @ rest)" and w: "length w < 2 ^ 32" "w \<noteq> []" and n: "n \<noteq> 0"
  shows "command_type w = Some t \<Longrightarrow> parse_loop mem (st r SW_REQ_TYPE_LEN p None l n)
       = parse_loop mem (st (named r t) SW_REQ_TYPE_LF (bulk_lf p w) None 0 (n - 1))"
    and "command_type w = None \<Longrightarrow> rejects mem (st r SW_REQ_TYPE_LEN p None l n)"
proof -
  have f: "parse_loop mem (st r SW_REQ_TYPE_LEN p None l n)
      = parse_loop mem (st r SW_REQ_TYPE (data_at p w) None (of_nat (length w)) (n - 1))"
    using run_field [OF _ v n _ w(1), of SW_REQ_TYPE_LEN] w(2) by (simp add: len_state_def data_state_def)
  note h = data_head [OF v w(1)]
  have d: "drop (data_at p w) (c_cmd r) = w @ CR # LF # rest"
    using view_bulk(1) [OF v] by (simp add: view_def)
  show "parse_loop mem (st r SW_REQ_TYPE_LEN p None l n)
       = parse_loop mem (st (named r t) SW_REQ_TYPE_LF (bulk_lf p w) None 0 (n - 1))"
    if t: "command_type w = Some t"
  proof -
    have "arity_of CMD_UNKNOWN = Unsupported" by (simp add: arity_of_def arity_defs)
    then have "t \<noteq> CMD_UNKNOWN" using recognised_supported [OF t] by metis
    then show ?thesis unfolding f using h t
      by (intro run_data [OF v w(1)])
        (auto simp: parse_step_def step_req_type_def at_def cmd_end_def Let_def unat_of_nat_small [OF w(1)]
          d req_type_is_lookup named_def)
  qed
  show "rejects mem (st r SW_REQ_TYPE_LEN p None l n)" if t: "command_type w = None"
  proof -
    have "\<exists>u. parse_step mem (st r SW_REQ_TYPE (data_at p w) None (of_nat (length w)) (n - 1)) = Err u"
      using h t by (auto simp: parse_step_def step_req_type_def at_def cmd_end_def Let_def
          unat_of_nat_small [OF w(1)] d req_type_is_lookup)
    with h(4) show ?thesis unfolding rejects_def f using run_stop(2) by metis
  qed
qed

section \<open>The parser on a request\<close>

text \<open>A command ready to be parsed: the buffer holds the request, and no key is recorded yet.\<close>

definition holds_request :: "cmd \<Rightarrow> bytes list \<Rightarrow> bool" where
  "holds_request r args \<longleftrightarrow> fresh_keys r \<and> c_result r = CMD_PARSE_OK \<and> c_cmd r = request args
     \<and> length (request args) < 2 ^ 32 \<and> c_clen r = of_nat (length (request args))"

lemma length_bulk: "2 + length a \<le> length (bulk a)"
  by (simp add: bulk_def)

lemma length_bulks: "2 * length as \<le> length (concat (map bulk as))"
proof (induction as)
  case (Cons a as)
  then show ?case using length_bulk [of a] by simp
qed simp

lemma length_member: "a \<in> set as \<Longrightarrow> length a \<le> length (concat (map bulk as))"
proof (induction as)
  case (Cons b as)
  then show ?case using length_bulk [of b] by fastforce
qed simp

lemma request_fits:
  assumes "length (request args) < 2 ^ 32"
  shows "fits args"
proof -
  have "length (concat (map bulk args)) < 2 ^ 32 - 2" using assms by (simp add: request_def)
  then show ?thesis using length_bulks [of args] length_member [of _ args]
    by (fastforce simp: fits_def)
qed

lemma holds_request_view: "holds_request r args \<Longrightarrow> view r 0 (request args)"
  by (simp add: holds_request_def view_def unat_of_nat_small)

lemma run_request:
  assumes h: "holds_request r (w # as)" and mem: "\<forall>k. mem k" and t: "command_type w = Some t"
  shows "verdict mem (parse_init r) (named (counted r (Suc (length as))) t)
    (pick t as (places (3 + length (dec (Suc (length as))) + length (bulk w)) as))"
    and "view r (3 + length (dec (Suc (length as))) + length (bulk w)) (concat (map bulk as))"
proof -
  let ?n = "Suc (length as)" let ?p = "3 + length (dec ?n)"
  let ?r = "named (counted r ?n) t"
  have fit: "fits (w # as)" using h request_fits by (auto simp: holds_request_def)
  have v: "view r 0 (CHR ''*'' # dec ?n @ CR # LF # bulk w @ concat (map bulk as))"
    using holds_request_view [OF h] by (simp add: request_def)
  have n: "0 < ?n" "?n < 2 ^ 32" using fit by (simp_all add: fits_def)
  note c = run_count [OF v n]
  have w: "length w < 2 ^ 32" "w \<noteq> []" using fit command_type_length [of w] t by (auto simp: fits_def)
  have n0: "(of_nat ?n :: u32) \<noteq> 0" and n1: "(of_nat ?n :: u32) - 1 = of_nat (length as)"
    using word_count_eq(1) [OF n(2)] by simp_all
  have e: "parse_loop mem (parse_init r)
      = parse_loop mem (st ?r SW_REQ_TYPE_LF (bulk_lf ?p w) None 0 (of_nat (length as)))"
    using c(1) run_name(1) [OF c(2) w n0 t] n1 by simp
  have vn: "view ?r = view (counted r ?n)" "view (counted r ?n) = view r"
    by (auto simp: view_def named_def counted_def fun_eq_iff)
  have v2: "view ?r (bulk_lf ?p w) (LF # concat (map bulk as))" using view_bulk(2) [OF c(2)] by (simp add: vn)
  show "view r (?p + length (bulk w)) (concat (map bulk as))" using view_bulk(3) [OF c(2)] by (simp add: vn)
  have "verdict mem (st ?r SW_REQ_TYPE_LF (bulk_lf ?p w) None 0 (of_nat (length as))) ?r
      (pick (c_type ?r) as (places (Suc (bulk_lf ?p w)) as))"
    using h fits_Cons [OF fit] recognised_supported [OF t]
    by (intro after_name [OF _ mem _ _ _ v2])
      (auto simp: named_def counted_def holds_request_def fresh_keys_def room_def fits_def)
  then have "verdict mem (st ?r SW_REQ_TYPE_LF (bulk_lf ?p w) None 0 (of_nat (length as))) ?r
      (pick t as (places (?p + length (bulk w)) as))" by (simp add: bulk_lf_Suc named_def)
  then show "verdict mem (parse_init r) ?r (pick t as (places (?p + length (bulk w)) as))"
    by (rule verdict_step [OF e])
qed


lemma length_places [simp]: "length (places p as) = length as"
  by (induction as arbitrary: p) auto

lemma pick_map:
  assumes "length xs = length as"
  shows "map_option (map f) (pick t as xs) = pick t as (map f xs)"
proof (cases "as = []")
  case False
  then have "xs \<noteq> []" "3 \<le> length as \<Longrightarrow> map f xs ! 2 = f (xs ! 2)" using assms by auto
  then show ?thesis using assms
    by (auto simp: pick_def Let_def map_alternate hd_map split: arity.split)
qed (use assms in \<open>simp add: pick_def\<close>)

lemma pick_None_iff: "pick t as xs = None \<longleftrightarrow> pick t as ys = None"
  by (auto simp: pick_def Let_def split: arity.split)

text \<open>Where the arguments after the name start.\<close>

definition args_at :: "bytes \<Rightarrow> bytes list \<Rightarrow> nat" where
  "args_at w as = 3 + length (dec (Suc (length as))) + length (bulk w)"

lemma parse_picks:
  assumes h: "holds_request r (w # as)" and mem: "\<forall>k. mem k" and t: "command_type w = Some t"
    and ps: "pick t as (places (args_at w as) as) = Some ps"
  shows "\<exists>K. redis_parse_cmd mem r = Some ((named (counted r (Suc (length as))) t)\<lparr>c_keys := K\<rparr>)
     \<and> hiarray_inv K \<and> hiarray_list K = ps"
proof -
  obtain out u K where o: "parse_loop mem (parse_init r) = Some out"
    "out = Done u \<or> out = Continue u" "p_r u = (named (counted r (Suc (length as))) t)\<lparr>c_keys := K\<rparr>" "hiarray_inv K" "hiarray_list K = ps"
    using run_request(1) [OF h mem t] ps by (auto simp: verdict_def accepts_def args_at_def)
  have ok: "c_result r = CMD_PARSE_OK" using h by (simp add: holds_request_def)
  have "redis_parse_cmd mem r = Some ((named (counted r (Suc (length as))) t)\<lparr>c_keys := K\<rparr>)"
    using o ok by (auto simp: redis_parse_cmd_def finish_def named_def counted_def)
  then show ?thesis using o(4,5) by blast
qed

lemma picked_text:
  assumes "holds_request r (w # as)" "\<forall>k. mem (k :: nat)" "command_type w = Some t"
  shows "map_option (map (key_text (c_cmd r))) (pick t as (places (args_at w as) as)) = key_args t (w # as)"
  using pick_map [of "places (args_at w as) as" as "key_text (c_cmd r)" t] run_request(2) [OF assms]
  by (simp add: places_text args_at_def key_args_def)

lemma parse_accepts:
  assumes h: "holds_request r (w # as)" and mem: "\<forall>k. mem k" and t: "command_type w = Some t"
    and ks: "key_args t (w # as) = Some ks"
  shows "\<exists>r'. redis_parse_cmd mem r = Some r' \<and> c_result r' = CMD_PARSE_OK \<and> c_type r' = t
     \<and> c_narg r' = of_nat (length (w # as)) \<and> c_cmd r' = c_cmd r
     \<and> map (key_text (c_cmd r')) (hiarray_list (c_keys r')) = ks"
proof -
  obtain ps where ps: "pick t as (places (args_at w as) as) = Some ps" "map (key_text (c_cmd r)) ps = ks"
    using picked_text [OF h mem t] ks by auto
  have "c_result r = CMD_PARSE_OK" using h by (simp add: holds_request_def)
  then show ?thesis using parse_picks [OF h mem t ps(1)] ps(2) by (auto simp: named_def counted_def)
qed

lemma rejects_error:
  "rejects mem (parse_init r) \<Longrightarrow> \<exists>r'. redis_parse_cmd mem r = Some r' \<and> c_result r' = CMD_PARSE_ERROR"
  by (auto simp: rejects_def redis_parse_cmd_def finish_def)

lemma parse_rejects:
  assumes "holds_request r (w # as)" "\<forall>k. mem k" "command_type w = Some t" "key_args t (w # as) = None"
  shows "\<exists>r'. redis_parse_cmd mem r = Some r' \<and> c_result r' = CMD_PARSE_ERROR"
proof (rule rejects_error)
  let ?q = "3 + length (dec (Suc (length as))) + length (bulk w)"
  have "pick t as (places ?q as) = None"
    using assms(4) pick_None_iff [of t as "places ?q as" as] by (simp add: key_args_def)
  then show "rejects mem (parse_init r)"
    using run_request(1) [OF assms(1-3)] by (simp add: verdict_def)
qed

lemma parse_unknown:
  assumes h: "holds_request r (w # as)" and w: "w \<noteq> []" "command_type w = None"
  shows "\<exists>r'. redis_parse_cmd mem r = Some r' \<and> c_result r' = CMD_PARSE_ERROR"
proof (rule rejects_error)
  let ?n = "Suc (length as)"
  have fit: "fits (w # as)" using h request_fits by (auto simp: holds_request_def)
  have v: "view r 0 (CHR ''*'' # dec ?n @ CR # LF # bulk w @ concat (map bulk as))"
    using holds_request_view [OF h] by (simp add: request_def)
  have n: "0 < ?n" "?n < 2 ^ 32" using fit by (simp_all add: fits_def)
  note c = run_count [OF v n]
  have "(of_nat ?n :: u32) \<noteq> 0" using word_count_eq(1) [OF n(2)] by simp
  from run_name(2) [OF c(2) _ w(1) this w(2)] c(1) fit show "rejects mem (parse_init r)"
    by (simp add: rejects_def fits_def)
qed

end
