(* ===== verification/Sds.thy ===== *)
theory Sds
  imports Hiutil
begin

text \<open>
  \<open>sds.c\<close>: length-prefixed strings with spare room. An \<open>sds\<close> is the header (\<open>len\<close> and
  \<open>free\<close>, both C \<open>int\<close>) and the cells of \<open>buf\<close>.

  \<open>malloc\<close> is a function from the requested size to the cells it returns, whose contents
  are arbitrary, or to \<open>None\<close>. A pointer and a length passed as two arguments are the list of
  the bytes they denote; \<open>size_t\<close> values are \<open>nat\<close>, and their conversions to \<open>int\<close> are
  written out.
\<close>

section \<open>Memory and conversions\<close>

type_synonym heap = "nat \<Rightarrow> bytes option"

definition good_heap :: "heap \<Rightarrow> bool" where
  "good_heap mem \<longleftrightarrow> (\<forall>n b. mem n = Some b \<longrightarrow> length b = n)"

definition to_int :: "nat \<Rightarrow> int" where
  "to_int n = signed_take_bit 31 (int n)"

definition wrap_int :: "int \<Rightarrow> int" where
  "wrap_int i = signed_take_bit 31 i"

definition to_size :: "int \<Rightarrow> nat" where
  "to_size i = (if i < 0 then nat (i + 2 ^ 64) else nat i)"

lemma to_int_small [simp]: "n < 2 ^ 31 \<Longrightarrow> to_int n = int n"
  by (simp add: to_int_def signed_take_bit_int_eq_self)

lemma wrap_int_small: "0 \<le> i \<Longrightarrow> i < 2 ^ 31 \<Longrightarrow> wrap_int i = i"
  by (simp add: wrap_int_def signed_take_bit_int_eq_self)

lemma to_size_int [simp]: "to_size (int n) = n"
  by (simp add: to_size_def)

text \<open>\<open>memcpy(buf + p, t, \<dots>)\<close>.\<close>

definition blit :: "nat \<Rightarrow> bytes \<Rightarrow> bytes \<Rightarrow> bytes" where
  "blit p t xs = take p xs @ t @ drop (p + length t) xs"

lemma length_blit [simp]: "p + length t \<le> length xs \<Longrightarrow> length (blit p t xs) = length xs"
  by (simp add: blit_def)

lemma take_blit [simp]: "p \<le> length xs \<Longrightarrow> take (p + length t) (blit p t xs) = take p xs @ t"
  by (simp add: blit_def)

text \<open>The size of \<open>struct sdshdr\<close> without \<open>buf\<close>, and \<open>realloc\<close> of a header with its cells.\<close>

definition sds_header :: nat where "sds_header = 8"

definition alloc_cells :: "heap \<Rightarrow> nat \<Rightarrow> bytes option" where
  "alloc_cells mem n = map_option (drop sds_header) (mem (sds_header + n))"

definition realloc_cells :: "heap \<Rightarrow> bytes \<Rightarrow> nat \<Rightarrow> bytes option" where
  "realloc_cells mem old n =
     map_option (\<lambda>junk. take n old @ drop (length old) junk) (alloc_cells mem n)"

lemma alloc_cells_length: "good_heap mem \<Longrightarrow> alloc_cells mem n = Some b \<Longrightarrow> length b = n"
  by (auto simp: alloc_cells_def good_heap_def)

lemma realloc_cells_grow:
  assumes "good_heap mem" "realloc_cells mem old n = Some b" "length old \<le> n"
  shows "length b = n" "take (length old) b = old"
  using assms alloc_cells_length by (auto simp: realloc_cells_def)

section \<open>The string\<close>

record sds =
  s_len :: int
  s_free :: int
  s_buf :: bytes

definition sdslen :: "sds \<Rightarrow> nat" where
  "sdslen s = to_size (s_len s)"

definition sdsavail :: "sds \<Rightarrow> nat" where
  "sdsavail s = to_size (s_free s)"

text \<open>The bytes of the string, and what every operation keeps true of the header.\<close>

definition sds_text :: "sds \<Rightarrow> bytes" where
  "sds_text s = take (nat (s_len s)) (s_buf s)"

definition sds_shape :: "sds \<Rightarrow> bool" where
  "sds_shape s \<longleftrightarrow> 0 \<le> s_len s \<and> 0 \<le> s_free s \<and> length (s_buf s) = nat (s_len s) + nat (s_free s) + 1"

definition sds_inv :: "sds \<Rightarrow> bool" where
  "sds_inv s \<longleftrightarrow> sds_shape s \<and> s_buf s ! nat (s_len s) = NUL"

lemma sds_shape_len:
  assumes "sds_shape s"
  shows "length (sds_text s) = nat (s_len s)" "sdslen s = length (sds_text s)"
    "sdsavail s = nat (s_free s)" "int (length (sds_text s)) = s_len s"
    "length (s_buf s) = length (sds_text s) + sdsavail s + 1"
    "s_free s = int (sdsavail s)"
  using assms by (auto simp: sds_shape_def sds_text_def sdslen_def sdsavail_def to_size_def)

lemma sds_inv_len:
  assumes "sds_inv s"
  shows "length (sds_text s) = nat (s_len s)" "sdslen s = length (sds_text s)"
    "sdsavail s = nat (s_free s)" "int (length (sds_text s)) = s_len s"
    "length (s_buf s) = length (sds_text s) + sdsavail s + 1"
    "s_buf s ! length (sds_text s) = NUL"
  using assms by (auto simp: sds_inv_def sds_shape_def sds_text_def sdslen_def sdsavail_def to_size_def)

section \<open>Creation\<close>

definition sdsnewlen :: "heap \<Rightarrow> bytes option \<Rightarrow> nat \<Rightarrow> sds option" where
  "sdsnewlen mem init initlen =
     (case alloc_cells mem (initlen + 1) of
        None \<Rightarrow> None
      | Some cells \<Rightarrow>
          let b = (case init of None \<Rightarrow> replicate (initlen + 1) NUL
                   | Some t \<Rightarrow> blit 0 (take initlen t) cells)
          in Some \<lparr>s_len = to_int initlen, s_free = 0, s_buf = b[initlen := NUL]\<rparr>)"

definition sdsempty :: "heap \<Rightarrow> sds option" where
  "sdsempty mem = sdsnewlen mem (Some []) 0"

definition sdsnew :: "heap \<Rightarrow> bytes option \<Rightarrow> sds option" where
  "sdsnew mem init = sdsnewlen mem init (case init of None \<Rightarrow> 0 | Some t \<Rightarrow> length t)"

definition sdsdup :: "heap \<Rightarrow> sds \<Rightarrow> sds option" where
  "sdsdup mem s = sdsnewlen mem (Some (s_buf s)) (sdslen s)"

lemma sdsnewlen_text:
  assumes "good_heap mem" "sdsnewlen mem (Some t) n = Some s" "n \<le> length t" "n < 2 ^ 31"
  shows "sds_inv s" "sds_text s = take n t" "s_free s = 0"
proof -
  obtain cells where c: "alloc_cells mem (n + 1) = Some cells"
    and s: "s = \<lparr>s_len = to_int n, s_free = 0, s_buf = (blit 0 (take n t) cells)[n := NUL]\<rparr>"
    using assms(2) by (auto simp: sdsnewlen_def Let_def split: option.splits)
  have l: "length cells = n + 1" using alloc_cells_length [OF assms(1) c] .
  then have b: "length (blit 0 (take n t) cells) = n + 1" using assms(3) by (simp add: min_absorb2)
  have "take n (blit 0 (take n t) cells) = take n t" using assms(3) by (simp add: blit_def)
  then show "sds_inv s" "sds_text s = take n t" "s_free s = 0"
    using b assms(4) by (simp_all add: s sds_inv_def sds_shape_def sds_text_def)
qed

lemma sdsempty_text:
  "good_heap mem \<Longrightarrow> sdsempty mem = Some s \<Longrightarrow> sds_inv s \<and> sds_text s = [] \<and> s_free s = 0"
  using sdsnewlen_text [of mem "[]" 0 s] by (simp add: sdsempty_def)

lemma sdsdup_text:
  assumes "good_heap mem" "sds_inv s" "sdsdup mem s = Some d" "length (sds_text s) < 2 ^ 31"
  shows "sds_inv d \<and> sds_text d = sds_text s"
proof -
  note l = sds_inv_len [OF assms(2)]
  have n: "sdslen s \<le> length (s_buf s)" "sdslen s < 2 ^ 31" "sdslen s = nat (s_len s)"
    using l(1,2,5) assms(4) by simp_all
  have "sdsnewlen mem (Some (s_buf s)) (sdslen s) = Some d" using assms(3) by (simp add: sdsdup_def)
  from sdsnewlen_text [OF assms(1) this n(1,2)] show ?thesis by (simp add: sds_text_def [of s] n(3))
qed

section \<open>Header operations\<close>

text \<open>\<open>strlen(s)\<close> of the buffer is the length of \<open>cstr\<close>.\<close>

definition sdsupdatelen :: "sds \<Rightarrow> sds" where
  "sdsupdatelen s =
     (let reallen = to_int (length (cstr (s_buf s)))
      in s\<lparr>s_free := s_free s + (s_len s - reallen), s_len := reallen\<rparr>)"

definition sdsclear :: "sds \<Rightarrow> sds" where
  "sdsclear s = s\<lparr>s_free := s_free s + s_len s, s_len := 0, s_buf := (s_buf s)[0 := NUL]\<rparr>"

definition SDS_MAX_PREALLOC :: nat where "SDS_MAX_PREALLOC = 1024 * 1024"

definition sdsMakeRoomFor :: "heap \<Rightarrow> sds \<Rightarrow> nat \<Rightarrow> sds option" where
  "sdsMakeRoomFor mem s addlen =
     (if addlen \<le> sdsavail s then Some s
      else let len = sdslen s;
               n = len + addlen;
               newlen = (if n < SDS_MAX_PREALLOC then n * 2 else n + SDS_MAX_PREALLOC)
           in case realloc_cells mem (s_buf s) (newlen + 1) of
                None \<Rightarrow> None
              | Some b \<Rightarrow> Some (s\<lparr>s_free := to_int (newlen - len), s_buf := b\<rparr>))"

text \<open>\<open>realloc\<close> is not checked here; on failure the code writes through NULL.\<close>

definition sdsRemoveFreeSpace :: "heap \<Rightarrow> sds \<Rightarrow> sds option" where
  "sdsRemoveFreeSpace mem s =
     map_option (\<lambda>b. s\<lparr>s_free := 0, s_buf := b\<rparr>) (realloc_cells mem (s_buf s) (sdslen s + 1))"

definition sdsAllocSize :: "sds \<Rightarrow> nat" where
  "sdsAllocSize s = sds_header + to_size (s_len s) + to_size (s_free s) + 1"

text \<open>The two assertions are the failing cases.\<close>

definition sdsIncrLen :: "sds \<Rightarrow> int \<Rightarrow> sds option" where
  "sdsIncrLen s incr =
     (if s_free s < incr \<or> s_free s - incr < 0 then None
      else Some (s\<lparr>s_len := s_len s + incr, s_free := s_free s - incr,
                   s_buf := (s_buf s)[to_size (s_len s + incr) := NUL]\<rparr>))"

text \<open>Room for growth stays below the range of \<open>int\<close>.\<close>

definition fits_int :: "sds \<Rightarrow> nat \<Rightarrow> bool" where
  "fits_int s n \<longleftrightarrow> length (sds_text s) + n + SDS_MAX_PREALLOC < 2 ^ 31"

lemma sdsMakeRoomFor_shape:
  assumes h: "good_heap mem" and i: "sds_shape s" and f: "fits_int s n"
    and r: "sdsMakeRoomFor mem s n = Some t"
  shows "sds_shape t" "sds_text t = sds_text s" "n \<le> sdsavail t" "s_len t = s_len s"
    "s_buf t ! length (sds_text s) = s_buf s ! length (sds_text s)"
proof -
  note l = sds_shape_len [OF i]
  let ?len = "length (sds_text s)"
  have "sds_shape t \<and> sds_text t = sds_text s \<and> n \<le> sdsavail t \<and> s_len t = s_len s
    \<and> s_buf t ! ?len = s_buf s ! ?len"
  proof (cases "n \<le> sdsavail s")
    case True
    with r i show ?thesis by (simp add: sdsMakeRoomFor_def)
  next
    case False
    let ?n = "?len + n"
    define newlen where "newlen = (if ?n < SDS_MAX_PREALLOC then ?n * 2 else ?n + SDS_MAX_PREALLOC)"
    obtain b where b: "realloc_cells mem (s_buf s) (newlen + 1) = Some b"
      and t: "t = s\<lparr>s_free := to_int (newlen - ?len), s_buf := b\<rparr>"
      using r False by (auto simp: sdsMakeRoomFor_def Let_def l(2) newlen_def split: option.splits)
    have n: "?n \<le> newlen" "newlen < 2 ^ 31" "newlen - ?len < 2 ^ 31"
      using f by (auto simp: newlen_def fits_int_def SDS_MAX_PREALLOC_def)
    have "length (s_buf s) \<le> newlen + 1" using l(5) False n by simp
    note rc = realloc_cells_grow [OF h b this]
    have lt: "?len < length (s_buf s)" using l(5) by simp
    have keep: "b ! ?len = s_buf s ! ?len" using rc(2) lt by (metis nth_take)
    have "take ?len b = take ?len (take (length (s_buf s)) b)" using lt by simp
    also have "\<dots> = sds_text s" unfolding rc(2) using l(1) by (simp add: sds_text_def)
    finally have tx: "take ?len b = sds_text s" .
    have e: "s_len t = int ?len" "s_free t = int (newlen - ?len)" "s_buf t = b"
      using l(4) n(3) by (simp_all add: t)
    have "length b = ?len + (newlen - ?len) + 1" using rc(1) n(1) by simp
    then have "sds_shape t" "sds_text t = sds_text s" "sdsavail t = newlen - ?len"
      using tx by (simp_all add: sds_shape_def sds_text_def sdsavail_def e del: of_nat_diff)
    then show ?thesis using n(1) e(1,3) l(4) keep by simp
  qed
  then show "sds_shape t" "sds_text t = sds_text s" "n \<le> sdsavail t" "s_len t = s_len s"
    "s_buf t ! ?len = s_buf s ! ?len" by auto
qed

lemma sdsMakeRoomFor_text:
  assumes h: "good_heap mem" and i: "sds_inv s" and f: "fits_int s n"
    and r: "sdsMakeRoomFor mem s n = Some t"
  shows "sds_inv t" "sds_text t = sds_text s" "n \<le> sdsavail t" "s_len t = s_len s"
proof -
  have sh: "sds_shape s" using i by (simp add: sds_inv_def)
  note m = sdsMakeRoomFor_shape [OF h sh f r]
  show "sds_inv t" using m(1,4,5) i sds_shape_len(1) [OF sh] by (simp add: sds_inv_def)
qed (use sdsMakeRoomFor_shape [OF h _ f r] i in \<open>simp_all add: sds_inv_def\<close>)

definition ample :: "heap \<Rightarrow> bool" where
  "ample mem \<longleftrightarrow> (\<forall>n. mem n \<noteq> None)"

lemma realloc_cells_total: "ample mem \<Longrightarrow> realloc_cells mem old n \<noteq> None"
  by (simp add: realloc_cells_def alloc_cells_def ample_def)

lemma sdsMakeRoomFor_total: "ample mem \<Longrightarrow> sdsMakeRoomFor mem s n \<noteq> None"
  by (simp add: sdsMakeRoomFor_def Let_def realloc_cells_total split: option.split)

lemma sdsempty_total: "ample mem \<Longrightarrow> sdsempty mem \<noteq> None"
  by (simp add: sdsempty_def sdsnewlen_def alloc_cells_def ample_def split: option.split)

lemma sds_make:
  assumes "length b = n + f + 1" "b ! n = NUL"
  shows "sds_inv \<lparr>s_len = int n, s_free = int f, s_buf = b\<rparr>"
    "sds_text \<lparr>s_len = int n, s_free = int f, s_buf = b\<rparr> = take n b"
  using assms by (simp_all add: sds_inv_def sds_shape_def sds_text_def)

lemma sdsclear_text: "sds_inv s \<Longrightarrow> sds_inv (sdsclear s) \<and> sds_text (sdsclear s) = []"
  by (auto simp: sds_inv_def sds_shape_def sds_text_def sdsclear_def)

lemma sdsRemoveFreeSpace_text:
  assumes h: "good_heap mem" and i: "sds_inv s" and r: "sdsRemoveFreeSpace mem s = Some t"
  shows "sds_inv t \<and> sds_text t = sds_text s \<and> s_free t = 0"
proof -
  note l = sds_inv_len [OF i]
  let ?n = "length (sds_text s)"
  obtain b where b: "realloc_cells mem (s_buf s) (?n + 1) = Some b" and t: "t = s\<lparr>s_free := 0, s_buf := b\<rparr>"
    using r l(2) by (auto simp: sdsRemoveFreeSpace_def)
  from b obtain junk where j: "b = take (?n + 1) (s_buf s) @ drop (length (s_buf s)) junk" "length junk = ?n + 1"
    using alloc_cells_length [OF h] by (auto simp: realloc_cells_def)
  have n: "?n < length (s_buf s)" using l(5) by simp
  then have e: "b = take (?n + 1) (s_buf s)" using j by simp
  have "t = \<lparr>s_len = int ?n, s_free = int 0, s_buf = b\<rparr>" using l(4) by (simp add: t)
  moreover have "length b = ?n + 0 + 1" "b ! ?n = NUL" using e n l(6) by simp_all
  moreover have "take ?n b = sds_text s" using e l(1) by (simp add: sds_text_def min_def)
  ultimately show ?thesis using sds_make [of b ?n 0] by simp
qed

section \<open>Appending and copying\<close>

definition sdsgrowzero :: "heap \<Rightarrow> sds \<Rightarrow> nat \<Rightarrow> sds option" where
  "sdsgrowzero mem s len =
     (let curlen = to_size (s_len s)
      in if len \<le> curlen then Some s
         else case sdsMakeRoomFor mem s (len - curlen) of
                None \<Rightarrow> None
              | Some t \<Rightarrow>
                  let totlen = to_size (s_len t + s_free t)
                  in Some \<lparr>s_len = to_int len, s_free = to_int (totlen - len),
                           s_buf = blit curlen (replicate (len - curlen + 1) NUL) (s_buf t)\<rparr>)"

definition sdscatlen :: "heap \<Rightarrow> sds \<Rightarrow> bytes \<Rightarrow> sds option" where
  "sdscatlen mem s t =
     (let curlen = sdslen s; len = length t
      in case sdsMakeRoomFor mem s len of
           None \<Rightarrow> None
         | Some r \<Rightarrow> Some \<lparr>s_len = to_int (curlen + len), s_free = s_free r - to_int len,
                          s_buf = (blit curlen t (s_buf r))[curlen + len := NUL]\<rparr>)"

text \<open>\<open>sdscat\<close> appends a C string: the bytes before its NUL.\<close>

definition sdscat :: "heap \<Rightarrow> sds \<Rightarrow> bytes \<Rightarrow> sds option" where
  "sdscat mem s t = sdscatlen mem s (cstr t)"

definition sdscatsds :: "heap \<Rightarrow> sds \<Rightarrow> sds \<Rightarrow> sds option" where
  "sdscatsds mem s t = sdscatlen mem s (take (sdslen t) (s_buf t))"

definition sdscpylen :: "heap \<Rightarrow> sds \<Rightarrow> bytes \<Rightarrow> sds option" where
  "sdscpylen mem s t =
     (let len = length t;
          room = (if to_size (s_free s + s_len s) < len
                  then sdsMakeRoomFor mem s (len - to_size (s_len s)) else Some s)
      in case room of
           None \<Rightarrow> None
         | Some r \<Rightarrow>
             let totlen = to_size (s_free r + s_len r)
             in Some \<lparr>s_len = to_int len, s_free = to_int (totlen - len),
                      s_buf = (blit 0 t (s_buf r))[len := NUL]\<rparr>)"

definition sdscpy :: "heap \<Rightarrow> sds \<Rightarrow> bytes \<Rightarrow> sds option" where
  "sdscpy mem s t = sdscpylen mem s (cstr t)"

lemma sdscatlen_text:
  assumes h: "good_heap mem" and i: "sds_inv s" and f: "fits_int s (length t)"
    and r: "sdscatlen mem s t = Some u"
  shows "sds_inv u \<and> sds_text u = sds_text s @ t"
proof -
  note l = sds_inv_len [OF i]
  let ?n = "length (sds_text s)" let ?k = "length t"
  obtain m where m: "sdsMakeRoomFor mem s ?k = Some m"
    and u: "u = \<lparr>s_len = to_int (?n + ?k), s_free = s_free m - to_int ?k,
                 s_buf = (blit ?n t (s_buf m))[?n + ?k := NUL]\<rparr>"
    using r l(2) by (auto simp: sdscatlen_def Let_def split: option.splits)
  note g = sdsMakeRoomFor_text [OF h i f m] note lm = sds_inv_len [OF g(1)]
  have lb: "length (s_buf m) = ?n + sdsavail m + 1" using lm(5) g(2) by simp
  have small: "?n + ?k < 2 ^ 31" "?k < 2 ^ 31" using f by (simp_all add: fits_int_def)
  have fr: "s_free m = int (sdsavail m)" using g(1) lm(3) by (simp add: sds_inv_def sds_shape_def)
  have "?n + ?k \<le> length (s_buf m)" using lb g(3) by simp
  then have lbl: "length (blit ?n t (s_buf m)) = ?n + sdsavail m + 1" by (simp add: lb)
  have nm: "nat (s_len m) = ?n" using lm(1) g(2) by simp
  have tk: "take (?n + ?k) (blit ?n t (s_buf m)) = sds_text s @ t"
    using g(2) lb nm by (simp add: sds_text_def [of m])
  show ?thesis
    using sds_make [of "(blit ?n t (s_buf m))[?n + ?k := NUL]" "?n + ?k" "sdsavail m - ?k"]
      lbl g(3) tk small(1) by (simp add: u fr)
qed

lemma to_int_less: "to_int n < 2 ^ 31"
  using signed_take_bit_int_less_exp [of 31 "int n"] by (simp add: to_int_def)

lemma sdsMakeRoomFor_free:
  "sdsMakeRoomFor mem s n = Some m \<Longrightarrow> s_free s < 2 ^ 31 \<Longrightarrow> s_free m < 2 ^ 31"
  using to_int_less by (auto simp: sdsMakeRoomFor_def Let_def split: if_splits option.splits)

lemma sdscpylen_text:
  assumes h: "good_heap mem" and i: "sds_inv s" and f: "fits_int s (length t)"
    and fr: "s_free s + s_len s < 2 ^ 31" and r: "sdscpylen mem s t = Some u"
  shows "sds_inv u \<and> sds_text u = t"
proof -
  note l = sds_inv_len [OF i]
  let ?n = "length (sds_text s)" let ?k = "length t"
  have s0: "0 \<le> s_len s" "0 \<le> s_free s" using i by (simp_all add: sds_inv_def sds_shape_def)
  have tot: "to_size (s_free s + s_len s) = ?n + sdsavail s" and n: "to_size (s_len s) = ?n"
    using s0 l(1,3) by (simp_all add: to_size_def nat_add_distrib)
  obtain m where m: "(if ?n + sdsavail s < ?k then sdsMakeRoomFor mem s (?k - ?n) else Some s) = Some m"
    and u: "u = \<lparr>s_len = to_int ?k, s_free = to_int (to_size (s_free m + s_len m) - ?k),
                 s_buf = (blit 0 t (s_buf m))[?k := NUL]\<rparr>"
    using r unfolding sdscpylen_def Let_def tot n by (auto split: option.splits)
  have f': "fits_int s (?k - ?n)" using f by (simp add: fits_int_def)
  have im: "sds_inv m"
    using m sdsMakeRoomFor_text(1) [OF h i f'] i by (cases "?n + sdsavail s < ?k") auto
  have m0: "0 \<le> s_len m" "0 \<le> s_free m" using im by (simp_all add: sds_inv_def sds_shape_def)
  have tm: "length (s_buf m) = to_size (s_free m + s_len m) + 1"
    using im m0 by (simp add: sds_inv_def sds_shape_def to_size_def nat_add_distrib)
  have room: "?k \<le> to_size (s_free m + s_len m) \<and> to_size (s_free m + s_len m) - ?k < 2 ^ 31"
  proof (cases "?n + sdsavail s < ?k")
    case False
    then have "m = s" using m by simp
    then show ?thesis using False fr s0 tot by (simp add: to_size_def)
  next
    case True
    then have mk: "sdsMakeRoomFor mem s (?k - ?n) = Some m" using m by simp
    note g = sdsMakeRoomFor_text [OF h i f' mk]
    have "?k - ?n \<le> nat (s_free m)" using g(3) m0 by (simp add: sdsavail_def to_size_def)
    moreover have "s_free m < 2 ^ 31" using sdsMakeRoomFor_free [OF mk] fr s0 by simp
    moreover have "s_len m = int ?n" using g(4) l(4) by simp
    ultimately show ?thesis using m0 True by (auto simp: to_size_def)
  qed
  have small: "?k < 2 ^ 31" using f by (simp add: fits_int_def)
  have "length (blit 0 t (s_buf m)) = length (s_buf m)" using tm room by simp
  moreover have "take ?k (blit 0 t (s_buf m)) = t" by (simp add: blit_def)
  ultimately show ?thesis
    using sds_make [of "(blit 0 t (s_buf m))[?k := NUL]" ?k "to_size (s_free m + s_len m) - ?k"] room tm small
    by (simp add: u)
qed


lemma sdscatlen_total: "ample mem \<Longrightarrow> sdscatlen mem s x \<noteq> None"
  using sdsMakeRoomFor_total [of mem s "length x"] by (auto simp: sdscatlen_def Let_def)

section \<open>Numbers\<close>

text \<open>The digit loop of \<open>sdsll2str\<close> and the loop that reverses what it wrote.\<close>

function rev_digits :: "nat \<Rightarrow> bytes" where
  "rev_digits v = digit_char (v mod 10) # (if v div 10 \<noteq> 0 then rev_digits (v div 10) else [])"
  by pat_completeness auto
termination by (relation "measure id") auto

declare rev_digits.simps [simp del]

function swap_loop :: "bytes \<Rightarrow> nat \<Rightarrow> nat \<Rightarrow> bytes" where
  "swap_loop b i j = (if i < j then swap_loop (b[i := b ! j, j := b ! i]) (i + 1) (j - 1) else b)"
  by pat_completeness auto
termination by (relation "measure (\<lambda>(b, i, j). j - i)") auto

declare swap_loop.simps [simp del]

text \<open>The cells written and the length returned; \<open>-value\<close> of the smallest value is undefined in C.\<close>

definition sdsll2str :: "int \<Rightarrow> bytes \<times> nat" where
  "sdsll2str value =
     (let ds = rev_digits (nat \<bar>value\<bar>) @ (if value < 0 then ''-'' else []);
          l = length ds
      in (swap_loop (ds @ [NUL]) 0 (l - 1), l))"

definition sdsull2str :: "nat \<Rightarrow> bytes \<times> nat" where
  "sdsull2str v = (let ds = rev_digits v; l = length ds in (swap_loop (ds @ [NUL]) 0 (l - 1), l))"

lemma rev_digits_dec: "rev_digits v = rev (dec v)"
proof (induction v rule: rev_digits.induct)
  case (1 v)
  then show ?case
    by (cases "v < 10") (subst rev_digits.simps, simp add: dec_small dec_large)+
qed

lemma swap_loop_rev:
  "swap_loop (pre @ mid @ post) (length pre) (length pre + length mid - 1) = pre @ rev mid @ post"
proof (induction "length mid" arbitrary: pre mid post rule: less_induct)
  case less
  show ?case
  proof (cases "length mid < 2")
    case True
    then have "rev mid = mid" by (cases mid; cases "tl mid") auto
    moreover have "\<not> length pre < length pre + length mid - 1" using True by simp
    ultimately show ?thesis by (subst swap_loop.simps) simp
  next
    case False
    obtain x m' where m': "mid = x # m'" using False by (cases mid) auto
    obtain m y where "m' = m @ [y]" using False m' by (cases m' rule: rev_cases) auto
    then have mid: "mid = x # m @ [y]" using m' by simp
    let ?j = "length pre + length mid - 1"
    have j: "?j = length (pre @ x # m)" by (simp add: mid)
    have upd: "(pre @ mid @ post)[length pre := (pre @ mid @ post) ! ?j, ?j := (pre @ mid @ post) ! length pre]
        = (pre @ [y]) @ m @ x # post"
    proof -
      have "(pre @ mid @ post) ! ?j = y" using nth_append_length [of "pre @ x # m" y post] j by (simp add: mid)
      moreover have "(pre @ mid @ post) ! length pre = x" by (simp add: mid)
      moreover have "(pre @ y # m @ [y] @ post)[length (pre @ y # m) := x] = pre @ y # m @ [x] @ post"
        by (metis append.assoc append_Cons list_update_length)
      ultimately show ?thesis by (simp add: mid)
    qed
    have lt: "length pre < ?j" using False by simp
    have "swap_loop (pre @ mid @ post) (length pre) ?j
        = swap_loop ((pre @ [y]) @ m @ x # post) (length pre + 1) (?j - 1)"
      using False upd by (subst swap_loop.simps) (simp only: if_P [OF lt])
    also have "\<dots> = (pre @ [y]) @ rev m @ x # post"
      using less [of m "pre @ [y]" "x # post"] by (simp add: mid)
    finally show ?thesis by (simp add: mid)
  qed
qed

lemma swap_loop_whole: "swap_loop (ds @ post) 0 (length ds - 1) = rev ds @ post"
  using swap_loop_rev [of "[]" ds post] by simp

lemma sdsll2str_dec: "sdsll2str value = (dec_int value @ [NUL], length (dec_int value))"
  using swap_loop_whole [of "rev (dec (nat \<bar>value\<bar>)) @ (if value < 0 then ''-'' else [])" "[NUL]"]
  by (auto simp: sdsll2str_def Let_def rev_digits_dec dec_int_def)

lemma sdsull2str_dec: "sdsull2str v = (dec v @ [NUL], length (dec v))"
  using swap_loop_whole [of "rev (dec v)" "[NUL]"] by (simp add: sdsull2str_def Let_def rev_digits_dec)

text \<open>\<open>sdsfromlonglong\<close> writes from the end of its buffer towards the front.\<close>

function down_digits :: "nat \<Rightarrow> bytes \<Rightarrow> bytes" where
  "down_digits v acc =
     (let acc' = digit_char (v mod 10) # acc in if v div 10 \<noteq> 0 then down_digits (v div 10) acc' else acc')"
  by pat_completeness auto
termination by (relation "measure fst") auto

declare down_digits.simps [simp del]

definition sdsfromlonglong :: "heap \<Rightarrow> int \<Rightarrow> sds option" where
  "sdsfromlonglong mem value =
     (let b = (if value < 0 then ''-'' else []) @ down_digits (nat \<bar>value\<bar>) []
      in sdsnewlen mem (Some b) (length b))"

lemma down_digits_dec: "down_digits v acc = dec v @ acc"
proof (induction v acc rule: down_digits.induct)
  case (1 v acc)
  then show ?case
    by (cases "v < 10") (subst down_digits.simps, simp add: Let_def dec_small dec_large)+
qed

lemma length_dec_bound: "n < 10 ^ k \<Longrightarrow> 0 < k \<Longrightarrow> length (dec n) \<le> k"
proof (induction n arbitrary: k rule: dec.induct)
  case (1 n)
  show ?case
  proof (cases "n < 10")
    case True
    with "1.prems" show ?thesis by (simp add: dec_small)
  next
    case False
    obtain k' where k: "k = Suc k'" using "1.prems"(2) by (cases k) auto
    have k0: "0 < k'" using False "1.prems"(1) k by (cases k') auto
    have "n div 10 < 10 ^ k'" using "1.prems"(1) k(1) by (simp add: less_mult_imp_div_less mult.commute)
    with "1.IH" [of k'] False k k0 show ?thesis by (simp add: dec_large)
  qed
qed

lemma number_buffer_bounds:
  "- (2 ^ 63) \<le> i \<Longrightarrow> i < 2 ^ 63 \<Longrightarrow> length (fst (sdsll2str i)) \<le> 21"
  "v < 2 ^ 64 \<Longrightarrow> length (fst (sdsull2str v)) \<le> 21"
proof -
  assume i: "- (2 ^ 63) \<le> i" "i < 2 ^ 63"
  then have "nat \<bar>i\<bar> < 10 ^ 19" by simp
  then show "length (fst (sdsll2str i)) \<le> 21"
    using length_dec_bound [of "nat \<bar>i\<bar>" 19] by (auto simp: sdsll2str_dec dec_int_def)
next
  assume "v < 2 ^ 64"
  then have "v < 10 ^ 20" by simp
  then show "length (fst (sdsull2str v)) \<le> 21"
    using length_dec_bound [of v 20] by (simp add: sdsull2str_dec)
qed

lemma sdsfromlonglong_text:
  assumes "good_heap mem" "sdsfromlonglong mem i = Some s" "- (2 ^ 63) \<le> i" "i < 2 ^ 63"
  shows "sds_inv s \<and> sds_text s = dec_int i"
proof -
  have e: "sdsnewlen mem (Some (dec_int i)) (length (dec_int i)) = Some s"
    using assms(2) by (auto simp: sdsfromlonglong_def Let_def down_digits_dec dec_int_def split: if_splits)
  have "length (dec_int i) < 2 ^ 31"
    using number_buffer_bounds(1) [OF assms(3,4)] by (simp add: sdsll2str_dec)
  then show ?thesis using sdsnewlen_text [OF assms(1) e] by simp
qed


section \<open>The interface the rest of the library uses\<close>

text \<open>A string that grows at its end: appending pieces one by one appends their concatenation.\<close>

fun cat_all :: "('s \<Rightarrow> bytes \<Rightarrow> 's option) \<Rightarrow> 's \<Rightarrow> bytes list \<Rightarrow> 's option" where
  "cat_all cat s [] = Some s"
| "cat_all cat s (t # ts) = (case cat s t of None \<Rightarrow> None | Some u \<Rightarrow> cat_all cat u ts)"

locale appender =
  fixes cat :: "'s \<Rightarrow> bytes \<Rightarrow> 's option"
    and text_of :: "'s \<Rightarrow> bytes"
    and ok :: "'s \<Rightarrow> bool"
    and room :: "'s \<Rightarrow> nat \<Rightarrow> bool"
  assumes cat_text: "ok s \<Longrightarrow> room s (length t) \<Longrightarrow> cat s t = Some u \<Longrightarrow> ok u \<and> text_of u = text_of s @ t"
    and room_left: "room s n \<Longrightarrow> length (text_of u) + m \<le> length (text_of s) + n \<Longrightarrow> room u m"
begin

lemma cat_all_text:
  "ok s \<Longrightarrow> room s (length (concat ts)) \<Longrightarrow> cat_all cat s ts = Some u \<Longrightarrow>
   ok u \<and> text_of u = text_of s @ concat ts"
proof (induction ts arbitrary: s)
  case Nil
  then show ?case by simp
next
  case (Cons t ts)
  then obtain v where v: "cat s t = Some v" "cat_all cat v ts = Some u" by (auto split: option.splits)
  have "room s (length t)" using Cons.prems(2) room_left [of s _ s "length t"] by simp
  from cat_text [OF Cons.prems(1) this v(1)] have w: "ok v" "text_of v = text_of s @ t" by auto
  have "room v (length (concat ts))" by (rule room_left [OF Cons.prems(2)]) (simp add: w(2))
  with Cons.IH [OF w(1) _ v(2)] w(2) show ?case by simp
qed

lemma cat_all_total: "(\<And>s t. cat s t \<noteq> None) \<Longrightarrow> cat_all cat s ts \<noteq> None"
  by (induction ts arbitrary: s) (auto split: option.split)

end

interpretation sds: appender "sdscatlen mem" sds_text "\<lambda>s. good_heap mem \<and> sds_inv s" fits_int for mem
proof unfold_locales
  fix s t u
  assume "good_heap mem \<and> sds_inv s" "fits_int s (length t)" "sdscatlen mem s t = Some u"
  then show "(good_heap mem \<and> sds_inv u) \<and> sds_text u = sds_text s @ t"
    using sdscatlen_text by blast
next
  fix s n u m
  assume "fits_int s n" "length (sds_text u) + m \<le> length (sds_text s) + n"
  then show "fits_int u m" by (simp add: fits_int_def)
qed

end
