(* ===== verification/SdsText.thy ===== *)
theory SdsText
  imports Sds
begin

text \<open>
  The formatted appends of \<open>sds.c\<close> (\<open>sdscatvprintf\<close>, \<open>sdscatfmt\<close>).
\<close>

section \<open>Formatted appends\<close>

text \<open>
  \<open>sdscatvprintf\<close> doubles a scratch buffer until \<open>vsnprintf\<close> leaves its last but one cell
  NUL. \<open>out\<close> is the text the format and its arguments denote; the loop starts at 16.
\<close>

definition malloc :: "heap \<Rightarrow> nat \<Rightarrow> bytes option" where
  "malloc mem n = map_option (\<lambda>b. take n (b @ replicate n NUL)) (mem n)"

lemma length_malloc: "malloc mem n = Some b \<Longrightarrow> length b = n"
  by (auto simp: malloc_def)

definition vsnprintf_into :: "bytes \<Rightarrow> bytes \<Rightarrow> bytes" where
  "vsnprintf_into buf out = blit 0 (take (length buf - 1) out @ [NUL]) buf"

lemma vsnprintf_fits:
  assumes "length out + 2 \<le> length buf" "buf ! (length buf - 2) = NUL"
  shows "vsnprintf_into buf out ! (length buf - 2) = NUL"
proof -
  obtain d where d: "length buf - 2 = length out + d" using assms(1) by (metis add_le_imp_le_diff le_iff_add)
  have e: "vsnprintf_into buf out = out @ NUL # drop (length out + 1) buf"
    using assms(1) by (simp add: vsnprintf_into_def blit_def)
  show ?thesis
  proof (cases d)
    case 0
    then show ?thesis by (simp add: e d)
  next
    case (Suc k)
    then have "buf ! (length out + 1 + k) = NUL" using assms(2) d by simp
    moreover have "length out + 1 \<le> length buf" using assms(1) by simp
    ultimately show ?thesis unfolding d e using Suc by (simp add: nth_append)
  qed
qed

function catv_loop :: "heap \<Rightarrow> nat \<Rightarrow> bytes \<Rightarrow> bytes option" where
  "catv_loop mem buflen out =
     (if buflen < 2 then None
      else case malloc mem buflen of
        None \<Rightarrow> None
      | Some junk \<Rightarrow>
          let buf = vsnprintf_into (junk[buflen - 2 := NUL]) out
          in if buf ! (buflen - 2) \<noteq> NUL then catv_loop mem (buflen * 2) out else Some buf)"
  by pat_completeness auto
termination
proof (relation "measure (\<lambda>(mem, n, out). length out + 2 - n)", goal_cases)
  case (2 mem n out junk buf)
  then have l: "length (junk[n - 2 := NUL]) = n" using length_malloc by simp
  have "\<not> length out + 2 \<le> n"
    using 2 vsnprintf_fits [of out "junk[n - 2 := NUL]", unfolded l] l by auto
  with 2 show ?case by auto
qed simp

declare catv_loop.simps [simp del]

definition sdscatvprintf :: "heap \<Rightarrow> sds \<Rightarrow> bytes \<Rightarrow> sds option" where
  "sdscatvprintf mem s out =
     (case catv_loop mem 16 out of None \<Rightarrow> None | Some buf \<Rightarrow> sdscat mem s buf)"

lemma cstr_no_nul: "NUL \<notin> set t \<Longrightarrow> cstr t = t"
  unfolding cstr_def by (subst takeWhile_eq_all_conv) auto

lemma catv_loop_text:
  "catv_loop mem n out = Some buf \<Longrightarrow> cstr buf = cstr out"
proof (induction mem n out rule: catv_loop.induct)
  case (1 mem n out)
  from "1.prems" have n: "\<not> n < 2" by (subst (asm) catv_loop.simps) (auto split: if_splits)
  from "1.prems" n obtain junk where j: "malloc mem n = Some junk"
    by (subst (asm) catv_loop.simps) (auto split: option.splits)
  let ?b = "vsnprintf_into (junk[n - 2 := NUL]) out"
  have l: "length junk = n" using j by (rule length_malloc)
  show ?case
  proof (cases "?b ! (n - 2) = NUL")
    case False
    then show ?thesis using "1.IH" [OF n j refl] "1.prems" n j
      by (subst (asm) (2) catv_loop.simps) simp
  next
    case True
    then have b: "buf = ?b" using "1.prems" n j by (subst (asm) catv_loop.simps) simp
    let ?t = "take (n - 1) out"
    have bt: "?b = ?t @ NUL # drop (length ?t + 1) (junk[n - 2 := NUL])"
      using l by (simp add: vsnprintf_into_def blit_def)
    have c: "cstr ?b = cstr ?t"
    proof (cases "NUL \<in> set ?t")
      case True
      then show ?thesis by (auto simp: bt cstr_def takeWhile_append)
    next
      case False
      then show ?thesis unfolding bt by (simp only: cstr_append [OF False] cstr_no_nul [OF False])
    qed
    also have "cstr ?t = cstr out"
    proof (cases "length out \<le> n - 1")
      case False
      obtain m where m: "n = m + 2" using n by (metis add.commute le_Suc_ex not_less)
      have "?t ! m = NUL" using True False bt by (simp add: m nth_append)
      then have "NUL \<in> set ?t" using False by (auto simp: m in_set_conv_nth)
      then have "takeWhile (\<lambda>c. c \<noteq> NUL) (?t @ drop (n - 1) out) = takeWhile (\<lambda>c. c \<noteq> NUL) ?t"
        by (intro takeWhile_append1) auto
      then show ?thesis by (simp add: cstr_def)
    qed simp
    finally show ?thesis by (simp add: b)
  qed
qed


lemma catv_loop_total:
  assumes "ample mem" "2 \<le> n"
  shows "\<exists>buf. catv_loop mem n out = Some buf"
  using assms
proof (induction mem n out rule: catv_loop.induct)
  case (1 mem n out)
  then obtain junk where j: "malloc mem n = Some junk" by (fastforce simp: malloc_def ample_def)
  with 1 show ?case
    by (subst catv_loop.simps) (auto simp: Let_def)
qed

lemma length_cstr: "length (cstr t) \<le> length t"
  by (simp add: cstr_def length_takeWhile_le)

lemma sdscatvprintf_is_cat:
  "sdscatvprintf mem s out = Some u \<Longrightarrow> sdscatlen mem s (cstr out) = Some u"
  by (auto simp: sdscatvprintf_def sdscat_def dest!: catv_loop_text split: option.splits)

lemma sdscatvprintf_total: "ample mem \<Longrightarrow> \<exists>u. sdscatvprintf mem s out = Some u"
  using catv_loop_total [of mem 16 out] catv_loop_text [of mem 16 out] sdscatlen_total
  by (fastforce simp: sdscatvprintf_def sdscat_def)

text \<open>
  \<open>sdscatfmt\<close>: arguments are C strings (or the bytes of an sds), signed and unsigned
  integers. \<open>None\<close> stands for everything C leaves undefined here: a failed allocation (the
  result is not checked), an argument that is missing or of another type, and a format that
  ends in \<open>%\<close>, where \<open>f++\<close> passes the terminator.
\<close>

datatype fmt_arg = ArgStr bytes | ArgSds sds | ArgInt int | ArgUint nat

definition fmt_put :: "heap \<Rightarrow> sds \<Rightarrow> nat \<Rightarrow> bytes \<Rightarrow> (sds \<times> nat) option" where
  "fmt_put mem s i t =
     (let l = length t
      in case (if s_free s < int l then sdsMakeRoomFor mem s l else Some s) of
           None \<Rightarrow> None
         | Some r \<Rightarrow> Some (\<lparr>s_len = s_len r + int l, s_free = s_free r - int l, s_buf = blit i t (s_buf r)\<rparr>, i + l))"

definition fmt_char :: "sds \<Rightarrow> nat \<Rightarrow> char \<Rightarrow> sds \<times> nat" where
  "fmt_char s i c = (\<lparr>s_len = s_len s + 1, s_free = s_free s - 1, s_buf = (s_buf s)[i := c]\<rparr>, i + 1)"

text \<open>One conversion: the character after \<open>%\<close> and the arguments left.\<close>

fun fmt_conv :: "char \<Rightarrow> fmt_arg list \<Rightarrow> (bytes \<times> fmt_arg list) option" where
  "fmt_conv next args =
     (if next = CHR ''s'' then (case args of ArgStr t # r \<Rightarrow> Some (cstr t, r) | _ \<Rightarrow> None)
      else if next = CHR ''S'' then (case args of ArgSds t # r \<Rightarrow> Some (take (sdslen t) (s_buf t), r) | _ \<Rightarrow> None)
      else if next = CHR ''i'' \<or> next = CHR ''I''
        then (case args of ArgInt n # r \<Rightarrow> (let (b, l) = sdsll2str n in Some (take l b, r)) | _ \<Rightarrow> None)
      else if next = CHR ''u'' \<or> next = CHR ''U'' \<or> next = CHR ''T''
        then (case args of ArgUint n # r \<Rightarrow> (let (b, l) = sdsull2str n in Some (take l b, r)) | _ \<Rightarrow> None)
      else None)"

definition is_conv :: "char \<Rightarrow> bool" where
  "is_conv c \<longleftrightarrow> c \<in> set ''sSiIuUT''"

fun fmt_loop :: "heap \<Rightarrow> bytes \<Rightarrow> fmt_arg list \<Rightarrow> sds \<Rightarrow> nat \<Rightarrow> (sds \<times> nat) option" where
  "fmt_loop mem [] args s i = Some (s, i)"
| "fmt_loop mem (c # f) args s i =
     (case (if s_free s = 0 then sdsMakeRoomFor mem s 1 else Some s) of
        None \<Rightarrow> None
      | Some s1 \<Rightarrow>
          if c = CHR ''%'' then
            (case f of
               [] \<Rightarrow> None
             | next # f' \<Rightarrow>
                 if is_conv next then
                   (case fmt_conv next args of
                      None \<Rightarrow> None
                    | Some (t, args') \<Rightarrow>
                        (case fmt_put mem s1 i t of
                           None \<Rightarrow> None
                         | Some (s2, j) \<Rightarrow> fmt_loop mem f' args' s2 j))
                 else (let (s2, j) = fmt_char s1 i next in fmt_loop mem f' args s2 j))
          else (let (s2, j) = fmt_char s1 i c in fmt_loop mem f args s2 j))"

definition sdscatfmt :: "heap \<Rightarrow> sds \<Rightarrow> bytes \<Rightarrow> fmt_arg list \<Rightarrow> sds option" where
  "sdscatfmt mem s f args =
     (case fmt_loop mem f args s (sdslen s) of
        None \<Rightarrow> None
      | Some (t, i) \<Rightarrow> Some (t\<lparr>s_buf := (s_buf t)[i := NUL]\<rparr>))"

text \<open>What the format denotes.\<close>

fun fmt_text :: "bytes \<Rightarrow> fmt_arg list \<Rightarrow> bytes option" where
  "fmt_text [] args = Some []"
| "fmt_text (c # f) args =
     (if c = CHR ''%'' then
        (case f of
           [] \<Rightarrow> None
         | next # f' \<Rightarrow>
             if is_conv next then
               (case fmt_conv next args of None \<Rightarrow> None | Some (t, args') \<Rightarrow> map_option ((@) t) (fmt_text f' args'))
             else map_option ((#) next) (fmt_text f' args))
      else map_option ((#) c) (fmt_text f args))"

lemma fmt_put_text:
  assumes h: "good_heap mem" and i: "sds_shape s" and f: "fits_int s (length t)"
    and p: "fmt_put mem s (length (sds_text s)) t = Some (u, j)"
  shows "sds_shape u" "sds_text u = sds_text s @ t" "j = length (sds_text u)"
proof -
  let ?n = "length (sds_text s)"
  obtain r where r: "(if s_free s < int (length t) then sdsMakeRoomFor mem s (length t) else Some s) = Some r"
    and u: "u = \<lparr>s_len = s_len r + int (length t), s_free = s_free r - int (length t), s_buf = blit ?n t (s_buf r)\<rparr>"
    and j: "j = ?n + length t"
    using p by (auto simp: fmt_put_def Let_def split: option.splits)
  have g: "sds_shape r \<and> sds_text r = sds_text s \<and> length t \<le> sdsavail r"
  proof (cases "s_free s < int (length t)")
    case True
    with r have "sdsMakeRoomFor mem s (length t) = Some r" by simp
    from sdsMakeRoomFor_shape(1-3) [OF h i f this] show ?thesis by blast
  next
    case False
    with r have "r = s" by simp
    with False i sds_shape_len(6) [OF i] show ?thesis by simp
  qed
  then have g: "sds_shape r" "sds_text r = sds_text s" "length t \<le> sdsavail r" by auto
  note l = sds_shape_len [OF g(1)]
  have n1: "nat (s_len r) = ?n" using l(1) g(2) by simp
  have n2: "s_len r = int ?n" using l(4) g(2) by simp
  have len: "length (blit ?n t (s_buf r)) = length (s_buf r)" using l(5) g(2,3) by simp
  have "take (?n + length t) (blit ?n t (s_buf r)) = sds_text s @ t"
  proof -
    have "take ?n (s_buf r) = sds_text s" using g(2) n1 by (simp add: sds_text_def [of r])
    moreover have "?n \<le> length (s_buf r)" using l(5) g(2) by simp
    ultimately show ?thesis by simp
  qed
  moreover have "nat (s_len u) = ?n + length t" using n2 by (simp add: u)
  moreover have "s_buf u = blit ?n t (s_buf r)" by (simp add: u)
  ultimately show tu: "sds_text u = sds_text s @ t" unfolding sds_text_def [of u] by metis
  show "j = length (sds_text u)" by (simp add: tu j)
  show "sds_shape u" using g(1,3) l(3) len by (simp add: u sds_shape_def) arith
qed

lemma fmt_char_text:
  assumes i: "sds_shape s" and a: "0 < sdsavail s" and p: "fmt_char s (length (sds_text s)) c = (u, j)"
  shows "sds_shape u" "sds_text u = sds_text s @ [c]" "j = length (sds_text u)"
proof -
  let ?n = "length (sds_text s)"
  note l = sds_shape_len [OF i]
  have n: "nat (s_len s) = ?n" "s_len s = int ?n" using l(1,4) by simp_all
  have u: "u = \<lparr>s_len = s_len s + 1, s_free = s_free s - 1, s_buf = (s_buf s)[?n := c]\<rparr>" and j: "j = ?n + 1"
    using p by (auto simp: fmt_char_def)
  have "take (Suc ?n) ((s_buf s)[?n := c]) = take ?n (s_buf s) @ [c]"
    using l(5) by (simp add: take_Suc_conv_app_nth)
  also have "take ?n (s_buf s) = sds_text s" using n(1) by (simp add: sds_text_def)
  finally have tk: "take (Suc ?n) ((s_buf s)[?n := c]) = sds_text s @ [c]" .
  have "nat (s_len u) = Suc ?n" using n(2) by (simp add: u)
  then show tu: "sds_text u = sds_text s @ [c]" using tk by (simp add: sds_text_def [of u]) (simp add: u)
  show "j = length (sds_text u)" by (simp add: tu j)
  show "sds_shape u" using i a l(3) by (simp add: u sds_shape_def) arith
qed


lemma fits_int_less: "fits_int s n \<Longrightarrow> length (sds_text u) + m \<le> length (sds_text s) + n \<Longrightarrow> fits_int u m"
  by (simp add: fits_int_def)

lemma fmt_room:
  assumes "good_heap mem" "ample mem" "sds_shape s" "fits_int s 1"
  obtains r where "(if s_free s = 0 then sdsMakeRoomFor mem s 1 else Some s) = Some r"
    "sds_shape r" "sds_text r = sds_text s" "0 < sdsavail r"
proof (cases "s_free s = 0")
  case True
  obtain r where r: "sdsMakeRoomFor mem s 1 = Some r" using sdsMakeRoomFor_total [OF assms(2)] by fastforce
  from sdsMakeRoomFor_shape(1-3) [OF assms(1,3,4) r] r True that show ?thesis by simp
next
  case False
  then have "0 < sdsavail s" using assms(3) by (auto simp: sds_shape_def sdsavail_def to_size_def)
  with False assms(3) that show ?thesis by simp
qed

lemma fmt_put_total: "ample mem \<Longrightarrow> \<exists>u j. fmt_put mem s i t = Some (u, j)"
  using sdsMakeRoomFor_total [of mem s "length t"] by (auto simp: fmt_put_def Let_def)

lemma fmt_loop_text:
  assumes h: "good_heap mem" "ample mem"
  shows "sds_shape s \<Longrightarrow> fmt_text f args = Some t \<Longrightarrow> fits_int s (length t + 1) \<Longrightarrow>
    \<exists>u. fmt_loop mem f args s (length (sds_text s)) = Some (u, length (sds_text u))
      \<and> sds_shape u \<and> sds_text u = sds_text s @ t"
proof (induction f args arbitrary: s t rule: fmt_text.induct)
  case (1 args)
  then show ?case by simp
next
  case (2 c f args)
  obtain r where r: "(if s_free s = 0 then sdsMakeRoomFor mem s 1 else Some s) = Some r"
    "sds_shape r" "sds_text r = sds_text s" "0 < sdsavail r"
    using fmt_room [OF h "2.prems"(1) fits_int_less [OF "2.prems"(3), of s 1]] by auto
  have step: "\<exists>u. fmt_loop mem g as (fst (fmt_char r (length (sds_text s)) ch))
          (snd (fmt_char r (length (sds_text s)) ch)) = Some (u, length (sds_text u))
        \<and> sds_shape u \<and> sds_text u = sds_text s @ ch # t'"
    if "\<And>s. sds_shape s \<Longrightarrow> fits_int s (length t' + 1) \<Longrightarrow>
        \<exists>u. fmt_loop mem g as s (length (sds_text s)) = Some (u, length (sds_text u))
          \<and> sds_shape u \<and> sds_text u = sds_text s @ t'" "t = ch # t'" for g as ch t'
  proof -
    obtain v j where v: "fmt_char r (length (sds_text r)) ch = (v, j)" by (cases "fmt_char r (length (sds_text r)) ch")
    note c = fmt_char_text [OF r(2,4) v]
    have "fits_int v (length t' + 1)" using "2.prems"(3) that(2) r(3) by (simp add: fits_int_def c(2))
    from that(1) [OF c(1) this] show ?thesis using v c r(3) by simp
  qed
  show ?case
  proof (cases "c = CHR ''%''")
    case False
    with "2.prems"(2) obtain t' where t': "fmt_text f args = Some t'" "t = c # t'" by auto
    show ?thesis using step [of t' f args c] "2.IH"(3) [OF False _ t'(1)] t'(2) False r(1)
      by (auto simp: case_prod_beta)
  next
    case True
    with "2.prems"(2) obtain next' f' where f: "f = next' # f'" by (cases f) auto
    show ?thesis
    proof (cases "is_conv next'")
      case False
      with "2.prems"(2) True f obtain t' where t': "fmt_text f' args = Some t'" "t = next' # t'" by auto
      show ?thesis using step [of t' f' args next'] "2.IH"(2) [OF True f False _ t'(1)] t'(2) False True f r(1)
        by (auto simp: case_prod_beta)
    next
      case conv: True
      with "2.prems"(2) True f obtain x as t' where x: "fmt_conv next' args = Some (x, as)"
        "fmt_text f' as = Some t'" "t = x @ t'"
        by (auto split: option.splits prod.splits simp del: fmt_conv.simps)
      obtain v j where v: "fmt_put mem r (length (sds_text r)) x = Some (v, j)"
        using fmt_put_total [OF h(2)] by blast
      have "fits_int r (length x)" using "2.prems"(3) x(3) r(3) by (simp add: fits_int_def)
      note c = fmt_put_text [OF h(1) r(2) this v]
      have "fits_int v (length t' + 1)" using "2.prems"(3) x(3) r(3) by (simp add: fits_int_def c(2))
      then have "\<exists>u. fmt_loop mem f' as v (length (sds_text v)) = Some (u, length (sds_text u))
          \<and> sds_shape u \<and> sds_text u = sds_text v @ t'"
        using "2.IH"(1) [OF True f conv x(1) refl c(1) x(2)] by blast
      then show ?thesis using True f conv x v c r(1,3) by (simp del: fmt_conv.simps)
    qed
  qed
qed

lemma sdscatfmt_text:
  assumes "good_heap mem" "ample mem" "sds_inv s" "fmt_text f args = Some t" "fits_int s (length t + 1)"
  shows "\<exists>u. sdscatfmt mem s f args = Some u \<and> sds_inv u \<and> sds_text u = sds_text s @ t"
proof -
  have sh: "sds_shape s" using assms(3) by (simp add: sds_inv_def)
  obtain u where u: "fmt_loop mem f args s (sdslen s) = Some (u, length (sds_text u))"
    "sds_shape u" "sds_text u = sds_text s @ t"
    using fmt_loop_text [OF assms(1,2) sh assms(4,5)] sds_shape_len(2) [OF sh] by auto
  note l = sds_shape_len(1,5) [OF u(2)]
  let ?u = "u\<lparr>s_buf := (s_buf u)[length (sds_text u) := NUL]\<rparr>"
  have "sds_inv ?u" using u(2) l by (simp add: sds_inv_def sds_shape_def)
  moreover have "sds_text ?u = sds_text u" using l(1) by (simp add: sds_text_def)
  ultimately show ?thesis using u(1,3) by (simp add: sdscatfmt_def)
qed

end
