(* ===== verification/SdsEdit.thy ===== *)
theory SdsEdit
  imports SdsText
begin

text \<open>
  In-place editing, comparison, splitting and joining of sds strings.
\<close>

section \<open>Trimming and slicing\<close>

text \<open>
  \<open>strchr(cset, c)\<close> is not NULL for the characters of \<open>cset\<close> and for NUL, which matches the
  terminator of \<open>cset\<close>.
\<close>

definition in_cset :: "bytes \<Rightarrow> char \<Rightarrow> bool" where
  "in_cset cset c \<longleftrightarrow> c \<in> set cset \<or> c = NUL"

text \<open>The two pointers, as offsets; \<open>end\<close> is \<open>-1\<close> for the empty string.\<close>

function trim_left :: "bytes \<Rightarrow> bytes \<Rightarrow> int \<Rightarrow> int \<Rightarrow> int" where
  "trim_left b cset sp end = (if sp \<le> end \<and> in_cset cset (b ! nat sp) then trim_left b cset (sp + 1) end else sp)"
  by pat_completeness auto
termination by (relation "measure (\<lambda>(b, c, sp, end). nat (end + 1 - sp))") auto

function trim_right :: "bytes \<Rightarrow> bytes \<Rightarrow> int \<Rightarrow> int" where
  "trim_right b cset ep = (if ep > 0 \<and> in_cset cset (b ! nat ep) then trim_right b cset (ep - 1) else ep)"
  by pat_completeness auto
termination by (relation "measure (\<lambda>(b, c, ep). nat ep)") auto

declare trim_left.simps [simp del] trim_right.simps [simp del]

definition sdstrim :: "sds \<Rightarrow> bytes \<Rightarrow> sds" where
  "sdstrim s cset =
     (let e = int (sdslen s) - 1;
          sp = trim_left (s_buf s) cset 0 e;
          ep = trim_right (s_buf s) cset e;
          len = (if sp > ep then 0 else nat (ep - sp + 1));
          b = blit 0 (take len (drop (nat sp) (s_buf s))) (s_buf s)
      in \<lparr>s_len = to_int len, s_free = s_free s + (s_len s - to_int len), s_buf = b[len := NUL]\<rparr>)"

definition sdsrange :: "sds \<Rightarrow> int \<Rightarrow> int \<Rightarrow> sds" where
  "sdsrange s start end =
     (let len = int (sdslen s)
      in if len = 0 then s
         else let start = (if start < 0 then max 0 (len + start) else start);
                  end = (if end < 0 then max 0 (len + end) else end);
                  newlen = (if start > end then 0 else end - start + 1);
                  (start, newlen) =
                    (if newlen \<noteq> 0 then
                       (if start \<ge> len then (start, 0)
                        else if end \<ge> len then (start, if start > len - 1 then 0 else len - 1 - start + 1)
                        else (start, newlen))
                     else (0, newlen));
                  b = (if start \<noteq> 0 \<and> newlen \<noteq> 0
                       then blit 0 (take (nat newlen) (drop (nat start) (s_buf s))) (s_buf s) else s_buf s)
              in \<lparr>s_len = newlen, s_free = s_free s + (s_len s - newlen), s_buf = b[nat newlen := NUL]\<rparr>)"

text \<open>Both cut the string down to a piece of it.\<close>

lemma sds_cut:
  assumes i: "sds_inv s" and b: "length b = length (s_buf s)" and k: "k \<le> length (sds_text s)"
    and t: "take k b = t"
  shows "sds_inv \<lparr>s_len = int k, s_free = s_free s + (s_len s - int k), s_buf = b[k := NUL]\<rparr>"
    and "sds_text \<lparr>s_len = int k, s_free = s_free s + (s_len s - int k), s_buf = b[k := NUL]\<rparr> = t"
proof -
  note l = sds_inv_len [OF i]
  have f: "s_free s + (s_len s - int k) = int (length (s_buf s) - 1 - k)"
    using l(4,5) k i by (simp add: sds_inv_def sds_shape_def)
  have "length b = k + (length (s_buf s) - 1 - k) + 1" using b l(5) k by simp
  then show "sds_inv \<lparr>s_len = int k, s_free = s_free s + (s_len s - int k), s_buf = b[k := NUL]\<rparr>"
    and "sds_text \<lparr>s_len = int k, s_free = s_free s + (s_len s - int k), s_buf = b[k := NUL]\<rparr> = t"
    unfolding f using sds_make [of "b[k := NUL]" k "length (s_buf s) - 1 - k"] t by simp_all
qed

lemma trim_left_drop:
  "int k \<le> end + 1 \<Longrightarrow> nat (end + 1) \<le> length b \<Longrightarrow>
   trim_left b cset (int k) end
     = int (k + length (takeWhile (in_cset cset) (drop k (take (nat (end + 1)) b))))"
proof (induction b cset "int k" "end" arbitrary: k rule: trim_left.induct)
  case (1 b cset "end")
  let ?t = "take (nat (end + 1)) b"
  show ?case
  proof (cases "int k \<le> end")
    case False
    with 1 show ?thesis by (subst trim_left.simps) simp
  next
    case True
    then have lt: "k < length ?t" using 1 by simp
    then have d: "drop k ?t = b ! k # drop (Suc k) ?t" by (simp add: Cons_nth_drop_Suc [symmetric])
    show ?thesis
    proof (cases "in_cset cset (b ! k)")
      case False
      with d show ?thesis by (subst trim_left.simps) simp
    next
      case c: True
      have "trim_left b cset (int k) end = trim_left b cset (int k + 1) end"
        using True c by (subst trim_left.simps) simp
      also have "\<dots> = trim_left b cset (int (Suc k)) end" by (simp add: add.commute)
      also have "\<dots> = int (Suc k + length (takeWhile (in_cset cset) (drop (Suc k) ?t)))"
        using 1(1) [of "Suc k"] True c 1 by (simp add: add.commute)
      finally show ?thesis using d c by simp
    qed
  qed
qed

lemma trim_right_take:
  "k < length b \<Longrightarrow> trim_right b cset (int k) = int e \<Longrightarrow>
   e \<le> k \<and> (\<forall>i. e < i \<and> i \<le> k \<longrightarrow> in_cset cset (b ! i)) \<and> (0 < e \<longrightarrow> \<not> in_cset cset (b ! e))"
proof (induction k arbitrary: e)
  case 0
  then show ?case by (subst (asm) trim_right.simps) auto
next
  case (Suc k)
  show ?case
  proof (cases "in_cset cset (b ! Suc k)")
    case True
    have "nat (1 + int k) = Suc k" by simp
    then have "trim_right b cset (int (Suc k)) = trim_right b cset (int k)"
      using True by (subst trim_right.simps) simp
    then have "trim_right b cset (int k) = int e" using Suc.prems by simp
    with Suc.IH [of e] Suc.prems(1) True show ?thesis by (auto simp: le_Suc_eq)
  next
    case False
    have "nat (1 + int k) = Suc k" by simp
    with False have "trim_right b cset (int (Suc k)) = int (Suc k)" by (subst trim_right.simps) simp
    then have "e = Suc k" using Suc.prems by simp
    then show ?thesis using False by auto
  qed
qed


lemma trim_right_nonneg: "0 \<le> ep \<Longrightarrow> 0 \<le> trim_right b cset ep"
proof (induction b cset ep rule: trim_right.induct)
  case (1 b cset ep)
  then show ?case by (subst trim_right.simps) auto
qed

definition trim :: "(char \<Rightarrow> bool) \<Rightarrow> bytes \<Rightarrow> bytes" where
  "trim P t = rev (dropWhile P (rev (dropWhile P t)))"

lemma rev_dropWhile_rev:
  "ys \<noteq> [] \<Longrightarrow> \<not> P (last ys) \<Longrightarrow> \<forall>z\<in>set zs. P z \<Longrightarrow> rev (dropWhile P (rev (ys @ zs))) = ys"
  by (cases ys rule: rev_cases) (auto simp: dropWhile_append)

lemma trim_splits:
  "\<exists>a b. t = a @ trim P t @ b \<and> list_all P a \<and> list_all P b
     \<and> (trim P t = [] \<or> \<not> P (hd (trim P t)) \<and> \<not> P (last (trim P t)))"
proof -
  let ?d = "dropWhile P t" let ?b = "rev (takeWhile P (rev ?d))"
  have "rev ?d = takeWhile P (rev ?d) @ rev (trim P t)" by (simp add: trim_def)
  then have d: "?d = trim P t @ ?b" by (metis rev_append rev_rev_ident)
  then have t: "t = takeWhile P t @ trim P t @ ?b" by (metis takeWhile_dropWhile_id)
  have all: "list_all P (takeWhile P t)" "list_all P ?b"
    by (auto simp: list_all_iff dest: set_takeWhileD)
  have ends: "\<not> P (hd (trim P t))" "\<not> P (last (trim P t))" if n: "trim P t \<noteq> []"
  proof -
    have "?d \<noteq> []" "hd (trim P t) = hd ?d" using n d by (metis append_is_Nil_conv, metis hd_append2)
    then show "\<not> P (hd (trim P t))" using hd_dropWhile [of P t] by simp
    have "dropWhile P (rev ?d) \<noteq> []" using n by (simp add: trim_def)
    then show "\<not> P (last (trim P t))" using hd_dropWhile [of P "rev ?d"] by (simp add: trim_def last_rev)
  qed
  show ?thesis using t all ends by blast
qed

lemma trim_right_le: "trim_right b cset ep \<le> ep"
proof (induction b cset ep rule: trim_right.induct)
  case (1 b cset ep)
  then show ?case by (subst trim_right.simps) auto
qed

lemma trim_take:
  assumes a: "a = length (takeWhile P t)" and ae: "a \<le> e" and e: "e < length t" "\<not> P (t ! e)"
    and z: "\<And>i. e < i \<Longrightarrow> i < length t \<Longrightarrow> P (t ! i)"
  shows "trim P t = take (e - a + 1) (drop a t)"
proof -
  let ?y = "take (e - a + 1) (drop a t)" let ?z = "drop (e + 1) t"
  have drp: "dropWhile P t = drop a t" by (simp add: a dropWhile_eq_drop)
  have "drop (e - a + 1) (drop a t) = ?z" using ae by simp
  then have split: "drop a t = ?y @ ?z" by (metis append_take_drop_id)
  have "last ?y = t ! e" "?y \<noteq> []" using ae e by (simp_all add: last_conv_nth)
  moreover have "\<forall>x\<in>set ?z. P x"
  proof
    fix x assume "x \<in> set ?z"
    then obtain i where "i < length ?z" "x = ?z ! i" by (auto simp: in_set_conv_nth)
    then have "x = t ! (e + 1 + i)" "e + 1 + i < length t" by auto
    then show "P x" using z [of "e + 1 + i"] by simp
  qed
  ultimately have "rev (dropWhile P (rev (?y @ ?z))) = ?y" using e(2) by (intro rev_dropWhile_rev) simp_all
  then show ?thesis by (simp only: trim_def drp flip: split)
qed

lemma sdstrim_text:
  assumes i: "sds_inv s" and n: "length (sds_text s) < 2 ^ 31"
  shows "sds_inv (sdstrim s cset)" "sds_text (sdstrim s cset) = trim (in_cset cset) (sds_text s)"
proof -
  note l = sds_inv_len [OF i]
  let ?t = "sds_text s" let ?P = "in_cset cset" let ?n = "length (sds_text s)"
  define a where "a = length (takeWhile ?P ?t)"
  define ep where "ep = trim_right (s_buf s) cset (int ?n - 1)"
  define k where "k = (if int a > ep then 0 else nat (ep - int a + 1))"
  have tk: "take ?n (s_buf s) = ?t" using l(1) by (simp add: sds_text_def)
  have nth: "s_buf s ! j = ?t ! j" if "j < ?n" for j using tk that by (metis nth_take)
  have sp: "trim_left (s_buf s) cset 0 (int ?n - 1) = int a"
    using trim_left_drop [of 0 "int ?n - 1" "s_buf s" cset] l(5) tk by (simp add: a_def)
  have an: "a \<le> ?n" by (simp add: a_def length_takeWhile_le)
  have le: "ep \<le> int ?n - 1" using trim_right_le [of "s_buf s" cset "int ?n - 1"] by (simp add: ep_def)
  have main: "a + k \<le> ?n \<and> take k (drop a ?t) = trim ?P ?t"
  proof (cases "a = ?n")
    case True
    then show ?thesis using le by (simp add: k_def trim_def a_def dropWhile_eq_drop)
  next
    case False
    then have lt: "a < ?n" using an by simp
    have "0 \<le> ep" unfolding ep_def using lt by (intro trim_right_nonneg) linarith
    then obtain e where e: "ep = int e" by (rule nonneg_int_cases)
    have eqn: "int ?n - 1 = int (?n - 1)" using lt by simp
    have "trim_right (s_buf s) cset (int (?n - 1)) = int e" using e unfolding ep_def eqn .
    moreover have "?n - 1 < length (s_buf s)" using l(5) by simp
    ultimately have p: "e \<le> ?n - 1" "\<forall>i. e < i \<and> i \<le> ?n - 1 \<longrightarrow> ?P (s_buf s ! i)"
      "0 < e \<longrightarrow> \<not> ?P (s_buf s ! e)"
      using trim_right_take by blast+
    have p2: "?P (?t ! i)" if "e < i" "i < ?n" for i
    proof -
      have "?P (s_buf s ! i)" using p(2) that by auto
      then show ?thesis using nth [OF that(2)] by simp
    qed
    have na: "\<not> ?P (?t ! a)" using nth_length_takeWhile [of ?P ?t] lt by (simp add: a_def)
    have ae: "a \<le> e" using p2 [of a] lt na by (meson not_le_imp_less)
    have en: "e < ?n" using p(1) lt by simp
    have ne: "\<not> ?P (?t ! e)" using p(3) nth [OF en] ae na by (cases "0 < e") simp_all
    have "k = e - a + 1" using ae e by (simp add: k_def nat_add_distrib nat_diff_distrib)
    then show ?thesis using trim_take [OF a_def ae en ne p2] en ae by simp
  qed
  let ?c = "take k (drop a (s_buf s))"
  have c: "?c = trim ?P ?t" "length ?c = k"
  proof -
    have "a + k \<le> ?n" using main by blast
    then have mk: "min k (?n - a) = k" by arith
    have "take k (drop a ?t) = take k (drop a (take ?n (s_buf s)))" by (simp only: tk)
    then have "?c = take k (drop a ?t)" by (simp only: drop_take take_take mk)
    then show "?c = trim ?P ?t" using main by simp
    show "length ?c = k" using \<open>a + k \<le> ?n\<close> l(5) by (auto simp: min_def)
  qed
  have len: "length (blit 0 ?c (s_buf s)) = length (s_buf s)"
    using c(2) main l(5) by (simp add: blit_def)
  have tkb: "take k (blit 0 ?c (s_buf s)) = trim ?P ?t" using c by (simp add: blit_def)
  have eq: "sdstrim s cset
      = \<lparr>s_len = int k, s_free = s_free s + (s_len s - int k), s_buf = (blit 0 ?c (s_buf s))[k := NUL]\<rparr>"
  proof -
    have ti: "to_int k = int k" using main n by simp
    show ?thesis by (simp only: sdstrim_def Let_def l(2) sp nat_int ti flip: ep_def k_def)
  qed
  show "sds_inv (sdstrim s cset)" "sds_text (sdstrim s cset) = trim (in_cset cset) (sds_text s)"
    using sds_cut [OF i len _ tkb] main unfolding eq by simp_all
qed


text \<open>The slice from \<open>start\<close> to \<open>end\<close> inclusive, negative positions counted from the end.\<close>

definition from_end :: "nat \<Rightarrow> int \<Rightarrow> int" where
  "from_end n i = (if i < 0 then max 0 (int n + i) else i)"

definition slice_text :: "bytes \<Rightarrow> int \<Rightarrow> int \<Rightarrow> bytes" where
  "slice_text t i j =
     take (nat (from_end (length t) j + 1 - from_end (length t) i)) (drop (nat (from_end (length t) i)) t)"

lemma sdsrange_text:
  assumes i: "sds_inv s"
  shows "sds_inv (sdsrange s start end) \<and> sds_text (sdsrange s start end) = slice_text (sds_text s) start end"
proof (cases "sds_text s = []")
  case True
  with i sds_inv_len(2) [OF i] show ?thesis by (simp add: sdsrange_def slice_text_def)
next
  case False
  note l = sds_inv_len [OF i]
  let ?t = "sds_text s" let ?n = "length (sds_text s)"
  define a where "a = from_end ?n start"
  define e where "e = from_end ?n end"
  define k where "k = (if a > e \<or> int ?n \<le> a then 0 else min e (int ?n - 1) - a + 1)"
  define a' where "a' = (if a > e then 0 else a)"
  have a0: "0 \<le> a" "0 \<le> e" by (simp_all add: a_def e_def from_end_def)
  have k0: "0 \<le> k" "k \<le> int ?n" "k \<noteq> 0 \<Longrightarrow> a' = a \<and> a + k \<le> int ?n"
    using a0 by (auto simp: k_def a'_def)
  have tk: "take ?n (s_buf s) = ?t" using l(1) by (simp add: sds_text_def)
  let ?b = "if a' \<noteq> 0 \<and> k \<noteq> 0 then blit 0 (take (nat k) (drop (nat a') (s_buf s))) (s_buf s) else s_buf s"
  have eq: "sdsrange s start end
      = \<lparr>s_len = k, s_free = s_free s + (s_len s - k), s_buf = ?b[nat k := NUL]\<rparr>"
  proof -
    have n: "int (sdslen s) = int ?n" "int ?n \<noteq> 0" using l(2) False by simp_all
    consider "a > e" | "a \<le> e" "int ?n \<le> a" | "a \<le> e" "a < int ?n" "int ?n \<le> e" | "a \<le> e" "e < int ?n" by linarith
    then show ?thesis
      by cases (simp_all add: sdsrange_def n(1) n(2) [simplified] Let_def k_def a'_def
          flip: from_end_def a_def e_def)
  qed
  have piece: "take (nat k) (drop (nat a) (s_buf s)) = slice_text ?t start end"
  proof (cases "k = 0")
    case True
    then have "a > e \<or> int ?n \<le> a" using a0 by (auto simp: k_def split: if_splits)
    then show ?thesis using True by (auto simp: slice_text_def a_def [symmetric] e_def [symmetric])
  next
    case False
    then have le: "nat a + nat k \<le> ?n" using k0 a0 by auto
    have "take (nat k) (drop (nat a) ?t) = take (nat k) (drop (nat a) (take ?n (s_buf s)))" by (simp only: tk)
    also have "\<dots> = take (nat k) (drop (nat a) (s_buf s))"
    proof -
      have "min (nat k) (?n - nat a) = nat k" using le by arith
      then show ?thesis by (simp only: drop_take take_take)
    qed
    finally have "take (nat k) (drop (nat a) (s_buf s)) = take (nat k) (drop (nat a) ?t)" by simp
    also have "\<dots> = slice_text ?t start end"
    proof (cases "e < int ?n")
      case True
      then have "k = e + 1 - a" using False by (auto simp: k_def)
      then show ?thesis by (simp add: slice_text_def a_def [symmetric] e_def [symmetric])
    next
      case big: False
      have "nat k = ?n - nat a" using False big a0 by (auto simp: k_def nat_diff_distrib)
      moreover have "?n - nat a \<le> nat (e + 1 - a)" using big a0 by linarith
      ultimately show ?thesis by (simp add: slice_text_def a_def [symmetric] e_def [symmetric])
    qed
    finally show ?thesis .
  qed
  have kk: "k = int (nat k)" "nat k \<le> ?n" using k0 by auto
  have "length ?b = length (s_buf s) \<and> take (nat k) ?b = slice_text ?t start end"
  proof (cases "a' \<noteq> 0 \<and> k \<noteq> 0")
    case True
    then have ak: "a' = a" "nat a + nat k \<le> length (s_buf s)" using k0 l(5) a0 by auto
    then have "length (take (nat k) (drop (nat a) (s_buf s))) = nat k" by (auto simp: min_def)
    then show ?thesis using True ak piece by (simp add: blit_def)
  next
    case False
    then show ?thesis using piece k0 by (cases "k = 0") auto
  qed
  then show ?thesis using sds_cut [OF i _ kk(2)] kk(1) unfolding eq by metis
qed


section \<open>Case, comparison and character substitution\<close>

text \<open>\<open>tolower\<close> and \<open>toupper\<close> of the C locale, applied to the first \<open>len\<close> cells.\<close>

definition c_tolower :: "char \<Rightarrow> char" where
  "c_tolower c = (if 65 \<le> (of_char c :: nat) \<and> (of_char c :: nat) \<le> 90
                  then char_of ((of_char c :: nat) + 32) else c)"

definition c_toupper :: "char \<Rightarrow> char" where
  "c_toupper c = (if 97 \<le> (of_char c :: nat) \<and> (of_char c :: nat) \<le> 122
                  then char_of ((of_char c :: nat) - 32) else c)"

fun each_cell :: "(char \<Rightarrow> char) \<Rightarrow> nat \<Rightarrow> bytes \<Rightarrow> bytes" where
  "each_cell f 0 b = b"
| "each_cell f (Suc n) (c # b) = f c # each_cell f n b"
| "each_cell f (Suc n) [] = []"

definition sdstolower :: "sds \<Rightarrow> sds" where
  "sdstolower s = s\<lparr>s_buf := each_cell c_tolower (sdslen s) (s_buf s)\<rparr>"

definition sdstoupper :: "sds \<Rightarrow> sds" where
  "sdstoupper s = s\<lparr>s_buf := each_cell c_toupper (sdslen s) (s_buf s)\<rparr>"

text \<open>The inner loop of \<open>sdsmapchars\<close>: the first match in \<open>from\<close> decides.\<close>

fun map_char :: "bytes \<Rightarrow> bytes \<Rightarrow> char \<Rightarrow> char" where
  "map_char (x # from) (y # to) c = (if c = x then y else map_char from to c)"
| "map_char _ _ c = c"

definition sdsmapchars :: "sds \<Rightarrow> bytes \<Rightarrow> bytes \<Rightarrow> nat \<Rightarrow> sds" where
  "sdsmapchars s from to setlen =
     s\<lparr>s_buf := each_cell (map_char (take setlen from) (take setlen to)) (sdslen s) (s_buf s)\<rparr>"

lemma each_cell_take: "n \<le> length b \<Longrightarrow> each_cell f n b = map f (take n b) @ drop n b"
  by (induction f n b rule: each_cell.induct) auto

lemma each_cell_text:
  assumes "sds_inv s"
  shows "sds_inv (s\<lparr>s_buf := each_cell f (sdslen s) (s_buf s)\<rparr>)"
    "sds_text (s\<lparr>s_buf := each_cell f (sdslen s) (s_buf s)\<rparr>) = map f (sds_text s)"
proof -
  note l = sds_inv_len [OF assms]
  have n: "sdslen s \<le> length (s_buf s)" "nat (s_len s) = sdslen s" "sdslen s < length (s_buf s)"
    using l(1,2,5) by simp_all
  note e = each_cell_take [OF n(1), of f]
  have "each_cell f (sdslen s) (s_buf s) ! sdslen s = s_buf s ! sdslen s"
    using n(3) by (simp add: e nth_append)
  then show "sds_inv (s\<lparr>s_buf := each_cell f (sdslen s) (s_buf s)\<rparr>)"
    using assms n(2) by (simp add: sds_inv_def sds_shape_def) (simp add: e n(1))
  show "sds_text (s\<lparr>s_buf := each_cell f (sdslen s) (s_buf s)\<rparr>) = map f (sds_text s)"
    using n(1) by (simp add: sds_text_def n(2) e take_map)
qed

text \<open>\<open>memcmp\<close>: the sign of the first difference, bytes taken as unsigned.\<close>

fun memcmp :: "bytes \<Rightarrow> bytes \<Rightarrow> int" where
  "memcmp (x # xs) (y # ys) =
     (if x = y then memcmp xs ys else if (of_char x :: nat) < of_char y then -1 else 1)"
| "memcmp _ _ = 0"

definition sdscmp :: "sds \<Rightarrow> sds \<Rightarrow> int" where
  "sdscmp s1 s2 =
     (let l1 = sdslen s1; l2 = sdslen s2; minlen = (if l1 < l2 then l1 else l2);
          cmp = memcmp (take minlen (s_buf s1)) (take minlen (s_buf s2))
      in if cmp = 0 then int l1 - int l2 else cmp)"

definition byte_less :: "(char \<times> char) set" where
  "byte_less = {(a, b). (of_char a :: nat) < of_char b}"

lemma memcmp_lexord:
  "length xs = length ys \<Longrightarrow>
   (memcmp xs ys < 0 \<longleftrightarrow> (xs, ys) \<in> lexord byte_less) \<and> (memcmp xs ys = 0 \<longleftrightarrow> xs = ys)"
proof (induction xs ys rule: list_induct2)
  case (Cons x xs y ys)
  have "x \<noteq> y \<Longrightarrow> (of_char x :: nat) \<noteq> of_char y" by simp
  with Cons.IH show ?case by (auto simp: byte_less_def)
qed simp

lemma lexord_prefixes:
  assumes "length p = length q"
  shows "(p @ a, q @ b) \<in> lexord byte_less \<longleftrightarrow>
    (p, q) \<in> lexord byte_less \<or> p = q \<and> (a, b) \<in> lexord byte_less"
  using assms by (induction p q rule: list_induct2) auto

lemma sdscmp_lex:
  assumes "sds_inv s1" "sds_inv s2"
  shows "(sdscmp s1 s2 < 0 \<longleftrightarrow> (sds_text s1, sds_text s2) \<in> lexord byte_less)
    \<and> (sdscmp s1 s2 = 0 \<longleftrightarrow> sds_text s1 = sds_text s2)"
proof -
  let ?t1 = "sds_text s1" let ?t2 = "sds_text s2"
  define m where "m = (if length ?t1 < length ?t2 then length ?t1 else length ?t2)"
  note l1 = sds_inv_len(1,2) [OF assms(1)] and l2 = sds_inv_len(1,2) [OF assms(2)]
  have m: "m \<le> length ?t1" "m \<le> length ?t2" by (auto simp: m_def)
  have tk: "take m (s_buf s1) = take m ?t1" "take m (s_buf s2) = take m ?t2"
    using m [unfolded l1(1) l2(1)] by (simp_all add: sds_text_def min_absorb1)
  have len: "length (take m ?t1) = length (take m ?t2)" using m by simp
  have cmp: "sdscmp s1 s2 = (if take m ?t1 = take m ?t2 then int (length ?t1) - int (length ?t2)
      else memcmp (take m ?t1) (take m ?t2))"
    using memcmp_lexord [OF len] by (simp add: sdscmp_def Let_def l1(2) l2(2) tk flip: m_def)
  have e: "?t1 = take m ?t1 @ drop m ?t1" "?t2 = take m ?t2 @ drop m ?t2" by simp_all
  have lex: "(?t1, ?t2) \<in> lexord byte_less \<longleftrightarrow> (take m ?t1, take m ?t2) \<in> lexord byte_less
      \<or> take m ?t1 = take m ?t2 \<and> (drop m ?t1, drop m ?t2) \<in> lexord byte_less"
    using lexord_prefixes [OF len, of "drop m ?t1" "drop m ?t2"] by simp
  have irr: "(xs, xs) \<notin> lexord byte_less" for xs
    by (rule lexord_irreflexive) (simp add: byte_less_def)
  show ?thesis
  proof (cases "take m ?t1 = take m ?t2")
    case True
    have "(drop m ?t1, drop m ?t2) \<in> lexord byte_less \<longleftrightarrow> length ?t1 < length ?t2"
    proof (cases "length ?t1 < length ?t2")
      case True
      then have "drop m ?t1 = []" "drop m ?t2 \<noteq> []" by (simp_all add: m_def)
      then show ?thesis using True by (cases "drop m ?t2") simp_all
    next
      case False
      then have "drop m ?t2 = []" by (simp add: m_def)
      with False show ?thesis by simp
    qed
    moreover have "?t1 = ?t2 \<longleftrightarrow> length ?t1 = length ?t2"
      using True by (auto simp: m_def split: if_splits)
    ultimately show ?thesis using True lex irr by (simp add: cmp)
  next
    case False
    then have "?t1 \<noteq> ?t2" by auto
    then show ?thesis using False lex memcmp_lexord [OF len] by (simp add: cmp)
  qed
qed

end
