(* ===== verification/SdsSplit.thy ===== *)
theory SdsSplit
  imports SdsEdit
begin

text \<open>
  Splitting an sds at a separator, joining, and the quoted form of a string with the
  splitter of command lines that reads it back.
\<close>

section \<open>\<open>sdssplitlen\<close>\<close>

text \<open>Room for the next element and the final one.\<close>

definition grow_slots :: "heap \<Rightarrow> nat \<Rightarrow> nat \<Rightarrow> nat option" where
  "grow_slots mem slots elements =
     (if slots < elements + 2 then map_option (\<lambda>_. slots * 2) (mem (8 * (slots * 2))) else Some slots)"

text \<open>
  The scan: \<open>toks\<close> is the array filled so far, \<open>slots\<close> its capacity. (An empty separator,
  for which the scan would not move, is refused before the loop.)
\<close>

function split_loop :: "heap \<Rightarrow> bytes \<Rightarrow> bytes \<Rightarrow> nat \<Rightarrow> nat \<Rightarrow> nat \<Rightarrow> sds list \<Rightarrow> (sds list \<times> nat) option" where
  "split_loop mem s sep j start slots toks =
     (if sep = [] then None
      else if int j < int (length s) - (int (length sep) - 1) then
        (case grow_slots mem slots (length toks) of
           None \<Rightarrow> None
         | Some slots' \<Rightarrow>
             if take (length sep) (drop j s) = sep then
               (case sdsnewlen mem (Some (drop start s)) (j - start) of
                  None \<Rightarrow> None
                | Some t \<Rightarrow> split_loop mem s sep (j + length sep) (j + length sep) slots' (toks @ [t]))
             else split_loop mem s sep (j + 1) start slots' toks)
      else Some (toks, start))"
  by pat_completeness auto
termination
  by (relation "measure (\<lambda>(mem, s, sep, j, start, slots, toks). length s - j)") (auto simp: neq_Nil_conv)

declare split_loop.simps [simp del]

definition sdssplitlen :: "heap \<Rightarrow> bytes \<Rightarrow> bytes \<Rightarrow> sds list option" where
  "sdssplitlen mem s sep =
     (if length sep < 1 then None
      else if mem (8 * 5) = None then None
      else if length s = 0 then Some []
      else case split_loop mem s sep 0 0 5 [] of
             None \<Rightarrow> None
           | Some (toks, start) \<Rightarrow>
               (case sdsnewlen mem (Some (drop start s)) (length s - start) of
                  None \<Rightarrow> None
                | Some t \<Rightarrow> Some (toks @ [t])))"

fun join_bytes :: "bytes \<Rightarrow> bytes list \<Rightarrow> bytes" where
  "join_bytes sep [] = []"
| "join_bytes sep [x] = x"
| "join_bytes sep (x # y # zs) = x @ sep @ join_bytes sep (y # zs)"

definition occurs :: "bytes \<Rightarrow> bytes \<Rightarrow> bool" where
  "occurs sep t \<longleftrightarrow> (\<exists>i < Suc (length t). i + length sep \<le> length t \<and> take (length sep) (drop i t) = sep)"

lemma join_snoc: "join_bytes sep (xs @ [y]) = concat (map (\<lambda>x. x @ sep) xs) @ y"
  by (induction sep xs rule: join_bytes.induct) auto

definition split_inv :: "bytes \<Rightarrow> bytes \<Rightarrow> nat \<Rightarrow> nat \<Rightarrow> sds list \<Rightarrow> bool" where
  "split_inv s sep j start toks \<longleftrightarrow>
     start \<le> j \<and> start \<le> length s
     \<and> take start s = concat (map (\<lambda>t. sds_text t @ sep) toks)
     \<and> (\<forall>i. start \<le> i \<and> i < j \<longrightarrow> take (length sep) (drop i s) \<noteq> sep)
     \<and> (\<forall>t\<in>set toks. sds_inv t \<and> \<not> occurs sep (sds_text t))"

text \<open>A piece between two positions without a match in between contains no separator.\<close>

lemma piece_no_sep:
  assumes "\<And>i. a \<le> i \<Longrightarrow> i < e \<Longrightarrow> take (length sep) (drop i s) \<noteq> sep" "b < e + length sep"
    "b \<le> length s" "sep \<noteq> []"
  shows "\<not> occurs sep (take (b - a) (drop a s))"
proof
  assume "occurs sep (take (b - a) (drop a s))"
  then obtain i where i: "i + length sep \<le> length (take (b - a) (drop a s))"
    "take (length sep) (drop i (take (b - a) (drop a s))) = sep" by (auto simp: occurs_def)
  have len: "i + length sep \<le> b - a" using i(1) assms(3) by simp
  then have "take (length sep) (drop i (take (b - a) (drop a s))) = take (length sep) (drop (a + i) s)"
    by (simp add: drop_take min_def add.commute)
  then have "take (length sep) (drop (a + i) s) = sep" using i(2) by simp
  moreover have "a + i < e" using len assms(2,4) by (cases sep) auto
  ultimately show False using assms(1) [of "a + i"] by simp
qed

lemma split_loop_step:
  assumes "sep \<noteq> []" "int j < int (length s) - (int (length sep) - 1)"
    "grow_slots mem slots (length toks) = Some slots'"
  shows "take (length sep) (drop j s) = sep \<Longrightarrow> split_loop mem s sep j start slots toks =
      (case sdsnewlen mem (Some (drop start s)) (j - start) of
         None \<Rightarrow> None
       | Some t \<Rightarrow> split_loop mem s sep (j + length sep) (j + length sep) slots' (toks @ [t]))"
    and "take (length sep) (drop j s) \<noteq> sep \<Longrightarrow> split_loop mem s sep j start slots toks =
      split_loop mem s sep (j + 1) start slots' toks"
  using assms by (subst split_loop.simps, simp)+

lemma split_loop_inv:
  "split_loop mem s sep j start slots toks = Some (out, e) \<Longrightarrow> split_inv s sep j start toks \<Longrightarrow>
    good_heap mem \<Longrightarrow> length s < 2 ^ 31 \<Longrightarrow> sep \<noteq> [] \<Longrightarrow>
    \<exists>k. split_inv s sep k e out \<and> length s < k + length sep"
proof (induction mem s sep j start slots toks rule: split_loop.induct [case_names loop])
  case (loop mem s sep j start slots toks)
  note h = loop.prems(3) and n = loop.prems(4) and sep = loop.prems(5)
  show ?case
  proof (cases "int j < int (length s) - (int (length sep) - 1)")
    case False
    with loop.prems sep show ?thesis by (subst (asm) split_loop.simps) (auto split: if_splits)
  next
    case True
    with loop.prems(1) sep obtain slots' where sl:
      "grow_slots mem slots (length toks) = Some slots'"
      by (subst (asm) split_loop.simps) (auto split: option.splits if_splits)
    note inv = loop.prems(2) [unfolded split_inv_def]
    have js: "j + length sep \<le> length s" using True sep by (cases sep) auto
    show ?thesis
    proof (cases "take (length sep) (drop j s) = sep")
      case match: True
      with loop.prems(1) sep True sl obtain t where t: "sdsnewlen mem (Some (drop start s)) (j - start) = Some t"
        by (auto simp: split_loop_step(1) split: option.splits)
      have "split_loop mem s sep (j + length sep) (j + length sep) slots' (toks @ [t]) = Some (out, e)"
        using loop.prems(1) split_loop_step(1) [OF sep True sl match] t by simp
      note IH = loop.IH(1) [OF sep True sl match t this]
      have "j - start \<le> length (drop start s)" "j - start < 2 ^ 31" using js n by simp_all
      note tx = sdsnewlen_text [OF h t this]
      have piece: "sds_text t = take (j - start) (drop start s)" using tx(2) js by simp
      have no: "\<not> occurs sep (sds_text t)" unfolding piece
        using inv js sep by (intro piece_no_sep [of start j]) auto
      have "take (j + length sep) s = take start s @ take (j - start) (drop start s) @ take (length sep) (drop j s)"
        using inv by (metis append.assoc le_add_diff_inverse take_add)
      then have "take (j + length sep) s = concat (map (\<lambda>t. sds_text t @ sep) (toks @ [t]))"
        using inv match piece by simp
      then have "split_inv s sep (j + length sep) (j + length sep) (toks @ [t])"
        using inv js tx(1) no by (auto simp: split_inv_def)
      from IH [OF this h n sep] show ?thesis .
    next
      case False
      have st: "split_loop mem s sep (j + 1) start slots' toks = Some (out, e)"
        using loop.prems(1) split_loop_step(2) [OF sep True sl False] by simp
      have "split_inv s sep (j + 1) start toks"
        using inv False by (auto simp: split_inv_def less_Suc_eq)
      from loop.IH(2) [OF sep True sl False st this h n sep] show ?thesis .
    qed
  qed
qed

lemma ampleD: "ample mem \<Longrightarrow> \<exists>b. mem n = Some b"
  by (simp add: ample_def)

lemma grow_slots_total: "ample mem \<Longrightarrow> \<exists>n. grow_slots mem slots elements = Some n"
  using ampleD [of mem "8 * (slots * 2)"] by (auto simp: grow_slots_def simp flip: mult.assoc)

lemma sdsnewlen_total: "ample mem \<Longrightarrow> \<exists>t. sdsnewlen mem x n = Some t"
  using ampleD [of mem "sds_header + (n + 1)"] by (auto simp: sdsnewlen_def alloc_cells_def Let_def)

lemma split_loop_total:
  "ample mem \<Longrightarrow> sep \<noteq> [] \<Longrightarrow> \<exists>r. split_loop mem s sep j start slots toks = Some r"
proof (induction mem s sep j start slots toks rule: split_loop.induct [case_names loop])
  case (loop mem s sep j start slots toks)
  obtain slots' where sl: "grow_slots mem slots (length toks) = Some slots'"
    using grow_slots_total [OF loop.prems(1)] by blast
  obtain t where t: "sdsnewlen mem (Some (drop start s)) (j - start) = Some t"
    using sdsnewlen_total [OF loop.prems(1)] by blast
  show ?case
  proof (cases "int j < int (length s) - (int (length sep) - 1)")
    case True
    then show ?thesis
      using loop.IH(1) [OF loop.prems(2) True sl _ t loop.prems] loop.IH(2) [OF loop.prems(2) True sl _ loop.prems]
        split_loop_step [OF loop.prems(2) True sl] t
      by (cases "take (length sep) (drop j s) = sep") simp_all
  next
    case False
    with loop.prems(2) show ?thesis by (subst split_loop.simps) simp
  qed
qed

lemma sdssplitlen_total:
  assumes "ample mem" "sep \<noteq> []" shows "\<exists>toks. sdssplitlen mem s sep = Some toks"
proof -
  obtain toks start where l: "split_loop mem s sep 0 0 5 [] = Some (toks, start)"
    using split_loop_total [OF assms] by (metis surj_pair)
  have "\<exists>t. sdsnewlen mem (Some (drop start s)) (length s - start) = Some t"
    using sdsnewlen_total [OF assms(1)] by blast
  with l assms show ?thesis by (auto simp: sdssplitlen_def ample_def)
qed

lemma sdssplitlen_pieces:
  assumes h: "good_heap mem" and n: "length s < 2 ^ 31" and r: "sdssplitlen mem s sep = Some toks"
  shows "join_bytes sep (map sds_text toks) = s" "\<forall>t\<in>set toks. sds_inv t \<and> \<not> occurs sep (sds_text t)"
proof -
  have "join_bytes sep (map sds_text toks) = s \<and> (\<forall>t\<in>set toks. sds_inv t \<and> \<not> occurs sep (sds_text t))"
  proof (cases "s = []")
    case True
    with r show ?thesis by (auto simp: sdssplitlen_def split: if_splits)
  next
    case False
    have sep: "sep \<noteq> []" using r by (auto simp: sdssplitlen_def)
    obtain out e t where l: "split_loop mem s sep 0 0 5 [] = Some (out, e)"
      and t: "sdsnewlen mem (Some (drop e s)) (length s - e) = Some t" and toks: "toks = out @ [t]"
      using r False sep by (auto simp: sdssplitlen_def split: if_splits option.splits)
    have "split_inv s sep 0 0 []" by (simp add: split_inv_def)
    from split_loop_inv [OF l this h n sep] obtain k
      where inv: "split_inv s sep k e out" and k: "length s < k + length sep" by blast
    have "length s - e \<le> length (drop e s)" "length s - e < 2 ^ 31" using n by simp_all
    note tx = sdsnewlen_text [OF h t this]
    have piece: "sds_text t = take (length s - e) (drop e s)" using tx(2) by simp
    have no: "\<not> occurs sep (sds_text t)" unfolding piece
      using inv k sep by (intro piece_no_sep [of e k]) (auto simp: split_inv_def)
    have "join_bytes sep (map sds_text toks) = take e s @ sds_text t"
      using inv by (simp add: toks join_snoc split_inv_def comp_def)
    also have "\<dots> = s" using piece by simp
    finally show ?thesis using inv no tx(1) by (auto simp: toks split_inv_def)
  qed
  then show "join_bytes sep (map sds_text toks) = s" "\<forall>t\<in>set toks. sds_inv t \<and> \<not> occurs sep (sds_text t)"
    by auto
qed


section \<open>Joining\<close>

text \<open>\<open>sdsjoin\<close>; the result of an append is not checked, \<open>None\<close> stands for a failed one.\<close>

fun join_loop :: "heap \<Rightarrow> (sds \<Rightarrow> 'a \<Rightarrow> sds option) \<Rightarrow> bytes \<Rightarrow> sds \<Rightarrow> 'a list \<Rightarrow> sds option" where
  "join_loop mem cat sep s [] = Some s"
| "join_loop mem cat sep s [x] = cat s x"
| "join_loop mem cat sep s (x # y # zs) =
     (case cat s x of
        None \<Rightarrow> None
      | Some t \<Rightarrow> (case sdscatlen mem t sep of None \<Rightarrow> None | Some u \<Rightarrow> join_loop mem cat sep u (y # zs)))"

definition sdsjoin :: "heap \<Rightarrow> bytes list \<Rightarrow> bytes \<Rightarrow> sds option" where
  "sdsjoin mem argv sep =
     (case sdsempty mem of None \<Rightarrow> None | Some s \<Rightarrow> join_loop mem (sdscat mem) sep s argv)"

definition sdsjoinsds :: "heap \<Rightarrow> sds list \<Rightarrow> bytes \<Rightarrow> sds option" where
  "sdsjoinsds mem argv sep =
     (case sdsempty mem of None \<Rightarrow> None | Some s \<Rightarrow> join_loop mem (sdscatsds mem) sep s argv)"

fun interspersed :: "'a \<Rightarrow> 'a list \<Rightarrow> 'a list" where
  "interspersed sep (x # y # zs) = x # sep # interspersed sep (y # zs)"
| "interspersed sep xs = xs"

lemma concat_interspersed: "concat (interspersed sep xs) = join_bytes sep xs"
  by (induction sep xs rule: join_bytes.induct) auto

lemma join_loop_cat_all:
  "\<forall>x\<in>set xs. \<forall>s. cat s x = sdscatlen mem s (f x) \<Longrightarrow>
   join_loop mem cat sep s xs = cat_all (sdscatlen mem) s (interspersed sep (map f xs))"
  by (induction mem cat sep s xs rule: join_loop.induct) (auto split: option.split)

lemma sdsjoin_text:
  assumes "good_heap mem" "length (join_bytes sep (map cstr argv)) + SDS_MAX_PREALLOC < 2 ^ 31"
    "sdsjoin mem argv sep = Some u"
  shows "sds_inv u \<and> sds_text u = join_bytes sep (map cstr argv)"
proof -
  obtain s where s: "sdsempty mem = Some s" "join_loop mem (sdscat mem) sep s argv = Some u"
    using assms(3) by (auto simp: sdsjoin_def split: option.splits)
  note e = sdsempty_text [OF assms(1) s(1)]
  have "cat_all (sdscatlen mem) s (interspersed sep (map cstr argv)) = Some u"
    using s(2) join_loop_cat_all [of argv "sdscat mem" mem cstr] by (simp add: sdscat_def)
  from sds.cat_all_text [OF _ _ this] e assms(1,2) show ?thesis
    by (simp add: concat_interspersed fits_int_def)
qed

lemma sdscatsds_text: "sds_inv t \<Longrightarrow> sdscatsds mem s t = sdscatlen mem s (sds_text t)"
  by (simp only: sdscatsds_def sds_inv_len(2)) (simp add: sds_text_def min_def)

lemma join_loop_total:
  "ample mem \<Longrightarrow> \<forall>s x. \<exists>t. cat s x = Some t \<Longrightarrow> \<exists>u. join_loop mem cat sep s xs = Some u"
proof (induction mem cat sep s xs rule: join_loop.induct)
  case (3 mem cat sep s x y zs)
  obtain t u where "cat s x = Some t" "sdscatlen mem t sep = Some u"
    using 3(2,3) sdscatlen_total by blast
  with 3 show ?case by simp
qed simp_all

lemma sdsjoinsds_total:
  assumes "ample mem" shows "\<exists>u. sdsjoinsds mem argv sep = Some u"
proof -
  have "\<forall>s x. \<exists>t. sdscatsds mem s x = Some t"
    using sdscatlen_total [OF assms] by (auto simp: sdscatsds_def)
  from join_loop_total [OF assms this] show ?thesis
    using sdsempty_total [OF assms] by (auto simp: sdsjoinsds_def split: option.split)
qed

lemma sdsjoinsds_text:
  assumes "good_heap mem" "length (join_bytes sep (map sds_text argv)) + SDS_MAX_PREALLOC < 2 ^ 31"
    "sdsjoinsds mem argv sep = Some u" "\<forall>a\<in>set argv. sds_inv a"
  shows "sds_inv u \<and> sds_text u = join_bytes sep (map sds_text argv)"
proof -
  obtain s where s: "sdsempty mem = Some s" "join_loop mem (sdscatsds mem) sep s argv = Some u"
    using assms(3) by (auto simp: sdsjoinsds_def split: option.splits)
  note e = sdsempty_text [OF assms(1) s(1)]
  have "cat_all (sdscatlen mem) s (interspersed sep (map sds_text argv)) = Some u"
    using s(2) join_loop_cat_all [of argv "sdscatsds mem" mem sds_text] assms(4) by (simp add: sdscatsds_text)
  from sds.cat_all_text [OF _ _ this] e assms(1,2) show ?thesis
    by (simp add: concat_interspersed fits_int_def)
qed

section \<open>The quoted form\<close>

text \<open>\<open>isprint\<close> and \<open>isspace\<close> of the C locale.\<close>

definition isprint :: "char \<Rightarrow> bool" where
  "isprint c \<longleftrightarrow> 32 \<le> (of_char c :: nat) \<and> (of_char c :: nat) \<le> 126"

definition isspace :: "char \<Rightarrow> bool" where
  "isspace c \<longleftrightarrow> c \<in> set [CHR '' '', CHR 0x09, CHR 0x0A, CHR 0x0B, CHR 0x0C, CHR 0x0D]"

definition hex_char :: "nat \<Rightarrow> char" where
  "hex_char n = (if n < 10 then char_of (48 + n) else char_of (87 + n))"

text \<open>What \<open>%02x\<close> prints for a byte.\<close>

definition hex2 :: "char \<Rightarrow> bytes" where
  "hex2 c = [hex_char ((of_char c :: nat) div 16), hex_char ((of_char c :: nat) mod 16)]"

text \<open>One turn of the loop of \<open>sdscatrepr\<close>.\<close>

definition cat_repr_char :: "heap \<Rightarrow> sds \<Rightarrow> char \<Rightarrow> sds option" where
  "cat_repr_char mem s c =
     (if c = CHR 0x5C \<or> c = CHR 0x22 then sdscatvprintf mem s [CHR 0x5C, c]
      else if c = CHR 0x0A then sdscatlen mem s [CHR 0x5C, CHR ''n'']
      else if c = CHR 0x0D then sdscatlen mem s [CHR 0x5C, CHR ''r'']
      else if c = CHR 0x09 then sdscatlen mem s [CHR 0x5C, CHR ''t'']
      else if c = CHR 0x07 then sdscatlen mem s [CHR 0x5C, CHR ''a'']
      else if c = CHR 0x08 then sdscatlen mem s [CHR 0x5C, CHR ''b'']
      else if isprint c then sdscatvprintf mem s [c]
      else sdscatvprintf mem s (CHR 0x5C # CHR ''x'' # hex2 c))"

fun repr_loop :: "heap \<Rightarrow> sds \<Rightarrow> bytes \<Rightarrow> sds option" where
  "repr_loop mem s [] = sdscatlen mem s [CHR 0x22]"
| "repr_loop mem s (c # p) =
     (case cat_repr_char mem s c of None \<Rightarrow> None | Some t \<Rightarrow> repr_loop mem t p)"

definition sdscatrepr :: "heap \<Rightarrow> sds \<Rightarrow> bytes \<Rightarrow> sds option" where
  "sdscatrepr mem s p =
     (case sdscatlen mem s [CHR 0x22] of None \<Rightarrow> None | Some t \<Rightarrow> repr_loop mem t p)"

definition repr_char :: "char \<Rightarrow> bytes" where
  "repr_char c =
     (if c = CHR 0x5C \<or> c = CHR 0x22 then [CHR 0x5C, c]
      else if c = CHR 0x0A then [CHR 0x5C, CHR ''n'']
      else if c = CHR 0x0D then [CHR 0x5C, CHR ''r'']
      else if c = CHR 0x09 then [CHR 0x5C, CHR ''t'']
      else if c = CHR 0x07 then [CHR 0x5C, CHR ''a'']
      else if c = CHR 0x08 then [CHR 0x5C, CHR ''b'']
      else if isprint c then [c] else CHR 0x5C # CHR ''x'' # hex2 c)"

definition quoted :: "bytes \<Rightarrow> bytes" where
  "quoted p = CHR 0x22 # concat (map repr_char p) @ [CHR 0x22]"

lemma hex_char_not_nul: "n < 16 \<Longrightarrow> hex_char n \<noteq> NUL"
proof
  assume n: "n < 16" and e: "hex_char n = NUL"
  then have "(of_char (hex_char n) :: nat) = 0" by simp
  with n show False by (auto simp: hex_char_def split: if_splits)
qed

lemma byte_less_256: "(of_char c :: nat) < 256"
  using nat_of_char_less_256 [of c] by simp

lemma cat_repr_char_cases:
  "cat_repr_char mem s c = sdscatlen mem s (repr_char c) \<or> cat_repr_char mem s c = sdscatvprintf mem s (repr_char c)"
  unfolding cat_repr_char_def repr_char_def by presburger

lemma hex2_not_nul: "NUL \<notin> set (hex2 c)"
proof -
  have "(of_char c :: nat) div 16 < 16" "(of_char c :: nat) mod 16 < 16"
    using byte_less_256 [of c] by (simp_all add: less_mult_imp_div_less)
  from this [THEN hex_char_not_nul] show ?thesis by (simp add: hex2_def eq_commute)
qed

lemma repr_char_not_nul: "NUL \<notin> set (repr_char c)"
proof -
  have "isprint c \<Longrightarrow> c \<noteq> NUL" by (auto simp: isprint_def)
  then show ?thesis using hex2_not_nul [of c] by (simp add: repr_char_def) auto
qed

lemma cat_repr_char_text:
  "cat_repr_char mem s c = Some u \<Longrightarrow> sdscatlen mem s (repr_char c) = Some u"
  using cat_repr_char_cases [of mem s c] sdscatvprintf_is_cat [of mem s "repr_char c" u]
    cstr_no_nul [OF repr_char_not_nul] by auto

lemma repr_loop_cat_all:
  "repr_loop mem s p = Some u \<Longrightarrow> cat_all (sdscatlen mem) s (map repr_char p @ [[CHR 0x22]]) = Some u"
  by (induction mem s p rule: repr_loop.induct) (auto dest!: cat_repr_char_text split: option.splits)

lemma sdscatlen_ex: "ample mem \<Longrightarrow> \<exists>u. sdscatlen mem s x = Some u"
  using sdscatlen_total by blast

lemma repr_loop_total: "ample mem \<Longrightarrow> \<exists>u. repr_loop mem s p = Some u"
proof (induction p arbitrary: s)
  case Nil
  then show ?case by (simp add: sdscatlen_ex)
next
  case (Cons c cs)
  have "\<exists>t. cat_repr_char mem s c = Some t"
    using sdscatlen_ex [OF Cons.prems] sdscatvprintf_total [OF Cons.prems] by (simp add: cat_repr_char_def)
  then show ?case using Cons by auto
qed

lemma sdscatrepr_total: "ample mem \<Longrightarrow> \<exists>u. sdscatrepr mem s p = Some u"
  using repr_loop_total [of mem _ p] sdscatlen_ex [of mem s "[CHR 0x22]"] by (auto simp: sdscatrepr_def)

lemma sdscatrepr_text:
  assumes h: "good_heap mem" and i: "sds_inv s" and f: "fits_int s (length (quoted p))"
    and r: "sdscatrepr mem s p = Some u"
  shows "sds_inv u \<and> sds_text u = sds_text s @ quoted p"
proof -
  obtain t where t: "sdscatlen mem s [CHR 0x22] = Some t" "repr_loop mem t p = Some u"
    using r by (auto simp: sdscatrepr_def split: option.splits)
  have "cat_all (sdscatlen mem) s ([CHR 0x22] # map repr_char p @ [[CHR 0x22]]) = Some u"
    using t repr_loop_cat_all by simp
  from sds.cat_all_text [OF _ _ this] h i f show ?thesis by (simp add: quoted_def)
qed


section \<open>\<open>sdssplitargs\<close>\<close>

text \<open>
  The line is a C string: the list of its bytes, its end standing for the terminator. A
  token is built by \<open>sdscatlen\<close>, whose result the code does not check; here a token is its
  text. \<open>None\<close> is the jump to \<open>err\<close>: unbalanced quotes, or a closing quote that is not
  followed by a blank.
\<close>

definition is_hex_digit :: "char \<Rightarrow> bool" where
  "is_hex_digit c \<longleftrightarrow>
     (let n = (of_char c :: nat) in 48 \<le> n \<and> n \<le> 57 \<or> 97 \<le> n \<and> n \<le> 102 \<or> 65 \<le> n \<and> n \<le> 70)"

definition hex_digit_to_int :: "char \<Rightarrow> nat" where
  "hex_digit_to_int c =
     (let n = (of_char c :: nat)
      in if 48 \<le> n \<and> n \<le> 57 then n - 48
         else if 97 \<le> n \<and> n \<le> 102 then n - 87
         else if 65 \<le> n \<and> n \<le> 70 then n - 55
         else 0)"

definition escape_char :: "char \<Rightarrow> char" where
  "escape_char c =
     (if c = CHR ''n'' then CHR 0x0A else if c = CHR ''r'' then CHR 0x0D
      else if c = CHR ''t'' then CHR 0x09 else if c = CHR ''b'' then CHR 0x08
      else if c = CHR ''a'' then CHR 0x07 else c)"

text \<open>A closing quote: what follows must be blank or the end.\<close>

definition after_quote :: "bytes \<Rightarrow> bool" where
  "after_quote p \<longleftrightarrow> (case p of [] \<Rightarrow> True | c # _ \<Rightarrow> isspace c)"

datatype quoting = Plain | InQuotes | InSingle

text \<open>One turn of \<open>while(!done)\<close>: the bytes appended, how many bytes \<open>p\<close> moves, and the new mode
  (\<open>None\<close>: the token is done).\<close>

definition quoted_step :: "bytes \<Rightarrow> (bytes \<times> nat \<times> quoting option) option" where
  "quoted_step p =
     (case p of
        [] \<Rightarrow> None
      | c # r \<Rightarrow>
          if c = CHR 0x5C \<and> 3 \<le> length r \<and> r ! 0 = CHR ''x'' \<and> is_hex_digit (r ! 1) \<and> is_hex_digit (r ! 2)
            then Some ([char_of (hex_digit_to_int (r ! 1) * 16 + hex_digit_to_int (r ! 2))], 4, Some InQuotes)
          else if c = CHR 0x5C \<and> r \<noteq> [] then Some ([escape_char (hd r)], 2, Some InQuotes)
          else if c = CHR 0x22 then (if after_quote r then Some ([], 1, None) else None)
          else Some ([c], 1, Some InQuotes))"

definition single_step :: "bytes \<Rightarrow> (bytes \<times> nat \<times> quoting option) option" where
  "single_step p =
     (case p of
        [] \<Rightarrow> None
      | c # r \<Rightarrow>
          if c = CHR 0x5C \<and> r \<noteq> [] \<and> hd r = CHR 0x27 then Some ([CHR 0x27], 2, Some InSingle)
          else if c = CHR 0x27 then (if after_quote r then Some ([], 1, None) else None)
          else Some ([c], 1, Some InSingle))"

definition plain_step :: "bytes \<Rightarrow> (bytes \<times> nat \<times> quoting option) option" where
  "plain_step p =
     (case p of
        [] \<Rightarrow> Some ([], 0, None)
      | c # r \<Rightarrow>
          if c \<in> set [CHR '' '', CHR 0x0A, CHR 0x0D, CHR 0x09] then Some ([], 1, None)
          else if c = CHR 0x22 then Some ([], 1, Some InQuotes)
          else if c = CHR 0x27 then Some ([], 1, Some InSingle)
          else Some ([c], 1, Some Plain))"

definition token_step :: "quoting \<Rightarrow> bytes \<Rightarrow> (bytes \<times> nat \<times> quoting option) option" where
  "token_step m p = (case m of Plain \<Rightarrow> plain_step p | InQuotes \<Rightarrow> quoted_step p | InSingle \<Rightarrow> single_step p)"

lemmas token_steps = token_step_def plain_step_def quoted_step_def single_step_def

lemma token_step_moves: "token_step m p = Some (x, k, Some m') \<Longrightarrow> 0 < k \<and> p \<noteq> []"
  by (cases p; cases m; auto simp: token_steps split: if_splits)

lemma token_step_moves_any: "token_step m p = Some (x, k, q) \<Longrightarrow> p \<noteq> [] \<Longrightarrow> 0 < k"
  by (cases p; cases m; auto simp: token_steps split: if_splits)

function token :: "quoting \<Rightarrow> bytes \<Rightarrow> bytes \<Rightarrow> (bytes \<times> bytes) option" where
  "token m p current =
     (case token_step m p of
        None \<Rightarrow> None
      | Some (x, k, None) \<Rightarrow> Some (current @ x, drop k p)
      | Some (x, k, Some m') \<Rightarrow> token m' (drop k p) (current @ x))"
  by pat_completeness auto
termination
  by (relation "measure (\<lambda>(m, p, c). length p)") (auto dest!: token_step_moves)

declare token.simps [simp del]

lemma token_shorter: "token m p current = Some (t, r) \<Longrightarrow> p \<noteq> [] \<Longrightarrow> length r < length p"
proof (induction m p current rule: token.induct)
  case (1 m p current)
  obtain x k q where st: "token_step m p = Some (x, k, q)"
    using "1.prems"(1) by (subst (asm) token.simps) (auto split: option.splits prod.splits)
  have k: "0 < k" by (rule token_step_moves_any [OF st "1.prems"(2)])
  show ?case
  proof (cases q)
    case None
    then have "r = drop k p" using "1.prems"(1) st by (subst (asm) token.simps) simp
    then show ?thesis using k "1.prems"(2) by simp
  next
    case (Some m')
    then have t: "token m' (drop k p) (current @ x) = Some (t, r)"
      using "1.prems"(1) st by (subst (asm) token.simps) simp
    show ?thesis
    proof (cases "drop k p = []")
      case True
      then show ?thesis using t
        by (subst (asm) token.simps) (cases m'; auto simp: token_steps "1.prems"(2))
    next
      case False
      have "length r < length (drop k p)" using "1.IH" [of "(x, k, q)" x "(k, q)" k q m'] st Some t False by blast
      then show ?thesis by simp
    qed
  qed
qed

function sdssplitargs :: "bytes \<Rightarrow> bytes list option" where
  "sdssplitargs line =
     (let p = dropWhile isspace line
      in if p = [] then Some []
         else case token Plain p [] of
                None \<Rightarrow> None
              | Some (t, r) \<Rightarrow> map_option ((#) t) (sdssplitargs r))"
  by pat_completeness auto
termination
proof (relation "measure length", goal_cases)
  case (2 line p x t r)
  then have "length r < length p" using token_shorter by fastforce
  also have "length p \<le> length line" using 2(1) by (simp add: length_dropWhile_le)
  finally show ?case by simp
qed simp

declare sdssplitargs.simps [simp del]


section \<open>Reading the quoted form back\<close>

lemma of_hex_char: "n < 16 \<Longrightarrow> (of_char (hex_char n) :: nat) = (if n < 10 then 48 + n else 87 + n)"
  by (simp add: hex_char_def)

lemma hex_char_digit: "n < 16 \<Longrightarrow> is_hex_digit (hex_char n)" "n < 16 \<Longrightarrow> hex_digit_to_int (hex_char n) = n"
  by (auto simp: is_hex_digit_def hex_digit_to_int_def of_hex_char Let_def)

lemma hex2_value:
  "char_of (hex_digit_to_int (hex2 c ! 0) * 16 + hex_digit_to_int (hex2 c ! 1)) = c"
proof -
  have "(of_char c :: nat) div 16 < 16" using byte_less_256 [of c] by (simp add: less_mult_imp_div_less)
  then have "hex_digit_to_int (hex2 c ! 0) * 16 + hex_digit_to_int (hex2 c ! 1) = of_char c"
    by (simp add: hex2_def hex_char_digit)
  then show ?thesis by simp
qed

lemma token_go: "token_step m p = Some (x, k, Some m') \<Longrightarrow> token m p cur = token m' (drop k p) (cur @ x)"
  by (subst token.simps) simp

lemma token_stop: "token_step m p = Some (x, k, None) \<Longrightarrow> token m p cur = Some (cur @ x, drop k p)"
  by (subst token.simps) simp

lemma quoted_step_repr: "token_step InQuotes (repr_char c @ rest) = Some ([c], length (repr_char c), Some InQuotes)"
proof (cases "c \<in> set [CHR 0x5C, CHR 0x22, CHR 0x0A, CHR 0x0D, CHR 0x09, CHR 0x07, CHR 0x08]")
  case True
  then show ?thesis
    by (auto simp: token_step_def quoted_step_def repr_char_def escape_char_def)
next
  case False
  show ?thesis
  proof (cases "isprint c")
    case True
    with False show ?thesis by (auto simp: token_step_def quoted_step_def repr_char_def)
  next
    case np: False
    have h: "is_hex_digit (hex2 c ! 0)" "is_hex_digit (hex2 c ! 1)"
      using byte_less_256 [of c] by (simp_all add: hex2_def hex_char_digit less_mult_imp_div_less)
    have r: "repr_char c = CHR 0x5C # CHR ''x'' # [hex2 c ! 0, hex2 c ! 1]"
      using False np by (simp add: repr_char_def hex2_def)
    show ?thesis using h hex2_value [of c] by (simp add: token_step_def quoted_step_def r)
  qed
qed

lemma token_repr:
  "token InQuotes (concat (map repr_char p) @ CHR 0x22 # rest) cur
   = (if after_quote rest then Some (cur @ p, rest) else None)"
proof (induction p arbitrary: cur)
  case Nil
  show ?case
    by (subst token.simps) (simp add: token_step_def quoted_step_def)
next
  case (Cons c p)
  show ?case using token_go [OF quoted_step_repr, of c "concat (map repr_char p) @ CHR 0x22 # rest" cur] Cons.IH
    by simp
qed

lemma token_quoted:
  "after_quote rest \<Longrightarrow> token Plain (quoted p @ rest) [] = Some (p, rest)"
proof -
  assume a: "after_quote rest"
  have "token_step Plain (quoted p @ rest) = Some ([], 1, Some InQuotes)"
    by (simp add: token_step_def plain_step_def quoted_def)
  from token_go [OF this, of "[]"] show ?thesis
    using a token_repr [of p rest "[]"] by (simp add: quoted_def)
qed

lemma dropWhile_quoted: "dropWhile isspace (quoted p @ rest) = quoted p @ rest"
  "dropWhile isspace (CHR '' '' # quoted p @ rest) = quoted p @ rest"
  by (simp_all add: quoted_def isspace_def)

lemma quoted_not_Nil: "quoted p \<noteq> []"
  by (simp add: quoted_def)

lemma sdssplitargs_first:
  assumes "after_quote rest" "dropWhile isspace line = quoted p @ rest"
  shows "sdssplitargs line = map_option ((#) p) (sdssplitargs rest)"
  using token_quoted [OF assms(1), of p]
  by (subst sdssplitargs.simps) (simp add: assms(2) quoted_not_Nil)

lemma after_quote_tail: "after_quote (concat (map (\<lambda>p. CHR '' '' # quoted p) ps))"
  by (cases ps) (simp_all add: after_quote_def isspace_def)

lemma sdssplitargs_quoted_tail:
  "sdssplitargs (concat (map (\<lambda>p. CHR '' '' # quoted p) ps)) = Some ps"
proof (induction ps)
  case Nil
  show ?case by (subst sdssplitargs.simps) simp
next
  case (Cons p ps)
  then show ?case
    using sdssplitargs_first [OF after_quote_tail [of ps] dropWhile_quoted(2) [of p]] by simp
qed

lemma sdssplitargs_quoted: "sdssplitargs (join_bytes '' '' (map quoted ps)) = Some ps"
proof (cases ps)
  case Nil
  then show ?thesis by (subst sdssplitargs.simps) simp
next
  case (Cons p qs)
  have j: "join_bytes '' '' (map quoted (p # qs)) = quoted p @ concat (map (\<lambda>p. CHR '' '' # quoted p) qs)"
    for p qs by (induction qs arbitrary: p) auto
  show ?thesis
    using sdssplitargs_first [OF after_quote_tail [of qs] dropWhile_quoted(1) [of p]]
      sdssplitargs_quoted_tail [of qs] j [of p qs] by (simp add: Cons)
qed


text \<open>The quoted form is a C string: it has no NUL inside.\<close>

lemma quoted_not_nul: "NUL \<notin> set (quoted p)"
  using repr_char_not_nul by (auto simp: quoted_def)

end
