(* ===== verification/Format.thy ===== *)
theory Format
  imports CmdRequest SdsSplit
begin

text \<open>
  The command builders of \<open>hiredis.c\<close>: \<open>redisFormatCommandArgv\<close>, \<open>redisFormatSdsCommandArgv\<close>
  and \<open>redisvFormatCommand\<close>, which fills the words of a printf-like template. All three
  produce \<open>request args\<close>, the format the parser of \<open>command.c\<close> reads.
\<close>

section \<open>Lengths\<close>

function count_digits_loop :: "nat \<Rightarrow> nat \<Rightarrow> nat" where
  "count_digits_loop result v =
     (if v < 10 then result
      else if v < 100 then result + 1
      else if v < 1000 then result + 2
      else if v < 10000 then result + 3
      else count_digits_loop (result + 4) (v div 10000))"
  by pat_completeness auto
termination by (relation "measure snd") auto

declare count_digits_loop.simps [simp del]

definition countDigits :: "nat \<Rightarrow> nat" where
  "countDigits v = count_digits_loop 1 v"

definition bulklen :: "nat \<Rightarrow> nat" where
  "bulklen len = 1 + countDigits len + 2 + len + 2"

lemma count_digits_loop_dec: "count_digits_loop r v + 1 = r + length (dec v)"
proof (induction r v rule: count_digits_loop.induct)
  case (1 r v)
  consider "v < 10" | "10 \<le> v" "v < 100" | "100 \<le> v" "v < 1000" | "1000 \<le> v" "v < 10000" | "10000 \<le> v"
    by linarith
  then show ?case
  proof cases
    case 5
    then have "dec v = dec (v div 10000) @ [digit_char (v div 1000 mod 10), digit_char (v div 100 mod 10),
        digit_char (v div 10 mod 10), digit_char (v mod 10)]"
      by (simp add: dec_large div_mult2_eq [symmetric] dec_large [of "v div 10"] dec_large [of "v div 100"]
          dec_large [of "v div 1000"] less_eq_div_iff_mult_less_eq)
    with 1 5 show ?thesis by (subst count_digits_loop.simps) simp
  qed (subst count_digits_loop.simps, simp add: dec_large dec_small div_mult2_eq [symmetric]
      less_eq_div_iff_mult_less_eq div_less_iff_less_mult)+
qed

lemma countDigits_dec: "countDigits v = length (dec v)"
  using count_digits_loop_dec [of 1 v] by (simp add: countDigits_def)

lemma bulklen_bulk: "bulklen (length a) = length (bulk a)"
  by (simp add: bulklen_def bulk_def countDigits_dec)


section \<open>Building from an argument vector\<close>

text \<open>
  The arguments: \<open>argvlen\<close> gives their lengths, or is NULL and they are C strings. A length
  beyond the argument makes \<open>memcpy\<close> read outside it: the builders are undefined.
\<close>

definition arg_len :: "nat list option \<Rightarrow> bytes list \<Rightarrow> nat \<Rightarrow> nat" where
  "arg_len argvlen argv j = (case argvlen of Some ls \<Rightarrow> ls ! j | None \<Rightarrow> length (cstr (argv ! j)))"

definition arg_bytes :: "nat list option \<Rightarrow> bytes list \<Rightarrow> bytes list" where
  "arg_bytes argvlen argv = map (\<lambda>j. take (arg_len argvlen argv j) (argv ! j)) [0..<length argv]"

definition lens_ok :: "nat list option \<Rightarrow> bytes list \<Rightarrow> bool" where
  "lens_ok argvlen argv \<longleftrightarrow>
     (case argvlen of
        None \<Rightarrow> True
      | Some ls \<Rightarrow> length argv \<le> length ls \<and> list_all (\<lambda>(n, a). n \<le> length a) (zip ls argv))"

text \<open>A write at \<open>cmd + pos\<close>; \<open>None\<close> when it would leave the allocated cells.\<close>

definition write_at :: "nat \<Rightarrow> bytes \<Rightarrow> bytes \<Rightarrow> bytes option" where
  "write_at p t buf = (if p + length t \<le> length buf then Some (blit p t buf) else None)"

definition bulk_header :: "nat \<Rightarrow> bytes" where
  "bulk_header len = CHR ''$'' # dec len @ CRLF"

definition count_header :: "nat \<Rightarrow> bytes" where
  "count_header argc = CHR ''*'' # dec argc @ CRLF"

text \<open>\<open>sprintf\<close> also stores a NUL after its text; the next write overwrites it.\<close>

definition write_arg :: "bytes \<Rightarrow> nat \<Rightarrow> bytes \<Rightarrow> (bytes \<times> nat) option" where
  "write_arg buf pos a =
     (case write_at pos (bulk_header (length a) @ [NUL]) buf of
        None \<Rightarrow> None
      | Some b1 \<Rightarrow>
          let pos1 = pos + length (bulk_header (length a))
          in case write_at pos1 a b1 of
               None \<Rightarrow> None
             | Some b2 \<Rightarrow>
                 let pos2 = pos1 + length a
                 in (case write_at pos2 CRLF b2 of
                       None \<Rightarrow> None
                     | Some b3 \<Rightarrow> Some (b3, pos2 + 2)))"

fun write_args :: "bytes \<Rightarrow> nat \<Rightarrow> bytes list \<Rightarrow> (bytes \<times> nat) option" where
  "write_args buf pos [] = Some (buf, pos)"
| "write_args buf pos (a # as) =
     (case write_arg buf pos a of None \<Rightarrow> None | Some (b, p) \<Rightarrow> write_args b p as)"

text \<open>The common end of the builders: \<open>None\<close> also stands for the failing assertion.\<close>

definition build_command :: "bytes \<Rightarrow> bytes list \<Rightarrow> nat \<Rightarrow> bytes option" where
  "build_command cells args totlen =
     (case write_at 0 (count_header (length args) @ [NUL]) cells of
        None \<Rightarrow> None
      | Some b \<Rightarrow>
          (case write_args b (length (count_header (length args))) args of
             None \<Rightarrow> None
           | Some (b', pos) \<Rightarrow> if pos = totlen then write_at pos [NUL] b' else None))"

text \<open>
  The result is the returned length and the stored command. \<open>totlen\<close> is an \<open>int\<close>; its sums
  with \<open>size_t\<close> values are converted back.
\<close>

definition redisFormatCommandArgv ::
    "heap \<Rightarrow> bool \<Rightarrow> bytes list \<Rightarrow> nat list option \<Rightarrow> (int \<times> bytes option) option" where
  "redisFormatCommandArgv mem target argv argvlen =
     (if \<not> target then Some (-1, None)
      else if \<not> lens_ok argvlen argv then None
      else let args = arg_bytes argvlen argv;
               totlen = foldl (\<lambda>t a. wrap_int (t + int (bulklen (length a))))
                          (int (1 + countDigits (length argv) + 2)) args
           in case malloc mem (to_size (totlen + 1)) of
                None \<Rightarrow> Some (-1, None)
              | Some cells \<Rightarrow>
                  map_option (\<lambda>b. (totlen, Some b)) (build_command cells args (to_size totlen)))"

text \<open>The sds builder. The loop body appends one bulk string.\<close>

definition sds_bulk :: "heap \<Rightarrow> sds option \<Rightarrow> bytes \<Rightarrow> sds option" where
  "sds_bulk mem s a = (case s of None \<Rightarrow> None | Some s \<Rightarrow>
     (case sdscatfmt mem s (CHR ''$'' # CHR ''%'' # CHR ''T'' # CRLF) [ArgUint (length a)] of
        None \<Rightarrow> None
      | Some s1 \<Rightarrow>
          (case sdscatlen mem s1 a of
             None \<Rightarrow> None
           | Some s2 \<Rightarrow> sdscatlen mem s2 CRLF)))"

definition redisFormatSdsCommandArgv ::
    "heap \<Rightarrow> bool \<Rightarrow> bytes list \<Rightarrow> nat list option \<Rightarrow> (int \<times> sds option) option" where
  "redisFormatSdsCommandArgv mem target argv argvlen =
     (if \<not> target then Some (-1, None)
      else if \<not> lens_ok argvlen argv then None
      else let args = arg_bytes argvlen argv;
               totlen = foldl (\<lambda>t a. t + bulklen (length a)) (1 + countDigits (length argv) + 2) args
           in case sdsempty mem of
                None \<Rightarrow> Some (-1, None)
              | Some e \<Rightarrow>
                  (case sdsMakeRoomFor mem e totlen of
                     None \<Rightarrow> Some (-1, None)
                   | Some r \<Rightarrow>
                       (case sdscatfmt mem r (CHR ''*'' # CHR ''%'' # CHR ''i'' # CRLF) [ArgInt (int (length argv))] of
                          None \<Rightarrow> None
                        | Some c \<Rightarrow>
                            (case foldl (sds_bulk mem) (Some c) args of
                               None \<Rightarrow> None
                             | Some cmd \<Rightarrow>
                                 if sdslen cmd = totlen then Some (wrap_int (int totlen), Some cmd) else None))))"

section \<open>What they build\<close>

lemma length_arg_bytes [simp]: "length (arg_bytes argvlen argv) = length argv"
  by (simp add: arg_bytes_def)

lemma write_at_ok:
  assumes "take p buf = pre" "length pre = p" "p + length t + length u \<le> length buf"
  shows "\<exists>b. write_at p (t @ u) buf = Some b \<and> length b = length buf \<and> take (p + length t) b = pre @ t"
proof -
  let ?b = "blit p (t @ u) buf"
  have "take (p + length (t @ u)) ?b = take p buf @ t @ u" using assms(3) by (intro take_blit) simp
  then have "take (p + length t) (take (p + length (t @ u)) ?b) = pre @ t" using assms(1,2) by simp
  then have "take (p + length t) ?b = pre @ t" by simp
  moreover have "length ?b = length buf" using assms(3) by (intro length_blit) simp
  ultimately show ?thesis using assms(3) by (simp add: write_at_def)
qed

lemma bulk_header_bulk: "bulk a = bulk_header (length a) @ a @ CRLF"
  by (simp add: bulk_def bulk_header_def)

lemma write_arg_ok:
  assumes "take p buf = pre" "length pre = p" "p + length (bulk a) \<le> length buf"
  shows "\<exists>b. write_arg buf p a = Some (b, p + length (bulk a)) \<and> length b = length buf
    \<and> take (p + length (bulk a)) b = pre @ bulk a"
proof -
  let ?h = "bulk_header (length a)"
  have room: "p + length ?h + length a + 2 \<le> length buf" using assms(3) by (simp add: bulk_header_bulk)
  then obtain b1 where b1: "write_at p (?h @ [NUL]) buf = Some b1" "length b1 = length buf"
    "take (p + length ?h) b1 = pre @ ?h"
    using write_at_ok [OF assms(1,2), of ?h "[NUL]"] by auto
  then obtain b2 where b2: "write_at (p + length ?h) a b1 = Some b2" "length b2 = length buf"
    "take (p + length ?h + length a) b2 = (pre @ ?h) @ a"
    using write_at_ok [OF b1(3), of a "[]"] assms(2) room by auto
  then obtain b3 where "write_at (p + length ?h + length a) CRLF b2 = Some b3" "length b3 = length buf"
    "take (p + length ?h + length a + 2) b3 = ((pre @ ?h) @ a) @ CRLF"
    using write_at_ok [OF b2(3), of CRLF "[]"] assms(2) room by auto
  with b1(1) b2(1) show ?thesis by (simp add: write_arg_def bulk_header_bulk add.assoc)
qed

lemma write_args_ok:
  assumes "take p buf = pre" "length pre = p" "p + length (concat (map bulk as)) \<le> length buf"
  shows "\<exists>b. write_args buf p as = Some (b, p + length (concat (map bulk as))) \<and> length b = length buf
    \<and> take (p + length (concat (map bulk as))) b = pre @ concat (map bulk as)"
  using assms
proof (induction as arbitrary: buf p pre)
  case Nil
  then show ?case by simp
next
  case (Cons a as)
  obtain b where b: "write_arg buf p a = Some (b, p + length (bulk a))" "length b = length buf"
    "take (p + length (bulk a)) b = pre @ bulk a"
    using write_arg_ok [OF Cons.prems(1,2), of a] Cons.prems(3) by auto
  from Cons.IH [OF b(3)] b Cons.prems(2,3) show ?case by (fastforce simp: add.assoc)
qed

lemma request_header: "request args = count_header (length args) @ concat (map bulk args)"
  by (simp add: request_def count_header_def)

lemma build_command_request:
  assumes "length cells = length (request args) + 1"
  shows "build_command cells args (length (request args)) = Some (request args @ [NUL])"
proof -
  let ?h = "count_header (length args)" let ?b = "concat (map bulk args)"
  have l: "length (request args) = length ?h + length ?b" by (simp add: request_header)
  obtain b where b: "write_at 0 (?h @ [NUL]) cells = Some b" "length b = length cells" "take (length ?h) b = ?h"
    using write_at_ok [of 0 cells "[]" ?h "[NUL]"] assms l by auto
  obtain c where c: "write_args b (length ?h) args = Some (c, length (request args))" "length c = length cells"
    "take (length (request args)) c = request args"
    using write_args_ok [OF b(3), of args] b(2) assms l by (auto simp: request_header)
  have "write_at (length (request args)) [NUL] c = Some (request args @ [NUL])"
    using c(2,3) assms by (simp add: write_at_def blit_def)
  then show ?thesis using b(1) c(1) by (simp add: build_command_def)
qed

lemma totlen_sum:
  "foldl (\<lambda>t a. t + bulklen (length a)) n args = n + length (concat (map bulk args))"
  by (induction args arbitrary: n) (simp_all add: bulklen_bulk)

lemma totlen_wrap:
  "n + length (concat (map bulk args)) < 2 ^ 31 \<Longrightarrow>
   foldl (\<lambda>t a. wrap_int (t + int (bulklen (length a)))) (int n) args = int (n + length (concat (map bulk args)))"
proof (induction args arbitrary: n)
  case (Cons a as)
  then have "wrap_int (int n + int (bulklen (length a))) = int (n + length (bulk a))"
    by (subst wrap_int_small) (simp_all add: bulklen_bulk)
  with Cons.IH [of "n + length (bulk a)"] Cons.prems show ?case by (simp add: add.assoc)
qed simp

lemma length_request: "length (request args) = 1 + countDigits (length args) + 2 + length (concat (map bulk args))"
  by (simp add: request_def countDigits_dec)

lemma formatCommandArgv_request:
  assumes "ample mem" "lens_ok argvlen argv" "length (request (arg_bytes argvlen argv)) + 1 < 2 ^ 31"
  shows "redisFormatCommandArgv mem True argv argvlen
    = Some (int (length (request (arg_bytes argvlen argv))), Some (request (arg_bytes argvlen argv) @ [NUL]))"
proof -
  let ?args = "arg_bytes argvlen argv" let ?n = "length (request (arg_bytes argvlen argv))"
  have tot: "foldl (\<lambda>t a. wrap_int (t + int (bulklen (length a))))
      (int (1 + countDigits (length argv) + 2)) ?args = int ?n"
    using assms(3) totlen_wrap [of "1 + countDigits (length argv) + 2" ?args] by (simp add: length_request)
  obtain cells where c: "malloc mem (?n + 1) = Some cells"
    using assms(1) by (fastforce simp: malloc_def ample_def)
  have "to_size (int ?n + 1) = ?n + 1" by (simp add: to_size_def nat_add_distrib)
  then show ?thesis
    using c assms(2) build_command_request [of cells ?args] length_malloc [OF c]
    by (simp only: redisFormatCommandArgv_def tot Let_def) simp
qed


lemma fmt_text_headers:
  "fmt_text (CHR ''*'' # CHR ''%'' # CHR ''i'' # CRLF) [ArgInt (int n)] = Some (count_header n)"
  "fmt_text (CHR ''$'' # CHR ''%'' # CHR ''T'' # CRLF) [ArgUint n] = Some (bulk_header n)"
  by (simp_all add: count_header_def bulk_header_def is_conv_def sdsll2str_dec sdsull2str_dec dec_int_def)

lemma sds_bulk_text:
  assumes "good_heap mem" "ample mem" "sds_inv s" "fits_int s (length (bulk a) + 1)"
  shows "\<exists>u. sds_bulk mem (Some s) a = Some u \<and> sds_inv u \<and> sds_text u = sds_text s @ bulk a"
proof -
  have "fits_int s (length (bulk_header (length a)) + 1)"
    using assms(4) by (rule fits_int_less) (simp add: bulk_header_bulk)
  from sdscatfmt_text [OF assms(1-3) fmt_text_headers(2) this]
  obtain s1 where s1: "sdscatfmt mem s (CHR ''$'' # CHR ''%'' # CHR ''T'' # CRLF) [ArgUint (length a)] = Some s1"
    "sds_inv s1" "sds_text s1 = sds_text s @ bulk_header (length a)" by blast
  obtain s2 where s2: "sdscatlen mem s1 a = Some s2" using sdscatlen_total [OF assms(2)] by fastforce
  obtain s3 where s3: "sdscatlen mem s2 CRLF = Some s3" using sdscatlen_total [OF assms(2)] by fastforce
  have "cat_all (sdscatlen mem) s1 [a, CRLF] = Some s3" using s2 s3 by simp
  moreover have "fits_int s1 (length (concat [a, CRLF]))"
    using assms(4) by (rule fits_int_less) (simp add: s1(3) bulk_header_bulk)
  ultimately have "sds_inv s3 \<and> sds_text s3 = sds_text s1 @ a @ CRLF"
    using sds.cat_all_text [of mem s1 "[a, CRLF]" s3] assms(1) s1(2) by simp
  then show ?thesis using s1 s2 s3 by (simp add: sds_bulk_def bulk_header_bulk)
qed

lemma sds_bulks_text:
  "good_heap mem \<Longrightarrow> ample mem \<Longrightarrow> sds_inv s \<Longrightarrow> fits_int s (length (concat (map bulk as)) + 1) \<Longrightarrow>
   \<exists>u. foldl (sds_bulk mem) (Some s) as = Some u \<and> sds_inv u \<and> sds_text u = sds_text s @ concat (map bulk as)"
proof (induction as arbitrary: s)
  case (Cons a as)
  have "fits_int s (length (bulk a) + 1)" using Cons.prems(4) by (rule fits_int_less) simp
  from sds_bulk_text [OF Cons.prems(1-3) this] obtain u where
    u: "sds_bulk mem (Some s) a = Some u" "sds_inv u" "sds_text u = sds_text s @ bulk a" by blast
  have "fits_int u (length (concat (map bulk as)) + 1)"
    using Cons.prems(4) by (rule fits_int_less) (simp add: u(3))
  from Cons.IH [OF Cons.prems(1,2) u(2) this] u show ?case by auto
qed simp

lemma formatSdsCommandArgv_request:
  assumes h: "good_heap mem" "ample mem" and l: "lens_ok argvlen argv"
    and n: "length (request (arg_bytes argvlen argv)) + 1 + SDS_MAX_PREALLOC < 2 ^ 31"
  shows "\<exists>u. redisFormatSdsCommandArgv mem True argv argvlen
      = Some (int (length (request (arg_bytes argvlen argv))), Some u)
    \<and> sds_inv u \<and> sds_text u = request (arg_bytes argvlen argv)"
proof -
  let ?args = "arg_bytes argvlen argv" let ?n = "length (request (arg_bytes argvlen argv))"
  have tot: "foldl (\<lambda>t a. t + bulklen (length a)) (1 + countDigits (length argv) + 2) ?args = ?n"
    by (simp add: totlen_sum length_request)
  have len: "?n = length (count_header (length argv)) + length (concat (map bulk ?args))"
    by (simp add: request_header)
  obtain e where e: "sdsempty mem = Some e" using sdsempty_total [OF h(2)] by auto
  then have e': "sds_inv e" "sds_text e = []" using sdsempty_text [OF h(1)] by auto
  obtain r where r: "sdsMakeRoomFor mem e ?n = Some r" using sdsMakeRoomFor_total [OF h(2)] by fastforce
  have "fits_int e ?n" using n e' by (simp add: fits_int_def)
  note m = sdsMakeRoomFor_text [OF h(1) e'(1) this r]
  have fr: "fits_int r (?n + 1)" using n e'(2) m(2) by (simp add: fits_int_def)
  then have "fits_int r (length (count_header (length argv)) + 1)" by (rule fits_int_less) (simp add: len)
  from sdscatfmt_text [OF h m(1) fmt_text_headers(1) this]
  obtain c where c: "sdscatfmt mem r (CHR ''*'' # CHR ''%'' # CHR ''i'' # CRLF) [ArgInt (int (length argv))] = Some c"
    "sds_inv c" "sds_text c = count_header (length argv)" using m(2) e'(2) by auto
  have "fits_int c (length (concat (map bulk ?args)) + 1)"
    using fr by (rule fits_int_less) (simp add: c(3) len m(2) e'(2))
  from sds_bulks_text [OF h c(2) this] obtain u where
    u: "foldl (sds_bulk mem) (Some c) ?args = Some u" "sds_inv u" "sds_text u = request ?args"
    by (auto simp: c(3) request_header)
  have "sdslen u = ?n" using sds_inv_len(2) [OF u(2)] u(3) by simp
  moreover have "wrap_int (int ?n) = int ?n" using n by (intro wrap_int_small) simp_all
  ultimately show ?thesis using e r c(1) u l
    by (simp only: redisFormatSdsCommandArgv_def tot Let_def) simp
qed


section \<open>Building from a template\<close>

text \<open>
  The variable arguments, as they were passed; taking one as another type, or one that is
  not there, is undefined. \<open>pf\<close> is the text \<open>vsnprintf\<close> makes of one conversion and its
  argument.
\<close>

datatype vararg = VStr bytes | VSize nat | VInt int | VDouble u64 | VLong int | VLongLong int

datatype va_kind = KInt | KDouble | KLong | KLongLong

fun va_take :: "va_kind \<Rightarrow> vararg list \<Rightarrow> (vararg \<times> vararg list) option" where
  "va_take KInt (VInt i # r) = Some (VInt i, r)"
| "va_take KDouble (VDouble d # r) = Some (VDouble d, r)"
| "va_take KLong (VLong i # r) = Some (VLong i, r)"
| "va_take KLongLong (VLongLong i # r) = Some (VLongLong i, r)"
| "va_take _ _ = None"

text \<open>
  Detection of a printf conversion at \<open>c\<close>, which starts with \<open>%\<close>; the end of the list is the
  terminator. The result is the kind of the argument and \<open>_l\<close>, the number of characters
  from \<open>%\<close> up to and including the conversion character. \<open>strchr(intfmts, 0)\<close> finds the
  terminator of \<open>intfmts\<close>, so a template that ends inside a conversion is taken as one.
\<close>

definition is_intfmt :: "char \<Rightarrow> bool" where
  "is_intfmt c \<longleftrightarrow> c \<in> set ''diouxX''"

definition int_after :: "bytes \<Rightarrow> bool" where
  "int_after p \<longleftrightarrow> p \<noteq> [] \<and> is_intfmt (hd p)"

definition scan_flags :: "bytes \<Rightarrow> bytes" where
  "scan_flags c =
     (let p1 = dropWhile (\<lambda>x. x \<in> set [CHR ''#'', CHR ''0'', CHR ''-'', CHR ''+'', CHR '' '']) (tl c);
          p2 = dropWhile isdigit p1
      in if p2 \<noteq> [] \<and> hd p2 = CHR ''.'' then dropWhile isdigit (tl p2) else p2)"

definition scan_conv :: "bytes \<Rightarrow> (va_kind \<times> nat) option" where
  "scan_conv c =
     (let p = scan_flags c; l = length c - length p + 1
      in if p = [] \<or> is_intfmt (hd p) then Some (KInt, l)
         else if hd p \<in> set ''eEfFgGaA'' then Some (KDouble, l)
         else if take 2 p = ''hh'' then (if int_after (drop 2 p) then Some (KInt, l + 2) else None)
         else if hd p = CHR ''h'' then (if int_after (drop 1 p) then Some (KInt, l + 1) else None)
         else if take 2 p = ''ll'' then (if int_after (drop 2 p) then Some (KLongLong, l + 2) else None)
         else if hd p = CHR ''l'' then (if int_after (drop 1 p) then Some (KLong, l + 1) else None)
         else None)"

datatype fmt_failure = Fmt_memory | Fmt_format | Fmt_undefined

record fmt_state =
  f_cur :: sds
  f_argv :: "sds list"
  f_touched :: bool
  f_args :: "vararg list"
  f_totlen :: int

text \<open>\<open>curargv[argc++] = curarg\<close>.\<close>

definition push_arg :: "heap \<Rightarrow> fmt_state \<Rightarrow> fmt_state option" where
  "push_arg mem s =
     (if mem (8 * (length (f_argv s) + 1)) = None then None
      else Some (s\<lparr>f_argv := f_argv s @ [f_cur s],
                   f_totlen := wrap_int (f_totlen s + int (bulklen (sdslen (f_cur s))))\<rparr>))"

definition cat_cur :: "fmt_state \<Rightarrow> sds option \<Rightarrow> fmt_failure + fmt_state" where
  "cat_cur s newarg =
     (case newarg of None \<Rightarrow> Inl Fmt_memory | Some x \<Rightarrow> Inr (s\<lparr>f_cur := x, f_touched := True\<rparr>))"

text \<open>A character outside a conversion.\<close>

definition fmt_plain :: "heap \<Rightarrow> char \<Rightarrow> fmt_state \<Rightarrow> fmt_failure + fmt_state" where
  "fmt_plain mem c s =
     (if c = CHR '' '' then
        if f_touched s then
          (case push_arg mem s of
             None \<Rightarrow> Inl Fmt_memory
           | Some s' \<Rightarrow>
               (case sdsempty mem of
                  None \<Rightarrow> Inl Fmt_memory
                | Some e \<Rightarrow> Inr (s'\<lparr>f_cur := e, f_touched := False\<rparr>)))
        else Inr s
      else cat_cur s (sdscatlen mem (f_cur s) [c]))"

text \<open>A conversion at \<open>c\<close>: the new state and how far \<open>c\<close> moves in all.\<close>

definition fmt_percent :: "heap \<Rightarrow> (bytes \<Rightarrow> vararg \<Rightarrow> bytes) \<Rightarrow> bytes \<Rightarrow> fmt_state \<Rightarrow> fmt_failure + fmt_state \<times> nat" where
  "fmt_percent mem pf c s =
     (let move = (\<lambda>n r. case r of Inl e \<Rightarrow> Inl e | Inr t \<Rightarrow> Inr (t, n))
      in if c ! 1 = CHR ''s'' then
           (case f_args s of
              VStr a # r \<Rightarrow>
                let t = cstr a; s' = s\<lparr>f_args := r\<rparr>
                in move 2 (cat_cur s' (if length t > 0 then sdscatlen mem (f_cur s) t else Some (f_cur s)))
            | _ \<Rightarrow> Inl Fmt_undefined)
         else if c ! 1 = CHR ''b'' then
           (case f_args s of
              VStr a # VSize n # r \<Rightarrow>
                let s' = s\<lparr>f_args := r\<rparr>
                in if n \<le> length a
                   then move 2 (cat_cur s' (if n > 0 then sdscatlen mem (f_cur s) (take n a) else Some (f_cur s)))
                   else Inl Fmt_undefined
            | _ \<Rightarrow> Inl Fmt_undefined)
         else if c ! 1 = CHR ''%'' then move 2 (cat_cur s (sdscat mem (f_cur s) ''%''))
         else
           (case scan_conv c of
              None \<Rightarrow> Inl Fmt_format
            | Some (k, l) \<Rightarrow>
                (case va_take k (f_args s) of
                   None \<Rightarrow> Inl Fmt_undefined
                 | Some (v, r) \<Rightarrow>
                     let s' = s\<lparr>f_args := r\<rparr>
                     in if l < 14
                        then move l (cat_cur s' (sdscatvprintf mem (f_cur s) (pf (take l c) v)))
                        else move 2 (cat_cur s' (Some (f_cur s))))))"

lemma scan_conv_pos: "scan_conv c = Some (k, l) \<Longrightarrow> 0 < l"
  by (auto simp: scan_conv_def Let_def split: if_splits)

lemma fmt_percent_moves: "fmt_percent mem pf c s = Inr (t, n) \<Longrightarrow> 0 < n"
  using scan_conv_pos
  by (fastforce simp: fmt_percent_def Let_def split: if_splits option.splits sum.splits list.splits vararg.splits prod.splits)

text \<open>The loop; moving past the terminator is a read outside the template.\<close>

function vfmt_loop :: "heap \<Rightarrow> (bytes \<Rightarrow> vararg \<Rightarrow> bytes) \<Rightarrow> bytes \<Rightarrow> fmt_state \<Rightarrow> fmt_failure + fmt_state" where
  "vfmt_loop mem pf c s =
     (if c = [] then Inr s
      else if hd c \<noteq> CHR ''%'' \<or> length c = 1 then
        (case fmt_plain mem (hd c) s of Inl e \<Rightarrow> Inl e | Inr t \<Rightarrow> vfmt_loop mem pf (tl c) t)
      else
        (case fmt_percent mem pf c s of
           Inl e \<Rightarrow> Inl e
         | Inr (t, n) \<Rightarrow> if n \<le> length c then vfmt_loop mem pf (drop n c) t else Inl Fmt_undefined))"
  by pat_completeness auto
termination
  by (relation "measure (\<lambda>(mem, pf, c, s). length c)") (auto dest: fmt_percent_moves)

declare vfmt_loop.simps [simp del]

definition redisvFormatCommand ::
    "heap \<Rightarrow> (bytes \<Rightarrow> vararg \<Rightarrow> bytes) \<Rightarrow> bool \<Rightarrow> bytes \<Rightarrow> vararg list \<Rightarrow> (int \<times> bytes option) option" where
  "redisvFormatCommand mem pf target format ap =
     (if \<not> target then Some (-1, None)
      else case sdsempty mem of
        None \<Rightarrow> Some (-1, None)
      | Some e \<Rightarrow>
          (case vfmt_loop mem pf format \<lparr>f_cur = e, f_argv = [], f_touched = False, f_args = ap, f_totlen = 0\<rparr> of
             Inl Fmt_memory \<Rightarrow> Some (-1, None)
           | Inl Fmt_format \<Rightarrow> Some (-2, None)
           | Inl Fmt_undefined \<Rightarrow> None
           | Inr s \<Rightarrow>
               (case (if f_touched s then push_arg mem s else Some s) of
                  None \<Rightarrow> Some (-1, None)
                | Some s' \<Rightarrow>
                    let args = map (\<lambda>a. take (sdslen a) (s_buf a)) (f_argv s');
                        totlen = wrap_int (f_totlen s' + int (1 + countDigits (length args) + 2))
                    in (case malloc mem (to_size (totlen + 1)) of
                          None \<Rightarrow> Some (-1, None)
                        | Some cells \<Rightarrow>
                            map_option (\<lambda>b. (totlen, Some b)) (build_command cells args (to_size totlen))))))"

definition redisFormatCommand ::
    "heap \<Rightarrow> (bytes \<Rightarrow> vararg \<Rightarrow> bytes) \<Rightarrow> bool \<Rightarrow> bytes \<Rightarrow> vararg list \<Rightarrow> (int \<times> bytes option) option" where
  "redisFormatCommand mem pf target format ap =
     map_option (\<lambda>(len, cmd). (if len < 0 then -1 else len, cmd)) (redisvFormatCommand mem pf target format ap)"


section \<open>Templates of words\<close>

text \<open>
  A template as it is meant: words of literal text, \<open>%s\<close>, \<open>%b\<close> and \<open>%%\<close>, separated by single
  blanks, with the data each piece takes from the variable arguments.
\<close>

datatype piece = Lit bytes | StrArg bytes | BinArg bytes nat | Percent

fun piece_fmt :: "piece \<Rightarrow> bytes" where
  "piece_fmt (Lit t) = t"
| "piece_fmt (StrArg s) = ''%s''"
| "piece_fmt (BinArg b n) = ''%b''"
| "piece_fmt Percent = ''%%''"

fun piece_args :: "piece \<Rightarrow> vararg list" where
  "piece_args (StrArg s) = [VStr s]"
| "piece_args (BinArg b n) = [VStr b, VSize n]"
| "piece_args _ = []"

fun piece_text :: "piece \<Rightarrow> bytes" where
  "piece_text (Lit t) = t"
| "piece_text (StrArg s) = cstr s"
| "piece_text (BinArg b n) = take n b"
| "piece_text Percent = ''%''"

fun piece_ok :: "piece \<Rightarrow> bool" where
  "piece_ok (Lit t) = (t \<noteq> [] \<and> CHR '' '' \<notin> set t \<and> CHR ''%'' \<notin> set t \<and> NUL \<notin> set t)"
| "piece_ok (BinArg b n) = (n \<le> length b)"
| "piece_ok _ = True"

definition word_ok :: "piece list \<Rightarrow> bool" where
  "word_ok w \<longleftrightarrow> w \<noteq> [] \<and> (\<forall>p\<in>set w. piece_ok p)"

definition template :: "piece list list \<Rightarrow> bytes" where
  "template ws = join_bytes '' '' (map (\<lambda>w. concat (map piece_fmt w)) ws)"

definition template_args :: "piece list list \<Rightarrow> vararg list" where
  "template_args ws = concat (map (\<lambda>w. concat (map piece_args w)) ws)"

definition word_text :: "piece list \<Rightarrow> bytes" where
  "word_text w = concat (map piece_text w)"

lemma cat_total:
  assumes "good_heap mem" "ample mem" "sds_inv s" "fits_int s (length t)"
  shows "\<exists>u. sdscatlen mem s t = Some u \<and> sds_inv u \<and> sds_text u = sds_text s @ t"
proof -
  obtain u where u: "sdscatlen mem s t = Some u" using sdscatlen_total [OF assms(2)] by fastforce
  with sdscatlen_text [OF assms(1,3,4) u] show ?thesis by blast
qed

text \<open>The state after some text has been appended to the current argument.\<close>

definition grown :: "fmt_state \<Rightarrow> sds \<Rightarrow> vararg list \<Rightarrow> fmt_state" where
  "grown s cur args = s\<lparr>f_cur := cur, f_touched := True, f_args := args\<rparr>"

lemma vfmt_literal:
  assumes h: "good_heap mem" "ample mem"
  shows "t \<noteq> [] \<Longrightarrow> CHR '' '' \<notin> set t \<Longrightarrow> CHR ''%'' \<notin> set t \<Longrightarrow> sds_inv (f_cur s) \<Longrightarrow>
    fits_int (f_cur s) (length t) \<Longrightarrow>
    \<exists>u. vfmt_loop mem pf (t @ c) s = vfmt_loop mem pf c (grown s u (f_args s))
      \<and> sds_inv u \<and> sds_text u = sds_text (f_cur s) @ t"
proof (induction t arbitrary: s)
  case (Cons x t)
  have "fits_int (f_cur s) (length [x])" using Cons.prems(5) by (rule fits_int_less) simp
  from cat_total [OF h Cons.prems(4) this] obtain u where
    u: "sdscatlen mem (f_cur s) [x] = Some u" "sds_inv u" "sds_text u = sds_text (f_cur s) @ [x]" by blast
  have x: "x \<noteq> CHR '' ''" "x \<noteq> CHR ''%''" using Cons.prems(2,3) by auto
  have step: "vfmt_loop mem pf ((x # t) @ c) s = vfmt_loop mem pf (t @ c) (grown s u (f_args s))"
    using x u(1) by (subst vfmt_loop.simps) (simp add: fmt_plain_def cat_cur_def grown_def)
  show ?case
  proof (cases "t = []")
    case True
    then show ?thesis using step u by auto
  next
    case False
    have "fits_int (f_cur (grown s u (f_args s))) (length t)"
      using Cons.prems(5) by (rule fits_int_less) (simp add: grown_def u(3))
    from Cons.IH [OF False _ _ _ this] Cons.prems(2,3) u(2) obtain v where
      v: "vfmt_loop mem pf (t @ c) (grown s u (f_args s))
          = vfmt_loop mem pf c (grown (grown s u (f_args s)) v (f_args s))"
        "sds_inv v" "sds_text v = (sds_text (f_cur s) @ [x]) @ t"
      by (auto simp: grown_def u(3))
    then show ?thesis using step by (auto simp: grown_def)
  qed
qed simp

lemma vfmt_conv:
  assumes "2 \<le> length f" "hd f = CHR ''%''" "fmt_percent mem pf (f @ c) s = Inr (t, length f)"
  shows "vfmt_loop mem pf (f @ c) s = vfmt_loop mem pf c t"
proof -
  have "f \<noteq> []" "length (f @ c) \<noteq> 1" using assms(1) by auto
  then show ?thesis using assms by (subst vfmt_loop.simps) simp
qed

lemma vfmt_piece:
  assumes h: "good_heap mem" "ample mem" and p: "piece_ok p" and i: "sds_inv (f_cur s)"
    and f: "fits_int (f_cur s) (length (piece_text p))" and a: "f_args s = piece_args p @ rest"
  shows "\<exists>u. vfmt_loop mem pf (piece_fmt p @ c) s = vfmt_loop mem pf c (grown s u rest)
    \<and> sds_inv u \<and> sds_text u = sds_text (f_cur s) @ piece_text p"
proof (cases p)
  case (Lit t)
  then show ?thesis using vfmt_literal [OF h, of t s pf c] p i f a by auto
next
  case (StrArg b)
  obtain u where u: "(if length (cstr b) > 0 then sdscatlen mem (f_cur s) (cstr b) else Some (f_cur s)) = Some u"
    "sds_inv u" "sds_text u = sds_text (f_cur s) @ cstr b"
    using cat_total [OF h i] f StrArg i by (cases "cstr b = []") fastforce+
  have "fmt_percent mem pf (''%s'' @ c) s = Inr (grown s u rest, length ''%s'')"
    using a StrArg u(1) by (simp add: fmt_percent_def cat_cur_def grown_def)
  from vfmt_conv [OF _ _ this] show ?thesis using u StrArg by auto
next
  case (BinArg b n)
  obtain u where u: "(if n > 0 then sdscatlen mem (f_cur s) (take n b) else Some (f_cur s)) = Some u"
    "sds_inv u" "sds_text u = sds_text (f_cur s) @ take n b"
    using cat_total [OF h i] f BinArg i by (cases "n = 0") fastforce+
  have "fmt_percent mem pf (''%b'' @ c) s = Inr (grown s u rest, length ''%b'')"
    using a BinArg u(1) p by (simp add: fmt_percent_def cat_cur_def grown_def)
  from vfmt_conv [OF _ _ this] show ?thesis using u BinArg by auto
next
  case Percent
  obtain u where u: "sdscatlen mem (f_cur s) ''%'' = Some u" "sds_inv u" "sds_text u = sds_text (f_cur s) @ ''%''"
    using cat_total [OF h i] f Percent by fastforce
  have "fmt_percent mem pf (''%%'' @ c) s = Inr (grown s u rest, length ''%%'')"
    using a Percent u(1) by (simp add: fmt_percent_def cat_cur_def grown_def sdscat_def cstr_def)
  from vfmt_conv [OF _ _ this] show ?thesis using u Percent by auto
qed

lemma vfmt_word:
  assumes h: "good_heap mem" "ample mem"
  shows "w \<noteq> [] \<Longrightarrow> \<forall>p\<in>set w. piece_ok p \<Longrightarrow> sds_inv (f_cur s) \<Longrightarrow>
    fits_int (f_cur s) (length (word_text w)) \<Longrightarrow> f_args s = concat (map piece_args w) @ rest \<Longrightarrow>
    \<exists>u. vfmt_loop mem pf (concat (map piece_fmt w) @ c) s = vfmt_loop mem pf c (grown s u rest)
      \<and> sds_inv u \<and> sds_text u = sds_text (f_cur s) @ word_text w"
proof (induction w arbitrary: s)
  case (Cons p w)
  let ?r = "concat (map piece_args w) @ rest" and ?c = "concat (map piece_fmt w) @ c"
  have "fits_int (f_cur s) (length (piece_text p))"
    using Cons.prems(4) by (rule fits_int_less) (simp add: word_text_def)
  from vfmt_piece [OF h _ Cons.prems(3) this, of ?r pf ?c] Cons.prems(2,5)
  obtain u where u: "vfmt_loop mem pf (piece_fmt p @ ?c) s = vfmt_loop mem pf ?c (grown s u ?r)"
    "sds_inv u" "sds_text u = sds_text (f_cur s) @ piece_text p" by auto
  show ?case
  proof (cases "w = []")
    case True
    then show ?thesis using u by (auto simp: word_text_def)
  next
    case False
    have "fits_int (f_cur (grown s u ?r)) (length (word_text w))"
      using Cons.prems(4) by (rule fits_int_less) (simp add: grown_def u(3) word_text_def)
    from Cons.IH [OF False _ _ this] Cons.prems(2) u(2) obtain v where
      v: "vfmt_loop mem pf ?c (grown s u ?r) = vfmt_loop mem pf c (grown (grown s u ?r) v rest)"
        "sds_inv v" "sds_text v = (sds_text (f_cur s) @ piece_text p) @ word_text w"
      by (auto simp: grown_def u(3))
    then show ?thesis using u(1) by (auto simp: grown_def word_text_def)
  qed
qed simp


text \<open>The end of the builder: the last argument is stored if it was touched.\<close>

definition last_push :: "heap \<Rightarrow> fmt_state \<Rightarrow> fmt_state option" where
  "last_push mem s = (if f_touched s then push_arg mem s else Some s)"

lemma push_arg_text:
  assumes "ample mem" "sds_inv (f_cur s)" "f_totlen s = int n" "n + length (bulk (sds_text (f_cur s))) < 2 ^ 31"
  shows "\<exists>u. push_arg mem s = Some u \<and> f_argv u = f_argv s @ [f_cur s]
    \<and> f_totlen u = int (n + length (bulk (sds_text (f_cur s)))) \<and> f_args u = f_args s"
proof -
  have "wrap_int (f_totlen s + int (bulklen (sdslen (f_cur s)))) = int (n + length (bulk (sds_text (f_cur s))))"
    using assms(3,4) sds_inv_len(2) [OF assms(2)] by (subst wrap_int_small) (simp_all add: bulklen_bulk)
  then show ?thesis using assms(1) by (simp add: push_arg_def ample_def)
qed

definition fmt_ok :: "fmt_state \<Rightarrow> bool" where
  "fmt_ok s \<longleftrightarrow> sds_inv (f_cur s) \<and> (\<forall>a\<in>set (f_argv s). sds_inv a)"

definition bulks :: "bytes list \<Rightarrow> nat" where
  "bulks as = length (concat (map bulk as))"

lemma bulks_Cons: "bulks (a # as) = length (bulk a) + bulks as" "bulks [] = 0"
  by (simp_all add: bulks_def)

lemma length_less_bulk: "length a + 1 \<le> length (bulk a)"
  using length_bulk [of a] by simp

lemma vfmt_words:
  assumes h: "good_heap mem" "ample mem"
  shows "ws \<noteq> [] \<Longrightarrow> \<forall>w\<in>set ws. word_ok w \<Longrightarrow> fmt_ok s \<Longrightarrow> sds_text (f_cur s) = [] \<Longrightarrow> \<not> f_touched s \<Longrightarrow>
    f_args s = template_args ws \<Longrightarrow> f_totlen s = int n \<Longrightarrow>
    n + bulks (map word_text ws) + SDS_MAX_PREALLOC < 2 ^ 31 \<Longrightarrow>
    \<exists>t u. vfmt_loop mem pf (template ws) s = Inr t \<and> last_push mem t = Some u
      \<and> map sds_text (f_argv u) = map sds_text (f_argv s) @ map word_text ws
      \<and> (\<forall>a\<in>set (f_argv u). sds_inv a) \<and> f_totlen u = int (n + bulks (map word_text ws))"
proof (induction ws arbitrary: s n)
  case Nil
  then show ?case by simp
next
  case (Cons w ws)
  let ?b = "length (bulk (word_text w))"
  have w: "w \<noteq> []" "\<forall>p\<in>set w. piece_ok p" and i: "sds_inv (f_cur s)"
    using Cons.prems(2,3) by (simp_all add: word_ok_def fmt_ok_def)
  have small: "n + ?b < 2 ^ 31" using Cons.prems(8) by (simp add: bulks_Cons)
  have f: "fits_int (f_cur s) (length (word_text w))"
    using Cons.prems(4,8) length_less_bulk [of "word_text w"] by (simp add: fits_int_def bulks_Cons)
  have a: "f_args s = concat (map piece_args w) @ template_args ws"
    using Cons.prems(6) by (simp add: template_args_def)
  define c where "c = (if ws = [] then [] else CHR '' '' # template ws)"
  have tm: "template (w # ws) = concat (map piece_fmt w) @ c"
    by (cases ws) (simp_all add: c_def template_def)
  obtain u where u: "vfmt_loop mem pf (template (w # ws)) s = vfmt_loop mem pf c (grown s u (template_args ws))"
    "sds_inv u" "sds_text u = word_text w"
    using vfmt_word [OF h w i f a, of pf c] Cons.prems(4) by (auto simp: tm)
  let ?g = "grown s u (template_args ws)"
  obtain p where p: "push_arg mem ?g = Some p" "f_argv p = f_argv s @ [u]" "f_totlen p = int (n + ?b)"
    "f_args p = template_args ws"
    using push_arg_text [OF h(2), of ?g n] u(2,3) Cons.prems(7) small by (auto simp: grown_def)
  show ?case
  proof (cases "ws = []")
    case True
    have "vfmt_loop mem pf [] ?g = Inr ?g" by (subst vfmt_loop.simps) simp
    then have "vfmt_loop mem pf (template (w # ws)) s = Inr ?g" using u(1) True by (simp add: c_def)
    moreover have "last_push mem ?g = Some p" using p(1) by (simp add: last_push_def grown_def)
    moreover have "\<forall>a\<in>set (f_argv p). sds_inv a" using p(2) u(2) Cons.prems(3) by (auto simp: fmt_ok_def)
    ultimately show ?thesis using True p(2,3) u(3) by (auto simp: bulks_Cons)
  next
    case False
    obtain e where e: "sdsempty mem = Some e" using sdsempty_total [OF h(2)] by auto
    note e' = sdsempty_text [OF h(1) e]
    let ?s = "p\<lparr>f_cur := e, f_touched := False\<rparr>"
    have "vfmt_loop mem pf c ?g = vfmt_loop mem pf (template ws) ?s"
      using False p(1) e by (subst vfmt_loop.simps) (simp add: c_def fmt_plain_def grown_def)
    then have step: "vfmt_loop mem pf (template (w # ws)) s = vfmt_loop mem pf (template ws) ?s" using u(1) by simp
    have ok: "fmt_ok ?s" using p(2) u(2) Cons.prems(3) e' by (auto simp: fmt_ok_def)
    have "\<exists>t u'. vfmt_loop mem pf (template ws) ?s = Inr t \<and> last_push mem t = Some u'
      \<and> map sds_text (f_argv u') = map sds_text (f_argv ?s) @ map word_text ws
      \<and> (\<forall>a\<in>set (f_argv u'). sds_inv a) \<and> f_totlen u' = int (n + ?b + bulks (map word_text ws))"
      using Cons.prems(2,8) e' p(3,4) by (intro Cons.IH [OF False _ ok]) (auto simp: bulks_Cons)
    then show ?thesis unfolding step using p(2) u(3) by (auto simp: bulks_Cons add.assoc)
  qed
qed

lemma vformat_template:
  assumes h: "good_heap mem" "ample mem" and w: "ws \<noteq> []" "\<forall>w\<in>set ws. word_ok w"
    and n: "length (request (map word_text ws)) + 1 + SDS_MAX_PREALLOC < 2 ^ 31"
  shows "redisvFormatCommand mem pf True (template ws) (template_args ws)
    = Some (int (length (request (map word_text ws))), Some (request (map word_text ws) @ [NUL]))"
proof -
  let ?args = "map word_text ws" let ?n = "length (request (map word_text ws))"
  obtain e where e: "sdsempty mem = Some e" using sdsempty_total [OF h(2)] by auto
  note e' = sdsempty_text [OF h(1) e]
  let ?s = "\<lparr>f_cur = e, f_argv = [], f_touched = False, f_args = template_args ws, f_totlen = 0\<rparr>"
  have len: "?n = 1 + countDigits (length ?args) + 2 + bulks ?args"
    by (simp add: length_request bulks_def)
  have "\<exists>t u. vfmt_loop mem pf (template ws) ?s = Inr t \<and> last_push mem t = Some u
      \<and> map sds_text (f_argv u) = map sds_text (f_argv ?s) @ ?args
      \<and> (\<forall>a\<in>set (f_argv u). sds_inv a) \<and> f_totlen u = int (0 + bulks ?args)"
    using n len e' w by (intro vfmt_words [OF h w(1,2)]) (auto simp: fmt_ok_def)
  then obtain t u where u: "vfmt_loop mem pf (template ws) ?s = Inr t" "last_push mem t = Some u"
    "map sds_text (f_argv u) = ?args" "\<forall>a\<in>set (f_argv u). sds_inv a" "f_totlen u = int (bulks ?args)" by auto
  have "map (\<lambda>a. take (sdslen a) (s_buf a)) (f_argv u) = map sds_text (f_argv u)"
    using u(4) sds_inv_len(1,2) by (auto simp: sds_text_def)
  then have args: "map (\<lambda>a. take (sdslen a) (s_buf a)) (f_argv u) = ?args" using u(3) by simp
  have tot: "wrap_int (f_totlen u + int (1 + countDigits (length ?args) + 2)) = int ?n"
    using n len u(5) by (subst wrap_int_small) simp_all
  obtain cells where c: "malloc mem (?n + 1) = Some cells"
    using h(2) by (fastforce simp: malloc_def ample_def)
  have sz: "to_size (int ?n + 1) = ?n + 1" by (simp add: to_size_def nat_add_distrib)
  have "build_command cells ?args ?n = Some (request ?args @ [NUL])"
    using build_command_request length_malloc [OF c] by simp
  then show ?thesis
    using e u(1,2) c tot sz
    by (simp add: redisvFormatCommand_def last_push_def [symmetric] args Let_def add.commute del: length_map)
qed


section \<open>Templates that are not meant as such\<close>

text \<open>
  A conversion that is cut off by the end of the template consumes an \<open>int\<close> and moves past
  the terminator; \<open>%s\<close> with no argument left takes one that was never passed.
\<close>

lemma vfmt_unfinished:
  "f_args s = VInt i # r \<Longrightarrow> good_heap mem \<Longrightarrow> ample mem \<Longrightarrow>
   vfmt_loop mem pf ''%-'' s = Inl Fmt_undefined"
  using sdscatvprintf_total [of mem "f_cur s" "pf ''%-'' (VInt i)"]
  by (subst vfmt_loop.simps)
    (auto simp: fmt_percent_def scan_conv_def scan_flags_def cat_cur_def Let_def)

lemma vfmt_missing: "f_args s = [] \<Longrightarrow> vfmt_loop mem pf (''%s'' @ c) s = Inl Fmt_undefined"
  by (subst vfmt_loop.simps) (simp add: fmt_percent_def)

end
