(* ===== verification/Crc16.thy ===== *)
theory Crc16
  imports Prelude
begin

text \<open>
  The CRC of \<open>crc16.c\<close> (CCITT polynomial 0x1021, the XMODEM variant) and the hash slot of a
  key (\<open>keyHashSlot\<close> of \<open>hircluster.c\<close>). The table-driven checksum is proved equal to the
  bit-by-bit division by the polynomial, and the slot function is shown to stay below
  16384 and to hash the tag between braces only.
\<close>

section \<open>The table-driven checksum\<close>

definition crc16tab :: "u16 list" where
  "crc16tab = [
    0x0000, 0x1021, 0x2042, 0x3063, 0x4084, 0x50a5, 0x60c6, 0x70e7,
    0x8108, 0x9129, 0xa14a, 0xb16b, 0xc18c, 0xd1ad, 0xe1ce, 0xf1ef,
    0x1231, 0x0210, 0x3273, 0x2252, 0x52b5, 0x4294, 0x72f7, 0x62d6,
    0x9339, 0x8318, 0xb37b, 0xa35a, 0xd3bd, 0xc39c, 0xf3ff, 0xe3de,
    0x2462, 0x3443, 0x0420, 0x1401, 0x64e6, 0x74c7, 0x44a4, 0x5485,
    0xa56a, 0xb54b, 0x8528, 0x9509, 0xe5ee, 0xf5cf, 0xc5ac, 0xd58d,
    0x3653, 0x2672, 0x1611, 0x0630, 0x76d7, 0x66f6, 0x5695, 0x46b4,
    0xb75b, 0xa77a, 0x9719, 0x8738, 0xf7df, 0xe7fe, 0xd79d, 0xc7bc,
    0x48c4, 0x58e5, 0x6886, 0x78a7, 0x0840, 0x1861, 0x2802, 0x3823,
    0xc9cc, 0xd9ed, 0xe98e, 0xf9af, 0x8948, 0x9969, 0xa90a, 0xb92b,
    0x5af5, 0x4ad4, 0x7ab7, 0x6a96, 0x1a71, 0x0a50, 0x3a33, 0x2a12,
    0xdbfd, 0xcbdc, 0xfbbf, 0xeb9e, 0x9b79, 0x8b58, 0xbb3b, 0xab1a,
    0x6ca6, 0x7c87, 0x4ce4, 0x5cc5, 0x2c22, 0x3c03, 0x0c60, 0x1c41,
    0xedae, 0xfd8f, 0xcdec, 0xddcd, 0xad2a, 0xbd0b, 0x8d68, 0x9d49,
    0x7e97, 0x6eb6, 0x5ed5, 0x4ef4, 0x3e13, 0x2e32, 0x1e51, 0x0e70,
    0xff9f, 0xefbe, 0xdfdd, 0xcffc, 0xbf1b, 0xaf3a, 0x9f59, 0x8f78,
    0x9188, 0x81a9, 0xb1ca, 0xa1eb, 0xd10c, 0xc12d, 0xf14e, 0xe16f,
    0x1080, 0x00a1, 0x30c2, 0x20e3, 0x5004, 0x4025, 0x7046, 0x6067,
    0x83b9, 0x9398, 0xa3fb, 0xb3da, 0xc33d, 0xd31c, 0xe37f, 0xf35e,
    0x02b1, 0x1290, 0x22f3, 0x32d2, 0x4235, 0x5214, 0x6277, 0x7256,
    0xb5ea, 0xa5cb, 0x95a8, 0x8589, 0xf56e, 0xe54f, 0xd52c, 0xc50d,
    0x34e2, 0x24c3, 0x14a0, 0x0481, 0x7466, 0x6447, 0x5424, 0x4405,
    0xa7db, 0xb7fa, 0x8799, 0x97b8, 0xe75f, 0xf77e, 0xc71d, 0xd73c,
    0x26d3, 0x36f2, 0x0691, 0x16b0, 0x6657, 0x7676, 0x4615, 0x5634,
    0xd94c, 0xc96d, 0xf90e, 0xe92f, 0x99c8, 0x89e9, 0xb98a, 0xa9ab,
    0x5844, 0x4865, 0x7806, 0x6827, 0x18c0, 0x08e1, 0x3882, 0x28a3,
    0xcb7d, 0xdb5c, 0xeb3f, 0xfb1e, 0x8bf9, 0x9bd8, 0xabbb, 0xbb9a,
    0x4a75, 0x5a54, 0x6a37, 0x7a16, 0x0af1, 0x1ad0, 0x2ab3, 0x3a92,
    0xfd2e, 0xed0f, 0xdd6c, 0xcd4d, 0xbdaa, 0xad8b, 0x9de8, 0x8dc9,
    0x7c26, 0x6c07, 0x5c64, 0x4c45, 0x3ca2, 0x2c83, 0x1ce0, 0x0cc1,
    0xef1f, 0xff3e, 0xcf5d, 0xdf7c, 0xaf9b, 0xbfba, 0x8fd9, 0x9ff8,
    0x6e17, 0x7e36, 0x4e55, 0x5e74, 0x2e93, 0x3eb2, 0x0ed1, 0x1ef0]"

text \<open>
  One turn of the loop. The character is a signed \<open>char\<close> promoted to \<open>int\<close>, the 16-bit
  register is promoted to \<open>int\<close> too, and the assignment truncates to 16 bits again.
\<close>

definition char_byte :: "char \<Rightarrow> u8" where
  "char_byte c = word_of_nat (of_char c)"

definition crc16_step :: "u16 \<Rightarrow> char \<Rightarrow> u16" where
  "crc16_step crc c =
     (let i = (drop_bit 8 (ucast crc :: u32) XOR (scast (char_byte c) :: u32)) AND 0x00FF
      in ucast (push_bit 8 (ucast crc :: u32) XOR ucast (crc16tab ! unat i)))"

definition crc16 :: "bytes \<Rightarrow> nat \<Rightarrow> u16" where
  "crc16 buf len = foldl crc16_step 0 (take len buf)"

section \<open>The reference: division by the polynomial, one bit at a time\<close>

definition crc_bit :: "u16 \<Rightarrow> u16" where
  "crc_bit r = (if bit r 15 then push_bit 1 r XOR 0x1021 else push_bit 1 r)"

definition crc_byte :: "u16 \<Rightarrow> u8 \<Rightarrow> u16" where
  "crc_byte r b = (crc_bit ^^ 8) (r XOR push_bit 8 (ucast b))"

definition crc_xmodem :: "u8 list \<Rightarrow> u16" where
  "crc_xmodem bs = foldl crc_byte 0 bs"

lemma crc_bit_xor: "crc_bit (a XOR b) = crc_bit a XOR crc_bit b"
  by (rule bit_eqI) (auto simp: crc_bit_def bit_simps)

lemma crc_bit_funpow_xor: "(crc_bit ^^ n) (a XOR b) = (crc_bit ^^ n) a XOR (crc_bit ^^ n) b"
  by (induction n) (simp_all add: crc_bit_xor)

text \<open>The table entry for a byte is eight division steps on that byte in the high half.\<close>

definition crc_high :: "u16 \<Rightarrow> u16" where
  "crc_high x = (crc_bit ^^ 8) (push_bit 8 x)"

lemma crc_bit_funpow8:
  "(crc_bit ^^ 8) x = crc_bit (crc_bit (crc_bit (crc_bit (crc_bit (crc_bit (crc_bit (crc_bit x)))))))"
  by (simp add: numeral_eq_Suc)

lemma upt_from_0: "[0..<256] = 0 # 1 # [2..<256]"
  by (simp add: upt_rec [of 0] upt_rec [of "Suc 0"] numeral_2_eq_2)

lemma crc16tab_map: "crc16tab = map crc_high (map word_of_nat [0..<256])"
  by (simp add: crc16tab_def crc_high_def crc_bit_funpow8 crc_bit_def upt_from_0)

lemma length_crc16tab [simp]: "length crc16tab = 256"
  by (simp only: crc16tab_map length_map length_upt)

lemma crc16tab_nth: "i < 256 \<Longrightarrow> crc16tab ! i = crc_high (word_of_nat i)"
  by (simp only: crc16tab_map nth_map length_map length_upt) simp

text \<open>A register whose high byte is empty is only shifted.\<close>

lemma crc_bit_funpow_low:
  assumes "\<And>k. 16 \<le> k + n \<Longrightarrow> \<not> bit r k"
  shows "(crc_bit ^^ n) r = push_bit n r"
  using assms
proof (induction n arbitrary: r)
  case 0
  then show ?case by simp
next
  case (Suc n)
  have "\<not> bit r 15" using Suc.prems [of 15] by simp
  then have one: "crc_bit r = push_bit 1 r" by (simp add: crc_bit_def)
  have "(crc_bit ^^ n) (push_bit 1 r) = push_bit n (push_bit 1 r)"
  proof (rule Suc.IH)
    fix k assume "16 \<le> k + n"
    then show "\<not> bit (push_bit 1 r) k"
      using Suc.prems [of "k - 1"] unfolding bit_push_bit_iff by simp
  qed
  also have "push_bit n (push_bit 1 r) = push_bit (Suc n) r"
    by (simp only: push_bit_push_bit) simp
  finally show ?case by (simp only: funpow_Suc_right comp_apply one)
qed

lemma crc_register_split:
  "r XOR push_bit 8 (ucast b) = push_bit 8 (drop_bit 8 r XOR ucast b) XOR take_bit 8 r"
  for r :: u16 and b :: u8
  by (rule bit_eqI) (auto simp: bit_simps)

lemma crc_index:
  fixes r :: u16 and b :: u8
  shows "word_of_nat (unat ((drop_bit 8 (ucast r :: u32) XOR (scast b :: u32)) AND 0x00FF))
       = drop_bit 8 r XOR (ucast b :: u16)"
    and "unat ((drop_bit 8 (ucast r :: u32) XOR (scast b :: u32)) AND 0x00FF) < 256"
proof -
  let ?i = "(drop_bit 8 (ucast r :: u32) XOR (scast b :: u32)) AND 0x00FF"
  have m: "(0x00FF :: u32) = mask 8" by (simp add: mask_eq_exp_minus_1)
  have "word_of_nat (unat ?i) = (ucast ?i :: u16)"
    by (rule of_nat_unat)
  also have "(ucast ?i :: u16) = drop_bit 8 r XOR (ucast b :: u16)"
    unfolding m
  proof (rule bit_eqI)
    fix n
    show "bit (ucast ((drop_bit 8 (ucast r :: u32) XOR (scast b :: u32)) AND mask 8) :: u16) n
        \<longleftrightarrow> bit (drop_bit 8 r XOR (ucast b :: u16)) n"
    proof (cases "n < 8")
      case True
      then have "min 7 n = n" by simp
      with True show ?thesis by (auto simp: bit_simps)
    next
      case False
      then show ?thesis by (auto simp: bit_simps dest: bit_imp_le_length)
    qed
  qed
  finally show "word_of_nat (unat ?i) = drop_bit 8 r XOR (ucast b :: u16)" .
  have "?i \<le> 0xFF" by (rule word_and_le1)
  then have "unat ?i \<le> unat (0xFF :: u32)" by (simp only: word_le_nat_alt)
  then show "unat ?i < 256" by simp
qed

lemma crc16_step_is_division: "crc16_step r c = crc_byte r (char_byte c)"
proof -
  let ?b = "char_byte c"
  let ?i = "(drop_bit 8 (ucast r :: u32) XOR (scast ?b :: u32)) AND 0x00FF"
  have low: "(crc_bit ^^ 8) (take_bit 8 r) = push_bit 8 (take_bit 8 r)"
    by (rule crc_bit_funpow_low) (auto simp: bit_simps)
  have "crc_byte r ?b = crc_high (drop_bit 8 r XOR ucast ?b) XOR push_bit 8 (take_bit 8 r)"
    unfolding crc_byte_def crc_register_split crc_bit_funpow_xor crc_high_def low ..
  moreover have "crc16tab ! unat ?i = crc_high (drop_bit 8 r XOR ucast ?b)"
    using crc16tab_nth [OF crc_index(2) [of r ?b]] crc_index(1) [of r ?b] by simp
  moreover have "(ucast (push_bit 8 (ucast r :: u32) XOR ucast t) :: u16)
      = t XOR push_bit 8 (take_bit 8 r)" for t
    by (rule bit_eqI) (auto simp: bit_simps)
  ultimately show ?thesis by (simp add: crc16_step_def Let_def)
qed

lemma crc16_is_xmodem: "crc16 buf len = crc_xmodem (map char_byte (take len buf))"
proof -
  have "crc16_step = (\<lambda>r c. crc_byte r (char_byte c))"
    by (rule ext, rule ext) (rule crc16_step_is_division)
  then show ?thesis by (simp add: crc16_def crc_xmodem_def foldl_map)
qed

section \<open>The hash slot of a key\<close>

text \<open>
  \<open>for (s = i; s < n; s++) if (key[s] == c) break;\<close>: the index of the first \<open>c\<close> at or after
  \<open>i\<close>, or \<open>n\<close>.
\<close>

function scan_for :: "char \<Rightarrow> bytes \<Rightarrow> nat \<Rightarrow> nat \<Rightarrow> nat" where
  "scan_for c key n i = (if i < n then if key ! i = c then i else scan_for c key n (Suc i) else i)"
  by pat_completeness auto
termination
  by (relation "measure (\<lambda>(c, key, n, i). n - i)") auto

declare scan_for.simps [simp del]

definition keyHashSlot :: "bytes \<Rightarrow> nat \<Rightarrow> u32" where
  "keyHashSlot key keylen =
     (let s = scan_for (CHR ''{'') key keylen 0
      in if s = keylen then ucast (crc16 key keylen) AND 0x3FFF
         else let e = scan_for (CHR ''}'') key keylen (s + 1)
              in if e = keylen \<or> e = s + 1 then ucast (crc16 key keylen) AND 0x3FFF
                 else ucast (crc16 (drop (s + 1) key) (e - s - 1)) AND 0x3FFF)"

lemma scan_for_miss:
  "(\<And>j. i \<le> j \<Longrightarrow> j < n \<Longrightarrow> key ! j \<noteq> c) \<Longrightarrow> i \<le> n \<Longrightarrow> scan_for c key n i = n"
proof (induction c key n i rule: scan_for.induct)
  case (1 c key n i)
  then show ?case by (subst scan_for.simps) auto
qed

lemma scan_for_hit:
  "i \<le> k \<Longrightarrow> k < n \<Longrightarrow> key ! k = c \<Longrightarrow> (\<And>j. i \<le> j \<Longrightarrow> j < k \<Longrightarrow> key ! j \<noteq> c)
   \<Longrightarrow> scan_for c key n i = k"
proof (induction c key n i rule: scan_for.induct)
  case (1 c key n i)
  then show ?case
    by (cases "i = k") (subst scan_for.simps, auto)+
qed

lemma keyHashSlot_bound: "unat (keyHashSlot key n) < 16384"
proof -
  have "unat (x AND 0x3FFF) < 16384" for x :: u32
  proof -
    have "x AND 0x3FFF \<le> 0x3FFF" by (rule word_and_le1)
    then have "unat (x AND 0x3FFF) \<le> unat (0x3FFF :: u32)" by (simp only: word_le_nat_alt)
    then show ?thesis by simp
  qed
  then show ?thesis by (simp add: keyHashSlot_def Let_def)
qed

lemma scan_for_le: "i \<le> n \<Longrightarrow> scan_for c key n i \<le> n"
proof (induction c key n i rule: scan_for.induct)
  case (1 c key n i)
  then show ?case by (subst scan_for.simps) auto
qed

lemma scan_for_prefix: "n \<le> length a \<Longrightarrow> scan_for c (a @ b) n i = scan_for c a n i"
proof (induction c a n i rule: scan_for.induct)
  case (1 c a n i)
  then show ?case by (subst (1 2) scan_for.simps) (auto simp: nth_append)
qed

text \<open>The slot depends on the bytes of the key only.\<close>

lemma keyHashSlot_prefix: "keyHashSlot (a @ b) (length a) = keyHashSlot a (length a)"
proof -
  have c: "crc16 (drop i (a @ b)) (n - i) = crc16 (drop i a) (n - i)" if "n \<le> length a" for i n
    using that by (simp add: crc16_is_xmodem)
  have e: "scan_for x a (length a) (Suc i) \<le> length a" if "i < length a" for x i
    using that by (intro scan_for_le) simp
  have s: "scan_for x a (length a) 0 \<le> length a" for x by (intro scan_for_le) simp
  have whole: "crc16 (a @ b) (length a) = crc16 a (length a)" using c [of "length a" 0] by simp
  let ?s = "scan_for (CHR ''{'') a (length a) 0"
  show ?thesis
  proof (cases "?s = length a")
    case True
    then show ?thesis by (simp add: keyHashSlot_def scan_for_prefix whole)
  next
    case False
    then have "?s < length a" using s [of "CHR ''{''"] by simp
    from c [OF e [OF this], of "Suc ?s" "CHR ''}''"] show ?thesis
      by (simp add: keyHashSlot_def scan_for_prefix whole Let_def)
  qed
qed

lemma keyHashSlot_no_brace:
  assumes "CHR ''{'' \<notin> set key"
  shows "keyHashSlot key (length key) = ucast (crc16 key (length key)) AND 0x3FFF"
proof -
  have "scan_for (CHR ''{'') key (length key) 0 = length key"
    using assms by (intro scan_for_miss) (auto simp: in_set_conv_nth)
  then show ?thesis by (simp add: keyHashSlot_def)
qed

text \<open>Only the tag counts: the first brace pair, when it encloses something.\<close>

lemma keyHashSlot_tag:
  assumes "CHR ''{'' \<notin> set a" "CHR ''}'' \<notin> set t" "t \<noteq> []"
  shows "keyHashSlot (a @ ''{'' @ t @ ''}'' @ b) (length (a @ ''{'' @ t @ ''}'' @ b))
       = ucast (crc16 t (length t)) AND 0x3FFF"
proof -
  let ?k = "a @ ''{'' @ t @ ''}'' @ b"
  have s: "scan_for (CHR ''{'') ?k (length ?k) 0 = length a"
    using assms(1) by (intro scan_for_hit) (auto simp: nth_append in_set_conv_nth)
  have e: "scan_for (CHR ''}'') ?k (length ?k) (length a + 1) = length a + 1 + length t"
    using assms(2) by (intro scan_for_hit) (auto simp: nth_append nth_Cons' in_set_conv_nth)
  have "crc16 (drop (length a + 1) ?k) (length t) = crc16 t (length t)"
    by (simp add: crc16_def)
  then show ?thesis
    unfolding keyHashSlot_def Let_def s e using assms(3) by simp
qed

end
