(* ===== verification/Fragment.thy ===== *)
theory Fragment
  imports Format Crc16
begin

text \<open>
  How a command with many keys is split by key slot (\<open>hircluster.c\<close>,
  \<open>command_format_by_slot\<close> and \<open>command_pre_fragment\<close>).

  \<open>sub_commands[]\<close> is a map from slots to commands, and a pointer to a sub command
  (\<open>frag_seq[i]\<close>) is its slot. The keys of a sub command point into the buffer of the
  command that is split, as in the code. \<open>num_str\<close> is the twelve bytes of the local buffer,
  whatever they hold at the start. An outer \<open>None\<close> is an access outside a buffer.
\<close>

section \<open>State\<close>

definition REDIS_CLUSTER_SLOTS :: nat where "REDIS_CLUSTER_SLOTS = 16384"
definition CRLF_LEN :: nat where "CRLF_LEN = 2"

type_synonym cluster_error = "int \<times> bytes"

abbreviation out_of_memory :: cluster_error where
  "out_of_memory \<equiv> (5, ''Out of memory'')"

record frag =
  g_subs :: "nat \<Rightarrow> cmd option"
  g_seq :: "nat list"
  g_id :: u64

text \<open>The key of a position, as \<open>kp->start\<close> and \<open>(int) (kp->end - kp->start)\<close> give it to \<open>keyHashSlot\<close>.\<close>

definition slot_of :: "cmd \<Rightarrow> keypos \<Rightarrow> nat" where
  "slot_of command k =
     unat (keyHashSlot (drop (kp_start k) (c_cmd command)) (nat (to_int (kp_end k - kp_start k))))"

definition key_len :: "keypos \<Rightarrow> u32" where
  "key_len k = of_nat (kp_end k - kp_start k)"

text \<open>\<open>command_get\<close> with the sizes of the structs.\<close>

definition new_command :: "allocator \<Rightarrow> u64 \<Rightarrow> (cmd \<times> u64) option" where
  "new_command mem i = command_get mem 112 32 24 i"

section \<open>Sorting the keys by slot\<close>

text \<open>\<open>remain_len\<close> of an MSET key that ends at \<open>e\<close>: from there to the end of the value. The two
  loops that skip to the first digit are the same.\<close>

definition value_tail :: "bytes \<Rightarrow> nat \<Rightarrow> u32 option" where
  "value_tail buf e =
     (let s = drop (Suc e) buf;
          d = dropWhile (\<lambda>c. \<not> isdigit c) s;
          rest = dropWhile isdigit d
      in if rest = [] then None
         else Some (digits_word 0 (takeWhile isdigit d) + of_nat (CRLF_LEN * 2) + of_nat (Suc (length s - length rest))))"

definition add_key :: "allocator \<Rightarrow> cmd \<Rightarrow> keypos \<Rightarrow> frag \<Rightarrow> (int \<times> cluster_error + frag) option" where
  "add_key mem command k g =
     (let slot = slot_of command k
      in if slot \<ge> REDIS_CLUSTER_SLOTS then Some (Inl (int slot, 2, ''keyHashSlot return error''))
         else case (case g_subs g slot of Some sub \<Rightarrow> Some (sub, g_id g) | None \<Rightarrow> new_command mem (g_id g)) of
                None \<Rightarrow> Some (Inl (-1, out_of_memory))
              | Some (sub, i) \<Rightarrow>
                  (case (if c_type command = CMD_REQ_REDIS_MSET
                         then map_option Some (value_tail (c_cmd command) (kp_end k)) else Some None) of
                     None \<Rightarrow> if hiarray_push mem (c_keys sub) = None then Some (Inl (-1, out_of_memory)) else None
                   | Some remain \<Rightarrow>
                       (case hiarray_push_value mem (c_keys sub)
                               \<lparr>kp_start = kp_start k, kp_end = kp_end k, kp_remain_len = remain\<rparr> of
                          None \<Rightarrow> Some (Inl (-1, out_of_memory))
                        | Some ks \<Rightarrow>
                            Some (Inr (g\<lparr>g_seq := g_seq g @ [slot], g_id := i,
                              g_subs := (g_subs g)(slot \<mapsto>
                                sub\<lparr>c_narg := c_narg sub + 1, c_keys := ks,
                                    c_clen := c_clen sub + (key_len k + of_nat (uint_len (key_len k)))
                                      + (case remain of None \<Rightarrow> 0 | Some l \<Rightarrow> l),
                                    c_slot_num := int slot\<rparr>)\<rparr>)))))"

fun add_keys :: "allocator \<Rightarrow> cmd \<Rightarrow> keypos list \<Rightarrow> frag \<Rightarrow> (int \<times> cluster_error + frag) option" where
  "add_keys mem command [] g = Some (Inr g)"
| "add_keys mem command (k # ks) g =
     (case add_key mem command k g of
        Some (Inr g') \<Rightarrow> add_keys mem command ks g'
      | res \<Rightarrow> res)"

section \<open>Writing the sub commands\<close>

definition name_header :: "cmd_type \<Rightarrow> bytes" where
  "name_header ty =
     (if ty = CMD_REQ_REDIS_MGET then CRLF @ ''$4'' @ CRLF @ ''mget'' @ CRLF
      else if ty = CMD_REQ_REDIS_DEL then CRLF @ ''$3'' @ CRLF @ ''del'' @ CRLF
      else CRLF @ ''$4'' @ CRLF @ ''mset'' @ CRLF)"

text \<open>What is copied from the original buffer for one key: the key, and for MSET what follows it.\<close>

definition copied :: "cmd_type \<Rightarrow> bytes \<Rightarrow> keypos \<Rightarrow> bytes option" where
  "copied ty src k =
     (let n = unat (key_len k + (if ty = CMD_REQ_REDIS_MSET then (case kp_remain_len k of None \<Rightarrow> 0 | Some l \<Rightarrow> l) else 0))
      in if kp_start k + n \<le> length src
         then Some (take n (drop (kp_start k) src) @ (if ty = CMD_REQ_REDIS_MSET then [] else CRLF)) else None)"

text \<open>The state is the buffer of the sub command, \<open>idx\<close> and \<open>num_str\<close>.\<close>

definition write_key :: "cmd_type \<Rightarrow> bytes \<Rightarrow> keypos \<Rightarrow> bytes \<times> nat \<times> bytes \<Rightarrow> (bytes \<times> nat \<times> bytes) option" where
  "write_key ty src k s =
     (case s of (buf, idx, num_str) \<Rightarrow>
        let num' = hi_itoa num_str (sint (key_len k))
        in if NUL \<notin> set num' then None
           else case copied ty src k of
                  None \<Rightarrow> None
                | Some t \<Rightarrow>
                    let piece = CHR ''$'' # cstr num' @ CRLF @ t
                    in map_option (\<lambda>b. (b, idx + length piece, num')) (write_at idx piece buf))"

fun write_keys :: "cmd_type \<Rightarrow> bytes \<Rightarrow> keypos list \<Rightarrow> bytes \<times> nat \<times> bytes \<Rightarrow> (bytes \<times> nat \<times> bytes) option" where
  "write_keys ty src [] s = Some s"
| "write_keys ty src (k # ks) s =
     (case write_key ty src k s of None \<Rightarrow> None | Some s' \<Rightarrow> write_keys ty src ks s')"

definition build_sub ::
    "allocator \<Rightarrow> cmd_type \<Rightarrow> bytes \<Rightarrow> bytes \<Rightarrow> cmd \<Rightarrow> (cluster_error + cmd \<times> bytes) option" where
  "build_sub mem ty src num_str sub =
     (if ty \<notin> {CMD_REQ_REDIS_MGET, CMD_REQ_REDIS_DEL, CMD_REQ_REDIS_MSET} then Some (Inr (sub\<lparr>c_type := ty\<rparr>, num_str))
      else let per = (if ty = CMD_REQ_REDIS_MSET then 3 else 5);
          narg = (if ty = CMD_REQ_REDIS_MSET then c_narg sub * 2 + 1 else c_narg sub + 1);
          num' = hi_itoa num_str (sint narg)
      in if NUL \<notin> set num' then None
         else
           let n = length (cstr num');
               clen = c_clen sub + per * c_narg sub + (of_nat (length (name_header ty) + 1) + of_nat n);
               sub' = sub\<lparr>c_narg := narg, c_clen := clen\<rparr>;
               head = CHR ''*'' # cstr num' @ name_header ty
           in if \<not> mem (unat clen) then Some (Inl out_of_memory)
              else case write_at 0 head (replicate (unat clen) NUL) of
                     None \<Rightarrow> None
                   | Some b \<Rightarrow>
                       (case write_keys ty src (map (\<lambda>j. the (hiarray_get (c_keys sub) (of_nat j))) [0..<unat (hiarray_n (c_keys sub))])
                               (b, length head, num') of
                          None \<Rightarrow> None
                        | Some (b', idx, num'') \<Rightarrow> Some (Inr (sub'\<lparr>c_cmd := b', c_type := ty\<rparr>, num''))))"

text \<open>The loop over the slots; the result is the list of sub commands so far, with the error
  that ended it. A list node that cannot be allocated is skipped: the code does not look at
  the result of \<open>listAddNodeTail\<close>.\<close>

fun build_subs ::
    "allocator \<Rightarrow> cmd_type \<Rightarrow> bytes \<Rightarrow> (nat \<Rightarrow> cmd option) \<Rightarrow> nat list \<Rightarrow> bytes \<Rightarrow> (cmd list \<times> cluster_error option) option" where
  "build_subs mem ty src subs [] num_str = Some ([], None)"
| "build_subs mem ty src subs (i # is) num_str =
     (case subs i of
        None \<Rightarrow> build_subs mem ty src subs is num_str
      | Some sub \<Rightarrow>
          (case build_sub mem ty src num_str sub of
             None \<Rightarrow> None
           | Some (Inl e) \<Rightarrow> Some ([], Some e)
           | Some (Inr (c, num')) \<Rightarrow>
               map_option (\<lambda>(cs, e). (if mem 24 then c # cs else cs, e)) (build_subs mem ty src subs is num')))"

section \<open>The two functions\<close>

text \<open>After an error \<open>sp_seq\<close> only says whether \<open>frag_seq\<close> was allocated; its entries are not read.\<close>

record split =
  sp_slot :: int
  sp_error :: "cluster_error option"
  sp_command :: cmd
  sp_seq :: "nat list option"
  sp_commands :: "cmd list"

text \<open>The end of \<open>command_pre_fragment\<close>: with a single sub command the command is sent as it is.\<close>

definition settle :: "split \<Rightarrow> split" where
  "settle s =
     (if sp_slot s \<ge> 0 \<and> length (sp_commands s) = 1
      then s\<lparr>sp_commands := [], sp_seq := None, sp_command := (sp_command s)\<lparr>c_slot_num := sp_slot s\<rparr>\<rparr>
      else s)"

definition command_pre_fragment :: "allocator \<Rightarrow> bytes \<Rightarrow> u64 \<Rightarrow> cmd \<Rightarrow> split option" where
  "command_pre_fragment mem num_str cmd_id command =
     (let key_count = unat (hiarray_n (c_keys command));
          ks = map (\<lambda>j. the (hiarray_get (c_keys command) (of_nat j))) [0..<key_count];
          failed = (\<lambda>slot e sq. \<lparr>sp_slot = slot, sp_error = Some e, sp_command = command, sp_seq = sq, sp_commands = []\<rparr>)
      in if \<not> mem (REDIS_CLUSTER_SLOTS * 8) then Some (failed (-1) out_of_memory None)
         else if \<not> mem (key_count * 8) then Some (failed (-1) out_of_memory None)
         else case add_keys mem command ks \<lparr>g_subs = \<lambda>_. None, g_seq = [], g_id = cmd_id\<rparr> of
                None \<Rightarrow> None
              | Some (Inl (slot, e)) \<Rightarrow> Some (failed slot e (Some []))
              | Some (Inr g) \<Rightarrow>
                  (case build_subs mem (c_type command) (c_cmd command) (g_subs g) [0..<REDIS_CLUSTER_SLOTS] num_str of
                     None \<Rightarrow> None
                   | Some (cs, e) \<Rightarrow>
                       Some (settle \<lparr>sp_slot = (if e = None \<and> g_seq g \<noteq> [] then int (last (g_seq g)) else -1), sp_error = e,
                         sp_command = command, sp_seq = Some (g_seq g), sp_commands = cs\<rparr>)))"

definition command_format_by_slot :: "allocator \<Rightarrow> bytes \<Rightarrow> u64 \<Rightarrow> cmd \<Rightarrow> split option" where
  "command_format_by_slot mem num_str cmd_id command =
     (let failed = (\<lambda>c e. \<lparr>sp_slot = -1, sp_error = e, sp_command = c, sp_seq = None, sp_commands = []\<rparr>)
      in if c_cmd command = [] \<or> c_clen command = 0 then Some (failed command None)
         else case redis_parse_cmd mem command of
                None \<Rightarrow> None
              | Some c \<Rightarrow>
                  if c_result c = CMD_PARSE_ENOMEM then Some (failed c (Some (4, ''Parse command error: out of memory'')))
                  else if c_result c \<noteq> CMD_PARSE_OK then
                    (case c_errstr c of None \<Rightarrow> None | Some t \<Rightarrow> Some (failed c (Some (4, t))))
                  else if sint (hiarray_n (c_keys c)) \<le> 0 then
                    Some (failed c (Some (2, ''No keys in command(must have keys for redis cluster mode)'')))
                  else if hiarray_n (c_keys c) = 1 then
                    let slot = int (slot_of c (the (hiarray_get (c_keys c) 0)))
                    in Some \<lparr>sp_slot = slot, sp_error = None, sp_command = c\<lparr>c_slot_num := slot\<rparr>, sp_seq = None, sp_commands = []\<rparr>
                  else command_pre_fragment mem num_str cmd_id c)"

end
