(* ===== verification/FragmentSpec.thy ===== *)
theory FragmentSpec
  imports Fragment
begin

text \<open>
  What the splitting of a command gives: for every slot that occurs, one sub command whose
  buffer is the request made of the arguments of that slot, in their order.
\<close>

section \<open>Collecting the keys of a slot\<close>

definition key_weight :: "keypos \<Rightarrow> u32" where
  "key_weight k = key_len k + of_nat (uint_len (key_len k)) + (case kp_remain_len k of None \<Rightarrow> 0 | Some l \<Rightarrow> l)"

definition with_tail :: "cmd \<Rightarrow> keypos \<Rightarrow> keypos" where
  "with_tail command k = \<lparr>kp_start = kp_start k, kp_end = kp_end k,
     kp_remain_len = (if c_type command = CMD_REQ_REDIS_MSET then value_tail (c_cmd command) (kp_end k) else None)\<rparr>"

definition sub_ok :: "nat \<Rightarrow> keypos list \<Rightarrow> cmd option \<Rightarrow> bool" where
  "sub_ok s K c =
     (case c of
        None \<Rightarrow> K = []
      | Some c \<Rightarrow> K \<noteq> [] \<and> hiarray_inv (c_keys c) \<and> hiarray_list (c_keys c) = K \<and> c_narg c = of_nat (length K)
          \<and> c_clen c = sum_list (map key_weight K) \<and> c_slot_num c = int s)"

lemma hiarray_elements:
  assumes "hiarray_inv a"
  shows "map (\<lambda>j. the (hiarray_get a (of_nat j))) [0..<unat (hiarray_n a)] = hiarray_list a"
proof (rule nth_equalityI)
  show "length (map (\<lambda>j. the (hiarray_get a (of_nat j))) [0..<unat (hiarray_n a)]) = length (hiarray_list a)"
    using length_hiarray_list [OF assms] by simp
next
  fix i assume "i < length (map (\<lambda>j. the (hiarray_get a (of_nat j))) [0..<unat (hiarray_n a)])"
  then have i: "i < unat (hiarray_n a)" by simp
  have "unat (hiarray_n a) < 2 ^ 32" by (rule order_less_le_trans [OF unsigned_less]) simp
  then have "i < 2 ^ 32" using i by simp
  then have "unat (of_nat i :: u32) = i" by (rule unat_of_nat_small)
  then show "map (\<lambda>j. the (hiarray_get a (of_nat j))) [0..<unat (hiarray_n a)] ! i = hiarray_list a ! i"
    using hiarray_get_nth [OF assms, of "of_nat i"] i length_hiarray_list [OF assms] by simp
qed

lemma new_command_fresh:
  assumes "\<forall>n. mem n"
  shows "\<exists>c. new_command mem i = Some (c, i + 1) \<and> hiarray_inv (c_keys c) \<and> hiarray_list (c_keys c) = []
    \<and> c_narg c = 0 \<and> c_clen c = 0"
  using assms by (auto simp: new_command_def command_get_def hiarray_create_def hiarray_init_def hiarray_inv_def hiarray_list_def)

lemma add_key_ok:
  assumes mem: "\<forall>n. mem n" and v: "c_type command = CMD_REQ_REDIS_MSET \<Longrightarrow> value_tail (c_cmd command) (kp_end k) \<noteq> None"
    and K: "sub_ok (slot_of command k) K (g_subs g (slot_of command k))" "length K < 2 ^ 31"
  shows "\<exists>g'. add_key mem command k g = Some (Inr g') \<and> g_seq g' = g_seq g @ [slot_of command k]
    \<and> sub_ok (slot_of command k) (K @ [with_tail command k]) (g_subs g' (slot_of command k))
    \<and> (\<forall>s. s \<noteq> slot_of command k \<longrightarrow> g_subs g' s = g_subs g s)"
proof -
  let ?slot = "slot_of command k" and ?k = "with_tail command k"
  have in_range: "\<not> REDIS_CLUSTER_SLOTS \<le> ?slot"
    using keyHashSlot_bound by (simp add: slot_of_def REDIS_CLUSTER_SLOTS_def not_le)
  obtain sub i where sub: "(case g_subs g ?slot of Some sub \<Rightarrow> Some (sub, g_id g) | None \<Rightarrow> new_command mem (g_id g)) = Some (sub, i)"
    "hiarray_inv (c_keys sub)" "hiarray_list (c_keys sub) = K" "c_narg sub = of_nat (length K)" "c_clen sub = sum_list (map key_weight K)"
    using K(1) new_command_fresh [OF mem, of "g_id g"] by (cases "g_subs g ?slot") (auto simp: sub_ok_def)
  obtain ks where push: "hiarray_push_value mem (c_keys sub) ?k = Some ks" using hiarray_push_value_total mem by metis
  have ks: "hiarray_list ks = K @ [?k]" "hiarray_inv ks"
    using hiarray_push_value_contents [OF sub(2) _ push] sub(3) K(2) by simp_all
  have r: "(if c_type command = CMD_REQ_REDIS_MSET then map_option Some (value_tail (c_cmd command) (kp_end k)) else Some None)
      = Some (kp_remain_len ?k)" using v by (auto simp: with_tail_def)
  have w: "key_weight ?k = key_len k + of_nat (uint_len (key_len k)) + (case kp_remain_len ?k of None \<Rightarrow> 0 | Some l \<Rightarrow> l)"
    by (simp add: key_weight_def with_tail_def key_len_def)
  have p: "hiarray_push_value mem (c_keys sub) \<lparr>kp_start = kp_start k, kp_end = kp_end k, kp_remain_len = kp_remain_len ?k\<rparr> = Some ks"
    using push by (simp add: with_tail_def)
  let ?g = "g\<lparr>g_seq := g_seq g @ [?slot], g_id := i, g_subs := (g_subs g)(?slot \<mapsto>
      sub\<lparr>c_narg := c_narg sub + 1, c_keys := ks,
          c_clen := c_clen sub + (key_len k + of_nat (uint_len (key_len k))) + (case kp_remain_len ?k of None \<Rightarrow> 0 | Some l \<Rightarrow> l),
          c_slot_num := int ?slot\<rparr>)\<rparr>"
  have "add_key mem command k g = Some (Inr ?g)"
    unfolding add_key_def Let_def using in_range by (simp only: sub(1) r p option.case prod.case if_False)
  moreover have "sub_ok ?slot (K @ [?k]) (g_subs ?g ?slot)"
    using ks sub(4,5) w by (simp add: sub_ok_def algebra_simps)
  ultimately show ?thesis by (intro exI [of _ ?g]) simp
qed

lemma add_keys_ok:
  assumes mem: "\<forall>n. mem n"
  shows "(\<And>k. k \<in> set ks \<Longrightarrow> c_type command = CMD_REQ_REDIS_MSET \<Longrightarrow> value_tail (c_cmd command) (kp_end k) \<noteq> None) \<Longrightarrow>
    \<forall>s. sub_ok s (K s) (g_subs g s) \<and> length (K s) + length ks < 2 ^ 31 \<Longrightarrow>
    \<exists>g'. add_keys mem command ks g = Some (Inr g') \<and> g_seq g' = g_seq g @ map (slot_of command) ks
      \<and> (\<forall>s. sub_ok s (K s @ map (with_tail command) (filter (\<lambda>k. slot_of command k = s) ks)) (g_subs g' s))"
proof (induction ks arbitrary: g K)
  case Nil
  then show ?case by simp
next
  case (Cons k ks)
  let ?s = "slot_of command k"
  let ?K = "K(?s := K ?s @ [with_tail command k])"
  have K: "sub_ok ?s (K ?s) (g_subs g ?s)" "length (K ?s) < 2 ^ 31" using Cons.prems(2) by (auto dest: spec [of _ ?s])
  obtain g1 where g1: "add_key mem command k g = Some (Inr g1)" "g_seq g1 = g_seq g @ [?s]"
      "sub_ok ?s (K ?s @ [with_tail command k]) (g_subs g1 ?s)" "\<forall>s. s \<noteq> ?s \<longrightarrow> g_subs g1 s = g_subs g s"
    using add_key_ok [OF mem Cons.prems(1) K] by auto
  have "\<forall>s. sub_ok s (?K s) (g_subs g1 s) \<and> length (?K s) + length ks < 2 ^ 31"
    using g1(3,4) Cons.prems(2) by (auto intro: less_trans dest: spec)
  from Cons.IH [OF _ this] Cons.prems(1) obtain g' where g': "add_keys mem command ks g1 = Some (Inr g')"
      "g_seq g' = g_seq g1 @ map (slot_of command) ks"
      "\<forall>s. sub_ok s (?K s @ map (with_tail command) (filter (\<lambda>k. slot_of command k = s) ks)) (g_subs g' s)" by auto
  have "sub_ok s (K s @ map (with_tail command) (filter (\<lambda>k. slot_of command k = s) (k # ks))) (g_subs g' s)" for s
    using g'(3) [rule_format, of s] by (auto split: if_splits)
  then show ?case using g1(1,2) g'(1,2) by (intro exI [of _ g']) simp
qed


section \<open>Writing a sub command\<close>

definition item :: "cmd_type \<Rightarrow> bytes \<Rightarrow> keypos \<Rightarrow> bytes" where
  "item ty src k = CHR ''$'' # dec (kp_end k - kp_start k) @ CRLF @ the (copied ty src k)"

definition key_fits :: "cmd_type \<Rightarrow> bytes \<Rightarrow> keypos \<Rightarrow> bool" where
  "key_fits ty src k \<longleftrightarrow> kp_start k < kp_end k \<and> kp_end k - kp_start k < 2 ^ 31 \<and> copied ty src k \<noteq> None"

lemma length_itoa_loop [simp]: "length (fst (itoa_loop s len num)) = length s"
proof (induction s len num rule: itoa_loop.induct)
  case (1 s len num)
  then show ?case by (subst itoa_loop.simps) simp
qed

lemma length_hi_itoa [simp]: "length (hi_itoa s num) = length s"
proof -
  obtain s1 n1 where l: "itoa_loop s 0 (nat \<bar>num\<bar>) = (s1, n1)" by (cases "itoa_loop s 0 (nat \<bar>num\<bar>)") auto
  then have "length s1 = length s" using length_itoa_loop [of s 0 "nat \<bar>num\<bar>"] by simp
  then show ?thesis using l by (simp add: hi_itoa_def)
qed

lemma length_dec_word: "n < 2 ^ 32 \<Longrightarrow> length (dec n) \<le> 10"
  using length_dec_bound [of n 10] by simp

text \<open>A positive number printed into \<open>num_str\<close>.\<close>

lemma itoa_number:
  assumes "length num = 12" "0 < n" "n < 2 ^ 31"
  shows "cstr (hi_itoa num (sint (of_nat n :: u32))) = dec n" "NUL \<in> set (hi_itoa num (sint (of_nat n :: u32)))"
proof -
  have i: "sint (of_nat n :: u32) = int n" using assms(3) by (rule sint_of_nat_small)
  have l: "length (dec n) < length num" using length_dec_word [of n] assms(1,3) by simp
  show "cstr (hi_itoa num (sint (of_nat n :: u32))) = dec n"
    using cstr_hi_itoa_pos [of "int n" num] l assms(2) by (simp add: i)
  show "NUL \<in> set (hi_itoa num (sint (of_nat n :: u32)))"
    using hi_itoa_pos [of "int n" num] l assms(2) by (auto simp: i)
qed

lemma write_at_fits:
  assumes "take p buf = pre" "length pre = p" "p + length t \<le> length buf"
  shows "\<exists>b. write_at p t buf = Some b \<and> length b = length buf \<and> take (p + length t) b = pre @ t"
  using write_at_ok [OF assms(1,2), of t "[]"] assms(3) by simp

lemma write_key_ok:
  assumes "length num = 12" "take idx buf = pre" "length pre = idx" "key_fits ty src k"
    and "idx + length (item ty src k) \<le> length buf"
  shows "\<exists>b num'. write_key ty src k (buf, idx, num) = Some (b, idx + length (item ty src k), num') \<and> length num' = 12
    \<and> length b = length buf \<and> take (idx + length (item ty src k)) b = pre @ item ty src k"
proof -
  let ?n = "kp_end k - kp_start k"
  have n: "0 < ?n" "?n < 2 ^ 31" and "copied ty src k \<noteq> None" using assms(4) by (auto simp: key_fits_def)
  then obtain t where t: "copied ty src k = Some t" by blast
  note num = itoa_number [OF assms(1) n, folded key_len_def]
  obtain b where b: "write_at idx (item ty src k) buf = Some b" "length b = length buf"
      "take (idx + length (item ty src k)) b = pre @ item ty src k"
    using write_at_fits [OF assms(2,3,5)] by blast
  have e: "CHR ''$'' # cstr (hi_itoa num (sint (key_len k))) @ CRLF @ t = item ty src k"
    using num(1) t by (simp add: item_def)
  have "write_key ty src k (buf, idx, num) = Some (b, idx + length (item ty src k), hi_itoa num (sint (key_len k)))"
    unfolding write_key_def prod.case Let_def
    using num(2) by (simp only: t option.case e b(1) option.map simp_thms if_False)
  then show ?thesis using b(2,3) assms(1) by simp
qed

lemma write_keys_ok:
  "length num = 12 \<Longrightarrow> take idx buf = pre \<Longrightarrow> length pre = idx \<Longrightarrow> list_all (key_fits ty src) ks \<Longrightarrow>
   idx + length (concat (map (item ty src) ks)) \<le> length buf \<Longrightarrow>
   \<exists>b num'. write_keys ty src ks (buf, idx, num) = Some (b, idx + length (concat (map (item ty src) ks)), num') \<and> length num' = 12
    \<and> length b = length buf \<and> take (idx + length (concat (map (item ty src) ks))) b = pre @ concat (map (item ty src) ks)"
proof (induction ks arbitrary: buf idx num pre)
  case Nil
  then show ?case by simp
next
  case (Cons k ks)
  have fits: "key_fits ty src k" "idx + length (item ty src k) \<le> length buf" using Cons.prems(4,5) by simp_all
  obtain b1 num1 where b1: "write_key ty src k (buf, idx, num) = Some (b1, idx + length (item ty src k), num1)" "length num1 = 12"
    "length b1 = length buf" "take (idx + length (item ty src k)) b1 = pre @ item ty src k"
    using write_key_ok [OF Cons.prems(1-3) fits] by blast
  have "length (pre @ item ty src k) = idx + length (item ty src k)" using Cons.prems(3) by simp
  from Cons.IH [OF b1(2,4) this] Cons.prems(4,5) b1 show ?case by (auto simp: add.assoc)
qed

definition per_key :: "cmd_type \<Rightarrow> nat" where
  "per_key ty = (if ty = CMD_REQ_REDIS_MSET then 3 else 5)"

definition words :: "cmd_type \<Rightarrow> nat \<Rightarrow> nat" where
  "words ty n = (if ty = CMD_REQ_REDIS_MSET then 2 * n + 1 else n + 1)"

text \<open>The sub command for the keys \<open>K\<close>.\<close>

definition command_text :: "cmd_type \<Rightarrow> bytes \<Rightarrow> keypos list \<Rightarrow> bytes" where
  "command_text ty src K = CHR ''*'' # dec (words ty (length K)) @ name_header ty @ concat (map (item ty src) K)"

definition weighs :: "cmd_type \<Rightarrow> bytes \<Rightarrow> keypos \<Rightarrow> bool" where
  "weighs ty src k \<longleftrightarrow> key_fits ty src k \<and> key_weight k + of_nat (per_key ty) = of_nat (length (item ty src k))"

lemma weights_sum:
  "list_all (weighs ty src) K \<Longrightarrow>
   sum_list (map key_weight K) + of_nat (per_key ty) * of_nat (length K) = of_nat (length (concat (map (item ty src) K)))"
proof (induction K)
  case (Cons k K)
  then have k: "key_weight k + of_nat (per_key ty) = of_nat (length (item ty src k))" by (simp add: weighs_def)
  have "sum_list (map key_weight (k # K)) + of_nat (per_key ty) * of_nat (length (k # K))
      = (key_weight k + of_nat (per_key ty)) + (sum_list (map key_weight K) + of_nat (per_key ty) * of_nat (length K))"
    by (simp add: algebra_simps)
  also have "\<dots> = of_nat (length (item ty src k)) + of_nat (length (concat (map (item ty src) K)))"
    using Cons.IH Cons.prems k by simp
  finally show ?case by simp
qed simp

lemma build_sub_ok:
  assumes mem: "\<forall>n. mem n" and num: "length num = 12" and sub: "sub_ok s K (Some sub)"
    and K: "list_all (weighs ty src) K" "length (command_text ty src K) < 2 ^ 31" "length K < 2 ^ 30"
    and ty: "ty \<in> {CMD_REQ_REDIS_MGET, CMD_REQ_REDIS_DEL, CMD_REQ_REDIS_MSET}"
  shows "\<exists>c num'. build_sub mem ty src num sub = Some (Inr (c, num')) \<and> length num' = 12
    \<and> c_cmd c = command_text ty src K \<and> c_clen c = of_nat (length (command_text ty src K)) \<and> c_slot_num c = int s
    \<and> c_type c = ty \<and> hiarray_list (c_keys c) = K \<and> c_narg c = of_nat (words ty (length K))"
proof -
  let ?narg = "if ty = CMD_REQ_REDIS_MSET then c_narg sub * 2 + 1 else c_narg sub + 1" and ?n = "words ty (length K)"
  note so = sub [unfolded sub_ok_def option.case]
  have narg: "?narg = of_nat ?n" using so by (simp add: words_def)
  have n: "0 < ?n" "?n < 2 ^ 31" using K(3) by (simp_all add: words_def)
  note it = itoa_number [OF num n, folded narg]
  let ?num = "hi_itoa num (sint ?narg)" and ?per = "(if ty = CMD_REQ_REDIS_MSET then 3 else 5) :: u32"
  let ?head = "CHR ''*'' # dec ?n @ name_header ty" and ?items = "concat (map (item ty src) K)"
  let ?clen = "c_clen sub + ?per * c_narg sub + (of_nat (length (name_header ty) + 1) + of_nat (length (cstr ?num)))"
  have whole: "command_text ty src K = ?head @ ?items" by (simp add: command_text_def)
  have per: "?per = of_nat (per_key ty)" by (simp add: per_key_def)
  have "?clen = of_nat (length ?items) + (of_nat (length (name_header ty) + 1) + of_nat (length (dec ?n)))"
    using weights_sum [OF K(1)] so it(1) by (simp add: per)
  then have clen: "?clen = of_nat (length (command_text ty src K))" by (simp add: whole)
  have u: "unat ?clen = length (command_text ty src K)"
    unfolding clen using K(2) by (intro unat_of_nat_small) simp
  obtain b where b: "write_at 0 ?head (replicate (unat ?clen) NUL) = Some b" "length b = unat ?clen" "take (length ?head) b = ?head"
  proof -
    have "0 + length ?head \<le> length (replicate (unat ?clen) NUL)" by (simp only: u whole length_replicate) simp
    from write_at_fits [OF take_0 list.size(3) this] that show ?thesis by (simp only: add_0 append_Nil length_replicate) blast
  qed
  have fits: "list_all (key_fits ty src) K" using K(1) by (auto simp: list_all_iff weighs_def)
  have room: "length ?head + length ?items \<le> length b" using b(2) by (simp only: u whole) simp
  have num': "length ?num = 12" using num by simp
  obtain b' num'' where w: "write_keys ty src K (b, length ?head, ?num) = Some (b', length ?head + length ?items, num'')"
      "length num'' = 12" "length b' = length b" "take (length ?head + length ?items) b' = ?head @ ?items"
    using write_keys_ok [OF num' b(3) refl fits room] by blast
  have "length b' = length ?head + length ?items" using w(3) b(2) by (simp only: u whole) simp
  then have b': "b' = command_text ty src K" using w(4) by (simp add: whole)
  have els: "map (\<lambda>j. the (hiarray_get (c_keys sub) (of_nat j))) [0..<unat (hiarray_n (c_keys sub))] = K"
    using so by (simp only: hiarray_elements)
  have bw: "write_at 0 (CHR ''*'' # cstr ?num @ name_header ty) (replicate (unat ?clen) NUL) = Some b"
    using b(1) by (simp only: it(1))
  have ww: "write_keys ty src K (b, length (CHR ''*'' # cstr ?num @ name_header ty), ?num) = Some (b', length ?head + length ?items, num'')"
    using w(1) by (simp only: it(1))
  let ?c = "sub\<lparr>c_narg := ?narg, c_clen := ?clen, c_cmd := b', c_type := ty\<rparr>"
  have sel: "c_clen ?c = ?clen" "c_narg ?c = ?narg" "c_cmd ?c = b'" "c_slot_num ?c = c_slot_num sub" "c_type ?c = ty"
    "c_keys ?c = c_keys sub" by simp_all
  show ?thesis
  proof (intro exI conjI)
    show "build_sub mem ty src num sub = Some (Inr (?c, num''))"
      unfolding build_sub_def Let_def els
      by (simp only: it(2) mem [rule_format] ty simp_thms if_False bw ww option.case prod.case)
    show "c_cmd ?c = command_text ty src K" "c_clen ?c = of_nat (length (command_text ty src K))" "c_narg ?c = of_nat ?n"
      by (rule trans [OF sel(3) b'], rule trans [OF sel(1) clen], rule trans [OF sel(2) narg])
    show "c_slot_num ?c = int s" "hiarray_list (c_keys ?c) = K" unfolding sel using so by blast+
  qed (rule w(2), rule sel(5))
qed

definition made :: "cmd_type \<Rightarrow> bytes \<Rightarrow> nat \<Rightarrow> keypos list \<Rightarrow> cmd \<Rightarrow> bool" where
  "made ty src s K c \<longleftrightarrow> c_cmd c = command_text ty src K \<and> c_clen c = of_nat (length (command_text ty src K))
     \<and> c_slot_num c = int s \<and> c_type c = ty"

lemma build_subs_ok:
  assumes mem: "\<forall>n. mem n" and ty: "ty \<in> {CMD_REQ_REDIS_MGET, CMD_REQ_REDIS_DEL, CMD_REQ_REDIS_MSET}"
  shows "length num = 12 \<Longrightarrow>
    \<forall>s\<in>set slots. sub_ok s (K s) (subs s) \<and> list_all (weighs ty src) (K s)
      \<and> length (command_text ty src (K s)) < 2 ^ 31 \<and> length (K s) < 2 ^ 30 \<Longrightarrow>
    \<exists>cs. build_subs mem ty src subs slots num = Some (cs, None)
      \<and> list_all2 (\<lambda>s c. made ty src s (K s) c) (filter (\<lambda>s. K s \<noteq> []) slots) cs"
proof (induction slots arbitrary: num)
  case Nil
  then show ?case by simp
next
  case (Cons i slots)
  show ?case
  proof (cases "subs i")
    case None
    then have "K i = []" using Cons.prems(2) by (simp add: sub_ok_def)
    then show ?thesis using None Cons by simp
  next
    case (Some sub)
    then have K: "K i \<noteq> []" "sub_ok i (K i) (Some sub)" "list_all (weighs ty src) (K i)"
      "length (command_text ty src (K i)) < 2 ^ 31" "length (K i) < 2 ^ 30" using Cons.prems(2) by (auto simp: sub_ok_def)
    obtain c num' where c: "build_sub mem ty src num sub = Some (Inr (c, num'))" "length num' = 12" "made ty src i (K i) c"
      using build_sub_ok [OF mem Cons.prems(1) K(2-5) ty] by (auto simp: made_def)
    obtain cs where "build_subs mem ty src subs slots num' = Some (cs, None)"
        "list_all2 (\<lambda>s c. made ty src s (K s) c) (filter (\<lambda>s. K s \<noteq> []) slots) cs"
      using Cons.IH [OF c(2)] Cons.prems(2) by auto
    moreover have "mem 24" using mem by blast
    ultimately show ?thesis using Some c K(1) by simp
  qed
qed

section \<open>Keys and values in the buffer\<close>

text \<open>The arguments of one key: the key, and its value in MSET.\<close>

fun pairs :: "'a list \<Rightarrow> 'a list list" where
  "pairs (k # v # as) = [k, v] # pairs as"
| "pairs [k] = [[k]]"
| "pairs [] = []"

definition units :: "cmd_type \<Rightarrow> bytes list \<Rightarrow> bytes list list" where
  "units ty as = (if ty = CMD_REQ_REDIS_MSET then pairs as else map (\<lambda>a. [a]) as)"

definition key_slot :: "bytes \<Rightarrow> nat" where
  "key_slot a = unat (keyHashSlot a (length a))"

lemma slot_of_key:
  assumes "view r p (bulk a @ rest)" "c_cmd c = c_cmd r" "length a < 2 ^ 31"
  shows "slot_of c (key_of p a) = key_slot a"
  using view_bulk(1) [OF assms(1)] assms(2,3)
  by (simp add: view_def slot_of_def key_of_def key_slot_def keyHashSlot_prefix)

text \<open>A key as it is recorded in a sub command stands for its unit.\<close>

definition stands_for :: "cmd \<Rightarrow> keypos \<Rightarrow> bytes list \<Rightarrow> bool" where
  "stands_for c k u \<longleftrightarrow> slot_of c k = key_slot (hd u)
     \<and> item (c_type c) (c_cmd c) (with_tail c k) = concat (map bulk u) \<and> weighs (c_type c) (c_cmd c) (with_tail c k)
     \<and> (c_type c = CMD_REQ_REDIS_MSET \<longrightarrow> value_tail (c_cmd c) (kp_end k) \<noteq> None)"

lemma stands_forI:
  assumes v: "view r p (bulk a @ rest)" "c_cmd c = c_cmd r" and a: "a \<noteq> []" "length a < 2 ^ 31"
    and t: "kp_remain_len (with_tail c (key_of p a)) = (if c_type c = CMD_REQ_REDIS_MSET then Some (of_nat n) else None)"
    and cp: "copied (c_type c) (c_cmd c) (with_tail c (key_of p a)) = Some (a @ t')"
    and n: "length t' = (if c_type c = CMD_REQ_REDIS_MSET then n else 2)"
    and u: "concat (map bulk u) = CHR ''$'' # dec (length a) @ CRLF @ a @ t'" "hd u = a"
  shows "stands_for c (key_of p a) u"
proof -
  have i: "item (c_type c) (c_cmd c) (with_tail c (key_of p a)) = concat (map bulk u)"
    using cp u(1) by (simp add: item_def with_tail_def key_of_def)
  have fits: "key_fits (c_type c) (c_cmd c) (with_tail c (key_of p a))"
    using cp a by (simp add: key_fits_def) (simp add: with_tail_def key_of_def)
  have k: "key_len (with_tail c (key_of p a)) = of_nat (length a)" by (simp add: key_len_def with_tail_def key_of_def)
  have len: "uint_len (of_nat (length a)) = length (dec (length a))" using a(2) by (simp add: uint_len_dec unat_of_nat_small)
  have "key_weight (with_tail c (key_of p a)) + of_nat (per_key (c_type c)) = of_nat (length (concat (map bulk u)))"
    by (simp add: key_weight_def k len t u(1) n per_key_def)
  then have w: "weighs (c_type c) (c_cmd c) (with_tail c (key_of p a))" using fits i by (simp add: weighs_def)
  have "value_tail (c_cmd c) (kp_end (key_of p a)) \<noteq> None" if "c_type c = CMD_REQ_REDIS_MSET"
    using t that by (simp add: with_tail_def)
  then show ?thesis using i w slot_of_key [OF v a(2)] u(2) by (simp add: stands_for_def)
qed

lemma single_key:
  assumes v: "view r p (bulk a @ rest)" "c_cmd c = c_cmd r" and a: "a \<noteq> []" "length a < 2 ^ 31"
    and ty: "c_type c \<noteq> CMD_REQ_REDIS_MSET"
  shows "stands_for c (key_of p a) [a]"
proof (rule stands_forI [OF v a])
  have d: "drop (data_at p a) (c_cmd c) = a @ CR # LF # rest" using view_bulk(1) [OF v(1)] v(2) by (simp add: view_def)
  then have "length (drop (data_at p a) (c_cmd c)) = length a + (2 + length rest)" by simp
  then have "data_at p a + length a \<le> length (c_cmd c)" by simp
  then show "copied (c_type c) (c_cmd c) (with_tail c (key_of p a)) = Some (a @ CRLF)"
    using ty a(2) d by (simp add: copied_def key_len_def with_tail_def key_of_def unat_of_nat_small)
  show "kp_remain_len (with_tail c (key_of p a)) = (if c_type c = CMD_REQ_REDIS_MSET then Some (of_nat 2) else None)"
    using ty by (simp add: with_tail_def)
qed (use ty in \<open>simp_all add: bulk_def\<close>)

lemma value_tail_bulk:
  assumes "drop e buf = CR # LF # bulk v @ rest"
  shows "value_tail buf e = Some (of_nat (length (CRLF @ bulk v)))"
proof -
  let ?d = "dec (length v)" and ?r = "CR # LF # v @ CR # LF # rest"
  have s: "drop (Suc e) buf = LF # CHR ''$'' # ?d @ ?r"
  proof -
    have "drop (Suc e) buf = tl (drop e buf)" by (simp add: drop_Suc tl_drop)
    then show ?thesis by (simp add: assms bulk_def)
  qed
  have dig: "\<forall>c\<in>set ?d. isdigit c" using dec_digits by blast
  obtain x y where xy: "?d = x # y" by (cases ?d) auto
  have dw: "dropWhile (\<lambda>c. \<not> isdigit c) (LF # CHR ''$'' # ?d @ ?r) = ?d @ ?r"
    using dig xy by (simp add: char_simps)
  have tw: "takeWhile isdigit (?d @ ?r) = ?d" "dropWhile isdigit (?d @ ?r) = ?r"
    using dig by (simp_all add: takeWhile_append dropWhile_append char_simps)
  show ?thesis
    unfolding value_tail_def Let_def s dw tw
    by (simp add: digits_word_dec CRLF_LEN_def bulk_def)
qed

lemma pair_key:
  assumes v: "view r p (bulk a @ bulk b @ rest)" "c_cmd c = c_cmd r" and a: "a \<noteq> []" "length a < 2 ^ 31"
    and ty: "c_type c = CMD_REQ_REDIS_MSET" and n: "length a + length (CRLF @ bulk b) < 2 ^ 32"
  shows "stands_for c (key_of p a) [a, b]"
proof (rule stands_forI [OF v a])
  have d: "drop (data_at p a) (c_cmd c) = a @ CR # LF # bulk b @ rest" using view_bulk(1) [OF v(1)] v(2) by (simp add: view_def)
  then have "length (drop (data_at p a) (c_cmd c)) = length a + length (CRLF @ bulk b) + length rest" by simp
  then have l: "data_at p a + (length a + length (CRLF @ bulk b)) \<le> length (c_cmd c)" by simp
  have "drop (data_at p a + length a) (c_cmd c) = CR # LF # bulk b @ rest"
    using d by (simp only: drop_drop [symmetric] add.commute) simp
  then have t: "value_tail (c_cmd c) (data_at p a + length a) = Some (of_nat (length (CRLF @ bulk b)))"
    by (rule value_tail_bulk)
  have w: "with_tail c (key_of p a) = (key_of p a)\<lparr>kp_remain_len := Some (of_nat (length (CRLF @ bulk b)))\<rparr>"
    using t ty by (simp add: with_tail_def key_of_def)
  show "kp_remain_len (with_tail c (key_of p a)) = (if c_type c = CMD_REQ_REDIS_MSET then Some (of_nat (length (CRLF @ bulk b))) else None)"
    using ty by (simp only: w) simp
  have u: "unat (key_len (key_of p a) + of_nat (length (CRLF @ bulk b))) = length a + length (CRLF @ bulk b)"
  proof -
    have "key_len (key_of p a) = of_nat (length a)" by (simp add: key_len_def key_of_def)
    then show ?thesis using unat_of_nat_small [OF n] by (simp only: of_nat_add)
  qed
  have "take (length a + length (CRLF @ bulk b)) (drop (data_at p a) (c_cmd c)) = a @ CRLF @ bulk b"
    by (simp only: d) simp
  then show "copied (c_type c) (c_cmd c) (with_tail c (key_of p a)) = Some (a @ CRLF @ bulk b)"
    using ty l u by (simp only: w copied_def Let_def) (simp add: key_of_def key_len_def)
qed (use ty in \<open>simp_all add: bulk_def\<close>)

lemma single_keys:
  "view r q (concat (map bulk as)) \<Longrightarrow> c_cmd c = c_cmd r \<Longrightarrow> c_type c \<noteq> CMD_REQ_REDIS_MSET \<Longrightarrow>
   [] \<notin> set as \<Longrightarrow> length (concat (map bulk as)) < 2 ^ 31 \<Longrightarrow>
   list_all2 (stands_for c) (places q as) (map (\<lambda>a. [a]) as)"
proof (induction as arbitrary: q)
  case (Cons a as)
  have v: "view r q (bulk a @ concat (map bulk as))" and a: "a \<noteq> []" "length a < 2 ^ 31"
    using Cons.prems(1,4,5) length_bulk [of a] by auto
  from single_key [OF v Cons.prems(2) a Cons.prems(3)] Cons.IH [OF view_bulk(3) [OF v]] Cons.prems(2-5) show ?case
    by simp
qed simp

lemma pair_keys:
  "view r q (concat (map bulk as)) \<Longrightarrow> c_cmd c = c_cmd r \<Longrightarrow> c_type c = CMD_REQ_REDIS_MSET \<Longrightarrow> even (length as) \<Longrightarrow>
   \<forall>u\<in>set (pairs as). hd u \<noteq> [] \<Longrightarrow> length (concat (map bulk as)) < 2 ^ 31 \<Longrightarrow>
   list_all2 (stands_for c) (alternate (places q as)) (pairs as)"
proof (induction as arbitrary: q rule: pairs.induct)
  case (1 k v as)
  have vw: "view r q (bulk k @ bulk v @ concat (map bulk as))" and n: "k \<noteq> []" "length k < 2 ^ 31"
    "length k + length (CRLF @ bulk v) < 2 ^ 32"
    using 1(2,6,7) length_bulk [of k] by auto
  have "view r (q + length (bulk k) + length (bulk v)) (concat (map bulk as))"
    using view_bulk(3) [OF view_bulk(3) [OF vw]] .
  from pair_key [OF vw 1(3) n(1,2) 1(4) n(3)] 1(1) [OF this] 1(3-7) show ?case by simp
qed simp_all

lemma stands_for_filter:
  "list_all2 (stands_for c) ks us \<Longrightarrow>
   list_all2 (stands_for c) (filter (\<lambda>k. slot_of c k = s) ks) (filter (\<lambda>u. key_slot (hd u) = s) us)"
  by (induction rule: list_all2_induct) (auto simp: stands_for_def)

lemma stands_for_items:
  "list_all2 (stands_for c) ks us \<Longrightarrow>
   concat (map (item (c_type c) (c_cmd c)) (map (with_tail c) ks)) = concat (map bulk (concat us))
   \<and> list_all (weighs (c_type c) (c_cmd c)) (map (with_tail c) ks) \<and> map (slot_of c) ks = map (\<lambda>u. key_slot (hd u)) us
   \<and> (c_type c = CMD_REQ_REDIS_MSET \<longrightarrow> (\<forall>k\<in>set ks. value_tail (c_cmd c) (kp_end k) \<noteq> None))"
  by (induction rule: list_all2_induct) (auto simp: stands_for_def)

section \<open>The sub requests\<close>

definition sub_name :: "cmd_type \<Rightarrow> bytes" where
  "sub_name ty = (if ty = CMD_REQ_REDIS_MGET then ''mget'' else if ty = CMD_REQ_REDIS_DEL then ''del'' else ''mset'')"

lemma name_header_bulk:
  "ty \<in> {CMD_REQ_REDIS_MGET, CMD_REQ_REDIS_DEL, CMD_REQ_REDIS_MSET} \<Longrightarrow> name_header ty = CRLF @ bulk (sub_name ty)"
proof -
  have d: "dec (Suc (Suc (Suc (Suc 0)))) = ''4''" "dec (Suc (Suc (Suc 0))) = ''3''" by code_simp+
  show "ty \<in> {CMD_REQ_REDIS_MGET, CMD_REQ_REDIS_DEL, CMD_REQ_REDIS_MSET} \<Longrightarrow> name_header ty = CRLF @ bulk (sub_name ty)"
    by (auto simp: name_header_def sub_name_def bulk_def d)
qed

lemma units_length:
  "(ty = CMD_REQ_REDIS_MSET \<longrightarrow> even (length as)) \<Longrightarrow> u \<in> set (units ty as) \<Longrightarrow>
   length u = (if ty = CMD_REQ_REDIS_MSET then 2 else 1)"
proof -
  have "even (length xs) \<Longrightarrow> u \<in> set (pairs xs) \<Longrightarrow> length u = 2" for u and xs :: "bytes list"
    by (induction xs rule: pairs.induct) auto
  then show "(ty = CMD_REQ_REDIS_MSET \<longrightarrow> even (length as)) \<Longrightarrow> u \<in> set (units ty as) \<Longrightarrow>
    length u = (if ty = CMD_REQ_REDIS_MSET then 2 else 1)" by (auto simp: units_def split: if_splits)
qed

lemma concat_pairs: "concat (pairs as) = as"
  by (induction as rule: pairs.induct) auto

lemma concat_units: "concat (units ty as) = as"
  by (simp add: units_def concat_pairs)

lemma concat_fixed: "\<forall>u\<in>set us. length u = m \<Longrightarrow> length (concat us) = m * length us"
  by (induction us) auto

lemma command_text_request:
  assumes "ty \<in> {CMD_REQ_REDIS_MGET, CMD_REQ_REDIS_DEL, CMD_REQ_REDIS_MSET}"
    and "\<forall>u\<in>set us. length u = (if ty = CMD_REQ_REDIS_MSET then 2 else 1)" "length K = length us"
    and "concat (map (item ty src) K) = concat (map bulk (concat us))"
  shows "command_text ty src K = request (sub_name ty # concat us)"
proof -
  have "words ty (length K) = Suc (length (concat us))" using concat_fixed [OF assms(2)] assms(3) by (simp add: words_def)
  then show ?thesis using assms(4) name_header_bulk [OF assms(1)] by (simp add: command_text_def request_def)
qed

lemma length_concat_filter: "length (concat (map f (concat (filter P us)))) \<le> length (concat (map f (concat us)))"
  by (induction us) auto

text \<open>A command with several keys is of one of three types, and its keys are the heads of its units.\<close>

lemma keys_are_heads:
  assumes "key_args t (w # as) = Some ks" "2 \<le> length ks"
  shows "t \<in> {CMD_REQ_REDIS_MGET, CMD_REQ_REDIS_DEL, CMD_REQ_REDIS_MSET}" "ks = map hd (units t as)"
    "t = CMD_REQ_REDIS_MSET \<longrightarrow> even (length as)"
    "pick t as xs = Some (if t = CMD_REQ_REDIS_MSET then alternate xs else xs)"
proof -
  have hds: "map hd (pairs ys) = alternate ys" for ys :: "bytes list" by (induction ys rule: pairs.induct) auto
  have short: "length ys = 1 \<Longrightarrow> length (alternate ys) = 1" for ys :: "bytes list" by (cases ys) auto
  have p: "pick t as as = Some ks" "as \<noteq> []" using assms by (auto simp: key_args_def pick_def)
  have ar: "arity_of t = ManyKeys \<or> arity_of t = KeyValuePairs"
    using p assms(2) by (auto simp: pick_def Let_def split: arity.splits if_splits)
  then have ty: "redis_argx t \<or> redis_argkvx t" using arity_of_elims(4,5) [of t] by auto
  then show t: "t \<in> {CMD_REQ_REDIS_MGET, CMD_REQ_REDIS_DEL, CMD_REQ_REDIS_MSET}" by (auto simp: arity_defs)
  have kv: "arity_of t = KeyValuePairs \<longleftrightarrow> t = CMD_REQ_REDIS_MSET" using t ar by (auto simp: arity_of_def arity_defs)
  show "ks = map hd (units t as)" "pick t as xs = Some (if t = CMD_REQ_REDIS_MSET then alternate xs else xs)"
    "t = CMD_REQ_REDIS_MSET \<longrightarrow> even (length as)"
    using p ar kv assms(2) short [of as] by (auto simp: pick_def Let_def units_def hds o_def split: if_splits)
qed

section \<open>The whole split\<close>

text \<open>A parsed command whose keys stand for the units \<open>us\<close> of its arguments.\<close>

definition parsed :: "cmd \<Rightarrow> cmd_type \<Rightarrow> bytes list list \<Rightarrow> bool" where
  "parsed c t us \<longleftrightarrow> c_type c = t \<and> hiarray_inv (c_keys c) \<and> list_all2 (stands_for c) (hiarray_list (c_keys c)) us
     \<and> t \<in> {CMD_REQ_REDIS_MGET, CMD_REQ_REDIS_DEL, CMD_REQ_REDIS_MSET}
     \<and> (\<forall>u\<in>set us. length u = (if t = CMD_REQ_REDIS_MSET then 2 else 1))
     \<and> length (concat (map bulk (concat us))) + 32 < 2 ^ 31"

definition slot_part :: "cmd_type \<Rightarrow> bytes list list \<Rightarrow> nat \<Rightarrow> bytes list" where
  "slot_part t us s = sub_name t # concat (filter (\<lambda>u. key_slot (hd u) = s) us)"

definition is_part :: "cmd_type \<Rightarrow> bytes list list \<Rightarrow> nat \<Rightarrow> cmd \<Rightarrow> bool" where
  "is_part t us s c \<longleftrightarrow> c_cmd c = request (slot_part t us s) \<and> c_clen c = of_nat (length (request (slot_part t us s)))
     \<and> c_slot_num c = int s \<and> c_type c = t"

lemma units_count:
  assumes "parsed c t us"
  shows "2 * length us \<le> length (concat (map bulk (concat us)))"
proof -
  have "\<forall>u\<in>set us. 1 \<le> length u" using assms by (auto simp: parsed_def)
  then have "length us \<le> length (concat us)" by (induction us) auto
  then show ?thesis using length_bulks [of "concat us"] by simp
qed

lemma slot_part_fits:
  assumes "parsed c t us"
  shows "length (request (slot_part t us s)) < 2 ^ 31"
proof -
  let ?us = "filter (\<lambda>u. key_slot (hd u) = s) us"
  have ty: "t \<in> {CMD_REQ_REDIS_MGET, CMD_REQ_REDIS_DEL, CMD_REQ_REDIS_MSET}" and b: "length (concat (map bulk (concat us))) + 32 < 2 ^ 31"
    using assms by (simp_all add: parsed_def)
  have f: "length (concat (map bulk (concat ?us))) \<le> length (concat (map bulk (concat us)))" by (rule length_concat_filter)
  have n: "length (bulk (sub_name t)) \<le> 10" using ty by (auto simp: sub_name_def bulk_def dec_small)
  have "2 * length (concat ?us) \<le> length (concat (map bulk (concat ?us)))" by (rule length_bulks)
  then have "Suc (length (concat ?us)) < 2 ^ 32" using b f by simp
  then have "length (dec (Suc (length (concat ?us)))) \<le> 10" by (rule length_dec_word)
  then show ?thesis using b f n by (simp add: request_def slot_part_def)
qed

lemma pre_fragment_ok:
  assumes mem: "\<forall>n. mem n" and num: "length num = 12" and p: "parsed c t us" and us: "us \<noteq> []"
  shows "\<exists>cs. command_pre_fragment mem num i c = Some (settle \<lparr>sp_slot = int (key_slot (hd (last us))), sp_error = None,
        sp_command = c, sp_seq = Some (map (\<lambda>u. key_slot (hd u)) us), sp_commands = cs\<rparr>)
    \<and> list_all2 (is_part t us) (filter (\<lambda>s. s \<in> (\<lambda>u. key_slot (hd u)) ` set us) [0..<REDIS_CLUSTER_SLOTS]) cs"
proof -
  note pd = p [unfolded parsed_def]
  define ks where "ks = hiarray_list (c_keys c)"
  have sf: "list_all2 (stands_for c) ks us" and inv: "hiarray_inv (c_keys c)" and ty: "c_type c = t"
    using pd by (simp_all add: ks_def)
  note it = stands_for_items [OF sf]
  have lens: "length ks = length us" by (rule list_all2_lengthD [OF sf])
  have small: "length us < 2 ^ 30" using units_count [OF p] pd by simp
  define K where "K s = map (with_tail c) (filter (\<lambda>k. slot_of c k = s) ks)" for s
  let ?us = "\<lambda>s. filter (\<lambda>u. key_slot (hd u) = s) us"
  have v: "k \<in> set ks \<Longrightarrow> c_type c = CMD_REQ_REDIS_MSET \<Longrightarrow> value_tail (c_cmd c) (kp_end k) \<noteq> None" for k
    using it by blast
  let ?g = "\<lparr>g_subs = \<lambda>_. None, g_seq = [], g_id = i\<rparr>"
  have "\<forall>s. sub_ok s [] (g_subs ?g s) \<and> length ([] :: keypos list) + length ks < 2 ^ 31"
    using small by (simp add: sub_ok_def lens)
  from add_keys_ok [OF mem v this] it obtain g where g: "add_keys mem c ks ?g = Some (Inr g)"
      "g_seq g = map (\<lambda>u. key_slot (hd u)) us" "\<forall>s. sub_ok s (K s) (g_subs g s)"
    by (auto simp: K_def ks_def)
  have Kp: "length (K s) = length (?us s)" "concat (map (item t (c_cmd c)) (K s)) = concat (map bulk (concat (?us s)))"
    "list_all (weighs t (c_cmd c)) (K s)" "length (K s) < 2 ^ 30" for s
  proof -
    note fs = stands_for_filter [OF sf, of s]
    show "length (K s) = length (?us s)" using list_all2_lengthD [OF fs] by (simp add: K_def)
    then show "length (K s) < 2 ^ 30" using small length_filter_le [of "\<lambda>u. key_slot (hd u) = s" us] by linarith
    show "concat (map (item t (c_cmd c)) (K s)) = concat (map bulk (concat (?us s)))" "list_all (weighs t (c_cmd c)) (K s)"
      using stands_for_items [OF fs] ty by (simp_all add: K_def)
  qed
  have text_is: "command_text t (c_cmd c) (K s) = request (slot_part t us s)" for s
    unfolding slot_part_def using pd Kp(1,2) by (intro command_text_request) auto
  have "\<forall>s\<in>set [0..<REDIS_CLUSTER_SLOTS]. sub_ok s (K s) (g_subs g s) \<and> list_all (weighs t (c_cmd c)) (K s)
      \<and> length (command_text t (c_cmd c) (K s)) < 2 ^ 31 \<and> length (K s) < 2 ^ 30"
    using g(3) Kp(3,4) slot_part_fits [OF p] by (simp add: text_is)
  from build_subs_ok [OF mem _ num this] pd obtain cs where cs:
      "build_subs mem t (c_cmd c) (g_subs g) [0..<REDIS_CLUSTER_SLOTS] num = Some (cs, None)"
      "list_all2 (\<lambda>s c'. made t (c_cmd c) s (K s) c') (filter (\<lambda>s. K s \<noteq> []) [0..<REDIS_CLUSTER_SLOTS]) cs" by auto
  have "K s \<noteq> [] \<longleftrightarrow> s \<in> (\<lambda>u. key_slot (hd u)) ` set us" for s
    using Kp(1) [of s] by (auto simp: filter_empty_conv simp flip: length_greater_0_conv)
  moreover have "made t (c_cmd c) s (K s) = is_part t us s" for s
    by (auto simp: fun_eq_iff made_def is_part_def text_is)
  ultimately have parts: "list_all2 (is_part t us) (filter (\<lambda>s. s \<in> (\<lambda>u. key_slot (hd u)) ` set us) [0..<REDIS_CLUSTER_SLOTS]) cs"
    using cs(2) by simp
  have els: "map (\<lambda>j. the (hiarray_get (c_keys c) (of_nat j))) [0..<unat (hiarray_n (c_keys c))] = ks"
    using hiarray_elements [OF inv] by (simp only: ks_def)
  have "command_pre_fragment mem num i c = Some (settle \<lparr>sp_slot = int (key_slot (hd (last us))), sp_error = None,
        sp_command = c, sp_seq = Some (map (\<lambda>u. key_slot (hd u)) us), sp_commands = cs\<rparr>)"
    unfolding command_pre_fragment_def Let_def els ty
    using us by (simp add: mem [rule_format] g(1,2) cs(1) last_map)
  then show ?thesis using parts by blast
qed

lemma parse_gives_units:
  assumes h: "holds_request r (w # as)" and mem: "\<forall>n. mem n" and t: "command_type w = Some t"
    and ks: "key_args t (w # as) = Some ks" "2 \<le> length ks" "[] \<notin> set ks" and n: "length (request (w # as)) + 32 < 2 ^ 31"
  shows "\<exists>c. redis_parse_cmd mem r = Some c \<and> c_result c = CMD_PARSE_OK \<and> c_cmd c = c_cmd r \<and> parsed c t (units t as)
    \<and> length (hiarray_list (c_keys c)) = length ks \<and> unat (c_narg c) = Suc (length as)"
proof -
  note kh = keys_are_heads [OF ks(1,2)]
  let ?q = "args_at w as"
  let ?ps = "if t = CMD_REQ_REDIS_MSET then alternate (places ?q as) else places ?q as"
  have b: "length (concat (map bulk as)) + 32 < 2 ^ 31" using n by (simp add: request_def)
  obtain K where K: "redis_parse_cmd mem r = Some ((named (counted r (Suc (length as))) t)\<lparr>c_keys := K\<rparr>)"
      "hiarray_inv K" "hiarray_list K = ?ps" using parse_picks [OF h mem t kh(4)] by blast
  define c where "c = (named (counted r (Suc (length as))) t)\<lparr>c_keys := K\<rparr>"
  have c: "c_type c = t" "c_cmd c = c_cmd r" "c_result c = CMD_PARSE_OK" "c_keys c = K"
    using h by (simp_all add: c_def named_def counted_def holds_request_def)
  have v: "view r ?q (concat (map bulk as))" using run_request(2) [OF h mem t] by (simp add: args_at_def)
  have heads: "\<forall>u\<in>set (units t as). hd u \<noteq> []" using ks(3) kh(2) by (metis image_eqI list.set_map)
  have b': "length (concat (map bulk as)) < 2 ^ 31" using b by simp
  have sf: "list_all2 (stands_for c) ?ps (units t as)"
  proof (cases "t = CMD_REQ_REDIS_MSET")
    case True
    then show ?thesis using pair_keys [OF v c(2) _ _ _ b'] kh(3) heads by (simp add: c(1) units_def)
  next
    case False
    then have "[] \<notin> set as" using heads by (auto simp: units_def)
    then show ?thesis using single_keys [OF v c(2) _ _ b'] False by (simp add: c(1) units_def)
  qed
  have "parsed c t (units t as)"
    unfolding parsed_def using c K(2,3) sf kh(1) units_length [OF kh(3)] b by (auto simp: concat_units)
  moreover have "length (hiarray_list (c_keys c)) = length ks"
    using list_all2_lengthD [OF sf] K(3) c(4) kh(2) by simp
  moreover have "unat (c_narg c) = Suc (length as)"
    using length_bulks [of as] b by (simp add: c_def named_def counted_def unat_of_nat_small del: of_nat_Suc)
  ultimately show ?thesis using K(1) c by (auto simp: c_def)
qed

lemma format_by_slot_ok:
  assumes h: "holds_request r (w # as)" and mem: "\<forall>n. mem n" and t: "command_type w = Some t"
    and ks: "key_args t (w # as) = Some ks" "2 \<le> length ks" "[] \<notin> set ks" and n: "length (request (w # as)) + 32 < 2 ^ 31"
    and num: "length num = 12"
  shows "\<exists>c cs. command_format_by_slot mem num i r = Some (settle \<lparr>sp_slot = int (key_slot (last ks)), sp_error = None,
        sp_command = c, sp_seq = Some (map key_slot ks), sp_commands = cs\<rparr>)
    \<and> parsed c t (units t as) \<and> c_cmd c = c_cmd r
    \<and> list_all2 (is_part t (units t as)) (filter (\<lambda>s. s \<in> key_slot ` set ks) [0..<REDIS_CLUSTER_SLOTS]) cs"
proof -
  note kh = keys_are_heads [OF ks(1,2)]
  obtain c where c: "redis_parse_cmd mem r = Some c" "c_result c = CMD_PARSE_OK" "c_cmd c = c_cmd r" "parsed c t (units t as)"
    "length (hiarray_list (c_keys c)) = length ks" using parse_gives_units [OF h mem t ks n] by blast
  have us: "units t as \<noteq> []" using ks(2) kh(2) by auto
  have "length ks < 2 ^ 30" using units_count [OF c(4)] c(4) kh(2) by (simp add: parsed_def)
  moreover have "unat (hiarray_n (c_keys c)) = length ks"
    using length_hiarray_list [of "c_keys c"] c(4,5) by (auto simp: parsed_def)
  moreover have "hiarray_n (c_keys c) = of_nat (unat (hiarray_n (c_keys c)))" by simp
  ultimately have k: "hiarray_n (c_keys c) = of_nat (length ks)" "length ks < 2 ^ 31" by simp_all
  have cnt: "\<not> sint (hiarray_n (c_keys c)) \<le> 0" "hiarray_n (c_keys c) \<noteq> 1"
    using sint_of_nat_small [OF k(2)] k ks(2) word_of_nat_eq_iff [of "length ks" 1] by (auto simp: k(1))
  have r: "c_cmd r \<noteq> []" "c_clen r \<noteq> 0"
    using h unat_of_nat_small [of "length (request (w # as))"] by (auto simp: holds_request_def request_def)
  have "command_format_by_slot mem num i r = command_pre_fragment mem num i c"
    using r c(1,2) cnt by (simp add: command_format_by_slot_def Let_def)
  moreover have "(\<lambda>u. key_slot (hd u)) ` set (units t as) = key_slot ` set ks"
    "map (\<lambda>u. key_slot (hd u)) (units t as) = map key_slot ks" "hd (last (units t as)) = last ks"
    using kh(2) us by (auto simp: last_map image_image)
  ultimately show ?thesis using pre_fragment_ok [OF mem num c(4) us, of i] c(3,4) by auto
qed

section \<open>Sub requests\<close>

lemma touched_slots: "length (filter (\<lambda>s. s \<in> key_slot ` set ks) [0..<REDIS_CLUSTER_SLOTS]) = card (key_slot ` set ks)"
proof -
  have "key_slot k < REDIS_CLUSTER_SLOTS" for k
    using keyHashSlot_bound by (simp add: key_slot_def REDIS_CLUSTER_SLOTS_def)
  then have "{s \<in> set [0..<REDIS_CLUSTER_SLOTS]. s \<in> key_slot ` set ks} = key_slot ` set ks" by auto
  then show ?thesis by (metis distinct_card distinct_filter distinct_upt set_filter)
qed

lemma settle_cases:
  assumes "n = length cs" "0 \<le> slot"
  shows "settle \<lparr>sp_slot = slot, sp_error = e, sp_command = c, sp_seq = q, sp_commands = cs\<rparr> =
    (if n = 1 then \<lparr>sp_slot = slot, sp_error = e, sp_command = c\<lparr>c_slot_num := slot\<rparr>, sp_seq = None, sp_commands = []\<rparr>
     else \<lparr>sp_slot = slot, sp_error = e, sp_command = c, sp_seq = q, sp_commands = cs\<rparr>)"
  using assms by (simp add: settle_def)

text \<open>The request of a sub command has the keys of its slot.\<close>

lemma alternate_units: "\<forall>u\<in>set us. length u = 2 \<Longrightarrow> alternate (concat us) = map hd us"
  by (induction us) (auto simp: length_Suc_conv numeral_2_eq_2)

lemma sub_request_type: "t \<in> {CMD_REQ_REDIS_MGET, CMD_REQ_REDIS_DEL, CMD_REQ_REDIS_MSET} \<Longrightarrow> command_type (sub_name t) = Some t"
  unfolding sub_name_def by (elim insertE) (simp_all, code_simp+)

lemma arity_split:
  "arity_of CMD_REQ_REDIS_MGET = ManyKeys" "arity_of CMD_REQ_REDIS_DEL = ManyKeys" "arity_of CMD_REQ_REDIS_MSET = KeyValuePairs"
  by code_simp+

lemma sub_request_keys:
  assumes "t \<in> {CMD_REQ_REDIS_MGET, CMD_REQ_REDIS_DEL, CMD_REQ_REDIS_MSET}"
    "\<forall>u\<in>set us. length u = (if t = CMD_REQ_REDIS_MSET then 2 else 1)"
  shows "key_args t (slot_part t us s) = Some (filter (\<lambda>k. key_slot k = s) (map hd us))"
proof -
  let ?us = "filter (\<lambda>u. key_slot (hd u) = s) us"
  have u: "\<forall>u\<in>set ?us. length u = (if t = CMD_REQ_REDIS_MSET then 2 else 1)" using assms(2) by auto
  have k: "filter (\<lambda>k. key_slot k = s) (map hd us) = map hd ?us" by (simp add: filter_map o_def)
  have one: "\<forall>u\<in>set vs. length u = 1 \<Longrightarrow> concat vs = map hd vs" for vs :: "bytes list list"
    by (induction vs) (auto simp: length_Suc_conv)
  have two: "\<forall>u\<in>set vs. length u = 2 \<Longrightarrow> length (concat vs) = 2 * length vs" for vs :: "bytes list list"
    by (rule concat_fixed)
  show ?thesis
  proof (cases "t = CMD_REQ_REDIS_MSET")
    case True
    then show ?thesis using alternate_units [of ?us] two [of ?us] u
      by (simp add: key_args_def slot_part_def pick_def arity_split k Let_def)
  next
    case False
    then have "arity_of t = ManyKeys" "concat ?us = map hd ?us" using one [of ?us] u assms(1) arity_split by auto
    then show ?thesis by (simp add: key_args_def slot_part_def pick_def k Let_def)
  qed
qed

lemma format_several:
  assumes "holds_request r (w # as)" "\<forall>n. mem n" "command_type w = Some t" "key_args t (w # as) = Some ks"
    "2 \<le> length ks" "[] \<notin> set ks" "length (request (w # as)) + 32 < 2 ^ 31" "length num = 12" "1 < card (key_slot ` set ks)"
  shows "\<exists>c cs. command_format_by_slot mem num i r = Some \<lparr>sp_slot = int (key_slot (last ks)), sp_error = None,
        sp_command = c, sp_seq = Some (map key_slot ks), sp_commands = cs\<rparr>
    \<and> parsed c t (units t as)
    \<and> map (\<lambda>c. nat (c_slot_num c)) cs = filter (\<lambda>s. s \<in> key_slot ` set ks) [0..<REDIS_CLUSTER_SLOTS]"
proof -
  obtain c cs where S: "command_format_by_slot mem num i r = Some (settle \<lparr>sp_slot = int (key_slot (last ks)), sp_error = None,
        sp_command = c, sp_seq = Some (map key_slot ks), sp_commands = cs\<rparr>)" "parsed c t (units t as)"
      "list_all2 (is_part t (units t as)) (filter (\<lambda>s. s \<in> key_slot ` set ks) [0..<REDIS_CLUSTER_SLOTS]) cs"
    using format_by_slot_ok [OF assms(1-8)] by blast
  have n: "card (key_slot ` set ks) = length cs" using list_all2_lengthD [OF S(3)] touched_slots by simp
  have "map (\<lambda>c. nat (c_slot_num c)) cs = filter (\<lambda>s. s \<in> key_slot ` set ks) [0..<REDIS_CLUSTER_SLOTS]"
    using S(3) by (induction rule: list_all2_induct) (auto simp: is_part_def)
  then show ?thesis using S(1,2) assms(9) by (auto simp: settle_cases [OF n])
qed

lemma slots_cover: "key_slot ` set ks = set (filter (\<lambda>s. s \<in> key_slot ` set ks) [0..<REDIS_CLUSTER_SLOTS])"
  using keyHashSlot_bound by (auto simp: key_slot_def REDIS_CLUSTER_SLOTS_def)

lemma count_by_slot:
  assumes "distinct ss" "key_slot ` set ks \<subseteq> set ss"
  shows "sum_list (map (\<lambda>s. length (filter (\<lambda>k. P k \<and> key_slot k = s) ks)) ss) = length (filter P ks)"
  using assms
proof (induction ks)
  case (Cons k ks)
  have "sum_list (map (\<lambda>s. if key_slot k = s then 1 else 0) ss) = (1::nat)"
    using Cons.prems by (simp add: sum_list_map_eq_sum_count2 sum_list_distinct_conv_sum_set)
  moreover have "length (filter (\<lambda>j. P j \<and> key_slot j = s) (k # ks))
      = (if P k then (if key_slot k = s then 1 else 0) else 0) + length (filter (\<lambda>j. P j \<and> key_slot j = s) ks)" for s by simp
  ultimately show ?case using Cons by (simp add: sum_list_addf del: filter.simps) simp
qed simp

lemma sum_list_of_nat_map: "sum_list (map (\<lambda>x. int (f x)) xs) = int (sum_list (map f xs))"
  by (induction xs) simp_all

lemma filter_two: "a < b \<Longrightarrow> b < n \<Longrightarrow> filter (\<lambda>s. s \<in> {b, a}) [0..<n] = [a, b]"
  by (rule sorted_distinct_set_unique) (auto intro!: sorted_wrt_filter)

lemma list_all2_each: "list_all2 P xs ys \<Longrightarrow> y \<in> set ys \<Longrightarrow> \<exists>x. P x y"
  by (induction rule: list_all2_induct) auto

lemma format_parts:
  assumes "holds_request r (w # as)" "\<forall>n. mem n" "command_type w = Some t" "key_args t (w # as) = Some ks"
    "2 \<le> length ks" "[] \<notin> set ks" "length (request (w # as)) + 32 < 2 ^ 31" "length num = 12"
  shows "\<exists>S. command_format_by_slot mem num i r = Some S \<and>
    (\<forall>c\<in>set (sp_commands S). \<exists>s. is_part t (units t as) s c \<and> length (request (slot_part t (units t as) s)) < 2 ^ 31)"
proof -
  obtain c cs where S: "command_format_by_slot mem num i r = Some (settle \<lparr>sp_slot = int (key_slot (last ks)), sp_error = None,
        sp_command = c, sp_seq = Some (map key_slot ks), sp_commands = cs\<rparr>)" "parsed c t (units t as)"
      "list_all2 (is_part t (units t as)) (filter (\<lambda>s. s \<in> key_slot ` set ks) [0..<REDIS_CLUSTER_SLOTS]) cs"
    using format_by_slot_ok [OF assms] by blast
  have "\<forall>c\<in>set cs. \<exists>s. is_part t (units t as) s c"
    using S(3) by (auto dest: list_all2_each)
  then show ?thesis using S(1) slot_part_fits [OF S(2)] by (auto simp: settle_def)
qed

end
