(* ===== verification/Reader.thy ===== *)
theory Reader
  imports SdsSplit SdsText
begin

text \<open>
  \<open>read.c\<close>, the incremental parser of server replies, and the reply objects of \<open>hiredis.c\<close>
  it builds through \<open>defaultFunctions\<close> (the only function table of the repository).

  Reply objects live in a store, a list of objects whose addresses are their positions: an
  array object holds the addresses of its elements, and a new object is linked into its parent
  when it is created, while the parent's other elements are still missing. The task stack is
  the array \<open>rstack\<close>; a task's \<open>parent\<close> is a position in it. \<open>None\<close> as the result of a function
  is an assertion that fails, an arithmetic overflow or an access outside an object.
\<close>

section \<open>Constants\<close>

definition REDIS_REPLY_STRING :: int where "REDIS_REPLY_STRING = 1"
definition REDIS_REPLY_ARRAY :: int where "REDIS_REPLY_ARRAY = 2"
definition REDIS_REPLY_INTEGER :: int where "REDIS_REPLY_INTEGER = 3"
definition REDIS_REPLY_NIL :: int where "REDIS_REPLY_NIL = 4"
definition REDIS_REPLY_STATUS :: int where "REDIS_REPLY_STATUS = 5"
definition REDIS_REPLY_ERROR :: int where "REDIS_REPLY_ERROR = 6"

lemmas reply_types = REDIS_REPLY_STRING_def REDIS_REPLY_ARRAY_def REDIS_REPLY_INTEGER_def
  REDIS_REPLY_NIL_def REDIS_REPLY_STATUS_def REDIS_REPLY_ERROR_def

definition REDIS_ERR_PROTOCOL :: int where "REDIS_ERR_PROTOCOL = 4"
definition REDIS_ERR_OOM :: int where "REDIS_ERR_OOM = 5"
definition REDIS_READER_MAX_BUF :: nat where "REDIS_READER_MAX_BUF = 1024 * 16"

section \<open>Reply objects\<close>

type_synonym address = nat

record robj =
  ro_type :: int
  ro_integer :: int
  ro_len :: int
  ro_str :: "bytes option"
  ro_elements :: nat
  ro_element :: "address option list option"

type_synonym store = "robj list"

record task =
  t_type :: int
  t_elements :: int
  t_idx :: int
  t_obj :: "address option"
  t_parent :: "nat option"

definition redisReply_size :: nat where "redisReply_size = 48"

definition createReplyObject :: "heap \<Rightarrow> int \<Rightarrow> robj option" where
  "createReplyObject mem ty =
     (if mem redisReply_size = None then None
      else Some \<lparr>ro_type = ty, ro_integer = 0, ro_len = 0, ro_str = None, ro_elements = 0, ro_element = None\<rparr>)"

text \<open>
  \<open>parent->element[task->idx] = r\<close>, with the assertion before it.
\<close>

definition attach :: "task list \<Rightarrow> task \<Rightarrow> address \<Rightarrow> store \<Rightarrow> store option" where
  "attach stk cur a st =
     (case t_parent cur of
        None \<Rightarrow> Some st
      | Some p \<Rightarrow>
          (case t_obj (stk ! p) of
             None \<Rightarrow> None
           | Some pa \<Rightarrow>
               if pa < length st \<and> ro_type (st ! pa) = REDIS_REPLY_ARRAY then
                 (case ro_element (st ! pa) of
                    None \<Rightarrow> None
                  | Some es \<Rightarrow>
                      if 0 \<le> t_idx cur \<and> nat (t_idx cur) < length es
                      then Some (st[pa := (st ! pa)\<lparr>ro_element := Some (es[nat (t_idx cur) := Some a])\<rparr>])
                      else None)
               else None))"

text \<open>A created object gets the next address; the inner \<open>None\<close> is the NULL that means out of
  memory.\<close>

definition place :: "task list \<Rightarrow> task \<Rightarrow> robj \<Rightarrow> store \<Rightarrow> (store \<times> address) option option" where
  "place stk cur ob st =
     map_option (\<lambda>st'. Some (st', length st)) (attach stk cur (length st) (st @ [ob]))"

definition createStringObject ::
    "heap \<Rightarrow> task list \<Rightarrow> task \<Rightarrow> bytes \<Rightarrow> nat \<Rightarrow> store \<Rightarrow> (store \<times> address) option option" where
  "createStringObject mem stk cur str len st =
     (case createReplyObject mem (t_type cur) of
        None \<Rightarrow> Some None
      | Some r \<Rightarrow>
          if malloc mem (len + 1) = None then Some None
          else if t_type cur \<notin> {REDIS_REPLY_ERROR, REDIS_REPLY_STATUS, REDIS_REPLY_STRING} then None
          else if length str < len then None
          else place stk cur (r\<lparr>ro_str := Some (take len str @ [NUL]), ro_len := to_int len\<rparr>) st)"

definition createArrayObject ::
    "heap \<Rightarrow> task list \<Rightarrow> task \<Rightarrow> int \<Rightarrow> store \<Rightarrow> (store \<times> address) option option" where
  "createArrayObject mem stk cur elements st =
     (case createReplyObject mem REDIS_REPLY_ARRAY of
        None \<Rightarrow> Some None
      | Some r \<Rightarrow>
          if elements > 0 \<and> mem (nat elements * 8) = None then Some None
          else place stk cur
            (r\<lparr>ro_element := (if elements > 0 then Some (replicate (nat elements) None) else None),
               ro_elements := to_size elements\<rparr>) st)"

definition createIntegerObject ::
    "heap \<Rightarrow> task list \<Rightarrow> task \<Rightarrow> int \<Rightarrow> store \<Rightarrow> (store \<times> address) option option" where
  "createIntegerObject mem stk cur value st =
     (case createReplyObject mem REDIS_REPLY_INTEGER of
        None \<Rightarrow> Some None
      | Some r \<Rightarrow> place stk cur (r\<lparr>ro_integer := value\<rparr>) st)"

definition createNilObject ::
    "heap \<Rightarrow> task list \<Rightarrow> task \<Rightarrow> store \<Rightarrow> (store \<times> address) option option" where
  "createNilObject mem stk cur st =
     (case createReplyObject mem REDIS_REPLY_NIL of
        None \<Rightarrow> Some None
      | Some r \<Rightarrow> place stk cur r st)"

section \<open>The reader\<close>

record reader =
  rd_err :: int
  rd_errstr :: bytes
  rd_buf :: "sds option"
  rd_pos :: nat
  rd_len :: nat
  rd_maxbuf :: nat
  rd_stack :: "task list"
  rd_ridx :: int
  rd_reply :: "address option"
  rd_store :: store

text \<open>\<open>r->buf + r->pos\<close>, with all cells behind it.\<close>

definition cells :: "reader \<Rightarrow> bytes" where
  "cells r = (case rd_buf r of None \<Rightarrow> [] | Some b \<Rightarrow> drop (rd_pos r) (s_buf b))"

text \<open>Freeing the partial reply leaves its objects in the store, unreachable.\<close>

definition redisReaderSetError :: "reader \<Rightarrow> int \<Rightarrow> bytes \<Rightarrow> reader" where
  "redisReaderSetError r ty str =
     (let r1 = r\<lparr>rd_reply := None\<rparr>;
          r2 = (if rd_buf r = None then r1 else r1\<lparr>rd_buf := None, rd_pos := 0, rd_len := 0\<rparr>)
      in r2\<lparr>rd_ridx := -1, rd_err := ty, rd_errstr := take 127 (cstr str)\<rparr>)"

definition chrtos :: "char \<Rightarrow> bytes" where
  "chrtos c =
     (let q = CHR 0x22; b = CHR 0x5C
      in if c = b \<or> c = q then [q, b, c, q]
         else if c = CHR 0x0A then [q, b, CHR ''n'', q]
         else if c = CHR 0x0D then [q, b, CHR ''r'', q]
         else if c = CHR 0x09 then [q, b, CHR ''t'', q]
         else if c = CHR 0x07 then [q, b, CHR ''a'', q]
         else if c = CHR 0x08 then [q, b, CHR ''b'', q]
         else if isprint c then [q, c, q]
         else q # b # CHR ''x'' # hex2 c @ [q])"

definition redisReaderSetErrorProtocolByte :: "reader \<Rightarrow> char \<Rightarrow> reader" where
  "redisReaderSetErrorProtocolByte r byte =
     redisReaderSetError r REDIS_ERR_PROTOCOL
       (''Protocol error, got '' @ take 7 (chrtos byte) @ '' as reply type byte'')"

definition redisReaderSetErrorOOM :: "reader \<Rightarrow> reader" where
  "redisReaderSetErrorOOM r = redisReaderSetError r REDIS_ERR_OOM ''Out of memory''"

definition readByte :: "reader \<Rightarrow> (char \<times> reader) option" where
  "readByte r = (if rd_len r - rd_pos r \<ge> 1 then Some (hd (cells r), r\<lparr>rd_pos := rd_pos r + 1\<rparr>) else None)"

text \<open>The search for CR LF: the inner loop skips to a CR, the outer one looks behind it.\<close>

function skip_to_cr :: "bytes \<Rightarrow> int \<Rightarrow> int \<Rightarrow> int" where
  "skip_to_cr s pos n = (if pos < n \<and> s ! nat pos \<noteq> CR then skip_to_cr s (pos + 1) n else pos)"
  by pat_completeness auto
termination by (relation "measure (\<lambda>(s, pos, n). nat (n - pos))") auto

declare skip_to_cr.simps [simp del]

lemma skip_to_cr_le: "pos \<le> skip_to_cr s pos n"
proof (induction s pos n rule: skip_to_cr.induct)
  case (1 s pos n)
  then show ?case by (subst skip_to_cr.simps) auto
qed

function seek_loop :: "bytes \<Rightarrow> int \<Rightarrow> int \<Rightarrow> nat option" where
  "seek_loop s pos n =
     (if pos < n then
        let p = skip_to_cr s pos n
        in if s ! nat p \<noteq> CR then None
           else if s ! nat (p + 1) = LF then Some (nat p)
           else seek_loop s (p + 1) n
      else None)"
  by pat_completeness auto
termination
proof (relation "measure (\<lambda>(s, pos, n). nat (n - pos))", goal_cases)
  case (2 s pos n p)
  then show ?case using skip_to_cr_le [of pos s n] by auto
qed simp

declare seek_loop.simps [simp del]

definition seekNewline :: "bytes \<Rightarrow> nat \<Rightarrow> nat option" where
  "seekNewline s len = seek_loop s 0 (wrap_int (int len - 1))"

text \<open>\<open>readLongLong\<close>: the digits up to the CR; a value beyond \<open>long long\<close> overflows.\<close>

fun ll_digits :: "bytes \<Rightarrow> int \<Rightarrow> (bool \<times> int) option" where
  "ll_digits [] v = None"
| "ll_digits (c # s) v =
     (if c = CR then Some (True, v)
      else if isdigit c then
        (if v * 10 + int (digit_val c) < 2 ^ 63 then ll_digits s (v * 10 + int (digit_val c)) else None)
      else Some (False, v))"

definition readLongLong :: "bytes \<Rightarrow> int option" where
  "readLongLong s =
     (let (mult, s') = (if s \<noteq> [] \<and> hd s = CHR ''-'' then (-1, tl s)
                        else if s \<noteq> [] \<and> hd s = CHR ''+'' then (1, tl s) else (1, s))
      in case ll_digits s' 0 of
           None \<Rightarrow> None
         | Some (ok, v) \<Rightarrow> Some (if ok then mult * v else -1))"

definition readLine :: "reader \<Rightarrow> (bytes \<times> nat \<times> reader) option" where
  "readLine r =
     (case seekNewline (cells r) (rd_len r - rd_pos r) of
        None \<Rightarrow> None
      | Some len \<Rightarrow> Some (cells r, len, r\<lparr>rd_pos := rd_pos r + len + 2\<rparr>))"

section \<open>Tasks\<close>

definition cur_task :: "reader \<Rightarrow> task" where
  "cur_task r = rd_stack r ! nat (rd_ridx r)"

function next_task :: "int \<Rightarrow> task list \<Rightarrow> (int \<times> task list) option" where
  "next_task ridx stk =
     (if ridx < 0 then Some (ridx, stk)
      else if ridx = 0 then Some (-1, stk)
      else let cur = stk ! nat ridx; prv = stk ! nat (ridx - 1)
           in if t_type prv \<noteq> REDIS_REPLY_ARRAY then None
              else if t_idx cur = t_elements prv - 1 then next_task (ridx - 1) stk
              else if \<not> t_idx cur < t_elements prv then None
              else Some (ridx, stk[nat ridx := cur\<lparr>t_type := -1, t_elements := -1, t_idx := t_idx cur + 1\<rparr>]))"
  by pat_completeness auto
termination by (relation "measure (\<lambda>(ridx, stk). nat (ridx + 1))") auto

declare next_task.simps [simp del]

definition moveToNextTask :: "reader \<Rightarrow> reader option" where
  "moveToNextTask r =
     (case next_task (rd_ridx r) (rd_stack r) of
        None \<Rightarrow> None
      | Some (i, stk) \<Rightarrow> Some (r\<lparr>rd_ridx := i, rd_stack := stk\<rparr>))"

text \<open>What follows a created object: the root object is the reply, and the task is done.\<close>

definition set_root :: "reader \<Rightarrow> store \<Rightarrow> address \<Rightarrow> reader" where
  "set_root r st a = r\<lparr>rd_store := st, rd_reply := (if rd_ridx r = 0 then Some a else rd_reply r)\<rparr>"

definition finish_item :: "reader \<Rightarrow> (store \<times> address) option option \<Rightarrow> (reader \<times> bool) option" where
  "finish_item r obj =
     (case obj of
        None \<Rightarrow> None
      | Some None \<Rightarrow> Some (redisReaderSetErrorOOM r, False)
      | Some (Some (st, a)) \<Rightarrow> map_option (\<lambda>r'. (r', True)) (moveToNextTask (set_root r st a)))"

definition processLineItem :: "heap \<Rightarrow> reader \<Rightarrow> (reader \<times> bool) option" where
  "processLineItem mem r =
     (let cur = cur_task r
      in case readLine r of
           None \<Rightarrow> Some (r, False)
         | Some (p, len, r1) \<Rightarrow>
             if t_type cur = REDIS_REPLY_INTEGER then
               (case readLongLong p of
                  None \<Rightarrow> None
                | Some v \<Rightarrow> finish_item r1 (createIntegerObject mem (rd_stack r1) cur v (rd_store r1)))
             else finish_item r1 (createStringObject mem (rd_stack r1) cur p len (rd_store r1)))"

definition processBulkItem :: "heap \<Rightarrow> reader \<Rightarrow> (reader \<times> bool) option" where
  "processBulkItem mem r =
     (let cur = cur_task r; p = cells r
      in case seekNewline p (rd_len r - rd_pos r) of
           None \<Rightarrow> Some (r, False)
         | Some s \<Rightarrow>
             (case readLongLong p of
                None \<Rightarrow> None
              | Some len \<Rightarrow>
                  let bytelen = s + 2
                  in if len < 0 then
                       finish_item (r\<lparr>rd_pos := rd_pos r + bytelen\<rparr>) (createNilObject mem (rd_stack r) cur (rd_store r))
                     else if len + 2 \<ge> 2 ^ 63 then None
                     else let bytelen = bytelen + nat len + 2
                          in if rd_pos r + bytelen \<le> rd_len r then
                               finish_item (r\<lparr>rd_pos := rd_pos r + bytelen\<rparr>)
                                 (createStringObject mem (rd_stack r) cur (drop (s + 2) p) (nat len) (rd_store r))
                             else Some (r, False)))"


definition fresh_task :: "nat \<Rightarrow> task" where
  "fresh_task parent = \<lparr>t_type = -1, t_elements = -1, t_idx = 0, t_obj = None, t_parent = Some parent\<rparr>"

text \<open>A non-empty array becomes the parent of a new task on the stack.\<close>

definition push_task :: "reader \<Rightarrow> int \<Rightarrow> address \<Rightarrow> reader" where
  "push_task r elements a =
     (let i = nat (rd_ridx r); cur = rd_stack r ! i
      in r\<lparr>rd_ridx := rd_ridx r + 1,
           rd_stack := (rd_stack r)[i := cur\<lparr>t_elements := elements, t_obj := Some a\<rparr>, i + 1 := fresh_task i]\<rparr>)"

definition processMultiBulkItem :: "heap \<Rightarrow> reader \<Rightarrow> (reader \<times> bool) option" where
  "processMultiBulkItem mem r =
     (let cur = cur_task r
      in if rd_ridx r = 8 then
           Some (redisReaderSetError r REDIS_ERR_PROTOCOL
                   ''No support for nested multi bulk replies with depth > 7'', False)
         else
           (case readLine r of
              None \<Rightarrow> Some (r, False)
            | Some (p, len, r1) \<Rightarrow>
                (case readLongLong p of
                   None \<Rightarrow> None
                 | Some elements \<Rightarrow>
                     if elements = -1 then
                       finish_item r1 (createNilObject mem (rd_stack r1) cur (rd_store r1))
                     else
                       (case createArrayObject mem (rd_stack r1) cur (wrap_int elements) (rd_store r1) of
                          None \<Rightarrow> None
                        | Some None \<Rightarrow> Some (redisReaderSetErrorOOM r1, False)
                        | Some (Some (st, a)) \<Rightarrow>
                            if elements > 0 then Some (push_task (set_root r1 st a) (wrap_int elements) a, True)
                            else map_option (\<lambda>r'. (r', True)) (moveToNextTask (set_root r1 st a))))))"

text \<open>The type byte; it stays consumed when the item itself is not complete yet.\<close>

definition reply_type_byte :: "char \<Rightarrow> int option" where
  "reply_type_byte c =
     (if c = CHR ''-'' then Some REDIS_REPLY_ERROR
      else if c = CHR ''+'' then Some REDIS_REPLY_STATUS
      else if c = CHR '':'' then Some REDIS_REPLY_INTEGER
      else if c = CHR ''$'' then Some REDIS_REPLY_STRING
      else if c = CHR ''*'' then Some REDIS_REPLY_ARRAY
      else None)"

definition set_cur_type :: "reader \<Rightarrow> int \<Rightarrow> reader" where
  "set_cur_type r ty = r\<lparr>rd_stack := (rd_stack r)[nat (rd_ridx r) := (cur_task r)\<lparr>t_type := ty\<rparr>]\<rparr>"

definition processTyped :: "heap \<Rightarrow> reader \<Rightarrow> (reader \<times> bool) option" where
  "processTyped mem r =
     (let ty = t_type (cur_task r)
      in if ty \<in> {REDIS_REPLY_ERROR, REDIS_REPLY_STATUS, REDIS_REPLY_INTEGER} then processLineItem mem r
         else if ty = REDIS_REPLY_STRING then processBulkItem mem r
         else if ty = REDIS_REPLY_ARRAY then processMultiBulkItem mem r
         else None)"

definition processItem :: "heap \<Rightarrow> reader \<Rightarrow> (reader \<times> bool) option" where
  "processItem mem r =
     (if t_type (cur_task r) < 0 then
        (case readByte r of
           None \<Rightarrow> Some (r, False)
         | Some (c, r1) \<Rightarrow>
             (case reply_type_byte c of
                None \<Rightarrow> Some (redisReaderSetErrorProtocolByte r1 c, False)
              | Some ty \<Rightarrow> processTyped mem (set_cur_type r1 ty)))
      else processTyped mem r)"

section \<open>Feeding and reading\<close>

definition zero_task :: task where
  "zero_task = \<lparr>t_type = 0, t_elements = 0, t_idx = 0, t_obj = None, t_parent = None\<rparr>"

text \<open>\<open>sizeof(redisReader)\<close> is 560 with 40-byte tasks on a 64-bit machine.\<close>

definition redisReaderCreate :: "heap \<Rightarrow> reader option" where
  "redisReaderCreate mem =
     (if mem 560 = None then None
      else case sdsempty mem of
             None \<Rightarrow> None
           | Some b \<Rightarrow>
               Some \<lparr>rd_err = 0, rd_errstr = [], rd_buf = Some b, rd_pos = 0, rd_len = 0,
                     rd_maxbuf = REDIS_READER_MAX_BUF, rd_stack = replicate 9 zero_task, rd_ridx = -1,
                     rd_reply = None, rd_store = []\<rparr>)"

definition redisReaderFeed :: "heap \<Rightarrow> reader \<Rightarrow> bytes \<Rightarrow> (reader \<times> bool) option" where
  "redisReaderFeed mem r buf =
     (if rd_err r \<noteq> 0 then Some (r, False)
      else if buf = [] then Some (r, True)
      else case rd_buf r of
             None \<Rightarrow> None
           | Some b \<Rightarrow>
               (case (if rd_len r = 0 \<and> rd_maxbuf r \<noteq> 0 \<and> sdsavail b > rd_maxbuf r
                      then map_option (\<lambda>e. r\<lparr>rd_buf := Some e, rd_pos := 0\<rparr>) (sdsempty mem)
                      else Some r) of
                  None \<Rightarrow> None
                | Some r1 \<Rightarrow>
                    (case sdscatlen mem (the (rd_buf r1)) buf of
                       None \<Rightarrow> Some (redisReaderSetErrorOOM r1, False)
                     | Some newbuf \<Rightarrow> Some (r1\<lparr>rd_buf := Some newbuf, rd_len := sdslen newbuf\<rparr>, True))))"

definition root_task :: task where
  "root_task = \<lparr>t_type = -1, t_elements = -1, t_idx = -1, t_obj = None, t_parent = None\<rparr>"

definition start_task :: "reader \<Rightarrow> reader" where
  "start_task r =
     (if rd_ridx r = -1 then r\<lparr>rd_stack := (rd_stack r)[0 := root_task], rd_ridx := 0\<rparr> else r)"

text \<open>Every item that is completed takes at least one byte from the buffer.\<close>

lemma wrap_int_le: "0 \<le> i + 2 ^ 31 \<Longrightarrow> wrap_int i \<le> i"
proof -
  assume i: "0 \<le> i + 2 ^ 31"
  have "wrap_int i = (i + 2 ^ 31) mod 2 ^ 32 - 2 ^ 31"
    by (simp add: wrap_int_def signed_take_bit_eq_take_bit_shift take_bit_eq_mod)
  moreover have "(i + 2 ^ 31) mod 2 ^ 32 \<le> i + 2 ^ 31" using i by (simp add: zmod_le_nonneg_dividend)
  ultimately show ?thesis by simp
qed

lemma seek_loop_some: "seek_loop s pos n = Some p \<Longrightarrow> pos < n"
  by (subst (asm) seek_loop.simps) (auto split: if_splits)

lemma seekNewline_pos: "seekNewline s len = Some p \<Longrightarrow> 0 < len"
  using wrap_int_le [of "int len - 1"] by (cases len) (auto simp: seekNewline_def dest!: seek_loop_some)

definition took :: "reader \<Rightarrow> reader \<Rightarrow> bool" where
  "took r r' \<longleftrightarrow> rd_pos r < rd_pos r' \<and> rd_pos r < rd_len r \<and> rd_len r' = rd_len r"

lemma moveToNextTask_pos: "moveToNextTask r = Some r' \<Longrightarrow> rd_pos r' = rd_pos r \<and> rd_len r' = rd_len r"
  by (auto simp: moveToNextTask_def split: option.splits)

lemma finish_item_pos: "finish_item r obj = Some (r', True) \<Longrightarrow> rd_pos r' = rd_pos r \<and> rd_len r' = rd_len r"
  by (auto simp: finish_item_def set_root_def dest!: moveToNextTask_pos split: option.splits)

lemma readLine_took: "readLine r = Some (p, len, r1) \<Longrightarrow> took r r1"
  by (auto simp: readLine_def took_def dest: seekNewline_pos split: option.splits)

lemma finish_item_took: "took r r1 \<Longrightarrow> finish_item r1 obj = Some (r', True) \<Longrightarrow> took r r'"
  by (auto simp: took_def dest!: finish_item_pos)

lemma processLineItem_took:
  assumes "processLineItem mem r = Some (r', True)" shows "took r r'"
proof -
  obtain p len r1 where l: "readLine r = Some (p, len, r1)"
    using assms by (auto simp: processLineItem_def Let_def split: option.splits)
  have "\<exists>obj. finish_item r1 obj = Some (r', True)"
    using assms l by (auto simp: processLineItem_def Let_def split: option.splits if_splits)
  with readLine_took [OF l] show ?thesis by (auto intro: finish_item_took)
qed

lemma processBulkItem_took:
  assumes "processBulkItem mem r = Some (r', True)" shows "took r r'"
proof -
  obtain s where s: "seekNewline (cells r) (rd_len r - rd_pos r) = Some s"
    using assms by (auto simp: processBulkItem_def Let_def split: option.splits)
  have t: "took r (r\<lparr>rd_pos := rd_pos r + (s + 2)\<rparr>)" "took r (r\<lparr>rd_pos := rd_pos r + (s + 2 + n + 2)\<rparr>)" for n
    using seekNewline_pos [OF s] by (simp_all add: took_def)
  show ?thesis
    using assms s t [THEN finish_item_took] unfolding processBulkItem_def Let_def
    by (simp only: option.case split: option.splits if_splits) auto
qed

lemma processMultiBulkItem_took:
  assumes "processMultiBulkItem mem r = Some (r', True)" shows "took r r'"
proof -
  have m: "took r r'" if "took r r1" "moveToNextTask (set_root r1 st a) = Some r'" for r1 st a
    using that(1) moveToNextTask_pos [OF that(2)] by (simp add: took_def set_root_def)
  have p: "took r (push_task (set_root r1 st a) n b)" if "took r r1" for r1 st a n b
    using that by (simp add: took_def push_task_def set_root_def Let_def)
  from assms show ?thesis
    by (auto simp: processMultiBulkItem_def Let_def p split: option.splits if_splits prod.splits
        dest!: readLine_took intro: m finish_item_took)
qed

lemma processTyped_took: "processTyped mem r = Some (r', True) \<Longrightarrow> took r r'"
  by (auto simp: processTyped_def Let_def split: if_splits
      dest: processLineItem_took processBulkItem_took processMultiBulkItem_took)

lemma processItem_took:
  assumes "processItem mem r = Some (r', True)" shows "took r r'"
proof (cases "t_type (cur_task r) < 0")
  case True
  with assms obtain c r1 ty where b: "readByte r = Some (c, r1)"
    and ty: "processTyped mem (set_cur_type r1 ty) = Some (r', True)"
    by (auto simp: processItem_def split: option.splits)
  from processTyped_took [OF ty] b show ?thesis
    by (auto simp: took_def readByte_def set_cur_type_def split: if_splits)
qed (use assms in \<open>auto simp: processItem_def dest: processTyped_took\<close>)

function item_loop :: "heap \<Rightarrow> reader \<Rightarrow> reader option" where
  "item_loop mem r =
     (if rd_ridx r < 0 then Some r
      else case processItem mem r of
             None \<Rightarrow> None
           | Some (r', ok) \<Rightarrow> if ok then item_loop mem r' else Some r')"
  by pat_completeness auto
termination
  by (relation "measure (\<lambda>(mem, r). rd_len r - rd_pos r)") (auto dest!: processItem_took simp: took_def)

declare item_loop.simps [simp del]

definition discard_read :: "reader \<Rightarrow> reader" where
  "discard_read r =
     (case rd_buf r of
        None \<Rightarrow> r
      | Some b \<Rightarrow>
          if rd_pos r \<ge> 1024 then
            let b' = sdsrange b (to_int (rd_pos r)) (-1)
            in r\<lparr>rd_buf := Some b', rd_pos := 0, rd_len := sdslen b'\<rparr>
          else r)"


definition redisReaderGetReply :: "heap \<Rightarrow> reader \<Rightarrow> (reader \<times> bool \<times> address option) option" where
  "redisReaderGetReply mem r =
     (if rd_err r \<noteq> 0 then Some (r, False, None)
      else if rd_len r = 0 then Some (r, True, None)
      else case item_loop mem (start_task r) of
             None \<Rightarrow> None
           | Some r1 \<Rightarrow>
               if rd_err r1 \<noteq> 0 then Some (r1, False, None)
               else let r2 = discard_read r1
                    in if rd_ridx r2 = -1 then Some (r2\<lparr>rd_reply := None\<rparr>, True, rd_reply r2)
                       else Some (r2, True, None))"

end
