(* ===== verification/ReaderSpec.thy ===== *)
theory ReaderSpec
  imports Reader
begin

text \<open>
  The reader as a machine on the unread bytes: what the parser of \<open>read.c\<close> promises, without
  its buffer, cursor and lengths. \<open>abs_reader\<close> maps a reader to a state of the machine, and
  every operation of the reader is shown to be the machine's operation on that state.
\<close>

section \<open>The end of a line\<close>

fun find_crlf :: "bytes \<Rightarrow> nat option" where
  "find_crlf (c # d # s) = (if c = CR \<and> d = LF then Some 0 else map_option Suc (find_crlf (d # s)))"
| "find_crlf s = None"

lemma find_crlf_Cons:
  "s \<noteq> [] \<Longrightarrow> find_crlf (c # s) = (if c = CR \<and> hd s = LF then Some 0 else map_option Suc (find_crlf s))"
  by (cases s) auto

lemma find_crlf_short: "length s \<le> 1 \<Longrightarrow> find_crlf s = None"
  by (cases s rule: find_crlf.cases) auto

lemma find_crlf_bound: "find_crlf s = Some n \<Longrightarrow> n + 2 \<le> length s \<and> s ! n = CR \<and> s ! (n + 1) = LF"
  by (induction s arbitrary: n rule: find_crlf.induct) (auto split: if_splits)

lemma find_crlf_append: "find_crlf s = Some n \<Longrightarrow> find_crlf (s @ t) = Some n"
  by (induction s arbitrary: n rule: find_crlf.induct) (auto split: if_splits)

lemma find_crlf_end: "find_crlf s = None \<Longrightarrow> find_crlf (s @ CR # LF # r) = Some (length s)"
proof (induction s)
  case (Cons c s)
  then show ?case by (cases s) (auto split: if_splits)
qed simp

text \<open>The first CR LF at or behind a position.\<close>

definition crlf_from :: "bytes \<Rightarrow> nat \<Rightarrow> nat option" where
  "crlf_from t i = map_option ((+) i) (find_crlf (drop i t))"

lemma crlf_from_skip:
  assumes "i < length t" "\<not> (t ! i = CR \<and> i + 1 < length t \<and> t ! (i + 1) = LF)"
  shows "crlf_from t i = crlf_from t (Suc i)"
proof -
  have "find_crlf (drop i t) = map_option Suc (find_crlf (drop (Suc i) t))"
    using assms by (cases "drop (Suc i) t = []") (auto simp: Cons_nth_drop_Suc [symmetric] hd_drop_conv_nth find_crlf_Cons)
  then show ?thesis by (cases "find_crlf (drop (Suc i) t)") (simp_all add: crlf_from_def)
qed

lemma crlf_from_here: "t ! i = CR \<Longrightarrow> i + 1 < length t \<Longrightarrow> t ! (i + 1) = LF \<Longrightarrow> crlf_from t i = Some i"
  by (simp add: crlf_from_def Cons_nth_drop_Suc [symmetric])

lemma crlf_from_end: "length t \<le> i + 1 \<Longrightarrow> crlf_from t i = None"
  using find_crlf_short [of "drop i t"] by (simp add: crlf_from_def)

text \<open>The two nested loops of \<open>seekNewline\<close>, on a string with its terminator.\<close>

lemma skip_to_cr_find:
  assumes "0 \<le> pos" "n = int (length t) - 1"
  shows "crlf_from t (nat pos) = crlf_from t (nat (skip_to_cr (t @ r) pos n))
    \<and> (skip_to_cr (t @ r) pos n < n \<longrightarrow> (t @ r) ! nat (skip_to_cr (t @ r) pos n) = CR)
    \<and> (pos < n \<longrightarrow> skip_to_cr (t @ r) pos n \<le> n)"
  using assms
proof (induction "t @ r" pos n rule: skip_to_cr.induct)
  case (1 pos n)
  show ?case
  proof (cases "pos < n \<and> (t @ r) ! nat pos \<noteq> CR")
    case True
    have "nat pos < length t" using True 1(2,3) by linarith
    moreover from this have "t ! nat pos \<noteq> CR" using True by (simp add: nth_append)
    ultimately have "crlf_from t (nat pos) = crlf_from t (nat (pos + 1))"
      using crlf_from_skip [of "nat pos" t] 1(2) by (simp add: nat_add_distrib)
    moreover have "skip_to_cr (t @ r) pos n = skip_to_cr (t @ r) (pos + 1) n"
      using True by (subst skip_to_cr.simps) simp
    moreover have "pos + 1 = n \<Longrightarrow> skip_to_cr (t @ r) (pos + 1) n = n"
      by (subst skip_to_cr.simps) simp
    ultimately show ?thesis using 1(1) [OF True] 1(2,3) True by (cases "pos + 1 = n") auto
  next
    case False
    then have "skip_to_cr (t @ r) pos n = pos" by (subst skip_to_cr.simps) auto
    then show ?thesis using False by auto
  qed
qed

lemma seek_loop_find:
  assumes "0 \<le> pos" "n = int (length t) - 1"
  shows "seek_loop (t @ NUL # r) pos n = crlf_from t (nat pos)"
  using assms
proof (induction "t @ NUL # r" pos n rule: seek_loop.induct)
  case (1 pos n)
  show ?case
  proof (cases "pos < n")
    case True
    define p where "p = skip_to_cr (t @ NUL # r) pos n"
    have sk: "crlf_from t (nat pos) = crlf_from t (nat p)" "p < n \<Longrightarrow> (t @ NUL # r) ! nat p = CR" "pos \<le> p" "p \<le> n"
      using skip_to_cr_find [OF 1(2,3)] skip_to_cr_le True by (auto simp: p_def)
    have p0: "0 \<le> p" "nat p < length t" using sk(3,4) 1(2,3) by simp_all
    have eq: "seek_loop (t @ NUL # r) pos n =
        (if t ! nat p \<noteq> CR then None
         else if (t @ NUL # r) ! (nat p + 1) = LF then Some (nat p) else seek_loop (t @ NUL # r) (p + 1) n)"
      using True p0 by (subst seek_loop.simps) (simp add: nth_append nat_add_distrib flip: p_def)
    consider "t ! nat p \<noteq> CR" | "t ! nat p = CR" "(t @ NUL # r) ! (nat p + 1) = LF"
      | "t ! nat p = CR" "(t @ NUL # r) ! (nat p + 1) \<noteq> LF" by blast
    then show ?thesis
    proof cases
      case 1
      then have "\<not> p < n" using sk(2) p0(2) by (auto simp: nth_append)
      then have "length t \<le> nat p + 1" using "1.prems"(2) p0 by linarith
      then show ?thesis using 1 eq sk(1) crlf_from_end by simp
    next
      case 2
      have "nat p + 1 < length t" using 2(2) p0(2) by (cases "nat p + 1 = length t") (auto simp: nth_append)
      then show ?thesis using 2 eq sk(1) crlf_from_here [of t "nat p"] by (simp add: nth_append)
    next
      case 3
      have no: "\<not> (t ! nat p = CR \<and> nat p + 1 < length t \<and> t ! (nat p + 1) = LF)"
        using 3(2) by (auto simp: nth_append)
      have "seek_loop (t @ NUL # r) (p + 1) n = crlf_from t (nat (p + 1))"
        using 1(1) [OF True p_def] 3 p0 "1.prems"(2) by (simp add: nth_append nat_add_distrib)
      then show ?thesis using eq 3 sk(1) crlf_from_skip [OF p0(2) no] p0(1) by (simp add: nat_add_distrib)
    qed
  next
    case False
    then have "length t \<le> nat pos + 1" using 1(2,3) by linarith
    then show ?thesis using False crlf_from_end by (subst seek_loop.simps) simp
  qed
qed

lemma seekNewline_find: "length t < 2 ^ 31 \<Longrightarrow> seekNewline (t @ NUL # r) (length t) = find_crlf t"
proof -
  assume n: "length t < 2 ^ 31"
  then have "wrap_int (int (length t) - 1) = int (length t) - 1"
    by (simp add: wrap_int_def signed_take_bit_int_eq_self)
  then show ?thesis using seek_loop_find [of 0 _ t r] by (cases "find_crlf t") (simp_all add: seekNewline_def crlf_from_def)
qed


section \<open>The machine on unread bytes\<close>

record parser =
  ps_err :: int
  ps_errstr :: bytes
  ps_input :: bytes
  ps_stack :: "task list"
  ps_ridx :: int
  ps_reply :: "address option"
  ps_store :: store

definition p_fail :: "parser \<Rightarrow> int \<Rightarrow> bytes \<Rightarrow> parser" where
  "p_fail p ty str =
     p\<lparr>ps_err := ty, ps_errstr := take 127 (cstr str), ps_input := [], ps_ridx := -1, ps_reply := None\<rparr>"

abbreviation p_oom :: "parser \<Rightarrow> parser" where
  "p_oom p \<equiv> p_fail p REDIS_ERR_OOM ''Out of memory''"

definition p_task :: "parser \<Rightarrow> task" where
  "p_task p = ps_stack p ! nat (ps_ridx p)"

definition p_next :: "parser \<Rightarrow> parser option" where
  "p_next p =
     (case next_task (ps_ridx p) (ps_stack p) of
        None \<Rightarrow> None
      | Some (i, stk) \<Rightarrow> Some (p\<lparr>ps_ridx := i, ps_stack := stk\<rparr>))"

definition p_root :: "parser \<Rightarrow> store \<Rightarrow> address \<Rightarrow> parser" where
  "p_root p st a = p\<lparr>ps_store := st, ps_reply := (if ps_ridx p = 0 then Some a else ps_reply p)\<rparr>"

definition p_finish :: "parser \<Rightarrow> (store \<times> address) option option \<Rightarrow> (parser \<times> bool) option" where
  "p_finish p obj =
     (case obj of
        None \<Rightarrow> None
      | Some None \<Rightarrow> Some (p_oom p, False)
      | Some (Some (st, a)) \<Rightarrow> map_option (\<lambda>p'. (p', True)) (p_next (p_root p st a)))"

definition p_push :: "parser \<Rightarrow> int \<Rightarrow> address \<Rightarrow> parser" where
  "p_push p elements a =
     (let i = nat (ps_ridx p); cur = ps_stack p ! i
      in p\<lparr>ps_ridx := ps_ridx p + 1,
           ps_stack := (ps_stack p)[i := cur\<lparr>t_elements := elements, t_obj := Some a\<rparr>, i + 1 := fresh_task i]\<rparr>)"

text \<open>An item whose type is known, given the length of the line in front.\<close>

definition p_line :: "heap \<Rightarrow> parser \<Rightarrow> nat \<Rightarrow> (parser \<times> bool) option" where
  "p_line mem p len =
     (let cur = p_task p; line = ps_input p; p1 = p\<lparr>ps_input := drop (len + 2) line\<rparr>
      in if t_type cur = REDIS_REPLY_INTEGER then
           (case readLongLong line of
              None \<Rightarrow> None
            | Some v \<Rightarrow> p_finish p1 (createIntegerObject mem (ps_stack p) cur v (ps_store p)))
         else p_finish p1 (createStringObject mem (ps_stack p) cur (take len line) len (ps_store p)))"

definition p_bulk :: "heap \<Rightarrow> parser \<Rightarrow> nat \<Rightarrow> (parser \<times> bool) option" where
  "p_bulk mem p s =
     (let cur = p_task p; line = ps_input p
      in case readLongLong line of
           None \<Rightarrow> None
         | Some len \<Rightarrow>
             if len < 0 then
               p_finish (p\<lparr>ps_input := drop (s + 2) line\<rparr>) (createNilObject mem (ps_stack p) cur (ps_store p))
             else if len + 2 \<ge> 2 ^ 63 then None
             else if s + 2 + nat len + 2 \<le> length line then
               p_finish (p\<lparr>ps_input := drop (s + 2 + nat len + 2) line\<rparr>)
                 (createStringObject mem (ps_stack p) cur (take (nat len) (drop (s + 2) line)) (nat len) (ps_store p))
             else Some (p, False))"

definition p_array :: "heap \<Rightarrow> parser \<Rightarrow> nat \<Rightarrow> (parser \<times> bool) option" where
  "p_array mem p len =
     (let cur = p_task p; line = ps_input p; p1 = p\<lparr>ps_input := drop (len + 2) line\<rparr>
      in case readLongLong line of
           None \<Rightarrow> None
         | Some elements \<Rightarrow>
             if elements = -1 then p_finish p1 (createNilObject mem (ps_stack p) cur (ps_store p))
             else
               (case createArrayObject mem (ps_stack p) cur (wrap_int elements) (ps_store p) of
                  None \<Rightarrow> None
                | Some None \<Rightarrow> Some (p_oom p1, False)
                | Some (Some (st, a)) \<Rightarrow>
                    if elements > 0 then Some (p_push (p_root p1 st a) (wrap_int elements) a, True)
                    else map_option (\<lambda>p'. (p', True)) (p_next (p_root p1 st a))))"

definition p_typed :: "heap \<Rightarrow> parser \<Rightarrow> (parser \<times> bool) option" where
  "p_typed mem p =
     (let ty = t_type (p_task p)
      in if ty = REDIS_REPLY_ARRAY \<and> ps_ridx p = 8 then
           Some (p_fail p REDIS_ERR_PROTOCOL ''No support for nested multi bulk replies with depth > 7'', False)
         else if ty \<notin> {REDIS_REPLY_ERROR, REDIS_REPLY_STATUS, REDIS_REPLY_INTEGER, REDIS_REPLY_STRING, REDIS_REPLY_ARRAY}
         then None
         else
           (case find_crlf (ps_input p) of
              None \<Rightarrow> Some (p, False)
            | Some len \<Rightarrow>
                if ty = REDIS_REPLY_STRING then p_bulk mem p len
                else if ty = REDIS_REPLY_ARRAY then p_array mem p len
                else p_line mem p len))"

definition p_item :: "heap \<Rightarrow> parser \<Rightarrow> (parser \<times> bool) option" where
  "p_item mem p =
     (if t_type (p_task p) < 0 then
        (case ps_input p of
           [] \<Rightarrow> Some (p, False)
         | c # s \<Rightarrow>
             (case reply_type_byte c of
                None \<Rightarrow>
                  Some (p_fail p REDIS_ERR_PROTOCOL
                    (''Protocol error, got '' @ take 7 (chrtos c) @ '' as reply type byte''), False)
              | Some ty \<Rightarrow>
                  p_typed mem (p\<lparr>ps_input := s,
                    ps_stack := (ps_stack p)[nat (ps_ridx p) := (p_task p)\<lparr>t_type := ty\<rparr>]\<rparr>)))
      else p_typed mem p)"


section \<open>The reader refines the machine\<close>

definition unread :: "reader \<Rightarrow> bytes" where
  "unread r = (case rd_buf r of None \<Rightarrow> [] | Some b \<Rightarrow> drop (rd_pos r) (sds_text b))"

definition abs_reader :: "reader \<Rightarrow> parser" where
  "abs_reader r =
     \<lparr>ps_err = rd_err r, ps_errstr = rd_errstr r, ps_input = unread r, ps_stack = rd_stack r,
      ps_ridx = rd_ridx r, ps_reply = rd_reply r, ps_store = rd_store r\<rparr>"

abbreviation abs_result :: "(reader \<times> bool) option \<Rightarrow> (parser \<times> bool) option" where
  "abs_result \<equiv> map_option (\<lambda>(r, ok). (abs_reader r, ok))"

text \<open>The buffer and the cursor are consistent.\<close>

definition live :: "reader \<Rightarrow> bool" where
  "live r \<longleftrightarrow>
     (case rd_buf r of
        None \<Rightarrow> False
      | Some b \<Rightarrow> sds_inv b \<and> length (sds_text b) < 2 ^ 31 \<and> rd_len r = length (sds_text b)
          \<and> rd_pos r \<le> rd_len r)"

lemma sds_cells:
  assumes "sds_inv b" shows "\<exists>x. s_buf b = sds_text b @ NUL # x"
proof -
  note l = sds_inv_len [OF assms]
  have "s_buf b = take (length (sds_text b)) (s_buf b) @ s_buf b ! length (sds_text b) # drop (Suc (length (sds_text b))) (s_buf b)"
    using l(5) by (intro id_take_nth_drop) simp
  moreover have "take (length (sds_text b)) (s_buf b) = sds_text b" by (simp add: l(1)) (simp add: sds_text_def)
  ultimately show ?thesis using l(6) by metis
qed

lemma live_unread: "live r \<Longrightarrow> length (unread r) = rd_len r - rd_pos r"
  by (auto simp: live_def unread_def split: option.splits)

lemma live_cells: "live r \<Longrightarrow> \<exists>x. cells r = unread r @ NUL # x"
  by (auto simp: live_def unread_def cells_def split: option.splits dest!: sds_cells)

lemma live_move:
  assumes "live r" "n \<le> length (unread r)"
  shows "live (r\<lparr>rd_pos := rd_pos r + n\<rparr>)" "unread (r\<lparr>rd_pos := rd_pos r + n\<rparr>) = drop n (unread r)"
  using assms live_unread [OF assms(1)] by (auto simp: live_def unread_def add.commute split: option.splits)

lemma live_seek: "live r \<Longrightarrow> seekNewline (cells r) (rd_len r - rd_pos r) = find_crlf (unread r)"
proof -
  assume l: "live r"
  then obtain x where "cells r = unread r @ NUL # x" using live_cells by blast
  moreover have "length (unread r) < 2 ^ 31"
    using l by (auto simp: live_def unread_def split: option.splits)
  ultimately show ?thesis using seekNewline_find [of "unread r" x] live_unread [OF l] by simp
qed

lemma ll_digits_append: "CR \<in> set s \<Longrightarrow> ll_digits (s @ x) v = ll_digits s v"
  by (induction s v rule: ll_digits.induct) auto

lemma readLongLong_append: "CR \<in> set s \<Longrightarrow> readLongLong (s @ x) = readLongLong s"
proof -
  assume c: "CR \<in> set s"
  then have "s \<noteq> []" by auto
  moreover from this have "hd s = CHR ''-'' \<or> hd s = CHR ''+'' \<Longrightarrow> CR \<in> set (tl s)" using c by (cases s) auto
  ultimately show ?thesis using c ll_digits_append [of "tl s" x 0] ll_digits_append [of s x 0]
    by (auto simp: readLongLong_def Let_def)
qed

lemma live_number: "live r \<Longrightarrow> find_crlf (unread r) = Some n \<Longrightarrow> readLongLong (cells r) = readLongLong (unread r)"
proof -
  assume l: "live r" and f: "find_crlf (unread r) = Some n"
  then obtain x where "cells r = unread r @ NUL # x" using live_cells by blast
  moreover have "CR \<in> set (unread r)" using find_crlf_bound [OF f] by (metis Suc_le_lessD add_2_eq_Suc' nth_mem less_SucI Suc_less_eq less_Suc_eq_le le_SucI)
  ultimately show ?thesis using readLongLong_append by simp
qed

lemma createStringObject_take:
  "n \<le> length s \<Longrightarrow> createStringObject mem stk cur (s @ x) n st = createStringObject mem stk cur (take n s) n st"
  by (auto simp: createStringObject_def split: option.split)

lemma live_string:
  assumes "live r" "m + n \<le> length (unread r)"
  shows "createStringObject mem stk cur (drop m (cells r)) n st = createStringObject mem stk cur (take n (drop m (unread r))) n st"
proof -
  obtain x where "cells r = unread r @ NUL # x" using live_cells assms(1) by blast
  then have "drop m (cells r) = drop m (unread r) @ NUL # x" using assms(2) by simp
  then show ?thesis using createStringObject_take [of n "drop m (unread r)"] assms(2) by simp
qed

lemma abs_fail: "rd_buf r \<noteq> None \<Longrightarrow> abs_reader (redisReaderSetError r ty str) = p_fail (abs_reader r) ty str"
  by (auto simp: redisReaderSetError_def abs_reader_def p_fail_def unread_def Let_def)

lemma abs_next: "map_option abs_reader (moveToNextTask r) = p_next (abs_reader r)"
  by (auto simp: moveToNextTask_def p_next_def abs_reader_def unread_def split: option.splits)

lemma abs_set_root: "abs_reader (set_root r st a) = p_root (abs_reader r) st a"
  by (simp add: abs_reader_def set_root_def p_root_def unread_def split: option.split)

text \<open>What an item leaves: a live reader, unless it failed.\<close>

lemma live_next: "moveToNextTask r = Some r' \<Longrightarrow> live r \<Longrightarrow> live r' \<and> rd_err r' = rd_err r"
  by (auto simp: moveToNextTask_def live_def split: option.splits)

lemma live_set_root: "live (set_root r st a) = live r" "rd_err (set_root r st a) = rd_err r"
  by (simp_all add: live_def set_root_def split: option.split)

lemma fail_err: "rd_err (redisReaderSetError r ty str) = ty"
  by (simp add: redisReaderSetError_def Let_def)

definition left_live :: "reader \<Rightarrow> (reader \<times> bool) option \<Rightarrow> bool" where
  "left_live r res \<longleftrightarrow>
     (case res of
        None \<Rightarrow> True
      | Some (r', ok) \<Rightarrow> live r' \<and> rd_err r' = rd_err r \<or> \<not> ok \<and> rd_err r' \<noteq> 0)"

definition refines :: "reader \<Rightarrow> (reader \<times> bool) option \<Rightarrow> (parser \<times> bool) option \<Rightarrow> bool" where
  "refines r res pres \<longleftrightarrow> abs_result res = pres \<and> left_live r res"

lemma live_buf: "live r \<Longrightarrow> rd_buf r \<noteq> None"
  by (auto simp: live_def split: option.splits)

lemma abs_move: "live r \<Longrightarrow> n \<le> length (unread r) \<Longrightarrow>
    abs_reader (r\<lparr>rd_pos := rd_pos r + n\<rparr>) = abs_reader r\<lparr>ps_input := drop n (unread r)\<rparr>"
  using live_move(2) [of r n] by (simp add: abs_reader_def)

lemma abs_sel [simp]:
  "ps_input (abs_reader r) = unread r" "ps_stack (abs_reader r) = rd_stack r" "ps_ridx (abs_reader r) = rd_ridx r"
  "ps_store (abs_reader r) = rd_store r" "p_task (abs_reader r) = cur_task r" "ps_err (abs_reader r) = rd_err r"
  by (simp_all add: abs_reader_def p_task_def cur_task_def)

lemma left_live_err: "rd_err r = rd_err q \<Longrightarrow> left_live r res = left_live q res"
  by (simp add: left_live_def split: option.split)

lemma refines_none: "refines r None None"
  by (simp add: refines_def left_live_def)

lemma refines_same: "live r \<Longrightarrow> refines r (Some (r, ok)) (Some (abs_reader r, ok))"
  by (simp add: refines_def left_live_def)

lemma refines_fail:
  "live r1 \<Longrightarrow> ty \<noteq> 0 \<Longrightarrow>
   refines r (Some (redisReaderSetError r1 ty str, False)) (Some (p_fail (abs_reader r1) ty str, False))"
  by (simp add: refines_def left_live_def abs_fail live_buf fail_err)

lemma refines_next:
  assumes "live r1" "rd_err r1 = rd_err r"
  shows "refines r (map_option (\<lambda>r'. (r', True)) (moveToNextTask (set_root r1 st a)))
    (map_option (\<lambda>p'. (p', True)) (p_next (p_root (abs_reader r1) st a)))"
  using assms by (auto simp: refines_def left_live_def live_set_root option.map_comp o_def
      dest!: live_next split: option.split simp flip: abs_next abs_set_root)

lemma refines_finish:
  "live r1 \<Longrightarrow> rd_err r1 = rd_err r \<Longrightarrow> refines r (finish_item r1 obj) (p_finish (abs_reader r1) obj)"
  by (auto simp: finish_item_def p_finish_def redisReaderSetErrorOOM_def REDIS_ERR_OOM_def
      intro: refines_none refines_fail refines_next split: option.split)

text \<open>Keep \<open>n + 2\<close> as it is written.\<close>

declare add_2_eq_Suc [simp del] add_2_eq_Suc' [simp del]

text \<open>The reader behind the first \<open>n\<close> unread bytes.\<close>

definition behind :: "reader \<Rightarrow> nat \<Rightarrow> reader" where
  "behind r n = r\<lparr>rd_pos := rd_pos r + n\<rparr>"

lemma behind_facts:
  assumes "live r" "n \<le> length (unread r)"
  shows "live (behind r n)" "rd_err (behind r n) = rd_err r" "rd_store (behind r n) = rd_store r"
    "rd_stack (behind r n) = rd_stack r"
    "abs_reader r\<lparr>ps_input := drop n (unread r)\<rparr> = abs_reader (behind r n)"
  using live_move [OF assms] abs_move [OF assms] by (simp_all add: behind_def)

lemma refine_line:
  assumes l: "live r" and f: "find_crlf (unread r) = Some len"
    and t: "t_type (cur_task r) \<noteq> REDIS_REPLY_STRING" "t_type (cur_task r) \<noteq> REDIS_REPLY_ARRAY"
  shows "refines r (processLineItem mem r) (p_line mem (abs_reader r) len)"
proof -
  have n: "len + 2 \<le> length (unread r)" using find_crlf_bound [OF f] by simp
  have line: "readLine r = Some (cells r, len, behind r (len + 2))"
    using live_seek [OF l] f by (simp add: readLine_def behind_def)
  note b = behind_facts [OF l n]
  have s: "createStringObject mem (rd_stack r) cur (cells r) len st = createStringObject mem (rd_stack r) cur (take len (unread r)) len st" for cur st
    using live_string [OF l, of 0 len] n by simp
  show ?thesis
  proof (cases "t_type (cur_task r) = REDIS_REPLY_INTEGER")
    case True
    then show ?thesis using refines_finish [OF b(1,2)] refines_none
      by (cases "readLongLong (unread r)") (simp_all add: processLineItem_def p_line_def line b live_number [OF l f])
  next
    case False
    then show ?thesis using refines_finish [OF b(1,2)]
      by (simp add: processLineItem_def p_line_def line b s)
  qed
qed

lemma refine_bulk:
  assumes l: "live r" and f: "find_crlf (unread r) = Some n"
  shows "refines r (processBulkItem mem r) (p_bulk mem (abs_reader r) n)"
proof (cases "readLongLong (unread r)")
  case None
  then show ?thesis using live_seek [OF l] f live_number [OF l f] refines_none
    by (simp add: processBulkItem_def p_bulk_def Let_def)
next
  case (Some len)
  have n: "n + 2 \<le> length (unread r)" using find_crlf_bound [OF f] by simp
  define k where "k = n + 2 + nat len + 2"
  note b = behind_facts [OF l n] and b' = behind_facts [OF l, of k]
  have fit: "(rd_pos r + (n + 2 + nat len + 2) \<le> rd_len r) = (k \<le> length (unread r))"
    using live_unread [OF l] n by (auto simp: k_def)
  have s: "k \<le> length (unread r) \<Longrightarrow>
      createStringObject mem (rd_stack r) cur (drop (n + 2) (cells r)) (nat len) st =
      createStringObject mem (rd_stack r) cur (take (nat len) (drop (n + 2) (unread r))) (nat len) st" for cur st
    by (intro live_string [OF l]) (simp add: k_def)
  have eq: "processBulkItem mem r =
      (if len < 0 then finish_item (behind r (n + 2)) (createNilObject mem (rd_stack r) (cur_task r) (rd_store r))
       else if len + 2 \<ge> 2 ^ 63 then None
       else if k \<le> length (unread r) then finish_item (behind r k)
         (createStringObject mem (rd_stack r) (cur_task r) (take (nat len) (drop (n + 2) (unread r))) (nat len) (rd_store r))
       else Some (r, False))"
    using s by (simp only: processBulkItem_def Let_def live_seek [OF l] f live_number [OF l f] Some option.case fit)
      (simp add: behind_def k_def)
  have eq': "p_bulk mem (abs_reader r) n =
      (if len < 0 then p_finish (abs_reader (behind r (n + 2))) (createNilObject mem (rd_stack r) (cur_task r) (rd_store r))
       else if len + 2 \<ge> 2 ^ 63 then None
       else if k \<le> length (unread r) then p_finish (abs_reader (behind r k))
         (createStringObject mem (rd_stack r) (cur_task r) (take (nat len) (drop (n + 2) (unread r))) (nat len) (rd_store r))
       else Some (abs_reader r, False))"
    using Some b' by (simp only: p_bulk_def Let_def option.case abs_sel b(5) flip: k_def) simp
  show ?thesis unfolding eq eq'
    using refines_finish [OF b(1,2)] refines_finish [OF b'(1,2)] refines_none refines_same [OF l] by simp
qed

lemma live_push: "live (push_task r n a) = live r" "rd_err (push_task r n a) = rd_err r"
  "abs_reader (push_task r n a) = p_push (abs_reader r) n a"
  by (simp_all add: push_task_def live_def p_push_def abs_reader_def unread_def Let_def split: option.split)

lemma refine_array:
  assumes l: "live r" and f: "find_crlf (unread r) = Some len" and d: "rd_ridx r \<noteq> 8"
  shows "refines r (processMultiBulkItem mem r) (p_array mem (abs_reader r) len)"
proof (cases "readLongLong (unread r)")
  case None
  then show ?thesis using live_seek [OF l] f live_number [OF l f] d refines_none
    by (simp add: processMultiBulkItem_def p_array_def Let_def readLine_def)
next
  case (Some n)
  have k: "len + 2 \<le> length (unread r)" using find_crlf_bound [OF f] by simp
  have line: "readLine r = Some (cells r, len, behind r (len + 2))"
    using live_seek [OF l] f by (simp add: readLine_def behind_def)
  note b = behind_facts [OF l k]
  have push: "refines r (Some (push_task (set_root (behind r (len + 2)) st a) (wrap_int n) a, True))
      (Some (p_push (p_root (abs_reader (behind r (len + 2))) st a) (wrap_int n) a, True))" for st a
    using b by (simp add: refines_def left_live_def live_push live_set_root abs_set_root)
  show ?thesis
    using Some d push refines_finish [OF b(1,2)] refines_none refines_next [OF b(1,2)] refines_fail [OF b(1)]
    by (simp add: processMultiBulkItem_def p_array_def Let_def line b live_number [OF l f]
        redisReaderSetErrorOOM_def REDIS_ERR_OOM_def split: option.split)
qed


lemma refine_typed: "live r \<Longrightarrow> refines r (processTyped mem r) (p_typed mem (abs_reader r))"
proof -
  assume l: "live r"
  let ?ty = "t_type (cur_task r)"
  have wait: "find_crlf (unread r) = None \<Longrightarrow> readLine r = None"
    using live_seek [OF l] by (simp add: readLine_def)
  consider "?ty = REDIS_REPLY_ARRAY" "rd_ridx r = 8" | "?ty = REDIS_REPLY_ARRAY" "rd_ridx r \<noteq> 8"
    | "?ty = REDIS_REPLY_STRING" | "?ty \<in> {REDIS_REPLY_ERROR, REDIS_REPLY_STATUS, REDIS_REPLY_INTEGER}"
    | "?ty \<notin> {REDIS_REPLY_ERROR, REDIS_REPLY_STATUS, REDIS_REPLY_INTEGER, REDIS_REPLY_STRING, REDIS_REPLY_ARRAY}"
    by blast
  then show ?thesis
  proof cases
    case 1
    then show ?thesis using refines_fail [OF l, of REDIS_ERR_PROTOCOL r]
      by (simp add: processTyped_def p_typed_def processMultiBulkItem_def Let_def reply_types REDIS_ERR_PROTOCOL_def)
  next
    case 2
    then show ?thesis using refine_array [OF l] refines_same [OF l] wait
      by (cases "find_crlf (unread r)")
        (simp_all add: processTyped_def p_typed_def processMultiBulkItem_def Let_def reply_types)
  next
    case 3
    then show ?thesis using refine_bulk [OF l] refines_same [OF l] live_seek [OF l]
      by (cases "find_crlf (unread r)")
        (simp_all add: processTyped_def p_typed_def processBulkItem_def Let_def reply_types)
  next
    case 4
    then show ?thesis using refine_line [OF l] refines_same [OF l] wait
      by (cases "find_crlf (unread r)")
        (auto simp: processTyped_def p_typed_def processLineItem_def Let_def reply_types)
  next
    case 5
    then show ?thesis by (simp add: processTyped_def p_typed_def Let_def refines_none)
  qed
qed

lemma refine_item:
  assumes l: "live r" shows "refines r (processItem mem r) (p_item mem (abs_reader r))"
proof (cases "t_type (cur_task r) < 0")
  case False
  then show ?thesis using refine_typed [OF l] by (simp add: processItem_def p_item_def)
next
  case True
  show ?thesis
  proof (cases "unread r")
    case Nil
    then show ?thesis using True refines_same [OF l] live_unread [OF l]
      by (simp add: processItem_def p_item_def readByte_def)
  next
    case (Cons c s)
    note b = behind_facts [OF l, of 1]
    obtain x where "cells r = unread r @ NUL # x" using live_cells [OF l] by blast
    then have rb: "readByte r = Some (c, behind r 1)"
      using Cons live_unread [OF l] by (simp add: readByte_def behind_def)
    have b1: "live (behind r 1)" "rd_err (behind r 1) = rd_err r" "abs_reader r\<lparr>ps_input := s\<rparr> = abs_reader (behind r 1)"
      using b Cons by simp_all
    have tt: "live (set_cur_type (behind r 1) ty)" "rd_err (set_cur_type (behind r 1) ty) = rd_err r"
      "abs_reader (set_cur_type (behind r 1) ty) = abs_reader r\<lparr>ps_input := s,
         ps_stack := (rd_stack r)[nat (rd_ridx r) := (cur_task r)\<lparr>t_type := ty\<rparr>]\<rparr>" for ty
      using b1 Cons
      by (auto simp: set_cur_type_def live_def abs_reader_def behind_def unread_def cur_task_def split: option.splits)
    show ?thesis
    proof (cases "reply_type_byte c")
      case None
      have "refines r (Some (redisReaderSetErrorProtocolByte (behind r 1) c, False))
          (Some (p_fail (abs_reader (behind r 1)) REDIS_ERR_PROTOCOL
            (''Protocol error, got '' @ take 7 (chrtos c) @ '' as reply type byte''), False))"
        unfolding redisReaderSetErrorProtocolByte_def
        by (intro refines_fail b1) (simp add: REDIS_ERR_PROTOCOL_def)
      moreover have "p_fail (abs_reader r) ty str = p_fail (abs_reader (behind r 1)) ty str" for ty str
        by (simp add: p_fail_def abs_reader_def behind_def)
      ultimately show ?thesis using True Cons rb None by (simp add: processItem_def p_item_def)
    next
      case (Some ty)
      have "refines r (processTyped mem (set_cur_type (behind r 1) ty))
          (p_typed mem (abs_reader (set_cur_type (behind r 1) ty)))"
        using refine_typed [OF tt(1), of ty mem] left_live_err [OF tt(2)] by (simp add: refines_def)
      then show ?thesis using True Cons rb Some tt(3) by (simp add: processItem_def p_item_def)
    qed
  qed
qed

section \<open>The loop over items\<close>

lemma p_finish_input: "p_finish p obj = Some (p', True) \<Longrightarrow> ps_input p' = ps_input p"
  by (auto simp: p_finish_def p_next_def p_root_def split: option.splits)

lemma p_typed_shorter:
  assumes "p_typed mem p = Some (p', True)" shows "length (ps_input p') < length (ps_input p)"
proof -
  obtain n where n: "find_crlf (ps_input p) = Some n" "n + 2 \<le> length (ps_input p)"
    using assms find_crlf_bound by (auto simp: p_typed_def Let_def split: if_splits option.splits)
  have cut: "length (drop (n + 2) (ps_input p)) < length (ps_input p)"
    "length (drop (n + 2 + k + 2) (ps_input p)) < length (ps_input p)" for k using n(2) by simp_all
  have ob: "p_bulk mem p n = Some (p', True) \<Longrightarrow> ?thesis"
    using cut by (auto simp: p_bulk_def Let_def dest!: p_finish_input split: option.splits if_splits)
  have oa: "p_array mem p n = Some (p', True) \<Longrightarrow> ?thesis"
    using cut(1) by (auto simp: p_array_def Let_def p_push_def p_root_def p_next_def
        dest!: p_finish_input split: option.splits if_splits)
  have ol: "p_line mem p n = Some (p', True) \<Longrightarrow> ?thesis"
    using cut(1) by (auto simp: p_line_def Let_def dest!: p_finish_input split: option.splits if_splits)
  show ?thesis using assms n(1) ob oa ol by (auto simp: p_typed_def Let_def split: if_splits)
qed

lemma p_item_shorter:
  assumes "p_item mem p = Some (p', True)" shows "length (ps_input p') < length (ps_input p)"
  using assms
  by (auto simp: p_item_def dest!: p_typed_shorter split: if_splits list.splits option.splits)

function p_loop :: "heap \<Rightarrow> parser \<Rightarrow> parser option" where
  "p_loop mem p =
     (if ps_ridx p < 0 then Some p
      else case p_item mem p of
             None \<Rightarrow> None
           | Some (p', ok) \<Rightarrow> if ok then p_loop mem p' else Some p')"
  by pat_completeness auto
termination
  by (relation "measure (\<lambda>(mem, p). length (ps_input p))") (auto dest!: p_item_shorter)

declare p_loop.simps [simp del]

lemma refine_loop:
  "live r \<Longrightarrow> map_option abs_reader (item_loop mem r) = p_loop mem (abs_reader r)
    \<and> (\<forall>r'. item_loop mem r = Some r' \<longrightarrow> live r' \<and> rd_err r' = rd_err r \<or> rd_err r' \<noteq> 0)"
proof (induction mem r rule: item_loop.induct)
  case (1 mem r)
  note ref = refine_item [OF 1(2), of mem, unfolded refines_def left_live_def]
  show ?case
  proof (cases "rd_ridx r < 0")
    case True
    then show ?thesis using 1(2) by (subst (1 2) item_loop.simps, subst p_loop.simps) simp
  next
    case False
    show ?thesis
    proof (cases "processItem mem r")
      case None
      then show ?thesis using ref False by (subst (1 2) item_loop.simps, subst p_loop.simps) simp
    next
      case (Some x)
      then obtain r' ok where x: "processItem mem r = Some (r', ok)" by (cases x) auto
      then have p: "p_item mem (abs_reader r) = Some (abs_reader r', ok)" using ref by simp
      show ?thesis
      proof (cases ok)
        case True
        then have "live r'" "rd_err r' = rd_err r" using ref x by auto
        from 1(1) [OF False x refl True this(1)] this(2) show ?thesis
          using False True x p by (subst (1 2) item_loop.simps, subst p_loop.simps) auto
      next
        case no: False
        then show ?thesis using False x p ref by (subst (1 2) item_loop.simps, subst p_loop.simps) auto
      qed
    qed
  qed
qed


section \<open>Feeding and getting\<close>

definition p_start :: "parser \<Rightarrow> parser" where
  "p_start p =
     (if ps_ridx p = -1 then p\<lparr>ps_stack := (ps_stack p)[0 := root_task], ps_ridx := 0\<rparr> else p)"

definition p_feed :: "parser \<Rightarrow> bytes \<Rightarrow> parser" where
  "p_feed p buf = (if ps_err p \<noteq> 0 then p else p\<lparr>ps_input := ps_input p @ buf\<rparr>)"

definition p_get :: "heap \<Rightarrow> parser \<Rightarrow> (parser \<times> bool \<times> address option) option" where
  "p_get mem p =
     (if ps_err p \<noteq> 0 then Some (p, False, None)
      else case p_loop mem p of
             None \<Rightarrow> None
           | Some p1 \<Rightarrow>
               if ps_err p1 \<noteq> 0 then Some (p1, False, None)
               else if ps_ridx p1 = -1 then Some (p_start (p1\<lparr>ps_reply := None\<rparr>), True, ps_reply p1)
               else Some (p1, True, None))"

lemma discard_live:
  assumes "live r"
  shows "live (discard_read r)" "abs_reader (discard_read r) = abs_reader r" "rd_ridx (discard_read r) = rd_ridx r"
    "rd_reply (discard_read r) = rd_reply r" "rd_err (discard_read r) = rd_err r"
proof -
  obtain b where b: "rd_buf r = Some b" "sds_inv b" "length (sds_text b) < 2 ^ 31" "rd_len r = length (sds_text b)"
    "rd_pos r \<le> length (sds_text b)" using assms by (auto simp: live_def split: option.splits)
  let ?c = "sdsrange b (to_int (rd_pos r)) (-1)"
  have "rd_pos r < 2 ^ 31" using b(3,5) by simp
  then have c: "sds_inv ?c" "sds_text ?c = slice_text (sds_text b) (int (rd_pos r)) (-1)"
    using sdsrange_text [OF b(2)] by simp_all
  have "slice_text (sds_text b) (int (rd_pos r)) (-1) = drop (rd_pos r) (sds_text b)"
    using b(5) by (auto simp: slice_text_def from_end_def)
  then have d: "sds_text ?c = drop (rd_pos r) (sds_text b)" using c(2) by simp
  show "live (discard_read r)" using assms b c(1) d sds_inv_len(2) [OF c(1)]
    by (auto simp: discard_read_def live_def Let_def)
  show "abs_reader (discard_read r) = abs_reader r" using b(1) d
    by (simp add: discard_read_def abs_reader_def unread_def Let_def)
qed (auto simp: discard_read_def Let_def split: option.splits)

text \<open>
  The stack index stays in the stack, above the root the root object exists, and a task that waits for input has a type that the next
  call can go on with: no array that is too deep is left to be reported.
\<close>

definition stack_ok :: "parser \<Rightarrow> bool" where
  "stack_ok p \<longleftrightarrow> length (ps_stack p) = 9 \<and> -1 \<le> ps_ridx p \<and> ps_ridx p \<le> 8
     \<and> \<not> (0 < ps_ridx p \<and> ps_reply p = None)"

definition waiting :: "parser \<Rightarrow> bool" where
  "waiting p \<longleftrightarrow> ps_ridx p = -1 \<or> t_type (p_task p) < 0
     \<or> t_type (p_task p) \<in> {REDIS_REPLY_ERROR, REDIS_REPLY_STATUS, REDIS_REPLY_INTEGER, REDIS_REPLY_STRING, REDIS_REPLY_ARRAY}
       \<and> \<not> (t_type (p_task p) = REDIS_REPLY_ARRAY \<and> ps_ridx p = 8)"

lemma next_task_range:
  "next_task i stk = Some (j, stk') \<Longrightarrow> -1 \<le> i \<Longrightarrow> -1 \<le> j \<and> j \<le> i \<and> length stk' = length stk"
proof (induction i stk rule: next_task.induct)
  case (1 i stk)
  consider "i < 0" | "i = 0" | "0 < i" by linarith
  then show ?case
  proof cases
    case 3
    define cur where "cur = stk ! nat i"
    define prv where "prv = stk ! nat (i - 1)"
    have eq: "next_task i stk =
        (if t_type prv \<noteq> REDIS_REPLY_ARRAY then None
         else if t_idx cur = t_elements prv - 1 then next_task (i - 1) stk
         else if \<not> t_idx cur < t_elements prv then None
         else Some (i, stk[nat i := cur\<lparr>t_type := -1, t_elements := -1, t_idx := t_idx cur + 1\<rparr>]))"
      using 3 by (subst next_task.simps) (simp add: Let_def cur_def prv_def)
    show ?thesis
    proof (cases "t_type prv = REDIS_REPLY_ARRAY \<and> t_idx cur = t_elements prv - 1")
      case True
      then have "next_task (i - 1) stk = Some (j, stk')" using eq 1(2) by simp
      then show ?thesis using 1(1) [OF _ _ cur_def prv_def] True 3 by simp
    next
      case False
      then show ?thesis using eq 1(2,3) by (auto split: if_splits)
    qed
  qed (use 1(2,3) in \<open>auto simp: next_task.simps [of i stk] next_task.simps [of 0 stk]\<close>)
qed

lemma p_next_stack: "p_next p = Some p' \<Longrightarrow> stack_ok p \<Longrightarrow> stack_ok p'"
  by (auto simp: p_next_def stack_ok_def dest: next_task_range split: option.splits)

lemma p_root_stack: "stack_ok (p_root p st a) = stack_ok p" "ps_ridx (p_root p st a) = ps_ridx p"
  by (simp_all add: stack_ok_def p_root_def)

lemma p_fail_stack: "stack_ok p \<Longrightarrow> stack_ok (p_fail p ty str)"
  by (simp add: stack_ok_def p_fail_def)

lemma p_finish_stack: "p_finish p obj = Some (p', ok) \<Longrightarrow> stack_ok p \<Longrightarrow> stack_ok p'"
  by (auto simp: p_finish_def p_root_stack p_fail_stack dest!: p_next_stack split: option.splits)

lemma input_stack [simp]: "stack_ok (p\<lparr>ps_input := x\<rparr>) = stack_ok p"
  by (simp add: stack_ok_def)

lemma p_push_stack: "stack_ok p \<Longrightarrow> ps_ridx p \<noteq> 8 \<Longrightarrow> stack_ok (p_push (p_root p st a) n b)"
  by (auto simp: stack_ok_def p_push_def p_root_def Let_def)

lemma p_typed_stack:
  assumes "p_typed mem p = Some (p', ok)" "stack_ok p" shows "stack_ok p'"
proof -
  have next_ok: "p_next (p_root q st a) = Some p' \<Longrightarrow> stack_ok q \<Longrightarrow> stack_ok p'" for q st a
    using p_next_stack p_root_stack by blast
  have l: "p_line mem p n = Some (p', ok) \<Longrightarrow> stack_ok p'" for n
    using assms(2) by (auto simp: p_line_def Let_def dest!: p_finish_stack split: option.splits if_splits)
  have b: "p_bulk mem p n = Some (p', ok) \<Longrightarrow> stack_ok p'" for n
    using assms(2) by (auto simp: p_bulk_def Let_def dest!: p_finish_stack split: option.splits if_splits)
  have a: "p_array mem p n = Some (p', ok) \<Longrightarrow> ps_ridx p \<noteq> 8 \<Longrightarrow> stack_ok p'" for n
    using assms(2)
    by (auto simp: p_array_def Let_def p_fail_stack p_push_stack p_root_stack
        dest!: p_finish_stack next_ok split: option.splits if_splits)
  show ?thesis using assms l a b p_fail_stack
    by (auto simp: p_typed_def Let_def split: if_splits option.splits)
qed

lemma p_item_stack: "p_item mem p = Some (p', ok) \<Longrightarrow> stack_ok p \<Longrightarrow> stack_ok p'"
  by (auto simp: p_item_def p_fail_stack split: if_splits list.splits option.splits elim!: p_typed_stack)
    (auto simp: stack_ok_def)


text \<open>What the loop leaves when it did not fail is a state that can wait.\<close>

lemma p_typed_wait:
  assumes "p_typed mem p = Some (p', False)" "ps_err p' = 0" "ps_err p = 0"
  shows "p' = p \<and> waiting p"
proof -
  have f: "p_finish q obj = Some (p', False) \<Longrightarrow> False" for q obj
    using assms(2) by (auto simp: p_finish_def p_fail_def REDIS_ERR_OOM_def split: option.splits)
  have a: "p_array mem p n \<noteq> Some (p', False)" for n
    using f assms(2) by (auto simp: p_array_def Let_def p_fail_def REDIS_ERR_OOM_def split: option.splits if_splits)
  have l: "p_line mem p n \<noteq> Some (p', False)" for n
    using f by (auto simp: p_line_def Let_def split: option.splits if_splits)
  have b: "p_bulk mem p n = Some (p', False) \<Longrightarrow> p' = p" for n
    using f by (auto simp: p_bulk_def Let_def split: option.splits if_splits)
  show ?thesis using assms a l b
    by (auto simp: p_typed_def waiting_def Let_def p_fail_def REDIS_ERR_PROTOCOL_def split: if_splits option.splits)
qed

lemma p_item_wait:
  assumes "p_item mem p = Some (p', False)" "ps_err p' = 0" "ps_err p = 0"
  shows "waiting p'"
proof (cases "t_type (p_task p) < 0")
  case True
  then show ?thesis using assms
    by (auto simp: p_item_def waiting_def p_fail_def REDIS_ERR_PROTOCOL_def dest!: p_typed_wait
        split: list.splits option.splits)
next
  case False
  then show ?thesis using assms by (auto simp: p_item_def dest!: p_typed_wait)
qed

lemma p_item_ok_err: "p_item mem p = Some (p', True) \<Longrightarrow> ps_err p' = ps_err p"
proof -
  have n: "p_next q = Some p' \<Longrightarrow> ps_err p' = ps_err q" for q
    by (auto simp: p_next_def split: option.splits)
  have f: "p_finish q obj = Some (p', True) \<Longrightarrow> ps_err p' = ps_err q" for q obj
    by (auto simp: p_finish_def p_root_def dest!: n split: option.splits)
  have t: "p_typed mem q = Some (p', True) \<Longrightarrow> ps_err p' = ps_err q" for q
    by (auto simp: p_typed_def p_line_def p_bulk_def p_array_def Let_def p_push_def p_root_def dest!: f n
        split: if_splits option.splits)
  assume "p_item mem p = Some (p', True)"
  then show ?thesis by (auto simp: p_item_def dest!: t split: if_splits list.splits option.splits)
qed

lemma p_loop_keeps:
  "p_loop mem p = Some p' \<Longrightarrow> stack_ok p \<Longrightarrow> ps_err p = 0 \<Longrightarrow>
   stack_ok p' \<and> (ps_err p' \<noteq> 0 \<or> waiting p')"
proof (induction mem p rule: p_loop.induct)
  case (1 mem p)
  show ?case
  proof (cases "ps_ridx p < 0")
    case True
    then show ?thesis using 1(2-4) by (subst (asm) p_loop.simps) (auto simp: waiting_def stack_ok_def)
  next
    case False
    then obtain q ok where q: "p_item mem p = Some (q, ok)"
      using 1(2) by (subst (asm) p_loop.simps) (auto split: option.splits)
    note st = p_item_stack [OF q 1(3)]
    show ?thesis
    proof (cases ok)
      case True
      have "p_loop mem q = Some p'" using 1(2) False q True by (subst (asm) p_loop.simps) simp
      then show ?thesis using 1(1) [OF False q refl True _ st] p_item_ok_err [of mem p q] q True 1(4) by simp
    next
      case no: False
      then have "p' = q" using 1(2) False q by (subst (asm) p_loop.simps) simp
      then show ?thesis using st p_item_wait [of mem p q] q no 1(4) by auto
    qed
  qed
qed

definition reader_ok :: "reader \<Rightarrow> bool" where
  "reader_ok r \<longleftrightarrow> rd_err r \<noteq> 0 \<or> live r \<and> stack_ok (abs_reader r) \<and> waiting (abs_reader r)"

definition machine :: "reader \<Rightarrow> parser" where
  "machine r = (if rd_err r \<noteq> 0 then abs_reader r else p_start (abs_reader r))"

lemma p_start_waits:
  assumes "stack_ok p" "waiting p" shows "stack_ok (p_start p)" "waiting (p_start p)" "0 \<le> ps_ridx (p_start p)"
  using assms by (auto simp: p_start_def stack_ok_def waiting_def p_task_def root_task_def)

lemma waits_without_input:
  "stack_ok p \<Longrightarrow> waiting p \<Longrightarrow> 0 \<le> ps_ridx p \<Longrightarrow> ps_input p = [] \<Longrightarrow> p_loop mem p = Some p"
  by (subst p_loop.simps) (auto simp: p_item_def p_typed_def waiting_def Let_def reply_types)

lemma refine_get:
  assumes "reader_ok r"
  shows "p_get mem (machine r) = map_option (\<lambda>(r', ok, a). (machine r', ok, a)) (redisReaderGetReply mem r)
    \<and> (\<forall>r' ok a. redisReaderGetReply mem r = Some (r', ok, a) \<longrightarrow> reader_ok r')"
proof (cases "rd_err r = 0")
  case False
  then show ?thesis by (simp add: redisReaderGetReply_def p_get_def machine_def reader_ok_def)
next
  case e: True
  then have ok: "live r" "stack_ok (abs_reader r)" "waiting (abs_reader r)" using assms by (auto simp: reader_ok_def)
  have m: "machine r = p_start (abs_reader r)" "ps_err (machine r) = 0" using e by (simp_all add: machine_def p_start_def)
  note w = p_start_waits [OF ok(2,3)]
  show ?thesis
  proof (cases "rd_len r = 0")
    case True
    have "ps_input (machine r) = []" using live_unread [OF ok(1)] True by (simp add: m p_start_def)
    then have "p_loop mem (machine r) = Some (machine r)" using waits_without_input w m by simp
    then show ?thesis using e True m w(3) assms by (simp add: redisReaderGetReply_def p_get_def)
  next
    case False
    have st: "live (start_task r)" "abs_reader (start_task r) = machine r" "rd_err (start_task r) = 0"
      using ok(1) e by (auto simp: start_task_def live_def m abs_reader_def p_start_def unread_def split: option.splits)
    note loop = refine_loop [OF st(1), of mem, unfolded st(2,3)]
    show ?thesis
    proof (cases "item_loop mem (start_task r)")
      case None
      then show ?thesis using loop e False m by (simp add: redisReaderGetReply_def p_get_def)
    next
      case (Some r1)
      have p1: "p_loop mem (machine r) = Some (abs_reader r1)" using loop Some by simp
      have k: "stack_ok (abs_reader r1) \<and> (rd_err r1 \<noteq> 0 \<or> waiting (abs_reader r1))"
        using p_loop_keeps [OF p1] w m by simp
      show ?thesis
      proof (cases "rd_err r1 = 0")
        case False
        then show ?thesis using p1 Some e m \<open>rd_len r \<noteq> 0\<close>
          by (simp add: redisReaderGetReply_def p_get_def reader_ok_def machine_def)
      next
        case True
        then have l1: "live r1" using loop Some by simp
        note d = discard_live [OF l1]
        have r2: "live (discard_read r1\<lparr>rd_reply := None\<rparr>)"
          "abs_reader (discard_read r1\<lparr>rd_reply := None\<rparr>) = abs_reader r1\<lparr>ps_reply := None\<rparr>"
          using d(1,2) by (auto simp: live_def abs_reader_def unread_def split: option.splits)
        have "rd_ridx r1 = -1 \<Longrightarrow>
            stack_ok (abs_reader r1\<lparr>ps_reply := None\<rparr>) \<and> waiting (abs_reader r1\<lparr>ps_reply := None\<rparr>)"
          using k True by (simp add: stack_ok_def waiting_def p_task_def)
        then show ?thesis using p1 Some e m \<open>rd_len r \<noteq> 0\<close> True d k r2
          by (auto simp: redisReaderGetReply_def p_get_def reader_ok_def machine_def Let_def p_start_def
              abs_reader_def)
      qed
    qed
  qed
qed


lemma refine_feed:
  assumes h: "good_heap mem" "ample mem" and k: "reader_ok r" and n: "rd_len r + length c + SDS_MAX_PREALLOC < 2 ^ 31"
  shows "\<exists>r'. redisReaderFeed mem r c = Some (r', rd_err r = 0) \<and> reader_ok r' \<and> machine r' = p_feed (machine r) c"
proof (cases "rd_err r = 0")
  case False
  then show ?thesis by (simp add: redisReaderFeed_def reader_ok_def machine_def p_feed_def)
next
  case e: True
  then have ok: "live r" "stack_ok (abs_reader r)" "waiting (abs_reader r)" using k by (auto simp: reader_ok_def)
  have m: "machine r = p_start (abs_reader r)" "ps_err (machine r) = 0" using e by (simp_all add: machine_def p_start_def)
  obtain b where b: "rd_buf r = Some b" "sds_inv b" "rd_len r = length (sds_text b)" "rd_pos r \<le> rd_len r"
    using ok(1) by (auto simp: live_def split: option.splits)
  show ?thesis
  proof (cases "c = []")
    case True
    then show ?thesis using e k m by (simp add: redisReaderFeed_def p_feed_def)
  next
    case False
    obtain e0 where e0: "sdsempty mem = Some e0" using sdsempty_total [OF h(2)] by auto
    note e0t = sdsempty_text [OF h(1) e0]
    define swap where "swap = (rd_len r = 0 \<and> rd_maxbuf r \<noteq> 0 \<and> sdsavail b > rd_maxbuf r)"
    define r1 where "r1 = (if swap then r\<lparr>rd_buf := Some e0, rd_pos := 0\<rparr> else r)"
    define b1 where "b1 = (if swap then e0 else b)"
    have b1: "rd_buf r1 = Some b1" "sds_inv b1" "sds_text b1 = sds_text b" "rd_pos r1 = (if swap then 0 else rd_pos r)"
      using b e0t by (auto simp: r1_def b1_def swap_def)
    have pos: "rd_pos r1 \<le> length (sds_text b)" "drop (rd_pos r1) (sds_text b) = unread r"
      using b b1(4) by (auto simp: swap_def unread_def)
    have "fits_int b1 (length c)" using n b(3) b1(3) by (simp add: fits_int_def)
    moreover obtain u where u: "sdscatlen mem b1 c = Some u" using sdscatlen_total [OF h(2)] by fastforce
    ultimately have ut: "sds_inv u" "sds_text u = sds_text b @ c" using sdscatlen_text [OF h(1) b1(2)] b1(3) by auto
    let ?r' = "r1\<lparr>rd_buf := Some u, rd_len := sdslen u\<rparr>"
    have "sdslen u = length (sds_text b) + length c" using sds_inv_len(2) [OF ut(1)] ut(2) by simp
    then have live: "live ?r'" using ut pos n b(3) by (simp add: live_def)
    have un: "unread ?r' = unread r @ c" using ut pos by (subst unread_def) simp
    have ab: "abs_reader ?r' = abs_reader r\<lparr>ps_input := unread r @ c\<rparr>"
      using un by (simp add: abs_reader_def r1_def)
    have f0: "(if rd_len r = 0 \<and> rd_maxbuf r \<noteq> 0 \<and> sdsavail b > rd_maxbuf r
        then map_option (\<lambda>e. r\<lparr>rd_buf := Some e, rd_pos := 0\<rparr>) (sdsempty mem) else Some r) = Some r1"
      using e0 by (simp add: r1_def swap_def)
    have f: "redisReaderFeed mem r c = Some (?r', True)"
      unfolding redisReaderFeed_def by (simp only: e False b(1) option.case f0 b1(1) option.sel u simp_thms if_False)
    have "machine ?r' = p_feed (machine r) c" and "rd_err ?r' = 0"
      using e ab by (simp_all add: machine_def p_feed_def p_start_def r1_def)
    moreover have "reader_ok ?r'"
      using live ab ok(2,3) by (simp add: reader_ok_def stack_ok_def waiting_def p_task_def)
    ultimately show ?thesis using f e by auto
  qed
qed

end
