(* ===== verification/ReaderParse.thy ===== *)
theory ReaderParse
  imports ReaderSpec
begin

text \<open>
  What the reader builds: the replies of the protocol with their encoding, the relation
  between a tree of reply objects in the store and the reply it stands for, and the theorem
  that the machine of \<open>ReaderSpec\<close> turns the encoding of a reply into a tree that denotes it.
\<close>

section \<open>Replies\<close>

datatype reply =
    R_status bytes
  | R_error bytes
  | R_int int
  | R_nil
  | R_nil_array
  | R_bulk bytes
  | R_array "reply list"

fun encode :: "reply \<Rightarrow> bytes" where
  "encode (R_status t) = CHR ''+'' # t @ CRLF"
| "encode (R_error t) = CHR ''-'' # t @ CRLF"
| "encode (R_int i) = CHR '':'' # dec_int i @ CRLF"
| "encode R_nil = ''$-1'' @ CRLF"
| "encode R_nil_array = ''*-1'' @ CRLF"
| "encode (R_bulk t) = CHR ''$'' # dec (length t) @ CRLF @ t @ CRLF"
| "encode (R_array rs) = CHR ''*'' # dec (length rs) @ CRLF @ concat (map encode rs)"

text \<open>What can be sent at nesting level \<open>k\<close>: lines hold no CR LF, numbers fit their types (the
  reader overflows on the least 64-bit number), and level 8 holds no arrays.\<close>

fun reply_ok :: "nat \<Rightarrow> reply \<Rightarrow> bool" where
  "reply_ok k (R_status t) = (find_crlf t = None \<and> length t < 2 ^ 31)"
| "reply_ok k (R_error t) = (find_crlf t = None \<and> length t < 2 ^ 31)"
| "reply_ok k (R_int i) = (- (2 ^ 63) < i \<and> i < 2 ^ 63)"
| "reply_ok k R_nil = True"
| "reply_ok k R_nil_array = (k < 8)"
| "reply_ok k (R_bulk t) = (length t < 2 ^ 31)"
| "reply_ok k (R_array rs) = (k < 8 \<and> length rs < 2 ^ 31 \<and> list_all (reply_ok (Suc k)) rs)"

definition string_obj :: "int \<Rightarrow> bytes \<Rightarrow> robj" where
  "string_obj ty t = \<lparr>ro_type = ty, ro_integer = 0, ro_len = int (length t), ro_str = Some (t @ [NUL]),
     ro_elements = 0, ro_element = None\<rparr>"

definition nil_obj :: robj where
  "nil_obj = \<lparr>ro_type = REDIS_REPLY_NIL, ro_integer = 0, ro_len = 0, ro_str = None, ro_elements = 0, ro_element = None\<rparr>"

definition array_obj :: "nat \<Rightarrow> address option list option \<Rightarrow> robj" where
  "array_obj n es = \<lparr>ro_type = REDIS_REPLY_ARRAY, ro_integer = 0, ro_len = 0, ro_str = None, ro_elements = n, ro_element = es\<rparr>"

text \<open>An object at \<open>a\<close>, with everything below it at higher addresses, stands for a reply.\<close>

fun denotes :: "store \<Rightarrow> reply \<Rightarrow> address \<Rightarrow> bool" where
  "denotes st (R_status t) a = (a < length st \<and> st ! a = string_obj REDIS_REPLY_STATUS t)"
| "denotes st (R_error t) a = (a < length st \<and> st ! a = string_obj REDIS_REPLY_ERROR t)"
| "denotes st (R_int i) a = (a < length st \<and> st ! a = nil_obj\<lparr>ro_type := REDIS_REPLY_INTEGER, ro_integer := i\<rparr>)"
| "denotes st R_nil a = (a < length st \<and> st ! a = nil_obj)"
| "denotes st R_nil_array a = (a < length st \<and> st ! a = nil_obj)"
| "denotes st (R_bulk t) a = (a < length st \<and> st ! a = string_obj REDIS_REPLY_STRING t)"
| "denotes st (R_array rs) a =
     (a < length st \<and>
      (case ro_element (st ! a) of
         None \<Rightarrow> rs = [] \<and> st ! a = array_obj 0 None
       | Some es \<Rightarrow> rs \<noteq> [] \<and> st ! a = array_obj (length rs) (Some es) \<and>
           list_all2 (\<lambda>r e. e \<noteq> None \<and> a < the e \<and> denotes st r (the e)) rs es))"

lemma denotes_frame:
  "denotes st R a \<Longrightarrow> (\<And>c. a \<le> c \<Longrightarrow> c < length st \<Longrightarrow> st' ! c = st ! c) \<Longrightarrow> length st \<le> length st' \<Longrightarrow>
   denotes st' R a"
proof (induction st R a rule: denotes.induct)
  case (7 st rs a)
  have a: "a < length st" "st' ! a = st ! a" using 7(2,3) by auto
  show ?case
  proof (cases "ro_element (st ! a)")
    case None
    then show ?thesis using 7(2,4) a by simp
  next
    case (Some es)
    have "list_all2 (\<lambda>r e. e \<noteq> None \<and> a < the e \<and> denotes st r (the e)) rs es" using 7(2) Some by simp
    then have "list_all2 (\<lambda>r e. e \<noteq> None \<and> a < the e \<and> denotes st' r (the e)) rs es"
    proof (rule list.rel_mono_strong)
      fix r e assume m: "r \<in> set rs" "e \<in> set es" "e \<noteq> None \<and> a < the e \<and> denotes st r (the e)"
      have "denotes st' r (the e)"
        using m by (intro 7(1) [OF Some m(1,2)] 7(3,4)) auto
      then show "e \<noteq> None \<and> a < the e \<and> denotes st' r (the e)" using m(3) by simp
    qed
    then show ?thesis using 7(2,4) a Some by simp
  qed
qed auto

section \<open>Lines and numbers\<close>

lemma find_crlf_no_cr: "CR \<notin> set s \<Longrightarrow> find_crlf s = None"
  by (induction s rule: find_crlf.induct) auto

lemma dec_no_cr: "CR \<notin> set (dec n)"
  using dec_digits [of CR n] isdigit_not_special(1) by blast

lemma dec_int_no_cr: "CR \<notin> set (dec_int i)"
  by (simp add: dec_int_def dec_no_cr)

lemma digits_value_ge: "v \<le> digits_value v ds"
proof (induction ds arbitrary: v)
  case (Cons d ds)
  have "v \<le> v * 10 + digit_val d" by simp
  also have "\<dots> \<le> digits_value (v * 10 + digit_val d) ds" by (rule Cons)
  finally show ?case by simp
qed simp

lemma ll_digits_value:
  "\<forall>d\<in>set ds. isdigit d \<Longrightarrow> digits_value v ds < 2 ^ 63 \<Longrightarrow>
   ll_digits (ds @ CR # x) (int v) = Some (True, int (digits_value v ds))"
proof (induction ds arbitrary: v)
  case (Cons d ds)
  have "v * 10 + digit_val d < 2 ^ 63" using digits_value_ge [of "v * 10 + digit_val d" ds] Cons.prems(2) by simp
  then have "int (v * 10 + digit_val d) < int (2 ^ 63)" by (simp only: of_nat_less_iff)
  then have "int v * 10 + int (digit_val d) < 2 ^ 63" by simp
  moreover have "d \<noteq> CR" using Cons.prems(1) by (auto simp: isdigit_def)
  ultimately show ?case using Cons.IH [of "v * 10 + digit_val d"] Cons.prems by simp
qed simp

lemma readLongLong_dec: "n < 2 ^ 63 \<Longrightarrow> readLongLong (dec n @ CR # x) = Some (int n)"
proof -
  assume n: "n < 2 ^ 63"
  have d: "\<forall>d\<in>set (dec n). isdigit d" by (simp add: dec_digits)
  then have "isdigit (hd (dec n))" by simp
  then have "hd (dec n) \<noteq> CHR ''-'' \<and> hd (dec n) \<noteq> CHR ''+''" by (auto simp: isdigit_def)
  then show ?thesis using ll_digits_value [OF d, of 0 x] n by (simp add: readLongLong_def dec_simps)
qed

lemma readLongLong_dec_int:
  assumes "- (2 ^ 63) < i" "i < 2 ^ 63" shows "readLongLong (dec_int i @ CR # x) = Some i"
proof (cases "i < 0")
  case True
  have "\<forall>d\<in>set (dec (nat (- i))). isdigit d" by (simp add: dec_digits)
  moreover have "nat (- i) < 2 ^ 63" using assms by (simp add: nat_less_iff)
  ultimately have "ll_digits (dec (nat (- i)) @ CR # x) 0 = Some (True, - i)"
    using ll_digits_value [of "dec (nat (- i))" 0 x] True by (simp add: dec_simps)
  then show ?thesis using True by (simp add: readLongLong_def dec_int_def)
next
  case False
  then show ?thesis using readLongLong_dec [of "nat i" x] assms by (simp add: dec_int_def nat_less_iff)
qed


section \<open>A task that expects a reply\<close>

definition expecting :: "parser \<Rightarrow> bool" where
  "expecting p \<longleftrightarrow> 0 \<le> ps_ridx p \<and> ps_ridx p \<le> 8 \<and> length (ps_stack p) = 9 \<and> ps_err p = 0
     \<and> t_type (p_task p) < 0
     \<and> t_parent (p_task p) = (if ps_ridx p = 0 then None else Some (nat (ps_ridx p) - 1))
     \<and> attach (ps_stack p) (p_task p) 0 (ps_store p) \<noteq> None"

text \<open>The state in which the task's reply is there, before the task is left.\<close>

definition built :: "parser \<Rightarrow> reply \<Rightarrow> bytes \<Rightarrow> parser \<Rightarrow> bool" where
  "built p R rest p1 \<longleftrightarrow>
     (let n = length (ps_store p)
      in ps_input p1 = rest \<and> ps_ridx p1 = ps_ridx p \<and> ps_err p1 = 0 \<and> length (ps_stack p1) = 9
       \<and> (\<forall>j < nat (ps_ridx p). ps_stack p1 ! j = ps_stack p ! j)
       \<and> t_idx (p_task p1) = t_idx (p_task p) \<and> t_parent (p_task p1) = t_parent (p_task p)
       \<and> ps_reply p1 = (if ps_ridx p = 0 then Some n else ps_reply p)
       \<and> n < length (ps_store p1)
       \<and> attach (ps_stack p) (p_task p) n (ps_store p) = Some (take n (ps_store p1))
       \<and> denotes (ps_store p1) R n)"

definition go_on :: "heap \<Rightarrow> parser \<Rightarrow> parser option" where
  "go_on mem p = (case p_next p of None \<Rightarrow> None | Some p' \<Rightarrow> p_loop mem p')"

definition typed :: "parser \<Rightarrow> int \<Rightarrow> bytes \<Rightarrow> parser" where
  "typed p ty s = p\<lparr>ps_input := s, ps_stack := (ps_stack p)[nat (ps_ridx p) := (p_task p)\<lparr>t_type := ty\<rparr>]\<rparr>"

lemma typed_sel [simp]:
  "ps_input (typed p ty s) = s" "ps_ridx (typed p ty s) = ps_ridx p" "ps_err (typed p ty s) = ps_err p"
  "ps_store (typed p ty s) = ps_store p" "ps_reply (typed p ty s) = ps_reply p"
  "length (ps_stack (typed p ty s)) = length (ps_stack p)"
  "j < nat (ps_ridx p) \<Longrightarrow> ps_stack (typed p ty s) ! j = ps_stack p ! j"
  by (simp_all add: typed_def)

lemma typed_task: "expecting p \<Longrightarrow> p_task (typed p ty s) = (p_task p)\<lparr>t_type := ty\<rparr>"
proof -
  assume "expecting p"
  then have "nat (ps_ridx p) < length (ps_stack p)" by (auto simp: expecting_def)
  then show ?thesis by (simp add: typed_def p_task_def)
qed

lemma item_typed:
  "expecting p \<Longrightarrow> ps_input p = b # s \<Longrightarrow> reply_type_byte b = Some ty \<Longrightarrow>
   p_item mem p = p_typed mem (typed p ty s)"
  by (simp add: p_item_def typed_def expecting_def)

lemma loop_item: "expecting p \<Longrightarrow> p_loop mem p =
    (case p_item mem p of None \<Rightarrow> None | Some (p', ok) \<Rightarrow> if ok then p_loop mem p' else Some p')"
  by (subst p_loop.simps) (simp add: expecting_def)

lemma attach_snoc:
  "attach stk cur a st \<noteq> None \<Longrightarrow> attach stk cur a (st @ [ob]) = map_option (\<lambda>s. s @ [ob]) (attach stk cur a st)"
  by (auto simp: attach_def nth_append list_update_append split: option.splits if_splits)

lemma attach_length: "attach stk cur a st = Some s \<Longrightarrow> length s = length st"
  by (auto simp: attach_def split: option.splits if_splits)

lemma attach_other: "attach stk cur a st \<noteq> None \<Longrightarrow> attach stk cur b st \<noteq> None"
  by (auto simp: attach_def split: option.splits if_splits)

lemma attach_cong:
  "t_parent cur' = t_parent cur \<Longrightarrow> t_idx cur' = t_idx cur \<Longrightarrow>
   (\<And>q. t_parent cur = Some q \<Longrightarrow> stk' ! q = stk ! q) \<Longrightarrow> attach stk' cur' a st = attach stk cur a st"
  by (auto simp: attach_def split: option.split)

lemma attach_typed:
  assumes "expecting p"
  shows "attach (ps_stack (typed p ty s)) (p_task (typed p ty s)) a st = attach (ps_stack p) (p_task p) a st"
proof -
  have "0 < nat (ps_ridx p) \<Longrightarrow> ps_stack (typed p ty s) ! (nat (ps_ridx p) - 1) = ps_stack p ! (nat (ps_ridx p) - 1)"
    by simp
  then show ?thesis using assms
    by (intro attach_cong) (auto simp: typed_task expecting_def split: if_splits)
qed

lemma place_new:
  assumes "expecting p"
  obtains st1 where "attach (ps_stack p) (p_task p) (length (ps_store p)) (ps_store p) = Some st1"
    "length st1 = length (ps_store p)"
    "place (ps_stack (typed p ty s)) (p_task (typed p ty s)) ob (ps_store p) = Some (Some (st1 @ [ob], length (ps_store p)))"
proof -
  have d: "attach (ps_stack p) (p_task p) (length (ps_store p)) (ps_store p) \<noteq> None"
    using assms attach_other [of _ _ 0] by (simp add: expecting_def)
  then obtain st1 where "attach (ps_stack p) (p_task p) (length (ps_store p)) (ps_store p) = Some st1" by auto
  then show ?thesis using that attach_length attach_snoc [OF d, of ob]
    by (simp add: place_def attach_typed [OF assms])
qed

text \<open>A reply without elements is built in one step.\<close>

lemma leaf_built:
  assumes x: "expecting p"
    and i: "p_item mem p = p_finish (typed p ty rest) (place (ps_stack (typed p ty rest)) (p_task (typed p ty rest)) ob (ps_store p))"
    and d: "\<And>st. length st = length (ps_store p) \<Longrightarrow> denotes (st @ [ob]) R (length (ps_store p))"
  shows "\<exists>p1. built p R rest p1 \<and> p_loop mem p = go_on mem p1"
proof -
  obtain st1 where st: "attach (ps_stack p) (p_task p) (length (ps_store p)) (ps_store p) = Some st1"
    "length st1 = length (ps_store p)"
    "place (ps_stack (typed p ty rest)) (p_task (typed p ty rest)) ob (ps_store p) = Some (Some (st1 @ [ob], length (ps_store p)))"
    using place_new [OF x] .
  let ?p1 = "p_root (typed p ty rest) (st1 @ [ob]) (length (ps_store p))"
  have "p_item mem p = map_option (\<lambda>p'. (p', True)) (p_next ?p1)" using i st(3) by (simp add: p_finish_def)
  then have "p_loop mem p = go_on mem ?p1" using loop_item [OF x] by (auto simp: go_on_def split: option.split)
  moreover have "p_task ?p1 = (p_task p)\<lparr>t_type := ty\<rparr>"
    using typed_task [OF x] by (simp add: p_root_def p_task_def)
  then have "built p R rest ?p1" using x st(1,2) d [OF st(2)] unfolding built_def Let_def
    by (simp add: p_root_def expecting_def)
  ultimately show ?thesis by blast
qed


section \<open>Replies without elements\<close>

lemma ample_reply: "ample mem \<Longrightarrow> createReplyObject mem ty =
    Some \<lparr>ro_type = ty, ro_integer = 0, ro_len = 0, ro_str = None, ro_elements = 0, ro_element = None\<rparr>"
  by (simp add: createReplyObject_def ample_def)

lemma create_string:
  assumes "ample mem" "t_type cur \<in> {REDIS_REPLY_ERROR, REDIS_REPLY_STATUS, REDIS_REPLY_STRING}" "length t < 2 ^ 31"
  shows "createStringObject mem stk cur t (length t) st = place stk cur (string_obj (t_type cur) t) st"
proof -
  have "malloc mem (length t + 1) \<noteq> None" using assms(1) by (simp add: malloc_def ample_def)
  then show ?thesis using assms(2,3) by (auto simp: createStringObject_def ample_reply [OF assms(1)] string_obj_def)
qed

lemma create_integer: "ample mem \<Longrightarrow> createIntegerObject mem stk cur v st =
    place stk cur (nil_obj\<lparr>ro_type := REDIS_REPLY_INTEGER, ro_integer := v\<rparr>) st"
  by (simp add: createIntegerObject_def ample_reply nil_obj_def)

lemma create_nil: "ample mem \<Longrightarrow> createNilObject mem stk cur st = place stk cur nil_obj st"
  by (simp add: createNilObject_def ample_reply nil_obj_def)

lemma create_array:
  assumes "ample mem"
  shows "createArrayObject mem stk cur (int n) st =
    place stk cur (array_obj n (if n = 0 then None else Some (replicate n None))) st"
proof -
  have "mem (n * 8) \<noteq> None" using assms by (simp add: ample_def)
  then show ?thesis
    by (auto simp: createArrayObject_def ample_reply [OF assms] array_obj_def simp del: not_None_eq)
qed

text \<open>A line behind the type byte.\<close>

lemma typed_line:
  assumes "expecting p" "ps_input p = b # line @ CR # LF # rest" "reply_type_byte b = Some ty"
    "find_crlf line = None" "\<not> (ty = REDIS_REPLY_ARRAY \<and> ps_ridx p = 8)"
  shows "p_item mem p =
    (if ty = REDIS_REPLY_STRING then p_bulk mem (typed p ty (line @ CR # LF # rest)) (length line)
     else if ty = REDIS_REPLY_ARRAY then p_array mem (typed p ty (line @ CR # LF # rest)) (length line)
     else p_line mem (typed p ty (line @ CR # LF # rest)) (length line))"
proof -
  have "ty \<in> {REDIS_REPLY_ERROR, REDIS_REPLY_STATUS, REDIS_REPLY_INTEGER, REDIS_REPLY_STRING, REDIS_REPLY_ARRAY}"
    using assms(3) by (auto simp: reply_type_byte_def split: if_splits)
  then show ?thesis
    using item_typed [OF assms(1-3), of mem] find_crlf_end [OF assms(4), of rest] assms(5)
    by (auto simp: p_typed_def Let_def typed_task [OF assms(1)])
qed

lemma typed_drop: "typed p ty s\<lparr>ps_input := s'\<rparr> = typed p ty s'"
  by (simp add: typed_def)

lemma status_built:
  assumes x: "expecting p" and m: "ample mem" and b: "reply_type_byte b = Some ty" "ty = REDIS_REPLY_STATUS \<or> ty = REDIS_REPLY_ERROR"
    and i: "ps_input p = b # t @ CR # LF # rest" and t: "find_crlf t = None" "length t < 2 ^ 31"
    and R: "R = R_status t \<and> ty = REDIS_REPLY_STATUS \<or> R = R_error t \<and> ty = REDIS_REPLY_ERROR"
  shows "\<exists>p1. built p R rest p1 \<and> p_loop mem p = go_on mem p1"
proof (rule leaf_built [OF x, where ty = ty and ob = "string_obj ty t"])
  have "t_type (p_task (typed p ty s)) = ty" for s using typed_task [OF x] by simp
  then show "p_item mem p = p_finish (typed p ty rest)
      (place (ps_stack (typed p ty rest)) (p_task (typed p ty rest)) (string_obj ty t) (ps_store p))"
    using typed_line [OF x i b(1) t(1), of mem] b(2) create_string [OF m _ t(2)] typed_task [OF x]
    by (auto simp: p_line_def Let_def typed_drop reply_types) (auto simp: typed_def)
qed (use R in \<open>auto simp: nth_append\<close>)

lemma integer_built:
  assumes x: "expecting p" and m: "ample mem" and n: "- (2 ^ 63) < n" "n < 2 ^ 63"
    and i: "ps_input p = CHR '':'' # dec_int n @ CR # LF # rest"
  shows "\<exists>p1. built p (R_int n) rest p1 \<and> p_loop mem p = go_on mem p1"
proof (rule leaf_built [OF x, where ty = REDIS_REPLY_INTEGER])
  have b: "reply_type_byte (CHR '':'') = Some REDIS_REPLY_INTEGER" by (simp add: reply_type_byte_def)
  have l: "find_crlf (dec_int n) = None" by (rule find_crlf_no_cr [OF dec_int_no_cr])
  show "p_item mem p = p_finish (typed p REDIS_REPLY_INTEGER rest)
      (place (ps_stack (typed p REDIS_REPLY_INTEGER rest)) (p_task (typed p REDIS_REPLY_INTEGER rest))
        (nil_obj\<lparr>ro_type := REDIS_REPLY_INTEGER, ro_integer := n\<rparr>) (ps_store p))"
    using typed_line [OF x i b l, of mem] readLongLong_dec_int [OF n, of "LF # rest"]
    by (simp add: p_line_def Let_def typed_drop reply_types typed_task [OF x] create_integer [OF m])
      (simp add: typed_def)
qed (auto simp: nth_append)


lemma nil_built:
  assumes x: "expecting p" and m: "ample mem" and i: "ps_input p = b # ''-1'' @ CR # LF # rest"
    and b: "b = CHR ''$'' \<and> R = R_nil \<or> b = CHR ''*'' \<and> R = R_nil_array \<and> ps_ridx p \<noteq> 8"
  shows "\<exists>p1. built p R rest p1 \<and> p_loop mem p = go_on mem p1"
proof -
  define ty where "ty = (if b = CHR ''$'' then REDIS_REPLY_STRING else REDIS_REPLY_ARRAY)"
  have bt: "reply_type_byte b = Some ty" "\<not> (ty = REDIS_REPLY_ARRAY \<and> ps_ridx p = 8)"
    using b by (auto simp: reply_type_byte_def ty_def reply_types)
  have l: "find_crlf ''-1'' = None" by simp
  have c: "readLongLong (CHR ''-'' # CHR ''1'' # CR # x) = Some (-1)" for x
    by (simp add: readLongLong_def isdigit_def digit_val_def)
  show ?thesis
  proof (rule leaf_built [OF x, where ty = ty])
    show "p_item mem p = p_finish (typed p ty rest)
        (place (ps_stack (typed p ty rest)) (p_task (typed p ty rest)) nil_obj (ps_store p))"
      using typed_line [OF x i bt(1) l bt(2), of mem]
      by (simp add: ty_def p_bulk_def p_array_def Let_def typed_drop reply_types typed_task [OF x] create_nil [OF m] c)
        (simp add: typed_def)
  qed (use b in \<open>auto simp: nth_append\<close>)
qed

lemma drop_bulk: "drop (4 + length t) (CR # LF # t @ CR # LF # rest) = rest"
  by (simp add: eval_nat_numeral)

lemma bulk_built:
  assumes x: "expecting p" and m: "ample mem" and t: "length t < 2 ^ 31"
    and i: "ps_input p = CHR ''$'' # dec (length t) @ CR # LF # t @ CR # LF # rest"
  shows "\<exists>p1. built p (R_bulk t) rest p1 \<and> p_loop mem p = go_on mem p1"
proof (rule leaf_built [OF x, where ty = REDIS_REPLY_STRING and ob = "string_obj REDIS_REPLY_STRING t"])
  have b: "reply_type_byte (CHR ''$'') = Some REDIS_REPLY_STRING" by (simp add: reply_type_byte_def)
  have l: "find_crlf (dec (length t)) = None" by (rule find_crlf_no_cr [OF dec_no_cr])
  have v: "readLongLong (dec (length t) @ CR # y) = Some (int (length t))" for y
    using t by (intro readLongLong_dec) simp
  let ?q = "typed p REDIS_REPLY_STRING (dec (length t) @ CR # LF # t @ CR # LF # rest)"
  have "p_bulk mem ?q (length (dec (length t))) = p_finish (typed p REDIS_REPLY_STRING rest)
      (createStringObject mem (ps_stack ?q) (p_task ?q) t (length t) (ps_store p))"
    using t by (simp add: p_bulk_def Let_def v typed_drop drop_bulk)
  then show "p_item mem p = p_finish (typed p REDIS_REPLY_STRING rest)
      (place (ps_stack (typed p REDIS_REPLY_STRING rest)) (p_task (typed p REDIS_REPLY_STRING rest))
        (string_obj REDIS_REPLY_STRING t) (ps_store p))"
    using typed_line [OF x i b l, of mem] create_string [OF m _ t]
    by (simp add: reply_types typed_task [OF x]) (simp add: typed_def)
qed (auto simp: nth_append)


section \<open>Arrays\<close>

text \<open>In the middle of an array at \<open>a\<close>: the objects of \<open>done\<close> are linked, \<open>n\<close> are still to come.\<close>

definition filling :: "parser \<Rightarrow> address \<Rightarrow> reply list \<Rightarrow> nat \<Rightarrow> bool" where
  "filling p a done n \<longleftrightarrow>
     (let k = nat (ps_ridx p); st = ps_store p
      in 0 < ps_ridx p \<and> ps_ridx p \<le> 8 \<and> length (ps_stack p) = 9 \<and> ps_err p = 0
       \<and> t_type (p_task p) < 0 \<and> t_parent (p_task p) = Some (k - 1) \<and> t_idx (p_task p) = int (length done)
       \<and> t_type (ps_stack p ! (k - 1)) = REDIS_REPLY_ARRAY
       \<and> t_elements (ps_stack p ! (k - 1)) = int (length done + n)
       \<and> t_obj (ps_stack p ! (k - 1)) = Some a
       \<and> a < length st
       \<and> (\<exists>es. st ! a = array_obj (length done + n) (Some es) \<and> length es = length done + n
            \<and> list_all2 (\<lambda>r e. e \<noteq> None \<and> a < the e \<and> denotes st r (the e)) done (take (length done) es)))"

lemma filling_attach:
  assumes "filling p a done (Suc n)"
  shows "\<exists>es. ps_store p ! a = array_obj (length done + Suc n) (Some es) \<and> length es = length done + Suc n
    \<and> list_all2 (\<lambda>r e. e \<noteq> None \<and> a < the e \<and> denotes (ps_store p) r (the e)) done (take (length done) es)
    \<and> (\<forall>b. attach (ps_stack p) (p_task p) b (ps_store p)
       = Some ((ps_store p)[a := array_obj (length done + Suc n) (Some (es[length done := Some b]))]))"
  using assms unfolding filling_def Let_def
  by (auto simp: attach_def array_obj_def)

lemma filling_expecting: "filling p a done (Suc n) \<Longrightarrow> expecting p"
  using filling_attach [of p a "done" n] by (auto simp: expecting_def filling_def Let_def)

text \<open>One more element is built: the array holds it, and nothing below changed.\<close>

lemma built_element:
  assumes f: "filling p a done (Suc n)" and b: "built p R rest p1"
  shows "take a (ps_store p1) = take a (ps_store p)" "a < length (ps_store p1)"
    "\<exists>es. ps_store p1 ! a = array_obj (length done + Suc n) (Some es) \<and> length es = length done + Suc n
       \<and> list_all2 (\<lambda>r e. e \<noteq> None \<and> a < the e \<and> denotes (ps_store p1) r (the e)) (done @ [R]) (take (Suc (length done)) es)"
proof -
  obtain es where es: "ps_store p ! a = array_obj (length done + Suc n) (Some es)" "length es = length done + Suc n"
    "list_all2 (\<lambda>r e. e \<noteq> None \<and> a < the e \<and> denotes (ps_store p) r (the e)) done (take (length done) es)"
    and at: "\<forall>b. attach (ps_stack p) (p_task p) b (ps_store p)
       = Some ((ps_store p)[a := array_obj (length done + Suc n) (Some (es[length done := Some b]))])"
    using filling_attach [OF f] by blast
  let ?n = "length (ps_store p)" let ?es = "es[length done := Some ?n]"
  have a: "a < ?n" using f by (simp add: filling_def Let_def)
  have bt: "?n < length (ps_store p1)" "denotes (ps_store p1) R ?n"
    "take ?n (ps_store p1) = (ps_store p)[a := array_obj (length done + Suc n) (Some ?es)]"
    using b at by (simp_all add: built_def Let_def)
  have old: "ps_store p1 ! c = (ps_store p)[a := array_obj (length done + Suc n) (Some ?es)] ! c" if "c < ?n" for c
    using that by (metis bt(3) nth_take)
  have tk: "take a (ps_store p1) = take a (take ?n (ps_store p1))" using a by (simp add: min_def)
  show "take a (ps_store p1) = take a (ps_store p)" unfolding tk bt(3) by simp
  show "a < length (ps_store p1)" using a bt(1) by simp
  have "list_all2 (\<lambda>r e. e \<noteq> None \<and> a < the e \<and> denotes (ps_store p1) r (the e)) done (take (length done) es)"
    using es(3)
  proof (rule list.rel_mono_strong)
    fix r e assume m: "e \<noteq> None \<and> a < the e \<and> denotes (ps_store p) r (the e)"
    have d: "denotes (ps_store p) r (the e)" and ae: "a < the e" using m by simp_all
    have "denotes (ps_store p1) r (the e)"
    proof (rule denotes_frame [OF d])
      fix c assume "the e \<le> c" "c < ?n"
      then show "ps_store p1 ! c = ps_store p ! c" using old [of c] ae by simp
    qed (use bt(1) in simp)
    then show "e \<noteq> None \<and> a < the e \<and> denotes (ps_store p1) r (the e)" using m by simp
  qed
  moreover have t: "take (Suc (length done)) ?es = take (length done) es @ [Some ?n]"
    using es(2) by (simp add: take_Suc_conv_app_nth)
  moreover have "list_all2 (\<lambda>r e. e \<noteq> None \<and> a < the e \<and> denotes (ps_store p1) r (the e)) [R] [Some ?n]"
    using a bt(2) by simp
  ultimately have l: "list_all2 (\<lambda>r e. e \<noteq> None \<and> a < the e \<and> denotes (ps_store p1) r (the e))
      (done @ [R]) (take (Suc (length done)) ?es)" unfolding t by (intro list_all2_appendI)
  have "ps_store p1 ! a = array_obj (length done + Suc n) (Some ?es)" using old [OF a] a by simp
  with l es(2) show "\<exists>es. ps_store p1 ! a = array_obj (length done + Suc n) (Some es) \<and> length es = length done + Suc n
       \<and> list_all2 (\<lambda>r e. e \<noteq> None \<and> a < the e \<and> denotes (ps_store p1) r (the e)) (done @ [R]) (take (Suc (length done)) es)"
    by (intro exI [of _ ?es] conjI) (simp_all only: length_list_update)
qed

text \<open>Leaving an element: to the next one, or out of the array after the last.\<close>

lemma next_element:
  assumes f: "filling p a done (Suc (Suc n))" and b: "built p R rest p1"
  shows "\<exists>p2. go_on mem p1 = p_loop mem p2 \<and> filling p2 a (done @ [R]) (Suc n) \<and> ps_input p2 = rest
    \<and> ps_ridx p2 = ps_ridx p \<and> ps_reply p2 = ps_reply p \<and> ps_store p2 = ps_store p1
    \<and> (\<forall>j < nat (ps_ridx p). ps_stack p2 ! j = ps_stack p ! j)"
proof -
  let ?k = "nat (ps_ridx p)"
  note fd = f [unfolded filling_def Let_def] and bd = b [unfolded built_def Let_def]
  have k: "0 < ps_ridx p" "?k < 9" "nat (ps_ridx p - 1) = ?k - 1" "?k - 1 < ?k" using fd by auto
  have prv: "ps_stack p1 ! (?k - 1) = ps_stack p ! (?k - 1)" using bd k by simp
  have cur: "ps_stack p1 ! ?k = p_task p1" using bd by (simp add: p_task_def)
  let ?t = "(p_task p1)\<lparr>t_type := -1, t_elements := -1, t_idx := t_idx (p_task p1) + 1\<rparr>"
  have nt: "next_task (ps_ridx p1) (ps_stack p1) = Some (ps_ridx p1, (ps_stack p1)[?k := ?t])"
    using k fd bd prv cur by (subst next_task.simps) (simp add: Let_def)
  let ?p2 = "p1\<lparr>ps_ridx := ps_ridx p1, ps_stack := (ps_stack p1)[?k := ?t]\<rparr>"
  have "go_on mem p1 = p_loop mem ?p2" using nt by (simp add: go_on_def p_next_def)
  moreover have "filling ?p2 a (done @ [R]) (Suc n)"
  proof -
    have c: "p_task ?p2 = ?t" "ps_stack ?p2 ! (?k - 1) = ps_stack p ! (?k - 1)"
      using bd k prv by (simp_all add: p_task_def)
    have v: "ps_ridx ?p2 = ps_ridx p" "ps_store ?p2 = ps_store p1" "length (ps_stack ?p2) = 9" "ps_err ?p2 = 0"
      using bd by simp_all
    have t: "t_type ?t < 0" "t_parent ?t = Some (?k - 1)" "t_idx ?t = int (length (done @ [R]))"
      using bd fd by simp_all
    have e: "t_elements (ps_stack p ! (?k - 1)) = int (length (done @ [R]) + Suc n)" using fd by simp
    have l: "length (done @ [R]) + Suc n = length done + Suc (Suc n)" by simp
    have arr: "\<exists>es. ps_store p1 ! a = array_obj (length (done @ [R]) + Suc n) (Some es) \<and> length es = length (done @ [R]) + Suc n
       \<and> list_all2 (\<lambda>r e. e \<noteq> None \<and> a < the e \<and> denotes (ps_store p1) r (the e)) (done @ [R]) (take (length (done @ [R])) es)"
      unfolding l using built_element(3) [OF f b] by simp
    show ?thesis unfolding filling_def Let_def c v using k(1) fd t e built_element(2) [OF f b] arr by blast
  qed
  moreover have "\<forall>j < ?k. ps_stack ?p2 ! j = ps_stack p ! j" using bd by simp
  moreover have "ps_reply ?p2 = ps_reply p" using bd k by simp
  ultimately show ?thesis using bd by (intro exI [of _ ?p2]) simp
qed

lemma last_element:
  assumes f: "filling p a done (Suc 0)" and b: "built p R rest p1"
  shows "go_on mem p1 = go_on mem (p1\<lparr>ps_ridx := ps_ridx p - 1\<rparr>)"
proof -
  let ?k = "nat (ps_ridx p)"
  note fd = f [unfolded filling_def Let_def] and bd = b [unfolded built_def Let_def]
  have k: "0 < ps_ridx p" "nat (ps_ridx p - 1) = ?k - 1" "?k - 1 < ?k" using fd by auto
  have prv: "ps_stack p1 ! (?k - 1) = ps_stack p ! (?k - 1)" using bd k by simp
  have cur: "ps_stack p1 ! ?k = p_task p1" using bd by (simp add: p_task_def)
  have "next_task (ps_ridx p1) (ps_stack p1) = next_task (ps_ridx p - 1) (ps_stack p1)"
    using k fd bd prv cur by (subst next_task.simps) (simp add: Let_def)
  then show ?thesis by (simp add: go_on_def p_next_def split: option.split)
qed


definition parses :: "heap \<Rightarrow> reply \<Rightarrow> bool" where
  "parses mem R \<longleftrightarrow>
     (\<forall>p rest. expecting p \<longrightarrow> reply_ok (nat (ps_ridx p)) R \<longrightarrow> ps_input p = encode R @ rest \<longrightarrow>
        (\<exists>p1. built p R rest p1 \<and> p_loop mem p = go_on mem p1))"

lemma elements_built:
  "\<forall>r\<in>set rs. parses mem r \<Longrightarrow> rs \<noteq> [] \<Longrightarrow> filling p a done (length rs) \<Longrightarrow>
   ps_input p = concat (map encode rs) @ rest \<Longrightarrow> list_all (reply_ok (nat (ps_ridx p))) rs \<Longrightarrow>
   \<exists>p1. p_loop mem p = go_on mem p1 \<and> ps_input p1 = rest \<and> ps_ridx p1 = ps_ridx p - 1 \<and> ps_err p1 = 0
     \<and> length (ps_stack p1) = 9 \<and> (\<forall>j < nat (ps_ridx p). ps_stack p1 ! j = ps_stack p ! j)
     \<and> ps_reply p1 = ps_reply p \<and> take a (ps_store p1) = take a (ps_store p)
     \<and> a < length (ps_store p1) \<and> denotes (ps_store p1) (R_array (done @ rs)) a"
proof (induction rs arbitrary: p "done")
  case (Cons r rs)
  have f: "filling p a done (Suc (length rs))" using Cons.prems(3) by simp
  obtain p1 where p1: "built p r (concat (map encode rs) @ rest) p1" "p_loop mem p = go_on mem p1"
  proof -
    have "parses mem r" "reply_ok (nat (ps_ridx p)) r" "ps_input p = encode r @ concat (map encode rs) @ rest"
      using Cons.prems(1,4,5) by simp_all
    then show ?thesis using that filling_expecting [OF f] unfolding parses_def by blast
  qed
  note e = built_element [OF f p1(1)]
  note fd = f [unfolded filling_def Let_def] and bd = p1(1) [unfolded built_def Let_def]
  show ?case
  proof (cases rs)
    case Nil
    have "go_on mem p1 = go_on mem (p1\<lparr>ps_ridx := ps_ridx p - 1\<rparr>)" using last_element f p1(1) Nil by simp
    moreover have "denotes (ps_store p1) (R_array (done @ [r])) a" using e(2,3) Nil by (auto simp: array_obj_def)
    ultimately show ?thesis using p1(2) e(1,2) bd fd Nil
      by (intro exI [of _ "p1\<lparr>ps_ridx := ps_ridx p - 1\<rparr>"]) simp
  next
    case (Cons r' rs')
    have "filling p a done (Suc (Suc (length rs')))" using f Cons by simp
    from next_element [OF this p1(1), of mem] obtain p2 where
      p2: "go_on mem p1 = p_loop mem p2" "filling p2 a (done @ [r]) (length rs)" "ps_input p2 = concat (map encode rs) @ rest"
        "ps_ridx p2 = ps_ridx p" "ps_reply p2 = ps_reply p" "ps_store p2 = ps_store p1"
        "\<forall>j < nat (ps_ridx p). ps_stack p2 ! j = ps_stack p ! j"
      using Cons by auto
    have "\<forall>r\<in>set rs. parses mem r" "rs \<noteq> []" "list_all (reply_ok (nat (ps_ridx p2))) rs"
      using Cons.prems(1,5) Cons p2(4) by simp_all
    from Cons.IH [OF this(1,2) p2(2,3) this(3)] show ?thesis
      using p1(2) p2 e(1) by auto
  qed
qed simp

lemma array_header:
  assumes x: "expecting p" and m: "ample mem" and k: "ps_ridx p \<noteq> 8" and n: "n < 2 ^ 31"
    and i: "ps_input p = CHR ''*'' # dec n @ CR # LF # s"
    and st: "place (ps_stack (typed p REDIS_REPLY_ARRAY s)) (p_task (typed p REDIS_REPLY_ARRAY s))
        (array_obj n (if n = 0 then None else Some (replicate n None))) (ps_store p) = Some (Some (st1, a))"
  shows "p_item mem p = (let r = p_root (typed p REDIS_REPLY_ARRAY s) st1 a
      in if n = 0 then map_option (\<lambda>p'. (p', True)) (p_next r) else Some (p_push r (int n) a, True))"
proof -
  have l: "find_crlf (dec n) = None" by (rule find_crlf_no_cr [OF dec_no_cr])
  have v: "readLongLong (dec n @ CR # y) = Some (int n)" for y using n by (intro readLongLong_dec) simp
  let ?head = "typed p REDIS_REPLY_ARRAY (dec n @ CR # LF # s)" and ?q = "typed p REDIS_REPLY_ARRAY s"
  have w: "wrap_int (int n) = int n" using n by (intro wrap_int_small) simp_all
  have same: "ps_stack ?head = ps_stack ?q" "p_task ?head = p_task ?q" by (simp_all add: typed_def p_task_def)
  have q: "drop (length (dec n) + 2) (ps_input ?head) = s" "?head\<lparr>ps_input := s\<rparr> = ?q"
    by (simp, simp only: typed_drop)
  have ne: "int n \<noteq> -1" "REDIS_REPLY_ARRAY \<noteq> REDIS_REPLY_STRING" "reply_type_byte (CHR ''*'') = Some REDIS_REPLY_ARRAY"
    by (simp_all add: reply_types reply_type_byte_def)
  have "p_item mem p = p_array mem ?head (length (dec n))"
    using typed_line [OF x i ne(3) l, of mem] k ne(2) by simp
  also have "\<dots> = (if 0 < int n then Some (p_push (p_root ?q st1 a) (int n) a, True)
      else map_option (\<lambda>p'. (p', True)) (p_next (p_root ?q st1 a)))"
    unfolding p_array_def Let_def same q
    by (simp only: typed_sel v option.case ne(1) if_False w create_array [OF m] st prod.case)
  finally show ?thesis by (auto simp: Let_def)
qed

text \<open>The header of an array with elements leaves the parser at the first of them.\<close>

lemma array_opened:
  assumes x: "expecting p" and m: "ample mem" and k: "ps_ridx p \<noteq> 8" and n: "0 < n" "n < 2 ^ 31"
    and i: "ps_input p = CHR ''*'' # dec n @ CR # LF # s"
  shows "\<exists>p2. p_loop mem p = p_loop mem p2 \<and> filling p2 (length (ps_store p)) [] n \<and> ps_input p2 = s
    \<and> ps_ridx p2 = ps_ridx p + 1 \<and> ps_reply p2 = (if ps_ridx p = 0 then Some (length (ps_store p)) else ps_reply p)
    \<and> attach (ps_stack p) (p_task p) (length (ps_store p)) (ps_store p) = Some (take (length (ps_store p)) (ps_store p2))
    \<and> (\<forall>j < nat (ps_ridx p). ps_stack p2 ! j = ps_stack p ! j)
    \<and> t_idx (ps_stack p2 ! nat (ps_ridx p)) = t_idx (p_task p) \<and> t_parent (ps_stack p2 ! nat (ps_ridx p)) = t_parent (p_task p)"
proof -
  let ?ob = "array_obj n (if n = 0 then None else Some (replicate n None))" and ?ty = REDIS_REPLY_ARRAY
  let ?q = "typed p ?ty s" and ?a = "length (ps_store p)" and ?k = "nat (ps_ridx p)"
  obtain st1 where st: "attach (ps_stack p) (p_task p) ?a (ps_store p) = Some st1" "length st1 = ?a"
    "place (ps_stack ?q) (p_task ?q) ?ob (ps_store p) = Some (Some (st1 @ [?ob], ?a))"
    using place_new [OF x] .
  define p2 where "p2 = p_push (p_root ?q (st1 @ [?ob]) ?a) (int n) ?a"
  have item: "p_item mem p = Some (p2, True)"
    using array_header [OF x m k n(2) i st(3)] n(1) by (simp add: Let_def p2_def)
  have kb: "0 \<le> ps_ridx p" "ps_ridx p < 8" "length (ps_stack p) = 9" "ps_err p = 0" "?k < 8" "nat (ps_ridx p + 1) = Suc ?k"
    using x k by (auto simp: expecting_def)
  have "p_task ?q = (p_task p)\<lparr>t_type := ?ty\<rparr>" by (rule typed_task [OF x])
  then have "ps_stack ?q ! ?k = (p_task p)\<lparr>t_type := ?ty\<rparr>" by (simp add: p_task_def)
  then have p2: "ps_ridx p2 = ps_ridx p + 1" "ps_err p2 = 0" "ps_input p2 = s" "ps_store p2 = st1 @ [?ob]"
    "ps_reply p2 = (if ps_ridx p = 0 then Some ?a else ps_reply p)"
    "ps_stack p2 = (ps_stack ?q)[?k := (p_task p)\<lparr>t_type := ?ty, t_elements := int n, t_obj := Some ?a\<rparr>,
       Suc ?k := fresh_task ?k]"
    using kb by (simp_all add: p2_def p_push_def p_root_def Let_def)
  have s2: "ps_stack p2 ! ?k = (p_task p)\<lparr>t_type := ?ty, t_elements := int n, t_obj := Some ?a\<rparr>"
    "ps_stack p2 ! Suc ?k = fresh_task ?k" "length (ps_stack p2) = 9"
    "\<forall>j < ?k. ps_stack p2 ! j = ps_stack p ! j"
    using kb by (simp_all add: p2(6))
  have "p_task p2 = fresh_task ?k" using s2(2) kb(6) by (simp add: p_task_def p2(1))
  then have "filling p2 ?a [] n"
    using n(1) kb s2 st(2) p2(1,2,4) by (auto simp: filling_def Let_def fresh_task_def nth_append)
  moreover have "p_loop mem p = p_loop mem p2" using loop_item [OF x, of mem] item by simp
  ultimately show ?thesis using p2 s2 st(1,2) by (intro exI [of _ p2]) simp
qed

lemma array_built:
  assumes x: "expecting p" and m: "ample mem" and k: "ps_ridx p \<noteq> 8" and n: "length rs < 2 ^ 31"
    and i: "ps_input p = CHR ''*'' # dec (length rs) @ CR # LF # concat (map encode rs) @ rest"
    and ok: "list_all (reply_ok (Suc (nat (ps_ridx p)))) rs" and IH: "\<forall>r\<in>set rs. parses mem r"
  shows "\<exists>p1. built p (R_array rs) rest p1 \<and> p_loop mem p = go_on mem p1"
proof (cases "rs = []")
  case True
  let ?ty = REDIS_REPLY_ARRAY let ?q = "typed p ?ty rest"
  obtain st1 where st: "place (ps_stack ?q) (p_task ?q) (array_obj 0 None) (ps_store p)
      = Some (Some (st1 @ [array_obj 0 None], length (ps_store p)))" using place_new [OF x] .
  have "p_item mem p = p_finish ?q (place (ps_stack ?q) (p_task ?q) (array_obj 0 None) (ps_store p))"
    using array_header [OF x m k n i] st True by (simp add: p_finish_def)
  then show ?thesis using True by (intro leaf_built [OF x, where ty = ?ty and ob = "array_obj 0 None"])
      (simp_all add: array_obj_def nth_append)
next
  case False
  let ?k = "nat (ps_ridx p)" and ?a = "length (ps_store p)"
  have nk: "nat (ps_ridx p + 1) = Suc ?k" using x by (auto simp: expecting_def)
  obtain p2 where p2: "p_loop mem p = p_loop mem p2" "filling p2 ?a [] (length rs)"
      "ps_input p2 = concat (map encode rs) @ rest" "ps_ridx p2 = ps_ridx p + 1"
      "ps_reply p2 = (if ps_ridx p = 0 then Some ?a else ps_reply p)"
      "attach (ps_stack p) (p_task p) ?a (ps_store p) = Some (take ?a (ps_store p2))"
      "\<forall>j < ?k. ps_stack p2 ! j = ps_stack p ! j"
      "t_idx (ps_stack p2 ! ?k) = t_idx (p_task p)" "t_parent (ps_stack p2 ! ?k) = t_parent (p_task p)"
    using array_opened [OF x m k _ n i] False by auto
  have ok2: "list_all (reply_ok (nat (ps_ridx p2))) rs" using ok nk p2(4) by simp
  obtain p1 where p1: "p_loop mem p2 = go_on mem p1" "ps_input p1 = rest" "ps_ridx p1 = ps_ridx p" "ps_err p1 = 0"
    "length (ps_stack p1) = 9" "\<forall>j < Suc ?k. ps_stack p1 ! j = ps_stack p2 ! j" "ps_reply p1 = ps_reply p2"
    "take ?a (ps_store p1) = take ?a (ps_store p2)" "?a < length (ps_store p1)" "denotes (ps_store p1) (R_array rs) ?a"
    using elements_built [OF IH False p2(2,3) ok2] p2(4) nk by auto
  have "p_task p1 = ps_stack p2 ! ?k" using p1(3,6) by (simp add: p_task_def)
  then have "built p (R_array rs) rest p1"
    unfolding built_def Let_def using p1 p2(5-9) by (simp del: denotes.simps)
  then show ?thesis using p1(1) p2(1) by auto
qed

text \<open>Eight arrays may be open; the header of a ninth is an error.\<close>

abbreviation headers :: "nat list \<Rightarrow> bytes" where
  "headers ns \<equiv> concat (map (\<lambda>n. CHR ''*'' # dec n @ CR # [LF]) ns)"

lemma too_deep:
  "expecting p \<Longrightarrow> ample mem \<Longrightarrow> nat (ps_ridx p) + length ns = 8 \<Longrightarrow> \<forall>n\<in>set ns. 0 < n \<and> n < 2 ^ 31 \<Longrightarrow>
   ps_input p = headers ns @ CHR ''*'' # t \<Longrightarrow>
   \<exists>p'. p_loop mem p = Some p' \<and> ps_err p' = REDIS_ERR_PROTOCOL"
proof (induction ns arbitrary: p)
  case Nil
  let ?q = "typed p REDIS_REPLY_ARRAY t"
  have q: "ps_ridx ?q = 8" "t_type (p_task ?q) = REDIS_REPLY_ARRAY"
    using Nil(1,3) typed_task [OF Nil(1)] by (auto simp: expecting_def)
  have "p_item mem p = p_typed mem ?q"
    using item_typed [OF Nil(1), of "CHR ''*''" t REDIS_REPLY_ARRAY mem] Nil(5) by (simp add: reply_type_byte_def)
  also have "\<dots> = Some (p_fail ?q REDIS_ERR_PROTOCOL ''No support for nested multi bulk replies with depth > 7'', False)"
    by (simp only: p_typed_def Let_def q simp_thms if_True)
  finally have "p_loop mem p = Some (p_fail ?q REDIS_ERR_PROTOCOL ''No support for nested multi bulk replies with depth > 7'')"
    using loop_item [OF Nil(1), of mem] by (simp only: option.case prod.case if_False)
  moreover have "ps_err (p_fail ?q ty str) = ty" for ty str by (simp add: p_fail_def)
  ultimately show ?case by (intro exI conjI)
next
  case (Cons n ns)
  have k: "ps_ridx p \<noteq> 8" and n: "0 < n" "n < 2 ^ 31" using Cons.prems(3,4) by auto
  have i: "ps_input p = CHR ''*'' # dec n @ CR # LF # headers ns @ CHR ''*'' # t" using Cons.prems(5) by simp
  obtain p2 where p2: "p_loop mem p = p_loop mem p2" "filling p2 (length (ps_store p)) [] n"
      "ps_input p2 = headers ns @ CHR ''*'' # t" "ps_ridx p2 = ps_ridx p + 1"
    using array_opened [OF Cons.prems(1,2) k n i] by blast
  have "expecting p2" using filling_expecting [of p2 "length (ps_store p)" "[]" "n - 1"] p2(2) Cons.prems(4) by simp
  moreover have "nat (ps_ridx p2) + length ns = 8" using Cons.prems(1,3) p2(4) by (auto simp: expecting_def nat_add_distrib)
  ultimately show ?case using Cons.IH [of p2] Cons.prems(2,4) p2(1,3) by simp
qed

lemma all_replies_parse: "ample mem \<Longrightarrow> parses mem R"
proof (induction R)
  case (R_array rs)
  then show ?case unfolding parses_def
    using array_built [of _ mem rs] by (auto simp: parses_def)
next
  case (R_status t)
  then show ?case unfolding parses_def
    using status_built [of _ mem "CHR ''+''" REDIS_REPLY_STATUS t] by (auto simp: reply_type_byte_def)
next
  case (R_error t)
  then show ?case unfolding parses_def
    using status_built [of _ mem "CHR ''-''" REDIS_REPLY_ERROR t] by (auto simp: reply_type_byte_def)
next
  case (R_int i)
  then show ?case unfolding parses_def using integer_built by simp
next
  case R_nil
  then show ?case unfolding parses_def using nil_built by simp
next
  case R_nil_array
  then show ?case unfolding parses_def using nil_built by simp
next
  case (R_bulk t)
  then show ?case unfolding parses_def using bulk_built by simp
qed


section \<open>From bytes to replies\<close>

definition idle :: "parser \<Rightarrow> bool" where
  "idle p \<longleftrightarrow> ps_err p = 0 \<and> ps_ridx p = 0 \<and> length (ps_stack p) = 9 \<and> ps_stack p ! 0 = root_task"

lemma idle_expecting: "idle p \<Longrightarrow> expecting p"
  by (simp add: idle_def expecting_def p_task_def attach_def) (simp add: root_task_def)

lemma idle_too_deep:
  assumes "idle p" "ample mem" "length ns = 8" "\<forall>n\<in>set ns. 0 < n \<and> n < 2 ^ 31" "ps_input p = headers ns @ CHR ''*'' # t"
  shows "\<exists>p'. p_get mem p = Some (p', False, None) \<and> ps_err p' = REDIS_ERR_PROTOCOL"
proof -
  have "nat (ps_ridx p) + length ns = 8" using assms(1,3) by (simp add: idle_def)
  from too_deep [OF idle_expecting [OF assms(1)] assms(2) this assms(4,5)] show ?thesis
    using assms(1) by (auto simp: p_get_def idle_def REDIS_ERR_PROTOCOL_def)
qed

text \<open>An array whose count is a multiple of \<open>2 ^ 32\<close> gets no room for elements, but its
  elements are expected: the next reply is stored through a null pointer.\<close>

lemma huge_array_machine:
  assumes "ample mem" "idle p" "ps_input p = ''*4294967296'' @ CRLF @ '':1'' @ CRLF"
  shows "p_get mem p = None"
proof -
  have p: "ps_err p = 0" "ps_ridx p = 0" "length (ps_stack p) = 9" "ps_stack p ! 0 = root_task"
    using assms(2) by (simp_all add: idle_def)
  have t: "p_task p = root_task" by (simp add: p_task_def p)
  define s where "s = ''4294967296'' @ CRLF @ '':1'' @ CRLF"
  have l1: "find_crlf s = Some 10" "readLongLong s = Some 4294967296" "drop 12 s = '':1'' @ CRLF"
    unfolding s_def by code_simp+
  have inp: "ps_input p = CHR ''*'' # s" using assms(3) by (simp add: s_def)
  have l2: "find_crlf (''1'' @ CRLF) = Some (Suc 0)" "readLongLong (''1'' @ CRLF) = Some 1" by code_simp+
  have w: "wrap_int 4294967296 = 0" by (simp add: wrap_int_def) 
  define R where "R = \<lparr>ro_type = REDIS_REPLY_ARRAY, ro_integer = 0, ro_len = 0, ro_str = None, ro_elements = 0, ro_element = None\<rparr>"
  let ?a = "length (ps_store p)"
  define q where "q = typed p REDIS_REPLY_ARRAY s"
  have qi: "ps_input q = s" "ps_store q = ps_store p" "ps_ridx q = 0"
      "p_task q = root_task\<lparr>t_type := REDIS_REPLY_ARRAY\<rparr>"
    by (simp_all add: q_def p typed_def p_task_def)
  have i1: "p_item mem p = p_typed mem q"
    using t inp by (simp add: p_item_def root_task_def reply_type_byte_def q_def typed_def)
  have arr: "createArrayObject mem (ps_stack q) (p_task q) 0 (ps_store p) = Some (Some (ps_store p @ [R], ?a))"
    using ample_reply [OF assms(1)] by (simp add: createArrayObject_def R_def to_size_def place_def attach_def qi(4) root_task_def)
  define p1 where "p1 = p_push (p_root (q\<lparr>ps_input := '':1'' @ CRLF\<rparr>) (ps_store p @ [R]) ?a) 0 ?a"
  have i2: "p_typed mem q = p_array mem q 10"
    using qi l1 by (simp add: p_typed_def reply_types root_task_def)
  have i3: "p_array mem q 10 = Some (p1, True)"
    by (simp add: p_array_def qi(1,2) l1 w arr p1_def Let_def del: append.simps)
  have p1: "ps_ridx p1 = 1" "ps_input p1 = '':1'' @ CRLF" "ps_store p1 = ps_store p @ [R]"
      "p_task p1 = fresh_task 0" "length (ps_stack p1) = 9" "t_obj (ps_stack p1 ! 0) = Some ?a"
    by (simp_all add: p1_def p_push_def p_root_def Let_def qi(3) p_task_def) (simp_all add: q_def typed_def p)
  define q1 where "q1 = typed p1 REDIS_REPLY_INTEGER (''1'' @ CRLF)"
  have q1: "p_task q1 = (fresh_task 0)\<lparr>t_type := REDIS_REPLY_INTEGER\<rparr>" "ps_input q1 = ''1'' @ CRLF" "ps_store q1 = ps_store p @ [R]"
      "t_obj (ps_stack q1 ! 0) = Some ?a" "ps_ridx q1 = 1"
    using p1 by (simp_all add: q1_def typed_def p_task_def)
  have j1: "p_item mem p1 = p_typed mem q1"
    using p1 by (simp add: p_item_def fresh_task_def reply_type_byte_def q1_def typed_def)
  have "createIntegerObject mem (ps_stack q1) (p_task q1) 1 (ps_store q1) = None"
    using ample_reply [OF assms(1)] by (simp add: createIntegerObject_def place_def attach_def q1 fresh_task_def R_def nth_append)
  then have "p_typed mem q1 = None"
    using q1 l2 by (simp add: p_typed_def p_line_def p_finish_def reply_types fresh_task_def Let_def)
  then show ?thesis
    using p p1(1) i1 i2 i3 j1 by (simp add: p_get_def p_loop.simps [of mem p] p_loop.simps [of mem p1])
qed
lemma idle_get:
  assumes "idle p" "ample mem" "reply_ok 0 R" "ps_input p = encode R @ rest"
  shows "\<exists>p' a. p_get mem p = Some (p', True, Some a) \<and> idle p' \<and> ps_input p' = rest \<and> denotes (ps_store p') R a
    \<and> take (length (ps_store p)) (ps_store p') = ps_store p"
proof -
  have task: "p_task p = root_task" using assms(1) by (simp add: idle_def p_task_def)
  then have at: "attach (ps_stack p) (p_task p) n (ps_store p) = Some (ps_store p)" for n
    by (simp add: attach_def root_task_def)
  note \<open>idle p\<close> [THEN idle_expecting]
  then obtain p1 where b: "built p R rest p1" and l: "p_loop mem p = go_on mem p1"
  proof -
    have "reply_ok (nat (ps_ridx p)) R" using assms(1,3) by (simp add: idle_def)
    with \<open>expecting p\<close> show ?thesis
      using that all_replies_parse [OF assms(2), of R] assms(4) unfolding parses_def by blast
  qed
  note bd = b [unfolded built_def Let_def]
  have "ps_ridx p1 = 0" using bd assms(1) by (simp add: idle_def)
  then have "next_task (ps_ridx p1) (ps_stack p1) = Some (-1, ps_stack p1)" by (subst next_task.simps) simp
  then have "go_on mem p1 = p_loop mem (p1\<lparr>ps_ridx := -1, ps_stack := ps_stack p1\<rparr>)" by (simp add: go_on_def p_next_def)
  then have "p_loop mem p = Some (p1\<lparr>ps_ridx := -1, ps_stack := ps_stack p1\<rparr>)"
    using l by (simp only: p_loop.simps [of mem "p1\<lparr>ps_ridx := -1, ps_stack := ps_stack p1\<rparr>"]) simp
  then have "p_get mem p = Some (p1\<lparr>ps_ridx := 0, ps_stack := (ps_stack p1)[0 := root_task], ps_reply := None\<rparr>,
      True, Some (length (ps_store p)))"
    using bd assms(1) by (simp add: p_get_def p_start_def idle_def)
  then show ?thesis using bd at by (auto simp: idle_def simp del: denotes.simps)
qed

lemma fresh_reader:
  assumes "good_heap mem" "redisReaderCreate mem = Some r"
  shows "reader_ok r" "rd_err r = 0" "rd_len r = 0" "idle (machine r)" "ps_input (machine r) = []" "ps_store (machine r) = []"
proof -
  obtain b where b: "sdsempty mem = Some b" "r = \<lparr>rd_err = 0, rd_errstr = [], rd_buf = Some b, rd_pos = 0, rd_len = 0,
      rd_maxbuf = REDIS_READER_MAX_BUF, rd_stack = replicate 9 zero_task, rd_ridx = -1, rd_reply = None, rd_store = []\<rparr>"
    using assms(2) by (auto simp: redisReaderCreate_def split: if_splits option.splits)
  note e = sdsempty_text [OF assms(1) b(1)]
  show "reader_ok r" using e by (simp add: b(2) reader_ok_def live_def stack_ok_def waiting_def abs_reader_def)
  show "rd_err r = 0" "rd_len r = 0" by (simp_all add: b(2))
  show "idle (machine r)" by (simp add: b(2) machine_def p_start_def abs_reader_def idle_def)
  show "ps_input (machine r) = []" "ps_store (machine r) = []"
    using e by (simp_all add: b(2) machine_def p_start_def abs_reader_def unread_def)
qed

lemma redisReaderCreate_total: "ample mem \<Longrightarrow> \<exists>r. redisReaderCreate mem = Some r"
  using sdsempty_total [of mem] ampleD [of mem 560] by (auto simp: redisReaderCreate_def)

end
