(* ===== verification/Merge.thy ===== *)
theory Merge
  imports FragmentSpec ReaderParse
begin

text \<open>
  Putting the replies of sub commands together (\<open>command_post_fragment\<close>).

  The reader builds a reply as objects in a store; once it is handed out it is a tree that
  nothing else points into. Here replies are such trees, and \<open>load\<close> reads one out of a store.
  Moving an element from a sub reply to the merged reply takes it from the tree; the code
  lowers the sub reply's count so that it is not freed twice.
\<close>

section \<open>Reply trees\<close>

datatype rtree = RTree (rt_type: int) (rt_integer: int) (rt_len: int) (rt_str: "bytes option")
  (rt_elements: nat) (rt_element: "rtree option list option")

function load :: "store \<Rightarrow> address \<Rightarrow> rtree" where
  "load h a =
     (let r = h ! a
      in RTree (ro_type r) (ro_integer r) (ro_len r) (ro_str r) (ro_elements r)
           (map_option (map (\<lambda>e. case e of None \<Rightarrow> None
              | Some b \<Rightarrow> if a < b \<and> b < length h then Some (load h b) else None)) (ro_element r)))"
  by pat_completeness auto
termination
  by (relation "measure (\<lambda>(h, a). length h - a)") auto

declare load.simps [simp del]

fun tree_of :: "reply \<Rightarrow> rtree" where
  "tree_of (R_status t) = RTree REDIS_REPLY_STATUS 0 (int (length t)) (Some (t @ [NUL])) 0 None"
| "tree_of (R_error t) = RTree REDIS_REPLY_ERROR 0 (int (length t)) (Some (t @ [NUL])) 0 None"
| "tree_of (R_int i) = RTree REDIS_REPLY_INTEGER i 0 None 0 None"
| "tree_of R_nil = RTree REDIS_REPLY_NIL 0 0 None 0 None"
| "tree_of R_nil_array = RTree REDIS_REPLY_NIL 0 0 None 0 None"
| "tree_of (R_bulk t) = RTree REDIS_REPLY_STRING 0 (int (length t)) (Some (t @ [NUL])) 0 None"
| "tree_of (R_array rs) = RTree REDIS_REPLY_ARRAY 0 0 None (length rs)
     (if rs = [] then None else Some (map (\<lambda>r. Some (tree_of r)) rs))"

lemma denotes_bound: "denotes h R a \<Longrightarrow> a < length h"
  by (cases R) auto

lemma load_denotes: "denotes h R a \<Longrightarrow> load h a = tree_of R"
proof (induction h R a rule: denotes.induct)
  case (7 h rs a)
  show ?case
  proof (cases "ro_element (h ! a)")
    case None
    then show ?thesis using 7(2) by (subst load.simps) (simp add: array_obj_def)
  next
    case (Some es)
    then have o: "h ! a = array_obj (length rs) (Some es)" "rs \<noteq> []"
      "list_all2 (\<lambda>r e. e \<noteq> None \<and> a < the e \<and> denotes h r (the e)) rs es" using 7(2) by auto
    have el: "\<And>r e. r \<in> set rs \<Longrightarrow> e \<in> set es \<Longrightarrow> denotes h r (the e) \<Longrightarrow> load h (the e) = tree_of r"
      using 7(1) [OF Some] by simp
    have "list_all2 (\<lambda>r e. (case e of None \<Rightarrow> None | Some b \<Rightarrow> if a < b \<and> b < length h then Some (load h b) else None)
        = Some (tree_of r)) rs es"
      using o(3)
    proof (rule list.rel_mono_strong)
      fix r e assume m: "r \<in> set rs" "e \<in> set es" "e \<noteq> None \<and> a < the e \<and> denotes h r (the e)"
      then show "(case e of None \<Rightarrow> None | Some b \<Rightarrow> if a < b \<and> b < length h then Some (load h b) else None) = Some (tree_of r)"
        using el [OF m(1,2)] denotes_bound [of h r "the e"] by auto
    qed
    then have "map (\<lambda>e. case e of None \<Rightarrow> None | Some b \<Rightarrow> if a < b \<and> b < length h then Some (load h b) else None) es
        = map (\<lambda>r. Some (tree_of r)) rs"
      by (induction rule: list_all2_induct) auto
    then show ?thesis using o(1,2) by (subst load.simps) (simp add: array_obj_def)
  qed
qed (auto simp: load.simps string_obj_def nil_obj_def)

section \<open>Merging\<close>

definition mismatch :: "bytes \<Rightarrow> cluster_error" where
  "mismatch what = (2, ''reply type is error(here only can be '' @ what @ '')'')"

text \<open>The first loop: a reply that is missing, an error or of the wrong kind ends it; otherwise the
  result is the sum of the integers. Sums outside 64 bits are undefined.\<close>

fun check_replies :: "cmd_type \<Rightarrow> rtree option list \<Rightarrow> int \<Rightarrow> ((cluster_error option \<times> rtree option) + int) option" where
  "check_replies ty [] count = Some (Inr count)"
| "check_replies ty (None # rs) count = Some (Inl (None, None))"
| "check_replies ty (Some r # rs) count =
     (if rt_type r = REDIS_REPLY_ERROR then Some (Inl (None, Some r))
      else if ty = CMD_REQ_REDIS_MGET then
        if rt_type r \<noteq> REDIS_REPLY_ARRAY then Some (Inl (Some (mismatch ''array''), None)) else check_replies ty rs count
      else if ty = CMD_REQ_REDIS_DEL then
        if rt_type r \<noteq> REDIS_REPLY_INTEGER then Some (Inl (Some (mismatch ''integer''), None))
        else if - (2 ^ 63) \<le> count + rt_integer r \<and> count + rt_integer r < 2 ^ 63
        then check_replies ty rs (count + rt_integer r) else None
      else if ty = CMD_REQ_REDIS_MSET then
        if rt_type r \<noteq> REDIS_REPLY_STATUS \<or> rt_len r \<noteq> 2 then Some (Inl (Some (mismatch ''status and ok''), None))
        else case rt_str r of
               None \<Rightarrow> None
             | Some t \<Rightarrow> if cstr t \<noteq> ''OK'' then Some (Inl (Some (mismatch ''status and ok''), None))
                         else check_replies ty rs count
      else check_replies ty rs count)"

text \<open>The loop of MGET, from the last key to the first; \<open>reps\<close> gives the reply of a sub command.\<close>

fun gather :: "nat list \<Rightarrow> (nat \<Rightarrow> rtree option) \<Rightarrow> rtree option list \<Rightarrow> (bytes + rtree option list) option" where
  "gather [] reps acc = Some (Inr acc)"
| "gather (s # ss) reps acc =
     (case reps s of
        None \<Rightarrow> Some (Inl ''sub reply is null'')
      | Some r \<Rightarrow>
          if rt_type r = REDIS_REPLY_STRING then gather ss reps (Some r # acc)
          else if rt_type r = REDIS_REPLY_ARRAY then
            if rt_elements r = 0 then Some (Inl ''sub reply elements error'')
            else case rt_element r of
                   None \<Rightarrow> None
                 | Some es \<Rightarrow>
                     if length es < rt_elements r then None
                     else gather ss
                            (reps(s \<mapsto> RTree (rt_type r) (rt_integer r) (rt_len r) (rt_str r) (rt_elements r - 1) (Some es)))
                            (es ! (rt_elements r - 1) # acc)
          else gather ss reps (None # acc))"

text \<open>\<open>subs\<close> lists the sub commands by slot, with their replies.\<close>

definition command_post_fragment ::
    "allocator \<Rightarrow> cmd \<Rightarrow> nat list \<Rightarrow> (nat \<times> rtree option) list \<Rightarrow> (cluster_error option \<times> rtree option) option" where
  "command_post_fragment mem command frag_seq subs =
     (case check_replies (c_type command) (map snd subs) 0 of
        None \<Rightarrow> None
      | Some (Inl early) \<Rightarrow> Some early
      | Some (Inr count) \<Rightarrow>
          if \<not> mem redisReply_size then Some (Some out_of_memory, None)
          else if c_type command = CMD_REQ_REDIS_MGET then
            (let key_count = unat (hiarray_n (c_keys command))
             in if \<not> mem (key_count * redisReply_size) then Some (Some out_of_memory, None)
                else if length frag_seq \<noteq> key_count then None
                else case gather (rev frag_seq) (\<lambda>s. case map_of subs s of Some r \<Rightarrow> r | None \<Rightarrow> None) [] of
                       None \<Rightarrow> None
                     | Some (Inl e) \<Rightarrow> Some (Some (2, e), None)
                     | Some (Inr es) \<Rightarrow> Some (None, Some (RTree REDIS_REPLY_ARRAY 0 0 None key_count (Some es))))
          else if c_type command = CMD_REQ_REDIS_DEL then
            Some (None, Some (RTree REDIS_REPLY_INTEGER count 0 None 0 None))
          else if c_type command = CMD_REQ_REDIS_MSET then
            (if \<not> mem ((length ''OK'' + 1) * 8) then Some (Some out_of_memory, None)
             else Some (None, Some (RTree REDIS_REPLY_STATUS 0 2 (Some (''OK'' @ [NUL])) 0 None)))
          else Some (None, Some (RTree 0 0 0 None 0 None)))"

section \<open>What the merged reply is\<close>

lemma check_arrays: "\<forall>r\<in>set rs. \<exists>vs. r = Some (tree_of (R_array vs)) \<Longrightarrow> check_replies CMD_REQ_REDIS_MGET rs n = Some (Inr n)"
  by (induction rs) (auto simp: reply_types)

lemma check_integers:
  "\<forall>i\<in>set is. 0 \<le> i \<Longrightarrow> 0 \<le> n \<Longrightarrow> n + sum_list is < 2 ^ 63 \<Longrightarrow>
   check_replies CMD_REQ_REDIS_DEL (map (\<lambda>i. Some (tree_of (R_int i))) is) n = Some (Inr (n + sum_list is))"
proof (induction "is" arbitrary: n)
  case (Cons i "is")
  have "0 \<le> sum_list is" using Cons.prems(1) by (simp add: sum_list_nonneg)
  then show ?case using Cons by (simp add: reply_types add.assoc)
qed simp

lemma check_ok: "check_replies CMD_REQ_REDIS_MSET (replicate m (Some (tree_of (R_status ''OK'')))) n = Some (Inr n)"
  by (induction m) (simp_all add: reply_types cstr_def)

text \<open>A sub reply from which the elements behind the first \<open>n\<close> have been taken.\<close>

definition taken :: "reply list \<Rightarrow> nat \<Rightarrow> rtree" where
  "taken vs n = RTree REDIS_REPLY_ARRAY 0 0 None n (Some (map (\<lambda>v. Some (tree_of v)) vs))"

lemma gather_all:
  "\<forall>k\<in>set ks. reps (slot k) = Some (taken (map V (filter (\<lambda>j. slot j = slot k) (ks @ rest))) (length (filter (\<lambda>j. slot j = slot k) ks))) \<Longrightarrow>
   gather (rev (map slot ks)) reps acc = Some (Inr (map (\<lambda>k. Some (tree_of (V k))) ks @ acc))"
proof (induction ks arbitrary: reps rest acc rule: rev_induct)
  case (snoc k ks)
  let ?own = "\<lambda>j. slot j = slot k" and ?vs = "map V (filter (\<lambda>j. slot j = slot k) ((ks @ [k]) @ rest))"
  let ?m = "length (filter ?own ks)"
  have r: "reps (slot k) = Some (taken ?vs (Suc ?m))" using snoc.prems by simp
  have el: "?vs ! ?m = V k" "?m < length ?vs" by (simp_all add: nth_append)
  let ?reps = "reps(slot k \<mapsto> taken ?vs ?m)"
  have "\<forall>j\<in>set ks. ?reps (slot j) = Some (taken (map V (filter (\<lambda>i. slot i = slot j) (ks @ [k] @ rest))) (length (filter (\<lambda>i. slot i = slot j) ks)))"
  proof
    fix j assume j: "j \<in> set ks"
    show "?reps (slot j) = Some (taken (map V (filter (\<lambda>i. slot i = slot j) (ks @ [k] @ rest))) (length (filter (\<lambda>i. slot i = slot j) ks)))"
      using bspec [OF snoc.prems, of j] j by (cases "slot j = slot k") auto
  qed
  from snoc.IH [OF this] have "gather (rev (map slot ks)) ?reps (Some (tree_of (V k)) # acc)
      = Some (Inr (map (\<lambda>k. Some (tree_of (V k))) ks @ Some (tree_of (V k)) # acc))" .
  moreover have "map (\<lambda>v. Some (tree_of v)) ?vs ! ?m = Some (tree_of (V k))" using el by (simp only: nth_map)
  ultimately show ?case using r el(2) by (simp add: taken_def reply_types)
qed simp

lemma tree_of_taken: "vs \<noteq> [] \<Longrightarrow> tree_of (R_array vs) = taken vs (length vs)"
  by (simp add: taken_def)

lemma merge_mget:
  assumes mem: "\<forall>n. mem n" and c: "c_type c = CMD_REQ_REDIS_MGET" "unat (hiarray_n (c_keys c)) = length ks" and ks: "ks \<noteq> []"
    and subs: "\<forall>(s, r)\<in>set subs. r = Some (tree_of (R_array (map V (filter (\<lambda>k. slot k = s) ks))))"
      "set (map slot ks) \<subseteq> fst ` set subs"
  shows "command_post_fragment mem c (map slot ks) subs = Some (None, Some (tree_of (R_array (map V ks))))"
proof -
  let ?reps = "\<lambda>s. case map_of subs s of Some r \<Rightarrow> r | None \<Rightarrow> None"
  have chk: "check_replies (c_type c) (map snd subs) 0 = Some (Inr 0)"
    unfolding c(1) using subs(1) by (intro check_arrays) (fastforce simp del: tree_of.simps)
  have "?reps (slot k) = Some (taken (map V (filter (\<lambda>j. slot j = slot k) (ks @ []))) (length (filter (\<lambda>j. slot j = slot k) ks)))"
    if k: "k \<in> set ks" for k
  proof -
    have "slot k \<in> fst ` set subs" using subs(2) k by auto
    then obtain r where r: "map_of subs (slot k) = Some r"
      by (metis map_of_eq_None_iff not_None_eq)
    then have "(slot k, r) \<in> set subs" by (rule map_of_SomeD)
    then have "r = Some (tree_of (R_array (map V (filter (\<lambda>j. slot j = slot k) ks))))" using subs(1) by auto
    moreover have "map V (filter (\<lambda>j. slot j = slot k) ks) \<noteq> []" using k by (auto simp: filter_empty_conv)
    ultimately show ?thesis using r by (simp add: tree_of_taken del: tree_of.simps)
  qed
  then have "\<forall>k\<in>set ks. ?reps (slot k) = Some (taken (map V (filter (\<lambda>j. slot j = slot k) (ks @ []))) (length (filter (\<lambda>j. slot j = slot k) ks)))"
    by blast
  from gather_all [OF this, of "[]"] have "gather (rev (map slot ks)) ?reps [] = Some (Inr (map (\<lambda>k. Some (tree_of (V k))) ks))"
    by simp
  then show ?thesis using chk mem c ks by (simp add: command_post_fragment_def)
qed

lemma merge_del:
  assumes mem: "\<forall>n. mem n" and c: "c_type c = CMD_REQ_REDIS_DEL"
    and subs: "map snd subs = map (\<lambda>i. Some (tree_of (R_int i))) is" "\<forall>i\<in>set is. 0 \<le> i" "sum_list is < 2 ^ 63"
  shows "command_post_fragment mem c sq subs = Some (None, Some (tree_of (R_int (sum_list is))))"
  using check_integers [OF subs(2), of 0] subs(1,3) mem c by (simp add: command_post_fragment_def)

lemma merge_mset:
  assumes mem: "\<forall>n. mem n" and c: "c_type c = CMD_REQ_REDIS_MSET"
    and subs: "\<forall>(s, r)\<in>set subs. r = Some (tree_of (R_status ''OK''))"
  shows "command_post_fragment mem c sq subs = Some (None, Some (tree_of (R_status ''OK'')))"
proof -
  have "map snd subs = replicate (length subs) (Some (tree_of (R_status ''OK'')))"
    using subs by (induction subs) auto
  then show ?thesis using check_ok [of "length subs" 0] mem c by (simp add: command_post_fragment_def)
qed

end
