(* ===== verification/Connection.thy ===== *)
theory Connection
  imports Format Reader
begin

text \<open>
  The blocking and non-blocking use of a connection (\<open>hiredis.c\<close>): the output buffer, the
  reply reader, and the loops of \<open>redisGetReply\<close>.

  The socket is outside the code: what its \<open>write\<close> and \<open>read\<close> calls return is given as two
  lists, one entry per call. A \<open>write\<close> returns the number of bytes it took or fails with an
  \<open>errno\<close>; a \<open>read\<close> returns bytes (none at the end of the stream) or fails. When a list is
  used up the next call blocks.
\<close>

section \<open>Calls of the system\<close>

definition EINTR :: nat where "EINTR = 4"
definition EAGAIN :: nat where "EAGAIN = 11"
definition EWOULDBLOCK :: nat where "EWOULDBLOCK = 11"

record net =
  nt_writes :: "(nat + nat) list"
  nt_reads :: "(nat + bytes) list"
  nt_sent :: bytes

datatype 'a run = Undefined | Blocked | Done 'a

section \<open>The context\<close>

definition REDIS_ERR_IO :: int where "REDIS_ERR_IO = 1"
definition REDIS_ERR_OTHER :: int where "REDIS_ERR_OTHER = 2"
definition REDIS_ERR_EOF :: int where "REDIS_ERR_EOF = 3"
definition REDIS_ERR_TIMEOUT :: int where "REDIS_ERR_TIMEOUT = 7"

record redis_context =
  x_err :: int
  x_errstr :: bytes
  x_block :: bool
  x_obuf :: "sds option"
  x_reader :: reader

definition redisSetError :: "redis_context \<Rightarrow> int \<Rightarrow> bytes \<Rightarrow> redis_context" where
  "redisSetError c ty str = c\<lparr>x_err := ty, x_errstr := take 127 (cstr str)\<rparr>"

text \<open>\<open>sizeof(redisContext)\<close> is 208.\<close>

definition redisContextInit :: "heap \<Rightarrow> bool \<Rightarrow> redis_context option" where
  "redisContextInit mem block =
     (if mem 208 = None then None
      else case (sdsempty mem, redisReaderCreate mem) of
             (Some b, Some r) \<Rightarrow> Some \<lparr>x_err = 0, x_errstr = [], x_block = block, x_obuf = Some b, x_reader = r\<rparr>
           | _ \<Rightarrow> None)"

text \<open>How a failed call of \<open>read\<close> or \<open>write\<close> is answered: try again later, or an error.\<close>

definition io_failure :: "(nat \<Rightarrow> bytes) \<Rightarrow> redis_context \<Rightarrow> nat \<Rightarrow> redis_context option" where
  "io_failure strerror c errno =
     (if (errno = EAGAIN \<and> \<not> x_block c) \<or> errno = EINTR then None
      else if errno = EWOULDBLOCK \<and> x_block c then Some (redisSetError c REDIS_ERR_TIMEOUT ''Socket timeout'')
      else Some (redisSetError c REDIS_ERR_IO (strerror errno)))"

definition redisBufferRead :: "heap \<Rightarrow> (nat \<Rightarrow> bytes) \<Rightarrow> redis_context \<Rightarrow> net \<Rightarrow> (redis_context \<times> net \<times> bool) run" where
  "redisBufferRead mem strerror c net =
     (if x_err c \<noteq> 0 then Done (c, net, False)
      else case nt_reads net of
             [] \<Rightarrow> Blocked
           | ev # evs \<Rightarrow>
               let net' = net\<lparr>nt_reads := evs\<rparr>
               in (case ev of
                     Inl errno \<Rightarrow>
                       (case io_failure strerror c errno of
                          None \<Rightarrow> Done (c, net', True)
                        | Some c' \<Rightarrow> Done (c', net', False))
                   | Inr buf \<Rightarrow>
                       if 1024 * 16 < length buf then Undefined
                       else if buf = [] then
                         Done (redisSetError c REDIS_ERR_EOF ''Server closed the connection'', net', False)
                       else
                         (case redisReaderFeed mem (x_reader c) buf of
                            None \<Rightarrow> Undefined
                          | Some (r, ok) \<Rightarrow>
                              let c' = c\<lparr>x_reader := r\<rparr>
                              in if ok then Done (c', net', True)
                                 else Done (redisSetError c' (rd_err r) (rd_errstr r), net', False))))"

text \<open>The third component is what \<open>*done\<close> is set to, the last the returned status. An empty
  buffer whose allocation failed is dereferenced.\<close>

definition write_finish :: "redis_context \<Rightarrow> net \<Rightarrow> (redis_context \<times> net \<times> bool \<times> bool) run" where
  "write_finish c net =
     (case x_obuf c of
        None \<Rightarrow> Undefined
      | Some b \<Rightarrow> Done (c, net, sdslen b = 0, True))"

definition redisBufferWrite :: "heap \<Rightarrow> (nat \<Rightarrow> bytes) \<Rightarrow> redis_context \<Rightarrow> net \<Rightarrow> (redis_context \<times> net \<times> bool \<times> bool) run" where
  "redisBufferWrite mem strerror c net =
     (if x_err c \<noteq> 0 then Done (c, net, False, False)
      else case x_obuf c of
             None \<Rightarrow> Undefined
           | Some b \<Rightarrow>
               if sdslen b > 0 then
                 (case nt_writes net of
                    [] \<Rightarrow> Blocked
                  | ev # evs \<Rightarrow>
                      let net' = net\<lparr>nt_writes := evs\<rparr>
                      in (case ev of
                            Inl errno \<Rightarrow>
                              (case io_failure strerror c errno of
                                 None \<Rightarrow> write_finish c net'
                               | Some c' \<Rightarrow> Done (c', net', False, False))
                          | Inr n \<Rightarrow>
                              if sdslen b < n then Undefined
                              else if n > 0 then
                                let net'' = net'\<lparr>nt_sent := nt_sent net @ take n (s_buf b)\<rparr>
                                in if to_int n = to_int (sdslen b)
                                   then write_finish (c\<lparr>x_obuf := sdsempty mem\<rparr>) net''
                                   else write_finish (c\<lparr>x_obuf := Some (sdsrange b (to_int n) (-1))\<rparr>) net''
                              else write_finish c net'))
               else write_finish c net)"

definition redisGetReplyFromReader :: "heap \<Rightarrow> redis_context \<Rightarrow> (redis_context \<times> bool \<times> address option) run" where
  "redisGetReplyFromReader mem c =
     (case redisReaderGetReply mem (x_reader c) of
        None \<Rightarrow> Undefined
      | Some (r, ok, reply) \<Rightarrow>
          let c' = c\<lparr>x_reader := r\<rparr>
          in if ok then Done (c', True, reply)
             else Done (redisSetError c' (rd_err r) (rd_errstr r), False, None))"

section \<open>\<open>redisGetReply\<close>\<close>

text \<open>Every turn of the two loops makes one call, so they end when the results are used up.\<close>

lemma redisBufferWrite_uses:
  "redisBufferWrite mem strerror c net = Done (c', net', False, True) \<Longrightarrow>
   length (nt_writes net') < length (nt_writes net)"
  by (auto simp: redisBufferWrite_def write_finish_def Let_def split: if_splits option.splits list.splits sum.splits)

lemma redisBufferRead_uses:
  "redisBufferRead mem strerror c net = Done (c', net', True) \<Longrightarrow>
   length (nt_reads net') < length (nt_reads net)"
  by (auto simp: redisBufferRead_def Let_def split: if_splits option.splits list.splits sum.splits)

function write_until_done :: "heap \<Rightarrow> (nat \<Rightarrow> bytes) \<Rightarrow> redis_context \<Rightarrow> net \<Rightarrow> (redis_context \<times> net \<times> bool) run" where
  "write_until_done mem strerror c net =
     (case redisBufferWrite mem strerror c net of
        Undefined \<Rightarrow> Undefined
      | Blocked \<Rightarrow> Blocked
      | Done (c', net', wdone, ok) \<Rightarrow>
          if \<not> ok then Done (c', net', False)
          else if wdone then Done (c', net', True)
          else write_until_done mem strerror c' net')"
  by pat_completeness auto
termination
  by (relation "measure (\<lambda>(mem, strerror, c, net). length (nt_writes net))") (auto dest: redisBufferWrite_uses)

declare write_until_done.simps [simp del]

function read_until_reply :: "heap \<Rightarrow> (nat \<Rightarrow> bytes) \<Rightarrow> redis_context \<Rightarrow> net \<Rightarrow> (redis_context \<times> net \<times> bool \<times> address option) run" where
  "read_until_reply mem strerror c net =
     (case redisBufferRead mem strerror c net of
        Undefined \<Rightarrow> Undefined
      | Blocked \<Rightarrow> Blocked
      | Done (c1, net1, ok) \<Rightarrow>
          if \<not> ok then Done (c1, net1, False, None)
          else (case redisGetReplyFromReader mem c1 of
                  Undefined \<Rightarrow> Undefined
                | Blocked \<Rightarrow> Blocked
                | Done (c2, ok2, aux) \<Rightarrow>
                    if \<not> ok2 then Done (c2, net1, False, None)
                    else if aux = None then read_until_reply mem strerror c2 net1
                    else Done (c2, net1, True, aux)))"
  by pat_completeness auto
termination
  by (relation "measure (\<lambda>(mem, strerror, c, net). length (nt_reads net))") (auto dest: redisBufferRead_uses)

declare read_until_reply.simps [simp del]

definition redisGetReply :: "heap \<Rightarrow> (nat \<Rightarrow> bytes) \<Rightarrow> redis_context \<Rightarrow> net \<Rightarrow> (redis_context \<times> net \<times> bool \<times> address option) run" where
  "redisGetReply mem strerror c net =
     (case redisGetReplyFromReader mem c of
        Undefined \<Rightarrow> Undefined
      | Blocked \<Rightarrow> Blocked
      | Done (c1, ok, aux) \<Rightarrow>
          if \<not> ok then Done (c1, net, False, None)
          else if aux = None \<and> x_block c1 then
            (case write_until_done mem strerror c1 net of
               Undefined \<Rightarrow> Undefined
             | Blocked \<Rightarrow> Blocked
             | Done (c2, net2, ok2) \<Rightarrow>
                 if \<not> ok2 then Done (c2, net2, False, None) else read_until_reply mem strerror c2 net2)
          else Done (c1, net, True, aux))"

section \<open>Appending commands\<close>

definition append_command :: "heap \<Rightarrow> redis_context \<Rightarrow> bytes \<Rightarrow> (redis_context \<times> bool) run" where
  "append_command mem c cmd =
     (case x_obuf c of
        None \<Rightarrow> Undefined
      | Some b \<Rightarrow>
          (case sdscatlen mem b cmd of
             None \<Rightarrow> Done (redisSetError c REDIS_ERR_OOM ''Out of memory'', False)
           | Some newbuf \<Rightarrow> Done (c\<lparr>x_obuf := Some newbuf\<rparr>, True)))"

definition redisAppendFormattedCommand :: "heap \<Rightarrow> redis_context \<Rightarrow> bytes \<Rightarrow> (redis_context \<times> bool) run" where
  "redisAppendFormattedCommand mem c cmd = append_command mem c cmd"

definition redisvAppendCommand ::
    "heap \<Rightarrow> (bytes \<Rightarrow> vararg \<Rightarrow> bytes) \<Rightarrow> redis_context \<Rightarrow> bytes \<Rightarrow> vararg list \<Rightarrow> (redis_context \<times> bool) run" where
  "redisvAppendCommand mem pf c format ap =
     (case redisvFormatCommand mem pf True format ap of
        None \<Rightarrow> Undefined
      | Some (len, cmd) \<Rightarrow>
          if len = -1 then Done (redisSetError c REDIS_ERR_OOM ''Out of memory'', False)
          else if len = -2 then Done (redisSetError c REDIS_ERR_OTHER ''Invalid format string'', False)
          else (case cmd of
                  None \<Rightarrow> Undefined
                | Some t \<Rightarrow> append_command mem c (take (to_size len) t)))"

definition redisAppendCommandArgv :: "heap \<Rightarrow> redis_context \<Rightarrow> bytes list \<Rightarrow> nat list option \<Rightarrow> (redis_context \<times> bool) run" where
  "redisAppendCommandArgv mem c argv argvlen =
     (case redisFormatSdsCommandArgv mem True argv argvlen of
        None \<Rightarrow> Undefined
      | Some (len, cmd) \<Rightarrow>
          if len = -1 then Done (redisSetError c REDIS_ERR_OOM ''Out of memory'', False)
          else (case cmd of
                  None \<Rightarrow> Undefined
                | Some t \<Rightarrow> append_command mem c (take (to_size len) (s_buf t))))"

definition redisBlockForReply :: "heap \<Rightarrow> (nat \<Rightarrow> bytes) \<Rightarrow> redis_context \<Rightarrow> net \<Rightarrow> (redis_context \<times> net \<times> address option) run" where
  "redisBlockForReply mem strerror c net =
     (if x_block c then
        (case redisGetReply mem strerror c net of
           Undefined \<Rightarrow> Undefined
         | Blocked \<Rightarrow> Blocked
         | Done (c', net', ok, reply) \<Rightarrow> Done (c', net', if ok then reply else None))
      else Done (c, net, None))"

definition redisCommand ::
    "heap \<Rightarrow> (nat \<Rightarrow> bytes) \<Rightarrow> (bytes \<Rightarrow> vararg \<Rightarrow> bytes) \<Rightarrow> redis_context \<Rightarrow> net \<Rightarrow> bytes \<Rightarrow> vararg list
     \<Rightarrow> (redis_context \<times> net \<times> address option) run" where
  "redisCommand mem strerror pf c net format ap =
     (case redisvAppendCommand mem pf c format ap of
        Undefined \<Rightarrow> Undefined
      | Blocked \<Rightarrow> Blocked
      | Done (c1, ok) \<Rightarrow> if ok then redisBlockForReply mem strerror c1 net else Done (c1, net, None))"

definition redisCommandArgv ::
    "heap \<Rightarrow> (nat \<Rightarrow> bytes) \<Rightarrow> redis_context \<Rightarrow> net \<Rightarrow> bytes list \<Rightarrow> nat list option \<Rightarrow> (redis_context \<times> net \<times> address option) run" where
  "redisCommandArgv mem strerror c net argv argvlen =
     (case redisAppendCommandArgv mem c argv argvlen of
        Undefined \<Rightarrow> Undefined
      | Blocked \<Rightarrow> Blocked
      | Done (c1, ok) \<Rightarrow> if ok then redisBlockForReply mem strerror c1 net else Done (c1, net, None))"

end
