(* ===== verification/Dict.thy ===== *)
theory Dict
  imports Prelude "HOL-Library.Word" "HOL-Library.Multiset"
begin

text \<open>
  The hash table (\<open>dict.c\<close>) that holds the nodes of a cluster by their addresses.

  \<open>table\<close> is the array of chains, a chain the list of its entries. The functions of the
  \<open>dictType\<close> are a record; the destructors only release memory and are left out. Memory is
  assumed to be there: the code does not look at what \<open>malloc\<close> and \<open>calloc\<close> return.
\<close>

unbundle bit_operations_syntax

section \<open>Model\<close>

definition DICT_OK :: int where "DICT_OK = 0"
definition DICT_ERR :: int where "DICT_ERR = 1"
definition DICT_HT_INITIAL_SIZE :: nat where "DICT_HT_INITIAL_SIZE = 4"
definition LONG_MAX :: nat where "LONG_MAX = 2 ^ 63 - 1"

record 'k dict_type =
  hashFunction :: "'k \<Rightarrow> 32 word"
  keyCompare :: "'k \<Rightarrow> 'k \<Rightarrow> bool"

record ('k, 'v) dict =
  dt_type :: "'k dict_type"
  dt_table :: "('k \<times> 'v) list list"
  dt_size :: nat
  dt_sizemask :: nat
  dt_used :: nat

definition dictGenHashFunction :: "bytes \<Rightarrow> 32 word" where
  "dictGenHashFunction buf = fold (\<lambda>c hash. (push_bit 5 hash + hash) + of_char c) buf 5381"

definition dictCreate :: "'k dict_type \<Rightarrow> ('k, 'v) dict" where
  "dictCreate ty = \<lparr>dt_type = ty, dt_table = [], dt_size = 0, dt_sizemask = 0, dt_used = 0\<rparr>"

text \<open>The index of a key in a table with this mask.\<close>

definition bucket :: "'k dict_type \<Rightarrow> nat \<Rightarrow> 'k \<Rightarrow> nat" where
  "bucket ty sizemask key = unat (hashFunction ty key) AND sizemask"

function next_power :: "nat \<Rightarrow> nat \<Rightarrow> nat" where
  "next_power i sz = (if sz \<le> i \<or> i = 0 then i else next_power (i * 2) sz)"
  by pat_completeness auto
termination by (relation "measure (\<lambda>(i, sz). sz - i)") auto

declare next_power.simps [simp del]

definition dictNextPower :: "nat \<Rightarrow> nat" where
  "dictNextPower sz = (if LONG_MAX \<le> sz then LONG_MAX else next_power DICT_HT_INITIAL_SIZE sz)"

text \<open>Moving the entries of the old table, the number of those left as the loop counts it.\<close>

fun move_chain :: "'k dict_type \<Rightarrow> nat \<Rightarrow> ('k \<times> 'v) list \<Rightarrow> ('k \<times> 'v) list list \<Rightarrow> ('k \<times> 'v) list list" where
  "move_chain ty sizemask [] t = t"
| "move_chain ty sizemask (he # hes) t =
     (let h = bucket ty sizemask (fst he) in move_chain ty sizemask hes (t[h := he # t ! h]))"

fun move_table :: "'k dict_type \<Rightarrow> nat \<Rightarrow> nat \<Rightarrow> ('k \<times> 'v) list list \<Rightarrow> ('k \<times> 'v) list list \<Rightarrow> nat \<times> ('k \<times> 'v) list list" where
  "move_table ty sizemask used [] t = (used, t)"
| "move_table ty sizemask used (c # cs) t =
     (if used = 0 then (used, t) else move_table ty sizemask (used - length c) cs (move_chain ty sizemask c t))"

text \<open>\<open>None\<close>: the assertion fails that every entry has been moved.\<close>

definition dictExpand :: "('k, 'v) dict \<Rightarrow> nat \<Rightarrow> (int \<times> ('k, 'v) dict) option" where
  "dictExpand ht sz =
     (if sz < dt_used ht then Some (DICT_ERR, ht)
      else let realsize = dictNextPower sz in
        case move_table (dt_type ht) (realsize - 1) (dt_used ht) (dt_table ht) (replicate realsize []) of
          (left, t) \<Rightarrow>
            if left \<noteq> 0 then None
            else Some (DICT_OK, ht\<lparr>dt_table := t, dt_size := realsize, dt_sizemask := realsize - 1\<rparr>))"

definition dictExpandIfNeeded :: "('k, 'v) dict \<Rightarrow> (int \<times> ('k, 'v) dict) option" where
  "dictExpandIfNeeded ht =
     (if dt_size ht = 0 then dictExpand ht DICT_HT_INITIAL_SIZE
      else if dt_used ht = dt_size ht then dictExpand ht (dt_size ht * 2)
      else Some (DICT_OK, ht))"

fun chain_find :: "'k dict_type \<Rightarrow> 'k \<Rightarrow> ('k \<times> 'v) list \<Rightarrow> ('k \<times> 'v) option" where
  "chain_find ty key [] = None"
| "chain_find ty key (he # hes) = (if keyCompare ty key (fst he) then Some he else chain_find ty key hes)"

text \<open>The index for a new key; \<open>None\<close> is the value -1.\<close>

definition dictKeyIndex :: "('k, 'v) dict \<Rightarrow> 'k \<Rightarrow> (nat option \<times> ('k, 'v) dict) option" where
  "dictKeyIndex ht key =
     (case dictExpandIfNeeded ht of
        None \<Rightarrow> None
      | Some (rc, ht) \<Rightarrow>
          if rc = DICT_ERR then Some (None, ht)
          else let h = bucket (dt_type ht) (dt_sizemask ht) key in
            Some (if chain_find (dt_type ht) key (dt_table ht ! h) \<noteq> None then None else Some h, ht))"

definition dictAdd :: "('k, 'v) dict \<Rightarrow> 'k \<Rightarrow> 'v \<Rightarrow> (int \<times> ('k, 'v) dict) option" where
  "dictAdd ht key val =
     (case dictKeyIndex ht key of
        None \<Rightarrow> None
      | Some (None, ht) \<Rightarrow> Some (DICT_ERR, ht)
      | Some (Some i, ht) \<Rightarrow>
          Some (DICT_OK, ht\<lparr>dt_table := (dt_table ht)[i := (key, val) # dt_table ht ! i], dt_used := dt_used ht + 1\<rparr>))"

definition dictFind :: "('k, 'v) dict \<Rightarrow> 'k \<Rightarrow> ('k \<times> 'v) option" where
  "dictFind ht key =
     (if dt_size ht = 0 then None
      else chain_find (dt_type ht) key (dt_table ht ! bucket (dt_type ht) (dt_sizemask ht) key))"

text \<open>Storing a value in the entry \<open>dictFind\<close> has found.\<close>

fun chain_set :: "'k dict_type \<Rightarrow> 'k \<Rightarrow> 'v \<Rightarrow> ('k \<times> 'v) list \<Rightarrow> ('k \<times> 'v) list" where
  "chain_set ty key val [] = []"
| "chain_set ty key val (he # hes) = (if keyCompare ty key (fst he) then (fst he, val) # hes else he # chain_set ty key val hes)"

definition dictSetHashVal :: "('k, 'v) dict \<Rightarrow> 'k \<Rightarrow> 'v \<Rightarrow> ('k, 'v) dict" where
  "dictSetHashVal ht key val =
     (let h = bucket (dt_type ht) (dt_sizemask ht) key
      in ht\<lparr>dt_table := (dt_table ht)[h := chain_set (dt_type ht) key val (dt_table ht ! h)]\<rparr>)"

definition dictReplace :: "('k, 'v) dict \<Rightarrow> 'k \<Rightarrow> 'v \<Rightarrow> (int \<times> ('k, 'v) dict) option" where
  "dictReplace ht key val =
     (case dictAdd ht key val of
        None \<Rightarrow> None
      | Some (rc, ht) \<Rightarrow>
          if rc = DICT_OK then Some (1, ht)
          else case dictFind ht key of
            None \<Rightarrow> None
          | Some _ \<Rightarrow> Some (0, dictSetHashVal ht key val))"

fun chain_delete :: "'k dict_type \<Rightarrow> 'k \<Rightarrow> ('k \<times> 'v) list \<Rightarrow> ('k \<times> 'v) list option" where
  "chain_delete ty key [] = None"
| "chain_delete ty key (he # hes) =
     (if keyCompare ty key (fst he) then Some hes else map_option (Cons he) (chain_delete ty key hes))"

definition dictDelete :: "('k, 'v) dict \<Rightarrow> 'k \<Rightarrow> int \<times> ('k, 'v) dict" where
  "dictDelete ht key =
     (if dt_size ht = 0 then (DICT_ERR, ht)
      else let h = bucket (dt_type ht) (dt_sizemask ht) key in
        case chain_delete (dt_type ht) key (dt_table ht ! h) of
          None \<Rightarrow> (DICT_ERR, ht)
        | Some c \<Rightarrow> (DICT_OK, ht\<lparr>dt_table := (dt_table ht)[h := c], dt_used := dt_used ht - 1\<rparr>))"

definition dictClear :: "('k, 'v) dict \<Rightarrow> ('k, 'v) dict" where
  "dictClear ht = ht\<lparr>dt_table := [], dt_size := 0, dt_sizemask := 0, dt_used := 0\<rparr>"

text \<open>An iterator: the chain from the current entry on (empty: no entry), and what follows it.\<close>

record ('k, 'v) dict_iterator =
  di_index :: int
  di_entry :: "('k \<times> 'v) list"
  di_nextEntry :: "('k \<times> 'v) list"

definition dictGetIterator :: "('k, 'v) dict_iterator" where
  "dictGetIterator = \<lparr>di_index = -1, di_entry = [], di_nextEntry = []\<rparr>"

function dictNext :: "('k, 'v) dict \<Rightarrow> ('k, 'v) dict_iterator \<Rightarrow> ('k \<times> 'v) option \<times> ('k, 'v) dict_iterator" where
  "dictNext ht iter =
     (let i = (if di_entry iter = [] then di_index iter + 1 else di_index iter) in
      if di_entry iter = [] \<and> int (dt_size ht) \<le> i then (None, iter\<lparr>di_index := i\<rparr>)
      else let e = (if di_entry iter = [] then dt_table ht ! nat i else di_nextEntry iter) in
        case e of
          [] \<Rightarrow> dictNext ht (iter\<lparr>di_index := i, di_entry := []\<rparr>)
        | he # hes \<Rightarrow> (Some he, iter\<lparr>di_index := i, di_entry := e, di_nextEntry := hes\<rparr>))"
  by pat_completeness auto
termination
  by (relation "measures [\<lambda>(ht, iter). nat (int (dt_size ht) - di_index iter), \<lambda>(ht, iter). length (di_entry iter)]") auto

declare dictNext.simps [simp del]

section \<open>The invariant and the map a table stands for\<close>

definition good_type :: "'k dict_type \<Rightarrow> bool" where
  "good_type ty \<longleftrightarrow> (\<forall>a b. keyCompare ty a b \<longleftrightarrow> a = b)"

definition placed :: "'k dict_type \<Rightarrow> nat \<Rightarrow> ('k \<times> 'v) list list \<Rightarrow> bool" where
  "placed ty m t \<longleftrightarrow> (\<forall>i<length t. \<forall>e\<in>set (t ! i). bucket ty m (fst e) = i)"

definition dict_inv :: "('k, 'v) dict \<Rightarrow> bool" where
  "dict_inv ht \<longleftrightarrow> good_type (dt_type ht) \<and> length (dt_table ht) = dt_size ht
     \<and> (dt_size ht = 0 \<or> (\<exists>j. 2 \<le> j \<and> j \<le> 30 \<and> dt_size ht = 2 ^ j)) \<and> dt_sizemask ht = dt_size ht - 1
     \<and> placed (dt_type ht) (dt_sizemask ht) (dt_table ht)
     \<and> distinct (map fst (concat (dt_table ht))) \<and> dt_used ht = length (concat (dt_table ht))"

definition dict_map :: "('k, 'v) dict \<Rightarrow> 'k \<rightharpoonup> 'v" where
  "dict_map ht = map_of (concat (dt_table ht))"

lemma bucket_less: "bucket ty (2 ^ j - 1) k < 2 ^ j"
proof -
  have "bucket ty (2 ^ j - 1) k = take_bit j (unat (hashFunction ty k))"
    by (simp add: bucket_def take_bit_eq_mask mask_eq_exp_minus_1)
  then show ?thesis by (simp add: take_bit_nat_less_exp)
qed

lemma chain_find_map: "good_type ty \<Longrightarrow> chain_find ty k c = map_option (Pair k) (map_of c k)"
  by (induction c) (auto simp: good_type_def)

lemma map_of_buckets:
  "\<forall>i<length t. \<forall>e\<in>set (t ! i). b (fst e) = i + n \<Longrightarrow>
   map_of (concat t) k = (if n \<le> b k \<and> b k < n + length t then map_of (t ! (b k - n)) k else None)"
proof (induction t arbitrary: n)
  case (Cons c t)
  have c: "\<forall>e\<in>set c. b (fst e) = n" using Cons(2) by force
  have "\<forall>i<length t. \<forall>e\<in>set (t ! i). b (fst e) = i + Suc n" using Cons(2) by (metis Suc_mono add_Suc_shift length_Cons nth_Cons_Suc)
  note IH = Cons(1) [OF this]
  have none: "map_of c k = None" if "b k \<noteq> n" using c that by (metis fst_conv map_of_eq_None_iff imageE)
  show ?case
  proof (cases "b k = n")
    case True
    then show ?thesis using IH by (simp add: map_add_def split: option.split)
  next
    case False
    then have "map_of (concat (c # t)) k = map_of (concat t) k" using none by (simp add: map_add_def split: option.split)
    then show ?thesis using IH False by (auto simp: nth_Cons')
  qed
qed auto

lemma dict_map_bucket:
  assumes "dict_inv ht" "dt_size ht \<noteq> 0"
  shows "dict_map ht k = map_of (dt_table ht ! bucket (dt_type ht) (dt_sizemask ht) k) k"
    "bucket (dt_type ht) (dt_sizemask ht) k < length (dt_table ht)"
proof -
  show b: "bucket (dt_type ht) (dt_sizemask ht) k < length (dt_table ht)"
    using assms bucket_less by (auto simp: dict_inv_def)
  have p: "placed (dt_type ht) (dt_sizemask ht) (dt_table ht)" using assms(1) unfolding dict_inv_def by blast
  have "\<forall>i<length (dt_table ht). \<forall>e\<in>set (dt_table ht ! i). bucket (dt_type ht) (dt_sizemask ht) (fst e) = i + 0"
    using p unfolding placed_def by simp
  from map_of_buckets [OF this] show "dict_map ht k = map_of (dt_table ht ! bucket (dt_type ht) (dt_sizemask ht) k) k"
    using b by (simp add: dict_map_def)
qed

lemma dictFind_map: "dict_inv ht \<Longrightarrow> dictFind ht k = map_option (Pair k) (dict_map ht k)"
proof (cases "dt_size ht = 0")
  case True
  moreover assume "dict_inv ht"
  ultimately show ?thesis by (simp add: dictFind_def dict_map_def dict_inv_def)
next
  case False
  assume i: "dict_inv ht"
  then have "good_type (dt_type ht)" by (simp add: dict_inv_def)
  then show ?thesis using False dict_map_bucket(1) [OF i False] by (simp add: dictFind_def chain_find_map)
qed

lemma dictCreate_inv: "good_type ty \<Longrightarrow> dict_inv (dictCreate ty) \<and> dict_map (dictCreate ty) = Map.empty"
  by (simp add: dict_inv_def dictCreate_def placed_def dict_map_def)

section \<open>Growing\<close>

lemma next_power_exp: "i \<le> j \<Longrightarrow> next_power (2 ^ i) (2 ^ j) = 2 ^ j"
proof (induction "j - i" arbitrary: i)
  case 0
  then show ?case by (simp add: next_power.simps)
next
  case (Suc n)
  then have "i < j" by simp
  then have "next_power (2 ^ i) (2 ^ j) = next_power (2 ^ Suc i) (2 ^ j)" by (subst next_power.simps) (simp add: mult.commute)
  then show ?case using Suc(1) [of "Suc i"] Suc(2) \<open>i < j\<close> by simp
qed

lemma dictNextPower_exp: "2 \<le> j \<Longrightarrow> j \<le> 30 \<Longrightarrow> dictNextPower (2 ^ j) = 2 ^ j"
proof -
  assume j: "2 \<le> j" "j \<le> 30"
  then have "(2::nat) ^ j \<le> 2 ^ 30" by (intro power_increasing) simp_all
  then have "\<not> LONG_MAX \<le> 2 ^ j" by (simp add: LONG_MAX_def)
  then show ?thesis using next_power_exp [OF j(1)] by (simp add: dictNextPower_def DICT_HT_INITIAL_SIZE_def)
qed

lemma mset_concat_upd:
  "i < length t \<Longrightarrow> mset (concat (t[i := e # t ! i])) = add_mset e (mset (concat t))"
  by (induction t arbitrary: i) (auto split: nat.split)

lemma move_chain_moves:
  "\<forall>k. bucket ty m k < length t \<Longrightarrow> placed ty m t \<Longrightarrow>
   length (move_chain ty m c t) = length t \<and> placed ty m (move_chain ty m c t)
   \<and> mset (concat (move_chain ty m c t)) = mset c + mset (concat t)"
proof (induction c arbitrary: t)
  case (Cons he hes)
  let ?t = "t[bucket ty m (fst he) := he # t ! bucket ty m (fst he)]"
  have "bucket ty m (fst he) < length t" using Cons(2) by blast
  then have "placed ty m ?t" using Cons(3) by (auto simp: placed_def nth_list_update split: if_splits)
  then have "length (move_chain ty m hes ?t) = length ?t \<and> placed ty m (move_chain ty m hes ?t)
      \<and> mset (concat (move_chain ty m hes ?t)) = mset hes + mset (concat ?t)" using Cons(2) by (intro Cons(1)) simp_all
  then show ?case using Cons(2) mset_concat_upd [of "bucket ty m (fst he)" t he] by (simp add: Let_def)
qed simp

lemma move_table_moves:
  "\<forall>k. bucket ty m k < length t \<Longrightarrow> placed ty m t \<Longrightarrow> used = length (concat cs) \<Longrightarrow>
   \<exists>t'. move_table ty m used cs t = (0, t') \<and> length t' = length t \<and> placed ty m t'
     \<and> mset (concat t') = mset (concat cs) + mset (concat t)"
proof (induction cs arbitrary: t used)
  case (Cons c cs)
  note c = move_chain_moves [OF Cons(2,3), of c]
  show ?case
  proof (cases "used = 0")
    case True
    then have "concat (c # cs) = []" using Cons(4) by simp
    then have "mset (concat (c # cs)) = {#}" by (simp only: mset.simps)
    then show ?thesis using True Cons(3) by (intro exI [of _ t]) simp
  next
    case False
    have "\<exists>t'. move_table ty m (used - length c) cs (move_chain ty m c t) = (0, t') \<and> length t' = length (move_chain ty m c t)
        \<and> placed ty m t' \<and> mset (concat t') = mset (concat cs) + mset (concat (move_chain ty m c t))"
      using c Cons(2,4) by (intro Cons(1)) simp_all
    then show ?thesis using False c by (auto simp: ac_simps)
  qed
qed simp

lemma dictExpand_ok:
  assumes i: "dict_inv ht" and j: "2 \<le> j" "j \<le> 30" "dt_used ht \<le> 2 ^ j"
  obtains ht' where "dictExpand ht (2 ^ j) = Some (DICT_OK, ht')" "dict_inv ht'" "dict_map ht' = dict_map ht"
    "dt_size ht' = 2 ^ j" "dt_used ht' = dt_used ht" "dt_type ht' = dt_type ht"
proof -
  let ?ty = "dt_type ht" and ?m = "2 ^ j - 1 :: nat"
  have "\<forall>k. bucket ?ty ?m k < length (replicate (2 ^ j) [])" unfolding length_replicate by (intro allI bucket_less)
  moreover have "placed ?ty ?m (replicate (2 ^ j) [])" by (simp add: placed_def)
  moreover have "dt_used ht = length (concat (dt_table ht))" using i by (simp add: dict_inv_def)
  ultimately obtain t where t: "move_table ?ty ?m (dt_used ht) (dt_table ht) (replicate (2 ^ j) []) = (0, t)" "length t = 2 ^ j"
      "placed ?ty ?m t" "mset (concat t) = mset (concat (dt_table ht))"
    using move_table_moves [of ?ty ?m "replicate (2 ^ j) []" "dt_used ht" "dt_table ht"] by auto
  have d: "distinct (map fst (concat (dt_table ht)))" using i by (simp add: dict_inv_def)
  have "mset (map fst (concat t)) = mset (map fst (concat (dt_table ht)))" using t(4) by (metis mset_map)
  then have d': "distinct (map fst (concat t))" using d by (metis mset_eq_imp_distinct_iff)
  have m: "map_of (concat t) = map_of (concat (dt_table ht))"
    using mset_eq_setD [OF t(4)] by (simp only: map_of_inject_set [OF d' d])
  let ?ht = "ht\<lparr>dt_table := t, dt_size := 2 ^ j, dt_sizemask := ?m\<rparr>"
  show thesis
  proof (rule that [of ?ht])
    show "dictExpand ht (2 ^ j) = Some (DICT_OK, ?ht)" using j(3) t(1) by (simp add: dictExpand_def dictNextPower_exp [OF j(1,2)] Let_def)
    have "length (concat t) = dt_used ht" using mset_eq_length [OF t(4)] i by (simp add: dict_inv_def)
    then show "dict_inv ?ht" using i j t(2,3) d' by (auto simp: dict_inv_def simp del: length_concat)
    show "dict_map ?ht = dict_map ht" by (simp add: dict_map_def m)
  qed simp_all
qed

lemma dictExpandIfNeeded_ok:
  assumes i: "dict_inv ht" and u: "dt_used ht < 2 ^ 30"
  obtains ht' where "dictExpandIfNeeded ht = Some (DICT_OK, ht')" "dict_inv ht'" "dict_map ht' = dict_map ht"
    "dt_size ht' \<noteq> 0" "dt_used ht' = dt_used ht" "dt_type ht' = dt_type ht"
proof (cases "dt_size ht = 0")
  case True
  then have "dt_used ht \<le> 2 ^ 2" using i by (simp add: dict_inv_def)
  moreover have "2 \<le> (2::nat)" "(2::nat) \<le> 30" by simp_all
  ultimately obtain ht' where "dictExpand ht (2 ^ 2) = Some (DICT_OK, ht')" "dict_inv ht'" "dict_map ht' = dict_map ht"
    "dt_size ht' = 2 ^ 2" "dt_used ht' = dt_used ht" "dt_type ht' = dt_type ht" by (metis dictExpand_ok [OF i])
  then show thesis using that True by (simp add: dictExpandIfNeeded_def DICT_HT_INITIAL_SIZE_def)
next
  case False
  then obtain j where j: "2 \<le> j" "j \<le> 30" "dt_size ht = 2 ^ j" using i by (auto simp: dict_inv_def)
  show thesis
  proof (cases "dt_used ht = dt_size ht")
    case True
    then have "(2::nat) ^ j < 2 ^ 30" using u j(3) by simp
    then have "j < 30" by (rule power_less_imp_less_exp [rotated]) simp
    then have "Suc j \<le> 30" by simp
    moreover have "dt_used ht \<le> 2 ^ Suc j" using True j(3) by simp
    ultimately obtain ht' where "dictExpand ht (2 ^ Suc j) = Some (DICT_OK, ht')" "dict_inv ht'" "dict_map ht' = dict_map ht"
      "dt_size ht' = 2 ^ Suc j" "dt_used ht' = dt_used ht" "dt_type ht' = dt_type ht" using j(1) by (metis dictExpand_ok [OF i] le_SucI)
    then show thesis using that True False j(3) by (simp add: dictExpandIfNeeded_def mult.commute)
  next
    case False
    then show thesis using that [of ht] \<open>dt_size ht \<noteq> 0\<close> i by (simp add: dictExpandIfNeeded_def)
  qed
qed

section \<open>Adding and removing\<close>

lemma mset_concat_set: "i < length t \<Longrightarrow> mset (concat (t[i := c])) + mset (t ! i) = mset (concat t) + mset c"
  by (induction t arbitrary: i) (auto split: nat.split simp: ac_simps)

lemma map_of_mset:
  assumes "mset ys = add_mset (k, v) (mset xs)" "distinct (map fst xs)" "k \<notin> fst ` set xs"
  shows "distinct (map fst ys)" "map_of ys = (map_of xs)(k \<mapsto> v)"
proof -
  have m: "mset ys = mset ((k, v) # xs)" using assms(1) by simp
  have d: "distinct (map fst ((k, v) # xs))" using assms(2,3) by simp
  have "mset (map fst ys) = mset (map fst ((k, v) # xs))" using m by (metis mset_map)
  then show d': "distinct (map fst ys)" using d by (metis mset_eq_imp_distinct_iff)
  have "map_of ys = map_of ((k, v) # xs)" using mset_eq_setD [OF m] by (simp only: map_of_inject_set [OF d' d])
  then show "map_of ys = (map_of xs)(k \<mapsto> v)" by simp
qed

lemma dictAdd_ok:
  assumes i: "dict_inv ht" and u: "dt_used ht < 2 ^ 30"
  obtains ht' where "dictAdd ht k v = Some (if dict_map ht k = None then DICT_OK else DICT_ERR, ht')" "dict_inv ht'"
    "dict_map ht' = (if dict_map ht k = None then (dict_map ht)(k \<mapsto> v) else dict_map ht)" "dt_type ht' = dt_type ht"
    "dt_used ht' = (if dict_map ht k = None then dt_used ht + 1 else dt_used ht)"
proof -
  obtain h1 where h1: "dictExpandIfNeeded ht = Some (DICT_OK, h1)" "dict_inv h1" "dict_map h1 = dict_map ht" "dt_size h1 \<noteq> 0"
    "dt_used h1 = dt_used ht" "dt_type h1 = dt_type ht" by (rule dictExpandIfNeeded_ok [OF i u])
  let ?b = "bucket (dt_type h1) (dt_sizemask h1) k"
  note b = dict_map_bucket [OF h1(2,4), of k]
  have g: "good_type (dt_type h1)" using h1(2) by (simp add: dict_inv_def)
  have ix: "dictKeyIndex ht k = Some (if dict_map ht k = None then Some ?b else None, h1)"
    using h1(1) chain_find_map [OF g, of k "dt_table h1 ! ?b"] b(1) h1(3) by (simp add: dictKeyIndex_def DICT_OK_def DICT_ERR_def)
  show thesis
  proof (cases "dict_map ht k = None")
    case False
    then obtain y where "dict_map ht k = Some y" by auto
    then show thesis using that [of h1] ix h1 by (simp add: dictAdd_def)
  next
    case True
    let ?h = "h1\<lparr>dt_table := (dt_table h1)[?b := (k, v) # dt_table h1 ! ?b], dt_used := dt_used h1 + 1\<rparr>"
    have ms: "mset (concat (dt_table ?h)) = add_mset (k, v) (mset (concat (dt_table h1)))" using mset_concat_upd [OF b(2)] by simp
    have d: "distinct (map fst (concat (dt_table h1)))" using h1(2) by (simp add: dict_inv_def)
    have n: "k \<notin> fst ` set (concat (dt_table h1))" using True h1(3) unfolding dict_map_def map_of_eq_None_iff [symmetric] by simp
    note m = map_of_mset [OF ms d n]
    show thesis
    proof (rule that [of ?h])
      show "dictAdd ht k v = Some (if dict_map ht k = None then DICT_OK else DICT_ERR, ?h)" using ix True by (simp add: dictAdd_def)
      have p: "placed (dt_type h1) (dt_sizemask h1) (dt_table h1)" using h1(2) unfolding dict_inv_def by blast
      have "placed (dt_type ?h) (dt_sizemask ?h) (dt_table ?h)" using p b(2) by (auto simp: placed_def nth_list_update split: if_splits)
      moreover have "dt_used ?h = length (concat (dt_table ?h))" using mset_eq_length [of "concat (dt_table ?h)" "(k, v) # concat (dt_table h1)"] ms h1(2)
        by (simp add: dict_inv_def del: length_concat)
      ultimately show "dict_inv ?h" using h1(2) m(1) by (simp add: dict_inv_def del: length_concat)
      show "dict_map ?h = (if dict_map ht k = None then (dict_map ht)(k \<mapsto> v) else dict_map ht)"
        using m(2) True h1(3) by (simp add: dict_map_def)
    qed (use h1 True in simp_all)
  qed
qed

lemma chain_delete_cases:
  "good_type ty \<Longrightarrow> (case chain_delete ty k c of None \<Rightarrow> map_of c k = None | Some c' \<Rightarrow> \<exists>v. mset c = add_mset (k, v) (mset c'))"
proof (induction c)
  case (Cons he hes)
  then show ?case by (cases "chain_delete ty k hes"; cases he) (auto simp: good_type_def)
qed simp

lemma dictDelete_ok:
  assumes i: "dict_inv ht"
  obtains ht' where "dictDelete ht k = (if dict_map ht k = None then DICT_ERR else DICT_OK, ht')" "dict_inv ht'"
    "dict_map ht' = (dict_map ht)(k := None)"
proof (cases "dt_size ht = 0")
  case True
  then have "dict_map ht = Map.empty" using i by (simp add: dict_map_def dict_inv_def)
  then show thesis using that [of ht] i True by (simp add: dictDelete_def)
next
  case False
  let ?b = "bucket (dt_type ht) (dt_sizemask ht) k"
  note b = dict_map_bucket [OF i False, of k]
  have g: "good_type (dt_type ht)" using i by (simp add: dict_inv_def)
  show thesis
  proof (cases "chain_delete (dt_type ht) k (dt_table ht ! ?b)")
    case None
    then have "dict_map ht k = None" using chain_delete_cases [OF g, where k = k and c = "dt_table ht ! ?b"] b(1) by simp
    moreover have "(dict_map ht)(k := None) = dict_map ht" using calculation by auto
    ultimately show thesis using that [of ht] i False None by (simp add: dictDelete_def)
  next
    case (Some c)
    then obtain v where v: "mset (dt_table ht ! ?b) = add_mset (k, v) (mset c)" using chain_delete_cases [OF g, where k = k and c = "dt_table ht ! ?b"] by auto
    let ?h = "ht\<lparr>dt_table := (dt_table ht)[?b := c], dt_used := dt_used ht - 1\<rparr>"
    have ms: "mset (concat (dt_table ht)) = add_mset (k, v) (mset (concat (dt_table ?h)))"
      using mset_concat_set [OF b(2), of c] v by simp
    have d: "distinct (map fst (concat (dt_table ht)))" using i by (simp add: dict_inv_def)
    have "mset (map fst (concat (dt_table ht))) = mset (k # map fst (concat (dt_table ?h)))" unfolding mset.simps mset_map ms by simp
    then have "distinct (k # map fst (concat (dt_table ?h)))" using d by (metis mset_eq_imp_distinct_iff)
    then have d': "distinct (map fst (concat (dt_table ?h)))" "k \<notin> fst ` set (concat (dt_table ?h))" by (simp_all only: distinct.simps set_map simp_thms)
    have m: "dict_map ht = (dict_map ?h)(k \<mapsto> v)" using map_of_mset(2) [OF ms d'] by (simp only: dict_map_def)
    have "dict_map ?h k = None" unfolding dict_map_def map_of_eq_None_iff by (rule d'(2))
    show thesis
    proof (rule that [of ?h])
      show "dictDelete ht k = (if dict_map ht k = None then DICT_ERR else DICT_OK, ?h)" using False Some m by (simp add: dictDelete_def)
      have p: "placed (dt_type ht) (dt_sizemask ht) (dt_table ht)" using i unfolding dict_inv_def by blast
      have "set c \<subseteq> set (dt_table ht ! ?b)" using mset_eq_setD [of "dt_table ht ! ?b" "(k, v) # c"] v by auto
      then have "placed (dt_type ?h) (dt_sizemask ?h) (dt_table ?h)" using p b(2) by (auto simp: placed_def nth_list_update split: if_splits)
      moreover have "dt_used ?h = length (concat (dt_table ?h))" using mset_eq_length [of "concat (dt_table ht)" "(k, v) # concat (dt_table ?h)"] ms i
        by (simp add: dict_inv_def del: length_concat)
      ultimately show "dict_inv ?h" using i d'(1) by (simp add: dict_inv_def del: length_concat)
      show "dict_map ?h = (dict_map ht)(k := None)" using m \<open>dict_map ?h k = None\<close> by (simp add: fun_eq_iff)
    qed
  qed
qed

section \<open>Iterating\<close>

text \<open>What an iterator has still to visit.\<close>

definition unvisited :: "('k, 'v) dict \<Rightarrow> ('k, 'v) dict_iterator \<Rightarrow> ('k \<times> 'v) list" where
  "unvisited ht iter = (if di_entry iter = [] then [] else di_nextEntry iter) @ concat (drop (nat (di_index iter + 1)) (dt_table ht))"

lemma dictNext_visits:
  "length (dt_table ht) = dt_size ht \<Longrightarrow> -1 \<le> di_index iter \<Longrightarrow>
   (case dictNext ht iter of (None, iter') \<Rightarrow> unvisited ht iter = []
      | (Some e, iter') \<Rightarrow> unvisited ht iter = e # unvisited ht iter' \<and> -1 \<le> di_index iter')"
proof (induction ht iter rule: dictNext.induct)
  case (1 ht iter)
  define i where "i = (if di_entry iter = [] then di_index iter + 1 else di_index iter)"
  show ?case
  proof (cases "di_entry iter = [] \<and> int (dt_size ht) \<le> i")
    case True
    then have "length (dt_table ht) \<le> nat (di_index iter + 1)" using 1(2) by (auto simp: i_def)
    then have "unvisited ht iter = []" using True by (simp add: unvisited_def)
    moreover have "int (dt_size ht) \<le> di_index iter + 1" using True by (auto simp: i_def)
    ultimately show ?thesis using True by (subst dictNext.simps) (simp add: Let_def)
  next
    case False
    define e where "e = (if di_entry iter = [] then dt_table ht ! nat i else di_nextEntry iter)"
    have u: "unvisited ht iter = e @ concat (drop (nat (i + 1)) (dt_table ht))"
    proof (cases "di_entry iter = []")
      case True
      then have "nat i < length (dt_table ht)" "nat (i + 1) = Suc (nat i)" using False 1(2,3) by (auto simp: i_def)
      then show ?thesis using True by (simp add: unvisited_def e_def i_def Cons_nth_drop_Suc [symmetric])
    qed (simp add: unvisited_def e_def i_def)
    show ?thesis
    proof (cases e)
      case Nil
      then have nx: "dictNext ht iter = dictNext ht (iter\<lparr>di_index := i, di_entry := []\<rparr>)"
        using False by (subst dictNext.simps) (auto simp: Let_def i_def e_def)
      have uv: "unvisited ht (iter\<lparr>di_index := i, di_entry := []\<rparr>) = unvisited ht iter" using u Nil by (simp add: unvisited_def)
      have "-1 \<le> di_index (iter\<lparr>di_index := i, di_entry := []\<rparr>)" using 1(3) by (simp add: i_def)
      from 1(1) [OF i_def False e_def Nil 1(2) this] show ?thesis unfolding nx uv .
    next
      case (Cons he hes)
      then have "dictNext ht iter = (Some he, iter\<lparr>di_index := i, di_entry := e, di_nextEntry := hes\<rparr>)"
        using False by (subst dictNext.simps) (auto simp: Let_def i_def e_def)
      then show ?thesis using u Cons 1(3) by (auto simp: unvisited_def i_def)
    qed
  qed
qed

text \<open>The loop \<open>while ((de = dictNext(it)) != NULL)\<close> over a table that is not changed.\<close>

fun dict_walk :: "nat \<Rightarrow> ('k, 'v) dict \<Rightarrow> ('k, 'v) dict_iterator \<Rightarrow> ('k \<times> 'v) list" where
  "dict_walk 0 ht iter = []"
| "dict_walk (Suc n) ht iter = (case dictNext ht iter of (None, _) \<Rightarrow> [] | (Some e, iter') \<Rightarrow> e # dict_walk n ht iter')"

definition dict_entries :: "('k, 'v) dict \<Rightarrow> ('k \<times> 'v) list" where
  "dict_entries ht = dict_walk (dt_used ht + 1) ht dictGetIterator"

lemma dict_walk_all:
  "length (dt_table ht) = dt_size ht \<Longrightarrow> -1 \<le> di_index iter \<Longrightarrow> length (unvisited ht iter) < n \<Longrightarrow> dict_walk n ht iter = unvisited ht iter"
proof (induction n arbitrary: iter)
  case (Suc n)
  note v = dictNext_visits [OF Suc(2,3)]
  show ?case
  proof (cases "dictNext ht iter")
    case (Pair r iter')
    then show ?thesis using v Suc(1) [of iter'] Suc(2,4) by (cases r) auto
  qed
qed simp

lemma dict_entries_table: "dict_inv ht \<Longrightarrow> dict_entries ht = concat (dt_table ht)"
  using dict_walk_all [of ht dictGetIterator "dt_used ht + 1"]
  by (simp add: dict_entries_def dict_inv_def unvisited_def dictGetIterator_def del: length_concat)

lemma dict_entries_map:
  assumes "dict_inv ht"
  shows "distinct (map fst (dict_entries ht)) \<and> map_of (dict_entries ht) = dict_map ht \<and> length (dict_entries ht) = dt_used ht"
  using assms unfolding dict_entries_table [OF assms] dict_map_def dict_inv_def by simp

section \<open>The interface\<close>

text \<open>What the cluster client relies on: a table with room is a partial map.\<close>

locale table_of_nodes =
  fixes find :: "'s \<Rightarrow> 'k \<Rightarrow> ('k \<times> 'v) option" and add :: "'s \<Rightarrow> 'k \<Rightarrow> 'v \<Rightarrow> (int \<times> 's) option"
    and entries :: "'s \<Rightarrow> ('k \<times> 'v) list" and inv :: "'s \<Rightarrow> bool" and used :: "'s \<Rightarrow> nat" and room :: nat
    and abs :: "'s \<Rightarrow> 'k \<rightharpoonup> 'v"
  assumes find_abs: "inv s \<Longrightarrow> find s k = map_option (Pair k) (abs s k)"
    and add_abs: "inv s \<Longrightarrow> used s < room \<Longrightarrow> \<exists>s'. add s k v = Some (if abs s k = None then DICT_OK else DICT_ERR, s') \<and> inv s'
        \<and> abs s' = (if abs s k = None then (abs s)(k \<mapsto> v) else abs s) \<and> used s' = (if abs s k = None then used s + 1 else used s)"
    and entries_abs: "inv s \<Longrightarrow> distinct (map fst (entries s)) \<and> map_of (entries s) = abs s \<and> length (entries s) = used s"
begin

text \<open>Adding several entries, stopping at the first one whose key is there.\<close>

fun add_all :: "('k \<times> 'v) list \<Rightarrow> 's \<Rightarrow> 's option" where
  "add_all [] s = Some s"
| "add_all (e # es) s = (case add s (fst e) (snd e) of Some (rc, s') \<Rightarrow> if rc = DICT_OK then add_all es s' else None | None \<Rightarrow> None)"

lemma add_all_new:
  "inv s \<Longrightarrow> used s + length es \<le> room \<Longrightarrow> distinct (map fst es) \<Longrightarrow> \<forall>e\<in>set es. abs s (fst e) = None \<Longrightarrow>
   \<exists>s'. add_all es s = Some s' \<and> inv s' \<and> abs s' = abs s ++ map_of es \<and> used s' = used s + length es"
proof (induction es arbitrary: s)
  case (Cons e es)
  obtain s1 where s1: "add s (fst e) (snd e) = Some (DICT_OK, s1)" "inv s1" "abs s1 = (abs s)(fst e \<mapsto> snd e)" "used s1 = used s + 1"
    using add_abs [OF Cons(2), of "fst e" "snd e"] Cons(3,5) by auto
  have "fst x \<noteq> fst e" if "x \<in> set es" for x using Cons(4) imageI [OF that, of fst] by (metis distinct.simps(2) list.simps(9) set_map)
  then have "\<forall>x\<in>set es. abs s1 (fst x) = None" using Cons(5) s1(3) by simp
  then obtain s2 where "add_all es s1 = Some s2" "inv s2" "abs s2 = abs s1 ++ map_of es" "used s2 = used s1 + length es"
    using Cons(1) [OF s1(2)] Cons(3,4) s1(4) by auto
  moreover have "(abs s)(fst e \<mapsto> snd e) ++ map_of es = abs s ++ (map_of es)(fst e \<mapsto> snd e)"
    using Cons(4) by (simp add: map_add_upd_left dom_map_of_conv_image_fst)
  moreover have "map_of (e # es) = (map_of es)(fst e \<mapsto> snd e)" by simp
  ultimately show ?case using s1 by (intro exI [of _ s2]) (simp del: map_of.simps fun_upd_apply)
qed simp

lemma entries_iff: "inv s \<Longrightarrow> (k, v) \<in> set (entries s) \<longleftrightarrow> abs s k = Some v"
  using entries_abs [of s] by (metis map_of_eq_Some_iff)

lemma find_none: "inv s \<Longrightarrow> find s k = None \<longleftrightarrow> k \<notin> fst ` set (entries s)"
  using entries_abs [of s] by (metis find_abs map_of_eq_None_iff option.map_disc_iff)

end

interpretation nodes: table_of_nodes dictFind dictAdd dict_entries dict_inv dt_used "2 ^ 30" dict_map
proof
  fix s :: "('k, 'v) dict" and k v
  assume s: "dict_inv s"
  show "dictFind s k = map_option (Pair k) (dict_map s k)" using s by (rule dictFind_map)
  show "distinct (map fst (dict_entries s)) \<and> map_of (dict_entries s) = dict_map s \<and> length (dict_entries s) = dt_used s"
    using s by (rule dict_entries_map)
  assume "dt_used s < 2 ^ 30"
  then show "\<exists>s'. dictAdd s k v = Some (if dict_map s k = None then DICT_OK else DICT_ERR, s') \<and> dict_inv s'
      \<and> dict_map s' = (if dict_map s k = None then (dict_map s)(k \<mapsto> v) else dict_map s)
      \<and> dt_used s' = (if dict_map s k = None then dt_used s + 1 else dt_used s)"
    using dictAdd_ok [OF s] by metis
qed

section \<open>Property\<close>

text \<open>C26: The hash table is a finite map: with fewer than \<open>2 ^ 30\<close> entries (and so also while it is
  growing) \<open>dictFind\<close> looks a key up, \<open>dictAdd\<close> adds a new key and refuses a known one,
  \<open>dictDelete\<close> removes one, each keeps the invariant, and an iterator visits every entry once.\<close>

theorem dict_refines_map:
  assumes "dict_inv ht" "dt_used ht < 2 ^ 30"
  shows "dictFind ht k = map_option (Pair k) (dict_map ht k)
    \<and> (\<exists>ht'. dictAdd ht k v = Some (if dict_map ht k = None then DICT_OK else DICT_ERR, ht') \<and> dict_inv ht'
        \<and> dict_map ht' = (if dict_map ht k = None then (dict_map ht)(k \<mapsto> v) else dict_map ht))
    \<and> (\<exists>ht'. dictDelete ht k = (if dict_map ht k = None then DICT_ERR else DICT_OK, ht') \<and> dict_inv ht'
        \<and> dict_map ht' = (dict_map ht)(k := None))
    \<and> distinct (map fst (dict_entries ht)) \<and> map_of (dict_entries ht) = dict_map ht"
  using nodes.find_abs [OF assms(1)] nodes.add_abs [OF assms] nodes.entries_abs [OF assms(1)] dictDelete_ok [OF assms(1)] by metis

definition sample_type :: "bytes dict_type" where
  "sample_type = \<lparr>hashFunction = dictGenHashFunction, keyCompare = (=)\<rparr>"

theorem dict_refines_map_witness:
  "dictFind (dictCreate sample_type :: (bytes, nat) dict) ''a'' = None
   \<and> (\<exists>ht'. dictAdd (dictCreate sample_type :: (bytes, nat) dict) ''a'' 1 = Some (DICT_OK, ht') \<and> dict_inv ht' \<and> dict_map ht' = [''a'' \<mapsto> 1])"
proof -
  have "good_type sample_type" by (simp add: good_type_def sample_type_def)
  then have i: "dict_inv (dictCreate sample_type :: (bytes, nat) dict)" "dict_map (dictCreate sample_type :: (bytes, nat) dict) = Map.empty"
    using dictCreate_inv by blast+
  have "dt_used (dictCreate sample_type :: (bytes, nat) dict) < 2 ^ 30" by (simp add: dictCreate_def)
  from dict_refines_map [OF i(1) this, of "''a''" 1] show ?thesis by (simp add: i(2))
qed

end
