(* ===== verification/Route.thy ===== *)
theory Route
  imports Merge Connection Dict
begin

text \<open>
  The route table of the cluster client (\<open>hircluster.c\<close>): the nodes, the regions of slots they
  hold, the parsing of the answers to CLUSTER SLOTS and CLUSTER NODES, and the update of the
  table.

  Nodes live in the list \<open>cc_heap\<close> and a pointer to a node is its position; the texts of a node
  are plain byte strings. Connections and what can be done with them are a parameter, the record
  \<open>link\<close>: \<open>Cluster\<close> gives it for the connections of \<open>Connection\<close>. \<open>Undefined\<close> marks a null
  pointer access, a failed assertion or memory that is released twice. The asynchronous
  contexts of nodes are in \<open>ClusterAsync\<close>.
\<close>

section \<open>Constants\<close>

definition REDIS_ROLE_MASTER :: nat where "REDIS_ROLE_MASTER = 1"
definition REDIS_ROLE_SLAVE :: nat where "REDIS_ROLE_SLAVE = 2"
definition HIRCLUSTER_FLAG_ADD_SLAVE :: "32 word" where "HIRCLUSTER_FLAG_ADD_SLAVE = 0x1000"
definition HIRCLUSTER_FLAG_ADD_OPENSLOT :: "32 word" where "HIRCLUSTER_FLAG_ADD_OPENSLOT = 0x2000"
definition HIRCLUSTER_FLAG_ROUTE_USE_SLOTS :: "32 word" where "HIRCLUSTER_FLAG_ROUTE_USE_SLOTS = 0x4000"
definition REDIS_COMMAND_CLUSTER_NODES :: bytes where "REDIS_COMMAND_CLUSTER_NODES = ''CLUSTER NODES''"
definition REDIS_COMMAND_CLUSTER_SLOTS :: bytes where "REDIS_COMMAND_CLUSTER_SLOTS = ''CLUSTER SLOTS''"

section \<open>State\<close>

text \<open>A region of slots, and a slot that is being moved.\<close>

record region =
  sl_start :: "32 word"
  sl_end :: "32 word"
  sl_node :: "nat option"

record copen_slot =
  op_slot_num :: "32 word"
  op_migrate :: bool
  op_remote_name :: bytes
  op_node :: nat

record 'c cluster_node =
  nd_name :: "bytes option"
  nd_addr :: bytes
  nd_host :: "bytes option"
  nd_port :: int
  nd_role :: nat
  nd_myself :: bool
  nd_con :: "'c option"
  nd_slots :: "region list option"
  nd_slaves :: "nat list option"
  nd_migrating :: "copen_slot list option"
  nd_importing :: "copen_slot list option"

type_synonym node_dict = "(bytes, nat) dict"

text \<open>A command whose replies are still to be fetched, with the commands it was split into.\<close>

record pending =
  rq_command :: cmd
  rq_seq :: "nat list option"
  rq_subs :: "cmd list option"

record 'c cluster =
  cc_err :: int
  cc_errstr :: bytes
  cc_ip :: "bytes option"
  cc_port :: int
  cc_flags :: "32 word"
  cc_slots :: "region list option"
  cc_nodes :: "node_dict option"
  cc_table :: "nat option list"
  cc_route_version :: nat
  cc_max_redirect_count :: int
  cc_retry_count :: int
  cc_requests :: "pending list option"
  cc_need_update_route :: bool
  cc_heap :: "'c cluster_node list"

record ('c, 'w) link =
  lk_connect :: "bytes \<Rightarrow> int \<Rightarrow> 'w \<Rightarrow> 'c option \<times> 'w"
  lk_reconnect :: "'c \<Rightarrow> 'w \<Rightarrow> 'c \<times> 'w"
  lk_err :: "'c \<Rightarrow> int"
  lk_errstr :: "'c \<Rightarrow> bytes"
  lk_blocks :: "'c \<Rightarrow> bool"
  lk_append :: "'c \<Rightarrow> bytes \<Rightarrow> ('c \<times> bool) run"
  lk_flush :: "'c \<Rightarrow> 'w \<Rightarrow> ('c \<times> 'w \<times> bool) run"
  lk_reply :: "'c \<Rightarrow> 'w \<Rightarrow> ('c \<times> 'w \<times> bool \<times> rtree option) run"
  lk_command :: "'c \<Rightarrow> bytes \<Rightarrow> 'w \<Rightarrow> ('c \<times> 'w \<times> rtree option) run"

fun run_then :: "'a run \<Rightarrow> ('a \<Rightarrow> 'b run) \<Rightarrow> 'b run" where
  "run_then Undefined f = Undefined"
| "run_then Blocked f = Blocked"
| "run_then (Done x) f = f x"

text \<open>A step that may fail with an error left in the context.\<close>

fun or_fail :: "('e + 'a) run \<Rightarrow> ('a \<Rightarrow> ('e + 'b) run) \<Rightarrow> ('e + 'b) run" where
  "or_fail Undefined f = Undefined"
| "or_fail Blocked f = Blocked"
| "or_fail (Done (Inl e)) f = Done (Inl e)"
| "or_fail (Done (Inr x)) f = f x"

definition cluster_error_set :: "'c cluster \<Rightarrow> int \<Rightarrow> bytes \<Rightarrow> 'c cluster" where
  "cluster_error_set cc ty str = cc\<lparr>cc_err := ty, cc_errstr := take 127 (cstr str)\<rparr>"

abbreviation fail_other :: "'c cluster \<Rightarrow> bytes \<Rightarrow> ('c cluster + 'a) run" where
  "fail_other cc str \<equiv> Done (Inl (cluster_error_set cc REDIS_ERR_OTHER str))"

abbreviation fail_memory :: "'c cluster \<Rightarrow> bytes \<Rightarrow> ('c cluster + 'a) run" where
  "fail_memory cc str \<equiv> Done (Inl (cluster_error_set cc REDIS_ERR_OOM str))"

definition dictSdsKeyCompare :: "bytes \<Rightarrow> bytes \<Rightarrow> bool" where
  "dictSdsKeyCompare key1 key2 \<longleftrightarrow> length key1 = length key2 \<and> memcmp key1 key2 = 0"

definition clusterNodesDictType :: "bytes dict_type" where
  "clusterNodesDictType = \<lparr>hashFunction = dictGenHashFunction, keyCompare = dictSdsKeyCompare\<rparr>"

text \<open>A conversion to \<open>int\<close>.\<close>

definition int32 :: "int \<Rightarrow> int" where
  "int32 n = sint (word_of_int n :: 32 word)"

section \<open>Nodes and their slots\<close>

definition new_node :: "nat \<Rightarrow> 'c cluster_node" where
  "new_node role = \<lparr>nd_name = None, nd_addr = [], nd_host = None, nd_port = 0, nd_role = role, nd_myself = False, nd_con = None,
     nd_slots = (if role = REDIS_ROLE_MASTER then Some [] else None), nd_slaves = None, nd_migrating = None, nd_importing = None\<rparr>"

definition node_update :: "nat \<Rightarrow> ('c cluster_node \<Rightarrow> 'c cluster_node) \<Rightarrow> 'c cluster \<Rightarrow> 'c cluster" where
  "node_update n f cc = cc\<lparr>cc_heap := (cc_heap cc)[n := f (cc_heap cc ! n)]\<rparr>"

text \<open>\<open>cluster_slot_create\<close> with a node and \<open>cluster_slot_ref_node\<close>: the region goes to the end of the
  node's list. The sizes are those of \<open>cluster_slot\<close>, \<open>hilist\<close> and \<open>cluster_node\<close>.\<close>

definition cluster_slot_ref_node :: "heap \<Rightarrow> region \<Rightarrow> nat \<Rightarrow> 'c cluster \<Rightarrow> 'c cluster option" where
  "cluster_slot_ref_node mem slot n cc =
     (let node = cc_heap cc ! n in
      if nd_role node \<noteq> REDIS_ROLE_MASTER then None
      else if nd_slots node = None \<and> mem 48 = None then None
      else Some (node_update n (\<lambda>nd. nd\<lparr>nd_slots := Some ((case nd_slots nd of None \<Rightarrow> [] | Some l \<Rightarrow> l) @ [slot\<lparr>sl_node := Some n\<rparr>])\<rparr>) cc))"

definition add_slave :: "heap \<Rightarrow> nat \<Rightarrow> nat \<Rightarrow> 'c cluster \<Rightarrow> 'c cluster option" where
  "add_slave mem master slave cc =
     (if nd_slaves (cc_heap cc ! master) = None \<and> mem 48 = None then None
      else Some (node_update master (\<lambda>nd. nd\<lparr>nd_slaves := Some ((case nd_slaves nd of None \<Rightarrow> [] | Some l \<Rightarrow> l) @ [slave])\<rparr>) cc))"

section \<open>The answer to CLUSTER SLOTS\<close>

definition reply_text :: "rtree \<Rightarrow> bytes" where
  "reply_text r = (case rt_str r of Some s \<Rightarrow> take (nat (rt_len r)) s | None \<Rightarrow> replicate (nat (rt_len r)) NUL)"

text \<open>The elements of an array; \<open>None\<close> when the vector is shorter than the count.\<close>

definition elements_of :: "rtree \<Rightarrow> rtree option list option" where
  "elements_of r =
     (case rt_element r of
        None \<Rightarrow> None
      | Some es \<Rightarrow> if length es < rt_elements r then None else Some (take (rt_elements r) es))"

definition node_address :: "rtree \<Rightarrow> rtree \<Rightarrow> bytes" where
  "node_address ip port = reply_text ip @ '':'' @ dec_int (int32 (rt_integer port))"

definition slots_error :: "bytes \<Rightarrow> bytes" where
  "slots_error what = ''Command(cluster slots) reply error: '' @ what"

definition node_get_with_slots ::
    "heap \<Rightarrow> 'c cluster \<Rightarrow> rtree \<Rightarrow> rtree \<Rightarrow> nat \<Rightarrow> ('c cluster + 'c cluster \<times> nat) run" where
  "node_get_with_slots mem cc host port role =
     (if rt_type host \<noteq> REDIS_REPLY_STRING \<or> rt_len host \<le> 0 then fail_other cc (slots_error ''node ip is not string.'')
      else if rt_type port \<noteq> REDIS_REPLY_INTEGER \<or> rt_integer port \<le> 0 then fail_other cc (slots_error ''node port is not integer.'')
      else if \<not> hi_valid_port (int32 (rt_integer port)) then fail_other cc (slots_error ''node port is not valid.'')
      else if mem 96 = None then fail_memory cc ''Out of memory''
      else if role = REDIS_ROLE_MASTER \<and> mem 48 = None then fail_other cc ''slots for node listCreate error''
      else Done (Inr (cc\<lparr>cc_heap := cc_heap cc @ [(new_node role)\<lparr>nd_addr := node_address host port,
                 nd_host := Some (reply_text host), nd_port := int32 (rt_integer port)\<rparr>]\<rparr>, length (cc_heap cc))))"

text \<open>The element of the master of a region. The last component says that the master was known: then the
  other nodes of the region are not looked at.\<close>

definition region_master ::
    "heap \<Rightarrow> 'c cluster \<Rightarrow> node_dict \<Rightarrow> region \<Rightarrow> rtree \<Rightarrow> rtree \<Rightarrow> ('c cluster + 'c cluster \<times> node_dict \<times> nat \<times> bool) run" where
  "region_master mem cc nodes slot ip port =
     (case dictFind nodes (node_address ip port) of
        Some (_, m) \<Rightarrow>
          (case cluster_slot_ref_node mem slot m cc of
             None \<Rightarrow> fail_memory cc ''Slot ref node failed: out of memory.''
           | Some cc \<Rightarrow> Done (Inr (cc, nodes, m, True)))
      | None \<Rightarrow>
          or_fail (node_get_with_slots mem cc ip port REDIS_ROLE_MASTER) (\<lambda>(cc, m).
            case dictAdd nodes (nd_addr (cc_heap cc ! m)) m of
              None \<Rightarrow> Undefined
            | Some (rc, nodes) \<Rightarrow>
                if rc \<noteq> DICT_OK then fail_other cc ''The address already exists in the nodes''
                else case cluster_slot_ref_node mem slot m cc of
                       None \<Rightarrow> fail_memory cc ''Slot ref node failed: out of memory.''
                     | Some cc \<Rightarrow> Done (Inr (cc, nodes, m, False))))"

text \<open>The elements of a region from the third on; \<open>master\<close> is the node of the third.\<close>

fun region_nodes ::
    "heap \<Rightarrow> 'c cluster \<Rightarrow> node_dict \<Rightarrow> region \<Rightarrow> nat option \<Rightarrow> rtree option list \<Rightarrow> ('c cluster + 'c cluster \<times> node_dict) run" where
  "region_nodes mem cc nodes slot master [] = Done (Inr (cc, nodes))"
| "region_nodes mem cc nodes slot master (None # es) = Undefined"
| "region_nodes mem cc nodes slot master (Some e # es) =
     (if rt_type e \<noteq> REDIS_REPLY_ARRAY \<or> rt_elements e \<noteq> 3 then
        fail_other cc (slots_error ''nodes sub_reply is not an correct array.'')
      else case elements_of e of
        Some (Some ip # Some port # _) \<Rightarrow>
          if rt_type ip \<noteq> REDIS_REPLY_STRING \<or> rt_type port \<noteq> REDIS_REPLY_INTEGER then
            fail_other cc (slots_error ''master ip or port is not correct.'')
          else (case master of
            None \<Rightarrow>
              or_fail (region_master mem cc nodes slot ip port) (\<lambda>(cc, nodes, m, known).
                if known then Done (Inr (cc, nodes)) else region_nodes mem cc nodes slot (Some m) es)
          | Some m \<Rightarrow>
              if cc_flags cc AND HIRCLUSTER_FLAG_ADD_SLAVE \<noteq> 0 then
                or_fail (node_get_with_slots mem cc ip port REDIS_ROLE_SLAVE) (\<lambda>(cc, slave).
                  case add_slave mem m slave cc of
                    None \<Rightarrow> fail_memory cc ''Out of memory''
                  | Some cc \<Rightarrow> region_nodes mem cc nodes slot master es)
              else region_nodes mem cc nodes slot master es)
      | Some (_ # _ # _) \<Rightarrow> fail_other cc (slots_error ''master ip or port is not correct.'')
      | _ \<Rightarrow> Undefined)"

text \<open>One element of the answer: begin, end, the master and its slaves.\<close>

definition parse_region :: "heap \<Rightarrow> 'c cluster \<Rightarrow> node_dict \<Rightarrow> rtree \<Rightarrow> ('c cluster + 'c cluster \<times> node_dict) run" where
  "parse_region mem cc nodes e =
     (if rt_type e \<noteq> REDIS_REPLY_ARRAY \<or> rt_elements e < 3 then
        fail_other cc (slots_error ''first sub_reply is not an array.'')
      else if mem 16 = None then fail_memory cc ''Slot create failed: out of memory.''
      else case elements_of e of
        Some (Some b # es) \<Rightarrow>
          if rt_type b \<noteq> REDIS_REPLY_INTEGER then fail_other cc (slots_error ''slot begin is not an integer.'')
          else (case es of
            Some l # ns \<Rightarrow>
              if rt_type l \<noteq> REDIS_REPLY_INTEGER then fail_other cc (slots_error ''slot end is not an integer.'')
              else let slot = \<lparr>sl_start = word_of_int (rt_integer b), sl_end = word_of_int (rt_integer l), sl_node = None\<rparr> in
                if sl_start slot > sl_end slot then fail_other cc (slots_error ''slot begin is bigger than slot end.'')
                else region_nodes mem cc nodes slot None ns
          | _ \<Rightarrow> Undefined)
      | _ \<Rightarrow> Undefined)"

fun parse_regions :: "heap \<Rightarrow> 'c cluster \<Rightarrow> node_dict \<Rightarrow> rtree option list \<Rightarrow> ('c cluster + 'c cluster \<times> node_dict) run" where
  "parse_regions mem cc nodes [] = Done (Inr (cc, nodes))"
| "parse_regions mem cc nodes (None # es) = Undefined"
| "parse_regions mem cc nodes (Some e # es) =
     or_fail (parse_region mem cc nodes e) (\<lambda>(cc, nodes). parse_regions mem cc nodes es)"

definition parse_cluster_slots :: "heap \<Rightarrow> 'c cluster \<Rightarrow> rtree \<Rightarrow> ('c cluster + 'c cluster \<times> node_dict) run" where
  "parse_cluster_slots mem cc reply =
     (let nodes = dictCreate clusterNodesDictType in
      if rt_type reply \<noteq> REDIS_REPLY_ARRAY \<or> rt_elements reply = 0 then
        fail_other cc (slots_error ''reply is not an array.'')
      else case elements_of reply of
        None \<Rightarrow> Undefined
      | Some es \<Rightarrow> parse_regions mem cc nodes es)"

section \<open>The answer to CLUSTER NODES\<close>

definition split_text :: "heap \<Rightarrow> bytes \<Rightarrow> bytes \<Rightarrow> bytes list option" where
  "split_text mem s sep = map_option (map sds_text) (sdssplitlen mem s sep)"

definition node_get_with_nodes :: "heap \<Rightarrow> 'c cluster \<Rightarrow> bytes list \<Rightarrow> nat \<Rightarrow> ('c cluster + 'c cluster \<times> nat) run" where
  "node_get_with_nodes mem cc part role =
     (if length part < 8 then Done (Inl cc)
      else if mem 96 = None then fail_memory cc ''Out of memory''
      else if role = REDIS_ROLE_MASTER \<and> mem 48 = None then fail_other cc ''slots for node listCreate error''
      else case split_text mem (part ! 1) '':'' of
        Some [host, port] \<Rightarrow>
          Done (Inr (cc\<lparr>cc_heap := cc_heap cc @ [(new_node role)\<lparr>nd_name := Some (part ! 0), nd_addr := part ! 1,
                 nd_host := Some host, nd_port := hi_atoi port (length port)\<rparr>]\<rparr>, length (cc_heap cc)))
      | _ \<Rightarrow> fail_other cc ''split ip port error'')"

text \<open>The nodes by the name of their master. Moving the slaves one by one to the head of the list of the
  master reverses them.\<close>

definition cluster_master_slave_mapping_with_name ::
    "heap \<Rightarrow> 'c cluster \<Rightarrow> node_dict option \<Rightarrow> nat \<Rightarrow> bytes \<Rightarrow> ('c cluster + 'c cluster \<times> node_dict option) run" where
  "cluster_master_slave_mapping_with_name mem cc names n master_name =
     (let d = (case names of None \<Rightarrow> dictCreate clusterNodesDictType | Some d \<Rightarrow> d); node = cc_heap cc ! n in
      case dictFind d master_name of
        None \<Rightarrow>
          (case dictAdd d master_name n of
             None \<Rightarrow> Undefined
           | Some (rc, d) \<Rightarrow>
               if rc \<noteq> DICT_OK then fail_other cc ''the address already exists in the nodes''
               else Done (Inr (cc, Some d)))
      | Some (_, m) \<Rightarrow>
          let old = cc_heap cc ! m in
          if nd_role node = REDIS_ROLE_MASTER \<and> nd_role old = REDIS_ROLE_MASTER then
            fail_other cc ''two masters have the same name''
          else if nd_role node = REDIS_ROLE_MASTER \<and> nd_role old = REDIS_ROLE_SLAVE then
            (if nd_slaves node = None \<and> mem 48 = None then fail_memory cc ''Out of memory''
             else let own = (case nd_slaves node of None \<Rightarrow> [] | Some l \<Rightarrow> l);
                      theirs = (case nd_slaves old of None \<Rightarrow> [] | Some l \<Rightarrow> rev l);
                      cc = node_update m (\<lambda>nd. nd\<lparr>nd_slaves := None\<rparr>) cc;
                      cc = node_update n (\<lambda>nd. nd\<lparr>nd_slaves := Some (m # theirs @ own)\<rparr>) cc
                  in Done (Inr (cc, Some (dictSetHashVal d master_name n))))
          else if nd_role node = REDIS_ROLE_SLAVE then
            (case add_slave mem m n cc of
               None \<Rightarrow> fail_memory cc ''Out of memory''
             | Some cc \<Rightarrow> Done (Inr (cc, Some d)))
          else Done (Inr (cc, Some d)))"

text \<open>A slot that is being moved: \<open>[slot->-node]\<close> or \<open>[slot-<-node]\<close>. That the arrays can grow is assumed.\<close>

definition open_slot :: "heap \<Rightarrow> 'c cluster \<Rightarrow> nat \<Rightarrow> bytes list \<Rightarrow> ('c cluster + 'c cluster) run" where
  "open_slot mem cc master toks =
     (case toks of
        [a, [d], b] \<Rightarrow>
          if cc_flags cc AND HIRCLUSTER_FLAG_ADD_OPENSLOT \<noteq> 0 \<and> 1 < length a \<and> 1 < length b \<and> hd a = CHR ''['' \<and> last b = CHR '']'' then
            let s = tl a; slot = \<lparr>op_slot_num = word_of_int (hi_atoi s (length s)), op_migrate = (d = CHR ''>''),
                  op_remote_name = butlast b, op_node = master\<rparr>;
                node = cc_heap cc ! master in
            if d = CHR ''>'' then
              (if mem 24 = None then fail_other cc ''create open slot error''
               else if nd_migrating node = None \<and> mem 32 = None then fail_other cc ''create migrating array error''
               else Done (Inr (node_update master (\<lambda>nd. nd\<lparr>nd_migrating :=
                      Some ((case nd_migrating nd of None \<Rightarrow> [] | Some l \<Rightarrow> l) @ [slot])\<rparr>) cc)))
            else if d = CHR ''<'' then
              (if mem 24 = None then fail_other cc ''create open slot error''
               else if nd_importing node = None \<and> mem 32 = None then fail_other cc ''create migrating array error''
               else Done (Inr (node_update master (\<lambda>nd. nd\<lparr>nd_importing :=
                      Some ((case nd_importing nd of None \<Rightarrow> [] | Some l \<Rightarrow> l) @ [slot])\<rparr>) cc)))
            else Done (Inr cc)
          else Done (Inr cc)
      | _ \<Rightarrow> Done (Inr cc))"

text \<open>The fields of a master from the ninth on.\<close>

definition parse_slot_field :: "heap \<Rightarrow> 'c cluster \<Rightarrow> nat \<Rightarrow> bytes \<Rightarrow> ('c cluster + 'c cluster) run" where
  "parse_slot_field mem cc master field =
     (case split_text mem field ''-'' of
        None \<Rightarrow> fail_other cc ''split slot start end error(NULL)''
      | Some toks \<Rightarrow>
          or_fail (if length toks = 1 \<or> length toks = 2 then Done (Inr cc) else open_slot mem cc master toks) (\<lambda>cc.
            let a = toks ! 0; b = (if length toks = 1 then a else toks ! 1);
                (slot_start, slot_end) = (if length toks = 1 \<or> length toks = 2 then (hi_atoi a (length a), hi_atoi b (length b)) else (-1, -1))
            in if slot_start < 0 \<or> slot_end < 0 \<or> slot_start > slot_end \<or> slot_end \<ge> int REDIS_CLUSTER_SLOTS then Done (Inr cc)
               else if mem 16 = None then fail_memory cc ''Out of memory''
               else case cluster_slot_ref_node mem \<lparr>sl_start = word_of_int slot_start, sl_end = word_of_int slot_end, sl_node = None\<rparr> master cc of
                      None \<Rightarrow> fail_memory cc ''Out of memory''
                    | Some cc \<Rightarrow> Done (Inr cc)))"

fun parse_slot_fields :: "heap \<Rightarrow> 'c cluster \<Rightarrow> nat \<Rightarrow> bytes list \<Rightarrow> ('c cluster + 'c cluster) run" where
  "parse_slot_fields mem cc master [] = Done (Inr cc)"
| "parse_slot_fields mem cc master (f # fs) = or_fail (parse_slot_field mem cc master f) (\<lambda>cc. parse_slot_fields mem cc master fs)"

text \<open>A master that cannot be entered by its name is released, and once more with the table \<open>nodes\<close> that
  already holds it.\<close>

definition parse_master ::
    "heap \<Rightarrow> 'c cluster \<Rightarrow> node_dict \<Rightarrow> node_dict option \<Rightarrow> bytes list \<Rightarrow> bool
      \<Rightarrow> ('c cluster + 'c cluster \<times> node_dict \<times> node_dict option) run" where
  "parse_master mem cc nodes names part myself =
     or_fail (node_get_with_nodes mem cc part REDIS_ROLE_MASTER) (\<lambda>(cc, m).
       case dictAdd nodes (nd_addr (cc_heap cc ! m)) m of
         None \<Rightarrow> Undefined
       | Some (rc, nodes) \<Rightarrow>
           if rc \<noteq> DICT_OK then fail_other cc ''The address already exists in the nodes''
           else (case (if cc_flags cc AND HIRCLUSTER_FLAG_ADD_SLAVE \<noteq> 0
                       then cluster_master_slave_mapping_with_name mem cc names m (part ! 0) else Done (Inr (cc, names))) of
               Done (Inr (cc, names)) \<Rightarrow>
                 or_fail (parse_slot_fields mem (if myself then node_update m (\<lambda>nd. nd\<lparr>nd_myself := True\<rparr>) cc else cc) m (drop 8 part)) (\<lambda>cc.
                   Done (Inr (cc, nodes, names)))
             | Blocked \<Rightarrow> Blocked
             | _ \<Rightarrow> Undefined))"

definition parse_node_line ::
    "heap \<Rightarrow> 'c cluster \<Rightarrow> node_dict \<Rightarrow> node_dict option \<Rightarrow> bytes \<Rightarrow> ('c cluster + 'c cluster \<times> node_dict \<times> node_dict option) run" where
  "parse_node_line mem cc nodes names line =
     (case split_text mem line '' '' of
        None \<Rightarrow> fail_other cc ''split cluster nodes error''
      | Some part \<Rightarrow>
          if length part < 8 then fail_other cc ''split cluster nodes error''
          else if part ! 1 = '':0'' then Done (Inr (cc, nodes, names))
          else let myself = take 7 (part ! 2) = ''myself,''; role = (if myself then drop 7 (part ! 2) else part ! 2) in
            if take 6 role = ''master'' then parse_master mem cc nodes names part myself
            else if cc_flags cc AND HIRCLUSTER_FLAG_ADD_SLAVE \<noteq> 0 \<and> take 5 role = ''slave'' then
              or_fail (node_get_with_nodes mem cc part REDIS_ROLE_SLAVE) (\<lambda>(cc, s).
              or_fail (cluster_master_slave_mapping_with_name mem cc names s (part ! 3)) (\<lambda>(cc, names).
                Done (Inr (if myself then node_update s (\<lambda>nd. nd\<lparr>nd_myself := True\<rparr>) cc else cc, nodes, names))))
            else Done (Inr (cc, nodes, names)))"

text \<open>The loop over the text: after a line \<open>pos\<close> is moved twice, so that the first character of the next
  line is not compared with a newline.\<close>

function parse_lines ::
    "heap \<Rightarrow> 'c cluster \<Rightarrow> node_dict \<Rightarrow> node_dict option \<Rightarrow> bytes \<Rightarrow> nat \<Rightarrow> nat \<Rightarrow> ('c cluster + 'c cluster \<times> node_dict) run" where
  "parse_lines mem cc nodes names str line_start pos =
     (if length str \<le> pos then Done (Inr (cc, nodes))
      else if str ! pos = LF then
        or_fail (parse_node_line mem cc nodes names (take (pos - line_start) (drop line_start str))) (\<lambda>(cc, nodes, names).
          parse_lines mem cc nodes names str (pos + 1) (pos + 2))
      else parse_lines mem cc nodes names str line_start (pos + 1))"
  by pat_completeness auto
termination by (relation "measure (\<lambda>(_, _, _, _, str, _, pos). length str - pos)") auto

declare parse_lines.simps [simp del]

definition parse_cluster_nodes :: "heap \<Rightarrow> 'c cluster \<Rightarrow> bytes \<Rightarrow> ('c cluster + 'c cluster \<times> node_dict) run" where
  "parse_cluster_nodes mem cc str = parse_lines mem cc (dictCreate clusterNodesDictType) None str 0 0"

section \<open>Updating the route\<close>

text \<open>The regions of all nodes. \<open>lit\<close> says that a list iterator has been used: it is released after the
  inner loop, and once more when a later node is refused.\<close>

fun collect_slots :: "'c cluster \<Rightarrow> nat list \<Rightarrow> bool \<Rightarrow> region list \<Rightarrow> ('c cluster + region list) run" where
  "collect_slots cc [] lit slots = Done (Inr slots)"
| "collect_slots cc (m # ms) lit slots =
     (let master = cc_heap cc ! m in
      if nd_role master \<noteq> REDIS_ROLE_MASTER then
        (if lit then Undefined else fail_memory cc ''Node role must be master'')
      else case nd_slots master of
        None \<Rightarrow> collect_slots cc ms lit slots
      | Some l \<Rightarrow>
          if list_all (\<lambda>s. sl_start s \<le> sl_end s \<and> unat (sl_end s) < REDIS_CLUSTER_SLOTS) l
          then collect_slots cc ms True (slots @ l)
          else fail_other cc ''Slot region for node is error'')"

text \<open>Entering the regions; \<open>None\<close> when a slot is taken already.\<close>

fun fill_slots :: "nat option \<Rightarrow> nat list \<Rightarrow> nat option list \<Rightarrow> nat option list option" where
  "fill_slots n [] table = Some table"
| "fill_slots n (k # ks) table = (if table ! k \<noteq> None then None else fill_slots n ks (table[k := n]))"

definition region_slots :: "region \<Rightarrow> nat list" where
  "region_slots s = [unat (sl_start s)..<Suc (unat (sl_end s))]"

fun fill_table :: "region list \<Rightarrow> nat option list \<Rightarrow> nat option list option" where
  "fill_table [] table = Some table"
| "fill_table (s # ss) table =
     (case fill_slots (sl_node s) (region_slots s) table of None \<Rightarrow> None | Some table \<Rightarrow> fill_table ss table)"

text \<open>The connections of the old nodes go to the new nodes with the same address.\<close>

fun swap_ctx :: "node_dict \<Rightarrow> nat list \<Rightarrow> 'c cluster \<Rightarrow> 'c cluster" where
  "swap_ctx nodes_f [] cc = cc"
| "swap_ctx nodes_f (t # ts) cc =
     (case dictFind nodes_f (nd_addr (cc_heap cc ! t)) of
        None \<Rightarrow> swap_ctx nodes_f ts cc
      | Some (_, f) \<Rightarrow>
          (case nd_con (cc_heap cc ! f) of
             None \<Rightarrow> swap_ctx nodes_f ts cc
           | Some c \<Rightarrow>
               let cc' = node_update f (\<lambda>nd. nd\<lparr>nd_con := nd_con (cc_heap cc ! t)\<rparr>) cc
               in swap_ctx nodes_f ts (node_update t (\<lambda>nd. nd\<lparr>nd_con := Some c\<rparr>) cc')))"

definition cluster_nodes_swap_ctx :: "node_dict option \<Rightarrow> node_dict \<Rightarrow> 'c cluster \<Rightarrow> 'c cluster" where
  "cluster_nodes_swap_ctx nodes_f nodes_t cc =
     (case nodes_f of None \<Rightarrow> cc | Some d \<Rightarrow> swap_ctx d (map snd (dict_entries nodes_t)) cc)"

text \<open>From the nodes to the table. When two regions share a slot, the iterator of the nodes is released a
  second time. (\<open>qsort\<close> orders regions with equal starts in any way; they share a slot.)\<close>

definition install_route :: "'c cluster \<Rightarrow> node_dict \<Rightarrow> ('c cluster + 'c cluster) run" where
  "install_route cc nodes =
     or_fail (collect_slots cc (map snd (dict_entries nodes)) False []) (\<lambda>slots.
       let slots = sort_key (\<lambda>s. unat (sl_start s)) slots in
       case fill_table slots (replicate REDIS_CLUSTER_SLOTS None) of
         None \<Rightarrow> Undefined
       | Some table \<Rightarrow>
           Done (Inr ((cluster_nodes_swap_ctx (cc_nodes cc) nodes cc)
             \<lparr>cc_nodes := Some nodes, cc_slots := Some slots, cc_table := table, cc_route_version := cc_route_version cc + 1\<rparr>)))"

text \<open>An error reply without a text fails the assertion of the error function.\<close>

definition refuse_reply :: "'c cluster \<Rightarrow> rtree \<Rightarrow> bytes \<Rightarrow> ('c cluster + 'a) run" where
  "refuse_reply cc reply str =
     (if rt_type reply = REDIS_REPLY_ERROR then
        (case rt_str reply of None \<Rightarrow> Undefined | Some t \<Rightarrow> fail_other cc t)
      else fail_other cc str)"

definition no_reply :: "('c, 'w) link \<Rightarrow> 'c cluster \<Rightarrow> 'c \<Rightarrow> bytes \<Rightarrow> bytes \<Rightarrow> ('c cluster + 'a) run" where
  "no_reply lk cc c timeout null =
     Done (Inl (if lk_err lk c = REDIS_ERR_TIMEOUT then cluster_error_set cc (lk_err lk c) timeout
                else cluster_error_set cc REDIS_ERR_OTHER null))"

definition route_nodes ::
    "heap \<Rightarrow> ('c, 'w) link \<Rightarrow> 'c cluster \<Rightarrow> 'c \<Rightarrow> rtree option \<Rightarrow> ('c cluster + 'c cluster \<times> node_dict) run" where
  "route_nodes mem lk cc c reply =
     (if cc_flags cc AND HIRCLUSTER_FLAG_ROUTE_USE_SLOTS \<noteq> 0 then
        (case reply of
           None \<Rightarrow> no_reply lk cc c ''Command(cluster slots) reply error(socket timeout)'' ''Command(cluster slots) reply error(NULL).''
         | Some r \<Rightarrow>
             if rt_type r \<noteq> REDIS_REPLY_ARRAY then refuse_reply cc r ''Command(cluster slots) reply error: type is not array.''
             else parse_cluster_slots mem cc r)
      else
        (case reply of
           None \<Rightarrow> no_reply lk cc c ''Command(cluster nodes) reply error(socket timeout)'' ''Command(cluster nodes) reply error(NULL).''
         | Some r \<Rightarrow>
             if rt_type r \<noteq> REDIS_REPLY_STRING then refuse_reply cc r ''Command(cluster nodes) reply error: type is not string.''
             else parse_cluster_nodes mem cc (reply_text r)))"

text \<open>The flag says whether the route was updated.\<close>

fun route_done :: "'w \<Rightarrow> ('c cluster + 'c cluster) run \<Rightarrow> ('c cluster \<times> 'w \<times> bool) run" where
  "route_done w Undefined = Undefined"
| "route_done w Blocked = Blocked"
| "route_done w (Done (Inl cc)) = Done (cc, w, False)"
| "route_done w (Done (Inr cc)) = Done (cc, w, True)"

definition cluster_update_route_by_addr ::
    "heap \<Rightarrow> ('c, 'w) link \<Rightarrow> 'c cluster \<Rightarrow> bytes option \<Rightarrow> int \<Rightarrow> 'w \<Rightarrow> ('c cluster \<times> 'w \<times> bool) run" where
  "cluster_update_route_by_addr mem lk cc ip port w =
     (if ip = None \<or> port \<le> 0 then Done (cluster_error_set cc REDIS_ERR_OTHER ''Ip or port error!'', w, False)
      else case lk_connect lk (the ip) port w of
        (None, w) \<Rightarrow> Done (cluster_error_set cc REDIS_ERR_OTHER ''Init redis context error(return NULL)'', w, False)
      | (Some c, w) \<Rightarrow>
          if lk_err lk c \<noteq> 0 then Done (cluster_error_set cc (lk_err lk c) (lk_errstr lk c), w, False)
          else let cmd = (if cc_flags cc AND HIRCLUSTER_FLAG_ROUTE_USE_SLOTS \<noteq> 0
                          then REDIS_COMMAND_CLUSTER_SLOTS else REDIS_COMMAND_CLUSTER_NODES) in
            run_then (lk_command lk c cmd w) (\<lambda>(c, w, reply).
              route_done w (or_fail (route_nodes mem lk cc c reply) (\<lambda>(cc, nodes). install_route cc nodes))))"

text \<open>The loop over the known nodes; \<open>err_not_set\<close> is \<open>flag_err_not_set\<close>.\<close>

fun update_from_nodes ::
    "heap \<Rightarrow> ('c, 'w) link \<Rightarrow> nat list \<Rightarrow> bool \<Rightarrow> 'c cluster \<Rightarrow> 'w \<Rightarrow> ('c cluster \<times> 'w \<times> bool) run" where
  "update_from_nodes mem lk [] err_not_set cc w =
     Done (if err_not_set then cluster_error_set cc REDIS_ERR_OTHER ''no valid server address'' else cc, w, False)"
| "update_from_nodes mem lk (n # ns) err_not_set cc w =
     (let node = cc_heap cc ! n in
      if nd_host node = None \<or> nd_port node < 0 then update_from_nodes mem lk ns err_not_set cc w
      else run_then (cluster_update_route_by_addr mem lk cc (nd_host node) (nd_port node) w) (\<lambda>(cc, w, ok).
        if ok then Done (if cc_err cc \<noteq> 0 then cc\<lparr>cc_err := 0, cc_errstr := []\<rparr> else cc, w, True)
        else update_from_nodes mem lk ns False cc w))"

definition cluster_update_route :: "heap \<Rightarrow> ('c, 'w) link \<Rightarrow> 'c cluster \<Rightarrow> 'w \<Rightarrow> ('c cluster \<times> 'w \<times> bool) run" where
  "cluster_update_route mem lk cc w =
     (let tried = cc_ip cc \<noteq> None \<and> cc_port cc > 0 in
      run_then (if tried then cluster_update_route_by_addr mem lk cc (cc_ip cc) (cc_port cc) w else Done (cc, w, False)) (\<lambda>(cc, w, ok).
        if ok then Done (cc, w, True)
        else case cc_nodes cc of
          None \<Rightarrow> Done (if tried then cc else cluster_error_set cc REDIS_ERR_OTHER ''no server address'', w, False)
        | Some d \<Rightarrow> update_from_nodes mem lk (map snd (dict_entries d)) (\<not> tried) cc w))"

section \<open>Looking a slot up\<close>

definition node_get_by_table :: "'c cluster \<Rightarrow> 32 word \<Rightarrow> nat option" where
  "node_get_by_table cc slot_num =
     (if unat slot_num \<ge> REDIS_CLUSTER_SLOTS then None else cc_table cc ! unat slot_num)"

text \<open>The binary search over the sorted regions, in 32-bit arithmetic: \<open>middle - 1\<close> wraps around. The
  fuel is the number of rounds; \<open>Undefined\<close> is the failed assertion.\<close>

fun slot_search :: "region list \<Rightarrow> 32 word \<Rightarrow> nat \<Rightarrow> 32 word \<Rightarrow> 32 word \<Rightarrow> nat option run" where
  "slot_search slots slot_num 0 start end' = Blocked"
| "slot_search slots slot_num (Suc fuel) start end' =
     (let stop = start \<ge> end';
          middle = (if stop then end' else start + (end' - start) div 2) in
      if unat middle \<ge> length slots then Undefined
      else let slot = slots ! unat middle in
        if sl_start slot > slot_num then (if stop then Done None else slot_search slots slot_num fuel start (middle - 1))
        else if sl_end slot < slot_num then (if stop then Done None else slot_search slots slot_num fuel (middle + 1) end')
        else Done (sl_node slot))"

definition node_get_by_slot :: "'c cluster \<Rightarrow> 32 word \<Rightarrow> nat option run" where
  "node_get_by_slot cc slot_num =
     (if unat slot_num \<ge> REDIS_CLUSTER_SLOTS then Done None
      else case cc_slots cc of
        None \<Rightarrow> Done None
      | Some slots \<Rightarrow> slot_search slots slot_num (length slots + 2) 0 (of_nat (length slots) - 1))"

end
