(* ===== verification/RouteSpec.thy ===== *)
theory RouteSpec
  imports Route
begin

text \<open>
  What the route table holds: every slot of a region is entered with the node of the region, the
  binary search over the sorted regions finds the same node, and the answer to CLUSTER SLOTS is
  turned into exactly the table it describes.
\<close>

section \<open>Filling the table\<close>

text \<open>Regions that are owned, lie inside the table and do not meet.\<close>

definition region_fits :: "region \<Rightarrow> bool" where
  "region_fits s \<longleftrightarrow> sl_start s \<le> sl_end s \<and> unat (sl_end s) < REDIS_CLUSTER_SLOTS"

definition holds_slot :: "region \<Rightarrow> nat \<Rightarrow> bool" where
  "holds_slot s k \<longleftrightarrow> unat (sl_start s) \<le> k \<and> k \<le> unat (sl_end s)"

lemma region_slots_set [simp]: "set (region_slots s) = {k. holds_slot s k}" "distinct (region_slots s)"
  by (auto simp: region_slots_def holds_slot_def simp del: upt_Suc)

definition meet :: "region \<Rightarrow> region \<Rightarrow> bool" where
  "meet s t \<longleftrightarrow> (\<exists>k. holds_slot s k \<and> holds_slot t k)"

definition apart :: "region list \<Rightarrow> bool" where
  "apart ss \<longleftrightarrow> sorted_wrt (\<lambda>s t. \<not> meet s t) ss"

lemma apart_Cons: "apart (s # ss) \<longleftrightarrow> apart ss \<and> (\<forall>t\<in>set ss. \<not> (\<exists>k. holds_slot s k \<and> holds_slot t k))"
  by (auto simp: apart_def meet_def)

lemma fill_slots_free:
  "\<forall>k\<in>set ks. k < length t \<and> t ! k = None \<Longrightarrow> distinct ks \<Longrightarrow>
   \<exists>t'. fill_slots n ks t = Some t' \<and> length t' = length t \<and> (\<forall>k<length t. t' ! k = (if k \<in> set ks then n else t ! k))"
proof (induction ks arbitrary: t)
  case (Cons k ks)
  have "\<forall>j\<in>set ks. j < length (t[k := n]) \<and> t[k := n] ! j = None"
    using Cons(2,3) by (auto simp: nth_list_update)
  moreover have "distinct ks" using Cons(3) by simp
  ultimately obtain t' where "fill_slots n ks (t[k := n]) = Some t'" "length t' = length t"
    "\<forall>j<length t. t' ! j = (if j \<in> set ks then n else t[k := n] ! j)" using Cons(1) [of "t[k := n]"] by auto
  then show ?case using Cons(2) by (auto simp: nth_list_update)
qed simp

lemma fill_slots_taken:
  "k \<in> set ks \<Longrightarrow> t ! k \<noteq> None \<Longrightarrow> \<forall>k\<in>set ks. k < length t \<Longrightarrow> distinct ks \<Longrightarrow> fill_slots n ks t = None"
proof (induction ks arbitrary: t)
  case (Cons j ks)
  then show ?case by (cases "j = k") auto
qed simp

text \<open>What the table holds after the regions \<open>ss\<close>.\<close>

definition table_of :: "region list \<Rightarrow> nat option list \<Rightarrow> nat option list \<Rightarrow> bool" where
  "table_of ss t t' \<longleftrightarrow> length t' = length t
     \<and> (\<forall>k<length t. (\<forall>s\<in>set ss. holds_slot s k \<longrightarrow> t' ! k = sl_node s) \<and> ((\<forall>s\<in>set ss. \<not> holds_slot s k) \<longrightarrow> t' ! k = t ! k))"

lemma fill_table_ok:
  "apart ss \<Longrightarrow> \<forall>s\<in>set ss. unat (sl_end s) < length t \<Longrightarrow> \<forall>s\<in>set ss. \<forall>k. holds_slot s k \<longrightarrow> t ! k = None \<Longrightarrow>
   \<exists>t'. fill_table ss t = Some t' \<and> table_of ss t t'"
proof (induction ss arbitrary: t)
  case Nil
  show ?case by (simp add: table_of_def)
next
  case (Cons s ss)
  have "\<forall>k\<in>set (region_slots s). k < length t \<and> t ! k = None" using Cons(3,4) by (auto simp: holds_slot_def)
  from fill_slots_free [OF this, of "sl_node s"] obtain t1 where t1: "fill_slots (sl_node s) (region_slots s) t = Some t1" "length t1 = length t"
    "\<forall>k<length t. t1 ! k = (if holds_slot s k then sl_node s else t ! k)" by auto
  have ap: "apart ss" "\<forall>u\<in>set ss. \<not> (\<exists>k. holds_slot s k \<and> holds_slot u k)" using Cons(2) by (simp_all add: apart_Cons)
  have "\<forall>u\<in>set ss. \<forall>k. holds_slot u k \<longrightarrow> t1 ! k = None"
  proof (intro ballI allI impI)
    fix u k assume u: "u \<in> set ss" "holds_slot u k"
    then have "k < length t" using Cons(3) by (auto simp: holds_slot_def)
    then show "t1 ! k = None" using t1(3) u ap(2) Cons(4) by auto
  qed
  moreover have "\<forall>u\<in>set ss. unat (sl_end u) < length t1" using Cons(3) t1(2) by simp
  ultimately obtain t' where t': "fill_table ss t1 = Some t'" "table_of ss t1 t'" using Cons(1) [OF ap(1), of t1] by blast
  have "table_of (s # ss) t t'" unfolding table_of_def
  proof (intro conjI allI impI)
    show "length t' = length t" using t'(2) t1(2) by (simp add: table_of_def)
    fix k assume k: "k < length t"
    then have v: "\<forall>u\<in>set ss. holds_slot u k \<longrightarrow> t' ! k = sl_node u" "(\<forall>u\<in>set ss. \<not> holds_slot u k) \<longrightarrow> t' ! k = t1 ! k"
      using t'(2) t1(2) by (auto simp: table_of_def)
    show "\<forall>u\<in>set (s # ss). holds_slot u k \<longrightarrow> t' ! k = sl_node u" using v ap(2) t1(3) k by auto
    assume "\<forall>u\<in>set (s # ss). \<not> holds_slot u k"
    then show "t' ! k = t ! k" using v(2) t1(3) k by auto
  qed
  then show ?case using t1(1) t'(1) by simp
qed

lemma fill_table_kept: "fill_table ss t = Some t' \<Longrightarrow> \<forall>s\<in>set ss. unat (sl_end s) < length t \<Longrightarrow> k < length t \<Longrightarrow> t ! k \<noteq> None \<Longrightarrow>
    s \<in> set ss \<Longrightarrow> \<not> holds_slot s k"
proof (induction ss arbitrary: t)
  case (Cons u ss)
  have dl: "\<forall>k\<in>set (region_slots u). k < length t" using Cons(3) by (auto simp: holds_slot_def)
  obtain t1 where t1: "fill_slots (sl_node u) (region_slots u) t = Some t1" "fill_table ss t1 = Some t'"
    using Cons(2) by (auto split: option.splits)
  have free: "\<forall>k\<in>set (region_slots u). k < length t \<and> t ! k = None"
    using t1(1) fill_slots_taken [OF _ _ dl region_slots_set(2)] dl by fastforce
  from fill_slots_free [OF this, of "sl_node u"] t1(1) have t1': "length t1 = length t" "\<forall>k<length t. t1 ! k = (if holds_slot u k then sl_node u else t ! k)" by auto
  have nu: "\<not> holds_slot u k" using free Cons(5) by auto
  show ?case
  proof (cases "s = u")
    case False
    have "t1 ! k \<noteq> None" using t1'(2) Cons(4,5) nu by auto
    then show ?thesis using Cons(1) [OF t1(2)] Cons(3,4,6) False t1'(1) by auto
  qed (use nu in simp)
qed simp

lemma fill_table_apart:
  "fill_table ss t = Some t' \<Longrightarrow> \<forall>s\<in>set ss. unat (sl_end s) < length t \<and> sl_node s \<noteq> None \<Longrightarrow> apart ss"
proof (induction ss arbitrary: t)
  case Nil
  show ?case by (simp add: apart_def)
next
  case (Cons u ss)
  have dl: "\<forall>k\<in>set (region_slots u). k < length t" using Cons(3) by (auto simp: holds_slot_def)
  obtain t1 where t1: "fill_slots (sl_node u) (region_slots u) t = Some t1" "fill_table ss t1 = Some t'"
    using Cons(2) by (auto split: option.splits)
  have free: "\<forall>k\<in>set (region_slots u). k < length t \<and> t ! k = None"
    using t1(1) fill_slots_taken [OF _ _ dl region_slots_set(2)] dl by fastforce
  from fill_slots_free [OF this, of "sl_node u"] t1(1) have t1': "length t1 = length t" "\<forall>k<length t. t1 ! k = (if holds_slot u k then sl_node u else t ! k)" by auto
  have "apart ss" using Cons(1) [OF t1(2)] Cons(3) t1'(1) by simp
  moreover have "\<not> holds_slot s k" if "s \<in> set ss" "holds_slot u k" for s k
  proof (rule fill_table_kept [OF t1(2) _ _ _ that(1)])
    show "\<forall>s\<in>set ss. unat (sl_end s) < length t1" using Cons(3) t1'(1) by simp
    show "k < length t1" using dl that(2) t1'(1) by simp
    then show "t1 ! k \<noteq> None" using t1' that(2) Cons(3) by simp
  qed
  ultimately show ?case by (auto simp: apart_Cons)
qed

lemma meet_sym: "meet s t \<longleftrightarrow> meet t s"
  by (auto simp: meet_def)

lemma apart_mset: "mset xs = mset ys \<Longrightarrow> apart xs \<Longrightarrow> apart ys"
proof (induction xs arbitrary: ys)
  case (Cons s xs)
  have "s \<in> set ys" using mset_eq_setD [OF Cons(2)] by auto
  then obtain l r where ys: "ys = l @ s # r" by (meson split_list)
  have m: "mset xs = mset (l @ r)" using Cons(2) by (simp add: ys)
  have "apart (l @ r)" using Cons(1) [OF m] Cons(3) by (simp add: apart_Cons)
  moreover have "\<forall>t\<in>set (l @ r). \<not> meet s t" using Cons(3) mset_eq_setD [OF m] by (simp add: apart_def)
  ultimately show ?case unfolding ys apart_def sorted_wrt_append by (auto simp: meet_sym)
qed (simp add: apart_def)

section \<open>The binary search\<close>

lemma regions_ordered:
  assumes "apart slots" "\<forall>s\<in>set slots. region_fits s" "sorted (map (\<lambda>s. unat (sl_start s)) slots)" "i < j" "j < length slots"
  shows "unat (sl_end (slots ! i)) < unat (sl_start (slots ! j))"
proof (rule ccontr)
  let ?s = "slots ! i" and ?t = "slots ! j"
  assume h: "\<not> unat (sl_end ?s) < unat (sl_start ?t)"
  have "unat (sl_start ?s) \<le> unat (sl_start ?t)" using assms(3-5) by (simp add: sorted_iff_nth_mono)
  moreover have "region_fits ?t" using assms(2,5) by simp
  then have "unat (sl_start ?t) \<le> unat (sl_end ?t)" by (simp add: region_fits_def word_le_nat_alt)
  ultimately have "meet ?s ?t" using h unfolding meet_def holds_slot_def by (intro exI [of _ "unat (sl_start ?t)"]) simp
  moreover have "\<not> meet ?s ?t" using assms(1,4,5) by (simp add: apart_def sorted_wrt_iff_nth_less)
  ultimately show False by simp
qed

declare slot_search.simps [simp del]

lemma search_finds:
  assumes ord: "apart slots" "\<forall>s\<in>set slots. region_fits s" "sorted (map (\<lambda>s. unat (sl_start s)) slots)"
    and c: "c < length slots" "holds_slot (slots ! c) (unat k)"
  shows "unat start \<le> c \<Longrightarrow> c \<le> unat end' \<Longrightarrow> unat end' < length slots \<Longrightarrow> unat end' - unat start < fuel \<Longrightarrow>
    slot_search slots k fuel start end' = Done (sl_node (slots ! c))"
proof (induction fuel arbitrary: start end')
  case (Suc fuel)
  define middle where "middle = (if start \<ge> end' then end' else start + (end' - start) div 2)"
  have "unat end' < 2 ^ LENGTH(32)" by (rule unsigned_less)
  then have bound: "unat end' < 2 ^ 32" by simp
  note step = slot_search.simps(2) [of slots k fuel start end', unfolded Let_def, folded middle_def]
  have le: "start \<le> end'" using Suc(2,3) by (simp add: word_le_nat_alt)
  have half: "unat ((end' - start) div 2) = (unat end' - unat start) div 2" using le by (simp add: unat_div unat_sub)
  have mid: "unat middle = unat start + (unat end' - unat start) div 2"
  proof (cases "start \<ge> end'")
    case True
    then show ?thesis using le by (simp add: middle_def)
  next
    case False
    have "unat start + (unat end' - unat start) div 2 \<le> unat end'" using le by (simp add: word_le_nat_alt)
    also have "\<dots> < 2 ^ 32" using bound by simp
    finally show ?thesis using False half by (simp add: middle_def unat_word_ariths)
  qed
  then have m: "unat middle < length slots" "unat start \<le> unat middle" "unat middle \<le> unat end'" using Suc(4) le by (auto simp: word_le_nat_alt)
  let ?s = "slots ! unat middle"
  have stop: "start \<ge> end' \<Longrightarrow> unat middle = c" using Suc(2,3) le mid by (simp add: word_le_nat_alt)
  have after: "c < unat middle" if "sl_start ?s > k"
  proof (rule ccontr)
    assume "\<not> c < unat middle"
    then have "unat (sl_start ?s) \<le> unat (sl_start (slots ! c))" using ord(3) c(1) by (simp add: sorted_iff_nth_mono)
    then show False using that c(2) by (simp add: holds_slot_def word_less_nat_alt)
  qed
  have before: "unat middle < c" if "sl_end ?s < k"
  proof (rule ccontr)
    assume h: "\<not> unat middle < c"
    have "unat middle \<noteq> c" using that c(2) by (auto simp: holds_slot_def word_less_nat_alt)
    then have "unat (sl_end (slots ! c)) < unat (sl_start ?s)" using h regions_ordered [OF ord, of c "unat middle"] m(1) by simp
    moreover have "region_fits ?s" using ord(2) m(1) by simp
    ultimately show False using that c(2) by (simp add: holds_slot_def word_less_nat_alt region_fits_def word_le_nat_alt)
  qed
  show ?case
  proof (cases "sl_start ?s > k")
    case True
    note a = after [OF True]
    then have ns: "\<not> start \<ge> end'" using stop by auto
    have "unat (middle - 1) = unat middle - 1" using a by (intro unat_minus_one) auto
    then have "slot_search slots k fuel start (middle - 1) = Done (sl_node (slots ! c))"
      using Suc(1) [of start "middle - 1"] Suc(2,5) a m by simp
    then show ?thesis using True ns m(1) by (simp add: step)
  next
    case F: False
    show ?thesis
    proof (cases "sl_end ?s < k")
      case True
      note b = before [OF True]
      then have ns: "\<not> start \<ge> end'" using stop by auto
      have "unat middle + 1 < 2 ^ 32" using b Suc(3) bound by simp
      then have "unat (middle + 1) = unat middle + 1" by (simp add: unat_word_ariths)
      then have "slot_search slots k fuel (middle + 1) end' = Done (sl_node (slots ! c))"
        using Suc(1) [of "middle + 1" end'] Suc(3-5) b m by simp
      then show ?thesis using True F ns m(1) by (simp add: step)
    next
      case False
      have "holds_slot ?s (unat k)" using F False by (simp add: holds_slot_def word_less_nat_alt not_less)
      have "unat middle = c"
      proof (rule ccontr)
        assume "unat middle \<noteq> c"
        then consider "unat middle < c" | "c < unat middle" by linarith
        then show False
        proof cases
          case 1
          then have "unat (sl_end ?s) < unat (sl_start (slots ! c))" using regions_ordered [OF ord 1 c(1)] by simp
          then show False using \<open>holds_slot ?s (unat k)\<close> c(2) by (simp add: holds_slot_def)
        next
          case 2
          then have "unat (sl_end (slots ! c)) < unat (sl_start ?s)" using regions_ordered [OF ord 2 m(1)] by simp
          then show False using \<open>holds_slot ?s (unat k)\<close> c(2) by (simp add: holds_slot_def)
        qed
      qed
      then show ?thesis using F False m(1) by (simp add: step)
    qed
  qed
qed simp

lemma search_result: "slot_search slots k fuel start end' = Done r \<Longrightarrow> r = None \<or> (\<exists>s\<in>set slots. holds_slot s (unat k) \<and> r = sl_node s)"
proof (induction fuel arbitrary: start end')
  case (Suc fuel)
  define middle where "middle = (if start \<ge> end' then end' else start + (end' - start) div 2)"
  note step = slot_search.simps(2) [of slots k fuel start end', unfolded Let_def, folded middle_def]
  show ?case
  proof (cases "length slots \<le> unat middle \<or> sl_start (slots ! unat middle) > k \<or> sl_end (slots ! unat middle) < k")
    case True
    then show ?thesis using Suc(1) [of start "middle - 1"] Suc(1) [of "middle + 1" end'] Suc(2) unfolding step by (auto split: if_splits)
  next
    case False
    then have "holds_slot (slots ! unat middle) (unat k)" "slots ! unat middle \<in> set slots"
      by (auto simp: holds_slot_def word_less_nat_alt not_less not_le)
    moreover have "r = sl_node (slots ! unat middle)" using False Suc(2) unfolding step by (auto split: if_splits)
    ultimately show ?thesis by blast
  qed
qed (simp add: slot_search.simps)

lemma search_past: "length slots < 2 ^ 31 \<Longrightarrow> slot_search slots k (Suc fuel) start (- 1) = Undefined"
proof -
  assume l: "length slots < 2 ^ 31"
  have "unat start < 2 ^ LENGTH(32)" by (rule unsigned_less)
  then have b: "unat start < 2 ^ 32" by simp
  have m1: "unat (- 1 :: 32 word) = 2 ^ 32 - 1" by (simp add: unsigned_minus_1_eq_mask mask_eq_exp_minus_1)
  define middle where "middle = (if start \<ge> - 1 then - 1 else start + (- 1 - start) div 2)"
  note step = slot_search.simps(2) [of slots k fuel start "- 1", unfolded Let_def, folded middle_def]
  have "2 ^ 31 - 1 \<le> unat middle"
  proof (cases "start \<ge> - 1")
    case False
    have "unat ((- 1 - start) div 2) = (2 ^ 32 - 1 - unat start) div 2" using m1 by (simp add: unat_div unat_sub)
    then have "unat middle = unat start + (2 ^ 32 - 1 - unat start) div 2" using False b by (simp add: middle_def unat_word_ariths)
    then show ?thesis using b by simp
  next
    case True
    then have "middle = - 1" by (simp only: middle_def if_True)
    then show ?thesis unfolding m1 by (simp only: m1) simp
  qed
  then show ?thesis using l unfolding step by simp
qed

lemma search_ends:
  assumes l: "length slots < 2 ^ 31"
  shows "end' = - 1 \<or> unat end' < length slots \<Longrightarrow> (if end' = - 1 then 1 else unat end' - unat start + 2) \<le> fuel \<Longrightarrow>
    slot_search slots k fuel start end' \<noteq> Blocked"
proof (induction fuel arbitrary: start end')
  case (Suc fuel)
  show ?case
  proof (cases "end' = - 1")
    case True
    then show ?thesis using search_past [OF l] by simp
  next
    case False
    then have e: "unat end' < length slots" "unat end' - unat start + 2 \<le> Suc fuel" using Suc(2,3) by simp_all
    define middle where "middle = (if start \<ge> end' then end' else start + (end' - start) div 2)"
    note step = slot_search.simps(2) [of slots k fuel start end', unfolded Let_def, folded middle_def]
    show ?thesis
    proof (cases "start \<ge> end'")
      case True
      then show ?thesis unfolding step by auto
    next
      case lt: False
      then have lt': "unat start < unat end'" by (simp add: word_le_nat_alt)
      have "unat ((end' - start) div 2) = (unat end' - unat start) div 2" using lt by (simp add: unat_div unat_sub)
      then have m: "unat middle = unat start + (unat end' - unat start) div 2" using lt lt' e(1) l by (simp add: middle_def unat_word_ariths)
      have up: "slot_search slots k fuel (middle + 1) end' \<noteq> Blocked"
      proof (rule Suc(1))
        have "unat (middle + 1) = unat middle + 1" using m lt' e(1) l by (simp add: unat_word_ariths)
        then show "(if end' = - 1 then 1 else unat end' - unat (middle + 1) + 2) \<le> fuel" using e(2) m lt' by auto
      qed (use e in simp)
      have down: "slot_search slots k fuel start (middle - 1) \<noteq> Blocked"
      proof (cases "middle = 0")
        case True
        then show ?thesis using search_past [OF l, of k "fuel - 1" start] e(2) lt' by (cases fuel) simp_all
      next
        case False
        then have "unat (middle - 1) = unat middle - 1" by (rule unat_minus_one)
        moreover have "unat start \<le> unat middle" "unat middle < unat end'" using m lt' by simp_all
        ultimately show ?thesis using e lt' by (intro Suc(1)) auto
      qed
      show ?thesis using up down unfolding step by auto
    qed
  qed
qed (auto split: if_splits)

section \<open>Installing a route\<close>

definition slots_of :: "'c cluster_node \<Rightarrow> region list" where
  "slots_of nd = (case nd_slots nd of None \<Rightarrow> [] | Some l \<Rightarrow> l)"

definition regions_of :: "'c cluster \<Rightarrow> nat list \<Rightarrow> region list" where
  "regions_of cc ms = concat (map (\<lambda>m. slots_of (cc_heap cc ! m)) ms)"

lemma collect_ok:
  "\<forall>m\<in>set ms. nd_role (cc_heap cc ! m) = REDIS_ROLE_MASTER \<and> (\<forall>s\<in>set (slots_of (cc_heap cc ! m)). region_fits s) \<Longrightarrow>
   collect_slots cc ms lit acc = Done (Inr (acc @ regions_of cc ms))"
proof (induction ms arbitrary: lit acc)
  case (Cons m ms)
  then show ?case
    by (cases "nd_slots (cc_heap cc ! m)") (auto simp: regions_of_def slots_of_def region_fits_def list_all_iff)
qed (simp add: regions_of_def)

lemma collect_done:
  "collect_slots cc ms lit acc = Done (Inr ss) \<Longrightarrow>
   ss = acc @ regions_of cc ms \<and> (\<forall>s\<in>set (regions_of cc ms). region_fits s)"
proof (induction ms arbitrary: lit acc)
  case (Cons m ms)
  then show ?case
    by (cases "nd_slots (cc_heap cc ! m)")
      (fastforce simp: regions_of_def slots_of_def region_fits_def list_all_iff Let_def split: if_splits)+
qed (simp add: regions_of_def)

text \<open>Swapping connections leaves everything but the connections alone.\<close>

definition sans_con :: "'c cluster_node list \<Rightarrow> 'c cluster_node list" where
  "sans_con h = map (\<lambda>nd. nd\<lparr>nd_con := None\<rparr>) h"

lemma sans_con_update: "(\<And>nd. (f nd)\<lparr>nd_con := None\<rparr> = nd\<lparr>nd_con := None\<rparr>) \<Longrightarrow> sans_con (h[n := f (h ! n)]) = sans_con h"
  by (cases "n < length h") (simp_all add: sans_con_def map_update list_update_same_conv list_update_beyond)

lemma swap_ctx_only: "\<exists>h. swap_ctx d ts cc = cc\<lparr>cc_heap := h\<rparr> \<and> sans_con h = sans_con (cc_heap cc)"
proof (induction ts arbitrary: cc)
  case Nil
  show ?case by (intro exI [of _ "cc_heap cc"]) simp
next
  case (Cons t ts)
  show ?case
  proof (cases "dictFind d (nd_addr (cc_heap cc ! t))")
    case None
    then show ?thesis using Cons by simp
  next
    case (Some e)
    obtain a f where e: "e = (a, f)" by (cases e)
    show ?thesis
    proof (cases "nd_con (cc_heap cc ! f)")
      case None
      then show ?thesis using Cons Some e by simp
    next
      case (Some c)
      let ?cc = "node_update t (\<lambda>nd. nd\<lparr>nd_con := Some c\<rparr>) (node_update f (\<lambda>nd. nd\<lparr>nd_con := nd_con (cc_heap cc ! t)\<rparr>) cc)"
      obtain h where "swap_ctx d ts ?cc = ?cc\<lparr>cc_heap := h\<rparr>" "sans_con h = sans_con (cc_heap ?cc)" using Cons by blast
      moreover have "sans_con (cc_heap ?cc) = sans_con (cc_heap cc)" by (simp add: node_update_def sans_con_update)
      ultimately show ?thesis using Some e \<open>dictFind d _ = Some e\<close> by (intro exI [of _ h]) (simp add: Let_def node_update_def)
    qed
  qed
qed

lemma cluster_swap_only: "\<exists>h. cluster_nodes_swap_ctx f t cc = cc\<lparr>cc_heap := h\<rparr> \<and> sans_con h = sans_con (cc_heap cc)"
proof (cases f)
  case None
  then show ?thesis by (intro exI [of _ "cc_heap cc"]) (simp add: cluster_nodes_swap_ctx_def)
next
  case (Some d)
  then show ?thesis using swap_ctx_only [of d "map snd (dict_entries t)" cc] by (simp add: cluster_nodes_swap_ctx_def)
qed

lemma sans_con_nth: "sans_con h = sans_con h' \<Longrightarrow> n < length h' \<Longrightarrow> n < length h \<and> (h ! n)\<lparr>nd_con := None\<rparr> = (h' ! n)\<lparr>nd_con := None\<rparr>"
  unfolding sans_con_def by (metis length_map nth_map)

lemma start_after: 
  assumes "apart slots" "\<forall>s\<in>set slots. region_fits s" "sorted (map (\<lambda>s. unat (sl_start s)) slots)" "i < length slots"
  shows "i \<le> unat (sl_start (slots ! i))"
  using assms(4)
proof (induction i)
  case (Suc i)
  have "unat (sl_end (slots ! i)) < unat (sl_start (slots ! Suc i))" using regions_ordered [OF assms(1-3), of i "Suc i"] Suc(2) by simp
  moreover have "region_fits (slots ! i)" using assms(2) Suc(2) by simp
  then have "unat (sl_start (slots ! i)) \<le> unat (sl_end (slots ! i))" by (simp add: region_fits_def word_le_nat_alt)
  ultimately show ?case using Suc by simp
qed simp

lemma few_regions:
  assumes "apart slots" "\<forall>s\<in>set slots. region_fits s" "sorted (map (\<lambda>s. unat (sl_start s)) slots)"
  shows "length slots \<le> REDIS_CLUSTER_SLOTS"
proof (cases slots rule: rev_cases)
  case (snoc xs s)
  have "length xs \<le> unat (sl_start s)" using start_after [OF assms, of "length xs"] snoc by simp
  moreover have "region_fits s" using assms(2) snoc by simp
  ultimately show ?thesis using snoc by (simp add: region_fits_def word_le_nat_alt)
qed simp

lemma install_cases:
  assumes ms: "ms = map snd (dict_entries nodes)"
    and ok: "\<forall>m\<in>set ms. nd_role (cc_heap cc ! m) = REDIS_ROLE_MASTER \<and> (\<forall>s\<in>set (slots_of (cc_heap cc ! m)). region_fits s \<and> sl_node s = Some m)"
  shows "\<not> apart (regions_of cc ms) \<Longrightarrow> install_route cc nodes = Undefined"
    "apart (regions_of cc ms) \<Longrightarrow> \<exists>t h. install_route cc nodes = Done (Inr (cc\<lparr>cc_heap := h, cc_nodes := Some nodes,
         cc_slots := Some (sort_key (\<lambda>s. unat (sl_start s)) (regions_of cc ms)), cc_table := t, cc_route_version := cc_route_version cc + 1\<rparr>))
       \<and> sans_con h = sans_con (cc_heap cc) \<and> table_of (regions_of cc ms) (replicate REDIS_CLUSTER_SLOTS None) t"
proof -
  let ?rs = "regions_of cc ms"
  let ?ss = "sort_key (\<lambda>s. unat (sl_start s)) ?rs"
  have col: "collect_slots cc (map snd (dict_entries nodes)) False [] = Done (Inr ?rs)"
    using collect_ok [of ms cc False "[]"] ok ms by auto
  have rs: "\<forall>s\<in>set ?ss. region_fits s \<and> sl_node s \<noteq> None" using ok by (auto simp: regions_of_def)
  then have fit: "\<forall>s\<in>set ?ss. unat (sl_end s) < length (replicate REDIS_CLUSTER_SLOTS None)" by (simp add: region_fits_def)
  have perm: "apart ?ss \<longleftrightarrow> apart ?rs" using apart_mset [of ?ss ?rs] apart_mset [of ?rs ?ss] by auto
  show "install_route cc nodes = Undefined" if "\<not> apart ?rs"
  proof -
    have "fill_table ?ss (replicate REDIS_CLUSTER_SLOTS None) = None"
    proof (rule ccontr)
      assume "fill_table ?ss (replicate REDIS_CLUSTER_SLOTS None) \<noteq> None"
      then obtain t where "fill_table ?ss (replicate REDIS_CLUSTER_SLOTS None) = Some t" by blast
      from fill_table_apart [OF this] fit rs show False using that perm by blast
    qed
    then show ?thesis using col by (simp add: install_route_def Let_def)
  qed
  show "\<exists>t h. install_route cc nodes = Done (Inr (cc\<lparr>cc_heap := h, cc_nodes := Some nodes,
         cc_slots := Some ?ss, cc_table := t, cc_route_version := cc_route_version cc + 1\<rparr>))
       \<and> sans_con h = sans_con (cc_heap cc) \<and> table_of ?rs (replicate REDIS_CLUSTER_SLOTS None) t" if ap: "apart ?rs"
  proof -
    have "\<forall>s\<in>set ?ss. \<forall>k. holds_slot s k \<longrightarrow> replicate REDIS_CLUSTER_SLOTS None ! k = None"
      using fit by (auto simp: holds_slot_def)
    then obtain t where t: "fill_table ?ss (replicate REDIS_CLUSTER_SLOTS None) = Some t" "table_of ?ss (replicate REDIS_CLUSTER_SLOTS None) t"
      using fill_table_ok [OF _ fit] ap perm by blast
    obtain h where h: "cluster_nodes_swap_ctx (cc_nodes cc) nodes cc = cc\<lparr>cc_heap := h\<rparr>" "sans_con h = sans_con (cc_heap cc)"
      using cluster_swap_only by blast
    have "table_of ?rs (replicate REDIS_CLUSTER_SLOTS None) t" using t(2) by (simp add: table_of_def)
    then show ?thesis using col t(1) h by (intro exI [of _ t] exI [of _ h]) (simp add: install_route_def Let_def)
  qed
qed

lemma installed_lookup:
  assumes s: "cc_slots cc = Some ss" "cc_table cc = t" "table_of ss (replicate REDIS_CLUSTER_SLOTS None) t"
    and ord: "apart ss" "\<forall>s\<in>set ss. region_fits s" "sorted (map (\<lambda>s. unat (sl_start s)) ss)" and own: "\<forall>s\<in>set ss. sl_node s \<noteq> None"
  shows "case node_get_by_table cc k of Some n \<Rightarrow> node_get_by_slot cc k = Done (Some n)
     | None \<Rightarrow> node_get_by_slot cc k = Done None \<or> node_get_by_slot cc k = Undefined"
proof (cases "unat k \<ge> REDIS_CLUSTER_SLOTS")
  case True
  then show ?thesis by (simp add: node_get_by_table_def node_get_by_slot_def)
next
  case k: False
  have few: "length ss \<le> REDIS_CLUSTER_SLOTS" by (rule few_regions [OF ord])
  then have l: "length ss < 2 ^ 31" by (simp add: REDIS_CLUSTER_SLOTS_def)
  have n: "node_get_by_slot cc k = slot_search ss k (length ss + 2) 0 (of_nat (length ss) - 1)" using k s(1) by (simp add: node_get_by_slot_def)
  have tk: "\<forall>s\<in>set ss. holds_slot s (unat k) \<longrightarrow> t ! unat k = sl_node s" "(\<forall>s\<in>set ss. \<not> holds_slot s (unat k)) \<longrightarrow> t ! unat k = None"
    using s(3) k by (auto simp: table_of_def)
  have last: "unat (of_nat (length ss) - 1 :: 32 word) = length ss - 1" if "ss \<noteq> []"
  proof -
    have u: "unat (of_nat (length ss) :: 32 word) = length ss" using l by (simp add: unsigned_of_nat take_bit_nat_eq_self)
    then have "(of_nat (length ss) :: 32 word) \<noteq> 0" using that by (metis length_0_conv unsigned_0)
    then show ?thesis using u unat_minus_one by metis
  qed
  show ?thesis
  proof (cases "\<exists>s\<in>set ss. holds_slot s (unat k)")
    case True
    then obtain c where c: "c < length ss" "holds_slot (ss ! c) (unat k)" by (metis in_set_conv_nth)
    then have "ss \<noteq> []" by auto
    have "slot_search ss k (length ss + 2) 0 (of_nat (length ss) - 1) = Done (sl_node (ss ! c))"
      using c last [OF \<open>ss \<noteq> []\<close>] by (intro search_finds [OF ord c]) simp_all
    moreover have "t ! unat k = sl_node (ss ! c)" "sl_node (ss ! c) \<noteq> None" using tk(1) c own by simp_all
    ultimately show ?thesis using k s(2) n by (auto simp: node_get_by_table_def)
  next
    case False
    let ?r = "slot_search ss k (length ss + 2) 0 (of_nat (length ss) - 1)"
    have "?r \<noteq> Blocked"
    proof (rule search_ends [OF l])
      show "of_nat (length ss) - 1 = (- 1 :: 32 word) \<or> unat (of_nat (length ss) - 1 :: 32 word) < length ss"
        using last by (cases "ss = []") auto
      show "(if of_nat (length ss) - 1 = (- 1 :: 32 word) then 1 else unat (of_nat (length ss) - 1 :: 32 word) - unat 0 + 2) \<le> length ss + 2"
        using last by (cases "ss = []") auto
    qed
    moreover have "r = None" if "?r = Done r" for r using search_result [OF that] False by blast
    ultimately have "?r = Done None \<or> ?r = Undefined" by (cases ?r) auto
    moreover have "node_get_by_table cc k = None" using k s(2) tk(2) False by (simp add: node_get_by_table_def)
    ultimately show ?thesis using n by simp
  qed
qed

end
