(* ===== verification/SlotsAnswer.thy ===== *)
theory SlotsAnswer
  imports RouteSpec
begin

text \<open>
  The answer to CLUSTER SLOTS as the server sends it, and the route table the client makes of it:
  every slot of a range leads to a node with the host and the port of the range's master, every
  other slot to none, and ranges that share a slot are answered by releasing memory twice.
\<close>

section \<open>The answer\<close>

record node_info =
  ni_host :: bytes
  ni_port :: int
  ni_id :: bytes

record slot_range =
  rg_start :: int
  rg_end :: int
  rg_master :: node_info
  rg_replicas :: "node_info list"

definition node_reply :: "node_info \<Rightarrow> reply" where
  "node_reply i = R_array [R_bulk (ni_host i), R_int (ni_port i), R_bulk (ni_id i)]"

definition range_reply :: "slot_range \<Rightarrow> reply" where
  "range_reply r = R_array (R_int (rg_start r) # R_int (rg_end r) # node_reply (rg_master r) # map node_reply (rg_replicas r))"

definition slots_reply :: "slot_range list \<Rightarrow> reply" where
  "slots_reply rs = R_array (map range_reply rs)"

definition range_ok :: "slot_range \<Rightarrow> bool" where
  "range_ok r \<longleftrightarrow> 0 \<le> rg_start r \<and> rg_start r \<le> rg_end r \<and> rg_end r < 16384
     \<and> ni_host (rg_master r) \<noteq> [] \<and> 1 \<le> ni_port (rg_master r) \<and> ni_port (rg_master r) \<le> 65535"

definition range_has :: "slot_range \<Rightarrow> int \<Rightarrow> bool" where
  "range_has r k \<longleftrightarrow> rg_start r \<le> k \<and> k \<le> rg_end r"

definition ranges_apart :: "slot_range list \<Rightarrow> bool" where
  "ranges_apart rs \<longleftrightarrow> sorted_wrt (\<lambda>r q. \<forall>k. \<not> (range_has r k \<and> range_has q k)) rs"

definition address :: "node_info \<Rightarrow> bytes" where
  "address i = ni_host i @ '':'' @ dec_int (ni_port i)"

definition region_in :: "nat \<Rightarrow> slot_range \<Rightarrow> region" where
  "region_in m r = \<lparr>sl_start = word_of_int (rg_start r), sl_end = word_of_int (rg_end r), sl_node = Some m\<rparr>"

lemma int32_small: "0 \<le> n \<Longrightarrow> n < 2 ^ 31 \<Longrightarrow> int32 n = n"
  by (simp add: int32_def signed_of_int signed_take_bit_int_eq_self)

lemma unat_small: "0 \<le> n \<Longrightarrow> n < 2 ^ 32 \<Longrightarrow> unat (word_of_int n :: 32 word) = nat n"
  by (simp add: unsigned_of_int take_bit_int_eq_self)

lemma region_in_ok:
  assumes "range_ok r"
  shows "region_fits (region_in m r)" "holds_slot (region_in m r) k \<longleftrightarrow> range_has r (int k)"
proof -
  have r: "0 \<le> rg_start r" "rg_start r \<le> rg_end r" "rg_end r < 16384" using assms by (simp_all add: range_ok_def)
  then have u: "unat (sl_start (region_in m r)) = nat (rg_start r)" "unat (sl_end (region_in m r)) = nat (rg_end r)"
    by (simp_all add: region_in_def unat_small)
  show "region_fits (region_in m r)" using r u by (auto simp: region_fits_def word_le_nat_alt REDIS_CLUSTER_SLOTS_def nat_less_iff)
  show "holds_slot (region_in m r) k \<longleftrightarrow> range_has r (int k)" using r u by (auto simp: holds_slot_def range_has_def)
qed

lemma elements_array: "rs \<noteq> [] \<Longrightarrow> elements_of (tree_of (R_array rs)) = Some (map (\<lambda>r. Some (tree_of r)) rs)"
  by (simp add: elements_of_def)

lemma reply_text_bulk: "reply_text (tree_of (R_bulk t)) = t"
  by (simp add: reply_text_def)

lemma reply_text_tree [simp]: "reply_text (RTree ty i (int (length t)) (Some (t @ [NUL])) e es) = t"
  by (simp add: reply_text_def)

lemma node_address_reply: "1 \<le> p \<Longrightarrow> p \<le> 65535 \<Longrightarrow> node_address (tree_of (R_bulk h)) (tree_of (R_int p)) = h @ '':'' @ dec_int p"
  by (simp add: node_address_def reply_text_bulk [simplified] int32_small)

section \<open>Parsing\<close>

text \<open>What the nodes are after the ranges \<open>rs\<close>, on top of the nodes that were there before.\<close>

definition node_for :: "nat \<Rightarrow> slot_range list \<Rightarrow> slot_range \<Rightarrow> 'c cluster_node \<Rightarrow> bool" where
  "node_for m rs r nd \<longleftrightarrow> nd_role nd = REDIS_ROLE_MASTER \<and> nd_addr nd = address (rg_master r)
     \<and> nd_host nd = Some (ni_host (rg_master r)) \<and> nd_port nd = ni_port (rg_master r)
     \<and> nd_slots nd = Some (map (region_in m) (filter (\<lambda>q. address (rg_master q) = address (rg_master r)) rs))"

definition route_read :: "'c cluster \<Rightarrow> slot_range list \<Rightarrow> 'c cluster \<Rightarrow> node_dict \<Rightarrow> bool" where
  "route_read cc0 rs cc nodes \<longleftrightarrow>
     (\<exists>h. cc = cc0\<lparr>cc_heap := h\<rparr>) \<and> dict_inv nodes \<and> dt_used nodes \<le> length rs
     \<and> (\<forall>r\<in>set rs. dict_map nodes (address (rg_master r)) \<noteq> None)
     \<and> (\<forall>a m. dict_map nodes a = Some m \<longrightarrow> m < length (cc_heap cc)
          \<and> (\<exists>r\<in>set rs. a = address (rg_master r) \<and> node_for m rs r (cc_heap cc ! m)))"

lemma good_nodes_type: "good_type clusterNodesDictType"
proof -
  have "length a = length b \<Longrightarrow> memcmp a b = 0 \<longleftrightarrow> a = b" for a b using memcmp_lexord [of a b] by simp
  then show ?thesis by (auto simp: good_type_def clusterNodesDictType_def dictSdsKeyCompare_def)
qed

lemma route_read_start: "route_read cc [] cc (dictCreate clusterNodesDictType)"
proof -
  have "cc = cc\<lparr>cc_heap := cc_heap cc\<rparr>" by simp
  then have "\<exists>h. cc = cc\<lparr>cc_heap := h\<rparr>" by (rule exI)
  moreover have "dt_used (dictCreate clusterNodesDictType :: node_dict) = 0" by (simp add: dictCreate_def)
  moreover have "dict_inv (dictCreate clusterNodesDictType :: node_dict) \<and> dict_map (dictCreate clusterNodesDictType :: node_dict) = Map.empty"
    by (rule dictCreate_inv [OF good_nodes_type])
  ultimately show ?thesis by (simp add: route_read_def)
qed

lemma replicas_skipped:
  "cc_flags cc AND HIRCLUSTER_FLAG_ADD_SLAVE = 0 \<Longrightarrow>
   region_nodes mem cc nodes slot (Some m) (map (\<lambda>i. Some (tree_of (node_reply i))) is) = Done (Inr (cc, nodes))"
  by (induction "is") (simp_all add: node_reply_def elements_of_def reply_types)

lemma after_colon:
  assumes "a @ CHR '':'' # x = b @ CHR '':'' # y" "CHR '':'' \<notin> set x" "CHR '':'' \<notin> set y"
  shows "a = b \<and> x = y"
proof -
  have "rev x @ CHR '':'' # rev a = rev y @ CHR '':'' # rev b" using arg_cong [OF assms(1), of rev] by simp
  moreover have "takeWhile (\<lambda>c. c \<noteq> CHR '':'') (rev z @ CHR '':'' # w) = rev z" if "CHR '':'' \<notin> set z" for z w
    using that by (subst takeWhile_append2) auto
  ultimately have "rev x = rev y" using assms(2,3) by metis
  then show ?thesis using assms(1) by simp
qed

lemma address_inj:
  assumes "address i = address j" "1 \<le> ni_port i" "1 \<le> ni_port j"
  shows "ni_host i = ni_host j" "ni_port i = ni_port j"
proof -
  have no: "CHR '':'' \<notin> set (dec n)" for n using dec_digits [of "CHR '':''" n] by (auto simp: isdigit_def)
  have d: "dec_int (ni_port i) = dec (nat (ni_port i))" "dec_int (ni_port j) = dec (nat (ni_port j))"
    using assms(2,3) by (simp_all add: dec_int_def)
  have "ni_host i @ CHR '':'' # dec (nat (ni_port i)) = ni_host j @ CHR '':'' # dec (nat (ni_port j))"
    using assms(1) by (simp add: address_def d)
  from after_colon [OF this no no] have e: "ni_host i = ni_host j" "dec (nat (ni_port i)) = dec (nat (ni_port j))" by simp_all
  show "ni_host i = ni_host j" by (rule e(1))
  show "ni_port i = ni_port j" using dec_inj [OF e(2)] assms(2,3) by simp
qed

lemma route_readD:
  "route_read cc0 rs cc nodes \<Longrightarrow> dict_map nodes a = Some m \<Longrightarrow>
   m < length (cc_heap cc) \<and> (\<exists>r\<in>set rs. a = address (rg_master r) \<and> node_for m rs r (cc_heap cc ! m))"
  by (simp add: route_read_def)

text \<open>A region is entered with a node.\<close>

lemma ref_node_ok:
  assumes "ample mem" "nd_role (cc_heap cc ! m) = REDIS_ROLE_MASTER" "nd_slots (cc_heap cc ! m) = Some l"
  shows "cluster_slot_ref_node mem s m cc
    = Some (cc\<lparr>cc_heap := (cc_heap cc)[m := (cc_heap cc ! m)\<lparr>nd_slots := Some (l @ [s\<lparr>sl_node := Some m\<rparr>])\<rparr>]\<rparr>)"
  using assms by (simp add: cluster_slot_ref_node_def node_update_def Let_def)

lemma route_read_known:
  assumes p: "route_read cc0 rs cc nodes" and m: "dict_map nodes (address (rg_master r)) = Some m"
    and l: "nd_slots (cc_heap cc ! m) = Some l"
  shows "route_read cc0 (rs @ [r]) (cc\<lparr>cc_heap := (cc_heap cc)[m := (cc_heap cc ! m)\<lparr>nd_slots := Some (l @ [region_in m r])\<rparr>]\<rparr>) nodes"
proof -
  let ?cc = "cc\<lparr>cc_heap := (cc_heap cc)[m := (cc_heap cc ! m)\<lparr>nd_slots := Some (l @ [region_in m r])\<rparr>]\<rparr>"
  have mem: "m < length (cc_heap cc)" using p m by (auto simp: route_read_def)
  have nodes: "n < length (cc_heap ?cc) \<and> (\<exists>q\<in>set (rs @ [r]). a = address (rg_master q) \<and> node_for n (rs @ [r]) q (cc_heap ?cc ! n))"
    if a: "dict_map nodes a = Some n" for a n
  proof -
    obtain q where q: "n < length (cc_heap cc)" "q \<in> set rs" "a = address (rg_master q)" "node_for n rs q (cc_heap cc ! n)"
      using route_readD [OF p a] by blast
    have same: "n = m \<longleftrightarrow> a = address (rg_master r)"
    proof
      assume "n = m"
      obtain q' where "address (rg_master r) = address (rg_master q')" "node_for m rs q' (cc_heap cc ! m)" using route_readD [OF p m] by blast
      then show "a = address (rg_master r)" using q \<open>n = m\<close> by (simp add: node_for_def)
    next
      assume "a = address (rg_master r)"
      then show "n = m" using a m by simp
    qed
    have "node_for n (rs @ [r]) q (cc_heap ?cc ! n)"
      using q l same mem by (cases "n = m") (auto simp: node_for_def nth_list_update)
    then show ?thesis using q by auto
  qed
  have "\<exists>h. ?cc = cc0\<lparr>cc_heap := h\<rparr>" using p by (auto simp: route_read_def)
  then show ?thesis using p m nodes unfolding route_read_def by auto
qed

lemma route_read_new:
  assumes p: "route_read cc0 rs cc nodes" and a: "dict_map nodes (address (rg_master r)) = None" "dict_inv nodes'"
    "dict_map nodes' = (dict_map nodes)(address (rg_master r) \<mapsto> length (cc_heap cc))" "dt_used nodes' = dt_used nodes + 1"
    and nd: "node_for (length (cc_heap cc)) [r] r nd"
  shows "route_read cc0 (rs @ [r]) (cc\<lparr>cc_heap := cc_heap cc @ [nd]\<rparr>) nodes'"
proof -
  have none: "filter (\<lambda>q. address (rg_master q) = address (rg_master r)) rs = []"
    using p a(1) by (auto simp: route_read_def filter_empty_conv)
  have "node_for (length (cc_heap cc)) (rs @ [r]) r nd" using nd none by (simp add: node_for_def)
  moreover have keep: "node_for n (rs @ [r]) q x" if "node_for n rs q x" "q \<in> set rs" for n q and x :: "'c cluster_node"
    using that none by (auto simp: node_for_def filter_empty_conv)
  let ?cc = "cc\<lparr>cc_heap := cc_heap cc @ [nd]\<rparr>"
  have nodes: "n < length (cc_heap ?cc) \<and> (\<exists>q\<in>set (rs @ [r]). b = address (rg_master q) \<and> node_for n (rs @ [r]) q (cc_heap ?cc ! n))"
    if b: "dict_map nodes' b = Some n" for b n
  proof (cases "b = address (rg_master r)")
    case True
    then have "n = length (cc_heap cc)" using b a(3) by simp
    then show ?thesis using \<open>node_for _ (rs @ [r]) r nd\<close> True by (intro conjI bexI [of _ r]) simp_all
  next
    case False
    then have "dict_map nodes b = Some n" using b a(3) by simp
    then obtain q where q: "n < length (cc_heap cc)" "q \<in> set rs" "b = address (rg_master q)" "node_for n rs q (cc_heap cc ! n)"
      using route_readD [OF p] by blast
    then show ?thesis using keep [OF q(4,2)] by (intro conjI bexI [of _ q]) (simp_all add: nth_append)
  qed
  have "\<exists>h. ?cc = cc0\<lparr>cc_heap := h\<rparr>" using p by (auto simp: route_read_def)
  then show ?thesis using p a(2-4) nodes unfolding route_read_def by auto
qed

lemma node_tree:
  "rt_type (tree_of (node_reply i)) = REDIS_REPLY_ARRAY" "rt_elements (tree_of (node_reply i)) = 3"
  "elements_of (tree_of (node_reply i)) = Some [Some (tree_of (R_bulk (ni_host i))), Some (tree_of (R_int (ni_port i))), Some (tree_of (R_bulk (ni_id i)))]"
  by (simp_all add: node_reply_def elements_of_def)

lemma parse_range:
  assumes p: "route_read cc0 rs cc nodes" and r: "range_ok r" and few: "length rs < 2 ^ 30" and mem: "ample mem"
    and flag: "cc_flags cc0 AND HIRCLUSTER_FLAG_ADD_SLAVE = 0"
  obtains cc' nodes' where "parse_region mem cc nodes (tree_of (range_reply r)) = Done (Inr (cc', nodes'))" "route_read cc0 (rs @ [r]) cc' nodes'"
proof -
  let ?ip = "tree_of (R_bulk (ni_host (rg_master r)))" and ?port = "tree_of (R_int (ni_port (rg_master r)))"
    and ?slot = "\<lparr>sl_start = word_of_int (rg_start r), sl_end = word_of_int (rg_end r), sl_node = None\<rparr>"
    and ?is = "map (\<lambda>i. Some (tree_of (node_reply i))) (rg_replicas r)" and ?a = "address (rg_master r)"
  have b: "ni_host (rg_master r) \<noteq> []" "1 \<le> ni_port (rg_master r)" "ni_port (rg_master r) \<le> 65535" using r by (simp_all add: range_ok_def)
  have fl: "cc_flags cc AND HIRCLUSTER_FLAG_ADD_SLAVE = 0" using p flag by (auto simp: route_read_def)
  have i: "dict_inv nodes" "dt_used nodes < 2 ^ 30" using p few by (auto simp: route_read_def)
  have ad: "node_address ?ip ?port = ?a" unfolding address_def by (rule node_address_reply [OF b(2,3)])
  have "region_fits (region_in 0 r)" by (rule region_in_ok [OF r])
  then have ordered: "\<not> sl_start ?slot > sl_end ?slot" by (simp add: region_fits_def region_in_def not_less)
  have there: "(mem n = None) = False" for n using mem by (simp add: ample_def)
  have "parse_region mem cc nodes (tree_of (range_reply r))
      = region_nodes mem cc nodes ?slot None (Some (tree_of (node_reply (rg_master r))) # ?is)"
    using ordered unfolding parse_region_def range_reply_def elements_array [OF list.distinct(2)]
    by (simp add: reply_types Let_def comp_def there del: region_nodes.simps)
  also have "\<dots> = or_fail (region_master mem cc nodes ?slot ?ip ?port) (\<lambda>(cc, nodes, m, known).
        if known then Done (Inr (cc, nodes)) else region_nodes mem cc nodes ?slot (Some m) ?is)"
    by (simp add: node_tree reply_types)
  finally have pr: "parse_region mem cc nodes (tree_of (range_reply r)) = \<dots>" .
  have rg: "?slot\<lparr>sl_node := Some m\<rparr> = region_in m r" for m by (simp add: region_in_def)
  show thesis
  proof (cases "dict_map nodes ?a")
    case (Some m)
    obtain q where q: "node_for m rs q (cc_heap cc ! m)" using route_readD [OF p Some] by blast
    then obtain l where l: "nd_role (cc_heap cc ! m) = REDIS_ROLE_MASTER" "nd_slots (cc_heap cc ! m) = Some l" by (auto simp: node_for_def)
    have "dictFind nodes ?a = Some (?a, m)" using nodes.find_abs [OF i(1)] Some by simp
    then have "region_master mem cc nodes ?slot ?ip ?port
        = Done (Inr (cc\<lparr>cc_heap := (cc_heap cc)[m := (cc_heap cc ! m)\<lparr>nd_slots := Some (l @ [region_in m r])\<rparr>]\<rparr>, nodes, m, True))"
      unfolding region_master_def ad using ref_node_ok [OF mem l, of ?slot, unfolded rg] by simp
    then show thesis using that [OF _ route_read_known [OF p Some l(2)]] pr by simp
  next
    case None
    let ?m = "length (cc_heap cc)"
    let ?fresh = "(new_node REDIS_ROLE_MASTER)\<lparr>nd_addr := ?a, nd_host := Some (ni_host (rg_master r)), nd_port := ni_port (rg_master r)\<rparr> :: 'a cluster_node"
    let ?nd = "?fresh\<lparr>nd_slots := Some [region_in ?m r]\<rparr>"
    let ?started = "cc\<lparr>cc_heap := cc_heap cc @ [?fresh]\<rparr>" and ?cc = "cc\<lparr>cc_heap := cc_heap cc @ [?nd]\<rparr>"
    have "int32 (ni_port (rg_master r)) = ni_port (rg_master r)" using b by (intro int32_small) simp_all
    then have gn: "node_get_with_slots mem cc ?ip ?port REDIS_ROLE_MASTER = Done (Inr (?started, ?m))"
      using b ad unfolding node_get_with_slots_def
      by (simp add: reply_types there hi_valid_port_def reply_text_bulk [simplified])
    obtain nodes' where add: "dictAdd nodes ?a ?m = Some (DICT_OK, nodes')" "dict_inv nodes'"
      "dict_map nodes' = (dict_map nodes)(?a \<mapsto> ?m)" "dt_used nodes' = dt_used nodes + 1"
      using nodes.add_abs [OF i, of ?a ?m] None by auto
    have "nd_role (cc_heap ?started ! ?m) = REDIS_ROLE_MASTER" "nd_slots (cc_heap ?started ! ?m) = Some []" by (simp_all add: new_node_def)
    note ref = ref_node_ok [OF mem this, of ?slot]
    have "dictFind nodes ?a = None" using nodes.find_abs [OF i(1)] None by simp
    then have "region_master mem cc nodes ?slot ?ip ?port = Done (Inr (?cc, nodes', ?m, False))"
      unfolding region_master_def ad using gn add(1) ref [unfolded rg] by simp
    then have "parse_region mem cc nodes (tree_of (range_reply r)) = Done (Inr (?cc, nodes'))"
      using pr replicas_skipped [of ?cc] fl by simp
    moreover have "node_for ?m [r] r ?nd" by (simp add: node_for_def new_node_def)
    ultimately show thesis using that route_read_new [OF p None add(2-4), of ?nd] by blast
  qed
qed

lemma parse_ranges:
  assumes mem: "ample mem" and flag: "cc_flags cc0 AND HIRCLUSTER_FLAG_ADD_SLAVE = 0"
  shows "route_read cc0 done' cc nodes \<Longrightarrow> \<forall>r\<in>set rs. range_ok r \<Longrightarrow> length done' + length rs \<le> 2 ^ 30 \<Longrightarrow>
    \<exists>cc' nodes'. parse_regions mem cc nodes (map (\<lambda>r. Some (tree_of (range_reply r))) rs) = Done (Inr (cc', nodes')) \<and> route_read cc0 (done' @ rs) cc' nodes'"
proof (induction rs arbitrary: done' cc nodes)
  case (Cons r rs)
  have "range_ok r" "length done' < 2 ^ 30" using Cons(3,4) by simp_all
  from parse_range [OF Cons(2) this mem flag] obtain cc1 nodes1
    where s: "parse_region mem cc nodes (tree_of (range_reply r)) = Done (Inr (cc1, nodes1))" "route_read cc0 (done' @ [r]) cc1 nodes1" .
  then show ?case using Cons(1) [OF s(2)] Cons(3,4) by simp
qed simp

lemma parse_answer:
  assumes "ample mem" "cc_flags cc AND HIRCLUSTER_FLAG_ADD_SLAVE = 0" "rs \<noteq> []" "\<forall>r\<in>set rs. range_ok r" "length rs \<le> 2 ^ 30"
  obtains cc' nodes where "parse_cluster_slots mem cc (tree_of (slots_reply rs)) = Done (Inr (cc', nodes))" "route_read cc rs cc' nodes"
proof -
  have "elements_of (tree_of (slots_reply rs)) = Some (map (\<lambda>r. Some (tree_of (range_reply r))) rs)"
    using assms(3) unfolding slots_reply_def by (subst elements_array) (simp_all add: comp_def)
  moreover have "rt_type (tree_of (slots_reply rs)) = REDIS_REPLY_ARRAY" "rt_elements (tree_of (slots_reply rs)) \<noteq> 0"
    using assms(3) by (simp_all add: slots_reply_def)
  ultimately show thesis
    using that parse_ranges [OF assms(1,2) route_read_start assms(4)] assms(5) by (auto simp: parse_cluster_slots_def)
qed

section \<open>The table\<close>

lemma mset_one_more:
  "distinct ks \<Longrightarrow> a \<in> set ks \<Longrightarrow>
   mset (concat (map (\<lambda>k. if k = a then y # g k else g k) ks)) = add_mset y (mset (concat (map g ks)))"
proof (induction ks)
  case (Cons k ks)
  show ?case
  proof (cases "k = a")
    case True
    then have "\<forall>j\<in>set ks. j \<noteq> a" using Cons(2) by auto
    then have "map (\<lambda>k. if k = a then y # g k else g k) ks = map g ks"
      by (intro map_cong) auto
    then have "concat (map (\<lambda>k. if k = a then y # g k else g k) (k # ks)) = y # concat (map g (k # ks))"
      using True by (simp only: list.map concat.simps append.simps simp_thms if_True)
    then show ?thesis by (simp only: mset.simps)
  qed (use Cons in simp)
qed simp

text \<open>Sorting a list into the groups of a key function and appending the groups keeps the elements.\<close>

lemma mset_groups:
  "distinct ks \<Longrightarrow> \<forall>x\<in>set xs. f x \<in> set ks \<Longrightarrow>
   mset (concat (map (\<lambda>k. map (h k) (filter (\<lambda>x. f x = k) xs)) ks)) = mset (map (\<lambda>x. h (f x) x) xs)"
proof (induction xs)
  case Nil
  show ?case by (induction ks) simp_all
next
  case (Cons x xs)
  have e: "map (\<lambda>k. map (h k) (filter (\<lambda>x. f x = k) (x # xs))) ks
      = map (\<lambda>k. if k = f x then h (f x) x # map (h k) (filter (\<lambda>x. f x = k) xs) else map (h k) (filter (\<lambda>x. f x = k) xs)) ks"
    by (rule map_cong) auto
  have "f x \<in> set ks" using Cons(3) by simp
  then have "mset (concat (map (\<lambda>k. map (h k) (filter (\<lambda>x. f x = k) (x # xs))) ks))
      = add_mset (h (f x) x) (mset (concat (map (\<lambda>k. map (h k) (filter (\<lambda>x. f x = k) xs)) ks)))"
    unfolding e by (rule mset_one_more [OF Cons(2)])
  also have "mset (concat (map (\<lambda>k. map (h k) (filter (\<lambda>x. f x = k) xs)) ks)) = mset (map (\<lambda>x. h (f x) x) xs)"
    using Cons by simp
  finally show ?case by simp
qed

definition node_of :: "node_dict \<Rightarrow> slot_range \<Rightarrow> nat" where
  "node_of nodes r = the (dict_map nodes (address (rg_master r)))"

lemma region_in_node [simp]: "sl_node (region_in m r) = Some m"
  by (simp add: region_in_def)

lemma route_read_entries:
  assumes p: "route_read cc0 rs cc nodes"
  defines "ms \<equiv> map snd (dict_entries nodes)"
  shows "mset (regions_of cc ms) = mset (map (\<lambda>r. region_in (node_of nodes r) r) rs)"
    "\<forall>r\<in>set rs. range_ok r \<Longrightarrow> m \<in> set ms \<Longrightarrow>
      nd_role (cc_heap cc ! m) = REDIS_ROLE_MASTER \<and> (\<forall>s\<in>set (slots_of (cc_heap cc ! m)). region_fits s \<and> sl_node s = Some m)"
proof -
  have i: "dict_inv nodes" using p by (simp add: route_read_def)
  note e = nodes.entries_abs [OF i]
  have ent: "dict_map nodes (fst x) = Some (snd x)" if "x \<in> set (dict_entries nodes)" for x
    using nodes.entries_iff [OF i, of "fst x" "snd x"] that by simp
  have sl: "slots_of (cc_heap cc ! snd x) = map (region_in (snd x)) (filter (\<lambda>q. address (rg_master q) = fst x) rs)"
    "nd_role (cc_heap cc ! snd x) = REDIS_ROLE_MASTER" if "x \<in> set (dict_entries nodes)" for x
    using route_readD [OF p ent [OF that]] by (auto simp: node_for_def slots_of_def)
  let ?ks = "map fst (dict_entries nodes)" and ?h = "\<lambda>k. region_in (the (dict_map nodes k))"
  have "regions_of cc ms = concat (map (\<lambda>k. map (?h k) (filter (\<lambda>q. address (rg_master q) = k) rs)) ?ks)"
    using sl(1) ent by (simp add: regions_of_def ms_def comp_def cong: map_cong)
  moreover have "\<forall>r\<in>set rs. address (rg_master r) \<in> set ?ks"
  proof
    fix r assume "r \<in> set rs"
    then obtain m where "dict_map nodes (address (rg_master r)) = Some m" using p by (auto simp: route_read_def)
    then have "(address (rg_master r), m) \<in> set (dict_entries nodes)" using nodes.entries_iff [OF i] by blast
    then show "address (rg_master r) \<in> set ?ks" by force
  qed
  ultimately show "mset (regions_of cc ms) = mset (map (\<lambda>r. region_in (node_of nodes r) r) rs)"
    using mset_groups [of ?ks rs "\<lambda>r. address (rg_master r)" ?h] e by (simp add: node_of_def)
  assume ok: "\<forall>r\<in>set rs. range_ok r" and "m \<in> set ms"
  then obtain x where x: "x \<in> set (dict_entries nodes)" "m = snd x" by (auto simp: ms_def)
  show "nd_role (cc_heap cc ! m) = REDIS_ROLE_MASTER \<and> (\<forall>s\<in>set (slots_of (cc_heap cc ! m)). region_fits s \<and> sl_node s = Some m)"
    using sl [OF x(1)] ok region_in_ok(1) by (auto simp: x(2) region_in_node)
qed

lemma apart_ranges:
  "\<forall>r\<in>set rs. range_ok r \<Longrightarrow> apart (map (\<lambda>r. region_in (f r) r) rs) \<longleftrightarrow> ranges_apart rs"
proof (induction rs)
  case (Cons r rs)
  have "meet (region_in (f r) r) (region_in (f q) q) \<longleftrightarrow> (\<exists>k. range_has r k \<and> range_has q k)" if "q \<in> set rs" for q
  proof -
    have o: "range_ok r" "range_ok q" using Cons(2) that by simp_all
    have "\<exists>k. range_has r (int k) \<and> range_has q (int k)" if "range_has r k" "range_has q k" for k
      using that o by (intro exI [of _ "nat k"]) (auto simp: range_has_def range_ok_def)
    then show ?thesis unfolding meet_def region_in_ok(2) [OF o(1)] region_in_ok(2) [OF o(2)] by auto
  qed
  then show ?case using Cons by (simp add: apart_def ranges_apart_def)
qed (simp add: apart_def ranges_apart_def)

lemma answer_installed:
  assumes p: "route_read cc0 rs cc nodes" and ok: "\<forall>r\<in>set rs. range_ok r"
  shows "\<not> ranges_apart rs \<Longrightarrow> install_route cc nodes = Undefined"
    "ranges_apart rs \<Longrightarrow> \<exists>cc2. install_route cc nodes = Done (Inr cc2) \<and> cc_slots cc2 \<noteq> None
      \<and> (\<forall>k<16384. (\<forall>r\<in>set rs. range_has r (int k) \<longrightarrow> (\<exists>n nd. cc_table cc2 ! k = Some n \<and> n < length (cc_heap cc2)
            \<and> nd = cc_heap cc2 ! n \<and> nd_host nd = Some (ni_host (rg_master r)) \<and> nd_port nd = ni_port (rg_master r)))
          \<and> ((\<forall>r\<in>set rs. \<not> range_has r (int k)) \<longrightarrow> cc_table cc2 ! k = None))
      \<and> (\<forall>k. case node_get_by_table cc2 k of Some n \<Rightarrow> node_get_by_slot cc2 k = Done (Some n)
             | None \<Rightarrow> node_get_by_slot cc2 k = Done None \<or> node_get_by_slot cc2 k = Undefined)"
proof -
  define ms where "ms = map snd (dict_entries nodes)"
  define fs where "fs = map (\<lambda>r. region_in (node_of nodes r) r) rs"
  have perm: "mset (regions_of cc ms) = mset fs" using route_read_entries(1) [OF p] by (simp add: ms_def fs_def)
  have ms_ok: "\<forall>m\<in>set ms. nd_role (cc_heap cc ! m) = REDIS_ROLE_MASTER \<and> (\<forall>s\<in>set (slots_of (cc_heap cc ! m)). region_fits s \<and> sl_node s = Some m)"
    using route_read_entries(2) [OF p ok] by (simp add: ms_def)
  have ap: "apart (regions_of cc ms) \<longleftrightarrow> ranges_apart rs"
    using apart_mset [OF perm] apart_mset [OF perm [symmetric]] apart_ranges [OF ok, of "node_of nodes"] by (auto simp: fs_def)
  show "install_route cc nodes = Undefined" if "\<not> ranges_apart rs"
    using install_cases(1) [OF ms_def ms_ok] that ap by simp
  assume a: "ranges_apart rs"
  then have ap': "apart (regions_of cc ms)" using ap by simp
  let ?ss = "sort_key (\<lambda>s. unat (sl_start s)) (regions_of cc ms)"
  obtain t h where t: "install_route cc nodes = Done (Inr (cc\<lparr>cc_heap := h, cc_nodes := Some nodes,
         cc_slots := Some ?ss, cc_table := t, cc_route_version := cc_route_version cc + 1\<rparr>))" (is "_ = Done (Inr ?c)")
      "sans_con h = sans_con (cc_heap cc)" "table_of (regions_of cc ms) (replicate REDIS_CLUSTER_SLOTS None) t"
    using install_cases(2) [OF ms_def ms_ok ap'] by auto
  have set_fs: "set (regions_of cc ms) = set fs" by (rule mset_eq_setD [OF perm])
  have tk: "\<forall>s\<in>set fs. holds_slot s k \<longrightarrow> t ! k = sl_node s" "(\<forall>s\<in>set fs. \<not> holds_slot s k) \<longrightarrow> t ! k = None" if "k < 16384" for k
    using t(3) that by (simp_all add: table_of_def set_fs REDIS_CLUSTER_SLOTS_def)
  have has: "holds_slot (region_in m r) k \<longleftrightarrow> range_has r (int k)" if "r \<in> set rs" for m r k using region_in_ok(2) ok that by blast
  have covered: "\<exists>n nd. t ! k = Some n \<and> n < length h \<and> nd = h ! n \<and> nd_host nd = Some (ni_host (rg_master r)) \<and> nd_port nd = ni_port (rg_master r)"
    if k: "k < 16384" and r: "r \<in> set rs" "range_has r (int k)" for k r
  proof -
    let ?n = "node_of nodes r"
    have "dict_map nodes (address (rg_master r)) = Some ?n" using p r(1) by (auto simp: route_read_def node_of_def)
    then obtain q where q: "?n < length (cc_heap cc)" "q \<in> set rs" "address (rg_master r) = address (rg_master q)" "node_for ?n rs q (cc_heap cc ! ?n)"
      using route_readD [OF p] by blast
    have "1 \<le> ni_port (rg_master r)" "1 \<le> ni_port (rg_master q)" using ok r(1) q(2) by (simp_all add: range_ok_def)
    note same = address_inj [OF q(3) this]
    note con = sans_con_nth [OF t(2) q(1)]
    have host: "nd_host (h ! ?n) = nd_host (cc_heap cc ! ?n)" and port: "nd_port (h ! ?n) = nd_port (cc_heap cc ! ?n)"
      using arg_cong [OF conjunct2 [OF con], of nd_host] arg_cong [OF conjunct2 [OF con], of nd_port] by simp_all
    have "region_in ?n r \<in> set fs" using r(1) by (simp add: fs_def)
    then have "t ! k = Some ?n" using tk(1) [OF k] has [OF r(1)] r(2) by (metis region.select_convs(3) region_in_def)
    then show ?thesis using con q(4) same host port by (intro exI [of _ ?n] exI [of _ "h ! ?n"]) (simp add: node_for_def)
  qed
  have bare: "t ! k = None" if "k < 16384" "\<forall>r\<in>set rs. \<not> range_has r (int k)" for k
    using tk(2) [OF that(1)] has that(2) by (auto simp: fs_def)
  have ord: "apart ?ss" "\<forall>s\<in>set ?ss. region_fits s" "sorted (map (\<lambda>s. unat (sl_start s)) ?ss)" "\<forall>s\<in>set ?ss. sl_node s \<noteq> None"
    using apart_mset [of "regions_of cc ms" ?ss] ap' ok region_in_ok(1) by (auto simp: set_fs fs_def region_in_def)
  have "table_of ?ss (replicate REDIS_CLUSTER_SLOTS None) t" using t(3) by (simp add: table_of_def)
  from installed_lookup [of ?c, OF _ _ this ord] have look: "case node_get_by_table ?c k of Some n \<Rightarrow> node_get_by_slot ?c k = Done (Some n)
       | None \<Rightarrow> node_get_by_slot ?c k = Done None \<or> node_get_by_slot ?c k = Undefined" for k by simp
  show "\<exists>cc2. install_route cc nodes = Done (Inr cc2) \<and> cc_slots cc2 \<noteq> None
      \<and> (\<forall>k<16384. (\<forall>r\<in>set rs. range_has r (int k) \<longrightarrow> (\<exists>n nd. cc_table cc2 ! k = Some n \<and> n < length (cc_heap cc2)
            \<and> nd = cc_heap cc2 ! n \<and> nd_host nd = Some (ni_host (rg_master r)) \<and> nd_port nd = ni_port (rg_master r)))
          \<and> ((\<forall>r\<in>set rs. \<not> range_has r (int k)) \<longrightarrow> cc_table cc2 ! k = None))
      \<and> (\<forall>k. case node_get_by_table cc2 k of Some n \<Rightarrow> node_get_by_slot cc2 k = Done (Some n)
             | None \<Rightarrow> node_get_by_slot cc2 k = Done None \<or> node_get_by_slot cc2 k = Undefined)"
  proof (intro exI conjI)
    show "install_route cc nodes = Done (Inr ?c)" by (rule t(1))
    show "cc_slots ?c \<noteq> None" by simp
    show "\<forall>k<16384. (\<forall>r\<in>set rs. range_has r (int k) \<longrightarrow> (\<exists>n nd. cc_table ?c ! k = Some n \<and> n < length (cc_heap ?c)
            \<and> nd = cc_heap ?c ! n \<and> nd_host nd = Some (ni_host (rg_master r)) \<and> nd_port nd = ni_port (rg_master r)))
          \<and> ((\<forall>r\<in>set rs. \<not> range_has r (int k)) \<longrightarrow> cc_table ?c ! k = None)"
      using covered bare by simp
    show "\<forall>k. case node_get_by_table ?c k of Some n \<Rightarrow> node_get_by_slot ?c k = Done (Some n)
             | None \<Rightarrow> node_get_by_slot ?c k = Done None \<or> node_get_by_slot ?c k = Undefined"
      using look by blast
  qed
qed

section \<open>The update as a whole\<close>

text \<open>The client that asks with CLUSTER SLOTS, on a connection that works, and gets the ranges.\<close>

definition asks_slots :: "('c, 'w) link \<Rightarrow> 'c cluster \<Rightarrow> bytes \<Rightarrow> int \<Rightarrow> 'w \<Rightarrow> slot_range list \<Rightarrow> 'w \<Rightarrow> bool" where
  "asks_slots lk cc ip port w rs w' \<longleftrightarrow>
     cc_flags cc AND HIRCLUSTER_FLAG_ROUTE_USE_SLOTS \<noteq> 0 \<and> cc_flags cc AND HIRCLUSTER_FLAG_ADD_SLAVE = 0 \<and> 0 < port
     \<and> (\<exists>c w1 c'. lk_connect lk ip port w = (Some c, w1) \<and> lk_err lk c = 0
          \<and> lk_command lk c REDIS_COMMAND_CLUSTER_SLOTS w1 = Done (c', w', Some (tree_of (slots_reply rs))))"

lemma asked_slots:
  assumes "asks_slots lk cc ip port w rs w'" "ample mem" "rs \<noteq> []" "\<forall>r\<in>set rs. range_ok r" "length rs \<le> 2 ^ 30"
  obtains cc' nodes where "cluster_update_route_by_addr mem lk cc (Some ip) port w = route_done w' (install_route cc' nodes)"
    "route_read cc rs cc' nodes"
proof -
  obtain c w1 c' where l: "cc_flags cc AND HIRCLUSTER_FLAG_ROUTE_USE_SLOTS \<noteq> 0" "cc_flags cc AND HIRCLUSTER_FLAG_ADD_SLAVE = 0" "0 < port"
    "lk_connect lk ip port w = (Some c, w1)" "lk_err lk c = 0"
    "lk_command lk c REDIS_COMMAND_CLUSTER_SLOTS w1 = Done (c', w', Some (tree_of (slots_reply rs)))"
    using assms(1) by (auto simp: asks_slots_def)
  obtain cc' nodes where p: "parse_cluster_slots mem cc (tree_of (slots_reply rs)) = Done (Inr (cc', nodes))" "route_read cc rs cc' nodes"
    using parse_answer [OF assms(2) l(2) assms(3-5)] .
  have "rt_type (tree_of (slots_reply rs)) = REDIS_REPLY_ARRAY" by (simp add: slots_reply_def)
  then have "cluster_update_route_by_addr mem lk cc (Some ip) port w = route_done w' (install_route cc' nodes)"
    using l p(1) by (simp add: cluster_update_route_by_addr_def route_nodes_def Let_def)
  then show thesis using that p(2) by blast
qed

definition sample_ranges :: "slot_range list" where
  "sample_ranges =
     [\<lparr>rg_start = 0, rg_end = 8191, rg_master = \<lparr>ni_host = ''10.0.0.1'', ni_port = 6379, ni_id = ''a''\<rparr>, rg_replicas = []\<rparr>,
      \<lparr>rg_start = 8192, rg_end = 16383, rg_master = \<lparr>ni_host = ''10.0.0.2'', ni_port = 6379, ni_id = ''b''\<rparr>, rg_replicas = []\<rparr>]"

definition sample_overlap :: "slot_range list" where
  "sample_overlap = sample_ranges @ [(hd sample_ranges)\<lparr>rg_start := 8191\<rparr>]"

definition sample_link :: "slot_range list \<Rightarrow> (unit, unit) link" where
  "sample_link rs =
     \<lparr>lk_connect = (\<lambda>_ _ _. (Some (), ())), lk_reconnect = (\<lambda>_ _. ((), ())), lk_err = (\<lambda>_. 0), lk_errstr = (\<lambda>_. []),
      lk_blocks = (\<lambda>_. True), lk_append = (\<lambda>_ _. Done ((), True)), lk_flush = (\<lambda>_ _. Done ((), (), True)),
      lk_reply = (\<lambda>_ _. Done ((), (), False, None)),
      lk_command = (\<lambda>_ _ _. Done ((), (), Some (tree_of (slots_reply rs))))\<rparr>"

definition sample_client :: "unit cluster" where
  "sample_client =
     \<lparr>cc_err = 0, cc_errstr = [], cc_ip = None, cc_port = 0, cc_flags = HIRCLUSTER_FLAG_ROUTE_USE_SLOTS, cc_slots = None,
      cc_nodes = None, cc_table = [], cc_route_version = 0, cc_max_redirect_count = 5, cc_retry_count = 0,
      cc_requests = None, cc_need_update_route = False, cc_heap = []\<rparr>"

lemma sample_route:
  "asks_slots (sample_link rs) sample_client ''10.0.0.1'' 6379 () rs ()" "ample (\<lambda>n. Some (replicate n NUL))"
  "sample_ranges \<noteq> []" "sample_overlap \<noteq> []" "\<forall>r\<in>set sample_ranges. range_ok r" "\<forall>r\<in>set sample_overlap. range_ok r"
  "length sample_ranges \<le> 2 ^ 30" "length sample_overlap \<le> 2 ^ 30" "ranges_apart sample_ranges" "\<not> ranges_apart sample_overlap"
proof -
  show "asks_slots (sample_link rs) sample_client ''10.0.0.1'' 6379 () rs ()"
    by (simp add: asks_slots_def sample_link_def sample_client_def HIRCLUSTER_FLAG_ROUTE_USE_SLOTS_def HIRCLUSTER_FLAG_ADD_SLAVE_def)
  have "range_has (hd sample_ranges) 8191 \<and> range_has ((hd sample_ranges)\<lparr>rg_start := 8191\<rparr>) 8191"
    by (simp add: range_has_def sample_ranges_def)
  then show "\<not> ranges_apart sample_overlap" by (force simp: ranges_apart_def sample_overlap_def sample_ranges_def)
qed (auto simp: ample_def sample_overlap_def sample_ranges_def range_ok_def ranges_apart_def range_has_def)

lemma asked_routed:
  assumes "asks_slots lk cc ip port w rs w'" "ample mem" "rs \<noteq> []" "\<forall>r\<in>set rs. range_ok r" "length rs \<le> 2 ^ 30" "ranges_apart rs"
  shows "\<exists>cc2. cluster_update_route_by_addr mem lk cc (Some ip) port w = Done (cc2, w', True)
    \<and> (\<forall>k<16384. (\<forall>r\<in>set rs. range_has r (int k) \<longrightarrow> (\<exists>n nd. node_get_by_table cc2 (of_nat k) = Some n \<and> n < length (cc_heap cc2)
          \<and> nd = cc_heap cc2 ! n \<and> nd_host nd = Some (ni_host (rg_master r)) \<and> nd_port nd = ni_port (rg_master r)))
        \<and> ((\<forall>r\<in>set rs. \<not> range_has r (int k)) \<longrightarrow> node_get_by_table cc2 (of_nat k) = None))
    \<and> (\<forall>k n. node_get_by_table cc2 k = Some n \<longrightarrow> node_get_by_slot cc2 k = Done (Some n))"
proof -
  obtain cc' nodes where u: "cluster_update_route_by_addr mem lk cc (Some ip) port w = route_done w' (install_route cc' nodes)"
    "route_read cc rs cc' nodes"
    using asked_slots [OF assms(1-5)] .
  obtain cc2 where i: "install_route cc' nodes = Done (Inr cc2)"
    and t: "\<And>k. k < 16384 \<Longrightarrow> (\<forall>r\<in>set rs. range_has r (int k) \<longrightarrow> (\<exists>n nd. cc_table cc2 ! k = Some n \<and> n < length (cc_heap cc2)
          \<and> nd = cc_heap cc2 ! n \<and> nd_host nd = Some (ni_host (rg_master r)) \<and> nd_port nd = ni_port (rg_master r)))
        \<and> ((\<forall>r\<in>set rs. \<not> range_has r (int k)) \<longrightarrow> cc_table cc2 ! k = None)"
    and s: "\<And>k. case node_get_by_table cc2 k of Some n \<Rightarrow> node_get_by_slot cc2 k = Done (Some n)
             | None \<Rightarrow> node_get_by_slot cc2 k = Done None \<or> node_get_by_slot cc2 k = Undefined"
    using answer_installed(2) [OF u(2) assms(4,6)] by blast
  have "unat (of_nat k :: 32 word) = k" if "k < 16384" for k :: nat
    using that by (simp add: unat_of_nat)
  then have look: "node_get_by_table cc2 (of_nat k) = cc_table cc2 ! k" if "k < 16384" for k
    using that by (simp add: node_get_by_table_def REDIS_CLUSTER_SLOTS_def)
  have "node_get_by_slot cc2 k = Done (Some n)" if "node_get_by_table cc2 k = Some n" for k n
    using s [of k] that by simp
  then show ?thesis using u(1) i t look by simp
qed

text \<open>C27: The answer to CLUSTER SLOTS becomes the route table. For ranges that do not share a slot every slot of
  a range leads, by the table, to a node with the host and the port of the range's master, a slot
  outside all ranges leads to none, and the binary search over the sorted regions finds the same
  node for every slot that is served.\<close>

theorem slots_answer_routed:
  assumes "asks_slots lk cc ip port w rs w'" "ample mem" "rs \<noteq> []" "\<forall>r\<in>set rs. range_ok r" "length rs \<le> 2 ^ 30" "ranges_apart rs"
  shows "\<exists>cc2. cluster_update_route_by_addr mem lk cc (Some ip) port w = Done (cc2, w', True)
    \<and> (\<forall>k<16384. (\<forall>r\<in>set rs. range_has r (int k) \<longrightarrow> (\<exists>n nd. node_get_by_table cc2 (of_nat k) = Some n \<and> n < length (cc_heap cc2)
          \<and> nd = cc_heap cc2 ! n \<and> nd_host nd = Some (ni_host (rg_master r)) \<and> nd_port nd = ni_port (rg_master r)))
        \<and> ((\<forall>r\<in>set rs. \<not> range_has r (int k)) \<longrightarrow> node_get_by_table cc2 (of_nat k) = None))
    \<and> (\<forall>k n. node_get_by_table cc2 k = Some n \<longrightarrow> node_get_by_slot cc2 k = Done (Some n))"
  using assms by (rule asked_routed)

lemma slots_answer_routed_witness:
  "\<exists>cc2 n. cluster_update_route_by_addr (\<lambda>n. Some (replicate n NUL)) (sample_link sample_ranges) sample_client (Some ''10.0.0.1'') 6379 ()
       = Done (cc2, (), True)
     \<and> node_get_by_slot cc2 12182 = Done (Some n) \<and> nd_host (cc_heap cc2 ! n) = Some ''10.0.0.2''"
proof -
  note s = sample_route
  obtain cc2 where c: "cluster_update_route_by_addr (\<lambda>n. Some (replicate n NUL)) (sample_link sample_ranges) sample_client (Some ''10.0.0.1'') 6379 ()
       = Done (cc2, (), True)"
    and t: "\<And>k r. k < 16384 \<Longrightarrow> r \<in> set sample_ranges \<Longrightarrow> range_has r (int k) \<Longrightarrow>
       \<exists>n. node_get_by_table cc2 (of_nat k) = Some n \<and> nd_host (cc_heap cc2 ! n) = Some (ni_host (rg_master r))"
    and f: "\<And>k n. node_get_by_table cc2 k = Some n \<Longrightarrow> node_get_by_slot cc2 k = Done (Some n)"
    using slots_answer_routed [OF s(1,2,3,5,7,9)] by metis
  have "range_has (sample_ranges ! 1) (int 12182)" "sample_ranges ! 1 \<in> set sample_ranges" "ni_host (rg_master (sample_ranges ! 1)) = ''10.0.0.2''"
    by (simp_all add: sample_ranges_def range_has_def)
  from t [OF _ this(2,1)] this(3) obtain n where "node_get_by_table cc2 (of_nat 12182) = Some n" "nd_host (cc_heap cc2 ! n) = Some ''10.0.0.2''"
    by auto
  then show ?thesis using c f [of "of_nat 12182"] by (intro exI conjI) simp_all
qed

text \<open>C28: When two ranges of the answer share a slot, the update releases the iterator of the nodes a second
  time: the behaviour is undefined.\<close>

theorem overlapping_ranges_undefined:
  assumes "asks_slots lk cc ip port w rs w'" "ample mem" "rs \<noteq> []" "\<forall>r\<in>set rs. range_ok r" "length rs \<le> 2 ^ 30" "\<not> ranges_apart rs"
  shows "cluster_update_route_by_addr mem lk cc (Some ip) port w = Undefined"
proof -
  obtain cc' nodes where "cluster_update_route_by_addr mem lk cc (Some ip) port w = route_done w' (install_route cc' nodes)"
    "route_read cc rs cc' nodes"
    using asked_slots [OF assms(1-5)] .
  then show ?thesis using answer_installed(1) [OF _ assms(4,6), of cc cc' nodes] by simp
qed

lemma overlapping_ranges_undefined_witness:
  "cluster_update_route_by_addr (\<lambda>n. Some (replicate n NUL)) (sample_link sample_overlap) sample_client (Some ''10.0.0.1'') 6379 () = Undefined"
  using sample_route by (intro overlapping_ranges_undefined) simp_all

end
