(* ===== verification/Cluster.thy ===== *)
theory Cluster
  imports SlotsAnswer
begin

text \<open>
  The cluster client (\<open>hircluster.c\<close>): its context and options, finding the connection for a
  command, following redirections and the blocking commands.

  A pointer to a node is its position in \<open>cc_heap\<close>; a pointer to its connection is the node. What a
  function returns beside its result are the cluster and the world of the links. The time-outs
  are options that only reach the socket interface; they are not kept. The identifiers of commands
  start at the argument \<open>cmd_id\<close>; \<open>num\<close> is the uninitialised buffer for numbers.
\<close>

section \<open>Constants\<close>

definition REDIS_ERR_CLUSTER_TOO_MANY_REDIRECT :: int where "REDIS_ERR_CLUSTER_TOO_MANY_REDIRECT = 6"
definition CLUSTER_DEFAULT_MAX_REDIRECT_COUNT :: int where "CLUSTER_DEFAULT_MAX_REDIRECT_COUNT = 5"
definition REDIS_BLOCK :: "32 word" where "REDIS_BLOCK = 1"
definition REDIS_COMMAND_ASKING :: bytes where "REDIS_COMMAND_ASKING = ''ASKING''"
definition REDIS_COMMAND_PING :: bytes where "REDIS_COMMAND_PING = ''PING''"

datatype cluster_err_type = CLUSTER_NOT_ERR | CLUSTER_ERR_MOVED | CLUSTER_ERR_ASK | CLUSTER_ERR_TRYAGAIN
  | CLUSTER_ERR_CROSSSLOT | CLUSTER_ERR_CLUSTERDOWN | CLUSTER_ERR_SENTINEL

text \<open>A reply without a text has length 0.\<close>

definition starts_with :: "rtree \<Rightarrow> bytes \<Rightarrow> bool" where
  "starts_with reply t \<longleftrightarrow> int (length t) < rt_len reply \<and> (case rt_str reply of None \<Rightarrow> False | Some s \<Rightarrow> take (length t) s = t)"

definition cluster_reply_error_type :: "rtree \<Rightarrow> cluster_err_type" where
  "cluster_reply_error_type reply =
     (if rt_type reply = REDIS_REPLY_ERROR then
        if starts_with reply ''MOVED'' then CLUSTER_ERR_MOVED
        else if starts_with reply ''ASK'' then CLUSTER_ERR_ASK
        else if starts_with reply ''TRYAGAIN'' then CLUSTER_ERR_TRYAGAIN
        else if starts_with reply ''CROSSSLOT'' then CLUSTER_ERR_CROSSSLOT
        else if starts_with reply ''CLUSTERDOWN'' then CLUSTER_ERR_CLUSTERDOWN
        else CLUSTER_ERR_SENTINEL
      else CLUSTER_NOT_ERR)"

section \<open>The context\<close>

text \<open>\<open>sizeof(redisClusterContext)\<close> is that of the table and 256 bytes more.\<close>

definition redisClusterContextInit :: "heap \<Rightarrow> 'c cluster option" where
  "redisClusterContextInit mem =
     (if mem (REDIS_CLUSTER_SLOTS * 8 + 256) = None then None
      else Some \<lparr>cc_err = 0, cc_errstr = [], cc_ip = None, cc_port = 0, cc_flags = REDIS_BLOCK, cc_slots = None, cc_nodes = None,
        cc_table = replicate REDIS_CLUSTER_SLOTS None, cc_route_version = 0,
        cc_max_redirect_count = CLUSTER_DEFAULT_MAX_REDIRECT_COUNT, cc_retry_count = 0, cc_requests = None,
        cc_need_update_route = False, cc_heap = []\<rparr>)"

text \<open>The address of a node is given as \<open>host:port\<close>. The result says whether it was accepted.\<close>

definition redisClusterSetOptionAddNode :: "heap \<Rightarrow> 'c cluster \<Rightarrow> bytes \<Rightarrow> ('c cluster \<times> bool) run" where
  "redisClusterSetOptionAddNode mem cc addr =
     (let d = (case cc_nodes cc of None \<Rightarrow> dictCreate clusterNodesDictType | Some d \<Rightarrow> d);
          cc = cc\<lparr>cc_nodes := Some d\<rparr>;
          bad = (\<lambda>str. Done (cluster_error_set cc REDIS_ERR_OTHER str, False)) in
      if dictFind d addr \<noteq> None then Done (cc, True)
      else case split_text mem addr '':'' of
        Some [ip, p] \<Rightarrow>
          if ip = [] \<or> p = [] then bad ''server address is error(correct is like: 127.0.0.1:1234)''
          else let port = hi_atoi p (length p) in
            if port \<le> 0 then bad ''server port is error''
            else if mem 96 = None then bad ''alloc cluster node error''
            else let n = length (cc_heap cc);
                     node = (new_node 0)\<lparr>nd_addr := addr, nd_host := Some ip, nd_port := port\<rparr> in
              (case dictAdd d addr n of
                 None \<Rightarrow> Undefined
               | Some (_, d) \<Rightarrow> Done (cc\<lparr>cc_heap := cc_heap cc @ [node], cc_nodes := Some d\<rparr>, True))
      | _ \<Rightarrow> bad ''server address is error(correct is like: 127.0.0.1:1234)'')"

fun add_nodes :: "heap \<Rightarrow> bytes list \<Rightarrow> 'c cluster \<Rightarrow> ('c cluster \<times> bool) run" where
  "add_nodes mem [] cc = Done (cc, True)"
| "add_nodes mem (a # as) cc =
     run_then (redisClusterSetOptionAddNode mem cc a) (\<lambda>(cc, ok). if ok then add_nodes mem as cc else Done (cc, False))"

definition redisClusterSetOptionAddNodes :: "heap \<Rightarrow> 'c cluster \<Rightarrow> bytes \<Rightarrow> ('c cluster \<times> bool) run" where
  "redisClusterSetOptionAddNodes mem cc addrs =
     (let bad = Done (cluster_error_set cc REDIS_ERR_OTHER
            ''servers address is error(correct is like: 127.0.0.1:1234,127.0.0.2:5678)'', False) in
      case split_text mem addrs '','' of
        None \<Rightarrow> bad
      | Some as \<Rightarrow> if as = [] then bad else add_nodes mem (map cstr as) cc)"

definition redisClusterSetOptionConnectBlock :: "'c cluster \<Rightarrow> 'c cluster" where
  "redisClusterSetOptionConnectBlock cc = cc\<lparr>cc_flags := cc_flags cc OR REDIS_BLOCK\<rparr>"

definition redisClusterSetOptionConnectNonBlock :: "'c cluster \<Rightarrow> 'c cluster" where
  "redisClusterSetOptionConnectNonBlock cc = cc\<lparr>cc_flags := cc_flags cc AND NOT REDIS_BLOCK\<rparr>"

definition redisClusterSetOptionParseSlaves :: "'c cluster \<Rightarrow> 'c cluster" where
  "redisClusterSetOptionParseSlaves cc = cc\<lparr>cc_flags := cc_flags cc OR HIRCLUSTER_FLAG_ADD_SLAVE\<rparr>"

definition redisClusterSetOptionParseOpenSlots :: "'c cluster \<Rightarrow> 'c cluster" where
  "redisClusterSetOptionParseOpenSlots cc = cc\<lparr>cc_flags := cc_flags cc OR HIRCLUSTER_FLAG_ADD_OPENSLOT\<rparr>"

definition redisClusterSetOptionRouteUseSlots :: "'c cluster \<Rightarrow> 'c cluster" where
  "redisClusterSetOptionRouteUseSlots cc = cc\<lparr>cc_flags := cc_flags cc OR HIRCLUSTER_FLAG_ROUTE_USE_SLOTS\<rparr>"

definition redisClusterSetOptionMaxRedirect :: "'c cluster \<Rightarrow> int \<Rightarrow> 'c cluster \<times> bool" where
  "redisClusterSetOptionMaxRedirect cc n = (if n \<le> 0 then (cc, False) else (cc\<lparr>cc_max_redirect_count := n\<rparr>, True))"

definition redisClusterConnect2 :: "heap \<Rightarrow> ('c, 'w) link \<Rightarrow> 'c cluster \<Rightarrow> 'w \<Rightarrow> ('c cluster \<times> 'w \<times> bool) run" where
  "redisClusterConnect2 mem lk cc w =
     (case cc_nodes cc of
        None \<Rightarrow> Done (cluster_error_set cc REDIS_ERR_OTHER ''servers address does not set up'', w, False)
      | Some d \<Rightarrow>
          if dt_used d = 0 then Done (cluster_error_set cc REDIS_ERR_OTHER ''servers address does not set up'', w, False)
          else cluster_update_route mem lk cc w)"

text \<open>\<open>_redisClusterConnect\<close>, and the functions that call it with a new context.\<close>

definition cluster_connect :: "heap \<Rightarrow> ('c, 'w) link \<Rightarrow> 'c cluster \<Rightarrow> bytes \<Rightarrow> 'w \<Rightarrow> ('c cluster \<times> 'w) run" where
  "cluster_connect mem lk cc addrs w =
     run_then (redisClusterSetOptionAddNodes mem cc addrs) (\<lambda>(cc, ok).
       if \<not> ok then Done (cc, w)
       else run_then (cluster_update_route mem lk cc w) (\<lambda>(cc, w, _). Done (cc, w)))"

definition connect_with ::
    "heap \<Rightarrow> ('c, 'w) link \<Rightarrow> ('c cluster \<Rightarrow> 'c cluster) \<Rightarrow> bytes \<Rightarrow> 32 word \<Rightarrow> 'w \<Rightarrow> ('c cluster option \<times> 'w) run" where
  "connect_with mem lk set_block addrs flags w =
     (case redisClusterContextInit mem of
        None \<Rightarrow> Done (None, w)
      | Some cc \<Rightarrow>
          let cc = set_block cc; cc = cc\<lparr>cc_flags := cc_flags cc OR flags\<rparr>
          in run_then (cluster_connect mem lk cc addrs w) (\<lambda>(cc, w). Done (Some cc, w)))"

definition redisClusterConnect :: "heap \<Rightarrow> ('c, 'w) link \<Rightarrow> bytes \<Rightarrow> 32 word \<Rightarrow> 'w \<Rightarrow> ('c cluster option \<times> 'w) run" where
  "redisClusterConnect mem lk = connect_with mem lk redisClusterSetOptionConnectBlock"

definition redisClusterConnectNonBlock :: "heap \<Rightarrow> ('c, 'w) link \<Rightarrow> bytes \<Rightarrow> 32 word \<Rightarrow> 'w \<Rightarrow> ('c cluster option \<times> 'w) run" where
  "redisClusterConnectNonBlock mem lk = connect_with mem lk redisClusterSetOptionConnectNonBlock"

section \<open>Connections of nodes\<close>

definition set_con :: "nat \<Rightarrow> 'c option \<Rightarrow> 'c cluster \<Rightarrow> 'c cluster" where
  "set_con n c = node_update n (\<lambda>nd. nd\<lparr>nd_con := c\<rparr>)"

definition ctx_get_by_node :: "('c, 'w) link \<Rightarrow> 'c cluster \<Rightarrow> nat \<Rightarrow> 'w \<Rightarrow> 'c cluster \<times> 'w \<times> 'c option" where
  "ctx_get_by_node lk cc n w =
     (let node = cc_heap cc ! n in
      case nd_con node of
        Some c \<Rightarrow>
          if lk_err lk c \<noteq> 0 then let (c, w) = lk_reconnect lk c w in (set_con n (Some c) cc, w, Some c)
          else (cc, w, Some c)
      | None \<Rightarrow>
          (case nd_host node of
             None \<Rightarrow> (cc, w, None)
           | Some host \<Rightarrow>
               if nd_port node \<le> 0 then (cc, w, None)
               else let (c, w) = lk_connect lk host (nd_port node) w in (set_con n c cc, w, c)))"

text \<open>\<open>redisCommand\<close> on the connection of a node.\<close>

definition node_command ::
    "('c, 'w) link \<Rightarrow> 'c cluster \<Rightarrow> nat \<Rightarrow> 'c \<Rightarrow> bytes \<Rightarrow> 'w \<Rightarrow> ('c cluster \<times> 'w \<times> 'c \<times> rtree option) run" where
  "node_command lk cc n c cmd w =
     run_then (lk_command lk c cmd w) (\<lambda>(c, w, reply). Done (set_con n (Some c) cc, w, c, reply))"

definition pong :: "rtree option \<Rightarrow> bool" where
  "pong reply =
     (case reply of
        None \<Rightarrow> False
      | Some r \<Rightarrow> rt_type r = REDIS_REPLY_STATUS \<and> (case rt_str r of None \<Rightarrow> False | Some t \<Rightarrow> cstr t = ''PONG''))"

fun first_connected :: "('c, 'w) link \<Rightarrow> nat list \<Rightarrow> 'c cluster \<Rightarrow> 'w \<Rightarrow> ('c cluster \<times> 'w \<times> nat option) run" where
  "first_connected lk [] cc w = Done (cc, w, None)"
| "first_connected lk (n # ns) cc w =
     (case ctx_get_by_node lk cc n w of
        (cc, w, None) \<Rightarrow> first_connected lk ns cc w
      | (cc, w, Some c) \<Rightarrow>
          if lk_err lk c \<noteq> 0 then first_connected lk ns cc w
          else run_then (node_command lk cc n c REDIS_COMMAND_PING w) (\<lambda>(cc, w, _, reply).
            if pong reply then Done (cc, w, Some n) else first_connected lk ns cc w))"

definition node_get_witch_connected :: "('c, 'w) link \<Rightarrow> 'c cluster \<Rightarrow> 'w \<Rightarrow> ('c cluster \<times> 'w \<times> nat option) run" where
  "node_get_witch_connected lk cc w =
     (case cc_nodes cc of
        None \<Rightarrow> Done (cc, w, None)
      | Some d \<Rightarrow> first_connected lk (map snd (dict_entries d)) cc w)"

section \<open>Redirections\<close>

text \<open>The node an ASK error names. A node that is not known is entered, but under the second word of the
  error, which is the slot; an address that is there already is not replaced.\<close>

definition node_get_by_ask_error_reply :: "heap \<Rightarrow> 'c cluster \<Rightarrow> rtree \<Rightarrow> ('c cluster \<times> nat option) run" where
  "node_get_by_ask_error_reply mem cc reply =
     (if cluster_reply_error_type reply \<noteq> CLUSTER_ERR_ASK then
        Done (cluster_error_set cc REDIS_ERR_OTHER ''reply is not ask error!'', None)
      else case split_text mem (reply_text reply) '' '' of
        Some [_, slot, addr] \<Rightarrow>
          (case split_text mem addr '':'' of
             Some [host, port] \<Rightarrow>
               (case cc_nodes cc of
                  None \<Rightarrow> Undefined
                | Some d \<Rightarrow>
                    (case dictFind d addr of
                       Some (_, m) \<Rightarrow> Done (cc, Some m)
                     | None \<Rightarrow>
                         if mem 96 = None then Done (cluster_error_set cc REDIS_ERR_OOM ''Out of memory'', None)
                         else let n = length (cc_heap cc);
                                  node = (new_node REDIS_ROLE_MASTER)\<lparr>nd_addr := slot, nd_host := Some host,
                                    nd_port := hi_atoi port (length port), nd_slots := None\<rparr> in
                           (case dictAdd d slot n of
                              None \<Rightarrow> Undefined
                            | Some (_, d) \<Rightarrow> Done (cc\<lparr>cc_heap := cc_heap cc @ [node], cc_nodes := Some d\<rparr>, Some n))))
           | _ \<Rightarrow> Done (cluster_error_set cc REDIS_ERR_OTHER ''ask error reply address part parse error!'', None))
      | _ \<Rightarrow> Done (cluster_error_set cc REDIS_ERR_OTHER ''ask error reply parse error!'', None))"

text \<open>The node a command for a slot is sent to, with its connection; none when the code returns NULL.\<close>

definition acquire :: "('c, 'w) link \<Rightarrow> 32 word \<Rightarrow> 'c cluster \<Rightarrow> 'w \<Rightarrow> ('c cluster \<times> 'w \<times> (nat \<times> 'c) option) run" where
  "acquire lk slot_num cc w =
     (case node_get_by_table cc slot_num of
        None \<Rightarrow> Done (cluster_error_set cc REDIS_ERR_OTHER ''node get by table error'', w, None)
      | Some n \<Rightarrow>
          (case ctx_get_by_node lk cc n w of
             (cc, w, None) \<Rightarrow> Done (cluster_error_set cc REDIS_ERR_OTHER ''ctx get by node is null'', w, None)
           | (cc, w, Some c) \<Rightarrow>
               if lk_err lk c = 0 then Done (cc, w, Some (n, c))
               else run_then (node_get_witch_connected lk cc w) (\<lambda>(cc, w, found).
                 case found of
                   None \<Rightarrow> Done (cluster_error_set cc REDIS_ERR_OTHER ''no reachable node in cluster'', w, None)
                 | Some m \<Rightarrow>
                     let cc = cc\<lparr>cc_retry_count := cc_retry_count cc + 1\<rparr> in
                     if cc_retry_count cc > cc_max_redirect_count cc then
                       Done (cluster_error_set cc REDIS_ERR_CLUSTER_TOO_MANY_REDIRECT ''too many cluster redirect'', w, None)
                     else case ctx_get_by_node lk cc m w of
                       (cc, w, None) \<Rightarrow> Done (cluster_error_set cc REDIS_ERR_OTHER ''ctx get by node error'', w, None)
                     | (cc, w, Some c) \<Rightarrow>
                         if lk_err lk c \<noteq> 0 then Done (cluster_error_set cc (lk_err lk c) (lk_errstr lk c), w, None)
                         else Done (cc, w, Some (m, c)))))"

text \<open>\<open>__redisBlockForReply\<close>\<close>

definition block_for_reply :: "('c, 'w) link \<Rightarrow> 'c \<Rightarrow> 'w \<Rightarrow> ('c \<times> 'w \<times> rtree option) run" where
  "block_for_reply lk c w =
     (if lk_blocks lk c then run_then (lk_reply lk c w) (\<lambda>(c, w, ok, reply). Done (c, w, if ok then reply else None))
      else Done (c, w, None))"

text \<open>Sending the command and waiting for the reply, from the label \<open>ask_retry\<close> on.\<close>

definition exchange :: "('c, 'w) link \<Rightarrow> bytes \<Rightarrow> nat \<Rightarrow> 'c \<Rightarrow> 'c cluster \<Rightarrow> 'w \<Rightarrow> ('c cluster \<times> 'w \<times> rtree option) run" where
  "exchange lk cmd n c cc w =
     run_then (lk_append lk c cmd) (\<lambda>(c, ok).
       let cc = set_con n (Some c) cc in
       if \<not> ok then Done (cluster_error_set cc (lk_err lk c) (lk_errstr lk c), w, None)
       else run_then (block_for_reply lk c w) (\<lambda>(c, w, reply).
         let cc = set_con n (Some c) cc in
         if reply = None then Done (cluster_error_set cc (lk_err lk c) (lk_errstr lk c), w, None)
         else Done (cc, w, reply)))"

text \<open>What follows the reply: return it, go to \<open>retry\<close>, or go to \<open>ask_retry\<close> with a connection.\<close>

datatype 'c next_step = Return "rtree option" | Retry | Ask_retry nat 'c

definition after_ask :: "heap \<Rightarrow> ('c, 'w) link \<Rightarrow> rtree \<Rightarrow> 'c cluster \<Rightarrow> 'w \<Rightarrow> ('c cluster \<times> 'w \<times> 'c next_step) run" where
  "after_ask mem lk reply cc w =
     run_then (node_get_by_ask_error_reply mem cc reply) (\<lambda>(cc, node).
       case node of
         None \<Rightarrow> Done (cc, w, Return None)
       | Some m \<Rightarrow>
           (case ctx_get_by_node lk cc m w of
              (cc, w, None) \<Rightarrow> Done (cluster_error_set cc REDIS_ERR_OTHER ''ctx get by node error'', w, Return None)
            | (cc, w, Some c) \<Rightarrow>
                if lk_err lk c \<noteq> 0 then Done (cluster_error_set cc (lk_err lk c) (lk_errstr lk c), w, Return None)
                else run_then (node_command lk cc m c REDIS_COMMAND_ASKING w) (\<lambda>(cc, w, c, reply).
                  if reply = None then Done (cluster_error_set cc (lk_err lk c) (lk_errstr lk c), w, Return None)
                  else Done (cc, w, Ask_retry m c))))"

definition after_reply :: "heap \<Rightarrow> ('c, 'w) link \<Rightarrow> rtree \<Rightarrow> 'c cluster \<Rightarrow> 'w \<Rightarrow> ('c cluster \<times> 'w \<times> 'c next_step) run" where
  "after_reply mem lk reply cc w =
     (let error_type = cluster_reply_error_type reply in
      if error_type = CLUSTER_NOT_ERR \<or> error_type = CLUSTER_ERR_SENTINEL then Done (cc, w, Return (Some reply))
      else let cc = cc\<lparr>cc_retry_count := cc_retry_count cc + 1\<rparr> in
        if cc_retry_count cc > cc_max_redirect_count cc then
          Done (cluster_error_set cc REDIS_ERR_CLUSTER_TOO_MANY_REDIRECT ''too many cluster redirect'', w, Return None)
        else if error_type = CLUSTER_ERR_MOVED then
          run_then (cluster_update_route mem lk cc w) (\<lambda>(cc, w, ok).
            if ok then Done (cc, w, Retry)
            else Done (cluster_error_set cc REDIS_ERR_OTHER ''route update error, please recreate redisClusterContext!'', w, Return None))
        else if error_type = CLUSTER_ERR_ASK then after_ask mem lk reply cc w
        else Done (cc, w, Retry))"

text \<open>One turn from the label \<open>retry\<close> (no node given) or \<open>ask_retry\<close> (a node given).\<close>

definition execute_turn ::
    "heap \<Rightarrow> ('c, 'w) link \<Rightarrow> bytes \<Rightarrow> 32 word \<Rightarrow> (nat \<times> 'c) option \<Rightarrow> 'c cluster \<Rightarrow> 'w \<Rightarrow> ('c cluster \<times> 'w \<times> 'c next_step) run" where
  "execute_turn mem lk cmd slot_num start cc w =
     run_then (if start = None then acquire lk slot_num cc w else Done (cc, w, start)) (\<lambda>(cc, w, node).
       case node of
         None \<Rightarrow> Done (cc, w, Return None)
       | Some (n, c) \<Rightarrow>
           run_then (exchange lk cmd n c cc w) (\<lambda>(cc, w, reply).
             case reply of
               None \<Rightarrow> Done (cc, w, Return None)
             | Some r \<Rightarrow> after_reply mem lk r cc w))"

subsection \<open>The turns end\<close>

text \<open>Only the turns change the counter of retries and its limit.\<close>

definition limits :: "'c cluster \<Rightarrow> int \<times> int" where
  "limits cc = (cc_retry_count cc, cc_max_redirect_count cc)"

fun ends_in :: "('a \<Rightarrow> bool) \<Rightarrow> 'a run \<Rightarrow> bool" where
  "ends_in P (Done x) = P x"
| "ends_in P Undefined = True"
| "ends_in P Blocked = True"

lemma ends_in_mono: "ends_in P r \<Longrightarrow> (\<And>x. P x \<Longrightarrow> Q x) \<Longrightarrow> ends_in Q r"
  by (cases r) auto

lemma ends_in_True [simp]: "ends_in (\<lambda>_. True) r"
  by (cases r) auto

lemma ends_in_then: "ends_in P r \<Longrightarrow> (\<And>x. P x \<Longrightarrow> ends_in Q (f x)) \<Longrightarrow> ends_in Q (run_then r f)"
  by (cases r) auto

definition both :: "('a \<Rightarrow> bool) \<Rightarrow> ('b \<Rightarrow> bool) \<Rightarrow> 'a + 'b \<Rightarrow> bool" where
  "both P Q = case_sum P Q"

lemma both_simps [simp]: "both P Q (Inl x) = P x" "both P Q (Inr y) = Q y"
  by (simp_all add: both_def)

lemma ends_in_or_fail: "ends_in (both P Q) r \<Longrightarrow> (\<And>x. Q x \<Longrightarrow> ends_in (both P R) (f x)) \<Longrightarrow> ends_in (both P R) (or_fail r f)"
  by (rule or_fail.cases [of "(r, f)"]) auto

lemma limits_simps [simp]:
  "limits (cluster_error_set cc ty e) = limits cc" "limits (node_update n f cc) = limits cc"
  "limits (set_con n c cc) = limits cc" "limits (cc\<lparr>cc_heap := h\<rparr>) = limits cc" "limits (cc\<lparr>cc_nodes := d\<rparr>) = limits cc"
  "limits (cc\<lparr>cc_err := i\<rparr>) = limits cc" "limits (cc\<lparr>cc_errstr := t\<rparr>) = limits cc"
  "limits (cc\<lparr>cc_slots := s\<rparr>) = limits cc" "limits (cc\<lparr>cc_table := tb\<rparr>) = limits cc" "limits (cc\<lparr>cc_route_version := v\<rparr>) = limits cc"
  by (simp_all add: limits_def cluster_error_set_def node_update_def set_con_def)

abbreviation keeps :: "int \<times> int \<Rightarrow> ('c cluster \<Rightarrow> bool)" where
  "keeps L \<equiv> (\<lambda>cc. limits cc = L)"

abbreviation keeps_fst :: "int \<times> int \<Rightarrow> ('c cluster \<times> 'a \<Rightarrow> bool)" where
  "keeps_fst L \<equiv> (\<lambda>p. limits (fst p) = L)"

lemma ref_node_limits: "cluster_slot_ref_node mem s n cc = Some cc' \<Longrightarrow> limits cc' = limits cc"
  by (auto simp: cluster_slot_ref_node_def Let_def split: if_splits)

lemma add_slave_limits: "add_slave mem m n cc = Some cc' \<Longrightarrow> limits cc' = limits cc"
  by (auto simp: add_slave_def split: if_splits)

abbreviation result_keeps :: "int \<times> int \<Rightarrow> ('c cluster + 'c cluster \<times> 'a) run \<Rightarrow> bool" where
  "result_keeps L \<equiv> ends_in (both (keeps L) (keeps_fst L))"

lemma with_slots_limits: "limits cc = L \<Longrightarrow> result_keeps L (node_get_with_slots mem cc h p r)"
  by (simp add: node_get_with_slots_def)

lemma region_master_limits: "limits cc = L \<Longrightarrow> result_keeps L (region_master mem cc nodes slot ip port)"
  unfolding region_master_def
  by (auto split: option.splits dest!: ref_node_limits intro!: ends_in_or_fail [OF with_slots_limits])

lemma region_nodes_limits: "limits cc = L \<Longrightarrow> result_keeps L (region_nodes mem cc nodes slot master es)"
proof (induction es arbitrary: cc master nodes)
  case (Cons e es)
  note L = Cons.prems [symmetric]
  show ?case
    unfolding L by (cases e) (auto split: option.splits list.splits simp: Cons.IH [unfolded L] dest!: add_slave_limits
        intro!: ends_in_or_fail [OF region_master_limits] ends_in_or_fail [OF with_slots_limits])
qed simp

lemma parse_region_limits: "limits cc = L \<Longrightarrow> result_keeps L (parse_region mem cc nodes e)"
  by (auto simp: parse_region_def region_nodes_limits split: option.splits list.splits)

lemma parse_regions_limits: "limits cc = L \<Longrightarrow> result_keeps L (parse_regions mem cc nodes es)"
proof (induction es arbitrary: cc nodes)
  case (Cons e es)
  then show ?case by (cases e) (auto intro!: ends_in_or_fail [OF parse_region_limits])
qed simp

lemma parse_slots_limits: "limits cc = L \<Longrightarrow> result_keeps L (parse_cluster_slots mem cc r)"
  by (auto simp: parse_cluster_slots_def Let_def parse_regions_limits split: option.splits)

lemma with_nodes_limits: "limits cc = L \<Longrightarrow> result_keeps L (node_get_with_nodes mem cc part r)"
  by (auto simp: node_get_with_nodes_def split: option.splits list.splits)

lemma mapping_limits: "limits cc = L \<Longrightarrow> result_keeps L (cluster_master_slave_mapping_with_name mem cc names n t)"
  by (auto simp: cluster_master_slave_mapping_with_name_def Let_def split: option.splits dest: add_slave_limits)

lemma mapped_limits: "cluster_master_slave_mapping_with_name mem cc names n t = Done (Inr (cc', d)) \<Longrightarrow> limits cc' = limits cc"
  using mapping_limits [of cc "limits cc" mem names n t] by simp

lemma open_slot_limits: "limits cc = L \<Longrightarrow> ends_in (both (keeps L) (keeps L)) (open_slot mem cc m toks)"
  unfolding open_slot_def Let_def
  by (split list.split | split if_split | intro conjI allI impI | simp (no_asm_simp))+

lemma slot_field_limits: "limits cc = L \<Longrightarrow> ends_in (both (keeps L) (keeps L)) (parse_slot_field mem cc m f)"
  unfolding parse_slot_field_def Let_def
  by (auto split: option.splits prod.splits dest!: ref_node_limits intro!: ends_in_or_fail [where Q = "keeps L"] open_slot_limits)

lemma slot_fields_limits: "limits cc = L \<Longrightarrow> ends_in (both (keeps L) (keeps L)) (parse_slot_fields mem cc m fs)"
  by (induction fs arbitrary: cc) (auto intro!: ends_in_or_fail [OF slot_field_limits])


lemma parse_master_limits: "limits cc = L \<Longrightarrow> result_keeps L (parse_master mem cc nodes names part me)"
  unfolding parse_master_def
  by (auto split: option.splits run.splits sum.splits dest!: mapped_limits
      intro!: ends_in_or_fail [OF with_nodes_limits] ends_in_or_fail [OF slot_fields_limits])

lemma node_line_limits: "limits cc = L \<Longrightarrow> result_keeps L (parse_node_line mem cc nodes names line)"
  unfolding parse_node_line_def Let_def
  by (auto split: option.splits intro: parse_master_limits intro!: ends_in_or_fail [OF with_nodes_limits] ends_in_or_fail [OF mapping_limits])

lemma parse_lines_limits: "limits cc = L \<Longrightarrow> result_keeps L (parse_lines mem cc nodes names str a b)"
proof (induction mem cc nodes names str a b rule: parse_lines.induct)
  case (1 mem cc nodes names str a b)
  then show ?case
    by (subst parse_lines.simps) (auto intro!: ends_in_or_fail [OF node_line_limits])
qed

lemma collect_limits: "limits cc = L \<Longrightarrow> ends_in (both (keeps L) (\<lambda>_. True)) (collect_slots cc ms lit slots)"
  by (induction cc ms lit slots rule: collect_slots.induct) (auto simp: Let_def split: option.splits)

lemma swap_limits: "limits (swap_ctx d ts cc) = limits cc"
  by (induction d ts cc rule: swap_ctx.induct) (auto simp: Let_def split: option.splits)

lemma install_limits: "limits cc = L \<Longrightarrow> ends_in (both (keeps L) (keeps L)) (install_route cc nodes)"
  unfolding install_route_def
  by (auto simp: Let_def cluster_nodes_swap_ctx_def swap_limits split: option.splits intro!: ends_in_or_fail [OF collect_limits])

lemma route_nodes_limits: "limits cc = L \<Longrightarrow> result_keeps L (route_nodes mem lk cc c r)"
  by (auto simp: route_nodes_def no_reply_def refuse_reply_def parse_cluster_nodes_def parse_slots_limits parse_lines_limits split: option.splits)

lemma route_done_limits: "ends_in (both (keeps L) (keeps L)) r \<Longrightarrow> ends_in (keeps_fst L) (route_done w r)"
  by (rule route_done.cases [of "(w, r)"]) auto

lemma by_addr_limits: "limits cc = L \<Longrightarrow> ends_in (keeps_fst L) (cluster_update_route_by_addr mem lk cc ip port w)"
  unfolding cluster_update_route_by_addr_def
  by (auto simp: Let_def split: option.splits prod.splits
      intro!: ends_in_then [where P = "\<lambda>_. True"] route_done_limits ends_in_or_fail [OF route_nodes_limits] install_limits)


lemma from_nodes_limits: "limits cc = L \<Longrightarrow> ends_in (keeps_fst L) (update_from_nodes mem lk ns e cc w)"
proof (induction ns arbitrary: e cc w)
  case (Cons n ns)
  note L = Cons.prems [symmetric]
  show ?case
    unfolding L by (auto simp: Let_def Cons.IH [unfolded L] intro!: ends_in_then [OF by_addr_limits])
qed simp

lemma update_limits: "limits cc = L \<Longrightarrow> ends_in (keeps_fst L) (cluster_update_route mem lk cc w)"
  unfolding cluster_update_route_def Let_def
  by (rule ends_in_then [where P = "keeps_fst L"])
    (auto simp: by_addr_limits from_nodes_limits split: option.splits)

lemma ctx_limits: "ctx_get_by_node lk cc n w = (cc', w', c) \<Longrightarrow> limits cc' = limits cc"
  by (auto simp: ctx_get_by_node_def Let_def split: option.splits if_splits prod.splits)

lemma node_command_limits: "limits cc = L \<Longrightarrow> ends_in (keeps_fst L) (node_command lk cc n c cmd w)"
  unfolding node_command_def by (rule ends_in_then [where P = "\<lambda>_. True"]) auto

lemma first_connected_limits: "limits cc = L \<Longrightarrow> ends_in (keeps_fst L) (first_connected lk ns cc w)"
proof (induction ns arbitrary: cc w)
  case (Cons n ns)
  note L = Cons.prems [symmetric]
  show ?case
    unfolding L by (auto simp: Cons.IH [unfolded L] split: prod.splits option.splits dest!: ctx_limits
        intro!: ends_in_then [OF node_command_limits])
qed simp

lemma connected_limits: "limits cc = L \<Longrightarrow> ends_in (keeps_fst L) (node_get_witch_connected lk cc w)"
  by (simp add: node_get_witch_connected_def first_connected_limits split: option.splits)

lemma ask_limits: "limits cc = L \<Longrightarrow> ends_in (keeps_fst L) (node_get_by_ask_error_reply mem cc r)"
  by (auto simp: node_get_by_ask_error_reply_def Let_def split: option.splits list.splits)

text \<open>A turn that is followed by another has raised the counter.\<close>

definition raised :: "int \<times> int \<Rightarrow> int \<times> int \<Rightarrow> bool" where
  "raised L M \<longleftrightarrow> fst L < fst M \<and> fst M \<le> snd M \<and> snd M = snd L"

definition at_most :: "int \<times> int \<Rightarrow> int \<times> int \<Rightarrow> bool" where
  "at_most L M \<longleftrightarrow> L = M \<or> raised L M"

lemma acquire_limits: "ends_in (\<lambda>(cc', w', r). r \<noteq> None \<longrightarrow> at_most (limits cc) (limits cc')) (acquire lk s cc w)"
  unfolding acquire_def
  by (auto simp: Let_def at_most_def split: option.splits prod.splits dest!: ctx_limits
      intro!: ends_in_then [OF connected_limits]) (auto simp: limits_def raised_def)

lemma exchange_limits: "limits cc = L \<Longrightarrow> ends_in (keeps_fst L) (exchange lk cmd n c cc w)"
  unfolding exchange_def
  by (auto simp: Let_def intro!: ends_in_then [where P = "\<lambda>_. True"])

lemma after_ask_limits:
  "limits cc = L \<Longrightarrow> ends_in (\<lambda>(cc', _). limits cc' = L) (after_ask mem lk r cc w)"
  unfolding after_ask_def
  by (auto split: option.splits prod.splits dest!: ctx_limits
      intro!: ends_in_then [OF ask_limits] ends_in_then [OF node_command_limits])

abbreviation goes_on :: "'c next_step \<Rightarrow> bool" where
  "goes_on step \<equiv> (\<forall>r. step \<noteq> Return r)"

lemma after_reply_limits:
  "ends_in (\<lambda>(cc', w', step). goes_on step \<longrightarrow> raised (limits cc) (limits cc')) (after_reply mem lk r cc w)"
proof -
  let ?cc = "cc\<lparr>cc_retry_count := cc_retry_count cc + 1\<rparr>"
  have more: "raised (limits cc) (limits ?cc) \<or> cc_retry_count cc + 1 > cc_max_redirect_count cc"
    by (auto simp: raised_def limits_def)
  show ?thesis
    unfolding after_reply_def
    using more by (auto simp: Let_def intro!: ends_in_then [OF update_limits [OF refl]] ends_in_mono [OF after_ask_limits [OF refl]])
qed

lemma raised_again: "at_most L M \<Longrightarrow> raised M N \<Longrightarrow> raised L N"
  by (auto simp: at_most_def raised_def)

lemma turn_limits:
  "ends_in (\<lambda>(cc', w', step). goes_on step \<longrightarrow> raised (limits cc) (limits cc')) (execute_turn mem lk cmd s start cc w)"
proof -
  let ?got = "\<lambda>(cc', w', r). r \<noteq> None \<longrightarrow> at_most (limits cc) (limits cc')"
  have got: "ends_in ?got (if start = None then acquire lk s cc w else Done (cc, w, start))"
    using acquire_limits [of cc lk s w] by (auto simp: at_most_def)
  have rest: "ends_in (\<lambda>(cc', w', step). goes_on step \<longrightarrow> raised (limits cc) (limits cc'))
      (run_then (exchange lk cmd n c cc1 w1) (\<lambda>(cc, w, reply).
         case reply of None \<Rightarrow> Done (cc, w, Return None) | Some r \<Rightarrow> after_reply mem lk r cc w))"
    if "at_most (limits cc) (limits cc1)" for cc1 w1 n c
    using that by (auto split: option.splits intro!: ends_in_then [OF exchange_limits [OF refl]]
        ends_in_mono [OF after_reply_limits]) (erule (1) raised_again)
  show ?thesis
    unfolding execute_turn_def by (rule ends_in_then [OF got]) (auto split: option.splits intro!: rest)
qed

lemma turn_counts:
  assumes "execute_turn mem lk cmd s start cc w = Done (cc', w', step)" "goes_on step"
  shows "nat (cc_max_redirect_count cc' - cc_retry_count cc') < nat (cc_max_redirect_count cc - cc_retry_count cc)"
  using turn_limits [of cc mem lk cmd s start w] assms by (auto simp: raised_def limits_def)

text \<open>\<open>redis_cluster_command_execute\<close>: every turn that goes on raises the counter of retries, which stays
  within its limit.\<close>

lemma run_then_cong [fundef_cong]: "m = m' \<Longrightarrow> (\<And>x. m' = Done x \<Longrightarrow> f x = g x) \<Longrightarrow> run_then m f = run_then m' g"
  by (cases m') auto

function execute ::
    "heap \<Rightarrow> ('c, 'w) link \<Rightarrow> bytes \<Rightarrow> 32 word \<Rightarrow> (nat \<times> 'c) option \<Rightarrow> 'c cluster \<Rightarrow> 'w \<Rightarrow> ('c cluster \<times> 'w \<times> rtree option) run" where
  "execute mem lk cmd slot_num start cc w =
     run_then (execute_turn mem lk cmd slot_num start cc w) (\<lambda>(cc', w', step).
       case step of
         Return reply \<Rightarrow> Done (cc', w', reply)
       | Retry \<Rightarrow> execute mem lk cmd slot_num None cc' w'
       | Ask_retry n c \<Rightarrow> execute mem lk cmd slot_num (Some (n, c)) cc' w')"
  by pat_completeness auto
termination
  by (relation "measure (\<lambda>(mem, lk, cmd, s, start, cc, w). nat (cc_max_redirect_count cc - cc_retry_count cc))")
    (auto dest!: turn_counts)

declare execute.simps [simp del]

definition redis_cluster_command_execute ::
    "heap \<Rightarrow> ('c, 'w) link \<Rightarrow> cmd \<Rightarrow> 'c cluster \<Rightarrow> 'w \<Rightarrow> ('c cluster \<times> 'w \<times> rtree option) run" where
  "redis_cluster_command_execute mem lk command cc w =
     execute mem lk (c_cmd command) (word_of_int (c_slot_num command)) None cc w"

section \<open>Blocking commands\<close>

text \<open>The allocator behind the requests; its failures are those of the heap.\<close>

definition allocates :: "heap \<Rightarrow> allocator" where
  "allocates mem n \<longleftrightarrow> mem n \<noteq> None"

definition error_left :: "cluster_error option \<Rightarrow> 'c cluster \<Rightarrow> 'c cluster" where
  "error_left e cc = (case e of None \<Rightarrow> cc | Some (ty, str) \<Rightarrow> cluster_error_set cc ty str)"

text \<open>The sub commands one after the other: their replies, or the value to return.\<close>

fun execute_all ::
    "heap \<Rightarrow> ('c, 'w) link \<Rightarrow> cmd list \<Rightarrow> 'c cluster \<Rightarrow> 'w \<Rightarrow> ('c cluster \<times> 'w \<times> (rtree option + (nat \<times> rtree option) list)) run" where
  "execute_all mem lk [] cc w = Done (cc, w, Inr [])"
| "execute_all mem lk (c # cs) cc w =
     run_then (redis_cluster_command_execute mem lk c cc w) (\<lambda>(cc, w, reply).
       case reply of
         None \<Rightarrow> Done (cc, w, Inl None)
       | Some r \<Rightarrow>
           if rt_type r = REDIS_REPLY_ERROR then Done (cc, w, Inl (Some r))
           else run_then (execute_all mem lk cs cc w) (\<lambda>(cc, w, rest).
             Done (cc, w, case rest of Inl e \<Rightarrow> Inl e | Inr rs \<Rightarrow> Inr ((nat (c_slot_num c), Some r) # rs))))"

text \<open>What the labels \<open>done\<close> and \<open>error\<close> do; the latter returns NULL.\<close>

definition finish_command :: "'c cluster \<Rightarrow> 'w \<Rightarrow> rtree option \<Rightarrow> ('c cluster \<times> 'w \<times> rtree option) run" where
  "finish_command cc w reply = Done (cc\<lparr>cc_retry_count := 0\<rparr>, w, reply)"

definition redisClusterFormattedCommand ::
    "heap \<Rightarrow> bytes \<Rightarrow> u64 \<Rightarrow> ('c, 'w) link \<Rightarrow> 'c cluster \<Rightarrow> bytes \<Rightarrow> int \<Rightarrow> 'w \<Rightarrow> ('c cluster \<times> 'w \<times> rtree option) run" where
  "redisClusterFormattedCommand mem num cmd_id lk cc cmd len w =
     (let cc = (if cc_err cc \<noteq> 0 then cc\<lparr>cc_err := 0, cc_errstr := []\<rparr> else cc) in
      case new_command (allocates mem) cmd_id of
        None \<Rightarrow> Done (cluster_error_set cc REDIS_ERR_OOM ''Out of memory'', w, None)
      | Some (command, cmd_id) \<Rightarrow>
          if mem 48 = None then finish_command (cluster_error_set cc REDIS_ERR_OOM ''Out of memory'') w None
          else case command_format_by_slot (allocates mem) num cmd_id (command\<lparr>c_cmd := cmd, c_clen := word_of_int len\<rparr>) of
            None \<Rightarrow> Undefined
          | Some s \<Rightarrow>
              let cc = error_left (sp_error s) cc in
              if sp_slot s < 0 then finish_command cc w None
              else if sp_slot s \<ge> int REDIS_CLUSTER_SLOTS then
                finish_command (cluster_error_set cc REDIS_ERR_OTHER ''slot_num is out of range'') w None
              else if sp_commands s = [] then
                run_then (redis_cluster_command_execute mem lk (sp_command s) cc w) (\<lambda>(cc, w, reply). finish_command cc w reply)
              else run_then (execute_all mem lk (sp_commands s) cc w) (\<lambda>(cc, w, res).
                case res of
                  Inl reply \<Rightarrow> finish_command cc w reply
                | Inr subs \<Rightarrow>
                    (case sp_seq s of
                       None \<Rightarrow> Undefined
                     | Some sq \<Rightarrow>
                         (case command_post_fragment (allocates mem) (sp_command s) sq subs of
                            None \<Rightarrow> Undefined
                          | Some (e, reply) \<Rightarrow> finish_command (error_left e cc) w reply))))"

definition redisClustervCommand ::
    "heap \<Rightarrow> (bytes \<Rightarrow> vararg \<Rightarrow> bytes) \<Rightarrow> bytes \<Rightarrow> u64 \<Rightarrow> ('c, 'w) link \<Rightarrow> 'c cluster \<Rightarrow> bytes \<Rightarrow> vararg list \<Rightarrow> 'w
      \<Rightarrow> ('c cluster \<times> 'w \<times> rtree option) run" where
  "redisClustervCommand mem pf num cmd_id lk cc format ap w =
     (case redisvFormatCommand mem pf True format ap of
        None \<Rightarrow> Undefined
      | Some (len, cmd) \<Rightarrow>
          if len = -1 then Done (cluster_error_set cc REDIS_ERR_OOM ''Out of memory'', w, None)
          else if len = -2 then Done (cluster_error_set cc REDIS_ERR_OTHER ''Invalid format string'', w, None)
          else (case cmd of
                  None \<Rightarrow> Undefined
                | Some t \<Rightarrow> redisClusterFormattedCommand mem num cmd_id lk cc (take (nat len) t) len w))"

definition redisClusterCommand ::
    "heap \<Rightarrow> (bytes \<Rightarrow> vararg \<Rightarrow> bytes) \<Rightarrow> bytes \<Rightarrow> u64 \<Rightarrow> ('c, 'w) link \<Rightarrow> 'c cluster \<Rightarrow> bytes \<Rightarrow> vararg list \<Rightarrow> 'w
      \<Rightarrow> ('c cluster \<times> 'w \<times> rtree option) run" where
  "redisClusterCommand = redisClustervCommand"

definition redisClusterCommandArgv ::
    "heap \<Rightarrow> bytes \<Rightarrow> u64 \<Rightarrow> ('c, 'w) link \<Rightarrow> 'c cluster \<Rightarrow> bytes list \<Rightarrow> nat list option \<Rightarrow> 'w
      \<Rightarrow> ('c cluster \<times> 'w \<times> rtree option) run" where
  "redisClusterCommandArgv mem num cmd_id lk cc argv argvlen w =
     (case redisFormatCommandArgv mem True argv argvlen of
        None \<Rightarrow> Undefined
      | Some (len, cmd) \<Rightarrow>
          if len = -1 then Done (cluster_error_set cc REDIS_ERR_OOM ''Out of memory'', w, None)
          else (case cmd of
                  None \<Rightarrow> Undefined
                | Some t \<Rightarrow> redisClusterFormattedCommand mem num cmd_id lk cc (take (nat len) t) len w))"

end
