(* ===== verification/ReaderChunks.thy ===== *)
theory ReaderChunks
  imports ReaderSpec
begin

text \<open>
  How the bytes of a reply are cut into chunks does not matter: on more input the machine of
  \<open>ReaderSpec\<close> does what it did on less, and goes on from there.
\<close>

section \<open>Chunks\<close>

text \<open>
  Bytes that arrive later do not change what was parsed: an item that is complete is complete
  with more input, one that has failed has failed, and one that waits is taken up again.
\<close>

abbreviation more :: "bytes \<Rightarrow> parser \<Rightarrow> parser" where
  "more c p \<equiv> p\<lparr>ps_input := ps_input p @ c\<rparr>"

lemma more_next: "p_next (more c p) = map_option (more c) (p_next p)"
  by (auto simp: p_next_def split: option.split)

lemma more_sel [simp]: "p_task (p\<lparr>ps_input := x\<rparr>) = p_task p"
  by (simp add: p_task_def)

lemma more_root [simp]: "p_root (p\<lparr>ps_input := x\<rparr>) st a = (p_root p st a)\<lparr>ps_input := x\<rparr>"
  by (simp add: p_root_def)

lemma p_root_input [simp]: "ps_input (p_root p st a) = ps_input p"
  by (simp add: p_root_def)

lemma more_fail [simp]: "p_fail (p\<lparr>ps_input := x\<rparr>) ty str = p_fail p ty str"
  by (simp add: p_fail_def)

definition grows :: "bytes \<Rightarrow> (parser \<times> bool) option \<Rightarrow> (parser \<times> bool) option" where
  "grows c res = map_option (\<lambda>(p, ok). (if ok then more c p else p, ok)) res"

lemma more_finish: "p_finish (more c p) obj = grows c (p_finish p obj)"
proof -
  have "p_next (p_root (more c p) st a) = map_option (more c) (p_next (p_root p st a))" for st a
    using more_next [of "p_root p st a" c] by simp
  then show ?thesis
    by (auto simp: p_finish_def grows_def option.map_comp o_def split: option.split)
qed


lemma more_line:
  assumes f: "find_crlf (ps_input p) = Some n"
  shows "p_line mem (more c p) n = grows c (p_line mem p n)"
proof -
  have n: "n + 2 \<le> length (ps_input p)" "CR \<in> set (ps_input p)"
    using find_crlf_bound [OF f] by (auto simp: in_set_conv_nth intro!: exI [of _ n])
  show ?thesis
  proof (cases "t_type (p_task p) = REDIS_REPLY_INTEGER")
    case True
    then show ?thesis
      using n more_finish [of "p\<lparr>ps_input := drop (n + 2) (ps_input p)\<rparr>" c]
      by (cases "readLongLong (ps_input p)") (simp_all add: p_line_def Let_def readLongLong_append grows_def)
  next
    case False
    then show ?thesis
      using n more_finish [of "p\<lparr>ps_input := drop (n + 2) (ps_input p)\<rparr>" c]
      by (simp add: p_line_def Let_def)
  qed
qed

lemma more_array:
  assumes f: "find_crlf (ps_input p) = Some n"
  shows "p_array mem (more c p) n = grows c (p_array mem p n)"
proof -
  have n: "n + 2 \<le> length (ps_input p)" "CR \<in> set (ps_input p)"
    using find_crlf_bound [OF f] by (auto simp: in_set_conv_nth intro!: exI [of _ n])
  let ?q = "p\<lparr>ps_input := drop (n + 2) (ps_input p)\<rparr>"
  have nx: "p_next (p_root (more c ?q) st a) = map_option (more c) (p_next (p_root ?q st a))" for st a
    using more_next [of "p_root ?q st a" c] by simp
  have pu: "p_push (p_root (more c ?q) st a) k a = more c (p_push (p_root ?q st a) k a)" for st a k
    by (simp add: p_push_def p_root_def Let_def)
  have q: "drop (n + 2) (ps_input p @ c) = drop (n + 2) (ps_input p) @ c" using n(1) by simp
  show ?thesis
    using more_finish [of ?q c] nx pu n
    by (auto simp: p_array_def Let_def readLongLong_append q grows_def option.map_comp o_def split: option.split)
qed

lemma more_bulk:
  assumes f: "find_crlf (ps_input p) = Some n"
  shows "case p_bulk mem p n of
           Some (p', False) \<Rightarrow> if p' = p then True else p_bulk mem (more c p) n = Some (p', False)
         | res \<Rightarrow> p_bulk mem (more c p) n = grows c res"
proof -
  have n: "n + 2 \<le> length (ps_input p)" "CR \<in> set (ps_input p)"
    using find_crlf_bound [OF f] by (auto simp: in_set_conv_nth intro!: exI [of _ n])
  show ?thesis
  proof (cases "readLongLong (ps_input p)")
    case None
    then show ?thesis using n by (simp add: p_bulk_def readLongLong_append grows_def)
  next
    case (Some len)
    define k where "k = n + 2 + nat len + 2"
    have d: "drop m (ps_input p @ c) = drop m (ps_input p) @ c" if "m \<le> length (ps_input p)" for m
      using that by simp
    have fin: "p_finish (p\<lparr>ps_input := drop m (ps_input p @ c)\<rparr>) obj
        = grows c (p_finish (p\<lparr>ps_input := drop m (ps_input p)\<rparr>) obj)" if "m \<le> length (ps_input p)" for m obj
      using more_finish [of "p\<lparr>ps_input := drop m (ps_input p)\<rparr>" c obj] d [OF that] by simp
    have g: "case res of Some (p', False) \<Rightarrow> if p' = p then True else x = Some (p', False) | res \<Rightarrow> x = grows c res"
      if "x = grows c res" for x res
      using that by (auto simp: grows_def split: option.split bool.split)
    have tk: "k \<le> length (ps_input p) \<Longrightarrow>
        take (nat len) (drop (n + 2) (ps_input p @ c)) = take (nat len) (drop (n + 2) (ps_input p))"
      using d [OF n(1)] by (simp add: k_def)
    consider "len < 0" | "\<not> len < 0" "len + 2 \<ge> 2 ^ 63" | "\<not> len < 0" "\<not> len + 2 \<ge> 2 ^ 63" "k \<le> length (ps_input p)"
      | "\<not> len < 0" "\<not> len + 2 \<ge> 2 ^ 63" "\<not> k \<le> length (ps_input p)" by blast
    then show ?thesis
    proof cases
      case 3
      then have k: "k \<le> length (ps_input p @ c)" by simp
      have sel: "ps_input (more c p) = ps_input p @ c" "ps_stack (more c p) = ps_stack p" "ps_store (more c p) = ps_store p"
        "more c p\<lparr>ps_input := x\<rparr> = p\<lparr>ps_input := x\<rparr>" for x by simp_all
      show ?thesis
        using 3 k by (intro g) (simp only: p_bulk_def Let_def Some readLongLong_append [OF n(2)] option.case
            sel more_sel tk fin if_False if_True flip: k_def)
    next
      case 4
      then show ?thesis using Some by (simp only: p_bulk_def Let_def option.case if_False flip: k_def) simp
    qed (use Some n fin [OF n(1)] in \<open>intro g, simp add: p_bulk_def Let_def readLongLong_append grows_def\<close>)+
  qed
qed


text \<open>How a result on some input relates to the result on more input; \<open>later\<close> is what the
  machine does when it is taken up again.\<close>

definition continues :: "bytes \<Rightarrow> (parser \<times> bool) option \<Rightarrow> (parser \<times> bool) option \<Rightarrow> (parser \<Rightarrow> (parser \<times> bool) option) \<Rightarrow> bool" where
  "continues c res res' later \<longleftrightarrow>
     (case res of
        None \<Rightarrow> res' = None
      | Some (p', True) \<Rightarrow> res' = Some (more c p', True)
      | Some (p', False) \<Rightarrow> if ps_err p' \<noteq> 0 then res' = Some (p', False) else res' = later (more c p'))"

lemma grows_continues:
  "(\<And>p'. res = Some (p', False) \<Longrightarrow> ps_err p' \<noteq> 0) \<Longrightarrow> continues c res (grows c res) later"
  by (auto simp: continues_def grows_def split: option.split bool.split)

lemma continues_cong:
  "continues c res res' f \<Longrightarrow>
   (\<And>p'. res = Some (p', False) \<Longrightarrow> ps_err p' = 0 \<Longrightarrow> f (more c p') = g (more c p')) \<Longrightarrow> continues c res res' g"
  by (auto simp: continues_def split: option.splits bool.splits if_splits)

lemma p_finish_fails: "p_finish p obj = Some (p', False) \<Longrightarrow> ps_err p' \<noteq> 0"
  by (auto simp: p_finish_def p_fail_def REDIS_ERR_OOM_def split: option.splits)

lemma more_typed:
  assumes e: "ps_err p = 0"
  shows "continues c (p_typed mem p) (p_typed mem (more c p)) (p_typed mem)"
proof -
  let ?ty = "t_type (p_task p)"
  have none: "continues c None None (p_typed mem)" by (simp add: continues_def)
  consider "?ty = REDIS_REPLY_ARRAY" "ps_ridx p = 8"
    | "?ty \<notin> {REDIS_REPLY_ERROR, REDIS_REPLY_STATUS, REDIS_REPLY_INTEGER, REDIS_REPLY_STRING, REDIS_REPLY_ARRAY}"
    | "\<not> (?ty = REDIS_REPLY_ARRAY \<and> ps_ridx p = 8)"
      "?ty \<in> {REDIS_REPLY_ERROR, REDIS_REPLY_STATUS, REDIS_REPLY_INTEGER, REDIS_REPLY_STRING, REDIS_REPLY_ARRAY}" by blast
  then show ?thesis
  proof cases
    case 1
    then show ?thesis by (simp add: p_typed_def Let_def continues_def)
      (simp add: p_fail_def REDIS_ERR_PROTOCOL_def)
  next
    case 2
    then show ?thesis using none by (auto simp: p_typed_def Let_def)
  next
    case 3
    have go: "p_typed mem q = (case find_crlf (ps_input q) of None \<Rightarrow> Some (q, False) | Some len \<Rightarrow>
        if ?ty = REDIS_REPLY_STRING then p_bulk mem q len
        else if ?ty = REDIS_REPLY_ARRAY then p_array mem q len else p_line mem q len)"
      if "p_task q = p_task p" "ps_ridx q = ps_ridx p" for q
      using 3 that by (auto simp: p_typed_def Let_def)
    show ?thesis
    proof (cases "find_crlf (ps_input p)")
      case None
      then show ?thesis using go [of p] e by (simp add: continues_def)
    next
      case (Some n)
      then have n': "find_crlf (ps_input (more c p)) = Some n" by (simp add: find_crlf_append)
      have gp: "p_typed mem p = (if ?ty = REDIS_REPLY_STRING then p_bulk mem p n
          else if ?ty = REDIS_REPLY_ARRAY then p_array mem p n else p_line mem p n)"
        using go [of p] Some by simp
      have gm: "p_typed mem (more c p) = (if ?ty = REDIS_REPLY_STRING then p_bulk mem (more c p) n
          else if ?ty = REDIS_REPLY_ARRAY then p_array mem (more c p) n else p_line mem (more c p) n)"
        using go [of "more c p"] n' by simp
      consider "?ty = REDIS_REPLY_STRING" | "?ty = REDIS_REPLY_ARRAY" "?ty \<noteq> REDIS_REPLY_STRING"
        | "?ty \<noteq> REDIS_REPLY_STRING" "?ty \<noteq> REDIS_REPLY_ARRAY" by blast
      then show ?thesis
      proof cases
        case 1
        have w: "ps_err p' = 0 \<Longrightarrow> p_typed mem p = Some (p', False) \<Longrightarrow> p' = p" for p'
          using p_typed_wait [of mem p p'] e by blast
        have "p_bulk mem p n = None \<Longrightarrow> p_bulk mem (more c p) n = None"
          "p_bulk mem p n = Some (p', True) \<Longrightarrow> p_bulk mem (more c p) n = Some (more c p', True)"
          "p_bulk mem p n = Some (p', False) \<Longrightarrow> p' \<noteq> p \<Longrightarrow> p_bulk mem (more c p) n = Some (p', False)" for p'
          using more_bulk [OF Some, of mem c] by (simp_all add: grows_def)
        then show ?thesis using 1 gp gm w e
          by (auto simp: continues_def split: option.split bool.split)
      next
        case 2
        have "p_array mem p n = Some (p', False) \<Longrightarrow> ps_err p' \<noteq> 0" for p'
          by (auto simp: p_array_def Let_def p_fail_def REDIS_ERR_OOM_def dest: p_finish_fails split: option.splits if_splits)
        then show ?thesis using 2 gp gm grows_continues more_array [OF Some] by simp
      next
        case 3
        have "p_line mem p n = Some (p', False) \<Longrightarrow> ps_err p' \<noteq> 0" for p'
          by (auto simp: p_line_def Let_def dest: p_finish_fails split: option.splits if_splits)
        then show ?thesis using 3 gp gm grows_continues more_line [OF Some] by simp
      qed
    qed
  qed
qed

lemma reply_type_byte_pos: "reply_type_byte b = Some ty \<Longrightarrow> 0 < ty"
  by (auto simp: reply_type_byte_def reply_types split: if_splits)

lemma p_item_typed: "\<not> t_type (p_task p) < 0 \<Longrightarrow> p_item mem p = p_typed mem p"
  by (simp add: p_item_def)

lemma more_item:
  assumes e: "ps_err p = 0" and k: "stack_ok p" "0 \<le> ps_ridx p"
  shows "continues c (p_item mem p) (p_item mem (more c p)) (p_item mem)"
proof (cases "t_type (p_task p) < 0")
  case False
  have w: "p_typed mem p = Some (p', False) \<Longrightarrow> ps_err p' = 0 \<Longrightarrow> p' = p" for p'
    using p_typed_wait e by blast
  have i: "p_item mem p = p_typed mem p" "p_item mem (more c p) = p_typed mem (more c p)"
    using False by (simp_all add: p_item_typed)
  show ?thesis unfolding i(1,2)
    by (rule continues_cong [OF more_typed [OF e, of c mem]]) (use w i in auto)
next
  case True
  show ?thesis
  proof (cases "ps_input p")
    case Nil
    then show ?thesis using True e by (simp add: p_item_def continues_def)
  next
    case (Cons b s)
    show ?thesis
    proof (cases "reply_type_byte b")
      case None
      then show ?thesis using True Cons by (simp add: p_item_def continues_def)
        (simp add: p_fail_def REDIS_ERR_PROTOCOL_def)
    next
      case (Some ty)
      let ?q = "p\<lparr>ps_input := s, ps_stack := (ps_stack p)[nat (ps_ridx p) := (p_task p)\<lparr>t_type := ty\<rparr>]\<rparr>"
      have "nat (ps_ridx p) < length (ps_stack p)" using k by (auto simp: stack_ok_def)
      then have q: "\<not> t_type (p_task ?q) < 0" using reply_type_byte_pos [OF Some] by (simp add: p_task_def)
      have comm: "more c ?q = p\<lparr>ps_input := s @ c, ps_stack := (ps_stack p)[nat (ps_ridx p) := (p_task p)\<lparr>t_type := ty\<rparr>]\<rparr>"
        by simp
      have i: "p_item mem p = p_typed mem ?q" "p_item mem (more c p) = p_typed mem (more c ?q)"
        unfolding comm using True Cons Some by (simp_all add: p_item_def)
      have w: "p_typed mem ?q = Some (p', False) \<Longrightarrow> ps_err p' = 0 \<Longrightarrow> p' = ?q" for p'
        using p_typed_wait [of mem ?q p'] e by simp
      have "p_item mem (more c ?q) = p_typed mem (more c ?q)"
        by (rule p_item_typed) (simp only: more_sel q not_False_eq_True)
      then have again: "p_typed mem (more c p') = p_item mem (more c p')"
        if "p_typed mem ?q = Some (p', False)" "ps_err p' = 0" for p'
        unfolding w [OF that] by (rule sym)
      have "ps_err ?q = 0" using e by simp
      from continues_cong [OF more_typed [OF this, of c mem] again] show ?thesis unfolding i .
    qed
  qed
qed

lemma more_loop:
  "ps_err p = 0 \<Longrightarrow> stack_ok p \<Longrightarrow>
   p_loop mem (more c p) =
     (case p_loop mem p of
        None \<Rightarrow> None
      | Some p1 \<Rightarrow> if ps_err p1 \<noteq> 0 then Some p1 else if ps_ridx p1 = -1 then Some (more c p1) else p_loop mem (more c p1))"
proof (induction mem p rule: p_loop.induct)
  case (1 mem p)
  show ?case
  proof (cases "ps_ridx p < 0")
    case True
    then show ?thesis using 1(2,3) by (subst (1 2) p_loop.simps) (simp add: stack_ok_def)
  next
    case False
    have k: "0 \<le> ps_ridx p" using False by simp
    have loop: "p_loop mem q = (case p_item mem q of None \<Rightarrow> None | Some (p', ok) \<Rightarrow> if ok then p_loop mem p' else Some p')"
      if "0 \<le> ps_ridx q" for q using that by (subst p_loop.simps) simp
    note m = more_item [OF 1(2,3) k, of c mem, unfolded continues_def]
    show ?thesis
    proof (cases "p_item mem p")
      case None
      then show ?thesis using m loop [OF k] loop [of "more c p"] k by simp
    next
      case (Some x)
      then obtain p' ok where x: "p_item mem p = Some (p', ok)" by (cases x) auto
      note st = p_item_stack [OF x 1(3)]
      show ?thesis
      proof (cases ok)
        case True
        have "ps_err p' = 0" using p_item_ok_err [of mem p p'] x True 1(2) by simp
        from 1(1) [OF False x refl True this st] show ?thesis
          using m x True loop [OF k] loop [of "more c p"] k by simp
      next
        case no: False
        show ?thesis
        proof (cases "ps_err p' = 0")
          case True
          have "0 \<le> ps_ridx p'"
          proof -
            have "p_typed mem q = Some (p', False) \<Longrightarrow> ps_err q = 0 \<Longrightarrow> p' = q" for q
              using p_typed_wait True by blast
            then show ?thesis using x no True k 1(2)
              by (fastforce simp: p_item_def p_fail_def REDIS_ERR_PROTOCOL_def split: if_splits list.splits option.splits)
          qed
          then show ?thesis using m x no True loop [OF k] loop [of "more c p"] loop [of "more c p'"] k by simp
        next
          case False
          then show ?thesis using m x no loop [OF k] loop [of "more c p"] k by simp
        qed
      qed
    qed
  qed
qed


lemma p_next_reply: "p_next p = Some p' \<Longrightarrow> ps_reply p' = ps_reply p"
  by (auto simp: p_next_def split: option.splits)

lemma p_item_reply:
  assumes "p_item mem p = Some (p', True)" "stack_ok p" "0 \<le> ps_ridx p"
  shows "ps_reply p' \<noteq> None"
proof -
  have r: "ps_reply (p_root q st a) \<noteq> None" if "ps_ridx q = ps_ridx p" "ps_reply q = ps_reply p" for q st a
    using assms(2,3) that by (auto simp: p_root_def stack_ok_def)
  have n: "ps_reply p' \<noteq> None" if "p_next (p_root q st a) = Some p'" "ps_ridx q = ps_ridx p" "ps_reply q = ps_reply p" for q st a
    using p_next_reply [OF that(1)] r [OF that(2,3)] by simp
  have f: "ps_reply p' \<noteq> None" if "p_finish q obj = Some (p', True)" "ps_ridx q = ps_ridx p" "ps_reply q = ps_reply p" for q obj
    using that(1) n [OF _ that(2,3)] by (auto simp: p_finish_def split: option.splits)
  have t: "ps_reply p' \<noteq> None" if q: "p_typed mem q = Some (p', True)" "ps_ridx q = ps_ridx p" "ps_reply q = ps_reply p" for q
  proof -
    have l: "p_line mem q k = Some (p', True) \<Longrightarrow> ps_reply p' \<noteq> None" for k
      by (auto simp: p_line_def Let_def q(2,3) dest!: f split: option.splits if_splits)
    have b: "p_bulk mem q k = Some (p', True) \<Longrightarrow> ps_reply p' \<noteq> None" for k
      by (auto simp: p_bulk_def Let_def q(2,3) dest!: f split: option.splits if_splits)
    have a: "p_array mem q k = Some (p', True) \<Longrightarrow> ps_reply p' \<noteq> None" for k
    proof -
      assume "p_array mem q k = Some (p', True)"
      let ?q = "q\<lparr>ps_input := drop (k + 2) (ps_input q)\<rparr>"
      have "ps_ridx ?q = ps_ridx p" "ps_reply ?q = ps_reply p" using q(2,3) by simp_all
      note rq = r [OF this] and nq = n [OF _ this] and fq = f [OF _ this]
      from \<open>p_array mem q k = Some (p', True)\<close> show ?thesis
        using rq nq fq unfolding p_array_def Let_def
        by (auto simp del: more_root simp: p_push_def Let_def split: option.splits if_splits)
    qed
    show ?thesis using q(1) l b a by (auto simp: p_typed_def Let_def split: if_splits option.splits)
  qed
  show ?thesis using assms(1) t by (auto simp: p_item_def split: if_splits list.splits option.splits)
qed

lemma p_loop_reply:
  "p_loop mem p = Some p' \<Longrightarrow> stack_ok p \<Longrightarrow> ps_err p = 0 \<Longrightarrow> 0 \<le> ps_ridx p \<or> ps_reply p \<noteq> None \<Longrightarrow>
   ps_err p' = 0 \<Longrightarrow> ps_ridx p' = -1 \<Longrightarrow> ps_reply p' \<noteq> None"
proof (induction mem p rule: p_loop.induct)
  case (1 mem p)
  show ?case
  proof (cases "ps_ridx p < 0")
    case True
    then show ?thesis using 1(2,5) by (subst (asm) p_loop.simps) auto
  next
    case False
    then obtain q ok where q: "p_item mem p = Some (q, ok)"
      using 1(2) by (subst (asm) p_loop.simps) (auto split: option.splits)
    show ?thesis
    proof (cases ok)
      case True
      have "p_loop mem q = Some p'" using 1(2) False q True by (subst (asm) p_loop.simps) simp
      moreover have "ps_reply q \<noteq> None" using p_item_reply q True 1(3) False by simp
      ultimately show ?thesis
        using 1(1) [OF False q refl True] p_item_stack [OF q 1(3)] p_item_ok_err [of mem p q] q True 1(4,6,7) by simp
    next
      case no: False
      then have p': "p' = q" using 1(2) False q by (subst (asm) p_loop.simps) simp
      have "p_typed mem r = Some (q, False) \<Longrightarrow> ps_err r = 0 \<Longrightarrow> q = r" for r
        using p_typed_wait 1(6) p' by blast
      then have "0 \<le> ps_ridx q" using q no False 1(4,6) p'
        by (fastforce simp: p_item_def p_fail_def REDIS_ERR_PROTOCOL_def split: if_splits list.splits option.splits)
      then show ?thesis using 1(7) p' by simp
    qed
  qed
qed

text \<open>The reader between two calls.\<close>

definition at_rest :: "parser \<Rightarrow> bool" where
  "at_rest p \<longleftrightarrow> ps_err p = 0 \<and> stack_ok p \<and> 0 \<le> ps_ridx p"

lemma get_in_chunks:
  assumes "at_rest p"
  shows "p_get mem (p_feed p c) =
    (case p_get mem p of
       Some (p1, True, None) \<Rightarrow> p_get mem (p_feed p1 c)
     | Some (p1, True, Some a) \<Rightarrow> Some (p_feed p1 c, True, Some a)
     | res \<Rightarrow> res)"
proof -
  have e: "ps_err p = 0" "stack_ok p" "0 \<le> ps_ridx p" using assms by (simp_all add: at_rest_def)
  note m = more_loop [OF e(1,2), of mem c]
  show ?thesis
  proof (cases "p_loop mem p")
    case None
    then show ?thesis using m e by (simp add: p_get_def p_feed_def)
  next
    case (Some p1)
    show ?thesis
    proof (cases "ps_err p1 = 0")
      case False
      then show ?thesis using m e Some by (simp add: p_get_def p_feed_def)
    next
      case True
      have "ps_ridx p1 = -1 \<Longrightarrow> \<exists>a. ps_reply p1 = Some a" using p_loop_reply [OF Some e(2,1)] e(3) True by simp
      then show ?thesis using m e Some True by (auto simp: p_get_def p_feed_def p_start_def)
    qed
  qed
qed

lemma machine_at_rest: "reader_ok r \<Longrightarrow> rd_err r = 0 \<Longrightarrow> at_rest (machine r)"
  using p_start_waits [of "abs_reader r"] by (simp add: reader_ok_def machine_def at_rest_def) (simp add: p_start_def)


section \<open>Any number of chunks\<close>

text \<open>A consumer that asks after every chunk and stops at the first reply.\<close>

fun deliver :: "('s \<Rightarrow> ('s \<times> bool \<times> 'a option) option) \<Rightarrow> ('s \<Rightarrow> bytes \<Rightarrow> 's) \<Rightarrow> 's \<Rightarrow> bytes list
    \<Rightarrow> ('s \<times> bool \<times> 'a option) option" where
  "deliver get feed s [] = get s"
| "deliver get feed s (c # cs) =
     (case get s of
        Some (s1, True, None) \<Rightarrow> deliver get feed (feed s1 c) cs
      | Some (s1, True, Some a) \<Rightarrow> Some (feed s1 (concat (c # cs)), True, Some a)
      | res \<Rightarrow> res)"

locale chunked =
  fixes get :: "'s \<Rightarrow> ('s \<times> bool \<times> 'a option) option"
    and feed :: "'s \<Rightarrow> bytes \<Rightarrow> 's"
    and resting :: "'s \<Rightarrow> bool"
  assumes get_feed: "resting s \<Longrightarrow> get (feed s c) =
      (case get s of
         Some (s1, True, None) \<Rightarrow> get (feed s1 c)
       | Some (s1, True, Some a) \<Rightarrow> Some (feed s1 c, True, Some a)
       | res \<Rightarrow> res)"
    and feed_feed: "feed (feed s c) d = feed s (c @ d)"
    and feed_nothing: "feed s [] = s"
    and get_rests: "resting s \<Longrightarrow> get s = Some (s1, True, a) \<Longrightarrow> resting s1"
    and feed_rests: "resting s \<Longrightarrow> resting (feed s c)"
begin

lemma deliver_whole: "resting s \<Longrightarrow> deliver get feed s cs = get (feed s (concat cs))"
proof (induction cs arbitrary: s)
  case Nil
  then show ?case by (simp add: feed_nothing)
next
  case (Cons c cs)
  have IH: "get s = Some (s1, True, None) \<Longrightarrow> deliver get feed (feed s1 c) cs = get (feed s1 (c @ concat cs))" for s1
    using Cons.IH [of "feed s1 c"] get_rests [OF Cons.prems] feed_rests by (simp add: feed_feed)
  show ?case
    using IH get_feed [OF Cons.prems, of "c @ concat cs"]
    by (auto split: option.split bool.split)
qed

end

lemma get_at_rest: "at_rest p \<Longrightarrow> p_get mem p = Some (p1, True, a) \<Longrightarrow> at_rest p1"
proof -
  assume r: "at_rest p" and g: "p_get mem p = Some (p1, True, a)"
  then obtain q where q: "p_loop mem p = Some q" "ps_err q = 0"
    "p1 = (if ps_ridx q = -1 then p_start (q\<lparr>ps_reply := None\<rparr>) else q)"
    by (auto simp: p_get_def at_rest_def split: option.splits if_splits)
  have "stack_ok q" using p_loop_keeps [OF q(1)] r by (simp add: at_rest_def)
  then show ?thesis using q(2,3) by (auto simp: at_rest_def p_start_def stack_ok_def)
qed

interpretation reading: chunked "p_get mem" p_feed at_rest for mem
proof unfold_locales
  fix s c
  assume "at_rest s"
  then show "p_get mem (p_feed s c) =
      (case p_get mem s of
         Some (s1, True, None) \<Rightarrow> p_get mem (p_feed s1 c)
       | Some (s1, True, Some a) \<Rightarrow> Some (p_feed s1 c, True, Some a)
       | res \<Rightarrow> res)" by (rule get_in_chunks)
next
  show "at_rest s \<Longrightarrow> p_get mem s = Some (s1, True, a) \<Longrightarrow> at_rest s1" for s s1 a by (rule get_at_rest)
qed (auto simp: p_feed_def at_rest_def)

end
