(* ===== verification/Exchange.thy ===== *)
theory Exchange
  imports Connection ReaderChunks ReaderParse
begin

text \<open>
  What a blocking call does on a connection: the output buffer is flushed however the socket
  takes it, and the reply is the one the server's bytes encode however they arrive.
\<close>

section \<open>Writing\<close>

text \<open>The results of \<open>write\<close> take \<open>n\<close> bytes in all: some bytes each time, or an interrupted call.\<close>

fun takes_all :: "(nat + nat) list \<Rightarrow> nat \<Rightarrow> bool" where
  "takes_all [] n = (n = 0)"
| "takes_all (Inl e # evs) n = (0 < n \<and> e = EINTR \<and> takes_all evs n)"
| "takes_all (Inr k # evs) n = (0 < n \<and> k \<le> n \<and> takes_all evs (n - k))"

lemma flush_all:
  assumes "good_heap mem" "ample mem" "x_err c = 0" "x_obuf c = Some b" "sds_inv b"
    "length (sds_text b) < 2 ^ 31" "takes_all evs (length (sds_text b))" "nt_writes net = evs @ ws"
  shows "\<exists>e. sds_inv e \<and> sds_text e = [] \<and>
    write_until_done mem strerror c net
      = Done (c\<lparr>x_obuf := Some e\<rparr>, net\<lparr>nt_writes := ws, nt_sent := nt_sent net @ sds_text b\<rparr>, True)"
  using assms(3-8)
proof (induction evs "length (sds_text b)" arbitrary: c b net rule: takes_all.induct)
  case 1
  then have "redisBufferWrite mem strerror c net = Done (c, net, True, True)"
    using sds_inv_len(2) [OF 1(3)] by (simp add: redisBufferWrite_def write_finish_def)
  then show ?case using 1 by (subst write_until_done.simps) (auto intro!: exI [of _ b])
next
  case (2 e evs)
  then have "redisBufferWrite mem strerror c net = Done (c, net\<lparr>nt_writes := evs @ ws\<rparr>, False, True)"
    using sds_inv_len(2) [OF 2(4)] by (simp add: redisBufferWrite_def write_finish_def io_failure_def EINTR_def)
  then show ?case using 2(1) [of b c "net\<lparr>nt_writes := evs @ ws\<rparr>"] 2(2-7) by (subst write_until_done.simps) auto
next
  case (3 k evs)
  note l = sds_inv_len [OF 3(4)]
  have k: "0 < length (sds_text b)" "k \<le> length (sds_text b)" "takes_all evs (length (sds_text b) - k)" using 3(6) by auto
  have cut: "take k (s_buf b) = take k (sds_text b)"
    using k(2) l(1,4) by (simp add: sds_text_def min_def)
  have small: "to_int k = int k" "to_int (sdslen b) = int (length (sds_text b))"
    using k 3(5) l(2) by simp_all
  consider (zero) "k = 0" | (whole) "k = length (sds_text b)" | (part) "0 < k" "k < length (sds_text b)"
    using k by linarith
  then show ?case
  proof cases
    case zero
    then have "redisBufferWrite mem strerror c net = Done (c, net\<lparr>nt_writes := evs @ ws\<rparr>, False, True)"
      using 3 k l(2) by (simp add: redisBufferWrite_def write_finish_def)
    then show ?thesis
      using 3(1) [of b c "net\<lparr>nt_writes := evs @ ws\<rparr>"] 3(2-7) k zero by (subst write_until_done.simps) auto
  next
    case whole
    obtain e where e: "sdsempty mem = Some e" using sdsempty_total [OF assms(2)] by auto
    note et = sdsempty_text [OF assms(1) e]
    have "evs = []" using k(3) whole by (cases evs) (auto elim: takes_all.elims)
    then have "redisBufferWrite mem strerror c net
        = Done (c\<lparr>x_obuf := Some e\<rparr>, net\<lparr>nt_writes := ws, nt_sent := nt_sent net @ sds_text b\<rparr>, True, True)"
      using 3 whole l(2) small k(1) cut e et sds_inv_len(2) [of e]
      by (simp add: redisBufferWrite_def write_finish_def)
    then show ?thesis using et by (subst write_until_done.simps) auto
  next
    case part
    let ?b = "sdsrange b (int k) (-1)"
    have "slice_text (sds_text b) (int k) (-1) = drop k (sds_text b)"
      using k(2) by (auto simp: slice_text_def from_end_def)
    then have r: "sds_inv ?b" "sds_text ?b = drop k (sds_text b)" using sdsrange_text [OF 3(4)] by simp_all
    let ?c = "c\<lparr>x_obuf := Some ?b\<rparr>"
    let ?net = "net\<lparr>nt_writes := evs @ ws, nt_sent := nt_sent net @ take k (sds_text b)\<rparr>"
    have w: "redisBufferWrite mem strerror c net = Done (?c, ?net, False, True)"
      using 3 part l(2) small k(1) cut r sds_inv_len(2) [OF r(1)]
      by (simp add: redisBufferWrite_def write_finish_def)
    have "length (sds_text b) - k = length (sds_text ?b)" using r by simp
    from 3(1) [OF this, of ?c ?net] have "\<exists>e. sds_inv e \<and> sds_text e = [] \<and>
        write_until_done mem strerror ?c ?net = Done (c\<lparr>x_obuf := Some e\<rparr>,
          net\<lparr>nt_writes := ws, nt_sent := nt_sent net @ sds_text b\<rparr>, True)"
      using 3(2,5) r k(3) by simp
    then obtain e where e: "sds_inv e" "sds_text e = []"
        "write_until_done mem strerror ?c ?net = Done (c\<lparr>x_obuf := Some e\<rparr>,
          net\<lparr>nt_writes := ws, nt_sent := nt_sent net @ sds_text b\<rparr>, True)" by blast
    have "write_until_done mem strerror c net = Done (c\<lparr>x_obuf := Some e\<rparr>,
        net\<lparr>nt_writes := ws, nt_sent := nt_sent net @ sds_text b\<rparr>, True)"
      using w e(3) by (subst write_until_done.simps) simp
    then show ?thesis using e by blast
  qed
qed


section \<open>Reading\<close>

lemma p_item_wait_input:
  assumes "p_item mem p = Some (p', False)" "ps_err p' = 0" "ps_err p = 0"
  shows "length (ps_input p') \<le> length (ps_input p)"
proof (cases "t_type (p_task p) < 0")
  case True
  then show ?thesis using assms
    by (auto simp: p_item_def p_fail_def REDIS_ERR_PROTOCOL_def dest!: p_typed_wait
        split: list.splits option.splits)
next
  case False
  then show ?thesis using assms by (auto simp: p_item_def dest!: p_typed_wait)
qed

lemma p_loop_shorter:
  "p_loop mem p = Some p' \<Longrightarrow> ps_err p' = 0 \<Longrightarrow> ps_err p = 0 \<Longrightarrow> length (ps_input p') \<le> length (ps_input p)"
proof (induction mem p rule: p_loop.induct)
  case (1 mem p)
  show ?case
  proof (cases "ps_ridx p < 0")
    case True
    then show ?thesis using 1(2) by (subst (asm) p_loop.simps) simp
  next
    case False
    then obtain q ok where q: "p_item mem p = Some (q, ok)" using 1(2) by (subst (asm) p_loop.simps) (auto split: option.splits)
    show ?thesis
    proof (cases ok)
      case True
      then have "p_loop mem q = Some p'" using False q 1(2) by (subst (asm) p_loop.simps) simp
      moreover have "ps_err q = 0" using p_item_ok_err [of mem p q] q True 1(4) by simp
      ultimately show ?thesis using 1(1) [OF False q refl True] 1(3) p_item_shorter [of mem p q] q True by fastforce
    next
      case no: False
      then have "q = p'" using False q 1(2) by (subst (asm) p_loop.simps) simp
      then show ?thesis using p_item_wait_input [of mem p q] q no 1(3,4) by auto
    qed
  qed
qed

lemma p_get_shorter:
  "p_get mem p = Some (p', True, a) \<Longrightarrow> length (ps_input p') \<le> length (ps_input p)"
  by (auto simp: p_get_def p_start_def dest: p_loop_shorter split: if_splits option.splits)

text \<open>After a call without error the buffer holds less than 1024 bytes besides the unread ones.\<close>

lemma get_len:
  assumes "reader_ok r" "redisReaderGetReply mem r = Some (r', True, a)"
  shows "rd_err r' = 0" "rd_len r' < 1024 + length (ps_input (machine r'))"
proof -
  have "rd_err r' = 0 \<and> live r' \<and> rd_pos r' < 1024"
  proof (cases "rd_len r = 0")
    case True
    then show ?thesis using assms
      by (auto simp: redisReaderGetReply_def reader_ok_def live_def split: if_splits option.splits)
  next
    case False
    then obtain r1 where r1: "item_loop mem (start_task r) = Some r1" "rd_err r1 = 0" "rd_err r = 0"
        "r' = (if rd_ridx (discard_read r1) = -1 then discard_read r1\<lparr>rd_reply := None\<rparr> else discard_read r1)"
      using assms(2) by (auto simp: redisReaderGetReply_def Let_def split: if_splits option.splits)
    have "live (start_task r)" using assms(1) r1(3)
      by (auto simp: reader_ok_def start_task_def live_def split: option.splits)
    then have l: "live r1" using refine_loop r1(1,2) by blast
    have "rd_pos (discard_read r1) < 1024" using l by (auto simp: discard_read_def live_def Let_def split: option.splits)
    moreover note discard_live [OF l]
    ultimately show ?thesis using r1(2,4) by (auto simp: live_def split: option.splits)
  qed
  then have "rd_err r' = 0" "rd_pos r' < 1024" "length (unread r') = rd_len r' - rd_pos r'"
    using live_unread by auto
  moreover then have "ps_input (machine r') = unread r'" by (simp add: machine_def abs_reader_def p_start_def)
  ultimately show "rd_err r' = 0" "rd_len r' < 1024 + length (ps_input (machine r'))" by simp_all
qed

text \<open>A connection whose reader stands for the machine state \<open>p\<close>, and the calls of \<open>read\<close> that bring bytes.\<close>

definition settled :: "reader \<Rightarrow> parser \<Rightarrow> bool" where
  "settled r p \<longleftrightarrow> reader_ok r \<and> rd_err r = 0 \<and> machine r = p \<and> rd_len r \<le> 1024 + length (ps_input p)"

fun got :: "nat + bytes \<Rightarrow> bytes" where
  "got (Inl e) = []"
| "got (Inr t) = t"

fun brings :: "nat + bytes \<Rightarrow> bool" where
  "brings (Inl e) = (e = EINTR)"
| "brings (Inr t) = (t \<noteq> [] \<and> length t \<le> 1024 * 16)"

abbreviation arrived :: "(nat + bytes) list \<Rightarrow> bytes" where
  "arrived evs \<equiv> concat (map got evs)"

definition room :: "parser \<Rightarrow> bytes \<Rightarrow> bool" where
  "room p t \<longleftrightarrow> length (ps_input p) + length t + 1024 + SDS_MAX_PREALLOC < 2 ^ 31"

lemma machine_err: "ps_err (machine r) = rd_err r"
  by (simp add: machine_def p_start_def abs_reader_def)

text \<open>A program that asks its reader after every chunk and stops at the first reply.\<close>

fun consume :: "heap \<Rightarrow> reader \<Rightarrow> bytes list \<Rightarrow> (reader \<times> bool \<times> address option) option" where
  "consume mem r [] = redisReaderGetReply mem r"
| "consume mem r (t # ts) =
     (case redisReaderGetReply mem r of
        None \<Rightarrow> None
      | Some (r1, ok, aux) \<Rightarrow>
          if \<not> ok then Some (r1, False, None)
          else (case aux of
                  None \<Rightarrow>
                    (case redisReaderFeed mem r1 t of
                       None \<Rightarrow> None
                     | Some (r2, ok2) \<Rightarrow> if ok2 then consume mem r2 ts else Some (r2, False, None))
                | Some a \<Rightarrow> map_option (\<lambda>(r2, ok2). (r2, ok2, Some a)) (redisReaderFeed mem r1 (concat (t # ts)))))"

definition seen :: "(reader \<times> bool \<times> address option) option \<Rightarrow> (parser \<times> bool \<times> address option) option" where
  "seen res = map_option (\<lambda>(r, ok, a). (machine r, ok, a)) res"

lemma seen_get: "reader_ok r \<Longrightarrow> seen (redisReaderGetReply mem r) = p_get mem (machine r)"
  using refine_get [of r mem] by (simp add: seen_def)

lemma get_settled:
  assumes "reader_ok r" "redisReaderGetReply mem r = Some (r', True, a)"
  shows "settled r' (machine r')" "p_get mem (machine r) = Some (machine r', True, a)" "reader_ok r'"
proof -
  show "reader_ok r'" using refine_get [OF assms(1), of mem] assms(2) by blast
  then show "settled r' (machine r')" using get_len [OF assms] by (simp add: settled_def)
  show "p_get mem (machine r) = Some (machine r', True, a)" using seen_get [OF assms(1), of mem] assms(2) by (simp add: seen_def)
qed

lemma feed_settled:
  assumes "good_heap mem" "ample mem" "settled r p" "room p t"
  shows "\<exists>r'. redisReaderFeed mem r t = Some (r', True) \<and> reader_ok r' \<and> rd_err r' = 0 \<and> machine r' = p_feed p t"
proof -
  have "rd_len r + length t + SDS_MAX_PREALLOC < 2 ^ 31" using assms(3,4) by (simp add: settled_def room_def)
  then obtain r' where r': "redisReaderFeed mem r t = Some (r', True)" "reader_ok r'" "machine r' = p_feed p t"
    using refine_feed [OF assms(1,2), of r t] assms(3) by (auto simp: settled_def)
  have "ps_err p = 0" using assms(3) machine_err [of r] by (auto simp: settled_def)
  then have "rd_err r' = 0" using r'(3) machine_err [of r'] by (simp add: p_feed_def)
  then show ?thesis using r' by blast
qed

lemma consume_delivers:
  assumes h: "good_heap mem" "ample mem"
  shows "reader_ok r \<Longrightarrow> room (machine r) (concat ts) \<Longrightarrow> seen (consume mem r ts) = deliver (p_get mem) p_feed (machine r) ts"
proof (induction ts arbitrary: r)
  case Nil
  then show ?case by (simp add: seen_get)
next
  case (Cons t ts)
  show ?case
  proof (cases "redisReaderGetReply mem r")
    case None
    then show ?thesis using seen_get [OF Cons.prems(1), of mem] by (simp add: seen_def)
  next
    case (Some x)
    then obtain r1 ok aux where g: "redisReaderGetReply mem r = Some (r1, ok, aux)" by (cases x) auto
    have pg: "p_get mem (machine r) = Some (machine r1, ok, aux)"
      using seen_get [OF Cons.prems(1), of mem] g by (simp add: seen_def)
    show ?thesis
    proof (cases ok)
      case False
      then have "aux = None" using pg by (auto simp: p_get_def split: if_splits option.splits)
      then show ?thesis using g pg False by (simp add: seen_def)
    next
      case True
      have s: "settled r1 (machine r1)" using get_settled(1) [OF Cons.prems(1)] g True by simp
      have n: "room (machine r1) (t @ concat ts)"
        using p_get_shorter pg True Cons.prems(2) by (fastforce simp: room_def)
      show ?thesis
      proof (cases aux)
        case None
        have "room (machine r1) t" using n by (simp add: room_def)
        then obtain r2 where r2: "redisReaderFeed mem r1 t = Some (r2, True)" "reader_ok r2" "machine r2 = p_feed (machine r1) t"
          using feed_settled [OF h s] by blast
        have "room (machine r2) (concat ts)" using n r2(3) by (auto simp: room_def p_feed_def)
        then show ?thesis using Cons.IH [OF r2(2)] g pg None True r2 by simp
      next
        case (Some a)
        obtain r2 where "redisReaderFeed mem r1 (concat (t # ts)) = Some (r2, True)" "machine r2 = p_feed (machine r1) (concat (t # ts))"
          using feed_settled [OF h s] n by auto
        then show ?thesis using g pg Some True by (simp add: seen_def)
      qed
    qed
  qed
qed

lemma consume_whole:
  assumes "good_heap mem" "ample mem" "reader_ok r" "rd_err r = 0" "room (machine r) (concat ts)"
  shows "seen (consume mem r ts) = seen (consume mem r [concat ts])"
proof -
  note rest = machine_at_rest [OF assms(3,4)]
  have "room (machine r) (concat [concat ts])" using assms(5) by simp
  from consume_delivers [OF assms(1-3) this] consume_delivers [OF assms(1-3,5)] show ?thesis
    using reading.deliver_whole [OF rest, of mem ts] reading.deliver_whole [OF rest, of mem "[concat ts]"] by simp
qed

lemma read_brings:
  assumes h: "good_heap mem" "ample mem" and c: "x_err c = 0" "settled (x_reader c) p" and ev: "brings ev"
    and n: "room p (got ev)" and net: "nt_reads net = ev # evs"
  shows "\<exists>r. redisBufferRead mem strerror c net = Done (c\<lparr>x_reader := r\<rparr>, net\<lparr>nt_reads := evs\<rparr>, True)
    \<and> reader_ok r \<and> rd_err r = 0 \<and> machine r = p_feed p (got ev)"
proof (cases ev)
  case (Inl e)
  have "c\<lparr>x_reader := x_reader c\<rparr> = c" by simp
  then show ?thesis using Inl c ev net
    by (intro exI [of _ "x_reader c"])
       (auto simp: redisBufferRead_def io_failure_def settled_def p_feed_def)
next
  case (Inr t)
  then obtain r where "redisReaderFeed mem (x_reader c) t = Some (r, True)" "reader_ok r" "rd_err r = 0" "machine r = p_feed p t"
    using feed_settled [OF h c(2), of t] n by auto
  then show ?thesis using Inr ev net c by (auto simp: redisBufferRead_def)
qed

lemma reply_from_reader:
  assumes "reader_ok (x_reader c)" "p_get mem (machine (x_reader c)) = Some (q, True, a)"
  shows "\<exists>r. redisGetReplyFromReader mem c = Done (c\<lparr>x_reader := r\<rparr>, True, a) \<and> settled r q"
proof -
  have "seen (redisReaderGetReply mem (x_reader c)) = Some (q, True, a)"
    using seen_get [OF assms(1)] assms(2) by simp
  then obtain r where r: "redisReaderGetReply mem (x_reader c) = Some (r, True, a)" "machine r = q" by (auto simp: seen_def)
  then show ?thesis using get_settled(1) [OF assms(1) r(1)]
    by (intro exI [of _ r]) (simp add: redisGetReplyFromReader_def)
qed

text \<open>What one turn of the reading loop does, by what the machine gives on the bytes that came.\<close>

lemma turn_waits:
  assumes h: "good_heap mem" "ample mem" and c: "x_err c = 0" "settled (x_reader c) p" and ev: "brings ev"
    and n: "room p (got ev)" and net: "nt_reads net = ev # evs" and g: "p_get mem (p_feed p (got ev)) = Some (q, True, None)"
  shows "\<exists>r. read_until_reply mem strerror c net
      = read_until_reply mem strerror (c\<lparr>x_reader := r\<rparr>) (net\<lparr>nt_reads := evs\<rparr>) \<and> settled r q"
proof -
  obtain r1 where r1: "redisBufferRead mem strerror c net = Done (c\<lparr>x_reader := r1\<rparr>, net\<lparr>nt_reads := evs\<rparr>, True)"
    "reader_ok r1" "machine r1 = p_feed p (got ev)" using read_brings [OF h c ev n net] by blast
  obtain r2 where "redisGetReplyFromReader mem (c\<lparr>x_reader := r1\<rparr>) = Done (c\<lparr>x_reader := r2\<rparr>, True, None)" "settled r2 q"
    using reply_from_reader [of "c\<lparr>x_reader := r1\<rparr>" mem q None] r1(2,3) g by auto
  then show ?thesis using r1(1) by (subst read_until_reply.simps) auto
qed

lemma turn_ends:
  assumes h: "good_heap mem" "ample mem" and c: "x_err c = 0" "settled (x_reader c) p" and ev: "brings ev"
    and n: "room p (got ev)" and net: "nt_reads net = ev # evs" and g: "p_get mem (p_feed p (got ev)) = Some (q, True, Some a)"
  shows "\<exists>r. read_until_reply mem strerror c net = Done (c\<lparr>x_reader := r\<rparr>, net\<lparr>nt_reads := evs\<rparr>, True, Some a) \<and> settled r q"
proof -
  obtain r1 where r1: "redisBufferRead mem strerror c net = Done (c\<lparr>x_reader := r1\<rparr>, net\<lparr>nt_reads := evs\<rparr>, True)"
    "reader_ok r1" "machine r1 = p_feed p (got ev)" using read_brings [OF h c ev n net] by blast
  obtain r2 where "redisGetReplyFromReader mem (c\<lparr>x_reader := r1\<rparr>) = Done (c\<lparr>x_reader := r2\<rparr>, True, Some a)" "settled r2 q"
    using reply_from_reader [of "c\<lparr>x_reader := r1\<rparr>" mem q "Some a"] r1(2,3) g by auto
  then show ?thesis using r1(1) by (subst read_until_reply.simps) auto
qed

text \<open>
  The loop over the calls that bring bytes: when the bytes give no reply yet it goes on with
  the calls after them; when they give one it stops at the call that completes it, and what
  came later is left for the next reply.
\<close>

lemma feed_nothing [simp]: "p_feed p [] = p"
  by (simp add: p_feed_def)

lemma p_get_err: "p_get mem p = Some (q, True, a) \<Longrightarrow> ps_err q = 0"
  by (auto simp: p_get_def p_start_def split: if_splits option.splits)

lemma room_next:
  assumes "room p (got ev @ t)" "p_get mem (p_feed p (got ev)) = Some (q, True, a)"
  shows "room q t"
  using p_get_shorter [OF assms(2)] assms(1) by (auto simp: room_def p_feed_def split: if_splits)

lemma hungry_again: "at_rest p \<Longrightarrow> p_get mem p = Some (q, True, None) \<Longrightarrow> p_get mem q = Some (q, True, None)"
  using get_in_chunks [of p mem "[]"] get_at_rest [of p mem q None] by (simp add: p_feed_def at_rest_def)

lemma reading_loop:
  assumes h: "good_heap mem" "ample mem"
  shows "\<lbrakk> x_err c = 0; settled (x_reader c) p; list_all brings evs; room p (arrived evs);
      nt_reads net = evs @ rs; p_get mem p = Some (p, True, None);
      p_get mem (p_feed p (arrived evs)) = Some (q, True, None) \<rbrakk> \<Longrightarrow>
    \<exists>r. read_until_reply mem strerror c net
        = read_until_reply mem strerror (c\<lparr>x_reader := r\<rparr>) (net\<lparr>nt_reads := rs\<rparr>) \<and> settled r q"
    and "\<lbrakk> x_err c = 0; settled (x_reader c) p; list_all brings evs; room p (arrived evs);
      nt_reads net = evs @ rs; p_get mem p = Some (p, True, None);
      p_get mem (p_feed p (arrived evs)) = Some (q, True, Some a) \<rbrakk> \<Longrightarrow>
    \<exists>r late q'. read_until_reply mem strerror c net
        = Done (c\<lparr>x_reader := r\<rparr>, net\<lparr>nt_reads := late @ rs\<rparr>, True, Some a) \<and> settled r q'
      \<and> list_all brings late \<and> q = p_feed q' (arrived late)"
proof -
  have step: "\<lbrakk> at_rest p; p_get mem (p_feed p (got ev @ t)) = Some (q, True, a) \<rbrakk> \<Longrightarrow>
      (\<exists>q1. p_get mem (p_feed p (got ev)) = Some (q1, True, None) \<and> p_get mem q1 = Some (q1, True, None)
        \<and> p_get mem (p_feed q1 t) = Some (q, True, a))
      \<or> (\<exists>q1 x. p_get mem (p_feed p (got ev)) = Some (q1, True, Some x) \<and> q = p_feed q1 t \<and> a = Some x)" for p ev t q a
  proof -
    assume r: "at_rest p" and g: "p_get mem (p_feed p (got ev @ t)) = Some (q, True, a)"
    have r1: "at_rest (p_feed p (got ev))" using r by (auto simp: at_rest_def p_feed_def stack_ok_def)
    have "p_get mem (p_feed (p_feed p (got ev)) t) = Some (q, True, a)" using g r by (simp add: p_feed_def at_rest_def)
    with get_in_chunks [OF r1, of mem t] hungry_again [OF r1, of mem] show ?thesis
      by (auto split: option.splits bool.splits)
  qed
  show "\<lbrakk> x_err c = 0; settled (x_reader c) p; list_all brings evs; room p (arrived evs);
      nt_reads net = evs @ rs; p_get mem p = Some (p, True, None);
      p_get mem (p_feed p (arrived evs)) = Some (q, True, None) \<rbrakk> \<Longrightarrow>
    \<exists>r. read_until_reply mem strerror c net
        = read_until_reply mem strerror (c\<lparr>x_reader := r\<rparr>) (net\<lparr>nt_reads := rs\<rparr>) \<and> settled r q"
  proof (induction evs arbitrary: c p net)
    case Nil
    have "p_feed p [] = p" by (simp add: p_feed_def)
    then have "settled (x_reader c) q" using Nil(2,6,7) by simp
    moreover have "net\<lparr>nt_reads := rs\<rparr> = net" using Nil(5) by (cases net) simp
    ultimately show ?case by (intro exI [of _ "x_reader c"]) simp
  next
    case (Cons ev evs)
    have r: "at_rest p" using machine_at_rest Cons.prems(2) by (auto simp: settled_def)
    obtain q1 where q1: "p_get mem (p_feed p (got ev)) = Some (q1, True, None)" "p_get mem q1 = Some (q1, True, None)"
        "p_get mem (p_feed q1 (arrived evs)) = Some (q, True, None)"
      using step [OF r, of ev "arrived evs" q None] Cons.prems(7) by auto
    have n: "room p (got ev)" "room p (got ev @ arrived evs)" using Cons.prems(4) by (auto simp: room_def)
    obtain r where r: "read_until_reply mem strerror c net
        = read_until_reply mem strerror (c\<lparr>x_reader := r\<rparr>) (net\<lparr>nt_reads := evs @ rs\<rparr>)" "settled r q1"
      using turn_waits [OF h Cons.prems(1,2) _ n(1) _ q1(1), of net "evs @ rs" strerror] Cons.prems(3,5) by auto
    show ?case
      using Cons.IH [of "c\<lparr>x_reader := r\<rparr>" q1 "net\<lparr>nt_reads := evs @ rs\<rparr>"] Cons.prems(1,3) r q1(2,3) room_next [OF n(2) q1(1)]
      by simp
  qed
  show "\<lbrakk> x_err c = 0; settled (x_reader c) p; list_all brings evs; room p (arrived evs);
      nt_reads net = evs @ rs; p_get mem p = Some (p, True, None);
      p_get mem (p_feed p (arrived evs)) = Some (q, True, Some a) \<rbrakk> \<Longrightarrow>
    \<exists>r late q'. read_until_reply mem strerror c net
        = Done (c\<lparr>x_reader := r\<rparr>, net\<lparr>nt_reads := late @ rs\<rparr>, True, Some a) \<and> settled r q'
      \<and> list_all brings late \<and> q = p_feed q' (arrived late)"
  proof (induction evs arbitrary: c p net)
    case Nil
    then show ?case by simp
  next
    case (Cons ev evs)
    have r: "at_rest p" using machine_at_rest Cons.prems(2) by (auto simp: settled_def)
    have n: "room p (got ev)" "room p (got ev @ arrived evs)" using Cons.prems(4) by (auto simp: room_def)
    consider (more) q1 where "p_get mem (p_feed p (got ev)) = Some (q1, True, None)" "p_get mem q1 = Some (q1, True, None)"
        "p_get mem (p_feed q1 (arrived evs)) = Some (q, True, Some a)"
      | (last) q1 where "p_get mem (p_feed p (got ev)) = Some (q1, True, Some a)" "q = p_feed q1 (arrived evs)"
      using step [OF r, of ev "arrived evs" q "Some a"] Cons.prems(7) by auto
    then show ?case
    proof cases
      case more
      obtain r where r: "read_until_reply mem strerror c net
          = read_until_reply mem strerror (c\<lparr>x_reader := r\<rparr>) (net\<lparr>nt_reads := evs @ rs\<rparr>)" "settled r q1"
        using turn_waits [OF h Cons.prems(1,2) _ n(1) _ more(1), of net "evs @ rs" strerror] Cons.prems(3,5) by auto
      show ?thesis
        using Cons.IH [of "c\<lparr>x_reader := r\<rparr>" q1 "net\<lparr>nt_reads := evs @ rs\<rparr>"] Cons.prems(1,3) r more(2,3) room_next [OF n(2) more(1)]
        by simp
    next
      case last
      obtain r where "read_until_reply mem strerror c net
          = Done (c\<lparr>x_reader := r\<rparr>, net\<lparr>nt_reads := evs @ rs\<rparr>, True, Some a)" "settled r q1"
        using turn_ends [OF h Cons.prems(1,2) _ n(1) _ last(1), of net "evs @ rs" strerror] Cons.prems(3,5) by auto
      then show ?thesis using last(2) Cons.prems(3) by auto
    qed
  qed
qed


section \<open>A request and its reply\<close>

text \<open>A blocking connection with \<open>t\<close> still to write and a reader that stands for \<open>p\<close>, at the
  start of a reply with nothing unread.\<close>

definition calm :: "redis_context \<Rightarrow> bytes \<Rightarrow> parser \<Rightarrow> bool" where
  "calm c t p \<longleftrightarrow> x_err c = 0 \<and> x_block c \<and> (\<exists>b. x_obuf c = Some b \<and> sds_inv b \<and> sds_text b = t)
     \<and> settled (x_reader c) p \<and> idle p"

lemma idle_rests: "idle p \<Longrightarrow> at_rest p"
  by (simp add: idle_def at_rest_def stack_ok_def root_task_def)

lemma idle_hungry: "idle p \<Longrightarrow> ps_input p = [] \<Longrightarrow> p_get mem p = Some (p, True, None)"
proof -
  assume i: "idle p" "ps_input p = []"
  then have "stack_ok p" "waiting p" by (simp_all add: idle_def stack_ok_def waiting_def p_task_def root_task_def)
  then show "p_get mem p = Some (p, True, None)"
    using waits_without_input [of p mem] i by (simp add: p_get_def idle_def)
qed

lemma feed_idle:
  assumes "good_heap mem" "ample mem" "settled r p" "idle p" "ps_input p = []" "room p t"
  shows "\<exists>r1. redisReaderFeed mem r t = Some (r1, True) \<and> reader_ok r1 \<and> machine r1 = p\<lparr>ps_input := t\<rparr>"
  using feed_settled [OF assms(1-3,6)] assms(4,5) by (auto simp: p_feed_def idle_def)

lemma idle_reply:
  assumes "idle p" "ample mem" "reply_ok 0 R" "ps_input p = []"
  shows "\<exists>q a. p_get mem (p_feed p (encode R @ rest)) = Some (q, True, Some a) \<and> idle q \<and> ps_input q = rest
    \<and> denotes (ps_store q) R a \<and> take (length (ps_store p)) (ps_store q) = ps_store p"
proof -
  have "p_feed p t = p\<lparr>ps_input := t\<rparr>" for t using assms(1,4) by (simp add: p_feed_def idle_def)
  then show ?thesis
    using idle_get [of "p\<lparr>ps_input := encode R @ rest\<rparr>" mem R rest] assms by (simp add: idle_def)
qed

text \<open>Flushing the output buffer leaves the reading loop with an empty one.\<close>

lemma get_reply_reads:
  assumes h: "good_heap mem" "ample mem" and c: "calm c t p" "ps_input p = []" "length t < 2 ^ 31"
    and w: "takes_all ws (length t)" "nt_writes net = ws @ ws'"
  shows "\<exists>c1. redisGetReply mem strerror c net
      = read_until_reply mem strerror c1 (net\<lparr>nt_writes := ws', nt_sent := nt_sent net @ t\<rparr>) \<and> calm c1 [] p"
proof -
  obtain b where b: "x_obuf c = Some b" "sds_inv b" "sds_text b = t" using c(1) by (auto simp: calm_def)
  have m: "reader_ok (x_reader c)" "machine (x_reader c) = p" "idle p" using c(1) by (simp_all add: calm_def settled_def)
  obtain r where r: "redisGetReplyFromReader mem c = Done (c\<lparr>x_reader := r\<rparr>, True, None)" "settled r p"
    using reply_from_reader [of c mem p None] m idle_hungry [OF m(3) c(2)] by auto
  obtain e where e: "sds_inv e" "sds_text e = []"
    "write_until_done mem strerror (c\<lparr>x_reader := r\<rparr>) net
      = Done (c\<lparr>x_reader := r, x_obuf := Some e\<rparr>, net\<lparr>nt_writes := ws', nt_sent := nt_sent net @ t\<rparr>, True)"
    using flush_all [OF h, of "c\<lparr>x_reader := r\<rparr>" b ws net ws' strerror] b c w by (auto simp: calm_def)
  have "calm (c\<lparr>x_reader := r, x_obuf := Some e\<rparr>) [] p" using c(1) r(2) e(1,2) by (simp add: calm_def)
  moreover have "redisGetReply mem strerror c net = read_until_reply mem strerror (c\<lparr>x_reader := r, x_obuf := Some e\<rparr>)
      (net\<lparr>nt_writes := ws', nt_sent := nt_sent net @ t\<rparr>)"
    using c(1) r(1) e(3) by (simp add: redisGetReply_def calm_def)
  ultimately show ?thesis by blast
qed

text \<open>What a call with a whole reply behind it returns, and the state it leaves.\<close>

definition answered :: "redis_context \<Rightarrow> net \<Rightarrow> bytes \<Rightarrow> (nat + bytes) list \<Rightarrow> reply \<Rightarrow> address \<Rightarrow> bool" where
  "answered c net rest rs R a \<longleftrightarrow>
     (\<exists>late p. calm c [] p \<and> nt_reads net = late @ rs \<and> list_all brings late
       \<and> rest = ps_input p @ arrived late \<and> denotes (rd_store (x_reader c)) R a)"

lemma settled_store: "settled r p \<Longrightarrow> ps_store p = rd_store r"
  by (auto simp: settled_def machine_def p_start_def abs_reader_def)

lemma get_reply_answered:
  assumes h: "good_heap mem" "ample mem" and c: "calm c t p" "ps_input p = []" "length t < 2 ^ 31"
    and w: "takes_all ws (length t)" "nt_writes net = ws @ ws'"
    and rd: "nt_reads net = evs @ rs" "list_all brings evs" "arrived evs = encode R @ rest" "reply_ok 0 R" "room p (arrived evs)"
  shows "\<exists>c' net' a. redisGetReply mem strerror c net = Done (c', net', True, Some a) \<and> answered c' net' rest rs R a
    \<and> nt_sent net' = nt_sent net @ t \<and> nt_writes net' = ws'"
proof -
  let ?net = "net\<lparr>nt_writes := ws', nt_sent := nt_sent net @ t\<rparr>"
  obtain c1 where c1: "redisGetReply mem strerror c net = read_until_reply mem strerror c1 ?net" "calm c1 [] p"
    using get_reply_reads [OF h c w] by blast
  have i: "idle p" "x_err c1 = 0" "settled (x_reader c1) p" using c1(2) by (simp_all add: calm_def)
  obtain q a where q: "p_get mem (p_feed p (arrived evs)) = Some (q, True, Some a)" "idle q" "ps_input q = rest"
    "denotes (ps_store q) R a" using idle_reply [OF i(1) h(2) rd(4) c(2), of rest] rd(3) by auto
  obtain r late q' where r: "read_until_reply mem strerror c1 ?net
        = Done (c1\<lparr>x_reader := r\<rparr>, ?net\<lparr>nt_reads := late @ rs\<rparr>, True, Some a)"
      "settled r q'" "list_all brings late" "q = p_feed q' (arrived late)"
    using reading_loop(2) [OF h i(2,3) rd(2,5) _ idle_hungry [OF i(1) c(2)] q(1), of ?net rs strerror] rd(1) by auto
  have "ps_err q' = 0" using r(2) machine_err [of r] by (auto simp: settled_def)
  then have "idle q'" "rest = ps_input q' @ arrived late" "ps_store q' = ps_store q"
    using q(2,3) r(4) by (auto simp: p_feed_def idle_def)
  then have "answered (c1\<lparr>x_reader := r\<rparr>) (?net\<lparr>nt_reads := late @ rs\<rparr>) rest rs R a"
    using c1(2) r(2,3) q(4) settled_store [OF r(2)] unfolding answered_def by (intro exI [of _ late] exI [of _ q']) (simp add: calm_def)
  then show ?thesis using c1(1) r(1) by fastforce
qed

text \<open>When the stream ends inside the reply, the call fails and the context says why.\<close>

lemma proper_part:
  assumes "idle p" "ample mem" "reply_ok 0 R" "ps_input p = []" "encode R = t @ u" "u \<noteq> []"
  shows "\<exists>q. p_get mem (p_feed p t) = Some (q, True, None)"
proof -
  have e: "ps_err p = 0" "at_rest p" using assms(1) idle_rests by (simp_all add: idle_def)
  obtain q a where q: "p_get mem (p_feed (p_feed p t) u) = Some (q, True, Some a)" "ps_input q = []" "idle q"
    using idle_reply [OF assms(1-4), of "[]"] assms(5) e by (auto simp: p_feed_def)
  have "at_rest (p_feed p t)" using e by (auto simp: at_rest_def p_feed_def stack_ok_def)
  note chunks = get_in_chunks [OF this, of mem u]
  have no: "p_get mem (p_feed p t) = Some (q1, True, Some x) \<Longrightarrow> False" for q1 x
  proof -
    assume g: "p_get mem (p_feed p t) = Some (q1, True, Some x)"
    then have "q = p_feed q1 u" using chunks q(1) by simp
    then have "ps_input q = ps_input q1 @ u" using p_get_err [OF g] by (simp add: p_feed_def)
    then show False using q(2) assms(6) by simp
  qed
  show ?thesis using chunks q(1) by (auto split: option.splits bool.splits dest: no)
qed

lemma get_reply_eof:
  assumes h: "good_heap mem" "ample mem" and c: "calm c t p" "ps_input p = []" "length t < 2 ^ 31"
    and w: "takes_all ws (length t)" "nt_writes net = ws @ ws'"
    and rd: "nt_reads net = evs @ Inr [] # rs" "list_all brings evs" "encode R = arrived evs @ u" "u \<noteq> []"
      "reply_ok 0 R" "room p (arrived evs)"
  shows "\<exists>c' net'. redisGetReply mem strerror c net = Done (c', net', False, None) \<and> x_err c' = REDIS_ERR_EOF
    \<and> nt_sent net' = nt_sent net @ t"
proof -
  let ?net = "net\<lparr>nt_writes := ws', nt_sent := nt_sent net @ t\<rparr>"
  obtain c1 where c1: "redisGetReply mem strerror c net = read_until_reply mem strerror c1 ?net" "calm c1 [] p"
    using get_reply_reads [OF h c w] by blast
  have i: "idle p" "x_err c1 = 0" "settled (x_reader c1) p" using c1(2) by (simp_all add: calm_def)
  obtain q where q: "p_get mem (p_feed p (arrived evs)) = Some (q, True, None)"
    using proper_part [OF i(1) h(2) rd(5) c(2) rd(3,4)] by blast
  obtain r where r: "read_until_reply mem strerror c1 ?net
        = read_until_reply mem strerror (c1\<lparr>x_reader := r\<rparr>) (?net\<lparr>nt_reads := Inr [] # rs\<rparr>)"
    using reading_loop(1) [OF h i(2,3) rd(2,6) _ idle_hungry [OF i(1) c(2)] q(1), of ?net "Inr [] # rs" strerror] rd(1) by auto
  have "read_until_reply mem strerror (c1\<lparr>x_reader := r\<rparr>) (?net\<lparr>nt_reads := Inr [] # rs\<rparr>)
      = Done (redisSetError (c1\<lparr>x_reader := r\<rparr>) REDIS_ERR_EOF ''Server closed the connection'', ?net\<lparr>nt_reads := rs\<rparr>, False, None)"
    using i(2) by (subst read_until_reply.simps) (simp add: redisBufferRead_def)
  then show ?thesis using c1(1) r by (simp add: redisSetError_def)
qed

section \<open>Sending a command\<close>

text \<open>A command appended to an empty output buffer.\<close>

lemma append_calm:
  assumes h: "good_heap mem" "ample mem" and c: "calm c t p" and n: "length t + length cmd + SDS_MAX_PREALLOC < 2 ^ 31"
  shows "\<exists>c'. append_command mem c cmd = Done (c', True) \<and> calm c' (t @ cmd) p"
proof -
  obtain b where b: "x_obuf c = Some b" "sds_inv b" "sds_text b = t" using c by (auto simp: calm_def)
  obtain u where u: "sdscatlen mem b cmd = Some u" using sdscatlen_ex [OF h(2)] by blast
  have "fits_int b (length cmd)" using n b(3) by (simp add: fits_int_def)
  from sdscatlen_text [OF h(1) b(2) this u] b(3) have "sds_inv u" "sds_text u = t @ cmd" by simp_all
  then have "calm (c\<lparr>x_obuf := Some u\<rparr>) (t @ cmd) p" using c by (simp add: calm_def)
  then show ?thesis using b(1) u by (simp add: append_command_def)
qed

lemma append_argv_calm:
  assumes h: "good_heap mem" "ample mem" and c: "calm c t p" and l: "lens_ok argvlen argv"
    and n: "length t + length (request (arg_bytes argvlen argv)) + 1 + SDS_MAX_PREALLOC < 2 ^ 31"
  shows "\<exists>c'. redisAppendCommandArgv mem c argv argvlen = Done (c', True)
    \<and> calm c' (t @ request (arg_bytes argvlen argv)) p"
proof -
  let ?req = "request (arg_bytes argvlen argv)"
  obtain u where u: "redisFormatSdsCommandArgv mem True argv argvlen = Some (int (length ?req), Some u)"
    "sds_inv u" "sds_text u = ?req"
    using formatSdsCommandArgv_request [OF h l] n by auto
  have "length ?req = nat (s_len u)" using u(3) sds_inv_len(1) [OF u(2)] by simp
  then have "take (to_size (int (length ?req))) (s_buf u) = ?req"
    using u(3) by (simp only: to_size_int sds_text_def)
  then have "redisAppendCommandArgv mem c argv argvlen = append_command mem c ?req"
    by (simp add: redisAppendCommandArgv_def u(1))
  moreover have "length t + length ?req + SDS_MAX_PREALLOC < 2 ^ 31" using n by simp
  ultimately show ?thesis using append_calm [OF h c] by simp
qed

lemma append_template_calm:
  assumes h: "good_heap mem" "ample mem" and c: "calm c t p" and w: "ws \<noteq> []" "\<forall>w\<in>set ws. word_ok w"
    and n: "length t + length (request (map word_text ws)) + 1 + SDS_MAX_PREALLOC < 2 ^ 31"
  shows "\<exists>c'. redisvAppendCommand mem pf c (template ws) (template_args ws) = Done (c', True)
    \<and> calm c' (t @ request (map word_text ws)) p"
proof -
  let ?req = "request (map word_text ws)"
  have f: "redisvFormatCommand mem pf True (template ws) (template_args ws) = Some (int (length ?req), Some (?req @ [NUL]))"
    using vformat_template [OF h w, of pf] n by simp
  have "length t + length ?req + SDS_MAX_PREALLOC < 2 ^ 31" using n by simp
  then obtain c' where c': "append_command mem c ?req = Done (c', True)" "calm c' (t @ ?req) p"
    using append_calm [OF h c] by blast
  have "redisvAppendCommand mem pf c (template ws) (template_args ws) = append_command mem c ?req"
    by (simp add: redisvAppendCommand_def f to_size_def)
  then show ?thesis using c' by auto
qed

lemma fresh_context:
  assumes "good_heap mem" "ample mem"
  shows "\<exists>c p. redisContextInit mem True = Some c \<and> calm c [] p \<and> ps_input p = [] \<and> rd_store (x_reader c) = []"
proof -
  obtain b r where br: "sdsempty mem = Some b" "redisReaderCreate mem = Some r"
    using sdsempty_total [OF assms(2)] redisReaderCreate_total [OF assms(2)] by auto
  note f = fresh_reader [OF assms(1) br(2)] and e = sdsempty_text [OF assms(1) br(1)]
  have "rd_store r = []" using f(6) by (simp add: machine_def p_start_def abs_reader_def split: if_splits)
  then show ?thesis using br f e ampleD [OF assms(2), of 208]
    by (auto simp: redisContextInit_def calm_def settled_def intro!: exI [of _ "machine r"])
qed

end
