(* ===== verification/ClusterSpec.thy ===== *)
theory ClusterSpec
  imports Cluster Exchange
begin

text \<open>
  What the commands of the cluster client do: the interface of a link whose connections answer a
  script of requests, the execution of commands over such a link, and its instance for the
  connections of \<open>Connection\<close>.
\<close>

section \<open>Commands with one key\<close>

lemma slot_of_text:
  assumes "kp_start k \<le> kp_end k" "kp_end k \<le> length (c_cmd c)" "kp_end k - kp_start k < 2 ^ 31"
  shows "slot_of c k = key_slot (key_text (c_cmd c) k)"
proof -
  let ?d = "drop (kp_start k) (c_cmd c)" and ?n = "kp_end k - kp_start k"
  have l: "length (key_text (c_cmd c) k) = ?n" using assms by (simp add: key_text_def seg_def)
  have "?d = key_text (c_cmd c) k @ drop ?n ?d" by (simp add: key_text_def seg_def del: drop_drop)
  then have "keyHashSlot ?d ?n = keyHashSlot (key_text (c_cmd c) k) ?n"
    using keyHashSlot_prefix [of "key_text (c_cmd c) k" "drop ?n ?d"] l by simp
  then show ?thesis using assms(3) l by (simp add: slot_of_def key_slot_def)
qed

lemma format_single:
  assumes h: "holds_request r (w # as)" and mem: "\<forall>n. mem n" and t: "command_type w = Some t"
    and ks: "key_args t (w # as) = Some [k]" and n: "length (request (w # as)) < 2 ^ 31"
  shows "\<exists>c. command_format_by_slot mem num i r = Some \<lparr>sp_slot = int (key_slot k), sp_error = None, sp_command = c,
        sp_seq = None, sp_commands = []\<rparr> \<and> c_cmd c = request (w # as) \<and> c_slot_num c = int (key_slot k)"
proof -
  obtain ps where ps: "pick t as (places (args_at w as) as) = Some ps" "map (key_text (c_cmd r)) ps = [k]"
    using picked_text [OF h mem t] ks by auto
  then obtain p where p: "ps = [p]" "key_text (c_cmd r) p = k" by auto
  obtain K where K: "redis_parse_cmd mem r = Some ((named (counted r (Suc (length as))) t)\<lparr>c_keys := K\<rparr>)"
      "hiarray_inv K" "hiarray_list K = [p]" using parse_picks [OF h mem t ps(1)] p(1) by blast
  define c where "c = (named (counted r (Suc (length as))) t)\<lparr>c_keys := K\<rparr>"
  have c: "redis_parse_cmd mem r = Some c" "c_result c = CMD_PARSE_OK" "c_cmd c = c_cmd r" "c_clen c = c_clen r" "c_keys c = K"
    using h K(1) by (simp_all add: c_def named_def counted_def holds_request_def)
  have r: "fresh_keys r" "c_cmd r = request (w # as)" "c_clen r = of_nat (length (request (w # as)))"
    using h by (simp_all add: holds_request_def)
  have len: "unat (c_clen r) = length (request (w # as))" using n r(3) by (simp add: unat_of_nat_small)
  then have "c_clen r \<noteq> 0" by (auto simp: request_def)
  have "c_cmd r \<noteq> []" by (simp add: r(2) request_def)
  have ok: "keys_ok c" by (rule parsed_keys_ok [OF r(1) c(1,2)])
  have "unat (hiarray_n K) = 1" using length_hiarray_list [OF K(2)] K(3) by simp
  moreover have "hiarray_n K = of_nat (unat (hiarray_n K))" by simp
  ultimately have one: "hiarray_n K = 1" by simp
  have get: "the (hiarray_get K 0) = p"
    using hiarray_elements [OF K(2)] K(3) \<open>unat (hiarray_n K) = 1\<close> by simp
  have "key_in c p" using ok K(3) c(5) by (simp add: keys_ok_def)
  then have "kp_start p \<le> kp_end p" "kp_end p \<le> length (c_cmd c)" "kp_end p - kp_start p < 2 ^ 31"
    using len r(2) n c(3,4) by (auto simp: key_in_def)
  from slot_of_text [OF this] p(2) c(3) have slot: "slot_of c p = key_slot k" by simp
  show ?thesis
    using \<open>c_clen r \<noteq> 0\<close> \<open>c_cmd r \<noteq> []\<close> r(2) c one get slot by (simp add: command_format_by_slot_def Let_def)
qed

section \<open>Links that answer a script\<close>

text \<open>Replies that are handed to the caller, and replies after which the command is sent again.\<close>

definition plain :: "reply \<Rightarrow> bool" where
  "plain R \<longleftrightarrow> cluster_reply_error_type (tree_of R) \<in> {CLUSTER_NOT_ERR, CLUSTER_ERR_SENTINEL}"

definition try_again :: "reply \<Rightarrow> bool" where
  "try_again R \<longleftrightarrow> cluster_reply_error_type (tree_of R) \<in> {CLUSTER_ERR_TRYAGAIN, CLUSTER_ERR_CROSSSLOT, CLUSTER_ERR_CLUSTERDOWN}"

text \<open>The slot leads to a node with a connection.\<close>

definition wired :: "'c cluster \<Rightarrow> 32 word \<Rightarrow> nat \<Rightarrow> 'c \<Rightarrow> bool" where
  "wired cc s n c \<longleftrightarrow> node_get_by_table cc s = Some n \<and> n < length (cc_heap cc) \<and> nd_con (cc_heap cc ! n) = Some c"

lemma set_con_twice [simp]: "set_con n a (set_con n b cc) = set_con n a cc"
  by (cases "n < length (cc_heap cc)") (simp_all add: set_con_def node_update_def list_update_beyond)

lemma set_con_simps [simp]:
  "node_get_by_table (set_con n c cc) s = node_get_by_table cc s" "length (cc_heap (set_con n c cc)) = length (cc_heap cc)"
  "cc_retry_count (set_con n c cc) = cc_retry_count cc" "cc_max_redirect_count (set_con n c cc) = cc_max_redirect_count cc"
  "m \<noteq> n \<Longrightarrow> cc_heap (set_con n c cc) ! m = cc_heap cc ! m"
  "n < length (cc_heap cc) \<Longrightarrow> nd_con (cc_heap (set_con n c cc) ! n) = c"
  by (simp_all add: set_con_def node_update_def node_get_by_table_def)

lemma wired_same: "cc_table cc' = cc_table cc \<Longrightarrow> cc_heap cc' = cc_heap cc \<Longrightarrow> wired cc' s n c \<longleftrightarrow> wired cc s n c"
  by (simp add: wired_def node_get_by_table_def)

lemma wired_set: "wired cc s n c \<Longrightarrow> wired (set_con n (Some c2) cc) s n c2"
  by (simp add: wired_def)

text \<open>What happens on a connection: a request is appended to what is to be sent, a reply is fetched. A
  connection follows a plan when every request of the plan is accepted and every reply of it comes,
  in this order.\<close>

datatype link_op = Sent bytes | Answer reply

fun calls :: "(bytes \<times> reply) list \<Rightarrow> link_op list" where
  "calls [] = []"
| "calls ((q, R) # es) = Sent q # Answer R # calls es"

locale planned_link =
  fixes lk :: "('c, 'w) link" and plan :: "'c \<Rightarrow> link_op list \<Rightarrow> bool"
  assumes plan_error: "plan c ops \<Longrightarrow> lk_err lk c = 0"
    and sent: "plan c (Sent q # ops) \<Longrightarrow> \<exists>c1. lk_append lk c q = Done (c1, True) \<and> plan c1 ops"
    and answer: "plan c (Answer R # ops) \<Longrightarrow> lk_blocks lk c
      \<and> (\<exists>c1. (\<forall>w. lk_reply lk c w = Done (c1, w, True, Some (tree_of R))) \<and> plan c1 ops)"

text \<open>A connection follows a script when the requests sent on it, in the order of the script, are each
  answered with the reply that goes with them.\<close>

locale scripted_link =
  fixes lk :: "('c, 'w) link" and script :: "'c \<Rightarrow> (bytes \<times> reply) list \<Rightarrow> bool"
  assumes no_error: "script c es \<Longrightarrow> lk_err lk c = 0"
    and turn: "script c ((cmd, R) # es) \<Longrightarrow> \<exists>c1 c2. lk_append lk c cmd = Done (c1, True) \<and> lk_blocks lk c1
      \<and> (\<forall>w. lk_reply lk c1 w = Done (c2, w, True, Some (tree_of R))) \<and> script c2 es"
begin

lemma exchange_script:
  assumes "script c ((cmd, R) # es)"
  shows "\<exists>c2. exchange lk cmd n c cc w = Done (set_con n (Some c2) cc, w, Some (tree_of R)) \<and> script c2 es"
  using turn [OF assms] by (auto simp: exchange_def block_for_reply_def Let_def)

lemma turn_script:
  assumes w: "wired cc s n c" and sc: "script c ((cmd, R) # es)"
  shows "\<exists>c2. execute_turn mem lk cmd s None cc w = after_reply mem lk (tree_of R) (set_con n (Some c2) cc) w \<and> script c2 es"
proof -
  have "acquire lk s cc w = Done (cc, w, Some (n, c))"
    using w no_error [OF sc] by (simp add: acquire_def wired_def ctx_get_by_node_def)
  then show ?thesis using exchange_script [OF sc, of n cc w] by (auto simp: execute_turn_def)
qed

lemma execute_plain:
  assumes "wired cc s n c" "script c ((cmd, R) # es)" "plain R"
  shows "\<exists>c2. execute mem lk cmd s None cc w = Done (set_con n (Some c2) cc, w, Some (tree_of R)) \<and> script c2 es"
  using turn_script [OF assms(1,2), of mem w] assms(3)
  by (subst execute.simps) (auto simp: after_reply_def plain_def Let_def)

lemma execute_again:
  assumes "wired cc s n c" "\<forall>(q, R)\<in>set es. q = cmd \<and> try_again R" "script c es"
    "length es = Suc (nat (cc_max_redirect_count cc - cc_retry_count cc))" "cc_retry_count cc \<le> cc_max_redirect_count cc"
  shows "\<exists>cc'. execute mem lk cmd s None cc w = Done (cc', w, None) \<and> cc_err cc' = REDIS_ERR_CLUSTER_TOO_MANY_REDIRECT
    \<and> (\<exists>c'. wired cc' s n c' \<and> script c' [])"
  using assms
proof (induction es arbitrary: cc c)
  case (Cons e es)
  obtain R where e: "e = (cmd, R)" "try_again R" using Cons.prems(2) by (cases e) auto
  obtain c2 where c2: "execute_turn mem lk cmd s None cc w = after_reply mem lk (tree_of R) (set_con n (Some c2) cc) w" "script c2 es"
    using turn_script [OF Cons.prems(1)] Cons.prems(3) e(1) by blast
  let ?cc = "(set_con n (Some c2) cc)\<lparr>cc_retry_count := cc_retry_count cc + 1\<rparr>"
  have wd: "wired ?cc s n c2" using wired_set [OF Cons.prems(1), of c2] by (subst wired_same) simp_all
  show ?case
  proof (cases "cc_retry_count cc < cc_max_redirect_count cc")
    case True
    then have "after_reply mem lk (tree_of R) (set_con n (Some c2) cc) w = Done (?cc, w, Retry)"
      using e(2) by (auto simp: after_reply_def try_again_def Let_def)
    then have "execute mem lk cmd s None cc w = execute mem lk cmd s None ?cc w"
      using c2(1) by (subst execute.simps) simp
    moreover have "length es = Suc (nat (cc_max_redirect_count ?cc - cc_retry_count ?cc))"
      "cc_retry_count ?cc \<le> cc_max_redirect_count ?cc" using True Cons.prems(4) by simp_all
    ultimately show ?thesis using Cons.IH [OF wd _ c2(2)] Cons.prems(2) by simp
  next
    case False
    then have z: "es = []" "cc_retry_count cc = cc_max_redirect_count cc" using Cons.prems(4,5) by simp_all
    let ?done = "cluster_error_set ?cc REDIS_ERR_CLUSTER_TOO_MANY_REDIRECT ''too many cluster redirect''"
    have "after_reply mem lk (tree_of R) (set_con n (Some c2) cc) w = Done (?done, w, Return None)"
      using e(2) z(2) by (auto simp: after_reply_def try_again_def Let_def)
    then have "execute mem lk cmd s None cc w = Done (?done, w, None)" using c2(1) by (subst execute.simps) simp
    moreover have "wired ?done s n c2" using wd by (subst wired_same) (simp_all add: cluster_error_set_def)
    ultimately show ?thesis using c2(2) z(1) by (auto simp: cluster_error_set_def)
  qed
qed simp

text \<open>Several commands, for nodes that each follow a script of the commands meant for them.\<close>

lemma execute_all_script:
  assumes "\<forall>c\<in>set cs. rt_type (tree_of (R c)) \<noteq> REDIS_REPLY_ERROR
      \<and> node_get_by_table cc (word_of_int (c_slot_num c)) = Some (N c) \<and> N c < length (cc_heap cc)"
    "\<forall>n\<in>N ` set cs. \<exists>con. nd_con (cc_heap cc ! n) = Some con \<and> script con (map (\<lambda>c. (c_cmd c, R c)) (filter (\<lambda>c. N c = n) cs))"
  shows "\<exists>cc'. execute_all mem lk cs cc w = Done (cc', w, Inr (map (\<lambda>c. (nat (c_slot_num c), Some (tree_of (R c)))) cs))"
  using assms
proof (induction cs arbitrary: cc)
  case (Cons c cs)
  let ?s = "word_of_int (c_slot_num c) :: 32 word" and ?es = "map (\<lambda>c. (c_cmd c, R c)) (filter (\<lambda>d. N d = N c) cs)"
  obtain con where con: "wired cc ?s (N c) con" "script con ((c_cmd c, R c) # ?es)"
    using Cons.prems by (auto simp: wired_def)
  have ok: "rt_type (tree_of (R c)) \<noteq> REDIS_REPLY_ERROR" using Cons.prems(1) by simp
  then have "plain (R c)" by (simp add: plain_def cluster_reply_error_type_def)
  from execute_plain [OF con this] obtain con2 where e:
    "redis_cluster_command_execute mem lk c cc w = Done (set_con (N c) (Some con2) cc, w, Some (tree_of (R c)))" "script con2 ?es"
    by (auto simp: redis_cluster_command_execute_def)
  let ?cc = "set_con (N c) (Some con2) cc"
  have tab: "\<forall>d\<in>set cs. rt_type (tree_of (R d)) \<noteq> REDIS_REPLY_ERROR
      \<and> node_get_by_table ?cc (word_of_int (c_slot_num d)) = Some (N d) \<and> N d < length (cc_heap ?cc)"
    using Cons.prems(1) by simp
  have "\<exists>con. nd_con (cc_heap ?cc ! n) = Some con \<and> script con (map (\<lambda>c. (c_cmd c, R c)) (filter (\<lambda>d. N d = n) cs))"
    if n: "n \<in> N ` set cs" for n
  proof (cases "n = N c")
    case True
    then show ?thesis using e(2) con(1) by (simp add: wired_def)
  next
    case False
    obtain con where "nd_con (cc_heap cc ! n) = Some con" "script con (map (\<lambda>c. (c_cmd c, R c)) (filter (\<lambda>d. N d = n) (c # cs)))"
      using Cons.prems(2) n by (meson image_mono set_subset_Cons subsetD)
    then show ?thesis using False by auto
  qed
  then obtain cc' where "execute_all mem lk cs ?cc w = Done (cc', w, Inr (map (\<lambda>c. (nat (c_slot_num c), Some (tree_of (R c)))) cs))"
    using Cons.IH [OF tab] by blast
  then show ?case using e(1) ok by simp
qed simp

end

text \<open>A plan of calls is a script.\<close>

sublocale planned_link \<subseteq> scripted_link lk "\<lambda>c es. plan c (calls es)"
proof
  fix c es assume "plan c (calls es)"
  then show "lk_err lk c = 0" by (rule plan_error)
next
  fix c cmd R es assume "plan c (calls ((cmd, R) # es))"
  then obtain c1 where c1: "lk_append lk c cmd = Done (c1, True)" "plan c1 (Answer R # calls es)"
    using sent [of c cmd "Answer R # calls es"] by auto
  then show "\<exists>c1 c2. lk_append lk c cmd = Done (c1, True) \<and> lk_blocks lk c1
      \<and> (\<forall>w. lk_reply lk c1 w = Done (c2, w, True, Some (tree_of R))) \<and> plan c2 (calls es)"
    using answer [OF c1(2)] by blast
qed

section \<open>Formatted commands\<close>

text \<open>The context at the start of a command, and the commands that the request builds.\<close>

definition cleared :: "'c cluster \<Rightarrow> 'c cluster" where
  "cleared cc = (if cc_err cc \<noteq> 0 then cc\<lparr>cc_err := 0, cc_errstr := []\<rparr> else cc)"

lemma cleared_simps [simp]:
  "node_get_by_table (cleared cc) s = node_get_by_table cc s" "cc_heap (cleared cc) = cc_heap cc" "cc_table (cleared cc) = cc_table cc"
  by (simp_all add: cleared_def node_get_by_table_def)

lemma command_holds:
  assumes "\<forall>n. mem n" "length (request args) < 2 ^ 32"
  obtains c j where "new_command mem i = Some (c, j)"
    "holds_request (c\<lparr>c_cmd := request args, c_clen := word_of_int (int (length (request args)))\<rparr>) args"
proof -
  obtain c where "new_command mem i = Some (c, i + 1)" "hiarray_inv (c_keys c)" "hiarray_list (c_keys c) = []"
    using new_command_fresh [OF assms(1)] by blast
  moreover have "c_result c = CMD_PARSE_OK"
    using calculation(1) by (auto simp: new_command_def command_get_def split: if_splits option.splits)
  ultimately show thesis
    using that [of c "i + 1"] assms(2) by (simp add: holds_request_def fresh_keys_def)
qed

lemma formatted_one:
  assumes "ample mem" "command_type w = Some t" "key_args t (w # as) = Some [k]" "length (request (w # as)) < 2 ^ 31"
  shows "\<exists>c. redisClusterFormattedCommand mem num i lk cc (request (w # as)) (int (length (request (w # as)))) wd
      = run_then (redis_cluster_command_execute mem lk c (cleared cc) wd) (\<lambda>(cc, wd, reply). finish_command cc wd reply)
    \<and> c_cmd c = request (w # as) \<and> c_slot_num c = int (key_slot k)"
proof -
  have mem: "\<forall>n. allocates mem n" using assms(1) by (auto simp: allocates_def ample_def)
  obtain b where b: "mem 48 = Some b" using ampleD [OF assms(1), of 48] by auto
  have len: "length (request (w # as)) < 2 ^ 32" using assms(4) by simp
  obtain c j where c: "new_command (allocates mem) i = Some (c, j)"
    "holds_request (c\<lparr>c_cmd := request (w # as), c_clen := word_of_int (int (length (request (w # as))))\<rparr>) (w # as)"
    using command_holds [OF mem len] .
  obtain d where d: "command_format_by_slot (allocates mem) num j
        (c\<lparr>c_cmd := request (w # as), c_clen := word_of_int (int (length (request (w # as))))\<rparr>)
      = Some \<lparr>sp_slot = int (key_slot k), sp_error = None, sp_command = d, sp_seq = None, sp_commands = []\<rparr>"
    "c_cmd d = request (w # as)" "c_slot_num d = int (key_slot k)"
    using format_single [OF c(2) mem assms(2-4)] by blast
  have "key_slot k < REDIS_CLUSTER_SLOTS"
    using keyHashSlot_bound by (simp add: key_slot_def REDIS_CLUSTER_SLOTS_def)
  then show ?thesis
    using c(1) d b by (intro exI [of _ d]) (simp add: redisClusterFormattedCommand_def cleared_def error_left_def Let_def)
qed

text \<open>The parts of an MGET, in the order of the slots.\<close>

definition slots_touched :: "bytes list \<Rightarrow> nat list" where
  "slots_touched ks = filter (\<lambda>s. s \<in> key_slot ` set ks) [0..<REDIS_CLUSTER_SLOTS]"

definition mget_part :: "(bytes \<Rightarrow> reply) \<Rightarrow> bytes list \<Rightarrow> nat \<Rightarrow> bytes \<times> reply" where
  "mget_part V ks s =
     (let own = filter (\<lambda>k. key_slot k = s) ks in (request (''mget'' # own), R_array (map V own)))"

lemma part_text: "slot_part CMD_REQ_REDIS_MGET (units CMD_REQ_REDIS_MGET ks) s = ''mget'' # filter (\<lambda>k. key_slot k = s) ks"
proof -
  have "concat (filter (\<lambda>u. key_slot (hd u) = s) (map (\<lambda>k. [k]) ks)) = filter (\<lambda>k. key_slot k = s) ks" by (induction ks) auto
  then show ?thesis by (simp add: slot_part_def sub_name_def units_def)
qed

lemma formatted_mget:
  assumes "ample mem" "command_type w = Some CMD_REQ_REDIS_MGET" "2 \<le> length ks" "[] \<notin> set ks"
    "length (request (w # ks)) + 32 < 2 ^ 31" "length num = 12" "1 < card (key_slot ` set ks)"
  shows "\<exists>c cs. redisClusterFormattedCommand mem num i lk cc (request (w # ks)) (int (length (request (w # ks)))) wd
      = run_then (execute_all mem lk cs (cleared cc) wd) (\<lambda>(cc, wd, res).
          case res of Inl reply \<Rightarrow> finish_command cc wd reply
          | Inr subs \<Rightarrow> (case command_post_fragment (allocates mem) c (map key_slot ks) subs of
              None \<Rightarrow> Undefined | Some (e, reply) \<Rightarrow> finish_command (error_left e cc) wd reply))
    \<and> c_type c = CMD_REQ_REDIS_MGET \<and> unat (hiarray_n (c_keys c)) = length ks
    \<and> list_all2 (\<lambda>s c. c_cmd c = fst (mget_part V ks s) \<and> c_slot_num c = int s) (slots_touched ks) cs"
proof -
  have mem: "\<forall>n. allocates mem n" using assms(1) by (auto simp: allocates_def ample_def)
  obtain b where b: "mem 48 = Some b" using ampleD [OF assms(1), of 48] by auto
  have len: "length (request (w # ks)) < 2 ^ 32" using assms(5) by simp
  obtain c j where c: "new_command (allocates mem) i = Some (c, j)"
    "holds_request (c\<lparr>c_cmd := request (w # ks), c_clen := word_of_int (int (length (request (w # ks))))\<rparr>) (w # ks)"
    using command_holds [OF mem len] .
  have k: "key_args CMD_REQ_REDIS_MGET (w # ks) = Some ks"
    using assms(3) arity_split by (auto simp: key_args_def pick_def Let_def)
  obtain d cs where d: "command_format_by_slot (allocates mem) num j
        (c\<lparr>c_cmd := request (w # ks), c_clen := word_of_int (int (length (request (w # ks))))\<rparr>)
      = Some (settle \<lparr>sp_slot = int (key_slot (last ks)), sp_error = None, sp_command = d,
          sp_seq = Some (map key_slot ks), sp_commands = cs\<rparr>)"
    "parsed d CMD_REQ_REDIS_MGET (units CMD_REQ_REDIS_MGET ks)"
    "list_all2 (is_part CMD_REQ_REDIS_MGET (units CMD_REQ_REDIS_MGET ks)) (slots_touched ks) cs"
    using format_by_slot_ok [OF c(2) mem assms(2) k assms(3-6), of j] unfolding slots_touched_def by blast
  have "card (key_slot ` set ks) = length cs" using list_all2_lengthD [OF d(3)] touched_slots by (simp add: slots_touched_def)
  from settle_cases [OF this] have settled: "settle \<lparr>sp_slot = int (key_slot (last ks)), sp_error = None, sp_command = d,
        sp_seq = Some (map key_slot ks), sp_commands = cs\<rparr>
      = \<lparr>sp_slot = int (key_slot (last ks)), sp_error = None, sp_command = d, sp_seq = Some (map key_slot ks), sp_commands = cs\<rparr>"
    using assms(7) by simp
  have "cs \<noteq> []" using \<open>card _ = _\<close> assms(7) by auto
  moreover have "key_slot (last ks) < REDIS_CLUSTER_SLOTS"
    using keyHashSlot_bound by (simp add: key_slot_def REDIS_CLUSTER_SLOTS_def)
  ultimately have run: "redisClusterFormattedCommand mem num i lk cc (request (w # ks)) (int (length (request (w # ks)))) wd
      = run_then (execute_all mem lk cs (cleared cc) wd) (\<lambda>(cc, wd, res).
          case res of Inl reply \<Rightarrow> finish_command cc wd reply
          | Inr subs \<Rightarrow> (case command_post_fragment (allocates mem) d (map key_slot ks) subs of
              None \<Rightarrow> Undefined | Some (e, reply) \<Rightarrow> finish_command (error_left e cc) wd reply))"
    using c(1) d(1) b settled by (simp add: redisClusterFormattedCommand_def cleared_def error_left_def Let_def)
  have "length (hiarray_list (c_keys d)) = length ks" "hiarray_inv (c_keys d)" "c_type d = CMD_REQ_REDIS_MGET"
    using d(2) list_all2_lengthD [of "stands_for d" "hiarray_list (c_keys d)"] by (auto simp: parsed_def units_def)
  then have "c_type d = CMD_REQ_REDIS_MGET" "unat (hiarray_n (c_keys d)) = length ks"
    using length_hiarray_list [of "c_keys d"] by auto
  moreover have "list_all2 (\<lambda>s c. c_cmd c = fst (mget_part V ks s) \<and> c_slot_num c = int s) (slots_touched ks) cs"
    by (rule list.rel_mono_strong [OF d(3)]) (simp add: is_part_def part_text mget_part_def Let_def)
  ultimately show ?thesis using run by blast
qed

context scripted_link
begin

lemma call_script:
  assumes "ample mem" "command_type w = Some t" "key_args t (w # as) = Some [k]" "length (request (w # as)) < 2 ^ 31"
    and con: "wired cc (of_nat (key_slot k)) n con" "script con ((request (w # as), R) # es)" "plain R"
  shows "\<exists>cc' con'. redisClusterFormattedCommand mem num i lk cc (request (w # as)) (int (length (request (w # as)))) wd
      = Done (cc', wd, Some (tree_of R)) \<and> wired cc' (of_nat (key_slot k)) n con' \<and> script con' es \<and> cc_retry_count cc' = 0"
proof -
  obtain c where c: "redisClusterFormattedCommand mem num i lk cc (request (w # as)) (int (length (request (w # as)))) wd
      = run_then (redis_cluster_command_execute mem lk c (cleared cc) wd) (\<lambda>(cc, wd, reply). finish_command cc wd reply)"
    "c_cmd c = request (w # as)" "c_slot_num c = int (key_slot k)"
    using formatted_one [OF assms(1-4), of num i lk cc wd] by blast
  have "wired (cleared cc) (of_nat (key_slot k)) n con" using con(1) by (subst wired_same) simp_all
  from execute_plain [OF this con(2,3)] obtain con' where e:
    "redis_cluster_command_execute mem lk c (cleared cc) wd = Done (set_con n (Some con') (cleared cc), wd, Some (tree_of R))" "script con' es"
    using c(2,3) by (auto simp: redis_cluster_command_execute_def)
  let ?cc = "(set_con n (Some con') (cleared cc))\<lparr>cc_retry_count := 0\<rparr>"
  have "wired ?cc (of_nat (key_slot k)) n con'"
    using wired_set [OF \<open>wired (cleared cc) _ n con\<close>, of con'] by (subst wired_same) simp_all
  then show ?thesis using c(1) e by (intro exI [of _ ?cc] exI [of _ con']) (simp add: finish_command_def)
qed

lemma mget_script:
  assumes h: "ample mem" "command_type w = Some CMD_REQ_REDIS_MGET" "2 \<le> length ks" "[] \<notin> set ks"
    "length (request (w # ks)) + 32 < 2 ^ 31" "length num = 12" "1 < card (key_slot ` set ks)"
    and tab: "\<forall>s\<in>set (slots_touched ks). node_get_by_table cc (of_nat s) = Some (N s) \<and> N s < length (cc_heap cc)"
    and con: "\<forall>n\<in>N ` set (slots_touched ks). \<exists>con. nd_con (cc_heap cc ! n) = Some con
      \<and> script con (map (mget_part V ks) (filter (\<lambda>s. N s = n) (slots_touched ks)))"
  shows "\<exists>cc'. redisClusterFormattedCommand mem num i lk cc (request (w # ks)) (int (length (request (w # ks)))) wd
      = Done (cc', wd, Some (tree_of (R_array (map V ks))))"
proof -
  obtain c cs where run: "redisClusterFormattedCommand mem num i lk cc (request (w # ks)) (int (length (request (w # ks)))) wd
      = run_then (execute_all mem lk cs (cleared cc) wd) (\<lambda>(cc, wd, res).
          case res of Inl reply \<Rightarrow> finish_command cc wd reply
          | Inr subs \<Rightarrow> (case command_post_fragment (allocates mem) c (map key_slot ks) subs of
              None \<Rightarrow> Undefined | Some (e, reply) \<Rightarrow> finish_command (error_left e cc) wd reply))"
    and c: "c_type c = CMD_REQ_REDIS_MGET" "unat (hiarray_n (c_keys c)) = length ks"
    and cs: "list_all2 (\<lambda>s c. c_cmd c = fst (mget_part V ks s) \<and> c_slot_num c = int s) (slots_touched ks) cs"
    using formatted_mget [OF h, where i = i and lk = lk and cc = cc and wd = wd and V = V] by blast
  define slot where "slot d = nat (c_slot_num d)" for d :: cmd
  define R where "R d = snd (mget_part V ks (slot d))" for d
  have slots: "slots_touched ks = map slot cs" "\<forall>d\<in>set cs. c_cmd d = fst (mget_part V ks (slot d)) \<and> c_slot_num d = int (slot d)"
    using cs by (induction rule: list_all2_induct) (auto simp: slot_def)
  have tab': "\<forall>d\<in>set cs. rt_type (tree_of (R d)) \<noteq> REDIS_REPLY_ERROR
      \<and> node_get_by_table (cleared cc) (word_of_int (c_slot_num d)) = Some (N (slot d)) \<and> N (slot d) < length (cc_heap (cleared cc))"
    using tab slots by (auto simp: R_def mget_part_def Let_def reply_types)
  have "map (\<lambda>d. (c_cmd d, R d)) (filter (\<lambda>d. N (slot d) = n) cs) = map (mget_part V ks) (filter (\<lambda>s. N s = n) (slots_touched ks))" for n
    unfolding slots(1) filter_map map_map comp_def using slots(2) by (intro map_cong) (auto simp: R_def prod_eq_iff)
  then have con': "\<forall>n\<in>(\<lambda>d. N (slot d)) ` set cs. \<exists>con. nd_con (cc_heap (cleared cc) ! n) = Some con
      \<and> script con (map (\<lambda>d. (c_cmd d, R d)) (filter (\<lambda>d. N (slot d) = n) cs))"
    using con slots(1) by (simp add: image_image)
  obtain cc' where e: "execute_all mem lk cs (cleared cc) wd = Done (cc', wd, Inr (map (\<lambda>d. (slot d, Some (tree_of (R d)))) cs))"
    using execute_all_script [OF tab' con', of mem wd] unfolding slot_def by blast
  have mem: "\<forall>n. allocates mem n" using h(1) by (auto simp: allocates_def ample_def)
  have ne: "ks \<noteq> []" using h(3) by auto
  have subs: "\<forall>(s, r)\<in>set (map (\<lambda>d. (slot d, Some (tree_of (R d)))) cs). r = Some (tree_of (R_array (map V (filter (\<lambda>k. key_slot k = s) ks))))"
    by (auto simp: R_def mget_part_def Let_def simp del: tree_of.simps)
  have "set (map key_slot ks) \<subseteq> set (slots_touched ks)" using slots_cover [of ks] by (simp add: slots_touched_def)
  then have "set (map key_slot ks) \<subseteq> fst ` set (map (\<lambda>d. (slot d, Some (tree_of (R d)))) cs)"
    unfolding slots(1) by (simp add: image_image)
  from merge_mget [OF mem c ne subs this] show ?thesis
    using run e by (simp add: error_left_def finish_command_def del: tree_of.simps)
qed

end

section \<open>The connections of \<open>Connection\<close> as links\<close>

text \<open>A connection is its context with its socket. How connections are opened (\<open>dial\<close>) and opened again
  (\<open>redial\<close>) is the business of \<open>net.c\<close>.\<close>

definition conn_link ::
    "heap \<Rightarrow> (nat \<Rightarrow> bytes) \<Rightarrow> (bytes \<Rightarrow> vararg \<Rightarrow> bytes) \<Rightarrow> (bytes \<Rightarrow> int \<Rightarrow> 'w \<Rightarrow> (redis_context \<times> net) option \<times> 'w)
      \<Rightarrow> (redis_context \<times> net \<Rightarrow> 'w \<Rightarrow> (redis_context \<times> net) \<times> 'w) \<Rightarrow> (redis_context \<times> net, 'w) link" where
  "conn_link mem strerror pf dial redial =
     \<lparr>lk_connect = dial, lk_reconnect = redial, lk_err = (\<lambda>(c, _). x_err c), lk_errstr = (\<lambda>(c, _). x_errstr c),
      lk_blocks = (\<lambda>(c, _). x_block c),
      lk_append = (\<lambda>(c, net) cmd. run_then (append_command mem c cmd) (\<lambda>(c, ok). Done ((c, net), ok))),
      lk_flush = (\<lambda>(c, net) w. run_then (write_until_done mem strerror c net) (\<lambda>(c, net, ok). Done ((c, net), w, ok))),
      lk_reply = (\<lambda>(c, net) w. run_then (redisGetReply mem strerror c net) (\<lambda>(c, net, ok, reply).
        Done ((c, net), w, ok, map_option (load (rd_store (x_reader c))) reply))),
      lk_command = (\<lambda>(c, net) cmd w. run_then (redisCommand mem strerror pf c net cmd []) (\<lambda>(c, net, reply).
        Done ((c, net), w, map_option (load (rd_store (x_reader c))) reply)))\<rparr>"

text \<open>What a socket does for a plan, with \<open>t\<close> in the output buffer: it takes what is to be sent when a
  reply is waited for, and brings the reply, both in pieces of any size.\<close>

fun offers :: "bytes \<Rightarrow> (nat + nat) list \<Rightarrow> (nat + bytes) list \<Rightarrow> link_op list \<Rightarrow> bool" where
  "offers t W E [] = True"
| "offers t W E (Sent q # ops) = (length t + length q + SDS_MAX_PREALLOC < 2 ^ 31 \<and> offers (t @ q) W E ops)"
| "offers t W E (Answer R # ops) =
     (\<exists>ws W' evs E'. W = ws @ W' \<and> takes_all ws (length t) \<and> E = evs @ E' \<and> list_all brings evs \<and> arrived evs = encode R
        \<and> reply_ok 0 R \<and> length t < 2 ^ 31 \<and> length (encode R) + 1024 + SDS_MAX_PREALLOC < 2 ^ 31 \<and> offers [] W' E' ops)"

definition conn_plan :: "heap \<Rightarrow> redis_context \<times> net \<Rightarrow> link_op list \<Rightarrow> bool" where
  "conn_plan mem c ops \<longleftrightarrow> good_heap mem \<and> ample mem
     \<and> (\<exists>t p. calm (fst c) t p \<and> ps_input p = [] \<and> offers t (nt_writes (snd c)) (nt_reads (snd c)) ops)"

abbreviation conn_script :: "heap \<Rightarrow> redis_context \<times> net \<Rightarrow> (bytes \<times> reply) list \<Rightarrow> bool" where
  "conn_script mem c es \<equiv> conn_plan mem c (calls es)"

lemma offers_late: "list_all brings late \<Longrightarrow> arrived late = [] \<Longrightarrow> offers t W E ops \<Longrightarrow> offers t W (late @ E) ops"
proof (induction t W E ops rule: offers.induct)
  case (3 t W E R ops)
  obtain ws W' evs E' where o: "W = ws @ W'" "takes_all ws (length t)" "E = evs @ E'" "list_all brings evs" "arrived evs = encode R"
    "reply_ok 0 R" "length t < 2 ^ 31" "length (encode R) + 1024 + SDS_MAX_PREALLOC < 2 ^ 31" "offers [] W' E' ops"
    using 3(4) by auto
  have "late @ E = (late @ evs) @ E'" "list_all brings (late @ evs)" "arrived (late @ evs) = encode R" using 3(2,3) o by simp_all
  then show ?case using o by (simp only: offers.simps) blast
qed simp_all

lemma conn_sent:
  assumes "conn_plan mem (x, net) (Sent q # ops)"
  shows "\<exists>x1. append_command mem x q = Done (x1, True) \<and> conn_plan mem (x1, net) ops"
proof -
  obtain t p where p: "good_heap mem" "ample mem" "calm x t p" "ps_input p = []" "length t + length q + SDS_MAX_PREALLOC < 2 ^ 31"
    "offers (t @ q) (nt_writes net) (nt_reads net) ops"
    using assms by (auto simp: conn_plan_def)
  from append_calm [OF p(1-3,5)] show ?thesis using p by (auto simp: conn_plan_def)
qed

lemma conn_answer:
  assumes "conn_plan mem (x, net) (Answer R # ops)"
  shows "x_block x \<and> (\<exists>x1 net1 a. redisGetReply mem strerror x net = Done (x1, net1, True, Some a)
    \<and> load (rd_store (x_reader x1)) a = tree_of R \<and> conn_plan mem (x1, net1) ops)"
proof -
  obtain t p where p: "good_heap mem" "ample mem" "calm x t p" "ps_input p = []" "offers t (nt_writes net) (nt_reads net) (Answer R # ops)"
    using assms unfolding conn_plan_def fst_conv snd_conv by blast
  then obtain ws W' evs E' where o: "nt_writes net = ws @ W'" "takes_all ws (length t)" "nt_reads net = evs @ E'" "list_all brings evs"
    "arrived evs = encode R @ []" "reply_ok 0 R" "length t < 2 ^ 31" "room p (arrived evs)" "offers [] W' E' ops"
    by (auto simp: room_def)
  from get_reply_answered [OF p(1-4) o(7,2,1,3-6,8), of strerror] obtain x1 net1 a where g:
    "redisGetReply mem strerror x net = Done (x1, net1, True, Some a)" "answered x1 net1 [] E' R a" "nt_writes net1 = W'" by blast
  obtain late p1 where l: "calm x1 [] p1" "nt_reads net1 = late @ E'" "list_all brings late" "ps_input p1 = []" "arrived late = []"
    "denotes (rd_store (x_reader x1)) R a" using g(2) by (auto simp: answered_def)
  have "conn_plan mem (x1, net1) ops"
    using p(1,2) l(1,2,4) offers_late [OF l(3,5) o(9)] g(3) by (auto simp: conn_plan_def)
  then show ?thesis using p(3) g(1) load_denotes [OF l(6)] by (auto simp: calm_def)
qed

interpretation conn: planned_link "conn_link mem strerror pf dial redial" "conn_plan mem"
  for mem strerror pf dial redial
proof
  fix c ops assume "conn_plan mem c ops"
  then show "lk_err (conn_link mem strerror pf dial redial) c = 0"
    by (cases c) (auto simp: conn_link_def conn_plan_def calm_def)
next
  fix c q ops assume s: "conn_plan mem c (Sent q # ops)"
  obtain x net where c: "c = (x, net)" by (cases c)
  obtain x1 where "append_command mem x q = Done (x1, True)" "conn_plan mem (x1, net) ops" using conn_sent s c by blast
  then show "\<exists>c1. lk_append (conn_link mem strerror pf dial redial) c q = Done (c1, True) \<and> conn_plan mem c1 ops"
    using c by (intro exI [of _ "(x1, net)"]) (simp add: conn_link_def)
next
  fix c R ops assume s: "conn_plan mem c (Answer R # ops)"
  obtain x net where c: "c = (x, net)" by (cases c)
  let ?lk = "conn_link mem strerror pf dial redial"
  obtain x1 net1 a where t: "x_block x" "redisGetReply mem strerror x net = Done (x1, net1, True, Some a)"
    "load (rd_store (x_reader x1)) a = tree_of R" "conn_plan mem (x1, net1) ops" using conn_answer s c by blast
  show "lk_blocks ?lk c \<and> (\<exists>c1. (\<forall>w. lk_reply ?lk c w = Done (c1, w, True, Some (tree_of R))) \<and> conn_plan mem c1 ops)"
    using t c by (intro conjI exI [of _ "(x1, net1)"]) (simp_all add: conn_link_def)
qed

section \<open>Samples\<close>

text \<open>A heap that never fails, connections that answer a given script, and a cluster of two nodes.\<close>

definition pages :: heap where
  "pages n = Some (replicate n NUL)"

lemma pages_heap: "good_heap pages" "ample pages"
  by (simp_all add: pages_def good_heap_def ample_def)

definition sample_con :: "(bytes \<times> reply) list \<Rightarrow> redis_context \<times> net" where
  "sample_con es = (the (redisContextInit pages True),
     \<lparr>nt_writes = map (\<lambda>(q, _). Inr (length q)) es, nt_reads = map (\<lambda>(_, R). Inr (encode R)) es, nt_sent = []\<rparr>)"

definition small_turn :: "bytes \<times> reply \<Rightarrow> bool" where
  "small_turn e \<longleftrightarrow> fst e \<noteq> [] \<and> length (fst e) \<le> 1000 \<and> encode (snd e) \<noteq> [] \<and> length (encode (snd e)) \<le> 1000 \<and> reply_ok 0 (snd e)"

lemma sample_con_script:
  assumes "list_all small_turn es"
  shows "conn_script pages (sample_con es) es"
proof -
  obtain c p where c: "redisContextInit pages True = Some c" "calm c [] p" "ps_input p = []"
    using fresh_context [OF pages_heap] by blast
  have "offers [] (map (\<lambda>(q, _). Inr (length q)) es) (map (\<lambda>(_, R). Inr (encode R)) es) (calls es)"
    using assms
  proof (induction es)
    case (Cons e es)
    obtain q R where e: "e = (q, R)" by (cases e)
    let ?W = "map (\<lambda>(q, _). Inr (length q)) es" and ?E = "map (\<lambda>(_, R). Inr (encode R)) es"
    have "takes_all [Inr (length q)] (length q)" "list_all brings [Inr (encode R)]" "arrived [Inr (encode R)] = encode R" "reply_ok 0 R"
      "length q < 2 ^ 31" "length (encode R) + 1024 + SDS_MAX_PREALLOC < 2 ^ 31" "offers [] ?W ?E (calls es)"
      using Cons e by (auto simp: small_turn_def SDS_MAX_PREALLOC_def)
    then have "offers q ([Inr (length q)] @ ?W) ([Inr (encode R)] @ ?E) (Answer R # calls es)" unfolding offers.simps by blast
    moreover have "length q + SDS_MAX_PREALLOC < 2 ^ 31" using Cons(2) e by (simp add: small_turn_def SDS_MAX_PREALLOC_def)
    ultimately show ?case using e by simp
  qed simp
  then show ?thesis using pages_heap c by (auto simp: conn_plan_def sample_con_def)
qed

definition sample_cluster :: "'c \<Rightarrow> 'c \<Rightarrow> 'c cluster" where
  "sample_cluster a b =
     \<lparr>cc_err = 0, cc_errstr = [], cc_ip = None, cc_port = 0, cc_flags = REDIS_BLOCK, cc_slots = None, cc_nodes = None,
      cc_table = map (\<lambda>k. Some (if k < 8192 then 0 else 1)) [0..<REDIS_CLUSTER_SLOTS], cc_route_version = 1,
      cc_max_redirect_count = 1, cc_retry_count = 0, cc_requests = None, cc_need_update_route = False,
      cc_heap = [(new_node REDIS_ROLE_MASTER)\<lparr>nd_con := Some a\<rparr>, (new_node REDIS_ROLE_MASTER)\<lparr>nd_con := Some b\<rparr>]\<rparr>"

lemma sample_table:
  "s < REDIS_CLUSTER_SLOTS \<Longrightarrow> node_get_by_table (sample_cluster a b) (of_nat s) = Some (if s < 8192 then 0 else 1)"
  by (simp add: node_get_by_table_def sample_cluster_def REDIS_CLUSTER_SLOTS_def unat_of_nat)

lemma sample_nodes: "length (cc_heap (sample_cluster a b)) = 2" "nd_con (cc_heap (sample_cluster a b) ! 0) = Some a"
  "nd_con (cc_heap (sample_cluster a b) ! Suc 0) = Some b"
  by (simp_all add: sample_cluster_def)

section \<open>What a caller can rely on\<close>







end
