(* ===== verification/Pipeline.thy ===== *)
theory Pipeline
  imports Cluster
begin

text \<open>
  The pipeline of the cluster client (\<open>hircluster.c\<close>): commands are appended to the output buffers
  of their nodes, their replies fetched later in the order of the commands; and the class
  \<open>redis_data\<close> (\<open>redis_op.cpp\<close>), through which the programs use the client.
\<close>

section \<open>Appending\<close>

text \<open>\<open>__redisClusterAppendCommand\<close>\<close>

definition cluster_append :: "('c, 'w) link \<Rightarrow> cmd \<Rightarrow> 'c cluster \<Rightarrow> 'w \<Rightarrow> ('c cluster \<times> 'w \<times> bool) run" where
  "cluster_append lk command cc w =
     (case node_get_by_table cc (word_of_int (c_slot_num command)) of
        None \<Rightarrow> Done (cluster_error_set cc REDIS_ERR_OTHER ''node get by slot error'', w, False)
      | Some n \<Rightarrow>
          (case ctx_get_by_node lk cc n w of
             (cc, w, None) \<Rightarrow> Done (cluster_error_set cc REDIS_ERR_OTHER ''ctx get by node is null'', w, False)
           | (cc, w, Some c) \<Rightarrow>
               if lk_err lk c \<noteq> 0 then Done (cluster_error_set cc (lk_err lk c) (lk_errstr lk c), w, False)
               else run_then (lk_append lk c (c_cmd command)) (\<lambda>(c, ok).
                 let cc = set_con n (Some c) cc in
                 if ok then Done (cc, w, True) else Done (cluster_error_set cc (lk_err lk c) (lk_errstr lk c), w, False))))"

fun append_all :: "('c, 'w) link \<Rightarrow> cmd list \<Rightarrow> 'c cluster \<Rightarrow> 'w \<Rightarrow> ('c cluster \<times> 'w \<times> bool) run" where
  "append_all lk [] cc w = Done (cc, w, True)"
| "append_all lk (c # cs) cc w =
     run_then (cluster_append lk c cc w) (\<lambda>(cc, w, ok). if ok then append_all lk cs cc w else Done (cc, w, False))"

text \<open>The buffer of the command is the caller's: the command is kept without it.\<close>

definition add_request :: "split \<Rightarrow> 'c cluster \<Rightarrow> 'c cluster" where
  "add_request s cc =
     cc\<lparr>cc_requests := Some ((case cc_requests cc of None \<Rightarrow> [] | Some l \<Rightarrow> l)
       @ [\<lparr>rq_command = (sp_command s)\<lparr>c_cmd := []\<rparr>, rq_seq = sp_seq s,
           rq_subs = (if sp_commands s = [] then None else Some (sp_commands s))\<rparr>])\<rparr>"

definition redisClusterAppendFormattedCommand ::
    "heap \<Rightarrow> bytes \<Rightarrow> u64 \<Rightarrow> ('c, 'w) link \<Rightarrow> 'c cluster \<Rightarrow> bytes \<Rightarrow> int \<Rightarrow> 'w \<Rightarrow> ('c cluster \<times> 'w \<times> bool) run" where
  "redisClusterAppendFormattedCommand mem num cmd_id lk cc cmd len w =
     (let no_memory = (\<lambda>cc. Done (cluster_error_set cc REDIS_ERR_OOM ''Out of memory'', w, False)) in
      if cc_requests cc = None \<and> mem 48 = None then no_memory cc
      else let cc = (if cc_requests cc = None then cc\<lparr>cc_requests := Some []\<rparr> else cc) in
        case new_command (allocates mem) cmd_id of
          None \<Rightarrow> no_memory cc
        | Some (command, cmd_id) \<Rightarrow>
            if mem 48 = None then no_memory cc
            else case command_format_by_slot (allocates mem) num cmd_id (command\<lparr>c_cmd := cmd, c_clen := word_of_int len\<rparr>) of
              None \<Rightarrow> Undefined
            | Some s \<Rightarrow>
                let cc = error_left (sp_error s) cc in
                if sp_slot s < 0 then Done (cc, w, False)
                else if sp_slot s \<ge> int REDIS_CLUSTER_SLOTS then
                  Done (cluster_error_set cc REDIS_ERR_OTHER ''slot_num is out of range'', w, False)
                else run_then (append_all lk (if sp_commands s = [] then [sp_command s] else sp_commands s) cc w) (\<lambda>(cc, w, ok).
                  Done (if ok then add_request s cc else cc, w, ok)))"

definition redisClustervAppendCommand ::
    "heap \<Rightarrow> (bytes \<Rightarrow> vararg \<Rightarrow> bytes) \<Rightarrow> bytes \<Rightarrow> u64 \<Rightarrow> ('c, 'w) link \<Rightarrow> 'c cluster \<Rightarrow> bytes \<Rightarrow> vararg list \<Rightarrow> 'w
      \<Rightarrow> ('c cluster \<times> 'w \<times> bool) run" where
  "redisClustervAppendCommand mem pf num cmd_id lk cc format ap w =
     (case redisvFormatCommand mem pf True format ap of
        None \<Rightarrow> Undefined
      | Some (len, cmd) \<Rightarrow>
          if len = -1 then Done (cluster_error_set cc REDIS_ERR_OOM ''Out of memory'', w, False)
          else if len = -2 then Done (cluster_error_set cc REDIS_ERR_OTHER ''Invalid format string'', w, False)
          else (case cmd of
                  None \<Rightarrow> Undefined
                | Some t \<Rightarrow> redisClusterAppendFormattedCommand mem num cmd_id lk cc (take (nat len) t) len w))"

definition redisClusterAppendCommandArgv ::
    "heap \<Rightarrow> bytes \<Rightarrow> u64 \<Rightarrow> ('c, 'w) link \<Rightarrow> 'c cluster \<Rightarrow> bytes list \<Rightarrow> nat list option \<Rightarrow> 'w
      \<Rightarrow> ('c cluster \<times> 'w \<times> bool) run" where
  "redisClusterAppendCommandArgv mem num cmd_id lk cc argv argvlen w =
     (case redisFormatCommandArgv mem True argv argvlen of
        None \<Rightarrow> Undefined
      | Some (len, cmd) \<Rightarrow>
          if len = -1 then Done (cluster_error_set cc REDIS_ERR_OOM ''Out of memory'', w, False)
          else (case cmd of
                  None \<Rightarrow> Undefined
                | Some t \<Rightarrow> redisClusterAppendFormattedCommand mem num cmd_id lk cc (take (nat len) t) len w))"

section \<open>Fetching the replies\<close>

text \<open>\<open>__redisClusterGetReply\<close>: the flag says \<open>REDIS_OK\<close>.\<close>

definition cluster_get_reply :: "('c, 'w) link \<Rightarrow> int \<Rightarrow> 'c cluster \<Rightarrow> 'w \<Rightarrow> ('c cluster \<times> 'w \<times> bool \<times> rtree option) run" where
  "cluster_get_reply lk slot_num cc w =
     (if slot_num < 0 then Done (cc, w, False, None)
      else case node_get_by_table cc (word_of_int slot_num) of
        None \<Rightarrow> Done (cluster_error_set cc REDIS_ERR_OTHER ''node get by table is null'', w, False, None)
      | Some n \<Rightarrow>
          (case ctx_get_by_node lk cc n w of
             (cc, w, None) \<Rightarrow> Done (cluster_error_set cc REDIS_ERR_OOM ''Out of memory'', w, False, None)
           | (cc, w, Some c) \<Rightarrow>
               if lk_err lk c \<noteq> 0 then
                 let retries = cc_retry_count cc + 1;
                     cc = (if cc_need_update_route cc then cc
                           else if retries > cc_max_redirect_count cc then cc\<lparr>cc_need_update_route := True, cc_retry_count := 0\<rparr>
                           else cc\<lparr>cc_retry_count := retries\<rparr>)
                 in Done (cluster_error_set cc (lk_err lk c) (lk_errstr lk c), w, False, None)
               else run_then (lk_reply lk c w) (\<lambda>(c, w, ok, reply).
                 let cc = set_con n (Some c) cc in
                 if \<not> ok then Done (cluster_error_set cc (lk_err lk c) (lk_errstr lk c), w, False, None)
                 else Done (if (case reply of None \<Rightarrow> False | Some r \<Rightarrow> cluster_reply_error_type r = CLUSTER_ERR_MOVED)
                            then cc\<lparr>cc_need_update_route := True\<rparr> else cc, w, True, reply))))"

text \<open>The replies of the sub commands; none when one of them fails.\<close>

fun fetch_subs :: "('c, 'w) link \<Rightarrow> cmd list \<Rightarrow> 'c cluster \<Rightarrow> 'w \<Rightarrow> ('c cluster \<times> 'w \<times> (nat \<times> rtree option) list option) run" where
  "fetch_subs lk [] cc w = Done (cc, w, Some [])"
| "fetch_subs lk (c # cs) cc w =
     (if c_slot_num c < 0 then
        Done (cluster_error_set cc REDIS_ERR_OTHER ''sub_command slot_num is less then zero'', w, None)
      else run_then (cluster_get_reply lk (c_slot_num c) cc w) (\<lambda>(cc, w, ok, reply).
        if \<not> ok then Done (cc, w, None)
        else run_then (fetch_subs lk cs cc w) (\<lambda>(cc, w, rest).
          Done (cc, w, map_option ((#) (nat (c_slot_num c), reply)) rest))))"

definition fetch_request :: "heap \<Rightarrow> ('c, 'w) link \<Rightarrow> pending \<Rightarrow> 'c cluster \<Rightarrow> 'w \<Rightarrow> ('c cluster \<times> 'w \<times> bool \<times> rtree option) run" where
  "fetch_request mem lk rq cc w =
     (if c_slot_num (rq_command rq) \<ge> 0 then cluster_get_reply lk (c_slot_num (rq_command rq)) cc w
      else case rq_subs rq of
        None \<Rightarrow> Done (cluster_error_set cc REDIS_ERR_OTHER ''sub_commands in command is null'', w, False, None)
      | Some cs \<Rightarrow>
          run_then (fetch_subs lk cs cc w) (\<lambda>(cc, w, subs).
            case subs of
              None \<Rightarrow> Done (cc, w, False, None)
            | Some subs \<Rightarrow>
                (case rq_seq rq of
                   None \<Rightarrow> Undefined
                 | Some sq \<Rightarrow>
                     (case command_post_fragment (allocates mem) (rq_command rq) sq subs of
                        None \<Rightarrow> Undefined
                      | Some (e, reply) \<Rightarrow> Done (error_left e cc, w, reply \<noteq> None, reply)))))"

text \<open>The request is taken off the list whatever comes of it.\<close>

definition redisClusterGetReply :: "heap \<Rightarrow> ('c, 'w) link \<Rightarrow> 'c cluster \<Rightarrow> 'w \<Rightarrow> ('c cluster \<times> 'w \<times> bool \<times> rtree option) run" where
  "redisClusterGetReply mem lk cc w =
     (let cc = cc\<lparr>cc_err := 0, cc_errstr := []\<rparr> in
      case cc_requests cc of
        None \<Rightarrow> Done (cc, w, False, None)
      | Some [] \<Rightarrow> Done (cc, w, True, None)
      | Some (rq # rqs) \<Rightarrow>
          run_then (fetch_request mem lk rq cc w) (\<lambda>(cc, w, ok, reply). Done (cc\<lparr>cc_requests := Some rqs\<rparr>, w, ok, reply)))"

section \<open>Reset\<close>

fun send_nodes :: "('c, 'w) link \<Rightarrow> nat list \<Rightarrow> 'c cluster \<Rightarrow> 'w \<Rightarrow> ('c cluster \<times> 'w \<times> bool) run" where
  "send_nodes lk [] cc w = Done (cc, w, True)"
| "send_nodes lk (n # ns) cc w =
     (case ctx_get_by_node lk cc n w of
        (cc, w, None) \<Rightarrow> send_nodes lk ns cc w
      | (cc, w, Some c) \<Rightarrow>
          if lk_blocks lk c then
            run_then (lk_flush lk c w) (\<lambda>(c, w, ok).
              let cc = set_con n (Some c) cc in if ok then send_nodes lk ns cc w else Done (cc, w, False))
          else send_nodes lk ns cc w)"

definition redisCLusterSendAll :: "('c, 'w) link \<Rightarrow> 'c cluster \<Rightarrow> 'w \<Rightarrow> ('c cluster \<times> 'w \<times> bool) run" where
  "redisCLusterSendAll lk cc w =
     (case cc_nodes cc of None \<Rightarrow> Done (cc, w, False) | Some d \<Rightarrow> send_nodes lk (map snd (dict_entries d)) cc w)"

definition redisCLusterClearAll :: "'c cluster \<Rightarrow> 'c cluster \<times> bool" where
  "redisCLusterClearAll cc =
     (let cc = (if cc_err cc \<noteq> 0 then cc\<lparr>cc_err := 0, cc_errstr := []\<rparr> else cc) in
      case cc_nodes cc of
        None \<Rightarrow> (cc, False)
      | Some d \<Rightarrow> (fold (\<lambda>n. set_con n None) (map snd (dict_entries d)) cc, True))"

text \<open>The loop of \<open>redisClusterReset\<close> over the outstanding replies: every turn takes a request off the list.\<close>

definition waiting_requests :: "'c cluster \<Rightarrow> nat" where
  "waiting_requests cc = (case cc_requests cc of None \<Rightarrow> 0 | Some l \<Rightarrow> length l)"

lemma fetch_shortens:
  "redisClusterGetReply mem lk cc w = Done (cc', w', ok, Some r) \<Longrightarrow> waiting_requests cc' < waiting_requests cc"
  unfolding redisClusterGetReply_def Let_def waiting_requests_def
  by (cases "fetch_request mem lk (hd (the (cc_requests cc))) (cc\<lparr>cc_err := 0, cc_errstr := []\<rparr>) w")
    (auto split: option.splits list.splits)

function drain :: "heap \<Rightarrow> ('c, 'w) link \<Rightarrow> 'c cluster \<Rightarrow> 'w \<Rightarrow> ('c cluster \<times> 'w) run" where
  "drain mem lk cc w =
     run_then (redisClusterGetReply mem lk cc w) (\<lambda>(cc', w', ok, reply).
       if \<not> ok then Done (fst (redisCLusterClearAll cc'), w')
       else if reply = None then Done (cc', w')
       else drain mem lk cc' w')"
  by pat_completeness auto
termination
  by (relation "measure (\<lambda>(mem, lk, cc, w). waiting_requests cc)") (auto dest: fetch_shortens)

declare drain.simps [simp del]

definition redisClusterReset :: "heap \<Rightarrow> ('c, 'w) link \<Rightarrow> 'c cluster \<Rightarrow> 'w \<Rightarrow> ('c cluster \<times> 'w) run" where
  "redisClusterReset mem lk cc w =
     (if cc_nodes cc = None then Done (cc, w)
      else run_then (if cc_err cc \<noteq> 0 then Done (fst (redisCLusterClearAll cc), w)
                     else run_then (redisCLusterSendAll lk cc w) (\<lambda>(cc, w, _). drain mem lk cc w)) (\<lambda>(cc, w).
        let cc = cc\<lparr>cc_requests := None\<rparr> in
        if cc_need_update_route cc then
          run_then (cluster_update_route mem lk cc w) (\<lambda>(cc, w, ok).
            Done (if ok then cc\<lparr>cc_need_update_route := False\<rparr>
                  else cluster_error_set cc REDIS_ERR_OTHER ''route update error, please recreate redisClusterContext!'', w))
        else Done (cc, w)))"

section \<open>The class \<open>redis_data\<close>\<close>

definition cluster_addresses :: bytes where
  "cluster_addresses =
     ''9.134.0.139:51002,9.134.0.139:51001,9.134.190.157:52002,9.134.74.195:5002,9.134.74.195:5001,'' @
     ''9.134.54.5:7002,9.135.155.140:51002,9.135.155.140:51003,9.134.54.5:7001,9.134.190.157:52001''"

definition connect_init :: "heap \<Rightarrow> ('c, 'w) link \<Rightarrow> 'c cluster \<Rightarrow> 'w \<Rightarrow> ('c cluster \<times> 'w \<times> bool) run" where
  "connect_init mem lk cc w =
     run_then (redisClusterSetOptionAddNodes mem cc cluster_addresses) (\<lambda>(cc, _).
     run_then (redisClusterConnect2 mem lk (redisClusterSetOptionRouteUseSlots cc) w) (\<lambda>(cc, w, _).
       Done (cc, w, cc_err cc = 0)))"

text \<open>The constructor; without memory for the context there is none, and no complaint.\<close>

definition redis_data :: "heap \<Rightarrow> ('c, 'w) link \<Rightarrow> 'w \<Rightarrow> ('c cluster option \<times> 'w) run" where
  "redis_data mem lk w =
     (case redisClusterContextInit mem of
        None \<Rightarrow> Done (None, w)
      | Some cc \<Rightarrow> run_then (connect_init mem lk cc w) (\<lambda>(cc, w, _). Done (Some cc, w)))"

text \<open>The command is handed over as the format, with no arguments. A missing context is only met when
  its error text is printed.\<close>

definition run_command ::
    "heap \<Rightarrow> (bytes \<Rightarrow> vararg \<Rightarrow> bytes) \<Rightarrow> bytes \<Rightarrow> u64 \<Rightarrow> ('c, 'w) link \<Rightarrow> 'c cluster option \<Rightarrow> bytes \<Rightarrow> 'w
      \<Rightarrow> ('c cluster \<times> 'w \<times> rtree option) run" where
  "run_command mem pf num cmd_id lk cc cmd w =
     (case cc of None \<Rightarrow> Undefined | Some cc \<Rightarrow> redisClusterCommand mem pf num cmd_id lk cc (cstr cmd) [] w)"

definition redis_insert ::
    "heap \<Rightarrow> (bytes \<Rightarrow> vararg \<Rightarrow> bytes) \<Rightarrow> bytes \<Rightarrow> u64 \<Rightarrow> ('c, 'w) link \<Rightarrow> 'c cluster option \<Rightarrow> bytes \<Rightarrow> 'w
      \<Rightarrow> ('c cluster \<times> 'w) run" where
  "redis_insert mem pf num cmd_id lk cc cmd w =
     run_then (run_command mem pf num cmd_id lk cc cmd w) (\<lambda>(cc, w, _). Done (cc, w))"

definition redis_select ::
    "heap \<Rightarrow> (bytes \<Rightarrow> vararg \<Rightarrow> bytes) \<Rightarrow> bytes \<Rightarrow> u64 \<Rightarrow> ('c, 'w) link \<Rightarrow> 'c cluster option \<Rightarrow> bytes \<Rightarrow> 'w
      \<Rightarrow> ('c cluster \<times> 'w \<times> bytes) run" where
  "redis_select mem pf num cmd_id lk cc cmd w =
     run_then (run_command mem pf num cmd_id lk cc cmd w) (\<lambda>(cc, w, re).
       Done (cc, w, case re of None \<Rightarrow> ''error'' | Some r \<Rightarrow> (case rt_str r of None \<Rightarrow> [] | Some t \<Rightarrow> cstr t)))"

end
