(* ===== verification/PipelineSpec.thy ===== *)
theory PipelineSpec
  imports ClusterSpec Pipeline
begin

text \<open>
  What the pipeline gives: commands appended one after the other, over any number of nodes, get
  their replies in the order in which they were appended; and what the class \<open>redis_data\<close> hands to
  the programs.
\<close>

section \<open>Commands with one key in the pipeline\<close>

text \<open>The words of a command, its key, and the reply of the server.\<close>

type_synonym queued = "bytes list \<times> bytes \<times> reply"

definition one_key :: "queued \<Rightarrow> bool" where
  "one_key x \<longleftrightarrow> (case x of (a, k, R) \<Rightarrow> a \<noteq> [] \<and> length (request a) < 2 ^ 31
     \<and> (\<exists>t. command_type (hd a) = Some t \<and> key_args t a = Some [k]))"

definition request_of :: "queued \<Rightarrow> bytes" where
  "request_of x = request (fst x)"

definition slot_number :: "queued \<Rightarrow> nat" where
  "slot_number x = key_slot (fst (snd x))"

definition reply_of :: "queued \<Rightarrow> reply" where
  "reply_of x = snd (snd x)"

text \<open>The caller's side: appending the commands, then fetching a number of replies.\<close>

fun append_each :: "heap \<Rightarrow> bytes \<Rightarrow> u64 \<Rightarrow> ('c, 'w) link \<Rightarrow> bytes list \<Rightarrow> 'c cluster \<Rightarrow> 'w \<Rightarrow> ('c cluster \<times> 'w \<times> bool) run" where
  "append_each mem num i lk [] cc w = Done (cc, w, True)"
| "append_each mem num i lk (q # qs) cc w =
     run_then (redisClusterAppendFormattedCommand mem num i lk cc q (int (length q)) w) (\<lambda>(cc, w, ok).
       if ok then append_each mem num i lk qs cc w else Done (cc, w, False))"

fun fetch_each :: "heap \<Rightarrow> ('c, 'w) link \<Rightarrow> nat \<Rightarrow> 'c cluster \<Rightarrow> 'w \<Rightarrow> ('c cluster \<times> 'w \<times> rtree option list) run" where
  "fetch_each mem lk 0 cc w = Done (cc, w, [])"
| "fetch_each mem lk (Suc n) cc w =
     run_then (redisClusterGetReply mem lk cc w) (\<lambda>(cc, w, ok, reply).
       if ok then run_then (fetch_each mem lk n cc w) (\<lambda>(cc, w, replies). Done (cc, w, reply # replies))
       else Done (cc, w, []))"

definition opened :: "'c cluster \<Rightarrow> 'c cluster" where
  "opened cc = (if cc_requests cc = None then cc\<lparr>cc_requests := Some []\<rparr> else cc)"

definition requests_of :: "'c cluster \<Rightarrow> pending list" where
  "requests_of cc = (case cc_requests cc of None \<Rightarrow> [] | Some l \<Rightarrow> l)"

lemma append_formatted:
  assumes "ample mem" "one_key x"
  shows "\<exists>c. redisClusterAppendFormattedCommand mem num i lk cc (request_of x) (int (length (request_of x))) w
      = run_then (cluster_append lk c (opened cc) w) (\<lambda>(cc, w, ok).
          Done (if ok then cc\<lparr>cc_requests := Some (requests_of cc @ [\<lparr>rq_command = c\<lparr>c_cmd := []\<rparr>, rq_seq = None, rq_subs = None\<rparr>])\<rparr> else cc, w, ok))
    \<and> c_cmd c = request_of x \<and> c_slot_num c = int (slot_number x)"
proof -
  obtain v as k R t where x: "x = (v # as, k, R)" "length (request (v # as)) < 2 ^ 31" "command_type v = Some t" "key_args t (v # as) = Some [k]"
    using assms(2) by (auto simp: one_key_def neq_Nil_conv split: prod.splits)
  have q: "request_of x = request (v # as)" "slot_number x = key_slot k" by (simp_all add: x(1) request_of_def slot_number_def)
  have mem: "\<forall>n. allocates mem n" using assms(1) by (auto simp: allocates_def ample_def)
  obtain b where b: "mem 48 = Some b" using ampleD [OF assms(1), of 48] by auto
  have len: "length (request (v # as)) < 2 ^ 32" using x(2) by simp
  obtain c j where c: "new_command (allocates mem) i = Some (c, j)"
    "holds_request (c\<lparr>c_cmd := request (v # as), c_clen := word_of_int (int (length (request (v # as))))\<rparr>) (v # as)"
    using command_holds [OF mem len] .
  obtain d where d: "command_format_by_slot (allocates mem) num j
        (c\<lparr>c_cmd := request (v # as), c_clen := word_of_int (int (length (request (v # as))))\<rparr>)
      = Some \<lparr>sp_slot = int (key_slot k), sp_error = None, sp_command = d, sp_seq = None, sp_commands = []\<rparr>"
    "c_cmd d = request (v # as)" "c_slot_num d = int (key_slot k)"
    using format_single [OF c(2) mem x(3,4,2)] by blast
  have "key_slot k < REDIS_CLUSTER_SLOTS"
    using keyHashSlot_bound by (simp add: key_slot_def REDIS_CLUSTER_SLOTS_def)
  then have "redisClusterAppendFormattedCommand mem num i lk cc (request_of x) (int (length (request_of x))) w
      = run_then (append_all lk [d] (opened cc) w) (\<lambda>(cc, w, ok).
          Done (if ok then add_request \<lparr>sp_slot = int (key_slot k), sp_error = None, sp_command = d, sp_seq = None, sp_commands = []\<rparr> cc else cc, w, ok))"
    using c(1) d b q by (simp add: redisClusterAppendFormattedCommand_def error_left_def opened_def Let_def)
  also have "\<dots> = run_then (cluster_append lk d (opened cc) w) (\<lambda>(cc, w, ok).
      Done (if ok then cc\<lparr>cc_requests := Some (requests_of cc @ [\<lparr>rq_command = d\<lparr>c_cmd := []\<rparr>, rq_seq = None, rq_subs = None\<rparr>])\<rparr> else cc, w, ok))"
    by (cases "cluster_append lk d (opened cc) w") (auto simp: add_request_def requests_of_def)
  finally show ?thesis using d q by auto
qed

lemma table_same: "cc_table a = cc_table b \<Longrightarrow> node_get_by_table a s = node_get_by_table b s"
  by (simp add: node_get_by_table_def)

section \<open>Order\<close>

text \<open>The table leads the commands to nodes of \<open>S\<close>.\<close>

definition routed :: "(nat \<Rightarrow> nat) \<Rightarrow> nat set \<Rightarrow> queued list \<Rightarrow> 'c cluster \<Rightarrow> bool" where
  "routed N S xs cc \<longleftrightarrow> (\<forall>x\<in>set xs. node_get_by_table cc (of_nat (slot_number x)) = Some (N (slot_number x)) \<and> N (slot_number x) \<in> S)"

lemma routed_same: "cc_table cc' = cc_table cc \<Longrightarrow> routed N S xs cc' = routed N S xs cc"
  using table_same [of cc' cc] by (simp add: routed_def)

abbreviation at_node :: "(nat \<Rightarrow> nat) \<Rightarrow> nat \<Rightarrow> queued \<Rightarrow> bool" where
  "at_node N n x \<equiv> N (slot_number x) = n"

text \<open>Every node of \<open>S\<close> has a connection, with the plan \<open>P\<close> of the node.\<close>

context planned_link
begin

definition on_plan :: "nat set \<Rightarrow> (nat \<Rightarrow> link_op list) \<Rightarrow> 'c cluster \<Rightarrow> bool" where
  "on_plan S P cc \<longleftrightarrow> (\<forall>n\<in>S. n < length (cc_heap cc) \<and> (\<exists>con. nd_con (cc_heap cc ! n) = Some con \<and> plan con (P n)))"

lemma on_plan_same: "cc_heap cc' = cc_heap cc \<Longrightarrow> on_plan S P cc' = on_plan S P cc"
  by (simp add: on_plan_def)

lemma on_plan_step:
  assumes "on_plan S P cc" "n \<in> S" "plan con (Q n)" "\<forall>m\<in>S. m \<noteq> n \<longrightarrow> Q m = P m"
  shows "on_plan S Q (set_con n (Some con) cc)"
  using assms unfolding on_plan_def by (metis set_con_simps(2,5,6))

lemma append_queued:
  assumes "ample mem" "one_key x" "node_get_by_table cc (of_nat (slot_number x)) = Some n" "n \<in> S"
    "on_plan S P cc" "P n = Sent (request_of x) # Q n" "\<forall>m\<in>S. m \<noteq> n \<longrightarrow> Q m = P m"
  shows "\<exists>cc' rq. redisClusterAppendFormattedCommand mem num i lk cc (request_of x) (int (length (request_of x))) w = Done (cc', w, True)
    \<and> on_plan S Q cc' \<and> cc_table cc' = cc_table cc \<and> cc_requests cc' = Some (requests_of cc @ [rq])
    \<and> c_slot_num (rq_command rq) = int (slot_number x)"
proof -
  obtain c where c: "redisClusterAppendFormattedCommand mem num i lk cc (request_of x) (int (length (request_of x))) w
      = run_then (cluster_append lk c (opened cc) w) (\<lambda>(cc, w, ok).
          Done (if ok then cc\<lparr>cc_requests := Some (requests_of cc @ [\<lparr>rq_command = c\<lparr>c_cmd := []\<rparr>, rq_seq = None, rq_subs = None\<rparr>])\<rparr> else cc, w, ok))"
    "c_cmd c = request_of x" "c_slot_num c = int (slot_number x)"
    using append_formatted [OF assms(1,2), of num i lk cc w] by blast
  have o: "cc_table (opened cc) = cc_table cc" "cc_heap (opened cc) = cc_heap cc" "requests_of (opened cc) = requests_of cc"
    by (simp_all add: opened_def requests_of_def)
  obtain con where con: "n < length (cc_heap cc)" "nd_con (cc_heap cc ! n) = Some con" "plan con (Sent (request_of x) # Q n)"
    using assms(4-6) by (auto simp: on_plan_def)
  obtain con1 where con1: "lk_append lk con (request_of x) = Done (con1, True)" "plan con1 (Q n)"
    using sent [OF con(3)] by blast
  let ?cc = "set_con n (Some con1) (opened cc)"
  have "node_get_by_table (opened cc) (word_of_int (c_slot_num c)) = Some n"
    using assms(3) c(3) table_same [OF o(1)] by simp
  then have "cluster_append lk c (opened cc) w = Done (?cc, w, True)"
    using con(2) con1(1) plan_error [OF con(3)] c(2) o(2) by (simp add: cluster_append_def ctx_get_by_node_def Let_def)
  moreover have "on_plan S Q ?cc"
    using on_plan_step [OF _ assms(4) con1(2) assms(7)] on_plan_same [OF o(2)] assms(5) by blast
  moreover have "requests_of ?cc = requests_of cc" "cc_table ?cc = cc_table cc"
    using o(1,3) by (simp_all add: set_con_def node_update_def requests_of_def)
  ultimately show ?thesis using c on_plan_same [of "?cc\<lparr>cc_requests := r\<rparr>" ?cc for r] by (simp add: on_plan_def)
qed

lemma append_in_order:
  assumes mem: "ample mem"
  shows "\<forall>x\<in>set xs. one_key x \<Longrightarrow> routed N S xs cc
    \<Longrightarrow> on_plan S (\<lambda>n. map (\<lambda>x. Sent (request_of x)) (filter (at_node N n) xs) @ T n) cc
    \<Longrightarrow> \<exists>cc' rqs. append_each mem num i lk (map request_of xs) cc w = Done (cc', w, True) \<and> on_plan S T cc' \<and> cc_table cc' = cc_table cc
      \<and> requests_of cc' = requests_of cc @ rqs \<and> (xs \<noteq> [] \<longrightarrow> cc_requests cc' \<noteq> None)
      \<and> map (\<lambda>rq. c_slot_num (rq_command rq)) rqs = map (\<lambda>x. int (slot_number x)) xs"
proof (induction xs arbitrary: cc)
  case Nil
  then show ?case by simp
next
  case (Cons x xs)
  let ?P = "\<lambda>n. map (\<lambda>x. Sent (request_of x)) (filter (at_node N n) (x # xs)) @ T n"
    and ?Q = "\<lambda>n. map (\<lambda>x. Sent (request_of x)) (filter (at_node N n) xs) @ T n" and ?n = "N (slot_number x)"
  have x: "one_key x" "node_get_by_table cc (of_nat (slot_number x)) = Some ?n" "?n \<in> S"
    using Cons.prems(1,2) by (simp_all add: routed_def)
  have "?P ?n = Sent (request_of x) # ?Q ?n" "\<forall>m\<in>S. m \<noteq> ?n \<longrightarrow> ?Q m = ?P m" by simp_all
  from append_queued [OF mem x Cons.prems(3) this, of num i w] obtain cc1 rq where a:
    "redisClusterAppendFormattedCommand mem num i lk cc (request_of x) (int (length (request_of x))) w = Done (cc1, w, True)"
    "on_plan S ?Q cc1" "cc_table cc1 = cc_table cc" "cc_requests cc1 = Some (requests_of cc @ [rq])"
    "c_slot_num (rq_command rq) = int (slot_number x)" by blast
  have "\<forall>x\<in>set xs. one_key x" "routed N S xs cc1"
    using Cons.prems(1,2) routed_same [OF a(3)] by (auto simp: routed_def)
  from Cons.IH [OF this a(2)] obtain cc2 rqs where r:
    "append_each mem num i lk (map request_of xs) cc1 w = Done (cc2, w, True)" "on_plan S T cc2" "cc_table cc2 = cc_table cc1"
    "requests_of cc2 = requests_of cc1 @ rqs" "xs \<noteq> [] \<longrightarrow> cc_requests cc2 \<noteq> None"
    "map (\<lambda>rq. c_slot_num (rq_command rq)) rqs = map (\<lambda>x. int (slot_number x)) xs" by blast
  have "requests_of cc1 = requests_of cc @ [rq]" using a(4) by (simp add: requests_of_def)
  moreover have "cc_requests cc2 \<noteq> None" using r(1,5) a(4) by (cases xs) auto
  ultimately show ?case using a(1,3,5) r by (intro exI [of _ cc2] exI [of _ "rq # rqs"]) simp
qed

lemma fetch_in_order:
  "routed N S xs cc \<Longrightarrow> on_plan S (\<lambda>n. map (\<lambda>x. Answer (reply_of x)) (filter (at_node N n) xs) @ T n) cc \<Longrightarrow> cc_requests cc = Some rqs
    \<Longrightarrow> map (\<lambda>rq. c_slot_num (rq_command rq)) rqs = map (\<lambda>x. int (slot_number x)) xs
    \<Longrightarrow> \<exists>cc'. fetch_each mem lk (length xs) cc w = Done (cc', w, map (\<lambda>x. Some (tree_of (reply_of x))) xs) \<and> cc_requests cc' = Some []"
proof (induction xs arbitrary: cc rqs)
  case Nil
  then show ?case by simp
next
  case (Cons x xs)
  let ?P = "\<lambda>n. map (\<lambda>x. Answer (reply_of x)) (filter (at_node N n) (x # xs)) @ T n"
    and ?Q = "\<lambda>n. map (\<lambda>x. Answer (reply_of x)) (filter (at_node N n) xs) @ T n" and ?n = "N (slot_number x)"
  obtain rq rest where rq: "rqs = rq # rest" "c_slot_num (rq_command rq) = int (slot_number x)"
    "map (\<lambda>rq. c_slot_num (rq_command rq)) rest = map (\<lambda>x. int (slot_number x)) xs"
    using Cons.prems(4) by (cases rqs) auto
  have x: "node_get_by_table cc (of_nat (slot_number x)) = Some ?n" "?n \<in> S" using Cons.prems(1) by (simp_all add: routed_def)
  obtain con where con: "?n < length (cc_heap cc)" "nd_con (cc_heap cc ! ?n) = Some con" "plan con (Answer (reply_of x) # ?Q ?n)"
    using Cons.prems(2) x(2) by (auto simp: on_plan_def)
  obtain con1 where con1: "lk_reply lk con w = Done (con1, w, True, Some (tree_of (reply_of x)))" "plan con1 (?Q ?n)"
    using answer [OF con(3)] by blast
  let ?c0 = "cc\<lparr>cc_err := 0, cc_errstr := []\<rparr>"
  let ?c1 = "set_con ?n (Some con1) ?c0"
  let ?c2 = "if cluster_reply_error_type (tree_of (reply_of x)) = CLUSTER_ERR_MOVED then ?c1\<lparr>cc_need_update_route := True\<rparr> else ?c1"
  have "node_get_by_table ?c0 (word_of_int (int (slot_number x))) = Some ?n" using x(1) table_same [of ?c0 cc] by simp
  then have "cluster_get_reply lk (int (slot_number x)) ?c0 w = Done (?c2, w, True, Some (tree_of (reply_of x)))"
    using con con1(1) plan_error [OF con(3)] by (simp add: cluster_get_reply_def ctx_get_by_node_def Let_def)
  then have g: "redisClusterGetReply mem lk cc w = Done (?c2\<lparr>cc_requests := Some rest\<rparr>, w, True, Some (tree_of (reply_of x)))"
    using Cons.prems(3) rq(1,2) by (simp add: redisClusterGetReply_def fetch_request_def Let_def)
  have same: "cc_heap (?c2\<lparr>cc_requests := Some rest\<rparr>) = cc_heap ?c1" "cc_table (?c2\<lparr>cc_requests := Some rest\<rparr>) = cc_table cc"
    by (simp_all add: set_con_def node_update_def)
  have "on_plan S ?P ?c0" using Cons.prems(2) on_plan_same [of ?c0 cc] by simp
  then have "on_plan S ?Q ?c1" by (rule on_plan_step [where Q = ?Q, OF _ x(2) con1(2)]) simp
  then have "on_plan S ?Q (?c2\<lparr>cc_requests := Some rest\<rparr>)" using on_plan_same [OF same(1)] by blast
  moreover have "routed N S xs (?c2\<lparr>cc_requests := Some rest\<rparr>)"
    unfolding routed_same [OF same(2)] using Cons.prems(1) by (simp add: routed_def)
  ultimately show ?case using Cons.IH [OF _ _ _ rq(3)] g by fastforce
qed

end

text \<open>C32: The pipeline keeps the order. When commands with one key each are appended one after the
  other, and every node is sent its commands before the first reply is waited for and answers them in
  turn, then fetching as many replies gives the reply to every command in the order in which the
  commands were appended, whichever nodes they went to, and leaves no request behind.\<close>

theorem pipeline_in_order:
  assumes "ample mem" "\<forall>x\<in>set xs. one_key x" "cc_requests cc = None" "xs \<noteq> []" "routed N S xs cc"
    "\<forall>n\<in>S. n < length (cc_heap cc) \<and> (\<exists>con. nd_con (cc_heap cc ! n) = Some con
      \<and> conn_plan mem con (map (\<lambda>x. Sent (request_of x)) (filter (at_node N n) xs) @ map (\<lambda>x. Answer (reply_of x)) (filter (at_node N n) xs)))"
  shows "\<exists>cc1 cc2. append_each mem num i (conn_link mem strerror pf dial redial) (map request_of xs) cc w = Done (cc1, w, True)
    \<and> fetch_each mem (conn_link mem strerror pf dial redial) (length xs) cc1 w = Done (cc2, w, map (\<lambda>x. Some (tree_of (reply_of x))) xs)
    \<and> cc_requests cc2 = Some []"
proof -
  let ?lk = "conn_link mem strerror pf dial redial"
  have "conn.on_plan mem S (\<lambda>n. map (\<lambda>x. Sent (request_of x)) (filter (at_node N n) xs) @ map (\<lambda>x. Answer (reply_of x)) (filter (at_node N n) xs)) cc"
    using assms(6) unfolding conn.on_plan_def by blast
  from conn.append_in_order [OF assms(1,2,5) this, of num i strerror pf dial redial w] obtain cc1 rqs where a:
    "append_each mem num i ?lk (map request_of xs) cc w = Done (cc1, w, True)"
    "conn.on_plan mem S (\<lambda>n. map (\<lambda>x. Answer (reply_of x)) (filter (at_node N n) xs)) cc1" "cc_table cc1 = cc_table cc"
    "requests_of cc1 = requests_of cc @ rqs" "cc_requests cc1 \<noteq> None"
    "map (\<lambda>rq. c_slot_num (rq_command rq)) rqs = map (\<lambda>x. int (slot_number x)) xs" using assms(4) by blast
  have p: "conn.on_plan mem S (\<lambda>n. map (\<lambda>x. Answer (reply_of x)) (filter (at_node N n) xs) @ []) cc1" using a(2) by simp
  have "cc_requests cc1 = Some rqs" using a(4,5) assms(3) by (auto simp: requests_of_def)
  moreover have "routed N S xs cc1" using assms(5) routed_same [OF a(3)] by blast
  ultimately show ?thesis using conn.fetch_in_order [OF _ p _ a(6), of mem strerror pf dial redial w] a(1) by blast
qed

lemma pipeline_in_order_witness:
  "\<exists>(cc :: (redis_context \<times> net) cluster) cc1 cc2. append_each pages [] 1 (conn_link pages (\<lambda>_. []) (\<lambda>_ _. []) (\<lambda>_ _ _. (None, ())) (\<lambda>c _. (c, ())))
      [request [''GET'', ''a''], request [''GET'', ''b'']] cc () = Done (cc1, (), True)
    \<and> fetch_each pages (conn_link pages (\<lambda>_. []) (\<lambda>_ _. []) (\<lambda>_ _ _. (None, ())) (\<lambda>c _. (c, ()))) 2 cc1 ()
        = Done (cc2, (), [Some (tree_of (R_bulk ''1'')), Some (tree_of (R_bulk ''2''))])"
proof -
  let ?x = "([''GET'', ''a''], ''a'', R_bulk ''1'') :: queued" and ?y = "([''GET'', ''b''], ''b'', R_bulk ''2'') :: queued"
  let ?N = "\<lambda>s :: nat. if s < 8192 then 0 else 1 :: nat"
  have r: "request_of ?x = ''*2'' @ CRLF @ ''$3'' @ CRLF @ ''GET'' @ CRLF @ ''$1'' @ CRLF @ ''a'' @ CRLF"
    "request_of ?y = ''*2'' @ CRLF @ ''$3'' @ CRLF @ ''GET'' @ CRLF @ ''$1'' @ CRLF @ ''b'' @ CRLF"
    "encode (reply_of ?x) = ''$1'' @ CRLF @ ''1'' @ CRLF" "encode (reply_of ?y) = ''$1'' @ CRLF @ ''2'' @ CRLF"
    by code_simp+
  have s: "slot_number ?x = 15495" "slot_number ?y = 3300" by code_simp+
  have k: "command_type ''GET'' = Some CMD_REQ_REDIS_GET" "key_args CMD_REQ_REDIS_GET [''GET'', ''a''] = Some [''a'']"
    "key_args CMD_REQ_REDIS_GET [''GET'', ''b''] = Some [''b'']" by code_simp+
  have l: "length (request [''GET'', ''a'']) < 2 ^ 31" "length (request [''GET'', ''b'']) < 2 ^ 31"
    using r(1,2) by (simp_all add: request_of_def)
  have one: "\<forall>x\<in>set [?x, ?y]. one_key x" using k l by (auto simp: one_key_def)
  have "small_turn (request_of ?x, reply_of ?x)" "small_turn (request_of ?y, reply_of ?y)"
    unfolding small_turn_def fst_conv snd_conv r by (simp_all add: reply_of_def)
  then have c: "conn_script pages (sample_con [(request_of ?x, reply_of ?x)]) [(request_of ?x, reply_of ?x)]"
    "conn_script pages (sample_con [(request_of ?y, reply_of ?y)]) [(request_of ?y, reply_of ?y)]"
    by (simp_all add: sample_con_script del: calls.simps)
  let ?a = "sample_con [(request_of ?y, reply_of ?y)]" and ?b = "sample_con [(request_of ?x, reply_of ?x)]"
  let ?cc = "sample_cluster ?a ?b"
  have rt: "routed ?N {0, 1} [?x, ?y] ?cc"
    using sample_table [of 15495 ?a ?b] sample_table [of 3300 ?a ?b] s by (simp add: routed_def REDIS_CLUSTER_SLOTS_def)
  have pl: "\<forall>n\<in>{0, 1}. n < length (cc_heap ?cc) \<and> (\<exists>con. nd_con (cc_heap ?cc ! n) = Some con
      \<and> conn_plan pages con (map (\<lambda>x. Sent (request_of x)) (filter (at_node ?N n) [?x, ?y]) @ map (\<lambda>x. Answer (reply_of x)) (filter (at_node ?N n) [?x, ?y])))"
    using c s sample_nodes [of ?a ?b] by (simp del: split_paired_Ex)
  have "cc_requests ?cc = None" by (simp add: sample_cluster_def)
  from pipeline_in_order [OF pages_heap(2) one this _ rt pl, of "[]" 1 "\<lambda>_. []" "\<lambda>_ _. []" "\<lambda>_ _ _. (None, ())" "\<lambda>c _. (c, ())" "()"]
  have "\<exists>cc1 cc2. append_each pages [] 1 (conn_link pages (\<lambda>_. []) (\<lambda>_ _. []) (\<lambda>_ _ _. (None, ())) (\<lambda>c _. (c, ())))
      (map request_of [?x, ?y]) ?cc () = Done (cc1, (), True)
    \<and> fetch_each pages (conn_link pages (\<lambda>_. []) (\<lambda>_ _. []) (\<lambda>_ _ _. (None, ())) (\<lambda>c _. (c, ()))) (length [?x, ?y]) cc1 ()
        = Done (cc2, (), map (\<lambda>x. Some (tree_of (reply_of x))) [?x, ?y])" by blast
  moreover have "map request_of [?x, ?y] = [request [''GET'', ''a''], request [''GET'', ''b'']]" by (simp add: request_of_def)
  moreover have "map (\<lambda>x. Some (tree_of (reply_of x))) [?x, ?y] = [Some (tree_of (R_bulk ''1'')), Some (tree_of (R_bulk ''2''))]"
    by (simp add: reply_of_def)
  moreover have "length [?x, ?y] = 2" by simp
  ultimately show ?thesis by (metis (no_types, lifting))
qed

section \<open>What the programs get\<close>

text \<open>The text of a reply, as \<open>redis_select\<close> returns it: an error is not told from a value.\<close>

fun shown :: "reply \<Rightarrow> bytes" where
  "shown (R_bulk t) = cstr t"
| "shown (R_status t) = cstr t"
| "shown (R_error t) = cstr t"
| "shown _ = []"

lemma cstr_ended: "cstr (t @ [NUL]) = cstr t"
  by (cases "NUL \<in> set t") (auto simp: cstr_append cstr_no_nul, auto simp: cstr_def)

lemma shown_tree: "(case rt_str (tree_of R) of None \<Rightarrow> [] | Some t \<Rightarrow> cstr t) = shown R"
  by (cases R) (simp_all add: cstr_ended)

definition literal :: "bytes \<Rightarrow> bool" where
  "literal w \<longleftrightarrow> w \<noteq> [] \<and> CHR '' '' \<notin> set w \<and> CHR ''%'' \<notin> set w \<and> NUL \<notin> set w"

lemma literal_line:
  assumes "\<forall>w\<in>set ws. literal w"
  defines "T \<equiv> map (\<lambda>w. [Lit w]) ws"
  shows "template T = join_bytes '' '' ws" "template_args T = []" "map word_text T = ws" "\<forall>w\<in>set T. word_ok w"
    "cstr (join_bytes '' '' ws) = join_bytes '' '' ws"
proof -
  show "template T = join_bytes '' '' ws" by (simp add: T_def template_def comp_def)
  show "template_args T = []" by (induction ws) (simp_all add: T_def template_args_def)
  show "map word_text T = ws" by (simp add: T_def word_text_def comp_def)
  show "\<forall>w\<in>set T. word_ok w" using assms(1) by (auto simp: T_def word_ok_def literal_def)
  have "NUL \<notin> set (join_bytes '' '' ws)"
    using assms(1) by (induction ws rule: induct_list012) (auto simp: literal_def)
  then show "cstr (join_bytes '' '' ws) = join_bytes '' '' ws" by (rule cstr_no_nul)
qed

text \<open>C33: What \<open>redis_select\<close> gives a program: for a command line of plain words with one key, the text of
  the server's reply up to its first NUL. The reply to a missing key is the empty text, and an error of
  the server is handed over like a value.\<close>

theorem select_shows_reply:
  assumes "literal w" "\<forall>v\<in>set as. literal v" "length (request (w # as)) + 1 + SDS_MAX_PREALLOC < 2 ^ 31"
    "command_type w = Some t" "key_args t (w # as) = Some [k]"
    "wired cc (of_nat (key_slot k)) n con" "conn_script mem con ((request (w # as), R) # es)" "plain R"
  shows "\<exists>cc' con'. redis_select mem pf num i (conn_link mem strerror pf' dial redial) (Some cc) (join_bytes '' '' (w # as)) wd
      = Done (cc', wd, shown R)
    \<and> wired cc' (of_nat (key_slot k)) n con' \<and> conn_script mem con' es"
proof -
  have h: "good_heap mem" "ample mem" using assms(7) by (simp_all add: conn_plan_def)
  have lit: "\<forall>v\<in>set (w # as). literal v" using assms(1,2) by simp
  note l = literal_line [OF lit]
  have f: "redisvFormatCommand mem pf True (join_bytes '' '' (w # as)) []
      = Some (int (length (request (w # as))), Some (request (w # as) @ [NUL]))"
    using vformat_template [OF h _ l(4), of pf] assms(3) unfolding l(1-3) by simp
  have "length (request (w # as)) < 2 ^ 31" using assms(3) by simp
  from conn.call_script [OF h(2) assms(4,5) this assms(6-8), where num = num and i = i and wd = wd and strerror = strerror
      and pf = pf' and dial = dial and redial = redial] obtain cc' con' where
    "redisClusterFormattedCommand mem num i (conn_link mem strerror pf' dial redial) cc (request (w # as)) (int (length (request (w # as)))) wd
      = Done (cc', wd, Some (tree_of R))" "wired cc' (of_nat (key_slot k)) n con'" "conn_script mem con' es" by blast
  then show ?thesis
    using f shown_tree [of R]
    by (intro exI [of _ cc'] exI [of _ con']) (simp add: redis_select_def run_command_def redisClusterCommand_def redisClustervCommand_def l(5))
qed

lemma select_shows_reply_witness:
  "\<exists>cc cc'. redis_select pages (\<lambda>_ _. []) [] 1 (conn_link pages (\<lambda>_. []) (\<lambda>_ _. []) (\<lambda>_ _ _. (None, ())) (\<lambda>c _. (c, ()))) (Some cc) ''GET a'' ()
     = Done (cc', (), ''ERR no'')"
proof -
  let ?req = "request [''GET'', ''a'']" and ?R = "R_error ''ERR no''"
  have r: "?req = ''*2'' @ CRLF @ ''$3'' @ CRLF @ ''GET'' @ CRLF @ ''$1'' @ CRLF @ ''a'' @ CRLF" "encode ?R = ''-ERR no'' @ CRLF"
    by code_simp+
  have n: "length ?req + 1 + SDS_MAX_PREALLOC < 2 ^ 31" unfolding r by (simp add: SDS_MAX_PREALLOC_def)
  have l: "literal ''GET''" "\<forall>v\<in>set [''a'']. literal v" by (simp_all add: literal_def)
  have k: "command_type ''GET'' = Some CMD_REQ_REDIS_GET" "key_args CMD_REQ_REDIS_GET [''GET'', ''a''] = Some [''a'']" "key_slot ''a'' = 15495"
    by code_simp+
  let ?con = "sample_con [(?req, ?R)]"
  have "small_turn (?req, ?R)" unfolding small_turn_def fst_conv snd_conv r by simp
  then have c: "conn_script pages ?con [(?req, ?R)]" by (simp add: sample_con_script del: calls.simps)
  have w: "wired (sample_cluster ?con ?con) (of_nat (key_slot ''a'')) 1 ?con"
    using sample_table [of "key_slot ''a''" ?con ?con] sample_nodes [of ?con ?con] unfolding k(3) by (simp add: wired_def REDIS_CLUSTER_SLOTS_def)
  have p: "plain ?R" by (simp add: plain_def cluster_reply_error_type_def starts_with_def)
  have j: "join_bytes '' '' [''GET'', ''a''] = ''GET a''" "shown ?R = ''ERR no''" by code_simp+
  show ?thesis
    using select_shows_reply [OF l n k(1,2) w c p, of "\<lambda>_ _. []" "[]" 1 "\<lambda>_. []" "\<lambda>_ _. []" "\<lambda>_ _ _. (None, ())" "\<lambda>c _. (c, ())" "()"]
    unfolding j by blast
qed

end
