(* ===== verification/ClusterInv.thy ===== *)
theory ClusterInv
  imports PipelineSpec
begin

text \<open>
  The pointers of a cluster context. The nodes belong to the hash table \<open>nodes\<close>; the table of slots, the
  regions and the connections that commands use refer to them by address, and an update of the route
  releases the old ones. \<open>sound\<close> says that what the context refers to is in its hash table, and every
  operation keeps it.
\<close>

section \<open>The nodes a hash table holds\<close>

definition dict_sound :: "('k, 'v) dict \<Rightarrow> bool" where
  "dict_sound ht \<longleftrightarrow> length (dt_table ht) = dt_size ht \<and> dt_sizemask ht = dt_size ht - 1 \<and> dt_used ht = length (concat (dt_table ht))"

definition dict_values :: "('k, 'v) dict \<Rightarrow> 'v set" where
  "dict_values ht = snd ` set (concat (dt_table ht))"

lemma dict_sound_new [simp]: "dict_sound (dictCreate ty)" "dict_values (dictCreate ty) = {}"
  by (simp_all add: dict_sound_def dict_values_def dictCreate_def)

lemma bucket_below: "0 < n \<Longrightarrow> bucket ty (n - 1) k < n"
proof -
  assume n: "0 < n"
  have "int (unat (hashFunction ty k) AND (n - 1)) \<le> int (n - 1)" unfolding of_nat_and_eq by (rule AND_upper2) simp
  then show ?thesis using n by (simp add: bucket_def)
qed

lemma move_chain_all:
  "\<forall>k. bucket ty m k < length t \<Longrightarrow> length (move_chain ty m c t) = length t \<and> mset (concat (move_chain ty m c t)) = mset c + mset (concat t)"
proof (induction c arbitrary: t)
  case (Cons he hes)
  let ?t = "t[bucket ty m (fst he) := he # t ! bucket ty m (fst he)]"
  have "length (move_chain ty m hes ?t) = length ?t \<and> mset (concat (move_chain ty m hes ?t)) = mset hes + mset (concat ?t)"
    using Cons(2) by (intro Cons(1)) simp
  then show ?case using Cons(2) mset_concat_upd [of "bucket ty m (fst he)" t he] by (simp add: Let_def)
qed simp

lemma move_table_all:
  "\<forall>k. bucket ty m k < length t \<Longrightarrow> used = length (concat cs) \<Longrightarrow> move_table ty m used cs t = (left, t') \<Longrightarrow>
   length t' = length t \<and> mset (concat t') = mset (concat cs) + mset (concat t)"
proof (induction cs arbitrary: t used)
  case (Cons c cs)
  note c = move_chain_all [OF Cons(2), of c]
  show ?case
  proof (cases "used = 0")
    case True
    then have "mset (concat (c # cs)) = {#}" using Cons(3) by (metis length_0_conv mset_zero_iff)
    then show ?thesis using True Cons(4) by simp
  next
    case False
    have "length t' = length (move_chain ty m c t) \<and> mset (concat t') = mset (concat cs) + mset (concat (move_chain ty m c t))"
    proof (rule Cons(1))
      show "move_table ty m (used - length c) cs (move_chain ty m c t) = (left, t')" using Cons(4) False by simp
    qed (use c Cons(2,3) in simp_all)
    then show ?thesis using c by (simp add: ac_simps)
  qed
qed simp

lemma next_power_pos: "0 < i \<Longrightarrow> 0 < next_power i n"
  by (induction i n rule: next_power.induct) (subst next_power.simps, auto)

lemma dictExpand_sound:
  assumes "dict_sound ht" "dictExpand ht n = Some (rc, ht')"
  shows "dict_sound ht' \<and> dict_values ht' = dict_values ht \<and> (rc = DICT_OK \<longrightarrow> 0 < dt_size ht')"
proof (cases "n < dt_used ht")
  case True
  then show ?thesis using assms by (auto simp: dictExpand_def DICT_ERR_def DICT_OK_def)
next
  case False
  let ?r = "dictNextPower n"
  have r: "0 < ?r" by (simp add: dictNextPower_def LONG_MAX_def DICT_HT_INITIAL_SIZE_def next_power_pos)
  obtain left t where m: "move_table (dt_type ht) (?r - 1) (dt_used ht) (dt_table ht) (replicate ?r []) = (left, t)" by fastforce
  have ht': "ht' = ht\<lparr>dt_table := t, dt_size := ?r, dt_sizemask := ?r - 1\<rparr>"
    using assms(2) False m by (auto simp: dictExpand_def Let_def split: if_splits)
  have b: "\<forall>k. bucket (dt_type ht) (?r - 1) k < length (replicate ?r [])" unfolding length_replicate by (intro allI bucket_below [OF r])
  have t: "length t = ?r \<and> mset (concat t) = mset (concat (dt_table ht))"
    using move_table_all [OF b _ m] assms(1) by (simp add: dict_sound_def)
  then have "length (concat t) = length (concat (dt_table ht))" "set (concat t) = set (concat (dt_table ht))"
    by (metis size_mset, metis set_mset_mset)
  then show ?thesis using assms(1) t r unfolding ht' dict_sound_def dict_values_def by simp
qed

lemma expandIfNeeded_sound:
  assumes "dict_sound ht" "dictExpandIfNeeded ht = Some (rc, ht')"
  shows "dict_sound ht' \<and> dict_values ht' = dict_values ht \<and> (rc = DICT_OK \<longrightarrow> 0 < dt_size ht')"
  using assms dictExpand_sound [OF assms(1)] by (auto simp: dictExpandIfNeeded_def split: if_splits)

lemma expand_code: "dictExpandIfNeeded ht = Some (rc, ht') \<Longrightarrow> rc = DICT_OK \<or> rc = DICT_ERR"
  by (auto simp: dictExpandIfNeeded_def dictExpand_def Let_def split: if_splits prod.splits)

lemma concat_upd: "i < length t \<Longrightarrow> length (concat (t[i := e # t ! i])) = Suc (length (concat t)) \<and> set (concat (t[i := e # t ! i])) = insert e (set (concat t))"
  using mset_concat_upd [of i t e] by (metis set_mset_add_mset_insert set_mset_mset size_add_mset size_mset)

lemma dictAdd_sound:
  assumes s: "dict_sound ht" and a: "dictAdd ht k v = Some (rc, ht')"
  shows "dict_sound ht' \<and> dict_values ht' = (if rc = DICT_OK then insert v (dict_values ht) else dict_values ht)"
proof -
  obtain r h1 where i: "dictExpandIfNeeded ht = Some (r, h1)" using a by (auto simp: dictAdd_def dictKeyIndex_def split: option.splits)
  note e = expandIfNeeded_sound [OF s i]
  show ?thesis
  proof (cases "r = DICT_ERR")
    case True
    then show ?thesis using a i e by (auto simp: dictAdd_def dictKeyIndex_def DICT_ERR_def DICT_OK_def)
  next
    case False
    then have "0 < dt_size h1" using e expand_code [OF i] by auto
    moreover have "dt_sizemask h1 = dt_size h1 - 1" "length (dt_table h1) = dt_size h1" using e by (simp_all add: dict_sound_def)
    ultimately have b: "bucket (dt_type h1) (dt_sizemask h1) k < length (dt_table h1)" using bucket_below by metis
    let ?i = "bucket (dt_type h1) (dt_sizemask h1) k"
    show ?thesis
    proof (cases "chain_find (dt_type h1) k (dt_table h1 ! ?i)")
      case None
      then have "rc = DICT_OK" "ht' = h1\<lparr>dt_table := (dt_table h1)[?i := (k, v) # dt_table h1 ! ?i], dt_used := dt_used h1 + 1\<rparr>"
        using a i False by (simp_all add: dictAdd_def dictKeyIndex_def Let_def)
      then show ?thesis using e concat_upd [OF b, of "(k, v)"] by (auto simp: dict_sound_def dict_values_def simp del: length_concat set_concat)
    next
      case (Some x)
      then show ?thesis using a i e False by (auto simp: dictAdd_def dictKeyIndex_def Let_def DICT_OK_def DICT_ERR_def)
    qed
  qed
qed

lemma find_value:
  assumes "dict_sound ht" "dictFind ht k = Some e"
  shows "snd e \<in> dict_values ht"
proof -
  have "0 < dt_size ht" using assms(2) by (auto simp: dictFind_def split: if_splits)
  then have b: "bucket (dt_type ht) (dt_sizemask ht) k < length (dt_table ht)" using assms(1) bucket_below by (metis dict_sound_def)
  have "chain_find ty k c = Some e \<Longrightarrow> e \<in> set c" for ty c by (induction c) (auto split: if_splits)
  then have "e \<in> set (dt_table ht ! bucket (dt_type ht) (dt_sizemask ht) k)" using assms(2) by (auto simp: dictFind_def split: if_splits)
  then have "e \<in> set (concat (dt_table ht))" using b by (auto intro: nth_mem)
  then show ?thesis by (auto simp: dict_values_def)
qed

lemma entries_values: "dict_sound ht \<Longrightarrow> snd ` set (dict_entries ht) = dict_values ht"
  using dict_walk_all [of ht dictGetIterator "dt_used ht + 1"]
  by (simp add: dict_entries_def dict_sound_def unvisited_def dictGetIterator_def dict_values_def del: length_concat set_concat)

section \<open>Sound contexts\<close>

text \<open>A region in the list of a node names that node.\<close>

definition owned :: "'c cluster_node list \<Rightarrow> bool" where
  "owned h \<longleftrightarrow> (\<forall>m<length h. \<forall>l. nd_slots (h ! m) = Some l \<longrightarrow> (\<forall>s\<in>set l. sl_node s = Some m))"

definition live_master :: "'c cluster \<Rightarrow> nat \<Rightarrow> bool" where
  "live_master cc n \<longleftrightarrow> (\<exists>d. cc_nodes cc = Some d \<and> n \<in> dict_values d) \<and> n < length (cc_heap cc) \<and> nd_role (cc_heap cc ! n) = REDIS_ROLE_MASTER"

definition held :: "'c cluster \<Rightarrow> node_dict \<Rightarrow> bool" where
  "held cc d \<longleftrightarrow> dict_sound d \<and> dict_values d \<subseteq> {..<length (cc_heap cc)}"

definition sound :: "'c cluster \<Rightarrow> bool" where
  "sound cc \<longleftrightarrow> owned (cc_heap cc) \<and> length (cc_table cc) = REDIS_CLUSTER_SLOTS \<and> (\<forall>d. cc_nodes cc = Some d \<longrightarrow> held cc d)
     \<and> (\<forall>n. Some n \<in> set (cc_table cc) \<longrightarrow> live_master cc n)
     \<and> (\<forall>l. cc_slots cc = Some l \<longrightarrow> (\<forall>s\<in>set l. \<exists>n. sl_node s = Some n \<and> live_master cc n))"

named_theorems sound_intros

lemma sound_new: "redisClusterContextInit mem = Some cc \<Longrightarrow> sound cc"
  by (auto simp: redisClusterContextInit_def sound_def owned_def split: if_splits)

text \<open>Fields that are no pointers.\<close>

lemma sound_fields [simp]:
  "sound (cc\<lparr>cc_err := i\<rparr>) = sound cc" "sound (cc\<lparr>cc_errstr := t\<rparr>) = sound cc" "sound (cc\<lparr>cc_flags := f\<rparr>) = sound cc"
  "sound (cc\<lparr>cc_retry_count := r\<rparr>) = sound cc" "sound (cc\<lparr>cc_max_redirect_count := r\<rparr>) = sound cc"
  "sound (cc\<lparr>cc_requests := q\<rparr>) = sound cc" "sound (cc\<lparr>cc_need_update_route := b\<rparr>) = sound cc"
  "sound (cc\<lparr>cc_route_version := v\<rparr>) = sound cc" "sound (cluster_error_set cc ty e) = sound cc"
  by (simp_all add: sound_def held_def live_master_def cluster_error_set_def)

lemma sound_error_left [simp]: "sound (error_left e cc) = sound cc"
  by (simp add: error_left_def split: option.splits)

lemma held_fields [simp]: "held (cluster_error_set cc ty e) = held cc" "held (node_update n f cc) = held cc"
  by (simp_all add: held_def cluster_error_set_def node_update_def fun_eq_iff)

text \<open>Changing a node: its role stays, and its regions are still its own.\<close>

lemma sound_update [sound_intros]:
  assumes "sound cc" "\<And>nd. nd_role (f nd) = nd_role nd"
    "\<And>nd l s. nd_slots (f nd) = Some l \<Longrightarrow> s \<in> set l \<Longrightarrow> (\<exists>l'. nd_slots nd = Some l' \<and> s \<in> set l') \<or> sl_node s = Some n"
  shows "sound (node_update n f cc)"
proof -
  have o: "owned (cc_heap cc)" using assms(1) by (simp add: sound_def)
  have "sl_node s = Some m" if m: "m < length (cc_heap cc)" and l: "nd_slots ((cc_heap cc)[n := f (cc_heap cc ! n)] ! m) = Some l" and s: "s \<in> set l" for m l s
  proof (cases "m = n")
    case True
    then show ?thesis using assms(3) [of "cc_heap cc ! n" l s] o m l s by (auto simp: owned_def)
  next
    case False
    then show ?thesis using o m l s by (auto simp: owned_def)
  qed
  then have "owned ((cc_heap cc)[n := f (cc_heap cc ! n)])" by (simp add: owned_def)
  moreover have "live_master (node_update n f cc) m = live_master cc m" for m
    using assms(2) by (cases "m = n") (auto simp: live_master_def node_update_def)
  ultimately show ?thesis using assms(1) by (simp add: sound_def held_def node_update_def)
qed

lemma sound_field_updates [simp]:
  assumes "sound cc"
  shows "sound (node_update n (\<lambda>nd. nd\<lparr>nd_migrating := f1 nd\<rparr>) cc)" "sound (node_update n (\<lambda>nd. nd\<lparr>nd_importing := f2 nd\<rparr>) cc)"
    "sound (node_update n (\<lambda>nd. nd\<lparr>nd_slaves := f3 nd\<rparr>) cc)" "sound (node_update n (\<lambda>nd. nd\<lparr>nd_myself := f4 nd\<rparr>) cc)"
    "sound (node_update n (\<lambda>nd. nd\<lparr>nd_con := f5 nd\<rparr>) cc)"
  by (rule sound_update [OF assms]; force)+

lemma sound_con [simp]: "sound cc \<Longrightarrow> sound (set_con n c cc)"
  by (simp add: set_con_def)

lemma length_update [simp]: "length (cc_heap (node_update n f cc)) = length (cc_heap cc)"
  by (simp add: node_update_def)

text \<open>A new node.\<close>

lemma sound_more:
  assumes "sound cc" "nd_slots nd = Some [] \<or> nd_slots nd = None"
  shows "sound (cc\<lparr>cc_heap := cc_heap cc @ [nd]\<rparr>)"
proof -
  have "owned (cc_heap cc @ [nd])" using assms by (auto simp: sound_def owned_def nth_append less_Suc_eq)
  moreover have "live_master cc n \<Longrightarrow> live_master (cc\<lparr>cc_heap := cc_heap cc @ [nd]\<rparr>) n" for n by (simp add: live_master_def nth_append)
  moreover have "held cc d \<Longrightarrow> held (cc\<lparr>cc_heap := cc_heap cc @ [nd]\<rparr>) d" for d by (auto simp: held_def)
  ultimately show ?thesis using assms(1) unfolding sound_def by fastforce
qed

lemma held_more: "held cc d \<Longrightarrow> held (cc\<lparr>cc_heap := cc_heap cc @ [nd]\<rparr>) d"
  by (auto simp: held_def)

text \<open>A node entered into the table.\<close>

lemma held_added:
  "held cc d \<Longrightarrow> dictAdd d k n = Some (rc, d') \<Longrightarrow> n < length (cc_heap cc) \<Longrightarrow> held cc d' \<and> dict_values d \<subseteq> dict_values d'"
  using dictAdd_sound [of d k n rc d'] by (auto simp: held_def split: if_splits)

lemma sound_added:
  assumes "sound cc" "held cc d'" "cc_nodes cc = None \<or> cc_nodes cc = Some d" "cc_nodes cc = Some d \<Longrightarrow> dict_values d \<subseteq> dict_values d'"
  shows "sound (cc\<lparr>cc_nodes := Some d'\<rparr>)"
  using assms by (fastforce simp: sound_def held_def live_master_def)

lemma ref_node_keeps:
  assumes "cluster_slot_ref_node mem s n cc = Some cc'"
  shows "(sound cc \<longrightarrow> sound cc') \<and> length (cc_heap cc') = length (cc_heap cc)"
  using assms by (auto simp: cluster_slot_ref_node_def Let_def split: if_splits option.splits intro!: sound_update)

lemma add_slave_keeps:
  assumes "add_slave mem m n cc = Some cc'"
  shows "(sound cc \<longrightarrow> sound cc') \<and> length (cc_heap cc') = length (cc_heap cc)"
  using assms by (auto simp: add_slave_def split: if_splits)

lemma held_same: "length (cc_heap cc') = length (cc_heap cc) \<Longrightarrow> held cc' d = held cc d"
  by (simp add: held_def)

section \<open>Reading the answers\<close>

lemma held_mono: "held cc d \<Longrightarrow> length (cc_heap cc) \<le> length (cc_heap cc') \<Longrightarrow> held cc' d"
  by (auto simp: held_def)

text \<open>What a step that makes a node leaves.\<close>

abbreviation made :: "'c cluster \<Rightarrow> 'c cluster \<times> nat \<Rightarrow> bool" where
  "made cc p \<equiv> sound (fst p) \<and> snd p < length (cc_heap (fst p)) \<and> length (cc_heap cc) \<le> length (cc_heap (fst p))"

lemma with_slots_sound: "sound cc \<Longrightarrow> ends_in (both sound (made cc)) (node_get_with_slots mem cc h p r)"
  by (auto simp: node_get_with_slots_def new_node_def intro!: sound_more)

lemma with_nodes_sound: "sound cc \<Longrightarrow> ends_in (both sound (made cc)) (node_get_with_nodes mem cc part r)"
  by (auto simp: node_get_with_nodes_def new_node_def split: option.splits list.splits intro!: sound_more)

abbreviation table_read :: "'c cluster \<times> node_dict \<times> 'a \<Rightarrow> bool" where
  "table_read p \<equiv> sound (fst p) \<and> held (fst p) (fst (snd p))"

abbreviation nodes_read :: "'c cluster \<times> node_dict \<Rightarrow> bool" where
  "nodes_read p \<equiv> sound (fst p) \<and> held (fst p) (snd p)"

lemma ref_step:
  "sound cc \<Longrightarrow> held cc nodes \<Longrightarrow> ends_in (both sound table_read)
     (case cluster_slot_ref_node mem slot m cc of None \<Rightarrow> fail_memory cc e | Some cc \<Rightarrow> Done (Inr (cc, nodes, m, known)))"
  by (auto split: option.split dest!: ref_node_keeps simp: held_def)

lemma region_master_sound:
  assumes "sound cc" "held cc nodes"
  shows "ends_in (both sound table_read) (region_master mem cc nodes slot ip port)"
proof (cases "dictFind nodes (node_address ip port)")
  case None
  have "ends_in (both sound table_read)
      (case dictAdd nodes (nd_addr (cc_heap cc' ! m)) m of
         None \<Rightarrow> Undefined
       | Some (rc, nodes) \<Rightarrow>
           if rc \<noteq> DICT_OK then fail_other cc' ''The address already exists in the nodes''
           else case cluster_slot_ref_node mem slot m cc' of
                  None \<Rightarrow> fail_memory cc' ''Slot ref node failed: out of memory.''
                | Some cc \<Rightarrow> Done (Inr (cc, nodes, m, False)))" if m: "made cc (cc', m)" for cc' m
  proof (cases "dictAdd nodes (nd_addr (cc_heap cc' ! m)) m")
    case (Some r)
    have "held cc' nodes" using assms(2) m by (auto elim: held_mono)
    moreover obtain rc d where r: "r = (rc, d)" by (cases r)
    ultimately have "held cc' d" using held_added [of cc' nodes _ m rc d] Some m by auto
    then show ?thesis using m unfolding Some r by (simp add: ref_step)
  qed simp
  then show ?thesis
    unfolding region_master_def None option.simps by (intro ends_in_or_fail [OF with_slots_sound [OF assms(1)]]) (auto simp del: both_simps)
next
  case (Some e)
  then show ?thesis by (cases e) (simp add: region_master_def ref_step assms)
qed

lemma region_nodes_sound: "sound cc \<Longrightarrow> held cc nodes \<Longrightarrow> ends_in (both sound nodes_read) (region_nodes mem cc nodes slot master es)"
proof (induction es arbitrary: cc master nodes)
  case (Cons e es)
  show ?case
    using Cons.prems by (cases e) (auto split: option.splits list.splits dest!: add_slave_keeps
        intro!: ends_in_or_fail [OF region_master_sound] ends_in_or_fail [OF with_slots_sound] Cons.IH elim!: held_mono)
qed simp

lemma parse_region_sound: "sound cc \<Longrightarrow> held cc nodes \<Longrightarrow> ends_in (both sound nodes_read) (parse_region mem cc nodes e)"
  by (auto simp: parse_region_def region_nodes_sound split: option.splits list.splits)

lemma parse_regions_sound: "sound cc \<Longrightarrow> held cc nodes \<Longrightarrow> ends_in (both sound nodes_read) (parse_regions mem cc nodes es)"
proof (induction es arbitrary: cc nodes)
  case (Cons e es)
  then show ?case by (cases e) (auto intro!: ends_in_or_fail [OF parse_region_sound])
qed simp

lemma held_new [simp]: "held cc (dictCreate ty)"
  by (simp add: held_def)

lemma parse_slots_sound: "sound cc \<Longrightarrow> ends_in (both sound nodes_read) (parse_cluster_slots mem cc r)"
  by (auto simp: parse_cluster_slots_def Let_def parse_regions_sound split: option.splits)

abbreviation sound_as :: "'c cluster \<Rightarrow> 'c cluster \<Rightarrow> bool" where
  "sound_as cc cc' \<equiv> sound cc' \<and> length (cc_heap cc') = length (cc_heap cc)"

lemma mapping_sound:
  assumes "sound cc"
  shows "ends_in (both sound (\<lambda>p. sound_as cc (fst p))) (cluster_master_slave_mapping_with_name mem cc names n t)"
proof -
  define d where "d = (case names of None \<Rightarrow> dictCreate clusterNodesDictType | Some d \<Rightarrow> d)"
  note m = cluster_master_slave_mapping_with_name_def [of mem cc names n t, folded d_def]
  show ?thesis
  proof (cases "dictFind d t")
    case None
    then show ?thesis using assms by (cases "dictAdd d t n") (auto simp: m)
  next
    case (Some e)
    then show ?thesis using assms by (cases e; cases "add_slave mem (snd e) n cc") (auto simp: m Let_def dest!: add_slave_keeps)
  qed
qed

lemma open_slot_sound: "sound cc \<Longrightarrow> ends_in (both sound (sound_as cc)) (open_slot mem cc m toks)"
  unfolding open_slot_def Let_def
  by (split list.split | split if_split | intro conjI allI impI | simp (no_asm_simp))+

lemma slot_field_sound: "sound cc \<Longrightarrow> ends_in (both sound (sound_as cc)) (parse_slot_field mem cc m f)"
  unfolding parse_slot_field_def Let_def
  by (auto split: option.splits prod.splits dest!: ref_node_keeps intro!: ends_in_or_fail [where Q = "sound_as cc"] open_slot_sound)

lemma slot_fields_sound: "sound cc \<Longrightarrow> ends_in (both sound (sound_as cc)) (parse_slot_fields mem cc m fs)"
proof (induction fs arbitrary: cc)
  case (Cons f fs)
  have "ends_in (both sound (sound_as cc)) (parse_slot_fields mem cc' m fs)" if "sound_as cc cc'" for cc'
    using Cons.IH [of cc'] that by simp
  then show ?case using Cons.prems by (auto intro!: ends_in_or_fail [OF slot_field_sound])
qed simp

lemma parse_master_sound:
  assumes "sound cc" "held cc nodes"
  shows "ends_in (both sound table_read) (parse_master mem cc nodes names part me)"
proof -
  have "ends_in (both sound table_read)
     (case dictAdd nodes (nd_addr (cc_heap cc' ! m)) m of
         None \<Rightarrow> Undefined
       | Some (rc, nodes) \<Rightarrow>
           if rc \<noteq> DICT_OK then fail_other cc' ''The address already exists in the nodes''
           else (case (if cc_flags cc' AND HIRCLUSTER_FLAG_ADD_SLAVE \<noteq> 0
                       then cluster_master_slave_mapping_with_name mem cc' names m (part ! 0) else Done (Inr (cc', names))) of
               Done (Inr (cc, names)) \<Rightarrow>
                 or_fail (parse_slot_fields mem (if me then node_update m (\<lambda>nd. nd\<lparr>nd_myself := True\<rparr>) cc else cc) m (drop 8 part)) (\<lambda>cc.
                   Done (Inr (cc, nodes, names)))
             | Blocked \<Rightarrow> Blocked
             | _ \<Rightarrow> Undefined))" if m: "made cc (cc', m)" for cc' m
  proof (cases "dictAdd nodes (nd_addr (cc_heap cc' ! m)) m")
    case (Some r)
    obtain rc d where r: "r = (rc, d)" by (cases r)
    have "held cc' nodes" using assms(2) m by (auto elim: held_mono)
    then have d: "held cc' d" using held_added [of cc' nodes _ m rc d] Some r m by auto
    have f: "ends_in (both sound table_read)
        (or_fail (parse_slot_fields mem (if me then node_update m (\<lambda>nd. nd\<lparr>nd_myself := True\<rparr>) c else c) m (drop 8 part)) (\<lambda>c.
          Done (Inr (c, d, nm))))" if "sound_as cc' c" for c and nm :: "node_dict option"
      using that d by (intro ends_in_or_fail [OF slot_fields_sound]) (auto simp: held_def)
    show ?thesis
      using mapping_sound [of cc' mem names m "part ! 0"] m f unfolding Some r
      by (auto split: run.splits sum.splits)
  qed simp
  then show ?thesis
    unfolding parse_master_def by (intro ends_in_or_fail [OF with_nodes_sound [OF assms(1)]]) (auto simp del: both_simps)
qed

lemma slave_line_sound:
  assumes "sound cc" "held cc nodes"
  shows "ends_in (both sound table_read) (or_fail (node_get_with_nodes mem cc part REDIS_ROLE_SLAVE) (\<lambda>(cc, s).
     or_fail (cluster_master_slave_mapping_with_name mem cc names s (part ! 3)) (\<lambda>(cc, names).
       Done (Inr (if me then node_update s (\<lambda>nd. nd\<lparr>nd_myself := True\<rparr>) cc else cc, nodes, names)))))"
  by (intro ends_in_or_fail [OF with_nodes_sound [OF assms(1)]])
    (auto intro!: ends_in_or_fail [OF mapping_sound] held_mono [OF assms(2)])

lemma node_line_sound: "sound cc \<Longrightarrow> held cc nodes \<Longrightarrow> ends_in (both sound table_read) (parse_node_line mem cc nodes names line)"
  unfolding parse_node_line_def Let_def
  by (auto split: option.splits intro!: parse_master_sound slave_line_sound [where me = True, unfolded if_True]
      slave_line_sound [where me = False, unfolded if_False])

lemma parse_lines_sound: "sound cc \<Longrightarrow> held cc nodes \<Longrightarrow> ends_in (both sound nodes_read) (parse_lines mem cc nodes names str a b)"
proof (induction mem cc nodes names str a b rule: parse_lines.induct)
  case (1 mem cc nodes names str a b)
  then show ?case
    by (subst parse_lines.simps) (auto intro!: ends_in_or_fail [OF node_line_sound])
qed

section \<open>Installing a route\<close>

lemma both_mono: "both P Q x \<Longrightarrow> (\<And>y. Q y \<Longrightarrow> R y) \<Longrightarrow> both P R x"
  by (cases x) auto

lemma collect_sound:
  "sound cc \<Longrightarrow> set ms \<subseteq> {..<length (cc_heap cc)} \<Longrightarrow>
   ends_in (both sound (\<lambda>l. \<forall>s\<in>set l. s \<in> set slots \<or> (\<exists>n\<in>set ms. sl_node s = Some n \<and> nd_role (cc_heap cc ! n) = REDIS_ROLE_MASTER)))
     (collect_slots cc ms lit slots)"
proof (induction ms arbitrary: lit slots)
  case (Cons m ms)
  have own: "owned (cc_heap cc)" "m < length (cc_heap cc)" "set ms \<subseteq> {..<length (cc_heap cc)}" using Cons.prems by (auto simp: sound_def)
  show ?case
  proof (cases "nd_role (cc_heap cc ! m) = REDIS_ROLE_MASTER")
    case True
    show ?thesis
    proof (cases "nd_slots (cc_heap cc ! m)")
      case None
      show ?thesis
        unfolding collect_slots.simps Let_def using True None
        by simp (rule ends_in_mono [OF Cons.IH [OF Cons.prems(1) own(3)]], erule both_mono, blast)
    next
      case (Some l)
      then have "sl_node s = Some m" if "s \<in> set l" for s using own that by (auto simp: owned_def)
      then have "ends_in (both sound (\<lambda>l. \<forall>s\<in>set l. s \<in> set slots \<or> (\<exists>n\<in>set (m # ms). sl_node s = Some n \<and> nd_role (cc_heap cc ! n) = REDIS_ROLE_MASTER)))
          (collect_slots cc ms True (slots @ l))"
        using True by (intro ends_in_mono [OF Cons.IH [OF Cons.prems(1) own(3)]], elim both_mono) fastforce
      then show ?thesis using True Some Cons.prems(1) by (simp add: Let_def)
    qed
  qed (use Cons.prems in \<open>simp add: Let_def\<close>)
qed simp

lemma fill_slots_entries: "fill_slots n ks t = Some t' \<Longrightarrow> length t' = length t \<and> set t' \<subseteq> insert n (set t)"
proof (induction ks arbitrary: t)
  case (Cons k ks)
  then have "length t' = length (t[k := n]) \<and> set t' \<subseteq> insert n (set (t[k := n]))" by (intro Cons(1)) (simp split: if_splits)
  then show ?case using set_update_subset_insert [of t k n] by auto
qed auto

lemma fill_table_entries:
  "fill_table l t = Some t' \<Longrightarrow> length t' = length t \<and> set t' \<subseteq> sl_node ` set l \<union> set t"
proof (induction l arbitrary: t)
  case (Cons s l)
  then show ?case using fill_slots_entries [of "sl_node s" "region_slots s" t] by (fastforce split: option.splits)
qed simp

abbreviation same_nodes :: "'c cluster \<Rightarrow> 'c cluster \<Rightarrow> bool" where
  "same_nodes cc cc' \<equiv> sound_as cc cc' \<and> (\<forall>n. nd_role (cc_heap cc' ! n) = nd_role (cc_heap cc ! n)) \<and> cc_nodes cc' = cc_nodes cc"

lemma con_same: "sound cc \<Longrightarrow> same_nodes cc (node_update k (\<lambda>nd. nd\<lparr>nd_con := c\<rparr>) cc)"
proof -
  assume s: "sound cc"
  have "nd_role ((cc_heap cc)[k := (cc_heap cc ! k)\<lparr>nd_con := c\<rparr>] ! n) = nd_role (cc_heap cc ! n)" for n
    by (cases "k = n"; cases "n < length (cc_heap cc)") (simp_all add: list_update_beyond)
  then show ?thesis using sound_field_updates(5) [OF s] by (simp add: node_update_def)
qed

lemma same_trans: "same_nodes a b \<Longrightarrow> same_nodes b c \<Longrightarrow> same_nodes a c"
  by simp

lemma swap_same: "sound cc \<Longrightarrow> same_nodes cc (swap_ctx d ts cc)"
proof (induction ts arbitrary: cc)
  case (Cons t ts)
  show ?case
  proof (cases "dictFind d (nd_addr (cc_heap cc ! t))")
    case None
    then show ?thesis using Cons by simp
  next
    case (Some e)
    show ?thesis
    proof (cases "nd_con (cc_heap cc ! snd e)")
      case None
      then show ?thesis using Some Cons by (cases e) simp
    next
      case c: (Some c)
      let ?c1 = "node_update (snd e) (\<lambda>nd. nd\<lparr>nd_con := nd_con (cc_heap cc ! t)\<rparr>) cc"
      let ?c2 = "node_update t (\<lambda>nd. nd\<lparr>nd_con := Some c\<rparr>) ?c1"
      have "same_nodes cc ?c1" by (rule con_same [OF Cons.prems])
      moreover from this have "same_nodes ?c1 ?c2" by (intro con_same) simp
      ultimately have c2: "same_nodes cc ?c2" by (rule same_trans)
      then have "same_nodes ?c2 (swap_ctx d ts ?c2)" by (intro Cons.IH) simp
      with c2 have "same_nodes cc (swap_ctx d ts ?c2)" by (rule same_trans)
      then show ?thesis using Some c by (cases e) (simp add: Let_def)
    qed
  qed
qed simp

lemma install_sound:
  assumes "sound cc" "held cc nodes"
  shows "ends_in (both sound sound) (install_route cc nodes)"
proof -
  let ?ms = "map snd (dict_entries nodes)"
  have v: "set ?ms = dict_values nodes" using assms(2) entries_values [of nodes] by (simp add: held_def)
  then have ms: "set ?ms \<subseteq> {..<length (cc_heap cc)}" using assms(2) by (simp add: held_def)
  have "ends_in (both sound sound) (let slots = sort_key (\<lambda>s. unat (sl_start s)) slots in
       case fill_table slots (replicate REDIS_CLUSTER_SLOTS None) of
         None \<Rightarrow> Undefined
       | Some table \<Rightarrow>
           Done (Inr ((cluster_nodes_swap_ctx (cc_nodes cc) nodes cc)
             \<lparr>cc_nodes := Some nodes, cc_slots := Some slots, cc_table := table, cc_route_version := cc_route_version cc + 1\<rparr>)))"
    if sl: "\<forall>s\<in>set slots. s \<in> set [] \<or> (\<exists>n\<in>set ?ms. sl_node s = Some n \<and> nd_role (cc_heap cc ! n) = REDIS_ROLE_MASTER)" for slots
  proof (cases "fill_table (sort_key (\<lambda>s. unat (sl_start s)) slots) (replicate REDIS_CLUSTER_SLOTS None)")
    case (Some table)
    define c1 where "c1 = cluster_nodes_swap_ctx (cc_nodes cc) nodes cc"
    let ?cc = "c1\<lparr>cc_nodes := Some nodes, cc_slots := Some (sort_key (\<lambda>s. unat (sl_start s)) slots), cc_table := table, cc_route_version := cc_route_version cc + 1\<rparr>"
    have c1: "same_nodes cc c1" unfolding c1_def cluster_nodes_swap_ctx_def using assms(1) swap_same [OF assms(1)] by (cases "cc_nodes cc") simp_all
    have live: "live_master ?cc n" if "n \<in> dict_values nodes" "nd_role (cc_heap cc ! n) = REDIS_ROLE_MASTER" for n
      using that c1 ms v by (auto simp: live_master_def)
    have sl': "\<exists>n. sl_node s = Some n \<and> live_master ?cc n" if "s \<in> set slots" for s using sl that live v by fastforce
    have t: "length table = REDIS_CLUSTER_SLOTS" "set table \<subseteq> sl_node ` set slots \<union> {None}" using fill_table_entries [OF Some] by auto
    have tb: "live_master ?cc n" if "Some n \<in> set table" for n using that t(2) sl' by force
    have "held ?cc nodes" using assms(2) c1 by (auto simp: held_def)
    moreover have "owned (cc_heap c1)" using c1 by (simp add: sound_def)
    ultimately have "sound ?cc" using t(1) tb sl' unfolding sound_def by simp
    then show ?thesis using Some by (simp add: Let_def c1_def)
  qed simp
  then show ?thesis unfolding install_route_def by (intro ends_in_or_fail [OF collect_sound [OF assms(1) ms, where slots = "[]"]]) simp
qed

lemma route_nodes_sound: "sound cc \<Longrightarrow> ends_in (both sound nodes_read) (route_nodes mem lk cc c r)"
  by (auto simp: route_nodes_def no_reply_def refuse_reply_def parse_cluster_nodes_def parse_slots_sound parse_lines_sound split: option.splits)

abbreviation leaves_sound :: "'c cluster \<times> 'a \<Rightarrow> bool" where
  "leaves_sound p \<equiv> sound (fst p)"

lemma route_done_sound: "ends_in (both sound sound) r \<Longrightarrow> ends_in leaves_sound (route_done w r)"
  by (rule route_done.cases [of "(w, r)"]) auto

lemma by_addr_sound: "sound cc \<Longrightarrow> ends_in leaves_sound (cluster_update_route_by_addr mem lk cc ip port w)"
  unfolding cluster_update_route_by_addr_def
  by (auto simp: Let_def split: option.splits prod.splits
      intro!: ends_in_then [where P = "\<lambda>_. True"] route_done_sound ends_in_or_fail [OF route_nodes_sound] install_sound)

lemma from_nodes_sound: "sound cc \<Longrightarrow> ends_in leaves_sound (update_from_nodes mem lk ns e cc w)"
proof (induction ns arbitrary: e cc w)
  case (Cons n ns)
  then show ?case by (auto simp: Let_def intro!: ends_in_then [OF by_addr_sound])
qed simp

lemma update_sound: "sound cc \<Longrightarrow> ends_in leaves_sound (cluster_update_route mem lk cc w)"
  unfolding cluster_update_route_def Let_def
  by (rule ends_in_then [where P = leaves_sound]) (auto simp: by_addr_sound from_nodes_sound split: option.splits)

section \<open>Commands\<close>

lemma ctx_sound: "ctx_get_by_node lk cc n w = (cc', w', c) \<Longrightarrow> sound cc \<Longrightarrow> sound cc'"
  by (auto simp: ctx_get_by_node_def Let_def split: option.splits if_splits prod.splits)

lemma node_command_sound: "sound cc \<Longrightarrow> ends_in leaves_sound (node_command lk cc n c cmd w)"
  unfolding node_command_def by (rule ends_in_then [where P = "\<lambda>_. True"]) auto

lemma first_connected_sound: "sound cc \<Longrightarrow> ends_in leaves_sound (first_connected lk ns cc w)"
proof (induction ns arbitrary: cc w)
  case (Cons n ns)
  then show ?case by (auto split: prod.splits option.splits dest: ctx_sound intro!: ends_in_then [OF node_command_sound])
qed simp

lemma connected_sound: "sound cc \<Longrightarrow> ends_in leaves_sound (node_get_witch_connected lk cc w)"
  by (simp add: node_get_witch_connected_def first_connected_sound split: option.splits)

lemma new_in_table:
  assumes "sound cc" "cc_nodes cc = Some d" "nd_slots nd = Some [] \<or> nd_slots nd = None" "dictAdd d k (length (cc_heap cc)) = Some (rc, d')"
  shows "sound (cc\<lparr>cc_heap := cc_heap cc @ [nd], cc_nodes := Some d'\<rparr>)"
proof -
  let ?c = "cc\<lparr>cc_heap := cc_heap cc @ [nd]\<rparr>"
  have "sound ?c" using assms(1,3) by (rule sound_more)
  moreover have "held ?c d" using assms(1,2) by (intro held_more) (simp add: sound_def)
  then have "held ?c d' \<and> dict_values d \<subseteq> dict_values d'" using assms(4) by (rule held_added) simp
  ultimately have "sound (?c\<lparr>cc_nodes := Some d'\<rparr>)" using assms(2) by (intro sound_added [where d = d]) simp_all
  then show ?thesis by simp
qed

lemma ask_sound: "sound cc \<Longrightarrow> ends_in leaves_sound (node_get_by_ask_error_reply mem cc r)"
  by (auto simp: node_get_by_ask_error_reply_def Let_def split: option.splits list.splits intro!: new_in_table)

lemma acquire_sound: "sound cc \<Longrightarrow> ends_in leaves_sound (acquire lk s cc w)"
  unfolding acquire_def
  by (auto simp: Let_def split: option.splits prod.splits dest: ctx_sound intro!: ends_in_then [OF connected_sound]) (auto dest!: ctx_sound)

lemma exchange_sound: "sound cc \<Longrightarrow> ends_in leaves_sound (exchange lk cmd n c cc w)"
  unfolding exchange_def by (auto simp: Let_def intro!: ends_in_then [where P = "\<lambda>_. True"])

lemma after_ask_sound: "sound cc \<Longrightarrow> ends_in leaves_sound (after_ask mem lk r cc w)"
  unfolding after_ask_def
  by (auto split: option.splits prod.splits dest: ctx_sound intro!: ends_in_then [OF ask_sound] ends_in_then [OF node_command_sound])

lemma after_reply_sound: "sound cc \<Longrightarrow> ends_in leaves_sound (after_reply mem lk r cc w)"
  unfolding after_reply_def by (auto simp: Let_def intro!: ends_in_then [OF update_sound] after_ask_sound)

lemma turn_sound: "sound cc \<Longrightarrow> ends_in leaves_sound (execute_turn mem lk cmd s start cc w)"
  unfolding execute_turn_def
  by (rule ends_in_then [where P = leaves_sound])
    (auto simp: acquire_sound split: option.splits intro!: ends_in_then [OF exchange_sound] after_reply_sound)

lemma execute_sound: "sound cc \<Longrightarrow> ends_in leaves_sound (execute mem lk cmd s start cc w)"
proof (induction mem lk cmd s start cc w rule: execute.induct)
  case (1 mem lk cmd s start cc w)
  show ?case
  proof (cases "execute_turn mem lk cmd s start cc w")
    case (Done x)
    obtain cc' w' step where x: "x = (cc', w', step)" by (cases x)
    then have "sound cc'" using turn_sound [OF 1(3), of mem lk cmd s start w] Done by simp
    then show ?thesis using 1(1,2) [OF Done [unfolded x]] Done x by (subst execute.simps) (auto split: next_step.splits)
  qed (subst execute.simps, simp)+
qed

lemma command_execute_sound: "sound cc \<Longrightarrow> ends_in leaves_sound (redis_cluster_command_execute mem lk c cc w)"
  by (simp add: redis_cluster_command_execute_def execute_sound)

lemma execute_all_sound: "sound cc \<Longrightarrow> ends_in leaves_sound (execute_all mem lk cs cc w)"
proof (induction cs arbitrary: cc w)
  case (Cons c cs)
  then show ?case
    by (auto split: option.splits sum.splits intro!: ends_in_then [OF command_execute_sound] ends_in_then [OF Cons.IH])
qed simp

lemma finish_sound: "sound cc \<Longrightarrow> ends_in leaves_sound (finish_command cc w r)"
  by (simp add: finish_command_def)

lemma formatted_command_sound: "sound cc \<Longrightarrow> ends_in leaves_sound (redisClusterFormattedCommand mem num cid lk cc cmd len w)"
  unfolding redisClusterFormattedCommand_def Let_def
  by (auto split: option.splits sum.splits intro!: finish_sound ends_in_then [OF command_execute_sound] ends_in_then [OF execute_all_sound])

lemma cluster_append_sound: "sound cc \<Longrightarrow> ends_in leaves_sound (cluster_append lk c cc w)"
  unfolding cluster_append_def Let_def
  by (auto split: option.splits prod.splits dest: ctx_sound intro!: ends_in_then [where P = "\<lambda>_. True"])

lemma append_all_sound: "sound cc \<Longrightarrow> ends_in leaves_sound (append_all lk cs cc w)"
proof (induction cs arbitrary: cc w)
  case (Cons c cs)
  then show ?case by (auto intro!: ends_in_then [OF cluster_append_sound])
qed simp

lemma append_command_sound: "sound cc \<Longrightarrow> ends_in leaves_sound (redisClusterAppendFormattedCommand mem num cid lk cc cmd len w)"
  unfolding redisClusterAppendFormattedCommand_def Let_def
  by (auto split: option.splits simp: add_request_def simp del: append_all.simps intro!: ends_in_then [OF append_all_sound])

lemma cluster_get_sound: "sound cc \<Longrightarrow> ends_in leaves_sound (cluster_get_reply lk s cc w)"
  unfolding cluster_get_reply_def Let_def
  by (auto split: option.splits prod.splits dest: ctx_sound intro!: ends_in_then [where P = "\<lambda>_. True"])

lemma fetch_subs_sound: "sound cc \<Longrightarrow> ends_in leaves_sound (fetch_subs lk cs cc w)"
proof (induction cs arbitrary: cc w)
  case (Cons c cs)
  then show ?case by (auto intro!: ends_in_then [OF cluster_get_sound] ends_in_then [OF Cons.IH])
qed simp

lemma fetch_request_sound: "sound cc \<Longrightarrow> ends_in leaves_sound (fetch_request mem lk rq cc w)"
  unfolding fetch_request_def
  by (auto split: option.splits simp: cluster_get_sound intro!: ends_in_then [OF fetch_subs_sound])

lemma get_reply_sound: "sound cc \<Longrightarrow> ends_in leaves_sound (redisClusterGetReply mem lk cc w)"
  unfolding redisClusterGetReply_def Let_def
  by (auto split: option.splits list.splits intro!: ends_in_then [OF fetch_request_sound])

lemma send_sound: "sound cc \<Longrightarrow> ends_in leaves_sound (send_nodes lk ns cc w)"
proof (induction ns arbitrary: cc w)
  case (Cons n ns)
  then show ?case
    by (auto simp: Let_def split: option.splits prod.splits dest: ctx_sound intro!: ends_in_then [where P = "\<lambda>_. True"])
qed simp

lemma send_all_sound: "sound cc \<Longrightarrow> ends_in leaves_sound (redisCLusterSendAll lk cc w)"
  by (simp add: redisCLusterSendAll_def send_sound split: option.splits)

lemma clear_sound: "sound cc \<Longrightarrow> sound (fst (redisCLusterClearAll cc))"
proof -
  have "sound c \<Longrightarrow> sound (fold (\<lambda>n. set_con n None) ns c)" for ns and c :: "'a cluster" by (induction ns arbitrary: c) simp_all
  then show "sound cc \<Longrightarrow> sound (fst (redisCLusterClearAll cc))" by (simp add: redisCLusterClearAll_def Let_def split: option.split)
qed

lemma drain_sound: "sound cc \<Longrightarrow> ends_in leaves_sound (drain mem lk cc w)"
proof (induction mem lk cc w rule: drain.induct)
  case (1 mem lk cc w)
  show ?case
  proof (cases "redisClusterGetReply mem lk cc w")
    case (Done x)
    obtain cc' w' ok r where x: "x = (cc', w', ok, r)" by (cases x)
    then have "sound cc'" using get_reply_sound [OF 1(2), of mem lk w] Done by simp
    then show ?thesis using 1(1) Done x clear_sound by (subst drain.simps) auto
  qed (subst drain.simps, simp)+
qed

lemma reset_sound:
  assumes "sound cc"
  shows "ends_in leaves_sound (redisClusterReset mem lk cc w)"
proof -
  have "ends_in leaves_sound (if cc_err cc \<noteq> 0 then Done (fst (redisCLusterClearAll cc), w)
      else run_then (redisCLusterSendAll lk cc w) (\<lambda>(cc, w, _). drain mem lk cc w))"
    using assms by (auto simp: clear_sound intro!: ends_in_then [OF send_all_sound] drain_sound)
  then show ?thesis
    unfolding redisClusterReset_def Let_def using assms
    by (cases "cc_nodes cc") (auto elim!: ends_in_then intro!: ends_in_then [OF update_sound])
qed

lemma add_node_sound: "sound cc \<Longrightarrow> ends_in leaves_sound (redisClusterSetOptionAddNode mem cc addr)"
proof -
  assume s: "sound cc"
  define d where "d = (case cc_nodes cc of None \<Rightarrow> dictCreate clusterNodesDictType | Some d \<Rightarrow> d)"
  have "sound (cc\<lparr>cc_nodes := Some d\<rparr>)"
  proof (cases "cc_nodes cc")
    case None
    then show ?thesis using sound_added [OF s, where d' = d and d = d] by (simp add: d_def)
  next
    case (Some e)
    then have "cc\<lparr>cc_nodes := Some d\<rparr> = cc" by (simp add: d_def)
    then show ?thesis using s by simp
  qed
  then show ?thesis
    unfolding redisClusterSetOptionAddNode_def Let_def d_def [symmetric]
    by (auto split: option.splits list.splits simp: new_node_def intro!: new_in_table [where cc = "cc\<lparr>cc_nodes := Some d\<rparr>" and d = d, simplified])
qed

lemma add_nodes_sound: "sound cc \<Longrightarrow> ends_in leaves_sound (redisClusterSetOptionAddNodes mem cc addrs)"
proof -
  have "sound c \<Longrightarrow> ends_in leaves_sound (add_nodes mem as c)" for as and c :: "'a cluster"
    by (induction as arbitrary: c) (auto intro!: ends_in_then [OF add_node_sound])
  then show "sound cc \<Longrightarrow> ends_in leaves_sound (redisClusterSetOptionAddNodes mem cc addrs)"
    by (auto simp: redisClusterSetOptionAddNodes_def Let_def split: option.splits)
qed

section \<open>Property\<close>

text \<open>What a program can do with a context: create it, give it addresses and options, connect, run
  commands, append commands and fetch their replies, reset it.\<close>

inductive client_run :: "heap \<Rightarrow> ('c, 'w) link \<Rightarrow> 'c cluster \<Rightarrow> 'w \<Rightarrow> bool" for mem lk where
  created: "redisClusterContextInit mem = Some cc \<Longrightarrow> client_run mem lk cc w"
| addressed: "client_run mem lk cc w \<Longrightarrow> redisClusterSetOptionAddNodes mem cc addrs = Done (cc', ok) \<Longrightarrow> client_run mem lk cc' w"
| option_set: "client_run mem lk cc w \<Longrightarrow> f \<in> {redisClusterSetOptionConnectBlock, redisClusterSetOptionConnectNonBlock,
    redisClusterSetOptionParseSlaves, redisClusterSetOptionParseOpenSlots, redisClusterSetOptionRouteUseSlots,
    \<lambda>cc. fst (redisClusterSetOptionMaxRedirect cc n)} \<Longrightarrow> client_run mem lk (f cc) w"
| connected: "client_run mem lk cc w \<Longrightarrow> redisClusterConnect2 mem lk cc w = Done (cc', w', ok) \<Longrightarrow> client_run mem lk cc' w'"
| command: "client_run mem lk cc w \<Longrightarrow> redisClusterFormattedCommand mem num cid lk cc cmd len w = Done (cc', w', reply) \<Longrightarrow> client_run mem lk cc' w'"
| appended: "client_run mem lk cc w \<Longrightarrow> redisClusterAppendFormattedCommand mem num cid lk cc cmd len w = Done (cc', w', ok) \<Longrightarrow> client_run mem lk cc' w'"
| fetched: "client_run mem lk cc w \<Longrightarrow> redisClusterGetReply mem lk cc w = Done (cc', w', ok, reply) \<Longrightarrow> client_run mem lk cc' w'"
| was_reset: "client_run mem lk cc w \<Longrightarrow> redisClusterReset mem lk cc w = Done (cc', w') \<Longrightarrow> client_run mem lk cc' w'"

lemma connect_sound: "sound cc \<Longrightarrow> ends_in leaves_sound (redisClusterConnect2 mem lk cc w)"
  by (simp add: redisClusterConnect2_def update_sound split: option.split)

lemma run_sound: "client_run mem lk cc w \<Longrightarrow> sound cc"
proof (induction rule: client_run.induct)
  case (created cc w)
  then show ?case by (rule sound_new)
next
  case (addressed cc w addrs cc' ok)
  then show ?case using add_nodes_sound [of cc mem addrs] by simp
next
  case (option_set cc w f n)
  then show ?case
    by (auto simp: redisClusterSetOptionConnectBlock_def redisClusterSetOptionConnectNonBlock_def redisClusterSetOptionParseSlaves_def
        redisClusterSetOptionParseOpenSlots_def redisClusterSetOptionRouteUseSlots_def redisClusterSetOptionMaxRedirect_def)
next
  case (connected cc w cc' w' ok)
  then show ?case using connect_sound [of cc mem lk w] by simp
next
  case (command cc w num cid cmd len cc' w' reply)
  then show ?case using formatted_command_sound [of cc mem num cid lk cmd len w] by simp
next
  case (appended cc w num cid cmd len cc' w' ok)
  then show ?case using append_command_sound [of cc mem num cid lk cmd len w] by simp
next
  case (fetched cc w cc' w' ok reply)
  then show ?case using get_reply_sound [of cc mem lk w] by simp
next
  case (was_reset cc w cc' w')
  then show ?case using reset_sound [of cc mem lk w] by simp
qed

lemma found_in_slots: "slot_search slots k fuel a b = Done (Some n) \<Longrightarrow> \<exists>s\<in>set slots. sl_node s = Some n"
proof (induction fuel arbitrary: a b)
  case (Suc fuel)
  then show ?case unfolding slot_search.simps Let_def by (auto split: if_splits dest: Suc.IH)
qed (simp add: slot_search.simps)


text \<open>A context with one address, connected.\<close>

lemma one_entry: "dict_inv d \<Longrightarrow> dict_map d = [k \<mapsto> v] \<Longrightarrow> dt_used d = 1 \<Longrightarrow> dict_entries d = [(k, v)]"
proof -
  assume d: "dict_inv d" "dict_map d = [k \<mapsto> v]" "dt_used d = 1"
  obtain e where e: "dict_entries d = [e]" using dict_entries_map [OF d(1)] d(3) by (auto simp: length_Suc_conv)
  have "map_of [e] k = Some v" using dict_entries_map [OF d(1)] d(2) e by simp
  then show ?thesis using e by (cases e) (simp split: if_splits)
qed

lemma sample_addressed:
  obtains cc :: "'c cluster" and d where "client_run pages lk cc w"
    "cc_nodes cc = Some d" "dict_entries d = [(''10.0.0.1:6379'', 0)]" "dt_used d = 1" "cc_ip cc = None" "cc_err cc = 0"
    "cc_flags cc = REDIS_BLOCK OR HIRCLUSTER_FLAG_ROUTE_USE_SLOTS" "nd_host (cc_heap cc ! 0) = Some ''10.0.0.1''" "nd_port (cc_heap cc ! 0) = 6379"
proof -
  let ?a = "''10.0.0.1:6379''"
  let ?d0 = "dictCreate clusterNodesDictType :: node_dict"
  obtain cc0 :: "'c cluster" where i: "redisClusterContextInit pages = Some cc0" "cc_nodes cc0 = None" "cc_heap cc0 = []" "cc_ip cc0 = None"
      "cc_err cc0 = 0" "cc_flags cc0 = REDIS_BLOCK"
    by (simp add: redisClusterContextInit_def pages_def)
  have g: "dict_inv ?d0" "dict_map ?d0 = Map.empty" "dt_used ?d0 < 2 ^ 30" "dt_used ?d0 = 0" "dictFind ?d0 ?a = None"
    using dictCreate_inv [OF good_nodes_type, where 'b = nat] by (blast, blast, simp_all add: dictCreate_def dictFind_def)
  obtain d where d: "dictAdd ?d0 ?a 0 = Some (DICT_OK, d)" "dict_inv d" "dict_map d = [?a \<mapsto> 0]" "dt_used d = 1"
    using dictAdd_ok [OF g(1,3), of ?a 0] g(2,4) by auto
  have s: "split_text pages ?a '':'' = Some [''10.0.0.1'', ''6379'']" "split_text pages ?a '','' = Some [?a]" "hi_atoi ''6379'' (Suc (Suc (Suc (Suc 0)))) = 6379" "cstr ?a = ?a"
    by code_simp+
  let ?n = "(new_node 0)\<lparr>nd_addr := ?a, nd_host := Some ''10.0.0.1'', nd_port := 6379\<rparr> :: 'c cluster_node"
  let ?cc = "cc0\<lparr>cc_nodes := Some d, cc_heap := [?n]\<rparr>"
  have "redisClusterSetOptionAddNode pages cc0 ?a = Done (?cc, True)"
    using i(2,3) g(5) s(1,3) d(1) by (simp add: redisClusterSetOptionAddNode_def Let_def pages_def)
  then have "redisClusterSetOptionAddNodes pages cc0 ?a = Done (?cc, True)"
    using s(2,4) by (simp add: redisClusterSetOptionAddNodes_def Let_def)
  then have "client_run pages lk ?cc w" using client_run.created [OF i(1)] client_run.addressed by fast
  then have r: "client_run pages lk (redisClusterSetOptionRouteUseSlots ?cc) w" by (rule client_run.option_set) blast
  show thesis
    using i(4-6) d(4) one_entry [OF d(2-4)] by (intro that [OF r]) (simp_all add: redisClusterSetOptionRouteUseSlots_def)
qed


end
