(* ===== verification/Cxx.thy ===== *)
theory Cxx
  imports Prelude
begin

text \<open>
  What the C++ files of the program use of the C and C++ libraries: strings, their searches and
  cuts, the conversions between numbers and text, \<open>sprintf\<close> into an array.

  A call that may fail returns a sum: \<open>Undef\<close> is behaviour the language leaves undefined (an
  access outside an array, an unset variable), \<open>Uncaught\<close> an exception nothing catches,
  \<open>Exit_failure\<close> the call of \<open>exit\<close>.
\<close>

section \<open>Results\<close>

datatype fault = Undef | Uncaught | Exit_failure

type_synonym 'a result = "fault + 'a"

definition and_then :: "'a result \<Rightarrow> ('a \<Rightarrow> 'b result) \<Rightarrow> 'b result" where
  "and_then m f = (case m of Inl e \<Rightarrow> Inl e | Inr x \<Rightarrow> f x)"

lemma and_then_simps [simp]: "and_then (Inl e) f = Inl e" "and_then (Inr x) f = f x"
  by (simp_all add: and_then_def)

lemma and_then_assoc: "and_then (and_then m f) g = and_then m (\<lambda>x. and_then (f x) g)"
  by (cases m) simp_all

section \<open>Arrays of characters\<close>

text \<open>\<open>sprintf\<close> of the text \<open>t\<close> into an array of \<open>n\<close> cells, which is then used as a C string.\<close>

definition sprint :: "nat \<Rightarrow> bytes \<Rightarrow> bytes result" where
  "sprint n t = (if length t < n then Inr t else Inl Undef)"

text \<open>An array of \<open>n\<close> cells filled with zeros before the text is stored in it.\<close>

definition zero_filled :: "nat \<Rightarrow> bytes \<Rightarrow> bytes" where
  "zero_filled n t = t @ replicate (n - length t) NUL"

text \<open>A call that stores \<open>d\<close> at the start of the array \<open>buf\<close>.\<close>

definition overwrite :: "bytes \<Rightarrow> bytes \<Rightarrow> bytes result" where
  "overwrite buf d = (if length d \<le> length buf then Inr (d @ drop (length d) buf) else Inl Undef)"

text \<open>The text of an array that is used as a C string.\<close>

definition text_of :: "bytes \<Rightarrow> bytes result" where
  "text_of buf = (if NUL \<in> set buf then Inr (cstr buf) else Inl Undef)"

lemma sprint_ok [simp]: "length t < n \<Longrightarrow> sprint n t = Inr t"
  by (simp add: sprint_def)

lemma overwrite_ok: "length d \<le> length buf \<Longrightarrow> overwrite buf d = Inr (d @ drop (length d) buf)"
  by (simp add: overwrite_def)

lemma length_zero_filled [simp]: "length t \<le> n \<Longrightarrow> length (zero_filled n t) = n"
  by (simp add: zero_filled_def)

lemma text_of_zero_filled: "NUL \<notin> set t \<Longrightarrow> length t < n \<Longrightarrow> text_of (zero_filled n t) = Inr t"
  using cstr_append [of t "replicate (n - length t - 1) NUL"]
  by (cases "n - length t") (auto simp: text_of_def zero_filled_def)

lemma take_zero_filled: "length t \<le> m \<Longrightarrow> m \<le> n \<Longrightarrow> take m (zero_filled n t) = zero_filled m t"
  by (simp add: zero_filled_def)

lemma overwrite_zeros:
  "length d \<le> n \<Longrightarrow> overwrite (replicate n NUL) d = Inr (zero_filled n d)"
  by (simp add: overwrite_def zero_filled_def)

lemma zero_filled_again: "length t \<le> m \<Longrightarrow> m \<le> n \<Longrightarrow> zero_filled n (zero_filled m t) = zero_filled n t"
  by (simp add: zero_filled_def flip: replicate_add)

section \<open>Numbers\<close>

definition isspace :: "char \<Rightarrow> bool" where
  "isspace c \<longleftrightarrow> c \<in> {CHR '' '', CHR 0x09, CHR 0x0A, CHR 0x0B, CHR 0x0C, CHR 0x0D}"

text \<open>The number at the start of a C string as \<open>strtol\<close> reads it in base 10, before the range is
  looked at; \<open>None\<close> when there is none.\<close>

definition signed_digits :: "bytes \<Rightarrow> bool \<times> bytes" where
  "signed_digits t = (case t of [] \<Rightarrow> (False, [])
     | c # v \<Rightarrow> if c = CHR ''-'' then (True, v) else if c = CHR ''+'' then (False, v) else (False, t))"

definition strtol :: "bytes \<Rightarrow> int option" where
  "strtol s =
     (case signed_digits (dropWhile isspace (cstr s)) of (neg, u) \<Rightarrow>
        let ds = takeWhile isdigit u in
        if ds = [] then None
        else Some (if neg then - int (digits_value 0 ds) else int (digits_value 0 ds)))"

definition in_int :: "int \<Rightarrow> bool" where
  "in_int n \<longleftrightarrow> - (2 ^ 31) \<le> n \<and> n < 2 ^ 31"

text \<open>The remainder of C, which has the sign of the dividend (for a positive divisor).\<close>

definition c_rem :: "int \<Rightarrow> int \<Rightarrow> int" where
  "c_rem a b = (if a < 0 then - ((- a) mod b) else a mod b)"

lemma c_rem_bound: "0 < b \<Longrightarrow> \<bar>c_rem a b\<bar> < b"
  using pos_mod_sign [of b a] pos_mod_bound [of b a] pos_mod_sign [of b "- a"] pos_mod_bound [of b "- a"]
  by (auto simp: c_rem_def abs_if simp del: pos_mod_sign pos_mod_bound)

text \<open>\<open>atoi\<close> outside the range of \<open>int\<close> is undefined; \<open>stoi\<close> throws.\<close>

definition atoi :: "bytes \<Rightarrow> int result" where
  "atoi s = (case strtol s of None \<Rightarrow> Inr 0 | Some n \<Rightarrow> if in_int n then Inr n else Inl Undef)"

definition stoi :: "bytes \<Rightarrow> int result" where
  "stoi s = (case strtol s of None \<Rightarrow> Inl Uncaught | Some n \<Rightarrow> if in_int n then Inr n else Inl Uncaught)"

definition to_string :: "int \<Rightarrow> bytes" where
  "to_string i = dec_int i"

lemma digit_not_space: "isdigit c \<Longrightarrow> \<not> isspace c"
  by (auto simp: isdigit_def isspace_def)

lemma signed_digits_digits: "c \<in> set u \<Longrightarrow> isdigit (hd u) \<Longrightarrow> signed_digits u = (False, u)"
  by (auto simp: signed_digits_def isdigit_def split: list.splits)

lemma takeWhile_stops: "\<forall>c\<in>set a. P c \<Longrightarrow> b = [] \<or> \<not> P (hd b) \<Longrightarrow> takeWhile P (a @ b) = a"
  by (cases b) (auto simp: takeWhile_append1 takeWhile_append2)

lemma cstr_prefix: "NUL \<notin> set a \<Longrightarrow> cstr (a @ b) = a @ cstr b"
  unfolding cstr_def by (rule takeWhile_append2) auto

lemma strtol_digits:
  assumes "ds \<noteq> []" "\<forall>c\<in>set ds. isdigit c" "rest = [] \<or> \<not> isdigit (hd rest)"
  shows "strtol (ds @ rest) = Some (int (digits_value 0 ds))"
proof -
  have hd: "isdigit (hd ds)" using assms(1,2) by simp
  have "NUL \<notin> set ds" using assms(2) isdigit_not_special(3) by blast
  then have c: "cstr (ds @ rest) = ds @ cstr rest" by (rule cstr_prefix)
  have r: "cstr rest = [] \<or> \<not> isdigit (hd (cstr rest))" using assms(3) by (cases rest) (auto simp: cstr_def)
  have d: "dropWhile isspace (ds @ cstr rest) = ds @ cstr rest"
    using assms(1) hd digit_not_space by (cases ds) auto
  have s: "signed_digits (ds @ cstr rest) = (False, ds @ cstr rest)"
    using hd assms(1) by (intro signed_digits_digits [of "hd ds"]) auto
  show ?thesis using takeWhile_stops [OF assms(2) r] assms(1) by (simp add: strtol_def c d s)
qed

lemma strtol_minus:
  assumes "ds \<noteq> []" "\<forall>c\<in>set ds. isdigit c" "rest = [] \<or> \<not> isdigit (hd rest)"
  shows "strtol (''-'' @ ds @ rest) = Some (- int (digits_value 0 ds))"
proof -
  have "NUL \<notin> set ds" using assms(2) isdigit_not_special(3) by blast
  then have c: "cstr (''-'' @ ds @ rest) = ''-'' @ ds @ cstr rest" using cstr_prefix [of "''-'' @ ds" rest] by simp
  have r: "cstr rest = [] \<or> \<not> isdigit (hd (cstr rest))" using assms(3) by (cases rest) (auto simp: cstr_def)
  have s: "signed_digits (dropWhile isspace (''-'' @ ds @ cstr rest)) = (True, ds @ cstr rest)"
    by (simp add: signed_digits_def isspace_def)
  show ?thesis using takeWhile_stops [OF assms(2) r] assms(1) by (simp only: strtol_def c s) simp
qed

lemma strtol_to_string: "rest = [] \<or> \<not> isdigit (hd rest) \<Longrightarrow> strtol (to_string i @ rest) = Some i"
  using strtol_digits [of "dec (nat i)" rest] strtol_minus [of "dec (nat (- i))" rest]
  by (auto simp: to_string_def dec_int_def dec_simps)

lemma atoi_to_string: "in_int i \<Longrightarrow> rest = [] \<or> \<not> isdigit (hd rest) \<Longrightarrow> atoi (to_string i @ rest) = Inr i"
  by (simp add: atoi_def strtol_to_string)

lemma stoi_to_string: "in_int i \<Longrightarrow> stoi (to_string i) = Inr i"
  using strtol_to_string [of "[]" i] by (simp add: stoi_def)

section \<open>\<open>std::string\<close>\<close>

text \<open>\<open>find\<close> and \<open>rfind\<close> of one character; \<open>npos\<close> is -1, as it becomes when it is assigned to an \<open>int\<close>.\<close>

definition str_find :: "char \<Rightarrow> bytes \<Rightarrow> int" where
  "str_find c s = (if c \<in> set s then int (length (takeWhile (\<lambda>x. x \<noteq> c) s)) else -1)"

definition str_rfind :: "char \<Rightarrow> bytes \<Rightarrow> int" where
  "str_rfind c s = (if c \<in> set s then int (length s) - 1 - int (length (takeWhile (\<lambda>x. x \<noteq> c) (rev s))) else -1)"

text \<open>\<open>substr\<close> with arguments of type \<open>int\<close>: a negative one becomes a huge \<open>size_t\<close>.\<close>

definition substr :: "bytes \<Rightarrow> int \<Rightarrow> int \<Rightarrow> bytes result" where
  "substr s p n =
     (if p < 0 \<or> int (length s) < p then Inl Uncaught
      else Inr (if n < 0 then drop (nat p) s else take (nat n) (drop (nat p) s)))"

lemma before_first: "c \<notin> set a \<Longrightarrow> takeWhile (\<lambda>x. x \<noteq> c) (a @ c # b) = a"
  by (induction a) auto

lemma str_find_append: "c \<notin> set a \<Longrightarrow> str_find c (a @ c # b) = int (length a)"
  by (simp add: str_find_def before_first)

lemma str_rfind_append: "c \<notin> set b \<Longrightarrow> str_rfind c (a @ c # b) = int (length a)"
  by (simp add: str_rfind_def before_first)

lemma substr_mid: "substr (a @ b @ r) (int (length a)) (int (length b)) = Inr b"
  by (simp add: substr_def)

lemma substr_rest: "n < 0 \<Longrightarrow> substr (a @ b) (int (length a)) n = Inr b"
  by (simp add: substr_def)

lemma to_string_chars: "c \<in> set (to_string i) \<Longrightarrow> isdigit c \<or> c = CHR ''-''"
  using dec_digits by (auto simp: to_string_def dec_int_def split: if_splits)

lemma to_string_NUL [simp]: "NUL \<notin> set (to_string i)" "CHR ''_'' \<notin> set (to_string i)"
  using to_string_chars [of NUL i] to_string_chars [of "CHR ''_''" i] by (auto simp: isdigit_def)

lemma to_string_nonempty [simp]: "to_string i \<noteq> []"
  by (simp add: to_string_def dec_int_def)

lemma length_dec_le: "n < 10 ^ k \<Longrightarrow> 0 < k \<Longrightarrow> length (dec n) \<le> k"
proof (induction n arbitrary: k rule: dec.induct)
  case (1 n)
  show ?case
  proof (cases "n < 10")
    case True
    then show ?thesis using 1(3) by (simp add: dec_small)
  next
    case False
    have "k \<noteq> 1" using False 1(2) by auto
    then obtain j where k: "k = Suc j" "0 < j" using 1(3) by (metis Suc_pred gr0I One_nat_def)
    then have "n div 10 < 10 ^ j" using 1(2) by (simp add: div_less_iff_less_mult mult.commute)
    then have "length (dec (n div 10)) \<le> j" using 1(1) [OF False] k(2) by blast
    then show ?thesis using False k(1) by (simp add: dec_large)
  qed
qed

lemma length_to_string: "in_int i \<Longrightarrow> length (to_string i) \<le> 11"
proof -
  assume "in_int i"
  then have "nat i < 10 ^ 10" "nat (- i) < 10 ^ 10" by (auto simp: in_int_def)
  then show ?thesis using length_dec_le [of "nat i" 10] length_dec_le [of "nat (- i)" 10]
    by (auto simp: to_string_def dec_int_def)
qed

end
