(* ===== verification/Async.thy ===== *)
theory Async
  imports Cxx Exchange Route
begin

text \<open>
  The asynchronous client (\<open>async.c\<close>): a context with the queue of the callbacks that wait for
  a reply, the tables of the callbacks of channels and patterns, and the handlers that an event loop calls.

  The user is outside the code. A callback is a number (its function pointer) with a number that it is
  given (\<open>privdata\<close>); what it does with the context when it runs is a \<open>body\<close>, which depends on
  the history of everything that passed between the library and the user. The hooks of the event
  library and the callbacks of connecting and disconnecting, which get a constant context, leave an
  entry in the history. A context that has been freed leaves its history only.
\<close>

section \<open>The context\<close>

record callback =
  cb_fn :: "nat option"
  cb_privdata :: nat

datatype hook = AddRead | DelRead | AddWrite | DelWrite | Cleanup

datatype event =
    Called nat nat "rtree option"
  | Issued "nat option" nat bytes bool
  | Hook hook
  | Connected nat bool
  | Disconnected nat bool
  | Data_handler nat

text \<open>What a callback does: nothing more, or a command and then what depends on whether it was accepted,
  or a call of \<open>redisAsyncDisconnect\<close> or \<open>redisAsyncFree\<close>.\<close>

datatype body = Finish | Issue "nat option" nat bytes "bool \<Rightarrow> body" | Close body | Release body

type_synonym client = "event list \<Rightarrow> body"

text \<open>The flags of the context are truth values; \<open>ac_errstr\<close> tells whether \<open>errstr\<close> points at the
  text of the error in the context.\<close>

record async =
  ac_c :: redis_context
  ac_net :: net
  ac_connected :: bool
  ac_disconnecting :: bool
  ac_freeing :: bool
  ac_in_callback :: bool
  ac_subscribed :: bool
  ac_monitoring :: bool
  ac_err :: int
  ac_errstr :: bool
  ac_dataHandler :: "nat option"
  ac_onConnect :: "nat option"
  ac_onDisconnect :: "nat option"
  ac_replies :: "callback list"
  ac_invalid :: "callback list"
  ac_channels :: "(bytes, callback) dict"
  ac_patterns :: "(bytes, callback) dict"
  ac_log :: "event list"

datatype life = Alive async | Freed "event list"

definition logged :: "event \<Rightarrow> async \<Rightarrow> async" where
  "logged e ac = ac\<lparr>ac_log := ac_log ac @ [e]\<rparr>"

definition callbackKeyCompare :: "bytes \<Rightarrow> bytes \<Rightarrow> bool" where
  "callbackKeyCompare key1 key2 \<longleftrightarrow> length key1 = length key2 \<and> memcmp key1 key2 = 0"

definition callbackDict :: "bytes dict_type" where
  "callbackDict = \<lparr>hashFunction = dictGenHashFunction, keyCompare = callbackKeyCompare\<rparr>"

text \<open>\<open>sizeof(redisAsyncContext)\<close> is 352, \<open>sizeof(redisCallback)\<close> is 24.\<close>

definition redisAsyncInitialize :: "heap \<Rightarrow> redis_context \<Rightarrow> net \<Rightarrow> async option" where
  "redisAsyncInitialize mem c net =
     (if mem 352 = None then None
      else Some \<lparr>ac_c = c, ac_net = net, ac_connected = False, ac_disconnecting = False, ac_freeing = False,
        ac_in_callback = False, ac_subscribed = False, ac_monitoring = False, ac_err = 0, ac_errstr = False,
        ac_dataHandler = None, ac_onConnect = None, ac_onDisconnect = None, ac_replies = [], ac_invalid = [],
        ac_channels = dictCreate callbackDict, ac_patterns = dictCreate callbackDict, ac_log = []\<rparr>)"

definition redisAsyncCopyError :: "async \<Rightarrow> async" where
  "redisAsyncCopyError ac = ac\<lparr>ac_err := x_err (ac_c ac), ac_errstr := True\<rparr>"

text \<open>\<open>dial\<close> stands for what \<open>net.c\<close> does to the fresh context. The Unix variant is the same with
  another \<open>dial\<close>, and so are the two variants with a source address, which do not look at the context first.\<close>

definition redisAsyncConnect :: "heap \<Rightarrow> (redis_context \<Rightarrow> redis_context \<times> net) \<Rightarrow> async option" where
  "redisAsyncConnect mem dial =
     (case redisContextInit mem False of
        None \<Rightarrow> None
      | Some c \<Rightarrow> map_option redisAsyncCopyError (case dial c of (c, net) \<Rightarrow> redisAsyncInitialize mem c net))"

definition redisAsyncConnectBind :: "heap \<Rightarrow> (redis_context \<Rightarrow> redis_context \<times> net) \<Rightarrow> async option run" where
  "redisAsyncConnectBind mem dial =
     (case redisContextInit mem False of
        None \<Rightarrow> Undefined
      | Some c \<Rightarrow> Done (map_option redisAsyncCopyError (case dial c of (c, net) \<Rightarrow> redisAsyncInitialize mem c net)))"

definition redisAsyncSetConnectCallback :: "async \<Rightarrow> nat \<Rightarrow> async \<times> bool" where
  "redisAsyncSetConnectCallback ac fn =
     (if ac_onConnect ac = None then (logged (Hook AddWrite) (ac\<lparr>ac_onConnect := Some fn\<rparr>), True) else (ac, False))"

definition redisAsyncSetDisconnectCallback :: "async \<Rightarrow> nat \<Rightarrow> async \<times> bool" where
  "redisAsyncSetDisconnectCallback ac fn =
     (if ac_onDisconnect ac = None then (ac\<lparr>ac_onDisconnect := Some fn\<rparr>, True) else (ac, False))"

text \<open>Without memory nothing is pushed; no caller looks at the status.\<close>

definition push_callback :: "heap \<Rightarrow> callback list \<Rightarrow> callback \<Rightarrow> callback list" where
  "push_callback mem l cb = (if mem 24 = None then l else l @ [cb])"

section \<open>Commands\<close>

text \<open>\<open>strchr\<close> from an offset of a buffer that ends with a NUL.\<close>

definition strchr_from :: "bytes \<Rightarrow> nat \<Rightarrow> char \<Rightarrow> nat option" where
  "strchr_from s p c =
     (let t = cstr (drop p s) in if c \<in> set t then Some (p + length (takeWhile (\<lambda>x. x \<noteq> c) t)) else None)"

text \<open>\<open>(int)strtol(p,NULL,10)\<close>.\<close>

definition length_field :: "bytes \<Rightarrow> int" where
  "length_field t =
     (case strtol t of None \<Rightarrow> 0 | Some n \<Rightarrow> int32 (max (- (2 ^ 63)) (min (2 ^ 63 - 1) n)))"

text \<open>The argument after an offset: where it starts, its length, and the offset behind it. \<open>None\<close>: there
  is none; \<open>Undefined\<close>: the assertion that its header has an end fails.\<close>

definition nextArgument :: "bytes \<Rightarrow> nat \<Rightarrow> (nat \<times> int \<times> int) option run" where
  "nextArgument s start =
     (case (if s ! start = CHR ''$'' then Some start else strchr_from s start CHR ''$'') of
        None \<Rightarrow> Done None
      | Some p \<Rightarrow>
          let len = length_field (drop (p + 1) s) in
          (case strchr_from s p CR of
             None \<Rightarrow> Undefined
           | Some q \<Rightarrow> Done (Some (q + 2, len, int q + 2 + len + 2))))"

text \<open>\<open>strncasecmp\<close> with a literal of the given length.\<close>

definition starts_nocase :: "bytes \<Rightarrow> bytes \<Rightarrow> bool" where
  "starts_nocase t lit \<longleftrightarrow> map c_tolower (take (length lit) t) = lit"

datatype request_kind = Subscribe | Unsubscribe | Monitor | Regular

text \<open>The kind of a command, whether its name starts with a \<open>p\<close>, and the offset behind the name.
  An offset outside the buffer, whose last cell is the NUL, is dereferenced.\<close>

definition request_kind :: "bytes \<Rightarrow> (request_kind \<times> bool \<times> nat) run" where
  "request_kind s =
     (case nextArgument s 0 of
        Done (Some (str, len, p)) \<Rightarrow>
          if p < 0 \<or> int (length s) \<le> p \<or> length s \<le> str then Undefined
          else
            let hasnext = s ! nat p = CHR ''$'';
                pvariant = c_tolower (s ! str) = CHR ''p'';
                name = drop (if pvariant then str + 1 else str) s
            in Done (if hasnext \<and> starts_nocase name (''subscribe'' @ CRLF) then Subscribe
                     else if starts_nocase name (''unsubscribe'' @ CRLF) then Unsubscribe
                     else if starts_nocase name (''monitor'' @ CRLF) then Monitor
                     else Regular, pvariant, nat p)
      | _ \<Rightarrow> Undefined)"

text \<open>The channels or patterns from an offset on. A length below zero makes the allocation or the copy of
  the name fail, and a name that could not be allocated is dereferenced.\<close>

function add_names :: "heap \<Rightarrow> bytes \<Rightarrow> nat \<Rightarrow> callback \<Rightarrow> (bytes, callback) dict \<Rightarrow> (bytes, callback) dict run" where
  "add_names mem s p cb d =
     (case nextArgument s p of
        Done (Some (str, len, p')) \<Rightarrow>
          if len < 0 \<or> int (length s) < int str + len then Undefined
          else (case sdsnewlen mem (Some (drop str s)) (nat len) of
             None \<Rightarrow> Undefined
           | Some sname \<Rightarrow>
               (case dictReplace d (sds_text sname) cb of
                  None \<Rightarrow> Undefined
                | Some (_, d) \<Rightarrow> if int (length s) \<le> p' then Undefined else add_names mem s (nat p') cb d))
      | Done None \<Rightarrow> Done d
      | Undefined \<Rightarrow> Undefined
      | Blocked \<Rightarrow> Blocked)"
  by pat_completeness auto
termination
  by (relation "measure (\<lambda>(mem, s, p, cb, d). length s - p)")
     (auto simp: nextArgument_def strchr_from_def Let_def split: option.splits if_splits)

declare add_names.simps [simp del]

definition async_command :: "heap \<Rightarrow> async \<Rightarrow> nat option \<Rightarrow> nat \<Rightarrow> bytes \<Rightarrow> (async \<times> bool) run" where
  "async_command mem ac fn privdata cmd =
     (if ac_disconnecting ac \<or> ac_freeing ac then Done (ac, False)
      else
        let cb = \<lparr>cb_fn = fn, cb_privdata = privdata\<rparr>; s = cmd @ [NUL];
            sent = (\<lambda>ac. run_then (append_command mem (ac_c ac) cmd) (\<lambda>(c, _). Done (logged (Hook AddWrite) (ac\<lparr>ac_c := c\<rparr>), True)))
        in run_then (request_kind s) (\<lambda>(kind, pvariant, p).
          case kind of
            Subscribe \<Rightarrow>
              run_then (add_names mem s p cb (if pvariant then ac_patterns ac else ac_channels ac)) (\<lambda>d.
                sent ((if pvariant then ac\<lparr>ac_patterns := d\<rparr> else ac\<lparr>ac_channels := d\<rparr>)\<lparr>ac_subscribed := True\<rparr>))
          | Unsubscribe \<Rightarrow> if ac_subscribed ac then sent ac else Done (ac, False)
          | Monitor \<Rightarrow> sent (ac\<lparr>ac_monitoring := True, ac_replies := push_callback mem (ac_replies ac) cb\<rparr>)
          | Regular \<Rightarrow>
              if ac_subscribed ac then sent (ac\<lparr>ac_invalid := push_callback mem (ac_invalid ac) cb\<rparr>)
              else sent (ac\<lparr>ac_replies := push_callback mem (ac_replies ac) cb\<rparr>)))"

text \<open>The calls of the user; the history keeps the status they return.\<close>

definition redisAsyncFormattedCommand :: "heap \<Rightarrow> async \<Rightarrow> nat option \<Rightarrow> nat \<Rightarrow> bytes \<Rightarrow> (async \<times> bool) run" where
  "redisAsyncFormattedCommand mem ac fn privdata cmd =
     run_then (async_command mem ac fn privdata cmd) (\<lambda>(ac, ok). Done (logged (Issued fn privdata cmd ok) ac, ok))"

definition redisvAsyncCommand ::
    "heap \<Rightarrow> (bytes \<Rightarrow> vararg \<Rightarrow> bytes) \<Rightarrow> async \<Rightarrow> nat option \<Rightarrow> nat \<Rightarrow> bytes \<Rightarrow> vararg list \<Rightarrow> (async \<times> bool) run" where
  "redisvAsyncCommand mem pf ac fn privdata format ap =
     (case redisvFormatCommand mem pf True format ap of
        None \<Rightarrow> Undefined
      | Some (len, cmd) \<Rightarrow>
          if len < 0 then Done (ac, False)
          else (case cmd of
                  None \<Rightarrow> Undefined
                | Some t \<Rightarrow> redisAsyncFormattedCommand mem ac fn privdata (take (to_size len) t)))"

text \<open>The status of the builder is not looked at: without memory the command is an uninitialised pointer.\<close>

definition redisAsyncCommandArgv ::
    "heap \<Rightarrow> async \<Rightarrow> nat option \<Rightarrow> nat \<Rightarrow> bytes list \<Rightarrow> nat list option \<Rightarrow> (async \<times> bool) run" where
  "redisAsyncCommandArgv mem ac fn privdata argv argvlen =
     (case redisFormatSdsCommandArgv mem True argv argvlen of
        Some (len, Some t) \<Rightarrow> redisAsyncFormattedCommand mem ac fn privdata (take (to_size len) (s_buf t))
      | _ \<Rightarrow> Undefined)"

section \<open>Callbacks\<close>

text \<open>Inside a callback \<open>REDIS_IN_CALLBACK\<close> is set, so \<open>redisAsyncDisconnect\<close> and \<open>redisAsyncFree\<close> set
  their flag and nothing else.\<close>

primrec run_body :: "heap \<Rightarrow> body \<Rightarrow> async \<Rightarrow> async run" where
  "run_body mem Finish = Done"
| "run_body mem (Issue fn privdata cmd k) =
     (\<lambda>ac. run_then (redisAsyncFormattedCommand mem ac fn privdata cmd) (\<lambda>(ac, ok). run_body mem (k ok) ac))"
| "run_body mem (Close k) = (\<lambda>ac. run_body mem k (ac\<lparr>ac_disconnecting := True\<rparr>))"
| "run_body mem (Release k) = (\<lambda>ac. run_body mem k (ac\<lparr>ac_freeing := True\<rparr>))"

definition run_callback :: "heap \<Rightarrow> client \<Rightarrow> async \<Rightarrow> callback \<Rightarrow> rtree option \<Rightarrow> async run" where
  "run_callback mem cl ac cb reply =
     (case cb_fn cb of
        None \<Rightarrow> Done ac
      | Some fn \<Rightarrow>
          let ac = logged (Called fn (cb_privdata cb) reply) (ac\<lparr>ac_in_callback := True\<rparr>)
          in run_then (run_body mem (cl (ac_log ac)) ac) (\<lambda>ac. Done (ac\<lparr>ac_in_callback := False\<rparr>)))"

section \<open>The end of a context\<close>

text \<open>The outer \<open>None\<close>: the loop does not end.\<close>

fun and_then :: "'a run option \<Rightarrow> ('a \<Rightarrow> 'b run option) \<Rightarrow> 'b run option" where
  "and_then None f = None"
| "and_then (Some Undefined) f = Some Undefined"
| "and_then (Some Blocked) f = Some Blocked"
| "and_then (Some (Done x)) f = f x"

text \<open>Every callback of a list gets NULL, also those that are pushed meanwhile.\<close>

definition list_of :: "bool \<Rightarrow> async \<Rightarrow> callback list" where
  "list_of invalid ac = (if invalid then ac_invalid ac else ac_replies ac)"

definition set_list :: "bool \<Rightarrow> callback list \<Rightarrow> async \<Rightarrow> async" where
  "set_list invalid l ac = (if invalid then ac\<lparr>ac_invalid := l\<rparr> else ac\<lparr>ac_replies := l\<rparr>)"

partial_function (option) run_pending :: "heap \<Rightarrow> client \<Rightarrow> bool \<Rightarrow> async \<Rightarrow> async run option" where
  "run_pending mem cl invalid ac =
     (case list_of invalid ac of
        [] \<Rightarrow> Some (Done ac)
      | cb # cbs \<Rightarrow>
          (case run_callback mem cl (set_list invalid cbs ac) cb None of
             Undefined \<Rightarrow> Some Undefined
           | Blocked \<Rightarrow> Some Blocked
           | Done ac \<Rightarrow> run_pending mem cl invalid ac))"

declare run_pending.simps [code]

partial_function (option) run_entries ::
    "heap \<Rightarrow> client \<Rightarrow> bool \<Rightarrow> (bytes, callback) dict_iterator \<Rightarrow> async \<Rightarrow> async run option" where
  "run_entries mem cl patterns it ac =
     (case dictNext (if patterns then ac_patterns ac else ac_channels ac) it of
        (None, it) \<Rightarrow> Some (Done ac)
      | (Some (name, cb), it) \<Rightarrow>
          (case run_callback mem cl ac cb None of
             Undefined \<Rightarrow> Some Undefined
           | Blocked \<Rightarrow> Some Blocked
           | Done ac \<Rightarrow> run_entries mem cl patterns it ac))"

declare run_entries.simps [code]

definition farewell :: "async \<Rightarrow> event list" where
  "farewell ac =
     ac_log ac @ [Hook Cleanup]
     @ (case ac_onDisconnect ac of
          Some fn \<Rightarrow> if ac_connected ac then [Disconnected fn (ac_freeing ac \<or> ac_err ac = 0)] else []
        | None \<Rightarrow> [])
     @ (case ac_dataHandler ac of Some fn \<Rightarrow> [Data_handler fn] | None \<Rightarrow> [])"

definition async_free :: "heap \<Rightarrow> client \<Rightarrow> async \<Rightarrow> life run option" where
  "async_free mem cl ac =
     and_then (run_pending mem cl False ac) (\<lambda>ac.
     and_then (run_pending mem cl True ac) (\<lambda>ac.
     and_then (run_entries mem cl False dictGetIterator ac) (\<lambda>ac.
     and_then (run_entries mem cl True dictGetIterator ac) (\<lambda>ac.
       Some (Done (Freed (farewell ac)))))))"

definition redisAsyncFree :: "heap \<Rightarrow> client \<Rightarrow> async \<Rightarrow> life run option" where
  "redisAsyncFree mem cl ac =
     (let ac = ac\<lparr>ac_freeing := True\<rparr>
      in if \<not> ac_in_callback ac then async_free mem cl ac else Some (Done (Alive ac)))"

text \<open>\<open>Undefined\<close>: the assertion fails that no callback is left.\<close>

definition async_disconnect :: "heap \<Rightarrow> client \<Rightarrow> async \<Rightarrow> life run option" where
  "async_disconnect mem cl ac =
     (let ac = redisAsyncCopyError ac
      in if ac_err ac = 0 then
           (if ac_replies ac \<noteq> [] then Some Undefined else async_free mem cl ac)
         else async_free mem cl (ac\<lparr>ac_disconnecting := True\<rparr>))"

definition redisAsyncDisconnect :: "heap \<Rightarrow> client \<Rightarrow> async \<Rightarrow> life run option" where
  "redisAsyncDisconnect mem cl ac =
     (let ac = ac\<lparr>ac_disconnecting := True\<rparr>
      in if \<not> ac_in_callback ac \<and> ac_replies ac = [] then async_disconnect mem cl ac else Some (Done (Alive ac)))"

section \<open>Replies\<close>

text \<open>The callback for a message of a channel or pattern; a callback that is not found leaves the one
  that is passed in.\<close>

definition get_subscribe_callback :: "heap \<Rightarrow> async \<Rightarrow> rtree \<Rightarrow> callback \<Rightarrow> (async \<times> callback) run" where
  "get_subscribe_callback mem ac reply dstcb =
     (if rt_type reply = REDIS_REPLY_ARRAY then
        if rt_elements reply < 2 then Undefined
        else (case elements_of reply of
          Some (Some e0 # Some e1 # es) \<Rightarrow>
            if rt_type e0 \<noteq> REDIS_REPLY_STRING \<or> rt_type e1 \<noteq> REDIS_REPLY_STRING then Undefined
            else (case (rt_str e0, rt_str e1) of
              (Some (s0 # stype), Some name) \<Rightarrow>
                let pvariant = c_tolower s0 = CHR ''p'';
                    callbacks = (if pvariant then ac_patterns ac else ac_channels ac);
                    kind = cstr (if pvariant then stype else s0 # stype)
                in (case sdsnewlen mem (Some name) (to_size (rt_len e1)) of
                  None \<Rightarrow> Undefined
                | Some sname \<Rightarrow>
                    (case dictFind callbacks (sds_text sname) of
                       None \<Rightarrow> Done (ac, dstcb)
                     | Some (_, cb) \<Rightarrow>
                         if map c_tolower kind = ''unsubscribe'' then
                           let callbacks = snd (dictDelete callbacks (sds_text sname));
                               ac = (if pvariant then ac\<lparr>ac_patterns := callbacks\<rparr> else ac\<lparr>ac_channels := callbacks\<rparr>)
                           in (case es of
                             Some e2 # _ \<Rightarrow>
                               if rt_type e2 \<noteq> REDIS_REPLY_INTEGER then Undefined
                               else Done (if rt_integer e2 = 0 then ac\<lparr>ac_subscribed := False\<rparr> else ac, cb)
                           | _ \<Rightarrow> Undefined)
                         else Done (ac, cb)))
            | _ \<Rightarrow> Undefined)
        | _ \<Rightarrow> Undefined)
      else (case ac_invalid ac of
              [] \<Rightarrow> Done (ac, dstcb)
            | cb # cbs \<Rightarrow> Done (ac\<lparr>ac_invalid := cbs\<rparr>, cb)))"

text \<open>One reply, with the callback of the reply before. \<open>Inl\<close>: the loop returns.\<close>

definition hand_over :: "heap \<Rightarrow> client \<Rightarrow> async \<Rightarrow> callback \<Rightarrow> rtree \<Rightarrow> (life + callback \<times> async) run option" where
  "hand_over mem cl ac cb reply =
     (if cb_fn cb \<noteq> None then
        and_then (Some (run_callback mem cl ac cb (Some reply))) (\<lambda>ac.
          if ac_freeing ac then and_then (async_free mem cl ac) (\<lambda>l. Some (Done (Inl l)))
          else Some (Done (Inr (cb, ac))))
      else Some (Done (Inr (cb, ac))))"

definition serve_reply :: "heap \<Rightarrow> client \<Rightarrow> callback \<Rightarrow> async \<Rightarrow> rtree \<Rightarrow> (life + callback \<times> async) run option" where
  "serve_reply mem cl cb ac reply =
     (case ac_replies ac of
        cb' # cbs \<Rightarrow> hand_over mem cl (ac\<lparr>ac_replies := cbs\<rparr>) cb' reply
      | [] \<Rightarrow>
          if rt_type reply = REDIS_REPLY_ERROR then
            (case rt_str reply of
               None \<Rightarrow> Some Undefined
             | Some t \<Rightarrow>
                 and_then (async_disconnect mem cl (ac\<lparr>ac_c := (ac_c ac)\<lparr>x_err := REDIS_ERR_OTHER, x_errstr := take 127 (cstr t)\<rparr>\<rparr>))
                   (\<lambda>l. Some (Done (Inl l))))
          else if \<not> ac_subscribed ac \<and> \<not> ac_monitoring ac then Some Undefined
          else if ac_subscribed ac then
            and_then (Some (get_subscribe_callback mem ac reply cb)) (\<lambda>(ac, cb). hand_over mem cl ac cb reply)
          else hand_over mem cl ac cb reply)"

text \<open>No reply is complete yet. An output buffer whose allocation failed is dereferenced.\<close>

definition no_more_replies :: "heap \<Rightarrow> client \<Rightarrow> callback \<Rightarrow> async \<Rightarrow> life run option" where
  "no_more_replies mem cl cb ac =
     (if ac_disconnecting ac \<and> x_obuf (ac_c ac) = None then Some Undefined
      else if ac_disconnecting ac \<and> sdslen (the (x_obuf (ac_c ac))) = 0 then async_disconnect mem cl ac
      else Some (Done (Alive (if ac_monitoring ac then ac\<lparr>ac_replies := push_callback mem (ac_replies ac) cb\<rparr> else ac))))"

partial_function (option) process_loop :: "heap \<Rightarrow> (nat \<Rightarrow> bytes) \<Rightarrow> client \<Rightarrow> callback \<Rightarrow> async \<Rightarrow> life run option" where
  "process_loop mem strerror cl cb ac =
     (case redisGetReply mem strerror (ac_c ac) (ac_net ac) of
        Undefined \<Rightarrow> Some Undefined
      | Blocked \<Rightarrow> Some Blocked
      | Done (c, net, ok, aux) \<Rightarrow>
          let ac = ac\<lparr>ac_c := c, ac_net := net\<rparr> in
          if \<not> ok then async_disconnect mem cl ac
          else (case aux of
            None \<Rightarrow> no_more_replies mem cl cb ac
          | Some a \<Rightarrow>
              (case serve_reply mem cl cb ac (load (rd_store (x_reader c)) a) of
                 None \<Rightarrow> None
               | Some Undefined \<Rightarrow> Some Undefined
               | Some Blocked \<Rightarrow> Some Blocked
               | Some (Done (Inl l)) \<Rightarrow> Some (Done l)
               | Some (Done (Inr (cb, ac))) \<Rightarrow> process_loop mem strerror cl cb ac)))"

declare process_loop.simps [code]

definition no_callback :: callback where
  "no_callback = \<lparr>cb_fn = None, cb_privdata = 0\<rparr>"

definition redisProcessCallbacks :: "heap \<Rightarrow> (nat \<Rightarrow> bytes) \<Rightarrow> client \<Rightarrow> async \<Rightarrow> life run option" where
  "redisProcessCallbacks mem strerror cl ac = process_loop mem strerror cl no_callback ac"

section \<open>The handlers of the event loop\<close>

definition EINPROGRESS :: nat where "EINPROGRESS = 115"

definition redisSetErrorFromErrno :: "(nat \<Rightarrow> bytes) \<Rightarrow> redis_context \<Rightarrow> nat \<Rightarrow> bytes \<Rightarrow> redis_context" where
  "redisSetErrorFromErrno strerror c errno prefix = redisSetError c REDIS_ERR_IO (prefix @ strerror errno)"

text \<open>\<open>so\<close> is what \<open>getsockopt\<close> does: it fails with an \<open>errno\<close>, or gives the error of the socket. The
  second component is \<open>errno\<close> after a failure.\<close>

definition redisCheckSocketError :: "(nat \<Rightarrow> bytes) \<Rightarrow> redis_context \<Rightarrow> nat + nat \<Rightarrow> redis_context \<times> nat option" where
  "redisCheckSocketError strerror c so =
     (case so of
        Inl errno \<Rightarrow> (redisSetErrorFromErrno strerror c errno ''getsockopt(SO_ERROR): '', Some errno)
      | Inr err \<Rightarrow> if err \<noteq> 0 then (redisSetErrorFromErrno strerror c err [], Some err) else (c, None))"

definition status_event :: "async \<Rightarrow> bool \<Rightarrow> async" where
  "status_event ac ok = (case ac_onConnect ac of None \<Rightarrow> ac | Some fn \<Rightarrow> logged (Connected fn ok) ac)"

text \<open>The status is true for \<open>REDIS_OK\<close>.\<close>

definition handle_connect :: "heap \<Rightarrow> (nat \<Rightarrow> bytes) \<Rightarrow> client \<Rightarrow> async \<Rightarrow> nat + nat \<Rightarrow> (life \<times> bool) run option" where
  "handle_connect mem strerror cl ac so =
     (case redisCheckSocketError strerror (ac_c ac) so of
        (c, None) \<Rightarrow> Some (Done (Alive (status_event (ac\<lparr>ac_c := c, ac_connected := True\<rparr>) True), True))
      | (c, Some errno) \<Rightarrow>
          if errno = EINPROGRESS then Some (Done (Alive (ac\<lparr>ac_c := c\<rparr>), True))
          else and_then (async_disconnect mem cl (status_event (ac\<lparr>ac_c := c\<rparr>) False)) (\<lambda>l. Some (Done (l, False))))"

text \<open>Both handlers first see to it that the context is connected.\<close>

definition when_connected ::
    "heap \<Rightarrow> (nat \<Rightarrow> bytes) \<Rightarrow> client \<Rightarrow> async \<Rightarrow> nat + nat \<Rightarrow> (async \<Rightarrow> life run option) \<Rightarrow> life run option" where
  "when_connected mem strerror cl ac so k =
     (if ac_connected ac then k ac
      else and_then (handle_connect mem strerror cl ac so) (\<lambda>(l, ok).
        case l of
          Freed log \<Rightarrow> Some (Done l)
        | Alive ac \<Rightarrow> if \<not> ok \<or> \<not> ac_connected ac then Some (Done l) else k ac))"

definition redisAsyncHandleRead :: "heap \<Rightarrow> (nat \<Rightarrow> bytes) \<Rightarrow> client \<Rightarrow> async \<Rightarrow> nat + nat \<Rightarrow> life run option" where
  "redisAsyncHandleRead mem strerror cl ac so =
     when_connected mem strerror cl ac so (\<lambda>ac.
       and_then (Some (redisBufferRead mem strerror (ac_c ac) (ac_net ac))) (\<lambda>(c, net, ok).
         let ac = ac\<lparr>ac_c := c, ac_net := net\<rparr> in
         if \<not> ok then async_disconnect mem cl ac
         else redisProcessCallbacks mem strerror cl (logged (Hook AddRead) ac)))"

definition redisAsyncHandleWrite :: "heap \<Rightarrow> (nat \<Rightarrow> bytes) \<Rightarrow> client \<Rightarrow> async \<Rightarrow> nat + nat \<Rightarrow> life run option" where
  "redisAsyncHandleWrite mem strerror cl ac so =
     when_connected mem strerror cl ac so (\<lambda>ac.
       and_then (Some (redisBufferWrite mem strerror (ac_c ac) (ac_net ac))) (\<lambda>(c, net, wdone, ok).
         let ac = ac\<lparr>ac_c := c, ac_net := net\<rparr> in
         if \<not> ok then async_disconnect mem cl ac
         else Some (Done (Alive (logged (Hook AddRead) (logged (Hook (if wdone then DelWrite else AddWrite)) ac))))))"

end
