(* ===== verification/AsyncSpec.thy ===== *)
theory AsyncSpec
  imports Async ClusterSpec
begin

text \<open>
  What the asynchronous client promises: every callback of an accepted command is called once, in order,
  whatever happens to the context; and freeing a context ends, whatever its callbacks do.
\<close>

definition has_cells :: "heap \<Rightarrow> bool" where "has_cells mem \<longleftrightarrow> mem 24 \<noteq> None"

section \<open>The ledger of callbacks\<close>

definition accepted :: "event list \<Rightarrow> (nat \<times> nat) list" where
  "accepted log = List.map_filter (\<lambda>e. case e of Issued (Some fn) privdata cmd True \<Rightarrow> Some (fn, privdata) | _ \<Rightarrow> None) log"

definition calls_made :: "event list \<Rightarrow> (nat \<times> nat) list" where
  "calls_made log = List.map_filter (\<lambda>e. case e of Called fn privdata reply \<Rightarrow> Some (fn, privdata) | _ \<Rightarrow> None) log"

definition waiting_calls :: "callback list \<Rightarrow> (nat \<times> nat) list" where
  "waiting_calls l = List.map_filter (\<lambda>cb. map_option (\<lambda>fn. (fn, cb_privdata cb)) (cb_fn cb)) l"

text \<open>A command that is neither about subscriptions nor about monitoring; a history in which another was accepted.\<close>

definition regular :: "bytes \<Rightarrow> bool" where
  "regular cmd \<longleftrightarrow> (case request_kind (cmd @ [NUL]) of Done (Regular, _, _) \<Rightarrow> True | _ \<Rightarrow> False)"

definition irregular :: "event list \<Rightarrow> bool" where
  "irregular log \<longleftrightarrow> (\<exists>e\<in>set log. case e of Issued fn privdata cmd True \<Rightarrow> \<not> regular cmd | _ \<Rightarrow> False)"

named_theorems log_simps \<open>what an event adds to the ledger\<close>

lemma accepted_simps [log_simps]:
  "accepted [] = []" "accepted (a @ b) = accepted a @ accepted b"
  "accepted (Called f p r # l) = accepted l" "accepted (Hook h # l) = accepted l" "accepted (Connected f ok # l) = accepted l"
  "accepted (Disconnected f ok # l) = accepted l" "accepted (Data_handler f # l) = accepted l"
  "accepted (Issued (Some f) p c True # l) = (f, p) # accepted l" "accepted (Issued None p c ok # l) = accepted l"
  "accepted (Issued fo p c False # l) = accepted l"
  by (simp_all add: accepted_def map_filter_def split: option.split)

lemma calls_made_simps [log_simps]:
  "calls_made [] = []" "calls_made (a @ b) = calls_made a @ calls_made b"
  "calls_made (Called f p r # l) = (f, p) # calls_made l" "calls_made (Hook h # l) = calls_made l"
  "calls_made (Connected f ok # l) = calls_made l" "calls_made (Disconnected f ok # l) = calls_made l"
  "calls_made (Data_handler f # l) = calls_made l" "calls_made (Issued fo p c ok # l) = calls_made l"
  by (simp_all add: calls_made_def map_filter_def)

lemma irregular_simps [log_simps]:
  "\<not> irregular []" "irregular (a @ b) \<longleftrightarrow> irregular a \<or> irregular b"
  "irregular (Called f p r # l) \<longleftrightarrow> irregular l" "irregular (Hook h # l) \<longleftrightarrow> irregular l"
  "irregular (Connected f ok # l) \<longleftrightarrow> irregular l" "irregular (Disconnected f ok # l) \<longleftrightarrow> irregular l"
  "irregular (Data_handler f # l) \<longleftrightarrow> irregular l"
  "irregular (Issued fo p c ok # l) \<longleftrightarrow> ok \<and> \<not> regular c \<or> irregular l"
  by (auto simp: irregular_def split: bool.splits)

definition due :: "callback \<Rightarrow> (nat \<times> nat) list" where
  "due cb = (case cb_fn cb of None \<Rightarrow> [] | Some fn \<Rightarrow> [(fn, cb_privdata cb)])"

lemma waiting_calls_simps [log_simps]:
  "waiting_calls [] = []" "waiting_calls (cb # l) = due cb @ waiting_calls l"
  "waiting_calls (a @ b) = waiting_calls a @ waiting_calls b"
  by (simp_all add: waiting_calls_def map_filter_def due_def split: option.split)

lemma regular_kind: "regular cmd \<Longrightarrow> \<exists>pv p. request_kind (cmd @ [NUL]) = Done (Regular, pv, p)"
  by (cases "request_kind (cmd @ [NUL])"; cases "fst (case request_kind (cmd @ [NUL]) of Done k \<Rightarrow> k)")
     (auto simp: regular_def)

text \<open>\<open>xs\<close> are calls that are due at once.\<close>

definition ledger_of :: "(nat \<times> nat) list \<Rightarrow> async \<Rightarrow> bool" where
  "ledger_of xs ac \<longleftrightarrow> irregular (ac_log ac)
     \<or> (\<not> ac_subscribed ac \<and> \<not> ac_monitoring ac \<and> ac_invalid ac = [] \<and> ac_channels ac = dictCreate callbackDict
        \<and> ac_patterns ac = dictCreate callbackDict
        \<and> accepted (ac_log ac) = calls_made (ac_log ac) @ xs @ waiting_calls (ac_replies ac))"

abbreviation ledger :: "async \<Rightarrow> bool" where
  "ledger \<equiv> ledger_of []"

definition life_ledger :: "life \<Rightarrow> bool" where
  "life_ledger l \<longleftrightarrow>
     (case l of Alive ac \<Rightarrow> ledger ac | Freed log \<Rightarrow> irregular log \<or> accepted log = calls_made log)"

lemma life_ledger_simps [simp]:
  "life_ledger (Alive ac) \<longleftrightarrow> ledger ac"
  "life_ledger (Freed log) \<longleftrightarrow> irregular log \<or> accepted log = calls_made log"
  by (simp_all add: life_ledger_def)

lemma ledger_other [simp]:
  "ledger_of xs (ac\<lparr>ac_c := c\<rparr>) = ledger_of xs ac" "ledger_of xs (ac\<lparr>ac_net := net\<rparr>) = ledger_of xs ac"
  "ledger_of xs (ac\<lparr>ac_connected := b\<rparr>) = ledger_of xs ac" "ledger_of xs (ac\<lparr>ac_disconnecting := b\<rparr>) = ledger_of xs ac"
  "ledger_of xs (ac\<lparr>ac_freeing := b\<rparr>) = ledger_of xs ac" "ledger_of xs (ac\<lparr>ac_in_callback := b\<rparr>) = ledger_of xs ac"
  "ledger_of xs (ac\<lparr>ac_err := i\<rparr>) = ledger_of xs ac" "ledger_of xs (ac\<lparr>ac_errstr := b\<rparr>) = ledger_of xs ac"
  "ledger_of xs (ac\<lparr>ac_onConnect := fo\<rparr>) = ledger_of xs ac" "ledger_of xs (ac\<lparr>ac_onDisconnect := fo\<rparr>) = ledger_of xs ac"
  "ledger_of xs (ac\<lparr>ac_dataHandler := fo\<rparr>) = ledger_of xs ac"
  "ledger_of xs (logged (Hook h) ac) = ledger_of xs ac" "ledger_of xs (logged (Connected f ok) ac) = ledger_of xs ac"
  by (simp_all add: ledger_of_def logged_def log_simps)

lemma ledger_irregular: "irregular (ac_log ac) \<Longrightarrow> ledger_of xs ac"
  by (simp add: ledger_of_def)

lemma run_then_Done [simp]: "run_then m f = Done y \<longleftrightarrow> (\<exists>x. m = Done x \<and> f x = Done y)"
  by (cases m) auto

lemma and_then_Done [simp]: "and_then m f = Some (Done y) \<longleftrightarrow> (\<exists>x. m = Some (Done x) \<and> f x = Some (Done y))"
  by (cases m rule: option.exhaust; simp) (metis and_then.simps(2-4) option.inject run.distinct(3,5) run.exhaust run.inject)

text \<open>A command of the user keeps the ledger.\<close>

lemma async_command_ledger:
  assumes "async_command mem ac fn privdata cmd = Done (ac', ok)" "has_cells mem" "ledger_of xs ac"
  shows "ledger_of xs (logged (Issued fn privdata cmd ok) ac')"
proof (cases "ok \<and> \<not> regular cmd")
  case True
  then show ?thesis by (simp add: ledger_irregular logged_def log_simps)
next
  case False
  show ?thesis
  proof (cases ok)
    case False
    then have "ac' = ac" using assms(1)
      by (auto simp: async_command_def Let_def split: if_splits request_kind.splits prod.splits) (metis request_kind.exhaust)+
    then show ?thesis using assms(3) False by (simp add: ledger_of_def logged_def log_simps)
  next
    case True
    obtain k0 pv p where k0: "request_kind (cmd @ [NUL]) = Done (k0, pv, p)"
      using assms(1) True by (cases "request_kind (cmd @ [NUL])") (auto simp: async_command_def split: if_splits)
    have "k0 = Regular" using False True k0 by (cases k0) (auto simp: regular_def)
    note k = k0 [unfolded this]
    let ?cb = "\<lparr>cb_fn = fn, cb_privdata = privdata\<rparr>"
    obtain c where a: "ac' = logged (Hook AddWrite) ((if ac_subscribed ac then ac\<lparr>ac_invalid := ac_invalid ac @ [?cb]\<rparr>
        else ac\<lparr>ac_replies := ac_replies ac @ [?cb]\<rparr>)\<lparr>ac_c := c\<rparr>)"
      using assms(1,2) True by (auto simp: has_cells_def async_command_def k push_callback_def Let_def split: if_splits prod.splits)
    show ?thesis using assms(3) a True by (cases fn) (auto simp: ledger_of_def logged_def log_simps due_def)
  qed
qed

lemma command_ledger:
  "redisAsyncFormattedCommand mem ac fn privdata cmd = Done (ac', ok) \<Longrightarrow> has_cells mem \<Longrightarrow> ledger_of xs ac \<Longrightarrow> ledger_of xs ac'"
  by (auto simp: redisAsyncFormattedCommand_def dest: async_command_ledger)

lemma run_body_ledger:
  "has_cells mem \<Longrightarrow> run_body mem b ac = Done ac' \<Longrightarrow> ledger_of xs ac \<Longrightarrow> ledger_of xs ac'"
proof (induction b arbitrary: ac)
  case (Issue fn privdata cmd k)
  then obtain ac1 ok where "redisAsyncFormattedCommand mem ac fn privdata cmd = Done (ac1, ok)" "run_body mem (k ok) ac1 = Done ac'"
    by auto
  then show ?case using Issue by (metis rangeI command_ledger)
qed simp_all

lemma run_callback_ledger:
  assumes "run_callback mem cl ac cb reply = Done ac'" "has_cells mem" "ledger_of (due cb) ac"
  shows "ledger ac'"
proof (cases "cb_fn cb")
  case None
  then show ?thesis using assms by (simp add: run_callback_def due_def)
next
  case (Some fn)
  let ?ac = "logged (Called fn (cb_privdata cb) reply) (ac\<lparr>ac_in_callback := True\<rparr>)"
  have "ledger ?ac" using assms(3) Some by (auto simp: ledger_of_def logged_def due_def log_simps)
  moreover obtain ac1 where "run_body mem (cl (ac_log ?ac)) ?ac = Done ac1" "ac' = ac1\<lparr>ac_in_callback := False\<rparr>"
    using assms(1) Some by (auto simp: run_callback_def Let_def)
  ultimately show ?thesis using run_body_ledger [OF assms(2)] by simp
qed

text \<open>The end of a context.\<close>

lemma take_next:
  "ledger ac \<Longrightarrow> list_of invalid ac = cb # cbs \<Longrightarrow> ledger_of (due cb) (set_list invalid cbs ac)"
  by (auto simp: ledger_of_def list_of_def set_list_def log_simps split: if_splits)

text \<open>The history only grows, so an irregular one stays one.\<close>

lemma command_irregular:
  assumes "redisAsyncFormattedCommand mem ac fn privdata cmd = Done (ac', ok)" "irregular (ac_log ac)"
  shows "irregular (ac_log ac')"
proof -
  obtain ac1 where a: "async_command mem ac fn privdata cmd = Done (ac1, ok)" "ac' = logged (Issued fn privdata cmd ok) ac1"
    using assms(1) by (auto simp: redisAsyncFormattedCommand_def)
  have "ac1 = ac \<or> (\<exists>k pv p. request_kind (cmd @ [NUL]) = Done (k, pv, p))"
    using a(1) by (cases "request_kind (cmd @ [NUL])") (auto simp: async_command_def split: if_splits)
  then have "irregular (ac_log ac1)"
  proof
    assume "\<exists>k pv p. request_kind (cmd @ [NUL]) = Done (k, pv, p)"
    then obtain k pv p where k: "request_kind (cmd @ [NUL]) = Done (k, pv, p)" by blast
    show ?thesis using a(1) assms(2)
      by (cases k) (auto simp: async_command_def k logged_def log_simps Let_def split: if_splits)
  qed (use assms(2) in simp)
  then show ?thesis using a(2) by (simp add: logged_def log_simps)
qed

lemma run_body_irregular:
  "run_body mem b ac = Done ac' \<Longrightarrow> irregular (ac_log ac) \<Longrightarrow> irregular (ac_log ac')"
proof (induction b arbitrary: ac)
  case (Issue fn privdata cmd k)
  then obtain ac1 ok where "redisAsyncFormattedCommand mem ac fn privdata cmd = Done (ac1, ok)" "run_body mem (k ok) ac1 = Done ac'"
    by auto
  then show ?case using Issue by (metis rangeI command_irregular)
qed simp_all

lemma run_callback_irregular:
  assumes "run_callback mem cl ac cb reply = Done ac'" "irregular (ac_log ac)"
  shows "irregular (ac_log ac')"
proof (cases "cb_fn cb")
  case (Some fn)
  let ?ac = "logged (Called fn (cb_privdata cb) reply) (ac\<lparr>ac_in_callback := True\<rparr>)"
  have "irregular (ac_log ?ac)" using assms(2) by (simp add: logged_def log_simps)
  moreover obtain ac1 where "run_body mem (cl (ac_log ?ac)) ?ac = Done ac1" "ac' = ac1\<lparr>ac_in_callback := False\<rparr>"
    using assms(1) Some by (auto simp: run_callback_def Let_def)
  ultimately show ?thesis using run_body_irregular by simp
qed (use assms in \<open>simp add: run_callback_def\<close>)

lemma run_pending_ledger:
  assumes "run_pending mem cl invalid ac = Some (Done ac')" "has_cells mem" "ledger ac"
  shows "ledger ac' \<and> list_of invalid ac' = [] \<and> (irregular (ac_log ac) \<longrightarrow> irregular (ac_log ac'))"
proof -
  have "\<forall>ac'. r = Done ac' \<longrightarrow> has_cells mem \<longrightarrow> ledger ac \<longrightarrow> ledger ac' \<and> list_of invalid ac' = [] \<and> (irregular (ac_log ac) \<longrightarrow> irregular (ac_log ac'))"
    if "run_pending mem cl invalid ac = Some r" for r
  proof (rule run_pending.raw_induct [OF _ that], intro allI impI)
    fix rec mem cl invalid ac r ac'
    assume IH: "\<And>mem cl invalid ac r. rec mem cl invalid ac = Some r \<Longrightarrow>
        \<forall>ac'. r = Done ac' \<longrightarrow> has_cells mem \<longrightarrow> ledger ac \<longrightarrow> ledger ac' \<and> list_of invalid ac' = [] \<and> (irregular (ac_log ac) \<longrightarrow> irregular (ac_log ac'))"
      and eq: "(case list_of invalid ac of [] \<Rightarrow> Some (Done ac)
        | cb # cbs \<Rightarrow> case run_callback mem cl (set_list invalid cbs ac) cb None of
            Undefined \<Rightarrow> Some Undefined | Blocked \<Rightarrow> Some Blocked | Done ac \<Rightarrow> rec mem cl invalid ac) = Some r"
      and r: "r = Done ac'" "has_cells mem" "ledger ac"
    show "ledger ac' \<and> list_of invalid ac' = [] \<and> (irregular (ac_log ac) \<longrightarrow> irregular (ac_log ac'))"
    proof (cases "list_of invalid ac")
      case Nil
      then show ?thesis using eq r by simp
    next
      case (Cons cb cbs)
      then obtain ac1 where a: "run_callback mem cl (set_list invalid cbs ac) cb None = Done ac1" "rec mem cl invalid ac1 = Some r"
        using eq r(1) by (auto split: run.splits)
      have "ledger ac1" using run_callback_ledger [OF a(1) r(2) take_next [OF r(3) Cons]] .
      then show ?thesis using IH [OF a(2)] r run_callback_irregular [OF a(1)] by (auto simp: set_list_def split: if_splits)
    qed
  qed
  then show ?thesis using assms by blast
qed

lemma no_entries: "dictNext (dictCreate ty) dictGetIterator = (None, \<lparr>di_index = 0, di_entry = [], di_nextEntry = []\<rparr>)"
  by (subst dictNext.simps) (simp add: dictCreate_def dictGetIterator_def)

lemma run_entries_ledger:
  assumes "run_entries mem cl patterns it ac = Some (Done ac')" "irregular (ac_log ac) \<or> it = dictGetIterator \<and> ledger ac"
  shows "irregular (ac_log ac') \<or> ac' = ac \<and> ledger ac"
proof -
  have "\<forall>ac'. r = Done ac' \<longrightarrow> irregular (ac_log ac) \<longrightarrow> irregular (ac_log ac')"
    if "run_entries mem cl patterns it ac = Some r" for r
  proof (rule run_entries.raw_induct [OF _ that], intro allI impI)
    fix rec mem cl patterns it ac r ac'
    assume IH: "\<And>mem cl patterns it ac r. rec mem cl patterns it ac = Some r \<Longrightarrow>
        \<forall>ac'. r = Done ac' \<longrightarrow> irregular (ac_log ac) \<longrightarrow> irregular (ac_log ac')"
      and eq: "(case dictNext (if patterns then ac_patterns ac else ac_channels ac) it of (None, it) \<Rightarrow> Some (Done ac)
        | (Some (name, cb), it) \<Rightarrow> case run_callback mem cl ac cb None of
            Undefined \<Rightarrow> Some Undefined | Blocked \<Rightarrow> Some Blocked | Done ac \<Rightarrow> rec mem cl patterns it ac) = Some r"
      and r: "r = Done ac'" "irregular (ac_log ac)"
    show "irregular (ac_log ac')"
    proof (cases "fst (dictNext (if patterns then ac_patterns ac else ac_channels ac) it)")
      case None
      then show ?thesis using eq r by (cases "dictNext (if patterns then ac_patterns ac else ac_channels ac) it") auto
    next
      case (Some e)
      then obtain it1 ac1 where a: "run_callback mem cl ac (snd e) None = Done ac1" "rec mem cl patterns it1 ac1 = Some r"
        using eq r(1) by (cases "dictNext (if patterns then ac_patterns ac else ac_channels ac) it"; cases e) (auto split: run.splits)
      then show ?thesis using IH [OF a(2)] run_callback_irregular [OF a(1) r(2)] r(1) by blast
    qed
  qed
  moreover have "ac' = ac" if "\<not> irregular (ac_log ac)"
    using assms that by (subst (asm) run_entries.simps) (auto simp: no_entries ledger_of_def split: if_splits)
  ultimately show ?thesis using assms by blast
qed

lemma farewell_ledger:
  "ledger ac \<Longrightarrow> irregular (ac_log ac) \<or> ac_replies ac = [] \<Longrightarrow> life_ledger (Freed (farewell ac))"
  by (auto simp: farewell_def ledger_of_def log_simps split: option.split)

lemma async_free_ledger:
  assumes "async_free mem cl ac = Some (Done l)" "has_cells mem" "ledger ac"
  shows "life_ledger l"
proof -
  obtain ac1 ac2 ac3 ac4 where a: "run_pending mem cl False ac = Some (Done ac1)" "run_pending mem cl True ac1 = Some (Done ac2)"
    "run_entries mem cl False dictGetIterator ac2 = Some (Done ac3)" "run_entries mem cl True dictGetIterator ac3 = Some (Done ac4)"
    "l = Freed (farewell ac4)" using assms(1) by (auto simp: async_free_def)
  have 1: "ledger ac1" "ac_replies ac1 = []" using run_pending_ledger [OF a(1) assms(2,3)] by (simp_all add: list_of_def)
  have 2: "ledger ac2" "irregular (ac_log ac1) \<longrightarrow> irregular (ac_log ac2)"
    using run_pending_ledger [OF a(2) assms(2) 1(1)] by blast+
  have "ac2 = ac1" if "\<not> irregular (ac_log ac1)"
    using a(2) that 1(1) by (subst (asm) run_pending.simps) (simp add: ledger_of_def list_of_def)
  then have 3: "irregular (ac_log ac2) \<or> ac2 = ac1 \<and> ledger ac1" using 1(1) 2(2) by blast
  have "irregular (ac_log ac3) \<or> ac3 = ac1 \<and> ledger ac1" using run_entries_ledger [OF a(3)] 3 by blast
  then have "irregular (ac_log ac4) \<or> ac4 = ac1 \<and> ledger ac1" using run_entries_ledger [OF a(4)] by blast
  then show ?thesis using a(5) 1(2) farewell_ledger ledger_irregular by blast
qed

lemma async_disconnect_ledger:
  "async_disconnect mem cl ac = Some (Done l) \<Longrightarrow> has_cells mem \<Longrightarrow> ledger ac \<Longrightarrow> life_ledger l"
  by (auto simp: async_disconnect_def redisAsyncCopyError_def Let_def split: if_splits intro: async_free_ledger)

lemma hand_over_ledger:
  assumes "hand_over mem cl ac cb reply = Some (Done x)" "has_cells mem" "ledger_of (due cb) ac"
  shows "case x of Inl l \<Rightarrow> life_ledger l | Inr (cb, ac) \<Rightarrow> ledger ac"
  using assms run_callback_ledger [OF _ assms(2,3)]
  by (auto simp: hand_over_def due_def split: if_splits option.splits dest!: async_free_ledger)

lemma serve_reply_ledger:
  assumes "serve_reply mem cl cb ac reply = Some (Done x)" "has_cells mem" "ledger ac"
  shows "case x of Inl l \<Rightarrow> life_ledger l | Inr (cb, ac) \<Rightarrow> ledger ac"
proof (cases "ac_replies ac")
  case (Cons cb' cbs)
  then have "ledger_of (due cb') (ac\<lparr>ac_replies := cbs\<rparr>)" using take_next [OF assms(3), of False] by (simp add: list_of_def set_list_def)
  then show ?thesis using assms(1,2) Cons hand_over_ledger by (simp add: serve_reply_def)
next
  case Nil
  show ?thesis
  proof (cases "rt_type reply = REDIS_REPLY_ERROR")
    case True
    then show ?thesis using assms Nil by (auto simp: serve_reply_def split: option.splits dest!: async_disconnect_ledger)
  next
    case False
    then have i: "irregular (ac_log ac)" using assms(1,3) Nil by (auto simp: serve_reply_def ledger_of_def split: if_splits)
    have sub: "ac_log ac1 = ac_log ac" if "get_subscribe_callback mem ac reply cb = Done (ac1, cb1)" for ac1 cb1
      using that by (auto simp: get_subscribe_callback_def Let_def split: if_splits option.splits list.splits)
    show ?thesis using assms(1,2) Nil False i sub ledger_irregular
      by (auto simp: serve_reply_def split: if_splits dest!: hand_over_ledger)
  qed
qed

lemma no_more_ledger:
  assumes "no_more_replies mem cl cb ac = Some (Done l)" "has_cells mem" "ledger ac"
  shows "life_ledger l"
proof (cases "ac_disconnecting ac \<and> sdslen (the (x_obuf (ac_c ac))) = 0")
  case True
  then have "async_disconnect mem cl ac = Some (Done l)" using assms(1) by (auto simp: no_more_replies_def split: if_splits)
  then show ?thesis using async_disconnect_ledger assms(2,3) by blast
next
  case False
  then have "l = Alive (if ac_monitoring ac then ac\<lparr>ac_replies := push_callback mem (ac_replies ac) cb\<rparr> else ac)"
    using assms(1) by (auto simp: no_more_replies_def split: if_splits)
  then show ?thesis using assms(3) by (auto simp: ledger_of_def)
qed

lemma process_loop_ledger:
  assumes "process_loop mem strerror cl cb ac = Some (Done l)" "has_cells mem" "ledger ac"
  shows "life_ledger l"
proof -
  have "\<forall>l. r = Done l \<longrightarrow> has_cells mem \<longrightarrow> ledger ac \<longrightarrow> life_ledger l"
    if "process_loop mem strerror cl cb ac = Some r" for r
  proof (rule process_loop.raw_induct [OF _ that], intro allI impI)
    fix rec mem strerror cl cb ac r l
    assume IH: "\<And>mem strerror cl cb ac r. rec mem strerror cl cb ac = Some r \<Longrightarrow>
        \<forall>l. r = Done l \<longrightarrow> has_cells mem \<longrightarrow> ledger ac \<longrightarrow> life_ledger l"
      and eq: "(case redisGetReply mem strerror (ac_c ac) (ac_net ac) of
        Undefined \<Rightarrow> Some Undefined
      | Blocked \<Rightarrow> Some Blocked
      | Done (c, net, ok, aux) \<Rightarrow>
          let ac = ac\<lparr>ac_c := c, ac_net := net\<rparr> in
          if \<not> ok then async_disconnect mem cl ac
          else (case aux of
            None \<Rightarrow> no_more_replies mem cl cb ac
          | Some a \<Rightarrow>
              (case serve_reply mem cl cb ac (load (rd_store (x_reader c)) a) of
                 None \<Rightarrow> None
               | Some Undefined \<Rightarrow> Some Undefined
               | Some Blocked \<Rightarrow> Some Blocked
               | Some (Done (Inl l)) \<Rightarrow> Some (Done l)
               | Some (Done (Inr (cb, ac))) \<Rightarrow> rec mem strerror cl cb ac))) = Some r"
      and r: "r = Done l" "has_cells mem" "ledger ac"
    obtain c net ok aux where g: "redisGetReply mem strerror (ac_c ac) (ac_net ac) = Done (c, net, ok, aux)"
      using eq r(1) by (auto split: run.splits)
    let ?ac = "ac\<lparr>ac_c := c, ac_net := net\<rparr>"
    have i: "ledger ?ac" using r(3) by simp
    show "life_ledger l"
    proof (cases "ok \<and> aux \<noteq> None")
      case False
      then show ?thesis using eq r(1) g async_disconnect_ledger [OF _ r(2) i] no_more_ledger [OF _ r(2) i] by (auto simp: Let_def split: if_splits)
    next
      case True
      then obtain a x where a: "aux = Some a" "serve_reply mem cl cb ?ac (load (rd_store (x_reader c)) a) = Some (Done x)"
        using eq r(1) g by (auto split: option.splits run.splits)
      note k = serve_reply_ledger [OF a(2) r(2) i]
      show ?thesis using k IH eq r(1,2) g a True by (auto split: sum.splits prod.splits)
    qed
  qed
  then show ?thesis using assms by blast
qed

lemma when_connected_ledger:
  assumes "when_connected mem strerror cl ac so k = Some (Done l)" "has_cells mem" "ledger ac"
    and k: "\<And>ac l. k ac = Some (Done l) \<Longrightarrow> ledger ac \<Longrightarrow> life_ledger l"
  shows "life_ledger l"
proof (cases "ac_connected ac")
  case True
  then show ?thesis using assms by (simp add: when_connected_def)
next
  case False
  then obtain l1 ok where h: "handle_connect mem strerror cl ac so = Some (Done (l1, ok))"
    and l: "(case l1 of Freed log \<Rightarrow> Some (Done l1) | Alive ac \<Rightarrow> if \<not> ok \<or> \<not> ac_connected ac then Some (Done l1) else k ac) = Some (Done l)"
    using assms(1) by (auto simp: when_connected_def)
  have s: "ledger (status_event (ac\<lparr>ac_c := c\<rparr>) b)" "ledger (status_event (ac\<lparr>ac_c := c, ac_connected := True\<rparr>) b)" for c b
    using assms(3) by (simp_all add: status_event_def split: option.split)
  have "life_ledger l1" using h assms(2,3) s
    by (auto simp: handle_connect_def split: prod.splits option.splits if_splits dest: async_disconnect_ledger)
  then show ?thesis using l k by (auto split: life.splits if_splits)
qed

lemma handle_read_ledger:
  "redisAsyncHandleRead mem strerror cl ac so = Some (Done l) \<Longrightarrow> has_cells mem \<Longrightarrow> ledger ac \<Longrightarrow> life_ledger l"
  unfolding redisAsyncHandleRead_def
  by (erule when_connected_ledger)
     (auto simp: redisProcessCallbacks_def Let_def split: if_splits dest!: async_disconnect_ledger process_loop_ledger)

lemma handle_write_ledger:
  "redisAsyncHandleWrite mem strerror cl ac so = Some (Done l) \<Longrightarrow> has_cells mem \<Longrightarrow> ledger ac \<Longrightarrow> life_ledger l"
  unfolding redisAsyncHandleWrite_def
  by (erule when_connected_ledger) (auto simp: Let_def split: if_splits dest!: async_disconnect_ledger)

section \<open>The life of a context\<close>

text \<open>Everything that can happen to a context from the moment it is connected: calls of the user outside of
  callbacks, and events of the loop. \<open>so\<close> is the state of the socket, the rest of the world is in the
  context; what happens inside callbacks is up to \<open>cl\<close>.\<close>

inductive lives :: "heap \<Rightarrow> (nat \<Rightarrow> bytes) \<Rightarrow> client \<Rightarrow> life \<Rightarrow> bool" for mem strerror cl where
  connect: "redisAsyncConnect mem dial = Some ac \<Longrightarrow> lives mem strerror cl (Alive ac)"
| on_connect: "lives mem strerror cl (Alive ac) \<Longrightarrow> lives mem strerror cl (Alive (fst (redisAsyncSetConnectCallback ac fn)))"
| on_disconnect: "lives mem strerror cl (Alive ac) \<Longrightarrow> lives mem strerror cl (Alive (fst (redisAsyncSetDisconnectCallback ac fn)))"
| data_handler: "lives mem strerror cl (Alive ac) \<Longrightarrow> lives mem strerror cl (Alive (ac\<lparr>ac_dataHandler := fo\<rparr>))"
| command: "lives mem strerror cl (Alive ac) \<Longrightarrow> redisAsyncFormattedCommand mem ac fo privdata cmd = Done (ac', ok)
    \<Longrightarrow> lives mem strerror cl (Alive ac')"
| disconnect: "lives mem strerror cl (Alive ac) \<Longrightarrow> redisAsyncDisconnect mem cl ac = Some (Done l) \<Longrightarrow> lives mem strerror cl l"
| free: "lives mem strerror cl (Alive ac) \<Longrightarrow> redisAsyncFree mem cl ac = Some (Done l) \<Longrightarrow> lives mem strerror cl l"
| handle_read: "lives mem strerror cl (Alive ac) \<Longrightarrow> redisAsyncHandleRead mem strerror cl ac so = Some (Done l)
    \<Longrightarrow> lives mem strerror cl l"
| handle_write: "lives mem strerror cl (Alive ac) \<Longrightarrow> redisAsyncHandleWrite mem strerror cl ac so = Some (Done l)
    \<Longrightarrow> lives mem strerror cl l"

fun history :: "life \<Rightarrow> event list" where
  "history (Alive ac) = ac_log ac"
| "history (Freed log) = log"

fun still_waiting :: "life \<Rightarrow> callback list" where
  "still_waiting (Alive ac) = ac_replies ac"
| "still_waiting (Freed log) = []"

lemma lives_ledger:
  assumes "lives mem strerror cl l" "has_cells mem"
  shows "life_ledger l"
  using assms(1)
proof induction
  case (connect dial ac)
  then show ?case
    by (auto simp: redisAsyncConnect_def redisAsyncInitialize_def redisAsyncCopyError_def ledger_of_def log_simps
        split: option.splits prod.splits if_splits)
next
  case (command ac fo privdata cmd ac' ok)
  then show ?case using command_ledger assms(2) by simp
next
  case (disconnect ac l)
  then show ?case using async_disconnect_ledger assms(2)
    by (fastforce simp: redisAsyncDisconnect_def Let_def split: if_splits)
next
  case (free ac l)
  then show ?case using async_free_ledger assms(2) by (fastforce simp: redisAsyncFree_def Let_def split: if_splits)
qed (use assms(2) handle_read_ledger handle_write_ledger in
  \<open>simp_all add: redisAsyncSetConnectCallback_def redisAsyncSetDisconnectCallback_def\<close>)

text \<open>C36: Every callback is called once: whatever the socket brings, the user calls and the callbacks do, as long
  as no command about subscriptions or monitoring is accepted, the callbacks of the accepted commands are,
  in their order, those that have been called followed by those that wait; once the context is freed all
  of them have been called.\<close>

theorem callbacks_called_once:
  assumes "lives mem strerror cl l" "mem 24 \<noteq> None" "\<not> irregular (history l)"
  shows "accepted (history l) = calls_made (history l) @ waiting_calls (still_waiting l)"
  using lives_ledger [OF assms(1)] assms(2,3) by (cases l) (auto simp: has_cells_def ledger_of_def log_simps)

section \<open>Freeing a context\<close>

text \<open>The callbacks that were called, with their replies.\<close>

definition answers :: "event list \<Rightarrow> (nat \<times> nat \<times> rtree option) list" where
  "answers log = List.map_filter (\<lambda>e. case e of Called fn privdata reply \<Rightarrow> Some (fn, privdata, reply) | _ \<Rightarrow> None) log"

lemma answers_simps [log_simps]:
  "answers [] = []" "answers (a @ b) = answers a @ answers b"
  "answers (Called f p r # l) = (f, p, r) # answers l" "answers (Hook h # l) = answers l"
  "answers (Connected f ok # l) = answers l" "answers (Disconnected f ok # l) = answers l"
  "answers (Data_handler f # l) = answers l" "answers (Issued fo p c ok # l) = answers l"
  by (simp_all add: answers_def map_filter_def)

definition answered_with :: "rtree option \<Rightarrow> callback list \<Rightarrow> (nat \<times> nat \<times> rtree option) list" where
  "answered_with reply cbs = map (\<lambda>(fn, privdata). (fn, privdata, reply)) (waiting_calls cbs)"

lemma answered_with_simps [log_simps]:
  "answered_with reply [] = []" "answered_with reply (a @ b) = answered_with reply a @ answered_with reply b"
  "answered_with reply (cb # l) = map (\<lambda>(fn, privdata). (fn, privdata, reply)) (due cb) @ answered_with reply l"
  by (simp_all add: answered_with_def log_simps)

definition refuses :: "async \<Rightarrow> bool" where
  "refuses ac \<longleftrightarrow> ac_disconnecting ac \<or> ac_freeing ac"

definition enrolled :: "async \<Rightarrow> callback list \<times> callback list \<times> (bytes, callback) dict \<times> (bytes, callback) dict" where
  "enrolled ac = (ac_replies ac, ac_invalid ac, ac_channels ac, ac_patterns ac)"

text \<open>Once it is about to be closed, a context does not take commands: callbacks cannot add to what is registered.\<close>

lemma run_body_refused:
  "refuses ac \<Longrightarrow> \<exists>ac'. run_body mem b ac = Done ac' \<and> refuses ac' \<and> enrolled ac' = enrolled ac
     \<and> answers (ac_log ac') = answers (ac_log ac)"
proof (induction b arbitrary: ac)
  case (Issue fn privdata cmd k)
  let ?ac = "logged (Issued fn privdata cmd False) ac"
  have "redisAsyncFormattedCommand mem ac fn privdata cmd = Done (?ac, False)"
    using Issue.prems by (auto simp: redisAsyncFormattedCommand_def async_command_def refuses_def)
  moreover have "refuses ?ac" "enrolled ?ac = enrolled ac" "answers (ac_log ?ac) = answers (ac_log ac)"
    using Issue.prems by (simp_all add: refuses_def enrolled_def logged_def log_simps)
  ultimately show ?case using Issue.IH [OF rangeI, of ?ac False] by simp
next
  case (Close b)
  then show ?case using Close.IH [of "ac\<lparr>ac_disconnecting := True\<rparr>"] by (simp add: refuses_def enrolled_def)
next
  case (Release b)
  then show ?case using Release.IH [of "ac\<lparr>ac_freeing := True\<rparr>"] by (simp add: refuses_def enrolled_def)
qed simp

lemma run_callback_refused:
  assumes "refuses ac"
  shows "\<exists>ac'. run_callback mem cl ac cb reply = Done ac' \<and> refuses ac' \<and> enrolled ac' = enrolled ac
     \<and> answers (ac_log ac') = answers (ac_log ac) @ answered_with reply [cb]"
proof (cases "cb_fn cb")
  case None
  then show ?thesis using assms by (simp add: run_callback_def log_simps due_def)
next
  case (Some fn)
  let ?ac = "logged (Called fn (cb_privdata cb) reply) (ac\<lparr>ac_in_callback := True\<rparr>)"
  have "refuses ?ac" "enrolled ?ac = enrolled ac" using assms by (simp_all add: refuses_def enrolled_def logged_def)
  then obtain ac1 where "run_body mem (cl (ac_log ?ac)) ?ac = Done ac1" "refuses ac1" "enrolled ac1 = enrolled ac"
      "answers (ac_log ac1) = answers (ac_log ?ac)"
    using run_body_refused by metis
  then show ?thesis using Some
    by (intro exI [of _ "ac1\<lparr>ac_in_callback := False\<rparr>"])
       (simp add: run_callback_def Let_def refuses_def enrolled_def logged_def log_simps due_def)
qed

lemma run_pending_refused:
  "refuses ac \<Longrightarrow> \<exists>ac'. run_pending mem cl invalid ac = Some (Done ac') \<and> refuses ac'
     \<and> enrolled ac' = enrolled (set_list invalid [] ac)
     \<and> answers (ac_log ac') = answers (ac_log ac) @ answered_with None (list_of invalid ac)"
proof (induction "list_of invalid ac" arbitrary: ac)
  case Nil
  then have "enrolled ac = enrolled (set_list invalid [] ac)" by (simp add: list_of_def set_list_def enrolled_def split: if_splits)
  then show ?case using Nil by (subst run_pending.simps) (simp add: log_simps flip: Nil(1))
next
  case (Cons cb cbs)
  let ?ac = "set_list invalid cbs ac"
  have "refuses ?ac" using Cons(3) by (simp add: refuses_def set_list_def)
  then obtain ac1 where 1: "run_callback mem cl ?ac cb None = Done ac1" "refuses ac1" "enrolled ac1 = enrolled ?ac"
      "answers (ac_log ac1) = answers (ac_log ac) @ answered_with None [cb]"
    using run_callback_refused [of ?ac mem cl cb None] by (auto simp: set_list_def)
  have l: "list_of invalid ac1 = cbs" "enrolled (set_list invalid [] ac1) = enrolled (set_list invalid [] ac)"
    using 1(3) by (auto simp: enrolled_def list_of_def set_list_def split: if_splits)
  obtain ac2 where 2: "run_pending mem cl invalid ac1 = Some (Done ac2)" "refuses ac2"
      "enrolled ac2 = enrolled (set_list invalid [] ac1)"
      "answers (ac_log ac2) = answers (ac_log ac1) @ answered_with None (list_of invalid ac1)"
    using Cons(1) [of ac1] l(1) 1(2) by blast
  have "run_pending mem cl invalid ac = Some (Done ac2)"
    using 1(1) 2(1) by (subst run_pending.simps) (simp flip: Cons(2))
  then show ?case using 1(4) 2 l by (auto simp: log_simps simp flip: Cons(2))
qed

lemma run_entries_refused:
  assumes "length (dt_table d) = dt_size d"
  shows "refuses ac \<Longrightarrow> -1 \<le> di_index it \<Longrightarrow> d = (if patterns then ac_patterns ac else ac_channels ac) \<Longrightarrow>
    \<exists>ac'. run_entries mem cl patterns it ac = Some (Done ac') \<and> refuses ac' \<and> enrolled ac' = enrolled ac
     \<and> answers (ac_log ac') = answers (ac_log ac) @ answered_with None (map snd (unvisited d it))"
proof (induction "unvisited d it" arbitrary: it ac)
  case Nil
  note v = dictNext_visits [OF assms Nil(3)]
  then obtain it1 where "dictNext d it = (None, it1)" using Nil(1) by (auto split: prod.splits option.splits)
  then have "run_entries mem cl patterns it ac = Some (Done ac)" using Nil(4) by (subst run_entries.simps) simp
  then show ?case using Nil(2) by (simp add: log_simps flip: Nil(1))
next
  case (Cons e es)
  note v = dictNext_visits [OF assms Cons(4)]
  then obtain it1 where n: "dictNext d it = (Some e, it1)" "unvisited d it1 = es" "-1 \<le> di_index it1"
    using Cons(2) by (auto split: prod.splits option.splits)
  obtain ac1 where 1: "run_callback mem cl ac (snd e) None = Done ac1" "refuses ac1" "enrolled ac1 = enrolled ac"
      "answers (ac_log ac1) = answers (ac_log ac) @ answered_with None [snd e]"
    using run_callback_refused [OF Cons(3)] by blast
  have "d = (if patterns then ac_patterns ac1 else ac_channels ac1)" using 1(3) Cons(5) by (auto simp: enrolled_def)
  then obtain ac2 where 2: "run_entries mem cl patterns it1 ac1 = Some (Done ac2)" "refuses ac2" "enrolled ac2 = enrolled ac1"
      "answers (ac_log ac2) = answers (ac_log ac1) @ answered_with None (map snd es)"
    using Cons(1) [of it1 ac1] n(2,3) 1(2) by auto
  have "run_entries mem cl patterns it ac = Some (Done ac2)"
    using n(1) 1(1) 2(1) Cons(5) by (subst run_entries.simps) (cases e; simp)
  then show ?case using 1(3,4) 2 by (auto simp: log_simps simp flip: Cons(2))
qed

definition every_callback :: "async \<Rightarrow> callback list" where
  "every_callback ac =
     ac_replies ac @ ac_invalid ac @ map snd (dict_entries (ac_channels ac)) @ map snd (dict_entries (ac_patterns ac))"

lemma async_free_refused:
  assumes "refuses ac" "dict_inv (ac_channels ac)" "dict_inv (ac_patterns ac)"
  shows "\<exists>log. async_free mem cl ac = Some (Done (Freed log))
    \<and> answers log = answers (ac_log ac) @ answered_with None (every_callback ac)"
proof -
  obtain ac1 where 1: "run_pending mem cl False ac = Some (Done ac1)" "refuses ac1"
      "enrolled ac1 = enrolled (set_list False [] ac)"
      "answers (ac_log ac1) = answers (ac_log ac) @ answered_with None (ac_replies ac)"
    using run_pending_refused [OF assms(1), of mem cl False] by (auto simp: list_of_def)
  obtain ac2 where 2: "run_pending mem cl True ac1 = Some (Done ac2)" "refuses ac2"
      "enrolled ac2 = enrolled (set_list True [] ac1)"
      "answers (ac_log ac2) = answers (ac_log ac1) @ answered_with None (ac_invalid ac)"
    using run_pending_refused [OF 1(2), of mem cl True] 1(3) by (auto simp: list_of_def set_list_def enrolled_def)
  have c: "ac_channels ac2 = ac_channels ac" "ac_patterns ac2 = ac_patterns ac"
    using 1(3) 2(3) by (simp_all add: enrolled_def set_list_def)
  have u: "unvisited d dictGetIterator = dict_entries d" if "dict_inv d" for d :: "(bytes, callback) dict"
    using dict_entries_table [OF that] by (simp add: unvisited_def dictGetIterator_def)
  have l: "length (dt_table (ac_channels ac)) = dt_size (ac_channels ac)" "length (dt_table (ac_patterns ac)) = dt_size (ac_patterns ac)"
    and it: "-1 \<le> di_index (dictGetIterator :: (bytes, callback) dict_iterator)"
    using assms(2,3) by (simp_all add: dict_inv_def dictGetIterator_def)
  obtain ac3 where 3: "run_entries mem cl False dictGetIterator ac2 = Some (Done ac3)" "refuses ac3" "enrolled ac3 = enrolled ac2"
      "answers (ac_log ac3) = answers (ac_log ac2) @ answered_with None (map snd (dict_entries (ac_channels ac)))"
    using run_entries_refused [OF l(1) 2(2) it, of False mem cl] c u assms(2) by auto
  have "ac_patterns ac = ac_patterns ac3" using 3(3) c by (simp add: enrolled_def)
  then obtain ac4 where 4: "run_entries mem cl True dictGetIterator ac3 = Some (Done ac4)"
      "answers (ac_log ac4) = answers (ac_log ac3) @ answered_with None (map snd (dict_entries (ac_patterns ac)))"
    using run_entries_refused [OF l(2) 3(2) it, of True mem cl] u assms(3) by auto
  have "answers (farewell ac4) = answers (ac_log ac4)" by (simp add: farewell_def log_simps split: option.split)
  then show ?thesis using 1 2 3 4 by (simp add: async_free_def every_callback_def log_simps)
qed

text \<open>C37: Whatever its callbacks do, freeing a context comes to an end: each callback that is registered, for a
  reply, for a refused command, for a channel or for a pattern, is called once, in this order and with NULL,
  and none after them.\<close>

theorem free_calls_all:
  assumes "\<not> ac_in_callback ac" "dict_inv (ac_channels ac)" "dict_inv (ac_patterns ac)"
  shows "\<exists>log. redisAsyncFree mem cl ac = Some (Done (Freed log))
    \<and> answers log = answers (ac_log ac) @ answered_with None (every_callback ac)"
proof -
  have "every_callback (ac\<lparr>ac_freeing := True\<rparr>) = every_callback ac" by (simp add: every_callback_def)
  then show ?thesis using async_free_refused [of "ac\<lparr>ac_freeing := True\<rparr>" mem cl] assms
    by (simp add: redisAsyncFree_def refuses_def)
qed

text \<open>A context in the middle of its life, as \<open>redisAsyncConnect\<close> leaves it but for the given fields.\<close>

definition sample_async :: "callback list \<Rightarrow> bytes list \<Rightarrow> async" where
  "sample_async cbs ts =
     (the (redisAsyncInitialize pages (the (redisContextInit pages False)) \<lparr>nt_writes = [], nt_reads = map Inr ts, nt_sent = []\<rparr>))
       \<lparr>ac_connected := True, ac_replies := cbs\<rparr>"

lemma sample_async_simps [simp]:
  "\<not> ac_monitoring (sample_async cbs ts)" "ac_replies (sample_async cbs ts) = cbs"
  "nt_reads (ac_net (sample_async cbs ts)) = map Inr ts" "ac_log (sample_async cbs ts) = []"
  "ac_c (sample_async cbs ts) = the (redisContextInit pages False)" "\<not> ac_in_callback (sample_async cbs ts)"
  "ac_invalid (sample_async cbs ts) = []" "ac_channels (sample_async cbs ts) = dictCreate callbackDict"
  "ac_patterns (sample_async cbs ts) = dictCreate callbackDict"
  by (simp_all add: sample_async_def redisAsyncInitialize_def pages_def)

lemma good_callback_type: "good_type callbackDict"
proof -
  have "length a = length b \<Longrightarrow> memcmp a b = 0 \<longleftrightarrow> a = b" for a b using memcmp_lexord [of a b] by simp
  then show ?thesis by (auto simp: good_type_def callbackDict_def callbackKeyCompare_def)
qed

lemma free_calls_all_witness:
  "\<exists>log. redisAsyncFree pages (\<lambda>_. Issue (Some 3) 30 ''x'' (\<lambda>_. Close Finish))
      (sample_async [\<lparr>cb_fn = Some 1, cb_privdata = 10\<rparr>, \<lparr>cb_fn = Some 2, cb_privdata = 20\<rparr>] []) = Some (Done (Freed log))
    \<and> answers log = [(1, 10, None), (2, 20, None)]"
proof -
  let ?ac = "sample_async [\<lparr>cb_fn = Some 1, cb_privdata = 10\<rparr>, \<lparr>cb_fn = Some 2, cb_privdata = 20\<rparr>] []"
  have "good_type callbackDict" by (rule good_callback_type)
  then have "dict_inv (dictCreate callbackDict :: (bytes, callback) dict)" using dictCreate_inv by blast
  then show ?thesis using free_calls_all [of ?ac pages "\<lambda>_. Issue (Some 3) 30 ''x'' (\<lambda>_. Close Finish)"]
    by (simp add: every_callback_def dict_entries_table dictCreate_def log_simps due_def)
qed

lemma callbacks_called_once_witness:
  "\<exists>l. lives pages (\<lambda>_. []) (\<lambda>_. Finish) l \<and> accepted (history l) = [(1, 10)]
    \<and> accepted (history l) = calls_made (history l) @ waiting_calls (still_waiting l)"
proof -
  let ?c = "the (redisContextInit pages False)" and ?cmd = "request [''PING'']"
  obtain ac0 where ac0: "redisAsyncConnect pages (\<lambda>c. (c, \<lparr>nt_writes = [], nt_reads = [], nt_sent = []\<rparr>)) = Some ac0"
      "ac_log ac0 = []" "\<not> refuses ac0" "\<not> ac_subscribed ac0" "x_obuf (ac_c ac0) \<noteq> None" "ac_replies ac0 = []"
  proof -
    obtain b r where "sdsempty pages = Some b" "redisReaderCreate pages = Some r"
      using sdsempty_total [OF pages_heap(2)] redisReaderCreate_total [OF pages_heap(2)] by auto
    then show thesis by (intro that)
      (auto simp: redisAsyncConnect_def redisContextInit_def redisAsyncInitialize_def redisAsyncCopyError_def pages_def refuses_def)
  qed
  have k: "regular ?cmd" by code_simp
  obtain pv p where q: "request_kind (?cmd @ [NUL]) = Done (Regular, pv, p)"
    using regular_kind [OF k] by blast
  obtain ac1 where ac1: "redisAsyncFormattedCommand pages ac0 (Some 1) 10 ?cmd = Done (ac1, True)"
      "ac_log ac1 = [Hook AddWrite, Issued (Some 1) 10 ?cmd True]"
  proof -
    obtain c ok where "append_command pages (ac_c ac0) ?cmd = Done (c, ok)"
      using ac0(5) by (cases "x_obuf (ac_c ac0)"; cases "sdscatlen pages (the (x_obuf (ac_c ac0))) ?cmd") (auto simp: append_command_def)
    then show thesis using ac0 q that by (simp add: redisAsyncFormattedCommand_def async_command_def refuses_def logged_def Let_def)
  qed
  have "lives pages (\<lambda>_. []) (\<lambda>_. Finish) (Alive ac1)" by (rule lives.command [OF lives.connect [OF ac0(1)] ac1(1)])
  then show ?thesis
    using callbacks_called_once [of pages "\<lambda>_. []" "\<lambda>_. Finish" "Alive ac1"] k ac1(2)
    by (intro exI [of _ "Alive ac1"]) (simp add: log_simps pages_def)
qed

end
