(* ===== verification/AsyncReads.thy ===== *)
theory AsyncReads
  imports AsyncSpec
begin

text \<open>
  What the asynchronous client does with the bytes that arrive: the replies in them go to the waiting
  callbacks, however the bytes are cut into pieces; and how a monitor loses its callback.
\<close>

section \<open>Reading replies\<close>

text \<open>A connection that has read \<open>u\<close> without a reply; one that has \<open>s\<close> to be parsed.\<close>

definition listening :: "heap \<Rightarrow> redis_context \<Rightarrow> bytes \<Rightarrow> bool" where
  "listening mem c u \<longleftrightarrow> x_err c = 0 \<and> \<not> x_block c
     \<and> (\<exists>p0 p. idle p0 \<and> ps_input p0 = [] \<and> p_get mem (p_feed p0 u) = Some (p, True, None) \<and> settled (x_reader c) p)"

definition filled :: "heap \<Rightarrow> redis_context \<Rightarrow> bytes \<Rightarrow> bool" where
  "filled mem c s \<longleftrightarrow> x_err c = 0 \<and> \<not> x_block c \<and> reader_ok (x_reader c) \<and> rd_err (x_reader c) = 0
     \<and> (\<exists>p0. idle p0 \<and> ps_input p0 = [] \<and> p_get mem (machine (x_reader c)) = p_get mem (p_feed p0 s))"

definition incomplete :: "bytes \<Rightarrow> bool" where
  "incomplete u \<longleftrightarrow> (\<exists>R v. reply_ok 0 R \<and> encode R = u @ v \<and> v \<noteq> [])"

lemma incomplete_Nil: "incomplete []"
  unfolding incomplete_def by (intro exI [of _ R_nil] exI [of _ "encode R_nil"]) simp

lemma feed_input: "idle p \<Longrightarrow> ps_input (p_feed p t) = ps_input p @ t \<and> at_rest (p_feed p t)"
  using idle_rests [of p] by (auto simp: p_feed_def idle_def at_rest_def stack_ok_def)

lemma listening_reads:
  assumes h: "good_heap mem" "ample mem" and l: "listening mem c u" and t: "t \<noteq> []" "length t \<le> 1024 * 16"
    and n: "length u + length t + 1024 + SDS_MAX_PREALLOC < 2 ^ 31" and net: "nt_reads net = Inr t # evs"
  shows "\<exists>r. redisBufferRead mem strerror c net = Done (c\<lparr>x_reader := r\<rparr>, net\<lparr>nt_reads := evs\<rparr>, True)
    \<and> filled mem (c\<lparr>x_reader := r\<rparr>) (u @ t)"
proof -
  obtain p0 p where p: "idle p0" "ps_input p0 = []" "p_get mem (p_feed p0 u) = Some (p, True, None)" "settled (x_reader c) p"
    and c: "x_err c = 0" "\<not> x_block c" using l by (auto simp: listening_def)
  have "length (ps_input p) \<le> length u" using p_get_shorter [OF p(3)] feed_input [OF p(1)] p(2) by simp
  then have "room p (got (Inr t))" using n by (simp add: room_def)
  then obtain r where r: "redisBufferRead mem strerror c net = Done (c\<lparr>x_reader := r\<rparr>, net\<lparr>nt_reads := evs\<rparr>, True)"
      "reader_ok r" "rd_err r = 0" "machine r = p_feed p t"
    using read_brings [OF h c(1) p(4), of "Inr t" net evs strerror] t net by auto
  have "p_feed (p_feed p0 u) t = p_feed p0 (u @ t)" using p(1) by (auto simp: p_feed_def idle_def)
  then have "p_get mem (p_feed p t) = p_get mem (p_feed p0 (u @ t))"
    using get_in_chunks [of "p_feed p0 u" mem t] feed_input [OF p(1)] p(3) by simp
  then show ?thesis using r c p(1,2) by (intro exI [of _ r]) (auto simp: filled_def)
qed

lemma get_reply_open:
  "\<not> x_block c \<Longrightarrow> redisGetReplyFromReader mem c = Done (c\<lparr>x_reader := r\<rparr>, True, a) \<Longrightarrow>
   redisGetReply mem strerror c net = Done (c\<lparr>x_reader := r\<rparr>, net, True, a)"
  by (simp add: redisGetReply_def)

lemma filled_gives:
  assumes "ample mem" "filled mem c (encode R @ s)" "reply_ok 0 R"
  shows "\<exists>r a. redisGetReply mem strerror c net = Done (c\<lparr>x_reader := r\<rparr>, net, True, Some a)
    \<and> load (rd_store r) a = tree_of R \<and> filled mem (c\<lparr>x_reader := r\<rparr>) s"
proof -
  obtain p0 where p: "idle p0" "ps_input p0 = []" "p_get mem (machine (x_reader c)) = p_get mem (p_feed p0 (encode R @ s))"
    and c: "x_err c = 0" "\<not> x_block c" "reader_ok (x_reader c)" using assms(2) by (auto simp: filled_def)
  obtain q a where q: "p_get mem (p_feed p0 (encode R @ s)) = Some (q, True, Some a)" "idle q" "ps_input q = s" "denotes (ps_store q) R a"
    using idle_reply [OF p(1) assms(1,3) p(2)] by blast
  obtain r where r: "redisGetReplyFromReader mem c = Done (c\<lparr>x_reader := r\<rparr>, True, Some a)" "settled r q"
    using reply_from_reader [OF c(3)] p(3) q(1) by metis
  have i: "idle (q\<lparr>ps_input := []\<rparr>)" using q(2) by (simp add: idle_def)
  have "p_feed (q\<lparr>ps_input := []\<rparr>) s = q\<lparr>ps_input := s\<rparr>" using q(2) by (simp add: p_feed_def idle_def)
  then have "machine r = p_feed (q\<lparr>ps_input := []\<rparr>) s" using r(2) q(3) by (auto simp: settled_def)
  then have "filled mem (c\<lparr>x_reader := r\<rparr>) s" using c i r(2) unfolding filled_def settled_def
    by (auto intro!: exI [of _ "q\<lparr>ps_input := []\<rparr>"])
  then show ?thesis using get_reply_open [OF c(2) r(1)] load_denotes [OF q(4)] settled_store [OF r(2)] by auto
qed

lemma filled_waits:
  assumes "ample mem" "filled mem c u" "incomplete u"
  shows "\<exists>r. redisGetReply mem strerror c net = Done (c\<lparr>x_reader := r\<rparr>, net, True, None) \<and> listening mem (c\<lparr>x_reader := r\<rparr>) u"
proof -
  obtain p0 where p: "idle p0" "ps_input p0 = []" "p_get mem (machine (x_reader c)) = p_get mem (p_feed p0 u)"
    and c: "x_err c = 0" "\<not> x_block c" "reader_ok (x_reader c)" using assms(2) by (auto simp: filled_def)
  obtain R v where R: "reply_ok 0 R" "encode R = u @ v" "v \<noteq> []" using assms(3) by (auto simp: incomplete_def)
  obtain q where q: "p_get mem (p_feed p0 u) = Some (q, True, None)" using proper_part [OF p(1) assms(1) R(1) p(2) R(2,3)] by blast
  obtain r where r: "redisGetReplyFromReader mem c = Done (c\<lparr>x_reader := r\<rparr>, True, None)" "settled r q"
    using reply_from_reader [OF c(3)] p(3) q by metis
  then show ?thesis using get_reply_open [OF c(2) r(1)] c p q by (auto simp: listening_def)
qed

section \<open>Handing the replies out\<close>

text \<open>A context that is served, with callbacks that do not call the library.\<close>

definition serving :: "async \<Rightarrow> bool" where
  "serving ac \<longleftrightarrow> ac_connected ac \<and> \<not> ac_disconnecting ac \<and> \<not> ac_freeing ac \<and> \<not> ac_in_callback ac \<and> \<not> ac_subscribed ac"

abbreviation quiet :: client where
  "quiet \<equiv> \<lambda>log. Finish"

text \<open>Which callback gets which reply: the one at the head of those that wait, or that of the reply before.\<close>

definition next_callback :: "callback \<Rightarrow> callback list \<Rightarrow> callback" where
  "next_callback cb q = (case q of [] \<Rightarrow> cb | cb1 # _ \<Rightarrow> cb1)"

fun hand_out :: "callback \<Rightarrow> callback list \<Rightarrow> rtree list \<Rightarrow> callback \<times> (nat \<times> nat \<times> rtree option) list" where
  "hand_out cb q [] = (cb, [])"
| "hand_out cb q (R # Rs) =
     (fst (hand_out (next_callback cb q) (tl q) Rs),
      answered_with (Some R) [next_callback cb q] @ snd (hand_out (next_callback cb q) (tl q) Rs))"

text \<open>What changes when replies are handed out.\<close>

definition moved_on :: "async \<Rightarrow> async \<Rightarrow> bool" where
  "moved_on ac ac' \<longleftrightarrow> (\<exists>r log q. ac' = ac\<lparr>ac_c := (ac_c ac)\<lparr>x_reader := r\<rparr>, ac_replies := q, ac_log := log\<rparr>)"

lemma moved_on_trans: "moved_on a b \<Longrightarrow> moved_on b c \<Longrightarrow> moved_on a c"
  unfolding moved_on_def by (elim exE, hypsubst) (simp, blast)

lemma moved_on_keeps: "moved_on ac ac' \<Longrightarrow> serving ac' = serving ac \<and> ac_monitoring ac' = ac_monitoring ac \<and> ac_net ac' = ac_net ac"
  by (auto simp: moved_on_def serving_def)

lemma hand_over_quiet:
  assumes "serving ac"
  shows "\<exists>log. hand_over mem quiet ac cb R = Some (Done (Inr (cb, ac\<lparr>ac_log := log\<rparr>)))
     \<and> answers log = answers (ac_log ac) @ answered_with (Some R) [cb]"
proof (cases "cb_fn cb")
  case None
  then show ?thesis by (intro exI [of _ "ac_log ac"]) (simp add: hand_over_def log_simps due_def)
next
  case (Some fn)
  let ?log = "ac_log ac @ [Called fn (cb_privdata cb) (Some R)]"
  have "ac\<lparr>ac_log := ?log, ac_in_callback := False\<rparr> = ac\<lparr>ac_log := ?log\<rparr>" using assms by (cases ac) (simp add: serving_def)
  then have "run_callback mem quiet ac cb (Some R) = Done (ac\<lparr>ac_log := ?log\<rparr>)"
    using Some by (simp add: run_callback_def logged_def)
  then show ?thesis using Some assms by (intro exI [of _ ?log]) (simp add: hand_over_def serving_def log_simps due_def)
qed

definition attended :: "async \<Rightarrow> rtree list \<Rightarrow> bool" where
  "attended ac Rs \<longleftrightarrow> length Rs \<le> length (ac_replies ac) \<or> ac_monitoring ac \<and> (\<forall>R\<in>set Rs. rt_type R \<noteq> REDIS_REPLY_ERROR)"

lemma serve_reply_quiet:
  assumes "serving ac" "attended ac (R # Rs)"
  shows "\<exists>log. serve_reply mem quiet cb ac R
      = Some (Done (Inr (next_callback cb (ac_replies ac), ac\<lparr>ac_replies := tl (ac_replies ac), ac_log := log\<rparr>)))
    \<and> answers log = answers (ac_log ac) @ answered_with (Some R) [next_callback cb (ac_replies ac)]"
proof (cases "ac_replies ac")
  case Nil
  have e: "ac\<lparr>ac_replies := tl (ac_replies ac), ac_log := log\<rparr> = ac\<lparr>ac_log := log\<rparr>" for log using Nil by (cases ac) simp
  have s: "serve_reply mem quiet cb ac R = hand_over mem quiet ac cb R"
    using assms Nil by (simp add: serve_reply_def serving_def attended_def)
  have n: "next_callback cb (ac_replies ac) = cb" using Nil by (simp add: next_callback_def)
  show ?thesis unfolding s e n by (rule hand_over_quiet [OF assms(1)])
next
  case (Cons cb1 q)
  have "serving (ac\<lparr>ac_replies := q\<rparr>)" using assms(1) by (simp add: serving_def)
  then show ?thesis using Cons hand_over_quiet [of "ac\<lparr>ac_replies := q\<rparr>" mem cb1 R]
    by (auto simp: serve_reply_def next_callback_def)
qed

lemma process_loop_quiet:
  assumes "ample mem" "incomplete u"
  shows "serving ac \<Longrightarrow> attended ac (map tree_of Rs) \<Longrightarrow> list_all (reply_ok 0) Rs \<Longrightarrow>
    filled mem (ac_c ac) (concat (map encode Rs) @ u) \<Longrightarrow>
    \<exists>ac'. process_loop mem strerror quiet cb ac = Some (Done (Alive ac')) \<and> moved_on ac ac' \<and> listening mem (ac_c ac') u
      \<and> answers (ac_log ac') = answers (ac_log ac) @ snd (hand_out cb (ac_replies ac) (map tree_of Rs))
      \<and> ac_replies ac' = drop (length Rs) (ac_replies ac)
          @ (if ac_monitoring ac then push_callback mem [] (fst (hand_out cb (ac_replies ac) (map tree_of Rs))) else [])"
proof (induction Rs arbitrary: ac cb)
  case Nil
  obtain r where r: "redisGetReply mem strerror (ac_c ac) (ac_net ac) = Done ((ac_c ac)\<lparr>x_reader := r\<rparr>, ac_net ac, True, None)"
      "listening mem ((ac_c ac)\<lparr>x_reader := r\<rparr>) u" using filled_waits [OF assms(1) _ assms(2)] Nil(4) by force
  let ?ac = "ac\<lparr>ac_c := (ac_c ac)\<lparr>x_reader := r\<rparr>, ac_net := ac_net ac\<rparr>"
  let ?ac' = "if ac_monitoring ac then ?ac\<lparr>ac_replies := push_callback mem (ac_replies ac) cb\<rparr> else ?ac"
  have "process_loop mem strerror quiet cb ac = Some (Done (Alive ?ac'))"
    using r(1) Nil(1) by (subst process_loop.simps) (simp add: no_more_replies_def serving_def)
  moreover have "moved_on ac ?ac'" unfolding moved_on_def
    by (intro exI [of _ r] exI [of _ "ac_log ac"] exI [of _ "ac_replies ?ac'"]) (cases ac; simp)
  ultimately show ?case using r(2) by (auto simp: push_callback_def)
next
  case (Cons R Rs)
  obtain r a where r: "redisGetReply mem strerror (ac_c ac) (ac_net ac) = Done ((ac_c ac)\<lparr>x_reader := r\<rparr>, ac_net ac, True, Some a)"
      "load (rd_store r) a = tree_of R" "filled mem ((ac_c ac)\<lparr>x_reader := r\<rparr>) (concat (map encode Rs) @ u)"
    using filled_gives [OF assms(1), of "ac_c ac" R "concat (map encode Rs) @ u" strerror "ac_net ac"] Cons(4,5) by auto
  let ?ac = "ac\<lparr>ac_c := (ac_c ac)\<lparr>x_reader := r\<rparr>, ac_net := ac_net ac\<rparr>"
  let ?cb = "next_callback cb (ac_replies ac)"
  have s: "serving ?ac" "attended ?ac (tree_of R # map tree_of Rs)" using Cons(2,3) by (simp_all add: serving_def attended_def)
  obtain log where log: "serve_reply mem quiet cb ?ac (tree_of R)
        = Some (Done (Inr (?cb, ?ac\<lparr>ac_replies := tl (ac_replies ac), ac_log := log\<rparr>)))"
      "answers log = answers (ac_log ac) @ answered_with (Some (tree_of R)) [?cb]"
    using serve_reply_quiet [OF s, of mem cb] by auto
  let ?ac1 = "?ac\<lparr>ac_replies := tl (ac_replies ac), ac_log := log\<rparr>"
  have "serving ?ac1" "attended ?ac1 (map tree_of Rs)" using s by (auto simp: serving_def attended_def)
  then obtain ac' where ac': "process_loop mem strerror quiet ?cb ?ac1 = Some (Done (Alive ac'))" "moved_on ?ac1 ac'"
      "listening mem (ac_c ac') u"
      "answers (ac_log ac') = answers log @ snd (hand_out ?cb (tl (ac_replies ac)) (map tree_of Rs))"
      "ac_replies ac' = drop (length Rs) (tl (ac_replies ac))
         @ (if ac_monitoring ac then push_callback mem [] (fst (hand_out ?cb (tl (ac_replies ac)) (map tree_of Rs))) else [])"
    using Cons(1) [of ?ac1 ?cb] Cons(4) r(3) by auto
  have "process_loop mem strerror quiet cb ac = Some (Done (Alive ac'))"
    using r(1,2) log(1) ac'(1) by (subst process_loop.simps) simp
  moreover have "moved_on ac ?ac1" unfolding moved_on_def
    by (intro exI [of _ r] exI [of _ log] exI [of _ "tl (ac_replies ac)"]) (cases ac; simp)
  ultimately show ?case using ac' log(2) moved_on_trans [OF _ ac'(2)] by (auto simp: drop_Suc split: prod.splits)
qed

section \<open>Chunks\<close>

lemma chunk_split:
  "list_all (reply_ok 0) Rs \<Longrightarrow> w @ z = concat (map encode Rs) \<Longrightarrow>
   \<exists>Rs1 Rs2 u. Rs = Rs1 @ Rs2 \<and> w = concat (map encode Rs1) @ u \<and> u @ z = concat (map encode Rs2) \<and> incomplete u"
proof (induction Rs arbitrary: w)
  case Nil
  then show ?case using incomplete_Nil by simp
next
  case (Cons R Rs)
  obtain us where us: "w = encode R @ us \<and> us @ z = concat (map encode Rs) \<or> w @ us = encode R \<and> z = us @ concat (map encode Rs)"
    using Cons(3) by (auto simp: append_eq_append_conv2)
  consider v where "encode R = w @ v" "v \<noteq> []" | w1 where "w = encode R @ w1" "w1 @ z = concat (map encode Rs)"
    using us by (cases "us = []") (auto simp: eq_commute)
  then show ?case
  proof cases
    case 1
    then have "incomplete w" using Cons(2) by (auto simp: incomplete_def)
    then show ?thesis using Cons(3) by (intro exI [of _ "[]"] exI [of _ "R # Rs"] exI [of _ w]) simp
  next
    case 2
    obtain Rs1 Rs2 u where "Rs = Rs1 @ Rs2" "w1 = concat (map encode Rs1) @ u" "u @ z = concat (map encode Rs2)" "incomplete u"
      using Cons(1) [OF _ 2(2)] Cons(2) by auto
    then show ?thesis using 2(1) by (intro exI [of _ "R # Rs1"] exI [of _ Rs2] exI [of _ u]) simp
  qed
qed

lemma handle_read_quiet:
  assumes h: "good_heap mem" "ample mem" and ac: "serving ac" "attended ac (map tree_of Rs)" "list_all (reply_ok 0) Rs"
    and l: "listening mem (ac_c ac) u" and t: "t \<noteq> []" "length t \<le> 1024 * 16" "nt_reads (ac_net ac) = Inr t # evs"
    and s: "u @ t = concat (map encode Rs) @ u'" "incomplete u'" "length (u @ t) + 1024 + SDS_MAX_PREALLOC < 2 ^ 31"
  shows "\<exists>ac'. redisAsyncHandleRead mem strerror quiet ac so = Some (Done (Alive ac')) \<and> serving ac'
    \<and> ac_monitoring ac' = ac_monitoring ac \<and> nt_reads (ac_net ac') = evs \<and> listening mem (ac_c ac') u'
    \<and> answers (ac_log ac') = answers (ac_log ac) @ snd (hand_out no_callback (ac_replies ac) (map tree_of Rs))
    \<and> ac_replies ac' = drop (length Rs) (ac_replies ac)
        @ (if ac_monitoring ac then [fst (hand_out no_callback (ac_replies ac) (map tree_of Rs))] else [])"
proof -
  obtain r where r: "redisBufferRead mem strerror (ac_c ac) (ac_net ac)
        = Done ((ac_c ac)\<lparr>x_reader := r\<rparr>, (ac_net ac)\<lparr>nt_reads := evs\<rparr>, True)"
      "filled mem ((ac_c ac)\<lparr>x_reader := r\<rparr>) (u @ t)"
    using listening_reads [OF h l t(1,2) _ t(3)] s(3) by auto
  let ?ac = "logged (Hook AddRead) (ac\<lparr>ac_c := (ac_c ac)\<lparr>x_reader := r\<rparr>, ac_net := (ac_net ac)\<lparr>nt_reads := evs\<rparr>\<rparr>)"
  have f: "filled mem (ac_c ?ac) (concat (map encode Rs) @ u')" using r(2) s(1) by (simp add: logged_def)
  have "serving ?ac" "attended ?ac (map tree_of Rs)" using ac(1,2) by (simp_all add: serving_def attended_def logged_def)
  from process_loop_quiet [OF h(2) s(2) this ac(3) f, of strerror no_callback]
  obtain ac' where ac': "process_loop mem strerror quiet no_callback ?ac = Some (Done (Alive ac'))" "moved_on ?ac ac'"
      "listening mem (ac_c ac') u'"
      "answers (ac_log ac') = answers (ac_log ac) @ snd (hand_out no_callback (ac_replies ac) (map tree_of Rs))"
      "ac_replies ac' = drop (length Rs) (ac_replies ac)
          @ (if ac_monitoring ac then push_callback mem [] (fst (hand_out no_callback (ac_replies ac) (map tree_of Rs))) else [])"
    by (auto simp: logged_def log_simps)
  have "redisAsyncHandleRead mem strerror quiet ac so = Some (Done (Alive ac'))"
    using ac(1) r(1) ac'(1) by (simp add: redisAsyncHandleRead_def when_connected_def serving_def redisProcessCallbacks_def)
  moreover have "push_callback mem [] cb = [cb]" for cb using ampleD [OF h(2), of 24] by (simp add: push_callback_def)
  ultimately show ?thesis using ac' moved_on_keeps [OF ac'(2)] ac(1) by (auto simp: serving_def logged_def)
qed

text \<open>The event loop calls the handler as often as something can be read.\<close>

fun handle_reads :: "heap \<Rightarrow> (nat \<Rightarrow> bytes) \<Rightarrow> client \<Rightarrow> nat \<Rightarrow> async \<Rightarrow> life run option" where
  "handle_reads mem strerror cl 0 ac = Some (Done (Alive ac))"
| "handle_reads mem strerror cl (Suc n) ac =
     and_then (redisAsyncHandleRead mem strerror cl ac (Inr 0)) (\<lambda>l.
       case l of Alive ac \<Rightarrow> handle_reads mem strerror cl n ac | Freed log \<Rightarrow> Some (Done l))"

lemma hand_out_head:
  "length Rs \<le> length q \<Longrightarrow> snd (hand_out cb q Rs) = concat (map2 (\<lambda>cb R. answered_with (Some R) [cb]) q Rs)"
proof (induction Rs arbitrary: cb q)
  case (Cons R Rs)
  then show ?case by (cases q) (auto simp: next_callback_def)
qed simp

lemma listening_no_reply: "listening mem c (encode R @ s) \<Longrightarrow> ample mem \<Longrightarrow> reply_ok 0 R \<Longrightarrow> False"
proof -
  assume a: "listening mem c (encode R @ s)" "ample mem" "reply_ok 0 R"
  then obtain p0 p where p: "idle p0" "ps_input p0 = []" "p_get mem (p_feed p0 (encode R @ s)) = Some (p, True, None)"
    by (auto simp: listening_def)
  then show False using idle_reply [OF p(1) a(2,3) p(2), of s] by auto
qed

lemma map2_split: "map2 f q (a @ b) = map2 f q a @ map2 f (drop (length a) q) b"
  by (induction a arbitrary: q) (auto simp: Cons_eq_append_conv split: list.split, case_tac q, auto)

lemma handle_reads_quiet:
  assumes h: "good_heap mem" "ample mem"
  shows "serving ac \<Longrightarrow> \<not> ac_monitoring ac \<Longrightarrow> length Rs \<le> length (ac_replies ac) \<Longrightarrow> list_all (reply_ok 0) Rs \<Longrightarrow>
    listening mem (ac_c ac) u \<Longrightarrow> nt_reads (ac_net ac) = map Inr ts \<Longrightarrow> \<forall>t\<in>set ts. t \<noteq> [] \<and> length t \<le> 1024 * 16 \<Longrightarrow>
    u @ concat ts = concat (map encode Rs) \<Longrightarrow> length (u @ concat ts) + 1024 + SDS_MAX_PREALLOC < 2 ^ 31 \<Longrightarrow> incomplete u \<Longrightarrow>
    \<exists>ac'. handle_reads mem strerror quiet (length ts) ac = Some (Done (Alive ac')) \<and> serving ac'
      \<and> answers (ac_log ac') = answers (ac_log ac) @ concat (map2 (\<lambda>cb R. answered_with (Some (tree_of R)) [cb]) (ac_replies ac) Rs)
      \<and> ac_replies ac' = drop (length Rs) (ac_replies ac)"
proof (induction ts arbitrary: ac Rs u)
  case Nil
  have "Rs = []" using Nil(4,5,8) listening_no_reply [OF _ h(2)] by (cases Rs) auto
  then show ?case using Nil by simp
next
  case (Cons t ts)
  obtain Rs1 Rs2 u' where s: "Rs = Rs1 @ Rs2" "u @ t = concat (map encode Rs1) @ u'" "u' @ concat ts = concat (map encode Rs2)" "incomplete u'"
    using chunk_split [OF Cons(5), of "u @ t" "concat ts"] Cons(9) by auto
  have a: "attended ac (map tree_of Rs1)" "list_all (reply_ok 0) Rs1" "length Rs1 \<le> length (ac_replies ac)"
    using Cons(4,5) s(1) by (simp_all add: attended_def)
  have t: "t \<noteq> []" "length t \<le> 1024 * 16" "nt_reads (ac_net ac) = Inr t # map Inr ts" using Cons(7,8) by simp_all
  have n: "length (u @ t) + 1024 + SDS_MAX_PREALLOC < 2 ^ 31" using Cons(10) by simp
  obtain ac1 where ac1: "redisAsyncHandleRead mem strerror quiet ac (Inr 0) = Some (Done (Alive ac1))" "serving ac1"
      "\<not> ac_monitoring ac1" "nt_reads (ac_net ac1) = map Inr ts" "listening mem (ac_c ac1) u'"
      "answers (ac_log ac1) = answers (ac_log ac) @ snd (hand_out no_callback (ac_replies ac) (map tree_of Rs1))"
      "ac_replies ac1 = drop (length Rs1) (ac_replies ac)"
    using handle_read_quiet [OF h Cons(2) a(1,2) Cons(6) t s(2,4) n, of strerror "Inr 0"] Cons(3) by auto
  have l2: "length Rs2 \<le> length (ac_replies ac1)" using Cons(4) ac1(7) s(1) by simp
  have "length u' + length (concat ts) \<le> length (u @ concat (t # ts))"
    using arg_cong [OF s(2), of length] by simp
  then have "length (u' @ concat ts) + 1024 + SDS_MAX_PREALLOC < 2 ^ 31" using Cons(10) by simp
  then obtain ac' where ac': "handle_reads mem strerror quiet (length ts) ac1 = Some (Done (Alive ac'))" "serving ac'"
      "answers (ac_log ac') = answers (ac_log ac1) @ concat (map2 (\<lambda>cb R. answered_with (Some (tree_of R)) [cb]) (ac_replies ac1) Rs2)"
      "ac_replies ac' = drop (length Rs2) (ac_replies ac1)"
    using Cons(1) [OF ac1(2,3) l2 _ ac1(5,4) _ s(3) _ s(4)] Cons(5,8) s(1) by auto
  have "snd (hand_out no_callback (ac_replies ac) (map tree_of Rs1))
      = concat (map2 (\<lambda>cb R. answered_with (Some (tree_of R)) [cb]) (ac_replies ac) Rs1)"
    using hand_out_head [of "map tree_of Rs1" "ac_replies ac" no_callback] a(3) by (simp add: zip_map2 comp_def case_prod_beta')
  then show ?case using ac1(1,6,7) ac' s(1) by (simp add: map2_split add.commute)
qed

lemma sample_serving [simp]: "serving (sample_async cbs ts)"
  by (simp add: sample_async_def redisAsyncInitialize_def pages_def serving_def)

lemma sample_listening: "listening pages (the (redisContextInit pages False)) []"
proof -
  note h = pages_heap
  obtain b r where br: "sdsempty pages = Some b" "redisReaderCreate pages = Some r"
    using sdsempty_total [OF h(2)] redisReaderCreate_total [OF h(2)] by auto
  note f = fresh_reader [OF h(1) br(2)]
  have c: "redisContextInit pages False = Some \<lparr>x_err = 0, x_errstr = [], x_block = False, x_obuf = Some b, x_reader = r\<rparr>"
    using br by (simp add: redisContextInit_def pages_def)
  have "p_feed (machine r) [] = machine r" by simp
  then show ?thesis using f idle_hungry [OF f(4,5), of pages] unfolding listening_def c
    by (auto simp: settled_def intro!: exI [of _ "machine r"])
qed



text \<open>A monitor all of whose waiting callbacks are empty.\<close>

definition mute :: "async \<Rightarrow> bool" where
  "mute ac \<longleftrightarrow> ac_monitoring ac \<and> (\<forall>cb\<in>set (ac_replies ac). cb_fn cb = None)"

lemma hand_out_mute:
  "cb_fn cb = None \<Longrightarrow> \<forall>cb\<in>set q. cb_fn cb = None \<Longrightarrow> cb_fn (fst (hand_out cb q Rs)) = None \<and> snd (hand_out cb q Rs) = []"
proof (induction Rs arbitrary: cb q)
  case (Cons R Rs)
  have "cb_fn (next_callback cb q) = None" "\<forall>cb\<in>set (tl q). cb_fn cb = None"
    using Cons(2,3) by (cases q; simp add: next_callback_def)+
  then show ?case using Cons(1) by (simp add: log_simps due_def)
qed simp

definition message :: "reply \<Rightarrow> bool" where
  "message R \<longleftrightarrow> reply_ok 0 R \<and> rt_type (tree_of R) \<noteq> REDIS_REPLY_ERROR"

lemma handle_reads_mute:
  assumes h: "good_heap mem" "ample mem"
  shows "serving ac \<Longrightarrow> mute ac \<Longrightarrow> list_all message Rs \<Longrightarrow> listening mem (ac_c ac) u \<Longrightarrow>
    nt_reads (ac_net ac) = map Inr ts \<Longrightarrow> \<forall>t\<in>set ts. t \<noteq> [] \<and> length t \<le> 1024 * 16 \<Longrightarrow>
    u @ concat ts = concat (map encode Rs) \<Longrightarrow> length (u @ concat ts) + 1024 + SDS_MAX_PREALLOC < 2 ^ 31 \<Longrightarrow> incomplete u \<Longrightarrow>
    \<exists>ac'. handle_reads mem strerror quiet (length ts) ac = Some (Done (Alive ac')) \<and> answers (ac_log ac') = answers (ac_log ac)"
proof (induction ts arbitrary: ac Rs u)
  case (Cons t ts)
  have ok: "list_all (reply_ok 0) Rs" using Cons(4) by (auto simp: message_def list_all_iff)
  obtain Rs1 Rs2 u' where s: "Rs = Rs1 @ Rs2" "u @ t = concat (map encode Rs1) @ u'" "u' @ concat ts = concat (map encode Rs2)" "incomplete u'"
    using chunk_split [OF ok, of "u @ t" "concat ts"] Cons(8) by auto
  have a: "attended ac (map tree_of Rs1)" "list_all (reply_ok 0) Rs1" "list_all message Rs2"
    using Cons(3,4) s(1) ok by (auto simp: attended_def mute_def message_def list_all_iff)
  have t: "t \<noteq> []" "length t \<le> 1024 * 16" "nt_reads (ac_net ac) = Inr t # map Inr ts" using Cons(6,7) by simp_all
  have n: "length (u @ t) + 1024 + SDS_MAX_PREALLOC < 2 ^ 31" using Cons(9) by simp
  have q: "\<forall>cb\<in>set (ac_replies ac). cb_fn cb = None" "ac_monitoring ac" using Cons(3) by (simp_all add: mute_def)
  note ho = hand_out_mute [OF _ q(1), of no_callback "map tree_of Rs1"]
  obtain ac1 where ac1: "redisAsyncHandleRead mem strerror quiet ac (Inr 0) = Some (Done (Alive ac1))" "serving ac1"
      "nt_reads (ac_net ac1) = map Inr ts" "listening mem (ac_c ac1) u'" "answers (ac_log ac1) = answers (ac_log ac)"
      "ac_monitoring ac1" "ac_replies ac1 = drop (length Rs1) (ac_replies ac) @ [fst (hand_out no_callback (ac_replies ac) (map tree_of Rs1))]"
    using handle_read_quiet [OF h Cons(2) a(1,2) Cons(5) t s(2,4) n, of strerror "Inr 0"] q(2) ho by (auto simp: no_callback_def)
  have m: "mute ac1" using ac1(6,7) q(1) ho by (auto simp: mute_def no_callback_def dest: in_set_dropD)
  have "length u' + length (concat ts) \<le> length (u @ concat (t # ts))"
    using arg_cong [OF s(2), of length] by simp
  then have "length (u' @ concat ts) + 1024 + SDS_MAX_PREALLOC < 2 ^ 31" using Cons(9) by simp
  then show ?case using Cons(1) [OF ac1(2) m a(3) ac1(4,3) _ s(3) _ s(4)] Cons(7) ac1(1,5) by auto
qed simp



declare run_then_Done [simp del] and_then_Done [simp del]

end
