(* ===== verification/ClusterAsync.thy ===== *)
theory ClusterAsync
  imports Cluster
begin

text \<open>
  The asynchronous client of a cluster (the end of \<open>hircluster.c\<close>).

  A command is sent on the asynchronous connection of its node with \<open>redisClusterAsyncCallback\<close> as the
  callback; that function looks at the reply, sends the command again when it was redirected, and else
  calls the user. The asynchronous connections are numbers, and what is done with them is the record
  \<open>alink\<close>; \<open>Async\<close> models them. What the user's callbacks do to the context is a parameter. An
  assertion that fails is \<open>Undefined\<close>.
\<close>

section \<open>The configuration of a node\<close>

text \<open>A template with the word \<open>%s\<close> for a name without blanks is the name itself. The value is the text
  of the reply, with its length.\<close>

definition config_value :: "bytes \<Rightarrow> rtree option \<Rightarrow> (bytes + bytes \<times> int) run" where
  "config_value config_name reply =
     (case reply of
        None \<Rightarrow> Done (Inl ''reply for config get is null'')
      | Some r \<Rightarrow>
          if rt_type r \<noteq> REDIS_REPLY_ARRAY then Done (Inl ''reply for config get type is not array'')
          else if rt_elements r \<noteq> 2 then Done (Inl ''reply for config get elements number is not 2'')
          else (case elements_of r of
            Some [name, val] \<Rightarrow>
              (case name of
                 None \<Rightarrow> Done (Inl ''reply for config get config name is not string'')
               | Some n \<Rightarrow>
                   if rt_type n \<noteq> REDIS_REPLY_STRING then Done (Inl ''reply for config get config name is not string'')
                   else (case rt_str n of
                     None \<Rightarrow> Undefined
                   | Some t \<Rightarrow>
                       if cstr t \<noteq> config_name then Done (Inl ''reply for config get config name is not we want'')
                       else (case val of
                         None \<Rightarrow> Done (Inl ''reply for config get config value type is not string'')
                       | Some v \<Rightarrow>
                           if rt_type v \<noteq> REDIS_REPLY_STRING then
                             Done (Inl ''reply for config get config value type is not string'')
                           else (case rt_str v of None \<Rightarrow> Undefined | Some t \<Rightarrow> Done (Inr (t, rt_len v))))))
          | _ \<Rightarrow> Undefined))"

definition cluster_config_get ::
    "('c, 'w) link \<Rightarrow> 'c cluster \<Rightarrow> bytes \<Rightarrow> 'w \<Rightarrow> ('c cluster \<times> 'w \<times> (bytes \<times> int) option) run" where
  "cluster_config_get lk cc config_name w =
     run_then (node_get_witch_connected lk cc w) (\<lambda>(cc, w, node).
       case node of
         None \<Rightarrow> Done (cluster_error_set cc REDIS_ERR_OTHER ''no reachable node in cluster'', w, None)
       | Some n \<Rightarrow>
           (case ctx_get_by_node lk cc n w of
              (cc, w, None) \<Rightarrow> Undefined
            | (cc, w, Some c) \<Rightarrow>
                run_then (node_command lk cc n c (''config get '' @ config_name) w) (\<lambda>(cc, w, _, reply).
                  run_then (config_value config_name reply) (\<lambda>v.
                    Done (case v of
                      Inl e \<Rightarrow> (cluster_error_set cc REDIS_ERR_OTHER e, w, None)
                    | Inr x \<Rightarrow> (cc, w, Some x))))))"

text \<open>The slot of the last key of a command; nothing calls this function.\<close>

definition slot_get_by_command :: "heap \<Rightarrow> u64 \<Rightarrow> 'c cluster \<Rightarrow> bytes \<Rightarrow> int \<Rightarrow> ('c cluster \<times> int) run" where
  "slot_get_by_command mem cmd_id cc cmd len =
     (if len \<le> 0 then Done (cc, -1)
      else case new_command (allocates mem) cmd_id of
        None \<Rightarrow> Done (cluster_error_set cc REDIS_ERR_OOM ''Out of memory'', -1)
      | Some (command, _) \<Rightarrow>
          (case redis_parse_cmd (allocates mem) (command\<lparr>c_cmd := cmd, c_clen := word_of_int len\<rparr>) of
             None \<Rightarrow> Undefined
           | Some c \<Rightarrow>
               if c_result c \<noteq> CMD_PARSE_OK then Done (cluster_error_set cc REDIS_ERR_PROTOCOL ''parse command error'', -1)
               else if sint (hiarray_n (c_keys c)) \<le> 0 then
                 Done (cluster_error_set cc REDIS_ERR_OTHER ''no keys in command(must have keys for redis cluster mode)'', -1)
               else Done (cc, int (slot_of c (the (hiarray_get (c_keys c) (hiarray_n (c_keys c) - 1)))))))"

section \<open>The context\<close>

text \<open>A command on its way: what is sent again, and the user's callback.\<close>

record cluster_async_data =
  cad_command :: cmd
  cad_callback :: nat
  cad_privdata :: nat
  cad_retry_count :: int

text \<open>The fields \<open>acon\<close> and \<open>failure_count\<close> of the nodes are maps from nodes, the field \<open>data\<close> of an
  asynchronous connection a map from connections.\<close>

record 'c acluster =
  ca_cc :: "'c cluster"
  ca_err :: int
  ca_errstr :: bytes
  ca_onConnect :: "nat option"
  ca_onDisconnect :: "nat option"
  ca_acon :: "nat \<Rightarrow> nat option"
  ca_data :: "nat \<Rightarrow> nat option"
  ca_failures :: "nat \<Rightarrow> int"
  ca_update_time :: int

text \<open>\<open>redisAsyncConnect\<close> with the attachment to the event loop; setting the two callbacks; the errors of the
  connection and of the context in it; \<open>redisAsyncFormattedCommand\<close> with the callback of this file,
  \<open>redisAsyncCommand\<close> without one; \<open>redisAsyncDisconnect\<close>; \<open>redisAsyncFree\<close>, which runs the callbacks that
  wait on the connection; and the clock.\<close>

record ('c, 'w) alink =
  al_connect :: "bytes \<Rightarrow> int \<Rightarrow> 'w \<Rightarrow> nat option \<times> 'w"
  al_on_connect :: "nat \<Rightarrow> nat \<Rightarrow> 'w \<Rightarrow> 'w"
  al_on_disconnect :: "nat \<Rightarrow> nat \<Rightarrow> 'w \<Rightarrow> 'w"
  al_c_err :: "nat \<Rightarrow> 'w \<Rightarrow> int"
  al_err :: "nat \<Rightarrow> 'w \<Rightarrow> int"
  al_errstr :: "nat \<Rightarrow> 'w \<Rightarrow> bytes"
  al_send :: "nat \<Rightarrow> cluster_async_data \<Rightarrow> bytes \<Rightarrow> 'w \<Rightarrow> ('w \<times> bool) run"
  al_command :: "nat \<Rightarrow> bytes \<Rightarrow> 'w \<Rightarrow> ('w \<times> bool) run"
  al_disconnect :: "nat \<Rightarrow> 'w \<Rightarrow> 'w"
  al_free :: "nat \<Rightarrow> 'c acluster \<Rightarrow> 'w \<Rightarrow> ('c acluster \<times> 'w) run"
  al_now :: "'w \<Rightarrow> int \<times> 'w"

type_synonym ('c, 'w) user = "nat \<Rightarrow> nat \<Rightarrow> rtree option \<Rightarrow> 'c acluster \<Rightarrow> 'w \<Rightarrow> ('c acluster \<times> 'w) run"

definition async_error_set :: "'c acluster \<Rightarrow> int \<Rightarrow> bytes \<Rightarrow> 'c acluster" where
  "async_error_set acc ty str = acc\<lparr>ca_err := ty, ca_errstr := take 127 (cstr str)\<rparr>"

text \<open>The error of the context below.\<close>

definition async_error_of_cluster :: "'c acluster \<Rightarrow> 'c acluster" where
  "async_error_of_cluster acc = async_error_set acc (cc_err (ca_cc acc)) (cc_errstr (ca_cc acc))"

text \<open>\<open>sizeof(redisClusterAsyncContext)\<close> is 184.\<close>

definition redisClusterAsyncConnect ::
    "heap \<Rightarrow> ('c, 'w) link \<Rightarrow> bytes \<Rightarrow> 32 word \<Rightarrow> 'w \<Rightarrow> ('c acluster option \<times> 'w) run" where
  "redisClusterAsyncConnect mem lk addrs flags w =
     run_then (redisClusterConnectNonBlock mem lk addrs flags w) (\<lambda>(cc, w).
       case cc of
         None \<Rightarrow> Done (None, w)
       | Some cc \<Rightarrow>
           Done (if mem 184 = None then None
                 else Some \<lparr>ca_cc = cc, ca_err = cc_err cc, ca_errstr = cc_errstr cc, ca_onConnect = None, ca_onDisconnect = None,
                   ca_acon = (\<lambda>_. None), ca_data = (\<lambda>_. None), ca_failures = (\<lambda>_. 0), ca_update_time = 0\<rparr>, w))"

definition redisClusterAsyncSetConnectCallback :: "'c acluster \<Rightarrow> nat \<Rightarrow> 'c acluster \<times> bool" where
  "redisClusterAsyncSetConnectCallback acc fn =
     (if ca_onConnect acc = None then (acc\<lparr>ca_onConnect := Some fn\<rparr>, True) else (acc, False))"

definition redisClusterAsyncSetDisconnectCallback :: "'c acluster \<Rightarrow> nat \<Rightarrow> 'c acluster \<times> bool" where
  "redisClusterAsyncSetDisconnectCallback acc fn =
     (if ca_onDisconnect acc = None then (acc\<lparr>ca_onDisconnect := Some fn\<rparr>, True) else (acc, False))"

definition unlinkAsyncContextAndNode :: "nat \<Rightarrow> 'c acluster \<Rightarrow> 'c acluster" where
  "unlinkAsyncContextAndNode ac acc =
     (case ca_data acc ac of None \<Rightarrow> acc | Some n \<Rightarrow> acc\<lparr>ca_acon := (ca_acon acc)(n := None)\<rparr>)"

section \<open>Connections of nodes\<close>

definition actx_get_by_node :: "('c, 'w) alink \<Rightarrow> 'c acluster \<Rightarrow> nat \<Rightarrow> 'w \<Rightarrow> ('c acluster \<times> 'w \<times> nat option) run" where
  "actx_get_by_node al acc n w =
     (case ca_acon acc n of
        Some ac \<Rightarrow> if al_c_err al ac w = 0 then Done (acc, w, Some ac) else Undefined
      | None \<Rightarrow>
          let node = cc_heap (ca_cc acc) ! n; failed = async_error_set acc REDIS_ERR_OTHER ''node host or port is error'' in
          (case nd_host node of
             None \<Rightarrow> Done (failed, w, None)
           | Some host \<Rightarrow>
               if nd_port node \<le> 0 then Done (failed, w, None)
               else (case al_connect al host (nd_port node) w of
                 (None, w) \<Rightarrow> Done (failed, w, None)
               | (Some ac, w) \<Rightarrow>
                   let w = (case ca_onConnect acc of None \<Rightarrow> w | Some fn \<Rightarrow> al_on_connect al ac fn w);
                       w = (case ca_onDisconnect acc of None \<Rightarrow> w | Some fn \<Rightarrow> al_on_disconnect al ac fn w)
                   in Done (acc\<lparr>ca_acon := (ca_acon acc)(n := Some ac), ca_data := (ca_data acc)(ac := Some n)\<rparr>, w, Some ac))))"

text \<open>A connection that is there and has no error; \<open>None\<close> when an error has been set.\<close>

definition usable_actx :: "('c, 'w) alink \<Rightarrow> 'c acluster \<Rightarrow> nat \<Rightarrow> 'w \<Rightarrow> ('c acluster \<times> 'w \<times> nat option) run" where
  "usable_actx al acc n w =
     run_then (actx_get_by_node al acc n w) (\<lambda>(acc, w, ac).
       case ac of
         None \<Rightarrow> Done (async_error_set acc REDIS_ERR_OTHER ''actx get by node error'', w, None)
       | Some ac \<Rightarrow>
           if al_err al ac w \<noteq> 0 then Done (async_error_set acc (al_err al ac w) (al_errstr al ac w), w, None)
           else Done (acc, w, Some ac))"

text \<open>When the table of the nodes is replaced, the asynchronous connections of the old nodes go to the new
  nodes with the same address; those that are left are freed with their nodes. (The code frees them just
  before the new table is in place, here it is there already.)\<close>

fun swap_actx :: "node_dict \<Rightarrow> nat list \<Rightarrow> 'c acluster \<Rightarrow> 'c acluster" where
  "swap_actx nodes_f [] acc = acc"
| "swap_actx nodes_f (t # ts) acc =
     (case dictFind nodes_f (nd_addr (cc_heap (ca_cc acc) ! t)) of
        None \<Rightarrow> swap_actx nodes_f ts acc
      | Some (_, f) \<Rightarrow>
          (case ca_acon acc f of
             None \<Rightarrow> swap_actx nodes_f ts acc
           | Some ac \<Rightarrow>
               let old = ca_acon acc t;
                   acc = acc\<lparr>ca_acon := (ca_acon acc)(f := old, t := Some ac), ca_data := (ca_data acc)(ac := Some t)\<rparr>
               in swap_actx nodes_f ts (case old of None \<Rightarrow> acc | Some b \<Rightarrow> acc\<lparr>ca_data := (ca_data acc)(b := Some f)\<rparr>)))"

fun release_actx :: "('c, 'w) alink \<Rightarrow> nat list \<Rightarrow> 'c acluster \<Rightarrow> 'w \<Rightarrow> ('c acluster \<times> 'w) run" where
  "release_actx al [] acc w = Done (acc, w)"
| "release_actx al (n # ns) acc w =
     (case ca_acon acc n of
        None \<Rightarrow> release_actx al ns acc w
      | Some ac \<Rightarrow> run_then (al_free al ac acc w) (\<lambda>(acc, w). release_actx al ns acc w))"

definition update_route_async ::
    "heap \<Rightarrow> ('c, 'w) link \<Rightarrow> ('c, 'w) alink \<Rightarrow> 'c acluster \<Rightarrow> 'w \<Rightarrow> ('c acluster \<times> 'w \<times> bool) run" where
  "update_route_async mem lk al acc w =
     run_then (cluster_update_route mem lk (ca_cc acc) w) (\<lambda>(cc, w, ok).
       case (cc_nodes (ca_cc acc), cc_nodes cc) of
         (Some nodes_f, Some nodes_t) \<Rightarrow>
           if cc_route_version cc = cc_route_version (ca_cc acc) then Done (acc\<lparr>ca_cc := cc\<rparr>, w, ok)
           else run_then (release_actx al (map snd (dict_entries nodes_f))
                  (swap_actx nodes_f (map snd (dict_entries nodes_t)) (acc\<lparr>ca_cc := cc\<rparr>)) w) (\<lambda>(acc, w). Done (acc, w, ok))
       | _ \<Rightarrow> Done (acc\<lparr>ca_cc := cc\<rparr>, w, ok))"

definition actx_get_after_update_route_by_slot ::
    "heap \<Rightarrow> ('c, 'w) link \<Rightarrow> ('c, 'w) alink \<Rightarrow> 'c acluster \<Rightarrow> int \<Rightarrow> 'w \<Rightarrow> ('c acluster \<times> 'w \<times> nat option) run" where
  "actx_get_after_update_route_by_slot mem lk al acc slot_num w =
     (if slot_num < 0 then Done (acc, w, None)
      else run_then (update_route_async mem lk al acc w) (\<lambda>(acc, w, ok).
        if \<not> ok then
          Done (async_error_set acc REDIS_ERR_OTHER ''route update error, please recreate redisClusterContext!'', w, None)
        else case node_get_by_table (ca_cc acc) (word_of_int slot_num) of
          None \<Rightarrow> Done (async_error_set acc REDIS_ERR_OTHER ''node get by table error'', w, None)
        | Some n \<Rightarrow> usable_actx al acc n w))"

section \<open>The callback\<close>

text \<open>A reply that is NULL. After enough of them from a node the route is to be updated when the time-out
  of the nodes has passed.\<close>

definition plan_update :: "('c, 'w) link \<Rightarrow> ('c, 'w) alink \<Rightarrow> 'c acluster \<Rightarrow> 'w \<Rightarrow> ('c acluster \<times> 'w) run" where
  "plan_update lk al acc w =
     run_then (cluster_config_get lk (ca_cc acc) ''cluster-node-timeout'' w) (\<lambda>(cc, w, text).
       let acc = acc\<lparr>ca_cc := cc\<rparr> in
       case text of
         None \<Rightarrow> Done (async_error_of_cluster acc, w)
       | Some (t, len) \<Rightarrow>
           let timeout = hi_atoi t (nat len) in
           if timeout \<le> 0 then Done (async_error_set acc REDIS_ERR_OTHER ''cluster_timeout_str convert to integer error'', w)
           else case al_now al w of (now, w) \<Rightarrow>
             if now < 0 then Done (async_error_set acc REDIS_ERR_OTHER ''get now usec time error'', w)
             else Done (acc\<lparr>ca_update_time := now + timeout * 1000\<rparr>, w))"

definition no_answer ::
    "heap \<Rightarrow> ('c, 'w) link \<Rightarrow> ('c, 'w) alink \<Rightarrow> 'c acluster \<Rightarrow> nat \<Rightarrow> 'w \<Rightarrow> ('c acluster \<times> 'w) run" where
  "no_answer mem lk al acc ac w =
     (case ca_data acc ac of
        None \<Rightarrow> Undefined
      | Some n \<Rightarrow>
          let acc = async_error_set acc (al_err al ac w) (al_errstr al ac w) in
          if ca_update_time acc \<noteq> 0 then
            (case al_now al w of (now, w) \<Rightarrow>
               if now \<ge> ca_update_time acc then
                 run_then (update_route_async mem lk al acc w) (\<lambda>(acc, w, ok).
                   let acc = (if ok then acc
                              else async_error_set acc REDIS_ERR_OTHER ''route update error, please recreate redisClusterContext!'')
                   in Done (acc\<lparr>ca_update_time := 0\<rparr>, w))
               else Done (acc, w))
          else
            let count = ca_failures acc n + 1; acc = acc\<lparr>ca_failures := (ca_failures acc)(n := count)\<rparr> in
            if count > cc_max_redirect_count (ca_cc acc) then plan_update lk al (acc\<lparr>ca_failures := (ca_failures acc)(n := 0)\<rparr>) w
            else Done (acc, w))"

text \<open>Where the function goes on: at \<open>done\<close>, at \<open>retry\<close> with a connection, or at \<open>error\<close>.\<close>

datatype async_next = To_done | To_retry nat | To_error

definition async_redirect ::
    "heap \<Rightarrow> ('c, 'w) link \<Rightarrow> ('c, 'w) alink \<Rightarrow> 'c acluster \<Rightarrow> nat \<Rightarrow> cluster_async_data \<Rightarrow> rtree \<Rightarrow> 'w \<Rightarrow> ('c acluster \<times> 'w \<times> async_next) run" where
  "async_redirect mem lk al acc ac cad reply w =
     (case cluster_reply_error_type reply of
        CLUSTER_ERR_MOVED \<Rightarrow>
          run_then (actx_get_after_update_route_by_slot mem lk al acc (c_slot_num (cad_command cad)) w) (\<lambda>(acc, w, ac).
            Done (acc, w, case ac of None \<Rightarrow> To_done | Some ac \<Rightarrow> To_retry ac))
      | CLUSTER_ERR_ASK \<Rightarrow>
          run_then (node_get_by_ask_error_reply mem (ca_cc acc) reply) (\<lambda>(cc, node).
            let acc = acc\<lparr>ca_cc := cc\<rparr> in
            case node of
              None \<Rightarrow> Done (async_error_of_cluster acc, w, To_done)
            | Some n \<Rightarrow>
                run_then (usable_actx al acc n w) (\<lambda>(acc, w, ac).
                  case ac of
                    None \<Rightarrow> Done (acc, w, To_done)
                  | Some ac \<Rightarrow>
                      run_then (al_command al ac REDIS_COMMAND_ASKING w) (\<lambda>(w, ok).
                        Done (acc, w, if ok then To_retry ac else To_error))))
      | _ \<Rightarrow> Done (acc, w, To_retry ac))"

definition clear_errors :: "'c acluster \<Rightarrow> 'c acluster" where
  "clear_errors acc =
     (let acc = (if cc_err (ca_cc acc) \<noteq> 0 then acc\<lparr>ca_cc := (ca_cc acc)\<lparr>cc_err := 0, cc_errstr := []\<rparr>\<rparr> else acc)
      in if ca_err acc \<noteq> 0 then acc\<lparr>ca_err := 0, ca_errstr := []\<rparr> else acc)"

definition tell_user :: "('c, 'w) user \<Rightarrow> cluster_async_data \<Rightarrow> rtree option \<Rightarrow> 'c acluster \<Rightarrow> 'w \<Rightarrow> ('c acluster \<times> 'w) run" where
  "tell_user user cad reply acc w =
     run_then (user (cad_callback cad) (cad_privdata cad) (if ca_err acc \<noteq> 0 then None else reply) acc w)
       (\<lambda>(acc, w). Done (clear_errors acc, w))"

text \<open>The last component is what the command is waiting with, if it has been sent again.\<close>

definition redisClusterAsyncCallback ::
    "heap \<Rightarrow> ('c, 'w) link \<Rightarrow> ('c, 'w) alink \<Rightarrow> ('c, 'w) user \<Rightarrow> nat \<Rightarrow> rtree option \<Rightarrow> cluster_async_data \<Rightarrow> 'c acluster \<Rightarrow> 'w
      \<Rightarrow> ('c acluster \<times> 'w \<times> cluster_async_data option) run" where
  "redisClusterAsyncCallback mem lk al user ac reply cad acc w =
     (let finish = (\<lambda>cad acc w. run_then (tell_user user cad reply acc w) (\<lambda>(acc, w). Done (acc, w, None))) in
      case reply of
        None \<Rightarrow> run_then (no_answer mem lk al acc ac w) (\<lambda>(acc, w). finish cad acc w)
      | Some r \<Rightarrow>
          let error_type = cluster_reply_error_type r in
          if error_type = CLUSTER_NOT_ERR \<or> error_type = CLUSTER_ERR_SENTINEL then finish cad acc w
          else
            let cad = cad\<lparr>cad_retry_count := cad_retry_count cad + 1\<rparr> in
            if cad_retry_count cad > cc_max_redirect_count (ca_cc acc) then
              finish (cad\<lparr>cad_retry_count := 0\<rparr>)
                (async_error_set acc REDIS_ERR_CLUSTER_TOO_MANY_REDIRECT ''too many cluster redirect'') w
            else run_then (async_redirect mem lk al acc ac cad r w) (\<lambda>(acc, w, next).
              case next of
                To_done \<Rightarrow> finish cad acc w
              | To_error \<Rightarrow> Done (acc, w, None)
              | To_retry ac \<Rightarrow>
                  run_then (al_send al ac cad (take (unat (c_clen (cad_command cad))) (c_cmd (cad_command cad))) w) (\<lambda>(w, ok).
                    Done (acc, w, if ok then Some cad else None))))"

section \<open>Commands\<close>

definition redisClusterAsyncFormattedCommand ::
    "heap \<Rightarrow> bytes \<Rightarrow> u64 \<Rightarrow> ('c, 'w) alink \<Rightarrow> 'c acluster \<Rightarrow> nat \<Rightarrow> nat \<Rightarrow> bytes \<Rightarrow> int \<Rightarrow> 'w \<Rightarrow> ('c acluster \<times> 'w \<times> bool) run" where
  "redisClusterAsyncFormattedCommand mem num cmd_id al acc fn privdata cmd len w =
     (let acc = clear_errors acc; failed = (\<lambda>ty str. Done (async_error_set acc ty str, w, False)) in
      case new_command (allocates mem) cmd_id of
        None \<Rightarrow> failed REDIS_ERR_OOM ''Out of memory''
      | Some (command, cmd_id) \<Rightarrow>
          if mem (to_size len) = None \<or> mem 48 = None then failed REDIS_ERR_OOM ''Out of memory''
          else case command_format_by_slot (allocates mem) num cmd_id (command\<lparr>c_cmd := cmd, c_clen := word_of_int len\<rparr>) of
            None \<Rightarrow> Undefined
          | Some s \<Rightarrow>
              let acc = acc\<lparr>ca_cc := error_left (sp_error s) (ca_cc acc)\<rparr> in
              if sp_slot s < 0 then Done (async_error_of_cluster acc, w, False)
              else if sp_slot s \<ge> int REDIS_CLUSTER_SLOTS then
                Done (async_error_set acc REDIS_ERR_OTHER ''slot_num is out of range'', w, False)
              else if length (sp_commands s) = 1 then Undefined
              else if sp_commands s \<noteq> [] then
                Done (async_error_set acc REDIS_ERR_OTHER ''Asynchronous API now not support multi-key command'', w, False)
              else case node_get_by_table (ca_cc acc) (word_of_int (sp_slot s)) of
                None \<Rightarrow> Done (async_error_set acc REDIS_ERR_OTHER ''node get by table error'', w, False)
              | Some n \<Rightarrow>
                  run_then (usable_actx al acc n w) (\<lambda>(acc, w, ac).
                    case ac of
                      None \<Rightarrow> Done (acc, w, False)
                    | Some ac \<Rightarrow>
                        if mem 40 = None then Done (async_error_set acc REDIS_ERR_OOM ''Out of memory'', w, False)
                        else
                          let cad = \<lparr>cad_command = sp_command s, cad_callback = fn, cad_privdata = privdata, cad_retry_count = 0\<rparr>
                          in run_then (al_send al ac cad cmd w) (\<lambda>(w, ok). Done (acc, w, ok))))"

definition redisClustervAsyncCommand ::
    "heap \<Rightarrow> (bytes \<Rightarrow> vararg \<Rightarrow> bytes) \<Rightarrow> bytes \<Rightarrow> u64 \<Rightarrow> ('c, 'w) alink \<Rightarrow> 'c acluster \<Rightarrow> nat \<Rightarrow> nat \<Rightarrow> bytes \<Rightarrow> vararg list \<Rightarrow> 'w
      \<Rightarrow> ('c acluster \<times> 'w \<times> bool) run" where
  "redisClustervAsyncCommand mem pf num cmd_id al acc fn privdata format ap w =
     (case redisvFormatCommand mem pf True format ap of
        None \<Rightarrow> Undefined
      | Some (len, cmd) \<Rightarrow>
          if len = -1 then Done (async_error_set acc REDIS_ERR_OOM ''Out of memory'', w, False)
          else if len = -2 then Done (async_error_set acc REDIS_ERR_OTHER ''Invalid format string'', w, False)
          else (case cmd of
                  None \<Rightarrow> Undefined
                | Some t \<Rightarrow> redisClusterAsyncFormattedCommand mem num cmd_id al acc fn privdata (take (nat len) t) len w))"

definition redisClusterAsyncCommandArgv ::
    "heap \<Rightarrow> bytes \<Rightarrow> u64 \<Rightarrow> ('c, 'w) alink \<Rightarrow> 'c acluster \<Rightarrow> nat \<Rightarrow> nat \<Rightarrow> bytes list \<Rightarrow> nat list option \<Rightarrow> 'w
      \<Rightarrow> ('c acluster \<times> 'w \<times> bool) run" where
  "redisClusterAsyncCommandArgv mem num cmd_id al acc fn privdata argv argvlen w =
     (case redisFormatCommandArgv mem True argv argvlen of
        None \<Rightarrow> Undefined
      | Some (len, cmd) \<Rightarrow>
          if len = -1 then Done (async_error_set acc REDIS_ERR_OOM ''Out of memory'', w, False)
          else (case cmd of
                  None \<Rightarrow> Undefined
                | Some t \<Rightarrow> redisClusterAsyncFormattedCommand mem num cmd_id al acc fn privdata (take (nat len) t) len w))"

fun disconnect_nodes :: "('c, 'w) alink \<Rightarrow> nat list \<Rightarrow> 'c acluster \<Rightarrow> 'w \<Rightarrow> 'c acluster \<times> 'w" where
  "disconnect_nodes al [] acc w = (acc, w)"
| "disconnect_nodes al (n # ns) acc w =
     (case ca_acon acc n of
        None \<Rightarrow> disconnect_nodes al ns acc w
      | Some ac \<Rightarrow>
          if al_err al ac w \<noteq> 0 then disconnect_nodes al ns acc w
          else disconnect_nodes al ns (acc\<lparr>ca_acon := (ca_acon acc)(n := None)\<rparr>) (al_disconnect al ac w))"

definition redisClusterAsyncDisconnect :: "('c, 'w) alink \<Rightarrow> 'c acluster \<Rightarrow> 'w \<Rightarrow> 'c acluster \<times> 'w" where
  "redisClusterAsyncDisconnect al acc w =
     (case cc_nodes (ca_cc acc) of None \<Rightarrow> (acc, w) | Some d \<Rightarrow> disconnect_nodes al (map snd (dict_entries d)) acc w)"

end
