(* ===== verification/ClusterAsyncSpec.thy ===== *)
theory ClusterAsyncSpec
  imports ClusterAsync ClusterSpec
begin

text \<open>
  What becomes of a command of the asynchronous client of a cluster: while the server asks to try
  again it is sent again, and then the user is called, once.
\<close>

text \<open>The replies that arrive for a command on its connection, until it waits for no more.\<close>

fun replies_arrive ::
    "heap \<Rightarrow> ('c, 'w) link \<Rightarrow> ('c, 'w) alink \<Rightarrow> ('c, 'w) user \<Rightarrow> nat \<Rightarrow> rtree list \<Rightarrow> cluster_async_data \<Rightarrow> 'c acluster \<Rightarrow> 'w
      \<Rightarrow> ('c acluster \<times> 'w \<times> cluster_async_data option) run" where
  "replies_arrive mem lk al user ac [] cad acc w = Done (acc, w, Some cad)"
| "replies_arrive mem lk al user ac (r # rs) cad acc w =
     run_then (redisClusterAsyncCallback mem lk al user ac (Some r) cad acc w) (\<lambda>(acc, w, next).
       case next of None \<Rightarrow> Done (acc, w, None) | Some cad \<Rightarrow> replies_arrive mem lk al user ac rs cad acc w)"

definition accepting :: "('c, 'w) alink \<Rightarrow> nat \<Rightarrow> bool" where
  "accepting al ac \<longleftrightarrow> (\<forall>cad cmd w. \<exists>w'. al_send al ac cad cmd w = Done (w', True))"

definition final :: "rtree \<Rightarrow> bool" where
  "final r \<longleftrightarrow> cluster_reply_error_type r \<in> {CLUSTER_NOT_ERR, CLUSTER_ERR_SENTINEL}"

lemma callback_final:
  "final r \<Longrightarrow> redisClusterAsyncCallback mem lk al user ac (Some r) cad acc w
     = run_then (tell_user user cad (Some r) acc w) (\<lambda>(acc, w). Done (acc, w, None))"
  by (auto simp: redisClusterAsyncCallback_def final_def Let_def)

lemma callback_again:
  assumes "accepting al ac" "try_again R" "cad_retry_count cad < cc_max_redirect_count (ca_cc acc)"
  shows "\<exists>w'. redisClusterAsyncCallback mem lk al user ac (Some (tree_of R)) cad acc w
    = Done (acc, w', Some (cad\<lparr>cad_retry_count := cad_retry_count cad + 1\<rparr>))"
proof -
  let ?cad = "cad\<lparr>cad_retry_count := cad_retry_count cad + 1\<rparr>"
  obtain w' where "al_send al ac ?cad (take (unat (c_clen (cad_command ?cad))) (c_cmd (cad_command ?cad))) w = Done (w', True)"
    using assms(1) unfolding accepting_def by blast
  then show ?thesis using assms(2,3) by (auto simp: redisClusterAsyncCallback_def async_redirect_def try_again_def Let_def)
qed

lemma callback_limit:
  assumes "try_again R" "cc_max_redirect_count (ca_cc acc) \<le> cad_retry_count cad"
  shows "redisClusterAsyncCallback mem lk al user ac (Some (tree_of R)) cad acc w
    = run_then (tell_user user (cad\<lparr>cad_retry_count := 0\<rparr>) (Some (tree_of R))
        (async_error_set acc REDIS_ERR_CLUSTER_TOO_MANY_REDIRECT ''too many cluster redirect'') w) (\<lambda>(acc, w). Done (acc, w, None))"
  using assms by (auto simp: redisClusterAsyncCallback_def try_again_def Let_def)

lemma run_then_then: "run_then (run_then m f) g = run_then m (\<lambda>x. run_then (f x) g)"
  by (cases m) simp_all

lemma replies_arrive_end:
  "run_then (run_then m (\<lambda>(acc, w). Done (acc, w, None))) (\<lambda>(acc, w, next).
     case next of None \<Rightarrow> Done (acc, w, None) | Some cad \<Rightarrow> replies_arrive mem lk al user ac rs cad acc w)
   = run_then m (\<lambda>(acc, w). Done (acc, w, None))"
  by (cases m) auto


text \<open>A connection that takes every command.\<close>

definition free_sender :: "('c, 'w) alink" where
  "free_sender = \<lparr>al_connect = \<lambda>_ _ w. (None, w), al_on_connect = \<lambda>_ _ w. w, al_on_disconnect = \<lambda>_ _ w. w, al_c_err = \<lambda>_ _. 0,
     al_err = \<lambda>_ _. 0, al_errstr = \<lambda>_ _. [], al_send = \<lambda>_ _ _ w. Done (w, True), al_command = \<lambda>_ _ w. Done (w, True),
     al_disconnect = \<lambda>_ w. w, al_free = \<lambda>_ acc w. Done (acc, w), al_now = \<lambda>w. (0, w)\<rparr>"

definition sample_cluster_async :: "(redis_context \<times> net) acluster" where
  "sample_cluster_async = \<lparr>ca_cc = sample_cluster (sample_con []) (sample_con []), ca_err = 0, ca_errstr = [], ca_onConnect = None,
     ca_onDisconnect = None, ca_acon = (\<lambda>_. None), ca_data = (\<lambda>_. None), ca_failures = (\<lambda>_. 0), ca_update_time = 0\<rparr>"

definition sample_waiting :: cluster_async_data where
  "sample_waiting = \<lparr>cad_command = fst (the (new_command (\<lambda>_. True) 1)), cad_callback = 1, cad_privdata = 2, cad_retry_count = 0\<rparr>"


end
