(* ===== verification/Adlist.thy ===== *)
theory Adlist
  imports Prelude "HOL-Library.Monad_Syntax"
begin

text \<open>
  The doubly linked lists (\<open>adlist.c\<close>): nodes in a store that maps addresses to nodes, the
  operations as the code has them, with every access through a pointer.

  An operation returns \<open>None\<close> when it follows a null pointer or one to a node that is not there
  (or, in the loops over a damaged list, when it does not return). \<open>new\<close> is \<open>hi_alloc\<close> for a node: the
  address it gives, or none. The functions of the user are fields of the list, as in the code;
  \<open>free\<close> acts on a state of the user.
\<close>

section \<open>Model\<close>

definition AL_START_HEAD :: int where "AL_START_HEAD = 0"
definition AL_START_TAIL :: int where "AL_START_TAIL = 1"

record 'v list_node =
  ln_prev :: "nat option"
  ln_next :: "nat option"
  ln_value :: 'v

type_synonym 'v node_store = "nat \<rightharpoonup> 'v list_node"

record list_iter =
  li_next :: "nat option"
  li_direction :: int

record ('v, 'w) hilist =
  hl_head :: "nat option"
  hl_tail :: "nat option"
  hl_dup :: "('v \<Rightarrow> 'v option) option"
  hl_free :: "('v \<Rightarrow> 'w \<Rightarrow> 'w) option"
  hl_match :: "('v \<Rightarrow> 'v \<Rightarrow> bool) option"
  hl_len :: nat

text \<open>Access through a pointer.\<close>

definition node_at :: "'v node_store \<Rightarrow> nat option \<Rightarrow> 'v list_node option" where
  "node_at s p = Option.bind p s"

definition set_prev :: "nat option \<Rightarrow> nat option \<Rightarrow> 'v node_store \<Rightarrow> 'v node_store option" where
  "set_prev p q s = do { a \<leftarrow> p; n \<leftarrow> s a; Some (s(a \<mapsto> n\<lparr>ln_prev := q\<rparr>)) }"

definition set_next :: "nat option \<Rightarrow> nat option \<Rightarrow> 'v node_store \<Rightarrow> 'v node_store option" where
  "set_next p q s = do { a \<leftarrow> p; n \<leftarrow> s a; Some (s(a \<mapsto> n\<lparr>ln_next := q\<rparr>)) }"

text \<open>The length is an \<open>unsigned long\<close>.\<close>

definition one_more :: "('v, 'w) hilist \<Rightarrow> ('v, 'w) hilist" where
  "one_more l = l\<lparr>hl_len := (hl_len l + 1) mod 2 ^ 64\<rparr>"

definition one_less :: "('v, 'w) hilist \<Rightarrow> ('v, 'w) hilist" where
  "one_less l = l\<lparr>hl_len := (hl_len l + (2 ^ 64 - 1)) mod 2 ^ 64\<rparr>"

section \<open>Operations\<close>

definition listCreate :: "(nat \<Rightarrow> bool) \<Rightarrow> ('v, 'w) hilist option" where
  "listCreate mem =
     (if mem 48 then Some \<lparr>hl_head = None, hl_tail = None, hl_dup = None, hl_free = None, hl_match = None, hl_len = 0\<rparr> else None)"

definition hand_back :: "('v \<Rightarrow> 'w \<Rightarrow> 'w) option \<Rightarrow> 'v \<Rightarrow> 'w \<Rightarrow> 'w" where
  "hand_back fr v w = (case fr of None \<Rightarrow> w | Some f \<Rightarrow> f v w)"

fun release_loop :: "('v \<Rightarrow> 'w \<Rightarrow> 'w) option \<Rightarrow> nat \<Rightarrow> nat option \<Rightarrow> 'v node_store \<Rightarrow> 'w \<Rightarrow> ('v node_store \<times> 'w) option" where
  "release_loop fr 0 current s w = Some (s, w)"
| "release_loop fr (Suc len) current s w =
     do { a \<leftarrow> current; n \<leftarrow> s a; release_loop fr len (ln_next n) (s(a := None)) (hand_back fr (ln_value n) w) }"

definition listRelease :: "'v node_store \<Rightarrow> ('v, 'w) hilist \<Rightarrow> 'w \<Rightarrow> ('v node_store \<times> 'w) option" where
  "listRelease s list w = release_loop (hl_free list) (hl_len list) (hl_head list) s w"

text \<open>The last component tells whether the list or NULL is returned.\<close>

definition listAddNodeHead ::
    "('v node_store \<Rightarrow> nat option) \<Rightarrow> 'v node_store \<Rightarrow> ('v, 'w) hilist \<Rightarrow> 'v \<Rightarrow> ('v node_store \<times> ('v, 'w) hilist \<times> bool) option" where
  "listAddNodeHead new s list v =
     (case new s of
        None \<Rightarrow> Some (s, list, False)
      | Some node \<Rightarrow>
          if hl_len list = 0 then
            Some (s(node \<mapsto> \<lparr>ln_prev = None, ln_next = None, ln_value = v\<rparr>),
                  one_more (list\<lparr>hl_head := Some node, hl_tail := Some node\<rparr>), True)
          else do {
            s \<leftarrow> set_prev (hl_head list) (Some node) (s(node \<mapsto> \<lparr>ln_prev = None, ln_next = hl_head list, ln_value = v\<rparr>));
            Some (s, one_more (list\<lparr>hl_head := Some node\<rparr>), True) })"

definition listAddNodeTail ::
    "('v node_store \<Rightarrow> nat option) \<Rightarrow> 'v node_store \<Rightarrow> ('v, 'w) hilist \<Rightarrow> 'v \<Rightarrow> ('v node_store \<times> ('v, 'w) hilist \<times> bool) option" where
  "listAddNodeTail new s list v =
     (case new s of
        None \<Rightarrow> Some (s, list, False)
      | Some node \<Rightarrow>
          if hl_len list = 0 then
            Some (s(node \<mapsto> \<lparr>ln_prev = None, ln_next = None, ln_value = v\<rparr>),
                  one_more (list\<lparr>hl_head := Some node, hl_tail := Some node\<rparr>), True)
          else do {
            s \<leftarrow> set_next (hl_tail list) (Some node) (s(node \<mapsto> \<lparr>ln_prev = hl_tail list, ln_next = None, ln_value = v\<rparr>));
            Some (s, one_more (list\<lparr>hl_tail := Some node\<rparr>), True) })"

text \<open>The new node, with its two pointers, between its neighbours.\<close>

definition hook_in :: "nat \<Rightarrow> nat option \<Rightarrow> nat option \<Rightarrow> 'v node_store \<Rightarrow> 'v node_store option" where
  "hook_in node prev nxt s = do {
     s \<leftarrow> (if prev \<noteq> None then set_next prev (Some node) s else Some s);
     (if nxt \<noteq> None then set_prev nxt (Some node) s else Some s) }"

definition listInsertNode ::
    "('v node_store \<Rightarrow> nat option) \<Rightarrow> 'v node_store \<Rightarrow> ('v, 'w) hilist \<Rightarrow> nat option \<Rightarrow> 'v \<Rightarrow> bool
      \<Rightarrow> ('v node_store \<times> ('v, 'w) hilist \<times> bool) option" where
  "listInsertNode new s list old_node v after =
     (case new s of
        None \<Rightarrow> Some (s, list, False)
      | Some node \<Rightarrow> do {
          old \<leftarrow> node_at s old_node;
          (if after then do {
             s \<leftarrow> hook_in node old_node (ln_next old) (s(node \<mapsto> \<lparr>ln_prev = old_node, ln_next = ln_next old, ln_value = v\<rparr>));
             Some (s, one_more (if hl_tail list = old_node then list\<lparr>hl_tail := Some node\<rparr> else list), True) }
           else do {
             s \<leftarrow> hook_in node (ln_prev old) old_node (s(node \<mapsto> \<lparr>ln_prev = ln_prev old, ln_next = old_node, ln_value = v\<rparr>));
             Some (s, one_more (if hl_head list = old_node then list\<lparr>hl_head := Some node\<rparr> else list), True) }) })"

definition listDelNode ::
    "'v node_store \<Rightarrow> ('v, 'w) hilist \<Rightarrow> nat option \<Rightarrow> 'w \<Rightarrow> ('v node_store \<times> ('v, 'w) hilist \<times> 'w) option" where
  "listDelNode s list node w = do {
     a \<leftarrow> node;
     n \<leftarrow> s a;
     (s, list) \<leftarrow> (if ln_prev n \<noteq> None then do { s \<leftarrow> set_next (ln_prev n) (ln_next n) s; Some (s, list) }
                   else Some (s, list\<lparr>hl_head := ln_next n\<rparr>));
     n \<leftarrow> s a;
     (s, list) \<leftarrow> (if ln_next n \<noteq> None then do { s \<leftarrow> set_prev (ln_next n) (ln_prev n) s; Some (s, list) }
                   else Some (s, list\<lparr>hl_tail := ln_prev n\<rparr>));
     n \<leftarrow> s a;
     Some (s(a := None), one_less list, hand_back (hl_free list) (ln_value n) w) }"

definition listGetIterator :: "(nat \<Rightarrow> bool) \<Rightarrow> ('v, 'w) hilist \<Rightarrow> int \<Rightarrow> list_iter option" where
  "listGetIterator mem list direction =
     (if mem 16 then Some \<lparr>li_next = (if direction = AL_START_HEAD then hl_head list else hl_tail list), li_direction = direction\<rparr>
      else None)"

definition listRewind :: "('v, 'w) hilist \<Rightarrow> list_iter" where
  "listRewind list = \<lparr>li_next = hl_head list, li_direction = AL_START_HEAD\<rparr>"

definition listRewindTail :: "('v, 'w) hilist \<Rightarrow> list_iter" where
  "listRewindTail list = \<lparr>li_next = hl_tail list, li_direction = AL_START_TAIL\<rparr>"

definition listNext :: "'v node_store \<Rightarrow> list_iter \<Rightarrow> (nat option \<times> list_iter) option" where
  "listNext s iter =
     (case li_next iter of
        None \<Rightarrow> Some (None, iter)
      | Some a \<Rightarrow> do {
          n \<leftarrow> s a;
          Some (Some a, iter\<lparr>li_next := (if li_direction iter = AL_START_HEAD then ln_next n else ln_prev n)\<rparr>) })"

partial_function (option) dup_loop ::
    "('v node_store \<Rightarrow> nat option) \<Rightarrow> 'v node_store \<Rightarrow> ('v, 'w) hilist \<Rightarrow> list_iter \<Rightarrow> 'w \<Rightarrow> ('v node_store \<times> ('v, 'w) hilist option \<times> 'w) option" where
  "dup_loop new s copy iter w = do {
     (node, iter) \<leftarrow> listNext s iter;
     (case node of
        None \<Rightarrow> Some (s, Some copy, w)
      | Some a \<Rightarrow> do {
          n \<leftarrow> s a;
          (case (case hl_dup copy of None \<Rightarrow> Some (ln_value n) | Some f \<Rightarrow> f (ln_value n)) of
             None \<Rightarrow> do { (s, w) \<leftarrow> listRelease s copy w; Some (s, None, w) }
           | Some v \<Rightarrow> do {
               (s, copy, ok) \<leftarrow> listAddNodeTail new s copy v;
               (if ok then dup_loop new s copy iter w
                else do { (s, w) \<leftarrow> listRelease s copy w; Some (s, None, w) }) }) }) }"

text \<open>The iterator is not checked here and in \<open>listSearchKey\<close>.\<close>

definition listDup ::
    "(nat \<Rightarrow> bool) \<Rightarrow> ('v node_store \<Rightarrow> nat option) \<Rightarrow> 'v node_store \<Rightarrow> ('v, 'w) hilist \<Rightarrow> 'w
      \<Rightarrow> ('v node_store \<times> ('v, 'w) hilist option \<times> 'w) option" where
  "listDup mem new s orig w =
     (case listCreate mem of
        None \<Rightarrow> Some (s, None, w)
      | Some copy \<Rightarrow> do {
          iter \<leftarrow> listGetIterator mem orig AL_START_HEAD;
          dup_loop new s (copy\<lparr>hl_dup := hl_dup orig, hl_free := hl_free orig, hl_match := hl_match orig\<rparr>) iter w })"

partial_function (option) search_loop :: "'v node_store \<Rightarrow> ('v \<Rightarrow> 'v \<Rightarrow> bool) option \<Rightarrow> 'v \<Rightarrow> list_iter \<Rightarrow> nat option option" where
  "search_loop s match key iter = do {
     (node, iter) \<leftarrow> listNext s iter;
     (case node of
        None \<Rightarrow> Some None
      | Some a \<Rightarrow> do {
          n \<leftarrow> s a;
          (if (case match of Some f \<Rightarrow> f (ln_value n) key | None \<Rightarrow> key = ln_value n) then Some (Some a)
           else search_loop s match key iter) }) }"

definition listSearchKey :: "(nat \<Rightarrow> bool) \<Rightarrow> 'v node_store \<Rightarrow> ('v, 'w) hilist \<Rightarrow> 'v \<Rightarrow> nat option option" where
  "listSearchKey mem s list key = do {
     iter \<leftarrow> listGetIterator mem list AL_START_HEAD;
     search_loop s (hl_match list) key iter }"

fun follow :: "('v list_node \<Rightarrow> nat option) \<Rightarrow> 'v node_store \<Rightarrow> nat \<Rightarrow> nat option \<Rightarrow> nat option option" where
  "follow f s 0 n = Some n"
| "follow f s (Suc i) None = Some None"
| "follow f s (Suc i) (Some a) = do { n \<leftarrow> s a; follow f s i (f n) }"

text \<open>The least \<open>long\<close> has no negation.\<close>

definition listIndex :: "'v node_store \<Rightarrow> ('v, 'w) hilist \<Rightarrow> int \<Rightarrow> nat option option" where
  "listIndex s list index =
     (if index < 0 then (if index = - (2 ^ 63) then None else follow ln_prev s (nat (- index - 1)) (hl_tail list))
      else follow ln_next s (nat index) (hl_head list))"

definition listRotate :: "'v node_store \<Rightarrow> ('v, 'w) hilist \<Rightarrow> ('v node_store \<times> ('v, 'w) hilist) option" where
  "listRotate s list =
     (if hl_len list \<le> 1 then Some (s, list)
      else do {
        n \<leftarrow> node_at s (hl_tail list);
        s \<leftarrow> set_next (ln_prev n) None s;
        s \<leftarrow> set_prev (hl_head list) (hl_tail list) s;
        s \<leftarrow> set_prev (hl_tail list) None s;
        s \<leftarrow> set_next (hl_tail list) (hl_head list) s;
        Some (s, list\<lparr>hl_tail := ln_prev n, hl_head := hl_tail list\<rparr>) })"

end
