(* ===== verification/AdlistSpec.thy ===== *)
theory AdlistSpec
  imports Adlist
begin

text \<open>
  The doubly linked lists are lists: the chain of nodes that a list header stands for, the operations
  as operations on that chain, and a program of operations against the same program on a list of values.
\<close>

section \<open>Chains of nodes\<close>

definition first_of :: "(nat \<times> 'v) list \<Rightarrow> nat option \<Rightarrow> nat option" where
  "first_of xs q = (case xs of [] \<Rightarrow> q | x # _ \<Rightarrow> Some (fst x))"

definition last_of :: "nat option \<Rightarrow> (nat \<times> 'v) list \<Rightarrow> nat option" where
  "last_of p xs = (if xs = [] then p else Some (fst (last xs)))"

lemma first_of_simps [simp]: "first_of [] q = q" "first_of (x # xs) q = Some (fst x)"
  by (simp_all add: first_of_def)

lemma last_of_simps [simp]: "last_of p [] = p" "last_of p (xs @ [x]) = Some (fst x)" "last_of p (x # xs) = last_of (Some (fst x)) xs"
  by (simp_all add: last_of_def)

lemma last_of_append [simp]: "last_of p (xs @ ys) = last_of (last_of p xs) ys"
  by (simp add: last_of_def)

lemma first_of_append [simp]: "first_of (xs @ ys) q = first_of xs (first_of ys q)"
  by (cases xs) simp_all

text \<open>The nodes at the addresses of \<open>xs\<close>, with their values, from a predecessor to a successor.\<close>

fun linked :: "'v node_store \<Rightarrow> nat option \<Rightarrow> (nat \<times> 'v) list \<Rightarrow> nat option \<Rightarrow> bool" where
  "linked s p [] q = True"
| "linked s p (x # xs) q \<longleftrightarrow> s (fst x) = Some \<lparr>ln_prev = p, ln_next = first_of xs q, ln_value = snd x\<rparr> \<and> linked s (Some (fst x)) xs q"

lemma linked_append [simp]: "linked s p (xs @ ys) q \<longleftrightarrow> linked s p xs (first_of ys q) \<and> linked s (last_of p xs) ys q"
  by (induction xs arbitrary: p) auto

lemma linked_cong: "linked s p xs q \<Longrightarrow> \<forall>x\<in>set xs. s' (fst x) = s (fst x) \<Longrightarrow> linked s' p xs q"
  by (induction xs arbitrary: p) auto

lemma linked_live: "linked s p xs q \<Longrightarrow> x \<in> set xs \<Longrightarrow> s (fst x) \<noteq> None"
  by (induction xs arbitrary: p) auto

lemma linked_fresh: "linked s p xs q \<Longrightarrow> s a = None \<Longrightarrow> a \<notin> fst ` set xs"
  using linked_live by fastforce

lemma linked_other: "a \<notin> fst ` set xs \<Longrightarrow> linked (s(a := n)) p xs q \<longleftrightarrow> linked s p xs q"
  by (induction xs arbitrary: p) auto

text \<open>Other nodes stay as they are.\<close>

definition only_at :: "nat set \<Rightarrow> 'v node_store \<Rightarrow> 'v node_store \<Rightarrow> bool" where
  "only_at A s s' \<longleftrightarrow> (\<forall>x. x \<notin> A \<longrightarrow> s' x = s x)"

lemma redirect_next:
  assumes "linked s p xs q" "distinct (map fst xs)" "xs \<noteq> []"
  shows "\<exists>s'. set_next (last_of None xs) q' s = Some s' \<and> linked s' p xs q' \<and> only_at (fst ` set xs) s s'"
proof -
  obtain ys y where [simp]: "xs = ys @ [y]" using assms(3) by (cases xs rule: rev_cases) auto
  then show ?thesis using assms by (auto simp: set_next_def linked_other only_at_def)
qed

lemma redirect_prev:
  assumes "linked s p xs q" "distinct (map fst xs)" "xs \<noteq> []"
  shows "\<exists>s'. set_prev (first_of xs None) p' s = Some s' \<and> linked s' p' xs q \<and> only_at (fst ` set xs) s s'"
  using assms by (cases xs) (auto simp: set_prev_def linked_other only_at_def)

text \<open>What a header stands for.\<close>

definition is_list :: "'v node_store \<Rightarrow> ('v, 'w) hilist \<Rightarrow> (nat \<times> 'v) list \<Rightarrow> bool" where
  "is_list s l xs \<longleftrightarrow> linked s None xs None \<and> distinct (map fst xs) \<and> hl_head l = first_of xs None \<and> hl_tail l = last_of None xs
     \<and> hl_len l = length xs \<and> length xs < 2 ^ 64"

definition methods :: "('v, 'w) hilist \<Rightarrow> ('v \<Rightarrow> 'v option) option \<times> ('v \<Rightarrow> 'w \<Rightarrow> 'w) option \<times> ('v \<Rightarrow> 'v \<Rightarrow> bool) option" where
  "methods l = (hl_dup l, hl_free l, hl_match l)"

lemma methods_simps [simp]: "methods (one_more l) = methods l" "methods (one_less l) = methods l"
    "methods (l\<lparr>hl_head := p\<rparr>) = methods l" "methods (l\<lparr>hl_tail := p\<rparr>) = methods l" "methods (l\<lparr>hl_len := n\<rparr>) = methods l"
  by (simp_all add: methods_def one_more_def one_less_def)

lemma only_at_other: "only_at A s s' \<Longrightarrow> linked s p xs q \<Longrightarrow> fst ` set xs \<inter> A = {} \<Longrightarrow> linked s' p xs q"
  by (rule linked_cong) (auto simp: only_at_def)

lemma list_created: "listCreate mem = Some l \<Longrightarrow> is_list s l [] \<and> methods l = (None, None, None)"
  by (auto simp: listCreate_def is_list_def methods_def split: if_splits)

lemma fresh_node: "is_list s l xs \<Longrightarrow> s a = None \<Longrightarrow> a \<notin> fst ` set xs"
  unfolding is_list_def by (blast dest: linked_fresh)

section \<open>Adding nodes\<close>

lemma add_head_failed: "new s = None \<Longrightarrow> listAddNodeHead new s l v = Some (s, l, False)"
  by (simp add: listAddNodeHead_def)

lemma add_tail_failed: "new s = None \<Longrightarrow> listAddNodeTail new s l v = Some (s, l, False)"
  by (simp add: listAddNodeTail_def)

lemma add_head:
  assumes l: "is_list s l xs" and a: "new s = Some a" "s a = None" and few: "length xs + 1 < 2 ^ 64"
  shows "\<exists>s' l'. listAddNodeHead new s l v = Some (s', l', True) \<and> is_list s' l' ((a, v) # xs) \<and> methods l' = methods l
     \<and> only_at (insert a (fst ` set xs)) s s'"
proof (cases xs)
  case Nil
  then show ?thesis using l a few by (simp add: listAddNodeHead_def is_list_def one_more_def methods_def only_at_def)
next
  case (Cons x xs')
  have n: "a \<notin> fst ` set xs" using l a(2) by (rule fresh_node)
  let ?s = "s(a \<mapsto> \<lparr>ln_prev = None, ln_next = hl_head l, ln_value = v\<rparr>)"
  have k: "linked ?s None xs None" "distinct (map fst xs)" using l n by (simp_all add: is_list_def linked_other)
  from redirect_prev [OF this, of "Some a"] obtain s' where
    s': "set_prev (hl_head l) (Some a) ?s = Some s'" "linked s' (Some a) xs None" "only_at (fst ` set xs) ?s s'"
    using l Cons by (auto simp: is_list_def)
  moreover have "s' a = ?s a" using s'(3) n by (simp add: only_at_def)
  moreover have "only_at (insert a (fst ` set xs)) s s'" using s'(3) by (auto simp: only_at_def)
  ultimately show ?thesis using l a(1) few n Cons by (auto simp: listAddNodeHead_def is_list_def one_more_def methods_def)
qed

lemma add_tail:
  assumes l: "is_list s l xs" and a: "new s = Some a" "s a = None" and few: "length xs + 1 < 2 ^ 64"
  shows "\<exists>s' l'. listAddNodeTail new s l v = Some (s', l', True) \<and> is_list s' l' (xs @ [(a, v)]) \<and> methods l' = methods l
     \<and> only_at (insert a (fst ` set xs)) s s'"
proof (cases xs rule: rev_cases)
  case Nil
  then show ?thesis using l a few by (simp add: listAddNodeTail_def is_list_def one_more_def methods_def only_at_def)
next
  case (snoc xs' x)
  have n: "a \<notin> fst ` set xs" using l a(2) by (rule fresh_node)
  let ?s = "s(a \<mapsto> \<lparr>ln_prev = hl_tail l, ln_next = None, ln_value = v\<rparr>)"
  have k: "linked ?s None xs None" "distinct (map fst xs)" using l n by (simp_all add: is_list_def linked_other)
  from redirect_next [OF this, of "Some a"] obtain s' where
    s': "set_next (hl_tail l) (Some a) ?s = Some s'" "linked s' None xs (Some a)" "only_at (fst ` set xs) ?s s'"
    using l snoc by (auto simp: is_list_def)
  moreover have "s' a = ?s a" using s'(3) n by (simp add: only_at_def)
  moreover have "only_at (insert a (fst ` set xs)) s s'" using s'(3) by (auto simp: only_at_def)
  moreover have "hl_tail l = last_of None xs" "hl_head l = first_of xs None" "hl_len l = length xs" using l by (simp_all add: is_list_def)
  ultimately show ?thesis using l a(1) few n snoc by (auto simp: listAddNodeTail_def is_list_def one_more_def methods_def)
qed

lemma hooked_in:
  assumes l: "linked s None (xs @ ys) None" "distinct (map fst (xs @ ys))" and a: "a \<notin> fst ` set (xs @ ys)"
  shows "\<exists>s'. hook_in a (last_of None xs) (first_of ys None) (s(a \<mapsto> \<lparr>ln_prev = last_of None xs, ln_next = first_of ys None, ln_value = v\<rparr>)) = Some s'
     \<and> linked s' None (xs @ (a, v) # ys) None \<and> only_at (insert a (fst ` set (xs @ ys))) s s'"
proof -
  let ?n = "\<lparr>ln_prev = last_of None xs, ln_next = first_of ys None, ln_value = v\<rparr>"
  let ?s = "s(a \<mapsto> ?n)"
  have k: "linked ?s None xs (first_of ys None)" "linked ?s (last_of None xs) ys None" "distinct (map fst xs)" "distinct (map fst ys)"
    "fst ` set xs \<inter> fst ` set ys = {}" using l a by (simp_all add: linked_other image_Un)
  have "\<exists>s1. (if last_of None xs \<noteq> None then set_next (last_of None xs) (Some a) ?s else Some ?s) = Some s1 \<and> linked s1 None xs (Some a)
      \<and> only_at (fst ` set xs) ?s s1"
  proof (cases "xs = []")
    case False
    then show ?thesis using redirect_next [OF k(1,3) False, of "Some a"] by (auto simp: last_of_def)
  qed (simp add: only_at_def)
  then obtain s1 where s1: "(if last_of None xs \<noteq> None then set_next (last_of None xs) (Some a) ?s else Some ?s) = Some s1"
      "linked s1 None xs (Some a)" "only_at (fst ` set xs) ?s s1" by blast
  have k2: "linked s1 (last_of None xs) ys None" using only_at_other [OF s1(3) k(2)] k(5) by blast
  have "\<exists>s2. (if first_of ys None \<noteq> None then set_prev (first_of ys None) (Some a) s1 else Some s1) = Some s2 \<and> linked s2 (Some a) ys None
      \<and> only_at (fst ` set ys) s1 s2"
  proof (cases ys)
    case (Cons y ys')
    then show ?thesis using redirect_prev [OF k2 k(4), of "Some a"] by auto
  qed (simp add: only_at_def)
  then obtain s2 where s2: "(if first_of ys None \<noteq> None then set_prev (first_of ys None) (Some a) s1 else Some s1) = Some s2"
      "linked s2 (Some a) ys None" "only_at (fst ` set ys) s1 s2" by blast
  have "linked s2 None xs (Some a)" using only_at_other [OF s2(3) s1(2) k(5)] .
  moreover have "s2 a = Some ?n" using a s2(3) s1(3) by (simp add: only_at_def image_Un)
  moreover have "only_at (insert a (fst ` set (xs @ ys))) s s2" using s2(3) s1(3) by (simp add: only_at_def image_Un)
  ultimately show ?thesis using s1(1) s2(1,2) by (auto simp: hook_in_def split: if_splits)
qed

lemma insert_failed: "new s = None \<Longrightarrow> listInsertNode new s l old v after = Some (s, l, False)"
  by (simp add: listInsertNode_def)

lemma insert_at:
  assumes l: "is_list s l (xs @ x # ys)" and a: "new s = Some a" "s a = None" and few: "length (xs @ x # ys) + 1 < 2 ^ 64"
  shows "\<exists>s' l'. listInsertNode new s l (Some (fst x)) v after = Some (s', l', True)
     \<and> is_list s' l' (if after then xs @ x # (a, v) # ys else xs @ (a, v) # x # ys) \<and> methods l' = methods l
     \<and> only_at (insert a (fst ` set (xs @ x # ys))) s s'"
proof -
  have n: "a \<notin> fst ` set (xs @ x # ys)" using l a(2) by (rule fresh_node)
  have k: "linked s None (xs @ x # ys) None" "distinct (map fst (xs @ x # ys))" "hl_head l = first_of (xs @ x # ys) None"
    "hl_tail l = last_of None (xs @ x # ys)" "hl_len l = length (xs @ x # ys)" using l by (simp_all add: is_list_def)
  have old: "s (fst x) = Some \<lparr>ln_prev = last_of None xs, ln_next = first_of ys None, ln_value = snd x\<rparr>" using k(1) by simp
  show ?thesis
  proof (cases after)
    case True
    have "linked s None ((xs @ [x]) @ ys) None" "distinct (map fst ((xs @ [x]) @ ys))" "a \<notin> fst ` set ((xs @ [x]) @ ys)" using k n by simp_all
    from hooked_in [OF this, of v] obtain s' where
      s': "hook_in a (Some (fst x)) (first_of ys None) (s(a \<mapsto> \<lparr>ln_prev = Some (fst x), ln_next = first_of ys None, ln_value = v\<rparr>)) = Some s'"
        "linked s' None (xs @ x # (a, v) # ys) None" "only_at (insert a (fst ` set (xs @ x # ys))) s s'" by auto
    have t: "hl_tail l = Some (fst x) \<longleftrightarrow> ys = []" using k(2,4) by (cases ys rule: rev_cases) auto
    show ?thesis using True a(1) old s' k n few t by (auto simp: listInsertNode_def node_at_def is_list_def one_more_def methods_def last_of_def)
  next
    case False
    from hooked_in [OF k(1,2) n, of v] obtain s' where
      s': "hook_in a (last_of None xs) (Some (fst x)) (s(a \<mapsto> \<lparr>ln_prev = last_of None xs, ln_next = Some (fst x), ln_value = v\<rparr>)) = Some s'"
        "linked s' None (xs @ (a, v) # x # ys) None" "only_at (insert a (fst ` set (xs @ x # ys))) s s'" by auto
    show ?thesis
    proof (cases xs)
      case Nil
      then show ?thesis using False a(1) old s' k n few by (simp add: listInsertNode_def node_at_def is_list_def one_more_def methods_def)
    next
      case (Cons z zs)
      then show ?thesis using False a(1) old s' k n few by (auto simp: listInsertNode_def node_at_def is_list_def one_more_def methods_def)
    qed
  qed
qed

section \<open>Removing and moving nodes\<close>

lemma delete_at:
  assumes l: "is_list s l (xs @ x # ys)"
  shows "\<exists>s' l'. listDelNode s l (Some (fst x)) w = Some (s', l', hand_back (hl_free l) (snd x) w)
     \<and> is_list s' l' (xs @ ys) \<and> methods l' = methods l \<and> only_at (fst ` set (xs @ x # ys)) s s' \<and> s' (fst x) = None"
proof -
  have k: "linked s None xs (Some (fst x))" "linked s (Some (fst x)) ys None" "distinct (map fst xs)" "distinct (map fst ys)"
      "fst ` set xs \<inter> fst ` set ys = {}" "fst x \<notin> fst ` set xs" "fst x \<notin> fst ` set ys"
      "hl_head l = first_of (xs @ x # ys) None" "hl_tail l = last_of None (xs @ x # ys)" "hl_len l = length (xs @ x # ys)"
      "length (xs @ x # ys) < 2 ^ 64" using l by (auto simp: is_list_def)
  let ?n = "\<lparr>ln_prev = last_of None xs, ln_next = first_of ys None, ln_value = snd x\<rparr>"
  have n: "s (fst x) = Some ?n" using l by (simp add: is_list_def)
  have "\<exists>s1 l1. (if last_of None xs \<noteq> None then do { s \<leftarrow> set_next (last_of None xs) (first_of ys None) s; Some (s, l) }
        else Some (s, l\<lparr>hl_head := first_of ys None\<rparr>)) = Some (s1, l1) \<and> linked s1 None xs (first_of ys None) \<and> only_at (fst ` set xs) s s1
      \<and> hl_head l1 = first_of (xs @ ys) None \<and> hl_tail l1 = hl_tail l \<and> hl_len l1 = hl_len l \<and> methods l1 = methods l"
  proof (cases "xs = []")
    case False
    have "last_of None xs = Some (fst (last xs))" "first_of (xs @ ys) None = hl_head l" using False k(8) by (cases xs; simp add: last_of_def)+
    then show ?thesis using redirect_next [OF k(1,3) False, of "first_of ys None"] by auto
  qed (simp add: only_at_def)
  then obtain s1 l1 where s1: "(if last_of None xs \<noteq> None then do { s \<leftarrow> set_next (last_of None xs) (first_of ys None) s; Some (s, l) }
        else Some (s, l\<lparr>hl_head := first_of ys None\<rparr>)) = Some (s1, l1)" "linked s1 None xs (first_of ys None)" "only_at (fst ` set xs) s s1"
      "hl_head l1 = first_of (xs @ ys) None" "hl_tail l1 = hl_tail l" "hl_len l1 = hl_len l" "methods l1 = methods l" by blast
  have n1: "s1 (fst x) = Some ?n" and k2: "linked s1 (Some (fst x)) ys None"
    using n k(6) s1(3) only_at_other [OF s1(3) k(2)] k(5) by (auto simp: only_at_def)
  have "\<exists>s2 l2. (if first_of ys None \<noteq> None then do { s \<leftarrow> set_prev (first_of ys None) (last_of None xs) s1; Some (s, l1) }
        else Some (s1, l1\<lparr>hl_tail := last_of None xs\<rparr>)) = Some (s2, l2) \<and> linked s2 (last_of None xs) ys None \<and> only_at (fst ` set ys) s1 s2
      \<and> hl_head l2 = hl_head l1 \<and> hl_tail l2 = last_of None (xs @ ys) \<and> hl_len l2 = hl_len l \<and> methods l2 = methods l"
  proof (cases ys)
    case (Cons y ys')
    then show ?thesis using redirect_prev [OF k2 k(4), of "last_of None xs"] k(9) s1(5-7) by (auto simp: last_of_def)
  qed (use s1(6,7) in \<open>simp add: only_at_def\<close>)
  then obtain s2 l2 where s2: "(if first_of ys None \<noteq> None then do { s \<leftarrow> set_prev (first_of ys None) (last_of None xs) s1; Some (s, l1) }
        else Some (s1, l1\<lparr>hl_tail := last_of None xs\<rparr>)) = Some (s2, l2)" "linked s2 (last_of None xs) ys None" "only_at (fst ` set ys) s1 s2"
      "hl_head l2 = hl_head l1" "hl_tail l2 = last_of None (xs @ ys)" "hl_len l2 = hl_len l" "methods l2 = methods l" by blast
  have n2: "s2 (fst x) = Some ?n" and k3: "linked s2 None xs (first_of ys None)"
    using n1 k(7) s2(3) only_at_other [OF s2(3) s1(2)] k(5) by (auto simp: only_at_def)
  let ?l = "one_less l2"
  have "listDelNode s l (Some (fst x)) w = Some (s2(fst x := None), ?l, hand_back (hl_free l2) (snd x) w)"
    using n n1 n2 s1(1) s2(1)
    by (cases "last_of None xs"; cases "first_of ys None") (auto simp: listDelNode_def bind_eq_Some_conv)
  moreover have "hl_free l2 = hl_free l" using s2(7) by (simp add: methods_def)
  moreover have "is_list (s2(fst x := None)) ?l (xs @ ys)"
    using k s2 s1(4) k3 by (simp add: is_list_def one_less_def linked_other)
  moreover have "only_at (fst ` set (xs @ x # ys)) s (s2(fst x := None))" using s1(3) s2(3) by (simp add: only_at_def image_Un)
  ultimately show ?thesis using s2(7) by simp
qed

lemma rotate_short: "is_list s l xs \<Longrightarrow> length xs \<le> 1 \<Longrightarrow> listRotate s l = Some (s, l)"
  by (simp add: listRotate_def is_list_def)

lemma rotate:
  assumes l: "is_list s l (x # xs @ [y])"
  shows "\<exists>s' l'. listRotate s l = Some (s', l') \<and> is_list s' l' (y # x # xs) \<and> methods l' = methods l
     \<and> only_at (fst ` set (x # xs @ [y])) s s'"
proof -
  have k: "linked s None (x # xs) (Some (fst y))" "distinct (map fst (x # xs))" "fst y \<notin> fst ` set (x # xs)"
      "hl_head l = Some (fst x)" "hl_tail l = Some (fst y)" "hl_len l = length xs + 2" "length xs + 2 < 2 ^ 64"
      "s (fst y) = Some \<lparr>ln_prev = last_of None (x # xs), ln_next = None, ln_value = snd y\<rparr>"
    using l by (auto simp: is_list_def)
  obtain s1 where s1: "set_next (last_of None (x # xs)) None s = Some s1" "linked s1 None (x # xs) None" "only_at (fst ` set (x # xs)) s s1"
    using redirect_next [OF k(1,2)] by blast
  obtain s2 where s2: "set_prev (Some (fst x)) (Some (fst y)) s1 = Some s2" "linked s2 (Some (fst y)) (x # xs) None"
      "only_at (fst ` set (x # xs)) s1 s2"
    using redirect_prev [OF s1(2) k(2), of "Some (fst y)"] by auto
  have y: "s2 (fst y) = s (fst y)" using k(3) s1(3) s2(3) by (simp add: only_at_def)
  let ?s = "s2(fst y \<mapsto> \<lparr>ln_prev = None, ln_next = Some (fst x), ln_value = snd y\<rparr>)"
  have t: "set_prev (Some (fst y)) None s2 = Some (s2(fst y \<mapsto> \<lparr>ln_prev = None, ln_next = None, ln_value = snd y\<rparr>))"
    "set_next (Some (fst y)) (Some (fst x)) (s2(fst y \<mapsto> \<lparr>ln_prev = None, ln_next = None, ln_value = snd y\<rparr>)) = Some ?s"
    using k(8) y by (simp_all add: set_prev_def set_next_def)
  have "listRotate s l = Some (?s, l\<lparr>hl_tail := last_of None (x # xs), hl_head := Some (fst y)\<rparr>)"
    using k(4-6,8) s1(1) s2(1) t by (simp add: listRotate_def node_at_def)
  moreover have "linked ?s (Some (fst y)) (x # xs) None" using linked_other [OF k(3)] s2(2) by simp
  then have "is_list ?s (l\<lparr>hl_tail := last_of None (x # xs), hl_head := Some (fst y)\<rparr>) (y # x # xs)"
    using k(2,3,6,7) unfolding is_list_def by simp
  moreover have "only_at (fst ` set (x # xs @ [y])) s ?s" using s1(3) s2(3) by (simp add: only_at_def)
  ultimately show ?thesis by (auto simp: methods_def)
qed

section \<open>Reading\<close>

lemma follow_next: "linked s p xs q \<Longrightarrow> i \<le> length xs \<Longrightarrow> follow ln_next s i (first_of xs q) = Some (first_of (drop i xs) q)"
proof (induction xs arbitrary: p i)
  case (Cons x xs)
  then show ?case by (cases i) auto
qed simp

lemma follow_none [simp]: "follow f s i None = Some None"
  by (cases i) simp_all

lemma follow_numeral: "follow f s (numeral k) (Some a) = do { n \<leftarrow> s a; follow f s (pred_numeral k) (f n) }"
  by (simp add: numeral_eq_Suc)

lemma follow_next_end: "linked s p xs None \<Longrightarrow> follow ln_next s i (first_of xs None) = Some (first_of (drop i xs) None)"
proof (induction xs arbitrary: p i)
  case (Cons x xs)
  then show ?case by (cases i) auto
qed simp

lemma follow_prev_end: "linked s None xs q \<Longrightarrow> follow ln_prev s i (last_of None xs) = Some (last_of None (take (length xs - i) xs))"
proof (induction xs arbitrary: q i rule: rev_induct)
  case (snoc x xs)
  then show ?case by (cases i) auto
qed simp

lemma index_of:
  assumes l: "is_list s l xs" and i: "- (2 ^ 63) < i"
  shows "listIndex s l i = Some (let j = (if i < 0 then int (length xs) + i else i) in
      if 0 \<le> j \<and> j < int (length xs) then Some (fst (xs ! nat j)) else None)"
proof -
  have k: "linked s None xs None" "hl_head l = first_of xs None" "hl_tail l = last_of None xs" using l by (simp_all add: is_list_def)
  show ?thesis
  proof (cases "i < 0")
    case True
    have "last_of None (take (length xs - nat (- i - 1)) xs) = (if nat (- i - 1) < length xs then Some (fst (xs ! (length xs - 1 - nat (- i - 1)))) else None)"
      by (simp add: last_of_def last_conv_nth)
    moreover have "nat (int (length xs) + i) = length xs - 1 - nat (- i - 1)" "nat (- i - 1) < length xs \<longleftrightarrow> 0 \<le> int (length xs) + i" using True by auto
    ultimately show ?thesis using True i follow_prev_end [OF k(1), of "nat (- i - 1)"] k(3) by (simp add: listIndex_def Let_def)
  next
    case False
    have "first_of (drop (nat i) xs) None = (if nat i < length xs then Some (fst (xs ! nat i)) else None)"
      by (auto simp: first_of_def Cons_nth_drop_Suc [symmetric] split: list.split)
    then show ?thesis using False i follow_next_end [OF k(1), of "nat i"] k(2) by (auto simp: listIndex_def Let_def)
  qed
qed

text \<open>Iterating, in both directions.\<close>

fun iterate :: "nat \<Rightarrow> 'v node_store \<Rightarrow> list_iter \<Rightarrow> nat list option" where
  "iterate 0 s it = None"
| "iterate (Suc f) s it = do { (n, it) \<leftarrow> listNext s it; (case n of None \<Rightarrow> Some [] | Some a \<Rightarrow> do { as \<leftarrow> iterate f s it; Some (a # as) }) }"

lemma iterate_forward:
  "linked s p xs None \<Longrightarrow> length xs < f \<Longrightarrow> iterate f s \<lparr>li_next = first_of xs None, li_direction = AL_START_HEAD\<rparr> = Some (map fst xs)"
proof (induction xs arbitrary: p f)
  case Nil
  then show ?case by (cases f) (simp_all add: listNext_def)
next
  case (Cons x xs)
  then show ?case by (cases f) (auto simp: listNext_def)
qed

lemma iterate_backward:
  "linked s None xs q \<Longrightarrow> length xs < f \<Longrightarrow> iterate f s \<lparr>li_next = last_of None xs, li_direction = AL_START_TAIL\<rparr> = Some (rev (map fst xs))"
proof (induction xs arbitrary: q f rule: rev_induct)
  case Nil
  then show ?case by (cases f) (simp_all add: listNext_def)
next
  case (snoc x xs)
  then show ?case by (cases f) (auto simp: listNext_def AL_START_HEAD_def AL_START_TAIL_def)
qed

lemma list_search_finds:
  "linked s p xs None \<Longrightarrow> search_loop s m key \<lparr>li_next = first_of xs None, li_direction = AL_START_HEAD\<rparr> =
     Some (map_option fst (find (\<lambda>x. case m of Some f \<Rightarrow> f (snd x) key | None \<Rightarrow> key = snd x) xs))"
proof (induction xs arbitrary: p)
  case Nil
  then show ?case by (subst search_loop.simps) (simp add: listNext_def)
next
  case (Cons x xs)
  then show ?case by (subst search_loop.simps) (auto simp: listNext_def split: option.splits)
qed

lemma search_key:
  assumes "is_list s l xs" "mem 16"
  shows "listSearchKey mem s l key = Some (map_option fst (find (\<lambda>x. case hl_match l of Some f \<Rightarrow> f (snd x) key | None \<Rightarrow> key = snd x) xs))"
  using assms list_search_finds [of s None xs "hl_match l" key] by (simp add: listSearchKey_def listGetIterator_def is_list_def)

lemma release_all:
  "linked s p xs q \<Longrightarrow> distinct (map fst xs) \<Longrightarrow> \<exists>s'. release_loop fr (length xs) (first_of xs q) s w = Some (s', fold (hand_back fr) (map snd xs) w)
     \<and> (\<forall>x\<in>set xs. s' (fst x) = None) \<and> only_at (fst ` set xs) s s'"
proof (induction xs arbitrary: p s w)
  case (Cons x xs)
  let ?s = "s(fst x := None)"
  have "linked ?s (Some (fst x)) xs q" "distinct (map fst xs)" using Cons(2,3) by (auto simp: linked_other)
  from Cons(1) [OF this, of "hand_back fr (snd x) w"] obtain s' where s':
      "release_loop fr (length xs) (first_of xs q) ?s (hand_back fr (snd x) w) = Some (s', fold (hand_back fr) (map snd xs) (hand_back fr (snd x) w))"
      "\<forall>x\<in>set xs. s' (fst x) = None" "only_at (fst ` set xs) ?s s'" by blast
  moreover have "s' (fst x) = None" using s'(3) Cons(3) by (auto simp: only_at_def)
  ultimately show ?case using Cons(2) by (auto simp: only_at_def)
qed (simp add: only_at_def)

lemma released:
  assumes "is_list s l xs"
  shows "\<exists>s'. listRelease s l w = Some (s', fold (hand_back (hl_free l)) (map snd xs) w) \<and> (\<forall>x\<in>set xs. s' (fst x) = None)
     \<and> only_at (fst ` set xs) s s'"
  using assms release_all [of s None xs None "hl_free l" w] by (simp add: listRelease_def is_list_def)

section \<open>Copying\<close>

text \<open>An allocator that hands out addresses that are not in use.\<close>

definition gives_unused :: "('v node_store \<Rightarrow> nat option) \<Rightarrow> bool" where
  "gives_unused new \<longleftrightarrow> (\<forall>s a. new s = Some a \<longrightarrow> s a = None)"

definition copy_of :: "('v \<Rightarrow> 'v option) option \<Rightarrow> 'v \<Rightarrow> 'v option" where
  "copy_of d v = (case d of None \<Rightarrow> Some v | Some f \<Rightarrow> f v)"

text \<open>Either the copies of all values follow in a list of new nodes, or every node of the copy is gone.\<close>

definition dup_outcome where
  "dup_outcome s zs ys d s' res \<longleftrightarrow>
     (case res of
        Some c \<Rightarrow> \<exists>zs'. is_list s' c (zs @ zs') \<and> list_all2 (\<lambda>y z. copy_of d (snd y) = Some (snd z)) ys zs'
            \<and> (\<forall>a. s a \<noteq> None \<and> a \<notin> fst ` set zs \<longrightarrow> s' a = s a)
      | None \<Rightarrow> \<forall>a. s' a = (if a \<in> fst ` set zs then None else s a))"

lemma release_copy:
  assumes "is_list s copy zs"
  shows "\<exists>s' w'. listRelease s copy w = Some (s', w') \<and> (\<forall>a. s' a = (if a \<in> fst ` set zs then None else s a))"
  using released [OF assms, of w] by (force simp: only_at_def)

lemma dup_copies:
  assumes new: "gives_unused new"
  shows "linked s p ys None \<Longrightarrow> is_list s copy zs \<Longrightarrow> fst ` set ys \<inter> fst ` set zs = {} \<Longrightarrow> length zs + length ys < 2 ^ 64 \<Longrightarrow>
    \<exists>s' res w'. dup_loop new s copy \<lparr>li_next = first_of ys None, li_direction = AL_START_HEAD\<rparr> w = Some (s', res, w')
      \<and> dup_outcome s zs ys (hl_dup copy) s' res"
proof (induction ys arbitrary: p s copy zs)
  case Nil
  then show ?case by (subst dup_loop.simps) (auto simp: listNext_def dup_outcome_def)
next
  case (Cons y ys)
  have y: "s (fst y) = Some \<lparr>ln_prev = p, ln_next = first_of ys None, ln_value = snd y\<rparr>" using Cons(2) by simp
  have nx: "listNext s \<lparr>li_next = first_of (y # ys) None, li_direction = AL_START_HEAD\<rparr>
      = Some (Some (fst y), \<lparr>li_next = first_of ys None, li_direction = AL_START_HEAD\<rparr>)" using y by (simp add: listNext_def)
  note step = dup_loop.simps [of new s copy "\<lparr>li_next = first_of (y # ys) None, li_direction = AL_START_HEAD\<rparr>" w, unfolded nx]
  obtain s1 w1 where rel: "listRelease s copy w = Some (s1, w1)" "\<forall>a. s1 a = (if a \<in> fst ` set zs then None else s a)"
    using release_copy [OF Cons(3)] by blast
  show ?case
  proof (cases "copy_of (hl_dup copy) (snd y)")
    case None
    then show ?thesis using y rel step by (auto simp: copy_of_def dup_outcome_def split: option.splits)
  next
    case v: (Some v)
    let ?n = "\<lparr>ln_prev = p, ln_next = first_of ys None, ln_value = snd y\<rparr>"
    have c: "(case hl_dup copy of None \<Rightarrow> Some (ln_value ?n) | Some f \<Rightarrow> f (ln_value ?n)) = Some v"
      using v by (simp add: copy_of_def split: option.splits)
    show ?thesis
    proof (cases "new s")
      case None
      then show ?thesis using y rel step c by (auto simp: add_tail_failed dup_outcome_def)
    next
      case a: (Some a)
      then have sa: "s a = None" using new by (simp add: gives_unused_def)
      have few: "length zs + 1 < 2 ^ 64" using Cons(5) by simp
      from add_tail [where new = new and s = s and a = a and v = v, OF Cons(3) a sa few] obtain s2 copy2 where
        t: "listAddNodeTail new s copy v = Some (s2, copy2, True)" "is_list s2 copy2 (zs @ [(a, v)])" "methods copy2 = methods copy"
           "only_at (insert a (fst ` set zs)) s s2" by blast
      have k: "linked s (Some (fst y)) ys None" "fst ` set ys \<inter> insert a (fst ` set zs) = {}"
        using Cons(2,4) linked_fresh [OF Cons(2) sa] by auto
      have "linked s2 (Some (fst y)) ys None" by (rule only_at_other [OF t(4) k])
      from Cons(1) [OF this t(2)] k(2) Cons(5) obtain s' res w' where
        r: "dup_loop new s2 copy2 \<lparr>li_next = first_of ys None, li_direction = AL_START_HEAD\<rparr> w = Some (s', res, w')"
           "dup_outcome s2 (zs @ [(a, v)]) ys (hl_dup copy2) s' res" by auto
      have d: "hl_dup copy2 = hl_dup copy" using t(3) by (simp add: methods_def)
      have old: "s2 x = s x" if "x \<noteq> a" "x \<notin> fst ` set zs" for x using t(4) that by (simp add: only_at_def)
      have "dup_outcome s zs (y # ys) (hl_dup copy) s' res"
      proof (cases res)
        case None
        then have "\<forall>x. s' x = (if x \<in> fst ` set (zs @ [(a, v)]) then None else s2 x)" using r(2) by (simp add: dup_outcome_def)
        then show ?thesis using None old sa by (auto simp: dup_outcome_def)
      next
        case (Some c2)
        then obtain zs' where z: "is_list s' c2 ((zs @ [(a, v)]) @ zs')" "list_all2 (\<lambda>y z. copy_of (hl_dup copy) (snd y) = Some (snd z)) ys zs'"
            "\<forall>x. s2 x \<noteq> None \<and> x \<notin> fst ` set (zs @ [(a, v)]) \<longrightarrow> s' x = s2 x" using r(2) d by (auto simp: dup_outcome_def)
        have "s' x = s x" if "s x \<noteq> None" "x \<notin> fst ` set zs" for x
        proof -
          have "x \<noteq> a" using that sa by auto
          then show ?thesis using z(3) old [of x] that by auto
        qed
        then show ?thesis using Some z(1,2) v by (auto simp: dup_outcome_def intro!: exI [of _ "(a, v) # zs'"])
      qed
      then show ?thesis using y step c t(1) r(1) by auto
    qed
  qed
qed

text \<open>A copy is a list of new nodes with the copied values; when memory runs out or a value cannot be
  copied there is none, and the store is what it was.\<close>

lemma dup:
  assumes new: "gives_unused new" and l: "is_list s l xs" and mem: "mem 16"
  shows "\<exists>s' res w'. listDup mem new s l w = Some (s', res, w') \<and> (\<forall>a. s a \<noteq> None \<longrightarrow> s' a = s a)
     \<and> (case res of None \<Rightarrow> s' = s
        | Some c \<Rightarrow> \<exists>ys. is_list s' c ys \<and> list_all2 (\<lambda>x y. copy_of (hl_dup l) (snd x) = Some (snd y)) xs ys)"
proof (cases "listCreate mem :: ('a, 'b) hilist option")
  case None
  then show ?thesis by (simp add: listDup_def)
next
  case (Some c)
  let ?c = "c\<lparr>hl_dup := hl_dup l, hl_free := hl_free l, hl_match := hl_match l\<rparr>"
  have c: "is_list s ?c []" using list_created [OF Some, of s] by (simp add: is_list_def)
  have k: "linked s None xs None" "hl_head l = first_of xs None" "length xs < 2 ^ 64" using l by (simp_all add: is_list_def)
  from dup_copies [OF new k(1) c, of w] k(3) obtain s' res w' where
    "dup_loop new s ?c \<lparr>li_next = first_of xs None, li_direction = AL_START_HEAD\<rparr> w = Some (s', res, w')"
    "dup_outcome s [] xs (hl_dup l) s' res" by auto
  then show ?thesis using Some k(2) mem
    by (auto simp: listDup_def listGetIterator_def dup_outcome_def split: option.splits)
qed

section \<open>Programs of operations\<close>

datatype 'v list_op = Push_head 'v | Push_tail 'v | Insert int 'v bool | Delete int | Rotate

text \<open>An operation on the lists in memory; positions are looked up with \<open>listIndex\<close>, and nothing is done at
  one that is not there. The result tells whether the operation was carried out.\<close>

fun run_op :: "('v node_store \<Rightarrow> nat option) \<Rightarrow> 'v list_op \<Rightarrow> 'v node_store \<times> ('v, 'w) hilist \<times> 'w \<Rightarrow> (('v node_store \<times> ('v, 'w) hilist \<times> 'w) \<times> bool) option" where
  "run_op new (Push_head v) (s, l, w) = do { (s, l, ok) \<leftarrow> listAddNodeHead new s l v; Some ((s, l, w), ok) }"
| "run_op new (Push_tail v) (s, l, w) = do { (s, l, ok) \<leftarrow> listAddNodeTail new s l v; Some ((s, l, w), ok) }"
| "run_op new (Insert i v after) (s, l, w) = do {
     n \<leftarrow> listIndex s l i;
     (if n = None then Some ((s, l, w), False)
      else do { (s, l, ok) \<leftarrow> listInsertNode new s l n v after; Some ((s, l, w), ok) }) }"
| "run_op new (Delete i) (s, l, w) = do {
     n \<leftarrow> listIndex s l i;
     (if n = None then Some ((s, l, w), False)
      else do { (s, l, w) \<leftarrow> listDelNode s l n w; Some ((s, l, w), True) }) }"
| "run_op new Rotate (s, l, w) = do { (s, l) \<leftarrow> listRotate s l; Some ((s, l, w), True) }"

fun run_ops :: "('v node_store \<Rightarrow> nat option) \<Rightarrow> 'v list_op list \<Rightarrow> 'v node_store \<times> ('v, 'w) hilist \<times> 'w \<Rightarrow> (('v node_store \<times> ('v, 'w) hilist \<times> 'w) \<times> bool list) option" where
  "run_ops new [] st = Some (st, [])"
| "run_ops new (op # ops) st = do { (st, ok) \<leftarrow> run_op new op st; (st, oks) \<leftarrow> run_ops new ops st; Some (st, ok # oks) }"

text \<open>The same on a list of values.\<close>

definition position :: "int \<Rightarrow> 'a list \<Rightarrow> nat" where
  "position i xs = nat (if i < 0 then int (length xs) + i else i)"

lemma position_map [simp]: "position i (map f xs) = position i xs"
  by (simp add: position_def)

fun op_on :: "('v \<Rightarrow> 'w \<Rightarrow> 'w) option \<Rightarrow> 'v list_op \<Rightarrow> 'v list \<times> 'w \<Rightarrow> 'v list \<times> 'w" where
  "op_on fr (Push_head v) (vs, w) = (v # vs, w)"
| "op_on fr (Push_tail v) (vs, w) = (vs @ [v], w)"
| "op_on fr (Insert i v after) (vs, w) = (let k = position i vs + (if after then 1 else 0) in (take k vs @ v # drop k vs, w))"
| "op_on fr (Delete i) (vs, w) = (let k = position i vs in (take k vs @ drop (Suc k) vs, hand_back fr (vs ! k) w))"
| "op_on fr Rotate (vs, w) = (if length vs \<le> 1 then vs else last vs # butlast vs, w)"

fun ops_on :: "('v \<Rightarrow> 'w \<Rightarrow> 'w) option \<Rightarrow> 'v list_op list \<Rightarrow> bool list \<Rightarrow> 'v list \<times> 'w \<Rightarrow> 'v list \<times> 'w" where
  "ops_on fr (op # ops) (ok # oks) st = ops_on fr ops oks (if ok then op_on fr op st else st)"
| "ops_on fr _ _ st = st"

fun index_ok :: "'v list_op \<Rightarrow> bool" where
  "index_ok (Insert i v after) = (- (2 ^ 63) < i)"
| "index_ok (Delete i) = (- (2 ^ 63) < i)"
| "index_ok _ = True"

text \<open>The nodes of the list lie outside the nodes \<open>s0\<close> has, and those are as they were.\<close>

definition apart_from :: "'v node_store \<Rightarrow> 'v node_store \<Rightarrow> (nat \<times> 'v) list \<Rightarrow> bool" where
  "apart_from s0 s xs \<longleftrightarrow> (\<forall>a. s0 a \<noteq> None \<longrightarrow> s a = s0 a \<and> a \<notin> fst ` set xs)"

lemma apart_step:
  "apart_from s0 s xs \<Longrightarrow> only_at A s s' \<Longrightarrow> A \<subseteq> insert a (fst ` set xs) \<Longrightarrow> s0 a = None \<Longrightarrow> fst ` set ys \<subseteq> insert a (fst ` set xs) \<Longrightarrow> apart_from s0 s' ys"
  unfolding apart_from_def only_at_def by (metis insert_iff subset_iff)

lemma apart_within:
  "apart_from s0 s xs \<Longrightarrow> only_at (fst ` set xs) s s' \<Longrightarrow> fst ` set ys \<subseteq> fst ` set xs \<Longrightarrow> apart_from s0 s' ys"
  unfolding apart_from_def only_at_def by (metis subset_iff)

lemma found_at:
  assumes "is_list s l xs" "- (2 ^ 63) < i" "listIndex s l i = Some (Some n)"
  shows "position i xs < length xs \<and> n = fst (xs ! position i xs)"
  using assms index_of [OF assms(1,2)] by (auto simp: position_def Let_def split: if_splits)

lemma op_step:
  assumes new: "gives_unused new" and l: "is_list s l xs" and i: "index_ok op" and few: "length xs + 1 < 2 ^ 64" and ap: "apart_from s0 s xs"
  shows "\<exists>s' l' w' ok xs'. run_op new op (s, l, w) = Some ((s', l', w'), ok) \<and> is_list s' l' xs' \<and> methods l' = methods l \<and> apart_from s0 s' xs'
     \<and> length xs' \<le> length xs + 1 \<and> (map snd xs', w') = (if ok then op_on (hl_free l) op (map snd xs, w) else (map snd xs, w))"
proof -
  have fresh: "s a = None" "s0 a = None" if "new s = Some a" for a
    using that new ap by (auto simp: gives_unused_def apart_from_def) (metis option.discI option.exhaust)
  have skip: ?thesis if "run_op new op (s, l, w) = Some ((s, l, w), False)"
    using that l ap by (intro exI [of _ s] exI [of _ l] exI [of _ w] exI [of _ False] exI [of _ xs]) simp
  have did: ?thesis if "run_op new op (s, l, w) = Some ((s', l', w'), True)" "is_list s' l' xs'" "methods l' = methods l" "apart_from s0 s' xs'"
      "length xs' \<le> length xs + 1" "op_on (hl_free l) op (map snd xs, w) = (map snd xs', w')" for s' l' w' xs'
    using that by (intro exI [of _ s'] exI [of _ l'] exI [of _ w'] exI [of _ True] exI [of _ xs']) simp
  show ?thesis
  proof (cases op)
    case (Push_head v)
    show ?thesis
    proof (cases "new s")
      case None
      then show ?thesis using Push_head by (intro skip) (simp add: add_head_failed)
    next
      case (Some a)
      from add_head [where v = v and new = new and s = s and a = a, OF l Some fresh(1) [OF Some] few] obtain s' l' where
        h: "listAddNodeHead new s l v = Some (s', l', True)" "is_list s' l' ((a, v) # xs)" "methods l' = methods l" "only_at (insert a (fst ` set xs)) s s'"
        by blast
      then have "apart_from s0 s' ((a, v) # xs)" using apart_step [OF ap h(4), of a "(a, v) # xs"] fresh(2) [OF Some] by auto
      then show ?thesis using Push_head h(1) by (intro did [OF _ h(2,3)]) simp_all
    qed
  next
    case (Push_tail v)
    show ?thesis
    proof (cases "new s")
      case None
      then show ?thesis using Push_tail by (intro skip) (simp add: add_tail_failed)
    next
      case (Some a)
      from add_tail [where v = v and new = new and s = s and a = a, OF l Some fresh(1) [OF Some] few] obtain s' l' where
        h: "listAddNodeTail new s l v = Some (s', l', True)" "is_list s' l' (xs @ [(a, v)])" "methods l' = methods l" "only_at (insert a (fst ` set xs)) s s'"
        by blast
      then have "apart_from s0 s' (xs @ [(a, v)])" using apart_step [OF ap h(4), of a "xs @ [(a, v)]"] fresh(2) [OF Some] by auto
      then show ?thesis using Push_tail h(1) by (intro did [OF _ h(2,3)]) simp_all
    qed
  next
    case (Insert j v after)
    then have j: "- (2 ^ 63) < j" using i by simp
    obtain n where n: "listIndex s l j = Some n" using index_of [OF l j] by blast
    show ?thesis
    proof (cases n)
      case None
      then show ?thesis using Insert n by (intro skip) simp
    next
      case sm: (Some m)
      from found_at [OF l j] n sm have p: "position j xs < length xs" "m = fst (xs ! position j xs)" by simp_all
      let ?a = "take (position j xs) xs" and ?b = "drop (Suc (position j xs)) xs" and ?x = "xs ! position j xs"
      have xs: "xs = ?a @ ?x # ?b" using p(1) by (simp add: id_take_nth_drop)
      show ?thesis
      proof (cases "new s")
        case None
        then show ?thesis using Insert n sm by (intro skip) (simp add: insert_failed)
      next
        case (Some a)
        let ?ys = "if after then ?a @ ?x # (a, v) # ?b else ?a @ (a, v) # ?x # ?b"
        obtain s' l' where
          h: "listInsertNode new s l (Some m) v after = Some (s', l', True)" "is_list s' l' ?ys" "methods l' = methods l"
            "only_at (insert a (fst ` set xs)) s s'"
          using insert_at [of s l ?a ?x ?b new a v after] l few Some fresh(1) [OF Some] p(2) xs by auto
        have "fst ` set ?ys \<subseteq> insert a (fst ` set xs)" using arg_cong [OF xs, of set] by auto
        then have ap': "apart_from s0 s' ?ys" using apart_step [OF ap h(4), of a ?ys] fresh(2) [OF Some] by blast
        have v: "map snd ?ys = fst (op_on (hl_free l) (Insert j v after) (map snd xs, w))"
          using p(1) by (simp add: Let_def take_map drop_map take_Suc_conv_app_nth Cons_nth_drop_Suc)
        have le: "length ?ys = length xs + 1" using arg_cong [OF xs, of length] by simp
        show ?thesis using Insert n sm h(1) v le by (intro did [OF _ h(2,3) ap']) (simp_all add: Let_def)
      qed
    qed
  next
    case (Delete j)
    then have j: "- (2 ^ 63) < j" using i by simp
    obtain n where n: "listIndex s l j = Some n" using index_of [OF l j] by blast
    show ?thesis
    proof (cases n)
      case None
      then show ?thesis using Delete n by (intro skip) simp
    next
      case sm: (Some m)
      from found_at [OF l j] n sm have p: "position j xs < length xs" "m = fst (xs ! position j xs)" by simp_all
      let ?a = "take (position j xs) xs" and ?b = "drop (Suc (position j xs)) xs" and ?x = "xs ! position j xs"
      have xs: "xs = ?a @ ?x # ?b" using p(1) by (simp add: id_take_nth_drop)
      obtain s' l' where
        h: "listDelNode s l (Some m) w = Some (s', l', hand_back (hl_free l) (snd ?x) w)" "is_list s' l' (?a @ ?b)" "methods l' = methods l"
          "only_at (fst ` set xs) s s'"
        using delete_at [of s l ?a ?x ?b w] l p(2) xs by auto
      have ss: "fst ` set (?a @ ?b) \<subseteq> fst ` set xs" using arg_cong [OF xs, of set] by auto
      have ap': "apart_from s0 s' (?a @ ?b)" using ap h(4) ss by (rule apart_within)
      have le: "length (?a @ ?b) \<le> length xs + 1" by simp
      show ?thesis using Delete n sm h(1) p(1) le
        by (intro did [OF _ h(2,3) ap']) (simp_all add: Let_def take_map drop_map)
    qed
  next
    case Rotate
    show ?thesis
    proof (cases "length xs \<le> 1")
      case True
      then show ?thesis using Rotate rotate_short [OF l True] l ap by (intro did [of s l w xs]) simp_all
    next
      case False
      then obtain x ys y where xs: "xs = x # ys @ [y]" by (cases xs; cases "tl xs" rule: rev_cases) auto
      from rotate [OF l [unfolded xs]] obtain s' l' where
        h: "listRotate s l = Some (s', l')" "is_list s' l' (y # x # ys)" "methods l' = methods l" "only_at (fst ` set xs) s s'" using xs by auto
      have "apart_from s0 s' (y # x # ys)" using xs by (intro apart_within [OF ap h(4)]) auto
      then show ?thesis using Rotate h(1) xs by (intro did [OF _ h(2,3)]) (simp_all add: butlast_append)
    qed
  qed
qed

lemma ops_run:
  assumes new: "gives_unused new"
  shows "is_list s l xs \<Longrightarrow> \<forall>op\<in>set ops. index_ok op \<Longrightarrow> length xs + length ops < 2 ^ 64 \<Longrightarrow> apart_from s0 s xs \<Longrightarrow>
    \<exists>s' l' w' oks xs'. run_ops new ops (s, l, w) = Some ((s', l', w'), oks) \<and> is_list s' l' xs' \<and> apart_from s0 s' xs'
     \<and> ops_on (hl_free l) ops oks (map snd xs, w) = (map snd xs', w')"
proof (induction ops arbitrary: s l xs w)
  case Nil
  then show ?case by auto
next
  case (Cons op ops)
  have few: "index_ok op" "length xs + 1 < 2 ^ 64" using Cons(3,4) by simp_all
  from op_step [where w = w, OF new Cons(2) few Cons(5)] obtain s1 l1 w1 ok xs1 where
    o: "run_op new op (s, l, w) = Some ((s1, l1, w1), ok)" "is_list s1 l1 xs1" "methods l1 = methods l" "apart_from s0 s1 xs1"
      "length xs1 \<le> length xs + 1" "(map snd xs1, w1) = (if ok then op_on (hl_free l) op (map snd xs, w) else (map snd xs, w))" by blast
  have "\<forall>op\<in>set ops. index_ok op" "length xs1 + length ops < 2 ^ 64" using Cons(3,4) o(5) by simp_all
  from Cons(1) [OF o(2) this o(4), of w1] obtain s' l' w' oks xs' where
    r: "run_ops new ops (s1, l1, w1) = Some ((s', l', w'), oks)" "is_list s' l' xs'" "apart_from s0 s' xs'"
      "ops_on (hl_free l1) ops oks (map snd xs1, w1) = (map snd xs', w')" by blast
  have "run_ops new (op # ops) (s, l, w) = Some ((s', l', w'), ok # oks)" using o(1) r(1) by simp
  moreover have "ops_on (hl_free l) (op # ops) (ok # oks) (map snd xs, w) = (map snd xs', w')"
    using o(3,6) r(4) by (simp add: methods_def)
  ultimately show ?case using r(2,3) by blast
qed

section \<open>Property\<close>

text \<open>C35: The doubly linked lists are lists. Whatever program of insertions, removals and rotations is run on
  a new list, no operation follows a null or dangling pointer; the nodes met from the head on hold the
  values that the same program leaves in a list of values, those met from the tail on the same in
  reverse, the length is theirs, the values removed were handed to the user's function, and no other
  node in memory has changed.\<close>

theorem linked_list_refines:
  assumes "gives_unused new" "listCreate mem = Some l" "\<forall>op\<in>set ops. index_ok op" "length ops < 2 ^ 64"
  shows "\<exists>s' l' w' oks vs as. run_ops new ops (s, l\<lparr>hl_free := fr\<rparr>, w) = Some ((s', l', w'), oks)
     \<and> ops_on fr ops oks ([], w) = (vs, w') \<and> hl_len l' = length vs
     \<and> iterate (length vs + 1) s' (listRewind l') = Some as
     \<and> iterate (length vs + 1) s' (listRewindTail l') = Some (rev as)
     \<and> map (\<lambda>a. map_option ln_value (s' a)) as = map Some vs
     \<and> (\<forall>a. s a \<noteq> None \<longrightarrow> s' a = s a \<and> a \<notin> set as)"
proof -
  let ?l = "l\<lparr>hl_free := fr\<rparr>"
  have l: "is_list s ?l []" using list_created [OF assms(2), of s] by (simp add: is_list_def)
  have ap: "apart_from s s ([] :: (nat \<times> 'a) list)" by (simp add: apart_from_def)
  from ops_run [where w = w and ops = ops, OF assms(1) l assms(3) _ ap] assms(4) obtain s' l' w' oks xs where
    r: "run_ops new ops (s, ?l, w) = Some ((s', l', w'), oks)" "is_list s' l' xs" "apart_from s s' xs" "ops_on fr ops oks ([], w) = (map snd xs, w')"
    by auto
  have k: "linked s' None xs None" "hl_head l' = first_of xs None" "hl_tail l' = last_of None xs" "hl_len l' = length xs"
    using r(2) by (simp_all add: is_list_def)
  have f: "iterate (length xs + 1) s' (listRewind l') = Some (map fst xs)" "iterate (length xs + 1) s' (listRewindTail l') = Some (rev (map fst xs))"
    using iterate_forward [OF k(1), of "length xs + 1"] iterate_backward [OF k(1), of "length xs + 1"] k(2,3)
    by (simp_all add: listRewind_def listRewindTail_def)
  have "linked s' p xs q \<Longrightarrow> map (\<lambda>a. map_option ln_value (s' a)) (map fst xs) = map Some (map snd xs)" for p q
    by (induction xs arbitrary: p) auto
  note v = this [OF k(1)]
  show ?thesis
    using r(1,3,4) k(4) f v by (intro exI [of _ s'] exI [of _ l'] exI [of _ w'] exI [of _ oks] exI [of _ "map snd xs"] exI [of _ "map fst xs"])
      (simp add: apart_from_def)
qed

text \<open>An arena of five nodes that are used again.\<close>

definition arena :: "'v node_store \<Rightarrow> nat option" where
  "arena s = find (\<lambda>a. s a = None) [1, 2, 3, 4, 5]"

lemma arena_unused: "gives_unused arena"
  by (auto simp: gives_unused_def arena_def find_Some_iff)

lemma linked_list_refines_witness:
  "\<exists>s' l' as. run_ops arena [Push_tail 7, Push_head 8, Insert (-1) 9 False, Delete 0, Push_tail 6, Rotate, Insert 5 0 True]
       (Map.empty, \<lparr>hl_head = None, hl_tail = None, hl_dup = None, hl_free = Some (#), hl_match = None, hl_len = 0\<rparr>, [])
       = Some ((s', l', [8 :: int]), [True, True, True, True, True, True, False])
     \<and> iterate 4 s' (listRewind l') = Some as \<and> map (\<lambda>a. map_option ln_value (s' a)) as = map Some [6, 9, 7]"
proof -
  let ?ops = "[Push_tail (7 :: int), Push_head 8, Insert (-1) 9 False, Delete 0, Push_tail 6, Rotate, Insert 5 0 True]"
  let ?l = "\<lparr>hl_head = None, hl_tail = None, hl_dup = None, hl_free = None, hl_match = None, hl_len = 0\<rparr> :: (int, int list) hilist"
  have l: "listCreate (\<lambda>_. True) = Some ?l" by (simp add: listCreate_def)
  have ok: "\<forall>op\<in>set ?ops. index_ok op" "length ?ops < 2 ^ 64" by simp_all
  from linked_list_refines [OF arena_unused l ok, of Map.empty "Some (#)" "[]"] obtain s' l' w' oks vs as where
    r: "run_ops arena ?ops (Map.empty, ?l\<lparr>hl_free := Some (#)\<rparr>, []) = Some ((s', l', w'), oks)" "ops_on (Some (#)) ?ops oks ([], []) = (vs, w')"
      "iterate (length vs + 1) s' (listRewind l') = Some as" "map (\<lambda>a. map_option ln_value (s' a)) as = map Some vs" by blast
  have "map_option snd (run_ops arena ?ops (Map.empty, ?l\<lparr>hl_free := Some (#)\<rparr>, [])) = Some [True, True, True, True, True, True, False]"
    by (simp add: arena_def listAddNodeTail_def listAddNodeHead_def listInsertNode_def listDelNode_def listRotate_def listIndex_def
        node_at_def hook_in_def set_prev_def set_next_def one_more_def one_less_def follow_numeral)
  then have oks: "oks = [True, True, True, True, True, True, False]" using r(1) by simp
  have "ops_on (Some (#)) ?ops [True, True, True, True, True, True, False] ([], []) = ([6, 9, 7], [8])" by code_simp
  then have v: "vs = [6, 9, 7]" "w' = [8]" using r(2) oks by simp_all
  have "length vs + 1 = 4" using v by simp
  then have "iterate 4 s' (listRewind l') = Some as" using r(3) by simp
  moreover have "?l\<lparr>hl_free := Some (#)\<rparr> = \<lparr>hl_head = None, hl_tail = None, hl_dup = None, hl_free = Some (#), hl_match = None, hl_len = 0\<rparr>" by simp
  ultimately show ?thesis using r(1,4) unfolding oks v by metis
qed

end
