(* ===== verification/ThreadPool.thy ===== *)
theory ThreadPool
  imports "HOL-Library.Multiset"
begin

text \<open>
  The thread pool (\<open>ThreadPool.h\<close>; the three copies in \<open>_read_csv\<close>, \<open>_file_recovery\<close> and
  \<open>_tendis_server\<close> are the same file) as a step relation.

  Every step is one critical section under \<open>queue_mutex\<close>, one call of the condition variable
  made outside it, or one task. A worker is \<open>Idle\<close> when it is about to evaluate the predicate
  of \<open>wait\<close> and \<open>Asleep\<close> while it is blocked in it; \<open>notify_one\<close> wakes one sleeping worker if
  there is one, \<open>notify_all\<close> all of them, and a worker may also wake up for no reason.
\<close>

section \<open>State and steps\<close>

datatype 'a worker = Idle | Asleep | Running 'a | Exited

text \<open>\<open>pool_notes\<close> counts the callers of \<open>enqueue\<close> that have released the mutex and not yet
  called \<open>notify_one\<close>; \<open>pool_closing\<close> says that the destructor stands before \<open>notify_all\<close>.\<close>

record 'a pool =
  pool_workers :: "'a worker list"
  pool_tasks :: "'a list"
  pool_stop :: bool
  pool_notes :: nat
  pool_closing :: bool

datatype 'a event = Enqueue 'a | Reject 'a | NotifyOne "nat option" | Sleep nat | Spurious nat
  | Take nat 'a | Finish nat 'a | Leave nat | Stop | NotifyAll

definition pool_init :: "nat \<Rightarrow> 'a pool" where
  "pool_init threads =
     \<lparr>pool_workers = replicate threads Idle, pool_tasks = [], pool_stop = False, pool_notes = 0, pool_closing = False\<rparr>"

definition set_worker :: "nat \<Rightarrow> 'a worker \<Rightarrow> 'a pool \<Rightarrow> 'a pool" where
  "set_worker i w p = p\<lparr>pool_workers := (pool_workers p)[i := w]\<rparr>"

definition worker_at :: "'a pool \<Rightarrow> nat \<Rightarrow> 'a worker \<Rightarrow> bool" where
  "worker_at p i w \<longleftrightarrow> i < length (pool_workers p) \<and> pool_workers p ! i = w"

definition wake :: "'a worker \<Rightarrow> 'a worker" where
  "wake w = (if w = Asleep then Idle else w)"

inductive pool_step :: "'a pool \<Rightarrow> 'a event \<Rightarrow> 'a pool \<Rightarrow> bool" where
  enqueue: "\<not> pool_stop p \<Longrightarrow>
    pool_step p (Enqueue f) (p\<lparr>pool_tasks := pool_tasks p @ [f], pool_notes := pool_notes p + 1\<rparr>)"
| reject: "pool_stop p \<Longrightarrow> pool_step p (Reject f) p"
| notify: "pool_notes p = Suc n \<Longrightarrow> worker_at p i Asleep \<Longrightarrow>
    pool_step p (NotifyOne (Some i)) (set_worker i Idle (p\<lparr>pool_notes := n\<rparr>))"
| notify_none: "pool_notes p = Suc n \<Longrightarrow> Asleep \<notin> set (pool_workers p) \<Longrightarrow>
    pool_step p (NotifyOne None) (p\<lparr>pool_notes := n\<rparr>)"
| sleep: "worker_at p i Idle \<Longrightarrow> \<not> (pool_stop p \<or> pool_tasks p \<noteq> []) \<Longrightarrow>
    pool_step p (Sleep i) (set_worker i Asleep p)"
| spurious: "worker_at p i Asleep \<Longrightarrow> pool_step p (Spurious i) (set_worker i Idle p)"
| take_task: "worker_at p i Idle \<Longrightarrow> pool_tasks p = f # fs \<Longrightarrow>
    pool_step p (Take i f) (set_worker i (Running f) (p\<lparr>pool_tasks := fs\<rparr>))"
| finish: "worker_at p i (Running f) \<Longrightarrow> pool_step p (Finish i f) (set_worker i Idle p)"
| leave: "worker_at p i Idle \<Longrightarrow> pool_stop p \<Longrightarrow> pool_tasks p = [] \<Longrightarrow>
    pool_step p (Leave i) (set_worker i Exited p)"
| stop: "\<not> pool_stop p \<Longrightarrow> pool_step p Stop (p\<lparr>pool_stop := True, pool_closing := True\<rparr>)"
| notify_all: "pool_closing p \<Longrightarrow>
    pool_step p NotifyAll (p\<lparr>pool_workers := map wake (pool_workers p), pool_closing := False\<rparr>)"

text \<open>The destructor's \<open>join\<close> loop ends when every worker has left.\<close>

definition joined :: "'a pool \<Rightarrow> bool" where
  "joined p \<longleftrightarrow> set (pool_workers p) \<subseteq> {Exited}"

inductive pool_run :: "'a pool \<Rightarrow> 'a event list \<Rightarrow> 'a pool \<Rightarrow> bool" for p where
  start: "pool_run p [] p"
| next_step: "pool_run p es q \<Longrightarrow> pool_step q e r \<Longrightarrow> pool_run p (es @ [e]) r"

inductive_cases pool_stepE: "pool_step p e q"

section \<open>What a run did\<close>

fun accepted :: "'a event \<Rightarrow> 'a list" where
  "accepted (Enqueue f) = [f]"
| "accepted _ = []"

fun started :: "'a event \<Rightarrow> 'a list" where
  "started (Take _ f) = [f]"
| "started _ = []"

fun finished :: "'a event \<Rightarrow> 'a list" where
  "finished (Finish _ f) = [f]"
| "finished _ = []"

abbreviation trace :: "('a event \<Rightarrow> 'b list) \<Rightarrow> 'a event list \<Rightarrow> 'b list" where
  "trace f es \<equiv> concat (map f es)"

definition tally :: "('a \<Rightarrow> nat) \<Rightarrow> 'a list \<Rightarrow> nat" where
  "tally f ws = sum_list (map f ws)"

lemma tally_update: "i < length ws \<Longrightarrow> tally f (ws[i := w]) + f (ws ! i) = tally f ws + f w"
  by (induction ws arbitrary: i) (auto simp: tally_def split: nat.split)

lemma tally_ge: "i < length ws \<Longrightarrow> f (ws ! i) \<le> tally f ws"
  by (induction ws arbitrary: i) (auto simp: tally_def nth_Cons' intro: trans_le_add2)

lemma tally_set: "worker_at p i v \<Longrightarrow> tally f ((pool_workers p)[i := w]) = tally f (pool_workers p) + f w - f v"
  using tally_update [of i "pool_workers p" f w] by (auto simp: worker_at_def)

lemma tally_at: "worker_at p i v \<Longrightarrow> f v \<le> tally f (pool_workers p)"
  using tally_ge by (auto simp: worker_at_def)

lemma tally_zero: "tally f ws = 0 \<longleftrightarrow> (\<forall>w\<in>set ws. f w = 0)"
  by (auto simp: tally_def)

lemma tally_map: "tally f (map g ws) = tally (\<lambda>w. f (g w)) ws"
  by (simp add: tally_def o_def)

lemma tally_mono: "(\<And>w. f w \<le> g w) \<Longrightarrow> tally f ws \<le> tally g ws"
  by (simp add: tally_def sum_list_mono)

fun running :: "'a worker \<Rightarrow> 'a list" where
  "running (Running f) = [f]"
| "running _ = []"

definition is_running :: "'a \<Rightarrow> 'a worker \<Rightarrow> nat" where
  "is_running f w = (if w = Running f then 1 else 0)"

definition is_idle :: "'a worker \<Rightarrow> nat" where
  "is_idle w = (if w = Idle then 1 else 0)"

section \<open>Every accepted task starts once, in order\<close>

lemma step_fifo: "pool_step p e q \<Longrightarrow> pool_tasks p @ accepted e = started e @ pool_tasks q"
  by (cases rule: pool_step.cases) (auto simp: set_worker_def)

lemma run_fifo: "pool_run (pool_init n) es p \<Longrightarrow> trace accepted es = trace started es @ pool_tasks p"
proof (induction rule: pool_run.induct)
  case start
  show ?case by (simp add: pool_init_def)
next
  case (next_step es q e r)
  then show ?case using step_fifo [OF next_step(2)] by simp
qed

text \<open>A task that was started has finished or is running.\<close>

lemma step_running:
  assumes "pool_step p e q"
  shows "count_list (started e) f + tally (is_running f) (pool_workers p)
     = count_list (finished e) f + tally (is_running f) (pool_workers q)"
  using assms
proof (cases rule: pool_step.cases)
  case (notify_all)
  have "is_running f (wake w) = is_running f w" for w by (simp add: is_running_def wake_def)
  then show ?thesis using notify_all by (simp add: tally_map)
qed (auto simp: set_worker_def tally_set is_running_def dest: tally_at [where f = "is_running f"])

lemma run_running: "pool_run (pool_init n) es p \<Longrightarrow>
    count_list (trace started es) f = count_list (trace finished es) f + tally (is_running f) (pool_workers p)"
proof (induction rule: pool_run.induct)
  case start
  show ?case by (auto simp: pool_init_def tally_zero is_running_def)
next
  case (next_step es q e r)
  then show ?case using step_running [OF next_step(2), of f] by simp
qed

section \<open>No wake-up is lost\<close>

text \<open>While a worker sleeps, every task that waits has an awake worker or a notification that is
  still to come; a sleeping worker of a stopped pool still gets \<open>notify_all\<close>. Workers leave only
  when there is nothing to do.\<close>

definition pool_inv :: "'a pool \<Rightarrow> bool" where
  "pool_inv p \<longleftrightarrow>
     (Asleep \<in> set (pool_workers p) \<longrightarrow>
        length (pool_tasks p) \<le> pool_notes p + tally is_idle (pool_workers p) \<and> (pool_stop p \<longrightarrow> pool_closing p))
     \<and> (pool_closing p \<longrightarrow> pool_stop p)
     \<and> (Exited \<in> set (pool_workers p) \<longrightarrow> pool_stop p \<and> pool_tasks p = [])"

lemma set_update_other: "x \<in> set (ws[i := w]) \<Longrightarrow> x \<noteq> w \<Longrightarrow> x \<in> set ws"
  using set_update_subset_insert by fastforce

lemma step_inv: "pool_step p e q \<Longrightarrow> pool_inv p \<Longrightarrow> pool_inv q"
proof (induction rule: pool_step.induct)
  case (notify p n i)
  have "Asleep \<in> set (pool_workers p)" using notify(2) by (auto simp: worker_at_def in_set_conv_nth)
  then show ?case
    using notify tally_update [of i "pool_workers p" is_idle Idle]
    by (auto simp: pool_inv_def set_worker_def worker_at_def is_idle_def dest: set_update_other)
next
  case (sleep p i)
  then show ?case
    by (auto simp: pool_inv_def set_worker_def worker_at_def dest: set_update_other)
next
  case (spurious p i)
  then show ?case
    using tally_update [of i "pool_workers p" is_idle Idle]
    by (auto simp: pool_inv_def set_worker_def worker_at_def is_idle_def dest: set_update_other)
next
  case (take_task p i f fs)
  then show ?case
    using tally_update [of i "pool_workers p" is_idle "Running f"]
    by (auto simp: pool_inv_def set_worker_def worker_at_def is_idle_def dest: set_update_other)
next
  case (finish p i f)
  then show ?case
    using tally_update [of i "pool_workers p" is_idle Idle]
    by (auto simp: pool_inv_def set_worker_def worker_at_def is_idle_def dest: set_update_other)
next
  case (leave p i)
  then show ?case
    by (auto simp: pool_inv_def set_worker_def worker_at_def dest: set_update_other)
next
  case (notify_all p)
  have a: "Asleep \<notin> set (map wake (pool_workers p))" by (auto simp: wake_def split: if_splits)
  have "Exited \<in> set (map wake (pool_workers p)) \<Longrightarrow> Exited \<in> set (pool_workers p)"
    by (auto simp: wake_def split: if_splits)
  then show ?case using notify_all a unfolding pool_inv_def by auto
qed (auto simp: pool_inv_def)

lemma init_inv: "pool_inv (pool_init n)"
  by (auto simp: pool_inv_def pool_init_def)

lemma run_inv: "pool_run p es q \<Longrightarrow> pool_inv p \<Longrightarrow> pool_inv q"
  by (induction rule: pool_run.induct) (auto intro: step_inv)

section \<open>A stopped pool drains\<close>

fun worker_load :: "'a worker \<Rightarrow> nat" where
  "worker_load Asleep = 3"
| "worker_load Idle = 2"
| "worker_load (Running _) = 4"
| "worker_load Exited = 0"

definition pool_load :: "'a pool \<Rightarrow> nat" where
  "pool_load p = 3 * length (pool_tasks p) + tally worker_load (pool_workers p) + pool_notes p + (if pool_closing p then 1 else 0)"

text \<open>Every step of a stopped pool but a refused \<open>enqueue\<close> makes it smaller.\<close>

definition refused :: "'a event \<Rightarrow> bool" where
  "refused e \<longleftrightarrow> (\<exists>f. e = Reject f)"

lemma step_load: "pool_step p e q \<Longrightarrow> pool_stop p \<Longrightarrow> \<not> refused e \<Longrightarrow> pool_load q < pool_load p \<and> pool_stop q"
proof (induction rule: pool_step.induct)
  case (notify_all p)
  have "tally (\<lambda>w. worker_load (wake w)) (pool_workers p) \<le> tally worker_load (pool_workers p)"
    by (rule tally_mono) (auto simp: wake_def)
  then show ?case using notify_all by (simp add: pool_load_def tally_map)
qed (auto simp: pool_load_def set_worker_def tally_set refused_def dest: tally_at [where f = worker_load])

lemma run_load: "pool_run p es q \<Longrightarrow> pool_stop p \<Longrightarrow> \<forall>e\<in>set es. \<not> refused e \<Longrightarrow> length es + pool_load q \<le> pool_load p \<and> pool_stop q"
proof (induction rule: pool_run.induct)
  case (next_step es q e r)
  then show ?case using step_load [OF next_step(2)] by force
qed simp

text \<open>When no such step is left, spurious wake-ups aside, every worker has left.\<close>

definition unasked :: "'a event \<Rightarrow> bool" where
  "unasked e \<longleftrightarrow> refused e \<or> (\<exists>i. e = Spurious i)"

lemma stuck_joined:
  assumes inv: "pool_inv p" and stop: "pool_stop p" and stuck: "\<And>e q. pool_step p e q \<Longrightarrow> unasked e"
  shows "joined p"
proof -
  have "w = Exited" if w: "w \<in> set (pool_workers p)" for w
  proof -
    obtain i where i: "worker_at p i w" using w by (auto simp: worker_at_def in_set_conv_nth)
    show ?thesis
    proof (cases w)
      case Idle
      show ?thesis
      proof (cases "pool_tasks p")
        case Nil
        then have "pool_step p (Leave i) (set_worker i Exited p)" using i stop Idle by (auto intro: pool_step.leave)
        then show ?thesis using stuck by (auto simp: unasked_def refused_def)
      next
        case (Cons f fs)
        then have "pool_step p (Take i f) (set_worker i (Running f) (p\<lparr>pool_tasks := fs\<rparr>))"
          using i Idle by (auto intro: pool_step.take_task)
        then show ?thesis using stuck by (auto simp: unasked_def refused_def)
      qed
    next
      case Asleep
      then have "pool_closing p" using inv stop w by (simp add: pool_inv_def)
      from pool_step.notify_all [OF this] show ?thesis using stuck by (auto simp: unasked_def refused_def)
    next
      case (Running f)
      then have "pool_step p (Finish i f) (set_worker i Idle p)" using i by (auto intro: pool_step.finish)
      then show ?thesis using stuck by (auto simp: unasked_def refused_def)
    qed simp
  qed
  then show ?thesis by (auto simp: joined_def)
qed

section \<open>The life of a pool\<close>

lemma run_append: "pool_run q fs r \<Longrightarrow> pool_run p es q \<Longrightarrow> pool_run p (es @ fs) r"
  by (induction rule: pool_run.induct) (auto simp flip: append_assoc intro: pool_run.next_step)

lemma step_workers: "pool_step p e q \<Longrightarrow> length (pool_workers q) = length (pool_workers p)"
  by (induction rule: pool_step.induct) (auto simp: set_worker_def)

lemma run_workers: "pool_run (pool_init n) es p \<Longrightarrow> length (pool_workers p) = n"
  by (induction rule: pool_run.induct) (auto simp: step_workers pool_init_def)

lemma joined_done:
  assumes run: "pool_run (pool_init n) es p" and j: "joined p" and n: "0 < n"
  shows "trace started es = trace accepted es \<and> mset (trace finished es) = mset (trace accepted es)"
proof -
  have w: "length (pool_workers p) = n" by (rule run_workers [OF run])
  then have "Exited \<in> set (pool_workers p)" using j n by (cases "pool_workers p") (auto simp: joined_def)
  then have "pool_tasks p = []" using run_inv [OF run init_inv] by (auto simp: pool_inv_def)
  then have st: "trace started es = trace accepted es" using run_fifo [OF run] by simp
  have "tally (is_running f) (pool_workers p) = 0" for f using j by (auto simp: joined_def tally_zero is_running_def)
  then have "count_list (trace started es) f = count_list (trace finished es) f" for f using run_running [OF run, of f] by simp
  then have "mset (trace started es) = mset (trace finished es)"
    by (intro multiset_eqI) (simp add: count_mset)
  then show ?thesis using st by simp
qed

text \<open>C16: After the destructor has set \<open>stop\<close>, the workers of a pool leave after a bounded number
  of steps whatever the schedule: no run without refused calls is longer than the load, and when
  nothing but a spurious wake-up could still happen all workers have left, so that no wake-up is
  lost. Then every accepted task has run exactly once, and they started in the order of
  \<open>enqueue\<close>.\<close>

theorem pool_runs_all:
  assumes "pool_run (pool_init n) es p" "pool_stop p" "0 < n" "pool_run p fs q" "\<forall>e\<in>set fs. \<not> refused e"
  shows "length fs \<le> pool_load p \<and>
    ((\<forall>e r. pool_step q e r \<longrightarrow> unasked e) \<longrightarrow>
      joined q \<and> trace started (es @ fs) = trace accepted (es @ fs)
      \<and> mset (trace finished (es @ fs)) = mset (trace accepted (es @ fs)))"
proof -
  have b: "length fs \<le> pool_load p" "pool_stop q" using run_load [OF assms(4,2,5)] by auto
  have all: "pool_run (pool_init n) (es @ fs) q" by (rule run_append [OF assms(4,1)])
  have "joined q" if "\<forall>e r. pool_step q e r \<longrightarrow> unasked e"
    using stuck_joined [OF run_inv [OF all init_inv] b(2)] that by blast
  then show ?thesis using b(1) joined_done [OF all _ assms(3)] by blast
qed

lemma stopped_example:
  "pool_run (pool_init 1) [Enqueue f, Stop]
     \<lparr>pool_workers = [Idle], pool_tasks = [f], pool_stop = True, pool_notes = 1, pool_closing = True\<rparr>"
proof -
  have 1: "pool_run (pool_init 1) ([] @ [Enqueue f])
      \<lparr>pool_workers = [Idle], pool_tasks = [f], pool_stop = False, pool_notes = 1, pool_closing = False\<rparr>"
    using pool_step.enqueue [of "pool_init 1" f] by (intro pool_run.next_step [OF pool_run.start]) (simp add: pool_init_def)
  from pool_run.next_step [OF 1 pool_step.stop] show ?thesis by simp
qed

lemma finished_example:
  "pool_run \<lparr>pool_workers = [Idle], pool_tasks = [f], pool_stop = True, pool_notes = 1, pool_closing = True\<rparr>
     [NotifyOne None, Take 0 f, Finish 0 f, Leave 0, NotifyAll]
     \<lparr>pool_workers = [Exited], pool_tasks = [], pool_stop = True, pool_notes = 0, pool_closing = False\<rparr>"
proof -
  let ?p = "\<lambda>w fs n c. \<lparr>pool_workers = [w], pool_tasks = fs, pool_stop = True, pool_notes = n, pool_closing = c\<rparr>"
  have "pool_step (?p Idle [f] 1 True) (NotifyOne None) (?p Idle [f] 0 True)"
    using pool_step.notify_none [of "?p Idle [f] 1 True" 0] by simp
  note r = pool_run.next_step [OF pool_run.start this]
  have "pool_step (?p Idle [f] 0 True) (Take 0 f) (?p (Running f) [] 0 True)"
    using pool_step.take_task [of "?p Idle [f] 0 True" 0 f "[]"] by (simp add: worker_at_def set_worker_def)
  note r = pool_run.next_step [OF r this]
  have "pool_step (?p (Running f) [] 0 True) (Finish 0 f) (?p Idle [] 0 True)"
    using pool_step.finish [of "?p (Running f) [] 0 True" 0 f] by (simp add: worker_at_def set_worker_def)
  note r = pool_run.next_step [OF r this]
  have "pool_step (?p Idle [] 0 True) (Leave 0) (?p Exited [] 0 True)"
    using pool_step.leave [of "?p Idle [] 0 True" 0] by (simp add: worker_at_def set_worker_def)
  note r = pool_run.next_step [OF r this]
  have "pool_step (?p Exited [] 0 True) NotifyAll (?p Exited [] 0 False)"
    using pool_step.notify_all [of "?p Exited [] 0 True"] by (simp add: wake_def)
  from pool_run.next_step [OF r this] show ?thesis by simp
qed

lemma exited_stuck:
  assumes "pool_step \<lparr>pool_workers = [Exited], pool_tasks = [], pool_stop = True, pool_notes = 0, pool_closing = False\<rparr> e r"
  shows "unasked e"
  using assms by (cases rule: pool_step.cases) (auto simp: unasked_def refused_def worker_at_def)

lemma pool_runs_all_witness:
  "length [NotifyOne None, Take 0 ''task'', Finish 0 ''task'', Leave 0, NotifyAll]
    \<le> pool_load \<lparr>pool_workers = [Idle], pool_tasks = [''task''], pool_stop = True, pool_notes = 1, pool_closing = True\<rparr> \<and>
   joined (\<lparr>pool_workers = [Exited], pool_tasks = [], pool_stop = True, pool_notes = 0, pool_closing = False\<rparr> :: string pool)"
  using pool_runs_all [OF stopped_example _ _ finished_example] exited_stuck
  by (fastforce simp: refused_def)

end
