(* ===== verification/Zookeeper.thy ===== *)
theory Zookeeper
  imports Cxx
begin

text \<open>
  The interface of the ZooKeeper client, which is not part of the repository: a record of its
  calls over a state of the service, an argument of every definition that uses it.

  \<open>keeper\<close> states what the client documents, for a service that answers and that no other
  client changes meanwhile: \<open>tree\<close> gives the data of the nodes. A failed call changes nothing.
\<close>

section \<open>The calls\<close>

text \<open>\<open>zoo_get\<close> returns the code, the bytes it has stored at the start of the caller's buffer and the
  new value of \<open>*buffer_len\<close>; the flag of \<open>zoo_create\<close> stands for \<open>ZOO_SEQUENCE | ZOO_EPHEMERAL\<close>.\<close>

record 'z zookeeper =
  zoo_get :: "bytes \<Rightarrow> bool \<Rightarrow> int \<Rightarrow> 'z \<Rightarrow> (int \<times> bytes \<times> int) \<times> 'z"
  zoo_get_children :: "bytes \<Rightarrow> bool \<Rightarrow> 'z \<Rightarrow> (int \<times> bytes list) \<times> 'z"
  zoo_set :: "bytes \<Rightarrow> bytes \<Rightarrow> int \<Rightarrow> 'z \<Rightarrow> int \<times> 'z"
  zoo_create :: "bytes \<Rightarrow> bytes \<Rightarrow> bool \<Rightarrow> 'z \<Rightarrow> int \<times> 'z"
  zoo_exists :: "bytes \<Rightarrow> bool \<Rightarrow> 'z \<Rightarrow> int \<times> 'z"
  zoo_delete :: "bytes \<Rightarrow> int \<Rightarrow> 'z \<Rightarrow> int \<times> 'z"

abbreviation ZOK :: int where "ZOK \<equiv> 0"

datatype watch_event = Child_event | Changed_event | Other_event

section \<open>What the client promises\<close>

type_synonym 'z view_of = "'z \<Rightarrow> bytes \<Rightarrow> bytes option"

definition children_of :: "(bytes \<Rightarrow> bytes option) \<Rightarrow> bytes \<Rightarrow> bytes set" where
  "children_of t p = {c. c \<noteq> [] \<and> CHR ''/'' \<notin> set c \<and> t (p @ ''/'' @ c) \<noteq> None}"

definition get_law :: "'z zookeeper \<Rightarrow> 'z view_of \<Rightarrow> bool" where
  "get_law api tree \<longleftrightarrow> (\<forall>p w n z. \<exists>z'. tree z' = tree z \<and>
     (case tree z p of
        Some v \<Rightarrow> zoo_get api p w n z = ((ZOK, take (nat n) v, int (length (take (nat n) v))), z')
      | None \<Rightarrow> \<exists>rc. rc \<noteq> ZOK \<and> zoo_get api p w n z = ((rc, [], n), z')))"

definition children_law :: "'z zookeeper \<Rightarrow> 'z view_of \<Rightarrow> bool" where
  "children_law api tree \<longleftrightarrow> (\<forall>p w z. \<exists>z' rc cs. zoo_get_children api p w z = ((rc, cs), z') \<and> tree z' = tree z \<and>
     (tree z p \<noteq> None \<longrightarrow> rc = ZOK \<and> distinct cs \<and> set cs = children_of (tree z) p) \<and> (tree z p = None \<longrightarrow> rc \<noteq> ZOK))"

definition set_law :: "'z zookeeper \<Rightarrow> 'z view_of \<Rightarrow> bool" where
  "set_law api tree \<longleftrightarrow> (\<forall>p d z. \<exists>rc z'. zoo_set api p d (-1) z = (rc, z') \<and>
     tree z' = (if tree z p = None then tree z else (tree z)(p \<mapsto> d)) \<and> (rc = ZOK \<longleftrightarrow> tree z p \<noteq> None))"

definition create_law :: "'z zookeeper \<Rightarrow> 'z view_of \<Rightarrow> bool" where
  "create_law api tree \<longleftrightarrow> (\<forall>p d z. \<exists>rc z'. zoo_create api p d False z = (rc, z') \<and>
     (if tree z p = None then (rc = ZOK \<and> tree z' = (tree z)(p \<mapsto> d)) \<or> (rc \<noteq> ZOK \<and> tree z' = tree z)
      else rc \<noteq> ZOK \<and> tree z' = tree z))"

definition exists_law :: "'z zookeeper \<Rightarrow> 'z view_of \<Rightarrow> bool" where
  "exists_law api tree \<longleftrightarrow> (\<forall>p w z. \<exists>rc z'. zoo_exists api p w z = (rc, z') \<and> tree z' = tree z \<and> (rc = ZOK \<longleftrightarrow> tree z p \<noteq> None))"

definition delete_law :: "'z zookeeper \<Rightarrow> 'z view_of \<Rightarrow> bool" where
  "delete_law api tree \<longleftrightarrow> (\<forall>p z. \<exists>rc z'. zoo_delete api p (-1) z = (rc, z') \<and>
     (if tree z p = None \<or> children_of (tree z) p \<noteq> {} then rc \<noteq> ZOK \<and> tree z' = tree z
      else rc = ZOK \<and> tree z' = (tree z)(p := None)))"

definition keeper :: "'z zookeeper \<Rightarrow> 'z view_of \<Rightarrow> bool" where
  "keeper api tree \<longleftrightarrow> get_law api tree \<and> children_law api tree \<and> set_law api tree \<and> create_law api tree
     \<and> exists_law api tree \<and> delete_law api tree"

lemma keeper_get:
  assumes "keeper api tree" "tree z p = Some v"
  obtains z' where "zoo_get api p w n z = ((ZOK, take (nat n) v, int (length (take (nat n) v))), z')" "tree z' = tree z"
proof -
  have "get_law api tree" using assms(1) by (simp add: keeper_def)
  from this [unfolded get_law_def, rule_format, of z p w n] show thesis using that assms(2) by auto
qed

lemma keeper_no_get:
  assumes "keeper api tree" "tree z p = None"
  obtains z' rc where "zoo_get api p w n z = ((rc, [], n), z')" "tree z' = tree z" "rc \<noteq> ZOK"
proof -
  have "get_law api tree" using assms(1) by (simp add: keeper_def)
  from this [unfolded get_law_def, rule_format, of z p w n] show thesis using that assms(2) by auto
qed

lemma keeper_children:
  assumes "keeper api tree" "tree z p \<noteq> None"
  obtains z' cs where "zoo_get_children api p w z = ((ZOK, cs), z')" "tree z' = tree z" "distinct cs" "set cs = children_of (tree z) p"
  using assms unfolding keeper_def children_law_def by metis

lemma keeper_set:
  assumes "keeper api tree" "tree z p \<noteq> None"
  obtains z' where "zoo_set api p d (-1) z = (ZOK, z')" "tree z' = (tree z)(p \<mapsto> d)"
  using assms unfolding keeper_def set_law_def by metis

lemma keeper_no_set:
  assumes "keeper api tree" "tree z p = None"
  obtains z' rc where "zoo_set api p d (-1) z = (rc, z')" "tree z' = tree z"
  using assms unfolding keeper_def set_law_def by metis

lemma keeper_exists:
  assumes "keeper api tree"
  obtains z' rc where "zoo_exists api p w z = (rc, z')" "tree z' = tree z" "rc = ZOK \<longleftrightarrow> tree z p \<noteq> None"
  using assms unfolding keeper_def exists_law_def by metis

lemma keeper_create_again:
  assumes "keeper api tree" "tree z p \<noteq> None"
  obtains z' rc where "zoo_create api p d False z = (rc, z')" "tree z' = tree z" "rc \<noteq> ZOK"
  using assms unfolding keeper_def create_law_def by metis

lemma keeper_delete:
  assumes "keeper api tree" "tree z p \<noteq> None" "children_of (tree z) p = {}"
  obtains z' where "zoo_delete api p (-1) z = (ZOK, z')" "tree z' = (tree z)(p := None)"
  using assms unfolding keeper_def delete_law_def by metis

section \<open>A service in memory\<close>

text \<open>A service that keeps its nodes in an association list, for the concrete instances.\<close>

type_synonym nodes = "(bytes \<times> bytes) list"

definition mem_children :: "bytes \<Rightarrow> nodes \<Rightarrow> bytes list" where
  "mem_children p z = remdups (filter (\<lambda>c. c \<noteq> [] \<and> CHR ''/'' \<notin> set c)
     (map (\<lambda>e. drop (length p + 1) (fst e)) (filter (\<lambda>e. take (length p + 1) (fst e) = p @ ''/'') z)))"

definition memory :: "nodes zookeeper" where
  "memory = \<lparr>
     zoo_get = \<lambda>p w n z. (case map_of z p of None \<Rightarrow> (-101, [], n)
                 | Some v \<Rightarrow> (ZOK, take (nat n) v, int (length (take (nat n) v))), z),
     zoo_get_children = \<lambda>p w z. ((if map_of z p = None then -101 else ZOK, mem_children p z), z),
     zoo_set = \<lambda>p d v z. if map_of z p = None then (-101, z) else (ZOK, (p, d) # filter (\<lambda>e. fst e \<noteq> p) z),
     zoo_create = \<lambda>p d flags z. if map_of z p \<noteq> None then (-110, z) else (ZOK, z @ [(p, d)]),
     zoo_exists = \<lambda>p w z. (if map_of z p = None then -101 else ZOK, z),
     zoo_delete = \<lambda>p v z. if map_of z p = None \<or> mem_children p z \<noteq> [] then (-101, z)
                  else (ZOK, filter (\<lambda>e. fst e \<noteq> p) z)\<rparr>"

lemma map_of_removed: "map_of (filter (\<lambda>e. fst e \<noteq> p) z) = (map_of z)(p := None)"
  by (induction z) (auto simp: fun_eq_iff)

lemma set_mem_children: "set (mem_children p z) = children_of (map_of z) p"
proof (rule set_eqI)
  fix c
  have key: "take (length p + 1) k = p @ ''/'' \<and> c = drop (length p + 1) k \<longleftrightarrow> k = p @ ''/'' @ c" for k
  proof
    assume a: "take (length p + 1) k = p @ ''/'' \<and> c = drop (length p + 1) k"
    have "k = take (length p + 1) k @ drop (length p + 1) k" by (rule append_take_drop_id [symmetric])
    also have "\<dots> = (p @ ''/'') @ c" using a by (simp only:)
    finally show "k = p @ ''/'' @ c" by simp
  qed simp
  have "c \<in> set (mem_children p z) \<longleftrightarrow> c \<noteq> [] \<and> CHR ''/'' \<notin> set c
      \<and> (\<exists>e\<in>set z. take (length p + 1) (fst e) = p @ ''/'' \<and> c = drop (length p + 1) (fst e))"
    unfolding mem_children_def by (simp only: set_remdups set_filter set_map image_def mem_Collect_eq) blast
  also have "\<dots> \<longleftrightarrow> c \<noteq> [] \<and> CHR ''/'' \<notin> set c \<and> p @ ''/'' @ c \<in> fst ` set z"
    unfolding key image_iff by metis
  also have "\<dots> \<longleftrightarrow> c \<in> children_of (map_of z) p"
    unfolding children_of_def by (simp only: mem_Collect_eq map_of_eq_None_iff) blast
  finally show "c \<in> set (mem_children p z) \<longleftrightarrow> c \<in> children_of (map_of z) p" .
qed

lemma memory_keeper: "keeper memory map_of"
proof -
  have "get_law memory map_of" by (auto simp: get_law_def memory_def split: option.splits)
  moreover have "children_law memory map_of"
    by (auto simp: children_law_def memory_def set_mem_children) (simp_all add: mem_children_def)
  moreover have "set_law memory map_of" by (auto simp: set_law_def memory_def map_of_removed)
  moreover have "create_law memory map_of" by (auto simp: create_law_def memory_def map_add_def fun_eq_iff split: option.splits)
  moreover have "exists_law memory map_of" by (auto simp: exists_law_def memory_def)
  moreover have "delete_law memory map_of"
    by (auto simp: delete_law_def memory_def map_of_removed simp flip: set_mem_children)
  ultimately show ?thesis by (simp add: keeper_def)
qed

end
