(* ===== verification/Dispatcher.thy ===== *)
theory Dispatcher
  imports Zookeeper "HOL-Library.List_Lexorder" "HOL-Library.Char_ord"
begin

text \<open>
  The dispatcher (\<open>_zk_server/clust_comm.cpp\<close>): processes register under \<open>/elect\<close> and
  \<open>/works\<close>, one becomes the monitor, the monitor hands the files of \<open>/files\<close> to idle workers.

  The state of the service is a \<open>'z\<close>, changed by the calls of \<open>zookeeper\<close>; \<open>g_mode\<close> is part of
  the process. Printing and \<open>sleep\<close> have no effect on them and are left out. \<open>me\<close> is the text
  that \<open>getlocalhost\<close> stores; the address and the process id do not change.
\<close>

section \<open>State\<close>

datatype work_mode = MODE_MONITOR | MODE_WORKER

record 'z process =
  pr_zk :: 'z
  pr_mode :: work_mode

definition g_path_elect :: bytes where "g_path_elect = ''/elect''"
definition g_path_works :: bytes where "g_path_works = ''/works''"
definition g_path_files :: bytes where "g_path_files = ''/files''"

text \<open>\<open>sprintf(path, "%s/%s", \<dots>)\<close> into an array of 512 cells.\<close>

definition path_in :: "bytes \<Rightarrow> bytes \<Rightarrow> bytes result" where
  "path_in dir name = sprint 512 (dir @ ''/'' @ name)"

text \<open>\<open>zoo_get\<close> into a buffer; the length argument is read and set.\<close>

definition read_node :: "'z zookeeper \<Rightarrow> bytes \<Rightarrow> bool \<Rightarrow> bytes \<Rightarrow> int \<Rightarrow> 'z \<Rightarrow> (int \<times> bytes \<times> int \<times> 'z) result" where
  "read_node api path watch buf len z =
     (case zoo_get api path watch len z of
        ((rc, d, len'), z') \<Rightarrow> and_then (overwrite buf d) (\<lambda>buf'. Inr (rc, buf', len', z')))"

text \<open>\<open>zoo_get_children\<close> into a local vector, which stays unset when the call fails.\<close>

definition list_nodes :: "'z zookeeper \<Rightarrow> bytes \<Rightarrow> bool \<Rightarrow> 'z \<Rightarrow> (bytes list \<times> 'z) result" where
  "list_nodes api path watch z =
     (case zoo_get_children api path watch z of
        ((rc, cs), z') \<Rightarrow> if rc = ZOK then Inr (cs, z') else Inl Undef)"

section \<open>Files\<close>

definition insr2clst :: "'z zookeeper \<Rightarrow> bytes \<Rightarrow> 'z \<Rightarrow> 'z result" where
  "insr2clst api file_no z =
     and_then (path_in g_path_files file_no) (\<lambda>child_path. Inr (snd (zoo_create api child_path ''r'' False z)))"

definition dlt :: "'z zookeeper \<Rightarrow> bytes \<Rightarrow> 'z \<Rightarrow> 'z result" where
  "dlt api file_no z =
     and_then (path_in g_path_files file_no) (\<lambda>child_path.
       case zoo_delete api child_path (-1) z of
         (ret, z') \<Rightarrow> if ret \<noteq> 0 then Inl Exit_failure else Inr z')"

text \<open>\<open>value\<close> is a C string; one byte of it is stored.\<close>

definition st_file :: "'z zookeeper \<Rightarrow> bytes \<Rightarrow> bytes \<Rightarrow> 'z \<Rightarrow> 'z result" where
  "st_file api file_no v z =
     and_then (path_in g_path_files file_no) (\<lambda>child_path.
       Inr (snd (zoo_set api child_path (take 1 (v @ [NUL])) (-1) z)))"

definition gt_file :: "'z zookeeper \<Rightarrow> bytes \<Rightarrow> 'z \<Rightarrow> (bytes \<times> 'z) result" where
  "gt_file api file_no z =
     and_then (path_in g_path_files file_no) (\<lambda>work_path.
     and_then (read_node api work_path False (replicate 64 NUL) 64 z) (\<lambda>(rc, v, len, z').
     and_then (text_of v) (\<lambda>res.
     and_then (substr res 0 len) (\<lambda>res'. Inr (res', z')))))"

text \<open>\<open>while (ret != ZOK) ret = zoo_create(\<dots>)\<close>; \<open>None\<close> when the loop has not ended within the fuel.\<close>

fun create_until :: "'z zookeeper \<Rightarrow> bytes \<Rightarrow> bytes \<Rightarrow> nat \<Rightarrow> int \<Rightarrow> 'z \<Rightarrow> 'z option" where
  "create_until api path d fuel ret z =
     (if ret = ZOK then Some z
      else case fuel of 0 \<Rightarrow> None
           | Suc n \<Rightarrow> (case zoo_create api path d False z of (ret', z') \<Rightarrow> create_until api path d n ret' z'))"

declare create_until.simps [simp del]

definition ensure_node :: "'z zookeeper \<Rightarrow> bytes \<Rightarrow> bytes \<Rightarrow> nat \<Rightarrow> 'z \<Rightarrow> 'z option" where
  "ensure_node api path d fuel z =
     (case zoo_exists api path False z of (ret, z') \<Rightarrow> create_until api path d fuel ret z')"

definition create :: "'z zookeeper \<Rightarrow> nat \<Rightarrow> 'z \<Rightarrow> 'z option" where
  "create api fuel z = ensure_node api g_path_files ''file'' fuel z"

definition create_works :: "'z zookeeper \<Rightarrow> nat \<Rightarrow> 'z \<Rightarrow> 'z option" where
  "create_works api fuel z = ensure_node api g_path_works ''work'' fuel z"

definition create_elect :: "'z zookeeper \<Rightarrow> nat \<Rightarrow> 'z \<Rightarrow> 'z option" where
  "create_elect api fuel z = ensure_node api g_path_elect ''elct'' fuel z"

section \<open>The address of a process\<close>

text \<open>\<open>ioctl\<close> gives the text of a device's address or fails.\<close>

fun first_address :: "(bytes \<Rightarrow> bytes option) \<Rightarrow> bytes list \<Rightarrow> bytes \<Rightarrow> bool \<times> bytes" where
  "first_address ioctl [] strip = (False, strip)"
| "first_address ioctl (d # ds) strip =
     (case ioctl d of
        None \<Rightarrow> first_address ioctl ds strip
      | Some t \<Rightarrow> if t \<noteq> [] then (True, t) else first_address ioctl ds t)"

definition GetIP :: "(bytes \<Rightarrow> bytes option) \<Rightarrow> bytes list \<Rightarrow> bytes \<Rightarrow> bool \<times> bytes" where
  "GetIP ioctl vNetType strip =
     first_address ioctl (concat (map (\<lambda>ty. map (\<lambda>i. ty @ [digit_char i]) [0..<10]) vNetType)) strip"

definition getlocalhost :: "(bytes \<Rightarrow> bytes option) \<Rightarrow> int \<Rightarrow> nat \<Rightarrow> bytes" where
  "getlocalhost ioctl pid len = take (len - 1) (snd (GetIP ioctl [''eth''] []) @ '':'' @ to_string pid)"

section \<open>Handing out work\<close>

definition set_wk_st :: "'z zookeeper \<Rightarrow> bytes \<Rightarrow> 'z \<Rightarrow> 'z result" where
  "set_wk_st api me z =
     and_then (path_in g_path_works me) (\<lambda>child_path. Inr (snd (zoo_set api child_path ''s'' (-1) z)))"

text \<open>\<open>(stoi(fileno) + 4) % 5\<close> in \<open>int\<close>, with C's remainder.\<close>

definition calc_dest_no :: "bytes \<Rightarrow> bytes result" where
  "calc_dest_no fileno =
     and_then (stoi fileno) (\<lambda>n.
       if in_int (n + 4) then Inr (to_string (c_rem (n + 4) 5)) else Inl Undef)"

text \<open>The local variables of \<open>dispatch_work\<close> that live through its loops.\<close>

record 'z scan =
  sc_zk :: 'z
  sc_fl_st :: bytes
  sc_fl_st_len :: int
  sc_wk_st :: bytes
  sc_wk_st_len :: int

definition read_worker :: "'z zookeeper \<Rightarrow> bytes \<Rightarrow> 'z scan \<Rightarrow> 'z scan result" where
  "read_worker api path s =
     and_then (read_node api path True (sc_wk_st s) (sc_wk_st_len s) (sc_zk s)) (\<lambda>(rc, buf, len, z).
       Inr (s\<lparr>sc_zk := z, sc_wk_st := buf, sc_wk_st_len := len\<rparr>))"

definition read_file_state :: "'z zookeeper \<Rightarrow> bytes \<Rightarrow> 'z scan \<Rightarrow> 'z scan result" where
  "read_file_state api path s =
     and_then (read_node api path False (sc_fl_st s) (sc_fl_st_len s) (sc_zk s)) (\<lambda>(rc, buf, len, z).
       Inr (s\<lparr>sc_zk := z, sc_fl_st := buf, sc_fl_st_len := len\<rparr>))"

definition put_work :: "'z zookeeper \<Rightarrow> bytes \<Rightarrow> bytes \<Rightarrow> 'z scan \<Rightarrow> 'z scan result" where
  "put_work api path t s =
     and_then (sprint 512 t) (\<lambda>wk_con.
       Inr (s\<lparr>sc_zk := snd (zoo_set api path (zero_filled 512 wk_con) (-1) (sc_zk s))\<rparr>))"

text \<open>The inner loop for one ready file, over the workers from \<open>i_wks\<close> on; the result holds the
  workers that are left. After \<open>break\<close> the worker just served is still the first of them.\<close>

fun serve_file :: "'z zookeeper \<Rightarrow> bytes \<Rightarrow> bytes \<Rightarrow> bytes list \<Rightarrow> 'z scan \<Rightarrow> (bytes list \<times> 'z scan) result" where
  "serve_file api me f [] s = Inr ([], s)"
| "serve_file api me f (w # ws) s =
     and_then (path_in g_path_works w) (\<lambda>wkno_path.
     and_then (read_worker api wkno_path s) (\<lambda>s.
       if hd (sc_wk_st s) = CHR ''s'' \<and> me \<noteq> w then
         and_then (calc_dest_no f) (\<lambda>dest.
         and_then (put_work api wkno_path (''w_'' @ f @ ''_'' @ dest) s) (\<lambda>s. Inr (w # ws, s)))
       else serve_file api me f ws s))"

text \<open>The loop over the files; the flag says that it came to the end of the files.\<close>

fun serve_files :: "'z zookeeper \<Rightarrow> bytes \<Rightarrow> bytes list \<Rightarrow> bytes list \<Rightarrow> 'z scan \<Rightarrow> (bool \<times> bytes list \<times> 'z scan) result" where
  "serve_files api me [] ws s = Inr (True, ws, s)"
| "serve_files api me (f # fs) ws s =
     and_then (path_in g_path_files f) (\<lambda>flno_path.
     and_then (read_file_state api flno_path s) (\<lambda>s.
       if hd (sc_fl_st s) = CHR ''r'' then
         and_then (serve_file api me f ws s) (\<lambda>(ws', s).
           if ws' = [] then Inr (False, ws', s) else serve_files api me fs ws' s)
       else serve_files api me fs ws s))"

text \<open>The last loop tells the idle workers that are left to stop.\<close>

fun dismiss :: "'z zookeeper \<Rightarrow> bytes \<Rightarrow> bytes list \<Rightarrow> 'z scan \<Rightarrow> 'z scan result" where
  "dismiss api me [] s = Inr s"
| "dismiss api me (w # ws) s =
     and_then (path_in g_path_works w) (\<lambda>wkno_path.
     and_then (read_worker api wkno_path s) (\<lambda>s.
       if hd (sc_wk_st s) = CHR ''s'' \<and> me \<noteq> w then
         and_then (put_work api wkno_path (''w_'' @ to_string (-1)) s) (\<lambda>s. dismiss api me ws s)
       else dismiss api me ws s))"

definition dispatch_work :: "'z zookeeper \<Rightarrow> bytes \<Rightarrow> 'z \<Rightarrow> 'z result" where
  "dispatch_work api me z =
     and_then (list_nodes api g_path_files False z) (\<lambda>(fls, z).
     and_then (list_nodes api g_path_works True z) (\<lambda>(wks, z).
     and_then (serve_files api me fls wks
         \<lparr>sc_zk = z, sc_fl_st = replicate 64 NUL, sc_fl_st_len = 64, sc_wk_st = replicate 64 NUL, sc_wk_st_len = 64\<rparr>)
       (\<lambda>(all_files, ws, s).
         if all_files then and_then (dismiss api me ws s) (\<lambda>s. Inr (sc_zk s)) else Inr (sc_zk s))))"

definition recv_work :: "'z zookeeper \<Rightarrow> bytes \<Rightarrow> 'z \<Rightarrow> (bytes \<times> 'z) result" where
  "recv_work api me z =
     and_then (path_in g_path_works me) (\<lambda>work_path.
     and_then (read_node api work_path True (replicate 64 NUL) 64 z) (\<lambda>(rc, wk_cont, len, z').
     and_then (text_of (if hd wk_cont = CHR ''w'' then wk_cont else replicate 64 NUL)) (\<lambda>t. Inr (t, z'))))"

definition get_workers :: "'z zookeeper \<Rightarrow> 'z \<Rightarrow> (bytes list \<times> 'z) result" where
  "get_workers api z = list_nodes api g_path_works True z"

section \<open>Election\<close>

fun least_name :: "bytes \<Rightarrow> bytes list \<Rightarrow> bytes result" where
  "least_name master [] = Inr master"
| "least_name master (p # ps) =
     (if p < master then and_then (sprint 512 p) (\<lambda>p. least_name p ps) else least_name master ps)"

definition choose_mater :: "'z zookeeper \<Rightarrow> bytes \<Rightarrow> bytes \<Rightarrow> 'z process \<Rightarrow> 'z process result" where
  "choose_mater api me path p =
     and_then (list_nodes api path True (pr_zk p)) (\<lambda>(procs, z).
       case procs of
         [] \<Rightarrow> Inr (p\<lparr>pr_zk := z\<rparr>)
       | c # cs \<Rightarrow>
           and_then (and_then (sprint 512 c) (\<lambda>c. least_name c cs)) (\<lambda>master.
           and_then (path_in path master) (\<lambda>master_path.
           and_then (read_node api master_path False (replicate 64 NUL) 64 z) (\<lambda>(ret, ip_pid, len, z).
             if ret \<noteq> ZOK then Inr (p\<lparr>pr_zk := z\<rparr>)
             else and_then (text_of ip_pid) (\<lambda>t.
               Inr (p\<lparr>pr_zk := z, pr_mode := (if t = me then MODE_MONITOR else MODE_WORKER)\<rparr>))))))"

definition identify :: "'z zookeeper \<Rightarrow> bytes \<Rightarrow> bytes \<Rightarrow> 'z process \<Rightarrow> 'z process result" where
  "identify api me path p =
     and_then (list_nodes api path True (pr_zk p)) (\<lambda>(procs, z).
       if length procs = 0 then Inr (p\<lparr>pr_zk := z\<rparr>)
       else if length procs = 1 then Inr (p\<lparr>pr_zk := z, pr_mode := MODE_MONITOR\<rparr>)
       else choose_mater api me path (p\<lparr>pr_zk := z\<rparr>))"

text \<open>24 bytes of the zero-filled buffer of the name are stored in the election node.\<close>

definition regist :: "'z zookeeper \<Rightarrow> bytes \<Rightarrow> 'z \<Rightarrow> 'z result" where
  "regist api me z =
     and_then (sprint 512 (g_path_elect @ ''/proc-'')) (\<lambda>child_path.
       let z1 = snd (zoo_create api child_path (take 24 (zero_filled 512 me)) True z)
       in and_then (path_in g_path_works me) (\<lambda>child_path.
            Inr (snd (zoo_create api child_path ''s'' False z1))))"

text \<open>Reading every child with a watch, as \<open>monitor_work\<close> does for its printout.\<close>

fun read_all :: "'z zookeeper \<Rightarrow> bytes \<Rightarrow> bytes list \<Rightarrow> bytes \<Rightarrow> int \<Rightarrow> 'z \<Rightarrow> 'z result" where
  "read_all api path [] buf len z = Inr z"
| "read_all api path (c # cs) buf len z =
     and_then (path_in path c) (\<lambda>child_path.
     and_then (read_node api child_path True buf len z) (\<lambda>(rc, buf, len, z). read_all api path cs buf len z))"

definition monitor_work :: "'z zookeeper \<Rightarrow> bytes \<Rightarrow> bytes \<Rightarrow> 'z process \<Rightarrow> 'z process result" where
  "monitor_work api me path p =
     (if pr_mode p = MODE_MONITOR then
        and_then (list_nodes api path True (pr_zk p)) (\<lambda>(children, z).
        and_then (read_all api path children (replicate 1024 NUL) 1024 z) (\<lambda>z. Inr (p\<lparr>pr_zk := z\<rparr>)))
      else and_then (path_in path me) (\<lambda>child_path.
        Inr (p\<lparr>pr_zk := snd (zoo_exists api child_path True (pr_zk p))\<rparr>)))"

section \<open>Recovery after a process has gone\<close>

text \<open>The election loop; \<open>string(ip_pid)\<close> is cut to the length the call has set.\<close>

fun elected :: "'z zookeeper \<Rightarrow> bytes list \<Rightarrow> int \<Rightarrow> 'z \<Rightarrow> (bytes set \<times> 'z) result" where
  "elected api [] len z = Inr ({}, z)"
| "elected api (c # cs) len z =
     and_then (path_in g_path_elect c) (\<lambda>master_path.
     and_then (read_node api master_path False (replicate 64 NUL) len z) (\<lambda>(rc, ip_pid, len, z).
     and_then (text_of ip_pid) (\<lambda>t.
     and_then (substr t 0 len) (\<lambda>s.
     and_then (elected api cs len z) (\<lambda>(dct, z). Inr (insert s dct, z))))))"

text \<open>The file a dead worker had: its state from the second byte on, as a C string.\<close>

definition reset_file :: "'z zookeeper \<Rightarrow> bytes \<Rightarrow> int \<Rightarrow> 'z \<Rightarrow> 'z result" where
  "reset_file api wks_st n z =
     (if n < 0 \<or> int (length wks_st) \<le> n then Inl Undef
      else and_then (overwrite (replicate 64 NUL) (take (nat n) (tl wks_st))) (\<lambda>wk_flno.
           and_then (text_of wk_flno) (\<lambda>t.
           and_then (path_in g_path_files t) (\<lambda>file_path. Inr (snd (zoo_set api file_path ''r'' (-1) z))))))"

fun bury :: "'z zookeeper \<Rightarrow> bytes set \<Rightarrow> bytes list \<Rightarrow> int \<Rightarrow> 'z \<Rightarrow> 'z result" where
  "bury api dct [] len z = Inr z"
| "bury api dct (w # ws) len z =
     (if w \<in> dct then bury api dct ws len z
      else and_then (path_in g_path_works w) (\<lambda>wks_path.
           and_then (read_node api wks_path False (replicate 64 CHR ''0'') len z) (\<lambda>(rc, wks_st, len, z).
           and_then (if hd wks_st = CHR ''w'' then reset_file api wks_st (len - 1) z else Inr z) (\<lambda>z.
             bury api dct ws len (snd (zoo_delete api wks_path (-1) z))))))"

definition recover :: "'z zookeeper \<Rightarrow> bytes \<Rightarrow> 'z \<Rightarrow> 'z result" where
  "recover api me z =
     and_then (path_in g_path_works me) (\<lambda>work_path.
     and_then (read_node api work_path True (replicate 64 NUL) 64 z) (\<lambda>(rc, wk_cont, len, z).
     and_then (if hd wk_cont = CHR ''w''
               then and_then (reset_file api wk_cont 63 z) (\<lambda>z. Inr (snd (zoo_set api work_path ''s'' (-1) z)))
               else Inr z) (\<lambda>z.
     and_then (list_nodes api g_path_elect True z) (\<lambda>(procs, z).
     and_then (elected api procs 64 z) (\<lambda>(dct, z).
     and_then (list_nodes api g_path_works True z) (\<lambda>(wks, z).
       bury api dct wks 64 z))))))"

definition reelect :: "'z zookeeper \<Rightarrow> bytes \<Rightarrow> 'z process \<Rightarrow> 'z process result" where
  "reelect api me p =
     and_then (list_nodes api g_path_elect True (pr_zk p)) (\<lambda>(els, z).
     and_then (list_nodes api g_path_works True z) (\<lambda>(wks, z).
       if length els \<noteq> length wks then
         and_then (choose_mater api me g_path_elect (p\<lparr>pr_zk := z\<rparr>)) (\<lambda>p.
           if pr_mode p = MODE_MONITOR
           then and_then (recover api me (pr_zk p)) (\<lambda>z. Inr (p\<lparr>pr_zk := z\<rparr>)) else Inr p)
       else Inr (p\<lparr>pr_zk := z\<rparr>)))"

section \<open>Events\<close>

text \<open>\<open>memcpy(e_path, path, 6)\<close> reads six bytes of the path and its terminator.\<close>

definition zktest_watcher_g ::
    "'z zookeeper \<Rightarrow> bytes \<Rightarrow> watch_event \<Rightarrow> bool \<Rightarrow> bytes \<Rightarrow> 'z process \<Rightarrow> 'z process result" where
  "zktest_watcher_g api me ty connected path p =
     (if length path + 1 < 6 then Inl Undef
      else let e_path = take 6 path in
        if pr_mode p = MODE_MONITOR then
          if e_path = g_path_works \<and> (ty = Child_event \<or> ty = Changed_event) \<and> connected
          then and_then (dispatch_work api me (pr_zk p)) (\<lambda>z. Inr (p\<lparr>pr_zk := z\<rparr>))
          else if e_path = g_path_elect \<and> ty = Child_event \<and> connected then reelect api me p
          else Inr p
        else
          if e_path = g_path_works \<and> 6 < length path \<and> ty = Changed_event \<and> connected
          then and_then (recv_work api me (pr_zk p)) (\<lambda>(t, z). Inr (p\<lparr>pr_zk := z\<rparr>))
          else if e_path = g_path_elect \<and> ty = Child_event \<and> connected then reelect api me p
          else Inr p)"

text \<open>\<open>PREWORK\<close>; \<open>None\<close> when one of the first two loops has not ended within the fuel.\<close>

definition PREWORK :: "'z zookeeper \<Rightarrow> bytes \<Rightarrow> nat \<Rightarrow> 'z process \<Rightarrow> 'z process result option" where
  "PREWORK api me fuel p =
     (case create_works api fuel (pr_zk p) of None \<Rightarrow> None | Some z \<Rightarrow>
      case create_elect api fuel z of None \<Rightarrow> None | Some z \<Rightarrow>
        Some (and_then (regist api me z) (\<lambda>z.
              and_then (identify api me g_path_elect (p\<lparr>pr_zk := z\<rparr>)) (\<lambda>p. monitor_work api me g_path_works p))))"

end
