(* ===== verification/DispatchSpec.thy ===== *)
theory DispatchSpec
  imports Dispatcher
begin

text \<open>
  What the dispatcher does to the nodes of the service, for a service that keeps \<open>keeper\<close>'s
  promises: one call of \<open>dispatch_work\<close> gives the ready files to the idle workers one by one and
  tells the idle workers left over to stop.
\<close>

section \<open>Reading nodes\<close>

definition node :: "bytes \<Rightarrow> bytes \<Rightarrow> bytes" where
  "node dir name = dir @ ''/'' @ name"

lemma node_inj [simp]: "node d a = node d b \<longleftrightarrow> a = b"
  by (simp add: node_def)

lemma node_dirs [simp]:
  "node g_path_works a \<noteq> node g_path_files b" "node g_path_files b \<noteq> node g_path_works a"
  "node g_path_works a \<noteq> node g_path_elect b" "node g_path_elect b \<noteq> node g_path_works a"
  by (simp_all add: node_def g_path_works_def g_path_files_def g_path_elect_def)

lemma path_in_node: "length dir + length name + 1 < 512 \<Longrightarrow> path_in dir name = Inr (node dir name)"
  by (simp add: path_in_def node_def)

text \<open>A call that reads an existing node leaves the tree alone and puts the start of the data at
  the start of the buffer.\<close>

lemma read_node_ok:
  assumes "keeper api tree" "tree z p = Some v" "length (take (nat n) v) \<le> length buf"
  obtains z' where "read_node api p w buf n z =
      Inr (ZOK, take (nat n) v @ drop (length (take (nat n) v)) buf, int (length (take (nat n) v)), z')"
    "tree z' = tree z"
proof -
  obtain z' where "zoo_get api p w n z = ((ZOK, take (nat n) v, int (length (take (nat n) v))), z')" "tree z' = tree z"
    by (rule keeper_get [OF assms(1,2)])
  then show thesis using that assms(3) by (simp add: read_node_def overwrite_def)
qed

text \<open>A buffer of 64 bytes and its length between the calls.\<close>

definition buffer_ok :: "bytes \<Rightarrow> int \<Rightarrow> bool" where
  "buffer_ok buf n \<longleftrightarrow> length buf = 64 \<and> 0 < n \<and> n \<le> 64"

lemma buffer_read:
  assumes "keeper api tree" "tree z p = Some v" "v \<noteq> []" "buffer_ok buf n"
  obtains rc buf' n' z' where "read_node api p w buf n z = Inr (rc, buf', n', z')" "tree z' = tree z"
    "buffer_ok buf' n'" "hd buf' = hd v"
proof -
  have n: "length (take (nat n) v) \<le> length buf" "0 < length (take (nat n) v)" "int (length (take (nat n) v)) \<le> 64"
    using assms(3,4) by (auto simp: buffer_ok_def)
  obtain z' where z: "read_node api p w buf n z =
      Inr (ZOK, take (nat n) v @ drop (length (take (nat n) v)) buf, int (length (take (nat n) v)), z')" "tree z' = tree z"
    using read_node_ok [OF assms(1,2) n(1), of w] by blast
  have "buffer_ok (take (nat n) v @ drop (length (take (nat n) v)) buf) (int (length (take (nat n) v)))"
    using n assms(4) by (auto simp: buffer_ok_def)
  moreover have "hd (take (nat n) v @ drop (length (take (nat n) v)) buf) = hd v"
    using n(2) assms(3,4) by (cases v) (auto simp: buffer_ok_def take_Cons' hd_append)
  ultimately show thesis using that z by blast
qed

section \<open>One file\<close>

text \<open>The service as the dispatcher expects it: file numbers the code can compute with, names that
  fit the path buffers, no empty data.\<close>

definition idle_worker :: "bytes \<Rightarrow> (bytes \<Rightarrow> bytes option) \<Rightarrow> bytes \<Rightarrow> bool" where
  "idle_worker me t w \<longleftrightarrow> w \<noteq> me \<and> (\<exists>v. t (node g_path_works w) = Some (CHR ''s'' # v))"

definition ready_file :: "(bytes \<Rightarrow> bytes option) \<Rightarrow> bytes \<Rightarrow> bool" where
  "ready_file t f \<longleftrightarrow> (\<exists>v. t (node g_path_files f) = Some (CHR ''r'' # v))"

definition worker_ok :: "(bytes \<Rightarrow> bytes option) \<Rightarrow> bytes \<Rightarrow> bool" where
  "worker_ok t w \<longleftrightarrow> length w < 400 \<and> (\<exists>c v. t (node g_path_works w) = Some (c # v))"

definition file_ok :: "(bytes \<Rightarrow> bytes option) \<Rightarrow> bytes \<Rightarrow> bool" where
  "file_ok t f \<longleftrightarrow> length f < 40 \<and> (\<exists>c v. t (node g_path_files f) = Some (c # v)) \<and> (\<exists>d. calc_dest_no f = Inr d)"

definition dest_of :: "bytes \<Rightarrow> bytes" where
  "dest_of f = (case calc_dest_no f of Inr d \<Rightarrow> d | _ \<Rightarrow> [])"

definition work_text :: "bytes \<Rightarrow> bytes" where
  "work_text f = ''w_'' @ f @ ''_'' @ dest_of f"

definition stop_text :: bytes where
  "stop_text = ''w_'' @ to_string (-1)"

definition scan_ok :: "'z scan \<Rightarrow> bool" where
  "scan_ok s \<longleftrightarrow> buffer_ok (sc_fl_st s) (sc_fl_st_len s) \<and> buffer_ok (sc_wk_st s) (sc_wk_st_len s)"

lemma calc_dest_short: "calc_dest_no f = Inr d \<Longrightarrow> length d \<le> 11"
proof -
  assume "calc_dest_no f = Inr d"
  then obtain n where "d = to_string (c_rem n 5)"
    by (auto simp: calc_dest_no_def and_then_def split: sum.splits if_split_asm)
  moreover have "in_int (c_rem n 5)" using c_rem_bound [of 5 n] by (simp add: in_int_def abs_less_iff)
  ultimately show ?thesis using length_to_string by simp
qed

lemma file_ok_text: "file_ok t f \<Longrightarrow> calc_dest_no f = Inr (dest_of f) \<and> length (work_text f) < 64"
  using calc_dest_short by (fastforce simp: file_ok_def dest_of_def work_text_def)

lemma read_worker_ok:
  assumes "keeper api tree" "worker_ok (tree (sc_zk s)) w" "scan_ok s"
  obtains s' where "read_worker api (node g_path_works w) s = Inr s'" "tree (sc_zk s') = tree (sc_zk s)" "scan_ok s'"
    "(hd (sc_wk_st s') = CHR ''s'' \<and> me \<noteq> w) = idle_worker me (tree (sc_zk s)) w"
proof -
  obtain c v where v: "tree (sc_zk s) (node g_path_works w) = Some (c # v)" using assms(2) by (auto simp: worker_ok_def)
  have b: "buffer_ok (sc_wk_st s) (sc_wk_st_len s)" using assms(3) by (simp add: scan_ok_def)
  obtain rc buf n z where r: "read_node api (node g_path_works w) True (sc_wk_st s) (sc_wk_st_len s) (sc_zk s) = Inr (rc, buf, n, z)"
      "tree z = tree (sc_zk s)" "buffer_ok buf n" "hd buf = c"
    using buffer_read [OF assms(1) v _ b] by (metis list.distinct(1) list.sel(1))
  show thesis
    using that [of "s\<lparr>sc_zk := z, sc_wk_st := buf, sc_wk_st_len := n\<rparr>"] r v assms(3)
    by (auto simp: read_worker_def scan_ok_def idle_worker_def)
qed

lemma read_file_ok:
  assumes "keeper api tree" "file_ok (tree (sc_zk s)) f" "scan_ok s"
  obtains s' where "read_file_state api (node g_path_files f) s = Inr s'" "tree (sc_zk s') = tree (sc_zk s)" "scan_ok s'"
    "(hd (sc_fl_st s') = CHR ''r'') = ready_file (tree (sc_zk s)) f"
proof -
  obtain c v where v: "tree (sc_zk s) (node g_path_files f) = Some (c # v)" using assms(2) by (auto simp: file_ok_def)
  have b: "buffer_ok (sc_fl_st s) (sc_fl_st_len s)" using assms(3) by (simp add: scan_ok_def)
  obtain rc buf n z where r: "read_node api (node g_path_files f) False (sc_fl_st s) (sc_fl_st_len s) (sc_zk s) = Inr (rc, buf, n, z)"
      "tree z = tree (sc_zk s)" "buffer_ok buf n" "hd buf = c"
    using buffer_read [OF assms(1) v _ b] by (metis list.distinct(1) list.sel(1))
  show thesis
    using that [of "s\<lparr>sc_zk := z, sc_fl_st := buf, sc_fl_st_len := n\<rparr>"] r v assms(3)
    by (auto simp: read_file_state_def scan_ok_def ready_file_def)
qed

lemma put_work_ok:
  assumes "keeper api tree" "worker_ok (tree (sc_zk s)) w" "scan_ok s" "length t < 512"
  obtains s' where "put_work api (node g_path_works w) t s = Inr s'" "scan_ok s'"
    "tree (sc_zk s') = (tree (sc_zk s))(node g_path_works w \<mapsto> zero_filled 512 t)"
proof -
  have "tree (sc_zk s) (node g_path_works w) \<noteq> None" using assms(2) by (auto simp: worker_ok_def)
  then obtain z' where z: "zoo_set api (node g_path_works w) (zero_filled 512 t) (-1) (sc_zk s) = (ZOK, z')"
      "tree z' = (tree (sc_zk s))(node g_path_works w \<mapsto> zero_filled 512 t)"
    by (rule keeper_set [OF assms(1)])
  show thesis
    using that [of "s\<lparr>sc_zk := z'\<rparr>"] z assms(3,4) by (simp add: put_work_def scan_ok_def)
qed

text \<open>The first idle worker gets the file.\<close>

lemma serve_file_ok:
  assumes "keeper api tree" "file_ok t0 f"
  shows "scan_ok s \<Longrightarrow> \<forall>w\<in>set ws. worker_ok (tree (sc_zk s)) w \<Longrightarrow>
    \<exists>s'. serve_file api me f ws s = Inr (dropWhile (\<lambda>w. \<not> idle_worker me (tree (sc_zk s)) w) ws, s') \<and> scan_ok s' \<and>
      tree (sc_zk s') = (case dropWhile (\<lambda>w. \<not> idle_worker me (tree (sc_zk s)) w) ws of [] \<Rightarrow> tree (sc_zk s)
        | w # _ \<Rightarrow> (tree (sc_zk s))(node g_path_works w \<mapsto> zero_filled 512 (work_text f)))"
proof (induction ws arbitrary: s)
  case (Cons w ws)
  note dest = file_ok_text [OF assms(2)]
  have w: "worker_ok (tree (sc_zk s)) w" using Cons.prems(2) by simp
  then have p: "path_in g_path_works w = Inr (node g_path_works w)"
    by (auto simp: worker_ok_def g_path_works_def intro: path_in_node)
  obtain s1 where s1: "read_worker api (node g_path_works w) s = Inr s1" "tree (sc_zk s1) = tree (sc_zk s)" "scan_ok s1"
      "(hd (sc_wk_st s1) = CHR ''s'' \<and> me \<noteq> w) = idle_worker me (tree (sc_zk s)) w"
    by (rule read_worker_ok [OF assms(1) w Cons.prems(1)])
  show ?case
  proof (cases "idle_worker me (tree (sc_zk s)) w")
    case True
    have "worker_ok (tree (sc_zk s1)) w" using w s1(2) by simp
    moreover have "length (work_text f) < 512" using dest by simp
    ultimately obtain s2 where "put_work api (node g_path_works w) (work_text f) s1 = Inr s2" "scan_ok s2"
        "tree (sc_zk s2) = (tree (sc_zk s1))(node g_path_works w \<mapsto> zero_filled 512 (work_text f))"
      by (rule put_work_ok [OF assms(1) _ s1(3)])
    then show ?thesis using True s1(1,2,4) dest p unfolding work_text_def by (simp del: fun_upd_apply)
  next
    case False
    have "\<forall>w\<in>set ws. worker_ok (tree (sc_zk s1)) w" using Cons.prems(2) s1(2) by simp
    note IH = Cons.IH [OF s1(3) this]
    have busy: "(hd (sc_wk_st s1) = CHR ''s'' \<and> me \<noteq> w) = False" using False s1(4) by simp
    show ?thesis using IH False unfolding s1(2) serve_file.simps p s1(1) and_then_simps busy by simp
  qed
qed simp

section \<open>All files\<close>

abbreviation work_nodes :: "bytes list \<Rightarrow> bytes list" where
  "work_nodes \<equiv> map (node g_path_works)"

abbreviation idle_ones :: "bytes \<Rightarrow> (bytes \<Rightarrow> bytes option) \<Rightarrow> bytes list \<Rightarrow> bytes list" where
  "idle_ones me t \<equiv> filter (idle_worker me t)"

lemma idle_dropWhile: "filter P (dropWhile (\<lambda>w. \<not> P w) ws) = filter P ws"
  by (induction ws) auto

lemma worker_ok_upd: "worker_ok t w \<Longrightarrow> worker_ok (t(node g_path_works v \<mapsto> zero_filled 512 (CHR ''w'' # x))) w"
  by (auto simp: worker_ok_def zero_filled_def)

lemma idle_upd: "idle_worker me (t(node g_path_works v \<mapsto> zero_filled 512 (CHR ''w'' # x))) w \<longleftrightarrow> w \<noteq> v \<and> idle_worker me t w"
  by (auto simp: idle_worker_def zero_filled_def)

lemma work_text_w: "work_text f = CHR ''w'' # tl (work_text f)" "stop_text = CHR ''w'' # tl stop_text"
  by (simp_all add: work_text_def stop_text_def)

lemma file_upd [simp]:
  "file_ok (t(node g_path_works v \<mapsto> x)) = file_ok t" "ready_file (t(node g_path_works v \<mapsto> x)) = ready_file t"
  by (simp_all add: file_ok_def ready_file_def fun_eq_iff)

lemma serve_files_ok:
  assumes "keeper api tree"
  shows "scan_ok s \<Longrightarrow> \<forall>f\<in>set fs. file_ok (tree (sc_zk s)) f \<Longrightarrow> \<forall>w\<in>set ws. worker_ok (tree (sc_zk s)) w \<Longrightarrow> distinct ws \<Longrightarrow>
    R = filter (ready_file (tree (sc_zk s))) fs \<Longrightarrow> I = idle_ones me (tree (sc_zk s)) ws \<Longrightarrow>
    \<exists>ws' s'. serve_files api me fs ws s = Inr (length R \<le> length I, ws', s') \<and> scan_ok s' \<and>
      tree (sc_zk s') = (tree (sc_zk s))(work_nodes I [\<mapsto>] map (\<lambda>f. zero_filled 512 (work_text f)) R) \<and>
      (\<forall>w\<in>set ws'. worker_ok (tree (sc_zk s')) w) \<and> distinct ws' \<and> idle_ones me (tree (sc_zk s')) ws' = drop (length R) I"
proof (induction fs arbitrary: ws s R I)
  case (Cons f fs)
  have f: "file_ok (tree (sc_zk s)) f" using Cons.prems(2) by simp
  then have p: "path_in g_path_files f = Inr (node g_path_files f)"
    by (auto simp: file_ok_def g_path_files_def intro: path_in_node)
  obtain s1 where s1: "read_file_state api (node g_path_files f) s = Inr s1" "tree (sc_zk s1) = tree (sc_zk s)" "scan_ok s1"
      "(hd (sc_fl_st s1) = CHR ''r'') = ready_file (tree (sc_zk s)) f"
    by (rule read_file_ok [OF assms f Cons.prems(1)])
  let ?t = "tree (sc_zk s)"
  show ?case
  proof (cases "ready_file ?t f")
    case False
    have "\<forall>f\<in>set fs. file_ok (tree (sc_zk s1)) f" "\<forall>w\<in>set ws. worker_ok (tree (sc_zk s1)) w"
      "R = filter (ready_file (tree (sc_zk s1))) fs" "I = idle_ones me (tree (sc_zk s1)) ws"
      using Cons.prems s1(2) False by simp_all
    from Cons.IH [OF s1(3) this(1,2) Cons.prems(4) this(3,4)] show ?thesis using False s1 p by simp
  next
    case True
    define ws1 where "ws1 = dropWhile (\<lambda>w. \<not> idle_worker me ?t w) ws"
    have R: "R = f # filter (ready_file ?t) fs" using Cons.prems(5) True by simp
    have I: "I = idle_ones me ?t ws1" using Cons.prems(6) by (simp add: ws1_def idle_dropWhile)
    have ok1: "\<forall>w\<in>set ws1. worker_ok ?t w" using Cons.prems(3) by (auto simp: ws1_def dest: set_dropWhileD)
    have d1: "distinct ws1" using Cons.prems(4) by (simp add: ws1_def)
    obtain s2 where s2: "serve_file api me f ws s1 = Inr (ws1, s2)" "scan_ok s2"
        "tree (sc_zk s2) = (case ws1 of [] \<Rightarrow> ?t | w # _ \<Rightarrow> ?t(node g_path_works w \<mapsto> zero_filled 512 (work_text f)))"
      using serve_file_ok [OF assms f s1(3), of ws me] Cons.prems(3) unfolding s1(2) ws1_def by blast
    show ?thesis
    proof (cases ws1)
      case Nil
      then show ?thesis using True s1 s2 p R I by simp
    next
      case (Cons w ws2)
      have idle: "idle_worker me ?t w" using Cons hd_dropWhile [of "\<lambda>w. \<not> idle_worker me ?t w" ws] by (auto simp: ws1_def)
      have t2: "tree (sc_zk s2) = ?t(node g_path_works w \<mapsto> zero_filled 512 (CHR ''w'' # tl (work_text f)))"
        using s2(3) Cons work_text_w(1) [of f] by simp
      have I2: "I = w # idle_ones me ?t ws2" using I Cons idle by simp
      have "idle_ones me (tree (sc_zk s2)) ws1 = idle_ones me ?t ws2"
        using d1 Cons by (auto simp: t2 idle_upd intro!: filter_cong)
      then have I': "tl I = idle_ones me (tree (sc_zk s2)) ws1" using I2 by simp
      have "\<forall>f\<in>set fs. file_ok (tree (sc_zk s2)) f" "\<forall>w\<in>set ws1. worker_ok (tree (sc_zk s2)) w"
        "tl R = filter (ready_file (tree (sc_zk s2))) fs"
        using Cons.prems(2) ok1 R by (simp_all add: t2 worker_ok_upd)
      from Cons.IH [OF s2(2) this(1,2) d1 this(3) I'] obtain ws' s' where
        "serve_files api me fs ws1 s2 = Inr (length (tl R) \<le> length (tl I), ws', s')" "scan_ok s'"
        "tree (sc_zk s') = (tree (sc_zk s2))(work_nodes (tl I) [\<mapsto>] map (\<lambda>f. zero_filled 512 (work_text f)) (tl R))"
        "\<forall>w\<in>set ws'. worker_ok (tree (sc_zk s')) w" "distinct ws'" "idle_ones me (tree (sc_zk s')) ws' = drop (length (tl R)) (tl I)"
        by blast
      then show ?thesis using True s1 s2 p R I2 Cons by (simp del: fun_upd_apply)
    qed
  qed
qed auto

lemma dismiss_ok:
  assumes "keeper api tree"
  shows "scan_ok s \<Longrightarrow> \<forall>w\<in>set ws. worker_ok (tree (sc_zk s)) w \<Longrightarrow> distinct ws \<Longrightarrow> I = idle_ones me (tree (sc_zk s)) ws \<Longrightarrow>
    \<exists>s'. dismiss api me ws s = Inr s' \<and>
      tree (sc_zk s') = (tree (sc_zk s))(work_nodes I [\<mapsto>] map (\<lambda>_. zero_filled 512 stop_text) I)"
proof (induction ws arbitrary: s I)
  case (Cons w ws)
  let ?t = "tree (sc_zk s)"
  have w: "worker_ok ?t w" using Cons.prems(2) by simp
  then have p: "path_in g_path_works w = Inr (node g_path_works w)"
    by (auto simp: worker_ok_def g_path_works_def intro: path_in_node)
  obtain s1 where s1: "read_worker api (node g_path_works w) s = Inr s1" "tree (sc_zk s1) = ?t" "scan_ok s1"
      "(hd (sc_wk_st s1) = CHR ''s'' \<and> me \<noteq> w) = idle_worker me ?t w"
    by (rule read_worker_ok [OF assms w Cons.prems(1)])
  show ?case
  proof (cases "idle_worker me ?t w")
    case True
    have "worker_ok (tree (sc_zk s1)) w" using w s1(2) by simp
    moreover have "length stop_text < 512" by (simp add: stop_text_def to_string_def dec_int_def dec_small)
    ultimately obtain s2 where s2: "put_work api (node g_path_works w) stop_text s1 = Inr s2" "scan_ok s2"
        "tree (sc_zk s2) = (tree (sc_zk s1))(node g_path_works w \<mapsto> zero_filled 512 stop_text)"
      by (rule put_work_ok [OF assms _ s1(3)])
    then have t2: "tree (sc_zk s2) = ?t(node g_path_works w \<mapsto> zero_filled 512 (CHR ''w'' # tl stop_text))"
      using s1(2) work_text_w(2) by simp
    have "\<forall>w\<in>set ws. worker_ok (tree (sc_zk s2)) w" using Cons.prems(2) by (simp add: t2 worker_ok_upd)
    moreover have "idle_ones me ?t ws = idle_ones me (tree (sc_zk s2)) ws"
      using Cons.prems(3) by (auto simp: t2 idle_upd intro!: filter_cong)
    ultimately obtain s' where "dismiss api me ws s2 = Inr s'"
        "tree (sc_zk s') = (tree (sc_zk s2))(work_nodes (idle_ones me ?t ws) [\<mapsto>] map (\<lambda>_. zero_filled 512 stop_text) (idle_ones me ?t ws))"
      using Cons.IH [OF s2(2)] Cons.prems(3) by fastforce
    then show ?thesis using True s1 s2 p Cons.prems(4) by (simp add: stop_text_def)
  next
    case False
    have "\<forall>w\<in>set ws. worker_ok (tree (sc_zk s1)) w" "I = idle_ones me (tree (sc_zk s1)) ws" "distinct ws"
      using Cons.prems s1(2) False by simp_all
    note IH = Cons.IH [OF s1(3) this(1,3,2)]
    have busy: "(hd (sc_wk_st s1) = CHR ''s'' \<and> me \<noteq> w) = False" using False s1(4) by simp
    show ?thesis using IH unfolding s1(2) dismiss.simps p s1(1) and_then_simps busy by simp
  qed
qed simp

section \<open>The whole dispatch\<close>

lemma map_upds_more: "length xs = length bs \<Longrightarrow> (m(xs [\<mapsto>] bs))(ys [\<mapsto>] cs) = m(xs @ ys [\<mapsto>] bs @ cs)"
  by (induction xs bs arbitrary: m rule: list_induct2) auto

lemma map_upds_take: "m(xs [\<mapsto>] ys) = m(take (length ys) xs [\<mapsto>] take (length xs) ys)"
proof (induction xs arbitrary: m ys)
  case (Cons x xs)
  then show ?case by (cases ys) (simp_all del: fun_upd_apply)
qed simp

text \<open>The orders for the idle workers: the ready files as far as they go, then the word to stop.\<close>

definition orders :: "nat \<Rightarrow> bytes list \<Rightarrow> bytes list" where
  "orders n R = map work_text (take n R) @ replicate (n - length R) stop_text"

lemma dispatch_ok:
  assumes k: "keeper api tree" and d: "tree z g_path_files \<noteq> None" "tree z g_path_works \<noteq> None"
    and f: "\<forall>f\<in>children_of (tree z) g_path_files. file_ok (tree z) f"
    and w: "\<forall>w\<in>children_of (tree z) g_path_works. worker_ok (tree z) w"
  shows "\<exists>fls wks z'. distinct fls \<and> set fls = children_of (tree z) g_path_files
    \<and> distinct wks \<and> set wks = children_of (tree z) g_path_works
    \<and> dispatch_work api me z = Inr z'
    \<and> tree z' = (tree z)(work_nodes (idle_ones me (tree z) wks)
        [\<mapsto>] map (zero_filled 512) (orders (length (idle_ones me (tree z) wks)) (filter (ready_file (tree z)) fls)))"
proof -
  obtain z1 fls where z1: "zoo_get_children api g_path_files False z = ((ZOK, fls), z1)" "tree z1 = tree z" "distinct fls"
      "set fls = children_of (tree z) g_path_files" by (rule keeper_children [OF k d(1)])
  have "tree z1 g_path_works \<noteq> None" using d(2) z1(2) by simp
  then obtain z2 wks where z2: "zoo_get_children api g_path_works True z1 = ((ZOK, wks), z2)" "tree z2 = tree z1" "distinct wks"
      "set wks = children_of (tree z1) g_path_works" by (rule keeper_children [OF k])
  let ?s = "\<lparr>sc_zk = z2, sc_fl_st = replicate 64 NUL, sc_fl_st_len = 64, sc_wk_st = replicate 64 NUL, sc_wk_st_len = 64\<rparr>"
  define I where "I = idle_ones me (tree z) wks"
  define R where "R = filter (ready_file (tree z)) fls"
  have t: "tree (sc_zk ?s) = tree z" using z1(2) z2(2) by simp
  have sc: "scan_ok ?s" by (simp add: scan_ok_def buffer_ok_def)
  have pre: "\<forall>f\<in>set fls. file_ok (tree (sc_zk ?s)) f" "\<forall>w\<in>set wks. worker_ok (tree (sc_zk ?s)) w"
    "R = filter (ready_file (tree (sc_zk ?s))) fls" "I = idle_ones me (tree (sc_zk ?s)) wks"
    using f w z1 z2 by (simp_all add: t I_def R_def)
  from serve_files_ok [OF k sc pre(1,2) z2(3) pre(3,4)] obtain ws s where
    s: "serve_files api me fls wks ?s = Inr (length R \<le> length I, ws, s)" "scan_ok s"
      "tree (sc_zk s) = (tree z)(work_nodes I [\<mapsto>] map (\<lambda>f. zero_filled 512 (work_text f)) R)"
      "\<forall>w\<in>set ws. worker_ok (tree (sc_zk s)) w" "distinct ws" "idle_ones me (tree (sc_zk s)) ws = drop (length R) I"
    unfolding t by blast
  have lists: "list_nodes api g_path_files False z = Inr (fls, z1)" "list_nodes api g_path_works True z1 = Inr (wks, z2)"
    using z1(1) z2(1) by (simp_all add: list_nodes_def)
  show ?thesis
  proof (cases "length R \<le> length I")
    case True
    from dismiss_ok [OF k s(2,4,5) s(6) [symmetric]] obtain s' where s': "dismiss api me ws s = Inr s'"
        "tree (sc_zk s') = (tree (sc_zk s))(work_nodes (drop (length R) I) [\<mapsto>] map (\<lambda>_. zero_filled 512 stop_text) (drop (length R) I))" by blast
    have "tree (sc_zk s) = (tree z)(take (length R) (work_nodes I) [\<mapsto>] map (\<lambda>f. zero_filled 512 (work_text f)) R)"
      unfolding s(3) using map_upds_take [of "tree z" "work_nodes I" "map (\<lambda>f. zero_filled 512 (work_text f)) R"] True by simp
    then have "tree (sc_zk s') = (tree z)(take (length R) (work_nodes I) @ drop (length R) (work_nodes I)
        [\<mapsto>] map (\<lambda>f. zero_filled 512 (work_text f)) R @ map (\<lambda>_. zero_filled 512 stop_text) (drop (length R) I))"
      using True unfolding s'(2) by (subst map_upds_more [symmetric]) (simp_all add: drop_map)
    moreover have "map (\<lambda>f. zero_filled 512 (work_text f)) R @ map (\<lambda>_. zero_filled 512 stop_text) (drop (length R) I)
        = map (zero_filled 512) (orders (length I) R)"
      using True by (simp add: orders_def map_replicate_const)
    ultimately have "tree (sc_zk s') = (tree z)(work_nodes I [\<mapsto>] map (zero_filled 512) (orders (length I) R))"
      by (simp only: append_take_drop_id)
    moreover have "dispatch_work api me z = Inr (sc_zk s')" using lists s(1) s'(1) True by (simp add: dispatch_work_def)
    ultimately show ?thesis using z1(3,4) z2(2-4) unfolding I_def R_def by (metis z1(2))
  next
    case False
    have "tree (sc_zk s) = (tree z)(work_nodes I [\<mapsto>] map (zero_filled 512) (orders (length I) R))"
      unfolding s(3) orders_def using map_upds_take [of "tree z" "work_nodes I" "map (\<lambda>f. zero_filled 512 (work_text f)) R"] False
      by (simp add: take_map o_def)
    moreover have "dispatch_work api me z = Inr (sc_zk s)" using lists s(1) False by (simp add: dispatch_work_def)
    ultimately show ?thesis using z1(3,4) z2(2-4) unfolding I_def R_def by (metis z1(2))
  qed
qed

end
