(* ===== verification/WorkLoop.thy ===== *)
theory WorkLoop
  imports DispatchSpec
begin

text \<open>
  The loop of a worker (\<open>work.cpp\<close>): it reads the order the dispatcher left for it, recovers
  the file, sends the result away and reports. The recovery itself, the shell and the machine's
  files are a parameter here: \<open>csv_recovery\<close> and \<open>system\<close> over a state \<open>'e\<close>.
\<close>

section \<open>Model\<close>

record 'e machine =
  csv_recovery :: "int \<Rightarrow> 'e \<Rightarrow> int \<times> 'e"
  system_call :: "bytes \<Rightarrow> 'e \<Rightarrow> 'e"

text \<open>The five entries of the four vectors of \<open>send_file\<close>: address, user, password, directory.\<close>

record scp_hosts =
  node_ip :: "bytes list"
  node_user :: "bytes list"
  node_passwd :: "bytes list"
  node_dest :: "bytes list"

definition scp_command :: "scp_hosts \<Rightarrow> int \<Rightarrow> bytes \<Rightarrow> bytes result" where
  "scp_command h node_id file_name =
     (if node_id < 0 \<or> 5 \<le> node_id then Inl Undef
      else let i = nat node_id in
        Inr (''./autoscp.sh '' @ node_ip h ! i @ '' '' @ node_user h ! i @ '' '' @ node_passwd h ! i @ '' '' @ file_name
             @ '' '' @ node_dest h ! i))"

definition send_file :: "'e machine \<Rightarrow> scp_hosts \<Rightarrow> int \<Rightarrow> bytes \<Rightarrow> 'e \<Rightarrow> 'e result" where
  "send_file m h node_id file_name e =
     and_then (scp_command h node_id file_name) (\<lambda>cmd. Inr (system_call m cmd e))"

text \<open>The order: \<open>task_id\<close>, its text and the position of the last underscore.\<close>

definition read_order :: "bytes \<Rightarrow> (int \<times> bytes \<times> int) result" where
  "read_order cmd =
     (if cmd = [] \<or> hd cmd \<noteq> CHR ''w'' then Inr (0, [], 100)
      else let b = str_find CHR ''_'' cmd; e = str_rfind CHR ''_'' cmd in
        and_then (substr cmd (b + 1) (e - b - 1)) (\<lambda>t.
        and_then (atoi t) (\<lambda>task_id. Inr (task_id, t, e))))"

definition finish_task ::
    "'z zookeeper \<Rightarrow> 'e machine \<Rightarrow> scp_hosts \<Rightarrow> bytes \<Rightarrow> bytes \<Rightarrow> int \<Rightarrow> bytes \<Rightarrow> int \<Rightarrow> 'z \<Rightarrow> 'e \<Rightarrow> ('z \<times> 'e) result" where
  "finish_task api m h me cmd task_id t e_pos z e =
     and_then (st_file api t ''g'' z) (\<lambda>z.
     and_then (substr cmd (e_pos + 1) 1) (\<lambda>d.
     and_then (atoi d) (\<lambda>target_id.
     and_then (send_file m h target_id (to_string task_id @ ''.csv'') (system_call m ''./deltask.sh'' e)) (\<lambda>e.
     and_then (set_wk_st api me z) (\<lambda>z. Inr (z, e))))))"

definition do_task ::
    "'z zookeeper \<Rightarrow> 'e machine \<Rightarrow> scp_hosts \<Rightarrow> bytes \<Rightarrow> bytes \<Rightarrow> int \<Rightarrow> bytes \<Rightarrow> int \<Rightarrow> 'z \<Rightarrow> 'e \<Rightarrow> ('z \<times> 'e) result" where
  "do_task api m h me cmd task_id t e_pos z e =
     and_then (st_file api t ''y'' z) (\<lambda>z.
       let (ret, e) = csv_recovery m task_id e;
           (ret, e) = (if ret = -1 then csv_recovery m task_id e else (ret, e))
       in if ret = 0 then finish_task api m h me cmd task_id t e_pos z e else Inr (z, e))"

text \<open>One turn of the loop in worker mode; the flag says whether the loop goes on. An outer \<open>None\<close>
  means that the loop of \<open>create\<close> has not ended within the fuel.\<close>

definition work_once ::
    "'z zookeeper \<Rightarrow> 'e machine \<Rightarrow> scp_hosts \<Rightarrow> bytes \<Rightarrow> nat \<Rightarrow> 'z \<Rightarrow> 'e \<Rightarrow> (bool \<times> 'z \<times> 'e) result option" where
  "work_once api m h me fuel z e =
     (case and_then (recv_work api me z) (\<lambda>(cmd, z). and_then (read_order cmd) (\<lambda>r. Inr (cmd, r, z))) of
        Inl f \<Rightarrow> Some (Inl f)
      | Inr (cmd, (task_id, t, e_pos), z) \<Rightarrow>
          if task_id > 0 then
            (case create api fuel z of
               None \<Rightarrow> None
             | Some z \<Rightarrow> Some (and_then (do_task api m h me cmd task_id t e_pos z e) (\<lambda>(z, e). Inr (True, z, e))))
          else Some (Inr (task_id \<noteq> -1, z, e)))"

section \<open>The order of the dispatcher is read back\<close>

lemma dest_of_number:
  assumes "0 < n" "in_int (n + 4)"
  shows "dest_of (to_string n) = [digit_char (nat ((n + 4) mod 5))]" "calc_dest_no (to_string n) = Inr (dest_of (to_string n))"
proof -
  have n: "in_int n" using assms by (simp add: in_int_def)
  have "0 \<le> (n + 4) mod 5" "(n + 4) mod 5 < 5" by simp_all
  then have "to_string ((n + 4) mod 5) = [digit_char (nat ((n + 4) mod 5))]"
    by (simp add: to_string_def dec_int_def dec_small del: pos_mod_bound pos_mod_sign)
  then show "dest_of (to_string n) = [digit_char (nat ((n + 4) mod 5))]" "calc_dest_no (to_string n) = Inr (dest_of (to_string n))"
    using assms by (simp_all add: dest_of_def calc_dest_no_def stoi_to_string [OF n] c_rem_def)
qed

lemma read_order_task:
  assumes "0 < n" "in_int n" "CHR ''_'' \<notin> set d"
  shows "read_order (''w_'' @ to_string n @ ''_'' @ d) = Inr (n, to_string n, int (length (to_string n)) + 2)"
proof -
  let ?cmd = "''w_'' @ to_string n @ ''_'' @ d"
  have b: "str_find CHR ''_'' ?cmd = 1" using str_find_append [of "CHR ''_''" "''w''" "to_string n @ ''_'' @ d"] by simp
  have e: "str_rfind CHR ''_'' ?cmd = int (length (to_string n)) + 2"
    using str_rfind_append [OF assms(3), of "''w_'' @ to_string n"] by simp
  have s: "substr ?cmd 2 (int (length (to_string n))) = Inr (to_string n)"
    using substr_mid [of "''w_''" "to_string n" "''_'' @ d"] by simp
  have a: "atoi (to_string n) = Inr n" using atoi_to_string [OF assms(2), of "[]"] by simp
  have "hd ?cmd = CHR ''w''" "?cmd \<noteq> []" by simp_all
  then show ?thesis unfolding read_order_def Let_def b e using s a by simp
qed

lemma read_order_stop: "read_order stop_text = Inr (-1, ''-1'', 1)"
  by code_simp

lemma text_of_node:
  assumes "keeper api tree" "tree z (node g_path_works me) = Some (zero_filled 512 t)" "length me < 400"
    "NUL \<notin> set t" "length t < 64" "hd t = CHR ''w''" "t \<noteq> []"
  obtains z' where "recv_work api me z = Inr (t, z')" "tree z' = tree z"
proof -
  have p: "path_in g_path_works me = Inr (node g_path_works me)"
    using assms(3) by (intro path_in_node) (simp add: g_path_works_def)
  have v: "take (nat 64) (zero_filled 512 t) = zero_filled 64 t" using assms(5) by (simp add: take_zero_filled)
  have l: "length (take (nat 64) (zero_filled 512 t)) \<le> length (replicate 64 NUL)" by simp
  obtain z' where z: "read_node api (node g_path_works me) True (replicate 64 NUL) 64 z = Inr (ZOK, zero_filled 64 t, 64, z')"
      "tree z' = tree z"
    using read_node_ok [OF assms(1,2) l, of True] assms(5) unfolding v by (auto simp: zero_filled_def)
  have "hd (zero_filled 64 t) = CHR ''w''" using assms(6,7) by (simp add: zero_filled_def)
  then show thesis using that [of z'] z p text_of_zero_filled [OF assms(4,5)] by (simp add: recv_work_def)
qed

section \<open>One turn\<close>

lemma keeper_ensure:
  assumes "keeper api tree" "tree z p \<noteq> None"
  obtains z' where "ensure_node api p d fuel z = Some z'" "tree z' = tree z"
proof -
  obtain rc z' where "zoo_exists api p False z = (rc, z')" "tree z' = tree z" "rc = ZOK \<longleftrightarrow> tree z p \<noteq> None"
    by (rule keeper_exists [OF assms(1)])
  then show thesis using that assms(2) by (simp add: ensure_node_def create_until.simps)
qed

lemma st_file_ok:
  assumes "keeper api tree" "tree z (node g_path_files f) \<noteq> None" "length f < 400" "v \<noteq> []"
  obtains z' where "st_file api f v z = Inr z'" "tree z' = (tree z)(node g_path_files f \<mapsto> [hd v])"
proof -
  obtain z' where "zoo_set api (node g_path_files f) [hd v] (-1) z = (ZOK, z')" "tree z' = (tree z)(node g_path_files f \<mapsto> [hd v])"
    by (rule keeper_set [OF assms(1,2)])
  moreover have "path_in g_path_files f = Inr (node g_path_files f)"
    using assms(3) by (intro path_in_node) (simp add: g_path_files_def)
  moreover have "take 1 (v @ [NUL]) = [hd v]" using assms(4) by (cases v) auto
  ultimately show thesis using that by (simp add: st_file_def)
qed

lemma set_wk_st_ok:
  assumes "keeper api tree" "tree z (node g_path_works w) \<noteq> None" "length w < 400"
  obtains z' where "set_wk_st api w z = Inr z'" "tree z' = (tree z)(node g_path_works w \<mapsto> ''s'')"
proof -
  obtain z' where "zoo_set api (node g_path_works w) ''s'' (-1) z = (ZOK, z')" "tree z' = (tree z)(node g_path_works w \<mapsto> ''s'')"
    by (rule keeper_set [OF assms(1,2)])
  moreover have "path_in g_path_works w = Inr (node g_path_works w)"
    using assms(3) by (intro path_in_node) (simp add: g_path_works_def)
  ultimately show thesis using that by (simp add: set_wk_st_def)
qed

lemma finish_task_ok:
  assumes k: "keeper api tree" and f: "tree z (node g_path_files (to_string n)) \<noteq> None" "in_int n"
    and w: "tree z (node g_path_works me) \<noteq> None" "length me < 400" and d: "d < 5"
  obtains z' where
    "finish_task api m h me (''w_'' @ to_string n @ ''_'' @ [digit_char d]) n (to_string n) (int (length (to_string n)) + 2) z e
      = Inr (z', system_call m (projr (scp_command h (int d) (to_string n @ ''.csv''))) (system_call m ''./deltask.sh'' e))"
    "tree z' = (tree z)(node g_path_files (to_string n) \<mapsto> ''g'', node g_path_works me \<mapsto> ''s'')"
proof -
  let ?cmd = "''w_'' @ to_string n @ ''_'' @ [digit_char d]"
  have len: "length (to_string n) < 400" using length_to_string [OF f(2)] by simp
  obtain z1 where z1: "st_file api (to_string n) ''g'' z = Inr z1" "tree z1 = (tree z)(node g_path_files (to_string n) \<mapsto> ''g'')"
    using st_file_ok [OF k f(1) len, of "''g''"] by auto
  have "tree z1 (node g_path_works me) \<noteq> None" using w(1) z1(2) by simp
  then obtain z2 where z2: "set_wk_st api me z1 = Inr z2" "tree z2 = (tree z1)(node g_path_works me \<mapsto> ''s'')"
    by (rule set_wk_st_ok [OF k _ w(2)])
  have s: "substr ?cmd (int (length (to_string n)) + 3) 1 = Inr [digit_char d]"
    using substr_mid [of "''w_'' @ to_string n @ ''_''" "[digit_char d]" "[]"] by (simp add: add.commute)
  have "[digit_char d] = to_string (int d) @ []" using d by (simp add: to_string_def dec_int_def dec_small)
  then have a: "atoi [digit_char d] = Inr (int d)" using atoi_to_string [of "int d" "[]"] d by (simp add: in_int_def)
  have c: "scp_command h (int d) (to_string n @ ''.csv'') = Inr (projr (scp_command h (int d) (to_string n @ ''.csv'')))"
    using d by (simp add: scp_command_def Let_def)
  show thesis
  proof (rule that)
    show "tree z2 = (tree z)(node g_path_files (to_string n) \<mapsto> ''g'', node g_path_works me \<mapsto> ''s'')" using z1(2) z2(2) by simp
    have p: "int (length (to_string n)) + 2 + 1 = int (length (to_string n)) + 3" by simp
    show "finish_task api m h me ?cmd n (to_string n) (int (length (to_string n)) + 2) z e
      = Inr (z2, system_call m (projr (scp_command h (int d) (to_string n @ ''.csv''))) (system_call m ''./deltask.sh'' e))"
      unfolding finish_task_def z1(1) and_then_simps p s a send_file_def by (subst c) (simp only: and_then_simps z2(1))
  qed
qed

lemma work_once_task:
  assumes k: "keeper api tree" and n: "0 < n" "in_int (n + 4)"
    and w: "tree z (node g_path_works me) = Some (zero_filled 512 (work_text (to_string n)))" "length me < 400"
    and f: "tree z g_path_files \<noteq> None" "tree z (node g_path_files (to_string n)) \<noteq> None"
    and r: "csv_recovery m n e = (0, e1)"
  shows "\<exists>z'. work_once api m h me fuel z e = Some (Inr (True, z',
      system_call m (projr (scp_command h ((n + 4) mod 5) (to_string n @ ''.csv''))) (system_call m ''./deltask.sh'' e1)))
    \<and> tree z' = (tree z)(node g_path_files (to_string n) \<mapsto> ''g'', node g_path_works me \<mapsto> ''s'')"
proof -
  let ?d = "nat ((n + 4) mod 5)"
  have in_n: "in_int n" and d: "?d < 5" "int ?d = (n + 4) mod 5" using n by (simp_all add: in_int_def)
  have t: "work_text (to_string n) = ''w_'' @ to_string n @ ''_'' @ [digit_char ?d]"
    using dest_of_number(1) [OF n] by (simp add: work_text_def)
  have dig: "digit_char ?d \<noteq> CHR ''_''" "digit_char ?d \<noteq> NUL"
    using isdigit_digit_char [of ?d] d(1) by (auto simp: isdigit_def)
  let ?cmd = "''w_'' @ to_string n @ ''_'' @ [digit_char ?d]"
  have len: "length ?cmd < 64" using length_to_string [OF in_n] by simp
  have nul: "NUL \<notin> set ?cmd" using dig by auto
  obtain z1 where z1: "recv_work api me z = Inr (?cmd, z1)" "tree z1 = tree z"
    by (rule text_of_node [OF k w(1) [unfolded t] w(2) nul len]) auto
  have o: "read_order ?cmd = Inr (n, to_string n, int (length (to_string n)) + 2)"
    using read_order_task [OF n(1) in_n, of "[digit_char ?d]"] dig by simp
  have "tree z1 g_path_files \<noteq> None" using f(1) z1(2) by simp
  then obtain z2 where z2: "create api fuel z1 = Some z2" "tree z2 = tree z1"
    using keeper_ensure [OF k, of z1 g_path_files "''file''" fuel] by (metis create_def)
  have "tree z2 (node g_path_files (to_string n)) \<noteq> None" "length (to_string n) < 400"
    using f(2) z1(2) z2(2) length_to_string [OF in_n] by simp_all
  then obtain z3 where z3: "st_file api (to_string n) ''y'' z2 = Inr z3" "tree z3 = (tree z2)(node g_path_files (to_string n) \<mapsto> ''y'')"
    using st_file_ok [OF k, of z2 "to_string n" "''y''"] by auto
  have "tree z3 (node g_path_files (to_string n)) \<noteq> None" "tree z3 (node g_path_works me) \<noteq> None"
    using w(1) z1(2) z2(2) z3(2) by simp_all
  then obtain z4 where z4: "finish_task api m h me ?cmd n (to_string n) (int (length (to_string n)) + 2) z3 e1
      = Inr (z4, system_call m (projr (scp_command h (int ?d) (to_string n @ ''.csv''))) (system_call m ''./deltask.sh'' e1))"
      "tree z4 = (tree z3)(node g_path_files (to_string n) \<mapsto> ''g'', node g_path_works me \<mapsto> ''s'')"
    using finish_task_ok [OF k _ in_n _ w(2) d(1), of z3 m h e1] by blast
  have "work_once api m h me fuel z e = Some (Inr (True, z4,
      system_call m (projr (scp_command h (int ?d) (to_string n @ ''.csv''))) (system_call m ''./deltask.sh'' e1)))"
    unfolding work_once_def z1(1) and_then_simps prod.case o sum.case using n(1)
    by (simp add: z2(1) do_task_def z3(1) r z4(1) [simplified])
  moreover have "tree z4 = (tree z)(node g_path_files (to_string n) \<mapsto> ''g'', node g_path_works me \<mapsto> ''s'')"
    using z1(2) z2(2) z3(2) z4(2) by simp
  ultimately show ?thesis unfolding d(2) by blast
qed

lemma work_once_stop:
  assumes "keeper api tree" "tree z (node g_path_works me) = Some (zero_filled 512 stop_text)" "length me < 400"
  shows "\<exists>z'. work_once api m h me fuel z e = Some (Inr (False, z', e)) \<and> tree z' = tree z"
proof -
  have "NUL \<notin> set stop_text" "length stop_text < 64" "hd stop_text = CHR ''w''" "stop_text \<noteq> []" by code_simp+
  then obtain z1 where "recv_work api me z = Inr (stop_text, z1)" "tree z1 = tree z"
    by (rule text_of_node [OF assms])
  then show ?thesis by (simp add: work_once_def read_order_stop)
qed

end
