(* ===== verification/ElectionSpec.thy ===== *)
theory ElectionSpec
  imports WorkLoop
begin

text \<open>
  The election of the monitor, the loops that create the directories, and the recovery after a
  process has gone.
\<close>

section \<open>The least name\<close>

lemma Min_two: "finite S \<Longrightarrow> Min (insert c (insert p S)) = Min (insert (min c p) S)"
  for c :: "'a::linorder"
  by (cases "S = {}") (simp_all add: min.assoc)

lemma least_name_ok:
  "\<forall>p\<in>set (c # cs). length p < 512 \<Longrightarrow> least_name c cs = Inr (Min (set (c # cs)))"
proof (induction cs arbitrary: c)
  case (Cons p ps)
  have "least_name c (p # ps) = least_name (min c p) ps" using Cons.prems by (cases "p < c") (auto simp: min.absorb4 min.absorb1 not_less)
  moreover have "least_name (min c p) ps = Inr (Min (set (min c p # ps)))" using Cons.prems by (intro Cons.IH) (simp add: min_def)
  ultimately show ?case using Min_two [of "set ps" c p] by simp
qed simp

text \<open>An election node as \<open>regist\<close> leaves it: 24 bytes of the zero-filled name of its process.\<close>

definition registered :: "(bytes \<Rightarrow> bytes option) \<Rightarrow> bytes \<Rightarrow> bytes \<Rightarrow> bool" where
  "registered t c who \<longleftrightarrow> t (node g_path_elect c) = Some (zero_filled 24 who) \<and> length who < 24 \<and> NUL \<notin> set who"

lemma read_registered:
  assumes "keeper api tree" "registered (tree z) c who"
  obtains z' where "read_node api (node g_path_elect c) False (replicate 64 NUL) 64 z = Inr (ZOK, zero_filled 64 who, 24, z')"
    "tree z' = tree z"
proof -
  have v: "tree z (node g_path_elect c) = Some (zero_filled 24 who)" and l: "length who < 24" using assms(2) by (simp_all add: registered_def)
  have t: "take (nat 64) (zero_filled 24 who) = zero_filled 24 who" using l by simp
  have "length (take (nat 64) (zero_filled 24 who)) \<le> length (replicate 64 NUL)" using l by simp
  from read_node_ok [OF assms(1) v this, of False] obtain z' where
    "read_node api (node g_path_elect c) False (replicate 64 NUL) 64 z = Inr (ZOK, zero_filled 24 who @ replicate 40 NUL, 24, z')" "tree z' = tree z"
    unfolding t using l by auto
  moreover have "zero_filled 24 who @ replicate 40 NUL = zero_filled 64 who"
    using l by (simp add: zero_filled_def flip: replicate_add)
  ultimately show thesis using that by simp
qed

lemma choose_mater_ok:
  assumes k: "keeper api tree" and d: "tree (pr_zk p) g_path_elect \<noteq> None"
    and c: "children_of (tree (pr_zk p)) g_path_elect \<noteq> {}" "\<forall>c\<in>children_of (tree (pr_zk p)) g_path_elect. length c < 400"
    and m: "registered (tree (pr_zk p)) (Min (children_of (tree (pr_zk p)) g_path_elect)) who"
  shows "\<exists>z'. choose_mater api me g_path_elect p =
      Inr (p\<lparr>pr_zk := z', pr_mode := (if who = me then MODE_MONITOR else MODE_WORKER)\<rparr>) \<and> tree z' = tree (pr_zk p)"
proof -
  let ?C = "children_of (tree (pr_zk p)) g_path_elect"
  obtain z1 cs where z1: "zoo_get_children api g_path_elect True (pr_zk p) = ((ZOK, cs), z1)" "tree z1 = tree (pr_zk p)"
      "set cs = ?C" by (rule keeper_children [OF k d])
  obtain x xs where cs: "cs = x # xs" using c(1) z1(3) by (cases cs) auto
  have short: "length p < 512" if "p \<in> set cs" for p using c(2) that z1(3) by fastforce
  have least: "and_then (sprint 512 x) (\<lambda>x. least_name x xs) = Inr (Min ?C)"
    using least_name_ok [of x xs] short z1(3) by (simp add: cs)
  have "finite ?C" unfolding z1(3) [symmetric] by simp
  then have "Min ?C \<in> ?C" using c(1) by (rule Min_in)
  then have p: "path_in g_path_elect (Min ?C) = Inr (node g_path_elect (Min ?C))"
    using c(2) by (intro path_in_node) (auto simp: g_path_elect_def)
  have "registered (tree z1) (Min ?C) who" using m z1(2) by simp
  then obtain z2 where z2: "read_node api (node g_path_elect (Min ?C)) False (replicate 64 NUL) 64 z1 = Inr (ZOK, zero_filled 64 who, 24, z2)"
      "tree z2 = tree z1" by (rule read_registered [OF k])
  have t: "text_of (zero_filled 64 who) = Inr who" using m by (intro text_of_zero_filled) (auto simp: registered_def)
  show ?thesis using z1(1,2) z2 least p t by (auto simp: choose_mater_def list_nodes_def cs)
qed

section \<open>Creating a directory\<close>

lemma create_until_stuck:
  assumes "keeper api tree"
  shows "tree z p \<noteq> None \<Longrightarrow> ret \<noteq> ZOK \<Longrightarrow> create_until api p d fuel ret z = None"
proof (induction fuel arbitrary: ret z)
  case 0
  then show ?case by (simp add: create_until.simps)
next
  case (Suc n)
  obtain z' rc where z': "zoo_create api p d False z = (rc, z')" "tree z' = tree z" "rc \<noteq> ZOK"
    by (rule keeper_create_again [OF assms Suc.prems(1)])
  have "create_until api p d n rc z' = None" using Suc.IH [of z' rc] Suc.prems(1) z'(2,3) by simp
  then show ?case using z'(1) Suc.prems(2) by (simp add: create_until.simps [of _ _ _ "Suc n"])
qed

section \<open>Recovery\<close>

text \<open>No call of \<open>recover\<close> writes a file whose name has no underscore.\<close>

definition orders_begin :: "(bytes \<Rightarrow> bytes option) \<Rightarrow> bool" where
  "orders_begin t \<longleftrightarrow> (\<forall>w v. t (node g_path_works w) = Some (CHR ''w'' # v) \<longrightarrow> v \<noteq> [] \<and> hd v = CHR ''_'')"

definition same_files :: "(bytes \<Rightarrow> bytes option) \<Rightarrow> (bytes \<Rightarrow> bytes option) \<Rightarrow> bool" where
  "same_files t t' \<longleftrightarrow> (\<forall>f. f \<noteq> [] \<and> CHR ''_'' \<notin> set f \<longrightarrow> t' (node g_path_files f) = t (node g_path_files f))"

lemma same_files_trans: "same_files t t' \<Longrightarrow> same_files t' t'' \<Longrightarrow> same_files t t''"
  by (simp add: same_files_def)

lemma path_in_InrD: "path_in d n = Inr p \<Longrightarrow> p = node d n"
  by (auto simp: path_in_def sprint_def node_def split: if_splits)

lemma keeper_any_set:
  assumes "keeper api tree"
  shows "tree (snd (zoo_set api p d (-1) z)) = (if tree z p = None then tree z else (tree z)(p \<mapsto> d))"
proof (cases "tree z p")
  case None
  then obtain z' rc where "zoo_set api p d (-1) z = (rc, z')" "tree z' = tree z" by (rule keeper_no_set [OF assms])
  then show ?thesis using None by simp
next
  case (Some v)
  then have "tree z p \<noteq> None" by simp
  then obtain z' where "zoo_set api p d (-1) z = (ZOK, z')" "tree z' = (tree z)(p \<mapsto> d)" by (rule keeper_set [OF assms])
  then show ?thesis using Some by simp
qed

lemma keeper_any_delete:
  assumes "keeper api tree"
  shows "tree (snd (zoo_delete api p (-1) z)) = tree z \<or> tree (snd (zoo_delete api p (-1) z)) = (tree z)(p := None)"
proof -
  have "delete_law api tree" using assms by (simp add: keeper_def)
  from this [unfolded delete_law_def, rule_format, of p z] show ?thesis by (auto split: if_splits)
qed

lemma keeper_any_get:
  assumes "keeper api tree"
  shows "\<exists>rc d n' z'. zoo_get api p w n z = ((rc, d, n'), z') \<and> tree z' = tree z
    \<and> (case tree z p of None \<Rightarrow> d = [] | Some v \<Rightarrow> d = take (nat n) v \<and> n' = int (length (take (nat n) v)))"
proof (cases "tree z p")
  case None
  then obtain z' rc where "zoo_get api p w n z = ((rc, [], n), z')" "tree z' = tree z" by (rule keeper_no_get [OF assms])
  then show ?thesis using None by auto
next
  case (Some v)
  then obtain z' where "zoo_get api p w n z = ((ZOK, take (nat n) v, int (length (take (nat n) v))), z')" "tree z' = tree z"
    by (rule keeper_get [OF assms])
  then show ?thesis using Some by auto
qed

lemma read_node_InrD:
  assumes "keeper api tree" "read_node api p w buf n z = Inr (rc, buf', n', z')"
  shows "tree z' = tree z \<and> (case tree z p of None \<Rightarrow> buf' = buf
    | Some v \<Rightarrow> buf' = take (nat n) v @ drop (length (take (nat n) v)) buf \<and> n' = int (length (take (nat n) v)))"
  using keeper_any_get [OF assms(1), of p w n z] assms(2)
  by (auto simp: read_node_def overwrite_def split: option.splits if_splits)

lemma list_nodes_InrD:
  assumes "keeper api tree" "list_nodes api p w z = Inr (cs, z')"
  shows "tree z' = tree z"
proof -
  have "children_law api tree" using assms(1) by (simp add: keeper_def)
  from this [unfolded children_law_def, rule_format, of p w z] show ?thesis
    using assms(2) by (auto simp: list_nodes_def split: if_splits)
qed

lemma and_then_InrE:
  assumes "and_then m f = Inr y"
  obtains x where "m = Inr x" "f x = Inr y"
  using assms by (cases m) auto

lemma reset_file_same:
  assumes k: "keeper api tree" and r: "reset_file api buf n z = Inr z'" and b: "tl buf \<noteq> []" "hd (tl buf) = CHR ''_'' \<or> n = 0"
  shows "same_files (tree z) (tree z') \<and> (\<forall>w. tree z' (node g_path_works w) = tree z (node g_path_works w))"
proof -
  obtain fl t p where s: "overwrite (replicate 64 NUL) (take (nat n) (tl buf)) = Inr fl" "text_of fl = Inr t"
      "path_in g_path_files t = Inr p" "z' = snd (zoo_set api p ''r'' (-1) z)" "0 \<le> n"
    using r by (auto simp: reset_file_def elim!: and_then_InrE split: if_splits)
  have t: "t = cstr (take (nat n) (tl buf) @ replicate (64 - length (take (nat n) (tl buf))) NUL)"
    using s(1,2) by (auto simp: overwrite_def text_of_def split: if_splits)
  have "t = [] \<or> CHR ''_'' \<in> set t"
  proof (cases "n = 0")
    case True
    then show ?thesis by (simp add: t cstr_def)
  next
    case False
    then obtain v where "take (nat n) (tl buf) = CHR ''_'' # v" using b s(5) by (cases "tl buf") (auto simp: take_Cons')
    then show ?thesis by (simp add: t cstr_def)
  qed
  then show ?thesis
    unfolding s(4) keeper_any_set [OF k] using path_in_InrD [OF s(3)] by (auto simp: same_files_def)
qed

lemma node_text_begins:
  assumes o: "orders_begin t" and v: "case t (node g_path_works w) of None \<Rightarrow> buf' = buf
      | Some v \<Rightarrow> buf' = take (nat n) v @ drop (length (take (nat n) v)) buf \<and> n' = int (length (take (nat n) v))"
    and w: "hd buf' = CHR ''w''" "hd buf \<noteq> CHR ''w''" "length buf = 64"
  shows "tl buf' \<noteq> [] \<and> (hd (tl buf') = CHR ''_'' \<or> n = 1 \<and> n' = 1)"
proof -
  obtain v where t: "t (node g_path_works w) = Some v" and b: "buf' = take (nat n) v @ drop (length (take (nat n) v)) buf"
      "n' = int (length (take (nat n) v))"
    using v w(1,2) by (auto split: option.splits)
  have n: "take (nat n) v \<noteq> []" using b w by (cases "take (nat n) v") auto
  then have "hd v = CHR ''w''" using b w(1) by (cases v) (auto simp: take_Cons' split: if_splits)
  then obtain u where u: "v = CHR ''w'' # u" using n by (cases v) auto
  then have "u \<noteq> []" "hd u = CHR ''_''" using o t by (auto simp: orders_begin_def)
  then obtain x where x: "v = CHR ''w'' # CHR ''_'' # x" using u by (cases u) auto
  obtain m where m: "nat n = Suc m" using n by (cases "nat n") auto
  show ?thesis
  proof (cases m)
    case 0
    then show ?thesis using m w(3) by (auto simp: b x simp flip: length_greater_0_conv)
  qed (simp add: b x m)
qed

lemma orders_begin_delete: "orders_begin t \<Longrightarrow> orders_begin (t(p := None))"
  by (simp add: orders_begin_def)

text \<open>The two ways \<open>recover\<close> calls \<open>reset_file\<close>.\<close>

lemma bury_same:
  assumes k: "keeper api tree"
  shows "bury api dct ws len z = Inr z' \<Longrightarrow> orders_begin (tree z) \<Longrightarrow> same_files (tree z) (tree z')"
proof (induction ws arbitrary: len z)
  case Nil
  then show ?case by (simp add: same_files_def)
next
  case (Cons w ws)
  show ?case
  proof (cases "w \<in> dct")
    case True
    then show ?thesis using Cons by simp
  next
    case False
    obtain p rc buf len' z1 z2 where s: "path_in g_path_works w = Inr p"
        "read_node api p False (replicate 64 CHR ''0'') len z = Inr (rc, buf, len', z1)"
        "(if hd buf = CHR ''w'' then reset_file api buf (len' - 1) z1 else Inr z1) = Inr z2"
        "bury api dct ws len' (snd (zoo_delete api p (-1) z2)) = Inr z'"
      using Cons.prems(1) False by (auto elim!: and_then_InrE)
    have p: "p = node g_path_works w" by (rule path_in_InrD [OF s(1)])
    note rd = read_node_InrD [OF k s(2)]
    have "same_files (tree z1) (tree z2) \<and> (\<forall>w. tree z2 (node g_path_works w) = tree z1 (node g_path_works w))"
    proof (cases "hd buf = CHR ''w''")
      case True
      have "tl buf \<noteq> []" "hd (tl buf) = CHR ''_'' \<or> len' - 1 = 0"
        using node_text_begins [OF Cons.prems(2) conjunct2 [OF rd, unfolded p] True] by auto
      then show ?thesis using reset_file_same [OF k] s(3) True by auto
    next
      case False
      then show ?thesis using s(3) by (simp add: same_files_def)
    qed
    then have z2: "same_files (tree z) (tree z2)" "orders_begin (tree z2)"
      using rd Cons.prems(2) by (auto simp: orders_begin_def)
    let ?z3 = "snd (zoo_delete api p (-1) z2)"
    have "same_files (tree z2) (tree ?z3) \<and> orders_begin (tree ?z3)"
      using keeper_any_delete [OF k, of p z2] orders_begin_delete [OF z2(2)] z2(2) unfolding p by (auto simp: same_files_def)
    then show ?thesis using Cons.IH [OF s(4)] z2(1) same_files_trans by blast
  qed
qed

lemma elected_same: "keeper api tree \<Longrightarrow> elected api cs len z = Inr (dct, z') \<Longrightarrow> tree z' = tree z"
proof (induction cs arbitrary: len z dct)
  case (Cons c cs)
  then show ?case by (auto elim!: and_then_InrE dest!: read_node_InrD)
qed simp

lemma recover_same_files:
  assumes k: "keeper api tree" and r: "recover api me z = Inr z'" and o: "orders_begin (tree z)"
  shows "same_files (tree z) (tree z')"
proof -
  obtain p rc buf len z1 z2 procs z3 dct z4 wks z5 where s: "path_in g_path_works me = Inr p"
      "read_node api p True (replicate 64 NUL) 64 z = Inr (rc, buf, len, z1)"
      "(if hd buf = CHR ''w'' then and_then (reset_file api buf 63 z1) (\<lambda>z. Inr (snd (zoo_set api p ''s'' (-1) z))) else Inr z1) = Inr z2"
      "list_nodes api g_path_elect True z2 = Inr (procs, z3)" "elected api procs 64 z3 = Inr (dct, z4)"
      "list_nodes api g_path_works True z4 = Inr (wks, z5)" "bury api dct wks 64 z5 = Inr z'"
    using r by (auto simp: recover_def elim!: and_then_InrE)
  have p: "p = node g_path_works me" by (rule path_in_InrD [OF s(1)])
  note rd = read_node_InrD [OF k s(2)]
  have "same_files (tree z1) (tree z2) \<and> orders_begin (tree z2)"
  proof (cases "hd buf = CHR ''w''")
    case True
    then obtain z11 where z: "reset_file api buf 63 z1 = Inr z11" "z2 = snd (zoo_set api p ''s'' (-1) z11)"
      using s(3) by (auto elim!: and_then_InrE)
    have "tl buf \<noteq> []" "hd (tl buf) = CHR ''_'' \<or> (63::int) = 0"
      using node_text_begins [OF o conjunct2 [OF rd, unfolded p] True] by auto
    from reset_file_same [OF k z(1) this] have "same_files (tree z1) (tree z11)" "orders_begin (tree z11)"
      using rd o by (auto simp: orders_begin_def)
    then show ?thesis unfolding z(2) keeper_any_set [OF k] p by (auto simp: same_files_def orders_begin_def)
  next
    case False
    then show ?thesis using s(3) rd o by (simp add: same_files_def)
  qed
  moreover have "tree z5 = tree z2"
    using list_nodes_InrD [OF k s(4)] elected_same [OF k s(5)] list_nodes_InrD [OF k s(6)] by simp
  ultimately show ?thesis
    using bury_same [OF k s(7)] rd same_files_trans by metis
qed

end
