(* ===== verification/FileRecovery.thy ===== *)
theory FileRecovery
  imports Cxx "HOL-Library.Multiset"
begin

text \<open>
  The recovery of a file (\<open>_file_recovery/re_file.cpp\<close>): the blocks of a task and node are
  fetched from the store, sorted, merged into one file per node, and the files of the five
  nodes are merged into the result without repeated lines.

  \<open>select\<close> is the answer of the store to a command. Files are a map from names to contents; a
  file opened for reading is the text that is still to be read. The library leaves open which of
  several equal elements \<open>sort\<close> and \<open>priority_queue\<close> put first: these choices are a parameter.
\<close>

section \<open>Library calls\<close>

type_synonym files = "bytes \<Rightarrow> bytes option"

record choices =
  std_sort :: "(int \<times> bytes) list \<Rightarrow> (int \<times> bytes) list"
  pq_top :: "(nat \<times> int) list \<Rightarrow> nat \<times> int"

definition choices_ok :: "choices \<Rightarrow> bool" where
  "choices_ok c \<longleftrightarrow> (\<forall>xs. mset (std_sort c xs) = mset xs \<and> sorted (map fst (std_sort c xs)))
     \<and> (\<forall>q. q \<noteq> [] \<longrightarrow> pq_top c q \<in> set q \<and> (\<forall>e\<in>set q. snd (pq_top c q) \<le> snd e))"

text \<open>\<open>fgets\<close> with a buffer of \<open>n\<close> cells: the line it stores and the text left.\<close>

definition fgets :: "nat \<Rightarrow> bytes \<Rightarrow> (bytes \<times> bytes) option" where
  "fgets n t =
     (if t = [] then None
      else let whole = (if LF \<in> set t then Suc (length (takeWhile (\<lambda>c. c \<noteq> LF) t)) else length t);
               k = min (n - 1) whole
           in Some (take k t, drop k t))"

definition MAX_BLOCK_SIZE :: nat where "MAX_BLOCK_SIZE = 55000"
definition MAX_LINE_SIZE :: nat where "MAX_LINE_SIZE = 40"
definition NODE_NUM :: nat where "NODE_NUM = 5"

text \<open>The number of a line: the digits between the first character, which is skipped, and the next
  comma, copied into 20 cells.\<close>

definition line_number :: "bytes \<Rightarrow> int result" where
  "line_number buf =
     (case cstr buf of
        [] \<Rightarrow> Inl Undef
      | c # t \<Rightarrow>
          if CHR '','' \<notin> set t then Inl Undef
          else let d = takeWhile (\<lambda>x. x \<noteq> CHR '','') t in
            if 20 \<le> length d then Inl Undef else atoi d)"

section \<open>Sorting the blocks of a node\<close>

text \<open>The lines of a block, each with its newline; what follows the last newline is ignored.\<close>

fun split_lines :: "bytes \<Rightarrow> bytes \<Rightarrow> bytes list" where
  "split_lines acc [] = []"
| "split_lines acc (c # cs) = (if c = LF then (acc @ [c]) # split_lines [] cs else split_lines (acc @ [c]) cs)"

fun number_lines :: "bytes list \<Rightarrow> (int \<times> bytes) list result" where
  "number_lines [] = Inr []"
| "number_lines (l # ls) = and_then (line_number l) (\<lambda>n. and_then (number_lines ls) (\<lambda>r. Inr ((n, l) # r)))"

text \<open>One block: the sorted lines, and the number of the last of them.\<close>

definition sort_block :: "choices \<Rightarrow> bytes \<Rightarrow> (bytes \<times> int) result" where
  "sort_block c block =
     (let ls = split_lines [] block in
      if MAX_BLOCK_SIZE < length ls \<or> (\<exists>l\<in>set ls. MAX_LINE_SIZE \<le> length l) then Inl Undef
      else and_then (number_lines ls) (\<lambda>v.
        let v = std_sort c v in
        if v = [] then Inl Undef
        else and_then (line_number (snd (last v))) (\<lambda>n. Inr (concat (map (cstr \<circ> snd) v), n))))"

definition block_key :: "int \<Rightarrow> int \<Rightarrow> int \<Rightarrow> bytes" where
  "block_key task_id node_id block_id = ''task'' @ to_string task_id @ ''_'' @ to_string node_id @ ''_'' @ to_string block_id"

definition node_key :: "int \<Rightarrow> int \<Rightarrow> bytes" where
  "node_key task_id node_id = ''task'' @ to_string task_id @ ''_'' @ to_string node_id"

text \<open>The loop over the blocks; an outer \<open>None\<close> means that it has not ended within the fuel.\<close>

fun blocks_loop ::
    "choices \<Rightarrow> (bytes \<Rightarrow> bytes) \<Rightarrow> int \<Rightarrow> int \<Rightarrow> nat \<Rightarrow> int \<Rightarrow> int \<Rightarrow> files \<Rightarrow> ((int \<times> int) \<times> files) result option" where
  "blocks_loop c select task_id node_id fuel block_id max_line_num fs =
     (let key = block_key task_id node_id block_id; block = select (''get '' @ key) in
      if block = [] then Some (Inr ((block_id - 1, max_line_num), fs))
      else if block = ''error'' then Some (Inr ((-1, -1), fs))
      else case fuel of
        0 \<Rightarrow> None
      | Suc n \<Rightarrow>
          (case sort_block c block of
             Inl f \<Rightarrow> Some (Inl f)
           | Inr (t, line_num) \<Rightarrow>
               blocks_loop c select task_id node_id n (block_id + 1) (max line_num max_line_num) (fs(key \<mapsto> t))))"

declare blocks_loop.simps [simp del]

definition sort_blocks ::
    "choices \<Rightarrow> (bytes \<Rightarrow> bytes) \<Rightarrow> int \<Rightarrow> int \<Rightarrow> nat \<Rightarrow> files \<Rightarrow> ((int \<times> int) \<times> files) result option" where
  "sort_blocks c select task_id node_id fuel fs = blocks_loop c select task_id node_id fuel 1 0 fs"

section \<open>Merging\<close>

text \<open>The files to merge: the line in each buffer and the text that is left. A file that is missing
  or empty leaves its buffer unset.\<close>

fun open_sources :: "files \<Rightarrow> bytes list \<Rightarrow> (bytes \<times> bytes) list result" where
  "open_sources fs [] = Inr []"
| "open_sources fs (f # names) =
     (case fs f of
        None \<Rightarrow> Inl Undef
      | Some t \<Rightarrow>
          (case fgets MAX_LINE_SIZE t of
             None \<Rightarrow> Inl Undef
           | Some s \<Rightarrow> and_then (open_sources fs names) (\<lambda>srcs. Inr (s # srcs))))"

fun first_queue :: "nat \<Rightarrow> (bytes \<times> bytes) list \<Rightarrow> (nat \<times> int) list result" where
  "first_queue i [] = Inr []"
| "first_queue i (s # srcs) = and_then (line_number (fst s)) (\<lambda>n. and_then (first_queue (Suc i) srcs) (\<lambda>q. Inr ((i, n) # q)))"

text \<open>The loop over the queue; \<open>emit\<close> is what is done with the line on top. (That the top is an
  element of the queue is part of \<open>choices_ok\<close>.)\<close>

function merge_loop ::
    "choices \<Rightarrow> (int \<Rightarrow> bytes \<Rightarrow> 's \<Rightarrow> 's result) \<Rightarrow> (bytes \<times> bytes) list \<Rightarrow> (nat \<times> int) list \<Rightarrow> 's \<Rightarrow> 's result" where
  "merge_loop c emit srcs q s =
     (if q = [] then Inr s
      else let top = pq_top c q; i = fst top in
        if top \<notin> set q \<or> length srcs \<le> i then Inl Undef
        else and_then (emit (snd top) (fst (srcs ! i)) s) (\<lambda>s'.
          case fgets MAX_LINE_SIZE (snd (srcs ! i)) of
            None \<Rightarrow> merge_loop c emit srcs (remove1 top q) s'
          | Some (line, rest) \<Rightarrow> and_then (line_number line) (\<lambda>n.
              merge_loop c emit (srcs[i := (line, rest)]) ((i, n) # remove1 top q) s')))"
  by pat_completeness auto

lemma fgets_rest: "fgets n t = Some (l, r) \<Longrightarrow> 1 < n \<Longrightarrow> length r < length t"
  by (auto simp: fgets_def Let_def split: if_splits)

lemma sum_list_update_less: "i < length ns \<Longrightarrow> n < ns ! i \<Longrightarrow> sum_list (ns[i := n]) < sum_list ns" for n :: nat
  by (induction ns arbitrary: i) (auto split: nat.splits)

termination merge_loop
proof (relation "measures [\<lambda>(c, emit, srcs, q, s). sum_list (map (length \<circ> snd) srcs), \<lambda>(c, emit, srcs, q, s). length q]", goal_cases)
  case 1
  show ?case by simp
next
  case (2 c emit srcs q s top i s')
  then have "length (remove1 top q) < length q" using length_pos_if_in_set [of top q] by (auto simp: length_remove1)
  then show ?case by simp
next
  case (3 c emit srcs q s top i s' x line rest n)
  then have "length rest < length (snd (srcs ! i))" using fgets_rest by (fastforce simp: MAX_LINE_SIZE_def)
  moreover have "i < length srcs" using 3 by auto
  ultimately have "sum_list (map (length \<circ> snd) (srcs[i := (line, rest)])) < sum_list (map (length \<circ> snd) srcs)"
    by (simp add: map_update sum_list_update_less)
  then show ?case by simp
qed

declare merge_loop.simps [simp del]

definition sort_nodes :: "choices \<Rightarrow> int \<Rightarrow> int \<Rightarrow> int \<Rightarrow> files \<Rightarrow> files result" where
  "sort_nodes c task_id node_id block_num fs =
     and_then (open_sources fs (map (\<lambda>b. block_key task_id node_id (int b)) [1..<Suc (nat block_num)])) (\<lambda>srcs.
     and_then (first_queue 0 srcs) (\<lambda>q.
     and_then (merge_loop c (\<lambda>n line out. Inr (out @ cstr line)) srcs q []) (\<lambda>out.
       Inr (fs(node_key task_id node_id \<mapsto> out)))))"

text \<open>\<open>flags\<close> is the array \<open>line_flag\<close>, whatever it holds at the start.\<close>

definition emit_once :: "int \<Rightarrow> int \<Rightarrow> bytes \<Rightarrow> bool list \<times> bytes \<Rightarrow> (bool list \<times> bytes) result" where
  "emit_once task_id n line s =
     (case s of (flags, out) \<Rightarrow>
        if n < 0 \<or> int (length flags) \<le> n then Inl Undef
        else if flags ! nat n then Inr (flags, out)
        else Inr (flags[nat n := True], out @ to_string task_id @ cstr line))"

text \<open>The result is the text put into the stream of the output file, which is never closed.\<close>

definition sort_file :: "choices \<Rightarrow> int \<Rightarrow> bool list \<Rightarrow> files \<Rightarrow> bytes result" where
  "sort_file c task_id flags fs =
     and_then (open_sources fs (map (\<lambda>n. node_key task_id (int n)) [0..<NODE_NUM])) (\<lambda>srcs.
     and_then (first_queue 0 srcs) (\<lambda>q.
     and_then (merge_loop c (emit_once task_id) srcs q (flags, [])) (\<lambda>(flags, out). Inr out)))"

definition create_block ::
    "choices \<Rightarrow> (bytes \<Rightarrow> bytes) \<Rightarrow> int \<Rightarrow> int \<Rightarrow> nat \<Rightarrow> files \<Rightarrow> (int \<times> files) result option" where
  "create_block c select task_id node_id fuel fs =
     (case sort_blocks c select task_id node_id fuel fs of
        None \<Rightarrow> None
      | Some r \<Rightarrow> Some (and_then r (\<lambda>((block_num, max_line), fs).
          if max_line = -1 then Inr (-1, fs)
          else and_then (sort_nodes c task_id node_id block_num fs) (\<lambda>fs. Inr (max_line, fs)))))"

text \<open>The nodes one after the other: each result is awaited before the next call is enqueued. The
  loop ends with \<open>None\<close> for -1.\<close>

fun all_nodes ::
    "choices \<Rightarrow> (bytes \<Rightarrow> bytes) \<Rightarrow> int \<Rightarrow> nat list \<Rightarrow> nat \<Rightarrow> files \<Rightarrow> (int list option \<times> files) result option" where
  "all_nodes c select task_id [] fuel fs = Some (Inr (Some [], fs))"
| "all_nodes c select task_id (n # ns) fuel fs =
     (case create_block c select task_id (int n) fuel fs of
        None \<Rightarrow> None
      | Some (Inl f) \<Rightarrow> Some (Inl f)
      | Some (Inr (m, fs)) \<Rightarrow>
          if m = -1 then Some (Inr (None, fs))
          else map_option (\<lambda>r. and_then r (\<lambda>(ms, fs). Inr (map_option (Cons m) ms, fs)))
                 (all_nodes c select task_id ns fuel fs))"

text \<open>\<open>fresh\<close> gives the contents of newly allocated memory. The result is the returned value, the
  files and the text of the output.\<close>

definition csv_recover ::
    "choices \<Rightarrow> (bytes \<Rightarrow> bytes) \<Rightarrow> (nat \<Rightarrow> bool list) \<Rightarrow> int \<Rightarrow> nat \<Rightarrow> files \<Rightarrow> (int \<times> files \<times> bytes) result option" where
  "csv_recover c select fresh task_id fuel fs =
     (case all_nodes c select task_id [0..<5] fuel fs of
        None \<Rightarrow> None
      | Some r \<Rightarrow> Some (and_then r (\<lambda>(ms, fs).
          case ms of
            None \<Rightarrow> Inr (-1, fs, [])
          | Some ms \<Rightarrow>
              let max_line = last (sort ms) in
              if max_line < 0 then Inl Uncaught
              else and_then (sort_file c task_id (fresh (nat max_line)) fs) (\<lambda>out. Inr (0, fs, out)))))"

end
