(* ===== verification/CsvReader.thy ===== *)
theory CsvReader
  imports FileRecovery Dispatcher
begin

text \<open>
  Reading the CSV file of a node into the store (\<open>_read_csv/read_csv.cpp\<close>) and the start of a
  process (\<open>read_file\<close> and \<open>insrt\<close> of \<open>work.cpp\<close>).

  The file is the text that is still to be read. What is sent to the store is returned as the
  list of the commands; the tasks run on the thread pool, so the lists of different tasks are
  interleaved in any way (\<open>ThreadPool\<close> shows that each task runs to its end once).
\<close>

section \<open>The tasks of a file\<close>

text \<open>\<open>FindTotalTaskNum\<close>: without a comma the whole line is the number.\<close>

definition line_task :: "bytes \<Rightarrow> int result" where
  "line_task buf = (let str = cstr buf; e = str_find CHR '','' str in and_then (substr str 0 e) atoi)"

function find_tasks :: "bytes \<Rightarrow> bool list \<Rightarrow> bool list result" where
  "find_tasks t members =
     (case fgets 200 t of
        None \<Rightarrow> Inr members
      | Some (buf, rest) \<Rightarrow> and_then (line_task buf) (\<lambda>i.
          if i < 0 \<or> int (length members) \<le> i then Inl Undef
          else find_tasks rest (members[nat i := True])))"
  by pat_completeness auto
termination
  by (relation "measure (length \<circ> fst)") (auto dest: fgets_rest)

declare find_tasks.simps [simp del]

definition FindTotalTaskNum :: "bytes \<Rightarrow> bool list result" where
  "FindTotalTaskNum csv = find_tasks csv (replicate 100 False)"

section \<open>The blocks of a task\<close>

text \<open>The number in front of the first comma, copied into three cells.\<close>

definition row_task :: "bytes \<Rightarrow> int result" where
  "row_task buf =
     (let s = cstr buf; d = takeWhile (\<lambda>x. x \<noteq> CHR '','') s in
      if CHR '','' \<notin> set s \<or> 3 \<le> length d then Inl Undef else atoi d)"

definition set_block :: "int \<Rightarrow> int \<Rightarrow> int \<Rightarrow> bytes \<Rightarrow> bytes" where
  "set_block task_id node_id block_idx str =
     ''set task'' @ to_string task_id @ ''_'' @ to_string node_id @ ''_'' @ to_string block_idx @ '' '' @ str"

text \<open>The loop over the lines. The last argument collects the commands.\<close>

function insert_loop :: "int \<Rightarrow> int \<Rightarrow> int \<Rightarrow> bytes \<Rightarrow> int \<Rightarrow> bytes \<Rightarrow> int \<Rightarrow> bytes list \<Rightarrow> bytes list result" where
  "insert_loop task_id node_id line_per_insert t index str block_idx sent =
     (case fgets 200 t of
        None \<Rightarrow> Inr (sent @ [set_block task_id node_id block_idx str])
      | Some (buf, rest) \<Rightarrow>
          let full = index = line_per_insert;
              sent = (if full then sent @ [set_block task_id node_id block_idx str] else sent);
              block_idx = (if full then block_idx + 1 else block_idx);
              index = (if full then 0 else index);
              str = (if full then [] else str)
          in and_then (row_task buf) (\<lambda>i.
            if task_id = i then
              (if length (cstr buf) < length (to_string task_id) then Inl Undef
               else insert_loop task_id node_id line_per_insert rest (index + 1)
                      (str @ drop (length (to_string task_id)) (cstr buf)) block_idx sent)
            else insert_loop task_id node_id line_per_insert rest index str block_idx sent))"
  by pat_completeness auto
termination
  by (relation "measure (\<lambda>(_, _, _, t, _). length t)") (auto dest: fgets_rest)

declare insert_loop.simps [simp del]

definition insert_to_redis :: "int \<Rightarrow> int \<Rightarrow> bytes option \<Rightarrow> int \<Rightarrow> bytes list result" where
  "insert_to_redis node_id line_per_insert csv task_id =
     (case csv of
        None \<Rightarrow> Inl Undef
      | Some t \<Rightarrow> insert_loop task_id node_id line_per_insert t 0 [] 1 [])"

text \<open>The tasks \<open>load\<close> hands to the pool, and what each of them sends.\<close>

fun map_results :: "('a \<Rightarrow> 'b result) \<Rightarrow> 'a list \<Rightarrow> 'b list result" where
  "map_results f [] = Inr []"
| "map_results f (x # xs) = and_then (f x) (\<lambda>y. and_then (map_results f xs) (\<lambda>ys. Inr (y # ys)))"

definition load_tasks :: "bool list \<Rightarrow> nat \<Rightarrow> nat list result" where
  "load_tasks members loop_num =
     (if length members < loop_num then Inl Undef else Inr (filter (\<lambda>i. members ! i) [0..<loop_num]))"

definition load_csv :: "int \<Rightarrow> int \<Rightarrow> bytes option \<Rightarrow> bool list \<Rightarrow> nat \<Rightarrow> (nat \<times> bytes list) list result" where
  "load_csv node_id line_per_insert csv members loop_num =
     and_then (load_tasks members loop_num) (\<lambda>ts.
       map_results (\<lambda>i. and_then (insert_to_redis node_id line_per_insert csv (int i)) (\<lambda>cmds. Inr (i, cmds))) ts)"

section \<open>The start of a process\<close>

fun announce :: "'z zookeeper \<Rightarrow> bool list \<Rightarrow> nat list \<Rightarrow> 'z \<Rightarrow> 'z result" where
  "announce api members [] z = Inr z"
| "announce api members (i # ns) z =
     (if length members \<le> i then Inl Undef
      else if members ! i then and_then (insr2clst api (to_string (int i)) z) (announce api members ns)
      else announce api members ns z)"

text \<open>\<open>read_file\<close>: load, then announce the tasks. \<open>files\<close> are the files of the machine; an outer
  \<open>None\<close> means that the loop of \<open>create\<close> has not ended within the fuel.\<close>

definition read_file ::
    "'z zookeeper \<Rightarrow> files \<Rightarrow> int \<Rightarrow> nat \<Rightarrow> 'z \<Rightarrow> ((nat \<times> bytes list) list \<times> 'z) result option" where
  "read_file api files node_id fuel z =
     (let csv = files (''./node_'' @ to_string node_id @ ''.csv'') in
      case and_then (case csv of None \<Rightarrow> Inl Undef | Some t \<Rightarrow> FindTotalTaskNum t) (\<lambda>members.
          and_then (load_csv node_id 1000 csv members 20) (\<lambda>cmds. Inr (members, cmds))) of
        Inl f \<Rightarrow> Some (Inl f)
      | Inr (members, cmds) \<Rightarrow>
          (case create api fuel z of
             None \<Rightarrow> None
           | Some z \<Rightarrow> Some (and_then (announce api members [1..<21] z) (\<lambda>z. Inr (cmds, z)))))"

text \<open>\<open>insrt\<close>: \<open>answer k i\<close> is what the store says of node \<open>i\<close> in round \<open>k\<close> of the waiting loop. The
  result tells in which round the loop ended.\<close>

fun await_nodes :: "(nat \<Rightarrow> nat \<Rightarrow> bytes) \<Rightarrow> nat \<Rightarrow> nat \<Rightarrow> nat option" where
  "await_nodes answer k fuel =
     (case fuel of
        0 \<Rightarrow> None
      | Suc f \<Rightarrow> if list_all (\<lambda>i. answer k i = ''ok'') [0..<5] then Some k else await_nodes answer (Suc k) f)"

declare await_nodes.simps [simp del]

definition insrt ::
    "'z zookeeper \<Rightarrow> files \<Rightarrow> (bytes \<Rightarrow> bytes) \<Rightarrow> (nat \<Rightarrow> nat \<Rightarrow> bytes) \<Rightarrow> int \<Rightarrow> nat \<Rightarrow> 'z
      \<Rightarrow> (((nat \<times> bytes list) list \<times> bytes list) \<times> nat \<times> 'z) result option" where
  "insrt api files select answer node_id fuel z =
     (case (if select (''get node_status'' @ to_string node_id) = ''ok'' then Some (Inr (([], []), z))
            else map_option (\<lambda>r. and_then r (\<lambda>(cmds, z). Inr ((cmds, [''set node_status'' @ to_string node_id @ '' ok'']), z)))
                   (read_file api files node_id fuel z)) of
        None \<Rightarrow> None
      | Some (Inl f) \<Rightarrow> Some (Inl f)
      | Some (Inr (sent, z)) \<Rightarrow> map_option (\<lambda>k. Inr (sent, k, z)) (await_nodes answer 0 fuel))"

end
