(* ===== verification/RecoverySpec.thy ===== *)
theory RecoverySpec
  imports FileRecovery
begin

text \<open>
  What the recovery computes from well-formed rows: the files of a node and the result are the
  rows sorted by their numbers, and the result has every number once.
\<close>

section \<open>Rows\<close>

text \<open>A row of a block: the separator the task number was cut off before, the line number, the rest.\<close>

definition row_ok :: "bytes \<Rightarrow> bool" where
  "row_ok l \<longleftrightarrow> (\<exists>b n. l = b @ [LF] \<and> LF \<notin> set b \<and> NUL \<notin> set b \<and> length l < 40 \<and> line_number l = Inr n \<and> 0 \<le> n)"

definition row_num :: "bytes \<Rightarrow> int" where
  "row_num l = projr (line_number l)"

lemma row_number: "row_ok l \<Longrightarrow> line_number l = Inr (row_num l) \<and> 0 \<le> row_num l"
  by (auto simp: row_ok_def row_num_def)

lemma row_cstr: "row_ok l \<Longrightarrow> cstr l = l"
  by (auto simp: row_ok_def cstr_def takeWhile_eq_all_conv)

lemma row_nonempty: "row_ok l \<Longrightarrow> l \<noteq> []"
  by (auto simp: row_ok_def)

lemma fgets_row: "row_ok l \<Longrightarrow> fgets MAX_LINE_SIZE (l @ rest) = Some (l, rest)"
proof -
  assume "row_ok l"
  then obtain b where b: "l = b @ [LF]" "LF \<notin> set b" "length l < 40" by (auto simp: row_ok_def)
  have "takeWhile (\<lambda>c. c \<noteq> LF) (b @ LF # rest) = b" using before_first [OF b(2), of rest] by simp
  then show ?thesis using b by (simp add: fgets_def MAX_LINE_SIZE_def)
qed

lemma fgets_rows: "\<forall>l\<in>set ls. row_ok l \<Longrightarrow> fgets MAX_LINE_SIZE (concat ls) = (case ls of [] \<Rightarrow> None | l # ls \<Rightarrow> Some (l, concat ls))"
proof (cases ls)
  case Nil
  then show ?thesis by (simp add: fgets_def)
next
  case (Cons l ls')
  assume "\<forall>l\<in>set ls. row_ok l"
  then show ?thesis using Cons fgets_row [of l "concat ls'"] by simp
qed

lemma split_lines_row: "LF \<notin> set b \<Longrightarrow> split_lines acc (b @ LF # rest) = (acc @ b @ [LF]) # split_lines [] rest"
  by (induction b arbitrary: acc) auto

lemma split_lines_rows: "\<forall>l\<in>set ls. row_ok l \<Longrightarrow> split_lines [] (concat ls) = ls"
proof (induction ls)
  case (Cons l ls)
  then obtain b where "l = b @ [LF]" "LF \<notin> set b" by (auto simp: row_ok_def)
  then show ?case using Cons split_lines_row [of b "[]" "concat ls"] by simp
qed simp

lemma number_rows: "\<forall>l\<in>set ls. row_ok l \<Longrightarrow> number_lines ls = Inr (map (\<lambda>l. (row_num l, l)) ls)"
  by (induction ls) (auto simp: row_number)

section \<open>One block\<close>

lemma concat_cstr_rows: "\<forall>l\<in>set ls. row_ok l \<Longrightarrow> concat (map (\<lambda>l. cstr l) ls) = concat ls"
  by (induction ls) (auto simp: row_cstr)

lemma sort_block_rows:
  assumes c: "choices_ok c" and ls: "\<forall>l\<in>set ls. row_ok l" "ls \<noteq> []" "length ls \<le> MAX_BLOCK_SIZE"
  obtains L where "sort_block c (concat ls) = Inr (concat L, Max (row_num ` set ls))" "mset L = mset ls" "sorted (map row_num L)"
proof -
  let ?v = "map (\<lambda>l. (row_num l, l)) ls"
  define v where "v = std_sort c ?v"
  have v: "mset v = mset ?v" "sorted (map fst v)" using c by (simp_all add: choices_ok_def v_def)
  have el: "fst e = row_num (snd e)" "snd e \<in> set ls" if "e \<in> set v" for e
    using that mset_eq_setD [OF v(1)] by auto
  define L where "L = map snd v"
  have "mset L = image_mset snd (mset ?v)" unfolding v(1) [symmetric] by (simp add: L_def)
  then have L: "mset L = mset ls" by (simp add: image_mset.compositionality o_def)
  have fst_v: "map fst v = map row_num L" using el(1) by (simp add: L_def)
  then have s: "sorted (map row_num L)" using v(2) by simp
  have ne: "v \<noteq> []" using v(1) ls(2) by auto
  have Lset: "set L = set ls" using L by (rule mset_eq_setD)
  have rows: "\<forall>l\<in>set L. row_ok l" using ls(1) Lset by simp
  have short: "\<not> (\<exists>l\<in>set ls. MAX_LINE_SIZE \<le> length l)" using ls(1) by (auto simp: row_ok_def MAX_LINE_SIZE_def)
  have lastL: "snd (last v) = last L" "last L \<in> set L" using ne by (simp_all add: L_def last_map)
  have "row_num (last L) = Max (row_num ` set L)"
  proof (rule Max_eqI [symmetric])
    fix y assume "y \<in> row_num ` set L"
    then obtain i where "i < length L" "y = row_num (L ! i)" by (auto simp: in_set_conv_nth)
    then show "y \<le> row_num (last L)"
      using s sorted_nth_mono [OF s, of i "length L - 1"] ne by (auto simp: last_conv_nth L_def)
  qed (use lastL in auto)
  then have n: "line_number (snd (last v)) = Inr (Max (row_num ` set ls))"
    using row_number [of "last L"] rows lastL Lset by simp
  have "concat (map (cstr \<circ> snd) v) = concat L" using concat_cstr_rows [OF rows] by (simp add: L_def o_def)
  then have "sort_block c (concat ls) = Inr (concat L, Max (row_num ` set ls))"
    using ls(3) short ne n unfolding sort_block_def split_lines_rows [OF ls(1)] Let_def number_rows [OF ls(1)] v_def [symmetric]
    by (simp add: v_def [symmetric])
  then show thesis using that L s by blast
qed

section \<open>The merge\<close>

fun emit_all :: "(int \<Rightarrow> bytes \<Rightarrow> 's \<Rightarrow> 's result) \<Rightarrow> bytes list \<Rightarrow> 's \<Rightarrow> 's result" where
  "emit_all emit [] s = Inr s"
| "emit_all emit (l # ls) s = and_then (emit (row_num l) l s) (emit_all emit ls)"

text \<open>The rows left of each source; the first one is in the buffer.\<close>

definition source_of :: "bytes list \<Rightarrow> bytes \<times> bytes \<Rightarrow> bool" where
  "source_of ls s \<longleftrightarrow> ls \<noteq> [] \<longrightarrow> s = (hd ls, concat (tl ls))"

definition entries :: "bytes list list \<Rightarrow> nat list \<Rightarrow> (nat \<times> int) list" where
  "entries Ls js = map (\<lambda>i. (i, row_num (hd (Ls ! i)))) (filter (\<lambda>i. Ls ! i \<noteq> []) js)"

definition queue_of :: "bytes list list \<Rightarrow> (nat \<times> int) multiset" where
  "queue_of Ls = mset (entries Ls [0..<length Ls])"

lemma in_queue_of: "(i, n) \<in># queue_of Ls \<longleftrightarrow> i < length Ls \<and> Ls ! i \<noteq> [] \<and> n = row_num (hd (Ls ! i))"
  by (auto simp: queue_of_def entries_def)

lemma entries_simps:
  "entries Ls [] = []" "entries Ls (xs @ ys) = entries Ls xs @ entries Ls ys"
  "entries Ls (i # js) = (if Ls ! i = [] then [] else [(i, row_num (hd (Ls ! i)))]) @ entries Ls js"
  by (simp_all add: entries_def)

lemma entries_upd: "i \<notin> set js \<Longrightarrow> entries (Ls[i := ls]) js = entries Ls js"
  by (induction js) (auto simp: entries_simps)

lemma queue_of_pop:
  assumes i: "i < length Ls" "Ls ! i = l # ls"
  shows "queue_of (Ls[i := ls]) = (if ls = [] then {#} else {#(i, row_num (hd ls))#}) + (queue_of Ls - {#(i, row_num l)#})"
proof -
  have up: "[0..<length Ls] = [0..<i] @ i # [Suc i..<length Ls]"
    using i(1) upt_add_eq_append [of 0 i "length Ls - i"] by (simp add: upt_conv_Cons)
  have sub: "i \<notin> set [0..<i]" "i \<notin> set [Suc i..<length Ls]" by auto
  show ?thesis
    unfolding queue_of_def length_list_update up entries_simps entries_upd [OF sub(1)] entries_upd [OF sub(2)] using i by simp
qed

lemma merge_rows:
  assumes c: "choices_ok c"
  shows "\<forall>ls\<in>set Ls. (\<forall>l\<in>set ls. row_ok l) \<and> sorted (map row_num ls) \<Longrightarrow> list_all2 source_of Ls srcs \<Longrightarrow> mset q = queue_of Ls \<Longrightarrow>
    \<exists>L. mset L = mset (concat Ls) \<and> sorted (map row_num L) \<and> (\<forall>s. merge_loop c emit srcs q s = emit_all emit L s)"
proof (induction "length (concat Ls)" arbitrary: Ls srcs q)
  case 0
  then have "\<forall>i<length Ls. Ls ! i = []" by (auto dest: nth_mem)
  then have "entries Ls [0..<length Ls] = []" by (simp add: entries_def filter_empty_conv)
  then have "q = []" using 0(4) by (simp add: queue_of_def)
  moreover have "concat Ls = []" using 0(1) by simp
  ultimately show ?case by (intro exI [of _ "[]"]) (simp add: merge_loop.simps)
next
  case (Suc k)
  obtain j where "j < length Ls" "Ls ! j \<noteq> []" using Suc(2) by (metis concat_eq_Nil_conv in_set_conv_nth length_0_conv nat.simps(3))
  then have "q \<noteq> []" using Suc(5) in_queue_of [of j _ Ls] by fastforce
  define top where "top = pq_top c q"
  have top: "top \<in> set q" "\<forall>e\<in>set q. snd top \<le> snd e" using c \<open>q \<noteq> []\<close> by (simp_all add: choices_ok_def top_def)
  define i where "i = fst top"
  have "top \<in># queue_of Ls" using top(1) Suc(5) by (metis set_mset_mset)
  then have i: "i < length Ls" "Ls ! i \<noteq> []" "top = (i, row_num (hd (Ls ! i)))"
    using in_queue_of [of "fst top" "snd top" Ls] by (auto simp: i_def prod_eq_iff)
  obtain l ls where l: "Ls ! i = l # ls" using i(2) by (cases "Ls ! i") auto
  have rows: "\<forall>x\<in>set (l # ls). row_ok x" "sorted (map row_num (l # ls))" using Suc(3) i(1) l by (metis nth_mem)+
  have len: "length srcs = length Ls" using Suc(4) by (simp add: list_all2_lengthD)
  have src: "srcs ! i = (l, concat ls)" using list_all2_nthD [OF Suc(4) i(1)] l by (simp add: source_of_def)
  let ?Ls = "Ls[i := ls]"
  have least: "row_num l \<le> row_num x" if "x \<in> set (concat Ls)" for x
  proof -
    obtain xs where "xs \<in> set Ls" "x \<in> set xs" using \<open>x \<in> set (concat Ls)\<close> by auto
    then obtain j where j: "j < length Ls" "x \<in> set (Ls ! j)" by (metis in_set_conv_nth)
    then obtain y ys where y: "Ls ! j = y # ys" by (cases "Ls ! j") auto
    have "sorted (map row_num (y # ys))" using Suc(3) j(1) y by (metis nth_mem)
    then have "row_num y \<le> row_num x" using j(2) y by auto
    moreover have "(j, row_num y) \<in> set q" using Suc(5) in_queue_of [of j "row_num y" Ls] j(1) y by (metis list.distinct(1) list.sel(1) set_mset_mset)
    then have "snd top \<le> row_num y" using top(2) by fastforce
    ultimately show ?thesis using i(3) l by simp
  qed
  have ms: "mset (concat Ls) = add_mset l (mset (concat ?Ls))"
  proof -
    have "Ls = take i Ls @ (l # ls) # drop (Suc i) Ls" using i(1) l by (metis id_take_nth_drop)
    moreover have "?Ls = take i Ls @ ls # drop (Suc i) Ls" using i(1) by (rule upd_conv_take_nth_drop)
    ultimately show ?thesis by (metis (no_types, lifting) append_Cons concat.simps(2) concat_append mset.simps(2) mset_append union_mset_add_mset_right)
  qed
  then have k: "k = length (concat ?Ls)" using Suc(2) by (metis diff_Suc_1 size_mset size_add_mset)
  have ok: "\<forall>ls\<in>set ?Ls. (\<forall>l\<in>set ls. row_ok l) \<and> sorted (map row_num ls)"
    using Suc(3) rows set_update_subset_insert [of Ls i ls] by auto
  have q': "mset (remove1 top q) = queue_of Ls - {#(i, row_num l)#}" using Suc(5) i(3) l by simp
  have step: "merge_loop c emit srcs q s = and_then (emit (row_num l) l s) (\<lambda>s'.
      case fgets MAX_LINE_SIZE (concat ls) of None \<Rightarrow> merge_loop c emit srcs (remove1 top q) s'
      | Some (line, rest) \<Rightarrow> and_then (line_number line) (\<lambda>n. merge_loop c emit (srcs[i := (line, rest)]) ((i, n) # remove1 top q) s'))" for s
    using \<open>q \<noteq> []\<close> top(1) i len src l by (subst merge_loop.simps) (simp add: Let_def flip: top_def cong: option.case_cong)
  have fg: "fgets MAX_LINE_SIZE (concat ls) = (case ls of [] \<Rightarrow> None | l # ls \<Rightarrow> Some (l, concat ls))"
    using rows(1) by (intro fgets_rows) simp
  have sr: "list_all2 source_of ?Ls (srcs[i := (hd ls, concat (tl ls))])" "ls = [] \<Longrightarrow> list_all2 source_of ?Ls srcs"
  proof -
    show "list_all2 source_of ?Ls (srcs[i := (hd ls, concat (tl ls))])"
      using Suc(4) by (intro list_all2_update_cong) (simp_all add: source_of_def)
    show "list_all2 source_of ?Ls srcs" if "ls = []"
      using list_all2_update_cong [OF Suc(4), of ls "srcs ! i" i] that by (simp add: source_of_def)
  qed
  obtain srcs' q2 where rest: "\<And>s'. (case fgets MAX_LINE_SIZE (concat ls) of None \<Rightarrow> merge_loop c emit srcs (remove1 top q) s'
      | Some (line, rest) \<Rightarrow> and_then (line_number line) (\<lambda>n. merge_loop c emit (srcs[i := (line, rest)]) ((i, n) # remove1 top q) s'))
      = merge_loop c emit srcs' q2 s'" "list_all2 source_of ?Ls srcs'" "mset q2 = queue_of ?Ls"
  proof (cases ls)
    case Nil
    then show thesis using that [of srcs "remove1 top q"] fg sr(2) q' queue_of_pop [OF i(1) l] by simp
  next
    case (Cons x xs)
    have "line_number x = Inr (row_num x)" using rows(1) Cons row_number by simp
    then show thesis
      using that [of "srcs[i := (x, concat xs)]" "(i, row_num x) # remove1 top q"] fg sr(1) q' queue_of_pop [OF i(1) l] Cons by simp
  qed
  obtain L where L: "mset L = mset (concat ?Ls)" "sorted (map row_num L)" "\<forall>s. merge_loop c emit srcs' q2 s = emit_all emit L s"
    using Suc(1) [OF k ok rest(2,3)] by blast
  have "mset (l # L) = mset (concat Ls)" using L(1) ms by simp
  moreover have "row_num l \<le> row_num x" if "x \<in> set L" for x
    using least [of x] that mset_eq_setD [OF \<open>mset (l # L) = mset (concat Ls)\<close>] by auto
  then have "sorted (map row_num (l # L))" using L(2) by auto
  moreover have "\<forall>s. merge_loop c emit srcs q s = emit_all emit (l # L) s"
    unfolding step rest(1) using L(3) by simp
  ultimately show ?case by blast
qed

section \<open>Opening the files\<close>

definition holds_rows :: "files \<Rightarrow> bytes \<Rightarrow> bytes list \<Rightarrow> bool" where
  "holds_rows fs name ls \<longleftrightarrow> fs name = Some (concat ls) \<and> ls \<noteq> [] \<and> (\<forall>l\<in>set ls. row_ok l) \<and> sorted (map row_num ls)"

definition opened :: "bytes list \<Rightarrow> bytes \<times> bytes" where
  "opened ls = (hd ls, concat (tl ls))"

lemma open_sources_rows: "list_all2 (holds_rows fs) names Ls \<Longrightarrow> open_sources fs names = Inr (map opened Ls)"
proof (induction rule: list_all2_induct)
  case (Cons name names ls Ls)
  then have "fgets MAX_LINE_SIZE (concat ls) = (case ls of [] \<Rightarrow> None | l # ls \<Rightarrow> Some (l, concat ls))"
    by (intro fgets_rows) (auto simp: holds_rows_def)
  then have "fgets MAX_LINE_SIZE (concat ls) = Some (opened ls)" using Cons(1) by (cases ls) (auto simp: holds_rows_def opened_def)
  then show ?case using Cons by (auto simp: holds_rows_def)
qed simp

lemma first_queue_rows:
  "\<forall>ls\<in>set Ls. ls \<noteq> [] \<and> row_ok (hd ls) \<Longrightarrow>
   first_queue k (map opened Ls) = Inr (map (\<lambda>i. (k + i, row_num (hd (Ls ! i)))) [0..<length Ls])"
proof (induction Ls arbitrary: k)
  case (Cons ls Ls)
  have "map (\<lambda>i. (k + i, row_num (hd ((ls # Ls) ! i)))) [0..<length (ls # Ls)]
      = (k, row_num (hd ls)) # map (\<lambda>i. (Suc k + i, row_num (hd (Ls ! i)))) [0..<length Ls]"
    by (simp add: map_upt_Suc del: upt_Suc)
  then show ?case using Cons by (simp add: opened_def row_number)
qed simp

lemma holds_rows_in: "list_all2 (holds_rows fs) names Ls \<Longrightarrow> ls \<in> set Ls \<Longrightarrow> ls \<noteq> [] \<and> (\<forall>l\<in>set ls. row_ok l) \<and> sorted (map row_num ls)"
  by (induction rule: list_all2_induct) (auto simp: holds_rows_def)

lemma merge_files:
  assumes c: "choices_ok c" and h: "list_all2 (holds_rows fs) names Ls"
  obtains L where "mset L = mset (concat Ls)" "sorted (map row_num L)" "\<forall>l\<in>set L. row_ok l"
    "and_then (open_sources fs names) (\<lambda>srcs. and_then (first_queue 0 srcs) (\<lambda>q.
        and_then (merge_loop c emit srcs q s) f)) = and_then (emit_all emit L s) f"
proof -
  note rows = holds_rows_in [OF h]
  define q where "q = map (\<lambda>i. (i, row_num (hd (Ls ! i)))) [0..<length Ls]"
  have "\<forall>ls\<in>set Ls. ls \<noteq> [] \<and> row_ok (hd ls)" using rows by auto
  from first_queue_rows [OF this, of 0] have fq: "first_queue 0 (map opened Ls) = Inr q" by (simp add: q_def)
  have "filter (\<lambda>i. Ls ! i \<noteq> []) [0..<length Ls] = [0..<length Ls]" using rows by (auto simp: filter_id_conv)
  then have mq: "mset q = queue_of Ls" by (simp add: q_def queue_of_def entries_def)
  have src: "list_all2 source_of Ls (map opened Ls)"
    by (simp add: list_all2_map2 source_of_def opened_def list_all2_same)
  have ok: "\<forall>ls\<in>set Ls. (\<forall>l\<in>set ls. row_ok l) \<and> sorted (map row_num ls)" using rows by blast
  obtain L where L: "mset L = mset (concat Ls)" "sorted (map row_num L)" "\<forall>s. merge_loop c emit (map opened Ls) q s = emit_all emit L s"
    using merge_rows [OF c ok src mq, of emit] by blast
  moreover have "\<forall>l\<in>set L. row_ok l" using mset_eq_setD [OF L(1)] ok by auto
  ultimately show thesis using that open_sources_rows [OF h] fq by simp
qed

section \<open>One node\<close>

lemma emit_out: "\<forall>l\<in>set L. row_ok l \<Longrightarrow> emit_all (\<lambda>n line out. Inr (out @ cstr line)) L s = Inr (s @ concat L)"
  by (induction L arbitrary: s) (auto simp: row_cstr)

lemma to_string_inj [simp]: "to_string a = to_string b \<longleftrightarrow> a = b"
proof
  assume "to_string a = to_string b"
  then have "strtol (to_string a @ []) = strtol (to_string b @ [])" by (rule arg_cong)
  then have "Some a = Some b" unfolding strtol_to_string [OF disjI1 [OF refl]] .
  then show "a = b" by simp
qed simp

lemma before_underscore: "CHR ''_'' \<notin> set a \<Longrightarrow> CHR ''_'' \<notin> set b \<Longrightarrow> a @ CHR ''_'' # x = b @ CHR ''_'' # y \<longleftrightarrow> a = b \<and> x = y"
  using before_first [of "CHR ''_''" a x] before_first [of "CHR ''_''" b y] by auto

lemma keys_differ [simp]:
  "block_key t n b = block_key t m d \<longleftrightarrow> n = m \<and> b = d" "node_key t n = node_key t m \<longleftrightarrow> n = m"
  "node_key t n \<noteq> block_key t m b" "block_key t m b \<noteq> node_key t n"
proof -
  show "block_key t n b = block_key t m d \<longleftrightarrow> n = m \<and> b = d" by (simp add: block_key_def before_underscore)
  show "node_key t n = node_key t m \<longleftrightarrow> n = m" by (simp add: node_key_def)
  have "CHR ''_'' \<in> set (to_string m @ ''_'' @ to_string b)" by simp
  moreover have "CHR ''_'' \<notin> set (to_string n)" by simp
  ultimately have "to_string n \<noteq> to_string m @ ''_'' @ to_string b" by metis
  then show "node_key t n \<noteq> block_key t m b" "block_key t m b \<noteq> node_key t n"
    by (auto simp: node_key_def block_key_def)
qed

text \<open>What the store holds for a node of a task: the blocks, numbered from 1.\<close>

definition stored_blocks :: "(bytes \<Rightarrow> bytes) \<Rightarrow> int \<Rightarrow> int \<Rightarrow> bytes list list \<Rightarrow> bool" where
  "stored_blocks select t n Bs \<longleftrightarrow>
     (\<forall>i<length Bs. select (''get '' @ block_key t n (int i + 1)) = concat (Bs ! i))
     \<and> select (''get '' @ block_key t n (int (length Bs) + 1)) = []
     \<and> (\<forall>ls\<in>set Bs. ls \<noteq> [] \<and> length ls \<le> MAX_BLOCK_SIZE \<and> (\<forall>l\<in>set ls. row_ok l))"

lemma rows_not_error: "\<forall>l\<in>set ls. row_ok l \<Longrightarrow> ls \<noteq> [] \<Longrightarrow> concat ls \<noteq> [] \<and> concat ls \<noteq> ''error''"
proof -
  assume r: "\<forall>l\<in>set ls. row_ok l" "ls \<noteq> []"
  then obtain b where "hd ls = b @ [LF]" by (cases ls) (auto simp: row_ok_def)
  then have "LF \<in> set (concat ls)" using r(2) by (cases ls) auto
  moreover have "LF \<notin> set ''error''" by simp
  ultimately show ?thesis by (metis empty_iff empty_set)
qed

lemma Max_maxes:
  fixes m :: "'a::linorder"
  assumes "finite A" "finite B" "A \<noteq> {}"
  shows "Max (insert (max (Max A) m) B) = Max (insert m (A \<union> B))"
  using assms by (cases "B = {}") (simp_all add: Max_Un ac_simps)

lemma blocks_loop_rows:
  assumes c: "choices_ok c" and s: "stored_blocks select t n Bs"
  shows "i \<le> length Bs \<Longrightarrow> length Bs - i \<le> fuel \<Longrightarrow> 0 \<le> m \<Longrightarrow>
    \<exists>Ls fs'. blocks_loop c select t n fuel (int i + 1) m fs
        = Some (Inr ((int (length Bs), Max (insert m (row_num ` set (concat (drop i Bs))))), fs'))
      \<and> list_all2 (\<lambda>j ls. holds_rows fs' (block_key t n (int j + 1)) ls \<and> mset ls = mset (Bs ! j)) [i..<length Bs] Ls
      \<and> (\<forall>f. f \<notin> (\<lambda>j. block_key t n (int j + 1)) ` {i..<length Bs} \<longrightarrow> fs' f = fs f)"
proof (induction "length Bs - i" arbitrary: i m fs fuel)
  case 0
  then have "i = length Bs" by simp
  then show ?case using s by (subst blocks_loop.simps) (simp add: stored_blocks_def)
next
  case (Suc k)
  then have i: "i < length Bs" by simp
  have B: "select (''get '' @ block_key t n (int i + 1)) = concat (Bs ! i)" "\<forall>l\<in>set (Bs ! i). row_ok l" "Bs ! i \<noteq> []"
      "length (Bs ! i) \<le> MAX_BLOCK_SIZE" using s i by (auto simp: stored_blocks_def)
  obtain L where L: "sort_block c (concat (Bs ! i)) = Inr (concat L, Max (row_num ` set (Bs ! i)))" "mset L = mset (Bs ! i)"
      "sorted (map row_num L)" by (rule sort_block_rows [OF c B(2-4)])
  obtain g where g: "fuel = Suc g" using Suc(2,4) by (cases fuel) auto
  let ?m = "max (Max (row_num ` set (Bs ! i))) m" and ?fs = "fs(block_key t n (int i + 1) \<mapsto> concat L)"
  have step: "blocks_loop c select t n fuel (int i + 1) m fs = blocks_loop c select t n g (int (Suc i) + 1) ?m ?fs"
    using B(1) rows_not_error [OF B(2,3)] L(1) g
    by (subst blocks_loop.simps) (simp add: Let_def ac_simps del: concat_eq_Nil_conv)
  have "k = length Bs - Suc i" "Suc i \<le> length Bs" "length Bs - Suc i \<le> g" "0 \<le> ?m" using Suc(2,4,5) g i by auto
  from Suc(1) [OF this, of ?fs] obtain Ls fs' where IH: "blocks_loop c select t n g (int (Suc i) + 1) ?m ?fs
        = Some (Inr ((int (length Bs), Max (insert ?m (row_num ` set (concat (drop (Suc i) Bs))))), fs'))"
      "list_all2 (\<lambda>j ls. holds_rows fs' (block_key t n (int j + 1)) ls \<and> mset ls = mset (Bs ! j)) [Suc i..<length Bs] Ls"
      "\<forall>f. f \<notin> (\<lambda>j. block_key t n (int j + 1)) ` {Suc i..<length Bs} \<longrightarrow> fs' f = ?fs f" by blast
  have "row_num ` set (Bs ! i) \<noteq> {}" using B(3) by simp
  then have "Max (insert ?m (row_num ` set (concat (drop (Suc i) Bs)))) = Max (insert m (row_num ` set (concat (drop i Bs))))"
    using i by (simp add: Cons_nth_drop_Suc [symmetric] image_Un Max_maxes)
  moreover have "block_key t n (int i + 1) \<notin> (\<lambda>j. block_key t n (int j + 1)) ` {Suc i..<length Bs}" by auto
  then have "fs' (block_key t n (int i + 1)) = Some (concat L)" using IH(3) by simp
  then have "holds_rows fs' (block_key t n (int i + 1)) L"
    using L(2,3) B(2,3) mset_eq_setD [OF L(2)] by (auto simp: holds_rows_def)
  then have "list_all2 (\<lambda>j ls. holds_rows fs' (block_key t n (int j + 1)) ls \<and> mset ls = mset (Bs ! j)) [i..<length Bs] (L # Ls)"
    using IH(2) L(2) i by (simp add: upt_conv_Cons)
  moreover have "\<forall>f. f \<notin> (\<lambda>j. block_key t n (int j + 1)) ` {i..<length Bs} \<longrightarrow> fs' f = fs f"
    using IH(3) i by fastforce
  ultimately show ?case using step IH(1) by (metis (no_types, lifting))
qed

lemma mset_concat_rows: "list_all2 (\<lambda>j ls. P j ls \<and> mset ls = mset (Bs ! j)) [0..<length Bs] Ls \<Longrightarrow> mset (concat Ls) = mset (concat Bs)"
proof -
  assume h: "list_all2 (\<lambda>j ls. P j ls \<and> mset ls = mset (Bs ! j)) [0..<length Bs] Ls"
  then have "map mset Ls = map (\<lambda>j. mset (Bs ! j)) [0..<length Bs]"
    by (induction rule: list_all2_induct) auto
  also have "\<dots> = map mset Bs" by (rule nth_equalityI) simp_all
  finally have "map mset Ls = map mset Bs" .
  then show ?thesis by (simp add: mset_concat)
qed

lemma create_block_rows:
  assumes c: "choices_ok c" and s: "stored_blocks select t n Bs" "Bs \<noteq> []" "length Bs \<le> fuel"
  obtains L fs' where "create_block c select t n fuel fs = Some (Inr (Max (row_num ` set (concat Bs)), fs'))"
    "holds_rows fs' (node_key t n) L" "mset L = mset (concat Bs)" "\<forall>m. m \<noteq> n \<longrightarrow> fs' (node_key t m) = fs (node_key t m)"
proof -
  obtain Ls fs1 where b: "blocks_loop c select t n fuel 1 0 fs
        = Some (Inr ((int (length Bs), Max (insert 0 (row_num ` set (concat Bs)))), fs1))"
      "list_all2 (\<lambda>j ls. holds_rows fs1 (block_key t n (int j + 1)) ls \<and> mset ls = mset (Bs ! j)) [0..<length Bs] Ls"
      "\<forall>f. f \<notin> (\<lambda>j. block_key t n (int j + 1)) ` {0..<length Bs} \<longrightarrow> fs1 f = fs f"
    using blocks_loop_rows [OF c s(1), of 0 fuel 0 fs] s(3) by auto
  have rows: "\<forall>l\<in>set (concat Bs). row_ok l" and ne: "concat Bs \<noteq> []"
    using s(1,2) by (auto simp: stored_blocks_def)
  have mx: "Max (insert 0 (row_num ` set (concat Bs))) = Max (row_num ` set (concat Bs))" "0 \<le> Max (row_num ` set (concat Bs))"
  proof -
    have "\<forall>x\<in>row_num ` set (concat Bs). 0 \<le> x" using rows row_number by blast
    moreover have fin: "finite (row_num ` set (concat Bs))" "row_num ` set (concat Bs) \<noteq> {}" using ne by simp_all
    ultimately show "0 \<le> Max (row_num ` set (concat Bs))" by (metis Max_in)
    then show "Max (insert 0 (row_num ` set (concat Bs))) = Max (row_num ` set (concat Bs))"
      using fin by (simp add: max_def)
  qed
  have names: "map (\<lambda>b. block_key t n (int b)) [1..<Suc (length Bs)] = map (\<lambda>j. block_key t n (int j + 1)) [0..<length Bs]"
    by (rule nth_equalityI) (simp_all del: upt_Suc)
  have "list_all2 (holds_rows fs1) (map (\<lambda>j. block_key t n (int j + 1)) [0..<length Bs]) Ls"
    unfolding list_all2_map1 using b(2) by (rule list_all2_mono) simp
  then obtain L where L: "mset L = mset (concat Ls)" "sorted (map row_num L)" "\<forall>l\<in>set L. row_ok l"
    "and_then (open_sources fs1 (map (\<lambda>j. block_key t n (int j + 1)) [0..<length Bs])) (\<lambda>srcs. and_then (first_queue 0 srcs) (\<lambda>q.
        and_then (merge_loop c (\<lambda>n line out. Inr (out @ cstr line)) srcs q []) (\<lambda>out. Inr (fs1(node_key t n \<mapsto> out)))))
     = and_then (emit_all (\<lambda>n line out. Inr (out @ cstr line)) L []) (\<lambda>out. Inr (fs1(node_key t n \<mapsto> out)))"
    by (rule merge_files [OF c])
  have nodes: "sort_nodes c t n (int (length Bs)) fs1 = Inr (fs1(node_key t n \<mapsto> concat L))"
    using L(4) emit_out [OF L(3), of "[]"] unfolding sort_nodes_def by (simp add: names [unfolded One_nat_def] del: upt_Suc)
  have mL: "mset L = mset (concat Bs)" using L(1) mset_concat_rows [OF b(2)] by simp
  have "L \<noteq> []" using mL ne by auto
  show thesis
  proof (rule that)
    show "create_block c select t n fuel fs = Some (Inr (Max (row_num ` set (concat Bs)), fs1(node_key t n \<mapsto> concat L)))"
      using b(1) nodes mx by (simp add: create_block_def sort_blocks_def)
    show "holds_rows (fs1(node_key t n \<mapsto> concat L)) (node_key t n) L" using L(2,3) \<open>L \<noteq> []\<close> by (simp add: holds_rows_def)
    show "mset L = mset (concat Bs)" by (rule mL)
    have "node_key t m \<notin> (\<lambda>j. block_key t n (int j + 1)) ` {0..<length Bs}" for m by auto
    then show "\<forall>m. m \<noteq> n \<longrightarrow> (fs1(node_key t n \<mapsto> concat L)) (node_key t m) = fs (node_key t m)" using b(3) by simp
  qed
qed

section \<open>The result\<close>

text \<open>The first row of every number.\<close>

fun first_rows :: "int set \<Rightarrow> bytes list \<Rightarrow> bytes list" where
  "first_rows seen [] = []"
| "first_rows seen (l # ls) = (if row_num l \<in> seen then first_rows seen ls else l # first_rows (insert (row_num l) seen) ls)"

lemma first_rows_nums: "row_num ` set (first_rows seen ls) = row_num ` set ls - seen"
  by (induction ls arbitrary: seen) auto

lemma first_rows_distinct: "distinct (map row_num (first_rows seen ls))"
proof (induction ls arbitrary: seen)
  case (Cons l ls)
  have "row_num l \<notin> row_num ` set (first_rows (insert (row_num l) seen) ls)" by (simp add: first_rows_nums)
  then show ?case using Cons by simp
qed simp

lemma first_rows_set: "set (first_rows seen ls) \<subseteq> set ls"
  by (induction ls arbitrary: seen) auto

lemma first_rows_sorted: "sorted (map row_num ls) \<Longrightarrow> sorted (map row_num (first_rows seen ls))"
proof (induction ls arbitrary: seen)
  case (Cons l ls)
  then show ?case using first_rows_set [of _ ls] by fastforce
qed simp

lemma emit_first:
  "\<forall>l\<in>set L. row_ok l \<and> row_num l < int (length flags) \<Longrightarrow> \<forall>k<length flags. flags ! k \<longleftrightarrow> int k \<in> seen \<Longrightarrow>
   \<exists>flags'. emit_all (emit_once t) L (flags, out) = Inr (flags', out @ concat (map (\<lambda>l. to_string t @ l) (first_rows seen L)))"
proof (induction L arbitrary: flags out seen)
  case (Cons l L)
  have l: "0 \<le> row_num l" "row_num l < int (length flags)" "cstr l = l" using Cons(2) row_number row_cstr by auto
  then obtain k where k: "row_num l = int k" "k < length flags" by (metis nonneg_int_cases of_nat_less_iff)
  show ?case
  proof (cases "row_num l \<in> seen")
    case True
    then have "emit_once t (row_num l) l (flags, out) = Inr (flags, out)" using k Cons(3) by (simp add: emit_once_def)
    moreover have "\<forall>l\<in>set L. row_ok l \<and> row_num l < int (length flags)" using Cons(2) by simp
    ultimately show ?thesis using Cons(1) [of flags seen out] Cons(3) True by simp
  next
    case False
    let ?flags = "flags[k := True]"
    have e: "emit_once t (row_num l) l (flags, out) = Inr (?flags, out @ to_string t @ l)"
      using k Cons(3) False l(3) by (simp add: emit_once_def)
    have "\<forall>l\<in>set L. row_ok l \<and> row_num l < int (length ?flags)" using Cons(2) by simp
    moreover have "\<forall>j<length ?flags. ?flags ! j \<longleftrightarrow> int j \<in> insert (row_num l) seen"
      using Cons(3) k by (simp add: nth_list_update)
    ultimately show ?thesis using Cons(1) [of ?flags "insert (row_num l) seen" "out @ to_string t @ l"] e False by simp
  qed
qed simp

lemma emit_overrun:
  "\<forall>l\<in>set L. row_ok l \<Longrightarrow> l \<in> set L \<Longrightarrow> int (length flags) \<le> row_num l \<Longrightarrow> emit_all (emit_once t) L (flags, out) = Inl Undef"
proof (induction L arbitrary: flags out)
  case (Cons x L)
  show ?case
  proof (cases "int (length flags) \<le> row_num x")
    case True
    then show ?thesis by (simp add: emit_once_def)
  next
    case False
    then have "0 \<le> row_num x" "l \<in> set L" using Cons(2-4) row_number by auto
    moreover obtain flags' out' where "emit_once t (row_num x) x (flags, out) = Inr (flags', out')" "length flags' = length flags"
      using False \<open>0 \<le> row_num x\<close> by (cases "flags ! nat (row_num x)") (simp_all add: emit_once_def)
    ultimately show ?thesis using Cons(1) [of flags' out'] Cons(2,4) by simp
  qed
qed simp

lemma sort_file_rows:
  assumes c: "choices_ok c" and h: "list_all2 (holds_rows fs) (map (\<lambda>n. node_key t (int n)) [0..<5]) Ls"
    and f: "\<forall>l\<in>set (concat Ls). row_num l < int (length flags)" "True \<notin> set flags"
  obtains R where "sort_file c t flags fs = Inr (concat (map (\<lambda>l. to_string t @ l) R))" "sorted (map row_num R)"
    "distinct (map row_num R)" "set R \<subseteq> set (concat Ls)" "row_num ` set R = row_num ` set (concat Ls)"
proof -
  obtain L where L: "mset L = mset (concat Ls)" "sorted (map row_num L)" "\<forall>l\<in>set L. row_ok l"
    "and_then (open_sources fs (map (\<lambda>n. node_key t (int n)) [0..<5])) (\<lambda>srcs. and_then (first_queue 0 srcs) (\<lambda>q.
        and_then (merge_loop c (emit_once t) srcs q (flags, [])) (\<lambda>(flags, out). Inr out)))
     = and_then (emit_all (emit_once t) L (flags, [])) (\<lambda>(flags, out). Inr out)"
    by (rule merge_files [OF c h])
  have S: "set L = set (concat Ls)" using mset_eq_setD [OF L(1)] .
  then have "\<forall>l\<in>set L. row_ok l \<and> row_num l < int (length flags)" using L(3) f(1) by simp
  moreover have "\<forall>k<length flags. flags ! k \<longleftrightarrow> int k \<in> {}" using f(2) by (metis empty_iff nth_mem)
  ultimately obtain flags' where e: "emit_all (emit_once t) L (flags, []) = Inr (flags', [] @ concat (map (\<lambda>l. to_string t @ l) (first_rows {} L)))"
    using emit_first by blast
  show thesis
  proof (rule that)
    show "sort_file c t flags fs = Inr (concat (map (\<lambda>l. to_string t @ l) (first_rows {} L)))"
      unfolding sort_file_def NODE_NUM_def L(4) e by simp
    show "set (first_rows {} L) \<subseteq> set (concat Ls)" using first_rows_set S by metis
    show "row_num ` set (first_rows {} L) = row_num ` set (concat Ls)" by (simp only: first_rows_nums S Diff_empty)
  qed (simp_all add: first_rows_sorted L(2) first_rows_distinct)
qed

lemma sort_file_overrun:
  assumes c: "choices_ok c" and h: "list_all2 (holds_rows fs) (map (\<lambda>n. node_key t (int n)) [0..<5]) Ls"
    and f: "l \<in> set (concat Ls)" "int (length flags) \<le> row_num l"
  shows "sort_file c t flags fs = Inl Undef"
proof -
  obtain L where L: "mset L = mset (concat Ls)" "sorted (map row_num L)" "\<forall>l\<in>set L. row_ok l"
    "and_then (open_sources fs (map (\<lambda>n. node_key t (int n)) [0..<5])) (\<lambda>srcs. and_then (first_queue 0 srcs) (\<lambda>q.
        and_then (merge_loop c (emit_once t) srcs q (flags, [])) (\<lambda>(flags, out). Inr out)))
     = and_then (emit_all (emit_once t) L (flags, [])) (\<lambda>(flags, out). Inr out)"
    by (rule merge_files [OF c h])
  have "l \<in> set L" using mset_eq_setD [OF L(1)] f(1) by simp
  then show ?thesis
    unfolding sort_file_def NODE_NUM_def L(4) emit_overrun [OF L(3) \<open>l \<in> set L\<close> f(2)] by simp
qed

lemma all_nodes_rows:
  assumes c: "choices_ok c"
  shows "distinct ns \<Longrightarrow> \<forall>n\<in>set ns. stored_blocks select t (int n) (B n) \<and> B n \<noteq> [] \<and> length (B n) \<le> fuel \<Longrightarrow>
    \<exists>Ls fs'. all_nodes c select t ns fuel fs
        = Some (Inr (Some (map (\<lambda>n. Max (row_num ` set (concat (B n)))) ns), fs'))
      \<and> list_all2 (\<lambda>n L. holds_rows fs' (node_key t (int n)) L \<and> mset L = mset (concat (B n))) ns Ls
      \<and> (\<forall>m. m \<notin> set ns \<longrightarrow> fs' (node_key t (int m)) = fs (node_key t (int m)))"
proof (induction ns arbitrary: fs)
  case (Cons n ns)
  have n: "stored_blocks select t (int n) (B n)" "B n \<noteq> []" "length (B n) \<le> fuel" using Cons(3) by auto
  obtain L fs1 where L: "create_block c select t (int n) fuel fs = Some (Inr (Max (row_num ` set (concat (B n))), fs1))"
    "holds_rows fs1 (node_key t (int n)) L" "mset L = mset (concat (B n))"
    "\<forall>m. m \<noteq> int n \<longrightarrow> fs1 (node_key t m) = fs (node_key t m)"
    by (rule create_block_rows [OF c n])
  obtain Ls fs' where R: "all_nodes c select t ns fuel fs1 = Some (Inr (Some (map (\<lambda>n. Max (row_num ` set (concat (B n)))) ns), fs'))"
    "list_all2 (\<lambda>n L. holds_rows fs' (node_key t (int n)) L \<and> mset L = mset (concat (B n))) ns Ls"
    "\<forall>m. m \<notin> set ns \<longrightarrow> fs' (node_key t (int m)) = fs1 (node_key t (int m))"
    using Cons(1) [of fs1] Cons(2,3) by auto
  have "0 \<le> Max (row_num ` set (concat (B n)))"
  proof -
    have "set L = set (concat (B n))" by (rule mset_eq_setD [OF L(3)])
    moreover have "L \<noteq> []" "\<forall>l\<in>set L. 0 \<le> row_num l" using L(2) row_number by (auto simp: holds_rows_def)
    ultimately have "row_num ` set (concat (B n)) \<noteq> {}" "\<forall>x\<in>row_num ` set (concat (B n)). 0 \<le> x" by (metis image_is_empty set_empty, metis imageE)
    then show ?thesis using Max_in [of "row_num ` set (concat (B n))"] by blast
  qed
  moreover have "holds_rows fs' (node_key t (int n)) L" using R(3) L(2) Cons(2) by (simp add: holds_rows_def)
  ultimately show ?case
    using L(1,3) R L(4) Cons(2) by (intro exI [of _ "L # Ls"] exI [of _ fs']) (auto simp: Let_def)
qed simp

text \<open>Nodes to merge: five, each with a file of rows.\<close>

lemma nodes_rows: "list_all2 (\<lambda>n L. holds_rows fs (node_key t (int n)) L \<and> mset L = mset (concat (B n))) ns Ls
  \<Longrightarrow> list_all2 (holds_rows fs) (map (\<lambda>n. node_key t (int n)) ns) Ls \<and> set (concat Ls) = (\<Union>n\<in>set ns. set (concat (B n)))"
proof (induction rule: list_all2_induct)
  case (Cons n ns L Ls)
  then have "set L = set (concat (B n))" using mset_eq_setD by blast
  then show ?case using Cons by simp
qed simp

lemma last_sort: "xs \<noteq> [] \<Longrightarrow> last (sort xs) = Max (set xs)"
proof -
  assume ne: "xs \<noteq> []"
  then have "sort xs \<noteq> []" by (metis set_empty set_sort)
  then have s: "sort xs = butlast (sort xs) @ [last (sort xs)]" by simp
  have "sorted (butlast (sort xs) @ [last (sort xs)])" unfolding s [symmetric] by simp
  then have "\<forall>x\<in>set (sort xs). x \<le> last (sort xs)" by (subst s) (auto simp: sorted_append)
  moreover have "last (sort xs) \<in> set xs" using \<open>sort xs \<noteq> []\<close> by (metis last_in_set set_sort)
  ultimately show ?thesis by (intro Max_eqI [symmetric]) simp_all
qed

section \<open>Properties\<close>

text \<open>Data for the examples: five nodes that hold the same block of three rows.\<close>

definition sample_choices :: choices where
  "sample_choices = \<lparr>std_sort = sort_key fst, pq_top = arg_min_list snd\<rparr>"

definition sample_rows :: "bytes list" where
  "sample_rows = ['',3,abc'' @ [LF], '',1,de'' @ [LF], '',2,f'' @ [LF]]"

definition sample_store :: "bytes \<Rightarrow> bytes" where
  "sample_store cmd = (if cmd \<in> set (map (\<lambda>n. ''get '' @ block_key 7 (int n) 1) [0..<5]) then concat sample_rows else [])"

lemma sample_choices_ok: "choices_ok sample_choices"
proof -
  have "\<forall>e\<in>set q. snd (arg_min_list snd q) \<le> snd e" if "q \<noteq> []" for q :: "(nat \<times> int) list"
    using that by (simp add: f_arg_min_list_f)
  then show ?thesis by (simp add: choices_ok_def sample_choices_def arg_min_list_in)
qed

lemma row_ok_code: "row_ok l \<longleftrightarrow> l \<noteq> [] \<and> last l = LF \<and> LF \<notin> set (butlast l) \<and> NUL \<notin> set (butlast l) \<and> length l < 40
    \<and> (case line_number l of Inl _ \<Rightarrow> False | Inr n \<Rightarrow> 0 \<le> n)"
  unfolding row_ok_def by (auto split: sum.splits) (metis append_butlast_last_id)

lemma sample_rows_ok: "\<forall>l\<in>set sample_rows. row_ok l" "map row_num sample_rows = [3, 1, 2]" "sample_rows \<noteq> []"
  unfolding row_ok_code by code_simp+

lemma sample_stored: "n < 5 \<Longrightarrow> stored_blocks sample_store 7 (int n) [sample_rows]"
proof -
  assume n: "n < 5"
  have "''get '' @ block_key 7 (int n) 2 \<notin> set (map (\<lambda>n. ''get '' @ block_key 7 (int n) 1) [0..<5])" by auto
  then have "sample_store (''get '' @ block_key 7 (int n) 2) = []" by (simp only: sample_store_def if_False)
  moreover have "''get '' @ block_key 7 (int n) 1 \<in> set (map (\<lambda>n. ''get '' @ block_key 7 (int n) 1) [0..<5])" using n by auto
  then have "sample_store (''get '' @ block_key 7 (int n) 1) = concat sample_rows" by (simp only: sample_store_def if_True)
  moreover have "length sample_rows \<le> MAX_BLOCK_SIZE" by (simp add: sample_rows_def MAX_BLOCK_SIZE_def)
  ultimately show ?thesis using sample_rows_ok by (simp add: stored_blocks_def)
qed

text \<open>C21: The blocks of a node, each within the size of the buffers, are merged into one file: it
  holds exactly their rows, sorted by line number, and the number returned is the greatest.\<close>

theorem node_file_sorted:
  assumes "choices_ok c" "stored_blocks select t n Bs" "Bs \<noteq> []" "length Bs \<le> fuel"
  shows "\<exists>L fs'. create_block c select t n fuel fs = Some (Inr (Max (row_num ` set (concat Bs)), fs'))
    \<and> fs' (node_key t n) = Some (concat L) \<and> mset L = mset (concat Bs) \<and> sorted (map row_num L)"
  using create_block_rows [OF assms, of fs] by (metis holds_rows_def)

theorem node_file_sorted_witness:
  "\<exists>L fs'. create_block sample_choices sample_store 7 0 1 Map.empty = Some (Inr (Max (row_num ` set (concat [sample_rows])), fs'))
    \<and> fs' (node_key 7 0) = Some (concat L) \<and> mset L = mset (concat [sample_rows]) \<and> sorted (map row_num L)"
  by (rule node_file_sorted [OF sample_choices_ok]) (use sample_stored [of 0] in simp_all)

text \<open>C22: Five sorted node files are merged into a result without repetitions, provided that the array of
  flags starts out false and is longer than every line number: every number of the input is there
  once, in ascending order, on a row of the input with the task number put in front.\<close>

theorem result_without_repeats:
  assumes "choices_ok c" "length Ls = 5" "\<forall>n<5. holds_rows fs (node_key t (int n)) (Ls ! n)"
    and "\<forall>l\<in>set (concat Ls). row_num l < int (length flags)" "True \<notin> set flags"
  shows "\<exists>R. sort_file c t flags fs = Inr (concat (map (\<lambda>l. to_string t @ l) R)) \<and> sorted (map row_num R)
    \<and> distinct (map row_num R) \<and> set R \<subseteq> set (concat Ls) \<and> row_num ` set R = row_num ` set (concat Ls)"
proof -
  have "list_all2 (holds_rows fs) (map (\<lambda>n. node_key t (int n)) [0..<5]) Ls"
    using assms(2,3) by (auto simp: list_all2_conv_all_nth)
  then show ?thesis using sort_file_rows [OF assms(1) _ assms(4,5)] by metis
qed

theorem result_without_repeats_witness:
  "\<exists>R. sort_file sample_choices 7 [False, False, False, False] (\<lambda>_. Some (concat ['',1,de'' @ [LF]]))
       = Inr (concat (map (\<lambda>l. to_string 7 @ l) R)) \<and> sorted (map row_num R)
    \<and> distinct (map row_num R) \<and> set R \<subseteq> set (concat (replicate 5 ['',1,de'' @ [LF]]))
    \<and> row_num ` set R = row_num ` set (concat (replicate 5 ['',1,de'' @ [LF]]))"
proof (rule result_without_repeats [OF sample_choices_ok])
  have r: "row_ok ('',1,de'' @ [LF])" "row_num ('',1,de'' @ [LF]) = 1" unfolding row_ok_code by code_simp+
  show "\<forall>n<5. holds_rows (\<lambda>_. Some (concat ['',1,de'' @ [LF]])) (node_key 7 (int n)) (replicate 5 ['',1,de'' @ [LF]] ! n)"
    using r by (simp add: holds_rows_def)
  show "\<forall>l\<in>set (concat (replicate 5 ['',1,de'' @ [LF]])). row_num l < int (length [False, False, False, False])"
    using r by (simp add: numeral_eq_Suc)
qed simp_all

text \<open>C23: The recovery always leaves the array of flags: \<open>sort_file\<close> is given the greatest line number as
  its length, and uses the greatest line number as an index.\<close>

theorem recovery_overruns:
  assumes "choices_ok c" "\<forall>n<5. stored_blocks select t (int n) (B n) \<and> B n \<noteq> [] \<and> length (B n) \<le> fuel"
    and "\<forall>m. length (fresh m) = m"
  shows "csv_recover c select fresh t fuel fs = Some (Inl Undef)"
proof -
  let ?mx = "\<lambda>n. Max (row_num ` set (concat (B n)))"
  have "\<forall>n\<in>set [0..<5]. stored_blocks select t (int n) (B n) \<and> B n \<noteq> [] \<and> length (B n) \<le> fuel" using assms(2) by simp
  from all_nodes_rows [OF assms(1) distinct_upt this]
  obtain Ls fs' where a: "all_nodes c select t [0..<5] fuel fs = Some (Inr (Some (map ?mx [0..<5]), fs'))"
    and l2: "list_all2 (\<lambda>n L. holds_rows fs' (node_key t (int n)) L \<and> mset L = mset (concat (B n))) [0..<5] Ls" by blast
  have h: "list_all2 (holds_rows fs') (map (\<lambda>n. node_key t (int n)) [0..<5]) Ls"
    and u: "set (concat Ls) = (\<Union>n\<in>set [0..<5]. set (concat (B n)))" using nodes_rows [OF l2] by simp_all
  define m where "m = last (sort (map ?mx [0..<5]))"
  have "m = Max (set (map ?mx [0..<5]))" unfolding m_def by (rule last_sort) simp
  then have "m \<in> set (map ?mx [0..<5])" by (metis Max_in finite_set list.map_disc_iff set_empty upt_eq_Nil_conv zero_neq_numeral bot_nat_0.extremum_uniqueI numeral_eq_iff)
  then obtain n where n: "n < 5" "m = ?mx n" by auto
  have "concat (B n) \<noteq> []" using assms(2) n(1) by (auto simp: stored_blocks_def)
  then have "m \<in> row_num ` set (concat (B n))" unfolding n(2) by (intro Max_in) simp_all
  then obtain l where l0: "m = row_num l" "l \<in> set (concat (B n))" by (rule imageE)
  then have l: "l \<in> set (concat Ls)" "m = row_num l" unfolding u using n(1) by (simp_all only: UN_iff) (metis atLeastLessThan_iff le0 set_upt)
  have "0 \<le> m" using l holds_rows_in [OF h] row_number by auto
  moreover have "sort_file c t (fresh (nat m)) fs' = Inl Undef"
    using sort_file_overrun [OF assms(1) h l(1)] l(2) assms(3) \<open>0 \<le> m\<close> by simp
  ultimately show ?thesis unfolding csv_recover_def a option.case sum.case and_then_simps prod.case Let_def m_def [symmetric] by simp
qed

theorem recovery_overruns_witness:
  "csv_recover sample_choices sample_store (\<lambda>m. replicate m False) 7 1 Map.empty = Some (Inl Undef)"
  by (rule recovery_overruns [OF sample_choices_ok, of _ _ "\<lambda>_. [sample_rows]"]) (use sample_stored in auto)

end
