(* ===== verification/CsvSpec.thy ===== *)
theory CsvSpec
  imports CsvReader RecoverySpec WorkLoop
begin

text \<open>
  Loading and recovering fit together: the commands \<open>insert_to_redis\<close> sends make the store hold
  exactly the blocks from which \<open>create_block\<close> builds the sorted file of the node.
\<close>

section \<open>Lines of a CSV file\<close>

text \<open>A line: the number of a task (at most two digits), and the row.\<close>

definition csv_line :: "int \<times> bytes \<Rightarrow> bytes" where
  "csv_line e = to_string (fst e) @ snd e"

definition csv_ok :: "int \<times> bytes \<Rightarrow> bool" where
  "csv_ok e \<longleftrightarrow> 0 \<le> fst e \<and> fst e < 100 \<and> row_ok (snd e) \<and> hd (snd e) = CHR '',''"

definition rows_of :: "int \<Rightarrow> (int \<times> bytes) list \<Rightarrow> bytes list" where
  "rows_of t es = map snd (filter (\<lambda>e. fst e = t) es)"

lemma task_digits: "0 \<le> t \<Longrightarrow> t < 100 \<Longrightarrow> length (to_string t) \<le> 2 \<and> (\<forall>c\<in>set (to_string t). isdigit c)"
  using length_dec_le [of "nat t" 2] by (auto simp: to_string_def dec_int_def dec_digits)

lemma csv_line_read:
  assumes "csv_ok e"
  shows "fgets 200 (csv_line e @ rest) = Some (csv_line e, rest)" "row_task (csv_line e) = Inr (fst e)" "cstr (csv_line e) = csv_line e"
proof -
  obtain t l where e: "e = (t, l)" by (cases e)
  then have t: "0 \<le> t" "t < 100" and l: "row_ok l" "hd l = CHR '',''" using assms by (simp_all add: csv_ok_def)
  then obtain b where b: "l = b @ [LF]" "LF \<notin> set b" "NUL \<notin> set b" "length l < 40" by (auto simp: row_ok_def)
  obtain v where v: "l = CHR '','' # v" using l row_nonempty [OF l(1)] by (cases l) auto
  note d = task_digits [OF t]
  have nc: "CHR '','' \<notin> set (to_string t)" using d isdigit_def by fastforce
  have "LF \<notin> set (to_string t @ b)" using d b(2) isdigit_not_special by auto
  then have "takeWhile (\<lambda>c. c \<noteq> LF) ((to_string t @ b) @ LF # rest) = to_string t @ b" by (rule before_first)
  then show "fgets 200 (csv_line e @ rest) = Some (csv_line e, rest)"
    using d b(1,4) by (simp add: e csv_line_def fgets_def)
  show c: "cstr (csv_line e) = csv_line e" using b(3) by (simp add: e csv_line_def b(1) cstr_def takeWhile_eq_all_conv) auto
  have "takeWhile (\<lambda>x. x \<noteq> CHR '','') (csv_line e) = to_string t"
    using before_first [OF nc, of v] by (simp add: e csv_line_def v)
  moreover have "atoi (to_string t) = Inr t" using atoi_to_string [of t "[]"] t by (simp add: in_int_def)
  ultimately show "row_task (csv_line e) = Inr (fst e)" using d c by (simp add: row_task_def e) (simp add: csv_line_def v)
qed

section \<open>The blocks that are sent\<close>

fun cut :: "nat \<Rightarrow> int \<Rightarrow> bytes list list \<Rightarrow> bytes list \<Rightarrow> (int \<times> bytes) list \<Rightarrow> bytes list list" where
  "cut per t Bs cur [] = Bs @ [cur]"
| "cut per t Bs cur (e # es) =
     (if fst e = t then (if length cur = per then cut per t (Bs @ [cur]) [snd e] es else cut per t Bs (cur @ [snd e]) es)
      else (if length cur = per then cut per t (Bs @ [cur]) [] es else cut per t Bs cur es))"

definition set_blocks :: "int \<Rightarrow> int \<Rightarrow> bytes list list \<Rightarrow> bytes list" where
  "set_blocks t n Bs = map (\<lambda>i. set_block t n (int i + 1) (concat (Bs ! i))) [0..<length Bs]"

lemma set_blocks_snoc: "set_blocks t n (Bs @ [B]) = set_blocks t n Bs @ [set_block t n (int (length Bs) + 1) (concat B)]"
  by (simp add: set_blocks_def nth_append)

lemma concat_cut: "concat (cut per t Bs cur es) = concat Bs @ cur @ rows_of t es"
  by (induction es arbitrary: Bs cur) (simp_all add: rows_of_def)

lemma cut_sizes:
  "\<forall>B\<in>set Bs. length B = per \<Longrightarrow> length cur \<le> per \<Longrightarrow> 0 < per \<Longrightarrow>
   \<exists>Cs B. cut per t Bs cur es = Cs @ [B] \<and> (\<forall>C\<in>set Cs. length C = per) \<and> length B \<le> per"
  by (induction es arbitrary: Bs cur) auto

lemma insert_loop_rows:
  assumes per: "0 < per"
  shows "\<forall>e\<in>set es. csv_ok e \<Longrightarrow> length cur \<le> per \<Longrightarrow>
   insert_loop t n (int per) (concat (map csv_line es)) (int (length cur)) (concat cur) (int (length Bs) + 1) (set_blocks t n Bs)
     = Inr (set_blocks t n (cut per t Bs cur es))"
proof (induction es arbitrary: Bs cur)
  case Nil
  then show ?case by (subst insert_loop.simps) (simp add: fgets_def set_blocks_snoc)
next
  case (Cons e es)
  then have e: "csv_ok e" and es: "\<forall>e\<in>set es. csv_ok e" by simp_all
  have len: "length (to_string (fst e)) \<le> length (csv_line e)" "drop (length (to_string (fst e))) (csv_line e) = snd e"
    by (simp_all add: csv_line_def)
  note IH = Cons(1) [OF es] and read = csv_line_read [OF e]
  have read': "fgets 200 (concat (map csv_line (e # es))) = Some (csv_line e, concat (map csv_line es))" using read(1) by simp
  have one: "insert_loop t n (int per) (concat (map csv_line es)) 1 (snd e) (int (length Bs) + 1 + 1)
        (set_blocks t n Bs @ [set_block t n (int (length Bs) + 1) (concat cur)])
      = Inr (set_blocks t n (cut per t (Bs @ [cur]) [snd e] es))"
    using IH [of "[snd e]" "Bs @ [cur]"] per by (simp add: ac_simps set_blocks_snoc)
  have none: "insert_loop t n (int per) (concat (map csv_line es)) 0 [] (int (length Bs) + 1 + 1)
        (set_blocks t n Bs @ [set_block t n (int (length Bs) + 1) (concat cur)])
      = Inr (set_blocks t n (cut per t (Bs @ [cur]) [] es))"
    using IH [of "[]" "Bs @ [cur]"] by (simp add: ac_simps set_blocks_snoc)
  have more: "insert_loop t n (int per) (concat (map csv_line es)) (int (length cur) + 1) (concat cur @ snd e) (int (length Bs) + 1) (set_blocks t n Bs)
      = Inr (set_blocks t n (cut per t Bs (cur @ [snd e]) es))" if "length cur \<noteq> per"
    using IH [of "cur @ [snd e]" Bs] Cons(3) that by (simp add: ac_simps)
  note step = insert_loop.simps [of t n "int per" "concat (map csv_line (e # es))" "int (length cur)" "concat cur"
      "int (length Bs) + 1" "set_blocks t n Bs", unfolded read' option.case prod.case read and_then_simps Let_def]
  consider "t = fst e" "length cur = per" | "t = fst e" "length cur \<noteq> per" | "t \<noteq> fst e" "length cur = per" | "t \<noteq> fst e" "length cur \<noteq> per" by blast
  then show ?case
  proof cases
    case 1 then show ?thesis using step len one by simp
  next
    case 2 then show ?thesis using step len more by simp
  next
    case 3 then show ?thesis using step none by simp
  next
    case 4 then show ?thesis using step IH [of cur Bs] Cons(3) by simp
  qed
qed

lemma insert_blocks:
  assumes "0 < per" "\<forall>e\<in>set es. csv_ok e"
  shows "insert_to_redis n (int per) (Some (concat (map csv_line es))) t = Inr (set_blocks t n (cut per t [] [] es))"
  using insert_loop_rows [OF assms(1,2), of "[]" t n "[]"] by (simp add: insert_to_redis_def set_blocks_def)

section \<open>The store\<close>

text \<open>What the store answers after the commands: the last text that was set, and nothing for a key
  that was not set. (A command without a text is refused by the server.)\<close>

definition keeps :: "(bytes \<Rightarrow> bytes) \<Rightarrow> bytes list \<Rightarrow> bool" where
  "keeps select cmds \<longleftrightarrow>
     (\<forall>k v. v \<noteq> [] \<longrightarrow> CHR '' '' \<notin> set k \<longrightarrow> ''set '' @ k @ '' '' @ v \<in> set cmds \<longrightarrow>
        (\<forall>v'. ''set '' @ k @ '' '' @ v' \<in> set cmds \<longrightarrow> v' = v) \<longrightarrow> select (''get '' @ k) = v)
     \<and> (\<forall>k. CHR '' '' \<notin> set k \<longrightarrow> (\<forall>v. v \<noteq> [] \<longrightarrow> ''set '' @ k @ '' '' @ v \<notin> set cmds) \<longrightarrow> select (''get '' @ k) = [])"

lemma block_key_chars: "CHR '' '' \<notin> set (block_key t n b)"
  using to_string_chars by (fastforce simp: block_key_def isdigit_def)

lemma set_block_key: "set_block t n b v = ''set '' @ block_key t n b @ '' '' @ v"
  by (simp add: set_block_def block_key_def)

lemma set_blocks_in:
  "''set '' @ block_key t n b @ '' '' @ v \<in> set (set_blocks t n Bs) \<longleftrightarrow> (\<exists>i<length Bs. b = int i + 1 \<and> v = concat (Bs ! i))"
proof -
  have "block_key t n b @ '' '' @ v = block_key t n b' @ '' '' @ v' \<longleftrightarrow> b = b' \<and> v = v'" for b' v'
    using before_first [OF block_key_chars, of t n b v] before_first [OF block_key_chars, of t n b' v'] by auto
  then have "''set '' @ block_key t n b @ '' '' @ v = set_block t n b' v' \<longleftrightarrow> b = b' \<and> v = v'" for b' v'
    unfolding set_block_key same_append_eq .
  then show ?thesis unfolding set_blocks_def set_map image_iff set_upt by auto
qed

lemma stored_after_set:
  assumes k: "keeps select (set_blocks t n (Cs @ [B]))" and sz: "\<forall>C\<in>set Cs. C \<noteq> []"
    and ok: "\<forall>C\<in>set (Cs @ [B]). length C \<le> MAX_BLOCK_SIZE \<and> (\<forall>l\<in>set C. row_ok l)"
  shows "stored_blocks select t n (if B = [] then Cs else Cs @ [B])"
proof -
  let ?Ds = "if B = [] then Cs else Cs @ [B]" and ?cmds = "set_blocks t n (Cs @ [B])"
  have nth: "?Ds ! i = (Cs @ [B]) ! i" "i < length (Cs @ [B])" if "i < length ?Ds" for i using that by (auto simp: nth_append split: if_splits)
  have ne: "ls \<noteq> []" "length ls \<le> MAX_BLOCK_SIZE" "\<forall>l\<in>set ls. row_ok l" if "ls \<in> set ?Ds" for ls
    using that sz ok by (auto split: if_splits)
  have get: "select (''get '' @ block_key t n (int i + 1)) = concat (?Ds ! i)" if i: "i < length ?Ds" for i
  proof -
    let ?key = "block_key t n (int i + 1)" and ?v = "concat (?Ds ! i)"
    have "?Ds ! i \<in> set ?Ds" using i by (rule nth_mem)
    then have "?v \<noteq> []" using rows_not_error ne by blast
    moreover have "''set '' @ ?key @ '' '' @ ?v \<in> set ?cmds" using nth [OF i] unfolding set_blocks_in by metis
    moreover have "\<forall>v'. ''set '' @ ?key @ '' '' @ v' \<in> set ?cmds \<longrightarrow> v' = ?v" using nth(1) [OF i] unfolding set_blocks_in by auto
    ultimately show ?thesis using k block_key_chars unfolding keeps_def by blast
  qed
  let ?next = "block_key t n (int (length ?Ds) + 1)"
  have "v = []" if "''set '' @ ?next @ '' '' @ v \<in> set ?cmds" for v
    using that unfolding set_blocks_in by (auto simp: nth_append split: if_splits)
  then have "select (''get '' @ ?next) = []" using k block_key_chars unfolding keeps_def by blast
  then show ?thesis using get ne unfolding stored_blocks_def by (metis nth_mem)
qed

lemma length_le_concat: "\<forall>C\<in>set Cs. C \<noteq> [] \<Longrightarrow> length Cs \<le> length (concat Cs)"
proof (induction Cs)
  case (Cons C Cs)
  then show ?case by (cases C) auto
qed simp

lemma rows_recovered:
  assumes c: "choices_ok c" and es: "\<forall>e\<in>set es. csv_ok e" and per: "0 < per" "per \<le> MAX_BLOCK_SIZE" and ne: "rows_of t es \<noteq> []"
    and k: "keeps select (set_blocks t n (cut per t [] [] es))"
  obtains L fs' where "create_block c select t n (length es) fs = Some (Inr (Max (row_num ` set (rows_of t es)), fs'))"
    "fs' (node_key t n) = Some (concat L)" "mset L = mset (rows_of t es)" "sorted (map row_num L)"
proof -
  obtain Cs B where cut: "cut per t [] [] es = Cs @ [B]" "\<forall>C\<in>set Cs. length C = per" "length B \<le> per"
    using cut_sizes [of "[]" per "[]" t es] per by auto
  have rows: "concat (Cs @ [B]) = rows_of t es" using concat_cut [of per t "[]" "[]" es] cut(1) by simp
  have "\<forall>l\<in>set (rows_of t es). row_ok l" using es by (auto simp: rows_of_def csv_ok_def)
  then have ok: "\<forall>C\<in>set (Cs @ [B]). length C \<le> MAX_BLOCK_SIZE \<and> (\<forall>l\<in>set C. row_ok l)"
    using cut(2,3) per(2) unfolding rows [symmetric] by auto
  have full: "\<forall>C\<in>set Cs. C \<noteq> []" using cut(2) per(1) by auto
  define Ds where "Ds = (if B = [] then Cs else Cs @ [B])"
  have st: "stored_blocks select t n Ds" using stored_after_set [OF k [unfolded cut(1)] full ok] by (simp only: Ds_def)
  have D: "concat Ds = rows_of t es" using rows by (auto simp: Ds_def)
  then have "Ds \<noteq> []" using ne by auto
  have "length Ds \<le> length (rows_of t es)" unfolding D [symmetric] by (rule length_le_concat) (use full in \<open>auto simp: Ds_def\<close>)
  also have "\<dots> \<le> length es" by (simp add: rows_of_def)
  finally have "length Ds \<le> length es" .
  from create_block_rows [OF c st \<open>Ds \<noteq> []\<close> this, of fs] show thesis using that unfolding D holds_rows_def by metis
qed

section \<open>The tasks of a file\<close>

lemma line_task_csv: "csv_ok e \<Longrightarrow> line_task (csv_line e) = Inr (fst e)"
proof -
  assume e: "csv_ok e"
  then have t: "0 \<le> fst e" "fst e < 100" by (simp_all add: csv_ok_def)
  obtain v where v: "snd e = CHR '','' # v" using e row_nonempty by (cases "snd e") (auto simp: csv_ok_def)
  have "CHR '','' \<notin> set (to_string (fst e))" using task_digits [OF t] isdigit_def by fastforce
  then have f: "str_find CHR '','' (csv_line e) = int (length (to_string (fst e)))"
    using str_find_append [of "CHR '',''" "to_string (fst e)" v] by (simp add: csv_line_def v)
  have "substr (csv_line e) 0 (int (length (to_string (fst e)))) = Inr (to_string (fst e))"
    by (simp add: substr_def csv_line_def)
  moreover have "atoi (to_string (fst e)) = Inr (fst e)" using atoi_to_string [of "fst e" "[]"] t by (simp add: in_int_def)
  ultimately show ?thesis using csv_line_read(3) [OF e] f by (simp add: line_task_def)
qed

lemma find_tasks_rows:
  "\<forall>e\<in>set es. csv_ok e \<Longrightarrow> length members = 100 \<Longrightarrow>
   \<exists>ms. find_tasks (concat (map csv_line es)) members = Inr ms \<and> length ms = 100
     \<and> (\<forall>i<100. ms ! i \<longleftrightarrow> members ! i \<or> (\<exists>e\<in>set es. fst e = int i))"
proof (induction es arbitrary: members)
  case Nil
  then show ?case by (subst find_tasks.simps) (simp add: fgets_def)
next
  case (Cons e es)
  have e: "csv_ok e" using Cons(2) by simp
  then obtain k where k: "fst e = int k" "k < 100" by (metis csv_ok_def nonneg_int_cases of_nat_less_iff of_nat_numeral)
  have "find_tasks (concat (map csv_line (e # es))) members = find_tasks (concat (map csv_line es)) (members[k := True])"
    using csv_line_read(1) [OF e] line_task_csv [OF e] k Cons(3) by (subst find_tasks.simps) simp
  then show ?case using Cons(1) [of "members[k := True]"] Cons(2,3) k by (auto simp: nth_list_update)
qed

section \<open>Announcing the tasks\<close>

text \<open>A service on which a node that is not there can be created.\<close>

definition creates :: "'z zookeeper \<Rightarrow> 'z view_of \<Rightarrow> bool" where
  "creates api tree \<longleftrightarrow> (\<forall>p d z. tree z p = None \<longrightarrow> fst (zoo_create api p d False z) = ZOK)"

lemma insr2clst_creates:
  assumes "keeper api tree" "creates api tree" "length f < 400"
  obtains z' where "insr2clst api f z = Inr z'"
    "tree z' = (if tree z (node g_path_files f) = None then (tree z)(node g_path_files f \<mapsto> ''r'') else tree z)"
proof -
  let ?p = "node g_path_files f"
  have p: "path_in g_path_files f = Inr ?p" using assms(3) by (intro path_in_node) (simp add: g_path_files_def)
  have "create_law api tree" using assms(1) by (simp add: keeper_def)
  from this [unfolded create_law_def, rule_format, of ?p "''r''" z]
  obtain rc z' where z': "zoo_create api ?p ''r'' False z = (rc, z')"
    "if tree z ?p = None then (rc = ZOK \<and> tree z' = (tree z)(?p \<mapsto> ''r'')) \<or> (rc \<noteq> ZOK \<and> tree z' = tree z) else rc \<noteq> ZOK \<and> tree z' = tree z"
    by auto
  moreover have "rc = ZOK" if "tree z ?p = None" using assms(2) that z'(1) unfolding creates_def by (metis fst_conv)
  ultimately show thesis using that [of z'] p by (simp add: insr2clst_def split: if_splits)
qed

lemma announce_tasks:
  assumes k: "keeper api tree" "creates api tree" and m: "length members = 100"
  shows "\<forall>i\<in>set ns. i < 100 \<Longrightarrow> \<exists>z'. announce api members ns z = Inr z'
    \<and> (\<forall>p. tree z' p = (if \<exists>i\<in>set ns. members ! i \<and> p = node g_path_files (to_string (int i)) \<and> tree z p = None then Some ''r'' else tree z p))"
proof (induction ns arbitrary: z)
  case (Cons i ns)
  then have i: "i < 100" "\<forall>i\<in>set ns. i < 100" by simp_all
  show ?case
  proof (cases "members ! i")
    case False
    then show ?thesis using Cons(1) [OF i(2), of z] i(1) m by simp
  next
    case True
    have "length (to_string (int i)) < 400" using task_digits [of "int i"] i(1) by simp
    from insr2clst_creates [OF k this, of z] obtain z1 where z1: "insr2clst api (to_string (int i)) z = Inr z1"
      "tree z1 = (if tree z (node g_path_files (to_string (int i))) = None
         then (tree z)(node g_path_files (to_string (int i)) \<mapsto> ''r'') else tree z)" .
    obtain z' where z': "announce api members ns z1 = Inr z'"
      "\<forall>p. tree z' p = (if \<exists>i\<in>set ns. members ! i \<and> p = node g_path_files (to_string (int i)) \<and> tree z1 p = None then Some ''r'' else tree z1 p)"
      using Cons(1) [OF i(2), of z1] by blast
    then have "announce api members (i # ns) z = Inr z'" using True i(1) m z1(1) by simp
    then show ?thesis using z'(2) True unfolding z1(2) by (intro exI [of _ z']) auto
  qed
qed simp

lemma map_results_ok: "\<forall>x\<in>set xs. f x = Inr (g x) \<Longrightarrow> map_results f xs = Inr (map g xs)"
  by (induction xs) simp_all

text \<open>A store that answers from the list of the commands it was given.\<close>

definition replay :: "bytes list \<Rightarrow> bytes \<Rightarrow> bytes" where
  "replay cmds q =
     (case filter (\<lambda>c. take (length q + 1) c = ''set '' @ drop 4 q @ '' '') cmds of
        [] \<Rightarrow> []
      | c # _ \<Rightarrow> drop (length q + 1) c)"

lemma keeps_replay: "keeps (replay cmds) cmds"
proof -
  have is_set: "take (length (''get '' @ k) + 1) c = ''set '' @ k @ '' '' \<longleftrightarrow> (\<exists>v. c = ''set '' @ k @ '' '' @ v)" for k c :: bytes
  proof
    assume h: "take (length (''get '' @ k) + 1) c = ''set '' @ k @ '' ''"
    have "c = take (length (''get '' @ k) + 1) c @ drop (length (''get '' @ k) + 1) c" by simp
    then have "c = (''set '' @ k @ '' '') @ drop (length (''get '' @ k) + 1) c" unfolding h .
    then show "\<exists>v. c = ''set '' @ k @ '' '' @ v" by (intro exI) simp
  qed auto
  have ans: "(replay cmds (''get '' @ k) = [] \<and> (\<forall>v. ''set '' @ k @ '' '' @ v \<notin> set cmds))
      \<or> ''set '' @ k @ '' '' @ replay cmds (''get '' @ k) \<in> set cmds" for k
  proof (cases "filter (\<lambda>c. take (length (''get '' @ k) + 1) c = ''set '' @ k @ '' '') cmds")
    case Nil
    then have "\<forall>v. ''set '' @ k @ '' '' @ v \<notin> set cmds" unfolding filter_empty_conv is_set by blast
    then show ?thesis using Nil by (simp add: replay_def)
  next
    case (Cons c cs)
    then have "c \<in> set (filter (\<lambda>c. take (length (''get '' @ k) + 1) c = ''set '' @ k @ '' '') cmds)" by simp
    then have "c \<in> set cmds" "take (length (''get '' @ k) + 1) c = ''set '' @ k @ '' ''" by simp_all
    moreover from this(2) obtain v where v: "c = ''set '' @ k @ '' '' @ v" unfolding is_set by blast
    moreover have "replay cmds (''get '' @ k) = v" using Cons v by (simp add: replay_def)
    ultimately show ?thesis by simp
  qed
  show ?thesis unfolding keeps_def using ans by blast
qed

section \<open>Properties\<close>


definition sample_csv :: "(int \<times> bytes) list" where
  "sample_csv = [(7, '',3,abc'' @ [LF]), (20, '',5,x'' @ [LF]), (7, '',1,de'' @ [LF]), (7, '',2,f'' @ [LF])]"

lemma sample_csv_ok: "\<forall>e\<in>set sample_csv. csv_ok e" "rows_of 7 sample_csv = sample_rows"
  unfolding csv_ok_def row_ok_code by code_simp+


text \<open>C25: \<open>read_file\<close> on a well-formed CSV file: the tasks whose rows are stored are those of the file
  below 20, the tasks that are announced to the dispatcher are those from 1 to 20. (So task 20 is
  announced although none of its rows is stored, and task 0 stored but not announced.)\<close>

theorem loaded_and_announced:
  assumes "keeper api tree" "creates api tree" "tree z g_path_files \<noteq> None" "\<forall>e\<in>set es. csv_ok e"
    and "files (''./node_'' @ to_string n @ ''.csv'') = Some (concat (map csv_line es))"
  shows "\<exists>cmds z'. read_file api files n fuel z = Some (Inr (cmds, z'))
    \<and> map fst cmds = filter (\<lambda>i. \<exists>e\<in>set es. fst e = int i) [0..<20]
    \<and> (\<forall>(i, sent)\<in>set cmds. insert_to_redis n 1000 (Some (concat (map csv_line es))) (int i) = Inr sent)
    \<and> (\<forall>p. tree z' p = (if \<exists>i\<in>{1..20}. (\<exists>e\<in>set es. fst e = int i) \<and> p = node g_path_files (to_string (int i)) \<and> tree z p = None
                     then Some ''r'' else tree z p))"
proof -
  let ?csv = "concat (map csv_line es)" and ?in = "\<lambda>i. \<exists>e\<in>set es. fst e = int i"
  obtain ms where ms: "FindTotalTaskNum ?csv = Inr ms" "length ms = 100" "\<forall>i<100. ms ! i \<longleftrightarrow> ?in i"
    using find_tasks_rows [OF assms(4), of "replicate 100 False"] by (auto simp: FindTotalTaskNum_def)
  define sent where "sent i = set_blocks (int i) n (cut 1000 (int i) [] [] es)" for i
  have ins: "insert_to_redis n 1000 (Some ?csv) (int i) = Inr (sent i)" for i
    using insert_blocks [OF _ assms(4), of 1000 n "int i"] by (simp add: sent_def)
  have ts: "filter (\<lambda>i. ms ! i) [0..<20] = filter ?in [0..<20]" using ms(3) by (intro filter_cong) auto
  define cmds where "cmds = map (\<lambda>i. (i, sent i)) (filter ?in [0..<20])"
  have load: "load_csv n 1000 (Some ?csv) ms 20 = Inr cmds"
    unfolding load_csv_def load_tasks_def cmds_def using ms(2) ts by (simp add: ins map_results_ok)
  obtain z1 where z1: "create api fuel z = Some z1" "tree z1 = tree z"
    using keeper_ensure [of api tree z g_path_files "''file''" fuel] assms(1,3) by (auto simp: create_def)
  obtain z' where z': "announce api ms [1..<21] z1 = Inr z'"
    "\<forall>p. tree z' p = (if \<exists>i\<in>set [1..<21]. ms ! i \<and> p = node g_path_files (to_string (int i)) \<and> tree z1 p = None then Some ''r'' else tree z1 p)"
    using announce_tasks [OF assms(1,2) ms(2), of "[1..<21]" z1] by auto
  have "(\<exists>i\<in>set [1..<21]. ms ! i \<and> Q i) \<longleftrightarrow> (\<exists>i\<in>{1..20}. ?in i \<and> Q i)" for Q using ms(3) by force
  then have "\<forall>p. tree z' p = (if \<exists>i\<in>{1..20}. ?in i \<and> p = node g_path_files (to_string (int i)) \<and> tree z p = None then Some ''r'' else tree z p)"
    using z'(2) unfolding z1(2) by presburger
  moreover have "read_file api files n fuel z = Some (Inr (cmds, z'))"
    unfolding read_file_def Let_def assms(5) using ms(1) load z1(1) z'(1) by simp
  moreover have "map fst cmds = filter ?in [0..<20]" "\<forall>(i, s)\<in>set cmds. insert_to_redis n 1000 (Some ?csv) (int i) = Inr s"
    by (auto simp: cmds_def comp_def ins)
  ultimately show ?thesis by blast
qed

theorem loaded_and_announced_witness:
  "\<exists>cmds z'. read_file memory (\<lambda>f. if f = ''./node_0.csv'' then Some (concat (map csv_line sample_csv)) else None) 0 0 [(g_path_files, ''file'')]
      = Some (Inr (cmds, z')) \<and> map fst cmds = [7] \<and> map_of z' (node g_path_files ''20'') = Some ''r''"
proof -
  let ?files = "\<lambda>f. if f = ''./node_0.csv'' then Some (concat (map csv_line sample_csv)) else None"
  have cr: "creates memory map_of" by (simp add: creates_def memory_def)
  have there: "map_of [(g_path_files, ''file'')] g_path_files \<noteq> None" by simp
  have name: "''./node_'' @ to_string 0 @ ''.csv'' = ''./node_0.csv''" by code_simp
  have "?files (''./node_'' @ to_string 0 @ ''.csv'') = Some (concat (map csv_line sample_csv))" unfolding name by simp
  from loaded_and_announced [where files = ?files and n = 0 and fuel = 0, OF memory_keeper cr there sample_csv_ok(1) this] obtain cmds z' where r:
    "read_file memory ?files 0 0 [(g_path_files, ''file'')] = Some (Inr (cmds, z'))"
    "map fst cmds = filter (\<lambda>i. \<exists>e\<in>set sample_csv. fst e = int i) [0..<20]"
    "\<forall>p. map_of z' p = (if \<exists>i\<in>{1..20}. (\<exists>e\<in>set sample_csv. fst e = int i) \<and> p = node g_path_files (to_string (int i))
        \<and> map_of [(g_path_files, ''file'')] p = None then Some ''r'' else map_of [(g_path_files, ''file'')] p)" by blast
  have "filter (\<lambda>i. \<exists>e\<in>set sample_csv. fst e = int i) [0..<20] = [7]" by code_simp
  then have "map fst cmds = [7]" using r(2) by simp
  let ?p = "node g_path_files ''20''"
  have in20: "\<exists>e\<in>set sample_csv. fst e = int 20" by code_simp
  have name20: "?p = node g_path_files (to_string (int 20))" by code_simp
  have none: "map_of [(g_path_files, ''file'')] ?p = None" by code_simp
  have cond: "\<exists>i\<in>{1..20}. (\<exists>e\<in>set sample_csv. fst e = int i) \<and> ?p = node g_path_files (to_string (int i))
      \<and> map_of [(g_path_files, ''file'')] ?p = None"
    by (rule bexI [of _ 20], intro conjI, rule in20, rule name20, rule none) simp
  have "map_of z' ?p = Some ''r''" using r(3) [THEN spec, of ?p] unfolding if_P [OF cond] .
  with r(1) \<open>map fst cmds = [7]\<close> show ?thesis by (intro exI conjI)
qed

end
