(* ===== verification/RecoveryCsv.thy ===== *)
theory RecoveryCsv
  imports Cxx ThreadPool
begin

text \<open>
  The first version of the recovery (\<open>_file_recovery/recovery_csv.cpp\<close>): a job that writes the
  queue to the file and one job per block that fetches the block and puts its line into the
  queue, on a pool of one thread.

  \<open>select\<close> is the answer of the store to a command.
\<close>

section \<open>Model\<close>

record recovery =
  rc_thread_num :: nat
  rc_write_flag :: int
  rc_task_id :: int
  rc_total_blocks :: int
  rc_buf_queue :: "bytes list"
  rc_file :: bytes

datatype job = Do_write | Do_select int

definition atol :: "bytes \<Rightarrow> int result" where
  "atol s = (case strtol s of None \<Rightarrow> Inr 0 | Some n \<Rightarrow> if - (2 ^ 63) \<le> n \<and> n < 2 ^ 63 then Inr n else Inl Undef)"

text \<open>The loop of the constructor over the nodes, and the constructor.\<close>

fun most_blocks :: "(bytes \<Rightarrow> bytes) \<Rightarrow> int \<Rightarrow> nat list \<Rightarrow> int \<Rightarrow> int result" where
  "most_blocks select task_id [] best = Inr best"
| "most_blocks select task_id (n # ns) best =
     (let max_block_query = ''node_id_'' @ to_string (int n) @ ''_'' @ ''rc_task_id'' @ to_string task_id
      in and_then (atol (select (''get '' @ max_block_query))) (\<lambda>max_block_id.
           most_blocks select task_id ns (if best < max_block_id then max_block_id else best)))"

definition new_recovery :: "(bytes \<Rightarrow> bytes) \<Rightarrow> int \<Rightarrow> recovery result" where
  "new_recovery select task_id =
     and_then (most_blocks select task_id [1..<6] 0) (\<lambda>_.
       Inr \<lparr>rc_thread_num = 1, rc_write_flag = 1, rc_task_id = task_id, rc_total_blocks = 10000, rc_buf_queue = [], rc_file = []\<rparr>)"

definition do_write :: "recovery \<Rightarrow> recovery" where
  "do_write r = r\<lparr>rc_file := rc_file r @ concat (map cstr (rc_buf_queue r)), rc_buf_queue := []\<rparr>"

text \<open>\<open>do_select\<close> waits until its turn has come: here it does nothing while it has not.\<close>

definition csv_block :: "(bytes \<Rightarrow> bytes) \<Rightarrow> int \<Rightarrow> int \<Rightarrow> bytes" where
  "csv_block select task_id block_id =
     (let key = to_string task_id @ ''_'' @ to_string block_id; v = select (''get '' @ key) in key @ '','' @ v @ [LF])"

definition do_select :: "(bytes \<Rightarrow> bytes) \<Rightarrow> int \<Rightarrow> recovery \<Rightarrow> recovery option" where
  "do_select select block_id r =
     (if block_id = rc_write_flag r then
        Some (r\<lparr>rc_buf_queue := rc_buf_queue r @ [csv_block select (rc_task_id r) block_id], rc_write_flag := rc_write_flag r + 1\<rparr>)
      else None)"

fun run_job :: "(bytes \<Rightarrow> bytes) \<Rightarrow> job \<Rightarrow> recovery \<Rightarrow> recovery option" where
  "run_job select Do_write r = Some (do_write r)"
| "run_job select (Do_select b) r = do_select select b r"

text \<open>The jobs in the order \<open>do_recovery\<close> enqueues them.\<close>

definition recovery_jobs :: "recovery \<Rightarrow> job list" where
  "recovery_jobs r = Do_write # map (\<lambda>b. Do_select (int b)) [1..<nat (rc_total_blocks r) + 1]"

text \<open>One worker runs a list of jobs one after the other; \<open>None\<close>: a job waits for ever.\<close>

fun run_jobs :: "(bytes \<Rightarrow> bytes) \<Rightarrow> job list \<Rightarrow> recovery \<Rightarrow> recovery option" where
  "run_jobs select [] r = Some r"
| "run_jobs select (j # js) r = (case run_job select j r of None \<Rightarrow> None | Some r' \<Rightarrow> run_jobs select js r')"

definition easy_recovery :: "(bytes \<Rightarrow> bytes) \<Rightarrow> recovery \<Rightarrow> bytes" where
  "easy_recovery select r =
     concat (map (\<lambda>b. cstr (to_string (rc_task_id r) @ '','' @ to_string (int b) @ '',''
         @ select (''get '' @ to_string (rc_task_id r) @ ''_'' @ to_string (int b)) @ [LF])) [1..<nat (rc_total_blocks r) + 1])"

section \<open>What is written\<close>

lemma selects_run:
  "rc_write_flag r = int k + 1 \<Longrightarrow>
   run_jobs select (map (\<lambda>b. Do_select (int b)) [k + 1..<k + 1 + n]) r
     = Some (r\<lparr>rc_buf_queue := rc_buf_queue r @ map (\<lambda>b. csv_block select (rc_task_id r) (int b)) [k + 1..<k + 1 + n], rc_write_flag := int (k + 1 + n)\<rparr>)"
proof (induction n arbitrary: k r)
  case (Suc n)
  have up: "[k + 1..<k + 1 + Suc n] = (k + 1) # [Suc k + 1..<Suc k + 1 + n]" by (simp add: upt_conv_Cons del: upt_Suc)
  let ?r = "r\<lparr>rc_buf_queue := rc_buf_queue r @ [csv_block select (rc_task_id r) (int (k + 1))], rc_write_flag := int (Suc k) + 1\<rparr>"
  have "run_job select (Do_select (int (k + 1))) r = Some ?r" using Suc(2) by (simp add: do_select_def)
  then show ?case using Suc(1) [of ?r "Suc k"] unfolding up list.map run_jobs.simps by (simp del: upt_Suc)
qed simp

text \<open>The single worker starts the jobs in the order they were enqueued.\<close>

lemma one_worker_order:
  assumes "pool_run (pool_init 1) es p" "pool_tasks p = []" "trace accepted es = recovery_jobs r"
  shows "trace started es = recovery_jobs r"
  using run_fifo [OF assms(1)] assms(2,3) by simp

text \<open>A recovery as the constructor leaves it, and a run of the pool in which the destructor has
  joined its single worker: the file is empty, and the lines of all the blocks are still in
  the queue.\<close>

theorem recovery_writes_nothing:
  assumes "new_recovery select task_id = Inr r" "pool_run (pool_init (rc_thread_num r)) es p" "pool_tasks p = []"
    and "trace accepted es = recovery_jobs r"
  shows "\<exists>r'. run_jobs select (trace started es) r = Some r' \<and> rc_file r' = []
    \<and> rc_buf_queue r' = map (\<lambda>b. csv_block select task_id (int b)) [1..<10001]"
proof -
  have r: "r = \<lparr>rc_thread_num = 1, rc_write_flag = 1, rc_task_id = task_id, rc_total_blocks = 10000, rc_buf_queue = [], rc_file = []\<rparr>"
    using assms(1) by (cases "most_blocks select task_id [1..<6] 0") (simp_all add: new_recovery_def)
  have js: "trace started es = Do_write # map (\<lambda>b. Do_select (int b)) [0 + 1..<0 + 1 + 10000]"
    using one_worker_order [of es p r] assms(2-4) by (simp add: r recovery_jobs_def del: upt_Suc)
  have "do_write r = r" by (simp add: do_write_def r)
  then show ?thesis
    unfolding js run_jobs.simps run_job.simps using selects_run [of r 0 select 10000] by (simp add: r del: upt_Suc upt_rec_numeral)
qed

end
