(* ===== verification/Spec2Isabelle.thy ===== *)
theory Spec2Isabelle
  imports ClusterInv AsyncReads ClusterAsyncSpec AdlistSpec ThreadPool ElectionSpec CsvSpec RecoveryCsv
begin

text \<open>
  A verification library for the distributed task dispatcher.

  The program spreads the recovery of CSV files over several machines. A process loads the rows of a
  file into a Redis cluster (\<open>src/_read_csv\<close>), announces its tasks as nodes of a ZooKeeper service
  (\<open>src/_zk_server\<close>), and registers itself; one process is elected as the monitor, which hands tasks to
  idle workers; a worker fetches the blocks of its task from the cluster, sorts and merges them into
  the result file (\<open>src/_file_recovery\<close>) and copies it away (\<open>src/_auto_scp\<close>, \<open>src/work.cpp\<close>). The
  cluster is reached through the class \<open>redis_data\<close> (\<open>src/_tendis_server/redis_op.cpp\<close>) and the C
  library \<open>hiredis-vip\<close> below it. The files named below without a directory are those of
  \<open>src/_tendis_server/hiredis-vip\<close>.

  \<^bold>\<open>How code is modelled.\<close> A byte string is a list of \<open>char\<close>, a pointer into a buffer an offset, a
  structure a record with the fields of the code, an enumeration a datatype. Integers whose width
  matters are words, or integers with the conversion written out. Functions return what the code
  returns and the state it changes. Behaviour the language leaves undefined is a value: the outer
  \<open>None\<close> of the parsers and strings, \<open>Undefined\<close> of \<open>run\<close> (\<open>Connection\<close>), \<open>Undef\<close> of \<open>Cxx\<close>; a call
  that never returns is \<open>Blocked\<close> (or \<open>None\<close> of a \<open>partial_function\<close>); an error of the code is a value
  of the result or is left in the context, as there. \<open>malloc\<close> is an argument: \<open>heap\<close> maps a size to the
  arbitrary contents of a fresh block or to none, \<open>allocator\<close> only tells whether there is one. Outside
  the code, and so arguments of the definitions: the socket (\<open>Connection\<close>: what \<open>read\<close> and \<open>write\<close>
  return; \<open>Route\<close>: the record \<open>link\<close>), the ZooKeeper client (the record \<open>zookeeper\<close>, with the promises
  \<open>keeper\<close>), the shell and the store of the workers, \<open>printf\<close> of numbers with flags, and the order
  that \<open>sort\<close> gives to equal elements.

  \<^bold>\<open>Theories.\<close>
  \<^item> \<open>Prelude\<close>: characters, decimal text, slices, C strings. \<open>Cxx\<close>: what the C++ files use of their library.
  \<^item> \<open>Hiutil\<close>, \<open>Hiarray\<close>, \<open>Crc16\<close>, \<open>Adlist\<close>, \<open>Dict\<close>: the helpers \<open>hiutil.c\<close>, \<open>hiarray.c\<close>, \<open>crc16.c\<close> with
    \<open>keyHashSlot\<close>, \<open>adlist.c\<close> and \<open>dict.c\<close>. Lists and hash tables are modelled with their pointers
    or chains; \<open>AdlistSpec\<close> and \<open>Dict\<close> show that they are lists and finite maps.
  \<^item> \<open>Sds\<close>, \<open>SdsText\<close>, \<open>SdsEdit\<close>, \<open>SdsSplit\<close>: the strings of \<open>sds.c\<close>, every operation with its header
    and its cells; the lemmas give the text of the result.
  \<^item> \<open>CmdTypes\<close>, \<open>CmdParser\<close>: \<open>redis_parse_cmd\<close> of \<open>command.c\<close>, one turn of its loop a function of the
    state; \<open>CmdInvariant\<close> holds for every buffer, \<open>CmdRequest\<close> for well-formed requests.
  \<^item> \<open>Format\<close>: the four builders of requests of \<open>hiredis.c\<close>.
  \<^item> \<open>Reader\<close>: \<open>read.c\<close> and the reply objects of \<open>hiredis.c\<close> in a store; \<open>ReaderSpec\<close> is the abstract
    machine it refines, \<open>ReaderChunks\<close> its independence of chunks, \<open>ReaderParse\<close> what it builds.
  \<^item> \<open>Connection\<close>, \<open>Exchange\<close>: buffers and loops of a connection (\<open>hiredis.c\<close>), and what a blocking call does.
  \<^item> \<open>Fragment\<close>, \<open>FragmentSpec\<close>, \<open>Merge\<close>: a command over several slots is split and its replies are
    merged (\<open>command_format_by_slot\<close>, \<open>command_pre_fragment\<close>, \<open>command_post_fragment\<close> of \<open>hircluster.c\<close>).
  \<^item> \<open>Route\<close>: the answers to CLUSTER SLOTS and CLUSTER NODES, the table of slots and its lookups
    (\<open>hircluster.c\<close>); \<open>RouteSpec\<close> and \<open>SlotsAnswer\<close> say what table an answer gives.
  \<^item> \<open>Cluster\<close>: the context, its options, the connections of the nodes and the execution of commands
    with redirections; \<open>Pipeline\<close>: appended commands, their replies, the reset, and the class
    \<open>redis_data\<close>. \<open>ClusterSpec\<close> and \<open>PipelineSpec\<close> say what commands and pipelines give over
    connections that answer a script, \<open>ClusterInv\<close> what holds of a context at any time.
  \<^item> \<open>Async\<close>: the client with callbacks of \<open>async.c\<close>: commands, subscriptions, the loop over the replies, the
    handlers of the event loop, the end of a context. \<open>AsyncSpec\<close>: every callback is called once, and
    freeing ends; \<open>AsyncReads\<close>: the replies in the bytes that arrive.
  \<^item> \<open>ClusterAsync\<close>: the client with callbacks of a cluster, at the end of \<open>hircluster.c\<close>: connections of
    nodes, the callback that follows redirections, commands; \<open>ClusterAsyncSpec\<close>: a command sent again ends.
  \<^item> \<open>ThreadPool\<close>: the pool of \<open>ThreadPool.h\<close> as a step relation.
  \<^item> \<open>Zookeeper\<close>, \<open>Dispatcher\<close>, \<open>WorkLoop\<close>: the interface of the service, \<open>clust_comm.cpp\<close>, and the
    turn of a worker in \<open>work.cpp\<close>; \<open>DispatchSpec\<close>, \<open>ElectionSpec\<close> what they do to the service.
  \<^item> \<open>FileRecovery\<close>, \<open>RecoverySpec\<close>, \<open>RecoveryCsv\<close>: \<open>re_file.cpp\<close> and its first version \<open>recovery_csv.cpp\<close>.
  \<^item> \<open>CsvReader\<close>, \<open>CsvSpec\<close>: \<open>read_csv.cpp\<close> and the start of a process; loading and recovering together.

  \<^bold>\<open>Interfaces.\<close> Where a component relies on another through operations and their laws, the laws are a
  locale that is interpreted on the model of the provider: \<open>append_store\<close> (the key array of the
  parser), \<open>appender\<close> (strings that only grow), \<open>chunked\<close> (a reader that is fed), \<open>table_of_nodes\<close> (the
  hash table of nodes), \<open>planned_link\<close> and \<open>scripted_link\<close> (connections that answer a script; the
  instance is the model of a connection, so that the theorems on cluster commands rest on the bytes
  that are written and read).

  \<^bold>\<open>What is shown.\<close> The properties are the theorems with a number. On requests: they are recognised,
  refused, hashed, built, split and merged as the protocol asks, for every buffer within the bounds of
  the 32-bit counters. On replies: the reader refines its machine, whatever the chunks; it reads back
  every reply nested to eight levels. On commands: a call on a connection, on a cluster, and a
  pipeline over several nodes return the replies of the server; retries end, with blocking calls and with callbacks; the nodes a context
  refers to are those of its hash table; a callback gets the reply of its command, once. On tasks: the pool runs every task once and stops; the
  monitor is unique and gives the ready files to idle workers in order; workers carry out the order;
  loaded rows are recovered sorted and without repeats. Properties of kind error state where the code
  goes wrong.

  \<^bold>\<open>Bounds and fuel.\<close> The loops of the parser, the reader, the execution of a command and the fetching of
  replies have measures (bytes left, stack and input, retries left, requests left) and need no fuel.
  \<open>slot_search\<close> has as fuel the number of regions plus two, which bounds the rounds of the bisection;
  \<open>dict_walk\<close> has the number of entries plus one, one round for each and one for the end. The loops that
  repeat a call of a service until it answers (\<open>create_until\<close>, \<open>await_nodes\<close>, the loops of the worker and
  of the recovery of a file) take their fuel as an argument: \<open>blocks_loop\<close> needs one unit for each block
  of the file, and \<open>create_until_stuck\<close> shows that the code never leaves its loop when the service keeps
  refusing. \<open>parse_loop\<close>, and \<open>dup_loop\<close> and \<open>search_loop\<close> of the linked lists, are
  \<open>partial_function (option)\<close>; \<open>parser_safe\<close> shows that the parser returns on every buffer, and
  the lemmas of \<open>AdlistSpec\<close> that the other two return on every list the operations build.

  \<^bold>\<open>Not modelled.\<close> The socket set-up \<open>net.c\<close> and the time-outs; functions that only release memory;
  \<open>cluster_update_route_with_nodes_old\<close>, which nothing calls; printing, sleeping, clocks and stack
  traces; the newer copy of the library in \<open>src/_tendis_server/hiredis\<close>, which the build does not link;
  the adapters, examples and test programs.
\<close>

section \<open>The request parser\<close>

text \<open>A command as \<open>redisClusterFormattedCommand\<close> prepares it: fresh, with its buffer set.\<close>

definition ready :: "bytes \<Rightarrow> cmd" where
  "ready buf =
     \<lparr>c_id = 1, c_result = CMD_PARSE_OK, c_errstr = None, c_type = CMD_UNKNOWN, c_cmd = buf,
      c_clen = of_nat (length buf),
      c_keys = \<lparr>h_nelem = 0, h_elem = [None], h_size = 24, h_nalloc = 1\<rparr>,
      c_narg_start = None, c_narg_end = None, c_narg = 0, c_quit = False, c_noforward = False,
      c_slot_num = -1\<rparr>"

lemma ready_get:
  "\<exists>r n. command_get (\<lambda>_. True) 112 32 24 0 = Some (r, n) \<and> r\<lparr>c_cmd := buf, c_clen := of_nat (length buf)\<rparr> = ready buf"
  by (simp add: command_get_def hiarray_create_def hiarray_init_def ready_def)

lemma ready_fresh: "fresh_keys (ready buf)"
  by (simp add: fresh_keys_def ready_def hiarray_inv_def hiarray_list_def hiarray_n_def)

lemma ready_holds: "length (request args) < 2 ^ 32 \<Longrightarrow> holds_request (ready (request args)) args"
  using ready_fresh [of "request args"] by (simp add: holds_request_def) (simp add: ready_def)





text \<open>A request whose command name is not in the table ends in \<open>CMD_PARSE_ERROR\<close>.\<close>

theorem request_unknown_name:
  assumes "holds_request r (w # as)" "w \<noteq> []" "command_type w = None"
  shows "\<exists>r'. redis_parse_cmd mem r = Some r' \<and> c_result r' = CMD_PARSE_ERROR"
  using assms by (rule parse_unknown)

lemma request_unknown_name_witness:
  "\<exists>r'. redis_parse_cmd (\<lambda>_. False) (ready (request [''keys'', ''a''])) = Some r' \<and> c_result r' = CMD_PARSE_ERROR"
proof -
  have h: "holds_request (ready (request [''keys'', ''a''])) [''keys'', ''a'']"
    by (rule ready_holds) (simp add: request_def bulk_def dec.simps)
  have t: "command_type ''keys'' = None" by code_simp
  show ?thesis using request_unknown_name [OF h _ t] by simp
qed



text \<open>The recognition of a command name by length and case-insensitive comparison,
  with the missing \<open>break\<close> of length 10, is a lookup of the lower-cased name in one table.\<close>

theorem command_name_lookup:
  "req_type (length w) (w @ CR # r) = (case command_type w of None \<Rightarrow> CMD_UNKNOWN | Some t \<Rightarrow> t)"
  by (rule req_type_is_lookup)

text \<open>C4: The table-driven CRC is division by the CCITT polynomial, bit by bit (XMODEM).\<close>

theorem crc16_correct: "crc16 buf len = crc_xmodem (map char_byte (take len buf))"
  by (rule crc16_is_xmodem)

text \<open>C5: Two keys with the same non-empty text between the first opening brace and the
  closing brace after it fall into the same one of the 16384 slots.\<close>

theorem hash_tags_share_slot:
  assumes "CHR ''{'' \<notin> set a" "CHR ''{'' \<notin> set b" "CHR ''}'' \<notin> set t" "t \<noteq> []"
  shows "keyHashSlot (a @ ''{'' @ t @ ''}'' @ x) (length (a @ ''{'' @ t @ ''}'' @ x))
       = keyHashSlot (b @ ''{'' @ t @ ''}'' @ y) (length (b @ ''{'' @ t @ ''}'' @ y))
     \<and> unat (keyHashSlot (a @ ''{'' @ t @ ''}'' @ x) (length (a @ ''{'' @ t @ ''}'' @ x))) < 16384"
  by (rule conjI, simp only: keyHashSlot_tag [OF assms(1,3,4)] keyHashSlot_tag [OF assms(2-4)],
      rule keyHashSlot_bound)

lemma hash_tags_share_slot_witness:
  "keyHashSlot ''{user}.a'' (length ''{user}.a'') = keyHashSlot ''x{user}'' (length ''x{user}'')"
  using hash_tags_share_slot [of "[]" "''x''" "''user''" "''.a''" "[]"] by simp


section \<open>Building requests\<close>

text \<open>A heap that never fails and returns zeroed cells, for the concrete instances.\<close>

definition zeroed :: heap where
  "zeroed n = Some (replicate n NUL)"

lemma zeroed_heap: "good_heap zeroed" "ample zeroed"
  by (simp_all add: zeroed_def good_heap_def ample_def)

lemma take_request [simp]: "take (length t) (t @ [NUL]) = t"
  by simp



text \<open>A template of words built from literal text, \<open>%s\<close>, \<open>%b\<close> and \<open>%%\<close>, separated by
  blanks, becomes the request whose arguments are the words with the data put in: blanks or
  percent signs inside the data neither split a word nor start a conversion.\<close>

theorem template_is_request:
  assumes "good_heap mem" "ample mem" "ws \<noteq> []" "\<forall>w\<in>set ws. word_ok w"
    "length (request (map word_text ws)) + 1 + SDS_MAX_PREALLOC < 2 ^ 31"
  shows "redisFormatCommand mem pf True (template ws) (template_args ws)
    = Some (int (length (request (map word_text ws))), Some (request (map word_text ws) @ [NUL]))"
  using vformat_template [OF assms] by (simp add: redisFormatCommand_def)

lemma template_is_request_witness:
  "redisFormatCommand zeroed (\<lambda>_ _. []) True ''SET x:%s %b'' [VStr ''a b'', VStr ''50% '', VSize 4]
    = Some (34, Some (request [''SET'', ''x:a b'', ''50% ''] @ [NUL]))"
proof -
  let ?ws = "[[Lit ''SET''], [Lit ''x:'', StrArg ''a b''], [BinArg ''50% '' 4]]"
  have r: "map word_text ?ws = [''SET'', ''x:a b'', ''50% '']"
    "template ?ws = ''SET x:%s %b''" "template_args ?ws = [VStr ''a b'', VStr ''50% '', VSize 4]"
    "\<forall>w\<in>set ?ws. word_ok w"
    by code_simp+
  have n: "length (request [''SET'', ''x:a b'', ''50% '']) = 34"
    by (simp add: request_def bulk_def dec.simps)
  show ?thesis
    using template_is_request [OF zeroed_heap _ r(4), of "\<lambda>_ _. []", unfolded r(1-3) n] by (simp add: SDS_MAX_PREALLOC_def)
qed

text \<open>The two builders for argument vectors write the same bytes and return the same length.\<close>

theorem argv_builders_agree:
  assumes "good_heap mem" "ample mem" "lens_ok argvlen argv"
    "length (request (arg_bytes argvlen argv)) + 1 + SDS_MAX_PREALLOC < 2 ^ 31"
  shows "\<exists>n u. redisFormatSdsCommandArgv mem True argv argvlen = Some (n, Some u) \<and> sds_inv u
    \<and> redisFormatCommandArgv mem True argv argvlen = Some (n, Some (sds_text u @ [NUL]))"
  using formatSdsCommandArgv_request [OF assms] formatCommandArgv_request [OF assms(2,3)] assms(4) by fastforce

lemma argv_builders_agree_witness:
  "\<exists>n u. redisFormatSdsCommandArgv zeroed True [''GET'', ''k''] (Some [3, 1]) = Some (n, Some u) \<and> sds_inv u
    \<and> redisFormatCommandArgv zeroed True [''GET'', ''k''] (Some [3, 1]) = Some (n, Some (sds_text u @ [NUL]))"
proof -
  have l: "lens_ok (Some [3, 1]) [''GET'', ''k'']" by code_simp
  have a: "arg_bytes (Some [3, 1]) [''GET'', ''k''] = [''GET'', ''k'']" by code_simp
  have n: "length (request (arg_bytes (Some [3, 1]) [''GET'', ''k''])) + 1 + SDS_MAX_PREALLOC < 2 ^ 31"
    by (simp only: a) (simp add: request_def bulk_def dec.simps SDS_MAX_PREALLOC_def)
  show ?thesis by (rule argv_builders_agree [OF zeroed_heap l n])
qed


section \<open>Dynamic strings\<close>

definition sds_of :: "bytes \<Rightarrow> sds" where
  "sds_of t = \<lparr>s_len = int (length t), s_free = 0, s_buf = t @ [NUL]\<rparr>"

lemma sds_of_inv: "length t < 2 ^ 31 \<Longrightarrow> sds_inv (sds_of t) \<and> sds_text (sds_of t) = t"
  by (simp add: sds_inv_def sds_shape_def sds_text_def sds_of_def nth_append)

text \<open>C7: Appending the quoted form of an argument to a line of quoted arguments gives a line
  that \<open>sdssplitargs\<close> reads back as all of them, whatever bytes they hold.\<close>

theorem quoted_line_reads_back:
  assumes "good_heap mem" "sds_inv s" "fits_int s (length (quoted p))" "sdscatrepr mem s p = Some u"
    "sds_text s = concat (map (\<lambda>q. quoted q @ '' '') qs)"
  shows "sdssplitargs (sds_text u) = Some (qs @ [p])"
proof -
  have "join_bytes x (map f (qs @ [p])) = concat (map (\<lambda>q. f q @ x) qs) @ f p" for x and f :: "bytes \<Rightarrow> bytes"
  proof (induction qs)
    case (Cons q qs)
    then show ?case by (cases qs) auto
  qed simp
  then have "sds_text u = join_bytes '' '' (map quoted (qs @ [p]))"
    using sdscatrepr_text [OF assms(1-4)] assms(5) by simp
  then show ?thesis by (simp only: sdssplitargs_quoted)
qed

lemma quoted_line_reads_back_witness:
  "\<exists>u. sdscatrepr zeroed (sds_of (quoted ''a b'' @ '' '')) [CHR 0x22, LF, CHR 0x01] = Some u
    \<and> sdssplitargs (sds_text u) = Some [''a b'', [CHR 0x22, LF, CHR 0x01]]"
proof -
  let ?s = "sds_of (quoted ''a b'' @ '' '')" and ?p = "[CHR 0x22, LF, CHR 0x01]"
  have q: "length (quoted ''a b'') = 5" "length (quoted ?p) = 10" by code_simp+
  have s: "sds_inv ?s" "sds_text ?s = concat (map (\<lambda>q. quoted q @ '' '') [''a b''])"
    using sds_of_inv [of "quoted ''a b'' @ '' ''"] q(1) by simp_all
  have f: "fits_int ?s (length (quoted ?p))"
    by (simp only: fits_int_def s(2) q(2)) (simp add: q(1) SDS_MAX_PREALLOC_def)
  obtain u where "sdscatrepr zeroed ?s ?p = Some u"
    using sdscatrepr_total [OF zeroed_heap(2)] by blast
  with quoted_line_reads_back [OF zeroed_heap(1) s(1) f _ s(2)] show ?thesis by auto
qed

text \<open>The tokens of \<open>sdssplitlen\<close> joined again with the separator are the input, and no
  token contains the separator.\<close>

theorem split_then_join:
  assumes "good_heap mem" "ample mem" "length s + SDS_MAX_PREALLOC < 2 ^ 31" "sep \<noteq> []"
  shows "\<exists>toks u. sdssplitlen mem s sep = Some toks \<and> sdsjoinsds mem toks sep = Some u
    \<and> sds_text u = s \<and> list_all (\<lambda>t. \<not> occurs sep (sds_text t)) toks"
proof -
  have n: "length s < 2 ^ 31" using assms(3) by simp
  obtain toks where t: "sdssplitlen mem s sep = Some toks" using sdssplitlen_total [OF assms(2,4)] by blast
  obtain u where u: "sdsjoinsds mem toks sep = Some u" using sdsjoinsds_total [OF assms(2)] by blast
  note sp = sdssplitlen_pieces [OF assms(1) n t]
  have "length (join_bytes sep (map sds_text toks)) + SDS_MAX_PREALLOC < 2 ^ 31" using assms(3) sp(1) by simp
  from sdsjoinsds_text [OF assms(1) this u] sp t u show ?thesis by (auto simp: list_all_iff)
qed

lemma split_then_join_witness:
  "\<exists>toks u. sdssplitlen zeroed ''a--b----c'' ''--'' = Some toks \<and> sdsjoinsds zeroed toks ''--'' = Some u
    \<and> sds_text u = ''a--b----c'' \<and> list_all (\<lambda>t. \<not> occurs ''--'' (sds_text t)) toks"
  by (rule split_then_join [OF zeroed_heap]) (simp_all add: SDS_MAX_PREALLOC_def)

text \<open>\<open>sdstrim\<close> cuts exactly the characters of the set (and NUL bytes, which \<open>strchr\<close>
  finds in every set) from both ends.\<close>

theorem trim_cuts_both_ends:
  assumes "sds_inv s" "length (sds_text s) < 2 ^ 31"
  shows "sds_inv (sdstrim s cset) \<and>
    (\<exists>a b. sds_text s = a @ sds_text (sdstrim s cset) @ b
       \<and> list_all (in_cset cset) a \<and> list_all (in_cset cset) b
       \<and> (sds_text (sdstrim s cset) = [] \<or>
          \<not> in_cset cset (hd (sds_text (sdstrim s cset))) \<and> \<not> in_cset cset (last (sds_text (sdstrim s cset)))))"
  using sdstrim_text [OF assms] trim_splits by simp

lemma trim_cuts_both_ends_witness:
  "sds_inv (sdstrim (sds_of ''xxhixy'') ''xy'') \<and> sds_text (sdstrim (sds_of ''xxhixy'') ''xy'') = ''hi''"
proof -
  have "sds_text (sdstrim (sds_of ''xxhixy'') ''xy'') = ''hi''" by code_simp
  with trim_cuts_both_ends [of "sds_of ''xxhixy''" "''xy''"] sds_of_inv [of "''xxhixy''"] show ?thesis by simp
qed

text \<open>\<open>sdsrange\<close> keeps the slice between two positions, negative ones counted from the
  end, positions outside the string clipped; no position makes it leave the buffer.\<close>

theorem range_is_slice:
  assumes "sds_inv s"
  shows "sds_inv (sdsrange s start end) \<and> sds_text (sdsrange s start end) = slice_text (sds_text s) start end"
  using assms by (rule sdsrange_text)

lemma range_is_slice_witness:
  "sds_text (sdsrange (sds_of ''hello'') (-3) (-2)) = ''ll''"
proof -
  have "slice_text ''hello'' (-3) (-2) = ''ll''" by code_simp
  with range_is_slice [of "sds_of ''hello''" "-3" "-2"] sds_of_inv [of "''hello''"] show ?thesis by simp
qed

text \<open>\<open>sdscmp\<close> orders strings lexicographically by unsigned bytes; it is zero only for equal
  strings.\<close>

theorem compare_is_lexicographic:
  assumes "sds_inv s1" "sds_inv s2"
  shows "(sdscmp s1 s2 < 0 \<longleftrightarrow> (sds_text s1, sds_text s2) \<in> lexord byte_less)
    \<and> (sdscmp s1 s2 = 0 \<longleftrightarrow> sds_text s1 = sds_text s2)"
  using assms by (rule sdscmp_lex)

lemma compare_is_lexicographic_witness: "sdscmp (sds_of ''ab'') (sds_of ''abc'') < 0 \<and> (''ab'', ''abc'') \<in> lexord byte_less"
proof -
  have "sdscmp (sds_of ''ab'') (sds_of ''abc'') < 0" by code_simp
  with compare_is_lexicographic [of "sds_of ''ab''" "sds_of ''abc''"] sds_of_inv [of "''ab''"] sds_of_inv [of "''abc''"]
  show ?thesis by simp
qed


text \<open>\<open>sdscatfmt\<close> appends the text its format denotes: strings, sds, signed and unsigned
  numbers in their decimal form, every other character itself; the buffer stays well formed.\<close>

theorem catfmt_appends_format:
  assumes "good_heap mem" "ample mem" "sds_inv s" "fmt_text f args = Some t" "fits_int s (length t + 1)"
  shows "\<exists>u. sdscatfmt mem s f args = Some u \<and> sds_inv u \<and> sds_text u = sds_text s @ t"
  using assms by (rule sdscatfmt_text)

lemma catfmt_appends_format_witness:
  "\<exists>u. sdscatfmt zeroed (sds_of ''n='') ''%i/%u %s'' [ArgInt (-12), ArgUint 7, ArgStr ''ok''] = Some u
    \<and> sds_inv u \<and> sds_text u = ''n=-12/7 ok''"
proof -
  have f: "fmt_text ''%i/%u %s'' [ArgInt (-12), ArgUint 7, ArgStr ''ok''] = Some ''-12/7 ok''"
    by code_simp
  have r: "fits_int (sds_of ''n='') (length ''-12/7 ok'' + 1)"
    using sds_of_inv [of "''n=''"] by (simp add: fits_int_def SDS_MAX_PREALLOC_def)
  show ?thesis
    using catfmt_appends_format [OF zeroed_heap _ f r] sds_of_inv [of "''n=''"] by simp
qed

text \<open>Appending to an sds appends exactly the bytes, whether the buffer has room or is
  reallocated with its spare room, and leaves a well-formed terminated string.\<close>

theorem append_is_concatenation:
  assumes "good_heap mem" "ample mem" "sds_inv s" "fits_int s (length t)"
  shows "\<exists>u. sdscatlen mem s t = Some u \<and> sds_inv u \<and> sds_text u = sds_text s @ t
    \<and> s_buf u ! length (sds_text u) = NUL"
proof -
  obtain u where u: "sdscatlen mem s t = Some u" using sdscatlen_total [OF assms(2)] by fastforce
  then show ?thesis using sdscatlen_text [OF assms(1,3,4) u] sds_inv_len(6) by blast
qed

lemma append_is_concatenation_witness:
  "\<exists>u. sdscatlen zeroed (sds_of ''ab'') ''cd'' = Some u \<and> sds_inv u \<and> sds_text u = ''abcd''
    \<and> s_buf u ! length (sds_text u) = NUL"
  using append_is_concatenation [OF zeroed_heap, of "sds_of ''ab''" "''cd''"] sds_of_inv [of "''ab''"]
  by (simp add: fits_int_def SDS_MAX_PREALLOC_def)



section \<open>Helpers of the client\<close>

text \<open>Pushing onto an array, whether or not its block has to double, adds the element at
  the end and keeps every earlier one where \<open>hiarray_get\<close> finds it.\<close>

theorem array_push_then_get:
  assumes "hiarray_inv a" "length (hiarray_list a) < 2 ^ 31" "\<forall>n. mem n"
  shows "\<exists>b. hiarray_push_value mem a v = Some b \<and> hiarray_inv b \<and> hiarray_list b = hiarray_list a @ [v]
    \<and> hiarray_get b (hiarray_n a) = Some v
    \<and> (unat i \<ge> length (hiarray_list a) \<or> hiarray_get b i = hiarray_get a i)"
proof -
  obtain b where b: "hiarray_push_value mem a v = Some b" using hiarray_push_value_total [of mem a v] assms(3) by auto
  note c = hiarray_push_value_contents [OF assms(1,2) b]
  have l: "length (hiarray_list a) = unat (hiarray_n a)" by (rule length_hiarray_list [OF assms(1)])
  have new: "hiarray_get b (hiarray_n a) = Some v"
    using hiarray_get_nth [OF c(2), of "hiarray_n a"] by (simp add: c(1) nth_append flip: l)
  have old: "hiarray_get b i = hiarray_get a i" if i: "unat i < length (hiarray_list a)"
    using hiarray_get_nth [OF c(2), of i] hiarray_get_nth [OF assms(1) i] i by (simp add: c(1) nth_append)
  show ?thesis using b c new old by (meson not_le_imp_less)
qed

lemma array_push_then_get_witness:
  "\<exists>b. hiarray_push_value (\<lambda>_. True) \<lparr>h_nelem = 1, h_elem = [Some ''x''], h_size = 8, h_nalloc = 1\<rparr> ''y'' = Some b
    \<and> hiarray_list b = [''x'', ''y'']"
proof -
  let ?a = "\<lparr>h_nelem = 1, h_elem = [Some ''x''], h_size = 8, h_nalloc = 1\<rparr> :: string hiarray"
  have "hiarray_inv ?a" "hiarray_list ?a = [''x'']" by (simp_all add: hiarray_inv_def hiarray_list_def)
  then show ?thesis using array_push_then_get [of ?a "\<lambda>_. True" "''y''"] by auto
qed

text \<open>A positive number printed by \<open>hi_itoa\<close> has the length \<open>uint_len\<close> gives, is
  terminated, and is read back by \<open>hi_atoi\<close>.\<close>

theorem itoa_reads_back:
  assumes "0 < n" "n < 2 ^ 31" "length (dec n) < length s"
  shows "\<exists>r. hi_itoa s (int n) = dec n @ NUL # r \<and> uint_len (of_nat n) = length (dec n)
    \<and> hi_atoi (hi_itoa s (int n)) (uint_len (of_nat n)) = int n"
proof -
  obtain r where r: "hi_itoa s (int n) = dec n @ NUL # r" using hi_itoa_pos [of "int n" s] assms by auto
  have u: "uint_len (of_nat n) = length (dec n)" using assms(2) by (simp add: uint_len_dec unat_of_nat)
  have "hi_atoi (dec n @ NUL # r) (length (dec n)) = hi_atoi (dec n) (length (dec n))" by (simp add: hi_atoi_def)
  then show ?thesis using r u hi_atoi_dec [OF assms(2)] by simp
qed

lemma itoa_reads_back_witness:
  "hi_atoi (hi_itoa (replicate 12 NUL) 4711) (uint_len 4711) = 4711"
proof -
  have "length (dec 4711) < length (replicate 12 NUL)" by (simp add: dec.simps)
  moreover have "0 < (4711 :: nat)" "(4711 :: nat) < 2 ^ 31" by simp_all
  ultimately have "hi_atoi (hi_itoa (replicate 12 NUL) (int 4711)) (uint_len (of_nat 4711)) = int 4711"
    using itoa_reads_back by blast
  then show ?thesis by (simp only: of_nat_numeral)
qed

text \<open>\<open>hi_itoa\<close> of zero stores the digit and no terminator: what the buffer held behind
  it stays part of the string.\<close>

theorem itoa_zero_keeps_tail:
  "hi_itoa (c # cs) 0 = CHR ''0'' # cs \<and> cstr (hi_itoa (hi_itoa (replicate 12 NUL) 35) 0) = ''05''"
proof
  show "hi_itoa (c # cs) 0 = CHR ''0'' # cs" by (rule hi_itoa_zero)
  have d: "dec 35 = ''35''" by code_simp
  obtain r where r: "hi_itoa (replicate 12 NUL) 35 = ''35'' @ NUL # r"
    using hi_itoa_pos [of 35 "replicate 12 NUL"] by (auto simp: d)
  show "cstr (hi_itoa (hi_itoa (replicate 12 NUL) 35) 0) = ''05''" by (simp add: r hi_itoa_zero cstr_def)
qed


section \<open>Reading replies\<close>

text \<open>C9: On a reader between two calls, \<open>redisReaderGetReply\<close> does what the abstract machine
  does on the bytes not yet read: the same outcome, the same error or reply object, and the
  reader it leaves stands for the machine's next state.\<close>

theorem reader_refines_machine:
  assumes "reader_ok r"
  shows "map_option (\<lambda>(r', ok, a). (machine r', ok, a)) (redisReaderGetReply mem r) = p_get mem (machine r)
    \<and> (\<forall>r' ok a. redisReaderGetReply mem r = Some (r', ok, a) \<longrightarrow> reader_ok r')"
  using refine_get [OF assms, of mem] by simp

lemma reader_refines_machine_witness:
  "\<exists>r r'. redisReaderCreate zeroed = Some r \<and> redisReaderGetReply zeroed r = Some (r', True, None) \<and> reader_ok r'"
proof -
  obtain r where r: "redisReaderCreate zeroed = Some r" using redisReaderCreate_total [OF zeroed_heap(2)] by blast
  note f = fresh_reader [OF zeroed_heap(1) r]
  show ?thesis
    using reader_refines_machine [OF f(1), of zeroed] idle_hungry [OF f(4,5), of zeroed] r by (auto simp: map_option_case split: option.splits)
qed

text \<open>C10: A program that asks the reader after every chunk sees the same outcome, error or
  reply object, and is left with a reader in the same state, however the bytes were cut.\<close>

theorem chunks_do_not_matter:
  assumes "good_heap mem" "ample mem" "reader_ok r" "rd_err r = 0" "room (machine r) (concat ts)"
  shows "seen (consume mem r ts) = seen (consume mem r [concat ts])"
  by (rule consume_whole [OF assms])

lemma chunks_do_not_matter_witness:
  "\<exists>r. redisReaderCreate zeroed = Some r
    \<and> seen (consume zeroed r [''$2'', [CR], [LF], ''ok'', CRLF]) = seen (consume zeroed r [encode (R_bulk ''ok'')])"
proof -
  obtain r where r: "redisReaderCreate zeroed = Some r" using redisReaderCreate_total [OF zeroed_heap(2)] by blast
  note f = fresh_reader [OF zeroed_heap(1) r]
  have c: "concat [''$2'', [CR], [LF], ''ok'', CRLF] = encode (R_bulk ''ok'')" by code_simp
  have n: "room (machine r) (concat [''$2'', [CR], [LF], ''ok'', CRLF])" by (simp add: room_def f(5) SDS_MAX_PREALLOC_def)
  show ?thesis using chunks_do_not_matter [OF zeroed_heap f(1,2) n] r by (simp only: c) blast
qed

text \<open>C11: A reader fed the encoding of a reply, nested to at most eight levels, returns a tree of
  objects that denotes the reply, leaves the bytes after it unread and the earlier trees untouched.\<close>

theorem reply_reads_back:
  assumes "good_heap mem" "ample mem" "settled r p" "idle p" "ps_input p = []" "reply_ok 0 R" "room p (encode R @ rest)"
  shows "\<exists>r1 r2 a. redisReaderFeed mem r (encode R @ rest) = Some (r1, True)
    \<and> redisReaderGetReply mem r1 = Some (r2, True, Some a) \<and> denotes (rd_store r2) R a
    \<and> unread r2 = rest \<and> take (length (rd_store r)) (rd_store r2) = rd_store r \<and> settled r2 (machine r2) \<and> idle (machine r2)"
proof -
  obtain r1 where r1: "redisReaderFeed mem r (encode R @ rest) = Some (r1, True)" "reader_ok r1"
    "machine r1 = p_feed p (encode R @ rest)" using feed_settled [OF assms(1-3,7)] by blast
  obtain q a where q: "p_get mem (machine r1) = Some (q, True, Some a)" "idle q" "ps_input q = rest"
    "denotes (ps_store q) R a" "take (length (ps_store p)) (ps_store q) = ps_store p"
    using idle_reply [OF assms(4,2,6,5), of rest] r1(3) by auto
  obtain r2 where r2: "redisReaderGetReply mem r1 = Some (r2, True, Some a)" "machine r2 = q"
    using seen_get [OF r1(2), of mem] q(1) by (auto simp: seen_def)
  note s = get_settled(1) [OF r1(2) r2(1)]
  have "unread r2 = ps_input (machine r2)" by (simp add: machine_def p_start_def abs_reader_def)
  then show ?thesis using r1(1) r2 q s settled_store [OF s] settled_store [OF assms(3)] by auto
qed

lemma fresh_settled: "\<exists>r p. redisReaderCreate zeroed = Some r \<and> settled r p \<and> idle p \<and> ps_input p = []"
proof -
  obtain r where r: "redisReaderCreate zeroed = Some r" using redisReaderCreate_total [OF zeroed_heap(2)] by blast
  note f = fresh_reader [OF zeroed_heap(1) r]
  show ?thesis using f r by (intro exI [of _ r] exI [of _ "machine r"]) (simp add: settled_def)
qed

lemma reply_reads_back_witness:
  "\<exists>r r1 r2 a. redisReaderCreate zeroed = Some r
    \<and> redisReaderFeed zeroed r (encode (R_array [R_int (-5), R_array [], R_nil]) @ ''+OK'') = Some (r1, True)
    \<and> redisReaderGetReply zeroed r1 = Some (r2, True, Some a)
    \<and> denotes (rd_store r2) (R_array [R_int (-5), R_array [], R_nil]) a \<and> unread r2 = ''+OK''"
proof -
  let ?R = "R_array [R_int (-5), R_array [], R_nil]"
  obtain r p where r: "redisReaderCreate zeroed = Some r" "settled r p" "idle p" "ps_input p = []"
    using fresh_settled by blast
  have k: "reply_ok 0 ?R" by simp
  have "length (encode ?R @ ''+OK'') = 21" by code_simp
  then have "room p (encode ?R @ ''+OK'')" by (simp only: room_def r(4) SDS_MAX_PREALLOC_def) simp
  from reply_reads_back [OF zeroed_heap r(2-4) k this] r(1) show ?thesis by blast
qed

text \<open>Eight arrays may be nested; when the header of a ninth comes the reader fails with
  \<open>REDIS_ERR_PROTOCOL\<close>, whatever follows.\<close>

theorem nesting_limit:
  assumes "good_heap mem" "ample mem" "settled r p" "idle p" "ps_input p = []" "length ns = 8"
    "\<forall>n\<in>set ns. 0 < n \<and> n < 2 ^ 31" "room p (headers ns @ CHR ''*'' # t)"
  shows "\<exists>r1 r2. redisReaderFeed mem r (headers ns @ CHR ''*'' # t) = Some (r1, True)
    \<and> redisReaderGetReply mem r1 = Some (r2, False, None) \<and> rd_err r2 = REDIS_ERR_PROTOCOL"
proof -
  let ?p = "p\<lparr>ps_input := headers ns @ CHR ''*'' # t\<rparr>"
  obtain r1 where r1: "redisReaderFeed mem r (headers ns @ CHR ''*'' # t) = Some (r1, True)" "reader_ok r1" "machine r1 = ?p"
    using feed_idle [OF assms(1-5,8)] by blast
  have "idle ?p" "ps_input ?p = headers ns @ CHR ''*'' # t" using assms(4) by (simp_all add: idle_def)
  from idle_too_deep [OF this(1) assms(2,6,7) this(2)] obtain q where "p_get mem (machine r1) = Some (q, False, None)"
      "ps_err q = REDIS_ERR_PROTOCOL" using r1(3) by auto
  then show ?thesis using seen_get [OF r1(2), of mem] machine_err r1(1) by (fastforce simp: seen_def)
qed

lemma nesting_limit_witness:
  "\<exists>r r1 r2. redisReaderCreate zeroed = Some r
    \<and> redisReaderFeed zeroed r (headers [1, 1, 1, 1, 1, 1, 1, 1] @ CHR ''*'' # []) = Some (r1, True)
    \<and> redisReaderGetReply zeroed r1 = Some (r2, False, None) \<and> rd_err r2 = REDIS_ERR_PROTOCOL"
proof -
  obtain r p where r: "redisReaderCreate zeroed = Some r" "settled r p" "idle p" "ps_input p = []"
    using fresh_settled by blast
  have "length (headers [1, 1, 1, 1, 1, 1, 1, 1] @ CHR ''*'' # []) = 33" by (simp add: dec.simps)
  then have "room p (headers [1, 1, 1, 1, 1, 1, 1, 1] @ CHR ''*'' # [])" by (simp only: room_def r(4) SDS_MAX_PREALLOC_def) simp
  from nesting_limit [OF zeroed_heap r(2-4) _ _ this] r(1) show ?thesis by auto
qed

text \<open>C12: An array header that announces \<open>2 ^ 32\<close> elements is accepted with room for none, and
  the first element that arrives is stored through the null pointer: the call is undefined.\<close>

theorem huge_array_undefined:
  assumes "good_heap mem" "ample mem" "settled r p" "idle p" "ps_input p = []"
  shows "\<exists>r1. redisReaderFeed mem r (''*4294967296'' @ CRLF @ '':1'' @ CRLF) = Some (r1, True)
    \<and> redisReaderGetReply mem r1 = None"
proof -
  let ?t = "''*4294967296'' @ CRLF @ '':1'' @ CRLF"
  let ?p = "p\<lparr>ps_input := ?t\<rparr>"
  have "length ?t = 17" by code_simp
  then have "room p ?t" by (simp only: room_def assms(5) SDS_MAX_PREALLOC_def) simp
  then obtain r1 where r1: "redisReaderFeed mem r ?t = Some (r1, True)" "reader_ok r1" "machine r1 = ?p"
    using feed_idle [OF assms(1-5)] by blast
  have "idle ?p" "ps_input ?p = ?t" using assms(4) by (simp_all add: idle_def)
  from huge_array_machine [OF assms(2) this] r1(3) have "p_get mem (machine r1) = None" by simp
  then show ?thesis using seen_get [OF r1(2), of mem] r1(1) by (auto simp: seen_def simp del: append.simps)
qed

lemma huge_array_undefined_witness:
  "\<exists>r r1. redisReaderCreate zeroed = Some r
    \<and> redisReaderFeed zeroed r (''*4294967296'' @ CRLF @ '':1'' @ CRLF) = Some (r1, True) \<and> redisReaderGetReply zeroed r1 = None"
proof -
  obtain r p where r: "redisReaderCreate zeroed = Some r" "settled r p" "idle p" "ps_input p = []"
    using fresh_settled by blast
  from huge_array_undefined [OF zeroed_heap r(2-4)] r(1) show ?thesis by blast
qed

section \<open>Calls\<close>

text \<open>C13: A blocking call on a connection that is up returns: whatever portions \<open>write\<close> takes the
  request in and whatever chunks \<open>read\<close> brings the reply in, interrupted calls included, the
  server has received exactly the request, the caller gets the object that denotes the reply,
  and the connection is ready for the next call with the bytes that came after the reply.\<close>

theorem blocking_call_answered:
  assumes h: "good_heap mem" "ample mem" and c: "calm c [] p" "ps_input p = []" "lens_ok argvlen argv"
    and n: "length (request (arg_bytes argvlen argv)) + 1 + SDS_MAX_PREALLOC < 2 ^ 31"
    and w: "takes_all ws (length (request (arg_bytes argvlen argv)))" "nt_writes net = ws @ ws'"
    and rd: "nt_reads net = evs @ rs" "list_all brings evs" "arrived evs = encode R @ rest" "reply_ok 0 R" "room p (arrived evs)"
  shows "\<exists>c' net' a. redisCommandArgv mem strerror c net argv argvlen = Done (c', net', Some a)
    \<and> answered c' net' rest rs R a \<and> nt_sent net' = nt_sent net @ request (arg_bytes argvlen argv) \<and> nt_writes net' = ws'"
proof -
  obtain c1 where c1: "redisAppendCommandArgv mem c argv argvlen = Done (c1, True)"
      "calm c1 (request (arg_bytes argvlen argv)) p"
    using append_argv_calm [OF h c(1,3)] n by auto
  have "length (request (arg_bytes argvlen argv)) < 2 ^ 31" using n by simp
  from get_reply_answered [OF h c1(2) c(2) this w rd, of strerror] c1 show ?thesis
    by (auto simp: redisCommandArgv_def redisBlockForReply_def calm_def)
qed

lemma blocking_call_answered_witness:
  "\<exists>c c' net' a. redisContextInit zeroed True = Some c
    \<and> redisCommandArgv zeroed (\<lambda>_. []) c \<lparr>nt_writes = [Inr 9, Inl EINTR, Inr 11], nt_reads = [Inr ''$2'', Inl EINTR, Inr (CRLF @ ''ok'' @ CRLF)], nt_sent = []\<rparr>
        [''GET'', ''k''] None = Done (c', net', Some a)
    \<and> answered c' net' [] [] (R_bulk ''ok'') a \<and> nt_sent net' = request [''GET'', ''k'']"
proof -
  obtain c p where c: "redisContextInit zeroed True = Some c" "calm c [] p" "ps_input p = []"
    using fresh_context [OF zeroed_heap] by blast
  have l: "lens_ok None [''GET'', ''k'']" and a: "arg_bytes None [''GET'', ''k''] = [''GET'', ''k'']" by code_simp+
  have n: "length (request [''GET'', ''k'']) = 20" by (simp add: request_def bulk_def dec.simps)
  have evs: "list_all brings [Inr ''$2'', Inl EINTR, Inr (CRLF @ ''ok'' @ CRLF)]"
    "arrived [Inr ''$2'', Inl EINTR, Inr (CRLF @ ''ok'' @ CRLF)] = encode (R_bulk ''ok'') @ []" by code_simp+
  have "length (arrived [Inr ''$2'', Inl EINTR, Inr (CRLF @ ''ok'' @ CRLF)]) = 8" by code_simp
  then have rm: "room p (arrived [Inr ''$2'', Inl EINTR, Inr (CRLF @ ''ok'' @ CRLF)])"
    by (simp only: room_def c(3) SDS_MAX_PREALLOC_def) simp
  show ?thesis
    using blocking_call_answered [OF zeroed_heap c(2,3) l, unfolded a, unfolded n, where ws = "[Inr 9, Inl EINTR, Inr 11]" and ws' = "[]"
        and evs = "[Inr ''$2'', Inl EINTR, Inr (CRLF @ ''ok'' @ CRLF)]" and rs = "[]" and rest = "[]" and R = "R_bulk ''ok''"
        and net = "\<lparr>nt_writes = [Inr 9, Inl EINTR, Inr 11], nt_reads = [Inr ''$2'', Inl EINTR, Inr (CRLF @ ''ok'' @ CRLF)], nt_sent = []\<rparr>"
        and strerror = "\<lambda>_. []"] evs rm c(1)
    by (auto simp: SDS_MAX_PREALLOC_def)
qed

text \<open>When the server closes the connection inside the reply, the blocking call returns no
  reply and the context holds \<open>REDIS_ERR_EOF\<close>.\<close>

theorem blocking_call_eof:
  assumes h: "good_heap mem" "ample mem" and c: "calm c [] p" "ps_input p = []" "lens_ok argvlen argv"
    and n: "length (request (arg_bytes argvlen argv)) + 1 + SDS_MAX_PREALLOC < 2 ^ 31"
    and w: "takes_all ws (length (request (arg_bytes argvlen argv)))" "nt_writes net = ws @ ws'"
    and rd: "nt_reads net = evs @ Inr [] # rs" "list_all brings evs" "encode R = arrived evs @ u" "u \<noteq> []"
      "reply_ok 0 R" "room p (arrived evs)"
  shows "\<exists>c' net'. redisCommandArgv mem strerror c net argv argvlen = Done (c', net', None) \<and> x_err c' = REDIS_ERR_EOF"
proof -
  obtain c1 where c1: "redisAppendCommandArgv mem c argv argvlen = Done (c1, True)"
      "calm c1 (request (arg_bytes argvlen argv)) p"
    using append_argv_calm [OF h c(1,3)] n by auto
  have "length (request (arg_bytes argvlen argv)) < 2 ^ 31" using n by simp
  from get_reply_eof [OF h c1(2) c(2) this w rd, of strerror] c1 show ?thesis
    by (auto simp: redisCommandArgv_def redisBlockForReply_def calm_def)
qed

lemma blocking_call_eof_witness:
  "\<exists>c c' net'. redisContextInit zeroed True = Some c
    \<and> redisCommandArgv zeroed (\<lambda>_. []) c \<lparr>nt_writes = [Inr 20], nt_reads = [Inr ''$2'', Inr []], nt_sent = []\<rparr>
        [''GET'', ''k''] None = Done (c', net', None) \<and> x_err c' = REDIS_ERR_EOF"
proof -
  obtain c p where c: "redisContextInit zeroed True = Some c" "calm c [] p" "ps_input p = []"
    using fresh_context [OF zeroed_heap] by blast
  have l: "lens_ok None [''GET'', ''k'']" and a: "arg_bytes None [''GET'', ''k''] = [''GET'', ''k'']" by code_simp+
  have n: "length (request [''GET'', ''k'']) = 20" by (simp add: request_def bulk_def dec.simps)
  have e: "encode (R_bulk ''ok'') = arrived [Inr ''$2''] @ CRLF @ ''ok'' @ CRLF" by code_simp
  have rm: "room p (arrived [Inr ''$2''])" by (simp add: room_def c(3) SDS_MAX_PREALLOC_def)
  show ?thesis
    using blocking_call_eof [OF zeroed_heap c(2,3) l, unfolded a, unfolded n, where ws = "[Inr 20]" and ws' = "[]"
        and evs = "[Inr ''$2'']" and rs = "[]" and u = "CRLF @ ''ok'' @ CRLF" and R = "R_bulk ''ok''"
        and net = "\<lparr>nt_writes = [Inr 20], nt_reads = [Inr ''$2'', Inr []], nt_sent = []\<rparr>"
        and strerror = "\<lambda>_. []"] e rm c(1)
    by (auto simp: SDS_MAX_PREALLOC_def)
qed

section \<open>Commands over several slots\<close>



text \<open>Each sub command of a split is itself a request that the parser accepts: read into a
  fresh command it has the type of the command that was split and exactly those of its keys that
  have the slot of the sub command, in order.\<close>

theorem sub_requests_parse:
  assumes "holds_request r (w # as)" "\<forall>n. mem n" "command_type w = Some t" "key_args t (w # as) = Some ks"
    "2 \<le> length ks" "[] \<notin> set ks" "length (request (w # as)) + 32 < 2 ^ 31" "length num = 12"
  shows "\<exists>S. command_format_by_slot mem num i r = Some S \<and> (\<forall>c\<in>set (sp_commands S). \<forall>q.
    fresh_keys q \<and> c_result q = CMD_PARSE_OK \<and> c_cmd q = c_cmd c \<and> c_clen q = c_clen c \<longrightarrow>
    (\<exists>q'. redis_parse_cmd mem q = Some q' \<and> c_result q' = CMD_PARSE_OK \<and> c_type q' = t
      \<and> map (key_text (c_cmd q')) (hiarray_list (c_keys q')) = filter (\<lambda>k. int (key_slot k) = c_slot_num c) ks))"
proof -
  note kh = keys_are_heads [OF assms(4,5)]
  obtain S where S: "command_format_by_slot mem num i r = Some S"
      "\<forall>c\<in>set (sp_commands S). \<exists>s. is_part t (units t as) s c \<and> length (request (slot_part t (units t as) s)) < 2 ^ 31"
    using format_parts [OF assms] by blast
  have "\<exists>q'. redis_parse_cmd mem q = Some q' \<and> c_result q' = CMD_PARSE_OK \<and> c_type q' = t
      \<and> map (key_text (c_cmd q')) (hiarray_list (c_keys q')) = filter (\<lambda>k. int (key_slot k) = c_slot_num c) ks"
    if c: "c \<in> set (sp_commands S)" and q: "fresh_keys q" "c_result q = CMD_PARSE_OK" "c_cmd q = c_cmd c" "c_clen q = c_clen c" for c q
  proof -
    obtain s where s: "is_part t (units t as) s c" "length (request (slot_part t (units t as) s)) < 2 ^ 31" using S(2) c by blast
    define us where "us = concat (filter (\<lambda>u. key_slot (hd u) = s) (units t as))"
    have "holds_request q (sub_name t # us)" using s q by (simp add: holds_request_def is_part_def slot_part_def us_def)
    moreover have "key_args t (sub_name t # us) = Some (filter (\<lambda>k. key_slot k = s) ks)"
      using sub_request_keys [OF kh(1), of "units t as" s] units_length [OF kh(3)] kh(2) by (simp add: slot_part_def us_def)
    ultimately obtain q' where "redis_parse_cmd mem q = Some q'" "c_result q' = CMD_PARSE_OK" "c_type q' = t"
      "map (key_text (c_cmd q')) (hiarray_list (c_keys q')) = filter (\<lambda>k. key_slot k = s) ks"
      using parse_accepts [OF _ assms(2) sub_request_type [OF kh(1)]] by blast
    moreover have "c_slot_num c = int s" using s(1) by (simp add: is_part_def)
    ultimately show ?thesis by simp
  qed
  then show ?thesis using S(1) by blast
qed

lemma sub_requests_parse_witness:
  "\<exists>S. command_format_by_slot (\<lambda>_. True) (replicate 12 NUL) 1 (ready (request [''MSET'', ''a'', ''1'', ''b'', ''2'', ''{a}x'', ''3''])) = Some S
    \<and> (\<forall>c\<in>set (sp_commands S). \<forall>q. fresh_keys q \<and> c_result q = CMD_PARSE_OK \<and> c_cmd q = c_cmd c \<and> c_clen q = c_clen c \<longrightarrow>
    (\<exists>q'. redis_parse_cmd (\<lambda>_. True) q = Some q' \<and> c_result q' = CMD_PARSE_OK))"
proof -
  let ?as = "[''a'', ''1'', ''b'', ''2'', ''{a}x'', ''3'']"
  have h: "holds_request (ready (request (''MSET'' # ?as))) (''MSET'' # ?as)"
    by (rule ready_holds) (simp add: request_def bulk_def dec.simps)
  have t: "command_type ''MSET'' = Some CMD_REQ_REDIS_MSET" by code_simp
  have k: "key_args CMD_REQ_REDIS_MSET (''MSET'' # ?as) = Some [''a'', ''b'', ''{a}x'']" by code_simp
  have n: "length (request (''MSET'' # ?as)) + 32 < 2 ^ 31" by (simp add: request_def bulk_def dec.simps)
  have "\<forall>n. (\<lambda>_. True) (n::nat)" by simp
  from sub_requests_parse [OF h this t k _ _ n, where num = "replicate 12 NUL" and i = 1]
  obtain S where S: "command_format_by_slot (\<lambda>_. True) (replicate 12 NUL) 1 (ready (request (''MSET'' # ?as))) = Some S"
      "\<forall>c\<in>set (sp_commands S). \<forall>q. fresh_keys q \<and> c_result q = CMD_PARSE_OK \<and> c_cmd q = c_cmd c \<and> c_clen q = c_clen c \<longrightarrow>
    (\<exists>q'. redis_parse_cmd (\<lambda>_. True) q = Some q' \<and> c_result q' = CMD_PARSE_OK)"
    by (simp add: ex_simps) blast
  then show ?thesis by blast
qed



text \<open>The answers of a split DEL are added up: when every sub command is answered with the
  number of its keys that are stored, the merged reply is the number of keys of the whole
  command that are stored.\<close>

theorem split_del_adds:
  assumes "holds_request r (w # ks)" "\<forall>n. mem n" "command_type w = Some CMD_REQ_REDIS_DEL"
    "2 \<le> length ks" "[] \<notin> set ks" "length (request (w # ks)) + 32 < 2 ^ 31" "length num = 12"
    "1 < card (key_slot ` set ks)"
  shows "\<exists>S sq. command_format_by_slot mem num i r = Some S \<and> sp_seq S = Some sq \<and>
    command_post_fragment mem (sp_command S) sq
      (map (\<lambda>c. (nat (c_slot_num c),
        Some (tree_of (R_int (int (length (filter (\<lambda>k. stored k \<and> key_slot k = nat (c_slot_num c)) ks))))))) (sp_commands S))
    = Some (None, Some (tree_of (R_int (int (length (filter stored ks))))))"
proof -
  have k: "key_args CMD_REQ_REDIS_DEL (w # ks) = Some ks"
    using assms(4) arity_split by (auto simp: key_args_def pick_def Let_def)
  let ?slots = "filter (\<lambda>s. s \<in> key_slot ` set ks) [0..<REDIS_CLUSTER_SLOTS]"
  let ?us = "units CMD_REQ_REDIS_DEL ks"
  obtain c cs where S: "command_format_by_slot mem num i r = Some \<lparr>sp_slot = int (key_slot (last ks)), sp_error = None,
        sp_command = c, sp_seq = Some (map key_slot ks), sp_commands = cs\<rparr>" "parsed c CMD_REQ_REDIS_DEL ?us"
      and slots: "map (\<lambda>c. nat (c_slot_num c)) cs = ?slots"
    using format_several [OF assms(1-3) k assms(4-8)] by blast
  have c: "c_type c = CMD_REQ_REDIS_DEL" using S(2) by (simp add: parsed_def)
  let ?cnt = "\<lambda>s. length (filter (\<lambda>k. stored k \<and> key_slot k = s) ks)"
  let ?is = "map (\<lambda>s. int (?cnt s)) ?slots"
  have "sum_list (map ?cnt ?slots) = length (filter stored ks)"
    using count_by_slot [of ?slots ks stored] slots_cover [of ks] by auto
  then have tot: "sum_list ?is = int (length (filter stored ks))" using sum_list_of_nat_map [of ?cnt ?slots] by simp
  have fit: "int (length ks) < 2 ^ 63" using assms(6) length_bulks [of ks] by (simp add: request_def)
  have small: "int (length (filter stored ks)) < 2 ^ 63"
    by (rule order_le_less_trans [OF _ fit]) simp
  have "map snd (map (\<lambda>c. (nat (c_slot_num c), Some (tree_of (R_int (int (?cnt (nat (c_slot_num c)))))))) cs) = map (\<lambda>i. Some (tree_of (R_int i))) ?is"
    unfolding slots [symmetric] by (simp del: tree_of.simps)
  from merge_del [OF assms(2) c this _ small [folded tot], of "map key_slot ks"]
  show ?thesis using assms(8) S(1) tot by (auto simp del: tree_of.simps)
qed

lemma split_del_adds_witness:
  "\<exists>S sq. command_format_by_slot (\<lambda>_. True) (replicate 12 NUL) 1 (ready (request [''del'', ''a'', ''b'', ''{a}x''])) = Some S \<and> sp_seq S = Some sq \<and>
    command_post_fragment (\<lambda>_. True) (sp_command S) sq
      (map (\<lambda>c. (nat (c_slot_num c),
        Some (tree_of (R_int (int (length (filter (\<lambda>k. k \<noteq> ''b'' \<and> key_slot k = nat (c_slot_num c)) [''a'', ''b'', ''{a}x''])))))))
        (sp_commands S))
    = Some (None, Some (tree_of (R_int 2)))"
proof -
  let ?ks = "[''a'', ''b'', ''{a}x'']"
  have h: "holds_request (ready (request (''del'' # ?ks))) (''del'' # ?ks)"
    by (rule ready_holds) (simp add: request_def bulk_def dec.simps)
  have t: "command_type ''del'' = Some CMD_REQ_REDIS_DEL" by code_simp
  have n: "length (request (''del'' # ?ks)) + 32 < 2 ^ 31" by (simp add: request_def bulk_def dec.simps)
  have s: "map key_slot ?ks = [15495, 3300, 15495]" by code_simp
  have "key_slot ` set ?ks = {15495, 3300}" using s by auto
  then have card: "1 < card (key_slot ` set ?ks)" by simp
  have v: "int (length (filter (\<lambda>k. k \<noteq> ''b'') ?ks)) = 2" by code_simp
  show ?thesis using split_del_adds [OF h _ t _ _ n _ card, where num = "replicate 12 NUL" and i = 1 and mem = "\<lambda>_. True" and stored = "\<lambda>k. k \<noteq> ''b''"]
    unfolding v by (simp del: tree_of.simps filter.simps)
qed

section \<open>The dispatcher\<close>


definition sample_nodes :: nodes where
  "sample_nodes = [(''/files'', ''file''), (''/works'', ''work''), (''/elect'', ''elct''), (''/files/1'', ''r''), (''/files/2'', ''g''),
     (''/works/m'', ''s''), (''/works/a'', ''s''), (''/works/b'', ''s''),
     (''/elect/proc-1'', zero_filled 24 ''m''), (''/elect/proc-2'', zero_filled 24 ''a'')]"

lemma sample_dirs: "map_of sample_nodes g_path_files \<noteq> None" "map_of sample_nodes g_path_works \<noteq> None" "map_of sample_nodes g_path_elect \<noteq> None"
  by code_simp+

lemma sample_children:
  "children_of (map_of sample_nodes) g_path_files = {''1'', ''2''}"
  "children_of (map_of sample_nodes) g_path_works = {''m'', ''a'', ''b''}"
  "children_of (map_of sample_nodes) g_path_elect = {''proc-1'', ''proc-2''}"
  unfolding set_mem_children [symmetric] by code_simp+

lemma sample_names:
  "node g_path_files ''1'' = ''/files/1''" "node g_path_files ''2'' = ''/files/2''" "node g_path_works ''m'' = ''/works/m''"
  "node g_path_works ''a'' = ''/works/a''" "node g_path_works ''b'' = ''/works/b''"
  "node g_path_elect ''proc-1'' = ''/elect/proc-1''" "node g_path_elect ''proc-2'' = ''/elect/proc-2''"
  by code_simp+

lemma sample_ok:
  "\<forall>f\<in>children_of (map_of sample_nodes) g_path_files. file_ok (map_of sample_nodes) f"
  "\<forall>w\<in>children_of (map_of sample_nodes) g_path_works. worker_ok (map_of sample_nodes) w"
proof -
  have "calc_dest_no ''1'' = Inr ''0''" "calc_dest_no ''2'' = Inr ''1''" by code_simp+
  then show "\<forall>f\<in>children_of (map_of sample_nodes) g_path_files. file_ok (map_of sample_nodes) f"
    unfolding sample_children file_ok_def by (simp add: sample_names) (simp add: sample_nodes_def)
  show "\<forall>w\<in>children_of (map_of sample_nodes) g_path_works. worker_ok (map_of sample_nodes) w"
    unfolding sample_children worker_ok_def by (simp add: sample_names) (simp add: sample_nodes_def)
qed



definition logging_machine :: "bytes list machine" where
  "logging_machine = \<lparr>csv_recovery = \<lambda>n e. (0, e @ [''recover '' @ to_string n]), system_call = \<lambda>c e. e @ [c]\<rparr>"

definition sample_hosts :: scp_hosts where
  "sample_hosts = \<lparr>node_ip = replicate 5 ''ip'', node_user = replicate 5 ''u'', node_passwd = replicate 5 ''p'', node_dest = replicate 5 ''/d''\<rparr>"

definition ordered_nodes :: nodes where
  "ordered_nodes = (''/works/a'', zero_filled 512 (work_text (to_string 7))) # (''/files/7'', ''r'') # sample_nodes"


text \<open>C19: When every process has registered, all of them agree on the monitor: it is the process
  of the least election node, and each process that chooses a master becomes the monitor exactly
  if it is that one.\<close>

theorem one_monitor:
  assumes "keeper api tree" "tree z g_path_elect \<noteq> None" "children_of (tree z) g_path_elect \<noteq> {}"
    "\<forall>c\<in>children_of (tree z) g_path_elect. length c < 400 \<and> registered (tree z) c (who c)"
  shows "\<exists>m\<in>children_of (tree z) g_path_elect. (\<forall>c\<in>children_of (tree z) g_path_elect. m \<le> c) \<and>
    (\<forall>me mode. \<exists>z'. choose_mater api me g_path_elect \<lparr>pr_zk = z, pr_mode = mode\<rparr>
      = Inr \<lparr>pr_zk = z', pr_mode = (if me = who m then MODE_MONITOR else MODE_WORKER)\<rparr> \<and> tree z' = tree z)"
proof -
  let ?C = "children_of (tree z) g_path_elect"
  have fin: "finite ?C" using assms(1,2) by (metis List.finite_set keeper_children)
  then have m: "Min ?C \<in> ?C" "\<forall>c\<in>?C. Min ?C \<le> c" using assms(3) by auto
  have "\<exists>z'. choose_mater api me g_path_elect \<lparr>pr_zk = z, pr_mode = mode\<rparr>
      = Inr \<lparr>pr_zk = z', pr_mode = (if me = who (Min ?C) then MODE_MONITOR else MODE_WORKER)\<rparr> \<and> tree z' = tree z" for me mode
    using choose_mater_ok [OF assms(1), of "\<lparr>pr_zk = z, pr_mode = mode\<rparr>" "who (Min ?C)" me] assms(2-4) m(1)
    by (auto simp: eq_commute [of me])
  then show ?thesis using m by blast
qed

lemma one_monitor_witness:
  "\<exists>z'. choose_mater memory ''m'' g_path_elect \<lparr>pr_zk = sample_nodes, pr_mode = MODE_WORKER\<rparr> = Inr \<lparr>pr_zk = z', pr_mode = MODE_MONITOR\<rparr>"
proof -
  let ?who = "\<lambda>c. if c = ''proc-1'' then ''m'' else ''a''"
  have r: "\<forall>c\<in>children_of (map_of sample_nodes) g_path_elect. length c < 400 \<and> registered (map_of sample_nodes) c (?who c)"
    unfolding sample_children registered_def by (simp add: sample_names) (simp add: sample_nodes_def)
  have ne: "children_of (map_of sample_nodes) g_path_elect \<noteq> {}" by (simp add: sample_children)
  obtain m where m: "m \<in> {''proc-1'', ''proc-2''}" "\<forall>c\<in>{''proc-1'', ''proc-2''}. m \<le> c"
      "\<forall>me mode. \<exists>z'. choose_mater memory me g_path_elect \<lparr>pr_zk = sample_nodes, pr_mode = mode\<rparr>
        = Inr \<lparr>pr_zk = z', pr_mode = (if me = ?who m then MODE_MONITOR else MODE_WORKER)\<rparr> \<and> map_of z' = map_of sample_nodes"
    using one_monitor [OF memory_keeper sample_dirs(3) ne r] unfolding sample_children by blast
  have "\<not> ''proc-2'' \<le> ''proc-1''" by code_simp
  then have "m = ''proc-1''" using m(1,2) by auto
  then show ?thesis using m(3) [rule_format, of "''m''" MODE_WORKER] by auto
qed

text \<open>C20: The recovery after a process has gone does not make its file ready again: it writes to
  the name that follows the letter of the order, underscore included, so that no file whose name
  has no underscore changes.\<close>

theorem lost_file_stays_lost:
  assumes "keeper api tree" "recover api me z = Inr z'" "orders_begin (tree z)" "f \<noteq> []" "CHR ''_'' \<notin> set f"
  shows "tree z' (node g_path_files f) = tree z (node g_path_files f)"
  using recover_same_files [OF assms(1-3)] assms(4,5) by (simp add: same_files_def)

definition crashed_nodes :: nodes where
  "crashed_nodes = [(''/files'', ''file''), (''/works'', ''work''), (''/elect'', ''elct''), (''/files/1'', ''y''),
     (''/works/m'', ''s''), (''/works/a'', zero_filled 512 ''w_1_0''), (''/elect/proc-1'', zero_filled 24 ''m'')]"

lemma lost_file_stays_lost_witness:
  "\<exists>z'. recover memory ''m'' crashed_nodes = Inr z' \<and> map_of z' ''/works/a'' = None \<and> map_of z' ''/files/1'' = Some ''y''"
proof -
  define z' where "z' = projr (recover memory ''m'' crashed_nodes)"
  have r: "recover memory ''m'' crashed_nodes = Inr z' \<and> map_of z' ''/works/a'' = None"
    unfolding z'_def by code_simp
  have "orders_begin (map_of crashed_nodes)"
    by (auto simp: orders_begin_def crashed_nodes_def node_def g_path_works_def zero_filled_def split: if_splits)
  moreover have "node g_path_files ''1'' = ''/files/1''" by code_simp
  moreover have "map_of crashed_nodes ''/files/1'' = Some ''y''" by (simp add: crashed_nodes_def)
  ultimately show ?thesis
    using lost_file_stays_lost [OF memory_keeper conjunct1 [OF r], of "''1''"] r by auto
qed

end
